(* ===== verification/Prelude.thy ===== *)
theory Prelude
  imports Main "HOL-Library.Word"
begin

text \<open>
  Shared vocabulary of the development: names for the fixed-width C integer types, the
  alignment macros of \<^verbatim>\<open>src/commonlib/bsd/include/commonlib/bsd/helpers.h\<close> with their arithmetic
  meaning on \<^verbatim>\<open>unat\<close>, and generic facts on words, lists and options that several components use.
  The collection \<open>unat_simps\<close> gathers the rules that turn word comparisons and non-overflowing
  word arithmetic into arithmetic on naturals.
\<close>

unbundle bit_operations_syntax

type_synonym u8 = "8 word"
type_synonym u16 = "16 word"
type_synonym u32 = "32 word"
type_synonym u64 = "64 word"

text \<open>\<^verbatim>\<open>resource_t\<close>, \<^verbatim>\<open>size_t\<close> and \<^verbatim>\<open>uintptr_t\<close> are 64 bits wide on the modelled targets.\<close>

type_synonym resource_t = "64 word"
type_synonym size_t = "64 word"
type_synonym addr = "64 word"

named_theorems unat_simps "from words to naturals"

declare word_le_nat_alt [unat_simps]
declare word_less_nat_alt [unat_simps]

subsection \<open>Words as naturals\<close>

lemma unat_lt_64: "unat (x :: 64 word) < 18446744073709551616"
  using unsigned_less [of x, where ?'a = nat] by simp

lemma unat_le_64: "unat (x :: 64 word) \<le> 18446744073709551615"
  using unat_lt_64 [of x] by linarith

lemma uint_lt_64: "uint (x :: 64 word) < 18446744073709551616"
  using unsigned_less [of x, where ?'a = int] by simp

lemma unat_add_no_wrap:
  "unat x + unat y < 2 ^ LENGTH('a) \<Longrightarrow> unat (x + y :: 'a::len word) = unat x + unat y"
  by (simp add: unat_word_ariths)

lemma unat_sub_no_wrap:
  "unat y \<le> unat x \<Longrightarrow> unat (x - y :: 'a::len word) = unat x - unat y"
  by (simp add: unat_sub word_le_nat_alt)

lemma unat_plus_one:
  "x \<noteq> -1 \<Longrightarrow> unat (x + 1 :: 'a::len word) = Suc (unat x)"
  by (metis add.commute add_eq_0_iff unatSuc)

lemma unat_minus_one_64 [simp]: "unat (- 1 :: 64 word) = 18446744073709551615"
  by (simp add: unsigned_minus_1_eq_mask mask_eq_exp_minus_1)

lemma word_neq_max_unat: "(x :: 64 word) \<noteq> - 1 \<longleftrightarrow> unat x < 18446744073709551615"
proof
  assume "x \<noteq> - 1"
  then have "unat x \<noteq> unat (- 1 :: 64 word)" by (metis word_unat_eq_iff)
  then show "unat x < 18446744073709551615"
    using unat_le_64 [of x] unat_minus_one_64 by linarith
next
  assume "unat x < 18446744073709551615"
  then show "x \<noteq> - 1" using unat_minus_one_64 by auto
qed

lemma unat_suc_64:
  "unat (x :: 64 word) < 18446744073709551615 \<Longrightarrow> unat (x + 1) = unat x + 1"
  using unat_plus_one [of x] word_neq_max_unat [of x] by simp

lemma unat_pred:
  "unat (x :: 'a::len word) > 0 \<Longrightarrow> unat (x - 1) = unat x - 1"
  by (subst unat_sub_no_wrap) auto

lemma unat_inc_lt: "(e :: 64 word) < x \<Longrightarrow> unat (e + 1) = unat e + 1"
  by (intro unat_suc_64) (use unat_lt_64 [of x] in \<open>simp add: word_less_nat_alt\<close>)

lemma unat_dec_gt: "(a :: 64 word) < x \<Longrightarrow> unat (x - 1) = unat x - 1"
  by (intro unat_pred) (simp add: word_less_nat_alt)

lemma unat_of_nat_lt: "n < 2 ^ LENGTH('a) \<Longrightarrow> unat (of_nat n :: 'a::len word) = n"
  by (simp add: unat_of_nat take_bit_nat_eq_self)

lemma word_eq_unatI: "unat x = unat y \<Longrightarrow> x = (y :: 'a::len word)"
  by (simp add: word_unat_eq_iff)

subsection \<open>Narrowing, and signed values\<close>

lemma ucast_down_of_int: "ucast (word_of_int k :: u64) = (word_of_int k :: u32)"
  by transfer simp

lemma ucast_down_neg: "ucast (- of_nat n :: u64) = (- of_nat n :: u32)"
  using ucast_down_of_int [of "- int n"] by simp

lemma ucast_down_of_nat: "ucast (of_nat n :: u64) = (of_nat n :: u32)"
  using ucast_down_of_int [of "int n"] by simp

lemma scast_u32_u64: "(scast (x :: u32) :: u64) = word_of_int (sint x)"
  by simp

lemma sint_of_int_u32:
  assumes "- (2 ^ 31) \<le> k" "k < 2 ^ 31"
  shows "sint (word_of_int k :: u32) = k"
  using assms by (simp add: signed_of_int signed_take_bit_int_eq_self)

lemma sint_of_int_u64:
  assumes "- (2 ^ 63) \<le> k" "k < 2 ^ 63"
  shows "sint (word_of_int k :: u64) = k"
  using assms by (simp add: signed_of_int signed_take_bit_int_eq_self)

subsection \<open>Assertions\<close>

text \<open>
  \<^verbatim>\<open>assert\<close> of \<^verbatim>\<open>src/include/assert.h\<close>: continue with \<open>k\<close>, unless the condition is false and the build
  makes assertions fatal; \<open>None\<close> is the machine that has halted.
\<close>

definition c_assert :: "bool \<Rightarrow> bool \<Rightarrow> 'a option \<Rightarrow> 'a option" where
  "c_assert fatal c k = (if c \<or> \<not> fatal then k else None)"

lemma c_assert_True [simp]: "c_assert fatal True k = k"
  by (simp add: c_assert_def)

subsection \<open>The alignment macros\<close>

text \<open>
  \<^verbatim>\<open>ALIGN_DOWN\<close>, \<^verbatim>\<open>ALIGN_UP\<close> and \<^verbatim>\<open>IS_ALIGNED\<close> mask with \<open>a - 1\<close>; \<^verbatim>\<open>POWER_OF_2(x)\<close> shifts a 64-bit one.
  The facts below give their meaning when \<open>a\<close> is a power of two, the only use the code makes of them.
\<close>

definition ALIGN_UP :: "u64 \<Rightarrow> u64 \<Rightarrow> u64" where
  "ALIGN_UP x a = (x + (a - 1)) AND NOT (a - 1)"

definition ALIGN_DOWN :: "u64 \<Rightarrow> u64 \<Rightarrow> u64" where
  "ALIGN_DOWN x a = x AND NOT (a - 1)"

definition IS_ALIGNED :: "u64 \<Rightarrow> u64 \<Rightarrow> bool" where
  "IS_ALIGNED x a \<longleftrightarrow> x AND (a - 1) = 0"

definition IS_POWER_OF_2 :: "'a::len word \<Rightarrow> bool" where
  "IS_POWER_OF_2 x \<longleftrightarrow> x AND (x - 1) = 0"

definition POWER_OF_2 :: "u8 \<Rightarrow> u64" where
  "POWER_OF_2 x = push_bit (unat x) 1"

definition MIN_word :: "'a::len word \<Rightarrow> 'a word \<Rightarrow> 'a word" where
  "MIN_word a b = (if a < b then a else b)"

lemma mod_once: "m \<le> a \<Longrightarrow> a < m + m \<Longrightarrow> a mod m = a - (m :: nat)"
  by (simp add: le_mod_geq)

lemma wrap_below: "x < m \<Longrightarrow> 0 < p \<Longrightarrow> x + (p - 1) - m < (p :: nat)"
  by linarith

lemma round_up_ge: "0 < d \<Longrightarrow> x \<le> (x + (d - 1)) div d * (d :: nat)"
  using div_mult_mod_eq [of "x + (d - 1)" d] mod_less_divisor [of d "x + (d - 1)"]
  by linarith

lemma round_up_lt: "0 < d \<Longrightarrow> (x + (d - 1)) div d * (d :: nat) < x + d"
  using div_times_less_eq_dividend [of "x + (d - 1)" d] by linarith

lemma word_and_not_mask:
  "x AND NOT (mask n) = push_bit n (drop_bit n (x :: 'a::len word))"
  by (rule bit_word_eqI) (auto simp: bit_simps)

lemma unat_push_drop:
  "unat (push_bit n (drop_bit n (x :: 'a::len word))) = unat x div 2 ^ n * 2 ^ n"
proof -
  have "unat x div 2 ^ n * 2 ^ n \<le> unat x" by simp
  also have "unat x < 2 ^ LENGTH('a)" by (rule unsigned_less)
  finally have lt: "unat x div 2 ^ n * 2 ^ n < 2 ^ LENGTH('a)" .
  show ?thesis
  proof (cases "n < LENGTH('a)")
    case True
    have "unat (push_bit n (drop_bit n x)) = push_bit n (unat (drop_bit n x)) mod 2 ^ LENGTH('a)"
      by (simp only: unsigned_push_bit_eq take_bit_eq_mod)
    also have "\<dots> = (unat x div 2 ^ n * 2 ^ n) mod 2 ^ LENGTH('a)"
      by (simp only: unat_drop_bit_eq) (simp only: drop_bit_eq_div push_bit_eq_mult)
    finally show ?thesis using lt by simp
  next
    case False
    then have "(2::nat) ^ LENGTH('a) \<le> 2 ^ n" by (simp add: power_increasing)
    with unsigned_less [of x, where ?'a = nat] have "unat x < 2 ^ n" by (rule less_le_trans)
    then have "unat x div 2 ^ n = 0" by simp
    moreover have "push_bit n (drop_bit n x) = 0"
      using False by (auto intro!: bit_word_eqI simp: bit_simps)
    ultimately show ?thesis by simp
  qed
qed

lemma POWER_OF_2_eq: "POWER_OF_2 a = 2 ^ unat a"
  by (simp add: POWER_OF_2_def)

lemma unat_ALIGN_DOWN: "unat (ALIGN_DOWN x (2 ^ n)) = unat x div 2 ^ n * 2 ^ n"
  unfolding ALIGN_DOWN_def mask_eq_exp_minus_1 [symmetric] word_and_not_mask unat_push_drop ..

lemma ALIGN_DOWN_le: "ALIGN_DOWN x (2 ^ n) \<le> x"
  by (simp add: word_le_nat_alt unat_ALIGN_DOWN)

lemma unat_mask_64: "n \<le> 64 \<Longrightarrow> unat (mask n :: 64 word) = 2 ^ n - 1"
proof -
  assume "n \<le> 64"
  then have "uint (mask n :: 64 word) = 2 ^ n - 1"
    by (simp only: uint_mask_eq) (simp add: min_def mask_eq_exp_minus_1)
  then have "unat (mask n :: 64 word) = nat (2 ^ n - 1)" by (simp only: unat_eq_nat_uint)
  then show ?thesis by (simp add: nat_diff_distrib nat_power_eq)
qed

text \<open>\<^verbatim>\<open>ALIGN_UP\<close> rounds up as long as the rounded value is representable; otherwise it wraps to 0.\<close>

lemma unat_ALIGN_UP:
  assumes "n \<le> 64"
  shows "unat (ALIGN_UP x (2 ^ n)) =
    (if unat x + (2 ^ n - 1) < 2 ^ 64 then (unat x + (2 ^ n - 1)) div 2 ^ n * 2 ^ n else 0)"
proof -
  have eq: "unat (ALIGN_UP x (2 ^ n)) = unat (x + mask n) div 2 ^ n * 2 ^ n"
    unfolding ALIGN_UP_def mask_eq_exp_minus_1 [symmetric] word_and_not_mask unat_push_drop ..
  show ?thesis
  proof (cases "unat x + (2 ^ n - 1) < 2 ^ 64")
    case True
    then have "unat (x + mask n) = unat x + (2 ^ n - 1)"
      by (subst unat_add_no_wrap) (simp_all add: unat_mask_64 assms)
    with True eq show ?thesis by simp
  next
    case False
    have p: "(2::nat) ^ n \<le> 2 ^ 64" using assms by (rule power_increasing) simp
    have "unat (x + mask n) = (unat x + (2 ^ n - 1)) mod 2 ^ 64"
      by (simp add: unat_word_ariths unat_mask_64 assms)
    also have "\<dots> = unat x + (2 ^ n - 1) - 2 ^ 64"
    proof -
      have "unat x + (2 ^ n - 1) < 2 ^ 64 + 2 ^ 64"
        using p unat_lt_64 [of x] by simp
      with False show ?thesis by (intro mod_once) simp_all
    qed
    also have "\<dots> < 2 ^ n"
      by (rule wrap_below) (use unat_lt_64 [of x] in simp_all)
    finally have "unat (x + mask n) div 2 ^ n = 0" by simp
    with False eq show ?thesis by simp
  qed
qed

lemma ALIGN_UP_ge:
  assumes "n \<le> 64" and "unat x + (2 ^ n - 1) < 2 ^ 64"
  shows "x \<le> ALIGN_UP x (2 ^ n)"
proof -
  have "unat x \<le> (unat x + (2 ^ n - 1)) div 2 ^ n * 2 ^ n"
    by (rule round_up_ge) simp
  with assms show ?thesis by (simp add: word_le_nat_alt unat_ALIGN_UP)
qed

end
