(* ===== verification/Device.thy ===== *)
theory Device
  imports Prelude
begin

text \<open>
  The device tree data the memory map is built from: \<^verbatim>\<open>struct resource\<close> and the part of
  \<^verbatim>\<open>struct device\<close> the resource walk reads, the resource flags of
  \<^verbatim>\<open>src/include/device/resource.h\<close>, and \<^verbatim>\<open>search_global_resources\<close> of
  \<^verbatim>\<open>src/device/device_util.c\<close>. The C callback with its \<^verbatim>\<open>void *gp\<close> context is a state
  transformer; the walk folds it over the resources it selects.
\<close>

record resource =
  res_base :: resource_t
  res_size :: resource_t
  res_limit :: resource_t
  res_flags :: u64
  res_index :: u64
  res_align :: u8
  res_gran :: u8

record device =
  dev_enabled :: bool
  dev_path_type :: nat
  dev_class :: u32
  resource_list :: "resource list"

definition DEVICE_PATH_PCI :: nat where "DEVICE_PATH_PCI = 2"

definition IORESOURCE_MEM :: u64 where "IORESOURCE_MEM = 0x200"
definition IORESOURCE_PREFETCH :: u64 where "IORESOURCE_PREFETCH = 0x1000"
definition IORESOURCE_CACHEABLE :: u64 where "IORESOURCE_CACHEABLE = 0x4000"
definition IORESOURCE_SUBTRACTIVE :: u64 where "IORESOURCE_SUBTRACTIVE = 0x40000"
definition IORESOURCE_SOFT_RESERVE :: u64 where "IORESOURCE_SOFT_RESERVE = 0x200000"
definition IORESOURCE_RESERVE :: u64 where "IORESOURCE_RESERVE = 0x10000000"
definition IORESOURCE_ASSIGNED :: u64 where "IORESOURCE_ASSIGNED = 0x40000000"

lemmas ioresource_defs =
  IORESOURCE_MEM_def IORESOURCE_CACHEABLE_def IORESOURCE_SUBTRACTIVE_def
  IORESOURCE_SOFT_RESERVE_def IORESOURCE_RESERVE_def IORESOURCE_ASSIGNED_def

fun search_resources ::
  "u64 \<Rightarrow> u64 \<Rightarrow> (device \<Rightarrow> resource \<Rightarrow> 's \<Rightarrow> 's) \<Rightarrow> device \<Rightarrow> resource list \<Rightarrow> 's \<Rightarrow> 's" where
  "search_resources type_mask type search dev [] s = s"
| "search_resources type_mask type search dev (res # rest) s =
     (if res_flags res AND type_mask \<noteq> type then search_resources type_mask type search dev rest s
      else if res_flags res AND IORESOURCE_SUBTRACTIVE \<noteq> 0
        then search_resources type_mask type search dev rest s
      else if res_flags res AND IORESOURCE_ASSIGNED = 0
        then search_resources type_mask type search dev rest s
      else search_resources type_mask type search dev rest (search dev res s))"

fun search_global_resources ::
  "device list \<Rightarrow> u64 \<Rightarrow> u64 \<Rightarrow> (device \<Rightarrow> resource \<Rightarrow> 's \<Rightarrow> 's) \<Rightarrow> 's \<Rightarrow> 's" where
  "search_global_resources [] type_mask type search s = s"
| "search_global_resources (curdev # devs) type_mask type search s =
     (if \<not> dev_enabled curdev then search_global_resources devs type_mask type search s
      else search_global_resources devs type_mask type search
        (search_resources type_mask type search curdev (resource_list curdev) s))"

text \<open>An invariant the callback keeps survives the walk.\<close>

lemma search_resources_inv:
  assumes "\<And>dev res s. P s \<Longrightarrow> P (search dev res s)" and "P s"
  shows "P (search_resources type_mask type search dev rs s)"
  using assms(2) by (induction rs arbitrary: s) (auto intro: assms(1))

lemma search_global_resources_inv:
  assumes "\<And>dev res s. P s \<Longrightarrow> P (search dev res s)" and "P s"
  shows "P (search_global_resources devs type_mask type search s)"
  using assms(2)
  by (induction devs arbitrary: s) (auto intro!: search_resources_inv [where P = P] assms(1))

text \<open>The resources of enabled devices the walk hands to its callback, in order.\<close>

definition res_selected :: "u64 \<Rightarrow> u64 \<Rightarrow> resource \<Rightarrow> bool" where
  "res_selected type_mask type res \<longleftrightarrow>
     res_flags res AND type_mask = type \<and> res_flags res AND IORESOURCE_SUBTRACTIVE = 0 \<and>
     res_flags res AND IORESOURCE_ASSIGNED \<noteq> 0"

definition selected_resources :: "device list \<Rightarrow> u64 \<Rightarrow> u64 \<Rightarrow> (device \<times> resource) list" where
  "selected_resources devs type_mask type =
     concat (map (\<lambda>d. map (Pair d) (filter (res_selected type_mask type) (resource_list d)))
       (filter dev_enabled devs))"

lemma search_resources_fold:
  "search_resources type_mask type search dev rs s =
   fold (\<lambda>(d, r). search d r) (map (Pair dev) (filter (res_selected type_mask type) rs)) s"
  by (induction rs arbitrary: s) (auto simp: res_selected_def)

lemma search_global_resources_fold:
  "search_global_resources devs type_mask type search s =
   fold (\<lambda>(d, r). search d r) (selected_resources devs type_mask type) s"
  by (induction devs arbitrary: s) (auto simp: selected_resources_def search_resources_fold)

end
