(* ===== verification/AddressMap.thy ===== *)
theory AddressMap
  imports Prelude
begin

text \<open>
  The contract of a map from addresses to tags that is built by writing ranges over each other:
  a write tags the addresses it hits and leaves the others, keeps the invariant, and takes a bounded
  amount of room. Clients that write a sequence of ranges use the lemmas proved here once; the
  range list of \<^verbatim>\<open>src/lib/memrange.c\<close> is the provider.
\<close>

text \<open>The tag of the last range in a sequence that hits an address.\<close>

definition last_tag ::
  "(addr \<Rightarrow> addr \<Rightarrow> addr \<Rightarrow> bool) \<Rightarrow> (addr \<times> addr \<times> 't) list \<Rightarrow> addr \<Rightarrow> 't option" where
  "last_tag hits rs x = map_option (\<lambda>(b, n, t). t) (find (\<lambda>(b, n, t). hits b n x) (rev rs))"

lemma find_append:
  "find P (xs @ ys) = (case find P xs of None \<Rightarrow> find P ys | Some x \<Rightarrow> Some x)"
  by (induction xs) auto

lemma last_tag_Nil [simp]: "last_tag hits [] x = None"
  by (simp add: last_tag_def)

lemma last_tag_snoc:
  "last_tag hits (rs @ [(b, n, t)]) x = (if hits b n x then Some t else last_tag hits rs x)"
  by (simp add: last_tag_def)

lemma last_tag_Cons:
  "last_tag hits ((b, n, t) # rs) x =
    (case last_tag hits rs x of None \<Rightarrow> if hits b n x then Some t else None | Some u \<Rightarrow> Some u)"
  by (auto simp: last_tag_def find_append split: option.splits)

locale address_map =
  fixes lookup :: "'s \<Rightarrow> addr \<Rightarrow> 't option"
    and put :: "'s \<Rightarrow> addr \<Rightarrow> addr \<Rightarrow> 't \<Rightarrow> 's"
    and inv :: "'s \<Rightarrow> bool"
    and room :: "'s \<Rightarrow> nat"
    and hits :: "addr \<Rightarrow> addr \<Rightarrow> addr \<Rightarrow> bool"
    and cost :: nat
  assumes put_inv:
      "inv s \<Longrightarrow> cost \<le> room s \<Longrightarrow> unat b + unat n \<le> 2 ^ 64 \<Longrightarrow> inv (put s b n t)"
    and put_lookup:
      "inv s \<Longrightarrow> cost \<le> room s \<Longrightarrow> unat b + unat n \<le> 2 ^ 64 \<Longrightarrow>
       lookup (put s b n t) x = (if hits b n x then Some t else lookup s x)"
    and put_room:
      "inv s \<Longrightarrow> cost \<le> room s \<Longrightarrow> unat b + unat n \<le> 2 ^ 64 \<Longrightarrow> room s \<le> room (put s b n t) + cost"
begin

definition puts :: "(addr \<times> addr \<times> 't) list \<Rightarrow> 's \<Rightarrow> 's" where
  "puts rs s = fold (\<lambda>(b, n, t) s. put s b n t) rs s"

definition in_bounds :: "(addr \<times> addr \<times> 't) list \<Rightarrow> bool" where
  "in_bounds rs \<longleftrightarrow> (\<forall>(b, n, t)\<in>set rs. unat b + unat n \<le> 2 ^ 64)"

lemma puts_append: "puts (rs @ rs') s = puts rs' (puts rs s)"
  by (simp add: puts_def)

lemma puts_facts:
  assumes "inv s" "cost * length rs \<le> room s" "in_bounds rs"
  shows "inv (puts rs s)"
    and "room s \<le> room (puts rs s) + cost * length rs"
    and "lookup (puts rs s) x =
      (case last_tag hits rs x of None \<Rightarrow> lookup s x | Some t \<Rightarrow> Some t)"
proof -
  have "inv (puts rs s) \<and> room s \<le> room (puts rs s) + cost * length rs \<and>
    lookup (puts rs s) x = (case last_tag hits rs x of None \<Rightarrow> lookup s x | Some t \<Rightarrow> Some t)"
    using assms
  proof (induction rs arbitrary: s)
    case Nil
    then show ?case by (simp add: puts_def last_tag_def)
  next
    case (Cons r rs)
    obtain b n t where r: "r = (b, n, t)" using prod_cases3 by blast
    have v: "unat b + unat n \<le> 2 ^ 64" "in_bounds rs"
      using Cons.prems(3) by (auto simp: in_bounds_def r)
    have c: "cost \<le> room s" using Cons.prems(2) by simp
    note p = put_inv [OF Cons.prems(1) c v(1), of t] put_lookup [OF Cons.prems(1) c v(1), of t]
      put_room [OF Cons.prems(1) c v(1), of t]
    have "cost * length rs \<le> room (put s b n t)" using p(3) Cons.prems(2) by simp
    from Cons.IH [OF p(1) this v(2)] p show ?case
      by (auto simp: puts_def r last_tag_Cons split: option.splits)
  qed
  then show "inv (puts rs s)" "room s \<le> room (puts rs s) + cost * length rs"
    "lookup (puts rs s) x = (case last_tag hits rs x of None \<Rightarrow> lookup s x | Some t \<Rightarrow> Some t)"
    by blast+
qed

end

end
