(* ===== verification/MemRange.thy ===== *)
theory MemRange
  imports Device AddressMap
begin

text \<open>
  \<^verbatim>\<open>src/lib/memrange.c\<close> and \<^verbatim>\<open>src/include/memrange.h\<close>: an address space as a sorted list of
  tagged, inclusive ranges. The singly linked \<^verbatim>\<open>struct range_entry\<close> chain is a list, its
  \<^verbatim>\<open>next\<close> pointer the list order; \<^verbatim>\<open>free_list\<close> is the list of recycled cells. Cells come from the
  free list first and then, in the payload loader only, from \<^verbatim>\<open>malloc\<close>: the number of cells
  \<^verbatim>\<open>malloc\<close> can still deliver is threaded through the operations (0 in every other stage). All
  arithmetic is on 64-bit words and wraps as in the code.
\<close>

subsection \<open>Data\<close>

record range_entry =
  r_begin :: resource_t
  r_end :: resource_t
  r_tag :: u64

record memranges =
  entries :: "range_entry list"
  free_list :: "range_entry list"
  align :: u8

text \<open>The cells an operation can draw on: the free list and what \<^verbatim>\<open>malloc\<close> still delivers.\<close>

type_synonym cells = "range_entry list \<times> nat"

type_synonym mst = "memranges \<times> nat"

definition range_entry_base :: "range_entry \<Rightarrow> resource_t" where
  "range_entry_base r = r_begin r"

definition range_entry_end :: "range_entry \<Rightarrow> resource_t" where
  "range_entry_end r = r_end r + 1"

definition range_entry_size :: "range_entry \<Rightarrow> resource_t" where
  "range_entry_size r = r_end r - r_begin r + 1"

definition range_entry_tag :: "range_entry \<Rightarrow> u64" where
  "range_entry_tag r = r_tag r"

definition range_entry_update_tag :: "range_entry \<Rightarrow> u64 \<Rightarrow> range_entry" where
  "range_entry_update_tag r new_tag = r\<lparr>r_tag := new_tag\<rparr>"

definition range_entry_init :: "resource_t \<Rightarrow> resource_t \<Rightarrow> u64 \<Rightarrow> range_entry" where
  "range_entry_init incl_begin excl_end tag =
     \<lparr>r_begin = incl_begin, r_end = excl_end - 1, r_tag = tag\<rparr>"

definition memranges_is_empty :: "memranges \<Rightarrow> bool" where
  "memranges_is_empty ranges \<longleftrightarrow> entries ranges = []"

subsection \<open>Operations\<close>

fun alloc_range :: "cells \<Rightarrow> cells option" where
  "alloc_range (r # fl, h) = Some (fl, h)"
| "alloc_range ([], Suc h) = Some ([], h)"
| "alloc_range ([], 0) = None"

text \<open>
  \<open>range_list_add\<close> links a new entry in front of \<open>rest\<close>, the chain its \<^verbatim>\<open>prev_ptr\<close> points to; without
  a cell the chain stays as it was.
\<close>

definition range_list_add ::
  "cells \<Rightarrow> resource_t \<Rightarrow> resource_t \<Rightarrow> u64 \<Rightarrow> range_entry list \<Rightarrow> range_entry list \<times> cells" where
  "range_list_add c begin1 end1 tag rest =
     (case alloc_range c of
        None \<Rightarrow> (rest, c)
      | Some c' \<Rightarrow> (\<lparr>r_begin = begin1, r_end = end1, r_tag = tag\<rparr> # rest, c'))"

fun merge_neighbor_entries ::
  "range_entry list \<Rightarrow> range_entry list \<Rightarrow> range_entry list \<times> range_entry list" where
  "merge_neighbor_entries (prev # cur # rest) fl =
     (if r_begin cur \<le> r_end prev + 1 \<and> r_tag prev = r_tag cur
      then merge_neighbor_entries (prev\<lparr>r_end := r_end cur\<rparr> # rest) (cur # fl)
      else (case merge_neighbor_entries (cur # rest) fl of (es, fl') \<Rightarrow> (prev # es, fl')))"
| "merge_neighbor_entries es fl = (es, fl)"

fun remove_memranges ::
  "range_entry list \<Rightarrow> resource_t \<Rightarrow> resource_t \<Rightarrow> cells \<Rightarrow> range_entry list \<times> cells" where
  "remove_memranges [] begin1 end1 c = ([], c)"
| "remove_memranges (cur # rest) begin1 end1 c =
     (if end1 < r_begin cur then (cur # rest, c)
      else if r_end cur < begin1
        then (case remove_memranges rest begin1 end1 c of (es, c') \<Rightarrow> (cur # es, c'))
      else if begin1 \<le> r_begin cur \<and> r_end cur \<le> end1
        then remove_memranges rest (r_end cur + 1) end1 (cur # fst c, snd c)
      else
        let begin2 = (if begin1 \<le> r_begin cur then r_begin cur else begin1);
            tmp_end = (if r_end cur < end1 then r_end cur else end1)
        in if r_begin cur < begin2 \<and> tmp_end < r_end cur
           then (case range_list_add c (end1 + 1) (r_end cur) (r_tag cur) rest of
                   (es, c') \<Rightarrow> (cur\<lparr>r_end := begin2 - 1\<rparr> # es, c'))
           else
             let cur1 = (if begin2 = r_begin cur then cur\<lparr>r_begin := tmp_end + 1\<rparr> else cur);
                 cur2 = (if tmp_end = r_end cur1 then cur1\<lparr>r_end := begin2 - 1\<rparr> else cur1)
             in (case remove_memranges rest begin2 end1 c of (es, c') \<Rightarrow> (cur2 # es, c')))"

text \<open>The insertion loop of \<^verbatim>\<open>merge_add_memranges\<close>: past every entry that starts at or below \<open>end1\<close>.\<close>

fun insert_range ::
  "range_entry list \<Rightarrow> resource_t \<Rightarrow> resource_t \<Rightarrow> u64 \<Rightarrow> cells \<Rightarrow> range_entry list \<times> cells" where
  "insert_range [] begin1 end1 tag c = range_list_add c begin1 end1 tag []"
| "insert_range (cur # rest) begin1 end1 tag c =
     (if end1 < r_begin cur then range_list_add c begin1 end1 tag (cur # rest)
      else (case insert_range rest begin1 end1 tag c of (es, c') \<Rightarrow> (cur # es, c')))"

definition remove_action :: "mst \<Rightarrow> resource_t \<Rightarrow> resource_t \<Rightarrow> u64 \<Rightarrow> mst" where
  "remove_action s begin1 end1 unused =
     (case s of (ranges, heap) \<Rightarrow>
        case remove_memranges (entries ranges) begin1 end1 (free_list ranges, heap) of
          (es, fl, h) \<Rightarrow> (ranges\<lparr>entries := es, free_list := fl\<rparr>, h))"

definition merge_add_memranges :: "mst \<Rightarrow> resource_t \<Rightarrow> resource_t \<Rightarrow> u64 \<Rightarrow> mst" where
  "merge_add_memranges s begin1 end1 tag =
     (case remove_action s begin1 end1 (- 1) of (ranges, heap) \<Rightarrow>
        case insert_range (entries ranges) begin1 end1 tag (free_list ranges, heap) of
          (es, fl, h) \<Rightarrow>
            (case merge_neighbor_entries es fl of
               (es', fl') \<Rightarrow> (ranges\<lparr>entries := es', free_list := fl'\<rparr>, h)))"

definition memranges_update_tag :: "memranges \<Rightarrow> u64 \<Rightarrow> u64 \<Rightarrow> memranges" where
  "memranges_update_tag ranges old_tag new_tag =
     (case merge_neighbor_entries
             (map (\<lambda>r. if range_entry_tag r = old_tag then range_entry_update_tag r new_tag else r)
                (entries ranges))
             (free_list ranges) of
        (es, fl) \<Rightarrow> ranges\<lparr>entries := es, free_list := fl\<rparr>)"

definition do_action ::
  "mst \<Rightarrow> resource_t \<Rightarrow> resource_t \<Rightarrow> u64 \<Rightarrow>
   (mst \<Rightarrow> resource_t \<Rightarrow> resource_t \<Rightarrow> u64 \<Rightarrow> mst) \<Rightarrow> mst" where
  "do_action s base size1 tag action =
     (if size1 = 0 then s
      else let a = POWER_OF_2 (align (fst s));
               begin1 = ALIGN_DOWN base a;
               end0 = begin1 + size1 + (base - begin1);
               end1 = ALIGN_UP end0 a - 1
           in action s begin1 end1 tag)"

definition memranges_create_hole :: "mst \<Rightarrow> resource_t \<Rightarrow> resource_t \<Rightarrow> mst" where
  "memranges_create_hole s base size1 = do_action s base size1 (- 1) remove_action"

definition memranges_insert :: "mst \<Rightarrow> resource_t \<Rightarrow> resource_t \<Rightarrow> u64 \<Rightarrow> mst" where
  "memranges_insert s base size1 tag = do_action s base size1 tag merge_add_memranges"

definition collect_ranges ::
  "u64 \<Rightarrow> (device \<Rightarrow> resource \<Rightarrow> bool) option \<Rightarrow> device \<Rightarrow> resource \<Rightarrow> mst \<Rightarrow> mst" where
  "collect_ranges tag filt dev res s =
     (if res_size res = 0 then s
      else if (case filt of None \<Rightarrow> True | Some f \<Rightarrow> f dev res)
        then memranges_insert s (res_base res) (res_size res) tag
      else s)"

definition memranges_add_resources_filter ::
  "device list \<Rightarrow> mst \<Rightarrow> u64 \<Rightarrow> u64 \<Rightarrow> u64 \<Rightarrow> (device \<Rightarrow> resource \<Rightarrow> bool) option \<Rightarrow> mst" where
  "memranges_add_resources_filter all_devices s mask1 match tag filt =
     search_global_resources all_devices (mask1 OR IORESOURCE_MEM) (match OR IORESOURCE_MEM)
       (collect_ranges tag filt) s"

definition memranges_add_resources ::
  "device list \<Rightarrow> mst \<Rightarrow> u64 \<Rightarrow> u64 \<Rightarrow> u64 \<Rightarrow> mst" where
  "memranges_add_resources all_devices s mask1 match tag =
     memranges_add_resources_filter all_devices s mask1 match tag None"

text \<open>The caller's array of spare cells is pushed one by one, so the free list holds it reversed.\<close>

definition memranges_init_empty_with_alignment :: "range_entry list \<Rightarrow> u8 \<Rightarrow> memranges" where
  "memranges_init_empty_with_alignment to_free align1 =
     \<lparr>entries = [], free_list = fold (#) to_free [], align = align1\<rparr>"

definition memranges_init_with_alignment ::
  "device list \<Rightarrow> nat \<Rightarrow> u64 \<Rightarrow> u64 \<Rightarrow> u64 \<Rightarrow> u8 \<Rightarrow> mst" where
  "memranges_init_with_alignment all_devices heap mask1 match tag align1 =
     memranges_add_resources all_devices
       (memranges_init_empty_with_alignment [] align1, heap) mask1 match tag"

text \<open>
  Cloning appends a copy of every entry; once no cell is left, no later one is found either, and the
  clone stays a prefix.
\<close>

fun clone_entries :: "range_entry list \<Rightarrow> cells \<Rightarrow> range_entry list \<times> cells" where
  "clone_entries [] c = ([], c)"
| "clone_entries (r # rest) c =
     (case range_list_add c (r_begin r) (r_end r) (r_tag r) [] of
        (new, c') \<Rightarrow> (case clone_entries rest c' of (es, c'') \<Rightarrow> (new @ es, c'')))"

definition memranges_clone :: "memranges \<Rightarrow> nat \<Rightarrow> mst" where
  "memranges_clone oldranges heap =
     (let newranges = memranges_init_empty_with_alignment [] (align oldranges) in
      case clone_entries (entries oldranges) (free_list newranges, heap) of
        (es, fl, h) \<Rightarrow> (newranges\<lparr>entries := es, free_list := fl\<rparr>, h))"

fun teardown_entries :: "range_entry list \<Rightarrow> range_entry list \<Rightarrow> range_entry list" where
  "teardown_entries [] fl = fl"
| "teardown_entries (r # rest) fl = teardown_entries rest (r # fl)"

definition memranges_teardown :: "memranges \<Rightarrow> memranges" where
  "memranges_teardown ranges =
     ranges\<lparr>entries := [], free_list := teardown_entries (entries ranges) (free_list ranges)\<rparr>"

text \<open>
  The hole filling loop runs with \<open>prev\<close> the entry already passed. \<open>fill_tail\<close> is the code after the
  loop, which covers the space between the last entry visited and the limit.
\<close>

definition fill_tail ::
  "range_entry \<Rightarrow> range_entry list \<Rightarrow> resource_t \<Rightarrow> u64 \<Rightarrow> cells \<Rightarrow> range_entry list \<times> cells" where
  "fill_tail prev rest limit tag c =
     (if range_entry_end prev < limit
      then (case range_list_add c (range_entry_end prev) (limit - 1) tag rest of
              (es, c') \<Rightarrow> (prev # es, c'))
      else (prev # rest, c))"

fun fill_loop ::
  "range_entry \<Rightarrow> range_entry list \<Rightarrow> resource_t \<Rightarrow> u64 \<Rightarrow> cells \<Rightarrow> range_entry list \<times> cells" where
  "fill_loop prev [] limit tag c = fill_tail prev [] limit tag c"
| "fill_loop prev (cur # rest) limit tag c =
     (case (if range_entry_end prev \<noteq> r_begin cur
            then (let end0 = r_begin cur - 1;
                      end1 = (if limit \<le> end0 then limit - 1 else end0)
                  in range_list_add c (range_entry_end prev) end1 tag [])
            else ([], c)) of
        (new, c') \<Rightarrow>
          (case (if limit \<le> r_begin cur then fill_tail cur rest limit tag c'
                 else fill_loop cur rest limit tag c') of
             (es, c'') \<Rightarrow> (prev # new @ es, c'')))"

definition memranges_fill_holes_up_to :: "mst \<Rightarrow> resource_t \<Rightarrow> u64 \<Rightarrow> mst" where
  "memranges_fill_holes_up_to s limit tag =
     (case s of (ranges, heap) \<Rightarrow>
        case (case entries ranges of
                [] \<Rightarrow> ([], free_list ranges, heap)
              | prev # rest \<Rightarrow> fill_loop prev rest limit tag (free_list ranges, heap)) of
          (es, fl, h) \<Rightarrow>
            (case merge_neighbor_entries es fl of
               (es', fl') \<Rightarrow> (ranges\<lparr>entries := es', free_list := fl'\<rparr>, h)))"

fun find_entry_loop ::
  "range_entry list \<Rightarrow> resource_t \<Rightarrow> resource_t \<Rightarrow> u8 \<Rightarrow> u64 \<Rightarrow> bool \<Rightarrow> range_entry option
   \<Rightarrow> range_entry option" where
  "find_entry_loop [] limit size1 align1 tag last1 last_entry = last_entry"
| "find_entry_loop (r # rest) limit size1 align1 tag last1 last_entry =
     (if r_tag r \<noteq> tag then find_entry_loop rest limit size1 align1 tag last1 last_entry
      else let base = ALIGN_UP (r_begin r) (POWER_OF_2 align1);
               end1 = base + size1 - 1
           in if r_end r < end1 then find_entry_loop rest limit size1 align1 tag last1 last_entry
              else if limit < end1 then last_entry
              else if \<not> last1 then Some r
              else find_entry_loop rest limit size1 align1 tag last1 (Some r))"

definition memranges_find_entry ::
  "memranges \<Rightarrow> resource_t \<Rightarrow> resource_t \<Rightarrow> u8 \<Rightarrow> u64 \<Rightarrow> bool \<Rightarrow> range_entry option" where
  "memranges_find_entry ranges limit size1 align1 tag last1 =
     (if size1 = 0 then None
      else find_entry_loop (entries ranges) limit size1 align1 tag last1 None)"

definition stolen_base ::
  "range_entry \<Rightarrow> resource_t \<Rightarrow> resource_t \<Rightarrow> u8 \<Rightarrow> bool \<Rightarrow> resource_t" where
  "stolen_base r limit size1 align1 from_top =
     (if from_top
      then ALIGN_DOWN (MIN_word limit (r_end r) - size1 + 1) (POWER_OF_2 align1)
      else ALIGN_UP (r_begin r) (POWER_OF_2 align1))"

text \<open>The result is the stolen base, or \<^verbatim>\<open>None\<close> for the return value \<^verbatim>\<open>false\<close>.\<close>

definition memranges_steal ::
  "mst \<Rightarrow> resource_t \<Rightarrow> resource_t \<Rightarrow> u8 \<Rightarrow> u64 \<Rightarrow> bool \<Rightarrow> resource_t option \<times> mst" where
  "memranges_steal s limit size1 align1 tag from_top =
     (case memranges_find_entry (fst s) limit size1 align1 tag from_top of
        None \<Rightarrow> (None, s)
      | Some r \<Rightarrow>
          let base = stolen_base r limit size1 align1 from_top
          in (Some base, memranges_create_hole s base size1))"

subsection \<open>Meaning and invariants\<close>

text \<open>
  \<open>tag_at es x\<close> is the tag of the range that holds address \<open>x\<close>. \<open>ranges_ok\<close> is the invariant of the
  list: every range is non-empty, and ranges are disjoint and in increasing order.
\<close>

fun tag_at :: "range_entry list \<Rightarrow> addr \<Rightarrow> u64 option" where
  "tag_at [] x = None"
| "tag_at (r # rs) x = (if r_begin r \<le> x \<and> x \<le> r_end r then Some (r_tag r) else tag_at rs x)"

definition ranges_ok :: "range_entry list \<Rightarrow> bool" where
  "ranges_ok es \<longleftrightarrow>
     (\<forall>r\<in>set es. r_begin r \<le> r_end r) \<and> sorted_wrt (\<lambda>r s. r_end r < r_begin s) es"

text \<open>No two neighbours that touch carry the same tag: the list is as short as it can be.\<close>

fun no_mergeable :: "range_entry list \<Rightarrow> bool" where
  "no_mergeable (p # c # rest) =
     (\<not> (r_end p + 1 = r_begin c \<and> r_tag p = r_tag c) \<and> no_mergeable (c # rest))"
| "no_mergeable _ = True"

definition cells_left :: "cells \<Rightarrow> nat" where
  "cells_left c = length (fst c) + snd c"

lemma ranges_ok_Nil [simp]: "ranges_ok []"
  by (simp add: ranges_ok_def)

lemma ranges_ok_Cons:
  "ranges_ok (r # rs) \<longleftrightarrow>
   r_begin r \<le> r_end r \<and> (\<forall>s\<in>set rs. r_end r < r_begin s) \<and> ranges_ok rs"
  by (auto simp: ranges_ok_def)

lemma ranges_ok_Cons2:
  "ranges_ok (r # s # rs) \<longleftrightarrow>
   r_begin r \<le> r_end r \<and> r_end r < r_begin s \<and> ranges_ok (s # rs)"
  by (auto simp: ranges_ok_def intro: less_trans less_le_trans)

lemma tag_at_below: "(\<And>r. r \<in> set es \<Longrightarrow> x < r_begin r) \<Longrightarrow> tag_at es x = None"
  by (induction es) (auto simp: not_le)

lemma tag_at_append: "tag_at (es @ fs) x = (case tag_at es x of None \<Rightarrow> tag_at fs x | Some t \<Rightarrow> Some t)"
  by (induction es) auto

lemma tag_at_Some_mem:
  "tag_at es x = Some t \<Longrightarrow> \<exists>r\<in>set es. r_begin r \<le> x \<and> x \<le> r_end r \<and> r_tag r = t"
  by (induction es) (auto split: if_splits)

lemma tag_at_mem:
  "ranges_ok es \<Longrightarrow> r \<in> set es \<Longrightarrow> r_begin r \<le> x \<Longrightarrow> x \<le> r_end r \<Longrightarrow> tag_at es x = Some (r_tag r)"
  by (induction es) (auto simp: ranges_ok_Cons)

lemma tag_at_None_iff:
  "tag_at es x = None \<longleftrightarrow> (\<forall>r\<in>set es. \<not> (r_begin r \<le> x \<and> x \<le> r_end r))"
  by (induction es) auto

lemma alloc_range_Some: "0 < cells_left c \<Longrightarrow> \<exists>c'. alloc_range c = Some c' \<and> cells_left c' = cells_left c - 1"
  by (cases c rule: alloc_range.cases) (auto simp: cells_left_def)

lemma range_list_add_enough:
  assumes "0 < cells_left c"
  shows "\<exists>c'. range_list_add c b e t rest = (\<lparr>r_begin = b, r_end = e, r_tag = t\<rparr> # rest, c') \<and>
    cells_left c' = cells_left c - 1"
  using alloc_range_Some [OF assms] by (auto simp: range_list_add_def)

subsubsection \<open>Merging neighbours\<close>

lemma merge_step_ok:
  "ranges_ok (prev # cur # rest) \<Longrightarrow> ranges_ok (prev\<lparr>r_end := r_end cur\<rparr> # rest)"
  by (auto simp: ranges_ok_Cons)

lemma merge_mem_bounds:
  "ranges_ok es \<Longrightarrow> merge_neighbor_entries es fl = (es', fl') \<Longrightarrow> r \<in> set es' \<Longrightarrow>
   (\<exists>s\<in>set es. r_begin r = r_begin s) \<and> (\<exists>s\<in>set es. r_end r = r_end s)"
proof (induction es fl arbitrary: es' fl' r rule: merge_neighbor_entries.induct)
  case (1 prev cur rest fl)
  show ?case
  proof (cases "r_begin cur \<le> r_end prev + 1 \<and> r_tag prev = r_tag cur")
    case True
    from "1.IH"(1) [OF True merge_step_ok [OF "1.prems"(1)] _ "1.prems"(3)] "1.prems"(2) True show ?thesis by auto
  next
    case False
    from "1.prems"(1) have "ranges_ok (cur # rest)" by (simp add: ranges_ok_Cons)
    from "1.IH"(2) [OF False this] "1.prems" False show ?thesis
      by (fastforce split: prod.splits)
  qed
qed auto

lemma merge_hd:
  "es \<noteq> [] \<Longrightarrow> merge_neighbor_entries es fl = (es', fl') \<Longrightarrow>
   \<exists>r rs. es' = r # rs \<and> r_begin r = r_begin (hd es) \<and> r_tag r = r_tag (hd es)"
  by (induction es fl arbitrary: es' fl' rule: merge_neighbor_entries.induct)
    (auto split: if_splits prod.splits)

lemma merge_step_exact:
  assumes "ranges_ok (prev # cur # rest)"
  shows "r_begin cur \<le> r_end prev + 1 \<longleftrightarrow> r_end prev + 1 = r_begin cur"
proof
  assume le: "r_begin cur \<le> r_end prev + 1"
  from assms have lt: "r_end prev < r_begin cur" by (simp add: ranges_ok_Cons)
  then have "unat (r_end prev + 1) = unat (r_end prev) + 1" by (rule unat_inc_lt)
  with lt le show "r_end prev + 1 = r_begin cur"
    by (intro word_eq_unatI) (simp add: unat_simps)
qed simp

lemma merge_step_tag_at:
  assumes ok: "ranges_ok (prev # cur # rest)"
    and le: "r_begin cur \<le> r_end prev + 1" and t: "r_tag prev = r_tag cur"
  shows "tag_at (prev\<lparr>r_end := r_end cur\<rparr> # rest) x = tag_at (prev # cur # rest) x"
proof -
  from merge_step_exact [OF ok] le have eq: "r_end prev + 1 = r_begin cur" by simp
  from ok have lt: "r_end prev < r_begin cur" by (simp add: ranges_ok_Cons)
  then have "unat (r_end prev + 1) = unat (r_end prev) + 1" by (rule unat_inc_lt)
  then have "unat (r_begin cur) = unat (r_end prev) + 1" by (simp add: eq)
  with ok have "(r_begin prev \<le> x \<and> x \<le> r_end cur) \<longleftrightarrow>
      (r_begin prev \<le> x \<and> x \<le> r_end prev) \<or> (r_begin cur \<le> x \<and> x \<le> r_end cur)"
    by (simp add: ranges_ok_Cons unat_simps) linarith
  with t show ?thesis by auto
qed

lemma merge_ok:
  "ranges_ok es \<Longrightarrow> merge_neighbor_entries es fl = (es', fl') \<Longrightarrow> ranges_ok es'"
proof (induction es fl arbitrary: es' fl' rule: merge_neighbor_entries.induct)
  case (1 prev cur rest fl)
  show ?case
  proof (cases "r_begin cur \<le> r_end prev + 1 \<and> r_tag prev = r_tag cur")
    case True
    from "1.IH"(1) [OF True merge_step_ok [OF "1.prems"(1)]] "1.prems"(2) True show ?thesis by auto
  next
    case False
    obtain es2 fl2 where m: "merge_neighbor_entries (cur # rest) fl = (es2, fl2)" by fastforce
    from "1.prems"(1) have ok: "ranges_ok (cur # rest)" by (simp add: ranges_ok_Cons)
    from "1.IH"(2) [OF False ok m] have "ranges_ok es2" .
    moreover have "\<forall>s\<in>set es2. r_end prev < r_begin s"
      using merge_mem_bounds [OF ok m] "1.prems"(1) by (fastforce simp: ranges_ok_Cons)
    ultimately show ?thesis
      using "1.prems" m False by (auto simp: ranges_ok_Cons)
  qed
qed auto

lemma merge_tag_at:
  "ranges_ok es \<Longrightarrow> merge_neighbor_entries es fl = (es', fl') \<Longrightarrow> tag_at es' x = tag_at es x"
proof (induction es fl arbitrary: es' fl' rule: merge_neighbor_entries.induct)
  case (1 prev cur rest fl)
  show ?case
  proof (cases "r_begin cur \<le> r_end prev + 1 \<and> r_tag prev = r_tag cur")
    case True
    from "1.IH"(1) [OF True merge_step_ok [OF "1.prems"(1)]] "1.prems"(2) True
    have "tag_at es' x = tag_at (prev\<lparr>r_end := r_end cur\<rparr> # rest) x" by auto
    moreover have "tag_at (prev\<lparr>r_end := r_end cur\<rparr> # rest) x = tag_at (prev # cur # rest) x"
      using merge_step_tag_at [OF "1.prems"(1)] True by blast
    ultimately show ?thesis by simp
  next
    case False
    obtain es2 fl2 where m: "merge_neighbor_entries (cur # rest) fl = (es2, fl2)" by fastforce
    from "1.prems"(1) have ok: "ranges_ok (cur # rest)" by (simp add: ranges_ok_Cons)
    from "1.IH"(2) [OF False ok m] show ?thesis using "1.prems" m False by auto
  qed
qed auto

lemma merge_no_mergeable:
  "ranges_ok es \<Longrightarrow> merge_neighbor_entries es fl = (es', fl') \<Longrightarrow> no_mergeable es'"
proof (induction es fl arbitrary: es' fl' rule: merge_neighbor_entries.induct)
  case (1 prev cur rest fl)
  show ?case
  proof (cases "r_begin cur \<le> r_end prev + 1 \<and> r_tag prev = r_tag cur")
    case True
    from "1.IH"(1) [OF True merge_step_ok [OF "1.prems"(1)]] "1.prems"(2) True show ?thesis by auto
  next
    case False
    obtain es2 fl2 where m: "merge_neighbor_entries (cur # rest) fl = (es2, fl2)" by fastforce
    from "1.prems"(1) have ok: "ranges_ok (cur # rest)" by (simp add: ranges_ok_Cons)
    from "1.IH"(2) [OF False ok m] have "no_mergeable es2" .
    moreover obtain c es3 where "es2 = c # es3" "r_begin c = r_begin cur" "r_tag c = r_tag cur"
      using merge_hd [OF _ m] by auto
    ultimately show ?thesis using "1.prems" m False merge_step_exact [OF "1.prems"(1)] by auto
  qed
qed auto

lemma merge_cells:
  "merge_neighbor_entries es fl = (es', fl') \<Longrightarrow> length es' + length fl' = length es + length fl"
  by (induction es fl arbitrary: es' fl' rule: merge_neighbor_entries.induct)
    (auto split: if_splits prod.splits)

subsubsection \<open>Removing a range\<close>

lemma remove_nothing:
  "(\<And>r. r \<in> set es \<Longrightarrow> e < r_begin r) \<Longrightarrow> remove_memranges es b e c = (es, c)"
  by (cases es) auto

text \<open>On an ordered list one step of the removal loop is one of six cases.\<close>

lemma remove_Cons:
  assumes "ranges_ok (cur # rest)"
  shows "remove_memranges (cur # rest) b e c =
    (if e < r_begin cur then (cur # rest, c)
     else if r_end cur < b then apfst ((#) cur) (remove_memranges rest b e c)
     else if b \<le> r_begin cur \<and> r_end cur \<le> e
       then remove_memranges rest (r_end cur + 1) e (cur # fst c, snd c)
     else if b \<le> r_begin cur then (cur\<lparr>r_begin := e + 1\<rparr> # rest, c)
     else if e < r_end cur
       then apfst ((#) (cur\<lparr>r_end := b - 1\<rparr>)) (range_list_add c (e + 1) (r_end cur) (r_tag cur) rest)
     else apfst ((#) (cur\<lparr>r_end := b - 1\<rparr>)) (remove_memranges rest b e c))"
proof -
  have trim: "remove_memranges rest (r_begin cur) e c = (rest, c)" if "e < r_end cur"
    by (rule remove_nothing) (use that assms in \<open>auto simp: ranges_ok_Cons\<close>)
  have le: "r_begin cur \<le> r_end cur" using assms by (simp add: ranges_ok_Cons)
  consider "e < r_begin cur" | "\<not> e < r_begin cur" "r_end cur < b"
    | "\<not> e < r_begin cur" "\<not> r_end cur < b" "b \<le> r_begin cur" "r_end cur \<le> e"
    | "\<not> e < r_begin cur" "\<not> r_end cur < b" "b \<le> r_begin cur" "e < r_end cur"
    | "\<not> e < r_begin cur" "\<not> r_end cur < b" "r_begin cur < b" "e < r_end cur"
    | "\<not> e < r_begin cur" "\<not> r_end cur < b" "r_begin cur < b" "r_end cur \<le> e"
    by (meson not_le)
  then show ?thesis
  proof cases
    case 1 then show ?thesis by simp
  next
    case 2 then show ?thesis by (simp add: apfst_def map_prod_def)
  next
    case 3 then show ?thesis by simp
  next
    case 4
    then have "\<not> r_end cur < e" "e \<noteq> r_end cur" "\<not> r_end cur \<le> e" by auto
    with 4 trim show ?thesis by (simp add: Let_def)
  next
    case 5
    then have "\<not> r_end cur < e" "\<not> b \<le> r_begin cur" by auto
    with 5 show ?thesis by (simp add: Let_def apfst_def map_prod_def)
  next
    case 6
    then have "\<not> b \<le> r_begin cur" "b \<noteq> r_begin cur" "\<not> e < r_end cur"
      "(if r_end cur < e then r_end cur else e) = r_end cur" by auto
    with 6 show ?thesis by (simp add: Let_def apfst_def map_prod_def)
  qed
qed

text \<open>
  The loop moves its lower bound behind each range it drops, so the bound may pass \<open>e\<close> once nothing
  is left to remove; \<open>span_ok\<close> says what stays true.
\<close>

definition span_ok :: "range_entry list \<Rightarrow> resource_t \<Rightarrow> resource_t \<Rightarrow> bool" where
  "span_ok es b e \<longleftrightarrow> b \<le> e \<or> (\<forall>r\<in>set es. e < r_begin r)"

lemma span_ok_full:
  assumes "ranges_ok (cur # rest)" "r_end cur \<le> e"
  shows "span_ok rest (r_end cur + 1) e"
proof (cases "r_end cur = e")
  case True
  with assms(1) show ?thesis by (auto simp: span_ok_def ranges_ok_Cons)
next
  case False
  with assms(2) show ?thesis by (simp add: span_ok_def inc_le)
qed

lemma remove_induct [consumes 2, case_names nil below above full front hole rear]:
  assumes "ranges_ok es" and "span_ok es b e"
    and nil: "\<And>b c. P [] b c ([], c)"
    and below: "\<And>cur rest b c. ranges_ok (cur # rest) \<Longrightarrow> e < r_begin cur \<Longrightarrow>
      P (cur # rest) b c (cur # rest, c)"
    and above: "\<And>cur rest b c res. ranges_ok (cur # rest) \<Longrightarrow> b \<le> e \<Longrightarrow> r_end cur < b \<Longrightarrow>
      P rest b c res \<Longrightarrow> P (cur # rest) b c (apfst ((#) cur) res)"
    and full: "\<And>cur rest b c res. ranges_ok (cur # rest) \<Longrightarrow> b \<le> r_begin cur \<Longrightarrow> r_end cur \<le> e \<Longrightarrow>
      P rest (r_end cur + 1) (cur # fst c, snd c) res \<Longrightarrow> P (cur # rest) b c res"
    and front: "\<And>cur rest b c. ranges_ok (cur # rest) \<Longrightarrow> b \<le> r_begin cur \<Longrightarrow> r_begin cur \<le> e \<Longrightarrow>
      e < r_end cur \<Longrightarrow> P (cur # rest) b c (cur\<lparr>r_begin := e + 1\<rparr> # rest, c)"
    and hole: "\<And>cur rest b c. ranges_ok (cur # rest) \<Longrightarrow> b \<le> e \<Longrightarrow> r_begin cur < b \<Longrightarrow>
      e < r_end cur \<Longrightarrow>
      P (cur # rest) b c
        (apfst ((#) (cur\<lparr>r_end := b - 1\<rparr>)) (range_list_add c (e + 1) (r_end cur) (r_tag cur) rest))"
    and rear: "\<And>cur rest b c res. ranges_ok (cur # rest) \<Longrightarrow> b \<le> e \<Longrightarrow> r_begin cur < b \<Longrightarrow>
      b \<le> r_end cur \<Longrightarrow> r_end cur \<le> e \<Longrightarrow> P rest b c res \<Longrightarrow>
      P (cur # rest) b c (apfst ((#) (cur\<lparr>r_end := b - 1\<rparr>)) res)"
  shows "P es b c (remove_memranges es b e c)"
  using assms(1,2)
proof (induction es arbitrary: b c)
  case Nil show ?case using nil by simp
next
  case (Cons cur rest)
  note ok = Cons.prems(1)
  from ok have ok': "ranges_ok rest" by (simp add: ranges_ok_Cons)
  have span: "b \<le> e" "span_ok rest b e" if "\<not> e < r_begin cur"
    using Cons.prems(2) that by (auto simp: span_ok_def)
  note ih = Cons.IH [OF ok']
  show ?case
    unfolding remove_Cons [OF ok]
    using below [OF ok] above [OF ok _ _ ih] full [OF ok _ _ ih [OF span_ok_full [OF ok]]]
      front [OF ok] hole [OF ok] rear [OF ok _ _ _ _ ih] span
    by (simp add: not_less not_le)
qed

lemma range_list_add_cases:
  "range_list_add c b e t rest = (rest, c) \<and> cells_left c = 0 \<or>
   (\<exists>c'. range_list_add c b e t rest = (\<lparr>r_begin = b, r_end = e, r_tag = t\<rparr> # rest, c') \<and>
      cells_left c = Suc (cells_left c'))"
  by (cases c rule: alloc_range.cases) (auto simp: range_list_add_def cells_left_def)

lemma remove_mem:
  assumes "ranges_ok es" "span_ok es b e"
  shows "\<forall>r\<in>set (fst (remove_memranges es b e c)).
    \<exists>s\<in>set es. r_begin s \<le> r_begin r \<and> r_end r \<le> r_end s \<and> r_tag r = r_tag s"
  using assms
proof (induction rule: remove_induct)
  case (hole cur rest b c)
  then show ?case
    using range_list_add_cases [of c "e + 1" "r_end cur" "r_tag cur" rest] unat_inc_lt [OF hole(4)]
      unat_dec_gt [OF hole(3)]
    by (auto simp: unat_simps)
next
  case (front cur rest b c)
  then show ?case using unat_inc_lt [OF front(4)] by (auto simp: unat_simps)
next
  case (rear cur rest b c res)
  then show ?case using unat_dec_gt [OF rear(3)] by (auto simp: unat_simps)
qed auto

lemma remove_begin_ge:
  assumes "ranges_ok (cur # rest)" "span_ok rest b e" "r \<in> set (fst (remove_memranges rest b e c))"
  shows "r_end cur < r_begin r"
proof -
  from assms(1) have "ranges_ok rest" by (simp add: ranges_ok_Cons)
  from remove_mem [OF this assms(2)] assms(3) obtain s where "s \<in> set rest" "r_begin s \<le> r_begin r"
    by blast
  with assms(1) show ?thesis by (auto simp: ranges_ok_Cons)
qed

lemma remove_ok:
  assumes "ranges_ok es" "span_ok es b e"
  shows "ranges_ok (fst (remove_memranges es b e c)) \<and>
    (\<forall>lo. (\<forall>s\<in>set es. lo < r_begin s) \<longrightarrow>
      (\<forall>r\<in>set (fst (remove_memranges es b e c)). lo < r_begin r))"
  using assms
proof (induction rule: remove_induct)
  case (hole cur rest b c)
  let ?hi = "\<lparr>r_begin = e + 1, r_end = r_end cur, r_tag = r_tag cur\<rparr>"
  note u = unat_inc_lt [OF hole(4)] unat_dec_gt [OF hole(3)]
  from hole u have "r_begin cur \<le> b - 1" "b - 1 < e + 1" "e + 1 \<le> r_end cur" "r_begin cur < e + 1"
    by (simp_all add: unat_simps)
  with hole(1) have "ranges_ok (cur\<lparr>r_end := b - 1\<rparr> # ?hi # rest)" "ranges_ok (cur\<lparr>r_end := b - 1\<rparr> # rest)"
    by (auto simp: ranges_ok_Cons intro: less_le_trans less_trans)
  with \<open>r_begin cur < e + 1\<close> show ?case
    using range_list_add_cases [of c "e + 1" "r_end cur" "r_tag cur" rest]
    by (auto intro: less_trans)
next
  case (front cur rest b c)
  then have "e + 1 \<le> r_end cur" "r_begin cur < e + 1"
    using unat_inc_lt [OF front(4)] by (simp_all add: unat_simps)
  with front(1) show ?case by (auto simp: ranges_ok_Cons intro: less_trans)
next
  case (rear cur rest b c res)
  then have "r_begin cur \<le> b - 1" "b - 1 < r_end cur"
    using unat_dec_gt [OF rear(3)] by (simp_all add: unat_simps)
  with rear show ?case by (auto simp: ranges_ok_Cons intro: less_trans)
qed (auto simp: ranges_ok_Cons intro: less_le_trans)

lemma remove_cells:
  assumes "ranges_ok es" "span_ok es b e"
  shows "length (fst (remove_memranges es b e c)) + cells_left (snd (remove_memranges es b e c)) =
    length es + cells_left c"
  using assms
proof (induction rule: remove_induct)
  case (hole cur rest b c)
  then show ?case
    using range_list_add_cases [of c "e + 1" "r_end cur" "r_tag cur" rest] by auto
qed (auto simp: cells_left_def)

text \<open>With a cell to spare the removal is exact; without one it never leaves too much.\<close>

lemma remove_tag_at:
  assumes "ranges_ok es" "span_ok es b e"
  shows "0 < cells_left c \<longrightarrow> tag_at (fst (remove_memranges es b e c)) x =
    (if b \<le> x \<and> x \<le> e then None else tag_at es x)"
  using assms
proof (induction rule: remove_induct)
  case (below cur rest b c)
  then have "x < r_begin r" if "x \<le> e" "r \<in> set (cur # rest)" for r
    using that by (auto simp: ranges_ok_Cons intro: le_less_trans less_le_trans)
  then have "tag_at (cur # rest) x = None" if "x \<le> e" by (intro tag_at_below) (use that in blast)
  then show ?case by (simp del: tag_at.simps)
next
  case (full cur rest b c res)
  have low: "tag_at rest x = None" if "x \<le> r_end cur"
    by (rule tag_at_below) (use full(1) that in \<open>auto simp: ranges_ok_Cons intro: le_less_trans\<close>)
  show ?case
  proof (cases "tag_at rest x")
    case None
    with full show ?thesis by (auto simp: cells_left_def intro: order_trans)
  next
    case (Some t)
    with low have "r_end cur < x" by (cases "x \<le> r_end cur") auto
    moreover from this full(1,2) have "b \<le> x" "r_end cur + 1 \<le> x"
      by (auto simp: ranges_ok_Cons inc_le intro: order_trans less_imp_le)
    ultimately show ?thesis using full(4) by (auto simp: cells_left_def)
  qed
next
  case (hole cur rest b c)
  have low: "tag_at rest x = None" if "x \<le> e"
    by (rule tag_at_below)
      (use hole(1,4) that in \<open>auto simp: ranges_ok_Cons intro: le_less_trans less_trans\<close>)
  have inc: "e + 1 \<le> x \<longleftrightarrow> \<not> x \<le> e" and dec: "x \<le> b - 1 \<longleftrightarrow> \<not> b \<le> x"
    using unat_inc_lt [OF hole(4)] unat_dec_gt [OF hole(3)] hole(3) by (auto simp: unat_simps)
  show ?case
  proof
    assume "0 < cells_left c"
    then obtain c' where add: "range_list_add c (e + 1) (r_end cur) (r_tag cur) rest =
        (\<lparr>r_begin = e + 1, r_end = r_end cur, r_tag = r_tag cur\<rparr> # rest, c')"
      using range_list_add_enough by blast
    consider "b \<le> x" "x \<le> e" | "\<not> b \<le> x" "x \<le> e" "x \<le> r_end cur" | "b \<le> x" "\<not> x \<le> e" "r_begin cur \<le> x"
      using hole(2-4) by (meson le_less_trans less_imp_le not_le order_trans)
    then show "tag_at (fst (apfst ((#) (cur\<lparr>r_end := b - 1\<rparr>))
        (range_list_add c (e + 1) (r_end cur) (r_tag cur) rest))) x =
      (if b \<le> x \<and> x \<le> e then None else tag_at (cur # rest) x)"
      by cases (simp_all add: add inc dec low)
  qed
next
  case (front cur rest b c)
  have low: "tag_at rest x = None" if "x \<le> e"
    by (rule tag_at_below)
      (use front(1,4) that in \<open>auto simp: ranges_ok_Cons intro: le_less_trans less_trans\<close>)
  have inc: "e + 1 \<le> x \<longleftrightarrow> \<not> x \<le> e"
    using unat_inc_lt [OF front(4)] by (auto simp: unat_simps)
  show ?case
  proof (cases "x \<le> e")
    case True
    have "\<not> r_begin cur \<le> x" if "\<not> b \<le> x" using front(2) that by auto
    with True inc low show ?thesis by simp
  next
    case False
    then have "r_begin cur \<le> x" using front(3) by auto
    with False inc show ?thesis by simp
  qed
next
  case (rear cur rest b c res)
  have dec: "x \<le> b - 1 \<longleftrightarrow> \<not> b \<le> x"
    using unat_dec_gt [OF rear(3)] rear(3) by (auto simp: unat_simps)
  show ?case
  proof (cases "b \<le> x")
    case True
    have "\<not> x \<le> r_end cur" if "\<not> x \<le> e" using rear(5) that by auto
    with True dec rear(6) show ?thesis by simp
  next
    case False
    then have "x \<le> r_end cur" using rear(4) by auto
    with False dec rear(6) show ?thesis by simp
  qed
next
  case (above cur rest b c res)
  have "\<not> x \<le> r_end cur" if "b \<le> x" using above(3) that by auto
  with above(4) show ?case by simp
qed simp

lemma remove_length:
  assumes "ranges_ok es" "span_ok es b e"
  shows "length (fst (remove_memranges es b e c)) \<le> Suc (length es)"
  using assms
proof (induction rule: remove_induct)
  case (hole cur rest b c)
  then show ?case
    using range_list_add_cases [of c "e + 1" "r_end cur" "r_tag cur" rest] by auto
qed auto

subsubsection \<open>Inserting a range\<close>

lemma insert_range_begins:
  assumes "insert_range es b e t c = (es', c')" "r \<in> set es'"
  shows "r \<in> set es \<or> r = \<lparr>r_begin = b, r_end = e, r_tag = t\<rparr>"
  using assms
proof (induction es arbitrary: es' c')
  case Nil
  then show ?case using range_list_add_cases [of c b e t "[]"] by auto
next
  case (Cons cur rest)
  then show ?case using range_list_add_cases [of c b e t "cur # rest"]
    by (auto split: if_splits prod.splits)
qed

lemma insert_range_ok:
  assumes "insert_range es b e t c = (es', c')" "ranges_ok es" "b \<le> e"
    and "\<forall>r\<in>set es. r_end r < b \<or> e < r_begin r"
  shows "ranges_ok es'"
  using assms
proof (induction es arbitrary: es' c')
  case Nil
  then show ?case using range_list_add_cases [of c b e t "[]"] by (auto simp: ranges_ok_Cons)
next
  case (Cons cur rest)
  show ?case
  proof (cases "e < r_begin cur")
    case True
    have "\<forall>s\<in>set (cur # rest). e < r_begin s"
      using Cons.prems(2) True by (auto simp: ranges_ok_Cons intro: less_le_trans less_trans)
    with Cons.prems True show ?thesis
      using range_list_add_cases [of c b e t "cur # rest"] by (auto simp: ranges_ok_Cons)
  next
    case False
    obtain es2 c2 where i: "insert_range rest b e t c = (es2, c2)" by (metis surj_pair)
    with Cons.prems False have es': "es' = cur # es2" by auto
    have "ranges_ok es2" using Cons.IH [OF i] Cons.prems by (auto simp: ranges_ok_Cons)
    moreover have "r_end cur < b" using Cons.prems(4) False by auto
    ultimately show ?thesis
      using Cons.prems(2) insert_range_begins [OF i] es' by (fastforce simp: ranges_ok_Cons)
  qed
qed

lemma insert_range_cells:
  assumes "insert_range es b e t c = (es', c')"
  shows "length es' + cells_left c' = length es + cells_left c"
  using assms
proof (induction es arbitrary: es' c')
  case Nil
  then show ?case using range_list_add_cases [of c b e t "[]"] by auto
next
  case (Cons cur rest)
  then show ?case using range_list_add_cases [of c b e t "cur # rest"]
    by (auto split: if_splits prod.splits)
qed

lemma insert_range_tag_at:
  assumes "insert_range es b e t c = (es', c')" "0 < cells_left c"
    and "\<forall>r\<in>set es. r_end r < b \<or> e < r_begin r"
  shows "tag_at es' x = (if b \<le> x \<and> x \<le> e then Some t else tag_at es x)"
  using assms
proof (induction es arbitrary: es' c')
  case Nil
  then show ?case using range_list_add_enough [OF Nil.prems(2), of b e t "[]"] by auto
next
  case (Cons cur rest)
  have sep: "\<not> (r_begin cur \<le> x \<and> x \<le> r_end cur)" if "b \<le> x" "x \<le> e"
    using Cons.prems(3) that by auto
  show ?case
  proof (cases "e < r_begin cur")
    case True
    then show ?thesis
      using Cons.prems(1) range_list_add_enough [OF Cons.prems(2), of b e t "cur # rest"] by auto
  next
    case False
    obtain es2 c2 where i: "insert_range rest b e t c = (es2, c2)" by (metis surj_pair)
    with Cons.prems False have "es' = cur # es2" by auto
    with Cons.IH [OF i Cons.prems(2)] Cons.prems(3) sep show ?thesis
      by (cases "b \<le> x \<and> x \<le> e") auto
  qed
qed

lemma remove_separates:
  assumes "ranges_ok es" "b \<le> e" "0 < cells_left c"
    and "r \<in> set (fst (remove_memranges es b e c))"
  shows "r_end r < b \<or> e < r_begin r"
proof (rule ccontr)
  assume "\<not> ?thesis"
  then have cross: "b \<le> r_end r" "r_begin r \<le> e" by (simp_all add: not_less)
  let ?es = "fst (remove_memranges es b e c)"
  have span: "span_ok es b e" using assms(2) by (simp add: span_ok_def)
  have "r_begin r \<le> r_end r"
    using remove_ok [OF assms(1) span] assms(4) by (auto simp: ranges_ok_def)
  define x where "x = max b (r_begin r)"
  from cross \<open>r_begin r \<le> r_end r\<close> assms(2) have x: "b \<le> x" "x \<le> e" "r_begin r \<le> x" "x \<le> r_end r"
    by (simp_all add: x_def)
  from remove_tag_at [OF assms(1) span, of c x] assms(3) x(1,2) have "tag_at ?es x = None" by simp
  with assms(4) x(3,4) show False by (auto simp: tag_at_None_iff)
qed

subsubsection \<open>The public operations\<close>

text \<open>
  \<open>cells_total\<close> counts every cell: in use, on the free list, or still to come from \<^verbatim>\<open>malloc\<close>.
\<close>

definition cells_total :: "mst \<Rightarrow> nat" where
  "cells_total s = length (entries (fst s)) + length (free_list (fst s)) + snd s"

definition spare_cells :: "mst \<Rightarrow> nat" where
  "spare_cells s = length (free_list (fst s)) + snd s"

definition mst_ok :: "mst \<Rightarrow> bool" where
  "mst_ok s \<longleftrightarrow> ranges_ok (entries (fst s))"

lemma remove_action_facts:
  assumes "mst_ok s" "b \<le> e"
  shows "mst_ok (remove_action s b e u)"
    and "cells_total (remove_action s b e u) = cells_total s"
    and "align (fst (remove_action s b e u)) = align (fst s)"
    and "0 < spare_cells s \<Longrightarrow> tag_at (entries (fst (remove_action s b e u))) x =
      (if b \<le> x \<and> x \<le> e then None else tag_at (entries (fst s)) x)"
    and "spare_cells s \<le> Suc (spare_cells (remove_action s b e u))"
    and "0 < spare_cells s \<Longrightarrow> r \<in> set (entries (fst (remove_action s b e u))) \<Longrightarrow>
      r_end r < b \<or> e < r_begin r"
proof -
  obtain m h where s: "s = (m, h)" by (cases s)
  let ?c = "(free_list m, h)"
  have span: "span_ok (entries m) b e" using assms(2) by (simp add: span_ok_def)
  have ok: "ranges_ok (entries m)" using assms(1) by (simp add: mst_ok_def s)
  obtain es fl h' where rm: "remove_memranges (entries m) b e ?c = (es, fl, h')" by (metis prod_cases3)
  have ra: "remove_action s b e u = (m\<lparr>entries := es, free_list := fl\<rparr>, h')"
    by (simp add: remove_action_def s rm)
  show "mst_ok (remove_action s b e u)"
    using remove_ok [OF ok span, of ?c] by (simp add: ra mst_ok_def rm)
  show "cells_total (remove_action s b e u) = cells_total s"
    unfolding ra using remove_cells [OF ok span, of ?c]
    by (simp add: cells_total_def cells_left_def rm s)
  show "align (fst (remove_action s b e u)) = align (fst s)" unfolding ra by (simp add: s)
  show "tag_at (entries (fst (remove_action s b e u))) x =
      (if b \<le> x \<and> x \<le> e then None else tag_at (entries (fst s)) x)" if "0 < spare_cells s"
    using remove_tag_at [OF ok span, of ?c x] that
    by (simp add: ra [unfolded s] s rm cells_left_def spare_cells_def)
  show "spare_cells s \<le> Suc (spare_cells (remove_action s b e u))"
    using remove_cells [OF ok span, of ?c] remove_length [OF ok span, of ?c]
    by (simp add: ra [unfolded s] s rm cells_left_def spare_cells_def)
  show "r_end r < b \<or> e < r_begin r"
    if "0 < spare_cells s" "r \<in> set (entries (fst (remove_action s b e u)))"
    using remove_separates [OF ok assms(2), of ?c r] that
    by (simp add: ra [unfolded s] s rm cells_left_def spare_cells_def)
qed

lemma merge_add_facts:
  assumes "mst_ok s" "b \<le> e" "2 \<le> spare_cells s"
  shows "mst_ok (merge_add_memranges s b e t)"
    and "no_mergeable (entries (fst (merge_add_memranges s b e t)))"
    and "cells_total (merge_add_memranges s b e t) = cells_total s"
    and "align (fst (merge_add_memranges s b e t)) = align (fst s)"
    and "tag_at (entries (fst (merge_add_memranges s b e t))) x =
      (if b \<le> x \<and> x \<le> e then Some t else tag_at (entries (fst s)) x)"
proof -
  obtain m h where ra: "remove_action s b e (- 1) = (m, h)" by fastforce
  note f = remove_action_facts [OF assms(1,2), where u = "- 1", unfolded ra]
  have "cells_left (free_list m, h) = spare_cells (m, h)"
    by (simp add: cells_left_def spare_cells_def)
  with f(5) assms(3) have sp: "0 < spare_cells s" "0 < cells_left (free_list m, h)" by linarith+
  have ok: "ranges_ok (entries m)" using f(1) by (simp add: mst_ok_def)
  have sep: "\<forall>r\<in>set (entries m). r_end r < b \<or> e < r_begin r" using f(6) sp(1) by simp
  obtain es fl h' where i: "insert_range (entries m) b e t (free_list m, h) = (es, fl, h')"
    by (metis prod_cases3)
  obtain es' fl' where g: "merge_neighbor_entries es fl = (es', fl')" by fastforce
  have ma: "merge_add_memranges s b e t = (m\<lparr>entries := es', free_list := fl'\<rparr>, h')"
    by (simp add: merge_add_memranges_def ra i g)
  have es: "ranges_ok es" by (rule insert_range_ok [OF i ok assms(2) sep])
  show "mst_ok (merge_add_memranges s b e t)"
    using merge_ok [OF es g] by (simp add: ma mst_ok_def)
  show "no_mergeable (entries (fst (merge_add_memranges s b e t)))"
    using merge_no_mergeable [OF es g] by (simp add: ma)
  show "cells_total (merge_add_memranges s b e t) = cells_total s"
    using merge_cells [OF g] insert_range_cells [OF i] f(2)
    by (simp add: ma cells_total_def cells_left_def)
  show "align (fst (merge_add_memranges s b e t)) = align (fst s)" using f(3) by (simp add: ma)
  show "tag_at (entries (fst (merge_add_memranges s b e t))) x =
      (if b \<le> x \<and> x \<le> e then Some t else tag_at (entries (fst s)) x)"
    using merge_tag_at [OF es g, of x] insert_range_tag_at [OF i sp(2) sep, of x] f(4) sp(1)
    by (simp add: ma)
qed

subsubsection \<open>Alignment of the public interface\<close>

text \<open>
  \<open>touches n base size x\<close>: the block of \<open>2 ^ n\<close> bytes that holds \<open>x\<close> is one of the blocks the
  byte range of \<open>size\<close> bytes at \<open>base\<close> reaches into.
\<close>

definition touches :: "nat \<Rightarrow> resource_t \<Rightarrow> resource_t \<Rightarrow> addr \<Rightarrow> bool" where
  "touches n base size1 x \<longleftrightarrow>
     unat base div 2 ^ n \<le> unat x div 2 ^ n \<and>
     unat x div 2 ^ n \<le> (unat base + unat size1 - 1) div 2 ^ n"

definition action_begin :: "nat \<Rightarrow> resource_t \<Rightarrow> resource_t" where
  "action_begin n base = ALIGN_DOWN base (2 ^ n)"

definition action_end :: "nat \<Rightarrow> resource_t \<Rightarrow> resource_t \<Rightarrow> resource_t" where
  "action_end n base size1 = ALIGN_UP (base + size1) (2 ^ n) - 1"

lemma do_action_eq:
  "size1 \<noteq> 0 \<Longrightarrow> do_action s base size1 tag action =
     action s (action_begin (unat (align (fst s))) base) (action_end (unat (align (fst s))) base size1) tag"
  by (simp add: do_action_def Let_def POWER_OF_2_eq action_begin_def action_end_def
      algebra_simps)

lemma unat_action_end:
  assumes n: "n \<le> 63" and pos: "size1 \<noteq> 0" and fits: "unat base + unat size1 \<le> 2 ^ 64"
  shows "unat (action_end n base size1) = Suc ((unat base + unat size1 - 1) div 2 ^ n) * 2 ^ n - 1"
proof -
  define S where "S = unat base + unat size1"
  define D where "D = (2::nat) ^ n"
  define M where "M = (2::nat) ^ (64 - n)"
  have D: "0 < D" by (simp add: D_def)
  have MD: "M * D = 2 ^ 64" using n by (simp add: D_def M_def flip: power_add)
  from pos have S: "0 < S" "S \<le> 2 ^ 64" using fits unat_gt_0 [of size1] by (auto simp: S_def)
  have up: "(S + (D - 1)) div D = Suc ((S - 1) div D)"
  proof -
    have "S + (D - 1) = (S - 1) + D" using S D by simp
    then show ?thesis using D by (simp only: div_add_self2)
  qed
  have top: "Suc ((S - 1) div D) * D = 2 ^ 64" if "2 ^ 64 \<le> S + (D - 1)"
  proof -
    have "(S - 1) div D < M" using S MD by (simp add: div_less_iff_less_mult [OF D])
    moreover have "M \<le> Suc ((S - 1) div D)"
      unfolding up [symmetric] using that MD by (simp add: less_eq_div_iff_mult_less_eq [OF D])
    ultimately have "Suc ((S - 1) div D) = M" by (intro le_antisym Suc_leI)
    with MD show ?thesis by (simp only:)
  qed
  have al: "unat (ALIGN_UP w (2 ^ n)) =
      (if unat w + (D - 1) < 2 ^ 64 then (unat w + (D - 1)) div D * D else 0)" for w
    using unat_ALIGN_UP [of n w] n by (simp only: D_def)
  have max: "unat (0 - 1 :: 64 word) = 2 ^ 64 - 1" by simp
  show ?thesis
  proof (cases "S < 2 ^ 64")
    case True
    then have u: "unat (base + size1) = S" by (simp add: S_def unat_add_no_wrap)
    show ?thesis
    proof (cases "S + (D - 1) < 2 ^ 64")
      case True
      have "unat (ALIGN_UP (base + size1) (2 ^ n)) = Suc ((S - 1) div D) * D"
        using True by (simp only: al u up if_True)
      moreover from this D have "0 < unat (ALIGN_UP (base + size1) (2 ^ n))" by simp
      ultimately show ?thesis
        unfolding action_end_def by (simp add: unat_pred S_def D_def)
    next
      case False
      then have "ALIGN_UP (base + size1) (2 ^ n) = 0"
        by (intro word_eq_unatI) (simp only: al u if_False unat_0)
      with top False max show ?thesis by (simp add: action_end_def S_def D_def)
    qed
  next
    case False
    with S have S64: "S = 2 ^ 64" by simp
    then have "base + size1 = 0"
      by (intro word_eq_unatI) (simp add: unat_word_ariths S_def)
    moreover have "ALIGN_UP 0 (2 ^ n) = 0"
      by (intro word_eq_unatI) (use D in \<open>simp add: al\<close>)
    ultimately show ?thesis using top S64 max by (simp add: action_end_def S_def D_def)
  qed
qed

lemma action_span:
  assumes "n \<le> 63" "size1 \<noteq> 0" "unat base + unat size1 \<le> 2 ^ 64"
  shows "action_begin n base \<le> x \<and> x \<le> action_end n base size1 \<longleftrightarrow> touches n base size1 x"
    and "action_begin n base \<le> action_end n base size1"
proof -
  have D: "(0::nat) < 2 ^ n" by simp
  have b: "unat (action_begin n base) = unat base div 2 ^ n * 2 ^ n"
    by (simp add: action_begin_def unat_ALIGN_DOWN)
  note e = unat_action_end [OF assms]
  have lo: "unat (action_begin n base) \<le> unat x \<longleftrightarrow> unat base div 2 ^ n \<le> unat x div 2 ^ n" for x
    by (simp add: b less_eq_div_iff_mult_less_eq)
  have hi: "unat x \<le> unat (action_end n base size1) \<longleftrightarrow>
      unat x div 2 ^ n \<le> (unat base + unat size1 - 1) div 2 ^ n" for x
  proof -
    have "unat x \<le> unat (action_end n base size1) \<longleftrightarrow>
        unat x < Suc ((unat base + unat size1 - 1) div 2 ^ n) * 2 ^ n"
      unfolding e using D by (metis One_nat_def Suc_pred less_Suc_eq_le mult_pos_pos zero_less_Suc)
    also have "\<dots> \<longleftrightarrow> unat x div 2 ^ n < Suc ((unat base + unat size1 - 1) div 2 ^ n)"
      by (rule div_less_iff_less_mult [OF D, symmetric])
    finally show ?thesis by (simp add: less_Suc_eq_le)
  qed
  show "action_begin n base \<le> x \<and> x \<le> action_end n base size1 \<longleftrightarrow> touches n base size1 x"
    by (simp add: word_le_nat_alt lo hi touches_def)
  have "0 < unat size1" using assms(2) by (simp add: unat_gt_0)
  then have "unat base div 2 ^ n \<le> (unat base + unat size1 - 1) div 2 ^ n" by (intro div_le_mono) simp
  moreover have "base = base" ..
  ultimately have "unat (action_begin n base) \<le> unat base" "unat base \<le> unat (action_end n base size1)"
    using hi [of base] b by simp_all
  then show "action_begin n base \<le> action_end n base size1" by (simp add: word_le_nat_alt)
qed

text \<open>What a caller relies on: the arguments describe a byte range inside the 64-bit address space.\<close>

definition valid_span :: "mst \<Rightarrow> resource_t \<Rightarrow> resource_t \<Rightarrow> bool" where
  "valid_span s base size1 \<longleftrightarrow>
     unat (align (fst s)) \<le> 63 \<and> unat base + unat size1 \<le> 2 ^ 64"

abbreviation tagged :: "mst \<Rightarrow> addr \<Rightarrow> u64 option" where
  "tagged s x \<equiv> tag_at (entries (fst s)) x"

lemma insert_facts:
  assumes "mst_ok s" "2 \<le> spare_cells s" "valid_span s base size1" "size1 \<noteq> 0"
  shows "mst_ok (memranges_insert s base size1 t)"
    and "no_mergeable (entries (fst (memranges_insert s base size1 t)))"
    and "cells_total (memranges_insert s base size1 t) = cells_total s"
    and "align (fst (memranges_insert s base size1 t)) = align (fst s)"
    and "tagged (memranges_insert s base size1 t) x =
      (if touches (unat (align (fst s))) base size1 x then Some t else tagged s x)"
proof -
  from assms(3,4) have sp: "unat (align (fst s)) \<le> 63" "size1 \<noteq> 0" "unat base + unat size1 \<le> 2 ^ 64"
    by (simp_all add: valid_span_def)
  note f = merge_add_facts [OF assms(1) action_span(2) [OF sp] assms(2), where t = t]
  show "mst_ok (memranges_insert s base size1 t)"
    and "no_mergeable (entries (fst (memranges_insert s base size1 t)))"
    and "cells_total (memranges_insert s base size1 t) = cells_total s"
    and "align (fst (memranges_insert s base size1 t)) = align (fst s)"
    and "tagged (memranges_insert s base size1 t) x =
      (if touches (unat (align (fst s))) base size1 x then Some t else tagged s x)"
    using f(1-5) by (simp_all add: memranges_insert_def do_action_eq sp(2) action_span(1) [OF sp])
qed

lemma hole_facts:
  assumes "mst_ok s" "0 < spare_cells s" "valid_span s base size1" "size1 \<noteq> 0"
  shows "mst_ok (memranges_create_hole s base size1)"
    and "cells_total (memranges_create_hole s base size1) = cells_total s"
    and "align (fst (memranges_create_hole s base size1)) = align (fst s)"
    and "tagged (memranges_create_hole s base size1) x =
      (if touches (unat (align (fst s))) base size1 x then None else tagged s x)"
proof -
  from assms(3,4) have sp: "unat (align (fst s)) \<le> 63" "size1 \<noteq> 0" "unat base + unat size1 \<le> 2 ^ 64"
    by (simp_all add: valid_span_def)
  note f = remove_action_facts [OF assms(1) action_span(2) [OF sp], where u = "- 1"]
  show "mst_ok (memranges_create_hole s base size1)"
    and "cells_total (memranges_create_hole s base size1) = cells_total s"
    and "align (fst (memranges_create_hole s base size1)) = align (fst s)"
    and "tagged (memranges_create_hole s base size1) x =
      (if touches (unat (align (fst s))) base size1 x then None else tagged s x)"
    using f(1-4) assms(2)
    by (simp_all add: memranges_create_hole_def do_action_eq sp(2) action_span(1) [OF sp])
qed

subsubsection \<open>Stealing a range\<close>

text \<open>
  A \<open>placement\<close> is an aligned base for a block of \<open>size\<close> bytes that lies inside one range of the
  wanted tag and ends at or below the inclusive limit.
\<close>

definition placement :: "range_entry \<Rightarrow> resource_t \<Rightarrow> resource_t \<Rightarrow> nat \<Rightarrow> u64 \<Rightarrow> addr \<Rightarrow> bool" where
  "placement r limit size1 n tag b \<longleftrightarrow>
     2 ^ n dvd unat b \<and> r_tag r = tag \<and> r_begin r \<le> b \<and>
     unat b + unat size1 \<le> unat (r_end r) + 1 \<and> unat b + unat size1 \<le> unat limit + 1"

definition entry_fits :: "resource_t \<Rightarrow> resource_t \<Rightarrow> nat \<Rightarrow> u64 \<Rightarrow> range_entry \<Rightarrow> bool" where
  "entry_fits limit size1 n tag r \<longleftrightarrow>
     r_tag r = tag \<and> ALIGN_UP (r_begin r) (2 ^ n) + size1 - 1 \<le> r_end r \<and>
     ALIGN_UP (r_begin r) (2 ^ n) + size1 - 1 \<le> limit"

text \<open>The search adds alignment and size to a range's start; this says that the sum stays in 64 bits.\<close>

definition search_in_bounds :: "resource_t \<Rightarrow> nat \<Rightarrow> range_entry list \<Rightarrow> bool" where
  "search_in_bounds size1 n es \<longleftrightarrow>
     n \<le> 63 \<and> (\<forall>r\<in>set es. unat (r_begin r) + 2 ^ n + unat size1 \<le> 2 ^ 64)"

lemma unat_fit:
  assumes "unat x + 2 ^ n + unat size1 \<le> 2 ^ 64" "n \<le> 63" "size1 \<noteq> 0"
  shows "unat (ALIGN_UP x (2 ^ n)) = (unat x + (2 ^ n - 1)) div 2 ^ n * 2 ^ n"
    and "unat (ALIGN_UP x (2 ^ n) + size1 - 1) =
      (unat x + (2 ^ n - 1)) div 2 ^ n * 2 ^ n + unat size1 - 1"
    and "unat x \<le> (unat x + (2 ^ n - 1)) div 2 ^ n * 2 ^ n"
proof -
  have p: "(0::nat) < 2 ^ n" by simp
  from assms(3) have s: "0 < unat size1" by (simp add: unat_gt_0)
  from assms(1) p s have "unat x + (2 ^ n - 1) < 2 ^ 64" by linarith
  then show a: "unat (ALIGN_UP x (2 ^ n)) = (unat x + (2 ^ n - 1)) div 2 ^ n * 2 ^ n"
    using unat_ALIGN_UP [of n x] assms(2) by (simp only: if_True)
  have lt: "(unat x + (2 ^ n - 1)) div 2 ^ n * 2 ^ n < unat x + 2 ^ n" by (rule round_up_lt [OF p])
  with assms(1) have "unat (ALIGN_UP x (2 ^ n)) + unat size1 < 2 ^ 64" unfolding a by linarith
  then have "unat (ALIGN_UP x (2 ^ n)) + unat size1 < 2 ^ LENGTH(64)" by simp
  then have u: "unat (ALIGN_UP x (2 ^ n) + size1) =
      (unat x + (2 ^ n - 1)) div 2 ^ n * 2 ^ n + unat size1"
    by (simp only: unat_add_no_wrap a)
  show "unat (ALIGN_UP x (2 ^ n) + size1 - 1) =
      (unat x + (2 ^ n - 1)) div 2 ^ n * 2 ^ n + unat size1 - 1"
    by (subst unat_pred) (simp_all only: u s add_gr_0 simp_thms)
  show "unat x \<le> (unat x + (2 ^ n - 1)) div 2 ^ n * 2 ^ n" by (rule round_up_ge [OF p])
qed

lemma round_up_least:
  "0 < d \<Longrightarrow> d dvd b \<Longrightarrow> x \<le> b \<Longrightarrow> (x + (d - 1)) div d * d \<le> (b :: nat)"
proof -
  assume d: "0 < d" "d dvd b" "x \<le> b"
  then obtain k where k: "b = k * d" by (auto simp: dvd_def mult.commute)
  have "(x + (d - 1)) div d < k + 1"
    using d k by (simp add: div_less_iff_less_mult)
  then have "(x + (d - 1)) div d \<le> k" by linarith
  then show ?thesis unfolding k by (rule mult_le_mono1)
qed

lemma entry_fits_iff:
  assumes "search_in_bounds size1 n es" "r \<in> set es" "size1 \<noteq> 0"
  shows "entry_fits limit size1 n tag r \<longleftrightarrow> (\<exists>b. placement r limit size1 n tag b)"
proof
  from assms have b: "unat (r_begin r) + 2 ^ n + unat size1 \<le> 2 ^ 64" "n \<le> 63"
    by (auto simp: search_in_bounds_def)
  note u = unat_fit [OF b assms(3)]
  from assms(3) have s: "0 < unat size1" by (simp add: unat_gt_0)
  show "\<exists>b. placement r limit size1 n tag b" if "entry_fits limit size1 n tag r"
  proof
    show "placement r limit size1 n tag (ALIGN_UP (r_begin r) (2 ^ n))"
      using that u s unfolding placement_def entry_fits_def word_le_nat_alt
      by (simp only: u dvd_triv_right simp_thms) linarith
  qed
  assume "\<exists>b. placement r limit size1 n tag b"
  then obtain b where p: "placement r limit size1 n tag b" ..
  then have "(unat (r_begin r) + (2 ^ n - 1)) div 2 ^ n * 2 ^ n \<le> unat b"
    by (intro round_up_least) (simp_all add: placement_def word_le_nat_alt)
  with p show "entry_fits limit size1 n tag r"
    unfolding placement_def entry_fits_def word_le_nat_alt u(2) by linarith
qed

lemma fits_beyond:
  assumes "search_in_bounds size1 n (r # rest)" "ranges_ok (r # rest)" "size1 \<noteq> 0"
    and "ALIGN_UP (r_begin r) (2 ^ n) + size1 - 1 \<le> r_end r"
    and "limit < ALIGN_UP (r_begin r) (2 ^ n) + size1 - 1" and "s \<in> set rest"
  shows "\<not> entry_fits limit size1 n tag s"
proof -
  from assms(1,6) have b: "unat (r_begin s) + 2 ^ n + unat size1 \<le> 2 ^ 64" "n \<le> 63"
    by (auto simp: search_in_bounds_def)
  note u = unat_fit [OF b assms(3)]
  from assms(3) have "0 < unat size1" by (simp add: unat_gt_0)
  with u have "r_begin s \<le> ALIGN_UP (r_begin s) (2 ^ n) + size1 - 1"
    unfolding word_le_nat_alt by linarith
  moreover have "r_end r < r_begin s" using assms(2,6) by (simp add: ranges_ok_Cons)
  ultimately show ?thesis using assms(4,5) by (auto simp: entry_fits_def)
qed

lemma find_entry_loop_eq:
  assumes "search_in_bounds size1 (unat al) es" "ranges_ok es" "size1 \<noteq> 0" "last1 \<or> acc = None"
  shows "find_entry_loop es limit size1 al tag last1 acc =
    (let fs = filter (entry_fits limit size1 (unat al) tag) es
     in if fs = [] then acc else Some (if last1 then last fs else hd fs))"
  using assms
proof (induction es arbitrary: acc)
  case Nil
  then show ?case by simp
next
  case (Cons r rest)
  let ?e = "ALIGN_UP (r_begin r) (2 ^ unat al) + size1 - 1"
  have rest: "search_in_bounds size1 (unat al) rest" "ranges_ok rest"
    using Cons.prems(1,2) by (simp_all add: search_in_bounds_def ranges_ok_Cons)
  consider "r_tag r \<noteq> tag \<or> r_end r < ?e" | "r_tag r = tag" "?e \<le> r_end r" "limit < ?e"
    | "r_tag r = tag" "?e \<le> r_end r" "?e \<le> limit" by (meson not_le)
  then show ?case
  proof cases
    case 1
    then have "\<not> entry_fits limit size1 (unat al) tag r" by (auto simp: entry_fits_def)
    with 1 Cons.IH [OF rest Cons.prems(3,4)] show ?thesis
      by (auto simp: POWER_OF_2_eq Let_def)
  next
    case 2
    then have "\<not> entry_fits limit size1 (unat al) tag r" by (auto simp: entry_fits_def)
    moreover have "filter (entry_fits limit size1 (unat al) tag) rest = []"
      using fits_beyond [OF Cons.prems(1-3) 2(2,3)] by (simp add: filter_empty_conv)
    moreover have "\<not> r_end r < ?e" using 2(2) by simp
    ultimately show ?thesis using 2(1,3) by (simp add: POWER_OF_2_eq Let_def)
  next
    case 3
    then have fit: "entry_fits limit size1 (unat al) tag r" by (simp add: entry_fits_def)
    have ng: "\<not> r_end r < ?e" "\<not> limit < ?e" using 3(2,3) by simp_all
    show ?thesis
    proof (cases last1)
      case True
      with 3(1) ng fit Cons.IH [OF rest Cons.prems(3), of "Some r"] show ?thesis
        by (simp add: POWER_OF_2_eq Let_def)
    next
      case False
      with 3(1) ng fit show ?thesis by (simp add: POWER_OF_2_eq Let_def)
    qed
  qed
qed

text \<open>The base the code computes is the lowest, or from the top the highest, placement in its range.\<close>

lemma stolen_base_placement:
  assumes "search_in_bounds size1 (unat al) es" "r \<in> set es" "size1 \<noteq> 0"
    and "entry_fits limit size1 (unat al) tag r"
  shows "placement r limit size1 (unat al) tag (stolen_base r limit size1 al ft)"
    and "placement r limit size1 (unat al) tag b \<Longrightarrow>
      (if ft then b \<le> stolen_base r limit size1 al ft else stolen_base r limit size1 al ft \<le> b)"
proof -
  let ?n = "unat al"
  let ?A = "(unat (r_begin r) + (2 ^ ?n - 1)) div 2 ^ ?n * 2 ^ ?n"
  let ?L = "min (unat limit) (unat (r_end r))"
  from assms(1,2) have bd: "unat (r_begin r) + 2 ^ ?n + unat size1 \<le> 2 ^ 64" "?n \<le> 63"
    by (auto simp: search_in_bounds_def)
  note u = unat_fit [OF bd assms(3)]
  from assms(3) have s: "0 < unat size1" by (simp add: unat_gt_0)
  have fit: "r_tag r = tag" "?A + unat size1 \<le> ?L + 1"
    using assms(4) s unfolding entry_fits_def word_le_nat_alt u(2) by linarith+
  have base: "unat (stolen_base r limit size1 al ft) =
      (if ft then (?L + 1 - unat size1) div 2 ^ ?n * 2 ^ ?n else ?A)"
  proof (cases ft)
    case True
    have "unat (MIN_word limit (r_end r)) = ?L"
      by (simp add: MIN_word_def word_less_nat_alt min_def)
    moreover have "unat (w - size1 + 1) = unat w + 1 - unat size1" if "unat size1 \<le> unat w + 1" for w
    proof -
      have "w - size1 + 1 = w - (size1 - 1)" by simp
      also have "unat \<dots> = unat w - unat (size1 - 1)"
        using that s by (intro unat_sub_no_wrap) (simp add: unat_pred)
      finally show ?thesis using s by (simp add: unat_pred)
    qed
    ultimately show ?thesis
      using True fit by (simp add: stolen_base_def POWER_OF_2_eq unat_ALIGN_DOWN)
  next
    case False
    then show ?thesis by (simp add: stolen_base_def POWER_OF_2_eq u)
  qed
  show "placement r limit size1 (unat al) tag (stolen_base r limit size1 al ft)"
  proof (cases ft)
    case True
    have "?A \<le> (?L + 1 - unat size1) div 2 ^ ?n * 2 ^ ?n"
      using fit(2) by (intro mult_le_mono1) (simp add: less_eq_div_iff_mult_less_eq)
    moreover have "(?L + 1 - unat size1) div 2 ^ ?n * 2 ^ ?n \<le> ?L + 1 - unat size1" by simp
    ultimately show ?thesis
      using True fit u(3) unfolding placement_def word_le_nat_alt base
      by (simp only: if_True dvd_triv_right simp_thms) linarith
  next
    case False
    then show ?thesis
      using fit u(3) unfolding placement_def word_le_nat_alt base
      by (simp only: if_False dvd_triv_right simp_thms) linarith
  qed
  assume p: "placement r limit size1 (unat al) tag b"
  show "if ft then b \<le> stolen_base r limit size1 al ft else stolen_base r limit size1 al ft \<le> b"
  proof (cases ft)
    case True
    from p obtain k where k: "unat b = k * 2 ^ ?n" by (auto simp: placement_def dvd_def mult.commute)
    from p have "unat b \<le> ?L + 1 - unat size1" unfolding placement_def by linarith
    then have "k \<le> (?L + 1 - unat size1) div 2 ^ ?n"
      unfolding k by (simp add: less_eq_div_iff_mult_less_eq)
    with True show ?thesis unfolding word_le_nat_alt base k by simp
  next
    case False
    from p have "?A \<le> unat b"
      by (intro round_up_least) (simp_all add: placement_def word_le_nat_alt)
    with False show ?thesis unfolding word_le_nat_alt base by simp
  qed
qed

lemma filter_hd_last_sorted:
  assumes "sorted_wrt P xs" "y \<in> set xs" "Q y"
  shows "hd (filter Q xs) = y \<or> P (hd (filter Q xs)) y"
    and "last (filter Q xs) = y \<or> P y (last (filter Q xs))"
proof -
  have s: "sorted_wrt P (filter Q xs)" using assms(1) by (rule sorted_wrt_filter)
  have y: "y \<in> set (filter Q xs)" using assms by simp
  from y obtain z zs where f: "filter Q xs = z # zs" by (cases "filter Q xs") auto
  show "hd (filter Q xs) = y \<or> P (hd (filter Q xs)) y" using s y unfolding f by auto
  show "last (filter Q xs) = y \<or> P y (last (filter Q xs))"
  proof (cases "filter Q xs" rule: rev_cases)
    case (snoc ws w)
    with s y show ?thesis by (auto simp: sorted_wrt_append)
  qed (use f in simp)
qed

lemma memranges_find_entry_eq:
  assumes "search_in_bounds size1 (unat al) (entries m)" "ranges_ok (entries m)" "size1 \<noteq> 0"
  shows "memranges_find_entry m limit size1 al tag ft =
    (let fs = filter (entry_fits limit size1 (unat al) tag) (entries m)
     in if fs = [] then None else Some (if ft then last fs else hd fs))"
  using find_entry_loop_eq [OF assms, of ft None] assms(3) by (simp add: memranges_find_entry_def)

lemma memranges_find_entry_SomeD:
  assumes "search_in_bounds size1 (unat al) (entries m)" "ranges_ok (entries m)" "size1 \<noteq> 0"
    and "memranges_find_entry m limit size1 al tag ft = Some r"
  shows "r \<in> set (entries m)" "entry_fits limit size1 (unat al) tag r"
proof -
  let ?fs = "filter (entry_fits limit size1 (unat al) tag) (entries m)"
  have "?fs \<noteq> []" "r = (if ft then last ?fs else hd ?fs)"
    using assms(4) unfolding memranges_find_entry_eq [OF assms(1-3)] by (auto simp: Let_def split: if_splits)
  then have "r \<in> set ?fs" using last_in_set [of ?fs] hd_in_set [of ?fs] by (cases ft) auto
  then show "r \<in> set (entries m)" "entry_fits limit size1 (unat al) tag r" by simp_all
qed

lemma steal_optimal:
  assumes "mst_ok s" "size1 \<noteq> 0" "search_in_bounds size1 (unat al) (entries (fst s))"
  shows "case fst (memranges_steal s limit size1 al tag ft) of
      None \<Rightarrow> \<forall>r\<in>set (entries (fst s)). \<forall>b. \<not> placement r limit size1 (unat al) tag b
    | Some b \<Rightarrow> (\<exists>r\<in>set (entries (fst s)). placement r limit size1 (unat al) tag b) \<and>
        (\<forall>r\<in>set (entries (fst s)). \<forall>b'. placement r limit size1 (unat al) tag b' \<longrightarrow>
           (if ft then b' \<le> b else b \<le> b'))"
proof (cases "memranges_find_entry (fst s) limit size1 al tag ft")
  case None
  have ok: "ranges_ok (entries (fst s))" using assms(1) by (simp add: mst_ok_def)
  from None have "filter (entry_fits limit size1 (unat al) tag) (entries (fst s)) = []"
    unfolding memranges_find_entry_eq [OF assms(3) ok assms(2)] by (auto simp: Let_def split: if_splits)
  then have "\<forall>r\<in>set (entries (fst s)). \<not> entry_fits limit size1 (unat al) tag r"
    by (simp add: filter_empty_conv)
  with None show ?thesis
    using entry_fits_iff [OF assms(3) _ assms(2)] by (simp add: memranges_steal_def)
next
  case (Some r)
  let ?fit = "entry_fits limit size1 (unat al) tag"
  let ?b = "stolen_base r limit size1 al ft"
  have ok: "ranges_ok (entries (fst s))" using assms(1) by (simp add: mst_ok_def)
  note r = memranges_find_entry_SomeD [OF assms(3) ok assms(2) Some]
  note sb = stolen_base_placement [OF assms(3) r(1) assms(2) r(2)]
  have hl: "r = (if ft then last (filter ?fit (entries (fst s))) else hd (filter ?fit (entries (fst s))))"
    using Some unfolding memranges_find_entry_eq [OF assms(3) ok assms(2)]
    by (auto simp: Let_def split: if_splits)
  have "if ft then b' \<le> ?b else ?b \<le> b'"
    if q: "q \<in> set (entries (fst s))" and p: "placement q limit size1 (unat al) tag b'" for q b'
  proof (cases "q = r")
    case True
    with p sb(2) show ?thesis by blast
  next
    case False
    from p have "?fit q" using entry_fits_iff [OF assms(3) q assms(2)] by blast
    from filter_hd_last_sorted [where Q = ?fit and P = "\<lambda>r s. r_end r < r_begin s", OF _ q this] ok False hl
    have ord: "if ft then r_end q < r_begin r else r_end r < r_begin q"
      by (fastforce simp: ranges_ok_def)
    have "0 < unat size1" using assms(2) by (simp add: unat_gt_0)
    with ord p sb(1) [of ft] show ?thesis
      unfolding placement_def word_le_nat_alt word_less_nat_alt by (cases ft) (simp_all only: if_True if_False, linarith+)
  qed
  with r(1) sb(1) Some show ?thesis by (auto simp: memranges_steal_def Let_def)
qed

lemma steal_facts:
  assumes "mst_ok s" "0 < spare_cells s" "size1 \<noteq> 0" "unat (align (fst s)) \<le> 63"
    and "search_in_bounds size1 (unat al) (entries (fst s))"
    and st: "memranges_steal s limit size1 al tag ft = (Some b, s')"
  shows "2 ^ unat al dvd unat b" and "unat b + unat size1 \<le> 2 ^ 64" and "mst_ok s'"
    and "cells_total s' = cells_total s"
    and "b \<le> x \<Longrightarrow> unat x < unat b + unat size1 \<Longrightarrow>
      tagged s x = Some tag \<and> x \<le> limit \<and> tagged s' x = None"
    and "tagged s' x = (if touches (unat (align (fst s))) b size1 x then None else tagged s x)"
proof -
  have ok: "ranges_ok (entries (fst s))" using assms(1) by (simp add: mst_ok_def)
  from st obtain r where f: "memranges_find_entry (fst s) limit size1 al tag ft = Some r"
    and b: "b = stolen_base r limit size1 al ft" and s': "s' = memranges_create_hole s b size1"
    by (auto simp: memranges_steal_def Let_def split: option.splits)
  note r = memranges_find_entry_SomeD [OF assms(5) ok assms(3) f]
  note p = stolen_base_placement(1) [OF assms(5) r(1) assms(3) r(2), where ft = ft, folded b]
  show "2 ^ unat al dvd unat b" using p by (simp add: placement_def)
  show fits: "unat b + unat size1 \<le> 2 ^ 64"
    using p unat_lt_64 [of limit] unfolding placement_def by simp
  then have sp: "valid_span s b size1" using assms(4) by (simp add: valid_span_def)
  note h = hole_facts [OF assms(1,2) sp assms(3), folded s']
  show "mst_ok s'" "cells_total s' = cells_total s"
    and eq: "tagged s' x = (if touches (unat (align (fst s))) b size1 x then None else tagged s x)" for x
    using h by simp_all
  assume x: "b \<le> x" "unat x < unat b + unat size1"
  have "r_begin r \<le> x" "x \<le> r_end r" "x \<le> limit"
    using p x unfolding placement_def word_le_nat_alt by linarith+
  moreover from this have "tagged s x = Some tag"
    using tag_at_mem [OF ok r(1)] p by (simp add: placement_def)
  moreover have "touches (unat (align (fst s))) b size1 x"
    using x by (auto simp: touches_def word_le_nat_alt intro!: div_le_mono)
  ultimately show "tagged s x = Some tag \<and> x \<le> limit \<and> tagged s' x = None" by (simp add: eq)
qed

subsubsection \<open>Retagging, cloning, tearing down\<close>

lemma update_tag_facts:
  assumes "ranges_ok (entries m)"
  shows "ranges_ok (entries (memranges_update_tag m old new))"
    and "no_mergeable (entries (memranges_update_tag m old new))"
    and "tag_at (entries (memranges_update_tag m old new)) x =
      (if tag_at (entries m) x = Some old then Some new else tag_at (entries m) x)"
proof -
  let ?f = "\<lambda>r. if range_entry_tag r = old then range_entry_update_tag r new else r"
  have ok: "ranges_ok (map ?f (entries m))"
    using assms by (auto simp: ranges_ok_def sorted_wrt_map range_entry_update_tag_def
        intro: sorted_wrt_mono_rel [rotated])
  have tg: "tag_at (map ?f es) x = (if tag_at es x = Some old then Some new else tag_at es x)" for es
    by (induction es) (auto simp: range_entry_update_tag_def range_entry_tag_def)
  obtain es fl where g: "merge_neighbor_entries (map ?f (entries m)) (free_list m) = (es, fl)"
    by fastforce
  have u: "entries (memranges_update_tag m old new) = es" by (simp add: memranges_update_tag_def g)
  show "ranges_ok (entries (memranges_update_tag m old new))"
    and "no_mergeable (entries (memranges_update_tag m old new))"
    and "tag_at (entries (memranges_update_tag m old new)) x =
      (if tag_at (entries m) x = Some old then Some new else tag_at (entries m) x)"
    unfolding u using merge_ok [OF ok g] merge_no_mergeable [OF ok g] merge_tag_at [OF ok g] tg
    by simp_all
qed

lemma clone_entries_enough:
  "length es \<le> cells_left c \<Longrightarrow>
   \<exists>c'. clone_entries es c = (es, c') \<and> cells_left c' = cells_left c - length es"
proof (induction es arbitrary: c)
  case (Cons r rest)
  then obtain c1 where a: "range_list_add c (r_begin r) (r_end r) (r_tag r) [] = ([r], c1)"
    "cells_left c1 = cells_left c - 1"
    using range_list_add_enough [of c "r_begin r" "r_end r" "r_tag r" "[]"] by auto
  from Cons.prems a(2) have "length rest \<le> cells_left c1" by simp
  from Cons.IH [OF this] obtain c' where
    "clone_entries rest c1 = (rest, c')" "cells_left c' = cells_left c1 - length rest" by blast
  with a show ?case by simp
qed simp

lemma clone_facts:
  assumes "length (entries m) \<le> h"
  shows "entries (fst (memranges_clone m h)) = entries m"
    and "align (fst (memranges_clone m h)) = align m"
    and "cells_total (memranges_clone m h) = h"
proof -
  obtain fl h' where c: "clone_entries (entries m) ([], h) = (entries m, fl, h')"
    and l: "length fl + h' = h - length (entries m)"
    using clone_entries_enough [of "entries m" "([], h)"] assms by (auto simp: cells_left_def)
  show "entries (fst (memranges_clone m h)) = entries m"
    and "align (fst (memranges_clone m h)) = align m"
    and "cells_total (memranges_clone m h) = h"
    using c l assms
    by (simp_all add: memranges_clone_def memranges_init_empty_with_alignment_def cells_total_def)
qed

lemma clone_heap:
  assumes "length (entries m) \<le> h"
  shows "snd (memranges_clone m h) = h - length (entries m)"
proof -
  have "length es \<le> h \<Longrightarrow> clone_entries es ([], h) = (es, [], h - length es)" for es h
  proof (induction es arbitrary: h)
    case (Cons r es)
    then show ?case by (cases h) (simp_all add: range_list_add_def)
  qed simp
  from this [OF assms] show ?thesis
    by (simp add: memranges_clone_def memranges_init_empty_with_alignment_def)
qed

lemma teardown_entries_eq: "teardown_entries es fl = rev es @ fl"
  by (induction es arbitrary: fl) auto

lemma teardown_facts:
  "entries (memranges_teardown m) = []"
  "cells_total (memranges_teardown m, h) = cells_total (m, h)"
  by (simp_all add: memranges_teardown_def cells_total_def teardown_entries_eq)

subsubsection \<open>Filling holes\<close>

text \<open>
  The condition under which the filling loop works: every range ends strictly below the limit or
  starts at or above it, the first one ends below it, and none reaches the last address.
\<close>

definition clear_of_limit :: "resource_t \<Rightarrow> range_entry \<Rightarrow> bool" where
  "clear_of_limit limit r \<longleftrightarrow>
     unat (r_end r) + 1 \<le> unat limit \<or> (limit \<le> r_begin r \<and> r_end r \<noteq> - 1)"

definition fill_ok :: "resource_t \<Rightarrow> range_entry list \<Rightarrow> bool" where
  "fill_ok limit es \<longleftrightarrow>
     (\<forall>r\<in>set es. clear_of_limit limit r \<and>
        (unat (r_end r) + 1 = unat limit \<longrightarrow> (\<exists>q\<in>set es. r_begin q = limit) \<or> (\<forall>q\<in>set es. r_begin q < limit))) \<and>
     (es \<noteq> [] \<longrightarrow> unat (r_end (hd es)) + 1 \<le> unat limit)"

abbreviation gap_tag :: "resource_t \<Rightarrow> resource_t \<Rightarrow> u64 \<Rightarrow> range_entry list \<Rightarrow> addr \<Rightarrow> u64 option" where
  "gap_tag lo limit tag es x \<equiv>
     (case tag_at es x of Some t \<Rightarrow> Some t
      | None \<Rightarrow> if lo \<le> x \<and> x < limit then Some tag else None)"

lemma fill_tail_facts:
  assumes "ranges_ok (prev # rest)" "0 < cells_left c" "fill_tail prev rest limit tag c = (es', c')"
    and "unat (r_end prev) + 1 \<le> unat limit \<and> rest = [] \<or> limit \<le> r_begin prev \<and> r_end prev \<noteq> - 1"
  shows "ranges_ok es'" "\<exists>tl. es' = prev # tl"
    and "tag_at es' x = gap_tag (r_begin prev) limit tag (prev # rest) x"
    and "cells_left c' + length es' = cells_left c + length (prev # rest)"
proof -
  from assms(4) consider (low) "unat (r_end prev) + 1 < unat limit" "rest = []"
    | (at) "unat (r_end prev) + 1 = unat limit" "rest = []"
    | (high) "limit \<le> r_begin prev" "r_end prev \<noteq> - 1" by (metis le_neq_implies_less)
  then have "ranges_ok es' \<and> (\<exists>tl. es' = prev # tl) \<and>
      tag_at es' x = gap_tag (r_begin prev) limit tag (prev # rest) x \<and>
      cells_left c' + length es' = cells_left c + length (prev # rest)"
  proof cases
    case low
    have i: "unat (r_end prev + 1) = unat (r_end prev) + 1"
      using low(1) unat_lt_64 [of limit] by (intro unat_suc_64) linarith
    have d: "unat (limit - 1) = unat limit - 1" using low(1) by (intro unat_pred) linarith
    obtain c1 where a: "range_list_add c (r_end prev + 1) (limit - 1) tag rest =
        (\<lparr>r_begin = r_end prev + 1, r_end = limit - 1, r_tag = tag\<rparr> # rest, c1)"
      "cells_left c1 = cells_left c - 1" using range_list_add_enough [OF assms(2)] by blast
    have lt: "r_end prev + 1 < limit" using i low(1) by (simp add: unat_simps)
    with assms(3) a have e: "es' = [prev, \<lparr>r_begin = r_end prev + 1, r_end = limit - 1, r_tag = tag\<rparr>]"
      "c' = c1" by (auto simp: fill_tail_def range_entry_end_def low(2))
    have "r_begin prev \<le> r_end prev" using assms(1) by (simp add: ranges_ok_Cons)
    then show ?thesis
      using low(1) a(2) assms(2) unfolding e low(2)
      by (simp add: ranges_ok_Cons unat_simps i d) linarith
  next
    case at
    then have "unat (r_end prev + 1) = unat limit" using unat_suc_64 [of "r_end prev"] unat_lt_64 [of limit] by simp
    then have "r_end prev + 1 = limit" by (rule word_eq_unatI)
    then have e: "es' = [prev]" "c' = c" using assms(3) at(2) by (auto simp: fill_tail_def range_entry_end_def)
    show ?thesis using assms(1) at(1) unfolding e at(2) by (simp add: unat_simps)
  next
    case high
    then have "r_end prev + 1 \<ge> limit"
      using assms(1) unat_plus_one [of "r_end prev"] by (simp add: ranges_ok_Cons unat_simps)
    then have ng: "\<not> r_end prev + 1 < limit" by simp
    with assms(3) have e: "es' = prev # rest" "c' = c"
      by (auto simp: fill_tail_def range_entry_end_def)
    have "tag_at (prev # rest) x = gap_tag (r_begin prev) limit tag (prev # rest) x"
    proof (cases "r_begin prev \<le> x \<and> x < limit")
      case True
      with high(1) have False by auto
      then show ?thesis ..
    next
      case False
      then show ?thesis by (auto split: option.splits)
    qed
    with assms(1) show ?thesis unfolding e by simp
  qed
  then show "ranges_ok es'" "\<exists>tl. es' = prev # tl"
    "tag_at es' x = gap_tag (r_begin prev) limit tag (prev # rest) x"
    "cells_left c' + length es' = cells_left c + length (prev # rest)" by blast+
qed

lemma range_list_add_cells:
  "range_list_add c b e t rest = (es, c') \<Longrightarrow> cells_left c \<le> Suc (cells_left c')"
  using range_list_add_cases [of c b e t rest] by auto

text \<open>The entry put between two neighbours, if any.\<close>

lemma fill_gap_facts:
  assumes "ranges_ok (prev # cur # rest)" "unat (r_end prev) + 1 < unat limit \<or> range_entry_end prev = r_begin cur"
    and "0 < cells_left c"
    and g: "(if range_entry_end prev \<noteq> r_begin cur
       then (let end0 = r_begin cur - 1; end1 = (if limit \<le> end0 then limit - 1 else end0)
             in range_list_add c (range_entry_end prev) end1 tag [])
       else ([], c)) = (new, c')"
    and "\<exists>tl. es = cur # tl" "ranges_ok es"
  shows "ranges_ok (prev # new @ es)" "cells_left c' + length new = cells_left c"
    and "tag_at (prev # new @ es) x =
      (if r_begin prev \<le> x \<and> x \<le> r_end prev then Some (r_tag prev)
       else if r_end prev < x \<and> x < r_begin cur \<and> x < limit then Some tag else tag_at es x)"
proof -
  obtain tl where es: "es = cur # tl" using assms(5) by blast
  have o: "r_begin prev \<le> r_end prev" "r_end prev < r_begin cur"
    using assms(1) by (simp_all add: ranges_ok_Cons)
  have i: "unat (r_end prev + 1) = unat (r_end prev) + 1" by (rule unat_inc_lt [OF o(2)])
  have dc: "unat (r_begin cur - 1) = unat (r_begin cur) - 1" by (rule unat_dec_gt [OF o(2)])
  have "ranges_ok (prev # new @ es) \<and> cells_left c' + length new = cells_left c \<and>
    tag_at (prev # new @ es) x =
      (if r_begin prev \<le> x \<and> x \<le> r_end prev then Some (r_tag prev)
       else if r_end prev < x \<and> x < r_begin cur \<and> x < limit then Some tag else tag_at es x)"
  proof (cases "range_entry_end prev = r_begin cur")
    case True
    with g have n: "new = []" "c' = c" by auto
    from True i have "\<not> (r_end prev < x \<and> x < r_begin cur)"
      by (auto simp: range_entry_end_def unat_simps)
    then have no: "\<not> (r_end prev < x \<and> x < r_begin cur \<and> x < limit)" by blast
    show ?thesis using assms(6) o unfolding n es if_not_P [OF no] by (simp add: ranges_ok_Cons2)
  next
    case False
    then have lt: "unat (r_end prev) + 1 < unat limit" using assms(2) by simp
    have d: "unat (limit - 1) = unat limit - 1" using lt by (intro unat_pred) linarith
    let ?e = "if limit \<le> r_begin cur - 1 then limit - 1 else r_begin cur - 1"
    obtain c1 where a: "range_list_add c (r_end prev + 1) ?e tag [] =
        ([\<lparr>r_begin = r_end prev + 1, r_end = ?e, r_tag = tag\<rparr>], c1)"
      "cells_left c1 = cells_left c - 1" using range_list_add_enough [OF assms(3)] by blast
    have n: "new = [\<lparr>r_begin = r_end prev + 1, r_end = ?e, r_tag = tag\<rparr>]" "c' = c1"
      using g False a(1) by (auto simp: Let_def range_entry_end_def split: if_splits)
    have ne: "unat (r_end prev) + 1 \<noteq> unat (r_begin cur)"
      using False i by (metis range_entry_end_def word_unat_eq_iff)
    obtain w where w: "w = ?e" by blast
    have "unat w = min (unat limit) (unat (r_begin cur)) - 1"
      using o(2) unfolding w by (simp add: d dc unat_simps min_def) linarith
    then have wb: "r_end prev + 1 \<le> w" "w < r_begin cur" "r_end prev < r_end prev + 1"
      and wx: "r_end prev + 1 \<le> x \<and> x \<le> w \<longleftrightarrow> r_end prev < x \<and> x < r_begin cur \<and> x < limit"
      using lt o ne by (simp_all add: unat_simps i) linarith+
    have "ranges_ok (prev # new @ es)"
      using wb o assms(6) unfolding n es w [symmetric] by (simp add: ranges_ok_Cons2)
    moreover have "tag_at (prev # new @ es) x =
      (if r_begin prev \<le> x \<and> x \<le> r_end prev then Some (r_tag prev)
       else if r_end prev < x \<and> x < r_begin cur \<and> x < limit then Some tag else tag_at es x)"
      unfolding n w [symmetric] by (simp add: wx)
    ultimately show ?thesis using a(2) assms(3) n by simp
  qed
  then show "ranges_ok (prev # new @ es)" "cells_left c' + length new = cells_left c"
    and "tag_at (prev # new @ es) x =
      (if r_begin prev \<le> x \<and> x \<le> r_end prev then Some (r_tag prev)
       else if r_end prev < x \<and> x < r_begin cur \<and> x < limit then Some tag else tag_at es x)"
    by blast+
qed

lemma fill_loop_facts:
  assumes "ranges_ok (prev # es)" "length (prev # es) \<le> cells_left c"
    and "fill_ok limit (prev # es)" "fill_loop prev es limit tag c = (es', c')"
  shows "ranges_ok es'" "\<exists>tl. es' = prev # tl"
    and "cells_left c' + length es' = cells_left c + length (prev # es)"
    and "tag_at es' x = gap_tag (r_begin prev) limit tag (prev # es) x"
proof -
  have "ranges_ok es' \<and> (\<exists>tl. es' = prev # tl) \<and>
      cells_left c' + length es' = cells_left c + length (prev # es) \<and>
      tag_at es' x = gap_tag (r_begin prev) limit tag (prev # es) x"
    using assms
  proof (induction es arbitrary: prev c es' c')
    case Nil
    from Nil.prems(3) have lo: "unat (r_end prev) + 1 \<le> unat limit" by (simp add: fill_ok_def)
    from Nil.prems(2) have "0 < cells_left c" by simp
    from fill_tail_facts [OF Nil.prems(1) this, of limit tag es' c'] lo Nil.prems(4)
    show ?case by simp
  next
    case (Cons cur rest)
    obtain new c1 where g: "(if range_entry_end prev \<noteq> r_begin cur
       then (let end0 = r_begin cur - 1; end1 = (if limit \<le> end0 then limit - 1 else end0)
             in range_list_add c (range_entry_end prev) end1 tag [])
       else ([], c)) = (new, c1)" by (metis surj_pair)
    obtain es2 c2 where e: "(if limit \<le> r_begin cur then fill_tail cur rest limit tag c1
                 else fill_loop cur rest limit tag c1) = (es2, c2)" by (metis surj_pair)
    have r: "es' = prev # new @ es2" "c' = c2" using Cons.prems(4) g e by simp_all
    have ok: "ranges_ok (cur # rest)" "r_begin prev \<le> r_end prev" "r_end prev < r_begin cur"
      using Cons.prems(1) by (simp_all add: ranges_ok_Cons2)
    have lim: "unat (r_end prev) + 1 \<le> unat limit" "clear_of_limit limit cur"
      using Cons.prems(3) by (simp_all add: fill_ok_def)
    have after: "r_end prev < r_begin q \<and> r_begin cur \<le> r_begin q" if "q \<in> set (cur # rest)" for q
      using that Cons.prems(1) by (auto simp: ranges_ok_Cons intro: less_trans le_less_trans)
    have at: "unat (r_end prev) + 1 < unat limit \<or> range_entry_end prev = r_begin cur"
    proof (cases "unat (r_end prev) + 1 = unat limit")
      case True
      then have le: "limit \<le> r_begin cur" using ok(3) by (simp add: unat_simps)
      then have "\<exists>q\<in>set (prev # cur # rest). r_begin q = limit" using True Cons.prems(3) unfolding fill_ok_def by fastforce
      then have "\<exists>q\<in>set (cur # rest). r_begin q = limit" using True ok(2) by (auto simp: unat_simps)
      then have "r_begin cur = limit" using after le by fastforce
      moreover have "r_end prev + 1 = limit"
        using True unat_suc_64 [of "r_end prev"] unat_lt_64 [of limit] by (intro word_eq_unatI) simp
      ultimately show ?thesis by (simp add: range_entry_end_def)
    qed (use lim in simp)
    have cl: "0 < cells_left c" "cells_left c \<le> Suc (cells_left c1)"
      using Cons.prems(2) g by (auto simp: Let_def split: if_splits dest: range_list_add_cells)
    have tail: "ranges_ok es2 \<and> (\<exists>tl. es2 = cur # tl) \<and>
      cells_left c2 + length es2 = cells_left c1 + length (cur # rest) \<and>
      tag_at es2 x = gap_tag (r_begin cur) limit tag (cur # rest) x"
    proof (cases "limit \<le> r_begin cur")
      case True
      then have "r_end cur \<noteq> - 1"
        using lim(2) ok(1) by (auto simp: clear_of_limit_def ranges_ok_Cons unat_simps)
      moreover have "0 < cells_left c1" using cl Cons.prems(2) by simp
      ultimately show ?thesis
        using fill_tail_facts [OF ok(1), of c1 limit tag es2 c2] True e by simp
    next
      case False
      have "(\<exists>q\<in>set (cur # rest). r_begin q = limit) \<or> (\<forall>q\<in>set (cur # rest). r_begin q < limit)"
        if "r \<in> set (cur # rest)" "unat (r_end r) + 1 = unat limit" for r
      proof -
        have "(\<exists>q\<in>set (prev # cur # rest). r_begin q = limit) \<or> (\<forall>q\<in>set (prev # cur # rest). r_begin q < limit)"
          using that Cons.prems(3) unfolding fill_ok_def by (meson list.set_intros(2))
        moreover have "r_begin prev < limit" using lim(1) ok(2) by (simp add: unat_simps)
        ultimately show ?thesis by fastforce
      qed
      with False have "fill_ok limit (cur # rest)"
        using Cons.prems(3) lim(2) by (auto simp: fill_ok_def clear_of_limit_def)
      moreover have "length (cur # rest) \<le> cells_left c1" using cl Cons.prems(2) by simp
      ultimately show ?thesis using Cons.IH [OF ok(1), of c1 es2 c2] False e by simp
    qed
    note f = fill_gap_facts [OF Cons.prems(1) at cl(1) g, of es2]
    have "tag_at es' x = gap_tag (r_begin prev) limit tag (prev # cur # rest) x"
    proof -
      consider "x < r_begin prev" | "r_begin prev \<le> x" "x \<le> r_end prev"
        | "r_end prev < x" "x < r_begin cur" | "r_begin cur \<le> x" by (meson not_le)
      then show ?thesis
      proof cases
        case 1
        then have "x < r_begin r" if "r \<in> set (prev # cur # rest)" for r
          using that ok(2) Cons.prems(1) by (auto simp: ranges_ok_Cons intro: less_trans less_le_trans)
        then have "tag_at (prev # cur # rest) x = None" "tag_at (cur # rest) x = None"
          using tag_at_below [of "prev # cur # rest" x] tag_at_below [of "cur # rest" x] by auto
        moreover have b: "\<not> r_end prev < x" "\<not> r_begin prev \<le> x" "\<not> r_begin cur \<le> x"
          using 1 ok(2,3) by auto
        ultimately show ?thesis using f(3) [of x] tail unfolding r by simp
      next
        case 2
        with f tail show ?thesis unfolding r by simp
      next
        case 3
        then have "tag_at (cur # rest) x = None"
          using ok(1) by (intro tag_at_below) (auto simp: ranges_ok_Cons intro: less_trans le_less_trans less_le_trans)
        moreover have b: "\<not> x \<le> r_end prev" "\<not> r_begin cur \<le> x" "r_begin prev \<le> x"
          using 3 ok(2) by auto
        ultimately have "tag_at (prev # cur # rest) x = None" "tag_at es2 x = None"
          using tail by simp_all
        with b f(3) [of x] tail 3 show ?thesis unfolding r by simp
      next
        case 4
        have b: "\<not> x \<le> r_end prev" "\<not> x < r_begin cur" "r_begin prev \<le> x" using 4 ok(2,3) by auto
        then have "tag_at (prev # cur # rest) x = tag_at (cur # rest) x" by simp
        with b f(3) [of x] tail 4 show ?thesis unfolding r by (simp del: tag_at.simps)
      qed
    qed
    moreover have "ranges_ok es'" "cells_left c' + length es' = cells_left c + length (prev # cur # rest)"
      using f(1,2) tail unfolding r by simp_all
    ultimately show ?case unfolding r by blast
  qed
  then show "ranges_ok es'" "\<exists>tl. es' = prev # tl"
    "cells_left c' + length es' = cells_left c + length (prev # es)"
    "tag_at es' x = gap_tag (r_begin prev) limit tag (prev # es) x" by blast+
qed

lemma fill_holes_facts:
  assumes "mst_ok s" "length (entries (fst s)) \<le> spare_cells s"
    and "fill_ok limit (entries (fst s))"
  shows "mst_ok (memranges_fill_holes_up_to s limit tag)"
    and "no_mergeable (entries (fst (memranges_fill_holes_up_to s limit tag)))"
    and "cells_total (memranges_fill_holes_up_to s limit tag) = cells_total s"
    and "entries (fst s) \<noteq> [] \<Longrightarrow> tagged (memranges_fill_holes_up_to s limit tag) x =
      gap_tag (r_begin (hd (entries (fst s)))) limit tag (entries (fst s)) x"
    and "entries (fst s) = [] \<Longrightarrow> tagged (memranges_fill_holes_up_to s limit tag) x = None"
proof -
  obtain m h where s: "s = (m, h)" by fastforce
  have ok: "ranges_ok (entries m)" using assms(1) by (simp add: s mst_ok_def)
  obtain es fl h' where e: "(case entries m of [] \<Rightarrow> ([], free_list m, h)
      | prev # rest \<Rightarrow> fill_loop prev rest limit tag (free_list m, h)) = (es, fl, h')"
    by (metis surj_pair)
  obtain es2 fl2 where g: "merge_neighbor_entries es fl = (es2, fl2)" by fastforce
  have r: "memranges_fill_holes_up_to s limit tag = (m\<lparr>entries := es2, free_list := fl2\<rparr>, h')"
    by (simp add: memranges_fill_holes_up_to_def s e g)
  have f: "ranges_ok es \<and> length fl + h' + length es = length (free_list m) + h + length (entries m) \<and>
    (entries m \<noteq> [] \<longrightarrow> tag_at es x = gap_tag (r_begin (hd (entries m))) limit tag (entries m) x) \<and>
    (entries m = [] \<longrightarrow> es = [])"
  proof (cases "entries m")
    case Nil
    with e show ?thesis by simp
  next
    case (Cons prev rest)
    with e have l: "fill_loop prev rest limit tag (free_list m, h) = (es, fl, h')" by simp
    have "length (prev # rest) \<le> cells_left (free_list m, h)"
      using assms(2) Cons by (simp add: s spare_cells_def cells_left_def)
    note f = fill_loop_facts [OF _ this _ l]
    have p: "ranges_ok (prev # rest)" "fill_ok limit (prev # rest)"
      using ok assms(3) Cons by (simp_all add: s)
    have "tag_at es x = gap_tag (r_begin (hd (entries m))) limit tag (entries m) x"
      unfolding Cons list.sel by (rule f(4) [OF p])
    moreover have "ranges_ok es"
      "length fl + h' + length es = length (free_list m) + h + length (entries m)"
      using f(1,3) [OF p] Cons by (simp_all add: cells_left_def)
    ultimately show ?thesis using Cons by (intro conjI impI; (assumption | simp))
  qed
  then have o: "ranges_ok es" by simp
  note m = merge_ok [OF o g] merge_no_mergeable [OF o g] merge_tag_at [OF o g] merge_cells [OF g]
  show "mst_ok (memranges_fill_holes_up_to s limit tag)"
    "no_mergeable (entries (fst (memranges_fill_holes_up_to s limit tag)))"
    unfolding r using m by (simp_all add: mst_ok_def)
  show "cells_total (memranges_fill_holes_up_to s limit tag) = cells_total s"
    unfolding r using m(4) f by (simp add: cells_total_def s)
  show "entries (fst s) \<noteq> [] \<Longrightarrow> tagged (memranges_fill_holes_up_to s limit tag) x =
      gap_tag (r_begin (hd (entries (fst s)))) limit tag (entries (fst s)) x"
    "entries (fst s) = [] \<Longrightarrow> tagged (memranges_fill_holes_up_to s limit tag) x = None"
    unfolding r using m(3) f by (simp_all add: s split: option.splits)
qed

subsubsection \<open>Adding the resources of the device tree\<close>

lemma insert_range_length:
  "insert_range es b e t c = (es', c') \<Longrightarrow> length es' \<le> Suc (length es)"
proof (induction es arbitrary: es' c')
  case Nil
  then show ?case using range_list_add_cases [of c b e t "[]"] by auto
next
  case (Cons cur rest)
  then show ?case using range_list_add_cases [of c b e t "cur # rest"]
    by (auto split: if_splits prod.splits)
qed

lemma merge_length:
  "merge_neighbor_entries es fl = (es', fl') \<Longrightarrow> length es' \<le> length es"
  by (induction es fl arbitrary: es' fl' rule: merge_neighbor_entries.induct)
    (fastforce split: if_splits prod.splits)+

lemma remove_action_length:
  assumes "mst_ok s" "b \<le> e"
  shows "length (entries (fst (remove_action s b e u))) \<le> Suc (length (entries (fst s)))"
  using assms remove_length [of "entries (fst s)" b e "(free_list (fst s), snd s)"]
  by (auto simp: remove_action_def mst_ok_def span_ok_def split: prod.splits)

lemma insert_length:
  assumes "mst_ok s" "valid_span s base size1" "size1 \<noteq> 0"
  shows "length (entries (fst (memranges_insert s base size1 t))) \<le> length (entries (fst s)) + 2"
proof -
  from assms(2,3) have sp: "unat (align (fst s)) \<le> 63" "size1 \<noteq> 0" "unat base + unat size1 \<le> 2 ^ 64"
    by (simp_all add: valid_span_def)
  show ?thesis
    using remove_action_length [OF assms(1) action_span(2) [OF sp], of "- 1"]
    by (auto simp: memranges_insert_def do_action_eq sp(2) merge_add_memranges_def
        split: prod.splits dest!: insert_range_length merge_length)
qed

text \<open>The resources the walk inserts: selected, not empty, and accepted by the caller's filter.\<close>

definition added_resources ::
  "device list \<Rightarrow> u64 \<Rightarrow> u64 \<Rightarrow> (device \<Rightarrow> resource \<Rightarrow> bool) option \<Rightarrow> resource list" where
  "added_resources devs mask1 match filt =
     map snd (filter (\<lambda>(d, r). res_size r \<noteq> 0 \<and> (case filt of None \<Rightarrow> True | Some f \<Rightarrow> f d r))
       (selected_resources devs (mask1 OR IORESOURCE_MEM) (match OR IORESOURCE_MEM)))"

lemma fold_guarded:
  assumes "\<And>d r s. f d r s = (if U (d, r) then g r s else s)"
  shows "fold (\<lambda>(d, r). f d r) xs s = fold g (map snd (filter U xs)) s"
  by (induction xs arbitrary: s) (auto simp: assms)

lemma add_resources_fold:
  "memranges_add_resources_filter devs s mask1 match tag filt =
   fold (\<lambda>r s. memranges_insert s (res_base r) (res_size r) tag)
     (added_resources devs mask1 match filt) s"
proof -
  have "fold (\<lambda>(d, r). collect_ranges tag filt d r) xs s =
    fold (\<lambda>r s. memranges_insert s (res_base r) (res_size r) tag)
      (map snd (filter (\<lambda>(d, r). res_size r \<noteq> 0 \<and>
        (case filt of None \<Rightarrow> True | Some f \<Rightarrow> f d r)) xs)) s" for xs
    by (rule fold_guarded) (simp add: collect_ranges_def)
  then show ?thesis
    by (simp add: memranges_add_resources_filter_def search_global_resources_fold
        added_resources_def)
qed

lemma insert_fold_facts:
  assumes "mst_ok s" "unat (align (fst s)) \<le> 63" "2 * length rs \<le> spare_cells s"
    and "\<And>r. r \<in> set rs \<Longrightarrow> res_size r \<noteq> 0 \<and> unat (res_base r) + unat (res_size r) \<le> 2 ^ 64"
  shows "mst_ok (fold (\<lambda>r s. memranges_insert s (res_base r) (res_size r) tag) rs s)"
    and "cells_total (fold (\<lambda>r s. memranges_insert s (res_base r) (res_size r) tag) rs s) = cells_total s"
    and "tagged (fold (\<lambda>r s. memranges_insert s (res_base r) (res_size r) tag) rs s) x =
      (if \<exists>r\<in>set rs. touches (unat (align (fst s))) (res_base r) (res_size r) x
       then Some tag else tagged s x)"
proof -
  let ?F = "fold (\<lambda>r s. memranges_insert s (res_base r) (res_size r) tag)"
  have "mst_ok (?F rs s) \<and> cells_total (?F rs s) = cells_total s \<and>
    tagged (?F rs s) x = (if \<exists>r\<in>set rs. touches (unat (align (fst s))) (res_base r) (res_size r) x
       then Some tag else tagged s x)"
    using assms
  proof (induction rs arbitrary: s)
    case (Cons r rs)
    let ?s = "memranges_insert s (res_base r) (res_size r) tag"
    have v: "valid_span s (res_base r) (res_size r)" "res_size r \<noteq> 0"
      using Cons.prems(2) Cons.prems(4) [of r] by (simp_all add: valid_span_def)
    have "2 \<le> spare_cells s" using Cons.prems(3) by simp
    note f = insert_facts [OF Cons.prems(1) this v, where t = tag]
    have "spare_cells s \<le> spare_cells ?s + 2"
      using insert_length [OF Cons.prems(1) v, of tag] f(3)
      by (simp add: cells_total_def spare_cells_def)
    then have "2 * length rs \<le> spare_cells ?s" using Cons.prems(3) by simp
    with Cons.IH [of ?s] f Cons.prems(2,4) show ?case by simp
  qed simp
  then show "mst_ok (?F rs s)" "cells_total (?F rs s) = cells_total s"
    "tagged (?F rs s) x = (if \<exists>r\<in>set rs. touches (unat (align (fst s))) (res_base r) (res_size r) x
       then Some tag else tagged s x)" by blast+
qed

text \<open>An insertion takes at most two cells from \<^verbatim>\<open>malloc\<close>.\<close>

lemma range_list_add_heap:
  "range_list_add c b e t rest = (es, c') \<Longrightarrow> snd c \<le> Suc (snd c')"
  by (cases c rule: alloc_range.cases) (auto simp: range_list_add_def)

lemma remove_heap:
  "snd c \<le> Suc (snd (snd (remove_memranges es b e c)))"
proof (induction es arbitrary: b c)
  case (Cons cur rest)
  have IH: "remove_memranges rest b' e c' = (es', c'') \<Longrightarrow> snd c' \<le> Suc (snd c'')" for b' c' es' c''
    using Cons.IH [of c' b'] by simp
  show ?case
    using Cons.IH [of "(cur # fst c, snd c)" "r_end cur + 1"] Cons.IH [of c b]
    by (auto simp: Let_def split: prod.splits dest: range_list_add_heap IH)
qed simp

lemma insert_range_heap:
  "insert_range es b e t c = (es', c') \<Longrightarrow> snd c \<le> Suc (snd c')"
  by (induction es arbitrary: es' c')
    (auto split: if_splits prod.splits dest: range_list_add_heap)

lemma insert_heap: "snd s \<le> snd (memranges_insert s base size1 t) + 2"
proof -
  have r: "snd s \<le> Suc (snd (remove_action s b e u))" for b e u
    using remove_heap [of "(free_list (fst s), snd s)" "entries (fst s)" b e]
    by (auto simp: remove_action_def split: prod.splits)
  have "snd s \<le> snd (merge_add_memranges s b e t) + 2" for b e
    using r [of b e "- 1"]
    by (auto simp: merge_add_memranges_def split: prod.splits dest!: insert_range_heap)
  then show ?thesis by (simp add: memranges_insert_def do_action_def Let_def)
qed

text \<open>
  A map with the default 4 KiB alignment is an address map: a write takes at most two cells and hits
  the pages its byte range reaches into.
\<close>

abbreviation page_hits :: "addr \<Rightarrow> addr \<Rightarrow> addr \<Rightarrow> bool" where
  "page_hits b n x \<equiv> n \<noteq> 0 \<and> touches 12 b n x"

definition pages_ok :: "mst \<Rightarrow> bool" where
  "pages_ok s \<longleftrightarrow> mst_ok s \<and> align (fst s) = 12 \<and> no_mergeable (entries (fst s))"

interpretation pages: address_map tagged memranges_insert pages_ok snd page_hits 2
proof
  fix s :: mst and b n :: addr and t x
  assume a: "pages_ok s" "2 \<le> snd s" "unat b + unat n \<le> 2 ^ 64"
  then have v: "valid_span s b n" "mst_ok s" by (simp_all add: valid_span_def pages_ok_def)
  have sp: "2 \<le> spare_cells s" using a(2) by (simp add: spare_cells_def)
  have z: "memranges_insert s b 0 t = s" by (simp add: memranges_insert_def do_action_def)
  have "pages_ok (memranges_insert s b n t) \<and>
      tagged (memranges_insert s b n t) x = (if page_hits b n x then Some t else tagged s x)"
  proof (cases "n = 0")
    case False
    note f = insert_facts [OF v(2) sp v(1) False, where t = t]
    show ?thesis using f(1,2,4,5) a(1) False by (simp add: pages_ok_def)
  qed (use a z in simp)
  then show "pages_ok (memranges_insert s b n t)"
    "tagged (memranges_insert s b n t) x = (if page_hits b n x then Some t else tagged s x)"
    by blast+
  show "snd s \<le> snd (memranges_insert s b n t) + 2" by (rule insert_heap)
qed

text \<open>In a canonical list, addresses of one tag that follow each other lie in one range.\<close>

lemma ranges_ok_apart:
  "ranges_ok es \<Longrightarrow> r \<in> set es \<Longrightarrow> q \<in> set es \<Longrightarrow> r \<noteq> q \<Longrightarrow>
   r_end r < r_begin q \<or> r_end q < r_begin r"
  by (induction es) (auto simp: ranges_ok_Cons)

lemma no_mergeable_tags:
  assumes "ranges_ok es" "no_mergeable es" "r \<in> set es" "q \<in> set es"
    and "r_begin q = r_end r + 1" "r_end r < r_begin q"
  shows "r_tag r \<noteq> r_tag q"
  using assms
proof (induction es)
  case (Cons h rest)
  have ord: "r_end h < r_begin s" "r_begin s \<le> r_end s" if "s \<in> set rest" for s
    using that Cons.prems(1) by (auto simp: ranges_ok_def)
  have hd: "r_begin h \<le> r_end h" using Cons.prems(1) by (simp add: ranges_ok_def)
  have u: "unat (r_begin q) = unat (r_end r) + 1" unfolding Cons.prems(5)
    by (rule unat_inc_lt) (rule Cons.prems(6))
  show ?case
  proof (cases rest)
    case Nil
    with Cons.prems have "r = q" by simp
    with Cons.prems(6) hd Nil Cons.prems(3) show ?thesis by simp
  next
    case (Cons s ss)
    consider (r) "r = h" | (q) "q = h" "r \<in> set rest" | (rest) "r \<in> set rest" "q \<in> set rest"
      using Cons.prems(3,4) by auto
    then show ?thesis
    proof cases
      case r
      have qr: "q \<in> set rest" using Cons.prems(4,6) hd r by auto
      show ?thesis
      proof (cases "q = s")
        case True
        with Cons.prems(2,5) Cons r show ?thesis by simp
      next
        case False
        with qr Cons have "q \<in> set ss" by simp
        then have "r_end s < r_begin q" using Cons.prems(1) Cons by (simp add: ranges_ok_Cons)
        with ord [of s] u r Cons show ?thesis by (simp add: unat_simps)
      qed
    next
      case q
      with ord [of r] Cons.prems(6) hd show ?thesis by (simp add: unat_simps)
    next
      case rest
      then show ?thesis
        using Cons.IH Cons.prems Cons by (cases ss) (simp_all add: ranges_ok_Cons)
    qed
  qed
qed simp

lemma same_tag_one_range:
  assumes "ranges_ok es" "no_mergeable es" "a \<le> b"
    and "\<And>x. a \<le> x \<Longrightarrow> x \<le> b \<Longrightarrow> tag_at es x = Some t"
  shows "\<exists>r\<in>set es. r_begin r \<le> a \<and> b \<le> r_end r \<and> r_tag r = t"
proof -
  from assms(3) assms(4) [of a] obtain r where r: "r \<in> set es" "r_begin r \<le> a" "a \<le> r_end r" "r_tag r = t"
    using tag_at_Some_mem by blast
  have "b \<le> r_end r"
  proof (rule ccontr)
    assume "\<not> b \<le> r_end r"
    then have lt: "r_end r < b" by simp
    have i: "unat (r_end r + 1) = unat (r_end r) + 1" by (rule unat_inc_lt [OF lt])
    with lt r(3) have "a \<le> r_end r + 1" "r_end r + 1 \<le> b" by (simp_all add: unat_simps)
    then obtain q where q: "q \<in> set es" "r_begin q \<le> r_end r + 1" "r_end r + 1 \<le> r_end q" "r_tag q = t"
      using assms(4) tag_at_Some_mem by blast
    have "r_end r < r_begin q"
    proof (rule ccontr)
      assume "\<not> r_end r < r_begin q"
      then have "r_begin q \<le> r_end r" "r_end r \<le> r_end q" "r_begin r \<le> r_end r"
        using q(3) i r by (auto simp: unat_simps)
      then have c: "r_begin q \<le> r_end r \<and> r_end r \<le> r_end q" "r_begin r \<le> r_end r \<and> r_end r \<le> r_end r"
        by auto
      have "r = q"
      proof (rule ccontr)
        assume "r \<noteq> q"
        then have "r_end r < r_begin q \<or> r_end q < r_begin r"
          using assms(1) r(1) q(1) ranges_ok_apart by blast
        with c show False by (auto simp: unat_simps)
      qed
      with q(3) i show False by (simp add: unat_simps)
    qed
    moreover from this q(2) i have "r_begin q = r_end r + 1"
      by (intro word_eq_unatI) (simp add: unat_simps)
    ultimately show False using no_mergeable_tags [OF assms(1,2) r(1) q(1)] r(4) q(4) by simp
  qed
  with r show ?thesis by blast
qed

lemma puts_cells:
  assumes "pages_ok s" "2 * length rs \<le> snd s" "pages.in_bounds rs"
  shows "cells_total (pages.puts rs s) = cells_total s"
  using assms
proof (induction rs arbitrary: s)
  case Nil
  then show ?case by (simp add: pages.puts_def)
next
  case (Cons r rs)
  obtain b n t where r: "r = (b, n, t)" using prod_cases3 by blast
  have v: "unat b + unat n \<le> 2 ^ 64" "pages.in_bounds rs"
    using Cons.prems(3) by (auto simp: pages.in_bounds_def r)
  have m: "pages_ok s" "2 \<le> snd s" using Cons.prems by simp_all
  let ?s = "memranges_insert s b n t"
  have "cells_total ?s = cells_total s"
  proof (cases "n = 0")
    case False
    then show ?thesis
      using insert_facts(3) [of s b n t] m v(1) by (simp add: valid_span_def spare_cells_def pages_ok_def)
  qed (simp add: memranges_insert_def do_action_def)
  moreover have "cells_total (pages.puts rs ?s) = cells_total ?s"
    using Cons.IH [of ?s] Cons.prems(2) v(2) pages.put_inv [OF m v(1), of t] pages.put_room [OF m v(1), of t]
    by simp
  ultimately show ?case by (simp add: pages.puts_def r)
qed

subsection \<open>Properties\<close>

text \<open>A map with two ranges, one spare cell on the free list and two more to allocate.\<close>

definition sample_map :: mst where
  "sample_map =
     (\<lparr>entries = [\<lparr>r_begin = 0x1000, r_end = 0x1FFF, r_tag = 1\<rparr>,
                  \<lparr>r_begin = 0x3000, r_end = 0x7FFF, r_tag = 2\<rparr>],
       free_list = [\<lparr>r_begin = 0, r_end = 0, r_tag = 0\<rparr>], align = 12\<rparr>, 2)"

lemma sample_map_ok:
  "mst_ok sample_map" "spare_cells sample_map = 3" "align (fst sample_map) = 12"
  "entries (fst sample_map) = [\<lparr>r_begin = 0x1000, r_end = 0x1FFF, r_tag = 1\<rparr>,
                  \<lparr>r_begin = 0x3000, r_end = 0x7FFF, r_tag = 2\<rparr>]"
  by (simp_all add: sample_map_def mst_ok_def ranges_ok_Cons spare_cells_def)

lemma sample_steal: "fst (memranges_steal sample_map 0x6FFF 0x2000 12 2 True) = Some 0x5000"
  by (simp add: memranges_steal_def memranges_find_entry_def sample_map_ok stolen_base_def
      ALIGN_UP_def ALIGN_DOWN_def POWER_OF_2_def MIN_word_def Let_def)

text \<open>C2: inserting a range re-tags exactly the aligned blocks the byte range reaches into and leaves
  every other address as it was. The list stays sorted, disjoint and free of mergeable neighbours, and
  no cell is lost or made up: what is not in use is on the free list.\<close>

theorem memranges_insert_spec:
  assumes "mst_ok s" "2 \<le> spare_cells s" "valid_span s base size1" "size1 \<noteq> 0"
  shows "mst_ok (memranges_insert s base size1 t) \<and>
    no_mergeable (entries (fst (memranges_insert s base size1 t))) \<and>
    cells_total (memranges_insert s base size1 t) = cells_total s \<and>
    align (fst (memranges_insert s base size1 t)) = align (fst s) \<and>
    (\<forall>x. tagged (memranges_insert s base size1 t) x =
      (if touches (unat (align (fst s))) base size1 x then Some t else tagged s x))"
  using insert_facts [OF assms] by blast

theorem memranges_insert_spec_witness:
  "tagged (memranges_insert sample_map 0x1800 0x1000 2) 0x2FFF = Some 2 \<and>
   tagged (memranges_insert sample_map 0x1800 0x1000 2) 0x1000 = Some 2 \<and>
   tagged (memranges_insert sample_map 0x1800 0x1000 2) 0x0FFF = None"
proof -
  have "valid_span sample_map 0x1800 0x1000" by (simp add: valid_span_def sample_map_ok)
  from memranges_insert_spec [OF sample_map_ok(1) _ this, of 2] show ?thesis
    by (simp add: sample_map_ok touches_def)
qed

text \<open>C28: creating a hole removes exactly the aligned blocks the byte range reaches into, splitting,
  shortening or deleting ranges as needed; every other address keeps its tag.\<close>

theorem memranges_create_hole_spec:
  assumes "mst_ok s" "0 < spare_cells s" "valid_span s base size1" "size1 \<noteq> 0"
  shows "mst_ok (memranges_create_hole s base size1) \<and>
    cells_total (memranges_create_hole s base size1) = cells_total s \<and>
    (\<forall>x. tagged (memranges_create_hole s base size1) x =
      (if touches (unat (align (fst s))) base size1 x then None else tagged s x))"
  using hole_facts [OF assms] by blast

theorem memranges_create_hole_spec_witness:
  "tagged (memranges_create_hole sample_map 0x4001 1) 0x4FFF = None \<and>
   tagged (memranges_create_hole sample_map 0x4001 1) 0x5000 = Some 2"
proof -
  have "valid_span sample_map 0x4001 1" by (simp add: valid_span_def sample_map_ok)
  from memranges_create_hole_spec [OF sample_map_ok(1) _ this] show ?thesis
    by (simp add: sample_map_ok touches_def)
qed

text \<open>A successful steal returns an aligned base whose whole block carried the wanted tag and lies
  at or below the limit; afterwards exactly the blocks it touches are gone from the map.\<close>

theorem memranges_steal_sound:
  assumes "mst_ok s" "0 < spare_cells s" "size1 \<noteq> 0" "unat (align (fst s)) \<le> 63"
    and "search_in_bounds size1 (unat al) (entries (fst s))"
    and "memranges_steal s limit size1 al tag ft = (Some b, s')"
  shows "2 ^ unat al dvd unat b \<and> unat b + unat size1 \<le> 2 ^ 64 \<and> mst_ok s' \<and>
    (\<forall>x. b \<le> x \<and> unat x < unat b + unat size1 \<longrightarrow>
      tagged s x = Some tag \<and> x \<le> limit \<and> tagged s' x = None) \<and>
    (\<forall>x. tagged s' x = (if touches (unat (align (fst s))) b size1 x then None else tagged s x))"
  using steal_facts [OF assms] by blast

text \<open>C27: the search is complete and optimal. It fails only when no range of the tag has room for an
  aligned block below the limit; otherwise the base it returns is the lowest possible one, or the
  highest one when asked to take memory from the top.\<close>

theorem memranges_steal_optimal:
  assumes "mst_ok s" "size1 \<noteq> 0" "search_in_bounds size1 (unat al) (entries (fst s))"
  shows "case fst (memranges_steal s limit size1 al tag ft) of
      None \<Rightarrow> \<forall>r\<in>set (entries (fst s)). \<forall>b. \<not> placement r limit size1 (unat al) tag b
    | Some b \<Rightarrow> (\<exists>r\<in>set (entries (fst s)). placement r limit size1 (unat al) tag b) \<and>
        (\<forall>r\<in>set (entries (fst s)). \<forall>b'. placement r limit size1 (unat al) tag b' \<longrightarrow>
           (if ft then b' \<le> b else b \<le> b'))"
  by (rule steal_optimal [OF assms])

theorem memranges_steal_optimal_witness:
  "fst (memranges_steal sample_map 0x6FFF 0x2000 12 2 True) = Some 0x5000 \<and>
   \<not> placement \<lparr>r_begin = 0x3000, r_end = 0x7FFF, r_tag = 2\<rparr> 0x6FFF 0x2000 12 2 0x6000"
proof -
  have "search_in_bounds 0x2000 (unat (12 :: u8)) (entries (fst sample_map))"
    by (simp add: search_in_bounds_def sample_map_ok)
  from memranges_steal_optimal [OF sample_map_ok(1) _ this, of "0x6FFF" 2 True] sample_steal show ?thesis
    by (auto simp: sample_map_ok)
qed

text \<open>Filling the holes up to a limit gives the new tag to every address between the first
  range and the limit that had none, keeps all others, and restores the canonical form of the list,
  provided no range crosses the limit or reaches the last address, and a range that ends at the limit
  is the last one or is followed directly by the next.\<close>

theorem memranges_fill_holes_spec:
  assumes "mst_ok s" "length (entries (fst s)) \<le> spare_cells s"
    and "fill_ok limit (entries (fst s))" "entries (fst s) \<noteq> []"
  shows "mst_ok (memranges_fill_holes_up_to s limit tag) \<and>
    no_mergeable (entries (fst (memranges_fill_holes_up_to s limit tag))) \<and>
    cells_total (memranges_fill_holes_up_to s limit tag) = cells_total s \<and>
    (\<forall>x. tagged (memranges_fill_holes_up_to s limit tag) x =
      (case tagged s x of Some t \<Rightarrow> Some t
       | None \<Rightarrow> if r_begin (hd (entries (fst s))) \<le> x \<and> x < limit then Some tag else None))"
  using fill_holes_facts [OF assms(1-3)] assms(4) by blast

text \<open>When a range ends exactly at the limit and the next one starts strictly above it, filling
  the holes inserts a range whose end lies one below its start, so the invariant of the list is
  lost although there was nothing to fill.\<close>

theorem memranges_fill_holes_at_limit:
  assumes "r_end prev + 1 = limit" "limit < r_begin cur" "limit \<noteq> 0"
    and "r_begin cur \<le> r_end cur" "r_end cur \<noteq> - 1"
    and "tag \<noteq> r_tag prev" "tag \<noteq> r_tag cur" "0 < heap"
  shows "\<exists>h. memranges_fill_holes_up_to
      (\<lparr>entries = [prev, cur], free_list = [], align = a\<rparr>, heap) limit tag =
      (\<lparr>entries = [prev, \<lparr>r_begin = limit, r_end = limit - 1, r_tag = tag\<rparr>, cur],
        free_list = [], align = a\<rparr>, h) \<and> \<not> limit \<le> limit - 1"
proof -
  obtain h where h: "heap = Suc h" using assms(8) by (cases heap) auto
  have l: "unat (limit - 1) = unat limit - 1" "0 < unat limit"
    using assms(3) by (simp_all add: unat_pred unat_gt_0)
  have c: "unat (r_begin cur - 1) = unat (r_begin cur) - 1" by (rule unat_dec_gt [OF assms(2)])
  have n: "\<not> limit \<le> limit - 1" using l by (simp add: unat_simps)
  have "limit \<le> r_begin cur - 1" using c assms(2) by (simp add: unat_simps)
  moreover have "limit \<noteq> r_begin cur" "limit \<le> r_begin cur" using assms(2) by auto
  moreover have "\<not> r_end cur + 1 < limit"
    using assms(2,4) unat_plus_one [OF assms(5)] by (simp add: unat_simps)
  ultimately show ?thesis
    using assms(1,6,7) n
    by (auto simp: memranges_fill_holes_up_to_def h range_entry_end_def range_list_add_def fill_tail_def)
qed

text \<open>Building a map from the device tree tags exactly the addresses whose aligned block some
  selected, non-empty and accepted resource reaches into, as long as there are two cells per resource.\<close>

theorem memranges_add_resources_spec:
  assumes "mst_ok s" "unat (align (fst s)) \<le> 63"
    and "2 * length (added_resources devs mask1 match filt) \<le> spare_cells s"
    and "\<And>r. r \<in> set (added_resources devs mask1 match filt) \<Longrightarrow>
      unat (res_base r) + unat (res_size r) \<le> 2 ^ 64"
  shows "mst_ok (memranges_add_resources_filter devs s mask1 match tag filt) \<and>
    cells_total (memranges_add_resources_filter devs s mask1 match tag filt) = cells_total s \<and>
    (\<forall>x. tagged (memranges_add_resources_filter devs s mask1 match tag filt) x =
      (if \<exists>r\<in>set (added_resources devs mask1 match filt).
            touches (unat (align (fst s))) (res_base r) (res_size r) x
       then Some tag else tagged s x))"
proof -
  have "res_size r \<noteq> 0 \<and> unat (res_base r) + unat (res_size r) \<le> 2 ^ 64"
    if "r \<in> set (added_resources devs mask1 match filt)" for r
    using assms(4) [OF that] that by (auto simp: added_resources_def)
  from insert_fold_facts [OF assms(1-3) this] show ?thesis
    unfolding add_resources_fold by blast
qed

text \<open>Retagging replaces the tag of exactly the addresses that carried the old one, and merges
  ranges that have become equal neighbours.\<close>

theorem memranges_update_tag_spec:
  assumes "ranges_ok (entries m)"
  shows "ranges_ok (entries (memranges_update_tag m old new)) \<and>
    no_mergeable (entries (memranges_update_tag m old new)) \<and>
    (\<forall>x. tag_at (entries (memranges_update_tag m old new)) x =
      (if tag_at (entries m) x = Some old then Some new else tag_at (entries m) x))"
  using update_tag_facts [OF assms] by blast

text \<open>With enough cells a clone has the entries and the alignment of the original; tearing a map
  down returns every cell to the free list.\<close>

theorem memranges_clone_teardown:
  assumes "length (entries m) \<le> heap"
  shows "entries (fst (memranges_clone m heap)) = entries m \<and>
    align (fst (memranges_clone m heap)) = align m \<and>
    cells_total (memranges_clone m heap) = heap \<and>
    entries (memranges_teardown m) = [] \<and>
    cells_total (memranges_teardown m, heap) = cells_total (m, heap)"
  using clone_facts [OF assms] teardown_facts by blast

end
