(* ===== verification/BootMem.thy ===== *)
theory BootMem
  imports MemRange
begin

text \<open>
  \<^verbatim>\<open>src/lib/bootmem.c\<close>: the boot-time memory map (\<open>bootmem\<close>) and the view of it handed to the
  operating system (\<open>bootmem_os\<close>), with the allocator for payload buffers. The static variables of
  the file are the record \<open>bootmem_state\<close>, together with the number of range entries \<^verbatim>\<open>malloc\<close> can
  still deliver to the two maps. An \<^verbatim>\<open>assert\<close> that fails halts the machine when the build sets
  \<^verbatim>\<open>CONFIG_FATAL_ASSERTS\<close> and only prints otherwise: the flag is the argument \<open>fatal\<close>, and a halt is
  the result \<open>None\<close>. The ranges the other parts of the firmware report while the map is built (cbmem,
  capsules, the program and its stack, the architecture and board hooks) are arguments.
\<close>

subsection \<open>Data\<close>

type_synonym bootmem_type = u32

definition BM_MEM_INVALID :: bootmem_type where "BM_MEM_INVALID = 0"
definition BM_MEM_FIRST :: bootmem_type where "BM_MEM_FIRST = 0x10000"
definition BM_MEM_RAM :: bootmem_type where "BM_MEM_RAM = 0x10001"
definition BM_MEM_RESERVED :: bootmem_type where "BM_MEM_RESERVED = 0x10002"
definition BM_MEM_SOFT_RESERVED :: bootmem_type where "BM_MEM_SOFT_RESERVED = 0x10003"
definition BM_MEM_ACPI :: bootmem_type where "BM_MEM_ACPI = 0x10004"
definition BM_MEM_NVS :: bootmem_type where "BM_MEM_NVS = 0x10005"
definition BM_MEM_UNUSABLE :: bootmem_type where "BM_MEM_UNUSABLE = 0x10006"
definition BM_MEM_VENDOR_RSVD :: bootmem_type where "BM_MEM_VENDOR_RSVD = 0x10007"
definition BM_MEM_OPENSBI :: bootmem_type where "BM_MEM_OPENSBI = 0x10008"
definition BM_MEM_BL31 :: bootmem_type where "BM_MEM_BL31 = 0x10009"
definition BM_MEM_TABLE :: bootmem_type where "BM_MEM_TABLE = 0x1000A"
definition BM_MEM_OS_CUTOFF :: bootmem_type where "BM_MEM_OS_CUTOFF = BM_MEM_TABLE"
definition BM_MEM_RAMSTAGE :: bootmem_type where "BM_MEM_RAMSTAGE = 0x1000B"
definition BM_MEM_PAYLOAD :: bootmem_type where "BM_MEM_PAYLOAD = 0x1000C"
definition BM_MEM_LAST :: bootmem_type where "BM_MEM_LAST = 0x1000D"

lemmas bm_mem_defs =
  BM_MEM_INVALID_def BM_MEM_FIRST_def BM_MEM_RAM_def BM_MEM_RESERVED_def BM_MEM_SOFT_RESERVED_def
  BM_MEM_ACPI_def BM_MEM_NVS_def BM_MEM_UNUSABLE_def BM_MEM_VENDOR_RSVD_def BM_MEM_OPENSBI_def
  BM_MEM_BL31_def BM_MEM_TABLE_def BM_MEM_OS_CUTOFF_def BM_MEM_RAMSTAGE_def BM_MEM_PAYLOAD_def
  BM_MEM_LAST_def

definition LB_MEM_RAM :: u32 where "LB_MEM_RAM = 1"
definition LB_MEM_RESERVED :: u32 where "LB_MEM_RESERVED = 2"
definition LB_MEM_ACPI :: u32 where "LB_MEM_ACPI = 3"
definition LB_MEM_NVS :: u32 where "LB_MEM_NVS = 4"
definition LB_MEM_UNUSABLE :: u32 where "LB_MEM_UNUSABLE = 5"
definition LB_MEM_VENDOR_RSVD :: u32 where "LB_MEM_VENDOR_RSVD = 6"
definition LB_MEM_TABLE :: u32 where "LB_MEM_TABLE = 16"
definition LB_MEM_SOFT_RESERVED :: u32 where "LB_MEM_SOFT_RESERVED = 0xEFFFFFFF"

record lb_memory_range =
  lb_start :: u64
  lb_size :: u64
  lb_type :: u32

record lb_memory =
  lb_mem_size :: u32
  lb_map :: "lb_memory_range list"

record bootmem_state =
  initialized :: bool
  table_written :: bool
  bootmem :: memranges
  bootmem_os :: memranges
  bm_heap :: nat

text \<open>The ranges \<^verbatim>\<open>bootmem_init\<close> is told about by the rest of the firmware, in the order of the calls.\<close>

type_synonym bm_range = "u64 \<times> u64 \<times> bootmem_type"

record platform_ranges =
  cbmem_ranges :: "bm_range list"
  capsule_ranges :: "bm_range list"
  stack_region :: "u64 \<times> u64"
  program_region :: "u64 \<times> u64"
  arch_ranges :: "bm_range list"
  board_ranges :: "bm_range list"

subsection \<open>Operations\<close>

definition bootmem_to_lb_tag :: "bootmem_type \<Rightarrow> u32" where
  "bootmem_to_lb_tag tag =
     (if tag = BM_MEM_RAM then LB_MEM_RAM
      else if tag = BM_MEM_RESERVED then LB_MEM_RESERVED
      else if tag = BM_MEM_ACPI then LB_MEM_ACPI
      else if tag = BM_MEM_NVS then LB_MEM_NVS
      else if tag = BM_MEM_UNUSABLE then LB_MEM_UNUSABLE
      else if tag = BM_MEM_VENDOR_RSVD then LB_MEM_VENDOR_RSVD
      else if tag = BM_MEM_OPENSBI then LB_MEM_RESERVED
      else if tag = BM_MEM_BL31 then LB_MEM_RESERVED
      else if tag = BM_MEM_TABLE then LB_MEM_TABLE
      else if tag = BM_MEM_SOFT_RESERVED then LB_MEM_SOFT_RESERVED
      else LB_MEM_RESERVED)"

definition bootmem_add_range ::
  "bool \<Rightarrow> u64 \<Rightarrow> u64 \<Rightarrow> bootmem_type \<Rightarrow> bootmem_state \<Rightarrow> bootmem_state option" where
  "bootmem_add_range fatal start1 size1 tag st =
     c_assert fatal (BM_MEM_FIRST < tag \<and> tag < BM_MEM_LAST)
       (c_assert fatal (initialized st)
         (case memranges_insert (bootmem st, bm_heap st) start1 size1 (ucast tag) of
            (bm, h) \<Rightarrow>
              if tag \<le> BM_MEM_OS_CUTOFF
              then c_assert fatal (\<not> table_written st)
                (case memranges_insert (bootmem_os st, h) start1 size1 (ucast tag) of
                   (os, h') \<Rightarrow> Some (st\<lparr>bootmem := bm, bootmem_os := os, bm_heap := h'\<rparr>))
              else Some (st\<lparr>bootmem := bm, bm_heap := h\<rparr>)))"

fun bootmem_add_ranges :: "bool \<Rightarrow> bm_range list \<Rightarrow> bootmem_state \<Rightarrow> bootmem_state option" where
  "bootmem_add_ranges fatal [] st = Some st"
| "bootmem_add_ranges fatal ((start1, size1, tag) # rest) st =
     (case bootmem_add_range fatal start1 size1 tag st of
        None \<Rightarrow> None
      | Some st' \<Rightarrow> bootmem_add_ranges fatal rest st')"

definition hook_ranges :: "platform_ranges \<Rightarrow> bm_range list" where
  "hook_ranges p =
     cbmem_ranges p @ capsule_ranges p @
     [(fst (stack_region p), snd (stack_region p), BM_MEM_RAMSTAGE),
      (fst (program_region p), snd (program_region p), BM_MEM_RAMSTAGE)] @
     arch_ranges p @ board_ranges p"

definition bootmem_init ::
  "bool \<Rightarrow> device list \<Rightarrow> platform_ranges \<Rightarrow> bootmem_state \<Rightarrow> bootmem_state option" where
  "bootmem_init fatal devs p st =
     (let s1 = memranges_init_with_alignment devs (bm_heap st)
                 IORESOURCE_CACHEABLE IORESOURCE_CACHEABLE (ucast BM_MEM_RAM) 12;
          s2 = memranges_add_resources devs s1 IORESOURCE_RESERVE IORESOURCE_RESERVE
                 (ucast BM_MEM_RESERVED);
          (bm, h) = memranges_add_resources devs s2 IORESOURCE_SOFT_RESERVE IORESOURCE_SOFT_RESERVE
                 (ucast BM_MEM_SOFT_RESERVED);
          (os, h') = memranges_clone bm h
      in bootmem_add_ranges fatal (hook_ranges p)
           (st\<lparr>initialized := True, bootmem := bm, bootmem_os := os, bm_heap := h'\<rparr>))"

definition lb_range :: "range_entry \<Rightarrow> lb_memory_range" where
  "lb_range r = \<lparr>lb_start = range_entry_base r, lb_size = range_entry_size r,
     lb_type = bootmem_to_lb_tag (ucast (range_entry_tag r))\<rparr>"

text \<open>A \<^verbatim>\<open>struct lb_memory_range\<close> takes 20 bytes of the table.\<close>

definition bootmem_write_memory_table ::
  "bool \<Rightarrow> device list \<Rightarrow> platform_ranges \<Rightarrow> bootmem_state \<Rightarrow> lb_memory
   \<Rightarrow> (bootmem_state \<times> lb_memory) option" where
  "bootmem_write_memory_table fatal devs p st mem =
     (case bootmem_init fatal devs p st of
        None \<Rightarrow> None
      | Some st' \<Rightarrow>
          Some (st'\<lparr>table_written := True\<rparr>,
            fold (\<lambda>r m. m\<lparr>lb_map := lb_map m @ [lb_range r], lb_mem_size := lb_mem_size m + 20\<rparr>)
              (entries (bootmem_os st')) (mem\<lparr>lb_map := []\<rparr>)))"

text \<open>A walk stops at the first range whose action answers false, and then returns true.\<close>

fun walk_entries :: "(range_entry \<Rightarrow> 's \<Rightarrow> bool \<times> 's) \<Rightarrow> range_entry list \<Rightarrow> 's \<Rightarrow> bool \<times> 's" where
  "walk_entries action [] s = (False, s)"
| "walk_entries action (r # rest) s =
     (case action r s of (go, s') \<Rightarrow> if \<not> go then (True, s') else walk_entries action rest s')"

definition bootmem_walk_os_mem ::
  "bool \<Rightarrow> (range_entry \<Rightarrow> 's \<Rightarrow> bool \<times> 's) \<Rightarrow> bootmem_state \<Rightarrow> 's \<Rightarrow> (bool \<times> 's) option" where
  "bootmem_walk_os_mem fatal action st s =
     c_assert fatal (initialized st) (Some (walk_entries action (entries (bootmem_os st)) s))"

definition bootmem_walk ::
  "bool \<Rightarrow> (range_entry \<Rightarrow> 's \<Rightarrow> bool \<times> 's) \<Rightarrow> bootmem_state \<Rightarrow> 's \<Rightarrow> (bool \<times> 's) option" where
  "bootmem_walk fatal action st s =
     c_assert fatal (initialized st) (Some (walk_entries action (entries (bootmem st)) s))"

fun targets_type_loop :: "range_entry list \<Rightarrow> u64 \<Rightarrow> u64 \<Rightarrow> bootmem_type \<Rightarrow> bool" where
  "targets_type_loop [] start1 end1 dest_type = False"
| "targets_type_loop (r # rest) start1 end1 dest_type =
     (if end1 \<le> range_entry_base r then False
      else if range_entry_base r \<le> start1 \<and> end1 \<le> range_entry_end r
          \<and> range_entry_tag r = ucast dest_type then True
      else targets_type_loop rest start1 end1 dest_type)"

definition bootmem_region_targets_type ::
  "bootmem_state \<Rightarrow> u64 \<Rightarrow> u64 \<Rightarrow> bootmem_type \<Rightarrow> bool" where
  "bootmem_region_targets_type st start1 size1 dest_type =
     targets_type_loop (entries (bootmem st)) start1 (start1 + size1) dest_type"

definition max_addr :: u64 where "max_addr = 0x100000000"

definition clipped_end :: "range_entry \<Rightarrow> u64" where
  "clipped_end r = (if max_addr < range_entry_end r then max_addr else range_entry_end r)"

fun find_buffer_region :: "range_entry list \<Rightarrow> u64 \<Rightarrow> range_entry option \<Rightarrow> range_entry option" where
  "find_buffer_region [] size1 region = region"
| "find_buffer_region (r # rest) size1 region =
     (if max_addr \<le> range_entry_base r then region
      else if range_entry_size r < size1 then find_buffer_region rest size1 region
      else if range_entry_tag r \<noteq> ucast BM_MEM_RAM then find_buffer_region rest size1 region
      else if clipped_end r - range_entry_base r < size1 then find_buffer_region rest size1 region
      else find_buffer_region rest size1 (Some r))"

text \<open>The inner option is the returned pointer, \<^verbatim>\<open>NULL\<close> for \<^verbatim>\<open>None\<close>.\<close>

definition bootmem_allocate_buffer ::
  "bool \<Rightarrow> u64 \<Rightarrow> bootmem_state \<Rightarrow> (u64 option \<times> bootmem_state) option" where
  "bootmem_allocate_buffer fatal size0 st =
     (if \<not> initialized st then Some (None, st)
      else let size1 = ALIGN_UP size0 4096 in
        case find_buffer_region (entries (bootmem st)) size1 None of
          None \<Rightarrow> Some (None, st)
        | Some region \<Rightarrow>
            let begin1 = clipped_end region - size1 in
            (case bootmem_add_range fatal begin1 size1 BM_MEM_PAYLOAD st of
               None \<Rightarrow> None
             | Some st' \<Rightarrow> Some (Some begin1, st')))"


subsection \<open>The maps as last-writer-wins maps\<close>

abbreviation bm_map :: "bootmem_state \<Rightarrow> mst" where "bm_map st \<equiv> (bootmem st, bm_heap st)"
abbreviation os_map :: "bootmem_state \<Rightarrow> mst" where "os_map st \<equiv> (bootmem_os st, bm_heap st)"

definition bm_ok :: "bootmem_state \<Rightarrow> bool" where
  "bm_ok st \<longleftrightarrow> initialized st \<and> pages_ok (bm_map st) \<and> pages_ok (os_map st)"

text \<open>A range the caller may pass: a type of the list, and a byte range of the address space.\<close>

definition bm_range_ok :: "bm_range \<Rightarrow> bool" where
  "bm_range_ok = (\<lambda>(b, n, t). BM_MEM_FIRST < t \<and> t < BM_MEM_LAST \<and> unat b + unat n \<le> 2 ^ 64)"

definition os_visible :: "bm_range \<Rightarrow> bool" where
  "os_visible = (\<lambda>(b, n, t). t \<le> BM_MEM_OS_CUTOFF)"

definition bm_spans :: "bm_range list \<Rightarrow> (u64 \<times> u64 \<times> u64) list" where
  "bm_spans rs = map (\<lambda>(b, n, t). (b, n, ucast t)) rs"

text \<open>\<open>over a b\<close> is \<open>a\<close> where it is defined and \<open>b\<close> elsewhere.\<close>

definition over :: "'t option \<Rightarrow> 't option \<Rightarrow> 't option" where
  "over a b = (case a of None \<Rightarrow> b | Some t \<Rightarrow> Some t)"

lemma over_simps [simp]: "over None b = b" "over (Some t) b = Some t" "over a None = a"
  by (simp_all add: over_def split: option.splits)

lemma over_assoc: "over (over a b) c = over a (over b c)"
  by (cases a) simp_all

lemma last_tag_over_Cons:
  "last_tag hits ((b, n, t) # rs) x = over (last_tag hits rs x) (if hits b n x then Some t else None)"
  by (simp add: last_tag_Cons over_def)

lemma last_tag_append:
  "last_tag hits (rs @ rs') x = over (last_tag hits rs' x) (last_tag hits rs x)"
proof (induction rs)
  case (Cons r rs)
  obtain b n t where "r = (b, n, t)" using prod_cases3 by blast
  with Cons show ?case by (simp add: last_tag_over_Cons over_assoc)
qed simp

lemma puts_over:
  assumes "pages_ok s" "2 * length rs \<le> snd s" "pages.in_bounds rs"
  shows "pages_ok (pages.puts rs s)"
    and "snd s \<le> snd (pages.puts rs s) + 2 * length rs"
    and "tagged (pages.puts rs s) x = over (last_tag page_hits rs x) (tagged s x)"
  using pages.puts_facts [of s rs] assms by (auto simp: over_def split: option.splits)

lemma add_range_facts:
  assumes "bm_ok st" "bm_range_ok (b, n, t)" "4 \<le> bm_heap st"
    and "os_visible (b, n, t) \<longrightarrow> \<not> table_written st"
  obtains st' where "bootmem_add_range fatal b n t st = Some st'" "bm_ok st'"
    "table_written st' = table_written st" "bm_heap st \<le> bm_heap st' + 4"
    "\<And>x. tagged (bm_map st') x = (if page_hits b n x then Some (ucast t) else tagged (bm_map st) x)"
    "\<And>x. tagged (os_map st') x =
      (if os_visible (b, n, t) \<and> page_hits b n x then Some (ucast t) else tagged (os_map st) x)"
    "\<not> os_visible (b, n, t) \<Longrightarrow> bootmem_os st' = bootmem_os st"
proof -
  have v: "unat b + unat n \<le> 2 ^ 64" "BM_MEM_FIRST < t" "t < BM_MEM_LAST"
    using assms(2) by (auto simp: bm_range_ok_def)
  have m: "pages_ok (bm_map st)" "2 \<le> snd (bm_map st)"
    using assms(1,3) by (auto simp: bm_ok_def)
  obtain bm h where i: "memranges_insert (bm_map st) b n (ucast t) = (bm, h)" by fastforce
  note p = pages.put_inv [OF m v(1), where t = "ucast t", unfolded i]
    pages.put_lookup [OF m v(1), where t = "ucast t", unfolded i]
    pages.put_room [OF m v(1), where t = "ucast t", unfolded i]
  have o: "pages_ok (bootmem_os st, h)" "2 \<le> snd (bootmem_os st, h)"
    using assms(1,3) p(3) by (auto simp: bm_ok_def pages_ok_def mst_ok_def)
  obtain os h' where j: "memranges_insert (bootmem_os st, h) b n (ucast t) = (os, h')" by fastforce
  note q = pages.put_inv [OF o v(1), where t = "ucast t", unfolded j]
    pages.put_lookup [OF o v(1), where t = "ucast t", unfolded j]
    pages.put_room [OF o v(1), where t = "ucast t", unfolded j]
  show thesis
  proof (cases "os_visible (b, n, t)")
    case True
    then have c: "t \<le> BM_MEM_OS_CUTOFF" by (simp add: os_visible_def)
    show thesis
      by (rule that [of "st\<lparr>bootmem := bm, bootmem_os := os, bm_heap := h'\<rparr>"])
        (use True c assms v i j p q in \<open>auto simp: bootmem_add_range_def c_assert_def bm_ok_def pages_ok_def mst_ok_def\<close>)
  next
    case False
    then have c: "\<not> t \<le> BM_MEM_OS_CUTOFF" by (simp add: os_visible_def)
    show thesis
      by (rule that [of "st\<lparr>bootmem := bm, bm_heap := h\<rparr>"])
        (use False c assms v i j p q in \<open>auto simp: bootmem_add_range_def c_assert_def bm_ok_def pages_ok_def mst_ok_def\<close>)
  qed
qed

lemma add_ranges_facts:
  assumes "bm_ok st" "\<forall>r\<in>set rs. bm_range_ok r" "4 * length rs \<le> bm_heap st" "\<not> table_written st"
  shows "\<exists>st'. bootmem_add_ranges fatal rs st = Some st' \<and> bm_ok st' \<and> \<not> table_written st' \<and>
    bm_heap st \<le> bm_heap st' + 4 * length rs \<and>
    (\<forall>x. tagged (bm_map st') x = over (last_tag page_hits (bm_spans rs) x) (tagged (bm_map st) x)) \<and>
    (\<forall>x. tagged (os_map st') x =
      over (last_tag page_hits (bm_spans (filter os_visible rs)) x) (tagged (os_map st) x))"
  using assms
proof (induction rs arbitrary: st)
  case Nil
  then show ?case by (simp add: bm_spans_def)
next
  case (Cons r rs)
  obtain b n t where r: "r = (b, n, t)" using prod_cases3 by blast
  have p: "bm_range_ok (b, n, t)" "4 \<le> bm_heap st" "os_visible (b, n, t) \<longrightarrow> \<not> table_written st"
    using Cons.prems by (simp_all add: r)
  obtain st1 where s: "bootmem_add_range fatal b n t st = Some st1" "bm_ok st1"
    "table_written st1 = table_written st" "bm_heap st \<le> bm_heap st1 + 4"
    "\<And>x. tagged (bm_map st1) x = (if page_hits b n x then Some (ucast t) else tagged (bm_map st) x)"
    "\<And>x. tagged (os_map st1) x =
      (if os_visible (b, n, t) \<and> page_hits b n x then Some (ucast t) else tagged (os_map st) x)"
    "\<not> os_visible (b, n, t) \<Longrightarrow> bootmem_os st1 = bootmem_os st"
    using add_range_facts [OF Cons.prems(1) p] by blast
  have "4 * length rs \<le> bm_heap st1" using s(4) Cons.prems(3) by simp
  then obtain st' where t: "bootmem_add_ranges fatal rs st1 = Some st'" "bm_ok st'" "\<not> table_written st'"
    "bm_heap st1 \<le> bm_heap st' + 4 * length rs"
    "\<And>x. tagged (bm_map st') x = over (last_tag page_hits (bm_spans rs) x) (tagged (bm_map st1) x)"
    "\<And>x. tagged (os_map st') x =
      over (last_tag page_hits (bm_spans (filter os_visible rs)) x) (tagged (os_map st1) x)"
    using Cons.IH [of st1] s(2,3) Cons.prems(2,4) by auto
  have c: "bm_spans (r # rs) = (b, n, ucast t) # bm_spans rs"
    "bm_spans (filter os_visible (r # rs)) =
      (if os_visible (b, n, t) then [(b, n, ucast t)] else []) @ bm_spans (filter os_visible rs)"
    by (simp_all add: bm_spans_def r)
  have "tagged (bm_map st') x = over (last_tag page_hits (bm_spans (r # rs)) x) (tagged (bm_map st) x)" for x
    unfolding c t(5) s(5) by (simp add: last_tag_over_Cons over_assoc)
  moreover have "tagged (os_map st') x =
      over (last_tag page_hits (bm_spans (filter os_visible (r # rs))) x) (tagged (os_map st) x)" for x
    unfolding c t(6) s(6) by (simp add: last_tag_append last_tag_over_Cons over_assoc)
  ultimately show ?case
    using s(1,4) t(1-4) by (intro exI [of _ st']) (auto simp: r)
qed

subsection \<open>Building the map\<close>

definition resource_spans :: "device list \<Rightarrow> u64 \<Rightarrow> bootmem_type \<Rightarrow> (u64 \<times> u64 \<times> u64) list" where
  "resource_spans devs flag tag =
     map (\<lambda>r. (res_base r, res_size r, ucast tag)) (added_resources devs flag flag None)"

definition firmware_spans :: "device list \<Rightarrow> (u64 \<times> u64 \<times> u64) list" where
  "firmware_spans devs =
     resource_spans devs IORESOURCE_CACHEABLE BM_MEM_RAM @
     resource_spans devs IORESOURCE_RESERVE BM_MEM_RESERVED @
     resource_spans devs IORESOURCE_SOFT_RESERVE BM_MEM_SOFT_RESERVED"

lemma add_resources_puts:
  "memranges_add_resources devs s flag flag (ucast tag) = pages.puts (resource_spans devs flag tag) s"
  by (simp add: memranges_add_resources_def add_resources_fold pages.puts_def resource_spans_def
      fold_map comp_def)

lemma init_firmware:
  assumes "4 * length (firmware_spans devs) + k \<le> h" "pages.in_bounds (firmware_spans devs)"
  obtains bm h1 os h2 where
    "memranges_add_resources devs (memranges_add_resources devs
       (memranges_init_with_alignment devs h IORESOURCE_CACHEABLE IORESOURCE_CACHEABLE (ucast BM_MEM_RAM) 12)
       IORESOURCE_RESERVE IORESOURCE_RESERVE (ucast BM_MEM_RESERVED))
       IORESOURCE_SOFT_RESERVE IORESOURCE_SOFT_RESERVE (ucast BM_MEM_SOFT_RESERVED) = (bm, h1)"
    "memranges_clone bm h1 = (os, h2)" "k \<le> h2"
    "pages_ok (bm, h1)" "pages_ok (os, h2)" "entries os = entries bm"
    "\<And>x. tag_at (entries bm) x = last_tag page_hits (firmware_spans devs) x"
proof -
  let ?A = "resource_spans devs IORESOURCE_CACHEABLE BM_MEM_RAM"
  let ?B = "resource_spans devs IORESOURCE_RESERVE BM_MEM_RESERVED"
  let ?C = "resource_spans devs IORESOURCE_SOFT_RESERVE BM_MEM_SOFT_RESERVED"
  let ?empty = "(memranges_init_empty_with_alignment [] 12, h) :: mst"
  have s0: "pages_ok ?empty" "tagged ?empty x = None" "cells_total ?empty = h" "snd ?empty = h" for x
    by (simp_all add: memranges_init_empty_with_alignment_def pages_ok_def mst_ok_def cells_total_def)
  let ?s = "pages.puts (firmware_spans devs) ?empty"
  have l: "2 * length (firmware_spans devs) \<le> snd ?empty" using assms(1) s0(4) by simp
  note p = puts_over [OF s0(1) l assms(2)]
  obtain bm h1 where b: "?s = (bm, h1)" by fastforce
  have n: "length (entries bm) + h1 \<le> h"
    using puts_cells [OF s0(1) l assms(2)] s0(3) b by (simp add: cells_total_def)
  have h1: "h \<le> h1 + 2 * length (firmware_spans devs)" using p(2) s0(3) b by simp
  have e: "length (entries bm) \<le> h1" using n h1 assms(1) by simp
  obtain os h2 where c: "memranges_clone bm h1 = (os, h2)" by fastforce
  have k: "k \<le> h2"
    using clone_heap [OF e] n h1 assms(1) unfolding c by simp
  show thesis
  proof (rule that [of bm h1 os h2])
    show "memranges_add_resources devs (memranges_add_resources devs
       (memranges_init_with_alignment devs h IORESOURCE_CACHEABLE IORESOURCE_CACHEABLE (ucast BM_MEM_RAM) 12)
       IORESOURCE_RESERVE IORESOURCE_RESERVE (ucast BM_MEM_RESERVED))
       IORESOURCE_SOFT_RESERVE IORESOURCE_SOFT_RESERVE (ucast BM_MEM_SOFT_RESERVED) = (bm, h1)"
      unfolding memranges_init_with_alignment_def add_resources_puts b [symmetric]
      by (simp add: pages.puts_append firmware_spans_def)
  qed (use c k p b s0 clone_facts(1,2) [OF e] in \<open>simp_all add: pages_ok_def mst_ok_def\<close>)
qed


subsection \<open>The memory table\<close>

fun lb_lookup :: "lb_memory_range list \<Rightarrow> u64 \<Rightarrow> u32 option" where
  "lb_lookup [] x = None"
| "lb_lookup (m # ms) x =
     (if lb_start m \<le> x \<and> x - lb_start m \<le> lb_size m - 1 then Some (lb_type m) else lb_lookup ms x)"

abbreviation lb_type_of :: "u64 \<Rightarrow> u32" where
  "lb_type_of t \<equiv> bootmem_to_lb_tag (ucast t)"

lemma lb_lookup_ranges:
  "ranges_ok es \<Longrightarrow> lb_lookup (map lb_range es) x = map_option lb_type_of (tag_at es x)"
proof (induction es)
  case (Cons r rest)
  have "x - r_begin r \<le> r_end r - r_begin r \<longleftrightarrow> x \<le> r_end r" if "r_begin r \<le> x" "r_begin r \<le> r_end r"
    using that by (simp add: word_le_nat_alt unat_sub_no_wrap) linarith
  with Cons show ?case
    by (auto simp: ranges_ok_Cons lb_range_def range_entry_base_def range_entry_size_def range_entry_tag_def)
qed simp

lemma table_fold:
  "fold (\<lambda>r m. m\<lparr>lb_map := lb_map m @ [lb_range r], lb_mem_size := lb_mem_size m + 20\<rparr>) es m =
   m\<lparr>lb_map := lb_map m @ map lb_range es, lb_mem_size := lb_mem_size m + of_nat (20 * length es)\<rparr>"
  by (induction es arbitrary: m) (simp_all add: algebra_simps)

lemma bootmem_init_facts:
  assumes "\<not> table_written st" "pages.in_bounds (firmware_spans devs)"
    and "\<forall>r\<in>set (hook_ranges p). bm_range_ok r"
    and "4 * length (firmware_spans devs) + 4 * length (hook_ranges p) \<le> bm_heap st"
  shows "\<exists>st'. bootmem_init fatal devs p st = Some st' \<and> bm_ok st' \<and> \<not> table_written st' \<and>
    (\<forall>x. tagged (bm_map st') x =
      last_tag page_hits (firmware_spans devs @ bm_spans (hook_ranges p)) x) \<and>
    (\<forall>x. tagged (os_map st') x =
      last_tag page_hits (firmware_spans devs @ bm_spans (filter os_visible (hook_ranges p))) x)"
proof -
  obtain bm h1 os h2 where f:
    "memranges_add_resources devs (memranges_add_resources devs
       (memranges_init_with_alignment devs (bm_heap st)
         IORESOURCE_CACHEABLE IORESOURCE_CACHEABLE (ucast BM_MEM_RAM) 12)
       IORESOURCE_RESERVE IORESOURCE_RESERVE (ucast BM_MEM_RESERVED))
       IORESOURCE_SOFT_RESERVE IORESOURCE_SOFT_RESERVE (ucast BM_MEM_SOFT_RESERVED) = (bm, h1)"
    "memranges_clone bm h1 = (os, h2)" "4 * length (hook_ranges p) \<le> h2"
    "pages_ok (bm, h1)" "pages_ok (os, h2)" "entries os = entries bm"
    "\<And>x. tag_at (entries bm) x = last_tag page_hits (firmware_spans devs) x"
    using init_firmware [OF assms(4,2)] by blast
  let ?st = "st\<lparr>initialized := True, bootmem := bm, bootmem_os := os, bm_heap := h2\<rparr>"
  have i: "bootmem_init fatal devs p st = bootmem_add_ranges fatal (hook_ranges p) ?st"
    using f(1,2) by (simp add: bootmem_init_def Let_def)
  have ok: "bm_ok ?st" using f(4,5) by (simp add: bm_ok_def pages_ok_def mst_ok_def)
  from add_ranges_facts [OF ok assms(3), of fatal] f(3,6,7) assms(1)
  obtain st' where s: "bootmem_add_ranges fatal (hook_ranges p) ?st = Some st'" "bm_ok st'"
    "\<not> table_written st'"
    "\<And>x. tagged (bm_map st') x = over (last_tag page_hits (bm_spans (hook_ranges p)) x)
      (last_tag page_hits (firmware_spans devs) x)"
    "\<And>x. tagged (os_map st') x = over (last_tag page_hits (bm_spans (filter os_visible (hook_ranges p))) x)
      (last_tag page_hits (firmware_spans devs) x)"
    by auto
  show ?thesis
    unfolding i by (intro exI [of _ st'] conjI allI s(1-3)) (simp_all only: s(4,5) last_tag_append)
qed

text \<open>Once the table is written and asserts are fatal, nothing can change the view of the OS.\<close>

lemma add_range_frozen:
  "bootmem_add_range True b n t st = Some st' \<Longrightarrow> table_written st \<Longrightarrow>
   bootmem_os st' = bootmem_os st \<and> table_written st'"
  by (auto simp: bootmem_add_range_def c_assert_def split: if_splits prod.splits)

lemma add_ranges_frozen:
  "bootmem_add_ranges True rs st = Some st' \<Longrightarrow> table_written st \<Longrightarrow>
   bootmem_os st' = bootmem_os st \<and> table_written st'"
proof (induction rs arbitrary: st)
  case (Cons r rs)
  obtain b n t where r: "r = (b, n, t)" using prod_cases3 by blast
  from Cons.prems obtain st1 where "bootmem_add_range True b n t st = Some st1"
    "bootmem_add_ranges True rs st1 = Some st'" by (auto simp: r split: option.splits)
  with Cons.IH [of st1] add_range_frozen Cons.prems(2) show ?case by metis
qed simp

lemma allocate_frozen:
  "bootmem_allocate_buffer True n st = Some (p, st') \<Longrightarrow> table_written st \<Longrightarrow>
   bootmem_os st' = bootmem_os st \<and> table_written st'"
  by (auto simp: bootmem_allocate_buffer_def Let_def split: if_splits option.splits dest: add_range_frozen)

subsection \<open>Range queries\<close>

definition no_last_byte :: "range_entry list \<Rightarrow> bool" where
  "no_last_byte es \<longleftrightarrow> (\<forall>r\<in>set es. r_end r \<noteq> - 1)"

lemma targets_type_loop_eq:
  assumes "ranges_ok es" "no_last_byte es" "a < e"
  shows "targets_type_loop es a e t \<longleftrightarrow>
    (\<exists>r\<in>set es. r_begin r \<le> a \<and> e - 1 \<le> r_end r \<and> r_tag r = ucast t)"
  using assms
proof (induction es)
  case (Cons r rest)
  have r: "r_end r \<noteq> - 1" "ranges_ok rest" "no_last_byte rest"
    using Cons.prems by (simp_all add: no_last_byte_def ranges_ok_Cons)
  have ends: "e \<le> range_entry_end r \<longleftrightarrow> e - 1 \<le> r_end r"
    using unat_plus_one [OF r(1)] unat_dec_gt [OF Cons.prems(3)] Cons.prems(3)
    by (auto simp: unat_simps range_entry_end_def)
  show ?case
  proof (cases "e \<le> r_begin r")
    case True
    have "\<not> r_begin q \<le> a" if "q \<in> set (r # rest)" for q
      using that True Cons.prems(1,3) by (auto simp: ranges_ok_Cons unat_simps)
    then show ?thesis using True by (auto simp: range_entry_base_def)
  next
    case False
    with Cons.IH [OF r(2,3) Cons.prems(3)] ends show ?thesis
      by (auto simp: range_entry_base_def range_entry_tag_def)
  qed
qed simp

lemma targets_type_bytes:
  assumes "ranges_ok es" "no_mergeable es" "no_last_byte es" "a < e"
  shows "targets_type_loop es a e t \<longleftrightarrow> (\<forall>x. a \<le> x \<and> x < e \<longrightarrow> tag_at es x = Some (ucast t))"
proof
  have d: "x \<le> e - 1 \<longleftrightarrow> x < e" for x
    using unat_dec_gt [OF assms(4)] assms(4) by (auto simp: unat_simps)
  show "\<forall>x. a \<le> x \<and> x < e \<longrightarrow> tag_at es x = Some (ucast t)" if "targets_type_loop es a e t"
  proof -
    from that obtain r where r: "r \<in> set es" "r_begin r \<le> a" "e - 1 \<le> r_end r" "r_tag r = ucast t"
      using targets_type_loop_eq [OF assms(1,3,4)] by blast
    have "r_begin r \<le> x \<and> x \<le> r_end r" if "a \<le> x" "x < e" for x
      using that r(2,3) d [of x] by (meson order_trans)
    then show ?thesis using tag_at_mem [OF assms(1) r(1)] r(4) by simp
  qed
  assume "\<forall>x. a \<le> x \<and> x < e \<longrightarrow> tag_at es x = Some (ucast t)"
  then have "\<exists>r\<in>set es. r_begin r \<le> a \<and> e - 1 \<le> r_end r \<and> r_tag r = ucast t"
    using same_tag_one_range [OF assms(1,2), of a "e - 1" "ucast t"] d assms(4) by blast
  then show "targets_type_loop es a e t" using targets_type_loop_eq [OF assms(1,3,4)] by blast
qed

subsection \<open>Allocating payload buffers\<close>

text \<open>A range that can hold a buffer of \<open>size1\<close> bytes below 4 GiB, and the address it would get.\<close>

definition buffer_fits :: "u64 \<Rightarrow> range_entry \<Rightarrow> bool" where
  "buffer_fits size1 r \<longleftrightarrow> r_tag r = ucast BM_MEM_RAM \<and>
     unat (r_begin r) + unat size1 \<le> min (unat (r_end r) + 1) (2 ^ 32)"

lemma range_end_size:
  assumes "r_begin r \<le> r_end r" "r_end r \<noteq> - 1"
  shows "unat (range_entry_end r) = unat (r_end r) + 1"
    and "unat (range_entry_size r) = unat (r_end r) + 1 - unat (r_begin r)"
proof -
  show e: "unat (range_entry_end r) = unat (r_end r) + 1"
    using unat_plus_one [OF assms(2)] by (simp add: range_entry_end_def)
  have "range_entry_size r = range_entry_end r - r_begin r"
    by (simp add: range_entry_size_def range_entry_end_def)
  then show "unat (range_entry_size r) = unat (r_end r) + 1 - unat (r_begin r)"
    using assms(1) e by (simp add: unat_sub_no_wrap unat_simps)
qed

lemma unat_max_addr: "unat max_addr = 4294967296"
  by (simp add: max_addr_def)

lemma unat_clipped_end:
  assumes "r_begin r \<le> r_end r" "r_end r \<noteq> - 1"
  shows "unat (clipped_end r) = min (unat (r_end r) + 1) 4294967296"
  using range_end_size(1) [OF assms] by (auto simp: clipped_end_def unat_simps unat_max_addr)

lemma buffer_fits_test:
  assumes "r_begin r \<le> r_end r" "r_end r \<noteq> - 1" "r_begin r < max_addr"
  shows "buffer_fits size1 r \<longleftrightarrow> \<not> range_entry_size r < size1 \<and>
    range_entry_tag r = ucast BM_MEM_RAM \<and> \<not> clipped_end r - range_entry_base r < size1"
proof -
  have "unat (clipped_end r - r_begin r) = min (unat (r_end r) + 1) 4294967296 - unat (r_begin r)"
    using unat_clipped_end [OF assms(1,2)] assms(1,3)
    by (simp add: unat_sub_no_wrap unat_simps unat_max_addr)
  then show ?thesis
    using range_end_size(2) [OF assms(1,2)] assms(1,3)
    by (auto simp: buffer_fits_def range_entry_base_def range_entry_tag_def unat_simps unat_max_addr)
qed

lemma find_buffer_region_eq:
  assumes "ranges_ok es" "no_last_byte es" "size1 \<noteq> 0"
  shows "find_buffer_region es size1 acc =
    (let fs = filter (buffer_fits size1) es in if fs = [] then acc else Some (last fs))"
  using assms
proof (induction es arbitrary: acc)
  case (Cons r rest)
  have r: "r_end r \<noteq> - 1" "r_begin r \<le> r_end r" "ranges_ok rest" "no_last_byte rest"
    using Cons.prems by (simp_all add: no_last_byte_def ranges_ok_Cons)
  have pos: "0 < unat size1" using assms(3) by (simp add: unat_gt_0)
  show ?case
  proof (cases "max_addr \<le> r_begin r")
    case True
    have "\<not> buffer_fits size1 q" if "q \<in> set (r # rest)" for q
    proof -
      have "r_begin r \<le> r_begin q" using that Cons.prems(1) by (auto simp: ranges_ok_Cons unat_simps)
      with True pos have "2 ^ 32 < unat (r_begin q) + unat size1"
        by (simp add: unat_simps unat_max_addr)
      then show ?thesis unfolding buffer_fits_def by linarith
    qed
    then have "filter (buffer_fits size1) (r # rest) = []" by (simp add: filter_empty_conv)
    with True show ?thesis by (simp add: range_entry_base_def)
  next
    case False
    then have lt: "r_begin r < max_addr" by simp
    note t = buffer_fits_test [OF r(2,1) lt, of size1]
    have IH: "find_buffer_region rest size1 acc' =
      (let fs = filter (buffer_fits size1) rest in if fs = [] then acc' else Some (last fs))" for acc'
      by (rule Cons.IH [OF r(3,4) Cons.prems(3)])
    have b: "\<not> max_addr \<le> range_entry_base r" using lt by (simp add: range_entry_base_def)
    show ?thesis
    proof (cases "buffer_fits size1 r")
      case True
      with t b IH [of "Some r"] show ?thesis by simp
    next
      case False
      with t b have "find_buffer_region (r # rest) size1 acc = find_buffer_region rest size1 acc" by auto
      with IH [of acc] False show ?thesis by simp
    qed
  qed
qed simp

text \<open>The block \<open>[b, b + size1)\<close> lies in one RAM range, below 4 GiB.\<close>

definition ram_block :: "range_entry list \<Rightarrow> u64 \<Rightarrow> u64 \<Rightarrow> bool" where
  "ram_block es size1 b \<longleftrightarrow> (\<exists>r\<in>set es. r_tag r = ucast BM_MEM_RAM \<and> r_begin r \<le> b \<and>
     unat b + unat size1 \<le> min (unat (r_end r) + 1) (2 ^ 32))"

lemma find_buffer_region_highest:
  assumes "ranges_ok es" "no_last_byte es" "size1 \<noteq> 0"
  shows "case find_buffer_region es size1 None of
      None \<Rightarrow> \<forall>b. \<not> ram_block es size1 b
    | Some r \<Rightarrow> r \<in> set es \<and> buffer_fits size1 r \<and>
        unat (clipped_end r - size1) + unat size1 = min (unat (r_end r) + 1) (2 ^ 32) \<and>
        r_begin r \<le> clipped_end r - size1 \<and>
        (\<forall>b. ram_block es size1 b \<longrightarrow> b \<le> clipped_end r - size1)"
proof (cases "filter (buffer_fits size1) es = []")
  case True
  then have no: "\<not> buffer_fits size1 r" if "r \<in> set es" for r using that by (simp add: filter_empty_conv)
  have "\<not> ram_block es size1 b" for b
    using no by (fastforce simp: ram_block_def buffer_fits_def unat_simps)
  then show ?thesis using True find_buffer_region_eq [OF assms, of None] by simp
next
  case False
  let ?r = "last (filter (buffer_fits size1) es)"
  have f: "find_buffer_region es size1 None = Some ?r"
    using False find_buffer_region_eq [OF assms, of None] by (simp add: Let_def)
  have r: "?r \<in> set es" "buffer_fits size1 ?r" using last_in_set [OF False] by simp_all
  then have e: "r_begin ?r \<le> r_end ?r" "r_end ?r \<noteq> - 1"
    using assms(1,2) by (auto simp: ranges_ok_def no_last_byte_def)
  have b: "unat (clipped_end ?r - size1) = min (unat (r_end ?r) + 1) (2 ^ 32) - unat size1"
    "unat size1 \<le> min (unat (r_end ?r) + 1) (2 ^ 32)"
    "unat (r_begin ?r) + unat size1 \<le> min (unat (r_end ?r) + 1) (2 ^ 32)"
    using unat_clipped_end [OF e] r(2) by (simp_all add: unat_sub_no_wrap buffer_fits_def)
  have hi: "b \<le> clipped_end ?r - size1" if rb: "ram_block es size1 b" for b
  proof -
    from rb obtain q where q: "q \<in> set es" "r_tag q = ucast BM_MEM_RAM" "r_begin q \<le> b"
      "unat b + unat size1 \<le> min (unat (r_end q) + 1) (2 ^ 32)" by (auto simp: ram_block_def)
    then have "buffer_fits size1 q" by (auto simp: buffer_fits_def unat_simps)
    from filter_hd_last_sorted(2) [where P = "\<lambda>r s. r_end r < r_begin s" and Q = "buffer_fits size1", OF _ q(1) this] assms(1) e(1)
    have "r_end q \<le> r_end ?r" by (auto simp: ranges_ok_def unat_simps)
    with q(4) b show ?thesis by (simp add: unat_simps)
  qed
  with f r b show ?thesis by (simp add: unat_simps)
qed

lemma allocate_buffer_facts:
  assumes "bm_ok st" "no_last_byte (entries (bootmem st))" "4 \<le> bm_heap st"
    and "size0 \<noteq> 0" "unat size0 \<le> 2 ^ 64 - 4096"
  defines "sz \<equiv> (unat size0 + 4095) div 4096 * 4096"
  shows "unat (ALIGN_UP size0 4096) = sz"
    and "case bootmem_allocate_buffer fatal size0 st of
      None \<Rightarrow> False
    | Some (None, st') \<Rightarrow> st' = st \<and> (\<forall>b. \<not> ram_block (entries (bootmem st)) (ALIGN_UP size0 4096) b)
    | Some (Some b, st') \<Rightarrow> bm_ok st' \<and> unat b + sz \<le> 2 ^ 32 \<and>
        (\<forall>x. b \<le> x \<and> unat x < unat b + sz \<longrightarrow>
          tagged (bm_map st) x = Some (ucast BM_MEM_RAM) \<and>
          tagged (bm_map st') x = Some (ucast BM_MEM_PAYLOAD)) \<and>
        (\<forall>x. tagged (bm_map st') x =
          (if touches 12 b (ALIGN_UP size0 4096) x then Some (ucast BM_MEM_PAYLOAD)
           else tagged (bm_map st) x)) \<and>
        bootmem_os st' = bootmem_os st \<and>
        (\<forall>b'. ram_block (entries (bootmem st)) (ALIGN_UP size0 4096) b' \<longrightarrow> b' \<le> b)"
proof -
  have "(unat size0 + (2 ^ 12 - 1)) div 2 ^ 12 * 2 ^ 12 = sz" by (simp add: sz_def)
  moreover have "unat size0 + (2 ^ 12 - 1) < 2 ^ 64" using assms(5) by simp
  ultimately show sz: "unat (ALIGN_UP size0 4096) = sz"
    using unat_ALIGN_UP [of 12 size0] by simp
  let ?sz = "ALIGN_UP size0 4096"
  have "0 < unat size0" using assms(4) by (simp add: unat_gt_0)
  then have "0 < sz" unfolding sz_def by (simp add: div_greater_zero_iff)
  then have nz: "?sz \<noteq> 0" using sz by auto
  have init: "initialized st" using assms(1) by (simp add: bm_ok_def)
  have ok: "ranges_ok (entries (bootmem st))"
    using assms(1) by (simp add: bm_ok_def pages_ok_def mst_ok_def)
  note h = find_buffer_region_highest [OF ok assms(2) nz]
  show "case bootmem_allocate_buffer fatal size0 st of
      None \<Rightarrow> False
    | Some (None, st') \<Rightarrow> st' = st \<and> (\<forall>b. \<not> ram_block (entries (bootmem st)) ?sz b)
    | Some (Some b, st') \<Rightarrow> bm_ok st' \<and> unat b + sz \<le> 2 ^ 32 \<and>
        (\<forall>x. b \<le> x \<and> unat x < unat b + sz \<longrightarrow>
          tagged (bm_map st) x = Some (ucast BM_MEM_RAM) \<and>
          tagged (bm_map st') x = Some (ucast BM_MEM_PAYLOAD)) \<and>
        (\<forall>x. tagged (bm_map st') x =
          (if touches 12 b ?sz x then Some (ucast BM_MEM_PAYLOAD) else tagged (bm_map st) x)) \<and>
        bootmem_os st' = bootmem_os st \<and>
        (\<forall>b'. ram_block (entries (bootmem st)) ?sz b' \<longrightarrow> b' \<le> b)"
  proof (cases "find_buffer_region (entries (bootmem st)) ?sz None")
    case None
    with h init show ?thesis by (simp add: bootmem_allocate_buffer_def)
  next
    case (Some r)
    let ?b = "clipped_end r - ?sz"
    have r: "r \<in> set (entries (bootmem st))" "buffer_fits ?sz r"
      "unat ?b + sz = min (unat (r_end r) + 1) (2 ^ 32)" "r_begin r \<le> ?b"
      "\<forall>b'. ram_block (entries (bootmem st)) ?sz b' \<longrightarrow> b' \<le> ?b"
      using h Some sz by simp_all
    have "unat ?b + sz \<le> 2 ^ 32" using r(3) by linarith
    then have v: "bm_range_ok (?b, ?sz, BM_MEM_PAYLOAD)"
      using sz by (simp add: bm_range_ok_def bm_mem_defs)
    have nv: "\<not> os_visible (?b, ?sz, BM_MEM_PAYLOAD)" by (simp add: os_visible_def bm_mem_defs)
    then have nvi: "os_visible (?b, ?sz, BM_MEM_PAYLOAD) \<longrightarrow> \<not> table_written st" by simp
    obtain st' where s: "bootmem_add_range fatal ?b ?sz BM_MEM_PAYLOAD st = Some st'" "bm_ok st'"
      "\<And>x. tagged (bm_map st') x =
        (if page_hits ?b ?sz x then Some (ucast BM_MEM_PAYLOAD) else tagged (bm_map st) x)"
      "\<not> os_visible (?b, ?sz, BM_MEM_PAYLOAD) \<Longrightarrow> bootmem_os st' = bootmem_os st"
      by (rule add_range_facts [OF assms(1) v assms(3) nvi, of fatal]; rule that)
    have a: "bootmem_allocate_buffer fatal size0 st = Some (Some ?b, st')"
      using Some s(1) init by (simp add: bootmem_allocate_buffer_def Let_def)
    have ram: "tagged (bm_map st) x = Some (ucast BM_MEM_RAM)" and hit: "touches 12 ?b ?sz x"
      if x: "?b \<le> x" "unat x < unat ?b + sz" for x
    proof -
      have "r_begin r \<le> x" "x \<le> r_end r" using x r(3,4) by (simp_all add: unat_simps)
      then show "tagged (bm_map st) x = Some (ucast BM_MEM_RAM)"
        using tag_at_mem [OF ok r(1)] r(2) by (simp add: buffer_fits_def)
      have "unat x \<le> unat ?b + unat ?sz - 1" using x sz by linarith
      then have "unat x div 2 ^ 12 \<le> (unat ?b + unat ?sz - 1) div 2 ^ 12" by (rule div_le_mono)
      moreover have "unat ?b div 2 ^ 12 \<le> unat x div 2 ^ 12"
        using x(1) by (intro div_le_mono) (simp add: unat_simps)
      ultimately show "touches 12 ?b ?sz x" by (simp only: touches_def simp_thms)
    qed
    have hit': "page_hits ?b ?sz x \<longleftrightarrow> touches 12 ?b ?sz x" for x using nz by simp
    have fit: "unat ?b + sz \<le> 2 ^ 32" using r(3) by linarith
    show ?thesis
      unfolding a option.case prod.case
      by (intro conjI allI impI; (elim conjE)?;
          (rule s(2) fit ram s(4) [OF nv] r(5) [rule_format] | simp only: s(3) hit' hit if_True nz simp_thms not_False_eq_True | assumption))
  qed
qed


subsection \<open>Properties\<close>

text \<open>C6: writing the memory table succeeds on a map not yet published, whatever the assert policy, and
  records what the code's comment promises: each later range takes over from the earlier ones. The boot
  map gives an address the type of the last range, in the order of the calls, that reaches into its
  page; the published table gives the operating system the same with the boot-only types left out.\<close>

theorem bootmem_table_spec:
  assumes "\<not> table_written st" "pages.in_bounds (firmware_spans devs)"
    and "\<forall>r\<in>set (hook_ranges p). bm_range_ok r"
    and "4 * length (firmware_spans devs) + 4 * length (hook_ranges p) \<le> bm_heap st"
  shows "\<exists>st' mem'. bootmem_write_memory_table fatal devs p st mem = Some (st', mem') \<and>
    bm_ok st' \<and> table_written st' \<and>
    (\<forall>x. tagged (bm_map st') x =
      last_tag page_hits (firmware_spans devs @ bm_spans (hook_ranges p)) x) \<and>
    (\<forall>x. lb_lookup (lb_map mem') x = map_option lb_type_of
      (last_tag page_hits (firmware_spans devs @ bm_spans (filter os_visible (hook_ranges p))) x)) \<and>
    lb_mem_size mem' = lb_mem_size mem + of_nat (20 * length (lb_map mem'))"
proof -
  from bootmem_init_facts [OF assms, of fatal] obtain st1 where s:
    "bootmem_init fatal devs p st = Some st1" "bm_ok st1"
    "\<forall>x. tagged (bm_map st1) x = last_tag page_hits (firmware_spans devs @ bm_spans (hook_ranges p)) x"
    "\<forall>x. tagged (os_map st1) x =
      last_tag page_hits (firmware_spans devs @ bm_spans (filter os_visible (hook_ranges p))) x" by blast
  let ?mem = "mem\<lparr>lb_map := map lb_range (entries (bootmem_os st1)),
      lb_mem_size := lb_mem_size mem + of_nat (20 * length (entries (bootmem_os st1)))\<rparr>"
  have w: "bootmem_write_memory_table fatal devs p st mem = Some (st1\<lparr>table_written := True\<rparr>, ?mem)"
    by (simp add: bootmem_write_memory_table_def s(1) table_fold)
  have "ranges_ok (entries (bootmem_os st1))" using s(2) by (simp add: bm_ok_def pages_ok_def mst_ok_def)
  then have "\<forall>x. lb_lookup (lb_map ?mem) x = map_option lb_type_of
      (last_tag page_hits (firmware_spans devs @ bm_spans (filter os_visible (hook_ranges p))) x)"
    using lb_lookup_ranges s(4) by simp
  moreover have "bm_ok (st1\<lparr>table_written := True\<rparr>)" using s(2) by (simp add: bm_ok_def)
  ultimately show ?thesis using w s(3) by (intro exI [of _ "st1\<lparr>table_written := True\<rparr>"] exI [of _ ?mem]) simp
qed

definition sample_resource :: "u64 \<Rightarrow> u64 \<Rightarrow> u64 \<Rightarrow> resource" where
  "sample_resource b n f = \<lparr>res_base = b, res_size = n, res_limit = 0,
     res_flags = f OR IORESOURCE_MEM OR IORESOURCE_ASSIGNED, res_index = 0, res_align = 0, res_gran = 0\<rparr>"

definition sample_devs :: "device list" where
  "sample_devs = [\<lparr>dev_enabled = True, dev_path_type = DEVICE_PATH_PCI, dev_class = 0, resource_list =
     [sample_resource 0 0x1000000 IORESOURCE_CACHEABLE, sample_resource 0xA0000 0x60000 IORESOURCE_RESERVE]\<rparr>]"

definition sample_platform :: platform_ranges where
  "sample_platform = \<lparr>cbmem_ranges = [(0xF00000, 0x100000, BM_MEM_TABLE)], capsule_ranges = [],
     stack_region = (0x200000, 0x2000), program_region = (0x300000, 0x80000),
     arch_ranges = [], board_ranges = []\<rparr>"

definition sample_boot :: bootmem_state where
  "sample_boot = \<lparr>initialized = False, table_written = False,
     bootmem = \<lparr>entries = [], free_list = [], align = 0\<rparr>,
     bootmem_os = \<lparr>entries = [], free_list = [], align = 0\<rparr>, bm_heap = 64\<rparr>"

lemma sample_boot_facts:
  "firmware_spans sample_devs =
    [(0, 0x1000000, ucast BM_MEM_RAM), (0xA0000, 0x60000, ucast BM_MEM_RESERVED)]"
  "hook_ranges sample_platform = [(0xF00000, 0x100000, BM_MEM_TABLE),
    (0x200000, 0x2000, BM_MEM_RAMSTAGE), (0x300000, 0x80000, BM_MEM_RAMSTAGE)]"
  by (simp_all add: firmware_spans_def resource_spans_def added_resources_def selected_resources_def
      res_selected_def sample_devs_def sample_resource_def ioresource_defs hook_ranges_def sample_platform_def)

theorem bootmem_table_spec_witness:
  "\<exists>st' mem'. bootmem_write_memory_table True sample_devs sample_platform sample_boot
      \<lparr>lb_mem_size = 8, lb_map = []\<rparr> = Some (st', mem') \<and>
    tagged (bm_map st') 0x300000 = Some (ucast BM_MEM_RAMSTAGE) \<and>
    lb_lookup (lb_map mem') 0x300000 = Some LB_MEM_RAM \<and>
    lb_lookup (lb_map mem') 0xA0000 = Some LB_MEM_RESERVED \<and>
    lb_lookup (lb_map mem') 0xF00000 = Some LB_MEM_TABLE"
proof -
  have "pages.in_bounds (firmware_spans sample_devs)"
    by (simp add: pages.in_bounds_def sample_boot_facts)
  moreover have "\<forall>r\<in>set (hook_ranges sample_platform). bm_range_ok r"
    by (simp add: sample_boot_facts bm_range_ok_def bm_mem_defs)
  moreover have "\<not> table_written sample_boot" "4 * length (firmware_spans sample_devs) +
      4 * length (hook_ranges sample_platform) \<le> bm_heap sample_boot"
    by (simp_all add: sample_boot_def sample_boot_facts)
  ultimately obtain st' mem' where w: "bootmem_write_memory_table True sample_devs sample_platform sample_boot
      \<lparr>lb_mem_size = 8, lb_map = []\<rparr> = Some (st', mem')"
    "\<forall>x. tagged (bm_map st') x = last_tag page_hits (firmware_spans sample_devs @
      bm_spans (hook_ranges sample_platform)) x"
    "\<forall>x. lb_lookup (lb_map mem') x = map_option lb_type_of (last_tag page_hits
      (firmware_spans sample_devs @ bm_spans (filter os_visible (hook_ranges sample_platform))) x)"
    using bootmem_table_spec [of sample_boot sample_devs sample_platform True
        "\<lparr>lb_mem_size = 8, lb_map = []\<rparr>"] by blast
  then show ?thesis
    by (intro exI [of _ st'] exI [of _ mem'])
      (simp add: sample_boot_facts bm_spans_def last_tag_def touches_def os_visible_def bm_mem_defs
        bootmem_to_lb_tag_def)
qed

text \<open>Once the table is written and asserts are fatal, neither further ranges nor buffer
  allocations change the view of the operating system: a call either halts or leaves it as it was.\<close>

theorem bootmem_os_frozen:
  assumes "table_written st"
  shows "(bootmem_add_ranges True rs st = Some st1 \<longrightarrow> bootmem_os st1 = bootmem_os st \<and> table_written st1) \<and>
    (bootmem_allocate_buffer True n st = Some (ptr, st2) \<longrightarrow> bootmem_os st2 = bootmem_os st \<and> table_written st2)"
  using add_ranges_frozen allocate_frozen assms by blast

text \<open>A buffer allocation below 4 GiB rounds the size up to pages and returns the highest block of
  that size inside one RAM range; its bytes were RAM and become payload memory, the pages it does not
  touch and the view of the OS stay as they were. It returns \<^verbatim>\<open>NULL\<close>, changing nothing, only when no
  RAM range can hold the block, and never halts.\<close>

theorem bootmem_allocate_buffer_spec:
  assumes "bm_ok st" "no_last_byte (entries (bootmem st))" "4 \<le> bm_heap st"
    and "size0 \<noteq> 0" "unat size0 \<le> 2 ^ 64 - 4096"
  shows "unat (ALIGN_UP size0 4096) = (unat size0 + 4095) div 4096 * 4096 \<and>
    (case bootmem_allocate_buffer fatal size0 st of
      None \<Rightarrow> False
    | Some (None, st') \<Rightarrow> st' = st \<and> (\<forall>b. \<not> ram_block (entries (bootmem st)) (ALIGN_UP size0 4096) b)
    | Some (Some b, st') \<Rightarrow> bm_ok st' \<and> unat b + (unat size0 + 4095) div 4096 * 4096 \<le> 2 ^ 32 \<and>
        (\<forall>x. b \<le> x \<and> unat x < unat b + (unat size0 + 4095) div 4096 * 4096 \<longrightarrow>
          tagged (bm_map st) x = Some (ucast BM_MEM_RAM) \<and>
          tagged (bm_map st') x = Some (ucast BM_MEM_PAYLOAD)) \<and>
        (\<forall>x. tagged (bm_map st') x =
          (if touches 12 b (ALIGN_UP size0 4096) x then Some (ucast BM_MEM_PAYLOAD)
           else tagged (bm_map st) x)) \<and>
        bootmem_os st' = bootmem_os st \<and>
        (\<forall>b'. ram_block (entries (bootmem st)) (ALIGN_UP size0 4096) b' \<longrightarrow> b' \<le> b))"
  using allocate_buffer_facts [OF assms] by blast

definition sample_ready :: bootmem_state where
  "sample_ready = \<lparr>initialized = True, table_written = True,
     bootmem = \<lparr>entries = [\<lparr>r_begin = 0x1000, r_end = 0x9FFF, r_tag = 0x10001\<rparr>,
         \<lparr>r_begin = 0xA000, r_end = 0xBFFF, r_tag = 0x10002\<rparr>,
         \<lparr>r_begin = 0xFFFF0000, r_end = 0x1000FFFFF, r_tag = 0x10001\<rparr>], free_list = [], align = 12\<rparr>,
     bootmem_os = \<lparr>entries = [], free_list = [], align = 12\<rparr>, bm_heap = 8\<rparr>"

lemma sample_ready_facts:
  "bm_ok sample_ready" "no_last_byte (entries (bootmem sample_ready))" "4 \<le> bm_heap sample_ready"
  by (simp_all add: sample_ready_def bm_ok_def pages_ok_def mst_ok_def ranges_ok_Cons no_last_byte_def)

text \<open>The range query answers whether every byte of the region has the wanted type, when the
  region does not run past the end of the address space and no range reaches its last byte.\<close>

theorem bootmem_region_targets_type_spec:
  assumes "bm_ok st" "no_last_byte (entries (bootmem st))"
    and "size1 \<noteq> 0" "unat start1 + unat size1 < 2 ^ 64"
  shows "bootmem_region_targets_type st start1 size1 t \<longleftrightarrow>
    (\<forall>x. start1 \<le> x \<and> unat x < unat start1 + unat size1 \<longrightarrow> tagged (bm_map st) x = Some (ucast t))"
proof -
  have ok: "ranges_ok (entries (bootmem st))" "no_mergeable (entries (bootmem st))"
    using assms(1) by (simp_all add: bm_ok_def pages_ok_def mst_ok_def)
  have e: "unat (start1 + size1) = unat start1 + unat size1"
    using assms(4) by (simp add: unat_add_no_wrap)
  have "0 < unat size1" using assms(3) by (simp add: unat_gt_0)
  then have lt: "start1 < start1 + size1" by (simp add: word_less_nat_alt e)
  have "x < start1 + size1 \<longleftrightarrow> unat x < unat start1 + unat size1" for x
    by (simp add: word_less_nat_alt e)
  with targets_type_bytes [OF ok assms(2) lt, of t] show ?thesis
    by (simp add: bootmem_region_targets_type_def)
qed

text \<open>The sum of start and size is not checked for overflow. A region that starts beyond a range
  and wraps around to end inside it is accepted, although its first byte is not in the range.\<close>

theorem bootmem_region_targets_type_wraps:
  assumes "entries (bootmem st) = r # rest" "r_begin r \<le> r_end r" "r_end r < start1"
    and "r_begin r < start1 + size1" "start1 + size1 \<le> r_end r + 1" "r_tag r = ucast t"
    and "ranges_ok (entries (bootmem st))" "\<forall>q\<in>set rest. start1 < r_begin q"
  shows "bootmem_region_targets_type st start1 size1 t \<and> tagged (bm_map st) start1 = None"
proof
  have "r_begin r \<le> start1" "\<not> start1 + size1 \<le> r_begin r" using assms(2-4) by (auto simp: unat_simps)
  with assms(1,5,6) show "bootmem_region_targets_type st start1 size1 t"
    by (simp add: bootmem_region_targets_type_def range_entry_base_def range_entry_end_def range_entry_tag_def)
  have "tag_at rest start1 = None" using assms(8) by (intro tag_at_below) blast
  moreover have "\<not> start1 \<le> r_end r" using assms(3) by simp
  ultimately show "tagged (bm_map st) start1 = None" using assms(1) by simp
qed

end
