(* ===== verification/Memory.thy ===== *)
theory Memory
  imports Prelude
begin

text \<open>
  Byte-addressed memory, the target of \<^verbatim>\<open>memcpy\<close>, \<^verbatim>\<open>memset\<close> and of every pointer the modelled code
  stores through: a function from 64-bit addresses to bytes. Addresses wrap around, as pointer
  arithmetic on the modelled targets does. The little-endian
  bytes of a word are here too, since every serialised structure uses them.
\<close>

type_synonym memory = "addr \<Rightarrow> u8"

definition load_bytes :: "memory \<Rightarrow> addr \<Rightarrow> nat \<Rightarrow> u8 list" where
  "load_bytes m a n = map (\<lambda>i. m (a + of_nat i)) [0..<n]"

definition store_bytes :: "memory \<Rightarrow> addr \<Rightarrow> u8 list \<Rightarrow> memory" where
  "store_bytes m a bs =
     (\<lambda>x. if unat (x - a) < length bs then bs ! unat (x - a) else m x)"

definition memset_bytes :: "memory \<Rightarrow> addr \<Rightarrow> u8 \<Rightarrow> nat \<Rightarrow> memory" where
  "memset_bytes m a v n = store_bytes m a (replicate n v)"

lemma length_load_bytes [simp]: "length (load_bytes m a n) = n"
  by (simp add: load_bytes_def)

lemma nth_load_bytes: "i < n \<Longrightarrow> load_bytes m a n ! i = m (a + of_nat i)"
  by (simp add: load_bytes_def)

lemma load_bytes_0 [simp]: "load_bytes m a 0 = []"
  by (simp add: load_bytes_def)

lemma unat_offset: "i < 2 ^ 64 \<Longrightarrow> unat (a + of_nat i - a :: addr) = i"
  by (simp add: unat_of_nat_lt)

lemma load_store_same:
  "length bs \<le> 2 ^ 64 \<Longrightarrow> load_bytes (store_bytes m a bs) a (length bs) = bs"
  by (rule nth_equalityI) (auto simp: nth_load_bytes store_bytes_def unat_of_nat_lt)

text \<open>Two address ranges do not meet.\<close>

definition apart :: "addr \<Rightarrow> nat \<Rightarrow> addr \<Rightarrow> nat \<Rightarrow> bool" where
  "apart a n b k \<longleftrightarrow> (\<forall>i<n. k \<le> unat (a + of_nat i - b))"

lemma apartI:
  "unat a + n \<le> 2 ^ 64 \<Longrightarrow> unat b + k \<le> 2 ^ 64 \<Longrightarrow>
   unat a + n \<le> unat b \<or> unat b + k \<le> unat a \<Longrightarrow> apart a n b k"
proof -
  assume a: "unat a + n \<le> 2 ^ 64" "unat b + k \<le> 2 ^ 64" "unat a + n \<le> unat b \<or> unat b + k \<le> unat a"
  have "k \<le> unat (a + of_nat i - b)" if i: "i < n" for i
  proof -
    have ai: "unat (a + of_nat i) = unat a + i"
      using i a(1) by (simp add: unat_add_no_wrap unat_of_nat_lt)
    show ?thesis
    proof (cases "unat b \<le> unat a + i")
      case True
      then have "unat (a + of_nat i - b) = unat a + i - unat b"
        using ai by (simp add: unat_sub_no_wrap)
      with a i True show ?thesis by linarith
    next
      case False
      then have "unat (a + of_nat i - b) = unat a + i + 2 ^ 64 - unat b"
        using ai unat_sub_if' [of "a + of_nat i" b] by simp
      with a False show ?thesis by linarith
    qed
  qed
  then show ?thesis by (simp add: apart_def)
qed

lemma load_store_apart:
  "apart a n b (length bs) \<Longrightarrow> load_bytes (store_bytes m b bs) a n = load_bytes m a n"
  by (rule nth_equalityI) (auto simp: nth_load_bytes store_bytes_def apart_def)

lemma load_bytes_append:
  "load_bytes m a (j + k) = load_bytes m a j @ load_bytes m (a + of_nat j) k"
proof -
  have "[0..<j + k] = [0..<j] @ map (\<lambda>i. i + j) [0..<k]"
    by (simp add: map_add_upt upt_add_eq_append [symmetric] add.commute)
  then show ?thesis by (simp add: load_bytes_def comp_def algebra_simps)
qed

subsection \<open>Byte order\<close>

text \<open>The \<open>n\<close> low bytes of a number, least significant first, and back.\<close>

fun le_bytes :: "nat \<Rightarrow> 'a::len word \<Rightarrow> u8 list" where
  "le_bytes 0 x = []"
| "le_bytes (Suc n) x = ucast x # le_bytes n (drop_bit 8 x)"

fun le_value :: "u8 list \<Rightarrow> 'a::len word" where
  "le_value [] = 0"
| "le_value (b # bs) = ucast b OR push_bit 8 (le_value bs)"

lemma length_le_bytes [simp]: "length (le_bytes n x) = n"
  by (induction n arbitrary: x) auto

lemma le_value_bytes: "le_value (le_bytes n x) = take_bit (8 * n) (x :: 'a::len word)"
proof (induction n arbitrary: x)
  case (Suc n)
  show ?case
    by (simp only: le_bytes.simps le_value.simps Suc)
      (rule bit_word_eqI, auto simp: bit_simps le_diff_conv2)
qed simp

lemma le_bytes_value: "length bs * 8 \<le> LENGTH('a) \<Longrightarrow> le_bytes (length bs) (le_value bs :: 'a::len word) = bs"
proof (induction bs)
  case (Cons b bs)
  have hi: "\<not> bit (le_value xs :: 'a word) i" if "8 * length xs \<le> i" for xs i
    using that
  proof (induction xs arbitrary: i)
    case (Cons x xs)
    then show ?case using Cons.IH [of "i - 8"] by (auto simp: bit_simps dest: bit_imp_le_length)
  qed simp
  have "ucast (ucast b OR push_bit 8 (le_value bs) :: 'a word) = b"
    using Cons.prems by (intro bit_word_eqI) (auto simp: bit_simps)
  moreover have "drop_bit 8 (ucast b OR push_bit 8 (le_value bs) :: 'a word) = le_value bs"
  proof (rule bit_word_eqI)
    fix n assume n: "n < LENGTH('a)"
    show "bit (drop_bit 8 (ucast b OR push_bit 8 (le_value bs) :: 'a word)) n \<longleftrightarrow> bit (le_value bs :: 'a word) n"
    proof (cases "8 + n < LENGTH('a)")
      case False
      with Cons.prems have "\<not> bit (le_value bs :: 'a word) n" by (intro hi) simp
      with False show ?thesis by (auto simp: bit_simps dest: bit_imp_le_length)
    qed (auto simp: bit_simps dest: bit_imp_le_length)
  qed
  ultimately show ?case using Cons by simp
qed simp

lemma le_value_full: "8 * n = LENGTH('a) \<Longrightarrow> le_value (le_bytes n x) = (x :: 'a::len word)"
  by (simp add: le_value_bytes take_bit_word_eq_self)

subsection \<open>Aligned fields of structures\<close>

text \<open>
  A 32-bit field read and written through a pointer, and addresses that are given as small offsets
  from the base of one structure.
\<close>

definition load32 :: "memory \<Rightarrow> addr \<Rightarrow> u32" where
  "load32 m a = le_value (load_bytes m a 4)"

definition store32 :: "memory \<Rightarrow> addr \<Rightarrow> u32 \<Rightarrow> memory" where
  "store32 m a v = store_bytes m a (le_bytes 4 v)"

lemma load32_store32_same [simp]: "load32 (store32 m a v) a = v"
  using load_store_same [of "le_bytes 4 v" m a]
  by (simp add: load32_def store32_def le_value_full)

lemma load32_store32_apart: "apart a 4 b 4 \<Longrightarrow> load32 (store32 m b v) a = load32 m a"
  by (simp add: load32_def store32_def load_store_apart)

lemma load32_cong: "(\<And>i. i < 4 \<Longrightarrow> m (a + of_nat i) = m' (a + of_nat i)) \<Longrightarrow> load32 m a = load32 m' a"
  unfolding load32_def load_bytes_def by (rule arg_cong [where f = le_value]) (simp add: list_eq_iff_nth_eq)

lemma unat_of_nat_64: "n < 2 ^ 64 \<Longrightarrow> unat (of_nat n :: addr) = n"
  by (rule unat_of_nat_lt) simp

lemma apart_offsets:
  assumes "i + n \<le> j \<or> j + k \<le> i" "i + n < 2 ^ 63" "j + k < 2 ^ 63"
  shows "apart (r + of_nat i) n (r + of_nat j :: addr) k"
  unfolding apart_def
proof (intro allI impI)
  fix t assume t: "t < n"
  have eq: "r + of_nat i + of_nat t - (r + of_nat j) = (of_nat (i + t) - of_nat j :: addr)" by simp
  have u: "unat (of_nat (i + t) :: addr) = i + t" "unat (of_nat j :: addr) = j"
    using assms t by (intro unat_of_nat_64, simp)+
  show "k \<le> unat (r + of_nat i + of_nat t - (r + of_nat j))"
    unfolding eq unat_sub_if' u using assms t by auto
qed

lemma store32_outside:
  "4 \<le> unat (x - a) \<Longrightarrow> store32 m a v x = m x"
  by (simp add: store32_def store_bytes_def)

lemma unat_offset_diff:
  assumes "j \<le> i" "i < 2 ^ 63"
  shows "unat (r + of_nat i - (r + of_nat j) :: addr) = i - j"
proof -
  have "r + of_nat i - (r + of_nat j) = (of_nat (i - j) :: addr)" using assms by (simp add: of_nat_diff)
  moreover have "unat (of_nat (i - j) :: addr) = i - j" using assms by (intro unat_of_nat_64) simp
  ultimately show ?thesis by simp
qed

end
