(* ===== verification/Region.thy ===== *)
theory Region
  imports Memory
begin

text \<open>
  \<^verbatim>\<open>src/commonlib/region.c\<close> and \<^verbatim>\<open>src/commonlib/include/commonlib/region.h\<close>: region devices. A
  \<open>region_device\<close> is its root device with a region of it; the \<^verbatim>\<open>root\<close> pointer that is \<^verbatim>\<open>NULL\<close> in a
  root device is resolved here already, and a root carries the identity of the C object, which is
  what the code compares. The \<^verbatim>\<open>ops\<close> table of a root is its kind: memory mapped (read-only or
  read-write), translated windows, an incoherent pair of devices, or a storage driver outside this
  file. The driver is the argument \<open>drv\<close> of every operation, an absent operation being \<open>None\<close>; the state it works on is part of the world,
  next to the memory. A negative return value is \<open>None\<close>, a count is \<open>Some\<close> of it, and a read returns
  the bytes it put in the buffer.
\<close>

subsection \<open>Regions\<close>

record region =
  reg_offset :: size_t
  reg_size :: size_t

definition mk_region :: "size_t \<Rightarrow> size_t \<Rightarrow> region" where
  "mk_region off sz = \<lparr>reg_offset = off, reg_size = sz\<rparr>"

definition region_last :: "region \<Rightarrow> size_t" where
  "region_last r = reg_offset r + (reg_size r - 1)"

definition region_overlap :: "region \<Rightarrow> region \<Rightarrow> bool" where
  "region_overlap r1 r2 \<longleftrightarrow> reg_offset r2 \<le> region_last r1 \<and> reg_offset r1 \<le> region_last r2"

text \<open>The asserting constructor: \<open>None\<close> when the assertion fails.\<close>

definition region_create :: "size_t \<Rightarrow> size_t \<Rightarrow> region option" where
  "region_create off sz = (if off \<le> off + sz - 1 then Some (mk_region off sz) else None)"

definition region_create_untrusted :: "u64 \<Rightarrow> u64 \<Rightarrow> region option" where
  "region_create_untrusted off sz =
     (if - 1 < off \<or> - 1 < sz \<or> off + sz - 1 < off then None else Some (mk_region off sz))"

definition region_is_subregion :: "region \<Rightarrow> region \<Rightarrow> bool" where
  "region_is_subregion p c =
     (if reg_offset c < reg_offset p then False
      else if region_last p < region_last c then False
      else if region_last c < reg_offset c then False
      else True)"

text \<open>\<open>normalize_and_ok\<close> returns the request in the coordinates of the root, when it is inside.\<close>

definition normalize_and_ok :: "region \<Rightarrow> region \<Rightarrow> region option" where
  "normalize_and_ok outer inner =
     (let req = inner\<lparr>reg_offset := reg_offset inner + reg_offset outer\<rparr>
      in if region_is_subregion outer req then Some req else None)"

subsection \<open>Devices\<close>

datatype region_device = Rdev (rdev_root: root_device) (rdev_region: region)
and root_device = Root (root_id: nat) (root_kind: device_kind)
and device_kind =
    MemDev addr bool
  | XlateDev "xlate_window list" bool
  | IncoherentDev region_device region_device
  | DriverDev nat
and xlate_window = Window (access_dev: region_device) (sub_region: region)

record 'd world =
  wmem :: memory
  wdrv :: 'd

record 'd driver =
  drv_mmap :: "(nat \<Rightarrow> 'd \<Rightarrow> size_t \<Rightarrow> size_t \<Rightarrow> addr option \<times> 'd) option"
  drv_munmap :: "(nat \<Rightarrow> 'd \<Rightarrow> addr \<Rightarrow> bool \<times> 'd) option"
  drv_readat :: "nat \<Rightarrow> 'd \<Rightarrow> size_t \<Rightarrow> size_t \<Rightarrow> u8 list option"
  drv_writeat :: "(nat \<Rightarrow> 'd \<Rightarrow> size_t \<Rightarrow> u8 list \<Rightarrow> size_t option \<times> 'd) option"
  drv_eraseat :: "(nat \<Rightarrow> 'd \<Rightarrow> size_t \<Rightarrow> size_t \<Rightarrow> size_t option \<times> 'd) option"

definition region_device_sz :: "region_device \<Rightarrow> size_t" where
  "region_device_sz rd = reg_size (rdev_region rd)"

definition region_device_offset :: "region_device \<Rightarrow> size_t" where
  "region_device_offset rd = reg_offset (rdev_region rd)"

definition region_device_last :: "region_device \<Rightarrow> size_t" where
  "region_device_last rd = region_last (rdev_region rd)"

definition rdev_relative_offset :: "region_device \<Rightarrow> region_device \<Rightarrow> size_t option" where
  "rdev_relative_offset p c =
     (if root_id (rdev_root p) \<noteq> root_id (rdev_root c) then None
      else if \<not> region_is_subregion (rdev_region p) (rdev_region c) then None
      else Some (region_device_offset c - region_device_offset p))"

definition rdev_chain :: "region_device \<Rightarrow> size_t \<Rightarrow> size_t \<Rightarrow> region_device option" where
  "rdev_chain parent off sz =
     (case normalize_and_ok (rdev_region parent) (mk_region off sz) of
        None \<Rightarrow> None
      | Some req \<Rightarrow> Some (Rdev (rdev_root parent) req))"

definition rdev_chain_full :: "region_device \<Rightarrow> region_device option" where
  "rdev_chain_full parent = rdev_chain parent 0 (region_device_sz parent)"

definition region_device_init :: "nat \<Rightarrow> device_kind \<Rightarrow> size_t \<Rightarrow> size_t \<Rightarrow> region_device" where
  "region_device_init i k off sz = Rdev (Root i k) (mk_region off sz)"

definition mem_region_device_ro_init :: "nat \<Rightarrow> addr \<Rightarrow> size_t \<Rightarrow> region_device" where
  "mem_region_device_ro_init i base sz = region_device_init i (MemDev base False) 0 sz"

definition mem_region_device_rw_init :: "nat \<Rightarrow> addr \<Rightarrow> size_t \<Rightarrow> region_device" where
  "mem_region_device_rw_init i base sz = region_device_init i (MemDev base True) 0 sz"

text \<open>The two static devices that span all of memory have the identities 0 and 1.\<close>

definition mem_rdev :: region_device where
  "mem_rdev = mem_region_device_ro_init 0 0 (NOT 0)"

definition mem_rdev_rw :: region_device where
  "mem_rdev_rw = mem_region_device_rw_init 1 0 (NOT 0)"

definition rdev_chain_mem :: "addr \<Rightarrow> size_t \<Rightarrow> region_device option" where
  "rdev_chain_mem base sz = rdev_chain mem_rdev base sz"

definition rdev_chain_mem_rw :: "addr \<Rightarrow> size_t \<Rightarrow> region_device option" where
  "rdev_chain_mem_rw base sz = rdev_chain mem_rdev_rw base sz"

definition xlate_window_init :: "region_device \<Rightarrow> size_t \<Rightarrow> size_t \<Rightarrow> xlate_window" where
  "xlate_window_init dev off sz = Window dev (mk_region off sz)"

definition xlate_region_device_ro_init :: "nat \<Rightarrow> xlate_window list \<Rightarrow> size_t \<Rightarrow> region_device" where
  "xlate_region_device_ro_init i ws parent_size = region_device_init i (XlateDev ws False) 0 parent_size"

definition xlate_region_device_rw_init :: "nat \<Rightarrow> xlate_window list \<Rightarrow> size_t \<Rightarrow> region_device" where
  "xlate_region_device_rw_init i ws parent_size = region_device_init i (XlateDev ws True) 0 parent_size"

definition incoherent_rdev_init ::
  "nat \<Rightarrow> region \<Rightarrow> region_device \<Rightarrow> region_device \<Rightarrow> region_device option" where
  "incoherent_rdev_init i r rd wr =
     (if reg_size r \<noteq> region_device_sz rd \<or> reg_size r \<noteq> region_device_sz wr then None
      else Some (region_device_init i (IncoherentDev rd wr) 0 (reg_size r)))"

subsection \<open>Access\<close>

text \<open>
  The generic operation of a device and the operation of its root call each other through the
  windows and the incoherent pairs; a window search ends at the first window that holds the request.
\<close>

fun rdev_readat :: "'d driver \<Rightarrow> 'd world \<Rightarrow> region_device \<Rightarrow> size_t \<Rightarrow> size_t \<Rightarrow> u8 list option"
and kind_readat :: "'d driver \<Rightarrow> 'd world \<Rightarrow> device_kind \<Rightarrow> size_t \<Rightarrow> size_t \<Rightarrow> u8 list option"
and xlate_readat :: "'d driver \<Rightarrow> 'd world \<Rightarrow> xlate_window list \<Rightarrow> size_t \<Rightarrow> size_t \<Rightarrow> u8 list option"
where
  "rdev_readat drv w (Rdev (Root i k) reg) off sz =
     (case normalize_and_ok reg (mk_region off sz) of
        None \<Rightarrow> None
      | Some req \<Rightarrow> kind_readat drv w k (reg_offset req) (reg_size req))"
| "kind_readat drv w (MemDev base rw) off sz = Some (load_bytes (wmem w) (base + off) (unat sz))"
| "kind_readat drv w (XlateDev ws rw) off sz = xlate_readat drv w ws off sz"
| "kind_readat drv w (IncoherentDev rd wr) off sz = rdev_readat drv w rd off sz"
| "kind_readat drv w (DriverDev i) off sz = drv_readat drv i (wdrv w) off sz"
| "xlate_readat drv w [] off sz = None"
| "xlate_readat drv w (Window dev sub # ws) off sz =
     (if region_is_subregion sub (mk_region off sz)
      then rdev_readat drv w dev (off - reg_offset sub) sz
      else xlate_readat drv w ws off sz)"

text \<open>A write takes its data as a list; \<^verbatim>\<open>size\<close> is its length.\<close>

fun rdev_writeat ::
  "'d driver \<Rightarrow> 'd world \<Rightarrow> region_device \<Rightarrow> size_t \<Rightarrow> u8 list \<Rightarrow> size_t option \<times> 'd world"
and kind_writeat ::
  "'d driver \<Rightarrow> 'd world \<Rightarrow> device_kind \<Rightarrow> size_t \<Rightarrow> u8 list \<Rightarrow> size_t option \<times> 'd world"
and xlate_writeat ::
  "'d driver \<Rightarrow> 'd world \<Rightarrow> xlate_window list \<Rightarrow> size_t \<Rightarrow> u8 list \<Rightarrow> size_t option \<times> 'd world"
where
  "rdev_writeat drv w (Rdev (Root i k) reg) off bs =
     (case normalize_and_ok reg (mk_region off (of_nat (length bs))) of
        None \<Rightarrow> (None, w)
      | Some req \<Rightarrow> kind_writeat drv w k (reg_offset req) bs)"
| "kind_writeat drv w (MemDev base rw) off bs =
     (if \<not> rw then (None, w)
      else (Some (of_nat (length bs)), w\<lparr>wmem := store_bytes (wmem w) (base + off) bs\<rparr>))"
| "kind_writeat drv w (XlateDev ws rw) off bs =
     (if \<not> rw then (None, w) else xlate_writeat drv w ws off bs)"
| "kind_writeat drv w (IncoherentDev rd wr) off bs = rdev_writeat drv w wr off bs"
| "kind_writeat drv w (DriverDev i) off bs =
     (case drv_writeat drv of
        None \<Rightarrow> (None, w)
      | Some op \<Rightarrow> (case op i (wdrv w) off bs of (n, d) \<Rightarrow> (n, w\<lparr>wdrv := d\<rparr>)))"
| "xlate_writeat drv w [] off bs = (None, w)"
| "xlate_writeat drv w (Window dev sub # ws) off bs =
     (if region_is_subregion sub (mk_region off (of_nat (length bs)))
      then rdev_writeat drv w dev (off - reg_offset sub) bs
      else xlate_writeat drv w ws off bs)"

text \<open>A root without an erase operation reports success.\<close>

fun rdev_eraseat ::
  "'d driver \<Rightarrow> 'd world \<Rightarrow> region_device \<Rightarrow> size_t \<Rightarrow> size_t \<Rightarrow> size_t option \<times> 'd world"
and kind_eraseat ::
  "'d driver \<Rightarrow> 'd world \<Rightarrow> device_kind \<Rightarrow> size_t \<Rightarrow> size_t \<Rightarrow> size_t option \<times> 'd world"
and xlate_eraseat ::
  "'d driver \<Rightarrow> 'd world \<Rightarrow> xlate_window list \<Rightarrow> size_t \<Rightarrow> size_t \<Rightarrow> size_t option \<times> 'd world"
where
  "rdev_eraseat drv w (Rdev (Root i k) reg) off sz =
     (case normalize_and_ok reg (mk_region off sz) of
        None \<Rightarrow> (None, w)
      | Some req \<Rightarrow> kind_eraseat drv w k (reg_offset req) (reg_size req))"
| "kind_eraseat drv w (MemDev base rw) off sz =
     (if \<not> rw then (Some sz, w)
      else (Some sz, w\<lparr>wmem := memset_bytes (wmem w) (base + off) 0 (unat sz)\<rparr>))"
| "kind_eraseat drv w (XlateDev ws rw) off sz =
     (if \<not> rw then (Some sz, w) else xlate_eraseat drv w ws off sz)"
| "kind_eraseat drv w (IncoherentDev rd wr) off sz = rdev_eraseat drv w wr off sz"
| "kind_eraseat drv w (DriverDev i) off sz =
     (case drv_eraseat drv of
        None \<Rightarrow> (Some sz, w)
      | Some op \<Rightarrow> (case op i (wdrv w) off sz of (n, d) \<Rightarrow> (n, w\<lparr>wdrv := d\<rparr>)))"
| "xlate_eraseat drv w [] off sz = (None, w)"
| "xlate_eraseat drv w (Window dev sub # ws) off sz =
     (if region_is_subregion sub (mk_region off sz)
      then rdev_eraseat drv w dev (off - reg_offset sub) sz
      else xlate_eraseat drv w ws off sz)"

text \<open>Mapping returns the address of the data, \<open>None\<close> for \<^verbatim>\<open>NULL\<close>.\<close>

fun rdev_mmap ::
  "'d driver \<Rightarrow> 'd world \<Rightarrow> region_device \<Rightarrow> size_t \<Rightarrow> size_t \<Rightarrow> addr option \<times> 'd world"
and kind_mmap ::
  "'d driver \<Rightarrow> 'd world \<Rightarrow> device_kind \<Rightarrow> size_t \<Rightarrow> size_t \<Rightarrow> addr option \<times> 'd world"
and xlate_mmap ::
  "'d driver \<Rightarrow> 'd world \<Rightarrow> xlate_window list \<Rightarrow> size_t \<Rightarrow> size_t \<Rightarrow> addr option \<times> 'd world"
where
  "rdev_mmap drv w (Rdev (Root i k) reg) off sz =
     (case normalize_and_ok reg (mk_region off sz) of
        None \<Rightarrow> (None, w)
      | Some req \<Rightarrow> kind_mmap drv w k (reg_offset req) (reg_size req))"
| "kind_mmap drv w (MemDev base rw) off sz = (Some (base + off), w)"
| "kind_mmap drv w (XlateDev ws rw) off sz = xlate_mmap drv w ws off sz"
| "kind_mmap drv w (IncoherentDev rd wr) off sz = rdev_mmap drv w rd off sz"
| "kind_mmap drv w (DriverDev i) off sz =
     (case drv_mmap drv of
        None \<Rightarrow> (None, w)
      | Some op \<Rightarrow> (case op i (wdrv w) off sz of (p, d) \<Rightarrow> (p, w\<lparr>wdrv := d\<rparr>)))"
| "xlate_mmap drv w [] off sz = (None, w)"
| "xlate_mmap drv w (Window dev sub # ws) off sz =
     (if region_is_subregion sub (mk_region off sz)
      then rdev_mmap drv w dev (off - reg_offset sub) sz
      else xlate_mmap drv w ws off sz)"

text \<open>Unmapping: true for the return value 0. Translated windows do not track their mappings.\<close>

fun rdev_munmap :: "'d driver \<Rightarrow> 'd world \<Rightarrow> region_device \<Rightarrow> addr \<Rightarrow> bool \<times> 'd world"
and kind_munmap :: "'d driver \<Rightarrow> 'd world \<Rightarrow> device_kind \<Rightarrow> addr \<Rightarrow> bool \<times> 'd world" where
  "rdev_munmap drv w (Rdev (Root i k) reg) p = kind_munmap drv w k p"
| "kind_munmap drv w (MemDev base rw) p = (True, w)"
| "kind_munmap drv w (XlateDev ws rw) p = (True, w)"
| "kind_munmap drv w (IncoherentDev rd wr) p = rdev_munmap drv w rd p"
| "kind_munmap drv w (DriverDev i) p =
     (case drv_munmap drv of
        None \<Rightarrow> (False, w)
      | Some op \<Rightarrow> (case op i (wdrv w) p of (ok, d) \<Rightarrow> (ok, w\<lparr>wdrv := d\<rparr>)))"

definition rdev_read_full :: "'d driver \<Rightarrow> 'd world \<Rightarrow> region_device \<Rightarrow> u8 list option" where
  "rdev_read_full drv w rd = rdev_readat drv w rd 0 (region_device_sz rd)"

definition rdev_mmap_full ::
  "'d driver \<Rightarrow> 'd world \<Rightarrow> region_device \<Rightarrow> addr option \<times> 'd world" where
  "rdev_mmap_full drv w rd = rdev_mmap drv w rd 0 (region_device_sz rd)"

subsection \<open>Containment\<close>

definition region_valid :: "region \<Rightarrow> bool" where
  "region_valid r \<longleftrightarrow> reg_size r \<noteq> 0 \<and> unat (reg_offset r) + unat (reg_size r) \<le> 2 ^ 64"

lemma mk_region_simps [simp]:
  "reg_offset (mk_region off sz) = off" "reg_size (mk_region off sz) = sz"
  by (simp_all add: mk_region_def)

lemma unat_region_last:
  assumes "region_valid r"
  shows "unat (region_last r) = unat (reg_offset r) + unat (reg_size r) - 1"
proof -
  have s: "0 < unat (reg_size r)" using assms by (simp add: region_valid_def unat_gt_0)
  then have d: "unat (reg_size r - 1) = unat (reg_size r) - 1" by (rule unat_pred)
  have "unat (reg_offset r) + (unat (reg_size r) - 1) < 2 ^ 64"
    using assms s unfolding region_valid_def by linarith
  then show ?thesis using s unfolding region_last_def by (subst unat_add_no_wrap) (simp_all add: d)
qed

lemma subregion_alt:
  "region_is_subregion p c \<longleftrightarrow>
   reg_offset p \<le> reg_offset c \<and> region_last c \<le> region_last p \<and> reg_offset c \<le> region_last c"
  by (auto simp: region_is_subregion_def)

lemma subregion_trans:
  "region_is_subregion p c \<Longrightarrow> region_is_subregion c d \<Longrightarrow> region_is_subregion p d"
  unfolding subregion_alt by (meson order_trans)

lemma subregion_iff:
  assumes "region_valid p"
  shows "region_is_subregion p c \<longleftrightarrow> reg_size c \<noteq> 0 \<and> reg_offset p \<le> reg_offset c \<and>
    unat (reg_offset c) + unat (reg_size c) \<le> unat (reg_offset p) + unat (reg_size p)"
proof (cases "reg_size c = 0")
  case True
  have "\<not> region_is_subregion p c"
  proof
    assume s: "region_is_subregion p c"
    have l: "region_last c = reg_offset c - 1" by (simp add: region_last_def True)
    show False
    proof (cases "reg_offset c = 0")
      case True
      with s l have "unat (reg_offset p) = 0" "unat (region_last p) = 18446744073709551615"
        using unat_le_64 [of "region_last p"] by (auto simp: subregion_alt word_le_nat_alt)
      with unat_region_last [OF assms] show False using unat_le_64 [of "reg_size p"] by simp
    next
      case False
      then have "0 < unat (reg_offset c)" by (simp add: unat_gt_0)
      then have "unat (reg_offset c - 1) < unat (reg_offset c)" by (simp add: unat_pred)
      with s l show False by (simp add: subregion_alt word_le_nat_alt)
    qed
  qed
  with True show ?thesis by simp
next
  case False
  then have pos: "0 < unat (reg_size c)" by (simp add: unat_gt_0)
  have pv: "unat (reg_offset p) + unat (reg_size p) \<le> 2 ^ 64" using assms by (simp add: region_valid_def)
  have pp: "0 < unat (reg_size p)" using assms by (simp add: region_valid_def unat_gt_0)
  show ?thesis
  proof (cases "unat (reg_offset c) + unat (reg_size c) \<le> 2 ^ 64")
    case True
    then have "region_valid c" using False by (simp add: region_valid_def)
    note l = unat_region_last [OF assms] unat_region_last [OF this]
    show ?thesis using False pos pp unfolding subregion_alt word_le_nat_alt l by linarith
  next
    case wrap: False
    have "unat (region_last c) < unat (reg_offset c)"
    proof -
      have "unat (region_last c) = (unat (reg_offset c) + (unat (reg_size c) - 1)) mod 2 ^ 64"
        using unat_pred [OF pos] by (simp add: region_last_def unat_word_ariths)
      also have "\<dots> = unat (reg_offset c) + (unat (reg_size c) - 1) - 2 ^ 64"
        using wrap pos unat_lt_64 [of "reg_offset c"] unat_lt_64 [of "reg_size c"]
        by (intro mod_once) simp_all
      finally show ?thesis using wrap unat_lt_64 [of "reg_size c"] by simp
    qed
    then have "\<not> region_is_subregion p c" by (simp add: subregion_alt word_le_nat_alt)
    with wrap pv show ?thesis by simp
  qed
qed

lemma region_valid_subregion:
  "region_valid p \<Longrightarrow> region_is_subregion p c \<Longrightarrow> region_valid c"
  using subregion_iff [of p c] by (auto simp: region_valid_def)

lemma normalize_SomeD:
  "normalize_and_ok outer inner = Some req \<Longrightarrow>
   req = inner\<lparr>reg_offset := reg_offset inner + reg_offset outer\<rparr> \<and> region_is_subregion outer req"
  by (auto simp: normalize_and_ok_def Let_def split: if_splits)

text \<open>A request in the coordinates of a device, as a statement on naturals.\<close>

definition in_region :: "region \<Rightarrow> size_t \<Rightarrow> size_t \<Rightarrow> bool" where
  "in_region r off sz \<longleftrightarrow> sz \<noteq> 0 \<and> unat off + unat sz \<le> unat (reg_size r)"

lemma normalize_in_region:
  assumes "region_valid r"
  shows "in_region r off sz \<Longrightarrow>
      normalize_and_ok r (mk_region off sz) = Some (mk_region (off + reg_offset r) sz)"
    and "unat off + unat (reg_offset r) < 2 ^ 64 \<Longrightarrow> \<not> in_region r off sz \<Longrightarrow>
      normalize_and_ok r (mk_region off sz) = None"
proof -
  have v: "unat (reg_offset r) + unat (reg_size r) \<le> 2 ^ 64" using assms by (simp add: region_valid_def)
  have m: "(mk_region off sz)\<lparr>reg_offset := off + reg_offset r\<rparr> = mk_region (off + reg_offset r) sz"
    by (simp add: mk_region_def)
  have iff: "region_is_subregion r (mk_region (off + reg_offset r) sz) \<longleftrightarrow> in_region r off sz"
    if "unat off + unat (reg_offset r) < 2 ^ 64"
  proof -
    have "unat (off + reg_offset r) = unat off + unat (reg_offset r)"
      using that by (simp add: unat_add_no_wrap)
    then show ?thesis
      unfolding subregion_iff [OF assms] in_region_def word_le_nat_alt by simp
  qed
  show "normalize_and_ok r (mk_region off sz) = Some (mk_region (off + reg_offset r) sz)"
    if i: "in_region r off sz"
  proof -
    have "0 < unat sz" using i by (simp add: in_region_def unat_gt_0)
    then have "unat off + unat (reg_offset r) < 2 ^ 64" using i v by (simp add: in_region_def)
    with iff i show ?thesis by (simp add: normalize_and_ok_def Let_def m)
  qed
  show "normalize_and_ok r (mk_region off sz) = None"
    if "unat off + unat (reg_offset r) < 2 ^ 64" "\<not> in_region r off sz"
    using iff that by (simp add: normalize_and_ok_def Let_def m)
qed

subsection \<open>Chained devices\<close>

lemma chain_facts:
  assumes "rdev_chain p off sz = Some c"
  shows "rdev_root c = rdev_root p" "rdev_region c = mk_region (off + reg_offset (rdev_region p)) sz"
    and "region_is_subregion (rdev_region p) (rdev_region c)"
  using assms
  by (auto simp: rdev_chain_def mk_region_def split: option.splits dest: normalize_SomeD)

lemma chain_normalize:
  assumes "rdev_chain p off sz = Some c"
    and "normalize_and_ok (rdev_region c) (mk_region o1 n) = Some req"
  shows "normalize_and_ok (rdev_region p) (mk_region (o1 + off) n) = Some req"
proof -
  have r: "req = mk_region (o1 + (off + reg_offset (rdev_region p))) n"
    "region_is_subregion (rdev_region c) req"
    using normalize_SomeD [OF assms(2)] chain_facts(2) [OF assms(1)] by (auto simp: mk_region_def)
  from subregion_trans [OF chain_facts(3) [OF assms(1)] r(2)] r(1) show ?thesis
    by (simp add: normalize_and_ok_def Let_def mk_region_def add.assoc)
qed

lemma readat_via_root:
  "rdev_readat drv w rd off sz =
   (case normalize_and_ok (rdev_region rd) (mk_region off sz) of None \<Rightarrow> None
    | Some req \<Rightarrow> kind_readat drv w (root_kind (rdev_root rd)) (reg_offset req) (reg_size req))"
  by (cases rd; cases "rdev_root rd") (auto split: option.splits)

lemma writeat_via_root:
  "rdev_writeat drv w rd off bs =
   (case normalize_and_ok (rdev_region rd) (mk_region off (of_nat (length bs))) of None \<Rightarrow> (None, w)
    | Some req \<Rightarrow> kind_writeat drv w (root_kind (rdev_root rd)) (reg_offset req) bs)"
  by (cases rd; cases "rdev_root rd") (auto split: option.splits)

lemma eraseat_via_root:
  "rdev_eraseat drv w rd off sz =
   (case normalize_and_ok (rdev_region rd) (mk_region off sz) of None \<Rightarrow> (None, w)
    | Some req \<Rightarrow> kind_eraseat drv w (root_kind (rdev_root rd)) (reg_offset req) (reg_size req))"
  by (cases rd; cases "rdev_root rd") (auto split: option.splits)

lemma mmap_via_root:
  "rdev_mmap drv w rd off sz =
   (case normalize_and_ok (rdev_region rd) (mk_region off sz) of None \<Rightarrow> (None, w)
    | Some req \<Rightarrow> kind_mmap drv w (root_kind (rdev_root rd)) (reg_offset req) (reg_size req))"
  by (cases rd; cases "rdev_root rd") (auto split: option.splits)

text \<open>
  What a child device does, its parent does at the shifted offset; requests outside the child fail
  without touching the world.
\<close>

lemma chain_access:
  assumes "rdev_chain p off sz = Some c"
  shows "rdev_readat drv w c o1 n = None \<or>
      rdev_readat drv w c o1 n = rdev_readat drv w p (o1 + off) n"
    and "rdev_writeat drv w c o1 bs = (None, w) \<or>
      rdev_writeat drv w c o1 bs = rdev_writeat drv w p (o1 + off) bs"
    and "rdev_eraseat drv w c o1 n = (None, w) \<or>
      rdev_eraseat drv w c o1 n = rdev_eraseat drv w p (o1 + off) n"
    and "rdev_mmap drv w c o1 n = (None, w) \<or>
      rdev_mmap drv w c o1 n = rdev_mmap drv w p (o1 + off) n"
  using chain_normalize [OF assms] chain_facts(1) [OF assms]
  by (auto simp: readat_via_root writeat_via_root eraseat_via_root mmap_via_root split: option.splits)

lemma chain_chain:
  assumes "rdev_chain p o1 n1 = Some c" "rdev_chain c o2 n2 = Some d"
  shows "rdev_chain p (o2 + o1) n2 = Some d"
proof -
  from assms(2) obtain req where r: "normalize_and_ok (rdev_region c) (mk_region o2 n2) = Some req"
    "d = Rdev (rdev_root c) req" by (auto simp: rdev_chain_def split: option.splits)
  from chain_normalize [OF assms(1) r(1)] r(2) chain_facts(1) [OF assms(1)] show ?thesis
    by (simp add: rdev_chain_def)
qed

lemma relative_offset_chain:
  assumes "rdev_chain p off sz = Some c"
  shows "rdev_relative_offset p c = Some off"
  using chain_facts [OF assms]
  by (simp add: rdev_relative_offset_def region_device_offset_def)

subsection \<open>Resolution\<close>

text \<open>
  Where an access ends up, as a function of the device alone: a memory address, or an offset of a
  driver. Reads follow the \<open>read\<close> half of an incoherent pair, writes the \<open>write\<close> half; a write does
  not pass through a read-only root.
\<close>

datatype target = MemAt addr | DriverAt nat size_t

fun resolve :: "bool \<Rightarrow> region_device \<Rightarrow> size_t \<Rightarrow> size_t \<Rightarrow> target option"
and resolve_kind :: "bool \<Rightarrow> device_kind \<Rightarrow> size_t \<Rightarrow> size_t \<Rightarrow> target option"
and resolve_windows :: "bool \<Rightarrow> xlate_window list \<Rightarrow> size_t \<Rightarrow> size_t \<Rightarrow> target option"
where
  "resolve wr (Rdev (Root i k) reg) off sz =
     (case normalize_and_ok reg (mk_region off sz) of
        None \<Rightarrow> None
      | Some req \<Rightarrow> resolve_kind wr k (reg_offset req) (reg_size req))"
| "resolve_kind wr (MemDev base rw) off sz = (if wr \<and> \<not> rw then None else Some (MemAt (base + off)))"
| "resolve_kind wr (XlateDev ws rw) off sz =
     (if wr \<and> \<not> rw then None else resolve_windows wr ws off sz)"
| "resolve_kind wr (IncoherentDev rdev wrdev) off sz = resolve wr (if wr then wrdev else rdev) off sz"
| "resolve_kind wr (DriverDev i) off sz = Some (DriverAt i off)"
| "resolve_windows wr [] off sz = None"
| "resolve_windows wr (Window dev sub # ws) off sz =
     (if region_is_subregion sub (mk_region off sz)
      then resolve wr dev (off - reg_offset sub) sz
      else resolve_windows wr ws off sz)"

definition read_target :: "'d driver \<Rightarrow> 'd world \<Rightarrow> target option \<Rightarrow> size_t \<Rightarrow> u8 list option" where
  "read_target drv w t sz =
     (case t of None \<Rightarrow> None
      | Some (MemAt a) \<Rightarrow> Some (load_bytes (wmem w) a (unat sz))
      | Some (DriverAt i off) \<Rightarrow> drv_readat drv i (wdrv w) off sz)"

definition write_target ::
  "'d driver \<Rightarrow> 'd world \<Rightarrow> target option \<Rightarrow> u8 list \<Rightarrow> size_t option \<times> 'd world" where
  "write_target drv w t bs =
     (case t of None \<Rightarrow> (None, w)
      | Some (MemAt a) \<Rightarrow> (Some (of_nat (length bs)), w\<lparr>wmem := store_bytes (wmem w) a bs\<rparr>)
      | Some (DriverAt i off) \<Rightarrow>
          (case drv_writeat drv of None \<Rightarrow> (None, w)
           | Some op \<Rightarrow> (case op i (wdrv w) off bs of (n, d) \<Rightarrow> (n, w\<lparr>wdrv := d\<rparr>))))"

lemma normalize_size: "normalize_and_ok r i = Some req \<Longrightarrow> reg_size req = reg_size i"
  by (drule normalize_SomeD) simp

lemma read_resolve:
  "rdev_readat drv w rd off sz = read_target drv w (resolve False rd off sz) sz"
  "kind_readat drv w k off sz = read_target drv w (resolve_kind False k off sz) sz"
  "xlate_readat drv w ws off sz = read_target drv w (resolve_windows False ws off sz) sz"
  by (induction drv w rd off sz and drv w k off sz and drv w ws off sz
      rule: rdev_readat_kind_readat_xlate_readat.induct)
    (auto simp: read_target_def split: option.splits dest: normalize_size)

lemma write_resolve:
  "rdev_writeat drv w rd off bs = write_target drv w (resolve True rd off (of_nat (length bs))) bs"
  "kind_writeat drv w k off bs = write_target drv w (resolve_kind True k off (of_nat (length bs))) bs"
  "xlate_writeat drv w ws off bs = write_target drv w (resolve_windows True ws off (of_nat (length bs))) bs"
  by (induction drv w rd off bs and drv w k off bs and drv w ws off bs
      rule: rdev_writeat_kind_writeat_xlate_writeat.induct)
    (auto simp: write_target_def split: option.splits dest: normalize_size)

lemma mmap_resolve:
  "resolve False rd off sz = Some (MemAt a) \<Longrightarrow> rdev_mmap drv w rd off sz = (Some a, w)"
  "resolve_kind False k off sz = Some (MemAt a) \<Longrightarrow> kind_mmap drv w k off sz = (Some a, w)"
  "resolve_windows False ws off sz = Some (MemAt a) \<Longrightarrow> xlate_mmap drv w ws off sz = (Some a, w)"
  by (induction drv w rd off sz and drv w k off sz and drv w ws off sz
      rule: rdev_mmap_kind_mmap_xlate_mmap.induct)
    (auto split: option.splits if_splits dest: normalize_size)

text \<open>A memory-mapped request inside a device stays at the same distance from the device's start.\<close>

lemma read_after_write:
  assumes "resolve True rd off (of_nat (length bs)) = Some (MemAt a)"
    and "resolve False rd off (of_nat (length bs)) = Some (MemAt a)"
    and "length bs < 2 ^ 64" "rdev_writeat drv w rd off bs = (r, w')"
  shows "r = Some (of_nat (length bs))" "wdrv w' = wdrv w"
    and "rdev_readat drv w' rd off (of_nat (length bs)) = Some bs"
    and "resolve False rd' o' n' = Some (MemAt b) \<Longrightarrow> apart b (unat n') a (length bs) \<Longrightarrow>
      rdev_readat drv w' rd' o' n' = rdev_readat drv w rd' o' n'"
proof -
  have u: "unat (of_nat (length bs) :: size_t) = length bs" using assms(3) by (simp add: unat_of_nat_lt)
  have w: "r = Some (of_nat (length bs))" "w' = w\<lparr>wmem := store_bytes (wmem w) a bs\<rparr>"
    using assms(1,4) by (simp_all add: write_resolve(1) write_target_def)
  then show "r = Some (of_nat (length bs))" "wdrv w' = wdrv w" by simp_all
  show "rdev_readat drv w' rd off (of_nat (length bs)) = Some bs"
    using assms(2,3) w u by (simp add: read_resolve(1) read_target_def load_store_same)
  show "rdev_readat drv w' rd' o' n' = rdev_readat drv w rd' o' n'"
    if "resolve False rd' o' n' = Some (MemAt b)" "apart b (unat n') a (length bs)"
    using that w by (simp add: read_resolve(1) read_target_def load_store_apart)
qed

lemma resolve_via_root:
  "resolve wr rd off sz =
   (case normalize_and_ok (rdev_region rd) (mk_region off sz) of None \<Rightarrow> None
    | Some req \<Rightarrow> resolve_kind wr (root_kind (rdev_root rd)) (reg_offset req) (reg_size req))"
  by (cases rd; cases "rdev_root rd") (auto split: option.splits)

subsection \<open>Storage\<close>

text \<open>
  What a client relies on when it keeps data on a device: the root behaves as an array of bytes that
  can be read, overwritten and erased to a fill value, up to a capacity. Memory provides it with the
  fill value 0; a flash driver provides it with \<open>0xff\<close>.
\<close>

locale storage =
  fixes drv :: "'d driver"
    and kind :: device_kind
    and cell :: "'d world \<Rightarrow> nat \<Rightarrow> u8"
    and cap :: nat
    and fill :: u8
    and ok :: "'d world \<Rightarrow> bool"
  assumes cap_le: "cap \<le> 2 ^ 64"
    and store_read: "ok w \<Longrightarrow> unat off + unat n \<le> cap \<Longrightarrow>
      kind_readat drv w kind off n = Some (map (\<lambda>i. cell w (unat off + i)) [0..<unat n])"
    and store_write: "ok w \<Longrightarrow> unat off + length bs \<le> cap \<Longrightarrow> length bs < 2 ^ 64 \<Longrightarrow>
      \<exists>w'. kind_writeat drv w kind off bs = (Some (of_nat (length bs)), w') \<and> ok w' \<and>
        (\<forall>i<cap. cell w' i =
          (if unat off \<le> i \<and> i < unat off + length bs then bs ! (i - unat off) else cell w i))"
    and store_erase: "ok w \<Longrightarrow> unat off + unat n \<le> cap \<Longrightarrow>
      \<exists>w'. kind_eraseat drv w kind off n = (Some n, w') \<and> ok w' \<and>
        (\<forall>i<cap. cell w' i =
          (if unat off \<le> i \<and> i < unat off + unat n then fill else cell w i))"
begin

text \<open>A device on this root, inside its capacity, and the byte at an offset of it.\<close>

definition on_store :: "region_device \<Rightarrow> bool" where
  "on_store rd \<longleftrightarrow> root_kind (rdev_root rd) = kind \<and> region_valid (rdev_region rd) \<and>
     unat (reg_offset (rdev_region rd)) + unat (reg_size (rdev_region rd)) \<le> cap"

definition dev_byte :: "'d world \<Rightarrow> region_device \<Rightarrow> nat \<Rightarrow> u8" where
  "dev_byte w rd i = cell w (unat (reg_offset (rdev_region rd)) + i)"

definition dev_bytes :: "'d world \<Rightarrow> region_device \<Rightarrow> nat \<Rightarrow> nat \<Rightarrow> u8 list" where
  "dev_bytes w rd off n = map (\<lambda>i. dev_byte w rd (off + i)) [0..<n]"

lemma length_dev_bytes [simp]: "length (dev_bytes w rd off n) = n"
  by (simp add: dev_bytes_def)

lemma request:
  assumes "on_store rd" "in_region (rdev_region rd) off n"
  shows "normalize_and_ok (rdev_region rd) (mk_region off n) =
      Some (mk_region (off + reg_offset (rdev_region rd)) n)"
    and "unat (off + reg_offset (rdev_region rd)) = unat (reg_offset (rdev_region rd)) + unat off"
    and "unat (off + reg_offset (rdev_region rd)) + unat n \<le> cap"
proof -
  have v: "region_valid (rdev_region rd)" using assms(1) by (simp add: on_store_def)
  show "normalize_and_ok (rdev_region rd) (mk_region off n) =
      Some (mk_region (off + reg_offset (rdev_region rd)) n)"
    by (rule normalize_in_region(1) [OF v assms(2)])
  have "0 < unat n" using assms(2) by (simp add: in_region_def unat_gt_0)
  then have "unat off + unat (reg_offset (rdev_region rd)) < 2 ^ 64"
    using v assms(2) unfolding region_valid_def in_region_def by linarith
  then show u: "unat (off + reg_offset (rdev_region rd)) = unat (reg_offset (rdev_region rd)) + unat off"
    by (simp add: unat_add_no_wrap)
  show "unat (off + reg_offset (rdev_region rd)) + unat n \<le> cap"
    unfolding u using assms unfolding on_store_def in_region_def by linarith
qed

lemma read_bytes:
  assumes "ok w" "on_store rd" "in_region (rdev_region rd) off n"
  shows "rdev_readat drv w rd off n = Some (dev_bytes w rd (unat off) (unat n))"
proof -
  note r = request [OF assms(2,3)]
  have k: "root_kind (rdev_root rd) = kind" using assms(2) by (simp add: on_store_def)
  show ?thesis
    by (simp add: readat_via_root r(1) k store_read [OF assms(1) r(3)])
      (simp add: r(2) dev_bytes_def dev_byte_def add.assoc)
qed

lemma write_bytes:
  assumes "ok w" "on_store rd" "in_region (rdev_region rd) off (of_nat (length bs))" "length bs < 2 ^ 64"
  obtains w' where "rdev_writeat drv w rd off bs = (Some (of_nat (length bs)), w')" "ok w'"
    "\<And>i. i < unat (reg_size (rdev_region rd)) \<Longrightarrow> dev_byte w' rd i =
      (if unat off \<le> i \<and> i < unat off + length bs then bs ! (i - unat off) else dev_byte w rd i)"
proof -
  note r = request [OF assms(2,3)]
  have u: "unat (of_nat (length bs) :: size_t) = length bs" using assms(4) by (simp add: unat_of_nat_lt)
  have k: "root_kind (rdev_root rd) = kind"
    "unat (reg_offset (rdev_region rd)) + unat (reg_size (rdev_region rd)) \<le> cap"
    using assms(2) by (simp_all add: on_store_def)
  have "unat (off + reg_offset (rdev_region rd)) + length bs \<le> cap" using r(3) unfolding u .
  from store_write [OF assms(1) this assms(4)] obtain w' where w:
    "kind_writeat drv w kind (off + reg_offset (rdev_region rd)) bs = (Some (of_nat (length bs)), w')" "ok w'"
    "\<forall>i<cap. cell w' i = (if unat (off + reg_offset (rdev_region rd)) \<le> i \<and>
        i < unat (off + reg_offset (rdev_region rd)) + length bs
      then bs ! (i - unat (off + reg_offset (rdev_region rd))) else cell w i)" by blast
  show thesis
  proof (rule that [of w'])
    show "rdev_writeat drv w rd off bs = (Some (of_nat (length bs)), w')"
      by (simp add: writeat_via_root r(1) k w(1))
    show "dev_byte w' rd i =
      (if unat off \<le> i \<and> i < unat off + length bs then bs ! (i - unat off) else dev_byte w rd i)"
      if "i < unat (reg_size (rdev_region rd))" for i
      using w(3) [rule_format, of "unat (reg_offset (rdev_region rd)) + i"] that k(2)
      by (simp add: dev_byte_def r(2))
  qed (rule w(2))
qed

lemma erase_bytes:
  assumes "ok w" "on_store rd" "in_region (rdev_region rd) off n"
  obtains w' where "rdev_eraseat drv w rd off n = (Some n, w')" "ok w'"
    "\<And>i. i < unat (reg_size (rdev_region rd)) \<Longrightarrow> dev_byte w' rd i =
      (if unat off \<le> i \<and> i < unat off + unat n then fill else dev_byte w rd i)"
proof -
  note r = request [OF assms(2,3)]
  have k: "root_kind (rdev_root rd) = kind"
    "unat (reg_offset (rdev_region rd)) + unat (reg_size (rdev_region rd)) \<le> cap"
    using assms(2) by (simp_all add: on_store_def)
  from store_erase [OF assms(1) r(3)] obtain w' where w:
    "kind_eraseat drv w kind (off + reg_offset (rdev_region rd)) n = (Some n, w')" "ok w'"
    "\<forall>i<cap. cell w' i = (if unat (off + reg_offset (rdev_region rd)) \<le> i \<and>
        i < unat (off + reg_offset (rdev_region rd)) + unat n then fill else cell w i)" by blast
  show thesis
  proof (rule that [of w'])
    show "rdev_eraseat drv w rd off n = (Some n, w')"
      by (simp add: eraseat_via_root r(1) k w(1))
    show "dev_byte w' rd i =
      (if unat off \<le> i \<and> i < unat off + unat n then fill else dev_byte w rd i)"
      if "i < unat (reg_size (rdev_region rd))" for i
      using w(3) [rule_format, of "unat (reg_offset (rdev_region rd)) + i"] that k(2)
      by (simp add: dev_byte_def r(2))
  qed (rule w(2))
qed

text \<open>A child of such a device is one too, and its bytes are the parent's, shifted.\<close>

lemma chain_on_store:
  assumes "on_store p" "in_region (rdev_region p) off n"
  shows "\<exists>c. rdev_chain p off n = Some c \<and> on_store c \<and>
    rdev_region c = mk_region (off + reg_offset (rdev_region p)) n \<and>
    (\<forall>w i. dev_byte w c i = dev_byte w p (unat off + i))"
proof -
  note r = request [OF assms]
  let ?c = "Rdev (rdev_root p) (mk_region (off + reg_offset (rdev_region p)) n)"
  have "rdev_chain p off n = Some ?c" by (simp add: rdev_chain_def r(1))
  moreover have "on_store ?c"
    using assms r(2,3) cap_le by (auto simp: on_store_def in_region_def region_valid_def)
  moreover have "dev_byte w ?c i = dev_byte w p (unat off + i)" for w i
    by (simp add: dev_byte_def r(2) add.assoc)
  ultimately show ?thesis by auto
qed

end

text \<open>Memory-mapped devices, whatever the driver and the base address.\<close>

interpretation mem_store: storage drv "MemDev base True" "\<lambda>w i. wmem w (base + of_nat i)" "2 ^ 64" 0 "\<lambda>_. True"
  for drv :: "'d driver" and base
proof
  fix w :: "'d world" and off n :: size_t and bs :: "u8 list"
  show "kind_readat drv w (MemDev base True) off n =
      Some (map (\<lambda>i. wmem w (base + of_nat (unat off + i))) [0..<unat n])"
    by (simp add: load_bytes_def add.assoc)
  have at: "unat (of_nat i - off) = (if unat off \<le> i then i - unat off
      else i + 2 ^ 64 - unat off)" if "i < 2 ^ 64" for i
    using that unat_sub_if' [of "of_nat i" off] by (simp add: unat_of_nat_lt)
  show "\<exists>w'. kind_writeat drv w (MemDev base True) off bs = (Some (of_nat (length bs)), w') \<and> True \<and>
        (\<forall>i<2 ^ 64. wmem w' (base + of_nat i) =
          (if unat off \<le> i \<and> i < unat off + length bs then bs ! (i - unat off) else wmem w (base + of_nat i)))"
    if "unat off + length bs \<le> 2 ^ 64"
    using that by (auto simp: store_bytes_def at unat_of_nat_lt)
  show "\<exists>w'. kind_eraseat drv w (MemDev base True) off n = (Some n, w') \<and> True \<and>
        (\<forall>i<2 ^ 64. wmem w' (base + of_nat i) =
          (if unat off \<le> i \<and> i < unat off + unat n then 0 else wmem w (base + of_nat i)))"
    if "unat off + unat n \<le> 2 ^ 64"
    using that by (auto simp: memset_bytes_def store_bytes_def at unat_of_nat_lt)
qed simp_all

subsection \<open>Properties\<close>

text \<open>For a region that is neither empty nor wraps around, the subregion test accepts exactly the
  non-empty regions inside it; offsets and sizes whose sum overflows are rejected.\<close>

theorem region_is_subregion_spec:
  assumes "region_valid p"
  shows "region_is_subregion p c \<longleftrightarrow> reg_size c \<noteq> 0 \<and> reg_offset p \<le> reg_offset c \<and>
    unat (reg_offset c) + unat (reg_size c) \<le> unat (reg_offset p) + unat (reg_size p)"
  by (rule subregion_iff [OF assms])



text \<open>C14: through any nesting of chained, translated and paired devices, data written to a request
  that resolves to memory for both directions is read back unchanged by the same request, and no
  request that resolves to other addresses sees a difference.\<close>

theorem rdev_read_after_write:
  assumes "resolve True rd off (of_nat (length bs)) = Some (MemAt a)"
    and "resolve False rd off (of_nat (length bs)) = Some (MemAt a)"
    and "length bs < 2 ^ 64" "rdev_writeat drv w rd off bs = (r, w')"
  shows "r = Some (of_nat (length bs)) \<and> wdrv w' = wdrv w \<and>
    rdev_readat drv w' rd off (of_nat (length bs)) = Some bs \<and>
    (resolve False rd' o' n' = Some (MemAt b) \<and> apart b (unat n') a (length bs) \<longrightarrow>
      rdev_readat drv w' rd' o' n' = rdev_readat drv w rd' o' n')"
  using read_after_write [OF assms] by blast

definition sample_xlate :: region_device where
  "sample_xlate = xlate_region_device_rw_init 9
     [xlate_window_init (mem_region_device_rw_init 7 0x8000 0x1000) 0 0x1000,
      xlate_window_init (mem_region_device_rw_init 8 0xF000 0x1000) 0x4000 0x1000] 0x10000"

theorem rdev_read_after_write_witness:
  "\<forall>(drv :: unit driver) w. rdev_readat drv
    (snd (rdev_writeat drv w sample_xlate 0x4010 [1, 2, 3])) sample_xlate 0x4010 3 = Some [1, 2, 3]"
proof (intro allI)
  fix drv :: "unit driver" and w
  have r: "resolve wr sample_xlate 0x4010 (of_nat (length [1 :: u8, 2, 3])) = Some (MemAt 0xF010)" for wr
    by (simp add: sample_xlate_def xlate_region_device_rw_init_def mem_region_device_rw_init_def
        region_device_init_def xlate_window_init_def normalize_and_ok_def mk_region_def
        region_is_subregion_def region_last_def)
  from rdev_read_after_write [OF r r, of drv w "fst (rdev_writeat drv w sample_xlate 0x4010 [1, 2, 3])"
      "snd (rdev_writeat drv w sample_xlate 0x4010 [1, 2, 3])"]
  show "rdev_readat drv
    (snd (rdev_writeat drv w sample_xlate 0x4010 [1, 2, 3])) sample_xlate 0x4010 3 = Some [1, 2, 3]"
    by simp
qed

end
