(* ===== verification/RegionFile.thy ===== *)
theory RegionFile
  imports Region
begin

text \<open>
  \<^verbatim>\<open>src/lib/region_file.c\<close>: a log of data updates on a region device, with 16-bit block offsets as
  its metadata. The \<^verbatim>\<open>struct region_file\<close> is a record; its \<^verbatim>\<open>int slot\<close> is an integer whose negative
  values are the states empty, need-to-empty and fatal. A function returning \<open>int\<close> returns true for
  0 and false for a negative value. Multi-byte fields are little endian, as on the modelled targets.
  The update loop of the code has no bound, so it is a partial function.
\<close>

subsection \<open>Data\<close>

definition REGF_BLOCK_SHIFT :: nat where "REGF_BLOCK_SHIFT = 4"
definition REGF_BLOCK_GRANULARITY :: u64 where "REGF_BLOCK_GRANULARITY = 16"
definition REGF_METADATA_BLOCK_SIZE :: u64 where "REGF_METADATA_BLOCK_SIZE = REGF_BLOCK_GRANULARITY"
definition REGF_UNALLOCATED_BLOCK :: u16 where "REGF_UNALLOCATED_BLOCK = 0xFFFF"
definition REGF_UPDATES_PER_METADATA_BLOCK :: u64 where "REGF_UPDATES_PER_METADATA_BLOCK = 8"

lemmas regf_defs = REGF_BLOCK_SHIFT_def REGF_BLOCK_GRANULARITY_def REGF_METADATA_BLOCK_SIZE_def
  REGF_UNALLOCATED_BLOCK_def REGF_UPDATES_PER_METADATA_BLOCK_def

definition RF_ONLY_METADATA :: int where "RF_ONLY_METADATA = 0"
definition RF_EMPTY :: int where "RF_EMPTY = -1"
definition RF_NEED_TO_EMPTY :: int where "RF_NEED_TO_EMPTY = -2"
definition RF_FATAL :: int where "RF_FATAL = -3"

lemmas rf_defs = RF_ONLY_METADATA_def RF_EMPTY_def RF_NEED_TO_EMPTY_def RF_FATAL_def

type_synonym metadata_block = "u16 list"

record region_file =
  rf_rdev :: region_device
  rf_metadata :: region_device
  rf_begin :: u16
  rf_end :: u16
  rf_slot :: int

text \<open>The all-zero device \<^verbatim>\<open>memset\<close> leaves in the structure; nothing is accessed through it.\<close>

definition null_rdev :: region_device where
  "null_rdev = Rdev (Root 0 (XlateDev [] False)) (mk_region 0 0)"

fun u16_list :: "u8 list \<Rightarrow> u16 list" where
  "u16_list (b0 # b1 # bs) = le_value [b0, b1] # u16_list bs"
| "u16_list _ = []"

definition block_to_bytes :: "u16 \<Rightarrow> u64" where
  "block_to_bytes offset = push_bit REGF_BLOCK_SHIFT (ucast offset)"

definition bytes_to_block :: "u64 \<Rightarrow> u64" where
  "bytes_to_block bytes = drop_bit REGF_BLOCK_SHIFT bytes"

definition block_offset_unallocated :: "u16 \<Rightarrow> bool" where
  "block_offset_unallocated offset \<longleftrightarrow> offset = REGF_UNALLOCATED_BLOCK"

definition region_file_data_begin :: "region_file \<Rightarrow> u64" where
  "region_file_data_begin f = ucast (rf_begin f)"

definition region_file_data_end :: "region_file \<Rightarrow> u64" where
  "region_file_data_end f = ucast (rf_end f)"

definition all_block_offsets_unallocated :: "metadata_block \<Rightarrow> bool" where
  "all_block_offsets_unallocated mb \<longleftrightarrow> list_all block_offset_unallocated mb"

subsection \<open>Finding the latest update\<close>

definition read_mb :: "'d driver \<Rightarrow> 'd world \<Rightarrow> u16 \<Rightarrow> region_device \<Rightarrow> metadata_block option" where
  "read_mb drv w i metadata =
     (case rdev_readat drv w metadata (block_to_bytes i) REGF_METADATA_BLOCK_SIZE of
        None \<Rightarrow> None
      | Some bs \<Rightarrow> Some (u16_list bs))"

text \<open>The binary search keeps a block with an allocated offset at \<open>l\<close> and an unused one at \<open>r\<close>.\<close>

function search_mb :: "'d driver \<Rightarrow> 'd world \<Rightarrow> region_device \<Rightarrow> nat \<Rightarrow> nat \<Rightarrow> nat option" where
  "search_mb drv w metadata l r =
     (if l + 1 < r
      then let mid = (l + r) div 2 in
        (case read_mb drv w (of_nat mid) metadata of
           None \<Rightarrow> None
         | Some mb \<Rightarrow>
             if all_block_offsets_unallocated mb then search_mb drv w metadata l mid
             else search_mb drv w metadata mid r)
      else Some l)"
  by pat_completeness auto
termination by (relation "measure (\<lambda>(drv, w, metadata, l, r). r - l)") auto

declare search_mb.simps [simp del]

definition find_latest_mb ::
  "'d driver \<Rightarrow> 'd world \<Rightarrow> nat \<Rightarrow> region_file \<Rightarrow> (metadata_block \<times> region_file) option" where
  "find_latest_mb drv w num_mb_blocks f =
     (case search_mb drv w (rf_metadata f) 0 num_mb_blocks of
        None \<Rightarrow> None
      | Some l \<Rightarrow>
          (case read_mb drv w (of_nat l) (rf_metadata f) of
             None \<Rightarrow> None
           | Some mb \<Rightarrow> Some (mb, f\<lparr>rf_slot := int l * 8\<rparr>)))"

text \<open>The last allocated offset of a block at index \<open>i\<close> or below, 0 if there is none.\<close>

fun latest_slot_from :: "metadata_block \<Rightarrow> nat \<Rightarrow> nat" where
  "latest_slot_from mb 0 = 0"
| "latest_slot_from mb (Suc i) =
     (if \<not> block_offset_unallocated (mb ! Suc i) then Suc i else latest_slot_from mb i)"

definition find_latest_slot :: "metadata_block \<Rightarrow> region_file \<Rightarrow> region_file" where
  "find_latest_slot mb f = f\<lparr>rf_slot := rf_slot f + int (latest_slot_from mb 7)\<rparr>"

definition fill_data_boundaries :: "'d driver \<Rightarrow> 'd world \<Rightarrow> region_file \<Rightarrow> region_file option" where
  "fill_data_boundaries drv w f =
     (if rf_slot f = RF_ONLY_METADATA
      then let start1 = ucast (bytes_to_block (region_device_sz (rf_metadata f)))
           in Some (f\<lparr>rf_begin := start1, rf_end := start1\<rparr>)
      else
        (case rdev_chain (rf_metadata f) (of_int (rf_slot f - 1) * 2) 4 of
           None \<Rightarrow> Some (f\<lparr>rf_slot := RF_NEED_TO_EMPTY\<rparr>)
         | Some slots \<Rightarrow>
             (case rdev_readat drv w slots 0 4 of
                None \<Rightarrow> None
              | Some bs \<Rightarrow>
                  let f1 = f\<lparr>rf_begin := u16_list bs ! 0, rf_end := u16_list bs ! 1\<rparr> in
                  if region_file_data_end f1 \<le> region_file_data_begin f1
                  then Some (f1\<lparr>rf_slot := RF_NEED_TO_EMPTY\<rparr>)
                  else if bytes_to_block (region_device_sz (rf_rdev f1)) < region_file_data_end f1
                  then Some (f1\<lparr>rf_slot := RF_NEED_TO_EMPTY\<rparr>)
                  else Some f1)))"

definition region_file_init ::
  "'d driver \<Rightarrow> 'd world \<Rightarrow> region_device \<Rightarrow> bool \<times> region_file" where
  "region_file_init drv w p =
     (let f0 = \<lparr>rf_rdev = null_rdev, rf_metadata = null_rdev, rf_begin = 0, rf_end = 0,
                rf_slot = RF_FATAL\<rparr> in
      case rdev_chain_full p of
        None \<Rightarrow> (False, f0)
      | Some rd \<Rightarrow>
          let f = f0\<lparr>rf_rdev := rd\<rparr> in
          (case rdev_readat drv w p 0 REGF_METADATA_BLOCK_SIZE of
             None \<Rightarrow> (False, f)
           | Some bs \<Rightarrow>
               let b0 = u16_list bs ! 0 in
               if block_offset_unallocated b0 then (True, f\<lparr>rf_slot := RF_EMPTY\<rparr>)
               else if b0 = 0 then (True, f\<lparr>rf_slot := RF_NEED_TO_EMPTY\<rparr>)
               else
                 (case rdev_chain p 0 (block_to_bytes b0) of
                    None \<Rightarrow> (True, f\<lparr>rf_slot := RF_NEED_TO_EMPTY\<rparr>)
                  | Some md \<Rightarrow>
                      let f1 = f\<lparr>rf_metadata := md\<rparr> in
                      (case find_latest_mb drv w (unat b0) f1 of
                         None \<Rightarrow> (False, f1\<lparr>rf_slot := RF_FATAL\<rparr>)
                       | Some (mb, f2) \<Rightarrow>
                           (case fill_data_boundaries drv w (find_latest_slot mb f2) of
                              None \<Rightarrow> (False, f2\<lparr>rf_slot := RF_FATAL\<rparr>)
                            | Some f3 \<Rightarrow> (True, f3))))))"

definition region_file_data :: "region_file \<Rightarrow> region_device option" where
  "region_file_data f =
     (if rf_slot f \<le> RF_ONLY_METADATA then None
      else let offset = block_to_bytes (rf_begin f);
               size1 = block_to_bytes (rf_end f) - offset
           in rdev_chain (rf_rdev f) offset size1)"

subsection \<open>Updates\<close>

definition allocate_metadata ::
  "'d driver \<Rightarrow> 'd world \<Rightarrow> region_file \<Rightarrow> u64 \<Rightarrow> bool \<times> region_file \<times> 'd world" where
  "allocate_metadata drv w f d =
     (let a = REGF_UPDATES_PER_METADATA_BLOCK;
          t = bytes_to_block (ALIGN_DOWN (region_device_sz (rf_rdev f)) REGF_BLOCK_GRANULARITY);
          m = bytes_to_block (ALIGN_UP REGF_METADATA_BLOCK_SIZE REGF_BLOCK_GRANULARITY)
      in if t - m < d then (False, f, w)
         else
           let x0 = ALIGN_UP (t * a div (d * a + m)) a;
               x = (if x0 = 0 then 1 else x0);
               y = ALIGN_UP x a div a;
               tot_metadata = (ucast (m * y) :: u16)
           in (case rdev_writeat drv w (rf_rdev f) 0 (le_bytes 2 tot_metadata) of
                 (None, w') \<Rightarrow> (False, f, w')
               | (Some _, w') \<Rightarrow>
                   (case rdev_chain (rf_rdev f) 0 (block_to_bytes tot_metadata) of
                      None \<Rightarrow> (False, f, w')
                    | Some md \<Rightarrow>
                        (True, f\<lparr>rf_metadata := md, rf_begin := tot_metadata, rf_end := tot_metadata\<rparr>, w'))))"

definition update_can_fit :: "region_file \<Rightarrow> u64 \<Rightarrow> bool" where
  "update_can_fit f data_blks =
     (let metadata_slots = region_device_sz (rf_metadata f) div 2;
          end_blk = data_blks + region_file_data_end f
      in if metadata_slots \<le> of_int (rf_slot f) + 1 then False
         else if ucast REGF_UNALLOCATED_BLOCK \<le> end_blk then False
         else if bytes_to_block (region_device_sz (rf_rdev f)) < end_blk then False
         else True)"

definition commit_data_allocation ::
  "'d driver \<Rightarrow> 'd world \<Rightarrow> region_file \<Rightarrow> u64 \<Rightarrow> bool \<times> region_file \<times> 'd world" where
  "commit_data_allocation drv w f data_blks =
     (let f1 = f\<lparr>rf_slot := rf_slot f + 1\<rparr>;
          offset = of_int (rf_slot f1) * 2;
          f2 = f1\<lparr>rf_begin := rf_end f1\<rparr>;
          f3 = f2\<lparr>rf_end := ucast (region_file_data_begin f2 + data_blks)\<rparr>
      in case rdev_writeat drv w (rf_metadata f3) offset (le_bytes 2 (rf_end f3)) of
           (None, w') \<Rightarrow> (False, f3, w')
         | (Some _, w') \<Rightarrow> (True, f3, w'))"

fun write_entries ::
  "'d driver \<Rightarrow> 'd world \<Rightarrow> region_device \<Rightarrow> u64 \<Rightarrow> u8 list list \<Rightarrow> bool \<times> 'd world" where
  "write_entries drv w rd offset [] = (True, w)"
| "write_entries drv w rd offset (e # es) =
     (case rdev_writeat drv w rd offset e of
        (None, w') \<Rightarrow> (False, w')
      | (Some _, w') \<Rightarrow> write_entries drv w' rd (offset + of_nat (length e)) es)"

definition commit_data ::
  "'d driver \<Rightarrow> 'd world \<Rightarrow> region_file \<Rightarrow> u8 list list \<Rightarrow> bool \<times> 'd world" where
  "commit_data drv w f entries =
     write_entries drv w (rf_rdev f) (block_to_bytes (rf_begin f)) entries"

definition handle_empty ::
  "'d driver \<Rightarrow> 'd world \<Rightarrow> region_file \<Rightarrow> u64 \<Rightarrow> bool \<times> region_file \<times> 'd world" where
  "handle_empty drv w f data_blks =
     (case allocate_metadata drv w f data_blks of
        (False, f', w') \<Rightarrow> (False, f', w')
      | (True, f', w') \<Rightarrow> (True, f'\<lparr>rf_slot := RF_ONLY_METADATA\<rparr>, w'))"

definition handle_need_to_empty ::
  "'d driver \<Rightarrow> 'd world \<Rightarrow> region_file \<Rightarrow> bool \<times> region_file \<times> 'd world" where
  "handle_need_to_empty drv w f =
     (case rdev_eraseat drv w (rf_rdev f) 0 (region_device_sz (rf_rdev f)) of
        (None, w') \<Rightarrow> (False, f, w')
      | (Some _, w') \<Rightarrow> (True, f\<lparr>rf_slot := RF_EMPTY\<rparr>, w'))"

definition handle_update ::
  "'d driver \<Rightarrow> 'd world \<Rightarrow> region_file \<Rightarrow> u64 \<Rightarrow> u8 list list \<Rightarrow> bool \<times> region_file \<times> 'd world" where
  "handle_update drv w f blocks entries =
     (if \<not> update_can_fit f blocks then (True, f\<lparr>rf_slot := RF_NEED_TO_EMPTY\<rparr>, w)
      else case commit_data_allocation drv w f blocks of
          (False, f', w') \<Rightarrow> (False, f', w')
        | (True, f', w') \<Rightarrow> (case commit_data drv w' f' entries of (ok, w'') \<Rightarrow> (ok, f', w'')))"

definition update_step ::
  "'d driver \<Rightarrow> 'd world \<Rightarrow> region_file \<Rightarrow> u64 \<Rightarrow> u8 list list \<Rightarrow> bool \<times> region_file \<times> 'd world" where
  "update_step drv w f blocks entries =
     (if rf_slot f = RF_EMPTY then handle_empty drv w f blocks
      else if rf_slot f = RF_NEED_TO_EMPTY then handle_need_to_empty drv w f
      else if rf_slot f = RF_FATAL then (False, f, w)
      else handle_update drv w f blocks entries)"

partial_function (option) update_loop ::
  "'d driver \<Rightarrow> u64 \<Rightarrow> u8 list list \<Rightarrow> 'd world \<Rightarrow> region_file
   \<Rightarrow> (bool \<times> region_file \<times> 'd world) option" where
  "update_loop drv blocks entries w f =
     (case update_step drv w f blocks entries of
        (ok, f', w') \<Rightarrow>
          if \<not> ok then Some (False, f'\<lparr>rf_slot := RF_FATAL\<rparr>, w')
          else if RF_ONLY_METADATA < rf_slot f' \<and> rf_slot f \<noteq> rf_slot f' then Some (True, f', w')
          else update_loop drv blocks entries w' f')"

definition update_blocks :: "u8 list list \<Rightarrow> u64" where
  "update_blocks entries =
     bytes_to_block (ALIGN_UP (fold (\<lambda>e s. s + of_nat (length e)) entries 0) REGF_BLOCK_GRANULARITY)"

definition region_file_update_data_arr ::
  "'d driver \<Rightarrow> 'd world \<Rightarrow> region_file \<Rightarrow> u8 list list \<Rightarrow> (bool \<times> region_file \<times> 'd world) option" where
  "region_file_update_data_arr drv w f entries = update_loop drv (update_blocks entries) entries w f"

definition region_file_update_data ::
  "'d driver \<Rightarrow> 'd world \<Rightarrow> region_file \<Rightarrow> u8 list \<Rightarrow> (bool \<times> region_file \<times> 'd world) option" where
  "region_file_update_data drv w f buf = region_file_update_data_arr drv w f [buf]"


subsection \<open>The log as a byte array\<close>

text \<open>The 16-bit offset in slot \<open>j\<close> of the metadata, from the bytes of the region.\<close>

definition slot_val :: "(nat \<Rightarrow> u8) \<Rightarrow> nat \<Rightarrow> u16" where
  "slot_val byte j = le_value [byte (2 * j), byte (2 * j + 1)]"

text \<open>
  A log with \<open>mbs\<close> metadata blocks whose latest update is in slot \<open>s\<close>: slot 0 holds the size of the
  metadata, slots up to \<open>s\<close> are allocated and the others are not, and the latest data lies after the
  metadata and inside the region.
\<close>

definition log_ok :: "(nat \<Rightarrow> u8) \<Rightarrow> nat \<Rightarrow> nat \<Rightarrow> nat \<Rightarrow> bool" where
  "log_ok byte size1 mbs s \<longleftrightarrow>
     1 \<le> mbs \<and> mbs < 0xFFFF \<and> 16 * mbs \<le> size1 \<and> size1 < 2 ^ 64 \<and> s < 8 * mbs \<and>
     unat (slot_val byte 0) = mbs \<and> mbs \<le> unat (slot_val byte s) \<and>
     (\<forall>j. j \<le> s \<longrightarrow> slot_val byte j \<noteq> REGF_UNALLOCATED_BLOCK) \<and>
     (\<forall>j. s < j \<and> j < 8 * mbs \<longrightarrow> slot_val byte j = REGF_UNALLOCATED_BLOCK) \<and>
     (0 < s \<longrightarrow> slot_val byte (s - 1) < slot_val byte s) \<and>
     16 * unat (slot_val byte s) \<le> size1"

text \<open>The structure that describes such a log on the device \<open>p\<close>.\<close>

definition metadata_dev :: "region_device \<Rightarrow> nat \<Rightarrow> region_device" where
  "metadata_dev p mbs =
     Rdev (rdev_root p) (mk_region (reg_offset (rdev_region p)) (of_nat (16 * mbs)))"

definition log_file :: "(nat \<Rightarrow> u8) \<Rightarrow> region_device \<Rightarrow> nat \<Rightarrow> nat \<Rightarrow> region_file" where
  "log_file byte p mbs s =
     \<lparr>rf_rdev = p, rf_metadata = metadata_dev p mbs,
      rf_begin = slot_val byte (s - 1), rf_end = slot_val byte s, rf_slot = int s\<rparr>"

lemma unat_bytes_to_block: "unat (bytes_to_block n) = unat n div 16"
  unfolding bytes_to_block_def REGF_BLOCK_SHIFT_def unat_drop_bit_eq by (simp add: drop_bit_eq_div)

lemma unat_u16_lt: "unat (x :: u16) < 65536"
  using unsigned_less [of x, where ?'a = nat] by simp

lemma unat_ucast_16_64: "unat (ucast (x :: u16) :: u64) = unat x"
  using unat_u16_lt [of x] by (simp add: unsigned_ucast_eq take_bit_nat_eq_self)

lemma unat_block_to_bytes: "unat (block_to_bytes b) = 16 * unat b"
  using unat_u16_lt [of b]
  by (simp add: block_to_bytes_def REGF_BLOCK_SHIFT_def push_bit_eq_mult unat_word_ariths unat_ucast_16_64)

lemma unat_of_nat_16: "n < 65536 \<Longrightarrow> unat (of_nat n :: u16) = n"
  by (simp add: unat_of_nat_lt)

lemma unat_of_nat_u64: "n < 18446744073709551616 \<Longrightarrow> unat (of_nat n :: u64) = n"
  by (simp add: unat_of_nat_lt)

lemma unallocated_iff: "x = REGF_UNALLOCATED_BLOCK \<longleftrightarrow> unat x = 0xFFFF"
  by (simp add: word_unat_eq_iff REGF_UNALLOCATED_BLOCK_def)

lemma allocated_lt: "x \<noteq> REGF_UNALLOCATED_BLOCK \<longleftrightarrow> unat x < 0xFFFF"
  using unat_u16_lt [of x] by (auto simp: unallocated_iff)

lemma slot_val_cong:
  "byte (2 * j) = byte' (2 * j) \<Longrightarrow> byte (2 * j + 1) = byte' (2 * j + 1) \<Longrightarrow> slot_val byte j = slot_val byte' j"
  by (simp only: slot_val_def)

lemma slot_val_le:
  "byte (2 * j) = le_bytes 2 x ! 0 \<Longrightarrow> byte (2 * j + 1) = le_bytes 2 x ! 1 \<Longrightarrow> slot_val byte j = (x :: u16)"
  using le_value_full [of 2 x] by (simp add: slot_val_def numeral_2_eq_2)

lemma latest_slot_from_eq:
  "k \<le> i \<Longrightarrow> k = 0 \<or> \<not> block_offset_unallocated (mb ! k) \<Longrightarrow>
   (\<And>j. k < j \<Longrightarrow> j \<le> i \<Longrightarrow> block_offset_unallocated (mb ! j)) \<Longrightarrow> latest_slot_from mb i = k"
proof (induction i)
  case (Suc i)
  then show ?case by (cases "k = Suc i") auto
qed simp

context storage
begin

lemma u16_list_dev_bytes:
  "u16_list (dev_bytes w rd (2 * k) (2 * n)) = map (\<lambda>j. slot_val (dev_byte w rd) (k + j)) [0..<n]"
proof (induction n arbitrary: k)
  case 0
  then show ?case by (simp add: dev_bytes_def)
next
  case (Suc n)
  have "[0..<2 + m] = 0 # 1 # map (\<lambda>i. i + 2) [0..<m]" for m :: nat by (induction m) (auto simp: numeral_2_eq_2)
  from this [of "2 * n"] have "[0..<2 * Suc n] = 0 # 1 # map (\<lambda>i. i + 2) [0..<2 * n]" by simp
  then have "dev_bytes w rd (2 * k) (2 * Suc n) =
      dev_byte w rd (2 * k) # dev_byte w rd (2 * k + 1) # dev_bytes w rd (2 * Suc k) (2 * n)"
    by (simp add: dev_bytes_def comp_def algebra_simps)
  then have "u16_list (dev_bytes w rd (2 * k) (2 * Suc n)) =
      slot_val (dev_byte w rd) k # map (\<lambda>j. slot_val (dev_byte w rd) (Suc k + j)) [0..<n]"
    by (simp only: u16_list.simps Suc slot_val_def [of _ k])
  also have "\<dots> = map (\<lambda>j. slot_val (dev_byte w rd) (k + j)) [0..<Suc n]"
    by (simp add: upt_conv_Cons map_Suc_upt [symmetric] comp_def del: upt_Suc)
  finally show ?case .
qed

abbreviation dev_size :: "region_device \<Rightarrow> nat" where
  "dev_size rd \<equiv> unat (reg_size (rdev_region rd))"

lemma metadata_facts:
  assumes "on_store p" "0 < mbs" "16 * mbs \<le> dev_size p"
  shows "rdev_chain p 0 (of_nat (16 * mbs)) = Some (metadata_dev p mbs)"
    and "on_store (metadata_dev p mbs)" "dev_size (metadata_dev p mbs) = 16 * mbs"
    and "dev_byte w (metadata_dev p mbs) = dev_byte w p"
proof -
  have lt: "16 * mbs < 18446744073709551616" using assms(3) unat_lt_64 [of "reg_size (rdev_region p)"] by linarith
  note u = unat_of_nat_u64 [OF lt]
  have "of_nat (16 * mbs) \<noteq> (0 :: u64)" using u assms(2) by (metis mult_eq_0_iff not_gr_zero unat_0 zero_neq_numeral)
  then have "in_region (rdev_region p) 0 (of_nat (16 * mbs))"
    using assms(3) u by (simp only: in_region_def unat_0 add_0) simp
  from chain_on_store [OF assms(1) this] obtain c where c:
    "rdev_chain p 0 (of_nat (16 * mbs)) = Some c" "on_store c"
    "rdev_region c = mk_region (0 + reg_offset (rdev_region p)) (of_nat (16 * mbs))"
    "\<And>w i. dev_byte w c i = dev_byte w p (unat (0 :: u64) + i)" by blast
  have "c = metadata_dev p mbs"
    using c(3) chain_facts(1) [OF c(1)] by (cases c) (simp add: metadata_dev_def)
  with c u show "rdev_chain p 0 (of_nat (16 * mbs)) = Some (metadata_dev p mbs)"
    "on_store (metadata_dev p mbs)" "dev_byte w (metadata_dev p mbs) = dev_byte w p"
    by (auto simp: fun_eq_iff)
  show "dev_size (metadata_dev p mbs) = 16 * mbs" using u by (simp add: metadata_dev_def)
qed

lemma chain_full:
  assumes "on_store p"
  shows "rdev_chain_full p = Some p"
proof -
  have v: "region_valid (rdev_region p)" using assms by (simp add: on_store_def)
  then have "in_region (rdev_region p) 0 (reg_size (rdev_region p))"
    by (simp add: in_region_def region_valid_def)
  from normalize_in_region(1) [OF v this] have
    "normalize_and_ok (rdev_region p) (mk_region 0 (reg_size (rdev_region p))) = Some (rdev_region p)"
    by (simp add: mk_region_def)
  then show ?thesis
    by (cases p) (simp add: rdev_chain_full_def rdev_chain_def region_device_sz_def)
qed

lemma read_mb_eq:
  assumes "ok w" "on_store p" "16 * i + 16 \<le> dev_size p" "i < 65536"
  shows "read_mb drv w (of_nat i) p = Some (map (\<lambda>j. slot_val (dev_byte w p) (8 * i + j)) [0..<8])"
proof -
  have u: "unat (block_to_bytes (of_nat i)) = 16 * i"
    using assms(4) by (simp add: unat_block_to_bytes unat_of_nat_16)
  have s: "unat REGF_METADATA_BLOCK_SIZE = 16" by (simp add: regf_defs)
  have "in_region (rdev_region p) (block_to_bytes (of_nat i)) REGF_METADATA_BLOCK_SIZE"
    using assms(3) u by (simp add: in_region_def regf_defs)
  from read_bytes [OF assms(1,2) this] show ?thesis
    using u16_list_dev_bytes [of w p "8 * i" 8] by (simp add: read_mb_def u s)
qed

end


subsection \<open>Recovery\<close>

lemma log_slots:
  assumes "log_ok byte size1 mbs s"
  shows "j \<le> s \<Longrightarrow> \<not> block_offset_unallocated (slot_val byte j)"
    and "s < j \<Longrightarrow> j < 8 * mbs \<Longrightarrow> block_offset_unallocated (slot_val byte j)"
  using assms by (auto simp: log_ok_def block_offset_unallocated_def)

lemma all_unallocated_iff:
  assumes "log_ok byte size1 mbs s" "i < mbs"
  shows "all_block_offsets_unallocated (map (\<lambda>j. slot_val byte (8 * i + j)) [0..<8]) \<longleftrightarrow> s div 8 < i"
proof
  assume a: "all_block_offsets_unallocated (map (\<lambda>j. slot_val byte (8 * i + j)) [0..<8])"
  then have "block_offset_unallocated (slot_val byte (8 * i + 0))"
    unfolding all_block_offsets_unallocated_def list_all_length by fastforce
  with log_slots(1) [OF assms(1), of "8 * i"] show "s div 8 < i" by (cases "8 * i \<le> s") auto
next
  assume "s div 8 < i"
  then have "s < 8 * i" by (simp add: div_less_iff_less_mult)
  with assms(2) log_slots(2) [OF assms(1)] show
    "all_block_offsets_unallocated (map (\<lambda>j. slot_val byte (8 * i + j)) [0..<8])"
    by (auto simp: all_block_offsets_unallocated_def list_all_iff simp del: upt_Suc)
qed

context storage
begin

lemma search_mb_eq:
  assumes "ok w" "on_store p" "log_ok (dev_byte w p) (dev_size p) mbs s"
    and "l \<le> s div 8" "s div 8 < r" "r \<le> mbs"
  shows "search_mb drv w (metadata_dev p mbs) l r = Some (s div 8)"
  using assms(4-6)
proof (induction "r - l" arbitrary: l r rule: less_induct)
  case less
  have mbs: "0 < mbs" "mbs < 65535" "16 * mbs \<le> dev_size p" using assms(3) by (simp_all add: log_ok_def)
  note md = metadata_facts [OF assms(2) mbs(1,3)]
  show ?case
  proof (cases "l + 1 < r")
    case False
    with less.prems have "l = s div 8" by simp
    with False show ?thesis by (subst search_mb.simps) simp
  next
    case True
    let ?m = "(l + r) div 2"
    have m: "l < ?m" "?m < r" using True by auto
    have rd: "read_mb drv w (of_nat ?m) (metadata_dev p mbs) =
        Some (map (\<lambda>j. slot_val (dev_byte w p) (8 * ?m + j)) [0..<8])"
      using read_mb_eq [OF assms(1) md(2), of ?m] m less.prems(3) mbs md(3,4) by simp
    have un: "all_block_offsets_unallocated (map (\<lambda>j. slot_val (dev_byte w p) (8 * ?m + j)) [0..<8])
        \<longleftrightarrow> s div 8 < ?m"
      by (rule all_unallocated_iff [OF assms(3)]) (use m less.prems(3) in linarith)
    have step: "search_mb drv w (metadata_dev p mbs) l r =
        (if s div 8 < ?m then search_mb drv w (metadata_dev p mbs) l ?m
         else search_mb drv w (metadata_dev p mbs) ?m r)"
      by (subst search_mb.simps) (simp only: True if_True Let_def rd option.case un)
    show ?thesis
    proof (cases "s div 8 < ?m")
      case True
      have "?m - l < r - l" "?m \<le> mbs" using m less.prems(3) by simp_all
      with less.hyps [of ?m l] less.prems(1) True step show ?thesis by simp
    next
      case False
      have "r - ?m < r - l" "?m \<le> s div 8" using m False by simp_all
      with less.hyps [of r ?m] less.prems(2,3) False step show ?thesis by simp
    qed
  qed
qed

lemma find_latest_eq:
  assumes "ok w" "on_store p" "log_ok (dev_byte w p) (dev_size p) mbs s"
  shows "find_latest_mb drv w mbs (f\<lparr>rf_metadata := metadata_dev p mbs\<rparr>) =
    Some (map (\<lambda>j. slot_val (dev_byte w p) (8 * (s div 8) + j)) [0..<8],
      f\<lparr>rf_metadata := metadata_dev p mbs, rf_slot := int (s div 8) * 8\<rparr>)"
proof -
  have mbs: "0 < mbs" "mbs < 65535" "16 * mbs \<le> dev_size p" "s div 8 < mbs"
    using assms(3) by (auto simp: log_ok_def div_less_iff_less_mult)
  note md = metadata_facts [OF assms(2) mbs(1,3)]
  have "search_mb drv w (metadata_dev p mbs) 0 mbs = Some (s div 8)"
    by (rule search_mb_eq [OF assms]) (use mbs in simp_all)
  moreover have "read_mb drv w (of_nat (s div 8)) (metadata_dev p mbs) =
      Some (map (\<lambda>j. slot_val (dev_byte w p) (8 * (s div 8) + j)) [0..<8])"
    using read_mb_eq [OF assms(1) md(2), of "s div 8"] mbs md(3,4) by simp
  ultimately show ?thesis by (simp add: find_latest_mb_def)
qed

lemma latest_slot_eq:
  assumes "log_ok byte size1 mbs s"
  shows "latest_slot_from (map (\<lambda>j. slot_val byte (8 * (s div 8) + j)) [0..<8]) 7 = s mod 8"
proof (rule latest_slot_from_eq)
  have s: "8 * (s div 8) + s mod 8 = s" by simp
  show le: "s mod 8 \<le> 7" using mod_less_divisor [of 8 s] by linarith
  show "s mod 8 = 0 \<or>
      \<not> block_offset_unallocated (map (\<lambda>j. slot_val byte (8 * (s div 8) + j)) [0..<8] ! (s mod 8))"
    using log_slots(1) [OF assms, of s] le by (simp del: upt_Suc add: s)
  show "block_offset_unallocated (map (\<lambda>j. slot_val byte (8 * (s div 8) + j)) [0..<8] ! j)"
    if "s mod 8 < j" "j \<le> 7" for j
  proof -
    have "s < 8 * (s div 8) + j" using that(1) s by linarith
    moreover have "s < 8 * mbs" using assms by (simp add: log_ok_def)
    then have "s div 8 < mbs" by (simp add: div_less_iff_less_mult)
    then have "8 * (s div 8) + j < 8 * mbs" using that(2) by linarith
    ultimately have "block_offset_unallocated (slot_val byte (8 * (s div 8) + j))"
      by (rule log_slots(2) [OF assms])
    with that(2) show ?thesis by (simp del: upt_Suc)
  qed
qed

lemma boundaries_eq:
  assumes "ok w" "on_store p" "log_ok (dev_byte w p) (dev_size p) mbs s"
    and "rf_rdev f = p" "rf_metadata f = metadata_dev p mbs" "rf_slot f = int s"
  shows "fill_data_boundaries drv w f = Some (log_file (dev_byte w p) p mbs s)"
proof -
  have mbs: "0 < mbs" "mbs < 65535" "16 * mbs \<le> dev_size p" "s < 8 * mbs"
    using assms(3) by (auto simp: log_ok_def)
  note md = metadata_facts [OF assms(2) mbs(1,3)]
  obtain b e where f: "f = \<lparr>rf_rdev = p, rf_metadata = metadata_dev p mbs, rf_begin = b,
      rf_end = e, rf_slot = int s\<rparr>" using assms(4-6) by (cases f) simp
  show ?thesis
  proof (cases "s = 0")
    case True
    have "unat (bytes_to_block (region_device_sz (metadata_dev p mbs))) = mbs"
      using md(3) by (simp add: unat_bytes_to_block region_device_sz_def)
    then have "unat (ucast (bytes_to_block (region_device_sz (metadata_dev p mbs))) :: u16) = mbs"
      using mbs(2) by (simp add: unsigned_ucast_eq take_bit_nat_eq_self)
    moreover have "unat (slot_val (dev_byte w p) 0) = mbs" using assms(3) by (simp add: log_ok_def)
    ultimately have "ucast (bytes_to_block (region_device_sz (metadata_dev p mbs))) = slot_val (dev_byte w p) 0"
      by (intro word_eq_unatI) simp
    with True show ?thesis unfolding f
      by (simp add: fill_data_boundaries_def RF_ONLY_METADATA_def log_file_def Let_def)
  next
    case False
    obtain off where off: "off = (of_int (int s - 1) * 2 :: u64)" by blast
    have "(of_int (int s - 1) :: u64) = of_nat (s - 1)" using False by (simp add: of_nat_diff)
    then have o: "off = of_nat (2 * (s - 1))" by (simp add: off)
    have u: "unat off = 2 * (s - 1)" unfolding o using mbs(2,4) by (intro unat_of_nat_u64) simp
    have "in_region (rdev_region (metadata_dev p mbs)) off 4"
      using u md(3) mbs(4) False by (simp add: in_region_def)
    from chain_on_store [OF md(2) this] obtain c where c: "rdev_chain (metadata_dev p mbs) off 4 = Some c"
      "on_store c" "rdev_region c = mk_region (off + reg_offset (rdev_region (metadata_dev p mbs))) 4"
      "\<And>w i. dev_byte w c i = dev_byte w p (unat off + i)" using md(4) by auto
    have "in_region (rdev_region c) 0 4" by (simp add: c(3) in_region_def)
    from read_bytes [OF assms(1) c(2) this] have r: "rdev_readat drv w c 0 4 = Some (dev_bytes w c 0 4)" by simp
    have "dev_bytes w c 0 4 = dev_bytes w p (2 * (s - 1)) (2 * 2)" by (simp add: dev_bytes_def c(4) u)
    then have l: "u16_list (dev_bytes w c 0 4) = [slot_val (dev_byte w p) (s - 1), slot_val (dev_byte w p) s]"
      using u16_list_dev_bytes [of w p "s - 1" 2] False by (simp add: numeral_2_eq_2)
    have lt: "unat (slot_val (dev_byte w p) (s - 1)) < unat (slot_val (dev_byte w p) s)"
      and le: "unat (slot_val (dev_byte w p) s) \<le> dev_size p div 16"
      using assms(3) False by (auto simp: log_ok_def word_less_nat_alt less_eq_div_iff_mult_less_eq)
    show ?thesis
      using False c(1) [unfolded off] r lt le unfolding f
      by (simp add: fill_data_boundaries_def RF_ONLY_METADATA_def l Let_def log_file_def
          region_file_data_begin_def region_file_data_end_def region_device_sz_def word_le_nat_alt
          word_less_nat_alt unat_bytes_to_block unat_ucast_16_64)
  qed
qed

lemma init_recovers:
  assumes "ok w" "on_store p" "log_ok (dev_byte w p) (dev_size p) mbs s"
  shows "region_file_init drv w p = (True, log_file (dev_byte w p) p mbs s)"
proof -
  have mbs: "0 < mbs" "mbs < 65535" "16 * mbs \<le> dev_size p" "unat (slot_val (dev_byte w p) 0) = mbs"
    using assms(3) by (auto simp: log_ok_def)
  note md = metadata_facts [OF assms(2) mbs(1,3)]
  let ?b0 = "slot_val (dev_byte w p) 0"
  have "in_region (rdev_region p) 0 REGF_METADATA_BLOCK_SIZE"
    using mbs(1,3) by (simp add: in_region_def regf_defs)
  from read_bytes [OF assms(1,2) this]
  have r: "rdev_readat drv w p 0 REGF_METADATA_BLOCK_SIZE = Some (dev_bytes w p 0 16)"
    by (simp add: regf_defs)
  have b: "u16_list (dev_bytes w p 0 16) ! 0 = ?b0"
    using u16_list_dev_bytes [of w p 0 8] by simp
  have nz: "?b0 \<noteq> 0" "\<not> block_offset_unallocated ?b0"
    using mbs log_slots(1) [OF assms(3)] by auto
  have "block_to_bytes ?b0 = of_nat (16 * mbs)"
  proof (rule word_eq_unatI)
    have "16 * mbs < 18446744073709551616" using mbs(2) by simp
    then show "unat (block_to_bytes ?b0) = unat (of_nat (16 * mbs) :: u64)"
      by (simp only: unat_block_to_bytes mbs(4) unat_of_nat_u64)
  qed
  then have c: "rdev_chain p 0 (block_to_bytes ?b0) = Some (metadata_dev p mbs)" using md(1) by simp
  let ?f = "\<lparr>rf_rdev = p, rf_metadata = null_rdev, rf_begin = 0, rf_end = 0, rf_slot = RF_FATAL\<rparr>"
  note l = find_latest_eq [OF assms, of ?f]
  have sl: "int (s div 8) * 8 + int (s mod 8) = int s" by (metis div_mult_mod_eq of_nat_add of_nat_mult of_nat_numeral)
  show ?thesis
    unfolding region_file_init_def Let_def chain_full [OF assms(2)] option.case
    using r b nz c l boundaries_eq [OF assms]
    by (simp add: mbs(4) find_latest_slot_def latest_slot_eq [OF assms(3)] sl)
qed

end


subsection \<open>Appending an update\<close>

context storage
begin

lemma write_entries_eq:
  assumes "ok w" "on_store rd" "\<forall>e\<in>set es. e \<noteq> []" "unat off + length (concat es) \<le> dev_size rd"
  shows "\<exists>w'. write_entries drv w rd off es = (True, w') \<and> ok w' \<and>
    (\<forall>i<dev_size rd. dev_byte w' rd i =
      (if unat off \<le> i \<and> i < unat off + length (concat es) then concat es ! (i - unat off)
       else dev_byte w rd i))"
  using assms
proof (induction es arbitrary: w off)
  case Nil
  then show ?case by (intro exI [of _ w]) auto
next
  case (Cons e es)
  have sz: "dev_size rd < 18446744073709551616" by (rule unat_lt_64)
  have "unat off + length e \<le> dev_size rd" using Cons.prems(4) by simp
  with sz Cons.prems(3) have le: "unat off + length e \<le> dev_size rd"
    "length e < 18446744073709551616" "e \<noteq> []" by auto
  have u: "unat (of_nat (length e) :: u64) = length e" by (rule unat_of_nat_u64 [OF le(2)])
  have "of_nat (length e) \<noteq> (0 :: u64)"
  proof
    assume "of_nat (length e) = (0 :: u64)"
    with u have "length e = 0" by simp
    with le(3) show False by simp
  qed
  then have ir: "in_region (rdev_region rd) off (of_nat (length e))" using le(1) u by (simp add: in_region_def)
  obtain w1 where w1: "rdev_writeat drv w rd off e = (Some (of_nat (length e)), w1)" "ok w1"
    "\<And>i. i < dev_size rd \<Longrightarrow> dev_byte w1 rd i =
      (if unat off \<le> i \<and> i < unat off + length e then e ! (i - unat off) else dev_byte w rd i)"
    using write_bytes [OF Cons.prems(1,2) ir] le(2) by auto
  let ?off = "off + of_nat (length e)"
  show ?case
  proof (cases "es = []")
    case True
    with w1 show ?thesis by auto
  next
    case False
    then have "0 < length (concat es)" using Cons.prems(3) by (cases es) auto
    then have "unat off + length e < 18446744073709551616" using Cons.prems(4) sz by simp
    then have uo: "unat ?off = unat off + length e" by (subst unat_add_no_wrap) (simp_all add: u)
    have fits: "unat ?off + length (concat es) \<le> dev_size rd" using Cons.prems(4) uo by simp
    have ne: "\<forall>e\<in>set es. e \<noteq> []" using Cons.prems(3) by simp
    obtain w2 where w2:
      "write_entries drv w1 rd ?off es = (True, w2)" "ok w2"
      "\<forall>i<dev_size rd. dev_byte w2 rd i =
        (if unat ?off \<le> i \<and> i < unat ?off + length (concat es) then concat es ! (i - unat ?off)
         else dev_byte w1 rd i)" using Cons.IH [OF w1(2) Cons.prems(2) ne fits] by blast
    have "dev_byte w2 rd i = (if unat off \<le> i \<and> i < unat off + length (concat (e # es))
        then concat (e # es) ! (i - unat off) else dev_byte w rd i)" if "i < dev_size rd" for i
      using w2(3) w1(3) that uo by (auto simp: nth_append)
    with w1(1) w2(1,2) show ?thesis by simp
  qed
qed

lemma metadata_write:
  assumes "ok w" "on_store p" "0 < mbs" "16 * mbs \<le> dev_size p"
    and "bs \<noteq> []" "unat off + length bs \<le> 16 * mbs"
  obtains w' where "rdev_writeat drv w (metadata_dev p mbs) off bs = (Some (of_nat (length bs)), w')" "ok w'"
    "\<And>i. i < dev_size p \<Longrightarrow> dev_byte w' p i =
      (if unat off \<le> i \<and> i < unat off + length bs then bs ! (i - unat off) else dev_byte w p i)"
proof -
  note md = metadata_facts [OF assms(2-4)]
  have lt: "length bs < 18446744073709551616" "unat off + length bs \<le> dev_size p"
    using assms(4,6) unat_lt_64 [of "reg_size (rdev_region p)"] by linarith+
  have u: "unat (of_nat (length bs) :: u64) = length bs" by (rule unat_of_nat_u64 [OF lt(1)])
  have nz: "of_nat (length bs) \<noteq> (0 :: u64)" using u assms(5) by (metis length_0_conv unat_0)
  have i: "in_region (rdev_region p) off (of_nat (length bs))"
    "in_region (rdev_region (metadata_dev p mbs)) off (of_nat (length bs))"
    using nz u lt(2) assms(6) md(3) by (simp_all add: in_region_def)
  have lt': "length bs < 2 ^ 64" using lt(1) by simp
  obtain w1 where w1: "rdev_writeat drv w (metadata_dev p mbs) off bs = (Some (of_nat (length bs)), w1)"
    using write_bytes [OF assms(1) md(2) i(2) lt'] by blast
  have c: "rdev_writeat drv w (metadata_dev p mbs) off bs = rdev_writeat drv w p off bs"
    using chain_access(2) [OF md(1), of drv w off bs] w1 by auto
  obtain w2 where w2: "rdev_writeat drv w p off bs = (Some (of_nat (length bs)), w2)" "ok w2"
    "\<And>i. i < dev_size p \<Longrightarrow> dev_byte w2 p i =
      (if unat off \<le> i \<and> i < unat off + length bs then bs ! (i - unat off) else dev_byte w p i)"
    using write_bytes [OF assms(1,2) i(1) lt'] by blast
  show thesis by (rule that [of w2]) (use w2 c in simp_all)
qed

lemma can_fit_iff:
  assumes "on_store p" "log_ok (dev_byte w p) (dev_size p) mbs s" "d < 0x80000"
  shows "update_can_fit (log_file (dev_byte w p) p mbs s) (of_nat d) \<longleftrightarrow>
    Suc s < 8 * mbs \<and> unat (slot_val (dev_byte w p) s) + d < 0xFFFF \<and>
    unat (slot_val (dev_byte w p) s) + d \<le> dev_size p div 16"
proof -
  let ?f = "log_file (dev_byte w p) p mbs s"
  let ?e = "unat (slot_val (dev_byte w p) s)"
  have mbs: "0 < mbs" "mbs < 65535" "16 * mbs \<le> dev_size p" "s < 8 * mbs"
    using assms(2) by (auto simp: log_ok_def)
  note md = metadata_facts [OF assms(1) mbs(1,3)]
  have ud: "unat (of_nat d :: u64) = d" using assms(3) by (intro unat_of_nat_u64) simp
  have ue: "unat (region_file_data_end ?f) = ?e"
    by (simp add: region_file_data_end_def log_file_def unat_ucast_16_64)
  have end_blk: "unat (of_nat d + region_file_data_end ?f) = ?e + d"
    by (subst unat_add_no_wrap) (use assms(3) unat_u16_lt [of "slot_val (dev_byte w p) s"] in \<open>simp_all add: ud ue\<close>)
  have ms: "unat (region_device_sz (rf_metadata ?f) div 2) = 8 * mbs"
    by (simp add: region_device_sz_def log_file_def md(3) unat_div_distrib)
  have us: "unat (of_int (rf_slot ?f) + 1 :: u64) = Suc s"
  proof -
    have "(of_int (rf_slot ?f) + 1 :: u64) = of_nat (Suc s)" by (simp add: log_file_def)
    also have "unat \<dots> = Suc s" using mbs(2,4) by (intro unat_of_nat_u64) simp
    finally show ?thesis .
  qed
  have ub: "unat (bytes_to_block (region_device_sz (rf_rdev ?f))) = dev_size p div 16"
    by (simp add: unat_bytes_to_block region_device_sz_def log_file_def)
  show ?thesis
    unfolding update_can_fit_def Let_def word_le_nat_alt word_less_nat_alt end_blk ms us ub
    by (auto simp: REGF_UNALLOCATED_BLOCK_def)
qed

text \<open>The record of a fitting update: what it leaves in the metadata and in the data area.\<close>

lemma append_update:
  assumes "ok w" "on_store p" "log_ok (dev_byte w p) (dev_size p) mbs s"
    and "Suc s < 8 * mbs" "0 < d" "\<forall>e\<in>set es. e \<noteq> []" "length (concat es) \<le> 16 * d"
    and "unat (slot_val (dev_byte w p) s) + d < 0xFFFF"
    and "16 * (unat (slot_val (dev_byte w p) s) + d) \<le> dev_size p"
  shows "\<exists>w'. handle_update drv w (log_file (dev_byte w p) p mbs s) (of_nat d) es =
      (True, log_file (dev_byte w' p) p mbs (Suc s), w') \<and> ok w' \<and>
    log_ok (dev_byte w' p) (dev_size p) mbs (Suc s) \<and>
    (\<forall>j. j \<le> s \<longrightarrow> slot_val (dev_byte w' p) j = slot_val (dev_byte w p) j) \<and>
    unat (slot_val (dev_byte w' p) (Suc s)) = unat (slot_val (dev_byte w p) s) + d \<and>
    dev_bytes w' p (16 * unat (slot_val (dev_byte w p) s)) (length (concat es)) = concat es"
proof -
  let ?b = "dev_byte w p" and ?f = "log_file (dev_byte w p) p mbs s"
  let ?e = "unat (slot_val ?b s)"
  have mbs: "0 < mbs" "mbs < 65535" "16 * mbs \<le> dev_size p" "mbs \<le> ?e" "s < 8 * mbs"
    using assms(3) by (auto simp: log_ok_def)
  note md = metadata_facts [OF assms(2) mbs(1,3)]
  have ud: "unat (of_nat d :: u64) = d" using assms(8) by (intro unat_of_nat_u64) simp
  have fit: "update_can_fit ?f (of_nat d)"
    using can_fit_iff [OF assms(2,3), of d] assms(4,8,9) by (simp add: less_eq_div_iff_mult_less_eq algebra_simps)
  let ?x = "ucast (ucast (slot_val ?b s) + of_nat d :: u64) :: u16"
  have ux: "unat ?x = ?e + d"
  proof -
    have "unat (ucast (slot_val ?b s) + of_nat d :: u64) = ?e + d"
      by (subst unat_add_no_wrap) (use assms(8) in \<open>simp_all add: ud unat_ucast_16_64\<close>)
    then show ?thesis using assms(8) by (simp add: unsigned_ucast_eq take_bit_nat_eq_self)
  qed
  let ?g = "\<lparr>rf_rdev = p, rf_metadata = metadata_dev p mbs, rf_begin = slot_val ?b s, rf_end = ?x,
      rf_slot = int (Suc s)\<rparr>"
  obtain off where off: "off = (of_int (int (Suc s)) * 2 :: u64)" by blast
  have "off = of_nat (2 * Suc s)" unfolding off by simp
  also have "unat \<dots> = 2 * Suc s" using mbs(2,5) by (intro unat_of_nat_u64) simp
  finally have uoff: "unat off = 2 * Suc s" .
  have o2: "unat off + length (le_bytes 2 ?x) \<le> 16 * mbs" using uoff assms(4) by simp
  have ne: "le_bytes 2 ?x \<noteq> []" by (simp add: numeral_2_eq_2)
  obtain w1 where w1: "rdev_writeat drv w (metadata_dev p mbs) off (le_bytes 2 ?x) = (Some 2, w1)" "ok w1"
    "\<And>i. i < dev_size p \<Longrightarrow> dev_byte w1 p i =
      (if 2 * Suc s \<le> i \<and> i < 2 * Suc s + 2 then le_bytes 2 ?x ! (i - 2 * Suc s) else ?b i)"
    using metadata_write [OF assms(1,2) mbs(1,3) ne o2, unfolded uoff length_le_bytes] by (metis of_nat_numeral)
  have bb: "unat (block_to_bytes (slot_val ?b s)) = 16 * ?e" by (rule unat_block_to_bytes)
  have "unat (block_to_bytes (slot_val ?b s)) + length (concat es) \<le> dev_size p"
    using assms(7,9) unfolding bb by simp
  from write_entries_eq [OF w1(2) assms(2,6) this] obtain w2 where w2:
    "write_entries drv w1 p (block_to_bytes (slot_val ?b s)) es = (True, w2)" "ok w2"
    "\<And>i. i < dev_size p \<Longrightarrow> dev_byte w2 p i =
      (if 16 * ?e \<le> i \<and> i < 16 * ?e + length (concat es) then concat es ! (i - 16 * ?e)
       else dev_byte w1 p i)" unfolding bb by blast
  have meta: "dev_byte w2 p i = (if 2 * Suc s \<le> i \<and> i < 2 * Suc s + 2
      then le_bytes 2 ?x ! (i - 2 * Suc s) else ?b i)" if "i < 16 * mbs" for i
    using that w2(3) [of i] w1(3) [of i] mbs(3,4) by simp
  have sv: "slot_val (dev_byte w2 p) (Suc s) = ?x"
    by (rule slot_val_le) (use meta [of "2 * Suc s"] meta [of "2 * Suc s + 1"] assms(4) in simp_all)
  have so: "slot_val (dev_byte w2 p) j = slot_val ?b j" if "j < 8 * mbs" "j \<noteq> Suc s" for j
    by (rule slot_val_cong) (use meta [of "2 * j"] meta [of "2 * j + 1"] that in auto)
  have log: "log_ok (dev_byte w2 p) (dev_size p) mbs (Suc s)"
  proof -
    have "slot_val (dev_byte w2 p) j \<noteq> REGF_UNALLOCATED_BLOCK" if "j \<le> Suc s" for j
    proof (cases "j = Suc s")
      case True
      with sv ux assms(8) show ?thesis by (simp add: unallocated_iff)
    next
      case False
      with that so [of j] assms(3) mbs(5) show ?thesis by (auto simp: log_ok_def)
    qed
    moreover have "slot_val (dev_byte w2 p) j = REGF_UNALLOCATED_BLOCK" if "Suc s < j \<and> j < 8 * mbs" for j
      using that so [of j] assms(3) by (auto simp: log_ok_def)
    moreover have "slot_val (dev_byte w2 p) s < slot_val (dev_byte w2 p) (Suc s)"
      using so [of s] sv ux assms(5) mbs(5) by (simp add: word_less_nat_alt)
    moreover have "unat (slot_val (dev_byte w2 p) 0) = mbs" using so [of 0] assms(3) by (simp add: log_ok_def)
    ultimately show ?thesis
      using assms(3,4,9) sv ux mbs unfolding log_ok_def by simp
  qed
  have f': "log_file (dev_byte w2 p) p mbs (Suc s) = ?g"
    using sv so [of s] mbs(5) by (simp add: log_file_def)
  have cda: "commit_data_allocation drv w ?f (of_nat d) = (True, ?g, w1)"
  proof -
    have f: "?f = \<lparr>rf_rdev = p, rf_metadata = metadata_dev p mbs, rf_begin = slot_val ?b (s - 1),
        rf_end = slot_val ?b s, rf_slot = int s\<rparr>" by (simp add: log_file_def)
    have o: "of_int (int s + 1) * 2 = off" by (simp add: off)
    show ?thesis
      using w1(1) unfolding f commit_data_allocation_def Let_def
      by (simp add: region_file_data_begin_def o [simplified])
  qed
  have "handle_update drv w ?f (of_nat d) es = (True, ?g, w2)"
    using fit cda w2(1) by (simp add: handle_update_def commit_data_def)
  moreover have "dev_bytes w2 p (16 * ?e) (length (concat es)) = concat es"
    using w2(3) assms(7,9) by (intro nth_equalityI) (simp_all add: dev_bytes_def)
  ultimately show ?thesis
    using w2(2) log f' so sv ux mbs(5) by (intro exI [of _ w2]) simp
qed

end


subsection \<open>Starting a log over\<close>

lemma metadata_fits:
  fixes t d q :: nat
  assumes "0 < d" "d < t" "q = 8 * t div (8 * d + 1)"
  shows "1 \<le> (q + 7) div 8" "(q + 7) div 8 + d \<le> t"
proof -
  have "8 * d + 1 \<le> 8 * t" using assms(2) by simp
  then have "(8 * d + 1) div (8 * d + 1) \<le> q" unfolding assms(3) by (rule div_le_mono)
  then have q1: "1 \<le> q" by simp
  then show "1 \<le> (q + 7) div 8" by simp
  have qt: "q * (8 * d + 1) \<le> 8 * t" unfolding assms(3) by (rule div_times_less_eq_dividend)
  show "(q + 7) div 8 + d \<le> t"
  proof (cases "q \<le> 8")
    case True
    with q1 have "(q + 7) div 8 = 1" by (intro div_nat_eqI) simp_all
    with assms(2) show ?thesis by simp
  next
    case False
    then have "9 * d \<le> q * d" by (intro mult_le_mono1) simp
    moreover have "q * (8 * d + 1) = 8 * (q * d) + q" by (simp add: algebra_simps)
    moreover have "8 * ((q + 7) div 8) \<le> q + 7" by simp
    ultimately show ?thesis using qt assms(1) by linarith
  qed
qed

lemma mult_16_le: "x \<le> n div 16 \<Longrightarrow> 16 * x \<le> (n :: nat)"
  by (simp add: less_eq_div_iff_mult_less_eq mult.commute)

lemma update_blocks_eq:
  assumes "length (concat es) \<le> 2 ^ 64 - 16"
  shows "update_blocks es = of_nat ((length (concat es) + 15) div 16)"
proof -
  have f: "fold (\<lambda>e s. s + of_nat (length e)) es a = a + (of_nat (length (concat es)) :: u64)" for a
    by (induction es arbitrary: a) (simp_all add: algebra_simps)
  have u: "unat (of_nat (length (concat es)) :: u64) = length (concat es)"
    using assms by (intro unat_of_nat_u64) simp
  have "unat (ALIGN_UP (of_nat (length (concat es))) (2 ^ 4)) = (length (concat es) + 15) div 16 * 16"
    using unat_ALIGN_UP [of 4 "of_nat (length (concat es))"] assms unfolding u by simp
  then have "unat (update_blocks es) = (length (concat es) + 15) div 16"
    by (simp add: update_blocks_def f REGF_BLOCK_GRANULARITY_def unat_bytes_to_block)
  moreover have "unat (of_nat ((length (concat es) + 15) div 16) :: u64) = (length (concat es) + 15) div 16"
    using assms by (intro unat_of_nat_u64) simp
  ultimately show ?thesis by (intro word_eq_unatI) simp
qed

context storage
begin

definition blank :: "'d world \<Rightarrow> region_device \<Rightarrow> bool" where
  "blank w p \<longleftrightarrow> (\<forall>i<dev_size p. dev_byte w p i = 0xFF)"

lemma allocate_metadata_eq:
  assumes "ok w" "on_store p" "rf_rdev f = p" "0 < d" "d < dev_size p div 16" "dev_size p div 16 < 0x80000"
  shows "\<exists>mbs w'. allocate_metadata drv w f (of_nat d) =
      (True, f\<lparr>rf_metadata := metadata_dev p mbs, rf_begin := of_nat mbs, rf_end := of_nat mbs\<rparr>, w') \<and>
    ok w' \<and> 1 \<le> mbs \<and> mbs < 0xFFFF \<and> mbs + d \<le> dev_size p div 16 \<and>
    (\<forall>i<dev_size p. dev_byte w' p i = (if i < 2 then le_bytes 2 (of_nat mbs :: u16) ! i else dev_byte w p i))"
proof -
  let ?t = "dev_size p div 16"
  define q where "q = 8 * ?t div (8 * d + 1)"
  define mbs where "mbs = (q + 7) div 8"
  note fit = metadata_fits [OF assms(4,5) q_def, folded mbs_def]
  have q: "q \<le> 8 * ?t" unfolding q_def by (rule div_le_dividend)
  have "9 * q \<le> q * (8 * d + 1)" using assms(4) by simp
  also have "\<dots> \<le> 8 * ?t" unfolding q_def by (rule div_times_less_eq_dividend)
  finally have "mbs < 65535" unfolding mbs_def using assms(6) by linarith
  with assms(5,6) have lt: "?t < 524288" "d < 524288" "mbs < 65535" by simp_all
  have ud: "unat (of_nat d :: u64) = d" using lt(2) by (intro unat_of_nat_u64) simp
  let ?T = "bytes_to_block (ALIGN_DOWN (region_device_sz (rf_rdev f)) REGF_BLOCK_GRANULARITY)"
  have ut: "unat ?T = ?t"
    using unat_ALIGN_DOWN [of "reg_size (rdev_region p)" 4]
    by (simp add: unat_bytes_to_block region_device_sz_def assms(3) REGF_BLOCK_GRANULARITY_def)
  have m: "bytes_to_block (ALIGN_UP REGF_METADATA_BLOCK_SIZE REGF_BLOCK_GRANULARITY) = 1"
    by (simp add: regf_defs ALIGN_UP_def bytes_to_block_def)
  have ge: "\<not> ?T - 1 < of_nat d"
    using assms(5) ut by (simp add: word_less_nat_alt unat_pred ud)
  have uq: "unat (?T * 8 div (of_nat d * 8 + 1)) = q"
  proof -
    have a: "unat (?T * 8) = 8 * ?t" using lt(1) by (simp add: unat_word_ariths ut)
    have b8: "unat (of_nat d * 8 :: u64) = 8 * d" using lt(2) by (simp add: unat_word_ariths ud)
    then have b: "unat (of_nat d * 8 + 1 :: u64) = 8 * d + 1" using lt(2) by (subst unat_add_no_wrap) simp_all
    show ?thesis by (simp only: unat_div_distrib a b q_def)
  qed
  let ?x0 = "ALIGN_UP (?T * 8 div (of_nat d * 8 + 1)) 8"
  have x0: "unat ?x0 = mbs * 8"
    using unat_ALIGN_UP [of 3 "?T * 8 div (of_nat d * 8 + 1)"] q lt(1) unfolding uq
    by (simp add: mbs_def)
  then have nz: "?x0 \<noteq> 0" using fit(1) by auto
  have x1: "unat (ALIGN_UP ?x0 8) = mbs * 8"
    using unat_ALIGN_UP [of 3 ?x0] lt(3) unfolding x0 by simp
  have y: "ucast (ALIGN_UP ?x0 8 div 8) = (of_nat mbs :: u16)"
  proof (rule word_eq_unatI)
    have "unat (ALIGN_UP ?x0 8 div 8) = mbs" by (simp add: unat_div_distrib x1)
    with lt(3) show "unat (ucast (ALIGN_UP ?x0 8 div 8) :: u16) = unat (of_nat mbs :: u16)"
      by (simp add: unsigned_ucast_eq take_bit_nat_eq_self unat_of_nat_16)
  qed
  have sz: "32 \<le> dev_size p" using assms(4,5) by simp
  have ir: "in_region (rdev_region p) 0 (of_nat (length (le_bytes 2 (of_nat mbs :: u16))))"
    using sz by (simp add: in_region_def)
  have lb: "length (le_bytes 2 (of_nat mbs :: u16)) < 2 ^ 64" by simp
  obtain w' where w': "rdev_writeat drv w p 0 (le_bytes 2 (of_nat mbs :: u16)) = (Some (of_nat 2), w')" "ok w'"
    "\<And>i. i < dev_size p \<Longrightarrow> dev_byte w' p i =
      (if unat (0 :: u64) \<le> i \<and> i < unat (0 :: u64) + 2 then le_bytes 2 (of_nat mbs :: u16) ! (i - unat (0 :: u64))
       else dev_byte w p i)"
    using write_bytes [OF assms(1,2) ir lb, unfolded length_le_bytes] by blast
  have mb: "16 * mbs \<le> dev_size p" using fit(2) by linarith
  have "block_to_bytes (of_nat mbs) = of_nat (16 * mbs)"
    by (rule word_eq_unatI) (use lt(3) in \<open>simp only: unat_block_to_bytes unat_of_nat_16 unat_of_nat_u64\<close>)
  then have c: "rdev_chain p 0 (block_to_bytes (of_nat mbs)) = Some (metadata_dev p mbs)"
    using metadata_facts(1) [OF assms(2) _ mb] fit(1) by simp
  have "allocate_metadata drv w f (of_nat d) =
      (True, f\<lparr>rf_metadata := metadata_dev p mbs, rf_begin := of_nat mbs, rf_end := of_nat mbs\<rparr>, w')"
    unfolding allocate_metadata_def Let_def m if_not_P [OF ge]
    by (simp only: REGF_UPDATES_PER_METADATA_BLOCK_def nz [unfolded assms(3)] if_False
        y [unfolded assms(3)] mult_1 assms(3) w'(1) c
        prod.case option.case)
  with w' fit lt(3) show ?thesis by (intro exI [of _ mbs] exI [of _ w']) simp
qed

text \<open>A blank region takes the metadata and becomes an empty log.\<close>

lemma handle_empty_eq:
  assumes "ok w" "on_store p" "rf_rdev f = p" "0 < d" "d < dev_size p div 16" "dev_size p div 16 < 0x80000"
    and "blank w p"
  shows "\<exists>mbs w'. handle_empty drv w f (of_nat d) = (True, log_file (dev_byte w' p) p mbs 0, w') \<and>
    ok w' \<and> log_ok (dev_byte w' p) (dev_size p) mbs 0 \<and> mbs + d \<le> dev_size p div 16"
proof -
  obtain mbs w' where a: "allocate_metadata drv w f (of_nat d) =
      (True, f\<lparr>rf_metadata := metadata_dev p mbs, rf_begin := of_nat mbs, rf_end := of_nat mbs\<rparr>, w')"
    "ok w'" "1 \<le> mbs" "mbs + d \<le> dev_size p div 16" "mbs < 0xFFFF"
    "\<And>i. i < dev_size p \<Longrightarrow> dev_byte w' p i = (if i < 2 then le_bytes 2 (of_nat mbs :: u16) ! i else dev_byte w p i)"
    using allocate_metadata_eq [OF assms(1-6)] by blast
  have mb: "16 * mbs \<le> dev_size p" "mbs < 65535" using a(4,5) by (linarith, simp)
  have sz: "32 \<le> dev_size p" using assms(4,5) by simp
  have s0: "slot_val (dev_byte w' p) 0 = of_nat mbs"
    by (rule slot_val_le) (use a(6) [of 0] a(6) [of 1] sz in simp_all)
  have ff: "le_value [0xFF, 0xFF] = REGF_UNALLOCATED_BLOCK" by (simp add: REGF_UNALLOCATED_BLOCK_def)
  have un: "slot_val (dev_byte w' p) j = REGF_UNALLOCATED_BLOCK" if "0 < j" "j < 8 * mbs" for j
    using a(6) [of "2 * j"] a(6) [of "2 * j + 1"] that mb(1) assms(7) ff
    by (simp add: slot_val_def blank_def)
  have us: "unat (slot_val (dev_byte w' p) 0) = mbs" using mb(2) by (simp add: s0 unat_of_nat_16)
  have "log_ok (dev_byte w' p) (dev_size p) mbs 0"
    using a(3) mb us un unat_lt_64 [of "reg_size (rdev_region p)"] by (simp add: log_ok_def unallocated_iff)
  moreover have "handle_empty drv w f (of_nat d) = (True, log_file (dev_byte w' p) p mbs 0, w')"
  proof -
    have "f\<lparr>rf_metadata := metadata_dev p mbs, rf_begin := of_nat mbs, rf_end := of_nat mbs,
        rf_slot := RF_ONLY_METADATA\<rparr> = log_file (dev_byte w' p) p mbs 0"
      using assms(3) by (cases f) (simp add: log_file_def s0 RF_ONLY_METADATA_def)
    then show ?thesis by (simp add: handle_empty_def a(1))
  qed
  ultimately show ?thesis using a(2,4) by blast
qed

lemma handle_need_to_empty_eq:
  assumes "ok w" "on_store p" "rf_rdev f = p" "fill = 0xFF"
  shows "\<exists>w'. handle_need_to_empty drv w f = (True, f\<lparr>rf_slot := RF_EMPTY\<rparr>, w') \<and> ok w' \<and> blank w' p"
proof -
  have "reg_size (rdev_region p) \<noteq> 0" using assms(2) by (simp add: on_store_def region_valid_def)
  then have "in_region (rdev_region p) 0 (reg_size (rdev_region p))" by (simp add: in_region_def)
  from erase_bytes [OF assms(1,2) this] obtain w' where
    "rdev_eraseat drv w p 0 (reg_size (rdev_region p)) = (Some (reg_size (rdev_region p)), w')" "ok w'"
    "\<And>i. i < dev_size p \<Longrightarrow> dev_byte w' p i =
      (if unat (0 :: u64) \<le> i \<and> i < unat (0 :: u64) + dev_size p then fill else dev_byte w p i)" by blast
  with assms(3,4) show ?thesis
    by (intro exI [of _ w']) (simp add: handle_need_to_empty_def region_device_sz_def blank_def)
qed

subsection \<open>The update loop\<close>

text \<open>The states an update can start from: a log, a blank region, or one that has to be emptied.\<close>

definition updatable :: "'d world \<Rightarrow> region_device \<Rightarrow> region_file \<Rightarrow> bool" where
  "updatable w p f \<longleftrightarrow>
     (\<exists>mbs s. f = log_file (dev_byte w p) p mbs s \<and> log_ok (dev_byte w p) (dev_size p) mbs s) \<or>
     (rf_rdev f = p \<and> (rf_slot f = RF_EMPTY \<and> blank w p \<or> rf_slot f = RF_NEED_TO_EMPTY))"

text \<open>What an update of \<open>d\<close> blocks leaves behind.\<close>

definition stored :: "'d world \<Rightarrow> region_device \<Rightarrow> region_file \<Rightarrow> u8 list list \<Rightarrow> nat \<Rightarrow> bool" where
  "stored w p f es d \<longleftrightarrow> (\<exists>mbs s. 0 < s \<and> f = log_file (dev_byte w p) p mbs s \<and>
     log_ok (dev_byte w p) (dev_size p) mbs s \<and> unat (rf_end f) = unat (rf_begin f) + d \<and>
     dev_bytes w p (16 * unat (rf_begin f)) (length (concat es)) = concat es)"

lemma loop_append:
  assumes "ok w" "on_store p" "log_ok (dev_byte w p) (dev_size p) mbs s"
    and "Suc s < 8 * mbs" "0 < d" "\<forall>e\<in>set es. e \<noteq> []" "length (concat es) \<le> 16 * d"
    and "unat (slot_val (dev_byte w p) s) + d < 0xFFFF"
    and "16 * (unat (slot_val (dev_byte w p) s) + d) \<le> dev_size p"
  shows "\<exists>f' w'. update_loop drv (of_nat d) es w (log_file (dev_byte w p) p mbs s) = Some (True, f', w') \<and>
    ok w' \<and> stored w' p f' es d"
proof -
  from append_update [OF assms] obtain w' where w': "handle_update drv w (log_file (dev_byte w p) p mbs s) (of_nat d) es =
      (True, log_file (dev_byte w' p) p mbs (Suc s), w')" "ok w'"
    "log_ok (dev_byte w' p) (dev_size p) mbs (Suc s)"
    "slot_val (dev_byte w' p) s = slot_val (dev_byte w p) s"
    "unat (slot_val (dev_byte w' p) (Suc s)) = unat (slot_val (dev_byte w p) s) + d"
    "dev_bytes w' p (16 * unat (slot_val (dev_byte w p) s)) (length (concat es)) = concat es" by blast
  have "update_loop drv (of_nat d) es w (log_file (dev_byte w p) p mbs s) =
      Some (True, log_file (dev_byte w' p) p mbs (Suc s), w')"
    by (subst update_loop.simps) (simp add: update_step_def w'(1) rf_defs, simp add: log_file_def)
  moreover have "stored w' p (log_file (dev_byte w' p) p mbs (Suc s)) es d"
    unfolding stored_def using w' by (intro exI [of _ mbs] exI [of _ "Suc s"]) (simp add: log_file_def)
  ultimately show ?thesis using w'(2) by blast
qed

lemma loop_blank:
  assumes "ok w" "on_store p" "rf_rdev f = p" "rf_slot f = RF_EMPTY" "blank w p"
    and "0 < d" "d < dev_size p div 16" "dev_size p div 16 < 0xFFFF"
    and "\<forall>e\<in>set es. e \<noteq> []" "length (concat es) \<le> 16 * d"
  shows "\<exists>f' w'. update_loop drv (of_nat d) es w f = Some (True, f', w') \<and> ok w' \<and> stored w' p f' es d"
proof -
  have t: "dev_size p div 16 < 0x80000" using assms(8) by simp
  from handle_empty_eq [OF assms(1-3,6,7) t assms(5)] obtain mbs w1 where h:
    "handle_empty drv w f (of_nat d) = (True, log_file (dev_byte w1 p) p mbs 0, w1)" "ok w1"
    "log_ok (dev_byte w1 p) (dev_size p) mbs 0" "mbs + d \<le> dev_size p div 16" by blast
  have e: "unat (slot_val (dev_byte w1 p) 0) = mbs" "1 \<le> mbs" using h(3) by (simp_all add: log_ok_def)
  have s: "update_loop drv (of_nat d) es w f = update_loop drv (of_nat d) es w1 (log_file (dev_byte w1 p) p mbs 0)"
    by (subst update_loop.simps) (simp add: update_step_def assms(4) h(1), simp add: log_file_def rf_defs)
  have "16 * (mbs + d) \<le> dev_size p" by (rule mult_16_le [OF h(4)])
  moreover have "mbs + d < 0xFFFF" using h(4) assms(8) by linarith
  ultimately show ?thesis
    unfolding s using h(3) e by (intro loop_append [OF h(2) assms(2) h(3) _ assms(6,9,10)]) simp_all
qed

lemma loop_need_to_empty:
  assumes "ok w" "on_store p" "rf_rdev f = p" "rf_slot f = RF_NEED_TO_EMPTY" "fill = 0xFF"
    and "0 < d" "d < dev_size p div 16" "dev_size p div 16 < 0xFFFF"
    and "\<forall>e\<in>set es. e \<noteq> []" "length (concat es) \<le> 16 * d"
  shows "\<exists>f' w'. update_loop drv (of_nat d) es w f = Some (True, f', w') \<and> ok w' \<and> stored w' p f' es d"
proof -
  from handle_need_to_empty_eq [OF assms(1-3,5)] obtain w1 where h:
    "handle_need_to_empty drv w f = (True, f\<lparr>rf_slot := RF_EMPTY\<rparr>, w1)" "ok w1" "blank w1 p" by blast
  have s: "update_loop drv (of_nat d) es w f = update_loop drv (of_nat d) es w1 (f\<lparr>rf_slot := RF_EMPTY\<rparr>)"
    by (subst update_loop.simps) (simp add: update_step_def assms(4) h(1), simp add: rf_defs)
  show ?thesis unfolding s
    by (rule loop_blank [OF h(2) assms(2) _ _ h(3) assms(6-10)]) (simp_all add: assms(3))
qed

lemma update_stores:
  assumes "ok w" "on_store p" "updatable w p f" "fill = 0xFF"
    and "0 < d" "d < dev_size p div 16" "dev_size p div 16 < 0xFFFF"
    and "\<forall>e\<in>set es. e \<noteq> []" "length (concat es) \<le> 16 * d"
  shows "\<exists>f' w'. update_loop drv (of_nat d) es w f = Some (True, f', w') \<and> ok w' \<and> stored w' p f' es d"
proof -
  consider (log) mbs s where "f = log_file (dev_byte w p) p mbs s" "log_ok (dev_byte w p) (dev_size p) mbs s"
    | (blank) "rf_rdev f = p" "rf_slot f = RF_EMPTY" "blank w p"
    | (full) "rf_rdev f = p" "rf_slot f = RF_NEED_TO_EMPTY" using assms(3) by (auto simp: updatable_def)
  then show ?thesis
  proof cases
    case blank
    then show ?thesis using loop_blank [OF assms(1,2) _ _ _ assms(5-9)] by blast
  next
    case full
    then show ?thesis using loop_need_to_empty [OF assms(1,2) _ _ assms(4-9)] by blast
  next
    case (log mbs s)
    show ?thesis
    proof (cases "update_can_fit f (of_nat d)")
      case False
      have s: "update_loop drv (of_nat d) es w f = update_loop drv (of_nat d) es w (f\<lparr>rf_slot := RF_NEED_TO_EMPTY\<rparr>)"
        using log(1) False
        by (subst update_loop.simps) (simp add: update_step_def handle_update_def, simp add: log_file_def rf_defs)
      have "rf_rdev f = p" using log(1) by (simp add: log_file_def)
      then show ?thesis unfolding s
        by (intro loop_need_to_empty [OF assms(1,2) _ _ assms(4-9)]) simp_all
    next
      case True
      have l: "d < 0x80000" using assms(6,7) by simp
      have c: "Suc s < 8 * mbs" "unat (slot_val (dev_byte w p) s) + d < 0xFFFF"
        "unat (slot_val (dev_byte w p) s) + d \<le> dev_size p div 16"
        using can_fit_iff [OF assms(2) log(2) l] True log(1) by simp_all
      have "16 * (unat (slot_val (dev_byte w p) s) + d) \<le> dev_size p" by (rule mult_16_le [OF c(3)])
      then show ?thesis unfolding log(1)
        by (rule loop_append [OF assms(1,2) log(2) c(1) assms(5,8,9) c(2)])
    qed
  qed
qed

text \<open>Reading the latest data back.\<close>

lemma stored_data:
  assumes "ok w" "on_store p" "stored w p f es d" "0 < d" "length (concat es) \<le> 16 * d" "0 < length (concat es)"
  shows "\<exists>c. region_file_data f = Some c \<and> region_device_sz c = of_nat (16 * d) \<and>
    rdev_readat drv w c 0 (of_nat (length (concat es))) = Some (concat es)"
proof -
  obtain mbs s where l: "0 < s" "f = log_file (dev_byte w p) p mbs s" "log_ok (dev_byte w p) (dev_size p) mbs s"
    "unat (rf_end f) = unat (rf_begin f) + d"
    "dev_bytes w p (16 * unat (rf_begin f)) (length (concat es)) = concat es"
    using assms(3) by (auto simp: stored_def)
  have e: "16 * unat (rf_end f) \<le> dev_size p" using l(2,3) by (simp add: log_ok_def log_file_def)
  have d: "16 * d < 18446744073709551616" "length (concat es) < 18446744073709551616"
    using l(4) unat_u16_lt [of "rf_end f"] assms(5) by simp_all
  let ?off = "block_to_bytes (rf_begin f)"
  have sz: "block_to_bytes (rf_end f) - ?off = of_nat (16 * d)"
    by (rule word_eq_unatI) (subst unat_sub_no_wrap, simp_all only: unat_block_to_bytes l(4) unat_of_nat_u64 [OF d(1)], simp_all)
  note ud = unat_of_nat_u64 [OF d(1)] and ul = unat_of_nat_u64 [OF d(2)]
  have nz: "of_nat (16 * d) \<noteq> (0 :: u64)" using ud assms(4) by (metis mult_eq_0_iff not_gr_zero unat_0 zero_neq_numeral)
  have nl: "of_nat (length (concat es)) \<noteq> (0 :: u64)" using ul assms(6) by (metis less_numeral_extra(3) unat_0)
  have "unat ?off + unat (of_nat (16 * d) :: u64) \<le> dev_size p"
    using e l(4) by (simp only: ud unat_block_to_bytes) simp
  with nz have "in_region (rdev_region p) ?off (of_nat (16 * d))" by (simp only: in_region_def) simp
  from chain_on_store [OF assms(2) this] obtain c where c: "rdev_chain p ?off (of_nat (16 * d)) = Some c" "on_store c"
    "rdev_region c = mk_region (?off + reg_offset (rdev_region p)) (of_nat (16 * d))"
    "\<And>w i. dev_byte w c i = dev_byte w p (unat ?off + i)" by blast
  have "in_region (rdev_region c) 0 (of_nat (length (concat es)))"
    using nl assms(5) by (simp only: in_region_def c(3) mk_region_simps ud ul) simp
  from read_bytes [OF assms(1) c(2) this]
  have "rdev_readat drv w c 0 (of_nat (length (concat es))) =
      Some (dev_bytes w p (16 * unat (rf_begin f)) (length (concat es)))"
    by (simp only: ul) (simp add: dev_bytes_def c(4) unat_block_to_bytes)
  with l c(1,3) sz show ?thesis
    by (intro exI [of _ c]) (simp add: region_file_data_def log_file_def RF_ONLY_METADATA_def Let_def region_device_sz_def)
qed

text \<open>An update too large for 16-bit block offsets empties the region over and over.\<close>

lemma step_too_large:
  assumes "ok w" "on_store p" "updatable w p f" "fill = 0xFF"
    and "0xFFFE \<le> d" "d < dev_size p div 16" "dev_size p div 16 < 0x80000"
  shows "\<exists>f' w'. update_step drv w f (of_nat d) es = (True, f', w') \<and> ok w' \<and> updatable w' p f' \<and>
    \<not> RF_ONLY_METADATA < rf_slot f'"
proof -
  consider (log) mbs s where "f = log_file (dev_byte w p) p mbs s" "log_ok (dev_byte w p) (dev_size p) mbs s"
    | (blank) "rf_rdev f = p" "rf_slot f = RF_EMPTY" "blank w p"
    | (full) "rf_rdev f = p" "rf_slot f = RF_NEED_TO_EMPTY" using assms(3) by (auto simp: updatable_def)
  then show ?thesis
  proof cases
    case (log mbs s)
    have l: "d < 0x80000" using assms(6,7) by simp
    have "1 \<le> unat (slot_val (dev_byte w p) s)" using log(2) by (simp add: log_ok_def)
    with can_fit_iff [OF assms(2) log(2) l] assms(5) have "\<not> update_can_fit f (of_nat d)" using log(1) by simp
    moreover have "rf_rdev f = p" "rf_slot f = int s" using log(1) by (simp_all add: log_file_def)
    ultimately show ?thesis
      using assms(1) by (simp add: update_step_def handle_update_def rf_defs updatable_def)
  next
    case blank
    have "0 < d" using assms(5) by simp
    from handle_empty_eq [OF assms(1,2) blank(1) this assms(6,7) blank(3)] obtain mbs w1 where
      "handle_empty drv w f (of_nat d) = (True, log_file (dev_byte w1 p) p mbs 0, w1)" "ok w1"
      "log_ok (dev_byte w1 p) (dev_size p) mbs 0" by blast
    with blank(2) show ?thesis
      by (auto simp: update_step_def rf_defs updatable_def log_file_def)
  next
    case full
    from handle_need_to_empty_eq [OF assms(1,2) full(1) assms(4)] obtain w1 where
      "handle_need_to_empty drv w f = (True, f\<lparr>rf_slot := RF_EMPTY\<rparr>, w1)" "ok w1" "blank w1 p" by blast
    with full show ?thesis by (simp add: update_step_def rf_defs updatable_def)
  qed
qed

lemma update_too_large:
  assumes "ok w" "on_store p" "updatable w p f" "fill = 0xFF"
    and "0xFFFE \<le> d" "d < dev_size p div 16" "dev_size p div 16 < 0x80000"
  shows "update_loop drv (of_nat d) es w f = None"
proof -
  have never: "dr = drv \<longrightarrow> b = of_nat d \<longrightarrow> ok w \<longrightarrow> updatable w p f \<longrightarrow> False"
    if "update_loop dr b es w f = Some r" for dr b es w f r
  proof (rule update_loop.raw_induct [OF _ that], intro impI)
    fix rec dr b es w f r
    assume IH: "\<And>dr b es w f r. rec dr b es w f = Some r \<Longrightarrow>
        dr = drv \<longrightarrow> b = of_nat d \<longrightarrow> ok w \<longrightarrow> updatable w p f \<longrightarrow> False"
      and r: "(case update_step dr w f b es of (ok, f', w') \<Rightarrow>
          if \<not> ok then Some (False, f'\<lparr>rf_slot := RF_FATAL\<rparr>, w')
          else if RF_ONLY_METADATA < rf_slot f' \<and> rf_slot f \<noteq> rf_slot f' then Some (True, f', w')
          else rec dr b es w' f') = Some r"
      and h: "dr = drv" "b = of_nat d" "ok w" "updatable w p f"
    from step_too_large [OF h(3) assms(2) h(4) assms(4-7), of es] obtain f' w' where
      "update_step drv w f (of_nat d) es = (True, f', w')" "ok w'" "updatable w' p f'"
      "\<not> RF_ONLY_METADATA < rf_slot f'" by blast
    with r h(1,2) IH [of drv "of_nat d" es w' f' r] show False by simp
  qed
  with assms(1,3) show ?thesis using never [of drv "of_nat d" es w f]
    by (cases "update_loop drv (of_nat d) es w f") blast+
qed

end


lemma padded_blocks:
  assumes "\<forall>e\<in>set es. e \<noteq> []" "es \<noteq> []"
  shows "0 < length (concat es)" "0 < (length (concat es) + 15) div 16"
    and "length (concat es) \<le> 16 * ((length (concat es) + 15) div 16)"
proof -
  show l: "0 < length (concat es)" using assms by (cases es) auto
  have "16 \<le> length (concat es) + 15" using l by linarith
  then have "16 div 16 \<le> (length (concat es) + 15) div 16" by (rule div_le_mono)
  then show "0 < (length (concat es) + 15) div 16" by simp
  show "length (concat es) \<le> 16 * ((length (concat es) + 15) div 16)"
    using div_mult_mod_eq [of "length (concat es) + 15" 16] mod_less_divisor [of 16 "length (concat es) + 15"]
    by linarith
qed

context storage
begin

lemma after_update:
  assumes "ok w" "on_store p" "stored w p f es d" "0 < d" "length (concat es) \<le> 16 * d" "0 < length (concat es)"
  shows "region_file_init drv w p = (True, f) \<and> updatable w p f \<and>
    (\<exists>c. region_file_data f = Some c \<and> region_device_sz c = of_nat (16 * d) \<and>
      rdev_readat drv w c 0 (of_nat (length (concat es))) = Some (concat es))"
proof -
  from assms(3) obtain mbs s where l: "f = log_file (dev_byte w p) p mbs s"
    "log_ok (dev_byte w p) (dev_size p) mbs s" by (auto simp: stored_def)
  show ?thesis
    using init_recovers [OF assms(1,2) l(2)] l stored_data [OF assms] by (auto simp: updatable_def)
qed

lemma small_update:
  assumes "(length (concat es) + 15) div 16 < dev_size p div 16"
  shows "update_blocks es = of_nat ((length (concat es) + 15) div 16)"
proof (rule update_blocks_eq)
  have "length (concat es) + 15 < 16 * (dev_size p div 16)" using assms by (simp add: div_less_iff_less_mult mult.commute)
  also have "\<dots> \<le> dev_size p" by simp
  finally show "length (concat es) \<le> 2 ^ 64 - 16" using unat_lt_64 [of "reg_size (rdev_region p)"] by simp
qed

lemma update_persists:
  assumes "ok w" "on_store p" "updatable w p f" "fill = 0xFF" "\<forall>e\<in>set es. e \<noteq> []" "es \<noteq> []"
    and "(length (concat es) + 15) div 16 < dev_size p div 16" "dev_size p div 16 < 0xFFFF"
  shows "\<exists>f' w'. region_file_update_data_arr drv w f es = Some (True, f', w') \<and> ok w' \<and>
    region_file_init drv w' p = (True, f') \<and> updatable w' p f' \<and>
    (\<exists>c. region_file_data f' = Some c \<and>
      region_device_sz c = of_nat (16 * ((length (concat es) + 15) div 16)) \<and>
      rdev_readat drv w' c 0 (of_nat (length (concat es))) = Some (concat es))"
proof -
  note b = padded_blocks [OF assms(5,6)]
  from update_stores [OF assms(1-4) b(2) assms(7,8,5) b(3)] obtain f' w' where u:
    "update_loop drv (of_nat ((length (concat es) + 15) div 16)) es w f = Some (True, f', w')" "ok w'"
    "stored w' p f' es ((length (concat es) + 15) div 16)" by blast
  have "region_file_update_data_arr drv w f es = Some (True, f', w')"
    using u(1) by (simp add: region_file_update_data_arr_def small_update [OF assms(7)])
  with after_update [OF u(2) assms(2) u(3) b(2,3,1)] u(2) show ?thesis by blast
qed

lemma append_persists:
  assumes "ok w" "on_store p" "log_ok (dev_byte w p) (dev_size p) mbs s" "\<forall>e\<in>set es. e \<noteq> []" "es \<noteq> []"
    and "(length (concat es) + 15) div 16 < dev_size p div 16" "Suc s < 8 * mbs"
    and "unat (slot_val (dev_byte w p) s) + (length (concat es) + 15) div 16 < 0xFFFF"
    and "unat (slot_val (dev_byte w p) s) + (length (concat es) + 15) div 16 \<le> dev_size p div 16"
  shows "\<exists>f' w'. region_file_update_data_arr drv w (log_file (dev_byte w p) p mbs s) es = Some (True, f', w') \<and>
    ok w' \<and> region_file_init drv w' p = (True, f') \<and>
    (\<exists>c. region_file_data f' = Some c \<and>
      rdev_readat drv w' c 0 (of_nat (length (concat es))) = Some (concat es))"
proof -
  note b = padded_blocks [OF assms(4,5)]
  from loop_append [OF assms(1-3,7) b(2) assms(4) b(3) assms(8) mult_16_le [OF assms(9)]] obtain f' w' where u:
    "update_loop drv (of_nat ((length (concat es) + 15) div 16)) es w (log_file (dev_byte w p) p mbs s) =
       Some (True, f', w')" "ok w'"
    "stored w' p f' es ((length (concat es) + 15) div 16)" by blast
  have "region_file_update_data_arr drv w (log_file (dev_byte w p) p mbs s) es = Some (True, f', w')"
    using u(1) by (simp add: region_file_update_data_arr_def small_update [OF assms(6)])
  with after_update [OF u(2) assms(2) u(3) b(2,3,1)] u(2) show ?thesis by blast
qed

lemma oversized_never_returns:
  assumes "ok w" "on_store p" "updatable w p f" "fill = 0xFF"
    and "0xFFFE \<le> (length (concat es) + 15) div 16"
    and "(length (concat es) + 15) div 16 < dev_size p div 16" "dev_size p div 16 < 0x80000"
  shows "region_file_update_data_arr drv w f es = None"
  using update_too_large [OF assms] by (simp add: region_file_update_data_arr_def small_update [OF assms(6)])

end

subsection \<open>Properties\<close>

text \<open>A NOR flash of 4 KiB as a driver: erasing sets all bits, reads and writes copy bytes.\<close>

definition nor_driver :: "(nat \<Rightarrow> u8) driver" where
  "nor_driver = \<lparr>drv_mmap = None, drv_munmap = None,
     drv_readat = (\<lambda>i d off n. Some (map (\<lambda>j. d (unat off + j)) [0..<unat n])),
     drv_writeat = Some (\<lambda>i d off bs. (Some (of_nat (length bs)),
       \<lambda>j. if unat off \<le> j \<and> j < unat off + length bs then bs ! (j - unat off) else d j)),
     drv_eraseat = Some (\<lambda>i d off n. (Some n,
       \<lambda>j. if unat off \<le> j \<and> j < unat off + unat n then 0xFF else d j))\<rparr>"

definition nor_device :: "size_t \<Rightarrow> region_device" where
  "nor_device sz = region_device_init 3 (DriverDev 0) 0 sz"

definition blank_nor :: "(nat \<Rightarrow> u8) world" where
  "blank_nor = \<lparr>wmem = (\<lambda>_. 0), wdrv = (\<lambda>_. 0xFF)\<rparr>"

lemma nor_storage: "storage nor_driver (DriverDev 0) (\<lambda>w. wdrv w) (2 ^ 63) 0xFF (\<lambda>_. True)"
  by unfold_locales (auto simp: nor_driver_def)

lemma nor_on_store: "sz \<noteq> 0 \<Longrightarrow> unat sz \<le> 2 ^ 63 \<Longrightarrow> storage.on_store (DriverDev 0) (2 ^ 63) (nor_device sz)"
  unfolding storage.on_store_def [OF nor_storage]
  by (simp add: nor_device_def region_device_init_def region_valid_def)

lemma nor_blank: "storage.blank (\<lambda>w. wdrv w) blank_nor p"
  by (simp add: storage.blank_def [OF nor_storage] storage.dev_byte_def [OF nor_storage] blank_nor_def)

lemma nor_updatable:
  "storage.updatable (\<lambda>w. wdrv w) blank_nor p
    \<lparr>rf_rdev = p, rf_metadata = null_rdev, rf_begin = 0, rf_end = 0, rf_slot = RF_EMPTY\<rparr>"
  by (simp add: storage.updatable_def [OF nor_storage] nor_blank)

text \<open>C15: power-cycle recovery. Opening a well-formed log finds the latest update by binary search over
  the metadata blocks: the structure it returns names the last allocated slot and the boundaries of
  its data, whatever the storage below.\<close>

theorem region_file_init_recovers:
  assumes "storage drv kind cell cap fill ok" "ok w" "storage.on_store kind cap p"
    and "log_ok (storage.dev_byte cell w p) (unat (reg_size (rdev_region p))) mbs s"
  shows "region_file_init drv w p = (True, log_file (storage.dev_byte cell w p) p mbs s)"
  by (rule storage.init_recovers [OF assms])

definition sample_log :: "nat \<Rightarrow> u8" where
  "sample_log = (\<lambda>i. if i = 0 then 1 else if i = 1 then 0 else if i = 2 then 3 else if i = 3 then 0 else 0xFF)"

lemma sample_slots:
  "slot_val sample_log 0 = 1" "slot_val sample_log 1 = 3" "1 < j \<Longrightarrow> slot_val sample_log j = 0xFFFF"
  by (auto simp: slot_val_def sample_log_def)

lemma sample_log_ok: "log_ok sample_log 0x1000 1 1"
proof -
  have "slot_val sample_log j \<noteq> REGF_UNALLOCATED_BLOCK" if "j \<le> 1" for j
    using that sample_slots by (cases "j = 0") (auto simp: REGF_UNALLOCATED_BLOCK_def le_Suc_eq)
  then show ?thesis using sample_slots by (simp add: log_ok_def REGF_UNALLOCATED_BLOCK_def)
qed

theorem region_file_init_recovers_witness:
  "region_file_init nor_driver (blank_nor\<lparr>wdrv := sample_log\<rparr>) (nor_device 0x1000) =
    (True, log_file sample_log (nor_device 0x1000) 1 1)"
proof -
  let ?p = "nor_device 0x1000" and ?w = "blank_nor\<lparr>wdrv := sample_log\<rparr>"
  have b: "storage.dev_byte (\<lambda>w. wdrv w) ?w ?p = sample_log"
    by (simp add: storage.dev_byte_def [OF nor_storage] nor_device_def region_device_init_def fun_eq_iff)
  have s: "unat (reg_size (rdev_region ?p)) = 0x1000" by (simp add: nor_device_def region_device_init_def)
  have "log_ok (storage.dev_byte (\<lambda>w. wdrv w) ?w ?p) (unat (reg_size (rdev_region ?p))) 1 1"
    unfolding b s by (rule sample_log_ok)
  from region_file_init_recovers [OF nor_storage _ nor_on_store this] show ?thesis unfolding b by simp
qed

text \<open>C4: on storage that erases to \<open>0xff\<close>, an update started from a well-formed log, a blank region or
  a region that must be emptied always terminates with success when it can fit at all. Opening the
  region again recovers exactly the returned state, the data reads back as the concatenation of the
  entries, padded to 16-byte blocks, and the result is a state further updates can start from.\<close>

theorem region_file_update_persists:
  assumes "storage drv kind cell cap 0xFF ok" "ok w" "storage.on_store kind cap p"
    and "storage.updatable cell w p f" "\<forall>e\<in>set es. e \<noteq> []" "es \<noteq> []"
    and "(length (concat es) + 15) div 16 < unat (reg_size (rdev_region p)) div 16"
    and "unat (reg_size (rdev_region p)) div 16 < 0xFFFF"
  shows "\<exists>f' w'. region_file_update_data_arr drv w f es = Some (True, f', w') \<and> ok w' \<and>
    region_file_init drv w' p = (True, f') \<and> storage.updatable cell w' p f' \<and>
    (\<exists>c. region_file_data f' = Some c \<and>
      region_device_sz c = of_nat (16 * ((length (concat es) + 15) div 16)) \<and>
      rdev_readat drv w' c 0 (of_nat (length (concat es))) = Some (concat es))"
  by (rule storage.update_persists [OF assms(1-4) refl assms(5-8)])

theorem region_file_update_persists_witness:
  "\<exists>f' w' c. region_file_update_data_arr nor_driver blank_nor
      \<lparr>rf_rdev = nor_device 0x1000, rf_metadata = null_rdev, rf_begin = 0, rf_end = 0, rf_slot = RF_EMPTY\<rparr>
      [[1, 2], [3]] = Some (True, f', w') \<and>
    region_file_init nor_driver w' (nor_device 0x1000) = (True, f') \<and> region_file_data f' = Some c \<and>
    rdev_readat nor_driver w' c 0 3 = Some [1, 2, 3]"
proof -
  have s: "unat (reg_size (rdev_region (nor_device 0x1000))) = 0x1000"
    by (simp add: nor_device_def region_device_init_def)
  have "storage.on_store (DriverDev 0) (2 ^ 63) (nor_device 0x1000)" by (rule nor_on_store) simp_all
  from region_file_update_persists [OF nor_storage _ this nor_updatable, of "[[1, 2], [3]]"] show ?thesis
    unfolding s by fastforce
qed

text \<open>On a memory-mapped device, an update that fits after the current one is appended: opening the
  region again recovers the returned state and the data reads back.\<close>

theorem region_file_append_memory:
  assumes "mem_store.on_store base p"
    and "log_ok (mem_store.dev_byte base w p) (unat (reg_size (rdev_region p))) mbs s"
    and "\<forall>e\<in>set es. e \<noteq> []" "es \<noteq> []"
    and "(length (concat es) + 15) div 16 < unat (reg_size (rdev_region p)) div 16" "Suc s < 8 * mbs"
    and "unat (slot_val (mem_store.dev_byte base w p) s) + (length (concat es) + 15) div 16 < 0xFFFF"
    and "unat (slot_val (mem_store.dev_byte base w p) s) + (length (concat es) + 15) div 16
      \<le> unat (reg_size (rdev_region p)) div 16"
  shows "\<exists>f' w'. region_file_update_data_arr drv w (log_file (mem_store.dev_byte base w p) p mbs s) es =
      Some (True, f', w') \<and> region_file_init drv w' p = (True, f') \<and>
    (\<exists>c. region_file_data f' = Some c \<and>
      rdev_readat drv w' c 0 (of_nat (length (concat es))) = Some (concat es))"
  using mem_store.append_persists [OF TrueI assms] by blast

definition sample_mem :: "(nat \<Rightarrow> u8) world" where
  "sample_mem = \<lparr>wmem = (\<lambda>a. sample_log (unat (a - 0x10000))), wdrv = (\<lambda>_. 0)\<rparr>"

lemma sample_mem_log:
  "log_ok (mem_store.dev_byte 0x10000 sample_mem (mem_region_device_rw_init 7 0x10000 0x1000)) 0x1000 1 1"
  "slot_val (mem_store.dev_byte 0x10000 sample_mem (mem_region_device_rw_init 7 0x10000 0x1000)) 1 = 3"
proof -
  let ?B = "mem_store.dev_byte 0x10000 sample_mem (mem_region_device_rw_init 7 0x10000 0x1000)"
  have "?B i = sample_log i" if "i < 0x1000" for i
    using that by (simp add: mem_store.dev_byte_def sample_mem_def mem_region_device_rw_init_def
        region_device_init_def unat_of_nat_lt)
  then have sl: "slot_val ?B j = slot_val sample_log j" if "j < 8" for j
    using that by (intro slot_val_cong) simp_all
  show "slot_val ?B 1 = 3" using sl [of 1] sample_slots by simp
  have "slot_val ?B j \<noteq> REGF_UNALLOCATED_BLOCK" if "j \<le> 1" for j
    using sl [of j] that sample_slots by (cases "j = 0") (auto simp: REGF_UNALLOCATED_BLOCK_def le_Suc_eq)
  moreover have "slot_val ?B j = REGF_UNALLOCATED_BLOCK" if "1 < j \<and> j < 8" for j
    using sl [of j] that sample_slots(3) [of j] by (simp add: REGF_UNALLOCATED_BLOCK_def)
  ultimately show "log_ok ?B 0x1000 1 1"
    using sl [of 0] sl [of 1] sample_slots by (simp add: log_ok_def)
qed

text \<open>An update of more than 1 MiB less 48 bytes cannot be expressed in 16-bit block offsets. On a
  region large enough to hold it the code does not report an error: the update loop empties the
  region, allocates metadata, finds that the update does not fit, and starts over for ever.\<close>

theorem region_file_oversized_hangs:
  assumes "storage drv kind cell cap 0xFF ok" "ok w" "storage.on_store kind cap p"
    and "storage.updatable cell w p f"
    and "0xFFFE \<le> (length (concat es) + 15) div 16"
    and "(length (concat es) + 15) div 16 < unat (reg_size (rdev_region p)) div 16"
    and "unat (reg_size (rdev_region p)) div 16 < 0x80000"
  shows "region_file_update_data_arr drv w f es = None"
  by (rule storage.oversized_never_returns [OF assms(1-4) refl assms(5-7)])

end
