(* ===== verification/Imd.thy ===== *)
theory Imd
  imports Memory "HOL-Library.Multiset"
begin

text \<open>
  The in-memory directory of \<^verbatim>\<open>src/lib/imd.c\<close>, the allocator behind CBMEM: a root block just below an
  upper limit, with a table of entries, and allocations that grow downwards below it. The directory
  lives in memory (\<open>load32\<close> and \<open>store32\<close> at the offsets of the packed structures of
  \<^verbatim>\<open>src/include/imd_private.h\<close>), so that a later boot stage can recover it from the bytes alone; a handle
  only remembers the limit and the address of the root. Pointers are addresses, with 0 for \<^verbatim>\<open>NULL\<close> in a
  handle and \<open>None\<close> for a returned \<^verbatim>\<open>NULL\<close>. \<^verbatim>\<open>assert\<close> only prints in the configuration modelled here
  (\<^verbatim>\<open>FATAL_ASSERTS\<close> unset), and so do \<^verbatim>\<open>imd_print_entries\<close> and \<^verbatim>\<open>imdr_print_entries\<close>, which are left out.
\<close>

unbundle bit_operations_syntax

subsection \<open>Structures in memory\<close>

definition IMD_ROOT_PTR_MAGIC :: u32 where "IMD_ROOT_PTR_MAGIC = 0xc0389481"
definition IMD_ENTRY_MAGIC :: u32 where "IMD_ENTRY_MAGIC = NOT 0xc0389481"
definition IMD_FLAG_LOCKED :: u32 where "IMD_FLAG_LOCKED = 1"
definition LIMIT_ALIGN :: u64 where "LIMIT_ALIGN = 4096"
definition CBMEM_ID_IMD_ROOT :: u32 where "CBMEM_ID_IMD_ROOT = 0xff4017ff"
definition SMALL_REGION_ID :: u32 where "SMALL_REGION_ID = 0x53a11439"

text \<open>\<^verbatim>\<open>struct imd_root_pointer\<close> is 8 bytes, \<^verbatim>\<open>struct imd_root\<close> 20, and \<^verbatim>\<open>struct imd_entry\<close> 16.\<close>

definition rp_magic :: "memory \<Rightarrow> addr \<Rightarrow> u32" where "rp_magic m rp = load32 m rp"
definition rp_root_offset :: "memory \<Rightarrow> addr \<Rightarrow> u32" where "rp_root_offset m rp = load32 m (rp + 4)"

definition r_max_entries :: "memory \<Rightarrow> addr \<Rightarrow> u32" where "r_max_entries m r = load32 m r"
definition r_num_entries :: "memory \<Rightarrow> addr \<Rightarrow> u32" where "r_num_entries m r = load32 m (r + 4)"
definition r_flags :: "memory \<Rightarrow> addr \<Rightarrow> u32" where "r_flags m r = load32 m (r + 8)"
definition r_entry_align :: "memory \<Rightarrow> addr \<Rightarrow> u32" where "r_entry_align m r = load32 m (r + 12)"
definition r_max_offset :: "memory \<Rightarrow> addr \<Rightarrow> u32" where "r_max_offset m r = load32 m (r + 16)"

definition root_entry :: "addr \<Rightarrow> u64 \<Rightarrow> addr" where "root_entry r i = r + 20 + 16 * i"

definition e_magic :: "memory \<Rightarrow> addr \<Rightarrow> u32" where "e_magic m e = load32 m e"
definition e_start_offset :: "memory \<Rightarrow> addr \<Rightarrow> u32" where "e_start_offset m e = load32 m (e + 4)"
definition e_size :: "memory \<Rightarrow> addr \<Rightarrow> u32" where "e_size m e = load32 m (e + 8)"
definition e_id :: "memory \<Rightarrow> addr \<Rightarrow> u32" where "e_id m e = load32 m (e + 12)"

record imdr =
  imd_limit :: addr
  imd_r :: addr

record imd =
  imd_lg :: imdr
  imd_sm :: imdr

record imd_cursor =
  current_imdr :: size_t
  current_entry :: size_t

subsection \<open>One region\<close>

definition relative_pointer :: "addr \<Rightarrow> u64 \<Rightarrow> addr" where
  "relative_pointer base off = base + off"

definition imd_root_pointer_valid :: "memory \<Rightarrow> addr \<Rightarrow> bool" where
  "imd_root_pointer_valid m rp \<longleftrightarrow> rp_magic m rp = IMD_ROOT_PTR_MAGIC"

definition imdr_root :: "imdr \<Rightarrow> addr" where
  "imdr_root d = imd_r d"

definition imdr_get_root_pointer :: "imdr \<Rightarrow> addr" where
  "imdr_get_root_pointer d = relative_pointer (imd_limit d) (- 8)"

definition imd_link_root :: "memory \<Rightarrow> addr \<Rightarrow> addr \<Rightarrow> memory" where
  "imd_link_root m rp r = store32 (store32 m rp IMD_ROOT_PTR_MAGIC) (rp + 4) (ucast (r - rp))"

definition root_last_entry :: "memory \<Rightarrow> addr \<Rightarrow> addr" where
  "root_last_entry m r = root_entry r (ucast (r_num_entries m r - 1))"

definition root_num_entries :: "size_t \<Rightarrow> size_t" where
  "root_num_entries root_size = (root_size - 8 - 20) div 16"

definition imd_root_data_left :: "memory \<Rightarrow> addr \<Rightarrow> size_t" where
  "imd_root_data_left m r =
     (let last_entry = root_last_entry m r
      in if r_max_offset m r \<noteq> 0 then scast (e_start_offset m last_entry - r_max_offset m r)
         else NOT 0)"

definition root_is_locked :: "memory \<Rightarrow> addr \<Rightarrow> bool" where
  "root_is_locked m r \<longleftrightarrow> r_flags m r AND IMD_FLAG_LOCKED \<noteq> 0"

definition imd_entry_assign :: "memory \<Rightarrow> addr \<Rightarrow> u32 \<Rightarrow> u64 \<Rightarrow> size_t \<Rightarrow> memory" where
  "imd_entry_assign m e ident off size1 =
     store32 (store32 (store32 (store32 m e IMD_ENTRY_MAGIC) (e + 4) (ucast off)) (e + 8) (ucast size1))
       (e + 12) ident"

definition imdr_init :: "addr \<Rightarrow> imdr" where
  "imdr_init upper_limit = \<lparr>imd_limit = ALIGN_DOWN upper_limit LIMIT_ALIGN, imd_r = 0\<rparr>"

definition imdr_create_empty :: "memory \<Rightarrow> imdr \<Rightarrow> size_t \<Rightarrow> size_t \<Rightarrow> bool \<times> memory \<times> imdr" where
  "imdr_create_empty m d root_size entry_align =
     (if imd_limit d = 0 then (False, m, d)
      else if root_size < 8 + 20 + 16 then (False, m, d)
      else if LIMIT_ALIGN < root_size \<or> LIMIT_ALIGN < entry_align then (False, m, d)
      else if root_size < entry_align then (False, m, d)
      else let rp = imdr_get_root_pointer d;
               r = relative_pointer (imd_limit d) (- root_size);
               m1 = imd_link_root m rp r;
               m2 = memset_bytes m1 r 0 20;
               m3 = store32 m2 (r + 12) (ucast entry_align);
               m4 = store32 m3 r (ucast (root_num_entries root_size));
               m5 = store32 m4 (r + 4) 1
           in (True, imd_entry_assign m5 (root_entry r 0) CBMEM_ID_IMD_ROOT 0 root_size,
               d\<lparr>imd_r := r\<rparr>))"

fun recover_entries :: "memory \<Rightarrow> addr \<Rightarrow> addr \<Rightarrow> addr \<Rightarrow> u64 \<Rightarrow> nat \<Rightarrow> bool" where
  "recover_entries m r low_limit limit i 0 = True"
| "recover_entries m r low_limit limit i (Suc k) =
     (let e = root_entry r i
      in if e_magic m e \<noteq> IMD_ENTRY_MAGIC then False
         else let start_addr = relative_pointer r (scast (e_start_offset m e))
              in if start_addr < low_limit then False
                 else if limit \<le> start_addr \<or> limit < start_addr + ucast (e_size m e) then False
                 else recover_entries m r low_limit limit (i + 1) k)"

definition imdr_recover :: "memory \<Rightarrow> imdr \<Rightarrow> bool \<times> imdr" where
  "imdr_recover m d =
     (if imd_limit d = 0 then (False, d)
      else let rp = imdr_get_root_pointer d
           in if \<not> imd_root_pointer_valid m rp then (False, d)
              else let r = relative_pointer rp (scast (rp_root_offset m rp))
                   in if 16 < rp - root_entry r (ucast (r_max_entries m r)) then (False, d)
                      else if r_max_entries m r < r_num_entries m r then (False, d)
                      else if \<not> IS_POWER_OF_2 (r_entry_align m r) then (False, d)
                      else let low0 = relative_pointer r (scast (r_max_offset m r));
                               low_limit = (if low0 = r then 0 else low0)
                           in if recover_entries m r low_limit (imd_limit d) 0 (unat (r_num_entries m r))
                              then (True, d\<lparr>imd_r := r\<rparr>) else (False, d))"

fun find_entry_from :: "memory \<Rightarrow> addr \<Rightarrow> u32 \<Rightarrow> u64 \<Rightarrow> nat \<Rightarrow> addr option" where
  "find_entry_from m r ident i 0 = None"
| "find_entry_from m r ident i (Suc k) =
     (if ident \<noteq> e_id m (root_entry r i) then find_entry_from m r ident (i + 1) k
      else Some (root_entry r i))"

definition imdr_entry_find :: "memory \<Rightarrow> imdr \<Rightarrow> u32 \<Rightarrow> addr option" where
  "imdr_entry_find m d ident =
     (let r = imdr_root d
      in if r = 0 then None else find_entry_from m r ident 1 (unat (r_num_entries m r) - 1))"

definition imdr_limit_size :: "memory \<Rightarrow> imdr \<Rightarrow> size_t \<Rightarrow> bool \<times> memory" where
  "imdr_limit_size m d max_size =
     (let r = imdr_root d
      in if r = 0 then (False, m)
         else let root_size = imd_limit d - r
              in if max_size < root_size then (False, m)
                 else (True, store32 m (r + 16) (ucast (- (max_size - root_size)))))"

definition imdr_entry_size :: "memory \<Rightarrow> addr \<Rightarrow> size_t" where
  "imdr_entry_size m e = ucast (e_size m e)"

definition imdr_entry_at :: "memory \<Rightarrow> imdr \<Rightarrow> addr \<Rightarrow> addr" where
  "imdr_entry_at m d e = relative_pointer (imdr_root d) (scast (e_start_offset m e))"

definition imd_entry_add_to_root :: "memory \<Rightarrow> addr \<Rightarrow> u32 \<Rightarrow> size_t \<Rightarrow> addr option \<times> memory" where
  "imd_entry_add_to_root m r ident size1 =
     (if r_num_entries m r = r_max_entries m r then (None, m)
      else let used_size = ALIGN_UP size1 (ucast (r_entry_align m r))
           in if imd_root_data_left m r < used_size then (None, m)
              else let last_entry = root_last_entry m r;
                       e_off = scast (e_start_offset m last_entry) - used_size
                   in if scast (e_start_offset m last_entry) \<le>s e_off then (None, m)
                      else let entry = last_entry + 16;
                               m1 = store32 m (r + 4) (r_num_entries m r + 1)
                           in (Some entry, imd_entry_assign m1 entry ident e_off size1))"

definition imdr_entry_add :: "memory \<Rightarrow> imdr \<Rightarrow> u32 \<Rightarrow> size_t \<Rightarrow> addr option \<times> memory" where
  "imdr_entry_add m d ident size1 =
     (let r = imdr_root d
      in if r = 0 then (None, m)
         else if root_is_locked m r then (None, m)
         else imd_entry_add_to_root m r ident size1)"

text \<open>The index is a pointer difference: negative ones turn into huge unsigned numbers.\<close>

definition imdr_has_entry :: "memory \<Rightarrow> imdr \<Rightarrow> addr \<Rightarrow> bool" where
  "imdr_has_entry m d e =
     (let r = imdr_root d
      in if r = 0 then False
         else let idx = signed_drop_bit 4 (e - root_entry r 0)
              in if ucast (r_num_entries m r) \<le> idx then False else True)"

subsection \<open>The two-tiered directory\<close>

definition imd_entry_to_imdr :: "memory \<Rightarrow> imd \<Rightarrow> addr \<Rightarrow> imdr option" where
  "imd_entry_to_imdr m I entry =
     (if imdr_has_entry m (imd_lg I) entry then Some (imd_lg I)
      else if imdr_has_entry m (imd_sm I) entry then Some (imd_sm I)
      else None)"

definition imd_handle_init :: "addr \<Rightarrow> imd" where
  "imd_handle_init upper_limit = \<lparr>imd_lg = imdr_init upper_limit, imd_sm = imdr_init 0\<rparr>"

definition imd_handle_init_partial_recovery :: "memory \<Rightarrow> imd \<Rightarrow> imd" where
  "imd_handle_init_partial_recovery m I =
     (if imd_limit (imd_lg I) = 0 then I
      else let I1 = imd_handle_init (imd_limit (imd_lg I));
               rp = imdr_get_root_pointer (imd_lg I1);
               lg = (imd_lg I1)\<lparr>imd_r := relative_pointer rp (scast (rp_root_offset m rp))\<rparr>;
               I2 = I1\<lparr>imd_lg := lg\<rparr>
           in (case imdr_entry_find m lg SMALL_REGION_ID of
                 None \<Rightarrow> I2
               | Some e \<Rightarrow>
                   let sm0 = (imd_sm I2)\<lparr>imd_limit := imdr_entry_at m lg e + imdr_entry_size m e\<rparr>;
                       rp' = imdr_get_root_pointer sm0
                   in I2\<lparr>imd_sm := sm0\<lparr>imd_r := relative_pointer rp' (scast (rp_root_offset m rp'))\<rparr>\<rparr>))"

definition imd_create_empty :: "memory \<Rightarrow> imd \<Rightarrow> size_t \<Rightarrow> size_t \<Rightarrow> bool \<times> memory \<times> imd" where
  "imd_create_empty m I root_size entry_align =
     (case imdr_create_empty m (imd_lg I) root_size entry_align of
        (ok, m', lg) \<Rightarrow> (ok, m', I\<lparr>imd_lg := lg\<rparr>))"

definition small_region_size :: "size_t \<Rightarrow> size_t \<Rightarrow> size_t \<Rightarrow> size_t" where
  "small_region_size lg_entry_align sm_root_size sm_entry_align =
     ALIGN_UP (root_num_entries sm_root_size * sm_entry_align + sm_root_size) lg_entry_align"

definition imd_create_tiered_empty ::
  "memory \<Rightarrow> imd \<Rightarrow> size_t \<Rightarrow> size_t \<Rightarrow> size_t \<Rightarrow> size_t \<Rightarrow> bool \<times> memory \<times> imd" where
  "imd_create_tiered_empty m I lg_root_size lg_entry_align sm_root_size sm_entry_align =
     (case imdr_create_empty m (imd_lg I) lg_root_size lg_entry_align of
        (ok, m1, lg) \<Rightarrow>
          if \<not> ok then (False, m1, I\<lparr>imd_lg := lg\<rparr>)
          else let sm_region_size = small_region_size lg_entry_align sm_root_size sm_entry_align
            in (case imdr_entry_add m1 lg SMALL_REGION_ID sm_region_size of
                  (None, m2) \<Rightarrow> (False, m2, imd_handle_init (imd_limit lg))
                | (Some e, m2) \<Rightarrow>
                    (case imdr_create_empty m2
                            ((imd_sm I)\<lparr>imd_limit := imdr_entry_at m2 lg e + sm_region_size\<rparr>)
                            sm_root_size sm_entry_align of
                       (ok2, m3, sm) \<Rightarrow>
                         if \<not> ok2 then (False, m3, imd_handle_init (imd_limit lg))
                         else (case imdr_limit_size m3 sm sm_region_size of
                                 (ok3, m4) \<Rightarrow>
                                   if \<not> ok3 then (False, m4, imd_handle_init (imd_limit lg))
                                   else (True, m4, I\<lparr>imd_lg := lg, imd_sm := sm\<rparr>)))))"

definition imd_recover :: "memory \<Rightarrow> imd \<Rightarrow> bool \<times> imd" where
  "imd_recover m I =
     (case imdr_recover m (imd_lg I) of
        (ok, lg) \<Rightarrow>
          if \<not> ok then (False, I\<lparr>imd_lg := lg\<rparr>)
          else (case imdr_entry_find m lg SMALL_REGION_ID of
                  None \<Rightarrow> (True, I\<lparr>imd_lg := lg\<rparr>)
                | Some e \<Rightarrow>
                    (case imdr_recover m
                            ((imd_sm I)\<lparr>imd_limit := imdr_entry_at m lg e + imdr_entry_size m e\<rparr>) of
                       (ok2, sm) \<Rightarrow>
                         if \<not> ok2 then (False, imd_handle_init (imd_limit lg))
                         else (True, I\<lparr>imd_lg := lg, imd_sm := sm\<rparr>))))"

definition imd_limit_size :: "memory \<Rightarrow> imd \<Rightarrow> size_t \<Rightarrow> bool \<times> memory" where
  "imd_limit_size m I max_size = imdr_limit_size m (imd_lg I) max_size"

definition set_locked :: "memory \<Rightarrow> addr \<Rightarrow> memory" where
  "set_locked m r = store32 m (r + 8) (r_flags m r OR IMD_FLAG_LOCKED)"

definition imd_lockdown :: "memory \<Rightarrow> imd \<Rightarrow> bool \<times> memory" where
  "imd_lockdown m I =
     (let r = imdr_root (imd_lg I)
      in if r = 0 then (False, m)
         else let m1 = set_locked m r; r2 = imdr_root (imd_sm I)
              in (True, if r2 \<noteq> 0 then set_locked m1 r2 else m1))"

definition imd_region_used :: "memory \<Rightarrow> imd \<Rightarrow> (addr \<times> size_t) option" where
  "imd_region_used m I =
     (if imd_limit (imd_lg I) = 0 then None
      else let r = imdr_root (imd_lg I)
           in if r = 0 then None
              else let low_addr = relative_pointer r (scast (e_start_offset m (root_last_entry m r)))
                   in Some (low_addr, imd_limit (imd_lg I) - low_addr))"

definition imd_entry_add :: "memory \<Rightarrow> imd \<Rightarrow> u32 \<Rightarrow> size_t \<Rightarrow> addr option \<times> memory" where
  "imd_entry_add m I ident size1 =
     (let r = imdr_root (imd_sm I)
      in if r = 0 then imdr_entry_add m (imd_lg I) ident size1
         else (case (if size1 \<le> ucast (r_entry_align m r) \<or> size1 \<le> imd_root_data_left m r div 4
                     then imdr_entry_add m (imd_sm I) ident size1 else (None, m)) of
                 (Some e, m') \<Rightarrow> (Some e, m')
               | (None, m') \<Rightarrow> imdr_entry_add m' (imd_lg I) ident size1))"

definition imd_entry_find :: "memory \<Rightarrow> imd \<Rightarrow> u32 \<Rightarrow> addr option" where
  "imd_entry_find m I ident =
     (case imdr_entry_find m (imd_sm I) ident of
        None \<Rightarrow> imdr_entry_find m (imd_lg I) ident
      | Some e \<Rightarrow> Some e)"

definition imd_entry_find_or_add :: "memory \<Rightarrow> imd \<Rightarrow> u32 \<Rightarrow> size_t \<Rightarrow> addr option \<times> memory" where
  "imd_entry_find_or_add m I ident size1 =
     (case imd_entry_find m I ident of
        Some e \<Rightarrow> (Some e, m)
      | None \<Rightarrow> imd_entry_add m I ident size1)"

definition imd_entry_size :: "memory \<Rightarrow> addr \<Rightarrow> size_t" where
  "imd_entry_size m e = imdr_entry_size m e"

definition imd_entry_at :: "memory \<Rightarrow> imd \<Rightarrow> addr \<Rightarrow> addr option" where
  "imd_entry_at m I e =
     (case imd_entry_to_imdr m I e of
        None \<Rightarrow> None
      | Some d \<Rightarrow> Some (imdr_entry_at m d e))"

definition imd_entry_id :: "memory \<Rightarrow> addr \<Rightarrow> u32" where
  "imd_entry_id m e = e_id m e"

definition imd_entry_remove :: "memory \<Rightarrow> imd \<Rightarrow> addr \<Rightarrow> bool \<times> memory" where
  "imd_entry_remove m I entry =
     (case imd_entry_to_imdr m I entry of
        None \<Rightarrow> (False, m)
      | Some d \<Rightarrow>
          let r = imdr_root d
          in if root_is_locked m r then (False, m)
             else if entry \<noteq> root_last_entry m r then (False, m)
             else if r_num_entries m r = 1 then (False, m)
             else (True, store32 m (r + 4) (r_num_entries m r - 1)))"

text \<open>A cursor walks the large region and then the small one. Both arguments of its setup are non-null.\<close>

definition imd_cursor_init :: imd_cursor where
  "imd_cursor_init = \<lparr>current_imdr = 0, current_entry = 0\<rparr>"

definition cursor_imdr :: "imd \<Rightarrow> size_t \<Rightarrow> imdr" where
  "cursor_imdr I i = (if i = 0 then imd_lg I else imd_sm I)"

function imd_cursor_next :: "memory \<Rightarrow> imd \<Rightarrow> imd_cursor \<Rightarrow> addr option \<times> imd_cursor" where
  "imd_cursor_next m I c =
     (if 2 \<le> current_imdr c then (None, c)
      else let r = imdr_root (cursor_imdr I (current_imdr c))
           in if r = 0 then (None, c)
              else if ucast (r_num_entries m r) \<le> current_entry c
                then imd_cursor_next m I (c\<lparr>current_imdr := current_imdr c + 1, current_entry := 0\<rparr>)
              else (Some (root_entry r (current_entry c)), c\<lparr>current_entry := current_entry c + 1\<rparr>))"
  by pat_completeness auto
termination
  by (relation "measure (\<lambda>(m, I, c). 2 - unat (current_imdr c))")
    (auto simp: word_le_nat_alt unat_suc_64)

declare imd_cursor_next.simps [simp del]

subsection \<open>Fields by offset\<close>

text \<open>Every field of a root block, seen as a 32-bit word at a small offset from the root.\<close>

definition fld :: "memory \<Rightarrow> addr \<Rightarrow> nat \<Rightarrow> u32" where
  "fld m r k = load32 m (r + of_nat k)"

definition set_fld :: "memory \<Rightarrow> addr \<Rightarrow> nat \<Rightarrow> u32 \<Rightarrow> memory" where
  "set_fld m r k v = store32 m (r + of_nat k) v"

lemma fld_set_same [simp]: "fld (set_fld m r k v) r k = v"
  by (simp add: fld_def set_fld_def)

lemma fld_set_other:
  "j + 4 \<le> k \<or> k + 4 \<le> j \<Longrightarrow> j < 2 ^ 62 \<Longrightarrow> k < 2 ^ 62 \<Longrightarrow> fld (set_fld m r k v) r j = fld m r j"
  unfolding fld_def set_fld_def by (rule load32_store32_apart, rule apart_offsets) auto

lemma root_entry_of_nat: "root_entry r (of_nat i) = r + of_nat (20 + 16 * i)"
  by (simp add: root_entry_def)

lemma entry_field_offset: "root_entry r (of_nat i) + of_nat k = r + of_nat (20 + 16 * i + k)"
  by (simp add: root_entry_def)

lemma root_fields:
  "r_max_entries m r = fld m r 0" "r_num_entries m r = fld m r 4" "r_flags m r = fld m r 8"
  "r_entry_align m r = fld m r 12" "r_max_offset m r = fld m r 16"
  by (simp_all add: fld_def r_max_entries_def r_num_entries_def r_flags_def r_entry_align_def
      r_max_offset_def)

lemma entry_fields:
  "e_magic m (root_entry r (of_nat i)) = fld m r (20 + 16 * i)"
  "e_start_offset m (root_entry r (of_nat i)) = fld m r (20 + 16 * i + 4)"
  "e_size m (root_entry r (of_nat i)) = fld m r (20 + 16 * i + 8)"
  "e_id m (root_entry r (of_nat i)) = fld m r (20 + 16 * i + 12)"
  using entry_field_offset [of r i 4] entry_field_offset [of r i 8] entry_field_offset [of r i 12]
  by (simp_all add: fld_def e_magic_def e_start_offset_def e_size_def e_id_def root_entry_of_nat ac_simps)

lemma root_stores:
  "store32 m r v = set_fld m r 0 v" "store32 m (r + 4) v = set_fld m r 4 v"
  "store32 m (r + 8) v = set_fld m r 8 v" "store32 m (r + 12) v = set_fld m r 12 v"
  "store32 m (r + 16) v = set_fld m r 16 v"
  by (simp_all add: set_fld_def)

lemma entry_assign_fields:
  "imd_entry_assign m (root_entry r (of_nat i)) ident off size1 =
   set_fld (set_fld (set_fld (set_fld m r (20 + 16 * i) IMD_ENTRY_MAGIC) r (20 + 16 * i + 4) (ucast off))
     r (20 + 16 * i + 8) (ucast size1)) r (20 + 16 * i + 12) ident"
proof -
  have "root_entry r (of_nat i) + 4 = r + of_nat (20 + 16 * i + 4)"
    "root_entry r (of_nat i) + 8 = r + of_nat (20 + 16 * i + 8)"
    "root_entry r (of_nat i) + 12 = r + of_nat (20 + 16 * i + 12)"
    using entry_field_offset [of r i 4] entry_field_offset [of r i 8] entry_field_offset [of r i 12]
    by simp_all
  then show ?thesis by (simp only: imd_entry_assign_def set_fld_def root_entry_of_nat)
qed

lemma ucast_u32_nat: "(ucast (w :: u32) :: u64) = of_nat (unat w)"
  by simp

lemma root_last_entry_nat:
  "0 < unat (r_num_entries m r) \<Longrightarrow>
   root_last_entry m r = root_entry r (of_nat (unat (r_num_entries m r) - 1))"
  unfolding root_last_entry_def
  by (simp only: ucast_u32_nat unat_pred)

text \<open>Two memories that agree on, or outside of, a block of \<open>n\<close> bytes at \<open>a\<close>.\<close>

definition same_on :: "memory \<Rightarrow> memory \<Rightarrow> addr \<Rightarrow> nat \<Rightarrow> bool" where
  "same_on m m' a n \<longleftrightarrow> (\<forall>i<n. m (a + of_nat i) = m' (a + of_nat i))"

definition same_outside :: "memory \<Rightarrow> memory \<Rightarrow> addr \<Rightarrow> nat \<Rightarrow> bool" where
  "same_outside m m' a n \<longleftrightarrow> (\<forall>x. n \<le> unat (x - a) \<longrightarrow> m' x = m x)"

lemma fld_same_on:
  assumes "same_on m m' r n" "k + 4 \<le> n"
  shows "fld m' r k = fld m r k"
  unfolding fld_def
proof (rule load32_cong)
  fix i :: nat assume "i < 4"
  with assms have "m (r + of_nat (k + i)) = m' (r + of_nat (k + i))"
    unfolding same_on_def by (metis add_less_cancel_left order_less_le_trans)
  then show "m' (r + of_nat k + of_nat i) = m (r + of_nat k + of_nat i)"
    by (simp add: add.assoc)
qed

lemma same_outside_refl [simp]: "same_outside m m a n"
  by (simp add: same_outside_def)

lemma same_outside_trans:
  "same_outside m1 m2 a n \<Longrightarrow> same_outside m2 m3 a n \<Longrightarrow> same_outside m1 m3 a n"
  by (simp add: same_outside_def)

lemma same_outside_set_fld:
  "same_outside m m' r n \<Longrightarrow> k + 4 \<le> n \<Longrightarrow> n < 2 ^ 63 \<Longrightarrow> same_outside m (set_fld m' r k v) r n"
  unfolding same_outside_def set_fld_def
proof (intro allI impI)
  fix x
  assume a: "\<forall>x. n \<le> unat (x - r) \<longrightarrow> m' x = m x" "k + 4 \<le> n" "n < 2 ^ 63" "n \<le> unat (x - r)"
  have "unat (of_nat k :: addr) = k" using a by (intro unat_of_nat_64) simp
  moreover from this have "unat (x - r - of_nat k) = unat (x - r) - k"
    using a by (intro trans [OF unat_sub_no_wrap]) simp_all
  ultimately have "4 \<le> unat (x - (r + of_nat k))" using a by (simp add: diff_diff_eq)
  with a show "store32 m' (r + of_nat k) v x = m x" by (simp add: store32_outside)
qed

text \<open>Blocks that do not meet: what is written in one is not seen in the other.\<close>

lemma same_outside_on:
  assumes "same_outside m m' a n" "apart b k a n"
  shows "same_on m m' b k"
  using assms by (simp add: same_outside_def same_on_def apart_def)

subsection \<open>The directory as a stack of blocks\<close>

text \<open>
  What a region promises: its entries, in order, are a stack of blocks (id, base address, size) that
  grows downwards. \<open>blocks\<close> is the abstraction of the memory, \<open>stack_ok low hi\<close> says that the blocks lie
  between \<open>low\<close> and \<open>hi\<close>, each below the one before it.
\<close>

type_synonym block = "u32 \<times> int \<times> nat"

definition ent_block :: "memory \<Rightarrow> addr \<Rightarrow> nat \<Rightarrow> block" where
  "ent_block m r i =
     (let e = root_entry r (of_nat i)
      in (e_id m e, int (unat r) + sint (e_start_offset m e), unat (e_size m e)))"

definition blocks :: "memory \<Rightarrow> imdr \<Rightarrow> block list" where
  "blocks m d = map (ent_block m (imd_r d)) [0..<unat (r_num_entries m (imd_r d))]"

definition block_base :: "block \<Rightarrow> int" where "block_base b = fst (snd b)"
definition block_size :: "block \<Rightarrow> nat" where "block_size b = snd (snd b)"

fun stack_ok :: "int \<Rightarrow> int \<Rightarrow> block list \<Rightarrow> bool" where
  "stack_ok low hi [] = True"
| "stack_ok low hi (b # bs) =
     (low \<le> block_base b \<and> 0 < block_size b \<and> block_base b + int (block_size b) \<le> hi \<and>
      stack_ok low (block_base b) bs)"

definition root_size_of :: "imdr \<Rightarrow> nat" where
  "root_size_of d = unat (imd_limit d) - unat (imd_r d)"

text \<open>The lowest address the region may use: what \<^verbatim>\<open>max_offset\<close> says, 0 without a limit.\<close>

definition low_bound :: "memory \<Rightarrow> imdr \<Rightarrow> int" where
  "low_bound m d =
     (if r_max_offset m (imd_r d) = 0 then 0
      else int (unat (imd_r d)) + sint (r_max_offset m (imd_r d)))"

definition root_layout :: "memory \<Rightarrow> imdr \<Rightarrow> bool" where
  "root_layout m d \<longleftrightarrow>
     imd_r d \<noteq> 0 \<and> unat (imd_r d) < unat (imd_limit d) \<and> root_size_of d \<le> 4096 \<and>
     28 + 16 * unat (r_max_entries m (imd_r d)) \<le> root_size_of d \<and>
     root_size_of d \<le> 44 + 16 * unat (r_max_entries m (imd_r d)) \<and>
     1 \<le> unat (r_num_entries m (imd_r d)) \<and>
     unat (r_num_entries m (imd_r d)) \<le> unat (r_max_entries m (imd_r d)) \<and>
     rp_magic m (imdr_get_root_pointer d) = IMD_ROOT_PTR_MAGIC \<and>
     scast (rp_root_offset m (imdr_get_root_pointer d)) = imd_r d - imdr_get_root_pointer d"

definition entry_ok :: "memory \<Rightarrow> addr \<Rightarrow> nat \<Rightarrow> bool" where
  "entry_ok m r i \<longleftrightarrow>
     e_magic m (root_entry r (of_nat i)) = IMD_ENTRY_MAGIC \<and>
     int (unat (r_entry_align m r)) dvd sint (e_start_offset m (root_entry r (of_nat i)))"

definition imdr_ok :: "memory \<Rightarrow> imdr \<Rightarrow> bool" where
  "imdr_ok m d \<longleftrightarrow>
     root_layout m d \<and>
     (\<exists>k\<le>12. r_entry_align m (imd_r d) = 2 ^ k) \<and>
     - (2 ^ 31) < sint (r_max_offset m (imd_r d)) \<and> sint (r_max_offset m (imd_r d)) \<le> 0 \<and>
     0 \<le> low_bound m d \<and>
     (\<forall>i<unat (r_num_entries m (imd_r d)). entry_ok m (imd_r d) i) \<and>
     stack_ok (low_bound m d) (int (unat (imd_limit d))) (blocks m d) \<and>
     block_base (hd (blocks m d)) = int (unat (imd_r d)) \<and>
     block_size (hd (blocks m d)) = root_size_of d"

subsubsection \<open>Facts about stacks\<close>

lemma stack_ok_append:
  "stack_ok low hi (bs @ [b]) \<longleftrightarrow>
   stack_ok low hi bs \<and> low \<le> block_base b \<and> 0 < block_size b \<and>
   block_base b + int (block_size b) \<le> (if bs = [] then hi else block_base (last bs))"
  by (induction bs arbitrary: hi) auto

lemma stack_ok_mem:
  "stack_ok low hi bs \<Longrightarrow> b \<in> set bs \<Longrightarrow>
   low \<le> block_base b \<and> 0 < block_size b \<and> block_base b + int (block_size b) \<le> hi"
proof (induction bs arbitrary: hi)
  case (Cons c bs)
  from Cons.prems have "b = c \<or> b \<in> set bs" by auto
  then show ?case
  proof
    assume "b \<in> set bs"
    with Cons.prems Cons.IH [of "block_base c"]
    have "low \<le> block_base b \<and> 0 < block_size b \<and> block_base b + int (block_size b) \<le> block_base c"
      by simp
    with Cons.prems show ?thesis by simp
  qed (use Cons.prems in simp)
qed simp

lemma stack_ok_last:
  "stack_ok low hi bs \<Longrightarrow> b \<in> set bs \<Longrightarrow> block_base (last bs) \<le> block_base b"
proof (induction bs arbitrary: hi)
  case (Cons c bs)
  show ?case
  proof (cases "bs = []")
    case False
    have "block_base (last bs) + int (block_size (last bs)) \<le> block_base c"
      using Cons.prems stack_ok_mem [of low "block_base c" bs "last bs"] False by simp
    with Cons False show ?thesis by fastforce
  qed (use Cons.prems in simp)
qed simp

lemma stack_ok_nth:
  "stack_ok low hi bs \<Longrightarrow> i < j \<Longrightarrow> j < length bs \<Longrightarrow>
   block_base (bs ! j) + int (block_size (bs ! j)) \<le> block_base (bs ! i)"
proof (induction bs arbitrary: hi i j)
  case (Cons c bs)
  then obtain j' where j: "j = Suc j'" by (cases j) auto
  show ?case
  proof (cases i)
    case 0
    with Cons.prems j show ?thesis
      using stack_ok_mem [of low "block_base c" bs "bs ! j'"] by simp
  next
    case (Suc i')
    with Cons.prems j Cons.IH [of "block_base c" i' j'] show ?thesis by simp
  qed
qed simp

lemma stack_ok_butlast: "stack_ok low hi bs \<Longrightarrow> stack_ok low hi (butlast bs)"
  by (cases bs rule: rev_cases) (auto simp: stack_ok_append)

subsubsection \<open>The view depends on the root block only\<close>

lemma length_blocks: "length (blocks m d) = unat (r_num_entries m (imd_r d))"
  by (simp add: blocks_def)

lemma nth_blocks: "i < unat (r_num_entries m (imd_r d)) \<Longrightarrow> blocks m d ! i = ent_block m (imd_r d) i"
  by (simp add: blocks_def)

lemma ent_block_fld:
  "ent_block m r i =
   (fld m r (20 + 16 * i + 12), int (unat r) + sint (fld m r (20 + 16 * i + 4)),
    unat (fld m r (20 + 16 * i + 8)))"
  unfolding ent_block_def Let_def entry_fields ..

lemma entry_ok_fld:
  "entry_ok m r i \<longleftrightarrow>
     fld m r (20 + 16 * i) = IMD_ENTRY_MAGIC \<and>
     int (unat (fld m r 12)) dvd sint (fld m r (20 + 16 * i + 4))"
  unfolding entry_ok_def entry_fields root_fields ..

lemma root_pointer_fld:
  assumes "unat (imd_r d) + 8 \<le> unat (imd_limit d)"
  shows "rp_magic m (imdr_get_root_pointer d) = fld m (imd_r d) (root_size_of d - 8)"
    "rp_root_offset m (imdr_get_root_pointer d) = fld m (imd_r d) (root_size_of d - 4)"
proof -
  have sz: "of_nat (root_size_of d) = imd_limit d - imd_r d"
    using assms unfolding root_size_of_def by (simp add: of_nat_diff)
  have ge: "8 \<le> root_size_of d" using assms by (simp add: root_size_of_def)
  have "imd_r d + of_nat (root_size_of d - 8) = imd_limit d - 8"
    "imd_r d + of_nat (root_size_of d - 4) = imd_limit d - 4"
    using ge by (simp_all add: of_nat_diff sz)
  then show "rp_magic m (imdr_get_root_pointer d) = fld m (imd_r d) (root_size_of d - 8)"
    "rp_root_offset m (imdr_get_root_pointer d) = fld m (imd_r d) (root_size_of d - 4)"
    by (simp_all add: rp_magic_def rp_root_offset_def imdr_get_root_pointer_def relative_pointer_def fld_def)
qed

lemma same_on_r_fields:
  assumes "same_on m m' (imd_r d) (root_size_of d)" "28 \<le> root_size_of d"
  shows "r_max_entries m' (imd_r d) = r_max_entries m (imd_r d)"
    "r_num_entries m' (imd_r d) = r_num_entries m (imd_r d)"
    "r_flags m' (imd_r d) = r_flags m (imd_r d)"
    "r_entry_align m' (imd_r d) = r_entry_align m (imd_r d)"
    "r_max_offset m' (imd_r d) = r_max_offset m (imd_r d)"
  unfolding root_fields using assms by (simp_all add: fld_same_on)

lemma root_layout_bounds:
  assumes "root_layout m d"
  shows "28 \<le> root_size_of d" "i < unat (r_num_entries m (imd_r d)) \<Longrightarrow> 20 + 16 * i + 16 \<le> root_size_of d - 8"
    "unat (imd_r d) + 8 \<le> unat (imd_limit d)" "root_size_of d \<le> 4096"
    "unat (imd_r d) + root_size_of d = unat (imd_limit d)"
  using assms unfolding root_layout_def root_size_of_def by linarith+

lemma blocks_same_on:
  assumes "root_layout m d" "same_on m m' (imd_r d) (root_size_of d)"
  shows "blocks m' d = blocks m d"
proof -
  note b = root_layout_bounds [OF assms(1)]
  have "ent_block m' (imd_r d) i = ent_block m (imd_r d) i" if "i < unat (r_num_entries m (imd_r d))" for i
    unfolding ent_block_fld using b(2) [OF that] b(1) by (simp add: fld_same_on [OF assms(2)])
  then show ?thesis
    unfolding blocks_def same_on_r_fields [OF assms(2) b(1)] by simp
qed

lemma root_layout_same_on:
  assumes "root_layout m d" "same_on m m' (imd_r d) (root_size_of d)"
  shows "root_layout m' d"
proof -
  note b = root_layout_bounds [OF assms(1)]
  have "fld m' (imd_r d) (root_size_of d - 8) = fld m (imd_r d) (root_size_of d - 8)"
    "fld m' (imd_r d) (root_size_of d - 4) = fld m (imd_r d) (root_size_of d - 4)"
    by (rule fld_same_on [OF assms(2)], use b in linarith)+
  with assms(1) show ?thesis
    unfolding root_layout_def same_on_r_fields [OF assms(2) b(1)] root_pointer_fld [OF b(3)] by simp
qed

lemma imdr_ok_same_on:
  assumes "imdr_ok m d" "same_on m m' (imd_r d) (root_size_of d)"
  shows "imdr_ok m' d" "blocks m' d = blocks m d"
proof -
  have l: "root_layout m d" using assms(1) by (simp add: imdr_ok_def)
  note b = root_layout_bounds [OF l] and f = same_on_r_fields [OF assms(2)]
  show bl: "blocks m' d = blocks m d" by (rule blocks_same_on [OF l assms(2)])
  have "entry_ok m' (imd_r d) i = entry_ok m (imd_r d) i" if "i < unat (r_num_entries m (imd_r d))" for i
    unfolding entry_ok_fld using b(2) [OF that] b(1) by (simp add: fld_same_on [OF assms(2)])
  with assms(1) b(1) show "imdr_ok m' d"
    unfolding imdr_ok_def low_bound_def f [OF b(1)] bl
    by (simp add: root_layout_same_on [OF l assms(2)])
qed

subsection \<open>Creating a region\<close>

lemma fld_memset_0: "k + 4 \<le> 20 \<Longrightarrow> fld (memset_bytes m r 0 20) r k = 0"
proof -
  assume k: "k + 4 \<le> 20"
  have z: "load_bytes (memset_bytes m r 0 20) (r + of_nat k) 4 = replicate 4 0"
  proof (rule nth_equalityI)
    fix i assume i: "i < length (load_bytes (memset_bytes m r 0 20) (r + of_nat k) 4)"
    have "r + of_nat k + of_nat i - r = (of_nat (k + i) :: addr)" by simp
    moreover have "unat (of_nat (k + i) :: addr) = k + i" using k i by (intro unat_of_nat_64) simp
    ultimately have "unat (r + of_nat k + of_nat i - r) < 20" using k i by simp
    with i show "load_bytes (memset_bytes m r 0 20) (r + of_nat k) 4 ! i = replicate 4 0 ! i"
      by (simp add: nth_load_bytes memset_bytes_def store_bytes_def)
  qed simp
  show ?thesis unfolding fld_def load32_def z by (simp add: numeral_eq_Suc)
qed

lemma fld_memset_other: "20 \<le> k \<Longrightarrow> k < 2 ^ 62 \<Longrightarrow> fld (memset_bytes m r 0 20) r k = fld m r k"
  unfolding fld_def load32_def memset_bytes_def
  using apart_offsets [of k 4 0 20 r] by (simp add: load_store_apart)

lemma same_outside_memset:
  assumes "same_outside m m' r n" "20 \<le> n"
  shows "same_outside m (memset_bytes m' r 0 20) r n"
  using assms by (simp add: same_outside_def memset_bytes_def store_bytes_def)

text \<open>All the fields the creation of a region writes, and nothing else.\<close>

definition created :: "memory \<Rightarrow> memory \<Rightarrow> addr \<Rightarrow> nat \<Rightarrow> u32 \<Rightarrow> bool" where
  "created m m' r sz al \<longleftrightarrow>
     fld m' r 0 = of_nat ((sz - 28) div 16) \<and> fld m' r 4 = 1 \<and> fld m' r 8 = 0 \<and> fld m' r 12 = al \<and>
     fld m' r 16 = 0 \<and> fld m' r 20 = IMD_ENTRY_MAGIC \<and> fld m' r 24 = 0 \<and> fld m' r 28 = of_nat sz \<and>
     fld m' r 32 = CBMEM_ID_IMD_ROOT \<and> fld m' r (sz - 8) = IMD_ROOT_PTR_MAGIC \<and>
     fld m' r (sz - 4) = - of_nat (sz - 8) \<and> same_outside m m' r sz"

lemma imdr_create_empty_fields:
  assumes L: "2 ^ a < unat (imd_limit d)" and a: "6 \<le> a" "a \<le> 12" and b: "b \<le> a"
  shows "\<exists>m'. imdr_create_empty m d (2 ^ a) (2 ^ b) = (True, m', d\<lparr>imd_r := imd_limit d - 2 ^ a\<rparr>) \<and>
    created m m' (imd_limit d - 2 ^ a) (2 ^ a) (2 ^ b)"
proof -
  define sz where "sz = (2::nat) ^ a"
  define r where "r = imd_limit d - of_nat sz"
  have sz: "64 \<le> sz" "sz \<le> 4096"
    using power_increasing [OF a(1), of "2::nat"] power_increasing [OF a(2), of "2::nat"] by (simp_all add: sz_def)
  have al: "2 ^ b \<le> sz" unfolding sz_def using b by (simp add: power_increasing)
  have usz: "unat (of_nat sz :: u64) = sz" using sz by (intro unat_of_nat_64) simp
  have wsz: "(2 ^ a :: u64) = of_nat sz" by (simp add: sz_def)
  have wb: "(2 ^ b :: u64) = of_nat (2 ^ b)" by simp
  have ub: "unat (of_nat (2 ^ b) :: u64) = 2 ^ b" using al sz by (intro unat_of_nat_64) simp
  have nz: "imd_limit d \<noteq> 0" using L by auto
  have guards: "\<not> of_nat sz < (8 + 20 + 16 :: u64)" "\<not> (LIMIT_ALIGN < of_nat sz \<or> LIMIT_ALIGN < of_nat (2 ^ b))"
    "\<not> of_nat sz < (of_nat (2 ^ b) :: u64)"
    using sz al by (auto simp: word_less_nat_alt usz ub LIMIT_ALIGN_def simp del: of_nat_power)
  have rp: "imdr_get_root_pointer d = r + of_nat (sz - 8)"
    using sz by (simp add: imdr_get_root_pointer_def relative_pointer_def r_def of_nat_diff)
  have rp4: "imdr_get_root_pointer d + 4 = r + of_nat (sz - 4)"
    using sz by (simp add: imdr_get_root_pointer_def relative_pointer_def r_def of_nat_diff)
  have off: "ucast (r - imdr_get_root_pointer d) = (- of_nat (sz - 8) :: u32)"
    unfolding rp by (simp add: ucast_down_neg)
  have nument: "ucast (root_num_entries (of_nat sz)) = (of_nat ((sz - 28) div 16) :: u32)"
  proof -
    have "(of_nat sz - 8 - 20 :: u64) = of_nat (sz - 28)" using sz by (simp add: of_nat_diff)
    moreover have "unat (of_nat (sz - 28) :: u64) = sz - 28" using sz by (intro unat_of_nat_64) simp
    ultimately have "unat (root_num_entries (of_nat sz)) = (sz - 28) div 16"
      by (simp add: root_num_entries_def unat_div_distrib)
    moreover have "(sz - 28) div 16 < 2 ^ 32" using sz by simp
    ultimately show ?thesis
      by (intro word_eq_unatI) (simp add: unsigned_ucast_eq unat_of_nat take_bit_nat_eq_self)
  qed
  have e0: "root_entry r 0 = root_entry r (of_nat 0)" by simp
  define m1 where "m1 = set_fld (set_fld m r (sz - 8) IMD_ROOT_PTR_MAGIC) r (sz - 4) (- of_nat (sz - 8))"
  define m5 where "m5 = set_fld (set_fld (set_fld (memset_bytes m1 r 0 20) r 12 (ucast (of_nat (2 ^ b) :: u64)))
    r 0 (of_nat ((sz - 28) div 16))) r 4 1"
  define m6 where "m6 = imd_entry_assign m5 (root_entry r (of_nat 0)) CBMEM_ID_IMD_ROOT 0 (of_nat sz)"
  have link: "imd_link_root m (imdr_get_root_pointer d) r = m1"
    unfolding imd_link_root_def off rp4 unfolding rp m1_def set_fld_def ..
  have run: "imdr_create_empty m d (2 ^ a) (2 ^ b) = (True, m6, d\<lparr>imd_r := r\<rparr>)"
    unfolding imdr_create_empty_def wsz wb Let_def using nz guards
    by (simp add: relative_pointer_def r_def [symmetric] link nument set_fld_def m5_def m6_def
        del: of_nat_power)
  have m6: "m6 = set_fld (set_fld (set_fld (set_fld m5 r 20 IMD_ENTRY_MAGIC) r 24 0) r 28 (of_nat sz)) r 32
    CBMEM_ID_IMD_ROOT"
    unfolding m6_def entry_assign_fields using sz by (simp add: ucast_down_of_nat)
  have al32: "(ucast (of_nat (2 ^ b) :: u64) :: u32) = 2 ^ b"
    using ucast_down_of_nat [of "2 ^ b"] by simp
  have out: "same_outside m m6 r sz"
    unfolding m6 m5_def m1_def
    by (intro same_outside_set_fld same_outside_memset same_outside_refl) (use sz in simp_all)
  obtain n where n: "sz = n + 64" "n \<le> 4032"
    using sz by (intro that [of "sz - 64"]) simp_all
  have "created m m6 r sz (2 ^ b)"
    unfolding created_def using out n(2) unfolding n(1)
    by (simp add: n(1) m6 m5_def m1_def fld_set_other fld_memset_0 fld_memset_other al32 del: of_nat_power)
  with run show ?thesis unfolding r_def wsz sz_def by blast
qed

lemma created_ok:
  assumes c: "created m m' r (2 ^ a) (2 ^ b)" and a: "6 \<le> a" "a \<le> 12" and b: "b \<le> a"
    and r: "r = imd_limit d - 2 ^ a" and L: "2 ^ a < unat (imd_limit d)"
  shows "imdr_ok m' (d\<lparr>imd_r := r\<rparr>)"
    and "blocks m' (d\<lparr>imd_r := r\<rparr>) = [(CBMEM_ID_IMD_ROOT, int (unat r), 2 ^ a)]"
    and "unat r = unat (imd_limit d) - 2 ^ a" "root_size_of (d\<lparr>imd_r := r\<rparr>) = 2 ^ a"
    and "r_num_entries m' r = 1" "r_flags m' r = 0" "r_max_offset m' r = 0" "r_entry_align m' r = 2 ^ b"
    and "unat (r_max_entries m' r) = (2 ^ a - 28) div 16" "same_outside m m' r (2 ^ a)"
proof -
  define sz where "sz = (2::nat) ^ a"
  have sz: "64 \<le> sz" "sz \<le> 4096"
    using power_increasing [OF a(1), of "2::nat"] power_increasing [OF a(2), of "2::nat"] by (simp_all add: sz_def)
  have al: "(2::nat) ^ b \<le> 4096" using power_increasing [of b 12 "2::nat"] a b by simp
  have usz: "unat (2 ^ a :: u64) = sz"
  proof -
    have "unat (of_nat sz :: u64) = sz" using sz by (intro unat_of_nat_64) simp
    then show ?thesis by (simp add: sz_def)
  qed
  show ur: "unat r = unat (imd_limit d) - 2 ^ a"
    unfolding r using L usz sz_def by (simp add: unat_sub_no_wrap)
  show size: "root_size_of (d\<lparr>imd_r := r\<rparr>) = 2 ^ a"
    using ur L by (simp add: root_size_of_def)
  note c = c [folded sz_def, unfolded created_def]
  show f: "r_num_entries m' r = 1" "r_flags m' r = 0" "r_max_offset m' r = 0" "r_entry_align m' r = 2 ^ b"
    using c unfolding root_fields by simp_all
  have ms: "(sz - 28) div 16 < 2 ^ 32" using sz by simp
  show mx: "unat (r_max_entries m' r) = (2 ^ a - 28) div 16"
    using c ms unfolding root_fields sz_def [symmetric] by (simp add: unat_of_nat take_bit_nat_eq_self)
  show "same_outside m m' r (2 ^ a)" using c sz_def by simp
  have usz32: "unat (of_nat sz :: u32) = sz" using sz by (simp add: unat_of_nat take_bit_nat_eq_self)
  show bl: "blocks m' (d\<lparr>imd_r := r\<rparr>) = [(CBMEM_ID_IMD_ROOT, int (unat r), 2 ^ a)]"
    using c sz unfolding blocks_def by (simp add: f ent_block_fld usz32) (simp add: sz_def)
  let ?d = "d\<lparr>imd_r := r\<rparr>"
  have rp: "unat (imd_r ?d) + 8 \<le> unat (imd_limit ?d)" using ur L sz unfolding sz_def [symmetric] by simp
  have rpv: "imdr_get_root_pointer ?d = r + of_nat (sz - 8)"
    using sz by (simp add: imdr_get_root_pointer_def relative_pointer_def r sz_def of_nat_diff)
  have "scast (- of_nat (sz - 8) :: u32) = (- of_nat (sz - 8) :: u64)"
  proof -
    have "sint (word_of_int (- int (sz - 8)) :: u32) = - int (sz - 8)"
      by (rule sint_of_int_u32) (use sz in simp_all)
    then have "(scast (word_of_int (- int (sz - 8)) :: u32) :: u64) = word_of_int (- int (sz - 8))"
      by (simp only: scast_u32_u64)
    then show ?thesis by simp
  qed
  then have off: "scast (- of_nat (sz - 8) :: u32) = imd_r ?d - imdr_get_root_pointer ?d"
    by (simp add: rpv)
  have size': "root_size_of ?d = sz" using size by (simp add: sz_def)
  have rnz: "r \<noteq> 0" using ur L by (auto simp: unat_eq_0)
  have lay: "root_layout m' ?d"
    unfolding root_layout_def root_pointer_fld [OF rp] size'
    using c sz mx f off rnz ur L usz unfolding sz_def [symmetric] by auto
  have eo: "entry_ok m' r 0" using c by (simp add: entry_ok_fld)
  have L': "2 ^ a < uint (imd_limit d)" 
  proof -
    have "int (2 ^ a) < int (unat (imd_limit d))" using L by (simp only: of_nat_less_iff)
    then show ?thesis by simp
  qed
  show "imdr_ok m' ?d"
    unfolding imdr_ok_def bl
    using lay f eo b a ur L L' sz by (auto simp: low_bound_def block_base_def block_size_def size intro: exI [of _ b])
qed

subsection \<open>Adding an entry\<close>

definition lowest :: "memory \<Rightarrow> imdr \<Rightarrow> int" where
  "lowest m d = block_base (last (blocks m d))"

text \<open>
  The code does not check a region without limit against address 0 or the range of \<^verbatim>\<open>int32_t\<close>:
  \<open>add_room\<close> is what it relies on. A region with a limit needs nothing.
\<close>

definition add_room :: "memory \<Rightarrow> imdr \<Rightarrow> size_t \<Rightarrow> bool" where
  "add_room m d size1 \<longleftrightarrow>
     (r_max_offset m (imd_r d) = 0 \<longrightarrow>
        int (unat size1) + 4096 \<le> lowest m d \<and>
        int (unat (imd_r d)) - lowest m d + int (unat size1) + 4096 \<le> 2 ^ 31)"

definition used_size :: "memory \<Rightarrow> imdr \<Rightarrow> size_t \<Rightarrow> nat" where
  "used_size m d size1 = unat (ALIGN_UP size1 (ucast (r_entry_align m (imd_r d))))"

definition no_space :: "memory \<Rightarrow> imdr \<Rightarrow> size_t \<Rightarrow> bool" where
  "no_space m d size1 \<longleftrightarrow>
     r_num_entries m (imd_r d) = r_max_entries m (imd_r d) \<or> used_size m d size1 = 0 \<or>
     r_max_offset m (imd_r d) \<noteq> 0 \<and> lowest m d - int (used_size m d size1) < low_bound m d"

lemma imdr_okD:
  assumes "imdr_ok m d"
  shows "root_layout m d" "\<exists>k\<le>12. r_entry_align m (imd_r d) = 2 ^ k"
    "- (2 ^ 31) < sint (r_max_offset m (imd_r d))" "sint (r_max_offset m (imd_r d)) \<le> 0"
    "0 \<le> low_bound m d"
    "i < unat (r_num_entries m (imd_r d)) \<Longrightarrow> entry_ok m (imd_r d) i"
    "stack_ok (low_bound m d) (int (unat (imd_limit d))) (blocks m d)"
    "block_base (hd (blocks m d)) = int (unat (imd_r d))"
    "block_size (hd (blocks m d)) = root_size_of d"
    "1 \<le> unat (r_num_entries m (imd_r d))"
    "unat (r_num_entries m (imd_r d)) \<le> unat (r_max_entries m (imd_r d))"
    "unat (r_max_entries m (imd_r d)) \<le> 254" "blocks m d \<noteq> []" "imd_r d \<noteq> 0"
proof -
  show l: "root_layout m d" using assms by (simp add: imdr_ok_def)
  have "28 + 16 * unat (r_max_entries m (imd_r d)) \<le> 4096"
    using l unfolding root_layout_def by linarith
  then show "unat (r_max_entries m (imd_r d)) \<le> 254" by linarith
  show "1 \<le> unat (r_num_entries m (imd_r d))"
    "unat (r_num_entries m (imd_r d)) \<le> unat (r_max_entries m (imd_r d))" "imd_r d \<noteq> 0"
    using l unfolding root_layout_def by linarith+
  then show "blocks m d \<noteq> []" by (auto simp: blocks_def)
qed (use assms in \<open>simp_all add: imdr_ok_def\<close>)

lemma lowest_bounds:
  assumes "imdr_ok m d"
  shows "low_bound m d \<le> lowest m d" "0 \<le> lowest m d" "lowest m d \<le> int (unat (imd_r d))"
    "lowest m d = int (unat (imd_r d)) + sint (e_start_offset m (root_last_entry m (imd_r d)))"
proof -
  note D = imdr_okD [OF assms]
  show "low_bound m d \<le> lowest m d"
    using stack_ok_mem [OF D(7), of "last (blocks m d)"] D(13) by (simp add: lowest_def)
  with D(5) show "0 \<le> lowest m d" by linarith
  show "lowest m d \<le> int (unat (imd_r d))"
    using stack_ok_last [OF D(7), of "hd (blocks m d)"] D(8,13) by (simp add: lowest_def)
  have n: "0 < unat (r_num_entries m (imd_r d))" using D(10) by linarith
  have "last (blocks m d) = ent_block m (imd_r d) (unat (r_num_entries m (imd_r d)) - 1)"
    using n by (simp add: blocks_def last_map)
  then show "lowest m d = int (unat (imd_r d)) + sint (e_start_offset m (root_last_entry m (imd_r d)))"
    unfolding lowest_def root_last_entry_nat [OF n] by (simp add: ent_block_def block_base_def Let_def)
qed

lemma used_size_props:
  assumes "imdr_ok m d"
  shows "used_size m d size1 = 0 \<or>
     unat size1 \<le> used_size m d size1 \<and> used_size m d size1 < unat size1 + 4096 \<and> 0 < unat size1"
    "unat (r_entry_align m (imd_r d)) dvd used_size m d size1"
    "0 < unat size1 \<Longrightarrow> unat size1 + 4096 \<le> 2 ^ 64 \<Longrightarrow> 0 < used_size m d size1"
proof -
  from imdr_okD(2) [OF assms] obtain k where k: "k \<le> 12" "r_entry_align m (imd_r d) = 2 ^ k" by blast
  have k12: "(2::nat) ^ k \<le> 4096" using power_increasing [OF k(1), of "2::nat"] by simp
  have p: "0 < (2::nat) ^ k" by simp
  have w: "(ucast (2 ^ k :: u32) :: u64) = 2 ^ k"
    by (rule bit_word_eqI) (use k(1) in \<open>auto simp: bit_simps\<close>)
  have pw: "unat (2 ^ k :: u32) = 2 ^ k"
  proof -
    have "unat (of_nat (2 ^ k) :: u32) = 2 ^ k" using k12 by (intro unat_of_nat_lt) simp
    then show ?thesis by simp
  qed
  have U: "used_size m d size1 =
    (if unat size1 + (2 ^ k - 1) < 2 ^ 64 then (unat size1 + (2 ^ k - 1)) div 2 ^ k * 2 ^ k else 0)"
    unfolding used_size_def k(2) w using unat_ALIGN_UP [of k size1] k(1) by simp
  show "unat (r_entry_align m (imd_r d)) dvd used_size m d size1"
    unfolding U k(2) pw by simp
  have up: "unat size1 \<le> (unat size1 + (2 ^ k - 1)) div 2 ^ k * 2 ^ k"
    "(unat size1 + (2 ^ k - 1)) div 2 ^ k * 2 ^ k < unat size1 + 2 ^ k"
    using round_up_ge [OF p, of "unat size1"] round_up_lt [OF p, of "unat size1"] by simp_all
  have z: "(2 ^ k - 1) div 2 ^ k * 2 ^ k = (0::nat)" by simp
  show "used_size m d size1 = 0 \<or>
     unat size1 \<le> used_size m d size1 \<and> used_size m d size1 < unat size1 + 4096 \<and> 0 < unat size1"
  proof (cases "unat size1 = 0")
    case True
    then show ?thesis unfolding U using z by simp
  next
    case False
    then show ?thesis unfolding U using up k12 by simp
  qed
  show "0 < used_size m d size1" if "0 < unat size1" "unat size1 + 4096 \<le> 2 ^ 64"
  proof -
    have "unat size1 + (2 ^ k - 1) < 2 ^ 64" using that k12 p by simp
    then have "used_size m d size1 = (unat size1 + (2 ^ k - 1)) div 2 ^ k * 2 ^ k" unfolding U by (rule if_P)
    with up(1) that(1) show ?thesis by linarith
  qed
qed

lemma imd_root_data_left_less:
  assumes "imdr_ok m d"
  shows "imd_root_data_left m (imd_r d) < ALIGN_UP size1 (ucast (r_entry_align m (imd_r d))) \<longleftrightarrow>
    r_max_offset m (imd_r d) \<noteq> 0 \<and> lowest m d - int (used_size m d size1) < low_bound m d"
proof (cases "r_max_offset m (imd_r d) = 0")
  case True
  have "\<not> (- 1 :: u64) < x" for x by (simp add: word_less_nat_alt not_less unat_le_64)
  with True show ?thesis by (simp add: imd_root_data_left_def)
next
  case False
  note D = imdr_okD [OF assms] and B = lowest_bounds [OF assms]
  define s where "s = sint (e_start_offset m (root_last_entry m (imd_r d)))"
  define mo where "mo = sint (r_max_offset m (imd_r d))"
  have b: "mo \<le> s" "s \<le> 0" "- (2 ^ 31) < mo"
    using B D(3) False by (simp_all add: low_bound_def s_def mo_def)
  have "e_start_offset m (root_last_entry m (imd_r d)) - r_max_offset m (imd_r d) = word_of_int (s - mo)"
    by (simp add: s_def mo_def)
  then have "imd_root_data_left m (imd_r d) = word_of_int (s - mo)"
    unfolding imd_root_data_left_def Let_def scast_u32_u64
    using sint_of_int_u32 [of "s - mo"] b False by simp
  moreover have "unat (word_of_int (s - mo) :: u64) = nat (s - mo)"
  proof -
    have "(word_of_int (s - mo) :: u64) = of_nat (nat (s - mo))" using b by simp
    also have "unat \<dots> = nat (s - mo)" using b by (intro unat_of_nat_64) simp
    finally show ?thesis .
  qed
  ultimately have "imd_root_data_left m (imd_r d) < ALIGN_UP size1 (ucast (r_entry_align m (imd_r d)))
    \<longleftrightarrow> nat (s - mo) < used_size m d size1"
    by (simp add: word_less_nat_alt used_size_def)
  also have "\<dots> \<longleftrightarrow> lowest m d - int (used_size m d size1) < low_bound m d"
    using b B(4) False by (simp add: low_bound_def s_def [symmetric] mo_def [symmetric] zless_nat_eq_int_zless nat_less_iff) linarith
  finally show ?thesis using False by simp
qed

definition added :: "memory \<Rightarrow> imdr \<Rightarrow> u32 \<Rightarrow> size_t \<Rightarrow> memory" where
  "added m d ident size1 =
     imd_entry_assign (set_fld m (imd_r d) 4 (r_num_entries m (imd_r d) + 1))
       (root_entry (imd_r d) (of_nat (unat (r_num_entries m (imd_r d))))) ident
       (word_of_int (lowest m d - int (unat (imd_r d)) - int (used_size m d size1))) size1"

lemma add_offset_bounds:
  assumes ok: "imdr_ok m d" and room: "add_room m d size1" and sp: "\<not> no_space m d size1"
  shows "- (2 ^ 31) \<le> lowest m d - int (unat (imd_r d)) - int (used_size m d size1)"
    "low_bound m d \<le> lowest m d - int (used_size m d size1)"
    "0 < used_size m d size1" "unat size1 \<le> used_size m d size1" "0 < unat size1"
    "used_size m d size1 \<le> 2 ^ 31"
    "unat (r_num_entries m (imd_r d)) < unat (r_max_entries m (imd_r d))"
proof -
  note D = imdr_okD [OF ok] and B = lowest_bounds [OF ok] and U = used_size_props [OF ok, of size1]
  show pos: "0 < used_size m d size1" using sp by (simp add: no_space_def)
  then show "unat size1 \<le> used_size m d size1" "0 < unat size1" using U(1) by auto
  have lt: "used_size m d size1 < unat size1 + 4096" using U(1) pos by auto
  show lb: "low_bound m d \<le> lowest m d - int (used_size m d size1)"
  proof (cases "r_max_offset m (imd_r d) = 0")
    case True
    with room have "int (unat size1) + 4096 \<le> lowest m d" by (simp add: add_room_def)
    moreover have "low_bound m d = 0" using True by (simp add: low_bound_def)
    ultimately show ?thesis using lt by linarith
  next
    case False
    with sp show ?thesis by (simp add: no_space_def)
  qed
  show l: "- (2 ^ 31) \<le> lowest m d - int (unat (imd_r d)) - int (used_size m d size1)"
  proof (cases "r_max_offset m (imd_r d) = 0")
    case True
    with room have "int (unat (imd_r d)) - lowest m d + int (unat size1) + 4096 \<le> 2 ^ 31"
      by (simp add: add_room_def)
    with lt show ?thesis by linarith
  next
    case False
    then have "low_bound m d = int (unat (imd_r d)) + sint (r_max_offset m (imd_r d))"
      by (simp add: low_bound_def)
    with lb D(3) show ?thesis by linarith
  qed
  show "used_size m d size1 \<le> 2 ^ 31" using l B(3) by simp
  show "unat (r_num_entries m (imd_r d)) < unat (r_max_entries m (imd_r d))"
    using sp D(11) by (simp add: no_space_def word_unat_eq_iff)
qed

lemma imd_entry_add_to_root_eq:
  assumes ok: "imdr_ok m d" and room: "add_room m d size1"
  shows "imd_entry_add_to_root m (imd_r d) ident size1 =
    (if no_space m d size1 then (None, m)
     else (Some (root_entry (imd_r d) (of_nat (unat (r_num_entries m (imd_r d))))), added m d ident size1))"
proof -
  note D = imdr_okD [OF ok] and B = lowest_bounds [OF ok]
  let ?r = "imd_r d"
  define s where "s = sint (e_start_offset m (root_last_entry m ?r))"
  define U where "U = used_size m d size1"
  define w where "w = ALIGN_UP size1 (ucast (r_entry_align m ?r))"
  have wU: "w = word_of_int (int U)" by (simp add: w_def U_def used_size_def)
  have s: "lowest m d - int (unat ?r) = s" using B(4) by (simp add: s_def)
  have s0: "- (2 ^ 31) \<le> s" "s \<le> 0"
    using B(3) s sint_ge [of "e_start_offset m (root_last_entry m ?r)"] by (simp_all add: s_def)
  have start: "(scast (e_start_offset m (root_last_entry m ?r)) :: u64) = word_of_int s"
    by (simp only: scast_u32_u64 s_def)
  have full: "r_num_entries m ?r = r_max_entries m ?r \<or>
      imd_root_data_left m ?r < w \<Longrightarrow> no_space m d size1"
    using imd_root_data_left_less [OF ok, of size1] by (auto simp: no_space_def w_def)
  have last: "root_last_entry m ?r + 16 = root_entry ?r (of_nat (unat (r_num_entries m ?r)))"
  proof -
    have "root_last_entry m ?r + 16 = root_entry ?r (of_nat (unat (r_num_entries m ?r) - 1) + 1)"
      using root_last_entry_nat [of m ?r] D(10) by (simp add: root_entry_def)
    also have "of_nat (unat (r_num_entries m ?r) - 1) + 1 = (of_nat (unat (r_num_entries m ?r)) :: u64)"
      using D(10) by (simp add: of_nat_diff)
    finally show ?thesis .
  qed
  show ?thesis
  proof (cases "r_num_entries m ?r = r_max_entries m ?r \<or> imd_root_data_left m ?r < w")
    case True
    with full have "no_space m d size1" by blast
    with True show ?thesis by (auto simp: imd_entry_add_to_root_def Let_def w_def)
  next
    case False
    then have sp: "no_space m d size1 \<longleftrightarrow> U = 0"
      using imd_root_data_left_less [OF ok, of size1] by (auto simp: no_space_def w_def U_def)
    have e: "word_of_int s - w = word_of_int (s - int U)" by (simp add: wU)
    have ss: "sint (word_of_int s :: u64) = s" by (rule sint_of_int_u64) (use s0 in simp_all)
    show ?thesis
    proof (cases "U = 0")
      case True
      then have "word_of_int s \<le>s word_of_int s - w" by (simp add: wU)
      with False sp True show ?thesis
        by (simp add: imd_entry_add_to_root_def Let_def start w_def)
    next
      case U: False
      with sp have nsp: "\<not> no_space m d size1" by simp
      note A = add_offset_bounds [OF ok room nsp, unfolded s, folded U_def]
      have "sint (word_of_int (s - int U) :: u64) = s - int U"
        by (rule sint_of_int_u64) (use A(1) s0 in simp_all)
      then have "\<not> (word_of_int s :: u64) \<le>s word_of_int s - w"
        unfolding e word_sle_eq ss using A(3) by simp
      with False nsp show ?thesis
        unfolding imd_entry_add_to_root_def Let_def added_def start s U_def [symmetric]
        by (simp add: w_def [symmetric] e last root_stores(2))
    qed
  qed
qed

lemma added_fields:
  assumes ok: "imdr_ok m d" and room: "add_room m d size1" and sp: "\<not> no_space m d size1"
  defines "n \<equiv> unat (r_num_entries m (imd_r d))" and "r \<equiv> imd_r d"
  shows "fld (added m d ident size1) r 4 = of_nat (n + 1)"
    "fld (added m d ident size1) r (20 + 16 * n) = IMD_ENTRY_MAGIC"
    "fld (added m d ident size1) r (20 + 16 * n + 4) =
       word_of_int (lowest m d - int (unat r) - int (used_size m d size1))"
    "fld (added m d ident size1) r (20 + 16 * n + 8) = of_nat (unat size1)"
    "fld (added m d ident size1) r (20 + 16 * n + 12) = ident"
    "k + 4 \<le> 4 \<or> 8 \<le> k \<and> k + 4 \<le> 20 + 16 * n \<or> 36 + 16 * n \<le> k \<and> k < 2 ^ 62 \<Longrightarrow>
       fld (added m d ident size1) r k = fld m r k"
    "same_outside m (added m d ident size1) r (root_size_of d)"
proof -
  have n: "n < 254" using add_offset_bounds(7) [OF ok room sp] imdr_okD(12) [OF ok] by (simp add: n_def)
  have num: "r_num_entries m r + 1 = of_nat (n + 1)"
    by (simp add: n_def r_def)
  have sz: "(ucast size1 :: u32) = of_nat (unat size1)"
    using ucast_down_of_nat [of "unat size1"] by simp
  note M = added_def [of m d ident size1, folded n_def, folded r_def, unfolded num entry_assign_fields
      ucast_down_of_int sz]
  show "fld (added m d ident size1) r 4 = of_nat (n + 1)"
    "fld (added m d ident size1) r (20 + 16 * n) = IMD_ENTRY_MAGIC"
    "fld (added m d ident size1) r (20 + 16 * n + 4) =
       word_of_int (lowest m d - int (unat r) - int (used_size m d size1))"
    "fld (added m d ident size1) r (20 + 16 * n + 8) = of_nat (unat size1)"
    "fld (added m d ident size1) r (20 + 16 * n + 12) = ident"
    unfolding M using n by (simp_all add: fld_set_other)
  show "k + 4 \<le> 4 \<or> 8 \<le> k \<and> k + 4 \<le> 20 + 16 * n \<or> 36 + 16 * n \<le> k \<and> k < 2 ^ 62 \<Longrightarrow>
       fld (added m d ident size1) r k = fld m r k"
    unfolding M using n by (auto simp: fld_set_other)
  have l: "root_layout m d" by (rule imdr_okD(1) [OF ok])
  obtain mx where mx: "mx = unat (r_max_entries m (imd_r d))" by blast
  have "28 + 16 * mx \<le> root_size_of d" and le: "root_size_of d \<le> 4096"
    using l by (simp_all add: root_layout_def mx)
  moreover have "n + 1 \<le> mx"
    using add_offset_bounds(7) [OF ok room sp] by (simp add: n_def mx)
  ultimately have "36 + 16 * n \<le> root_size_of d" by linarith
  with le show "same_outside m (added m d ident size1) r (root_size_of d)"
    unfolding M by (intro same_outside_set_fld same_outside_refl) simp_all
qed

lemma added_ok:
  assumes ok: "imdr_ok m d" and room: "add_room m d size1" and sp: "\<not> no_space m d size1"
  shows "imdr_ok (added m d ident size1) d"
    and "blocks (added m d ident size1) d =
      blocks m d @ [(ident, lowest m d - int (used_size m d size1), unat size1)]"
    and "unat (r_num_entries (added m d ident size1) (imd_r d)) = Suc (unat (r_num_entries m (imd_r d)))"
    and "low_bound (added m d ident size1) d = low_bound m d"
    and "r_flags (added m d ident size1) (imd_r d) = r_flags m (imd_r d)"
    and "r_entry_align (added m d ident size1) (imd_r d) = r_entry_align m (imd_r d)"
    and "r_max_offset (added m d ident size1) (imd_r d) = r_max_offset m (imd_r d)"
    and "r_max_entries (added m d ident size1) (imd_r d) = r_max_entries m (imd_r d)"
proof -
  define r where "r = imd_r d"
  define n where "n = unat (r_num_entries m r)"
  define m' where "m' = added m d ident size1"
  note D = imdr_okD [OF ok, folded r_def, folded n_def]
  note B = lowest_bounds [OF ok, folded r_def] and A = add_offset_bounds [OF ok room sp, folded r_def, folded n_def]
  note F = added_fields [OF ok room sp, folded r_def, folded n_def, where ident = ident, folded m'_def]
  have n: "n < 254" using A(7) D(12) by linarith
  obtain mx where mx: "mx = unat (r_max_entries m r)" by blast
  have lay: "28 + 16 * mx \<le> root_size_of d" "n < mx" "root_size_of d \<le> 4096"
    using D(1) A(7) unfolding root_layout_def r_def [symmetric] n_def mx by simp_all
  have "unat (fld m' r 4) = Suc n" unfolding F(1) using n 
  proof -
    have "unat (of_nat (n + 1) :: u32) = n + 1" using n by (intro unat_of_nat_lt) simp
    then show "unat (of_nat (n + 1) :: u32) = Suc n" by simp
  qed
  then show num: "unat (r_num_entries (added m d ident size1) (imd_r d)) = Suc (unat (r_num_entries m (imd_r d)))"
    unfolding n_def m'_def r_def root_fields by simp
  show f: "r_flags (added m d ident size1) (imd_r d) = r_flags m (imd_r d)"
    "r_entry_align (added m d ident size1) (imd_r d) = r_entry_align m (imd_r d)"
    "r_max_offset (added m d ident size1) (imd_r d) = r_max_offset m (imd_r d)"
    "r_max_entries (added m d ident size1) (imd_r d) = r_max_entries m (imd_r d)"
    unfolding m'_def [symmetric] r_def [symmetric] root_fields by (simp_all add: F(6))
  show lb: "low_bound (added m d ident size1) d = low_bound m d"
    unfolding low_bound_def f ..
  have same: "ent_block m' r i = ent_block m r i" "entry_ok m' r i = entry_ok m r i" if "i < n" for i
    unfolding ent_block_fld entry_ok_fld using that n by (simp_all add: F(6))
  have so: "sint (word_of_int (lowest m d - int (unat r) - int (used_size m d size1)) :: u32) =
    lowest m d - int (unat r) - int (used_size m d size1)"
    by (rule sint_of_int_u32) (use A(1,3) B(3) in simp_all)
  have us: "unat (of_nat (unat size1) :: u32) = unat size1"
    by (rule unat_of_nat_lt) (use A(4,6) in simp)
  have new: "ent_block m' r n = (ident, lowest m d - int (used_size m d size1), unat size1)"
    unfolding ent_block_fld F(3,4,5) so us by simp
  have bl: "blocks m' d = blocks m d @ [(ident, lowest m d - int (used_size m d size1), unat size1)]"
    unfolding blocks_def r_def [symmetric] using num same new by (simp add: m'_def r_def n_def)
  then show "blocks (added m d ident size1) d =
      blocks m d @ [(ident, lowest m d - int (used_size m d size1), unat size1)]" by (simp add: m'_def)
  have A4: "int (unat size1) \<le> int (used_size m d size1)" using A(4) by (simp only: of_nat_le_iff)
  have st: "stack_ok (low_bound m d) (int (unat (imd_limit d))) (blocks m' d)"
    unfolding bl stack_ok_append using D(7,13) A(2,5) A4
    by (simp add: block_base_def block_size_def lowest_def)
  have dv: "int (unat (r_entry_align m r)) dvd sint (fld m r (20 + 16 * (n - 1) + 4))"
    using D(6) [of "n - 1"] D(10) by (simp add: entry_ok_fld root_fields)
  have nn: "0 < n" using D(10) by linarith
  have last: "lowest m d - int (unat r) = sint (fld m r (20 + 16 * (n - 1) + 4))"
    using B(4) root_last_entry_nat [of m r] nn entry_fields(2) [of m r "n - 1"] by (simp add: n_def)
  have "int (unat (r_entry_align m r)) dvd int (used_size m d size1)"
    using used_size_props(2) [OF ok, of size1] unfolding r_def by (simp only: int_dvd_int_iff)
  with dv have "int (unat (r_entry_align m r)) dvd lowest m d - int (unat r) - int (used_size m d size1)"
    unfolding last by (rule dvd_diff)
  then have eo: "entry_ok m' r n"
    unfolding entry_ok_fld F(2,3) so using n by (simp add: F(6) root_fields)
  have eos: "entry_ok m' r i" if "i < Suc n" for i
    using that eo same(2) D(6) by (cases "i = n") auto
  have rp: "unat (imd_r d) + 8 \<le> unat (imd_limit d)" using root_layout_bounds(3) [OF D(1)] .
  have ge: "44 + 16 * n \<le> root_size_of d" "root_size_of d \<le> 4096" using lay by linarith+
  have "fld m' r (root_size_of d - 8) = fld m r (root_size_of d - 8)"
    "fld m' r (root_size_of d - 4) = fld m r (root_size_of d - 4)"
    by (rule F(6), rule disjI2, rule disjI2, rule conjI, use ge in linarith, use ge in simp)+
  then have "root_layout m' d"
    using D(1) lay num f unfolding root_layout_def root_pointer_fld [OF rp] m'_def r_def n_def mx
    by (simp add: r_def)
  with st eos D show "imdr_ok (added m d ident size1) d"
    unfolding imdr_ok_def m'_def [symmetric] r_def [symmetric]
    using f lb num by (simp add: bl m'_def [symmetric] r_def [symmetric] n_def)
qed

lemma imdr_entry_add_cases:
  assumes ok: "imdr_ok m d" and room: "add_room m d size1"
  shows "imdr_entry_add m d ident size1 =
    (if root_is_locked m (imd_r d) \<or> no_space m d size1 then (None, m)
     else (Some (root_entry (imd_r d) (of_nat (length (blocks m d)))), added m d ident size1))"
  using imdr_okD(14) [OF ok] imd_entry_add_to_root_eq [OF ok room, of ident]
  by (simp add: imdr_entry_add_def Let_def imdr_root_def length_blocks)

subsection \<open>Finding and removing\<close>

text \<open>The first entry after the root with the wanted id.\<close>

lemma find_entry_from_eq:
  "find_entry_from m r ident (of_nat i) k =
   map_option (\<lambda>j. root_entry r (of_nat j)) (find (\<lambda>j. fst (ent_block m r j) = ident) [i..<i + k])"
proof (induction k arbitrary: i)
  case (Suc k)
  have "[i..<i + Suc k] = i # [Suc i..<Suc i + k]" by (simp add: upt_conv_Cons)
  moreover have "(of_nat i + 1 :: u64) = of_nat (Suc i)" by simp
  ultimately show ?case
    using Suc.IH [of "Suc i"] by (simp add: ent_block_def Let_def del: of_nat_Suc)
qed simp

definition index_of :: "u32 \<Rightarrow> block list \<Rightarrow> nat option" where
  "index_of ident bs = find (\<lambda>j. fst (bs ! j) = ident) [1..<length bs]"

lemma imdr_entry_find_eq:
  assumes "imdr_ok m d"
  shows "imdr_entry_find m d ident =
    map_option (\<lambda>j. root_entry (imd_r d) (of_nat j)) (index_of ident (blocks m d))"
proof -
  note D = imdr_okD [OF assms]
  define n where "n = unat (r_num_entries m (imd_r d))"
  have "find (\<lambda>j. fst (ent_block m (imd_r d) j) = ident) [1..<n] =
    find (\<lambda>j. fst (blocks m d ! j) = ident) [1..<n]"
    by (rule find_cong) (simp_all add: nth_blocks n_def)
  moreover have "1 + (n - 1) = n" using D(10) by (simp add: n_def)
  ultimately show ?thesis
    using D(14) find_entry_from_eq [of m "imd_r d" ident 1 "n - 1"]
    by (simp add: imdr_entry_find_def imdr_root_def Let_def index_of_def length_blocks n_def)
qed

lemma index_of_Some:
  "index_of ident bs = Some j \<longleftrightarrow>
     1 \<le> j \<and> j < length bs \<and> fst (bs ! j) = ident \<and> (\<forall>i. 1 \<le> i \<and> i < j \<longrightarrow> fst (bs ! i) \<noteq> ident)"
proof
  assume "index_of ident bs = Some j"
  then obtain i where i: "i < length [1..<length bs]" "fst (bs ! ([1..<length bs] ! i)) = ident"
      "j = [1..<length bs] ! i" "\<And>k. k < i \<Longrightarrow> fst (bs ! ([1..<length bs] ! k)) \<noteq> ident"
    unfolding index_of_def find_Some_iff by blast
  have "fst (bs ! k) \<noteq> ident" if "1 \<le> k" "k < j" for k
    using i(4) [of "k - 1"] i(1,3) that by simp
  with i show "1 \<le> j \<and> j < length bs \<and> fst (bs ! j) = ident \<and>
      (\<forall>i. 1 \<le> i \<and> i < j \<longrightarrow> fst (bs ! i) \<noteq> ident)" by simp
next
  assume j: "1 \<le> j \<and> j < length bs \<and> fst (bs ! j) = ident \<and>
      (\<forall>i. 1 \<le> i \<and> i < j \<longrightarrow> fst (bs ! i) \<noteq> ident)"
  have "fst (bs ! ([1..<length bs] ! k)) \<noteq> ident" if "k < j - 1" for k
  proof -
    have "[1..<length bs] ! k = 1 + k" by (rule nth_upt) (use that j in linarith)
    with j that show ?thesis by simp
  qed
  moreover have "j - 1 < length [1..<length bs]" unfolding length_upt using j by linarith
  moreover have "[1..<length bs] ! (j - 1) = j" using j by simp
  ultimately show "index_of ident bs = Some j"
    unfolding index_of_def find_Some_iff using j by (intro exI [of _ "j - 1"]) simp
qed

lemma index_of_None: "index_of ident bs = None \<longleftrightarrow> (\<forall>i. 1 \<le> i \<and> i < length bs \<longrightarrow> fst (bs ! i) \<noteq> ident)"
  unfolding index_of_def find_None_iff by auto

lemma index_of_append:
  "bs \<noteq> [] \<Longrightarrow> index_of ident (bs @ [b]) =
    (case index_of ident bs of Some j \<Rightarrow> Some j
     | None \<Rightarrow> if fst b = ident then Some (length bs) else None)"
proof (cases "index_of ident bs")
  case None
  assume bs: "bs \<noteq> []"
  show ?thesis
  proof (cases "fst b = ident")
    case True
    have "index_of ident (bs @ [b]) = Some (length bs)"
      unfolding index_of_Some using None [unfolded index_of_None] bs True
      by (auto simp: nth_append Suc_le_eq)
    with None True show ?thesis by simp
  next
    case False
    have "index_of ident (bs @ [b]) = None"
      unfolding index_of_None using None [unfolded index_of_None] False
      by (auto simp: nth_append less_Suc_eq)
    with None False show ?thesis by simp
  qed
next
  case (Some j)
  then have "index_of ident (bs @ [b]) = Some j"
    unfolding index_of_Some by (auto simp: nth_append)
  with Some show ?thesis by simp
qed

text \<open>Taking the last entry away.\<close>

lemma imdr_drop_last:
  assumes ok: "imdr_ok m d" and n: "1 < unat (r_num_entries m (imd_r d))"
  defines "m' \<equiv> store32 m (imd_r d + 4) (r_num_entries m (imd_r d) - 1)"
  shows "imdr_ok m' d" "blocks m' d = butlast (blocks m d)"
    "same_outside m m' (imd_r d) (root_size_of d)"
    "r_flags m' (imd_r d) = r_flags m (imd_r d)"
proof -
  define r where "r = imd_r d"
  define k where "k = unat (r_num_entries m r)"
  note D = imdr_okD [OF ok, folded r_def, folded k_def]
  have m': "m' = set_fld m r 4 (r_num_entries m r - 1)" by (simp add: m'_def set_fld_def r_def)
  have k: "1 < k" "k \<le> 254" using n D(11,12) by (simp_all add: k_def r_def)
  have F: "fld m' r j = fld m r j" if "j = 0 \<or> 8 \<le> j" "j < 2 ^ 62" for j
    unfolding m' using that by (intro fld_set_other) auto
  have num: "unat (r_num_entries m' r) = k - 1"
    unfolding root_fields m' using k unfolding k_def root_fields by (simp add: unat_pred)
  have f: "r_entry_align m' r = r_entry_align m r"
    "r_max_offset m' r = r_max_offset m r" "r_max_entries m' r = r_max_entries m r"
    and fl: "r_flags m' r = r_flags m r"
    unfolding root_fields by (simp_all add: F)
  show "r_flags m' (imd_r d) = r_flags m (imd_r d)" using fl by (simp add: r_def)
  have same: "ent_block m' r i = ent_block m r i" "entry_ok m' r i = entry_ok m r i" if "i < k" for i
    unfolding ent_block_fld entry_ok_fld using that k by (simp_all add: F)
  have up: "[0..<k] = [0..<k - 1] @ [k - 1]" using k upt_Suc_append [of 0 "k - 1"] by simp
  show bl: "blocks m' d = butlast (blocks m d)"
    unfolding blocks_def r_def [symmetric] num k_def [symmetric] up using same by simp
  note sz = root_layout_bounds [OF D(1)]
  show "same_outside m m' (imd_r d) (root_size_of d)"
    unfolding m' r_def [symmetric] by (intro same_outside_set_fld same_outside_refl) (use sz in simp_all)
  obtain mx where mx: "mx = unat (r_max_entries m r)" by blast
  have lay: "28 + 16 * mx \<le> root_size_of d" "k \<le> mx"
    using D(1,11) unfolding root_layout_def r_def [symmetric] mx by simp_all
  have ge: "36 \<le> root_size_of d" "root_size_of d \<le> 4096" using lay k sz by linarith+
  have "fld m' r (root_size_of d - 8) = fld m r (root_size_of d - 8)"
    "fld m' r (root_size_of d - 4) = fld m r (root_size_of d - 4)"
    by (rule F, use ge in simp, use ge in simp)+
  moreover have "1 \<le> k - 1" "k - 1 \<le> unat (r_max_entries m r)" using k lay mx by linarith+
  ultimately have "root_layout m' d"
    using D(1) k num f unfolding root_layout_def root_pointer_fld [OF sz(3)] r_def [symmetric] k_def [symmetric]
    by simp
  moreover have "hd (blocks m' d) = hd (blocks m d)"
    unfolding bl using k by (cases "blocks m d" rule: rev_cases) (auto simp: hd_append k_def r_def dest: arg_cong [where f = length] simp: length_blocks)
  moreover have "low_bound m' d = low_bound m d" unfolding low_bound_def r_def [symmetric] f ..
  ultimately show "imdr_ok m' d"
    using D f num same stack_ok_butlast [OF D(7)] unfolding imdr_ok_def r_def [symmetric] by (simp add: bl)
qed

subsection \<open>Recovery from memory\<close>

lemma word_of_int_nonneg: "0 \<le> k \<Longrightarrow> (word_of_int k :: 'a::len word) = of_nat (nat k)"
  by simp

lemma entry_address:
  assumes ok: "imdr_ok m d" and i: "i < length (blocks m d)"
  shows "imdr_entry_at m d (root_entry (imd_r d) (of_nat i)) = of_nat (nat (block_base (blocks m d ! i)))"
    and "unat (imdr_entry_at m d (root_entry (imd_r d) (of_nat i))) = nat (block_base (blocks m d ! i))"
    and "imdr_entry_size m (root_entry (imd_r d) (of_nat i)) = of_nat (block_size (blocks m d ! i))"
    and "0 \<le> block_base (blocks m d ! i)"
    and "block_base (blocks m d ! i) + int (block_size (blocks m d ! i)) \<le> int (unat (imd_limit d))"
    and "low_bound m d \<le> block_base (blocks m d ! i)" "0 < block_size (blocks m d ! i)"
proof -
  note D = imdr_okD [OF ok]
  define e where "e = root_entry (imd_r d) (of_nat i)"
  have b: "blocks m d ! i = (e_id m e, int (unat (imd_r d)) + sint (e_start_offset m e), unat (e_size m e))"
    using i by (simp add: length_blocks nth_blocks ent_block_def e_def Let_def)
  have mem: "blocks m d ! i \<in> set (blocks m d)" using i by simp
  note S = stack_ok_mem [OF D(7) mem]
  show nn: "0 \<le> block_base (blocks m d ! i)" using S D(5) by linarith
  show le: "block_base (blocks m d ! i) + int (block_size (blocks m d ! i)) \<le> int (unat (imd_limit d))"
    "low_bound m d \<le> block_base (blocks m d ! i)" "0 < block_size (blocks m d ! i)"
    using S by simp_all
  have bb: "block_base (blocks m d ! i) = int (unat (imd_r d)) + sint (e_start_offset m e)"
    by (simp add: b block_base_def)
  have "imdr_entry_at m d e = word_of_int (block_base (blocks m d ! i))"
    unfolding imdr_entry_at_def relative_pointer_def imdr_root_def scast_u32_u64 bb by simp
  then show at: "imdr_entry_at m d (root_entry (imd_r d) (of_nat i)) = of_nat (nat (block_base (blocks m d ! i)))"
    unfolding e_def using nn by simp
  have "nat (block_base (blocks m d ! i)) < 2 ^ 64"
    using le nn uint_lt_64 [of "imd_limit d"] by (simp add: nat_less_iff)
  then show "unat (imdr_entry_at m d (root_entry (imd_r d) (of_nat i))) = nat (block_base (blocks m d ! i))"
    unfolding at by (rule unat_of_nat_64)
  show "imdr_entry_size m (root_entry (imd_r d) (of_nat i)) = of_nat (block_size (blocks m d ! i))"
    unfolding e_def [symmetric] imdr_entry_size_def b block_size_def by simp
qed

lemma block_size_lt: "i < length (blocks m d) \<Longrightarrow> block_size (blocks m d ! i) < 2 ^ 32"
  using unsigned_less [of "e_size m (root_entry (imd_r d) (of_nat i))", where 'a = nat]
  by (simp add: length_blocks nth_blocks ent_block_def block_size_def Let_def)

lemma recover_entries_ok:
  assumes ok: "imdr_ok m d" and low: "int (unat low) = low_bound m d"
    and k: "i + k \<le> length (blocks m d)"
  shows "recover_entries m (imd_r d) low (imd_limit d) (of_nat i) k"
  using k
proof (induction k arbitrary: i)
  case (Suc k)
  then have i: "i < length (blocks m d)" by linarith
  note E = entry_address [OF ok i]
  have magic: "e_magic m (root_entry (imd_r d) (of_nat i)) = IMD_ENTRY_MAGIC"
    using imdr_okD(6) [OF ok, of i] i by (simp add: length_blocks entry_ok_def)
  define w where "w = imdr_entry_at m d (root_entry (imd_r d) (of_nat i))"
  have w: "relative_pointer (imd_r d) (scast (e_start_offset m (root_entry (imd_r d) (of_nat i)))) = w"
    by (simp add: w_def imdr_entry_at_def imdr_root_def)
  obtain b sz where bs: "b = nat (block_base (blocks m d ! i))" "sz = block_size (blocks m d ! i)" by blast
  have uw: "unat w = b" using E(2) by (simp add: w_def bs)
  have ib: "int b = block_base (blocks m d ! i)" using E(4) by (simp add: bs)
  have le: "b + sz \<le> unat (imd_limit d)"
  proof -
    have "int (b + sz) \<le> int (unat (imd_limit d))" using E(5) ib bs(2) by simp
    then show ?thesis by (simp only: of_nat_le_iff)
  qed
  have lo: "unat low \<le> b"
  proof -
    have "int (unat low) \<le> int b" using E(6) ib low by simp
    then show ?thesis by (simp only: of_nat_le_iff)
  qed
  have usz: "ucast (e_size m (root_entry (imd_r d) (of_nat i))) = (of_nat sz :: u64)"
    using E(3) by (simp add: imdr_entry_size_def bs)
  have "unat (of_nat sz :: u64) = sz" using block_size_lt [OF i] bs by (intro unat_of_nat_64) simp
  then have "unat (w + of_nat sz) = b + sz"
    using uw le unat_lt_64 [of "imd_limit d"] by (subst unat_add_no_wrap) simp_all
  with uw le lo E(7) bs have g: "\<not> w < low" "\<not> imd_limit d \<le> w" "\<not> imd_limit d < w + of_nat sz"
    by (simp_all add: unat_simps)
  have "recover_entries m (imd_r d) low (imd_limit d) (of_nat (Suc i)) k"
    by (rule Suc.IH) (use Suc.prems in simp)
  then have "recover_entries m (imd_r d) low (imd_limit d) (of_nat i + 1) k" by (simp add: add.commute)
  then show ?case using g magic by (simp add: Let_def w usz)
qed simp

lemma IS_POWER_OF_2_pow: "IS_POWER_OF_2 (2 ^ k :: 'a::len word)"
proof -
  have "(2 ^ k :: 'a word) AND mask k = 0"
    by (rule bit_word_eqI) (auto simp: bit_simps)
  then show ?thesis by (simp add: IS_POWER_OF_2_def mask_eq_exp_minus_1)
qed

lemma root_from_pointer:
  assumes "imdr_ok m d"
  shows "relative_pointer (imdr_get_root_pointer d) (scast (rp_root_offset m (imdr_get_root_pointer d))) = imd_r d"
    "imd_limit d \<noteq> 0" "imd_root_pointer_valid m (imdr_get_root_pointer d)"
  using imdr_okD(1) [OF assms]
  by (auto simp: root_layout_def relative_pointer_def imd_root_pointer_valid_def)

lemma imdr_get_root_pointer_upd [simp]: "imdr_get_root_pointer (d\<lparr>imd_r := x\<rparr>) = imdr_get_root_pointer d"
  by (simp add: imdr_get_root_pointer_def)

text \<open>Whatever the handle said before, recovery finds the root of a well-formed region.\<close>

lemma imdr_recover_ok:
  assumes ok: "imdr_ok m d"
  shows "imdr_recover m (d\<lparr>imd_r := x\<rparr>) = (True, d)"
proof -
  note D = imdr_okD [OF ok] and R = root_from_pointer [OF ok] and sz = root_layout_bounds [OF D(1)]
  obtain mx where mx: "mx = unat (r_max_entries m (imd_r d))" by blast
  have lay: "28 + 16 * mx \<le> root_size_of d" "root_size_of d \<le> 44 + 16 * mx" "root_size_of d \<le> 4096"
    using D(1) unfolding root_layout_def mx by simp_all
  have fit: "\<not> 16 < imdr_get_root_pointer d - root_entry (imd_r d) (ucast (r_max_entries m (imd_r d)))"
  proof -
    have lim: "imd_limit d = imd_r d + of_nat (root_size_of d)"
      unfolding root_size_of_def using sz(3) by (simp add: of_nat_diff)
    have "root_entry (imd_r d) (ucast (r_max_entries m (imd_r d))) = imd_r d + of_nat (20 + 16 * mx)"
      by (simp only: ucast_u32_nat mx root_entry_of_nat)
    then have "imdr_get_root_pointer d - root_entry (imd_r d) (ucast (r_max_entries m (imd_r d))) =
        of_nat (root_size_of d) - of_nat (28 + 16 * mx)"
      by (simp add: imdr_get_root_pointer_def relative_pointer_def lim)
    also have "\<dots> = of_nat (root_size_of d - (28 + 16 * mx))" using lay by (simp only: of_nat_diff)
    finally have "imdr_get_root_pointer d - root_entry (imd_r d) (ucast (r_max_entries m (imd_r d))) =
        of_nat (root_size_of d - (28 + 16 * mx))" .
    moreover have "unat (of_nat (root_size_of d - (28 + 16 * mx)) :: u64) = root_size_of d - (28 + 16 * mx)"
      by (rule unat_of_nat_64) (use lay in simp)
    ultimately show ?thesis using lay by (simp add: word_less_nat_alt)
  qed
  have nm: "\<not> r_max_entries m (imd_r d) < r_num_entries m (imd_r d)"
    using D(11) by (simp add: word_less_nat_alt not_less)
  have p2: "IS_POWER_OF_2 (r_entry_align m (imd_r d))" using D(2) IS_POWER_OF_2_pow by auto
  define low0 where "low0 = relative_pointer (imd_r d) (scast (r_max_offset m (imd_r d)))"
  have low: "int (unat (if low0 = imd_r d then 0 else low0)) = low_bound m d"
  proof (cases "r_max_offset m (imd_r d) = 0")
    case True
    then show ?thesis by (simp add: low0_def relative_pointer_def low_bound_def)
  next
    case False
    define mo where "mo = sint (r_max_offset m (imd_r d))"
    have mo0: "mo \<noteq> 0" using False by (simp add: mo_def signed_eq_0_iff)
    have lb: "low_bound m d = int (unat (imd_r d)) + mo" using False by (simp add: low_bound_def mo_def)
    have "low0 = word_of_int (low_bound m d)"
      unfolding low0_def relative_pointer_def scast_u32_u64 lb mo_def by simp
    then have l0: "low0 = of_nat (nat (low_bound m d))" using D(5) by simp
    have "nat (low_bound m d) < 2 ^ 64"
      using D(4,5) lb uint_lt_64 [of "imd_r d"] by (simp add: nat_less_iff mo_def)
    then have u: "unat low0 = nat (low_bound m d)" unfolding l0 by (rule unat_of_nat_64)
    then have "int (unat low0) = low_bound m d" using D(5) by simp
    moreover from this have "low0 \<noteq> imd_r d" using lb mo0 by auto
    ultimately show ?thesis by simp
  qed
  have rec: "recover_entries m (imd_r d) (if low0 = imd_r d then 0 else low0) (imd_limit d) 0
      (unat (r_num_entries m (imd_r d)))"
    using recover_entries_ok [OF ok low, of 0 "unat (r_num_entries m (imd_r d))"] by (simp add: length_blocks)
  show ?thesis
    using R(2,3) fit nm p2 rec by (simp add: imdr_recover_def Let_def R(1) low0_def [symmetric])
qed

subsection \<open>The directory as a whole\<close>

text \<open>
  A large region, and possibly a small one inside the block its entry \<^verbatim>\<open>SMALL_REGION_ID\<close> describes.
  \<open>client_blocks\<close> are the allocations handed out: neither a root block nor the small region itself.
\<close>

definition imd_ok :: "memory \<Rightarrow> imd \<Rightarrow> bool" where
  "imd_ok m I \<longleftrightarrow>
     imdr_ok m (imd_lg I) \<and>
     (case index_of SMALL_REGION_ID (blocks m (imd_lg I)) of
        None \<Rightarrow> imd_sm I = \<lparr>imd_limit = 0, imd_r = 0\<rparr>
      | Some j \<Rightarrow>
          imdr_ok m (imd_sm I) \<and> r_max_offset m (imd_r (imd_sm I)) \<noteq> 0 \<and>
          block_base (blocks m (imd_lg I) ! j) \<le> low_bound m (imd_sm I) \<and>
          int (unat (imd_limit (imd_sm I))) =
            block_base (blocks m (imd_lg I) ! j) + int (block_size (blocks m (imd_lg I) ! j)))"

definition small_blocks :: "memory \<Rightarrow> imd \<Rightarrow> block list" where
  "small_blocks m I = (if imd_r (imd_sm I) = 0 then [] else blocks m (imd_sm I))"

definition client_blocks :: "memory \<Rightarrow> imd \<Rightarrow> block list" where
  "client_blocks m I =
     filter (\<lambda>b. fst b \<noteq> SMALL_REGION_ID) (tl (blocks m (imd_lg I))) @ tl (small_blocks m I)"

definition blk_apart :: "block \<Rightarrow> block \<Rightarrow> bool" where
  "blk_apart a b \<longleftrightarrow>
     block_base a + int (block_size a) \<le> block_base b \<or> block_base b + int (block_size b) \<le> block_base a"

lemma stack_ok_sorted: "stack_ok low hi bs \<Longrightarrow> sorted_wrt blk_apart bs"
proof (induction bs arbitrary: hi)
  case (Cons c bs)
  then show ?case using stack_ok_mem [of low "block_base c" bs] by (auto simp: blk_apart_def)
qed simp

lemma sorted_wrt_tl: "sorted_wrt P xs \<Longrightarrow> sorted_wrt P (tl xs)"
  by (cases xs) auto

lemma small_region:
  assumes ok: "imd_ok m I" and j: "index_of SMALL_REGION_ID (blocks m (imd_lg I)) = Some j"
  defines "s \<equiv> blocks m (imd_lg I) ! j"
  shows "imdr_ok m (imd_sm I)" "1 \<le> j" "j < length (blocks m (imd_lg I))" "fst s = SMALL_REGION_ID"
    "int (unat (imd_limit (imd_sm I))) = block_base s + int (block_size s)"
    "block_base s \<le> low_bound m (imd_sm I)"
    "b \<in> set (blocks m (imd_sm I)) \<Longrightarrow>
       block_base s \<le> block_base b \<and> block_base b + int (block_size b) \<le> block_base s + int (block_size s)"
    "block_base s + int (block_size s) \<le> int (unat (imd_r (imd_lg I)))"
    "r_max_offset m (imd_r (imd_sm I)) \<noteq> 0"
proof -
  show S: "imdr_ok m (imd_sm I)" "block_base s \<le> low_bound m (imd_sm I)"
    "int (unat (imd_limit (imd_sm I))) = block_base s + int (block_size s)"
    "r_max_offset m (imd_r (imd_sm I)) \<noteq> 0"
    using ok j by (simp_all add: imd_ok_def s_def)
  show J: "1 \<le> j" "j < length (blocks m (imd_lg I))" "fst s = SMALL_REGION_ID"
    using j by (simp_all add: index_of_Some s_def)
  have lg: "imdr_ok m (imd_lg I)" using ok by (simp add: imd_ok_def)
  show "block_base s + int (block_size s) \<le> int (unat (imd_r (imd_lg I)))"
    using stack_ok_nth [OF imdr_okD(7) [OF lg], of 0 j] J imdr_okD(8,13) [OF lg]
    by (simp add: s_def hd_conv_nth)
  assume b: "b \<in> set (blocks m (imd_sm I))"
  from stack_ok_mem [OF imdr_okD(7) [OF S(1)] b] S(2,3)
  show "block_base s \<le> block_base b \<and> block_base b + int (block_size b) \<le> block_base s + int (block_size s)"
    by linarith
qed

lemma small_blocks_eq:
  assumes "imd_ok m I"
  shows "small_blocks m I =
    (if index_of SMALL_REGION_ID (blocks m (imd_lg I)) = None then [] else blocks m (imd_sm I))"
  using assms imdr_okD(14) [of m "imd_sm I"] by (auto simp: imd_ok_def small_blocks_def split: option.splits)

lemma root_blocks:
  assumes "imdr_ok m d"
  shows "blocks m d = hd (blocks m d) # tl (blocks m d)" "block_base (hd (blocks m d)) = int (unat (imd_r d))"
    "block_base (hd (blocks m d)) + int (block_size (hd (blocks m d))) = int (unat (imd_limit d))"
proof -
  have "int (unat (imd_r d)) + int (root_size_of d) = int (unat (imd_limit d))"
    using root_layout_bounds(5) [OF imdr_okD(1) [OF assms]] by (simp only: of_nat_add [symmetric])
  then show "blocks m d = hd (blocks m d) # tl (blocks m d)" "block_base (hd (blocks m d)) = int (unat (imd_r d))"
    "block_base (hd (blocks m d)) + int (block_size (hd (blocks m d))) = int (unat (imd_limit d))"
    using imdr_okD(8,9,13) [OF assms] by auto
qed

text \<open>Everything allocated is disjoint, and disjoint from the root blocks.\<close>

lemma client_blocks_disjoint:
  assumes ok: "imd_ok m I"
  shows "sorted_wrt blk_apart (client_blocks m I)"
    and "\<forall>b\<in>set (client_blocks m I). blk_apart b (hd (blocks m (imd_lg I))) \<and>
      (small_blocks m I \<noteq> [] \<longrightarrow> blk_apart b (hd (small_blocks m I))) \<and>
      0 < block_size b \<and> 0 \<le> block_base b \<and> block_base b + int (block_size b) \<le> int (unat (imd_limit (imd_lg I)))"
proof -
  let ?L = "blocks m (imd_lg I)" and ?S = "blocks m (imd_sm I)"
  have lg: "imdr_ok m (imd_lg I)" using ok by (simp add: imd_ok_def)
  note D = imdr_okD [OF lg] and R = root_blocks [OF lg]
  have L: "sorted_wrt blk_apart (hd ?L # tl ?L)" using stack_ok_sorted [OF D(7)] R(1) by simp
  have hl: "blk_apart b (hd ?L) \<and> 0 < block_size b \<and> 0 \<le> block_base b \<and>
      block_base b + int (block_size b) \<le> int (unat (imd_limit (imd_lg I)))" if "b \<in> set (tl ?L)" for b
  proof -
    have "b \<in> set ?L" using that R(1) by (metis list.set_intros(2))
    then show ?thesis using L that stack_ok_mem [OF D(7), of b] D(5) by (auto simp: blk_apart_def)
  qed
  let ?c = "filter (\<lambda>b. fst b \<noteq> SMALL_REGION_ID) (tl ?L)"
  have c: "sorted_wrt blk_apart ?c" using L by (simp add: sorted_wrt_filter)
  have "sorted_wrt blk_apart (client_blocks m I) \<and>
    (\<forall>b\<in>set (client_blocks m I). blk_apart b (hd ?L) \<and>
      (small_blocks m I \<noteq> [] \<longrightarrow> blk_apart b (hd (small_blocks m I))) \<and>
      0 < block_size b \<and> 0 \<le> block_base b \<and> block_base b + int (block_size b) \<le> int (unat (imd_limit (imd_lg I))))"
  proof (cases "index_of SMALL_REGION_ID ?L")
    case None
    then have "small_blocks m I = []" by (simp add: small_blocks_eq [OF ok])
    with c hl show ?thesis by (auto simp: client_blocks_def)
  next
    case (Some j)
    note S = small_region [OF ok Some]
    have sb: "small_blocks m I = ?S" using Some by (simp add: small_blocks_eq [OF ok])
    note DS = imdr_okD [OF S(1)] and RS = root_blocks [OF S(1)]
    have sm: "sorted_wrt blk_apart (hd ?S # tl ?S)" using stack_ok_sorted [OF DS(7)] RS(1) by simp
    have cross: "blk_apart b c" if b: "b \<in> set (tl ?L)" "fst b \<noteq> SMALL_REGION_ID" and c: "c \<in> set ?S" for b c
    proof -
      obtain i where i: "i < length (tl ?L)" "b = tl ?L ! i" using b(1) by (metis in_set_conv_nth)
      then have bi: "Suc i < length ?L" "b = ?L ! Suc i" by (simp_all add: nth_tl)
      with b(2) S(4) have "Suc i \<noteq> j" by auto
      then consider "Suc i < j" | "j < Suc i" by linarith
      then have "blk_apart b (?L ! j)"
        by cases (use stack_ok_nth [OF D(7)] bi S(3) in \<open>auto simp: blk_apart_def\<close>)
      with S(7) [OF c] show ?thesis by (auto simp: blk_apart_def)
    qed
    have tls: "c \<in> set (tl ?S) \<Longrightarrow> c \<in> set ?S" for c by (metis list.sel(2) list.set_sel(2))
    have hs: "hd ?S \<in> set ?S" using DS(13) by simp
    have inl: "blk_apart c (hd ?L) \<and> 0 < block_size c \<and> 0 \<le> block_base c \<and>
        block_base c + int (block_size c) \<le> int (unat (imd_limit (imd_lg I)))" if "c \<in> set ?S" for c
      using S(7) [OF that] S(8) R(2,3) stack_ok_mem [OF DS(7) that] DS(5) by (auto simp: blk_apart_def)
    have srt: "sorted_wrt blk_apart (client_blocks m I)"
      using c sm cross tls by (auto simp: client_blocks_def sb sorted_wrt_append)
    have sym: "blk_apart a b \<Longrightarrow> blk_apart b a" for a b by (auto simp: blk_apart_def)
    have "\<forall>b\<in>set (client_blocks m I). blk_apart b (hd ?L) \<and>
      (small_blocks m I \<noteq> [] \<longrightarrow> blk_apart b (hd (small_blocks m I))) \<and>
      0 < block_size b \<and> 0 \<le> block_base b \<and> block_base b + int (block_size b) \<le> int (unat (imd_limit (imd_lg I)))"
    proof
      fix b assume "b \<in> set (client_blocks m I)"
      then consider (l) "b \<in> set (tl ?L)" "fst b \<noteq> SMALL_REGION_ID" | (s) "b \<in> set (tl ?S)"
        by (auto simp: client_blocks_def sb)
      then show "blk_apart b (hd ?L) \<and> (small_blocks m I \<noteq> [] \<longrightarrow> blk_apart b (hd (small_blocks m I))) \<and>
        0 < block_size b \<and> 0 \<le> block_base b \<and> block_base b + int (block_size b) \<le> int (unat (imd_limit (imd_lg I)))"
      proof cases
        case l
        then show ?thesis using hl [OF l(1)] cross [OF l hs] by (simp add: sb)
      next
        case s
        then have "blk_apart (hd ?S) b" using sm by simp
        then show ?thesis using inl [OF tls [OF s]] sym by (simp add: sb)
      qed
    qed
    with srt show ?thesis ..
  qed
  then show "sorted_wrt blk_apart (client_blocks m I)"
    "\<forall>b\<in>set (client_blocks m I). blk_apart b (hd ?L) \<and>
      (small_blocks m I \<noteq> [] \<longrightarrow> blk_apart b (hd (small_blocks m I))) \<and>
      0 < block_size b \<and> 0 \<le> block_base b \<and> block_base b + int (block_size b) \<le> int (unat (imd_limit (imd_lg I)))"
    by blast+
qed

text \<open>The root blocks of the two regions do not meet.\<close>

lemma roots_apart:
  assumes ok: "imd_ok m I" and j: "index_of SMALL_REGION_ID (blocks m (imd_lg I)) = Some j"
  shows "apart (imd_r (imd_lg I)) (root_size_of (imd_lg I)) (imd_r (imd_sm I)) (root_size_of (imd_sm I))"
    "apart (imd_r (imd_sm I)) (root_size_of (imd_sm I)) (imd_r (imd_lg I)) (root_size_of (imd_lg I))"
proof -
  note S = small_region [OF ok j]
  have lg: "imdr_ok m (imd_lg I)" using ok by (simp add: imd_ok_def)
  have "int (unat (imd_limit (imd_sm I))) \<le> int (unat (imd_r (imd_lg I)))" using S(5,8) by linarith
  then have le: "unat (imd_limit (imd_sm I)) \<le> unat (imd_r (imd_lg I))" by (simp only: of_nat_le_iff)
  have e: "unat (imd_r (imd_lg I)) + root_size_of (imd_lg I) = unat (imd_limit (imd_lg I))"
    "unat (imd_r (imd_sm I)) + root_size_of (imd_sm I) = unat (imd_limit (imd_sm I))"
    using root_layout_bounds(5) [OF imdr_okD(1) [OF lg]] root_layout_bounds(5) [OF imdr_okD(1) [OF S(1)]] .
  have lt: "unat (imd_limit (imd_lg I)) \<le> 2 ^ 64" "unat (imd_limit (imd_sm I)) \<le> 2 ^ 64"
    using unat_lt_64 [of "imd_limit (imd_lg I)"] unat_lt_64 [of "imd_limit (imd_sm I)"] by simp_all
  show "apart (imd_r (imd_lg I)) (root_size_of (imd_lg I)) (imd_r (imd_sm I)) (root_size_of (imd_sm I))"
    "apart (imd_r (imd_sm I)) (root_size_of (imd_sm I)) (imd_r (imd_lg I)) (root_size_of (imd_lg I))"
    by (rule apartI, use e lt le in linarith, use e lt le in linarith, use e lt le in linarith)+
qed

lemma small_limit:
  assumes ok: "imd_ok m I" and j: "index_of SMALL_REGION_ID (blocks m (imd_lg I)) = Some j"
  shows "imdr_entry_at m (imd_lg I) (root_entry (imd_r (imd_lg I)) (of_nat j)) +
    imdr_entry_size m (root_entry (imd_r (imd_lg I)) (of_nat j)) = imd_limit (imd_sm I)"
proof -
  have lg: "imdr_ok m (imd_lg I)" using ok by (simp add: imd_ok_def)
  note S = small_region [OF ok j]
  note E = entry_address [OF lg S(3)]
  obtain b sz where bs: "b = nat (block_base (blocks m (imd_lg I) ! j))" "sz = block_size (blocks m (imd_lg I) ! j)"
    by blast
  have "int (unat (imd_limit (imd_sm I))) = int (b + sz)" using S(5) E(4) by (simp add: bs)
  then have "unat (imd_limit (imd_sm I)) = b + sz" by (simp only: of_nat_eq_iff)
  then have "(of_nat (b + sz) :: u64) = of_nat (unat (imd_limit (imd_sm I)))" by simp
  then show ?thesis unfolding E(1,3) bs [symmetric] by simp
qed

lemma imd_recover_eq:
  assumes ok: "imd_ok m I" and J: "imd_limit (imd_lg J) = imd_limit (imd_lg I)"
    "imd_sm J = \<lparr>imd_limit = 0, imd_r = 0\<rparr>"
  shows "imd_recover m J = (True, I)"
proof -
  have lg: "imdr_ok m (imd_lg I)" using ok by (simp add: imd_ok_def)
  have "imd_lg J = (imd_lg I)\<lparr>imd_r := imd_r (imd_lg J)\<rparr>" using J(1) by simp
  then have rl: "imdr_recover m (imd_lg J) = (True, imd_lg I)" using imdr_recover_ok [OF lg] by metis
  show ?thesis
  proof (cases "index_of SMALL_REGION_ID (blocks m (imd_lg I))")
    case None
    with ok have "imd_sm I = \<lparr>imd_limit = 0, imd_r = 0\<rparr>" by (simp add: imd_ok_def)
    with J(2) None show ?thesis
      by (simp add: imd_recover_def rl imdr_entry_find_eq [OF lg])
  next
    case (Some j)
    note S = small_region [OF ok Some]
    note lim = small_limit [OF ok Some]
    have "imdr_recover m \<lparr>imd_limit = imd_limit (imd_sm I), imd_r = 0\<rparr> = (True, imd_sm I)"
      using imdr_recover_ok [OF S(1), of 0] by (metis imdr.cases imdr.select_convs(1) imdr.update_convs(2))
    with Some J(2) show ?thesis
      by (simp add: imd_recover_def rl imdr_entry_find_eq [OF lg] lim)
  qed
qed

lemma partial_recovery_eq:
  assumes ok: "imd_ok m I" and J: "imd_limit (imd_lg J) = imd_limit (imd_lg I)"
    and al: "ALIGN_DOWN (imd_limit (imd_lg I)) LIMIT_ALIGN = imd_limit (imd_lg I)"
  shows "imd_handle_init_partial_recovery m J = I"
proof -
  have lg: "imdr_ok m (imd_lg I)" using ok by (simp add: imd_ok_def)
  note R = root_from_pointer [OF lg]
  let ?L = "imd_limit (imd_lg I)"
  have h: "imd_handle_init ?L = \<lparr>imd_lg = \<lparr>imd_limit = ?L, imd_r = 0\<rparr>, imd_sm = \<lparr>imd_limit = 0, imd_r = 0\<rparr>\<rparr>"
    by (simp add: imd_handle_init_def imdr_init_def al) (simp add: ALIGN_DOWN_def)
  have p: "imdr_get_root_pointer \<lparr>imd_limit = ?L, imd_r = 0\<rparr> = imdr_get_root_pointer (imd_lg I)"
    by (simp add: imdr_get_root_pointer_def)
  have lg': "\<lparr>imd_limit = ?L, imd_r = imd_r (imd_lg I)\<rparr> = imd_lg I" by simp
  show ?thesis
  proof (cases "index_of SMALL_REGION_ID (blocks m (imd_lg I))")
    case None
    with ok have "imd_sm I = \<lparr>imd_limit = 0, imd_r = 0\<rparr>" by (simp add: imd_ok_def)
    with J R(2) None show ?thesis
      by (simp add: imd_handle_init_partial_recovery_def Let_def h p R(1) lg' imdr_entry_find_eq [OF lg])
  next
    case (Some j)
    note S = small_region [OF ok Some]
    note lim = small_limit [OF ok Some]
    have p2: "imdr_get_root_pointer \<lparr>imd_limit = imd_limit (imd_sm I), imd_r = 0\<rparr> = imdr_get_root_pointer (imd_sm I)"
      by (simp add: imdr_get_root_pointer_def)
    from Some J R(2) show ?thesis
      by (simp add: imd_handle_init_partial_recovery_def Let_def h p R(1) lg' imdr_entry_find_eq [OF lg] lim p2
          root_from_pointer(1) [OF S(1)])
  qed
qed

text \<open>A write that leaves the root blocks alone leaves the directory alone.\<close>

lemma imd_ok_same:
  assumes ok: "imd_ok m I"
    and same: "same_on m m' (imd_r (imd_lg I)) (root_size_of (imd_lg I))"
    and small: "index_of SMALL_REGION_ID (blocks m (imd_lg I)) \<noteq> None \<Longrightarrow>
      same_on m m' (imd_r (imd_sm I)) (root_size_of (imd_sm I))"
  shows "imd_ok m' I" "blocks m' (imd_lg I) = blocks m (imd_lg I)"
    "small_blocks m' I = small_blocks m I" "client_blocks m' I = client_blocks m I"
proof -
  have lg: "imdr_ok m (imd_lg I)" using ok by (simp add: imd_ok_def)
  note L = imdr_ok_same_on [OF lg same]
  show bl: "blocks m' (imd_lg I) = blocks m (imd_lg I)" by (rule L(2))
  have "imd_ok m' I \<and> small_blocks m' I = small_blocks m I"
  proof (cases "index_of SMALL_REGION_ID (blocks m (imd_lg I))")
    case None
    with ok L show ?thesis by (simp add: imd_ok_def small_blocks_def)
  next
    case (Some j)
    then have sm: "same_on m m' (imd_r (imd_sm I)) (root_size_of (imd_sm I))" using small by simp
    note S = small_region [OF ok Some]
    have f: "r_max_offset m' (imd_r (imd_sm I)) = r_max_offset m (imd_r (imd_sm I))"
      using same_on_r_fields [OF sm root_layout_bounds(1) [OF imdr_okD(1) [OF S(1)]]] by simp
    then have lb: "low_bound m' (imd_sm I) = low_bound m (imd_sm I)" by (simp add: low_bound_def)
    show ?thesis
      using imdr_ok_same_on [OF S(1) sm] ok L Some f lb by (simp add: imd_ok_def small_blocks_def)
  qed
  then show "imd_ok m' I" "small_blocks m' I = small_blocks m I" by simp_all
  then show "client_blocks m' I = client_blocks m I" by (simp add: client_blocks_def bl)
qed

definition in_block :: "block \<Rightarrow> addr \<Rightarrow> bool" where
  "in_block b x \<longleftrightarrow> block_base b \<le> int (unat x) \<and> int (unat x) < block_base b + int (block_size b)"

lemma in_root_block:
  assumes "imdr_ok m d" "i < root_size_of d"
  shows "in_block (hd (blocks m d)) (imd_r d + of_nat i)"
proof -
  have e: "unat (imd_r d) + root_size_of d = unat (imd_limit d)"
    by (rule root_layout_bounds(5) [OF imdr_okD(1) [OF assms(1)]])
  have "unat (imd_r d) + i < 2 ^ 64" using e assms(2) unat_lt_64 [of "imd_limit d"] by simp
  then have "unat (imd_r d + of_nat i) = unat (imd_r d) + i"
    by (simp add: unat_add_no_wrap unat_of_nat_64)
  then show ?thesis
    using assms(2) imdr_okD(8,9) [OF assms(1)] by (simp add: in_block_def)
qed

lemma client_writes_same:
  assumes ok: "imd_ok m I" and w: "\<forall>x. m' x \<noteq> m x \<longrightarrow> (\<exists>b\<in>set (client_blocks m I). in_block b x)"
  shows "imd_ok m' I" "client_blocks m' I = client_blocks m I"
    "blocks m' (imd_lg I) = blocks m (imd_lg I)" "small_blocks m' I = small_blocks m I"
proof -
  note A = client_blocks_disjoint(2) [OF ok]
  have off: "m (imd_r d + of_nat i) = m' (imd_r d + of_nat i)"
    if d: "imdr_ok m d" "\<forall>b\<in>set (client_blocks m I). blk_apart b (hd (blocks m d))" "i < root_size_of d" for d i
  proof (rule ccontr)
    assume "m (imd_r d + of_nat i) \<noteq> m' (imd_r d + of_nat i)"
    with w obtain b where b: "b \<in> set (client_blocks m I)" "in_block b (imd_r d + of_nat i)" by metis
    with d(2) in_root_block [OF d(1,3)] show False by (auto simp: blk_apart_def in_block_def)
  qed
  have lg: "imdr_ok m (imd_lg I)" using ok by (simp add: imd_ok_def)
  have l: "same_on m m' (imd_r (imd_lg I)) (root_size_of (imd_lg I))"
    using off [OF lg] A by (simp add: same_on_def)
  have s: "same_on m m' (imd_r (imd_sm I)) (root_size_of (imd_sm I))"
    if j: "index_of SMALL_REGION_ID (blocks m (imd_lg I)) \<noteq> None"
  proof -
    have sm: "imdr_ok m (imd_sm I)" using ok j by (auto simp: imd_ok_def)
    have "small_blocks m I = blocks m (imd_sm I)" using j unfolding small_blocks_eq [OF ok] by (rule if_not_P)
    then have "\<forall>b\<in>set (client_blocks m I). blk_apart b (hd (blocks m (imd_sm I)))"
      using A imdr_okD(13) [OF sm] by auto
    with off [OF sm] show ?thesis by (simp add: same_on_def)
  qed
  show "imd_ok m' I" "client_blocks m' I = client_blocks m I"
    "blocks m' (imd_lg I) = blocks m (imd_lg I)" "small_blocks m' I = small_blocks m I"
    using imd_ok_same [OF ok l s] by simp_all
qed

subsection \<open>Entry pointers\<close>

lemma entry_index:
  assumes "i < 2 ^ 32"
  shows "signed_drop_bit 4 (root_entry r (of_nat i) - root_entry r 0) = (of_nat i :: u64)"
proof -
  have "root_entry r (of_nat i) - root_entry r 0 = word_of_int (16 * int i)"
    by (simp add: root_entry_def)
  moreover have "sint (word_of_int (16 * int i) :: u64) = 16 * int i"
    by (rule sint_of_int_u64) (use assms in simp_all)
  ultimately have "sint (signed_drop_bit 4 (root_entry r (of_nat i) - root_entry r 0)) = int i"
    by (simp add: sint_signed_drop_bit_eq drop_bit_eq_div)
  then have "(word_of_int (sint (signed_drop_bit 4 (root_entry r (of_nat i) - root_entry r 0))) :: u64) = of_nat i"
    by simp
  then show ?thesis by simp
qed

lemma own_entry:
  assumes ok: "imdr_ok m d" and i: "i < length (blocks m d)"
  shows "imdr_has_entry m d (root_entry (imd_r d) (of_nat i))"
proof -
  note D = imdr_okD [OF ok]
  have n: "i < unat (r_num_entries m (imd_r d))" "unat (r_num_entries m (imd_r d)) \<le> 254"
    using i D(11,12) by (simp_all add: length_blocks)
  have "(ucast (r_num_entries m (imd_r d)) :: u64) = of_nat (unat (r_num_entries m (imd_r d)))" by simp
  moreover have "unat (of_nat (unat (r_num_entries m (imd_r d))) :: u64) = unat (r_num_entries m (imd_r d))"
    using n by (intro unat_of_nat_64) simp
  moreover have "unat (of_nat i :: u64) = i" using n by (intro unat_of_nat_64) simp
  ultimately have "\<not> ucast (r_num_entries m (imd_r d)) \<le> (of_nat i :: u64)"
    using n by (simp only: word_le_nat_alt not_le)
  then show ?thesis
    using D(14) entry_index [of i "imd_r d"] n by (simp add: imdr_has_entry_def imdr_root_def Let_def)
qed

text \<open>An entry of a region below is at a negative index, which is no entry of this one.\<close>

lemma lower_entry:
  assumes ok: "imdr_ok m d" and e: "unat e < unat (imd_r d)" "unat (imd_r d) \<le> unat e + 2 ^ 32"
  shows "\<not> imdr_has_entry m d e"
proof -
  note D = imdr_okD [OF ok]
  define k where "k = int (unat e) - int (unat (imd_r d)) - 20"
  have k: "k < 0" "- (2 ^ 33) < k"
  proof -
    have "int (unat e) < int (unat (imd_r d))" using e(1) by (simp only: of_nat_less_iff)
    then show "k < 0" by (simp add: k_def)
    have "int (unat (imd_r d)) \<le> int (unat e + 2 ^ 32)" using e(2) by (simp only: of_nat_le_iff)
    then show "- (2 ^ 33) < k" by (simp add: k_def)
  qed
  have "e - root_entry (imd_r d) 0 = word_of_int k" by (simp add: root_entry_def k_def)
  moreover have "sint (word_of_int k :: u64) = k" by (rule sint_of_int_u64) (use k in simp_all)
  ultimately have s: "sint (signed_drop_bit 4 (e - root_entry (imd_r d) 0)) = k div 16"
    by (simp add: sint_signed_drop_bit_eq drop_bit_eq_div)
  have neg: "k div 16 < 0" "- (2 ^ 33) \<le> k div 16" using k by simp_all
  have "unat (signed_drop_bit 4 (e - root_entry (imd_r d) 0)) \<ge> 2 ^ 63"
  proof (rule ccontr)
    assume "\<not> ?thesis"
    then have "int (unat (signed_drop_bit 4 (e - root_entry (imd_r d) 0))) < int (2 ^ 63)"
      by (simp only: not_le of_nat_less_iff)
    then have lt: "int (unat (signed_drop_bit 4 (e - root_entry (imd_r d) 0))) < 2 ^ 63" by simp
    have "sint (word_of_int (int (unat (signed_drop_bit 4 (e - root_entry (imd_r d) 0)))) :: u64) =
        int (unat (signed_drop_bit 4 (e - root_entry (imd_r d) 0)))"
      by (rule sint_of_int_u64, rule order_trans [OF _ of_nat_0_le_iff], simp, rule lt)
    with s neg show False by simp
  qed
  then have "254 \<le> unat (signed_drop_bit 4 (e - root_entry (imd_r d) 0))" by (rule order_trans [rotated]) simp
  moreover have "unat (ucast (r_num_entries m (imd_r d)) :: u64) \<le> 254"
  proof -
    have n: "unat (r_num_entries m (imd_r d)) \<le> 254" using D(11,12) by linarith
    have "(ucast (r_num_entries m (imd_r d)) :: u64) = of_nat (unat (r_num_entries m (imd_r d)))" by simp
    moreover have "unat (of_nat (unat (r_num_entries m (imd_r d))) :: u64) = unat (r_num_entries m (imd_r d))"
      using n by (intro unat_of_nat_64) simp
    ultimately show ?thesis using n by (simp only:)
  qed
  ultimately have "ucast (r_num_entries m (imd_r d)) \<le> signed_drop_bit 4 (e - root_entry (imd_r d) 0)"
    unfolding word_le_nat_alt by linarith
  then show ?thesis using D(14) by (simp add: imdr_has_entry_def imdr_root_def Let_def)
qed

lemma entry_to_imdr_lg:
  assumes "imd_ok m I" "i < length (blocks m (imd_lg I))"
  shows "imd_entry_to_imdr m I (root_entry (imd_r (imd_lg I)) (of_nat i)) = Some (imd_lg I)"
  using assms own_entry by (simp add: imd_entry_to_imdr_def imd_ok_def)

lemma entry_to_imdr_sm:
  assumes ok: "imd_ok m I" and j: "index_of SMALL_REGION_ID (blocks m (imd_lg I)) = Some j"
    and i: "i < length (blocks m (imd_sm I))"
  shows "imd_entry_to_imdr m I (root_entry (imd_r (imd_sm I)) (of_nat i)) = Some (imd_sm I)"
proof -
  note S = small_region [OF ok j]
  have lg: "imdr_ok m (imd_lg I)" using ok by (simp add: imd_ok_def)
  define rs where "rs = imd_r (imd_sm I)"
  define rl where "rl = imd_r (imd_lg I)"
  have lay: "20 + 16 * i + 16 \<le> root_size_of (imd_sm I) - 8"
    using root_layout_bounds(2) [OF imdr_okD(1) [OF S(1)]] i by (simp add: length_blocks)
  have sz: "unat rs + root_size_of (imd_sm I) = unat (imd_limit (imd_sm I))"
    using root_layout_bounds(5) [OF imdr_okD(1) [OF S(1)]] by (simp add: rs_def)
  have "unat (root_entry rs (of_nat i)) = unat rs + (20 + 16 * i)"
    unfolding root_entry_of_nat using lay sz unat_lt_64 [of "imd_limit (imd_sm I)"]
    by (simp add: unat_add_no_wrap unat_of_nat_64 del: of_nat_add of_nat_mult)
  moreover have "unat (imd_limit (imd_sm I)) \<le> unat rl"
  proof -
    have "int (unat (imd_limit (imd_sm I))) \<le> int (unat rl)" using S(5,8) by (simp add: rl_def)
    then show ?thesis by (simp only: of_nat_le_iff)
  qed
  moreover have "unat rl \<le> unat rs + 2 ^ 31"
  proof -
    let ?b = "block_base (blocks m (imd_lg I) ! j)"
    have "?b = int (unat rl) + sint (e_start_offset m (root_entry rl (of_nat j)))"
      using S(3) by (simp add: nth_blocks length_blocks ent_block_def block_base_def Let_def rl_def)
    moreover have "- (2 ^ 31) \<le> sint (e_start_offset m (root_entry rl (of_nat j)))"
      using sint_ge [of "e_start_offset m (root_entry rl (of_nat j))"] by simp
    moreover have "low_bound m (imd_sm I) \<le> int (unat rs)"
      using lowest_bounds(1,3) [OF S(1)] by (simp add: rs_def)
    ultimately have "int (unat rl) \<le> int (unat rs + 2 ^ 31)" using S(6) by simp
    then show ?thesis by (simp only: of_nat_le_iff)
  qed
  ultimately have "unat (root_entry rs (of_nat i)) < unat rl" "unat rl \<le> unat (root_entry rs (of_nat i)) + 2 ^ 32"
    using lay sz by simp_all
  then have "\<not> imdr_has_entry m (imd_lg I) (root_entry rs (of_nat i))"
    using lower_entry [OF lg] by (simp add: rl_def)
  moreover have "imdr_has_entry m (imd_sm I) (root_entry rs (of_nat i))"
    using own_entry [OF S(1) i] by (simp add: rs_def)
  ultimately show ?thesis by (simp add: imd_entry_to_imdr_def rs_def)
qed

subsection \<open>Growing the directory\<close>

lemma add_to_large:
  assumes ok: "imd_ok m I" and room: "add_room m (imd_lg I) size1"
    and sp: "\<not> no_space m (imd_lg I) size1" and ident: "ident \<noteq> SMALL_REGION_ID"
  defines "m' \<equiv> added m (imd_lg I) ident size1"
    and "b \<equiv> (ident, lowest m (imd_lg I) - int (used_size m (imd_lg I) size1), unat size1)"
  shows "imd_ok m' I" "blocks m' (imd_lg I) = blocks m (imd_lg I) @ [b]"
    "small_blocks m' I = small_blocks m I"
    "mset (client_blocks m' I) = mset (client_blocks m I) + {#b#}"
proof -
  have lg: "imdr_ok m (imd_lg I)" using ok by (simp add: imd_ok_def)
  note A = added_ok [OF lg room sp, of ident, folded m'_def] and D = imdr_okD [OF lg]
  show bl: "blocks m' (imd_lg I) = blocks m (imd_lg I) @ [b]" using A(2) by (simp add: b_def)
  have ix: "index_of SMALL_REGION_ID (blocks m' (imd_lg I)) = index_of SMALL_REGION_ID (blocks m (imd_lg I))"
    unfolding bl using D(13) ident by (simp add: index_of_append b_def split: option.splits)
  have out: "same_outside m m' (imd_r (imd_lg I)) (root_size_of (imd_lg I))"
    using added_fields(7) [OF lg room sp, of ident] by (simp add: m'_def)
  have "imd_ok m' I \<and> small_blocks m' I = small_blocks m I"
  proof (cases "index_of SMALL_REGION_ID (blocks m (imd_lg I))")
    case None
    with ok A(1) ix show ?thesis by (simp add: imd_ok_def small_blocks_def)
  next
    case (Some j)
    note S = small_region [OF ok Some]
    have sm: "same_on m m' (imd_r (imd_sm I)) (root_size_of (imd_sm I))"
      using same_outside_on [OF out roots_apart(2) [OF ok Some]] .
    have f: "r_max_offset m' (imd_r (imd_sm I)) = r_max_offset m (imd_r (imd_sm I))"
      using same_on_r_fields [OF sm root_layout_bounds(1) [OF imdr_okD(1) [OF S(1)]]] by simp
    then have lb: "low_bound m' (imd_sm I) = low_bound m (imd_sm I)" by (simp add: low_bound_def)
    have nth: "blocks m' (imd_lg I) ! j = blocks m (imd_lg I) ! j" unfolding bl using S(3) by (simp add: nth_append)
    show ?thesis
      using imdr_ok_same_on [OF S(1) sm] ok A(1) ix Some f lb nth by (simp add: imd_ok_def small_blocks_def)
  qed
  then show "imd_ok m' I" and sb: "small_blocks m' I = small_blocks m I" by simp_all
  show "mset (client_blocks m' I) = mset (client_blocks m I) + {#b#}"
    unfolding client_blocks_def sb bl using D(13) ident by (simp add: b_def)
qed

lemma add_to_small:
  fixes ident :: u32
  assumes ok: "imd_ok m I" and j: "index_of SMALL_REGION_ID (blocks m (imd_lg I)) = Some j"
    and sp: "\<not> no_space m (imd_sm I) size1"
  defines "m' \<equiv> added m (imd_sm I) ident size1"
    and "b \<equiv> (ident, lowest m (imd_sm I) - int (used_size m (imd_sm I) size1), unat size1)"
  shows "imd_ok m' I" "blocks m' (imd_lg I) = blocks m (imd_lg I)"
    "blocks m' (imd_sm I) = blocks m (imd_sm I) @ [b]"
    "mset (client_blocks m' I) = mset (client_blocks m I) + {#b#}"
proof -
  have lg: "imdr_ok m (imd_lg I)" using ok by (simp add: imd_ok_def)
  note S = small_region [OF ok j] and D = imdr_okD [OF small_region(1) [OF ok j]]
  have room: "add_room m (imd_sm I) size1" using S(9) by (simp add: add_room_def)
  note A = added_ok [OF S(1) room sp, of ident, folded m'_def]
  show bl: "blocks m' (imd_sm I) = blocks m (imd_sm I) @ [b]" using A(2) by (simp add: b_def)
  have out: "same_outside m m' (imd_r (imd_sm I)) (root_size_of (imd_sm I))"
    using added_fields(7) [OF S(1) room sp, of ident] by (simp add: m'_def)
  note L = imdr_ok_same_on [OF lg same_outside_on [OF out roots_apart(1) [OF ok j]]]
  show lb: "blocks m' (imd_lg I) = blocks m (imd_lg I)" by (rule L(2))
  show "imd_ok m' I"
    using ok j L A(1,4,7) by (simp add: imd_ok_def)
  show "mset (client_blocks m' I) = mset (client_blocks m I) + {#b#}"
    unfolding client_blocks_def small_blocks_def lb bl using D(13,14) by simp
qed

lemma changed_in_root:
  assumes "imdr_ok m d" "same_outside m m' (imd_r d) (root_size_of d)" "m' x \<noteq> m x"
  shows "in_block (hd (blocks m d)) x"
proof -
  have "unat (x - imd_r d) < root_size_of d"
    using assms(2,3) by (metis same_outside_def not_le)
  from in_root_block [OF assms(1) this] show ?thesis by simp
qed

lemma imd_entry_add_cases:
  assumes ok: "imd_ok m I" and room: "add_room m (imd_lg I) size1"
  shows "imd_entry_add m I ident size1 =
    (if imd_r (imd_sm I) \<noteq> 0 \<and>
        (size1 \<le> ucast (r_entry_align m (imd_r (imd_sm I))) \<or>
         size1 \<le> imd_root_data_left m (imd_r (imd_sm I)) div 4) \<and>
        \<not> root_is_locked m (imd_r (imd_sm I)) \<and> \<not> no_space m (imd_sm I) size1
     then (Some (root_entry (imd_r (imd_sm I)) (of_nat (length (blocks m (imd_sm I))))),
           added m (imd_sm I) ident size1)
     else if root_is_locked m (imd_r (imd_lg I)) \<or> no_space m (imd_lg I) size1 then (None, m)
     else (Some (root_entry (imd_r (imd_lg I)) (of_nat (length (blocks m (imd_lg I))))),
           added m (imd_lg I) ident size1))"
proof -
  have lg: "imdr_ok m (imd_lg I)" using ok by (simp add: imd_ok_def)
  note L = imdr_entry_add_cases [OF lg room, of ident]
  show ?thesis
  proof (cases "imd_r (imd_sm I) = 0")
    case True
    then show ?thesis by (simp add: imd_entry_add_def imdr_root_def L)
  next
    case False
    then have sm: "imdr_ok m (imd_sm I)" "r_max_offset m (imd_r (imd_sm I)) \<noteq> 0"
      using ok by (auto simp: imd_ok_def split: option.splits)
    have "add_room m (imd_sm I) size1" using sm(2) by (simp add: add_room_def)
    note S = imdr_entry_add_cases [OF sm(1) this, of ident]
    from False show ?thesis by (simp add: imd_entry_add_def imdr_root_def L S Let_def)
  qed
qed

text \<open>A lookup sees the small region first.\<close>

lemma imd_entry_find_eq:
  assumes ok: "imd_ok m I"
  shows "imd_entry_find m I ident =
    (case (if imd_r (imd_sm I) = 0 then None else index_of ident (blocks m (imd_sm I))) of
       Some i \<Rightarrow> Some (root_entry (imd_r (imd_sm I)) (of_nat i))
     | None \<Rightarrow> map_option (\<lambda>i. root_entry (imd_r (imd_lg I)) (of_nat i)) (index_of ident (blocks m (imd_lg I))))"
proof -
  have lg: "imdr_ok m (imd_lg I)" using ok by (simp add: imd_ok_def)
  show ?thesis
  proof (cases "imd_r (imd_sm I) = 0")
    case True
    then have "imdr_entry_find m (imd_sm I) ident = None" by (simp add: imdr_entry_find_def imdr_root_def)
    with True show ?thesis by (simp add: imd_entry_find_def imdr_entry_find_eq [OF lg])
  next
    case False
    then have "imdr_ok m (imd_sm I)" using ok by (auto simp: imd_ok_def split: option.splits)
    with False show ?thesis
      by (simp add: imd_entry_find_def imdr_entry_find_eq [OF lg] imdr_entry_find_eq split: option.splits)
  qed
qed

definition add_result :: "memory \<Rightarrow> imd \<Rightarrow> u32 \<Rightarrow> size_t \<Rightarrow> addr \<Rightarrow> memory \<Rightarrow> int \<Rightarrow> bool" where
  "add_result m I ident size1 e m' base \<longleftrightarrow>
     mset (client_blocks m' I) = mset (client_blocks m I) + {#(ident, base, unat size1)#} \<and>
     imd_entry_at m' I e = Some (of_nat (nat base)) \<and> imd_entry_size m' e = size1 \<and> imd_entry_id m' e = ident \<and>
     (imd_entry_find m I ident = None \<longrightarrow> imd_entry_find m' I ident = Some e) \<and>
     (\<forall>other. other \<noteq> ident \<longrightarrow> imd_entry_find m' I other = imd_entry_find m I other) \<and>
     (\<forall>x. m' x \<noteq> m x \<longrightarrow> in_block (hd (blocks m (imd_lg I))) x \<or>
        small_blocks m I \<noteq> [] \<and> in_block (hd (small_blocks m I)) x)"

lemma entry_id_block:
  "i < length (blocks m d) \<Longrightarrow> e_id m (root_entry (imd_r d) (of_nat i)) = fst (blocks m d ! i)"
  by (simp add: length_blocks nth_blocks ent_block_def Let_def)

lemma add_large_result:
  assumes ok: "imd_ok m I" and room: "add_room m (imd_lg I) size1"
    and sp: "\<not> no_space m (imd_lg I) size1" and ident: "ident \<noteq> SMALL_REGION_ID"
  shows "imd_ok (added m (imd_lg I) ident size1) I \<and>
    add_result m I ident size1 (root_entry (imd_r (imd_lg I)) (of_nat (length (blocks m (imd_lg I)))))
      (added m (imd_lg I) ident size1) (lowest m (imd_lg I) - int (used_size m (imd_lg I) size1))"
proof -
  define m' where "m' = added m (imd_lg I) ident size1"
  define base where "base = lowest m (imd_lg I) - int (used_size m (imd_lg I) size1)"
  note G = add_to_large [OF ok room sp ident, folded m'_def base_def]
  have lg: "imdr_ok m (imd_lg I)" using ok by (simp add: imd_ok_def)
  have lg': "imdr_ok m' (imd_lg I)" using G(1) by (simp add: imd_ok_def)
  let ?n = "length (blocks m (imd_lg I))"
  have n: "?n < length (blocks m' (imd_lg I))" by (simp add: G(2))
  have nth: "blocks m' (imd_lg I) ! ?n = (ident, base, unat size1)" by (simp add: G(2))
  note E = entry_address [OF lg' n, unfolded nth block_base_def block_size_def fst_conv snd_conv]
  have sb: "imd_r (imd_sm I) \<noteq> 0 \<Longrightarrow> blocks m' (imd_sm I) = blocks m (imd_sm I)"
    using G(3) by (simp add: small_blocks_def)
  have ne: "blocks m (imd_lg I) \<noteq> []" using imdr_okD(13) [OF lg] .
  have "imd_entry_find m I ident = None \<Longrightarrow> imd_entry_find m' I ident =
      Some (root_entry (imd_r (imd_lg I)) (of_nat ?n))"
    unfolding imd_entry_find_eq [OF ok] imd_entry_find_eq [OF G(1)] G(2)
    using sb ne by (auto simp: index_of_append split: option.splits if_splits)
  moreover have "imd_entry_find m' I other = imd_entry_find m I other" if "other \<noteq> ident" for other
    unfolding imd_entry_find_eq [OF ok] imd_entry_find_eq [OF G(1)] G(2)
    using sb ne that by (auto simp: index_of_append split: option.splits)
  moreover have "m' x \<noteq> m x \<longrightarrow> in_block (hd (blocks m (imd_lg I))) x" for x
    using changed_in_root [OF lg added_fields(7) [OF lg room sp, of ident]] by (simp add: m'_def)
  ultimately have "add_result m I ident size1 (root_entry (imd_r (imd_lg I)) (of_nat ?n)) m' base"
    unfolding add_result_def using G(4) entry_to_imdr_lg [OF G(1) n] E(1,3) entry_id_block [OF n] nth
    by (auto simp: imd_entry_at_def imd_entry_size_def imd_entry_id_def)
  with G(1) show ?thesis by (simp add: m'_def base_def)
qed

lemma add_small_result:
  assumes ok: "imd_ok m I" and nz: "imd_r (imd_sm I) \<noteq> 0" and sp: "\<not> no_space m (imd_sm I) size1"
  shows "imd_ok (added m (imd_sm I) ident size1) I \<and>
    add_result m I ident size1 (root_entry (imd_r (imd_sm I)) (of_nat (length (blocks m (imd_sm I)))))
      (added m (imd_sm I) ident size1) (lowest m (imd_sm I) - int (used_size m (imd_sm I) size1))"
proof -
  define m' where "m' = added m (imd_sm I) ident size1"
  define base where "base = lowest m (imd_sm I) - int (used_size m (imd_sm I) size1)"
  obtain j where j: "index_of SMALL_REGION_ID (blocks m (imd_lg I)) = Some j"
    using ok nz by (auto simp: imd_ok_def split: option.splits)
  note G = add_to_small [OF ok j sp, of ident, folded m'_def base_def] and S = small_region [OF ok j]
  have j': "index_of SMALL_REGION_ID (blocks m' (imd_lg I)) = Some j" using j G(2) by simp
  note S' = small_region [OF G(1) j']
  let ?n = "length (blocks m (imd_sm I))"
  have n: "?n < length (blocks m' (imd_sm I))" by (simp add: G(3))
  have nth: "blocks m' (imd_sm I) ! ?n = (ident, base, unat size1)" by (simp add: G(3))
  note E = entry_address [OF S'(1) n, unfolded nth block_base_def block_size_def fst_conv snd_conv]
  have ne: "blocks m (imd_sm I) \<noteq> []" using imdr_okD(13) [OF S(1)] .
  have room: "add_room m (imd_sm I) size1" using S(9) by (simp add: add_room_def)
  have "imd_entry_find m I ident = None \<Longrightarrow> imd_entry_find m' I ident =
      Some (root_entry (imd_r (imd_sm I)) (of_nat ?n))"
    unfolding imd_entry_find_eq [OF ok] imd_entry_find_eq [OF G(1)] G(2,3)
    using nz ne by (auto simp: index_of_append split: option.splits)
  moreover have "imd_entry_find m' I other = imd_entry_find m I other" if "other \<noteq> ident" for other
    unfolding imd_entry_find_eq [OF ok] imd_entry_find_eq [OF G(1)] G(2,3)
    using nz ne that by (auto simp: index_of_append split: option.splits)
  moreover have "m' x \<noteq> m x \<longrightarrow> small_blocks m I \<noteq> [] \<and> in_block (hd (small_blocks m I)) x" for x
    using changed_in_root [OF S(1) added_fields(7) [OF S(1) room sp, of ident]] nz ne
    by (simp add: m'_def small_blocks_def)
  ultimately have "add_result m I ident size1 (root_entry (imd_r (imd_sm I)) (of_nat ?n)) m' base"
    unfolding add_result_def using G(4) entry_to_imdr_sm [OF G(1) j' n] E(1,3) entry_id_block [OF n] nth
    by (auto simp: imd_entry_at_def imd_entry_size_def imd_entry_id_def)
  with G(1) show ?thesis by (simp add: m'_def base_def)
qed

lemma imd_add_facts:
  assumes ok: "imd_ok m I" and room: "add_room m (imd_lg I) size1" and ident: "ident \<noteq> SMALL_REGION_ID"
  shows "case imd_entry_add m I ident size1 of
      (None, m') \<Rightarrow> m' = m \<and> (root_is_locked m (imd_r (imd_lg I)) \<or> no_space m (imd_lg I) size1)
    | (Some e, m') \<Rightarrow> imd_ok m' I \<and> sorted_wrt blk_apart (client_blocks m' I) \<and>
        (\<exists>base. add_result m I ident size1 e m' base)"
proof -
  let ?small = "imd_r (imd_sm I) \<noteq> 0 \<and>
        (size1 \<le> ucast (r_entry_align m (imd_r (imd_sm I))) \<or>
         size1 \<le> imd_root_data_left m (imd_r (imd_sm I)) div 4) \<and>
        \<not> root_is_locked m (imd_r (imd_sm I)) \<and> \<not> no_space m (imd_sm I) size1"
  consider (sm) "?small" | (no) "\<not> ?small" "root_is_locked m (imd_r (imd_lg I)) \<or> no_space m (imd_lg I) size1"
    | (lg) "\<not> ?small" "\<not> (root_is_locked m (imd_r (imd_lg I)) \<or> no_space m (imd_lg I) size1)" by blast
  then show ?thesis
  proof cases
    case sm
    then have s: "imd_r (imd_sm I) \<noteq> 0" "\<not> no_space m (imd_sm I) size1" by simp_all
    from sm show ?thesis
      using add_small_result [OF ok s, of ident] client_blocks_disjoint(1)
      by (simp only: imd_entry_add_cases [OF ok room] if_True) fastforce
  next
    case no
    then show ?thesis by (simp only: imd_entry_add_cases [OF ok room] if_True if_False) simp
  next
    case lg
    then have s: "\<not> no_space m (imd_lg I) size1" by simp
    from lg show ?thesis
      using add_large_result [OF ok room s ident] client_blocks_disjoint(1)
      by (simp only: imd_entry_add_cases [OF ok room] if_False) fastforce
  qed
qed

subsection \<open>Removing from the directory\<close>

lemma index_of_butlast:
  assumes "1 < length bs" "fst (last bs) \<noteq> ident"
  shows "index_of ident (butlast bs) = index_of ident bs"
proof -
  have "bs = butlast bs @ [last bs]" "butlast bs \<noteq> []"
    using assms(1) by (cases bs rule: rev_cases; simp)+
  then have "index_of ident bs = (case index_of ident (butlast bs) of Some j \<Rightarrow> Some j | None \<Rightarrow> None)"
    using index_of_append [of "butlast bs" ident "last bs"] assms(2) by simp
  then show ?thesis by (simp split: option.splits)
qed

lemma drop_from_large:
  assumes ok: "imd_ok m I" and n: "1 < length (blocks m (imd_lg I))"
    and l: "fst (last (blocks m (imd_lg I))) \<noteq> SMALL_REGION_ID"
  defines "m' \<equiv> store32 m (imd_r (imd_lg I) + 4) (r_num_entries m (imd_r (imd_lg I)) - 1)"
  shows "imd_ok m' I" "blocks m' (imd_lg I) = butlast (blocks m (imd_lg I))"
    "small_blocks m' I = small_blocks m I"
    "mset (client_blocks m I) = mset (client_blocks m' I) + {#last (blocks m (imd_lg I))#}"
proof -
  have lg: "imdr_ok m (imd_lg I)" using ok by (simp add: imd_ok_def)
  have n': "1 < unat (r_num_entries m (imd_r (imd_lg I)))" using n by (simp add: length_blocks)
  note A = imdr_drop_last [OF lg n', folded m'_def]
  show bl: "blocks m' (imd_lg I) = butlast (blocks m (imd_lg I))" by (rule A(2))
  have ix: "index_of SMALL_REGION_ID (blocks m' (imd_lg I)) = index_of SMALL_REGION_ID (blocks m (imd_lg I))"
    unfolding bl by (rule index_of_butlast [OF n l])
  have "imd_ok m' I \<and> small_blocks m' I = small_blocks m I"
  proof (cases "index_of SMALL_REGION_ID (blocks m (imd_lg I))")
    case None
    with ok A(1) ix show ?thesis by (simp add: imd_ok_def small_blocks_def)
  next
    case (Some j)
    note S = small_region [OF ok Some]
    have sm: "same_on m m' (imd_r (imd_sm I)) (root_size_of (imd_sm I))"
      using same_outside_on [OF A(3) roots_apart(2) [OF ok Some]] .
    have f: "r_max_offset m' (imd_r (imd_sm I)) = r_max_offset m (imd_r (imd_sm I))"
      using same_on_r_fields [OF sm root_layout_bounds(1) [OF imdr_okD(1) [OF S(1)]]] by simp
    then have lb: "low_bound m' (imd_sm I) = low_bound m (imd_sm I)" by (simp add: low_bound_def)
    have "Some j = index_of SMALL_REGION_ID (butlast (blocks m (imd_lg I)))" using ix Some bl by simp
    then have "j < length (butlast (blocks m (imd_lg I)))" by (metis index_of_Some)
    then have nth: "blocks m' (imd_lg I) ! j = blocks m (imd_lg I) ! j" unfolding bl by (rule nth_butlast)
    show ?thesis
      using imdr_ok_same_on [OF S(1) sm] ok A(1) ix Some f lb nth by (simp add: imd_ok_def small_blocks_def)
  qed
  then show "imd_ok m' I" and sb: "small_blocks m' I = small_blocks m I" by simp_all
  obtain bs b where bs: "blocks m (imd_lg I) = bs @ [b]" "bs \<noteq> []"
    using n by (cases "blocks m (imd_lg I)" rule: rev_cases) auto
  show "mset (client_blocks m I) = mset (client_blocks m' I) + {#last (blocks m (imd_lg I))#}"
    unfolding client_blocks_def sb bl using l by (simp add: bs)
qed

lemma drop_from_small:
  assumes ok: "imd_ok m I" and j: "index_of SMALL_REGION_ID (blocks m (imd_lg I)) = Some j"
    and n: "1 < length (blocks m (imd_sm I))"
  defines "m' \<equiv> store32 m (imd_r (imd_sm I) + 4) (r_num_entries m (imd_r (imd_sm I)) - 1)"
  shows "imd_ok m' I" "blocks m' (imd_lg I) = blocks m (imd_lg I)"
    "blocks m' (imd_sm I) = butlast (blocks m (imd_sm I))"
    "mset (client_blocks m I) = mset (client_blocks m' I) + {#last (blocks m (imd_sm I))#}"
proof -
  have lg: "imdr_ok m (imd_lg I)" using ok by (simp add: imd_ok_def)
  note S = small_region [OF ok j] and D = imdr_okD [OF small_region(1) [OF ok j]]
  have n': "1 < unat (r_num_entries m (imd_r (imd_sm I)))" using n by (simp add: length_blocks)
  note A = imdr_drop_last [OF S(1) n', folded m'_def]
  show bl: "blocks m' (imd_sm I) = butlast (blocks m (imd_sm I))" by (rule A(2))
  note L = imdr_ok_same_on [OF lg same_outside_on [OF A(3) roots_apart(1) [OF ok j]]]
  show lb: "blocks m' (imd_lg I) = blocks m (imd_lg I)" by (rule L(2))
  have mo: "r_max_offset m' (imd_r (imd_sm I)) = r_max_offset m (imd_r (imd_sm I))"
    unfolding m'_def root_fields root_stores(2) by (rule fld_set_other) simp_all
  then have "low_bound m' (imd_sm I) = low_bound m (imd_sm I)" by (simp add: low_bound_def)
  then show "imd_ok m' I"
    using ok j L A(1) mo by (simp add: imd_ok_def)
  obtain bs b where bs: "blocks m (imd_sm I) = bs @ [b]" "bs \<noteq> []"
    using n by (cases "blocks m (imd_sm I)" rule: rev_cases) auto
  show "mset (client_blocks m I) = mset (client_blocks m' I) + {#last (blocks m (imd_sm I))#}"
    unfolding client_blocks_def small_blocks_def lb bl using D(14) by (simp add: bs)
qed

lemma root_last_block:
  assumes "imdr_ok m d"
  shows "root_last_entry m (imd_r d) = root_entry (imd_r d) (of_nat (length (blocks m d) - 1))"
    "imd_entry_id m (root_last_entry m (imd_r d)) = fst (last (blocks m d))"
    "r_num_entries m (imd_r d) = 1 \<longleftrightarrow> length (blocks m d) = 1"
proof -
  note D = imdr_okD [OF assms]
  have n: "0 < unat (r_num_entries m (imd_r d))" using D(10) by linarith
  show e: "root_last_entry m (imd_r d) = root_entry (imd_r d) (of_nat (length (blocks m d) - 1))"
    using root_last_entry_nat [OF n] by (simp add: length_blocks)
  show "imd_entry_id m (root_last_entry m (imd_r d)) = fst (last (blocks m d))"
    unfolding e imd_entry_id_def using D(13) by (simp add: entry_id_block last_conv_nth)
  show "r_num_entries m (imd_r d) = 1 \<longleftrightarrow> length (blocks m d) = 1"
    by (simp add: length_blocks word_unat_eq_iff)
qed

lemma imd_remove_facts:
  assumes ok: "imd_ok m I" and r: "imd_entry_remove m I e = (True, m')"
    and ident: "imd_entry_id m e \<noteq> SMALL_REGION_ID"
  shows "imd_ok m' I \<and> (\<exists>b. fst b = imd_entry_id m e \<and> mset (client_blocks m I) = mset (client_blocks m' I) + {#b#})"
proof -
  from r obtain d where d: "imd_entry_to_imdr m I e = Some d" "e = root_last_entry m (imd_r d)"
      "r_num_entries m (imd_r d) \<noteq> 1" "m' = store32 m (imd_r d + 4) (r_num_entries m (imd_r d) - 1)"
    by (auto simp: imd_entry_remove_def imdr_root_def Let_def split: option.splits if_splits)
  from d(1) consider "d = imd_lg I" | "d = imd_sm I" "imd_r (imd_sm I) \<noteq> 0"
    by (auto simp: imd_entry_to_imdr_def imdr_has_entry_def imdr_root_def Let_def split: if_splits)
  then show ?thesis
  proof cases
    case 1
    have lg: "imdr_ok m (imd_lg I)" using ok by (simp add: imd_ok_def)
    note L = root_last_block [OF lg]
    have "length (blocks m (imd_lg I)) \<noteq> 1" "blocks m (imd_lg I) \<noteq> []"
      using d(3) L(3) imdr_okD(13) [OF lg] by (simp_all add: 1)
    then have n: "1 < length (blocks m (imd_lg I))" by (cases "blocks m (imd_lg I)") auto
    have l: "fst (last (blocks m (imd_lg I))) = imd_entry_id m e" using L(2) d(2) by (simp add: 1)
    with drop_from_large(1,4) [OF ok n] ident show ?thesis unfolding d(4) 1 by metis
  next
    case 2
    obtain j where j: "index_of SMALL_REGION_ID (blocks m (imd_lg I)) = Some j"
      using ok 2 by (auto simp: imd_ok_def split: option.splits)
    have sm: "imdr_ok m (imd_sm I)" by (rule small_region(1) [OF ok j])
    note L = root_last_block [OF sm]
    have "length (blocks m (imd_sm I)) \<noteq> 1" "blocks m (imd_sm I) \<noteq> []"
      using d(3) L(3) imdr_okD(13) [OF sm] by (simp_all add: 2)
    then have n: "1 < length (blocks m (imd_sm I))" by (cases "blocks m (imd_sm I)") auto
    have l: "fst (last (blocks m (imd_sm I))) = imd_entry_id m e" using L(2) d(2) by (simp add: 2)
    with drop_from_small(1,4) [OF ok j n] show ?thesis unfolding d(4) 2(1) by metis
  qed
qed

text \<open>An entry just added is the last of its region, so it can be taken back.\<close>

lemma remove_last_entry:
  assumes d: "imd_entry_to_imdr m I (root_entry (imd_r d) (of_nat n)) = Some d"
    and ok: "imdr_ok m d" and n: "length (blocks m d) = Suc n" "n \<noteq> 0" and ul: "\<not> root_is_locked m (imd_r d)"
  shows "imd_entry_remove m I (root_entry (imd_r d) (of_nat n)) =
    (True, store32 m (imd_r d + 4) (r_num_entries m (imd_r d) - 1))"
  using d ul n root_last_block(1,3) [OF ok]
  by (simp add: imd_entry_remove_def imdr_root_def Let_def)

lemma added_locked:
  assumes "imdr_ok m d" "add_room m d size1" "\<not> no_space m d size1"
  shows "root_is_locked (added m d ident size1) (imd_r d) = root_is_locked m (imd_r d)"
  using added_ok(5) [OF assms] by (simp add: root_is_locked_def)

lemma imd_add_remove:
  assumes ok: "imd_ok m I" and room: "add_room m (imd_lg I) size1" and ident: "ident \<noteq> SMALL_REGION_ID"
    and a: "imd_entry_add m I ident size1 = (Some e, m')"
  shows "\<exists>m''. imd_entry_remove m' I e = (True, m'') \<and> imd_ok m'' I \<and> client_blocks m'' I = client_blocks m I"
proof -
  have lg: "imdr_ok m (imd_lg I)" using ok by (simp add: imd_ok_def)
  have "(imd_r (imd_sm I) \<noteq> 0 \<and> \<not> root_is_locked m (imd_r (imd_sm I)) \<and> \<not> no_space m (imd_sm I) size1 \<and>
      e = root_entry (imd_r (imd_sm I)) (of_nat (length (blocks m (imd_sm I)))) \<and> m' = added m (imd_sm I) ident size1) \<or>
    (\<not> root_is_locked m (imd_r (imd_lg I)) \<and> \<not> no_space m (imd_lg I) size1 \<and>
      e = root_entry (imd_r (imd_lg I)) (of_nat (length (blocks m (imd_lg I)))) \<and> m' = added m (imd_lg I) ident size1)"
    using a unfolding imd_entry_add_cases [OF ok room] by (auto split: if_splits)
  then show ?thesis
  proof (elim disjE conjE)
    assume s: "imd_r (imd_sm I) \<noteq> 0" "\<not> root_is_locked m (imd_r (imd_sm I))" "\<not> no_space m (imd_sm I) size1"
      and e: "e = root_entry (imd_r (imd_sm I)) (of_nat (length (blocks m (imd_sm I))))"
      and m': "m' = added m (imd_sm I) ident size1"
    obtain j where j: "index_of SMALL_REGION_ID (blocks m (imd_lg I)) = Some j"
      using ok s by (auto simp: imd_ok_def split: option.splits)
    note S = small_region [OF ok j] and G = add_to_small [OF ok j s(3), of ident, folded m']
    have room': "add_room m (imd_sm I) size1" using S(9) by (simp add: add_room_def)
    have j': "index_of SMALL_REGION_ID (blocks m' (imd_lg I)) = Some j" using j G(2) by simp
    have ne: "blocks m (imd_sm I) \<noteq> []" by (rule imdr_okD(13) [OF S(1)])
    note sm' = small_region(1) [OF G(1) j']
    have rl: "\<not> root_is_locked m' (imd_r (imd_sm I))"
      unfolding m' added_locked [OF S(1) room' s(3)] by (rule s(2))
    have rm: "imd_entry_remove m' I e =
        (True, store32 m' (imd_r (imd_sm I) + 4) (r_num_entries m' (imd_r (imd_sm I)) - 1))"
      unfolding e
      by (rule remove_last_entry [OF entry_to_imdr_sm [OF G(1) j'] sm'])
        (use ne rl in \<open>simp_all add: G(3)\<close>)
    have n: "1 < length (blocks m' (imd_sm I))" using ne by (simp add: G(3))
    note R = drop_from_small [OF G(1) j' n]
    have "client_blocks (store32 m' (imd_r (imd_sm I) + 4) (r_num_entries m' (imd_r (imd_sm I)) - 1)) I = client_blocks m I"
      unfolding client_blocks_def small_blocks_def R(2,3) G(2,3) by simp
    with rm R(1) show ?thesis by blast
  next
    assume s: "\<not> root_is_locked m (imd_r (imd_lg I))" "\<not> no_space m (imd_lg I) size1"
      and e: "e = root_entry (imd_r (imd_lg I)) (of_nat (length (blocks m (imd_lg I))))"
      and m': "m' = added m (imd_lg I) ident size1"
    note G = add_to_large [OF ok room s(2) ident, folded m']
    have ne: "blocks m (imd_lg I) \<noteq> []" by (rule imdr_okD(13) [OF lg])
    have lg': "imdr_ok m' (imd_lg I)" using G(1) by (simp add: imd_ok_def)
    have rl: "\<not> root_is_locked m' (imd_r (imd_lg I))"
      unfolding m' added_locked [OF lg room s(2)] by (rule s(1))
    have rm: "imd_entry_remove m' I e =
        (True, store32 m' (imd_r (imd_lg I) + 4) (r_num_entries m' (imd_r (imd_lg I)) - 1))"
      unfolding e
      by (rule remove_last_entry [OF entry_to_imdr_lg [OF G(1)] lg'])
        (use ne rl in \<open>simp_all add: G(2)\<close>)
    have n: "1 < length (blocks m' (imd_lg I))" using ne by (simp add: G(2))
    have l: "fst (last (blocks m' (imd_lg I))) \<noteq> SMALL_REGION_ID" using ident by (simp add: G(2))
    note R = drop_from_large [OF G(1) n l]
    have "client_blocks (store32 m' (imd_r (imd_lg I) + 4) (r_num_entries m' (imd_r (imd_lg I)) - 1)) I = client_blocks m I"
      unfolding client_blocks_def R(2,3) G(2,3) by simp
    with rm R(1) show ?thesis by blast
  qed
qed

subsection \<open>Creating both tiers\<close>

lemma stack_ok_raise:
  "stack_ok low hi bs \<Longrightarrow> bs \<noteq> [] \<Longrightarrow> low' \<le> block_base (last bs) \<Longrightarrow> stack_ok low' hi bs"
proof (induction bs arbitrary: hi)
  case (Cons c bs)
  show ?case
  proof (cases "bs = []")
    case False
    with Cons have s: "stack_ok low' (block_base c) bs" by simp
    have "last bs \<in> set bs" using False by simp
    then have "low' \<le> block_base c" using Cons.prems(3) False stack_ok_mem [OF s, of "last bs"] by simp
    with s Cons.prems(1) show ?thesis by simp
  qed (use Cons in simp)
qed simp

text \<open>Setting the limit of a region above which all its blocks lie.\<close>

lemma limit_facts:
  assumes ok: "imdr_ok m d" and k: "0 < k" "k < 2 ^ 31" "int (unat (imd_r d)) - int k \<le> lowest m d" "k \<le> unat (imd_r d)"
  defines "m' \<equiv> set_fld m (imd_r d) 16 (- of_nat k)"
  shows "imdr_ok m' d" "blocks m' d = blocks m d" "low_bound m' d = int (unat (imd_r d)) - int k"
    "r_flags m' (imd_r d) = r_flags m (imd_r d)" "r_entry_align m' (imd_r d) = r_entry_align m (imd_r d)"
    "same_outside m m' (imd_r d) (root_size_of d)" "r_max_offset m' (imd_r d) \<noteq> 0"
proof -
  define r where "r = imd_r d"
  note D = imdr_okD [OF ok, folded r_def] and sz = root_layout_bounds [OF imdr_okD(1) [OF ok], folded r_def]
  have F: "fld m' r j = fld m r j" if "j \<le> 12 \<or> 20 \<le> j" "j < 2 ^ 62" for j
    unfolding m'_def r_def by (rule fld_set_other) (use that in auto)
  have s: "sint (word_of_int (- int k) :: u32) = - int k" by (rule sint_of_int_u32) (use k in simp_all)
  have mo: "sint (r_max_offset m' r) = - int k"
    unfolding root_fields m'_def r_def using s by simp
  have f: "r_num_entries m' r = r_num_entries m r" "r_flags m' r = r_flags m r"
    "r_entry_align m' r = r_entry_align m r" "r_max_entries m' r = r_max_entries m r"
    unfolding root_fields by (simp_all add: F)
  then show "r_flags m' (imd_r d) = r_flags m (imd_r d)" "r_entry_align m' (imd_r d) = r_entry_align m (imd_r d)"
    by (simp_all add: r_def)
  show nz: "r_max_offset m' (imd_r d) \<noteq> 0" using mo k by (auto simp: r_def)
  then show lb: "low_bound m' d = int (unat (imd_r d)) - int k" using mo by (simp add: low_bound_def r_def)
  have n: "unat (r_num_entries m r) \<le> 254" using D(11,12) by linarith
  have same: "ent_block m' r i = ent_block m r i" "entry_ok m' r i = entry_ok m r i"
    if "i < unat (r_num_entries m r)" for i
    unfolding ent_block_fld entry_ok_fld using that n by (simp_all add: F)
  show bl: "blocks m' d = blocks m d" unfolding blocks_def r_def [symmetric] f using same by simp
  have ge: "44 \<le> root_size_of d" "root_size_of d \<le> 4096" using sz(2) [of 0] sz(4) D(10) by simp_all
  then show "same_outside m m' (imd_r d) (root_size_of d)"
    unfolding m'_def by (intro same_outside_set_fld same_outside_refl) simp_all
  have "fld m' r (root_size_of d - 8) = fld m r (root_size_of d - 8)"
    "fld m' r (root_size_of d - 4) = fld m r (root_size_of d - 4)"
    by (rule F, rule disjI2, use ge in linarith, use ge in simp)+
  then have "root_layout m' d"
    using D(1) f unfolding root_layout_def root_pointer_fld [OF sz(3) [unfolded r_def]] r_def [symmetric] by simp
  moreover have "stack_ok (low_bound m' d) (int (unat (imd_limit d))) (blocks m' d)"
    unfolding bl lb by (rule stack_ok_raise [OF D(7,13)]) (use k(3) in \<open>simp add: lowest_def\<close>)
  moreover have "0 \<le> low_bound m' d"
  proof -
    have "int k \<le> int (unat (imd_r d))" using k(4) by (simp only: of_nat_le_iff)
    then show ?thesis unfolding lb by simp
  qed
  ultimately show "imdr_ok m' d"
    using D f same mo k(2) unfolding imdr_ok_def r_def [symmetric] bl by simp
qed

lemma imdr_limit_size_small:
  assumes ok: "imdr_ok m d" and k: "unat max_size = root_size_of d + k" "k < 2 ^ 31"
  shows "imdr_limit_size m d max_size = (True, set_fld m (imd_r d) 16 (- of_nat k))"
proof -
  have sz: "imd_limit d - imd_r d = of_nat (root_size_of d)"
    unfolding root_size_of_def using root_layout_bounds(3) [OF imdr_okD(1) [OF ok]] by (simp add: of_nat_diff)
  have m: "max_size = of_nat (root_size_of d + k)" by (simp only: k(1) [symmetric]) simp
  have "unat (of_nat (root_size_of d) :: u64) = root_size_of d"
    using root_layout_bounds(4) [OF imdr_okD(1) [OF ok]] by (intro unat_of_nat_64) simp
  then have "\<not> max_size < imd_limit d - imd_r d" unfolding sz word_less_nat_alt k(1) by simp
  moreover have "- (max_size - (imd_limit d - imd_r d)) = - (of_nat k :: u64)" unfolding sz m by simp
  ultimately show ?thesis
    using imdr_okD(14) [OF ok] by (simp add: imdr_limit_size_def imdr_root_def set_fld_def ucast_down_neg)
qed

lemma small_region_size_eq:
  fixes la lb sa sb :: nat
  assumes "lb \<le> 12" "6 \<le> sa" "sa \<le> 12" "sb \<le> 12"
  defines "raw \<equiv> (2 ^ sa - 28) div 16 * 2 ^ sb + 2 ^ sa"
  shows "unat (small_region_size (2 ^ lb) (2 ^ sa) (2 ^ sb)) = (raw + (2 ^ lb - 1)) div 2 ^ lb * 2 ^ lb"
    "raw \<le> (raw + (2 ^ lb - 1)) div 2 ^ lb * 2 ^ lb" "(raw + (2 ^ lb - 1)) div 2 ^ lb * 2 ^ lb < raw + 2 ^ lb"
    "2 ^ sa < raw" "raw \<le> 255 * 4096" "(2::nat) ^ lb \<le> 4096"
proof -
  show lb: "(2::nat) ^ lb \<le> 4096" using power_increasing [OF assms(1), of "2::nat"] by simp
  have p: "0 < (2::nat) ^ lb" by simp
  show up: "raw \<le> (raw + (2 ^ lb - 1)) div 2 ^ lb * 2 ^ lb" "(raw + (2 ^ lb - 1)) div 2 ^ lb * 2 ^ lb < raw + 2 ^ lb"
    using round_up_ge [OF p, of raw] round_up_lt [OF p, of raw] by simp_all
  have sa: "64 \<le> (2::nat) ^ sa" "(2::nat) ^ sa \<le> 4096"
    using power_increasing [OF assms(2), of "2::nat"] power_increasing [OF assms(3), of "2::nat"] by simp_all
  have sb: "(2::nat) ^ sb \<le> 4096" using power_increasing [OF assms(4), of "2::nat"] by simp
  define c where "c = ((2::nat) ^ sa - 28) div 16"
  have c: "2 \<le> c" "c \<le> 254" using sa by (simp_all add: c_def)
  have cs: "c * 2 ^ sb \<le> 254 * 4096" by (rule mult_le_mono [OF c(2) sb])
  have "0 < c * 2 ^ sb" using c by simp
  then show "2 ^ sa < raw" by (simp only: raw_def c_def [symmetric])
  show le: "raw \<le> 255 * 4096" unfolding raw_def c_def [symmetric] using cs sa by linarith
  have usa: "unat (2 ^ sa :: u64) = 2 ^ sa"
  proof -
    have "unat (of_nat (2 ^ sa) :: u64) = 2 ^ sa" using sa by (intro unat_of_nat_64) simp
    then show ?thesis by simp
  qed
  have nument: "root_num_entries (2 ^ sa) = of_nat c"
  proof (rule word_eq_unatI)
    have "(2 ^ sa - 8 - 20 :: u64) = of_nat (2 ^ sa - 28)" using sa by (simp add: of_nat_diff)
    moreover have "unat (of_nat (2 ^ sa - 28) :: u64) = 2 ^ sa - 28" using sa by (intro unat_of_nat_64) simp
    ultimately have "unat (root_num_entries (2 ^ sa)) = c"
      by (simp add: root_num_entries_def unat_div_distrib c_def)
    moreover have "unat (of_nat c :: u64) = c" using c by (intro unat_of_nat_64) simp
    ultimately show "unat (root_num_entries (2 ^ sa)) = unat (of_nat c :: u64)" by simp
  qed
  have "root_num_entries (2 ^ sa) * 2 ^ sb + 2 ^ sa = (of_nat raw :: u64)"
    unfolding nument raw_def c_def [symmetric] by simp
  moreover have "unat (of_nat raw :: u64) = raw" using le by (intro unat_of_nat_64) simp
  moreover have "raw + (2 ^ lb - 1) < 2 ^ 64" using le lb by simp
  ultimately show "unat (small_region_size (2 ^ lb) (2 ^ sa) (2 ^ sb)) = (raw + (2 ^ lb - 1)) div 2 ^ lb * 2 ^ lb"
    unfolding small_region_size_def using unat_ALIGN_UP [of lb "of_nat raw"] assms(1) by simp
qed

lemma handle_init_eq:
  "imd_handle_init up = \<lparr>imd_lg = \<lparr>imd_limit = ALIGN_DOWN up 4096, imd_r = 0\<rparr>,
     imd_sm = \<lparr>imd_limit = 0, imd_r = 0\<rparr>\<rparr>"
  by (simp add: imd_handle_init_def imdr_init_def LIMIT_ALIGN_def) (simp add: ALIGN_DOWN_def)

text \<open>Both root blocks, the entry for the small region in between, and nothing else.\<close>

lemma create_tiered_facts:
  assumes exps: "6 \<le> la" "la \<le> 12" "lb \<le> la" "6 \<le> sa" "sa \<le> 12" "sb \<le> sa"
    and L: "2 ^ 21 \<le> unat (ALIGN_DOWN up 4096)"
  shows "\<exists>m' I. imd_create_tiered_empty m (imd_handle_init up) (2 ^ la) (2 ^ lb) (2 ^ sa) (2 ^ sb) = (True, m', I) \<and>
    imd_ok m' I \<and> client_blocks m' I = [] \<and> imd_limit (imd_lg I) = ALIGN_DOWN up 4096 \<and>
    imd_r (imd_sm I) \<noteq> 0 \<and>
    \<not> root_is_locked m' (imd_r (imd_lg I)) \<and> \<not> root_is_locked m' (imd_r (imd_sm I)) \<and>
    r_max_offset m' (imd_r (imd_lg I)) = 0 \<and>
    lowest m' (imd_lg I) = int (unat (ALIGN_DOWN up 4096)) - 2 ^ la -
      int (unat (small_region_size (2 ^ lb) (2 ^ sa) (2 ^ sb))) \<and>
    unat (imd_r (imd_lg I)) = unat (ALIGN_DOWN up 4096) - 2 ^ la \<and>
    length (blocks m' (imd_lg I)) = 2 \<and>
    unat (r_max_entries m' (imd_r (imd_lg I))) = (2 ^ la - 28) div 16 \<and>
    (\<forall>x. m' x \<noteq> m x \<longrightarrow> unat (ALIGN_DOWN up 4096) \<le> unat x + 2 ^ la + 2 ^ sa \<and> unat x < unat (ALIGN_DOWN up 4096))"
proof -
  define lim where "lim = ALIGN_DOWN up 4096"
  have L': "2097152 \<le> unat lim" using L by (simp add: lim_def)
  define lg0 where "lg0 = \<lparr>imd_limit = lim, imd_r = 0\<rparr>"
  define r where "r = lim - 2 ^ la"
  define lg where "lg = \<lparr>imd_limit = lim, imd_r = r\<rparr>"
  have pla: "(2::nat) ^ la \<le> 4096" "(2::nat) ^ sa \<le> 4096"
    using power_increasing [OF exps(2), of "2::nat"] power_increasing [OF exps(5), of "2::nat"] by simp_all
  have lb12: "lb \<le> 12" "sb \<le> 12" using exps by linarith+
  have Lla: "2 ^ la < unat (imd_limit lg0)" using L' pla by (simp add: lg0_def)
  obtain m1 where c1: "imdr_create_empty m lg0 (2 ^ la) (2 ^ lb) = (True, m1, lg0\<lparr>imd_r := imd_limit lg0 - 2 ^ la\<rparr>)"
      "created m m1 (imd_limit lg0 - 2 ^ la) (2 ^ la) (2 ^ lb)"
    using imdr_create_empty_fields [OF Lla exps(1,2,3)] by blast
  have lg1: "lg0\<lparr>imd_r := r\<rparr> = lg" by (simp add: lg0_def lg_def)
  have r1: "imd_limit lg0 - 2 ^ la = r" by (simp add: lg0_def r_def)
  note C = created_ok [OF c1(2) exps(1,2,3) refl Lla, unfolded r1 lg1]
  have ur: "unat r = unat lim - 2 ^ la" using C(3) by (simp add: lg0_def)
  define Z where "Z = unat (small_region_size (2 ^ lb) (2 ^ sa) (2 ^ sb))"
  note Zf = small_region_size_eq [OF lb12(1) exps(4,5) lb12(2), folded Z_def]
  have Zb: "2 ^ sa < Z" "Z < 1050000" using Zf by linarith+
  have low1: "lowest m1 lg = int (unat r)" by (simp add: lowest_def C(2) block_base_def)
  have szw: "small_region_size (2 ^ lb) (2 ^ sa) (2 ^ sb) = of_nat Z" by (simp add: Z_def)
  have usz: "unat (of_nat Z :: u64) = Z" using Zb by (intro unat_of_nat_64) simp
  have room1: "add_room m1 lg (of_nat Z)"
  proof -
    have "Z + 4096 \<le> unat r" using Zb ur L' pla by linarith
    then have "int (Z + 4096) \<le> int (unat r)" by (simp only: of_nat_le_iff)
    then show ?thesis unfolding add_room_def low1 usz using Zb by (simp add: lg_def)
  qed
  have used: "used_size m1 lg (of_nat Z) = Z"
  proof -
    have w: "(ucast (2 ^ lb :: u32) :: u64) = 2 ^ lb"
      by (rule bit_word_eqI) (use lb12(1) in \<open>auto simp: bit_simps\<close>)
    have fit: "Z + (2 ^ lb - 1) < 2 ^ 64" using Zb Zf(6) by simp
    have p: "0 < (2::nat) ^ lb" by simp
    have dv: "2 ^ lb dvd Z" unfolding Zf(1) by simp
    then have "(Z + (2 ^ lb - 1)) div 2 ^ lb * 2 ^ lb = Z"
    proof -
      obtain q where q: "Z = 2 ^ lb * q" using dv by blast
      have "(2 ^ lb * q + (2 ^ lb - 1)) div 2 ^ lb = q" 
      proof -
        have "(d * q + (d - 1)) div d = q" if "0 < d" for d :: nat
          by (rule div_nat_eqI) (use that in simp_all)
        with p show ?thesis by blast
      qed
      then show ?thesis by (simp add: q mult.commute)
    qed
    then show ?thesis
      unfolding used_size_def using C(8) unat_ALIGN_UP [of lb "of_nat Z"] fit lb12(1) by (simp add: lg_def w usz)
  qed
  have nsp: "\<not> no_space m1 lg (of_nat Z)"
  proof -
    have "r_num_entries m1 r \<noteq> r_max_entries m1 r"
    proof
      assume "r_num_entries m1 r = r_max_entries m1 r"
      then have "(2 ^ la - 28) div 16 = (1::nat)" using C(5,9) by simp
      moreover have "64 \<le> (2::nat) ^ la" using power_increasing [OF exps(1), of "2::nat"] by simp
      ultimately show False by linarith
    qed
    then show ?thesis using used Zb C(7) by (simp add: no_space_def lg_def)
  qed
  have ul: "\<not> root_is_locked m1 r" using C(6) by (simp add: root_is_locked_def)
  define m2 where "m2 = added m1 lg SMALL_REGION_ID (of_nat Z)"
  note A = added_ok [OF C(1) room1 nsp, of SMALL_REGION_ID, folded m2_def, unfolded used low1 usz]
  have add: "imdr_entry_add m1 lg SMALL_REGION_ID (of_nat Z) = (Some (root_entry r (of_nat 1)), m2)"
    using imdr_entry_add_cases [OF C(1) room1, of SMALL_REGION_ID] ul nsp C(2) by (simp add: lg_def m2_def)
  have bl2: "blocks m2 lg = [(CBMEM_ID_IMD_ROOT, int (unat r), 2 ^ la), (SMALL_REGION_ID, int (unat r) - int Z, Z)]"
    using A(2) C(2) by simp
  have at: "imdr_entry_at m2 lg (root_entry r (of_nat 1)) + of_nat Z = r"
  proof -
    have "imdr_entry_at m2 lg (root_entry (imd_r lg) (of_nat 1)) = of_nat (nat (int (unat r) - int Z))"
      using entry_address(1) [OF A(1), of 1] by (simp add: bl2 block_base_def)
    moreover have "nat (int (unat r) - int Z) = unat r - Z" by (simp only: nat_diff_distrib' of_nat_0_le_iff nat_int)
    ultimately have a: "imdr_entry_at m2 lg (root_entry r (of_nat 1)) = of_nat (unat r - Z)"
      by (simp only: lg_def imdr.select_convs)
    have "unat r - Z + Z = unat r" using ur L' Zb pla by linarith
    then have "(of_nat (unat r - Z) + of_nat Z :: u64) = of_nat (unat r)" by (simp only: of_nat_add [symmetric])
    then show ?thesis unfolding a by simp
  qed
  define sm0 where "sm0 = \<lparr>imd_limit = r, imd_r = 0\<rparr>"
  define rs where "rs = r - 2 ^ sa"
  define sm where "sm = \<lparr>imd_limit = r, imd_r = rs\<rparr>"
  have Lsa: "2 ^ sa < unat (imd_limit sm0)" using ur L' pla by (simp add: sm0_def)
  obtain m3 where c3: "imdr_create_empty m2 sm0 (2 ^ sa) (2 ^ sb) = (True, m3, sm0\<lparr>imd_r := imd_limit sm0 - 2 ^ sa\<rparr>)"
      "created m2 m3 (imd_limit sm0 - 2 ^ sa) (2 ^ sa) (2 ^ sb)"
    using imdr_create_empty_fields [OF Lsa exps(4,5,6)] by blast
  have sm1: "sm0\<lparr>imd_r := rs\<rparr> = sm" by (simp add: sm0_def sm_def)
  have rs1: "imd_limit sm0 - 2 ^ sa = rs" by (simp add: sm0_def rs_def)
  note S = created_ok [OF c3(2) exps(4,5,6) refl Lsa, unfolded rs1 sm1]
  have urs: "unat rs = unat r - 2 ^ sa" using S(3) by (simp add: sm0_def)
  define k where "k = Z - 2 ^ sa"
  have k: "0 < k" "k < 2 ^ 31" "k \<le> unat rs" "Z = 2 ^ sa + k"
    using Zb urs ur L' pla by (simp_all add: k_def)
  have low3: "lowest m3 sm = int (unat rs)" by (simp add: lowest_def S(2) block_base_def)
  define m4 where "m4 = set_fld m3 rs 16 (- of_nat k)"
  have lim4: "imdr_limit_size m3 sm (of_nat Z) = (True, m4)"
    using imdr_limit_size_small [OF S(1), of "of_nat Z" k] usz k S(4) by (simp add: sm_def m4_def)
  have kl: "int (unat (imd_r sm)) - int k \<le> lowest m3 sm" using low3 by (simp add: sm_def)
  note K = limit_facts [OF S(1) k(1,2) kl, unfolded sm_def imdr.select_convs, folded sm_def m4_def, OF k(3)]
  let ?I = "\<lparr>imd_lg = lg, imd_sm = sm\<rparr>"
  have run: "imd_create_tiered_empty m (imd_handle_init up) (2 ^ la) (2 ^ lb) (2 ^ sa) (2 ^ sb) = (True, m4, ?I)"
  proof -
    have h: "imd_handle_init up = \<lparr>imd_lg = lg0, imd_sm = \<lparr>imd_limit = 0, imd_r = 0\<rparr>\<rparr>"
      by (simp add: handle_init_eq lg0_def lim_def)
    show ?thesis
      unfolding imd_create_tiered_empty_def h
      using at c3(1) [unfolded rs1 sm1] c1(1) [unfolded r1 lg1] by (simp add: add szw Let_def lim4 sm0_def [symmetric])
  qed
  have out4: "same_outside m2 m4 rs (2 ^ sa)"
    using same_outside_trans [OF S(10)] K(6) S(4) by simp
  have ap: "apart r (2 ^ la) rs (2 ^ sa)"
    by (rule apartI) (use ur urs L' pla unat_lt_64 [of lim] in simp_all)
  have rsz: "root_size_of lg = 2 ^ la" using C(4) .
  have lgs: "same_on m2 m4 (imd_r lg) (root_size_of lg)"
    using same_outside_on [OF out4 ap] by (simp add: rsz) (simp add: lg_def)
  note G = imdr_ok_same_on [OF A(1) lgs]
  have ix: "index_of SMALL_REGION_ID (blocks m4 lg) = Some 1"
    unfolding G(2) bl2 index_of_Some by simp
  have ok: "imd_ok m4 ?I"
  proof -
    have "int (unat (imd_limit sm)) = (int (unat r) - int Z) + int Z" by (simp add: sm_def)
    moreover have "int (unat r) - int Z \<le> low_bound m4 sm"
    proof -
      have "int (unat rs) + int (2 ^ sa) = int (unat r)"
        using urs ur L' pla by (simp only: of_nat_add [symmetric] of_nat_eq_iff)
      then show ?thesis unfolding K(3) k(4) by simp
    qed
    ultimately show ?thesis
      using G(1) K(1,7) ix by (simp add: imd_ok_def G(2) bl2 block_base_def block_size_def) (simp add: sm_def)
  qed
  have cl: "client_blocks m4 ?I = []"
    unfolding client_blocks_def small_blocks_def by (simp add: G(2) bl2 K(2) S(2))
  have rs0: "rs \<noteq> 0" using imdr_okD(14) [OF S(1)] by (simp add: sm_def)
  have fl: "r_flags m4 r = 0" "r_max_offset m4 r = 0" "unat (r_max_entries m4 r) = (2 ^ la - 28) div 16"
    using same_on_r_fields(1,3,5) [OF lgs] A(5,7,8) C(6,7,9) root_layout_bounds(1) [OF imdr_okD(1) [OF A(1)]]
    by (simp_all add: lg_def)
  have len: "length (blocks m4 lg) = 2" by (simp add: G(2) bl2)
  have lw: "lowest m4 lg = int (unat r) - int Z" by (simp add: lowest_def G(2) bl2 block_base_def)
  have ch: "unat lim \<le> unat x + 2 ^ la + 2 ^ sa \<and> unat x < unat lim" if "m4 x \<noteq> m x" for x
  proof -
    have bt: "unat a \<le> unat x \<and> unat x < unat a + n" if "unat (x - a) < n" "unat a + n \<le> unat lim" for a n
    proof -
      have "unat (a + of_nat (unat (x - a))) = unat a + unat (x - a)"
        using that unat_lt_64 [of lim] by (subst unat_add_no_wrap) (simp_all add: unat_of_nat_64)
      then have "unat x = unat a + unat (x - a)" by simp
      with that show ?thesis by linarith
    qed
    have o12: "same_outside m m2 r (2 ^ la)"
      using same_outside_trans [OF C(10)] added_fields(7) [OF C(1) room1 nsp, of SMALL_REGION_ID] rsz
      by (simp add: lg_def m2_def)
    have "unat (x - rs) < 2 ^ sa \<or> unat (x - r) < 2 ^ la"
      using that out4 o12 unfolding same_outside_def by (metis not_le)
    then show ?thesis
    proof
      assume h: "unat (x - rs) < 2 ^ sa"
      show ?thesis using bt [OF h] ur urs L' pla by linarith
    next
      assume h: "unat (x - r) < 2 ^ la"
      show ?thesis using bt [OF h] ur L' pla by linarith
    qed
  qed
  have int_r: "int (unat r) = int (unat lim) - 2 ^ la"
  proof -
    have "int (unat r) + int (2 ^ la) = int (unat lim)"
      using ur L' pla by (simp only: of_nat_add [symmetric] of_nat_eq_iff)
    then show ?thesis by simp
  qed
  show ?thesis
    unfolding lim_def [symmetric]
    by (intro exI [of _ m4] exI [of _ ?I])
      (use run ok cl rs0 fl len K(4) S(6) ur lw int_r ch in
        \<open>simp add: root_is_locked_def lg_def sm_def Z_def [symmetric]\<close>)
qed

subsection \<open>Walking all entries\<close>

text \<open>The pointers a cursor hands out, in order.\<close>

definition region_entries :: "memory \<Rightarrow> imdr \<Rightarrow> addr list" where
  "region_entries m d =
     (if imd_r d = 0 then []
      else map (\<lambda>i. root_entry (imd_r d) (of_nat i)) [0..<unat (r_num_entries m (imd_r d))])"

fun cursor_collect :: "memory \<Rightarrow> imd \<Rightarrow> imd_cursor \<Rightarrow> nat \<Rightarrow> addr list" where
  "cursor_collect m I c 0 = []"
| "cursor_collect m I c (Suc n) =
     (case imd_cursor_next m I c of
        (None, c') \<Rightarrow> []
      | (Some e, c') \<Rightarrow> e # cursor_collect m I c' n)"

lemma cursor_next_entry:
  assumes "i < 2" "imd_r (cursor_imdr I i) \<noteq> 0" "k < unat (r_num_entries m (imd_r (cursor_imdr I i)))"
  shows "imd_cursor_next m I \<lparr>current_imdr = i, current_entry = of_nat k\<rparr> =
    (Some (root_entry (imd_r (cursor_imdr I i)) (of_nat k)), \<lparr>current_imdr = i, current_entry = of_nat (Suc k)\<rparr>)"
proof -
  let ?n = "unat (r_num_entries m (imd_r (cursor_imdr I i)))"
  have n: "?n < 2 ^ 32" using unsigned_less [of "r_num_entries m (imd_r (cursor_imdr I i))", where 'a = nat] by simp
  have "unat (of_nat ?n :: u64) = ?n" "unat (of_nat k :: u64) = k"
    using n assms(3) by (intro unat_of_nat_64, simp)+
  then have "\<not> (of_nat ?n :: u64) \<le> of_nat k" using assms(3) by (simp only: word_le_nat_alt not_le)
  then have "\<not> ucast (r_num_entries m (imd_r (cursor_imdr I i))) \<le> (of_nat k :: u64)" by simp
  moreover have "\<not> 2 \<le> i" using assms(1) by (simp add: not_le)
  ultimately show ?thesis
    using assms(2) by (subst imd_cursor_next.simps) (simp add: imdr_root_def Let_def add.commute)
qed

lemma cursor_next_region:
  assumes "i < 2" "imd_r (cursor_imdr I i) \<noteq> 0" "k = unat (r_num_entries m (imd_r (cursor_imdr I i)))"
  shows "imd_cursor_next m I \<lparr>current_imdr = i, current_entry = of_nat k\<rparr> =
    imd_cursor_next m I \<lparr>current_imdr = i + 1, current_entry = 0\<rparr>"
proof -
  have "\<not> 2 \<le> i" using assms(1) by (simp add: not_le)
  then show ?thesis
    using assms(2,3) by (subst imd_cursor_next.simps) (simp add: imdr_root_def Let_def)
qed

lemma cursor_collect_region:
  assumes i: "i < 2" "imd_r (cursor_imdr I i) \<noteq> 0"
  shows "k + j = unat (r_num_entries m (imd_r (cursor_imdr I i))) \<Longrightarrow>
    cursor_collect m I \<lparr>current_imdr = i, current_entry = of_nat k\<rparr> (j + n) =
    map (\<lambda>t. root_entry (imd_r (cursor_imdr I i)) (of_nat t)) [k..<k + j] @
    cursor_collect m I \<lparr>current_imdr = i, current_entry = of_nat (k + j)\<rparr> n"
proof (induction j arbitrary: k)
  case (Suc j)
  have up: "[k..<k + Suc j] = k # [Suc k..<Suc k + j]" by (simp add: upt_conv_Cons)
  have lt: "k < unat (r_num_entries m (imd_r (cursor_imdr I i)))" using Suc.prems by linarith
  have eq: "k + Suc j = Suc k + j" by simp
  have "cursor_collect m I \<lparr>current_imdr = i, current_entry = of_nat k\<rparr> (Suc j + n) =
      root_entry (imd_r (cursor_imdr I i)) (of_nat k) #
      cursor_collect m I \<lparr>current_imdr = i, current_entry = of_nat (Suc k)\<rparr> (j + n)"
    unfolding add_Suc cursor_collect.simps cursor_next_entry [OF i lt] by (simp del: of_nat_Suc)
  moreover note Suc.IH [OF Suc.prems [unfolded eq]]
  ultimately show ?case unfolding up by (simp only: list.map append_Cons eq)
qed simp

lemma cursor_end: "imd_cursor_next m I \<lparr>current_imdr = 2, current_entry = k\<rparr> = (None, \<lparr>current_imdr = 2, current_entry = k\<rparr>)"
  by (subst imd_cursor_next.simps) simp

lemma cursor_null: "imd_r (cursor_imdr I i) = 0 \<Longrightarrow> fst (imd_cursor_next m I \<lparr>current_imdr = i, current_entry = k\<rparr>) = None"
  by (subst imd_cursor_next.simps) (simp add: imdr_root_def)

lemma cursor_step_region:
  assumes "i < 2" "imd_r (cursor_imdr I i) \<noteq> 0" "k = unat (r_num_entries m (imd_r (cursor_imdr I i)))"
  shows "cursor_collect m I \<lparr>current_imdr = i, current_entry = of_nat k\<rparr> n =
    cursor_collect m I \<lparr>current_imdr = i + 1, current_entry = 0\<rparr> n"
  using cursor_next_region [OF assms] by (cases n) simp_all

lemma cursor_collect_all:
  assumes ok: "imd_ok m I" and n: "length (region_entries m (imd_lg I)) + length (region_entries m (imd_sm I)) \<le> n"
  shows "cursor_collect m I imd_cursor_init n = region_entries m (imd_lg I) @ region_entries m (imd_sm I)"
proof -
  have lg: "imdr_ok m (imd_lg I)" using ok by (simp add: imd_ok_def)
  have l0: "imd_r (cursor_imdr I 0) \<noteq> 0" using imdr_okD(14) [OF lg] by (simp add: cursor_imdr_def)
  let ?a = "unat (r_num_entries m (imd_r (imd_lg I)))"
  have ra: "region_entries m (imd_lg I) = map (\<lambda>i. root_entry (imd_r (imd_lg I)) (of_nat i)) [0..<?a]"
    using l0 by (simp add: region_entries_def cursor_imdr_def)
  obtain n1 where n1: "n = ?a + n1" using n by (auto simp: ra le_iff_add)
  have first: "cursor_collect m I imd_cursor_init n =
      region_entries m (imd_lg I) @ cursor_collect m I \<lparr>current_imdr = 1, current_entry = 0\<rparr> n1"
    using cursor_collect_region [OF _ l0, of 0 ?a m n1] cursor_step_region [OF _ l0, of ?a m n1]
    by (simp add: imd_cursor_init_def n1 ra cursor_imdr_def)
  show ?thesis
  proof (cases "imd_r (imd_sm I) = 0")
    case True
    then have "cursor_collect m I \<lparr>current_imdr = 1, current_entry = 0\<rparr> n1 = []"
      using cursor_null [of I 1 m 0] by (cases n1) (auto simp: cursor_imdr_def split: prod.splits option.splits)
    with first True show ?thesis by (simp add: region_entries_def)
  next
    case False
    then have s0: "imd_r (cursor_imdr I 1) \<noteq> 0" by (simp add: cursor_imdr_def)
    let ?b = "unat (r_num_entries m (imd_r (imd_sm I)))"
    have rb: "region_entries m (imd_sm I) = map (\<lambda>i. root_entry (imd_r (imd_sm I)) (of_nat i)) [0..<?b]"
      using False by (simp add: region_entries_def)
    obtain n2 where n2: "n1 = ?b + n2" using n by (auto simp: ra rb n1 le_iff_add)
    have two: "(1 + 1 :: u64) = 2" by simp
    have "cursor_collect m I \<lparr>current_imdr = 1 + 1, current_entry = 0\<rparr> n2 = []"
      unfolding two by (cases n2) (simp_all add: cursor_end)
    then have "cursor_collect m I \<lparr>current_imdr = 1, current_entry = 0\<rparr> n1 = region_entries m (imd_sm I)"
      using cursor_collect_region [OF _ s0, of 0 ?b m n2] cursor_step_region [OF _ s0, of ?b m n2]
      by (simp add: n2 rb cursor_imdr_def)
    with first show ?thesis by simp
  qed
qed

lemma region_entries_blocks:
  assumes "imd_ok m I"
  shows "map (imd_entry_id m) (region_entries m (imd_lg I)) = map fst (blocks m (imd_lg I))"
    "map (imd_entry_id m) (region_entries m (imd_sm I)) = map fst (small_blocks m I)"
  using assms imdr_okD(14) [of m "imd_lg I"]
  by (auto simp: imd_ok_def region_entries_def small_blocks_def imd_entry_id_def entry_id_block length_blocks
      intro!: nth_equalityI)

subsection \<open>Sizes the offset field cannot hold\<close>

text \<open>Recovery rejects a region one of whose entries starts at or above the limit.\<close>

lemma recover_entries_bound:
  "recover_entries m r low limit (of_nat i) k \<Longrightarrow> i \<le> t \<Longrightarrow> t < i + k \<Longrightarrow>
   relative_pointer r (scast (e_start_offset m (root_entry r (of_nat t)))) < limit"
proof (induction k arbitrary: i)
  case (Suc k)
  show ?case
  proof (cases "t = i")
    case True
    with Suc.prems(1) show ?thesis by (simp add: Let_def not_le split: if_splits)
  next
    case False
    have "recover_entries m r low limit (of_nat (Suc i)) k"
      using Suc.prems(1) by (simp add: Let_def add.commute split: if_splits)
    then show ?thesis by (rule Suc.IH) (use False Suc.prems in simp_all)
  qed
qed simp

lemma of_int_add_32: "(word_of_int (k + 2 ^ 32) :: u32) = word_of_int k"
  by transfer (simp add: take_bit_eq_mod)

definition wraps :: "memory \<Rightarrow> imdr \<Rightarrow> size_t \<Rightarrow> bool" where
  "wraps m d size1 \<longleftrightarrow>
     r_max_offset m (imd_r d) = 0 \<and> r_num_entries m (imd_r d) \<noteq> r_max_entries m (imd_r d) \<and>
     \<not> root_is_locked m (imd_r d) \<and>
     2 ^ 31 < int (unat (imd_r d)) - lowest m d + int (used_size m d size1) \<and>
     int (unat (imd_r d)) - lowest m d + int (used_size m d size1) + int (root_size_of d) \<le> 2 ^ 32 \<and>
     int (unat (imd_r d)) + 2 ^ 32 \<le> 2 ^ 64"

lemma wrapping_add:
  assumes ok: "imdr_ok m d" and w: "wraps m d size1"
  shows "\<exists>e m'. imdr_entry_add m d ident size1 = (Some e, m') \<and>
    int (unat (imdr_entry_at m' d e)) = lowest m d - int (used_size m d size1) + 2 ^ 32 \<and>
    imd_limit d \<le> imdr_entry_at m' d e \<and> fst (imdr_recover m' d) = False"
proof -
  define r where "r = imd_r d"
  define n where "n = unat (r_num_entries m r)"
  note D = imdr_okD [OF ok, folded r_def, folded n_def]
  note B = lowest_bounds [OF ok, folded r_def]
  define s where "s = lowest m d - int (unat r)"
  define U where "U = used_size m d size1"
  have s: "sint (e_start_offset m (root_last_entry m r)) = s" "- (2 ^ 31) \<le> s" "s \<le> 0"
    using B(3,4) sint_ge [of "e_start_offset m (root_last_entry m r)"] by (simp_all add: s_def)
  have W: "2 ^ 31 < int U - s" "int U - s + int (root_size_of d) \<le> 2 ^ 32" "int (unat r) + 2 ^ 32 \<le> 2 ^ 64"
    "r_max_offset m r = 0" "r_num_entries m r \<noteq> r_max_entries m r" "\<not> root_is_locked m r"
    using w by (simp_all add: wraps_def s_def U_def r_def)
  have U: "0 < U" "U \<le> 2 ^ 32"
    using W(1,2) s(2,3) by simp_all
  have nl: "\<not> imd_root_data_left m r < ALIGN_UP size1 (ucast (r_entry_align m r))"
    using imd_root_data_left_less [OF ok, of size1] W(4) by (simp add: r_def)
  have al: "ALIGN_UP size1 (ucast (r_entry_align m r)) = word_of_int (int U)"
    by (simp add: U_def used_size_def r_def)
  have ns: "n < 254"
    using W(5) D(11,12) by (simp add: n_def word_unat_eq_iff r_def)
  have start: "(scast (e_start_offset m (root_last_entry m r)) :: u64) = word_of_int s"
    unfolding scast_u32_u64 s(1) ..
  have ss: "sint (word_of_int s :: u64) = s" by (rule sint_of_int_u64) (use s in simp_all)
  have se: "sint (word_of_int (s - int U) :: u64) = s - int U"
    by (rule sint_of_int_u64) (use s U in simp_all)
  have lt: "\<not> (word_of_int s :: u64) \<le>s word_of_int (s - int U)"
    unfolding word_sle_eq ss se using U by simp
  define e where "e = root_entry r (of_nat n)"
  define m' where "m' = imd_entry_assign (set_fld m r 4 (r_num_entries m r + 1)) e ident (word_of_int (s - int U)) size1"
  have last: "root_last_entry m r + 16 = e"
  proof -
    have "root_last_entry m r + 16 = root_entry r (of_nat (n - 1) + 1)"
      using root_last_entry_nat [of m r] D(10) by (simp add: root_entry_def n_def)
    also have "of_nat (n - 1) + 1 = (of_nat n :: u64)" using D(10) by (simp add: of_nat_diff)
    finally show ?thesis by (simp add: e_def)
  qed
  have "imd_entry_add_to_root m r ident size1 = (Some e, m')"
    unfolding imd_entry_add_to_root_def Let_def start al
    using W(5) nl lt al by (simp add: last m'_def root_stores(2))
  then have add: "imdr_entry_add m d ident size1 = (Some e, m')"
    using D(14) W(6) by (simp add: imdr_entry_add_def imdr_root_def r_def Let_def)
  note M = m'_def [unfolded e_def entry_assign_fields ucast_down_of_int]
  have F: "fld m' r (20 + 16 * n + 4) = word_of_int (s - int U)"
    "fld m' r 4 = r_num_entries m r + 1"
    unfolding M using ns by (simp_all add: fld_set_other)
  have F': "fld m' r k = fld m r k" if "36 + 16 * n \<le> k" "k < 2 ^ 62" for k
    unfolding M using ns that by (simp add: fld_set_other)
  have off: "sint (word_of_int (s - int U) :: u32) = s - int U + 2 ^ 32"
  proof -
    have "(word_of_int (s - int U) :: u32) = word_of_int (s - int U + 2 ^ 32)"
      by (simp only: of_int_add_32)
    moreover have "sint (word_of_int (s - int U + 2 ^ 32) :: u32) = s - int U + 2 ^ 32"
      by (rule sint_of_int_u32) (use W(1,2) s U in simp_all)
    ultimately show ?thesis by (simp only:)
  qed
  have start': "sint (e_start_offset m' e) = s - int U + 2 ^ 32"
    unfolding e_def entry_fields F(1) by (rule off)
  have at: "imdr_entry_at m' d e = word_of_int (int (unat r) + s - int U + 2 ^ 32)"
    unfolding imdr_entry_at_def relative_pointer_def imdr_root_def r_def [symmetric] scast_u32_u64 start' by simp
  have rs: "int (unat r) + int (root_size_of d) = int (unat (imd_limit d))"
    using root_layout_bounds(5) [OF D(1)] by (simp only: of_nat_add [symmetric] r_def)
  have rng: "0 \<le> int (unat r) + s - int U + 2 ^ 32" "int (unat r) + s - int U + 2 ^ 32 < 2 ^ 64"
  proof -
    obtain R where R: "R = int (unat r)" "0 \<le> R" by simp
    show "0 \<le> int (unat r) + s - int U + 2 ^ 32" "int (unat r) + s - int U + 2 ^ 32 < 2 ^ 64"
      using W(2,3) U s R(2) unfolding R(1) [symmetric] by simp_all
  qed
  have uat: "int (unat (imdr_entry_at m' d e)) = int (unat r) + s - int U + 2 ^ 32"
  proof -
    have "unat (imdr_entry_at m' d e) = nat (int (unat r) + s - int U + 2 ^ 32)"
    proof -
      have "(word_of_int (int (unat r) + s - int U + 2 ^ 32) :: u64) = of_nat (nat (int (unat r) + s - int U + 2 ^ 32))"
        using rng(1) by (rule word_of_int_nonneg)
      moreover have "nat (int (unat r) + s - int U + 2 ^ 32) < 2 ^ 64"
        using rng by (simp add: nat_less_iff)
      ultimately show ?thesis unfolding at by (simp only: unat_of_nat_64)
    qed
    then show ?thesis using rng(1) by simp
  qed
  have hi: "imd_limit d \<le> imdr_entry_at m' d e"
  proof -
    have "int (unat (imd_limit d)) \<le> int (unat (imdr_entry_at m' d e))"
      unfolding uat rs [symmetric] using W(2) by simp
    then show ?thesis by (simp only: word_le_nat_alt of_nat_le_iff)
  qed
  have "fst (imdr_recover m' d) = False"
  proof -
    note b = root_layout_bounds [OF D(1)]
    obtain mx where mx: "mx = unat (r_max_entries m r)" by blast
    have lay: "28 + 16 * mx \<le> root_size_of d" "n < mx" "root_size_of d \<le> 4096"
      using D(1,11) W(5) unfolding root_layout_def r_def [symmetric] n_def mx by (simp_all add: word_unat_eq_iff)
    have ge: "44 + 16 * n \<le> root_size_of d" "root_size_of d \<le> 4096" using lay by linarith+
    have "fld m' r (root_size_of d - 4) = fld m r (root_size_of d - 4)"
      by (rule F', use ge in linarith, use ge in simp)
    then have rp: "relative_pointer (imdr_get_root_pointer d) (scast (rp_root_offset m' (imdr_get_root_pointer d))) = r"
      using root_from_pointer(1) [OF ok] root_pointer_fld(2) [OF b(3)] by (simp add: r_def)
    have num: "unat (r_num_entries m' r) = Suc n"
    proof -
      have "r_num_entries m' r = of_nat (Suc n)" unfolding root_fields F(2) by (simp add: n_def root_fields)
      moreover have "unat (of_nat (Suc n) :: u32) = Suc n" using ns by (intro unat_of_nat_lt) simp
      ultimately show ?thesis by simp
    qed
    have no: "\<not> recover_entries m' r low (imd_limit d) 0 (unat (r_num_entries m' r))" for low
    proof
      assume "recover_entries m' r low (imd_limit d) 0 (unat (r_num_entries m' r))"
      then have "relative_pointer r (scast (e_start_offset m' (root_entry r (of_nat n)))) < imd_limit d"
        using recover_entries_bound [of m' r low "imd_limit d" 0 "Suc n" n] by (simp only: num) simp
      moreover have "relative_pointer r (scast (e_start_offset m' (root_entry r (of_nat n)))) = imdr_entry_at m' d e"
        by (simp add: imdr_entry_at_def imdr_root_def r_def e_def)
      ultimately show False using hi by simp
    qed
    show ?thesis by (simp add: imdr_recover_def Let_def rp no)
  qed
  moreover have "lowest m d - int U + 2 ^ 32 = int (unat r) + s - int U + 2 ^ 32" by (simp add: s_def)
  ultimately show ?thesis using add uat hi by (intro exI [of _ e] exI [of _ m']) (simp add: U_def)
qed

lemma ALIGN_DOWN_4096: "unat (ALIGN_DOWN x 4096) = unat x div 4096 * 4096"
  using unat_ALIGN_DOWN [of x 12] by simp

lemma ALIGN_DOWN_idem: "ALIGN_DOWN (ALIGN_DOWN x 4096) 4096 = ALIGN_DOWN x 4096"
  by (rule word_eq_unatI) (unfold ALIGN_DOWN_4096, simp)

lemma find_same:
  assumes "imd_ok m I" "imd_ok m' I" "blocks m' (imd_lg I) = blocks m (imd_lg I)" "small_blocks m' I = small_blocks m I"
  shows "imd_entry_find m' I ident = imd_entry_find m I ident"
  using assms(4) unfolding imd_entry_find_eq [OF assms(1)] imd_entry_find_eq [OF assms(2)] assms(3)
  by (cases "imd_r (imd_sm I) = 0") (simp_all add: small_blocks_def)

lemma client_writes_find:
  assumes ok: "imd_ok m I" and w: "\<forall>x. m' x \<noteq> m x \<longrightarrow> (\<exists>b\<in>set (client_blocks m I). in_block b x)"
  shows "imd_entry_find m' I ident = imd_entry_find m I ident"
  using find_same [OF ok client_writes_same(1) [OF ok w] client_writes_same(3,4) [OF ok w]] .

subsection \<open>Properties\<close>

text \<open>Creating a two-tiered directory with power-of-two geometry under a limit of at least 2 MiB
  succeeds: the handle and the memory are well-formed, nothing is allocated, neither region is locked,
  the small region sits just below the large root, and only the two root blocks were written.\<close>

theorem imd_create_tiered_empty_spec:
  assumes "6 \<le> la" "la \<le> 12" "lb \<le> la" "6 \<le> sa" "sa \<le> 12" "sb \<le> sa"
    and "2 ^ 21 \<le> unat (ALIGN_DOWN up 4096)"
  shows "\<exists>m' I. imd_create_tiered_empty m (imd_handle_init up) (2 ^ la) (2 ^ lb) (2 ^ sa) (2 ^ sb) = (True, m', I) \<and>
    imd_ok m' I \<and> client_blocks m' I = [] \<and> imd_limit (imd_lg I) = ALIGN_DOWN up 4096 \<and>
    imd_r (imd_sm I) \<noteq> 0 \<and>
    \<not> root_is_locked m' (imd_r (imd_lg I)) \<and> \<not> root_is_locked m' (imd_r (imd_sm I)) \<and>
    lowest m' (imd_lg I) = int (unat (ALIGN_DOWN up 4096)) - 2 ^ la -
      int (unat (small_region_size (2 ^ lb) (2 ^ sa) (2 ^ sb))) \<and>
    (\<forall>x. m' x \<noteq> m x \<longrightarrow> unat (ALIGN_DOWN up 4096) \<le> unat x + 2 ^ la + 2 ^ sa \<and> unat x < unat (ALIGN_DOWN up 4096))"
  using create_tiered_facts [OF assms, of m] by blast

definition sample_created :: "bool \<times> memory \<times> imd" where
  "sample_created = imd_create_tiered_empty (\<lambda>_. 0) (imd_handle_init 0x10000000) 4096 4096 1024 32"

definition sample_memory :: memory where "sample_memory = fst (snd sample_created)"
definition sample_imd :: imd where "sample_imd = snd (snd sample_created)"

lemma sample_imd_facts:
  "imd_ok sample_memory sample_imd" "client_blocks sample_memory sample_imd = []"
  "imd_limit (imd_lg sample_imd) = 0x10000000" "\<not> root_is_locked sample_memory (imd_r (imd_lg sample_imd))"
  "r_max_offset sample_memory (imd_r (imd_lg sample_imd)) = 0"
  "0xFF00000 \<le> lowest sample_memory (imd_lg sample_imd)"
  "unat (imd_r (imd_lg sample_imd)) = 0xFFFF000"
  "r_num_entries sample_memory (imd_r (imd_lg sample_imd)) \<noteq> r_max_entries sample_memory (imd_r (imd_lg sample_imd))"
  "length (blocks sample_memory (imd_lg sample_imd)) = 2"
  "unat (r_max_entries sample_memory (imd_r (imd_lg sample_imd))) = 254"
proof -
  have a: "ALIGN_DOWN 0x10000000 4096 = 0x10000000" by (simp add: ALIGN_DOWN_def)
  have L: "(2::nat) ^ 21 \<le> unat (ALIGN_DOWN 0x10000000 4096)" by (simp add: a)
  have Z: "unat (small_region_size 4096 1024 32) = 4096"
    by (simp add: small_region_size_def root_num_entries_def ALIGN_UP_def)
  have p: "(2::u64) ^ 12 = 4096" "(2::u64) ^ 10 = 1024" "(2::u64) ^ 5 = 32" "(2::nat) ^ 12 = 4096" "(2::int) ^ 12 = 4096"
    by simp_all
  obtain m' I where f: "sample_created = (True, m', I)" "imd_ok m' I" "client_blocks m' I = []"
      "imd_limit (imd_lg I) = 0x10000000" "\<not> root_is_locked m' (imd_r (imd_lg I))"
      "r_max_offset m' (imd_r (imd_lg I)) = 0" "lowest m' (imd_lg I) = 0x10000000 - 4096 - int (unat (small_region_size 4096 1024 32))"
      "unat (imd_r (imd_lg I)) = 0x10000000 - 4096" "length (blocks m' (imd_lg I)) = 2"
      "unat (r_max_entries m' (imd_r (imd_lg I))) = (4096 - 28) div 16"
    using create_tiered_facts [of 12 12 10 5, OF _ _ _ _ _ _ L, of "\<lambda>_. 0"]
    unfolding a sample_created_def p by auto
  have ne: "r_num_entries m' (imd_r (imd_lg I)) \<noteq> r_max_entries m' (imd_r (imd_lg I))"
    using f(9,10) by (auto simp: length_blocks)
  have s: "sample_memory = m'" "sample_imd = I" by (simp_all add: sample_memory_def sample_imd_def f(1))
  show "imd_ok sample_memory sample_imd" "client_blocks sample_memory sample_imd = []"
    "imd_limit (imd_lg sample_imd) = 0x10000000" "\<not> root_is_locked sample_memory (imd_r (imd_lg sample_imd))"
    "r_max_offset sample_memory (imd_r (imd_lg sample_imd)) = 0"
    "0xFF00000 \<le> lowest sample_memory (imd_lg sample_imd)"
    "unat (imd_r (imd_lg sample_imd)) = 0xFFFF000"
    "r_num_entries sample_memory (imd_r (imd_lg sample_imd)) \<noteq> r_max_entries sample_memory (imd_r (imd_lg sample_imd))"
    "length (blocks sample_memory (imd_lg sample_imd)) = 2"
    "unat (r_max_entries sample_memory (imd_r (imd_lg sample_imd))) = 254"
    unfolding s using f(2-10) ne by (simp_all add: Z)
qed

lemma sample_room: "unat size1 \<le> 0x1000000 \<Longrightarrow> add_room sample_memory (imd_lg sample_imd) size1"
proof -
  assume "unat size1 \<le> 0x1000000"
  then have "int (unat size1) \<le> int 0x1000000" by (simp only: of_nat_le_iff)
  moreover have "int (unat (imd_r (imd_lg sample_imd))) = 0xFFFF000" by (simp only: sample_imd_facts(7) of_nat_numeral)
  ultimately show ?thesis using sample_imd_facts(6) by (simp add: add_room_def)
qed

lemma sample_find_none: "imd_entry_find sample_memory sample_imd 0x434F4E53 = None"
proof -
  let ?L = "blocks sample_memory (imd_lg sample_imd)" and ?S = "blocks sample_memory (imd_sm sample_imd)"
  have id: "(0x434F4E53 :: u32) \<noteq> SMALL_REGION_ID" by (simp add: SMALL_REGION_ID_def)
  have nth: "bs ! i \<in> set (tl bs)" if "1 \<le> i" "i < length bs" for bs :: "block list" and i
    using that by (cases bs) (auto simp: nth_Cons')
  have "\<forall>b\<in>set (tl ?L). fst b = SMALL_REGION_ID"
    using sample_imd_facts(2) by (simp add: client_blocks_def filter_empty_conv)
  then have l: "index_of 0x434F4E53 ?L = None"
    unfolding index_of_None using nth [of _ ?L] id by metis
  have "imd_r (imd_sm sample_imd) \<noteq> 0 \<Longrightarrow> tl ?S = []"
    using sample_imd_facts(2) by (simp add: client_blocks_def small_blocks_def)
  then have "imd_r (imd_sm sample_imd) \<noteq> 0 \<Longrightarrow> index_of 0x434F4E53 ?S = None"
    unfolding index_of_None using nth [of _ ?S] by auto
  with l show ?thesis by (simp add: imd_entry_find_eq [OF sample_imd_facts(1)])
qed

lemma sample_first:
  obtains e m' base where "imd_entry_add sample_memory sample_imd 0x434F4E53 0x20000 = (Some e, m')"
    "imd_ok m' sample_imd" "add_result sample_memory sample_imd 0x434F4E53 0x20000 e m' base"
    "imd_entry_find m' sample_imd 0x434F4E53 = Some e"
proof -
  have room: "add_room sample_memory (imd_lg sample_imd) 0x20000" by (rule sample_room) simp
  have lg: "imdr_ok sample_memory (imd_lg sample_imd)" using sample_imd_facts(1) by (simp add: imd_ok_def)
  have "0 < used_size sample_memory (imd_lg sample_imd) 0x20000" by (rule used_size_props(3) [OF lg]) simp_all
  then have nsp: "\<not> no_space sample_memory (imd_lg sample_imd) 0x20000"
    using sample_imd_facts(5,8) by (simp add: no_space_def)
  have id: "(0x434F4E53 :: u32) \<noteq> SMALL_REGION_ID" by (simp add: SMALL_REGION_ID_def)
  from imd_add_facts [OF sample_imd_facts(1) room id] nsp sample_imd_facts(4) that sample_find_none
  show ?thesis by (auto simp: add_result_def split: prod.splits option.splits)
qed



text \<open>C13: recovery. After the clients have written anything at all into their allocations, a later
  boot stage that only knows the upper limit gets back exactly the same handle, by the checked as well
  as by the partial recovery, with the same allocations and the same answer to every lookup.\<close>

theorem imd_recover_spec:
  assumes "imd_ok m I" "imd_limit (imd_lg I) = ALIGN_DOWN up 4096"
    and "\<forall>x. m' x \<noteq> m x \<longrightarrow> (\<exists>b\<in>set (client_blocks m I). in_block b x)"
  shows "imd_recover m' (imd_handle_init up) = (True, I) \<and>
    imd_handle_init_partial_recovery m' (imd_handle_init up) = I \<and>
    imd_ok m' I \<and> client_blocks m' I = client_blocks m I \<and>
    (\<forall>ident. imd_entry_find m' I ident = imd_entry_find m I ident)"
proof -
  note W = client_writes_same [OF assms(1,3)]
  have al: "ALIGN_DOWN (imd_limit (imd_lg I)) LIMIT_ALIGN = imd_limit (imd_lg I)"
    unfolding assms(2) LIMIT_ALIGN_def by (rule ALIGN_DOWN_idem)
  show ?thesis
    using imd_recover_eq [OF W(1), of "imd_handle_init up"] partial_recovery_eq [OF W(1) _ al, of "imd_handle_init up"]
      W(1,2) client_writes_find [OF assms(1,3)] assms(2)
    by (simp add: handle_init_eq)
qed

theorem imd_recover_spec_witness:
  "imd_recover sample_memory (imd_handle_init 0x10000FFF) = (True, sample_imd) \<and>
   imd_handle_init_partial_recovery sample_memory (imd_handle_init 0x10000FFF) = sample_imd"
proof -
  have "imd_limit (imd_lg sample_imd) = ALIGN_DOWN 0x10000FFF 4096"
    by (simp add: sample_imd_facts(3) ALIGN_DOWN_def)
  from imd_recover_spec [OF sample_imd_facts(1) this, of sample_memory] show ?thesis by simp
qed

text \<open>Removal. The entry an allocation has just returned can be taken back, which restores the
  allocations as they were; and any removal that succeeds takes exactly one allocation away and leaves
  a well-formed directory, unless it takes the entry of the small region itself.\<close>

theorem imd_entry_remove_spec:
  assumes "imd_ok m I"
  shows "(add_room m (imd_lg I) size1 \<and> ident \<noteq> SMALL_REGION_ID \<and> imd_entry_add m I ident size1 = (Some e, m') \<longrightarrow>
      (\<exists>m''. imd_entry_remove m' I e = (True, m'') \<and> imd_ok m'' I \<and> client_blocks m'' I = client_blocks m I)) \<and>
    (imd_entry_remove m I e2 = (True, m2) \<and> imd_entry_id m e2 \<noteq> SMALL_REGION_ID \<longrightarrow>
      imd_ok m2 I \<and> (\<exists>b. fst b = imd_entry_id m e2 \<and> mset (client_blocks m I) = mset (client_blocks m2 I) + {#b#}))"
  using imd_add_remove [OF assms] imd_remove_facts [OF assms] by blast

text \<open>The header says that adding an id that already exists returns \<^verbatim>\<open>NULL\<close>. The code checks no such
  thing: with room left, the id is present once more afterwards.\<close>

theorem imd_entry_add_duplicate:
  assumes "imd_ok m I" "add_room m (imd_lg I) size1" "ident \<noteq> SMALL_REGION_ID"
    and "imd_entry_find m I ident = Some e0"
    and "\<not> root_is_locked m (imd_r (imd_lg I))" "\<not> no_space m (imd_lg I) size1"
  shows "\<exists>e m'. imd_entry_add m I ident size1 = (Some e, m') \<and> imd_entry_id m' e = ident \<and>
    length (filter (\<lambda>b. fst b = ident) (client_blocks m' I)) =
      Suc (length (filter (\<lambda>b. fst b = ident) (client_blocks m I)))"
proof -
  from imd_add_facts [OF assms(1-3)] assms(5,6) obtain e m' base where
    r: "imd_entry_add m I ident size1 = (Some e, m')" "add_result m I ident size1 e m' base"
    by (auto split: prod.splits option.splits)
  then have "mset (client_blocks m' I) = mset (client_blocks m I) + {#(ident, base, unat size1)#}"
    by (simp add: add_result_def)
  then have "size (filter_mset (\<lambda>b. fst b = ident) (mset (client_blocks m' I))) =
      Suc (size (filter_mset (\<lambda>b. fst b = ident) (mset (client_blocks m I))))"
    by simp
  then have "length (filter (\<lambda>b. fst b = ident) (client_blocks m' I)) =
      Suc (length (filter (\<lambda>b. fst b = ident) (client_blocks m I)))"
    by (simp only: mset_filter [symmetric] size_mset)
  with r show ?thesis by (auto simp: add_result_def)
qed

text \<open>What an allocation from a fresh directory leaves for the next one.\<close>

lemma sample_second:
  assumes a: "imd_entry_add sample_memory sample_imd 0x434F4E53 0x20000 = (Some e, m')"
  shows "imd_ok m' sample_imd" "add_room m' (imd_lg sample_imd) 0x1000"
    "\<not> root_is_locked m' (imd_r (imd_lg sample_imd))" "\<not> no_space m' (imd_lg sample_imd) 0x1000"
proof -
  let ?d = "imd_lg sample_imd"
  have room: "add_room sample_memory ?d 0x20000" by (rule sample_room) simp
  have ident: "(0x434F4E53 :: u32) \<noteq> SMALL_REGION_ID" by (simp add: SMALL_REGION_ID_def)
  have lg: "imdr_ok sample_memory ?d" using sample_imd_facts(1) by (simp add: imd_ok_def)
  from imd_add_facts [OF sample_imd_facts(1) room ident] a
  show ok: "imd_ok m' sample_imd" by auto
  have lg': "imdr_ok m' ?d" using ok by (simp add: imd_ok_def)
  have "r_max_offset m' (imd_r ?d) = 0 \<and> 0xFED0000 \<le> lowest m' ?d \<and> length (blocks m' ?d) \<le> 3 \<and>
      r_flags m' (imd_r ?d) = r_flags sample_memory (imd_r ?d) \<and> unat (r_max_entries m' (imd_r ?d)) = 254"
  proof -
    from a consider
      (s) "imd_r (imd_sm sample_imd) \<noteq> 0" "\<not> no_space sample_memory (imd_sm sample_imd) 0x20000"
        "m' = added sample_memory (imd_sm sample_imd) 0x434F4E53 0x20000"
      | (l) "\<not> no_space sample_memory ?d 0x20000" "m' = added sample_memory ?d 0x434F4E53 0x20000"
      unfolding imd_entry_add_cases [OF sample_imd_facts(1) room] by (auto split: if_splits)
    then show ?thesis
    proof cases
      case s
      obtain j where j: "index_of SMALL_REGION_ID (blocks sample_memory ?d) = Some j"
        using sample_imd_facts(1) s(1) by (auto simp: imd_ok_def split: option.splits)
      note S = small_region [OF sample_imd_facts(1) j]
      have r2: "add_room sample_memory (imd_sm sample_imd) 0x20000" using S(9) by (simp add: add_room_def)
      have out: "same_outside sample_memory m' (imd_r (imd_sm sample_imd)) (root_size_of (imd_sm sample_imd))"
        using added_fields(7) [OF S(1) r2 s(2)] by (simp add: s(3))
      have sm: "same_on sample_memory m' (imd_r ?d) (root_size_of ?d)"
        by (rule same_outside_on [OF out roots_apart(1) [OF sample_imd_facts(1) j]])
      have bl: "blocks m' ?d = blocks sample_memory ?d" by (rule imdr_ok_same_on(2) [OF lg sm])
      show ?thesis
        using same_on_r_fields [OF sm root_layout_bounds(1) [OF imdr_okD(1) [OF lg]]] sample_imd_facts(5,6,9,10)
        by (simp add: lowest_def bl)
    next
      case l
      note A = added_ok [OF lg room l(1), of "0x434F4E53", folded l(2)]
      have "used_size sample_memory ?d 0x20000 < 0x21000"
        using used_size_props(1) [OF lg, of "0x20000"] by auto
      then have "int (used_size sample_memory ?d 0x20000) < int 0x21000" by (simp only: of_nat_less_iff)
      then show ?thesis
        using A(2,5,7,8) sample_imd_facts(5,6,9,10) by (simp add: lowest_def block_base_def)
    qed
  qed
  note f = this
  have "int (unat (imd_r ?d)) = 0xFFFF000" by (simp only: sample_imd_facts(7) of_nat_numeral)
  with f show "add_room m' ?d 0x1000" by (simp add: add_room_def)
  show "\<not> root_is_locked m' (imd_r ?d)" using f sample_imd_facts(4) by (simp add: root_is_locked_def)
  have "0 < used_size m' ?d 0x1000" by (rule used_size_props(3) [OF lg']) simp_all
  moreover have "r_num_entries m' (imd_r ?d) \<noteq> r_max_entries m' (imd_r ?d)"
    using f by (auto simp: length_blocks)
  ultimately show "\<not> no_space m' ?d 0x1000" using f by (simp add: no_space_def)
qed

text \<open>Sizes beyond the range of the signed 32-bit offset. The check against overflow is made on a
  64-bit value, before it is cut to \<^verbatim>\<open>int32_t\<close>, so a region without limit accepts them: the block it
  returns lies 4 GiB too high, at or above the limit of the region, and the directory cannot be
  recovered any more.\<close>

theorem imdr_entry_add_wraps:
  assumes "imdr_ok m d" "wraps m d size1"
  shows "\<exists>e m'. imdr_entry_add m d ident size1 = (Some e, m') \<and>
    int (unat (imdr_entry_at m' d e)) = lowest m d - int (used_size m d size1) + 2 ^ 32 \<and>
    imd_limit d \<le> imdr_entry_at m' d e \<and> fst (imdr_recover m' d) = False"
  by (rule wrapping_add [OF assms])

text \<open>A cursor visits every entry exactly once, in order: the large region first, then the small
  one, with the ids the directory holds; after the last it answers \<^verbatim>\<open>NULL\<close>.\<close>

theorem imd_cursor_complete:
  assumes "imd_ok m I" "length (blocks m (imd_lg I)) + length (small_blocks m I) \<le> n"
  shows "cursor_collect m I imd_cursor_init n = region_entries m (imd_lg I) @ region_entries m (imd_sm I) \<and>
    map (imd_entry_id m) (cursor_collect m I imd_cursor_init n) =
      map fst (blocks m (imd_lg I)) @ map fst (small_blocks m I)"
proof -
  note R = region_entries_blocks [OF assms(1)]
  have "length (region_entries m (imd_lg I)) = length (blocks m (imd_lg I))"
    "length (region_entries m (imd_sm I)) = length (small_blocks m I)"
    using R by (metis length_map)+
  with assms(2) show ?thesis using cursor_collect_all [OF assms(1), of n] R by simp
qed

end
