(* ===== verification/Cbmem.thy ===== *)
theory Cbmem
  imports Imd BootMem
begin

text \<open>
  CBMEM, \<^verbatim>\<open>src/lib/imd_cbmem.c\<close>: the one directory of \<^verbatim>\<open>Imd\<close> that every boot stage after memory training
  shares, with its set-up in the stage that creates it, its recovery in the later ones, and its report
  to the boot memory map and to the coreboot table. What the code takes from the build configuration
  and the platform is in the record \<open>cbmem_env\<close>: the kind of stage, the top address the chipset reports,
  and the init hooks other components register. A \<open>None\<close> result is \<^verbatim>\<open>die\<close>.
\<close>

unbundle bit_operations_syntax

definition CBMEM_ROOT_MIN_SIZE :: size_t where "CBMEM_ROOT_MIN_SIZE = 4096"
definition CBMEM_LG_ALIGN :: size_t where "CBMEM_LG_ALIGN = CBMEM_ROOT_MIN_SIZE"
definition CBMEM_SM_ROOT_SIZE :: size_t where "CBMEM_SM_ROOT_SIZE = 1024"
definition CBMEM_SM_ALIGN :: size_t where "CBMEM_SM_ALIGN = 32"

record cbmem =
  cb_memory :: memory
  cb_imd :: imd
  cb_top :: addr
  cbmem_initialized :: bool

record cbmem_env =
  ENV_CREATES_CBMEM :: bool
  ENV_POSTCAR_OR_RAMSTAGE :: bool
  ENV_X86 :: bool
  cbmem_top_chipset :: addr
  cbmem_top_ptr :: addr
  cbmem_init_hooks :: "(bool \<Rightarrow> cbmem \<Rightarrow> cbmem) list"

subsection \<open>Operations\<close>

text \<open>The test of one word: both patterns must read back, and the old contents are restored.\<close>

definition quick_ram_check_or_die :: "memory \<Rightarrow> addr \<Rightarrow> memory option" where
  "quick_ram_check_or_die m dst =
     (let backup = load32 m dst;
          m1 = store32 m dst 0x55555555;
          fail1 = (load32 m1 dst \<noteq> 0x55555555);
          m2 = store32 m1 dst 0xaaaaaaaa;
          fail2 = (load32 m2 dst \<noteq> 0xaaaaaaaa);
          m3 = store32 m2 dst 0x00000000;
          fail3 = (load32 m3 dst \<noteq> 0x00000000);
          m4 = store32 m3 dst 0xffffffff;
          fail4 = (load32 m4 dst \<noteq> 0xffffffff);
          m5 = store32 m4 dst backup
      in if fail1 \<or> fail2 \<or> fail3 \<or> fail4 then None else Some m5)"

text \<open>\<open>None\<close> stands for the branch \<^verbatim>\<open>dead_code()\<close>, which no stage that has CBMEM reaches.\<close>

definition cbmem_top :: "cbmem_env \<Rightarrow> cbmem \<Rightarrow> (addr \<times> cbmem) option" where
  "cbmem_top env st =
     (if ENV_CREATES_CBMEM env then
        (if cb_top st \<noteq> 0 then Some (cb_top st, st)
         else Some (cbmem_top_chipset env, st\<lparr>cb_top := cbmem_top_chipset env\<rparr>))
      else if ENV_POSTCAR_OR_RAMSTAGE env then Some (cbmem_top_ptr env, st)
      else None)"

definition cbmem_top_init_once :: "cbmem_env \<Rightarrow> cbmem \<Rightarrow> cbmem option" where
  "cbmem_top_init_once env st =
     (if \<not> ENV_CREATES_CBMEM env then Some st
      else if ENV_X86 env then
        (case cbmem_top env st of
           None \<Rightarrow> None
         | Some (top1, st1) \<Rightarrow>
             (case quick_ram_check_or_die (cb_memory st1) (top1 - 4) of
                None \<Rightarrow> None
              | Some m \<Rightarrow> Some (st1\<lparr>cb_memory := m\<rparr>)))
      else Some st)"

definition cbmem_run_init_hooks :: "cbmem_env \<Rightarrow> bool \<Rightarrow> cbmem \<Rightarrow> cbmem" where
  "cbmem_run_init_hooks env is_recovery st = fold (\<lambda>hook s. hook is_recovery s) (cbmem_init_hooks env) st"

definition cbmem_entry_add :: "cbmem \<Rightarrow> u32 \<Rightarrow> u64 \<Rightarrow> addr option \<times> cbmem" where
  "cbmem_entry_add st ident size64 =
     (case imd_entry_find_or_add (cb_memory st) (cb_imd st) ident size64 of
        (e, m) \<Rightarrow> (e, st\<lparr>cb_memory := m\<rparr>))"

definition cbmem_add :: "cbmem \<Rightarrow> u32 \<Rightarrow> u64 \<Rightarrow> addr option \<times> cbmem" where
  "cbmem_add st ident size1 =
     (case imd_entry_find_or_add (cb_memory st) (cb_imd st) ident size1 of
        (None, m) \<Rightarrow> (None, st\<lparr>cb_memory := m\<rparr>)
      | (Some e, m) \<Rightarrow> (imd_entry_at m (cb_imd st) e, st\<lparr>cb_memory := m\<rparr>))"

definition cbmem_entry_find :: "cbmem \<Rightarrow> u32 \<Rightarrow> addr option" where
  "cbmem_entry_find st ident = imd_entry_find (cb_memory st) (cb_imd st) ident"

definition cbmem_find :: "cbmem \<Rightarrow> u32 \<Rightarrow> addr option" where
  "cbmem_find st ident =
     (case imd_entry_find (cb_memory st) (cb_imd st) ident of
        None \<Rightarrow> None
      | Some e \<Rightarrow> imd_entry_at (cb_memory st) (cb_imd st) e)"

definition cbmem_entry_remove :: "cbmem \<Rightarrow> addr \<Rightarrow> bool \<times> cbmem" where
  "cbmem_entry_remove st e =
     (case imd_entry_remove (cb_memory st) (cb_imd st) e of (ok, m) \<Rightarrow> (ok, st\<lparr>cb_memory := m\<rparr>))"

definition cbmem_entry_size :: "cbmem \<Rightarrow> addr \<Rightarrow> u64" where
  "cbmem_entry_size st e = imd_entry_size (cb_memory st) e"

definition cbmem_entry_start :: "cbmem \<Rightarrow> addr \<Rightarrow> addr option" where
  "cbmem_entry_start st e = imd_entry_at (cb_memory st) (cb_imd st) e"

definition cbmem_initialize_empty_id_size :: "cbmem_env \<Rightarrow> cbmem \<Rightarrow> u32 \<Rightarrow> u64 \<Rightarrow> cbmem option" where
  "cbmem_initialize_empty_id_size env st ident size1 =
     (case cbmem_top_init_once env st of
        None \<Rightarrow> None
      | Some st1 \<Rightarrow>
          (case cbmem_top env st1 of
             None \<Rightarrow> None
           | Some (top1, st2) \<Rightarrow>
               (case imd_create_tiered_empty (cb_memory st2) (imd_handle_init top1)
                       CBMEM_ROOT_MIN_SIZE CBMEM_LG_ALIGN CBMEM_SM_ROOT_SIZE CBMEM_SM_ALIGN of
                  (ok, m, I) \<Rightarrow>
                    let st3 = st2\<lparr>cb_memory := m, cb_imd := I\<rparr>
                    in if \<not> ok then Some st3
                       else let st4 = (if size1 \<noteq> 0 then snd (cbmem_add st3 ident size1) else st3);
                                st5 = cbmem_run_init_hooks env False st4
                            in Some (st5\<lparr>cbmem_initialized := True\<rparr>))))"

definition cbmem_initialize_empty :: "cbmem_env \<Rightarrow> cbmem \<Rightarrow> cbmem option" where
  "cbmem_initialize_empty env st = cbmem_initialize_empty_id_size env st 0 0"

text \<open>The boolean is the C result, true for 0: CBMEM was recovered.\<close>

definition cbmem_initialize_id_size :: "cbmem_env \<Rightarrow> cbmem \<Rightarrow> u32 \<Rightarrow> u64 \<Rightarrow> (bool \<times> cbmem) option" where
  "cbmem_initialize_id_size env st ident size1 =
     (case cbmem_top_init_once env st of
        None \<Rightarrow> None
      | Some st1 \<Rightarrow>
          (case cbmem_top env st1 of
             None \<Rightarrow> None
           | Some (top1, st2) \<Rightarrow>
               (case imd_recover (cb_memory st2) (imd_handle_init top1) of
                  (ok, I) \<Rightarrow>
                    let st3 = st2\<lparr>cb_imd := I\<rparr>
                    in if \<not> ok then Some (False, st3)
                       else let st4 = (if ENV_CREATES_CBMEM env
                                       then st3\<lparr>cb_memory := snd (imd_lockdown (cb_memory st3) I)\<rparr> else st3);
                                st5 = (if size1 \<noteq> 0 then snd (cbmem_add st4 ident size1) else st4);
                                st6 = cbmem_run_init_hooks env True st5
                            in Some (True, st6\<lparr>cbmem_initialized := True\<rparr>))))"

definition cbmem_initialize :: "cbmem_env \<Rightarrow> cbmem \<Rightarrow> (bool \<times> cbmem) option" where
  "cbmem_initialize env st = cbmem_initialize_id_size env st 0 0"

definition cbmem_recovery :: "cbmem_env \<Rightarrow> cbmem \<Rightarrow> bool \<Rightarrow> (bool \<times> cbmem) option" where
  "cbmem_recovery env st is_wakeup =
     (if \<not> is_wakeup then
        (case cbmem_initialize_empty env st of None \<Rightarrow> None | Some st' \<Rightarrow> Some (True, st'))
      else cbmem_initialize env st)"

definition cbmem_get_region :: "cbmem \<Rightarrow> (addr \<times> size_t) option" where
  "cbmem_get_region st = imd_region_used (cb_memory st) (cb_imd st)"

text \<open>The report to the boot memory map; \<open>fatal\<close> is the assert policy of \<^verbatim>\<open>BootMem\<close>.\<close>

definition cbmem_add_bootmem :: "bool \<Rightarrow> cbmem \<Rightarrow> bootmem_state \<Rightarrow> bootmem_state option" where
  "cbmem_add_bootmem fatal st bm =
     (case cbmem_get_region st of
        None \<Rightarrow> Some bm
      | Some (baseptr, size1) \<Rightarrow> bootmem_add_range fatal baseptr size1 BM_MEM_TABLE bm)"

definition LB_TAG_CBMEM_ENTRY :: u32 where "LB_TAG_CBMEM_ENTRY = 0x31"

record lb_cbmem_entry =
  lbe_tag :: u32
  lbe_size :: u32
  lbe_address :: "addr option"
  lbe_entry_size :: u32
  lbe_id :: u32

lemma cursor_next_progress:
  "imd_cursor_next m I c = (Some e, c') \<Longrightarrow>
   unat (current_imdr c') \<le> 1 \<and>
   (unat (current_imdr c) < unat (current_imdr c') \<or>
    current_imdr c' = current_imdr c \<and> unat (current_entry c') = Suc (unat (current_entry c)) \<and>
    unat (current_entry c) < 2 ^ 32)"
proof (induction m I c rule: imd_cursor_next.induct)
  case (1 m I c)
  let ?r = "imdr_root (cursor_imdr I (current_imdr c))"
  from "1.prems" have i: "\<not> 2 \<le> current_imdr c" "?r \<noteq> 0"
    by (subst (asm) imd_cursor_next.simps, auto simp: Let_def split: if_splits)+
  then have i2: "unat (current_imdr c) \<le> 1" by (simp add: word_le_nat_alt not_le)
  show ?case
  proof (cases "ucast (r_num_entries m ?r) \<le> current_entry c")
    case True
    then have "imd_cursor_next m I (c\<lparr>current_imdr := current_imdr c + 1, current_entry := 0\<rparr>) = (Some e, c')"
      using "1.prems" i by (subst (asm) imd_cursor_next.simps) (simp add: Let_def)
    from "1.IH" [OF i(1) refl i(2) True this] show ?thesis
      using i2 by (auto simp: unat_suc_64)
  next
    case False
    then have c': "c' = c\<lparr>current_entry := current_entry c + 1\<rparr>"
      using "1.prems" i by (subst (asm) imd_cursor_next.simps) (simp add: Let_def)
    have n: "(ucast (r_num_entries m ?r) :: u64) = of_nat (unat (r_num_entries m ?r))" by simp
    have lt32: "unat (r_num_entries m ?r) < 2 ^ 32"
      using unsigned_less [of "r_num_entries m ?r", where 'a = nat] by simp
    then have "unat (of_nat (unat (r_num_entries m ?r)) :: u64) = unat (r_num_entries m ?r)"
      by (intro unat_of_nat_64) simp
    with False have "unat (current_entry c) < unat (r_num_entries m ?r)"
      unfolding n word_le_nat_alt not_le by simp
    with lt32 have lt: "unat (current_entry c) < 2 ^ 32" by linarith
    then show ?thesis using i2 unat_suc_64 [of "current_entry c"] by (simp add: c')
  qed
qed

function cbmem_records :: "memory \<Rightarrow> imd \<Rightarrow> imd_cursor \<Rightarrow> lb_cbmem_entry list" where
  "cbmem_records m I cursor =
     (case imd_cursor_next m I cursor of
        (None, cursor') \<Rightarrow> []
      | (Some e, cursor') \<Rightarrow>
          let ident = imd_entry_id m e
          in if ident = CBMEM_ID_IMD_ROOT \<or> ident = SMALL_REGION_ID then cbmem_records m I cursor'
             else \<lparr>lbe_tag = LB_TAG_CBMEM_ENTRY, lbe_size = 24, lbe_address = imd_entry_at m I e, lbe_entry_size = ucast (imd_entry_size m e), lbe_id = ident\<rparr> #
               cbmem_records m I cursor')"
  by pat_completeness auto
termination
  by (relation "measures [\<lambda>(m, I, c). 2 - unat (current_imdr c), \<lambda>(m, I, c). 2 ^ 32 - unat (current_entry c)]")
    (auto dest!: sym [of "(Some e, c')" for e c'] cursor_next_progress)

declare cbmem_records.simps [simp del]

text \<open>The records are appended to what the table holds already.\<close>

definition cbmem_add_records_to_cbtable :: "cbmem \<Rightarrow> lb_cbmem_entry list \<Rightarrow> lb_cbmem_entry list" where
  "cbmem_add_records_to_cbtable st records =
     records @ cbmem_records (cb_memory st) (cb_imd st) imd_cursor_init"

subsection \<open>Lookups\<close>

lemma store32_restore: "store32 (store32 m a v) a (load32 m a) = m"
proof
  fix x
  have le: "le_bytes 4 (load32 m a) = load_bytes m a 4"
    unfolding load32_def using le_bytes_value [of "load_bytes m a 4", where 'a = 32] by simp
  show "store32 (store32 m a v) a (load32 m a) x = m x"
  proof (cases "unat (x - a) < 4")
    case True
    then have "store32 (store32 m a v) a (load32 m a) x = m (a + of_nat (unat (x - a)))"
      unfolding store32_def [of "store32 m a v"] store_bytes_def le by (simp add: nth_load_bytes)
    then show ?thesis by simp
  next
    case False
    then show ?thesis by (simp add: store32_outside)
  qed
qed

lemma store32_twice: "store32 (store32 m a v) a w = store32 m a w"
  by (rule ext) (simp add: store32_def store_bytes_def)

lemma store32_same: "store32 m a (load32 m a) = m"
  using store32_restore [of m a 0] unfolding store32_twice .

lemma quick_ram_check_passes: "quick_ram_check_or_die m dst = Some m"
  by (simp add: quick_ram_check_or_die_def Let_def store32_twice store32_same)

text \<open>The address an entry pointer found by id leads to, in terms of the blocks of the directory.\<close>

definition found_base :: "memory \<Rightarrow> imd \<Rightarrow> u32 \<Rightarrow> int option" where
  "found_base m I ident =
     (case (if imd_r (imd_sm I) = 0 then None else index_of ident (blocks m (imd_sm I))) of
        Some i \<Rightarrow> Some (block_base (blocks m (imd_sm I) ! i))
      | None \<Rightarrow> map_option (\<lambda>i. block_base (blocks m (imd_lg I) ! i)) (index_of ident (blocks m (imd_lg I))))"

lemma small_index:
  assumes "imd_ok m I" "imd_r (imd_sm I) \<noteq> 0"
  obtains j where "index_of SMALL_REGION_ID (blocks m (imd_lg I)) = Some j"
  using assms by (auto simp: imd_ok_def split: option.splits)

lemma cbmem_find_eq:
  assumes ok: "imd_ok (cb_memory st) (cb_imd st)"
  shows "cbmem_find st ident = map_option (\<lambda>b. of_nat (nat b)) (found_base (cb_memory st) (cb_imd st) ident)"
proof -
  let ?m = "cb_memory st" and ?I = "cb_imd st"
  have lg: "imdr_ok ?m (imd_lg ?I)" using ok by (simp add: imd_ok_def)
  have at_lg: "imd_entry_at ?m ?I (root_entry (imd_r (imd_lg ?I)) (of_nat i)) =
      Some (of_nat (nat (block_base (blocks ?m (imd_lg ?I) ! i))))" if "i < length (blocks ?m (imd_lg ?I))" for i
    using entry_to_imdr_lg [OF ok that] entry_address(1) [OF lg that] by (simp add: imd_entry_at_def)
  have at_sm: "imd_entry_at ?m ?I (root_entry (imd_r (imd_sm ?I)) (of_nat i)) =
      Some (of_nat (nat (block_base (blocks ?m (imd_sm ?I) ! i))))"
    if nz: "imd_r (imd_sm ?I) \<noteq> 0" and i: "i < length (blocks ?m (imd_sm ?I))" for i
  proof -
    obtain j where j: "index_of SMALL_REGION_ID (blocks ?m (imd_lg ?I)) = Some j"
      using small_index [OF ok nz] .
    show ?thesis
      using entry_to_imdr_sm [OF ok j i] entry_address(1) [OF small_region(1) [OF ok j] i] by (simp add: imd_entry_at_def)
  qed
  have look: "index_of ident bs = Some i \<Longrightarrow> i < length bs" for bs :: "block list" and i
    by (simp add: index_of_Some)
  show ?thesis
  proof (cases "if imd_r (imd_sm ?I) = 0 then None else index_of ident (blocks ?m (imd_sm ?I))")
    case (Some i)
    then have "imd_r (imd_sm ?I) \<noteq> 0" "i < length (blocks ?m (imd_sm ?I))"
      by (auto split: if_splits dest: look)
    with Some at_sm show ?thesis
      by (simp add: cbmem_find_def imd_entry_find_eq [OF ok] found_base_def)
  next
    case None
    show ?thesis
    proof (cases "index_of ident (blocks ?m (imd_lg ?I))")
      case None2: None
      show ?thesis
        unfolding cbmem_find_def imd_entry_find_eq [OF ok] found_base_def None None2 by simp
    next
      case Some2: (Some i)
      show ?thesis
        unfolding cbmem_find_def imd_entry_find_eq [OF ok] found_base_def None Some2
        using at_lg [OF look [OF Some2]] by simp
    qed
  qed
qed

lemma cbmem_find_same:
  assumes "imd_ok (cb_memory st) (cb_imd st)" "imd_ok (cb_memory st') (cb_imd st')" "cb_imd st' = cb_imd st"
    and "blocks (cb_memory st') (imd_lg (cb_imd st)) = blocks (cb_memory st) (imd_lg (cb_imd st))"
    and "small_blocks (cb_memory st') (cb_imd st) = small_blocks (cb_memory st) (cb_imd st)"
  shows "cbmem_find st' ident = cbmem_find st ident"
proof (cases "imd_r (imd_sm (cb_imd st)) = 0")
  case True
  then show ?thesis
    unfolding cbmem_find_eq [OF assms(1)] cbmem_find_eq [OF assms(2)] found_base_def assms(3,4) by simp
next
  case False
  then have "blocks (cb_memory st') (imd_sm (cb_imd st)) = blocks (cb_memory st) (imd_sm (cb_imd st))"
    using assms(5) by (simp add: small_blocks_def)
  note same = this
  show ?thesis
    unfolding cbmem_find_eq [OF assms(1)] cbmem_find_eq [OF assms(2)] found_base_def assms(3,4) same ..
qed

subsection \<open>The life of CBMEM\<close>

lemma later_stage_top:
  assumes "\<not> ENV_CREATES_CBMEM env" "ENV_POSTCAR_OR_RAMSTAGE env"
  shows "cbmem_top_init_once env st = Some st" "cbmem_top env st = Some (cbmem_top_ptr env, st)"
  using assms by (simp_all add: cbmem_top_init_once_def cbmem_top_def)

lemma creating_stage_top:
  assumes "ENV_CREATES_CBMEM env" "cb_top st = 0 \<or> cb_top st = cbmem_top_chipset env"
  shows "\<exists>st1 st2. cbmem_top_init_once env st = Some st1 \<and> cbmem_top env st1 = Some (cbmem_top_chipset env, st2) \<and>
    cb_memory st2 = cb_memory st \<and> cb_imd st2 = cb_imd st"
  using assms by (auto simp: cbmem_top_init_once_def cbmem_top_def quick_ram_check_passes)

lemma cbmem_add_facts:
  assumes ok: "imd_ok (cb_memory st) (cb_imd st)" and room: "add_room (cb_memory st) (imd_lg (cb_imd st)) size1"
    and ident: "ident \<noteq> SMALL_REGION_ID" and add: "cbmem_add st ident size1 = (Some p, st')"
  shows "imd_ok (cb_memory st') (cb_imd st') \<and> cb_imd st' = cb_imd st \<and> cbmem_find st' ident = Some p \<and>
    cbmem_add st' ident size2 = (Some p, st') \<and>
    (\<forall>other. other \<noteq> ident \<longrightarrow> cbmem_entry_find st' other = cbmem_entry_find st other) \<and>
    (cbmem_entry_find st ident = None \<longrightarrow>
      (\<exists>b. p = of_nat (nat (block_base b)) \<and> fst b = ident \<and> block_size b = unat size1 \<and>
        mset (client_blocks (cb_memory st') (cb_imd st)) = mset (client_blocks (cb_memory st) (cb_imd st)) + {#b#}))"
proof (cases "imd_entry_find (cb_memory st) (cb_imd st) ident")
  case (Some e)
  have "imd_entry_at (cb_memory st) (cb_imd st) e = Some p \<and> st = st'"
    using add Some by (auto simp: cbmem_add_def imd_entry_find_or_add_def)
  then have same: "st' = st" and e: "imd_entry_at (cb_memory st) (cb_imd st) e = Some p"
    by blast+
  show ?thesis
    unfolding same using Some e ok
    by (simp add: cbmem_add_def imd_entry_find_or_add_def cbmem_find_def cbmem_entry_find_def)
next
  case None
  from add None obtain e m' where e: "imd_entry_add (cb_memory st) (cb_imd st) ident size1 = (Some e, m')"
      "st' = st\<lparr>cb_memory := m'\<rparr>" "imd_entry_at m' (cb_imd st) e = Some p"
    by (auto simp: cbmem_add_def imd_entry_find_or_add_def split: prod.splits option.splits)
  from imd_add_facts [OF ok room ident] obtain base where r: "imd_ok m' (cb_imd st)"
      "add_result (cb_memory st) (cb_imd st) ident size1 e m' base"
    unfolding e(1) by auto
  then have f: "imd_entry_find m' (cb_imd st) ident = Some e" "p = of_nat (nat base)"
    using None e(3) by (simp_all add: add_result_def)
  have "\<exists>b. p = of_nat (nat (block_base b)) \<and> fst b = ident \<and> block_size b = unat size1 \<and>
      mset (client_blocks m' (cb_imd st)) = mset (client_blocks (cb_memory st) (cb_imd st)) + {#b#}"
    using r(2) f(2) by (intro exI [of _ "(ident, base, unat size1)"]) (simp add: add_result_def block_base_def block_size_def)
  with r f e show ?thesis
    by (simp add: cbmem_add_def imd_entry_find_or_add_def cbmem_find_def cbmem_entry_find_def add_result_def)
qed

lemma created_cbmem:
  assumes env: "ENV_CREATES_CBMEM env" "cb_top st = 0 \<or> cb_top st = cbmem_top_chipset env"
    and top1: "2 ^ 21 \<le> unat (ALIGN_DOWN (cbmem_top_chipset env) 4096)"
  shows "\<exists>st'. cbmem_initialize_empty env st = Some ((cbmem_run_init_hooks env False st')\<lparr>cbmem_initialized := True\<rparr>) \<and>
    imd_ok (cb_memory st') (cb_imd st') \<and> client_blocks (cb_memory st') (cb_imd st') = [] \<and>
    imd_limit (imd_lg (cb_imd st')) = ALIGN_DOWN (cbmem_top_chipset env) 4096"
proof -
  obtain st1 st2 where s: "cbmem_top_init_once env st = Some st1"
      "cbmem_top env st1 = Some (cbmem_top_chipset env, st2)"
    using creating_stage_top [OF env] by blast
  obtain m' I where c: "imd_create_tiered_empty (cb_memory st2) (imd_handle_init (cbmem_top_chipset env)) 4096 4096 1024 32 =
      (True, m', I)" "imd_ok m' I" "client_blocks m' I = []"
      "imd_limit (imd_lg I) = ALIGN_DOWN (cbmem_top_chipset env) 4096"
    using create_tiered_facts [of 12 12 10 5 "cbmem_top_chipset env" "cb_memory st2"] top1 by auto
  then show ?thesis
    using s by (simp add: cbmem_initialize_empty_def cbmem_initialize_empty_id_size_def CBMEM_ROOT_MIN_SIZE_def
        CBMEM_LG_ALIGN_def CBMEM_SM_ROOT_SIZE_def CBMEM_SM_ALIGN_def Let_def)
      (intro exI [of _ "st2\<lparr>cb_memory := m', cb_imd := I\<rparr>"], simp)
qed

lemma recovered_cbmem:
  assumes ok: "imd_ok (cb_memory st) (cb_imd st)"
    and top1: "imd_limit (imd_lg (cb_imd st)) = ALIGN_DOWN (cbmem_top_ptr env) 4096"
    and env: "\<not> ENV_CREATES_CBMEM env" "ENV_POSTCAR_OR_RAMSTAGE env"
    and w: "\<forall>x. cb_memory later x \<noteq> cb_memory st x \<longrightarrow>
      (\<exists>b\<in>set (client_blocks (cb_memory st) (cb_imd st)). in_block b x)"
  shows "\<exists>st'. cbmem_initialize env later =
      Some (True, (cbmem_run_init_hooks env True st')\<lparr>cbmem_initialized := True\<rparr>) \<and>
    cb_memory st' = cb_memory later \<and> cb_imd st' = cb_imd st \<and> imd_ok (cb_memory st') (cb_imd st') \<and>
    (\<forall>ident. cbmem_find st' ident = cbmem_find st ident)"
proof -
  note W = client_writes_same [OF ok w]
  let ?st = "later\<lparr>cb_imd := cb_imd st\<rparr>"
  have r: "imd_recover (cb_memory later) (imd_handle_init (cbmem_top_ptr env)) = (True, cb_imd st)"
    by (rule imd_recover_eq [OF W(1)]) (simp_all add: handle_init_eq top1)
  have "cbmem_find ?st ident = cbmem_find st ident" for ident
    by (rule cbmem_find_same [OF ok]) (use W in simp_all)
  then show ?thesis
    using r W(1) env later_stage_top [OF env, of later]
    by (intro exI [of _ ?st]) (simp add: cbmem_initialize_def cbmem_initialize_id_size_def Let_def)
qed

subsection \<open>The used region\<close>

lemma region_used_facts:
  assumes ok: "imd_ok m I"
  obtains base n where "imd_region_used m I = Some (base, n)"
    "int (unat base) = lowest m (imd_lg I)" "unat base + unat n = unat (imd_limit (imd_lg I))"
proof -
  let ?d = "imd_lg I"
  have lg: "imdr_ok m ?d" using ok by (simp add: imd_ok_def)
  note D = imdr_okD [OF lg] and B = lowest_bounds [OF lg]
  define base :: addr where "base = imd_r ?d + scast (e_start_offset m (root_last_entry m (imd_r ?d)))"
  have "last (blocks m ?d) \<in> set (blocks m ?d)" using D(13) by simp
  then have lt: "lowest m ?d < int (unat (imd_limit ?d))"
    using stack_ok_mem [OF D(7), of "last (blocks m ?d)"] unfolding lowest_def by linarith
  have nz: "imd_limit ?d \<noteq> 0" using lt B(2) by auto
  have "base = word_of_int (lowest m ?d)"
    unfolding base_def scast_u32_u64 B(4) by simp
  also have "\<dots> = of_nat (nat (lowest m ?d))" using B(2) by simp
  finally have base: "base = of_nat (nat (lowest m ?d))" .
  have "nat (lowest m ?d) < 2 ^ 64"
    using lt B(2) uint_lt_64 [of "imd_limit ?d"] by (simp add: nat_less_iff)
  then have "unat base = nat (lowest m ?d)" unfolding base by (rule unat_of_nat_64)
  then have low: "int (unat base) = lowest m ?d" using B(2) by simp
  then have "int (unat base) \<le> int (unat (imd_limit ?d))" using lt by linarith
  then have le: "base \<le> imd_limit ?d" by (simp only: of_nat_le_iff word_le_nat_alt)
  show ?thesis
  proof (rule that [OF _ low])
    show "imd_region_used m I = Some (base, imd_limit ?d - base)"
      using nz D(14) by (simp add: imd_region_used_def imdr_root_def relative_pointer_def base_def Let_def)
    show "unat base + unat (imd_limit ?d - base) = unat (imd_limit ?d)"
      using le by (simp add: unat_sub word_le_nat_alt)
  qed
qed

lemma in_set_tlD: "x \<in> set (tl xs) \<Longrightarrow> x \<in> set xs"
  by (cases xs) simp_all

lemma client_in_region:
  assumes ok: "imd_ok m I" and b: "b \<in> set (client_blocks m I)"
  shows "lowest m (imd_lg I) \<le> block_base b \<and> block_base b + int (block_size b) \<le> int (unat (imd_limit (imd_lg I)))"
proof -
  have lg: "imdr_ok m (imd_lg I)" using ok by (simp add: imd_ok_def)
  note D = imdr_okD [OF lg]
  have in_lg: "lowest m (imd_lg I) \<le> block_base c \<and> block_base c + int (block_size c) \<le> int (unat (imd_limit (imd_lg I)))"
    if "c \<in> set (blocks m (imd_lg I))" for c
    using stack_ok_mem [OF D(7) that] stack_ok_last [OF D(7) that] by (simp add: lowest_def)
  from b consider "b \<in> set (blocks m (imd_lg I))" | "imd_r (imd_sm I) \<noteq> 0" "b \<in> set (blocks m (imd_sm I))"
    by (auto simp: client_blocks_def small_blocks_def split: if_splits dest: in_set_tlD)
  then show ?thesis
  proof cases
    case 1
    then show ?thesis by (rule in_lg)
  next
    case 2
    obtain j where j: "index_of SMALL_REGION_ID (blocks m (imd_lg I)) = Some j" using small_index [OF ok 2(1)] .
    note S = small_region [OF ok j]
    show ?thesis using S(7) [OF 2(2)] in_lg [of "blocks m (imd_lg I) ! j"] S(3) by fastforce
  qed
qed

subsection \<open>The records of the coreboot table\<close>

text \<open>One record per listed entry that is not metadata, in the order of the listing.\<close>

definition cbmem_record :: "memory \<Rightarrow> imd \<Rightarrow> addr \<Rightarrow> lb_cbmem_entry" where
  "cbmem_record m I e = \<lparr>lbe_tag = LB_TAG_CBMEM_ENTRY, lbe_size = 24, lbe_address = imd_entry_at m I e, lbe_entry_size = ucast (imd_entry_size m e),
     lbe_id = imd_entry_id m e\<rparr>"

definition metadata_id :: "u32 \<Rightarrow> bool" where
  "metadata_id ident \<longleftrightarrow> ident = CBMEM_ID_IMD_ROOT \<or> ident = SMALL_REGION_ID"

lemma cbmem_records_collect:
  "length (cursor_collect m I c n) < n \<Longrightarrow>
   cbmem_records m I c = map (cbmem_record m I) (filter (\<lambda>e. \<not> metadata_id (imd_entry_id m e)) (cursor_collect m I c n))"
proof (induction n arbitrary: c)
  case (Suc n)
  obtain r c' where r: "imd_cursor_next m I c = (r, c')" by fastforce
  show ?case
  proof (cases r)
    case None
    then show ?thesis by (simp add: r cbmem_records.simps [of m I c])
  next
    case (Some e)
    with Suc.prems r have "length (cursor_collect m I c' n) < n" by simp
    note IH = Suc.IH [OF this]
    show ?thesis
      by (simp add: r Some cbmem_records.simps [of m I c] IH metadata_id_def cbmem_record_def Let_def)
  qed
qed simp

definition block_record :: "block \<Rightarrow> lb_cbmem_entry" where
  "block_record b = \<lparr>lbe_tag = LB_TAG_CBMEM_ENTRY, lbe_size = 24, lbe_address = Some (of_nat (nat (block_base b))), lbe_entry_size = of_nat (block_size b), lbe_id = fst b\<rparr>"

lemma entry_record:
  assumes "imdr_ok m d" "i < length (blocks m d)"
    and "imd_entry_to_imdr m I (root_entry (imd_r d) (of_nat i)) = Some d"
  shows "cbmem_record m I (root_entry (imd_r d) (of_nat i)) = block_record (blocks m d ! i)"
  unfolding cbmem_record_def block_record_def imd_entry_at_def imd_entry_size_def imd_entry_id_def assms(3)
    option.case entry_address(1,3) [OF assms(1,2)] entry_id_block [OF assms(2)]
  by (simp only: ucast_down_of_nat)

lemma region_records:
  assumes "\<And>i. i < length (blocks m d) \<Longrightarrow> cbmem_record m I (root_entry (imd_r d) (of_nat i)) = block_record (blocks m d ! i)"
    and "imd_r d \<noteq> 0"
  shows "map (cbmem_record m I) (region_entries m d) = map block_record (blocks m d)"
  using assms by (auto simp: region_entries_def length_blocks intro!: nth_equalityI)

lemma all_records:
  assumes ok: "imd_ok m I"
  shows "map (cbmem_record m I) (region_entries m (imd_lg I) @ region_entries m (imd_sm I)) =
    map block_record (blocks m (imd_lg I) @ small_blocks m I)"
proof -
  have lg: "imdr_ok m (imd_lg I)" using ok by (simp add: imd_ok_def)
  have l: "map (cbmem_record m I) (region_entries m (imd_lg I)) = map block_record (blocks m (imd_lg I))"
    by (rule region_records [OF entry_record [OF lg _ entry_to_imdr_lg [OF ok]] imdr_okD(14) [OF lg]])
  show ?thesis
  proof (cases "imd_r (imd_sm I) = 0")
    case True
    then show ?thesis using l by (simp add: region_entries_def small_blocks_def)
  next
    case False
    obtain j where j: "index_of SMALL_REGION_ID (blocks m (imd_lg I)) = Some j" using small_index [OF ok False] .
    have "map (cbmem_record m I) (region_entries m (imd_sm I)) = map block_record (blocks m (imd_sm I))"
      by (rule region_records [OF entry_record [OF small_region(1) [OF ok j] _ entry_to_imdr_sm [OF ok j]] False])
    with l False show ?thesis by (simp add: small_blocks_def)
  qed
qed

lemma filter_map_same: "(\<And>x. x \<in> set xs \<Longrightarrow> P x = Q (f x)) \<Longrightarrow> map f (filter P xs) = filter Q (map f xs)"
  by (induction xs) auto

lemma cbmem_records_facts:
  assumes ok: "imd_ok m I"
  shows "cbmem_records m I imd_cursor_init =
    map block_record (filter (\<lambda>b. \<not> metadata_id (fst b)) (blocks m (imd_lg I) @ small_blocks m I))"
proof -
  let ?es = "region_entries m (imd_lg I) @ region_entries m (imd_sm I)"
  have c: "cursor_collect m I imd_cursor_init (Suc (length ?es)) = ?es"
    by (rule cursor_collect_all [OF ok]) simp
  have "cbmem_records m I imd_cursor_init =
      map (cbmem_record m I) (filter (\<lambda>e. \<not> metadata_id (imd_entry_id m e)) ?es)"
    using cbmem_records_collect [of m I imd_cursor_init "Suc (length ?es)"] unfolding c by (simp del: filter_append)
  also have "\<dots> = filter (\<lambda>r. \<not> metadata_id (lbe_id r)) (map (cbmem_record m I) ?es)"
    by (rule filter_map_same) (simp add: cbmem_record_def)
  also have "\<dots> = filter (\<lambda>r. \<not> metadata_id (lbe_id r)) (map block_record (blocks m (imd_lg I) @ small_blocks m I))"
    unfolding all_records [OF ok] ..
  also have "\<dots> = map block_record (filter (\<lambda>b. \<not> metadata_id (fst b)) (blocks m (imd_lg I) @ small_blocks m I))"
    by (rule filter_map_same [symmetric]) (simp add: block_record_def)
  finally show ?thesis .
qed

subsection \<open>The boot memory map\<close>

lemma region_pages:
  assumes "unat base + unat n = unat limit" "int (unat base) \<le> b" "b + int sz \<le> int (unat limit)"
    and "b \<le> int (unat x)" "int (unat x) < b + int sz"
  shows "page_hits base n x"
proof -
  obtain B N L X where e: "unat base = B" "unat n = N" "unat limit = L" "unat x = X" by blast
  have "int B \<le> int X" "int X < int L" using assms unfolding e by linarith+
  then have le: "B \<le> X" "X \<le> B + N - 1" "N \<noteq> 0" using assms(1) unfolding e by simp_all
  have "n \<noteq> 0" using le(3) e(2) by auto
  moreover have "B div 2 ^ 12 \<le> X div 2 ^ 12" "X div 2 ^ 12 \<le> (B + N - 1) div 2 ^ 12"
    using le by (auto intro: div_le_mono)
  ultimately show ?thesis unfolding touches_def e by simp
qed

text \<open>The directory of an instance with its clients' memory written at will.\<close>

abbreviation cb_ok :: "cbmem \<Rightarrow> bool" where
  "cb_ok st \<equiv> imd_ok (cb_memory st) (cb_imd st)"

abbreviation cb_blocks :: "cbmem \<Rightarrow> block list" where
  "cb_blocks st \<equiv> client_blocks (cb_memory st) (cb_imd st)"

lemma add_bootmem_facts:
  assumes ok: "cb_ok st" and bm: "bm_ok bm" "4 \<le> bm_heap bm" "\<not> table_written bm"
  obtains bm' where "cbmem_add_bootmem fatal st bm = Some bm'" "bm_ok bm'"
    "\<And>b x. b \<in> set (cb_blocks st) \<Longrightarrow> in_block b x \<Longrightarrow>
      tagged (bm_map bm') x = Some (ucast BM_MEM_TABLE) \<and> tagged (os_map bm') x = Some (ucast BM_MEM_TABLE)"
    "\<And>base n x. cbmem_get_region st = Some (base, n) \<Longrightarrow> \<not> page_hits base n x \<Longrightarrow>
      tagged (bm_map bm') x = tagged (bm_map bm) x \<and> tagged (os_map bm') x = tagged (os_map bm) x"
proof -
  obtain base n where r: "imd_region_used (cb_memory st) (cb_imd st) = Some (base, n)"
    "int (unat base) = lowest (cb_memory st) (imd_lg (cb_imd st))"
    "unat base + unat n = unat (imd_limit (imd_lg (cb_imd st)))"
    using region_used_facts [OF ok] .
  have R: "bm_range_ok (base, n, BM_MEM_TABLE)"
    using r(3) unat_lt_64 [of "imd_limit (imd_lg (cb_imd st))"] by (simp add: bm_range_ok_def bm_mem_defs)
  have V: "os_visible (base, n, BM_MEM_TABLE)" by (simp add: os_visible_def bm_mem_defs)
  obtain bm' where a: "bootmem_add_range fatal base n BM_MEM_TABLE bm = Some bm'" "bm_ok bm'"
    "\<And>x. tagged (bm_map bm') x = (if page_hits base n x then Some (ucast BM_MEM_TABLE) else tagged (bm_map bm) x)"
    "\<And>x. tagged (os_map bm') x =
      (if os_visible (base, n, BM_MEM_TABLE) \<and> page_hits base n x then Some (ucast BM_MEM_TABLE) else tagged (os_map bm) x)"
    by (rule add_range_facts [OF bm(1) R bm(2), of fatal]) (use bm(3) in simp_all)
  show ?thesis
  proof (rule that [of bm'])
    show "cbmem_add_bootmem fatal st bm = Some bm'"
      by (simp add: cbmem_add_bootmem_def cbmem_get_region_def r(1) a(1))
    show "tagged (bm_map bm') x = Some (ucast BM_MEM_TABLE) \<and> tagged (os_map bm') x = Some (ucast BM_MEM_TABLE)"
      if b: "b \<in> set (cb_blocks st)" "in_block b x" for b x
    proof -
      have "page_hits base n x"
        using region_pages [OF r(3), of "block_base b" "block_size b" x] client_in_region [OF ok b(1)] b(2) r(2)
        by (simp add: in_block_def)
      then show ?thesis unfolding a(3,4) using V by simp
    qed
    show "tagged (bm_map bm') x = tagged (bm_map bm) x \<and> tagged (os_map bm') x = tagged (os_map bm) x"
      if "cbmem_get_region st = Some (base', n')" "\<not> page_hits base' n' x" for base' n' x
    proof -
      have same: "base' = base" "n' = n" using that(1) by (simp_all add: cbmem_get_region_def r(1))
      note np = that(2) [unfolded same]
      show ?thesis unfolding a(3,4) by (simp only: np simp_thms if_False)
    qed
  qed (rule a(2))
qed

subsection \<open>A concrete instance\<close>

definition sample_cbmem :: cbmem where
  "sample_cbmem = \<lparr>cb_memory = sample_memory, cb_imd = sample_imd, cb_top = 0x10000000, cbmem_initialized = True\<rparr>"

definition sample_ramstage :: cbmem_env where
  "sample_ramstage = \<lparr>ENV_CREATES_CBMEM = False, ENV_POSTCAR_OR_RAMSTAGE = True, ENV_X86 = True,
     cbmem_top_chipset = 0, cbmem_top_ptr = 0x10000000, cbmem_init_hooks = []\<rparr>"

definition sample_romstage :: cbmem_env where
  "sample_romstage = \<lparr>ENV_CREATES_CBMEM = True, ENV_POSTCAR_OR_RAMSTAGE = False, ENV_X86 = True,
     cbmem_top_chipset = 0x10000000, cbmem_top_ptr = 0, cbmem_init_hooks = []\<rparr>"

definition blank_cbmem :: cbmem where
  "blank_cbmem = \<lparr>cb_memory = (\<lambda>_. 0), cb_imd = \<lparr>imd_lg = \<lparr>imd_limit = 0, imd_r = 0\<rparr>, imd_sm = \<lparr>imd_limit = 0, imd_r = 0\<rparr>\<rparr>,
     cb_top = 0, cbmem_initialized = False\<rparr>"

lemma sample_ok: "cb_ok sample_cbmem" and sample_empty: "cb_blocks sample_cbmem = []"
  by (simp_all add: sample_cbmem_def sample_imd_facts)

lemma sample_add: "\<exists>p st'. cbmem_add sample_cbmem 0x434F4E53 0x20000 = (Some p, st')"
proof -
  obtain e m' base where e: "imd_entry_add sample_memory sample_imd 0x434F4E53 0x20000 = (Some e, m')"
    "add_result sample_memory sample_imd 0x434F4E53 0x20000 e m' base"
    using sample_first by metis
  then show ?thesis
    by (simp add: cbmem_add_def imd_entry_find_or_add_def sample_cbmem_def sample_find_none add_result_def)
qed

subsection \<open>Properties\<close>

text \<open>C16: CBMEM outlives the stages. The stage that creates it leaves an empty, well-formed directory
  below the top address; and whatever the clients of a directory write into their own allocations, a
  later stage, which knows nothing but the top address, recovers it: the initialisation reports success,
  the memory is untouched, and every id is found at the address it had.\<close>

theorem cbmem_stages:
  assumes "ENV_CREATES_CBMEM rom" "cb_top st0 = 0" "2 ^ 21 \<le> unat (ALIGN_DOWN (cbmem_top_chipset rom) 4096)"
    and "\<not> ENV_CREATES_CBMEM env" "ENV_POSTCAR_OR_RAMSTAGE env"
    and "cb_ok st" "imd_limit (imd_lg (cb_imd st)) = ALIGN_DOWN (cbmem_top_ptr env) 4096"
    and "\<forall>x. cb_memory later x \<noteq> cb_memory st x \<longrightarrow> (\<exists>b\<in>set (cb_blocks st). in_block b x)"
  shows "(\<exists>new. cbmem_initialize_empty rom st0 = Some ((cbmem_run_init_hooks rom False new)\<lparr>cbmem_initialized := True\<rparr>) \<and>
      cb_ok new \<and> cb_blocks new = [] \<and> imd_limit (imd_lg (cb_imd new)) = ALIGN_DOWN (cbmem_top_chipset rom) 4096) \<and>
    (\<exists>st'. cbmem_initialize env later = Some (True, (cbmem_run_init_hooks env True st')\<lparr>cbmem_initialized := True\<rparr>) \<and>
      cb_memory st' = cb_memory later \<and> cb_imd st' = cb_imd st \<and> cb_ok st' \<and>
      (\<forall>ident. cbmem_find st' ident = cbmem_find st ident))"
  using created_cbmem [OF assms(1) disjI1 [OF assms(2)] assms(3)] recovered_cbmem [OF assms(6,7,4,5,8)]
  by blast

theorem cbmem_stages_witness:
  "\<exists>st'. cbmem_initialize sample_ramstage (blank_cbmem\<lparr>cb_memory := sample_memory\<rparr>) =
      Some (True, (cbmem_run_init_hooks sample_ramstage True st')\<lparr>cbmem_initialized := True\<rparr>) \<and>
    (\<forall>ident. cbmem_find st' ident = cbmem_find sample_cbmem ident)"
proof -
  have a: "ALIGN_DOWN 0x10000000 4096 = 0x10000000" by (simp add: ALIGN_DOWN_def)
  show ?thesis
    using cbmem_stages [of sample_romstage blank_cbmem sample_ramstage sample_cbmem "blank_cbmem\<lparr>cb_memory := sample_memory\<rparr>"]
      sample_ok by (simp add: a sample_romstage_def sample_ramstage_def blank_cbmem_def sample_cbmem_def sample_imd_facts) blast
qed

text \<open>Adding is find-or-add. A successful \<^verbatim>\<open>cbmem_add\<close> keeps the directory well-formed, makes its
  address the one \<^verbatim>\<open>cbmem_find\<close> returns for the id, leaves every other id's entry alone, and is
  repeatable: adding the id again, with any size, returns the same address and changes nothing. When the
  id was new, the address is that of one fresh block of the wanted size.\<close>

theorem cbmem_add_spec:
  assumes "cb_ok st" "add_room (cb_memory st) (imd_lg (cb_imd st)) size1" "ident \<noteq> SMALL_REGION_ID"
    and "cbmem_add st ident size1 = (Some p, st')"
  shows "cb_ok st' \<and> cb_imd st' = cb_imd st \<and> cbmem_find st' ident = Some p \<and>
    cbmem_add st' ident size2 = (Some p, st') \<and>
    (\<forall>other. other \<noteq> ident \<longrightarrow> cbmem_entry_find st' other = cbmem_entry_find st other) \<and>
    (cbmem_entry_find st ident = None \<longrightarrow>
      (\<exists>b. p = of_nat (nat (block_base b)) \<and> fst b = ident \<and> block_size b = unat size1 \<and>
        mset (cb_blocks st') = mset (cb_blocks st) + {#b#}))"
  using cbmem_add_facts [OF assms] assms(4) by (auto simp: cbmem_add_facts [OF assms])

text \<open>The boot memory map protects CBMEM. After the report every byte of every allocation has the
  table type in the boot map and in the map of the operating system, and no byte outside the pages of the
  reported region changes its type in either.\<close>

theorem cbmem_add_bootmem_spec:
  assumes "cb_ok st" "bm_ok bm" "4 \<le> bm_heap bm" "\<not> table_written bm"
  shows "\<exists>bm'. cbmem_add_bootmem fatal st bm = Some bm' \<and> bm_ok bm' \<and>
    (\<forall>b\<in>set (cb_blocks st). \<forall>x. in_block b x \<longrightarrow>
      tagged (bm_map bm') x = Some (ucast BM_MEM_TABLE) \<and> tagged (os_map bm') x = Some (ucast BM_MEM_TABLE)) \<and>
    (\<forall>base n x. cbmem_get_region st = Some (base, n) \<and> \<not> page_hits base n x \<longrightarrow>
      tagged (bm_map bm') x = tagged (bm_map bm) x \<and> tagged (os_map bm') x = tagged (os_map bm) x)"
  using add_bootmem_facts [OF assms, of fatal] by (metis (no_types, lifting))

text \<open>The coreboot table gets one record per allocation, with its address, size and id, in the order
  of the directories, the metadata left out, behind the records it holds already.\<close>

theorem cbmem_add_records_spec:
  assumes "cb_ok st"
  shows "cbmem_add_records_to_cbtable st old = old @ map block_record
    (filter (\<lambda>b. \<not> metadata_id (fst b))
      (blocks (cb_memory st) (imd_lg (cb_imd st)) @ small_blocks (cb_memory st) (cb_imd st)))"
  using cbmem_records_facts [OF assms] by (simp add: cbmem_add_records_to_cbtable_def)

end
