(* ===== verification/IoBuf.thy ===== *)
theory IoBuf
  imports Memory
begin

text \<open>
  Serialisation, \<^verbatim>\<open>src/commonlib/iobuf.c\<close>, \<^verbatim>\<open>src/commonlib/include/commonlib/iobuf.h\<close> and the byte
  order of \<^verbatim>\<open>src/commonlib/include/commonlib/endian.h\<close>: input buffers with a read cursor, output buffers
  with a write cursor, both windows into the byte memory. An \<^verbatim>\<open>int\<close> result is the boolean that holds for
  success, or an option for the operations that deliver a value; a pointer result is an address, 0 for \<^verbatim>\<open>NULL\<close>.
\<close>

unbundle bit_operations_syntax

subsection \<open>Byte order\<close>

definition read_ble8 :: "memory \<Rightarrow> addr \<Rightarrow> u8" where "read_ble8 m src = m src"
definition read_at_ble8 :: "memory \<Rightarrow> addr \<Rightarrow> size_t \<Rightarrow> u8" where "read_at_ble8 m src offset = read_ble8 m (src + offset)"
definition write_ble8 :: "memory \<Rightarrow> addr \<Rightarrow> u8 \<Rightarrow> memory" where "write_ble8 m dest val = m(dest := val)"
definition write_at_ble8 :: "memory \<Rightarrow> addr \<Rightarrow> u8 \<Rightarrow> size_t \<Rightarrow> memory" where
  "write_at_ble8 m dest val offset = write_ble8 m (dest + offset) val"


definition read_be8 :: "memory \<Rightarrow> addr \<Rightarrow> u8" where
  "read_be8 m src = read_ble8 m src"
definition read_at_be8 :: "memory \<Rightarrow> addr \<Rightarrow> size_t \<Rightarrow> u8" where
  "read_at_be8 m src offset = read_at_ble8 m src offset"
definition write_be8 :: "memory \<Rightarrow> addr \<Rightarrow> u8 \<Rightarrow> memory" where
  "write_be8 m dest val = write_ble8 m dest val"
definition write_at_be8 :: "memory \<Rightarrow> addr \<Rightarrow> u8 \<Rightarrow> size_t \<Rightarrow> memory" where
  "write_at_be8 m dest val offset = write_at_ble8 m dest val offset"
definition read_be16 :: "memory \<Rightarrow> addr \<Rightarrow> u16" where
  "read_be16 m src = push_bit 8 (ucast (m (src + 0))) OR push_bit 0 (ucast (m (src + 1)))"
definition read_at_be16 :: "memory \<Rightarrow> addr \<Rightarrow> size_t \<Rightarrow> u16" where
  "read_at_be16 m src offset = read_be16 m (src + offset)"
definition write_be16 :: "memory \<Rightarrow> addr \<Rightarrow> u16 \<Rightarrow> memory" where
  "write_be16 m dest val = write_at_be8 (write_be8 m dest (ucast (drop_bit 8 val))) dest (ucast (drop_bit 0 val)) 1"
definition write_at_be16 :: "memory \<Rightarrow> addr \<Rightarrow> u16 \<Rightarrow> size_t \<Rightarrow> memory" where
  "write_at_be16 m dest val offset = write_be16 m (dest + offset) val"
definition read_be32 :: "memory \<Rightarrow> addr \<Rightarrow> u32" where
  "read_be32 m src = push_bit 24 (ucast (m (src + 0))) OR push_bit 16 (ucast (m (src + 1))) OR push_bit 8 (ucast (m (src + 2))) OR push_bit 0 (ucast (m (src + 3)))"
definition read_at_be32 :: "memory \<Rightarrow> addr \<Rightarrow> size_t \<Rightarrow> u32" where
  "read_at_be32 m src offset = read_be32 m (src + offset)"
definition write_be32 :: "memory \<Rightarrow> addr \<Rightarrow> u32 \<Rightarrow> memory" where
  "write_be32 m dest val = write_at_be16 (write_be16 m dest (ucast (drop_bit 16 val))) dest (ucast (drop_bit 0 val)) 2"
definition write_at_be32 :: "memory \<Rightarrow> addr \<Rightarrow> u32 \<Rightarrow> size_t \<Rightarrow> memory" where
  "write_at_be32 m dest val offset = write_be32 m (dest + offset) val"
definition read_be64 :: "memory \<Rightarrow> addr \<Rightarrow> u64" where
  "read_be64 m src = push_bit 32 (ucast (read_be32 m src)) OR ucast (read_at_be32 m src 4)"
definition read_at_be64 :: "memory \<Rightarrow> addr \<Rightarrow> size_t \<Rightarrow> u64" where
  "read_at_be64 m src offset = read_be64 m (src + offset)"
definition write_be64 :: "memory \<Rightarrow> addr \<Rightarrow> u64 \<Rightarrow> memory" where
  "write_be64 m dest val = write_at_be32 (write_be32 m dest (ucast (drop_bit 32 val))) dest (ucast (drop_bit 0 val)) 4"
definition write_at_be64 :: "memory \<Rightarrow> addr \<Rightarrow> u64 \<Rightarrow> size_t \<Rightarrow> memory" where
  "write_at_be64 m dest val offset = write_be64 m (dest + offset) val"

definition read_le8 :: "memory \<Rightarrow> addr \<Rightarrow> u8" where
  "read_le8 m src = read_ble8 m src"
definition read_at_le8 :: "memory \<Rightarrow> addr \<Rightarrow> size_t \<Rightarrow> u8" where
  "read_at_le8 m src offset = read_at_ble8 m src offset"
definition write_le8 :: "memory \<Rightarrow> addr \<Rightarrow> u8 \<Rightarrow> memory" where
  "write_le8 m dest val = write_ble8 m dest val"
definition write_at_le8 :: "memory \<Rightarrow> addr \<Rightarrow> u8 \<Rightarrow> size_t \<Rightarrow> memory" where
  "write_at_le8 m dest val offset = write_at_ble8 m dest val offset"
definition read_le16 :: "memory \<Rightarrow> addr \<Rightarrow> u16" where
  "read_le16 m src = push_bit 8 (ucast (m (src + 1))) OR push_bit 0 (ucast (m (src + 0)))"
definition read_at_le16 :: "memory \<Rightarrow> addr \<Rightarrow> size_t \<Rightarrow> u16" where
  "read_at_le16 m src offset = read_le16 m (src + offset)"
definition write_le16 :: "memory \<Rightarrow> addr \<Rightarrow> u16 \<Rightarrow> memory" where
  "write_le16 m dest val = write_at_le8 (write_le8 m dest (ucast (drop_bit 0 val))) dest (ucast (drop_bit 8 val)) 1"
definition write_at_le16 :: "memory \<Rightarrow> addr \<Rightarrow> u16 \<Rightarrow> size_t \<Rightarrow> memory" where
  "write_at_le16 m dest val offset = write_le16 m (dest + offset) val"
definition read_le32 :: "memory \<Rightarrow> addr \<Rightarrow> u32" where
  "read_le32 m src = push_bit 24 (ucast (m (src + 3))) OR push_bit 16 (ucast (m (src + 2))) OR push_bit 8 (ucast (m (src + 1))) OR push_bit 0 (ucast (m (src + 0)))"
definition read_at_le32 :: "memory \<Rightarrow> addr \<Rightarrow> size_t \<Rightarrow> u32" where
  "read_at_le32 m src offset = read_le32 m (src + offset)"
definition write_le32 :: "memory \<Rightarrow> addr \<Rightarrow> u32 \<Rightarrow> memory" where
  "write_le32 m dest val = write_at_le16 (write_le16 m dest (ucast (drop_bit 0 val))) dest (ucast (drop_bit 16 val)) 2"
definition write_at_le32 :: "memory \<Rightarrow> addr \<Rightarrow> u32 \<Rightarrow> size_t \<Rightarrow> memory" where
  "write_at_le32 m dest val offset = write_le32 m (dest + offset) val"
definition read_le64 :: "memory \<Rightarrow> addr \<Rightarrow> u64" where
  "read_le64 m src = push_bit 32 (ucast (read_at_le32 m src 4)) OR ucast (read_le32 m src)"
definition read_at_le64 :: "memory \<Rightarrow> addr \<Rightarrow> size_t \<Rightarrow> u64" where
  "read_at_le64 m src offset = read_le64 m (src + offset)"
definition write_le64 :: "memory \<Rightarrow> addr \<Rightarrow> u64 \<Rightarrow> memory" where
  "write_le64 m dest val = write_at_le32 (write_le32 m dest (ucast (drop_bit 0 val))) dest (ucast (drop_bit 32 val)) 4"
definition write_at_le64 :: "memory \<Rightarrow> addr \<Rightarrow> u64 \<Rightarrow> size_t \<Rightarrow> memory" where
  "write_at_le64 m dest val offset = write_le64 m (dest + offset) val"

definition zero_n :: "memory \<Rightarrow> addr \<Rightarrow> nat \<Rightarrow> memory" where "zero_n m dest n = memset_bytes m dest 0 n"

subsection \<open>Input buffers\<close>

record ibuf =
  ib_b :: addr
  n_read :: size_t
  ib_capacity :: size_t

definition ibuf_nr_read :: "ibuf \<Rightarrow> size_t" where "ibuf_nr_read ib = n_read ib"
definition ibuf_remaining :: "ibuf \<Rightarrow> size_t" where "ibuf_remaining ib = ib_capacity ib - ibuf_nr_read ib"
definition ibuf_check_size :: "ibuf \<Rightarrow> size_t \<Rightarrow> bool" where "ibuf_check_size ib sz \<longleftrightarrow> \<not> ibuf_remaining ib < sz"
definition ibuf_init :: "addr \<Rightarrow> size_t \<Rightarrow> ibuf" where "ibuf_init b sz = \<lparr>ib_b = b, n_read = 0, ib_capacity = sz\<rparr>"

definition ibuf_splice :: "ibuf \<Rightarrow> size_t \<Rightarrow> size_t \<Rightarrow> ibuf option" where
  "ibuf_splice src off sz =
     (let end1 = off + sz;
          capacity = ib_capacity src;
          nr_read = ibuf_nr_read src
      in if end1 < off \<or> end1 < sz \<or> end1 > capacity then None
         else let dst = ibuf_init (ib_b src + off) sz
              in if off < nr_read then Some (dst\<lparr>n_read := nr_read - off\<rparr>) else Some dst)"

definition ibuf_splice_current :: "ibuf \<Rightarrow> size_t \<Rightarrow> ibuf option" where
  "ibuf_splice_current src sz = ibuf_splice src (ibuf_nr_read src) sz"

definition ibuf_split :: "ibuf \<Rightarrow> size_t \<Rightarrow> (ibuf \<times> ibuf) option" where
  "ibuf_split src boundary =
     (case ibuf_splice src 0 boundary of
        None \<Rightarrow> None
      | Some a \<Rightarrow>
          (case ibuf_splice src boundary (ib_capacity src - boundary) of
             None \<Rightarrow> None
           | Some b \<Rightarrow> Some (a, b)))"

definition ibuf_oob_drain :: "ibuf \<Rightarrow> size_t \<Rightarrow> addr \<times> ibuf" where
  "ibuf_oob_drain ib sz =
     (if \<not> ibuf_check_size ib sz then (0, ib)
      else (ib_b ib + n_read ib, ib\<lparr>n_read := n_read ib + sz\<rparr>))"

definition ibuf_read :: "memory \<Rightarrow> ibuf \<Rightarrow> size_t \<Rightarrow> u8 list option \<times> ibuf" where
  "ibuf_read m ib sz =
     (case ibuf_oob_drain ib sz of
        (b, ib') \<Rightarrow> if b = 0 then (None, ib') else (Some (load_bytes m b (unat sz)), ib'))"

definition ibuf_read_be8 :: "memory \<Rightarrow> ibuf \<Rightarrow> u8 option \<times> ibuf" where
  "ibuf_read_be8 m ib =
     (let sz = 1
      in if \<not> ibuf_check_size ib sz then (None, ib)
         else (Some (read_at_be8 m (ib_b ib) (n_read ib)), ib\<lparr>n_read := n_read ib + sz\<rparr>))"

definition ibuf_read_be16 :: "memory \<Rightarrow> ibuf \<Rightarrow> u16 option \<times> ibuf" where
  "ibuf_read_be16 m ib =
     (let sz = 2
      in if \<not> ibuf_check_size ib sz then (None, ib)
         else (Some (read_at_be16 m (ib_b ib) (n_read ib)), ib\<lparr>n_read := n_read ib + sz\<rparr>))"

definition ibuf_read_be32 :: "memory \<Rightarrow> ibuf \<Rightarrow> u32 option \<times> ibuf" where
  "ibuf_read_be32 m ib =
     (let sz = 4
      in if \<not> ibuf_check_size ib sz then (None, ib)
         else (Some (read_at_be32 m (ib_b ib) (n_read ib)), ib\<lparr>n_read := n_read ib + sz\<rparr>))"

definition ibuf_read_be64 :: "memory \<Rightarrow> ibuf \<Rightarrow> u64 option \<times> ibuf" where
  "ibuf_read_be64 m ib =
     (let sz = 8
      in if \<not> ibuf_check_size ib sz then (None, ib)
         else (Some (read_at_be64 m (ib_b ib) (n_read ib)), ib\<lparr>n_read := n_read ib + sz\<rparr>))"

definition ibuf_read_le8 :: "memory \<Rightarrow> ibuf \<Rightarrow> u8 option \<times> ibuf" where
  "ibuf_read_le8 m ib =
     (let sz = 1
      in if \<not> ibuf_check_size ib sz then (None, ib)
         else (Some (read_at_le8 m (ib_b ib) (n_read ib)), ib\<lparr>n_read := n_read ib + sz\<rparr>))"

definition ibuf_read_le16 :: "memory \<Rightarrow> ibuf \<Rightarrow> u16 option \<times> ibuf" where
  "ibuf_read_le16 m ib =
     (let sz = 2
      in if \<not> ibuf_check_size ib sz then (None, ib)
         else (Some (read_at_le16 m (ib_b ib) (n_read ib)), ib\<lparr>n_read := n_read ib + sz\<rparr>))"

definition ibuf_read_le32 :: "memory \<Rightarrow> ibuf \<Rightarrow> u32 option \<times> ibuf" where
  "ibuf_read_le32 m ib =
     (let sz = 4
      in if \<not> ibuf_check_size ib sz then (None, ib)
         else (Some (read_at_le32 m (ib_b ib) (n_read ib)), ib\<lparr>n_read := n_read ib + sz\<rparr>))"

definition ibuf_read_le64 :: "memory \<Rightarrow> ibuf \<Rightarrow> u64 option \<times> ibuf" where
  "ibuf_read_le64 m ib =
     (let sz = 8
      in if \<not> ibuf_check_size ib sz then (None, ib)
         else (Some (read_at_le64 m (ib_b ib) (n_read ib)), ib\<lparr>n_read := n_read ib + sz\<rparr>))"

text \<open>Native byte order is little endian on the modelled targets: the object representation is \<open>le_bytes\<close>.\<close>

definition ibuf_read_n8 :: "memory \<Rightarrow> ibuf \<Rightarrow> u8 option \<times> ibuf" where
  "ibuf_read_n8 m ib = (case ibuf_read m ib 1 of (r, ib') \<Rightarrow> (map_option le_value r, ib'))"

definition ibuf_read_n16 :: "memory \<Rightarrow> ibuf \<Rightarrow> u16 option \<times> ibuf" where
  "ibuf_read_n16 m ib = (case ibuf_read m ib 2 of (r, ib') \<Rightarrow> (map_option le_value r, ib'))"

definition ibuf_read_n32 :: "memory \<Rightarrow> ibuf \<Rightarrow> u32 option \<times> ibuf" where
  "ibuf_read_n32 m ib = (case ibuf_read m ib 4 of (r, ib') \<Rightarrow> (map_option le_value r, ib'))"

definition ibuf_read_n64 :: "memory \<Rightarrow> ibuf \<Rightarrow> u64 option \<times> ibuf" where
  "ibuf_read_n64 m ib = (case ibuf_read m ib 8 of (r, ib') \<Rightarrow> (map_option le_value r, ib'))"

subsection \<open>Output buffers\<close>

record obuf =
  ob_b :: addr
  n_written :: size_t
  ob_capacity :: size_t

definition obuf_nr_written :: "obuf \<Rightarrow> size_t" where "obuf_nr_written ob = n_written ob"
definition obuf_remaining :: "obuf \<Rightarrow> size_t" where "obuf_remaining ob = ob_capacity ob - obuf_nr_written ob"
definition obuf_check_size :: "obuf \<Rightarrow> size_t \<Rightarrow> bool" where "obuf_check_size ob sz \<longleftrightarrow> \<not> obuf_remaining ob < sz"
definition obuf_init :: "addr \<Rightarrow> size_t \<Rightarrow> obuf" where "obuf_init b sz = \<lparr>ob_b = b, n_written = 0, ob_capacity = sz\<rparr>"
definition ibuf_from_obuf :: "obuf \<Rightarrow> ibuf" where "ibuf_from_obuf ob = ibuf_init (ob_b ob) (n_written ob)"
definition obuf_contents :: "obuf \<Rightarrow> addr \<times> size_t" where "obuf_contents ob = (ob_b ob, obuf_nr_written ob)"

definition obuf_splice :: "obuf \<Rightarrow> size_t \<Rightarrow> size_t \<Rightarrow> obuf option" where
  "obuf_splice src off sz =
     (let end1 = off + sz;
          capacity = ob_capacity src;
          nr_written = obuf_nr_written src
      in if end1 < off \<or> end1 < sz \<or> end1 > capacity then None
         else let dst = obuf_init (ob_b src + off) sz
              in if off < nr_written then Some (dst\<lparr>n_written := nr_written - off\<rparr>) else Some dst)"

definition obuf_splice_current :: "obuf \<Rightarrow> size_t \<Rightarrow> obuf option" where
  "obuf_splice_current src sz = obuf_splice src (obuf_nr_written src) sz"

definition obuf_split :: "obuf \<Rightarrow> size_t \<Rightarrow> (obuf \<times> obuf) option" where
  "obuf_split src boundary =
     (case obuf_splice src 0 boundary of
        None \<Rightarrow> None
      | Some a \<Rightarrow>
          (case obuf_splice src boundary (ob_capacity src - boundary) of
             None \<Rightarrow> None
           | Some b \<Rightarrow> Some (a, b)))"

definition obuf_oob_fill :: "obuf \<Rightarrow> size_t \<Rightarrow> addr \<times> obuf" where
  "obuf_oob_fill ob sz =
     (if \<not> obuf_check_size ob sz then (0, ob)
      else (ob_b ob + n_written ob, ob\<lparr>n_written := n_written ob + sz\<rparr>))"

text \<open>The data argument is the bytes the caller's pointer and size denote.\<close>

definition obuf_write :: "memory \<Rightarrow> obuf \<Rightarrow> u8 list \<Rightarrow> bool \<times> memory \<times> obuf" where
  "obuf_write m ob data =
     (case obuf_oob_fill ob (of_nat (length data)) of
        (b, ob') \<Rightarrow> if b = 0 then (False, m, ob') else (True, store_bytes m b data, ob'))"

definition obuf_write_be8 :: "memory \<Rightarrow> obuf \<Rightarrow> u8 \<Rightarrow> bool \<times> memory \<times> obuf" where
  "obuf_write_be8 m ob v =
     (let sz = 1
      in if \<not> obuf_check_size ob sz then (False, m, ob)
         else (True, write_at_be8 m (ob_b ob) v (n_written ob), ob\<lparr>n_written := n_written ob + sz\<rparr>))"

definition obuf_write_be16 :: "memory \<Rightarrow> obuf \<Rightarrow> u16 \<Rightarrow> bool \<times> memory \<times> obuf" where
  "obuf_write_be16 m ob v =
     (let sz = 2
      in if \<not> obuf_check_size ob sz then (False, m, ob)
         else (True, write_at_be16 m (ob_b ob) v (n_written ob), ob\<lparr>n_written := n_written ob + sz\<rparr>))"

definition obuf_write_be32 :: "memory \<Rightarrow> obuf \<Rightarrow> u32 \<Rightarrow> bool \<times> memory \<times> obuf" where
  "obuf_write_be32 m ob v =
     (let sz = 4
      in if \<not> obuf_check_size ob sz then (False, m, ob)
         else (True, write_at_be32 m (ob_b ob) v (n_written ob), ob\<lparr>n_written := n_written ob + sz\<rparr>))"

definition obuf_write_be64 :: "memory \<Rightarrow> obuf \<Rightarrow> u64 \<Rightarrow> bool \<times> memory \<times> obuf" where
  "obuf_write_be64 m ob v =
     (let sz = 8
      in if \<not> obuf_check_size ob sz then (False, m, ob)
         else (True, write_at_be64 m (ob_b ob) v (n_written ob), ob\<lparr>n_written := n_written ob + sz\<rparr>))"

definition obuf_write_le8 :: "memory \<Rightarrow> obuf \<Rightarrow> u8 \<Rightarrow> bool \<times> memory \<times> obuf" where
  "obuf_write_le8 m ob v =
     (let sz = 1
      in if \<not> obuf_check_size ob sz then (False, m, ob)
         else (True, write_at_le8 m (ob_b ob) v (n_written ob), ob\<lparr>n_written := n_written ob + sz\<rparr>))"

definition obuf_write_le16 :: "memory \<Rightarrow> obuf \<Rightarrow> u16 \<Rightarrow> bool \<times> memory \<times> obuf" where
  "obuf_write_le16 m ob v =
     (let sz = 2
      in if \<not> obuf_check_size ob sz then (False, m, ob)
         else (True, write_at_le16 m (ob_b ob) v (n_written ob), ob\<lparr>n_written := n_written ob + sz\<rparr>))"

definition obuf_write_le32 :: "memory \<Rightarrow> obuf \<Rightarrow> u32 \<Rightarrow> bool \<times> memory \<times> obuf" where
  "obuf_write_le32 m ob v =
     (let sz = 4
      in if \<not> obuf_check_size ob sz then (False, m, ob)
         else (True, write_at_le32 m (ob_b ob) v (n_written ob), ob\<lparr>n_written := n_written ob + sz\<rparr>))"

definition obuf_write_le64 :: "memory \<Rightarrow> obuf \<Rightarrow> u64 \<Rightarrow> bool \<times> memory \<times> obuf" where
  "obuf_write_le64 m ob v =
     (let sz = 8
      in if \<not> obuf_check_size ob sz then (False, m, ob)
         else (True, write_at_le64 m (ob_b ob) v (n_written ob), ob\<lparr>n_written := n_written ob + sz\<rparr>))"

definition obuf_write_n8 :: "memory \<Rightarrow> obuf \<Rightarrow> u8 \<Rightarrow> bool \<times> memory \<times> obuf" where
  "obuf_write_n8 m ob v = obuf_write m ob (le_bytes 1 v)"

definition obuf_write_n16 :: "memory \<Rightarrow> obuf \<Rightarrow> u16 \<Rightarrow> bool \<times> memory \<times> obuf" where
  "obuf_write_n16 m ob v = obuf_write m ob (le_bytes 2 v)"

definition obuf_write_n32 :: "memory \<Rightarrow> obuf \<Rightarrow> u32 \<Rightarrow> bool \<times> memory \<times> obuf" where
  "obuf_write_n32 m ob v = obuf_write m ob (le_bytes 4 v)"

definition obuf_write_n64 :: "memory \<Rightarrow> obuf \<Rightarrow> u64 \<Rightarrow> bool \<times> memory \<times> obuf" where
  "obuf_write_n64 m ob v = obuf_write m ob (le_bytes 8 v)"


subsection \<open>The byte order functions as stores and loads\<close>

lemma store_bytes_Nil [simp]: "store_bytes m a [] = m"
  by (simp add: store_bytes_def)

lemma store_bytes_append:
  assumes "length xs + length ys \<le> 2 ^ 64"
  shows "store_bytes (store_bytes m a xs) (a + of_nat (length xs)) ys = store_bytes m a (xs @ ys)"
proof
  fix x
  let ?d = "unat (x - a)" and ?n = "length xs"
  show "store_bytes (store_bytes m a xs) (a + of_nat ?n) ys x = store_bytes m a (xs @ ys) x"
  proof (cases "ys = []")
    case False
    then have n: "?n < 2 ^ 64" using assms by (cases ys) simp_all
    then have un: "unat (of_nat ?n :: addr) = ?n" by (rule unat_of_nat_64)
    have e: "x - (a + of_nat ?n) = x - a - of_nat ?n" by simp
    show ?thesis
    proof (cases "?n \<le> ?d")
      case True
      then have "unat (x - (a + of_nat ?n)) = ?d - ?n"
        unfolding e by (subst unat_sub_no_wrap) (simp_all add: un)
      with True show ?thesis by (auto simp: store_bytes_def nth_append)
    next
      case False
      then have "unat (x - (a + of_nat ?n)) = ?d + 2 ^ 64 - ?n"
        unfolding e unat_sub_if' [of "x - a"] un by simp
      then have "\<not> unat (x - (a + of_nat ?n)) < length ys" using assms by simp
      with False show ?thesis by (auto simp: store_bytes_def nth_append)
    qed
  qed simp
qed

lemma store_bytes_single: "m(a := v) = store_bytes m a [v]"
  by (rule ext) (simp add: store_bytes_def unat_eq_zero)

lemma store_two: "length xs \<le> 8 \<Longrightarrow> length ys \<le> 8 \<Longrightarrow> k = of_nat (length xs) \<Longrightarrow>
    store_bytes (store_bytes m a xs) (a + k) ys = store_bytes m a (xs @ ys)"
  using store_bytes_append [of xs ys m a] by simp

lemma le_bytes_split: "le_bytes (j + k) x = le_bytes j x @ le_bytes k (drop_bit (8 * j) x)"
  by (induction j arbitrary: x) (simp_all add: add.commute)

lemma nth_le_bytes: "i < n \<Longrightarrow> le_bytes n x ! i = ucast (drop_bit (8 * i) x)"
proof (induction n arbitrary: x i)
  case (Suc n)
  then show ?case by (cases i) (simp_all add: add.commute)
qed simp

lemma le_bytes_ucast:
  "8 * n \<le> LENGTH('b) \<Longrightarrow> le_bytes n (ucast (x :: 'a::len word) :: 'b::len word) = le_bytes n x"
proof (rule nth_equalityI)
  fix i assume n: "8 * n \<le> LENGTH('b)" and i: "i < length (le_bytes n (ucast x :: 'b word))"
  then have "8 * i + 8 \<le> LENGTH('b)" by simp
  then have "ucast (drop_bit (8 * i) (ucast x :: 'b word)) = (ucast (drop_bit (8 * i) x) :: u8)"
    by (intro bit_word_eqI) (auto simp: bit_simps)
  with i show "le_bytes n (ucast x :: 'b word) ! i = le_bytes n x ! i" by (simp add: nth_le_bytes)
qed simp

lemma le_value_append: "le_value (xs @ ys) = (le_value xs OR push_bit (8 * length xs) (le_value ys) :: 'a::len word)"
proof (induction xs)
  case (Cons x xs)
  then show ?case by (simp add: or.assoc push_bit_or add.commute)
qed simp

lemma load_two: "load_bytes m a 2 = [m a, m (a + 1)]"
  by (simp add: load_bytes_def numeral_eq_Suc)

lemma load_four: "load_bytes m a 4 = [m a, m (a + 1), m (a + 2), m (a + 3)]"
  by (simp add: load_bytes_def numeral_eq_Suc)

lemma write_at_8 [simp]:
  "write_at_ble8 m d v off = store_bytes m (d + off) [v]"
  "write_at_be8 m d v off = store_bytes m (d + off) (rev (le_bytes 1 v))"
  "write_at_le8 m d v off = store_bytes m (d + off) (le_bytes 1 v)"
  by (simp_all add: write_at_ble8_def write_at_be8_def write_at_le8_def write_ble8_def store_bytes_single)

lemma write_8 [simp]:
  "write_be8 m d v = store_bytes m d (rev (le_bytes 1 v))"
  "write_le8 m d v = store_bytes m d (le_bytes 1 v)"
  by (simp_all add: write_be8_def write_le8_def write_ble8_def store_bytes_single)

lemma write_16 [simp]:
  "write_be16 m d v = store_bytes m d (rev (le_bytes 2 v))"
  "write_le16 m d v = store_bytes m d (le_bytes 2 v)"
  by (simp_all add: write_be16_def write_le16_def store_two numeral_eq_Suc)

lemma write_at_16 [simp]:
  "write_at_be16 m d v off = store_bytes m (d + off) (rev (le_bytes 2 v))"
  "write_at_le16 m d v off = store_bytes m (d + off) (le_bytes 2 v)"
  by (simp_all add: write_at_be16_def write_at_le16_def)

lemma halves:
  fixes v :: "'a::len word"
  shows "le_bytes 2 (ucast v :: u16) = le_bytes 2 v" "le_bytes 4 (ucast v :: u32) = le_bytes 4 v"
    "le_bytes 2 v @ le_bytes 2 (drop_bit 16 v) = le_bytes 4 v" "le_bytes 4 v @ le_bytes 4 (drop_bit 32 v) = le_bytes 8 v"
  using le_bytes_split [of 2 2 v] le_bytes_split [of 4 4 v] by (simp_all add: le_bytes_ucast)

lemma write_32 [simp]:
  "write_be32 m d v = store_bytes m d (rev (le_bytes 4 v))"
  "write_le32 m d v = store_bytes m d (le_bytes 4 v)"
  by (simp_all add: write_be32_def write_le32_def store_two halves(1) halves(3) [symmetric] del: le_bytes.simps)

lemma write_at_32 [simp]:
  "write_at_be32 m d v off = store_bytes m (d + off) (rev (le_bytes 4 v))"
  "write_at_le32 m d v off = store_bytes m (d + off) (le_bytes 4 v)"
  by (simp_all add: write_at_be32_def write_at_le32_def)

lemma write_64 [simp]:
  "write_be64 m d v = store_bytes m d (rev (le_bytes 8 v))"
  "write_le64 m d v = store_bytes m d (le_bytes 8 v)"
  by (simp_all add: write_be64_def write_le64_def store_two halves(2) halves(4) [symmetric] del: le_bytes.simps)

lemma write_at_64 [simp]:
  "write_at_be64 m d v off = store_bytes m (d + off) (rev (le_bytes 8 v))"
  "write_at_le64 m d v off = store_bytes m (d + off) (le_bytes 8 v)"
  by (simp_all add: write_at_be64_def write_at_le64_def)

lemma read_8 [simp]:
  "read_be8 m s = le_value (rev (load_bytes m s 1))" "read_le8 m s = le_value (load_bytes m s 1)"
  "read_at_be8 m s off = le_value (rev (load_bytes m (s + off) 1))" "read_at_le8 m s off = le_value (load_bytes m (s + off) 1)"
  by (simp_all add: read_be8_def read_le8_def read_at_be8_def read_at_le8_def read_at_ble8_def read_ble8_def load_bytes_def)

lemma read_16 [simp]:
  "read_be16 m s = le_value (rev (load_bytes m s 2))" "read_le16 m s = le_value (load_bytes m s 2)"
  by (simp_all add: read_be16_def read_le16_def load_two or.commute)

lemma read_at_16 [simp]:
  "read_at_be16 m s off = le_value (rev (load_bytes m (s + off) 2))" "read_at_le16 m s off = le_value (load_bytes m (s + off) 2)"
  by (simp_all add: read_at_be16_def read_at_le16_def)

lemma read_32 [simp]:
  "read_be32 m s = le_value (rev (load_bytes m s 4))" "read_le32 m s = le_value (load_bytes m s 4)"
  by (simp_all add: read_be32_def read_le32_def load_four push_bit_or ac_simps)

lemma read_at_32 [simp]:
  "read_at_be32 m s off = le_value (rev (load_bytes m (s + off) 4))" "read_at_le32 m s off = le_value (load_bytes m (s + off) 4)"
  by (simp_all add: read_at_be32_def read_at_le32_def)

lemma load_eight: "load_bytes m a 8 = load_bytes m a 4 @ load_bytes m (a + 4) 4"
  using load_bytes_append [of m a 4 4] by simp

lemma le_value_word: "length xs = 4 \<Longrightarrow> ucast (le_value xs :: u32) = (le_value xs :: u64)"
proof -
  assume xs: "length xs = 4"
  let ?x = "le_value xs :: u32"
  have "le_bytes 4 (ucast ?x :: u64) = le_bytes (length xs) ?x"
    unfolding xs by (rule le_bytes_ucast) simp
  also have "\<dots> = xs" by (rule le_bytes_value) (simp add: xs)
  finally have "le_value xs = take_bit (8 * 4) (ucast ?x :: u64)" by (metis le_value_bytes)
  also have "\<dots> = ucast ?x" by (rule bit_word_eqI) (auto simp: bit_simps dest: bit_imp_le_length)
  finally show ?thesis by simp
qed

lemma read_64 [simp]:
  "read_be64 m s = le_value (rev (load_bytes m s 8))" "read_le64 m s = le_value (load_bytes m s 8)"
  by (simp_all add: read_be64_def read_le64_def load_eight le_value_append le_value_word or.commute)

lemma read_at_64 [simp]:
  "read_at_be64 m s off = le_value (rev (load_bytes m (s + off) 8))" "read_at_le64 m s off = le_value (load_bytes m (s + off) 8)"
  by (simp_all add: read_at_be64_def read_at_le64_def)

subsection \<open>Well-formed buffers and their contents\<close>

definition ibuf_ok :: "ibuf \<Rightarrow> bool" where
  "ibuf_ok ib \<longleftrightarrow> ib_b ib \<noteq> 0 \<and> unat (ib_b ib) + unat (ib_capacity ib) < 2 ^ 64 \<and> n_read ib \<le> ib_capacity ib"

definition obuf_ok :: "obuf \<Rightarrow> bool" where
  "obuf_ok ob \<longleftrightarrow> ob_b ob \<noteq> 0 \<and> unat (ob_b ob) + unat (ob_capacity ob) < 2 ^ 64 \<and> n_written ob \<le> ob_capacity ob"

definition ibuf_bytes :: "memory \<Rightarrow> ibuf \<Rightarrow> u8 list" where
  "ibuf_bytes m ib = load_bytes m (ib_b ib + n_read ib) (unat (ib_capacity ib) - unat (n_read ib))"

definition obuf_bytes :: "memory \<Rightarrow> obuf \<Rightarrow> u8 list" where
  "obuf_bytes m ob = load_bytes m (ob_b ob) (unat (n_written ob))"

definition obuf_room :: "obuf \<Rightarrow> nat" where
  "obuf_room ob = unat (ob_capacity ob) - unat (n_written ob)"

text \<open>What writing the bytes \<open>bs\<close> must do, and what reading the first \<open>n\<close> bytes must do.\<close>

definition puts_bytes :: "memory \<Rightarrow> obuf \<Rightarrow> u8 list \<Rightarrow> bool \<times> memory \<times> obuf \<Rightarrow> bool" where
  "puts_bytes m ob bs r \<longleftrightarrow>
     (if obuf_room ob < length bs then r = (False, m, ob)
      else r = (True, store_bytes m (ob_b ob + n_written ob) bs, ob\<lparr>n_written := n_written ob + of_nat (length bs)\<rparr>))"

definition gets_bytes :: "memory \<Rightarrow> ibuf \<Rightarrow> nat \<Rightarrow> (u8 list \<Rightarrow> 'v) \<Rightarrow> 'v option \<times> ibuf \<Rightarrow> bool" where
  "gets_bytes m ib n dec r \<longleftrightarrow>
     (if length (ibuf_bytes m ib) < n then r = (None, ib)
      else r = (Some (dec (take n (ibuf_bytes m ib))), ib\<lparr>n_read := n_read ib + of_nat n\<rparr>))"

lemma obuf_check_iff:
  assumes "obuf_ok ob" "n < 2 ^ 64"
  shows "obuf_check_size ob (of_nat n) \<longleftrightarrow> n \<le> obuf_room ob"
proof -
  have "unat (ob_capacity ob - n_written ob) = obuf_room ob"
    using assms(1) by (simp add: obuf_room_def obuf_ok_def unat_sub)
  then show ?thesis
    using unat_of_nat_64 [OF assms(2)]
    by (simp add: obuf_check_size_def obuf_remaining_def obuf_nr_written_def word_less_nat_alt not_less)
qed

lemma length_ibuf_bytes: "length (ibuf_bytes m ib) = unat (ib_capacity ib) - unat (n_read ib)"
  by (simp add: ibuf_bytes_def)

lemma ibuf_check_iff:
  assumes "ibuf_ok ib" "n < 2 ^ 64"
  shows "ibuf_check_size ib (of_nat n) \<longleftrightarrow> n \<le> length (ibuf_bytes m ib)"
proof -
  have "unat (ib_capacity ib - n_read ib) = length (ibuf_bytes m ib)"
    using assms(1) by (simp add: length_ibuf_bytes ibuf_ok_def unat_sub)
  then show ?thesis
    using unat_of_nat_64 [OF assms(2)]
    by (simp add: ibuf_check_size_def ibuf_remaining_def ibuf_nr_read_def word_less_nat_alt not_less)
qed

lemma take_load_bytes: "n \<le> k \<Longrightarrow> take n (load_bytes m a k) = load_bytes m a n"
  using load_bytes_append [of m a n "k - n"] by simp

text \<open>
  The interface of the fixed-size formats: \<open>put\<close> and \<open>get\<close> are the accessors at an offset, \<open>enc\<close> and
  \<open>dec\<close> say which bytes a value is. Every buffer operation of a format follows from it.
\<close>

locale wire_format =
  fixes n :: nat
    and put :: "memory \<Rightarrow> addr \<Rightarrow> 'v \<Rightarrow> size_t \<Rightarrow> memory"
    and get :: "memory \<Rightarrow> addr \<Rightarrow> size_t \<Rightarrow> 'v"
    and enc :: "'v \<Rightarrow> u8 list"
    and dec :: "u8 list \<Rightarrow> 'v"
  assumes size_small: "n \<le> 8"
    and length_enc: "length (enc v) = n"
    and dec_enc: "dec (enc v) = v"
    and put_stores: "put m d v off = store_bytes m (d + off) (enc v)"
    and get_loads: "get m s off = dec (load_bytes m (s + off) n)"
begin

lemma writes:
  assumes "obuf_ok ob"
  shows "puts_bytes m ob (enc v)
    (if \<not> obuf_check_size ob (of_nat n) then (False, m, ob)
     else (True, put m (ob_b ob) v (n_written ob), ob\<lparr>n_written := n_written ob + of_nat n\<rparr>))"
proof -
  have "n < 2 ^ 64" using size_small by simp
  from obuf_check_iff [OF assms this] show ?thesis
    by (simp add: puts_bytes_def length_enc put_stores not_le)
qed

lemma reads:
  assumes "ibuf_ok ib"
  shows "gets_bytes m ib n dec
    (if \<not> ibuf_check_size ib (of_nat n) then (None, ib)
     else (Some (get m (ib_b ib) (n_read ib)), ib\<lparr>n_read := n_read ib + of_nat n\<rparr>))"
proof -
  have n: "n < 2 ^ 64" using size_small by simp
  have "take n (ibuf_bytes m ib) = load_bytes m (ib_b ib + n_read ib) n" if "n \<le> length (ibuf_bytes m ib)"
    using that unfolding ibuf_bytes_def by (simp add: take_load_bytes)
  with ibuf_check_iff [OF assms n, of m] show ?thesis
    by (simp add: gets_bytes_def get_loads not_le)
qed

end

interpretation be8: wire_format 1 write_at_be8 read_at_be8 "\<lambda>v :: u8. rev (le_bytes 1 v)" "\<lambda>bs. le_value (rev bs)"
  by unfold_locales (simp_all add: le_value_full)
interpretation be16: wire_format 2 write_at_be16 read_at_be16 "\<lambda>v :: u16. rev (le_bytes 2 v)" "\<lambda>bs. le_value (rev bs)"
  by unfold_locales (simp_all add: le_value_full)
interpretation be32: wire_format 4 write_at_be32 read_at_be32 "\<lambda>v :: u32. rev (le_bytes 4 v)" "\<lambda>bs. le_value (rev bs)"
  by unfold_locales (simp_all add: le_value_full)
interpretation be64: wire_format 8 write_at_be64 read_at_be64 "\<lambda>v :: u64. rev (le_bytes 8 v)" "\<lambda>bs. le_value (rev bs)"
  by unfold_locales (simp_all add: le_value_full)
interpretation le8: wire_format 1 write_at_le8 read_at_le8 "\<lambda>v :: u8. le_bytes 1 v" le_value
  by unfold_locales (simp_all add: le_value_full)
interpretation le16: wire_format 2 write_at_le16 read_at_le16 "\<lambda>v :: u16. le_bytes 2 v" le_value
  by unfold_locales (simp_all add: le_value_full)
interpretation le32: wire_format 4 write_at_le32 read_at_le32 "\<lambda>v :: u32. le_bytes 4 v" le_value
  by unfold_locales (simp_all add: le_value_full)
interpretation le64: wire_format 8 write_at_le64 read_at_le64 "\<lambda>v :: u64. le_bytes 8 v" le_value
  by unfold_locales (simp_all add: le_value_full)

lemmas obuf_write_defs = obuf_write_be8_def obuf_write_be16_def obuf_write_be32_def obuf_write_be64_def
  obuf_write_le8_def obuf_write_le16_def obuf_write_le32_def obuf_write_le64_def

lemmas ibuf_read_defs = ibuf_read_be8_def ibuf_read_be16_def ibuf_read_be32_def ibuf_read_be64_def
  ibuf_read_le8_def ibuf_read_le16_def ibuf_read_le32_def ibuf_read_le64_def

lemma raw_write:
  assumes ok: "obuf_ok ob" and n: "length bs < 2 ^ 64"
  shows "puts_bytes m ob bs (obuf_write m ob bs)"
proof -
  have le: "unat (n_written ob) \<le> unat (ob_capacity ob)" and nz: "ob_b ob \<noteq> 0"
    and lt: "unat (ob_b ob) + unat (ob_capacity ob) < 2 ^ 64"
    using ok by (simp_all add: obuf_ok_def word_le_nat_alt)
  have u: "unat (ob_b ob + n_written ob) = unat (ob_b ob) + unat (n_written ob)"
    using le lt by (subst unat_add_no_wrap) simp_all
  have "unat (ob_b ob) \<noteq> 0" using nz by (simp add: unat_eq_zero)
  then have "ob_b ob + n_written ob \<noteq> 0" using u by (metis add_is_0 unat_0)
  then show ?thesis
    using obuf_check_iff [OF ok n] by (simp add: puts_bytes_def obuf_write_def obuf_oob_fill_def not_le)
qed

lemma raw_read:
  assumes ok: "ibuf_ok ib" and n: "n < 2 ^ 64"
  shows "gets_bytes m ib n (\<lambda>bs. bs) (ibuf_read m ib (of_nat n))"
proof -
  have le: "unat (n_read ib) \<le> unat (ib_capacity ib)" and nz: "ib_b ib \<noteq> 0"
    and lt: "unat (ib_b ib) + unat (ib_capacity ib) < 2 ^ 64"
    using ok by (simp_all add: ibuf_ok_def word_le_nat_alt)
  have u: "unat (ib_b ib + n_read ib) = unat (ib_b ib) + unat (n_read ib)"
    using le lt by (subst unat_add_no_wrap) simp_all
  have "unat (ib_b ib) \<noteq> 0" using nz by (simp add: unat_eq_zero)
  then have nn: "ib_b ib + n_read ib \<noteq> 0" using u by (metis add_is_0 unat_0)
  have "take n (ibuf_bytes m ib) = load_bytes m (ib_b ib + n_read ib) n" if "n \<le> length (ibuf_bytes m ib)"
    using that unfolding ibuf_bytes_def by (simp add: take_load_bytes)
  then show ?thesis
    using nn ibuf_check_iff [OF ok n, of m] unat_of_nat_64 [OF n]
    by (simp add: gets_bytes_def ibuf_read_def ibuf_oob_drain_def not_le)
qed

subsection \<open>Sequences of values\<close>

text \<open>A message: values in the formats the buffers know, and raw bytes.\<close>

datatype item =
    Be8 u8
  | Be16 u16
  | Be32 u32
  | Be64 u64
  | Le8 u8
  | Le16 u16
  | Le32 u32
  | Le64 u64
  | N8 u8
  | N16 u16
  | N32 u32
  | N64 u64
  | Raw "u8 list"

fun item_bytes :: "item \<Rightarrow> u8 list" where
  "item_bytes (Be8 v) = rev (le_bytes 1 v)"
| "item_bytes (Be16 v) = rev (le_bytes 2 v)"
| "item_bytes (Be32 v) = rev (le_bytes 4 v)"
| "item_bytes (Be64 v) = rev (le_bytes 8 v)"
| "item_bytes (Le8 v) = le_bytes 1 v"
| "item_bytes (Le16 v) = le_bytes 2 v"
| "item_bytes (Le32 v) = le_bytes 4 v"
| "item_bytes (Le64 v) = le_bytes 8 v"
| "item_bytes (N8 v) = le_bytes 1 v"
| "item_bytes (N16 v) = le_bytes 2 v"
| "item_bytes (N32 v) = le_bytes 4 v"
| "item_bytes (N64 v) = le_bytes 8 v"
| "item_bytes (Raw bs) = bs"

fun write_item :: "memory \<Rightarrow> obuf \<Rightarrow> item \<Rightarrow> bool \<times> memory \<times> obuf" where
  "write_item m ob (Be8 v) = obuf_write_be8 m ob v"
| "write_item m ob (Be16 v) = obuf_write_be16 m ob v"
| "write_item m ob (Be32 v) = obuf_write_be32 m ob v"
| "write_item m ob (Be64 v) = obuf_write_be64 m ob v"
| "write_item m ob (Le8 v) = obuf_write_le8 m ob v"
| "write_item m ob (Le16 v) = obuf_write_le16 m ob v"
| "write_item m ob (Le32 v) = obuf_write_le32 m ob v"
| "write_item m ob (Le64 v) = obuf_write_le64 m ob v"
| "write_item m ob (N8 v) = obuf_write_n8 m ob v"
| "write_item m ob (N16 v) = obuf_write_n16 m ob v"
| "write_item m ob (N32 v) = obuf_write_n32 m ob v"
| "write_item m ob (N64 v) = obuf_write_n64 m ob v"
| "write_item m ob (Raw bs) = obuf_write m ob bs"

text \<open>Reading a value of the format of a given item, and what the bytes of the format mean.\<close>

fun read_item :: "memory \<Rightarrow> ibuf \<Rightarrow> item \<Rightarrow> item option \<times> ibuf" where
  "read_item m ib (Be8 _) = map_prod (map_option Be8) id (ibuf_read_be8 m ib)"
| "read_item m ib (Be16 _) = map_prod (map_option Be16) id (ibuf_read_be16 m ib)"
| "read_item m ib (Be32 _) = map_prod (map_option Be32) id (ibuf_read_be32 m ib)"
| "read_item m ib (Be64 _) = map_prod (map_option Be64) id (ibuf_read_be64 m ib)"
| "read_item m ib (Le8 _) = map_prod (map_option Le8) id (ibuf_read_le8 m ib)"
| "read_item m ib (Le16 _) = map_prod (map_option Le16) id (ibuf_read_le16 m ib)"
| "read_item m ib (Le32 _) = map_prod (map_option Le32) id (ibuf_read_le32 m ib)"
| "read_item m ib (Le64 _) = map_prod (map_option Le64) id (ibuf_read_le64 m ib)"
| "read_item m ib (N8 _) = map_prod (map_option N8) id (ibuf_read_n8 m ib)"
| "read_item m ib (N16 _) = map_prod (map_option N16) id (ibuf_read_n16 m ib)"
| "read_item m ib (N32 _) = map_prod (map_option N32) id (ibuf_read_n32 m ib)"
| "read_item m ib (N64 _) = map_prod (map_option N64) id (ibuf_read_n64 m ib)"
| "read_item m ib (Raw bs) = map_prod (map_option Raw) id (ibuf_read m ib (of_nat (length bs)))"

fun item_value :: "item \<Rightarrow> u8 list \<Rightarrow> item" where
  "item_value (Be8 _) bs = Be8 (le_value (rev bs))"
| "item_value (Be16 _) bs = Be16 (le_value (rev bs))"
| "item_value (Be32 _) bs = Be32 (le_value (rev bs))"
| "item_value (Be64 _) bs = Be64 (le_value (rev bs))"
| "item_value (Le8 _) bs = Le8 (le_value bs)"
| "item_value (Le16 _) bs = Le16 (le_value bs)"
| "item_value (Le32 _) bs = Le32 (le_value bs)"
| "item_value (Le64 _) bs = Le64 (le_value bs)"
| "item_value (N8 _) bs = N8 (le_value bs)"
| "item_value (N16 _) bs = N16 (le_value bs)"
| "item_value (N32 _) bs = N32 (le_value bs)"
| "item_value (N64 _) bs = N64 (le_value bs)"
| "item_value (Raw _) bs = Raw bs"

definition item_ok :: "item \<Rightarrow> bool" where
  "item_ok it \<longleftrightarrow> length (item_bytes it) < 2 ^ 64"

lemma item_value_bytes: "item_value it (item_bytes it) = it"
  by (cases it) (simp_all add: le_value_full del: le_bytes.simps)

lemma format_writes:
  assumes ok: "obuf_ok ob"
  shows "puts_bytes m ob (rev (le_bytes 1 v8)) (obuf_write_be8 m ob v8)"
    and "puts_bytes m ob (rev (le_bytes 2 v16)) (obuf_write_be16 m ob v16)"
    and "puts_bytes m ob (rev (le_bytes 4 v32)) (obuf_write_be32 m ob v32)"
    and "puts_bytes m ob (rev (le_bytes 8 v64)) (obuf_write_be64 m ob v64)"
    and "puts_bytes m ob (le_bytes 1 v8) (obuf_write_le8 m ob v8)"
    and "puts_bytes m ob (le_bytes 2 v16) (obuf_write_le16 m ob v16)"
    and "puts_bytes m ob (le_bytes 4 v32) (obuf_write_le32 m ob v32)"
    and "puts_bytes m ob (le_bytes 8 v64) (obuf_write_le64 m ob v64)"
  unfolding obuf_write_defs Let_def
  using be8.writes [OF ok, of m]
    be16.writes [OF ok, of m]
    be32.writes [OF ok, of m]
    be64.writes [OF ok, of m]
    le8.writes [OF ok, of m]
    le16.writes [OF ok, of m]
    le32.writes [OF ok, of m]
    le64.writes [OF ok, of m]
  by (simp_all only: of_nat_1 of_nat_numeral)

lemma native_writes:
  assumes ok: "obuf_ok ob"
  shows "puts_bytes m ob (le_bytes 1 v8) (obuf_write_n8 m ob v8)"
    and "puts_bytes m ob (le_bytes 2 v16) (obuf_write_n16 m ob v16)"
    and "puts_bytes m ob (le_bytes 4 v32) (obuf_write_n32 m ob v32)"
    and "puts_bytes m ob (le_bytes 8 v64) (obuf_write_n64 m ob v64)"
  unfolding obuf_write_n8_def obuf_write_n16_def obuf_write_n32_def obuf_write_n64_def
  by (rule raw_write [OF ok], simp del: le_bytes.simps)+

lemma write_item_puts:
  assumes ok: "obuf_ok ob" and it: "item_ok it"
  shows "puts_bytes m ob (item_bytes it) (write_item m ob it)"
  using it by (cases it) (simp_all only: item_bytes.simps write_item.simps item_ok_def
      format_writes [OF ok] native_writes [OF ok] raw_write [OF ok])

lemma gets_map:
  "gets_bytes m ib n dec r \<Longrightarrow> gets_bytes m ib n (\<lambda>bs. f (dec bs)) (map_prod (map_option f) id r)"
  by (auto simp: gets_bytes_def split: if_splits)

lemma format_reads:
  assumes ok: "ibuf_ok ib"
  shows "gets_bytes m ib 1 (\<lambda>bs. le_value (rev bs)) (ibuf_read_be8 m ib)"
    and "gets_bytes m ib 2 (\<lambda>bs. le_value (rev bs)) (ibuf_read_be16 m ib)"
    and "gets_bytes m ib 4 (\<lambda>bs. le_value (rev bs)) (ibuf_read_be32 m ib)"
    and "gets_bytes m ib 8 (\<lambda>bs. le_value (rev bs)) (ibuf_read_be64 m ib)"
    and "gets_bytes m ib 1 le_value (ibuf_read_le8 m ib)"
    and "gets_bytes m ib 2 le_value (ibuf_read_le16 m ib)"
    and "gets_bytes m ib 4 le_value (ibuf_read_le32 m ib)"
    and "gets_bytes m ib 8 le_value (ibuf_read_le64 m ib)"
  unfolding ibuf_read_defs Let_def
  using be8.reads [OF ok, of m]
    be16.reads [OF ok, of m]
    be32.reads [OF ok, of m]
    be64.reads [OF ok, of m]
    le8.reads [OF ok, of m]
    le16.reads [OF ok, of m]
    le32.reads [OF ok, of m]
    le64.reads [OF ok, of m]
  by (simp_all only: of_nat_1 of_nat_numeral)

lemma native_reads:
  assumes ok: "ibuf_ok ib"
  shows "gets_bytes m ib 1 le_value (ibuf_read_n8 m ib)"
    and "gets_bytes m ib 2 le_value (ibuf_read_n16 m ib)"
    and "gets_bytes m ib 4 le_value (ibuf_read_n32 m ib)"
    and "gets_bytes m ib 8 le_value (ibuf_read_n64 m ib)"
  using gets_map [OF raw_read [OF ok, of 1 m], of le_value]
    gets_map [OF raw_read [OF ok, of 2 m], of le_value]
    gets_map [OF raw_read [OF ok, of 4 m], of le_value]
    gets_map [OF raw_read [OF ok, of 8 m], of le_value]
  by (simp_all add: ibuf_read_n8_def ibuf_read_n16_def ibuf_read_n32_def ibuf_read_n64_def map_prod_def)

lemma item_value_fun:
  "item_value (Be8 v8) = (\<lambda>bs. Be8 (le_value (rev bs)))"
  "item_value (Be16 v16) = (\<lambda>bs. Be16 (le_value (rev bs)))"
  "item_value (Be32 v32) = (\<lambda>bs. Be32 (le_value (rev bs)))"
  "item_value (Be64 v64) = (\<lambda>bs. Be64 (le_value (rev bs)))"
  "item_value (Le8 v8) = (\<lambda>bs. Le8 (le_value bs))"
  "item_value (Le16 v16) = (\<lambda>bs. Le16 (le_value bs))"
  "item_value (Le32 v32) = (\<lambda>bs. Le32 (le_value bs))"
  "item_value (Le64 v64) = (\<lambda>bs. Le64 (le_value bs))"
  "item_value (N8 v8) = (\<lambda>bs. N8 (le_value bs))"
  "item_value (N16 v16) = (\<lambda>bs. N16 (le_value bs))"
  "item_value (N32 v32) = (\<lambda>bs. N32 (le_value bs))"
  "item_value (N64 v64) = (\<lambda>bs. N64 (le_value bs))"
  "item_value (Raw xs) = Raw"
  by (rule ext, simp only: item_value.simps)+

lemma read_item_gets:
  assumes ok: "ibuf_ok ib" and it: "item_ok it"
  shows "gets_bytes m ib (length (item_bytes it)) (item_value it) (read_item m ib it)"
proof (cases it)
  case (Be8 v)
  with gets_map [OF format_reads(1) [OF ok, of m], of Be8] show ?thesis by (simp add: item_value_fun del: le_bytes.simps)
next
  case (Be16 v)
  with gets_map [OF format_reads(2) [OF ok, of m], of Be16] show ?thesis by (simp add: item_value_fun del: le_bytes.simps)
next
  case (Be32 v)
  with gets_map [OF format_reads(3) [OF ok, of m], of Be32] show ?thesis by (simp add: item_value_fun del: le_bytes.simps)
next
  case (Be64 v)
  with gets_map [OF format_reads(4) [OF ok, of m], of Be64] show ?thesis by (simp add: item_value_fun del: le_bytes.simps)
next
  case (Le8 v)
  with gets_map [OF format_reads(5) [OF ok, of m], of Le8] show ?thesis by (simp add: item_value_fun del: le_bytes.simps)
next
  case (Le16 v)
  with gets_map [OF format_reads(6) [OF ok, of m], of Le16] show ?thesis by (simp add: item_value_fun del: le_bytes.simps)
next
  case (Le32 v)
  with gets_map [OF format_reads(7) [OF ok, of m], of Le32] show ?thesis by (simp add: item_value_fun del: le_bytes.simps)
next
  case (Le64 v)
  with gets_map [OF format_reads(8) [OF ok, of m], of Le64] show ?thesis by (simp add: item_value_fun del: le_bytes.simps)
next
  case (N8 v)
  with gets_map [OF native_reads(1) [OF ok, of m], of N8] show ?thesis by (simp add: item_value_fun del: le_bytes.simps)
next
  case (N16 v)
  with gets_map [OF native_reads(2) [OF ok, of m], of N16] show ?thesis by (simp add: item_value_fun del: le_bytes.simps)
next
  case (N32 v)
  with gets_map [OF native_reads(3) [OF ok, of m], of N32] show ?thesis by (simp add: item_value_fun del: le_bytes.simps)
next
  case (N64 v)
  with gets_map [OF native_reads(4) [OF ok, of m], of N64] show ?thesis by (simp add: item_value_fun del: le_bytes.simps)
next
  case (Raw bs)
  with gets_map [OF raw_read [OF ok, of "length bs" m], of Raw] it show ?thesis by (simp add: item_ok_def item_value_fun)
qed

subsection \<open>Messages\<close>

fun write_items :: "memory \<Rightarrow> obuf \<Rightarrow> item list \<Rightarrow> bool \<times> memory \<times> obuf" where
  "write_items m ob [] = (True, m, ob)"
| "write_items m ob (it # its) =
     (case write_item m ob it of
        (ok, m', ob') \<Rightarrow> if ok then write_items m' ob' its else (False, m', ob'))"

fun read_items :: "memory \<Rightarrow> ibuf \<Rightarrow> item list \<Rightarrow> item list option \<times> ibuf" where
  "read_items m ib [] = (Some [], ib)"
| "read_items m ib (it # its) =
     (case read_item m ib it of
        (None, ib') \<Rightarrow> (None, ib')
      | (Some x, ib') \<Rightarrow> map_prod (map_option (\<lambda>xs. x # xs)) id (read_items m ib' its))"

definition items_bytes :: "item list \<Rightarrow> u8 list" where
  "items_bytes its = concat (map item_bytes its)"

definition in_window :: "addr \<Rightarrow> size_t \<Rightarrow> addr \<Rightarrow> bool" where
  "in_window b n x \<longleftrightarrow> unat (x - b) < unat n"

lemma obuf_room_le: "obuf_ok ob \<Longrightarrow> k \<le> obuf_room ob \<Longrightarrow> unat (n_written ob) + k \<le> unat (ob_capacity ob)"
proof -
  assume "obuf_ok ob" "k \<le> obuf_room ob"
  then have "unat (n_written ob) \<le> unat (ob_capacity ob)" "k \<le> unat (ob_capacity ob) - unat (n_written ob)"
    by (simp_all add: obuf_ok_def obuf_room_def word_le_nat_alt)
  then show ?thesis by linarith
qed

lemma ibuf_room_le: "ibuf_ok ib \<Longrightarrow> k \<le> length (ibuf_bytes m ib) \<Longrightarrow> unat (n_read ib) + k \<le> unat (ib_capacity ib)"
proof -
  assume "ibuf_ok ib" "k \<le> length (ibuf_bytes m ib)"
  then have "unat (n_read ib) \<le> unat (ib_capacity ib)" "k \<le> unat (ib_capacity ib) - unat (n_read ib)"
    by (simp_all add: ibuf_ok_def length_ibuf_bytes word_le_nat_alt)
  then show ?thesis by linarith
qed

lemma obuf_room_64: "obuf_room ob < 2 ^ 64"
  unfolding obuf_room_def using le_less_trans [OF diff_le_self unat_lt_64, of "ob_capacity ob"] by simp

lemma obuf_ok_advance:
  assumes "obuf_ok ob" "k \<le> obuf_room ob"
  shows "obuf_ok (ob\<lparr>n_written := n_written ob + of_nat k\<rparr>)"
    and "unat (n_written ob + of_nat k) = unat (n_written ob) + k"
    and "obuf_room (ob\<lparr>n_written := n_written ob + of_nat k\<rparr>) = obuf_room ob - k"
proof -
  have c: "unat (n_written ob) + k \<le> unat (ob_capacity ob)"
    by (rule obuf_room_le [OF assms])
  then have k: "unat (n_written ob) + k < 2 ^ 64" using unat_lt_64 [of "ob_capacity ob"] by simp
  then have uk: "unat (of_nat k :: size_t) = k" by (intro unat_of_nat_64) linarith
  show u: "unat (n_written ob + of_nat k) = unat (n_written ob) + k"
    using k by (subst unat_add_no_wrap) (simp_all add: uk)
  with c assms(1) show "obuf_ok (ob\<lparr>n_written := n_written ob + of_nat k\<rparr>)"
    by (simp add: obuf_ok_def word_le_nat_alt)
  show "obuf_room (ob\<lparr>n_written := n_written ob + of_nat k\<rparr>) = obuf_room ob - k"
    using u by (simp add: obuf_room_def)
qed

lemma store_in_window:
  assumes "obuf_ok ob" "length bs \<le> obuf_room ob" "store_bytes m (ob_b ob + n_written ob) bs x \<noteq> m x"
  shows "in_window (ob_b ob) (ob_capacity ob) x"
proof -
  let ?o = "n_written ob"
  have d: "unat (x - (ob_b ob + ?o)) < length bs" using assms(3) by (auto simp: store_bytes_def split: if_splits)
  have c: "unat ?o + length bs \<le> unat (ob_capacity ob)"
    by (rule obuf_room_le [OF assms(1,2)])
  have "x - ob_b ob = (x - (ob_b ob + ?o)) + ?o" by simp
  moreover have "unat ((x - (ob_b ob + ?o)) + ?o) = unat (x - (ob_b ob + ?o)) + unat ?o"
    using d c unat_lt_64 [of "ob_capacity ob"] by (intro unat_add_no_wrap) simp
  ultimately show ?thesis using d c unfolding in_window_def by simp
qed

lemma write_items_facts:
  assumes "obuf_ok ob" "\<forall>it\<in>set its. item_ok it"
  shows "if length (items_bytes its) \<le> obuf_room ob
    then write_items m ob its = (True, store_bytes m (ob_b ob + n_written ob) (items_bytes its),
      ob\<lparr>n_written := n_written ob + of_nat (length (items_bytes its))\<rparr>)
    else \<exists>m' ob'. write_items m ob its = (False, m', ob') \<and> obuf_ok ob' \<and>
      (\<forall>x. m' x \<noteq> m x \<longrightarrow> in_window (ob_b ob) (ob_capacity ob) x)"
  using assms
proof (induction its arbitrary: m ob)
  case Nil
  then show ?case by (simp add: items_bytes_def)
next
  case (Cons it its)
  let ?bs = "item_bytes it" and ?rest = "items_bytes its"
  have it: "item_ok it" using Cons.prems by simp
  have all: "items_bytes (it # its) = ?bs @ ?rest" by (simp add: items_bytes_def)
  note w = write_item_puts [OF Cons.prems(1) it, of m]
  show ?case
  proof (cases "length ?bs \<le> obuf_room ob")
    case False
    with w have "write_item m ob it = (False, m, ob)" by (simp add: puts_bytes_def)
    with False Cons.prems(1) show ?thesis by (simp add: all)
  next
    case True
    let ?m = "store_bytes m (ob_b ob + n_written ob) ?bs"
    let ?ob = "ob\<lparr>n_written := n_written ob + of_nat (length ?bs)\<rparr>"
    note A = obuf_ok_advance [OF Cons.prems(1) True]
    have step: "write_items m ob (it # its) = write_items ?m ?ob its"
      using w True by (simp add: puts_bytes_def not_less)
    note IH = Cons.IH [OF A(1), of ?m, unfolded A(3)]
    have room: "length (items_bytes (it # its)) \<le> obuf_room ob \<longleftrightarrow> length ?rest \<le> obuf_room ob - length ?bs"
      using True by (simp add: all) linarith
    show ?thesis
    proof (cases "length ?rest \<le> obuf_room ob - length ?bs")
      case fits: True
      have le: "length ?bs + length ?rest \<le> 2 ^ 64" using True fits obuf_room_64 [of ob] by linarith
      have st: "store_bytes ?m (ob_b ?ob + n_written ?ob) ?rest = store_bytes m (ob_b ob + n_written ob) (?bs @ ?rest)"
        using store_bytes_append [OF le, of m "ob_b ob + n_written ob"] by (simp add: add.assoc)
      have "write_items ?m ?ob its = (True, store_bytes ?m (ob_b ?ob + n_written ?ob) ?rest,
          ?ob\<lparr>n_written := n_written ?ob + of_nat (length ?rest)\<rparr>)"
        using IH Cons.prems(2) fits by simp
      then show ?thesis
        unfolding step room st using fits by (simp add: all add.assoc)
    next
      case no: False
      then obtain m' ob' where r: "write_items ?m ?ob its = (False, m', ob')" "obuf_ok ob'"
        "\<forall>x. m' x \<noteq> ?m x \<longrightarrow> in_window (ob_b ob) (ob_capacity ob) x"
        using IH Cons.prems(2) by auto
      have "in_window (ob_b ob) (ob_capacity ob) x" if "m' x \<noteq> m x" for x
        using that r(3) store_in_window [OF Cons.prems(1) True, of m x] by metis
      then show ?thesis
        unfolding step room using no r by simp
    qed
  qed
qed

lemma ibuf_advance:
  assumes "ibuf_ok ib" "k \<le> length (ibuf_bytes m ib)"
  shows "ibuf_ok (ib\<lparr>n_read := n_read ib + of_nat k\<rparr>)"
    and "ibuf_bytes m (ib\<lparr>n_read := n_read ib + of_nat k\<rparr>) = drop k (ibuf_bytes m ib)"
proof -
  have c: "unat (n_read ib) + k \<le> unat (ib_capacity ib)"
    by (rule ibuf_room_le [OF assms])
  then have k: "unat (n_read ib) + k < 2 ^ 64" using unat_lt_64 [of "ib_capacity ib"] by simp
  then have uk: "unat (of_nat k :: size_t) = k" by (intro unat_of_nat_64) linarith
  have u: "unat (n_read ib + of_nat k) = unat (n_read ib) + k"
    using k by (subst unat_add_no_wrap) (simp_all add: uk)
  with c assms(1) show "ibuf_ok (ib\<lparr>n_read := n_read ib + of_nat k\<rparr>)"
    by (simp add: ibuf_ok_def word_le_nat_alt)
  have "unat (ib_capacity ib) - unat (n_read ib) = k + (unat (ib_capacity ib) - unat (n_read ib + of_nat k))"
    using u c by linarith
  then show "ibuf_bytes m (ib\<lparr>n_read := n_read ib + of_nat k\<rparr>) = drop k (ibuf_bytes m ib)"
    unfolding ibuf_bytes_def by (simp add: load_bytes_append add.assoc)
qed

lemma read_items_facts:
  assumes "ibuf_ok ib" "\<forall>it\<in>set its. item_ok it" "ibuf_bytes m ib = items_bytes its @ rest"
  shows "\<exists>ib'. read_items m ib its = (Some its, ib') \<and> ibuf_ok ib' \<and> ibuf_bytes m ib' = rest"
  using assms
proof (induction its arbitrary: ib)
  case Nil
  then show ?case by (simp add: items_bytes_def)
next
  case (Cons it its)
  let ?bs = "item_bytes it"
  let ?ib = "ib\<lparr>n_read := n_read ib + of_nat (length ?bs)\<rparr>"
  have all: "ibuf_bytes m ib = ?bs @ items_bytes its @ rest" using Cons.prems(3) by (simp add: items_bytes_def)
  have le: "length ?bs \<le> length (ibuf_bytes m ib)" by (simp add: all)
  have "read_item m ib it = (Some it, ?ib)"
    using read_item_gets [OF Cons.prems(1), of it m] Cons.prems(2) by (simp add: gets_bytes_def all item_value_bytes)
  moreover obtain ib' where "read_items m ?ib its = (Some its, ib')" "ibuf_ok ib'" "ibuf_bytes m ib' = rest"
    using Cons.IH [OF ibuf_advance(1) [OF Cons.prems(1) le]] Cons.prems(2) ibuf_advance(2) [OF Cons.prems(1) le]
    by (auto simp: all)
  ultimately show ?case by simp
qed

subsection \<open>Windows of a buffer\<close>

lemma window_in_capacity:
  fixes off sz cap :: u64
  shows "(off + sz < off \<or> off + sz < sz \<or> cap < off + sz) \<longleftrightarrow> \<not> unat off + unat sz \<le> unat cap"
proof (cases "unat off + unat sz < 2 ^ 64")
  case True
  then have "unat (off + sz) = unat off + unat sz" by (intro unat_add_no_wrap) simp
  then show ?thesis by (auto simp: word_less_nat_alt)
next
  case False
  obtain a b where e: "unat off = a" "unat sz = b" by blast
  have "a < 2 ^ 64" "b < 2 ^ 64" using unat_lt_64 [of off] unat_lt_64 [of sz] e by simp_all
  moreover from this have "unat (off + sz) = a + b - 2 ^ 64"
    using False e by (simp add: unat_plus_if')
  ultimately have "off + sz < off" using False e unfolding word_less_nat_alt by simp
  moreover have "\<not> unat off + unat sz \<le> unat cap" using False unat_lt_64 [of cap] by simp
  ultimately show ?thesis by simp
qed

lemma remaining_wraps:
  fixes off sz n :: u64
  assumes "unat off + unat sz < unat n"
  shows "unat (n - off) = unat n - unat off" "unat (sz - (n - off)) = 2 ^ 64 - (unat n - unat off - unat sz)"
proof -
  show nw: "unat (n - off) = unat n - unat off" using assms by (simp add: unat_sub_if')
  obtain a b c where e: "unat off = a" "unat sz = b" "unat n = c" by blast
  have "a + b < c" "c < 2 ^ 64" using assms e unat_lt_64 [of n] by simp_all
  then have "b + 2 ^ 64 - (c - a) = 2 ^ 64 - (c - a - b)" "\<not> c - a \<le> b" by linarith+
  then show "unat (sz - (n - off)) = 2 ^ 64 - (unat n - unat off - unat sz)"
    unfolding unat_sub_if' [of sz] nw e by simp
qed

lemma splice_eq:
  "obuf_splice src off sz =
    (if unat off + unat sz \<le> unat (ob_capacity src)
     then Some \<lparr>ob_b = ob_b src + off, n_written = (if off < n_written src then n_written src - off else 0), ob_capacity = sz\<rparr>
     else None)"
  unfolding obuf_splice_def Let_def window_in_capacity by (simp add: obuf_init_def obuf_nr_written_def)

lemma isplice_eq:
  "ibuf_splice src off sz =
    (if unat off + unat sz \<le> unat (ib_capacity src)
     then Some \<lparr>ib_b = ib_b src + off, n_read = (if off < n_read src then n_read src - off else 0), ib_capacity = sz\<rparr>
     else None)"
  unfolding ibuf_splice_def Let_def window_in_capacity by (simp add: ibuf_init_def ibuf_nr_read_def)

text \<open>A window that does not lie wholly behind the write cursor.\<close>

lemma splice_facts:
  assumes ok: "obuf_ok src" and dst: "obuf_splice src off sz = Some dst"
    and cur: "unat (n_written src) \<le> unat off + unat sz"
  shows "obuf_ok dst" "obuf_bytes m dst = drop (unat off) (obuf_bytes m src)"
    "in_window (ob_b dst) (ob_capacity dst) x \<Longrightarrow>
       unat off \<le> unat (x - ob_b src) \<and> unat (x - ob_b src) < unat off + unat sz"
proof -
  have fit: "unat off + unat sz \<le> unat (ob_capacity src)"
    and d: "dst = \<lparr>ob_b = ob_b src + off, n_written = (if off < n_written src then n_written src - off else 0), ob_capacity = sz\<rparr>"
    using dst by (simp_all add: splice_eq split: if_splits)
  have b: "ob_b src \<noteq> 0" "unat (ob_b src) + unat (ob_capacity src) < 2 ^ 64" using ok by (simp_all add: obuf_ok_def)
  then have ub: "unat (ob_b src + off) = unat (ob_b src) + unat off"
    using fit by (intro unat_add_no_wrap) simp
  moreover have "unat (ob_b src) \<noteq> 0" using b(1) by (simp add: unat_eq_zero)
  ultimately have nz: "ob_b src + off \<noteq> 0" by (metis add_is_0 unat_0)
  have nw: "unat (if off < n_written src then n_written src - off else 0) = unat (n_written src) - unat off"
    by (simp add: word_less_nat_alt unat_sub_if')
  show "obuf_ok dst"
    using nz ub b(2) fit cur nw by (simp add: d obuf_ok_def word_le_nat_alt)
  show "obuf_bytes m dst = drop (unat off) (obuf_bytes m src)"
  proof (cases "unat off \<le> unat (n_written src)")
    case True
    then have "unat (n_written src) = unat off + (unat (n_written src) - unat off)" by linarith
    then have "obuf_bytes m src = load_bytes m (ob_b src) (unat off) @
        load_bytes m (ob_b src + of_nat (unat off)) (unat (n_written src) - unat off)"
      unfolding obuf_bytes_def by (metis load_bytes_append)
    then show ?thesis unfolding obuf_bytes_def [of m dst] by (simp add: d nw)
  next
    case False
    then show ?thesis unfolding obuf_bytes_def by (simp add: d nw)
  qed
  assume w: "in_window (ob_b dst) (ob_capacity dst) x"
  have "x - ob_b src = (x - (ob_b src + off)) + off" by simp
  moreover have "unat ((x - (ob_b src + off)) + off) = unat (x - (ob_b src + off)) + unat off"
    using w fit unat_lt_64 [of "ob_capacity src"] by (intro unat_add_no_wrap) (simp add: in_window_def d)
  ultimately show "unat off \<le> unat (x - ob_b src) \<and> unat (x - ob_b src) < unat off + unat sz"
    using w by (simp add: in_window_def d)
qed

lemma behind_cursor:
  assumes ok: "obuf_ok src" and beh: "unat off + unat sz < unat (n_written src)"
  obtains dst where "obuf_splice src off sz = Some dst" "ob_b dst + n_written dst = ob_b src + n_written src"
    "ob_capacity dst = sz" "ob_b dst = ob_b src + off" "unat (n_written dst) = unat (n_written src) - unat off"
    "unat (obuf_remaining dst) = 2 ^ 64 - (unat (n_written src) - unat off - unat sz)"
proof -
  have "unat (n_written src) \<le> unat (ob_capacity src)" using ok by (simp add: obuf_ok_def word_le_nat_alt)
  with beh have fit: "unat off + unat sz \<le> unat (ob_capacity src)" by linarith
  have lt: "off < n_written src" using beh by (simp add: word_less_nat_alt)
  note W = remaining_wraps [OF beh]
  show ?thesis
    by (rule that [of "\<lparr>ob_b = ob_b src + off, n_written = n_written src - off, ob_capacity = sz\<rparr>"])
      (use fit lt W in \<open>simp_all add: splice_eq obuf_remaining_def obuf_nr_written_def\<close>)
qed

lemma ibehind_cursor:
  assumes ok: "ibuf_ok src" and beh: "unat off + unat sz < unat (n_read src)"
  obtains dst where "ibuf_splice src off sz = Some dst" "ib_b dst + n_read dst = ib_b src + n_read src"
    "ib_capacity dst = sz" "unat (ibuf_remaining dst) = 2 ^ 64 - (unat (n_read src) - unat off - unat sz)"
proof -
  have "unat (n_read src) \<le> unat (ib_capacity src)" using ok by (simp add: ibuf_ok_def word_le_nat_alt)
  with beh have fit: "unat off + unat sz \<le> unat (ib_capacity src)" by linarith
  have lt: "off < n_read src" using beh by (simp add: word_less_nat_alt)
  note W = remaining_wraps [OF beh]
  show ?thesis
    by (rule that [of "\<lparr>ib_b = ib_b src + off, n_read = n_read src - off, ib_capacity = sz\<rparr>"])
      (use fit lt W in \<open>simp_all add: isplice_eq ibuf_remaining_def ibuf_nr_read_def\<close>)
qed

subsection \<open>Properties\<close>

text \<open>C38: a message written to a fresh buffer reads back. The write succeeds exactly if the bytes of all
  values fit, and then the buffer holds their concatenation in the byte order of each, and reading the
  same formats from it yields the values and uses it up. Whether it succeeds or not, no byte outside the
  buffer changes.\<close>

theorem iobuf_roundtrip:
  assumes "b \<noteq> 0" "unat b + unat cap < 2 ^ 64" "\<forall>it\<in>set its. item_ok it"
    and "write_items m (obuf_init b cap) its = (ok, m', ob')"
  shows "(ok \<longleftrightarrow> length (items_bytes its) \<le> unat cap) \<and>
    (\<forall>x. m' x \<noteq> m x \<longrightarrow> in_window b cap x) \<and>
    (ok \<longrightarrow> obuf_bytes m' ob' = items_bytes its \<and>
      (\<exists>ib'. read_items m' (ibuf_from_obuf ob') its = (Some its, ib') \<and> ibuf_remaining ib' = 0))"
proof -
  let ?ob = "obuf_init b cap" and ?bs = "items_bytes its"
  have ob: "obuf_ok ?ob" "obuf_room ?ob = unat cap" "ob_b ?ob = b" "n_written ?ob = 0" "ob_capacity ?ob = cap"
    using assms(1,2) by (simp_all add: obuf_ok_def obuf_init_def obuf_room_def)
  note W = write_items_facts [OF ob(1) assms(3), of m, unfolded ob assms(4)]
  show ?thesis
  proof (cases "length ?bs \<le> unat cap")
    case True
    with W have r: "ok" "m' = store_bytes m b ?bs" "ob' = ?ob\<lparr>n_written := of_nat (length ?bs)\<rparr>" by simp_all
    have n: "length ?bs < 2 ^ 64" using True unat_lt_64 [of cap] by simp
    have u: "unat (of_nat (length ?bs) :: size_t) = length ?bs" by (rule unat_of_nat_64 [OF n])
    have l: "load_bytes m' b (length ?bs) = ?bs" unfolding r(2) using n by (intro load_store_same) simp
    have ob': "obuf_bytes m' ob' = ?bs" using l u by (simp add: obuf_bytes_def r(3) obuf_init_def)
    have ib: "ibuf_ok (ibuf_from_obuf ob')" "ibuf_bytes m' (ibuf_from_obuf ob') = ?bs @ []"
      using assms(1,2) True u l
      by (simp_all add: ibuf_from_obuf_def ibuf_init_def r(3) obuf_init_def ibuf_ok_def ibuf_bytes_def)
    obtain ib' where i: "read_items m' (ibuf_from_obuf ob') its = (Some its, ib')" "ibuf_ok ib'" "ibuf_bytes m' ib' = []"
      using read_items_facts [OF ib(1) assms(3) ib(2)] by blast
    have "unat (ib_capacity ib' - n_read ib') = length (ibuf_bytes m' ib')"
      using i(2) by (simp add: length_ibuf_bytes ibuf_ok_def unat_sub)
    then have "ibuf_remaining ib' = 0" by (simp add: i(3) ibuf_remaining_def ibuf_nr_read_def unat_eq_zero)
    moreover have "in_window b cap x" if "m' x \<noteq> m x" for x
      using store_in_window [OF ob(1), of ?bs m x, unfolded ob] True that unfolding r(2) by simp
    ultimately show ?thesis using r(1) True ob' i(1) by blast
  next
    case False
    with W show ?thesis by auto
  qed
qed

lemma le_bytes_cases:
  "le_bytes 1 x = [ucast x]" "le_bytes 2 x = [ucast x, ucast (drop_bit 8 x)]"
  "le_bytes 4 x = [ucast x, ucast (drop_bit 8 x), ucast (drop_bit 16 x), ucast (drop_bit 24 x)]"
  by (simp_all add: numeral_eq_Suc)

theorem iobuf_roundtrip_witness:
  "\<exists>m' ob' ib'. write_items (\<lambda>_. 0) (obuf_init 0x1000 16) [Be16 0x8001, Le32 0x12345678, Raw [7, 8]] = (True, m', ob') \<and>
    obuf_bytes m' ob' = [0x80, 1, 0x78, 0x56, 0x34, 0x12, 7, 8] \<and>
    read_items m' (ibuf_from_obuf ob') [Be16 0x8001, Le32 0x12345678, Raw [7, 8]] =
      (Some [Be16 0x8001, Le32 0x12345678, Raw [7, 8]], ib')"
proof -
  let ?its = "[Be16 0x8001, Le32 0x12345678, Raw [7, 8]]"
  obtain ok m' ob' where w: "write_items (\<lambda>_. 0) (obuf_init 0x1000 16) ?its = (ok, m', ob')" by (metis prod_cases3)
  have b: "items_bytes ?its = [0x80, 1, 0x78, 0x56, 0x34, 0x12, 7, 8]"
    by (simp add: items_bytes_def le_bytes_cases)
  show ?thesis
    using iobuf_roundtrip [OF _ _ _ w] w b by (auto simp: item_ok_def)
qed

text \<open>A window confines its writers. A splice that does not lie wholly behind the cursor is a
  well-formed buffer that holds what the source had written there, and nothing written through it
  changes a byte outside the window.\<close>

theorem obuf_splice_confines:
  assumes "obuf_ok src" "obuf_splice src off sz = Some dst" "unat (n_written src) \<le> unat off + unat sz"
    and "\<forall>it\<in>set its. item_ok it" "write_items m dst its = (ok, m', dst')"
  shows "obuf_ok dst \<and> obuf_bytes m dst = drop (unat off) (obuf_bytes m src) \<and>
    (\<forall>x. m' x \<noteq> m x \<longrightarrow> unat off \<le> unat (x - ob_b src) \<and> unat (x - ob_b src) < unat off + unat sz)"
proof -
  note S = splice_facts [OF assms(1-3)]
  note W = write_items_facts [OF S(1) assms(4), of m, unfolded assms(5)]
  have "in_window (ob_b dst) (ob_capacity dst) x" if "m' x \<noteq> m x" for x
    using W store_in_window [OF S(1), of "items_bytes its" m x] that by (auto split: if_splits)
  with S show ?thesis by blast
qed

text \<open>A window wholly behind the cursor confines nothing. The splice succeeds with more bytes
  written than it can hold, the bytes remaining wrap around to nearly \<open>2 ^ 64\<close>, and the next write is
  accepted: it goes to the cursor of the source, outside the window, and when the source is full outside
  the buffer altogether. Input buffers have the same flaw.\<close>

theorem iobuf_splice_behind_cursor:
  assumes "obuf_ok src" "unat off + unat sz < unat (n_written src)"
    and "ibuf_ok isrc" "unat off + unat sz < unat (n_read isrc)"
  shows "\<exists>dst idst ob' ib'. obuf_splice src off sz = Some dst \<and> ibuf_splice isrc off sz = Some idst \<and>
    obuf_write_be8 m dst v = (True, m(ob_b src + n_written src := v), ob') \<and>
    \<not> in_window (ob_b dst) (ob_capacity dst) (ob_b src + n_written src) \<and>
    (n_written src = ob_capacity src \<longrightarrow> \<not> in_window (ob_b src) (ob_capacity src) (ob_b src + n_written src)) \<and>
    ibuf_read_be8 m idst = (Some (m (ib_b isrc + n_read isrc)), ib')"
proof -
  obtain dst where d: "obuf_splice src off sz = Some dst" "ob_b dst + n_written dst = ob_b src + n_written src"
    "ob_capacity dst = sz" "ob_b dst = ob_b src + off" "unat (n_written dst) = unat (n_written src) - unat off"
    "unat (obuf_remaining dst) = 2 ^ 64 - (unat (n_written src) - unat off - unat sz)"
    using behind_cursor [OF assms(1,2)] .
  obtain idst where i: "ibuf_splice isrc off sz = Some idst" "ib_b idst + n_read idst = ib_b isrc + n_read isrc"
    "ib_capacity idst = sz" "unat (ibuf_remaining idst) = 2 ^ 64 - (unat (n_read isrc) - unat off - unat sz)"
    using ibehind_cursor [OF assms(3,4)] .
  have c: "obuf_check_size dst 1" "ibuf_check_size idst 1"
    using d(6) i(4) unat_lt_64 [of "n_written src"] unat_lt_64 [of "n_read isrc"]
    by (simp_all add: obuf_check_size_def ibuf_check_size_def word_less_nat_alt)
  have w: "obuf_write_be8 m dst v = (True, m(ob_b src + n_written src := v), dst\<lparr>n_written := n_written dst + 1\<rparr>)"
    using c(1) d(2) by (simp add: obuf_write_be8_def Let_def store_bytes_single)
  have r: "ibuf_read_be8 m idst = (Some (m (ib_b isrc + n_read isrc)), idst\<lparr>n_read := n_read idst + 1\<rparr>)"
    using c(2) i(2) by (simp add: ibuf_read_be8_def Let_def load_bytes_def)
  have "ob_b src + n_written src - ob_b dst = n_written dst" using d(2) by (metis add_diff_cancel_left')
  then have "\<not> in_window (ob_b dst) (ob_capacity dst) (ob_b src + n_written src)"
    using d(3,5) assms(2) by (simp add: in_window_def)
  moreover have "n_written src = ob_capacity src \<longrightarrow> \<not> in_window (ob_b src) (ob_capacity src) (ob_b src + n_written src)"
    by (simp add: in_window_def)
  ultimately show ?thesis using d(1) i(1) w r by blast
qed

end
