(* ===== verification/Timer.thy ===== *)
theory Timer
  imports Prelude "HOL-Library.Multiset" "HOL-Library.Signed_Division"
begin

text \<open>
  Timers, \<^verbatim>\<open>src/lib/timer_queue.c\<close>, \<^verbatim>\<open>src/include/timer.h\<close> and \<^verbatim>\<open>src/lib/timer.c\<close>: the queue of pending
  callbacks, a binary min-heap of pointers in an array of 64 slots, and the stopwatch with the loops that
  wait on it. Callback structures live in a store indexed by their address. What \<^verbatim>\<open>timer_monotonic_get\<close>
  delivers is an argument: one reading for a queue operation, a sequence of readings for a stopwatch.
\<close>

unbundle bit_operations_syntax

subsection \<open>Times\<close>

datatype mono_time = Mono_time (microseconds: u64)

definition mono_time_set_usecs :: "u64 \<Rightarrow> mono_time" where "mono_time_set_usecs us = Mono_time us"
definition mono_time_set_msecs :: "u64 \<Rightarrow> mono_time" where "mono_time_set_msecs ms = Mono_time (ms * 1000)"
definition mono_time_add_usecs :: "mono_time \<Rightarrow> u64 \<Rightarrow> mono_time" where
  "mono_time_add_usecs mt us = Mono_time (microseconds mt + us)"
definition mono_time_add_msecs :: "mono_time \<Rightarrow> u64 \<Rightarrow> mono_time" where
  "mono_time_add_msecs mt ms = mono_time_add_usecs mt (ms * 1000)"

definition mono_time_cmp :: "mono_time \<Rightarrow> mono_time \<Rightarrow> int" where
  "mono_time_cmp t1 t2 =
     (if microseconds t1 = microseconds t2 then 0
      else if microseconds t1 < microseconds t2 then -1
      else 1)"

definition mono_time_after :: "mono_time \<Rightarrow> mono_time \<Rightarrow> bool" where
  "mono_time_after t1 t2 \<longleftrightarrow> mono_time_cmp t1 t2 > 0"
definition mono_time_before :: "mono_time \<Rightarrow> mono_time \<Rightarrow> bool" where
  "mono_time_before t1 t2 \<longleftrightarrow> mono_time_cmp t1 t2 < 0"

text \<open>The difference is signed: its value as an \<^verbatim>\<open>int64_t\<close> is its \<open>sint\<close>.\<close>

definition mono_time_diff_microseconds :: "mono_time \<Rightarrow> mono_time \<Rightarrow> u64" where
  "mono_time_diff_microseconds t1 t2 = microseconds t2 - microseconds t1"

instantiation mono_time :: linorder
begin

definition less_eq_mono_time :: "mono_time \<Rightarrow> mono_time \<Rightarrow> bool" where
  "less_eq_mono_time a b \<longleftrightarrow> microseconds a \<le> microseconds b"
definition less_mono_time :: "mono_time \<Rightarrow> mono_time \<Rightarrow> bool" where
  "less_mono_time a b \<longleftrightarrow> microseconds a < microseconds b"

instance
  by standard (auto simp: less_eq_mono_time_def less_mono_time_def mono_time.expand)

end

lemma mono_time_cmp_order:
  "mono_time_cmp a b \<le> 0 \<longleftrightarrow> a \<le> b" "mono_time_cmp a b < 0 \<longleftrightarrow> a < b" "mono_time_cmp a b > 0 \<longleftrightarrow> b < a"
  "mono_time_before a b \<longleftrightarrow> a < b" "mono_time_after a b \<longleftrightarrow> b < a"
  by (auto simp: mono_time_cmp_def mono_time_before_def mono_time_after_def less_eq_mono_time_def less_mono_time_def)

subsection \<open>The queue\<close>

definition MAX_TIMER_QUEUE_ENTRIES :: nat where "MAX_TIMER_QUEUE_ENTRIES = 64"

record timeout_callback =
  priv :: addr
  callback :: addr
  expiration :: mono_time

record timer_queue =
  num_entries :: nat
  max_entries :: nat
  queue :: "addr list"

type_synonym callbacks = "addr \<Rightarrow> timeout_callback"

definition global_timer_queue_init :: timer_queue where
  "global_timer_queue_init =
     \<lparr>num_entries = 0, max_entries = MAX_TIMER_QUEUE_ENTRIES, queue = replicate MAX_TIMER_QUEUE_ENTRIES 0\<rparr>"

definition timer_queue_empty :: "timer_queue \<Rightarrow> bool" where "timer_queue_empty tq \<longleftrightarrow> num_entries tq = 0"
definition timer_queue_full :: "timer_queue \<Rightarrow> bool" where "timer_queue_full tq \<longleftrightarrow> num_entries tq = max_entries tq"

definition timer_queue_head :: "timer_queue \<Rightarrow> addr option" where
  "timer_queue_head tq = (if timer_queue_empty tq then None else Some (queue tq ! 0))"

text \<open>The loop that moves a new entry up: \<open>index\<close> holds \<open>tocb\<close>.\<close>

fun bubble_up :: "callbacks \<Rightarrow> addr list \<Rightarrow> nat \<Rightarrow> addr \<Rightarrow> addr list" where
  "bubble_up cb q index tocb =
     (if index = 0 then q
      else let parent_index = (index - 1) div 2;
               parent = q ! parent_index
           in if mono_time_cmp (expiration (cb parent)) (expiration (cb tocb)) \<le> 0 then q
              else bubble_up cb (q[parent_index := tocb, index := parent]) parent_index tocb)"

declare bubble_up.simps [simp del]

definition timer_queue_insert :: "callbacks \<Rightarrow> timer_queue \<Rightarrow> addr \<Rightarrow> timer_queue option" where
  "timer_queue_insert cb tq tocb =
     (if timer_queue_full tq then None
      else let index = num_entries tq
           in Some (tq\<lparr>num_entries := num_entries tq + 1,
                queue := bubble_up cb ((queue tq)[index := tocb]) index tocb\<rparr>))"

text \<open>\<open>None\<close> stands for \<open>-1\<close>.\<close>

definition timer_queue_min_child_index :: "callbacks \<Rightarrow> nat \<Rightarrow> addr list \<Rightarrow> nat \<Rightarrow> nat option" where
  "timer_queue_min_child_index cb n q index =
     (let left_child_index = 2 * index + 1
      in if left_child_index \<ge> n then None
         else let right_child_index = left_child_index + 1
              in if right_child_index \<ge> n then Some left_child_index
                 else if mono_time_cmp (expiration (cb (q ! left_child_index)))
                           (expiration (cb (q ! right_child_index))) < 0
                      then Some left_child_index
                      else Some right_child_index)"

lemma min_child_bounds:
  "timer_queue_min_child_index cb n q i = Some c \<Longrightarrow> i < c \<and> c < n \<and> (c - 1) div 2 = i"
  by (auto simp: timer_queue_min_child_index_def Let_def split: if_splits)

text \<open>The loop that moves the last entry down from the head.\<close>

function bubble_down :: "callbacks \<Rightarrow> nat \<Rightarrow> addr list \<Rightarrow> nat \<Rightarrow> addr \<Rightarrow> addr list" where
  "bubble_down cb n q index tocb =
     (case timer_queue_min_child_index cb n q index of
        None \<Rightarrow> q
      | Some min_child_index \<Rightarrow>
          let child = q ! min_child_index
          in if mono_time_cmp (expiration (cb tocb)) (expiration (cb child)) \<le> 0 then q
             else bubble_down cb n (q[min_child_index := tocb, index := child]) min_child_index tocb)"
  by pat_completeness auto
termination
  by (relation "measure (\<lambda>(cb, n, q, i, t). n - i)") (auto dest: min_child_bounds)

declare bubble_down.simps [simp del]

definition timer_queue_remove_head :: "callbacks \<Rightarrow> timer_queue \<Rightarrow> timer_queue" where
  "timer_queue_remove_head cb tq =
     (let n = num_entries tq - 1;
          tocb = queue tq ! n
      in tq\<lparr>num_entries := n, queue := bubble_down cb n ((queue tq)[0 := tocb]) 0 tocb\<rparr>)"

definition timer_queue_expired :: "callbacks \<Rightarrow> timer_queue \<Rightarrow> mono_time \<Rightarrow> addr option \<times> timer_queue" where
  "timer_queue_expired cb tq current_time =
     (case timer_queue_head tq of
        None \<Rightarrow> (None, tq)
      | Some tocb \<Rightarrow>
          if mono_time_before current_time (expiration (cb tocb)) then (None, tq)
          else (Some tocb, timer_queue_remove_head cb tq))"

subsection \<open>The interface of the library\<close>

record timer_state =
  callbacks :: callbacks
  global_timer_queue :: timer_queue

definition timer_sched_callback ::
  "'z timer_state_scheme \<Rightarrow> addr \<Rightarrow> u64 \<Rightarrow> mono_time \<Rightarrow> bool \<times> 'z timer_state_scheme" where
  "timer_sched_callback st tocb us current_time =
     (if us <s 0 then (False, st)
      else let e = mono_time_add_usecs current_time us;
               st1 = st\<lparr>callbacks := (callbacks st)(tocb := (callbacks st tocb)\<lparr>expiration := e\<rparr>)\<rparr>
           in if us \<noteq> 0 \<and> \<not> mono_time_before current_time e then (False, st1)
              else (case timer_queue_insert (callbacks st1) (global_timer_queue st1) tocb of
                      None \<Rightarrow> (False, st1)
                    | Some tq \<Rightarrow> (True, st1\<lparr>global_timer_queue := tq\<rparr>)))"

text \<open>\<open>run\<close> is what a callback does, given its function pointer and its structure; the boolean is the result.\<close>

definition timers_run :: "(addr \<Rightarrow> addr \<Rightarrow> 'z timer_state_scheme \<Rightarrow> 'z timer_state_scheme) \<Rightarrow>
     'z timer_state_scheme \<Rightarrow> mono_time \<Rightarrow> bool \<times> 'z timer_state_scheme" where
  "timers_run run st current_time =
     (case timer_queue_expired (callbacks st) (global_timer_queue st) current_time of
        (tocb, tq) \<Rightarrow>
          let st1 = st\<lparr>global_timer_queue := tq\<rparr>;
              st2 = (case tocb of None \<Rightarrow> st1 | Some t \<Rightarrow> run (callback (callbacks st1 t)) t st1)
          in (\<not> timer_queue_empty (global_timer_queue st2), st2))"

subsection \<open>Priority queues\<close>

text \<open>Take elements off the head as long as they are due, at most \<open>n\<close> of them.\<close>

fun drain :: "('q \<Rightarrow> 'a option) \<Rightarrow> ('q \<Rightarrow> 'q) \<Rightarrow> ('a \<Rightarrow> bool) \<Rightarrow> nat \<Rightarrow> 'q \<Rightarrow> 'a list \<times> 'q" where
  "drain hd1 rm due 0 q = ([], q)"
| "drain hd1 rm due (Suc n) q =
     (case hd1 q of
        None \<Rightarrow> ([], q)
      | Some x \<Rightarrow> if due x then map_prod ((#) x) id (drain hd1 rm due n (rm q)) else ([], q))"

text \<open>
  What the timers rely on: \<open>pending\<close> is the multiset the queue stands for, and the head has the least
  key.
\<close>

locale priority_queue =
  fixes ins :: "'q \<Rightarrow> 'a \<Rightarrow> 'q option"
    and front :: "'q \<Rightarrow> 'a option"
    and rm :: "'q \<Rightarrow> 'q"
    and ok :: "'q \<Rightarrow> bool"
    and pending :: "'q \<Rightarrow> 'a multiset"
    and key :: "'a \<Rightarrow> 'k::linorder"
    and capacity :: nat
  assumes front_None: "ok q \<Longrightarrow> front q = None \<longleftrightarrow> pending q = {#}"
    and front_Some: "ok q \<Longrightarrow> front q = Some x \<Longrightarrow> x \<in># pending q \<and> (\<forall>y\<in>#pending q. key x \<le> key y)"
    and rm_ok: "ok q \<Longrightarrow> front q = Some x \<Longrightarrow> ok (rm q) \<and> pending (rm q) = pending q - {#x#}"
    and ins_None: "ok q \<Longrightarrow> ins q x = None \<longleftrightarrow> size (pending q) = capacity"
    and ins_Some: "ok q \<Longrightarrow> ins q x = Some q' \<Longrightarrow> ok q' \<and> pending q' = add_mset x (pending q)"
begin

lemma ins_total: "ok q \<Longrightarrow> size (pending q) < capacity \<Longrightarrow>
    \<exists>q'. ins q x = Some q' \<and> ok q' \<and> pending q' = add_mset x (pending q)"
  using ins_None [of q x] ins_Some [of q x] by (cases "ins q x") auto

lemma filter_none: "(\<forall>y\<in>#M. \<not> P y) \<Longrightarrow> filter_mset P M = {#}"
  by (auto simp: filter_mset_eq_conv)

lemma filter_same: "(\<forall>y\<in>#M. P y) \<Longrightarrow> filter_mset P M = M"
  by (auto simp: filter_mset_eq_conv)

lemma drain_facts:
  "ok q \<Longrightarrow> size (pending q) \<le> n \<Longrightarrow> drain front rm (\<lambda>x. key x \<le> bound) n q = (xs, q') \<Longrightarrow>
   ok q' \<and> mset xs = filter_mset (\<lambda>x. key x \<le> bound) (pending q) \<and>
   pending q' = filter_mset (\<lambda>x. \<not> key x \<le> bound) (pending q) \<and> sorted (map key xs)"
proof (induction n arbitrary: q xs q')
  case 0
  then show ?case by simp
next
  case (Suc n)
  show ?case
  proof (cases "front q")
    case None
    with Suc.prems front_None [of q] show ?thesis by simp
  next
    case (Some x)
    note h = front_Some [OF Suc.prems(1) Some] and r = rm_ok [OF Suc.prems(1) Some]
    show ?thesis
    proof (cases "key x \<le> bound")
      case False
      with h have "\<forall>y\<in>#pending q. \<not> key y \<le> bound" by force
      then have "filter_mset (\<lambda>x. key x \<le> bound) (pending q) = {#}"
        "filter_mset (\<lambda>x. \<not> key x \<le> bound) (pending q) = pending q"
        by (simp_all add: filter_none filter_same)
      with False Some Suc.prems show ?thesis by auto
    next
      case True
      obtain ys where d: "drain front rm (\<lambda>x. key x \<le> bound) n (rm q) = (ys, q')" and xs: "xs = x # ys"
        using Suc.prems(3) Some True by (auto simp: map_prod_def split: prod.splits)
      have p: "pending q = add_mset x (pending (rm q))" using h r by simp
      have "size (pending (rm q)) \<le> n" using Suc.prems(2) by (simp add: p)
      note IH = Suc.IH [OF conjunct1 [OF r] this d]
      have "key x \<le> key y" if "y \<in> set ys" for y
      proof -
        have "y \<in># mset ys" using that by simp
        then have "y \<in># pending (rm q)" unfolding conjunct1 [OF conjunct2 [OF IH]] by simp
        then show ?thesis using h by (simp add: p)
      qed
      with IH True show ?thesis by (simp add: xs p)
    qed
  qed
qed

end

subsection \<open>The heap\<close>

abbreviation key_of :: "callbacks \<Rightarrow> addr \<Rightarrow> mono_time" where
  "key_of cb p \<equiv> expiration (cb p)"

definition above :: "callbacks \<Rightarrow> addr list \<Rightarrow> nat \<Rightarrow> bool" where
  "above cb q i \<longleftrightarrow> key_of cb (q ! ((i - 1) div 2)) \<le> key_of cb (q ! i)"

definition heap :: "callbacks \<Rightarrow> nat \<Rightarrow> addr list \<Rightarrow> bool" where
  "heap cb n q \<longleftrightarrow> (\<forall>i. 0 < i \<and> i < n \<longrightarrow> above cb q i)"

text \<open>A heap but for the edges above, or below, the entry at \<open>h\<close>, whose parent is below its children.\<close>

definition bridged :: "callbacks \<Rightarrow> nat \<Rightarrow> addr list \<Rightarrow> nat \<Rightarrow> bool" where
  "bridged cb n q h \<longleftrightarrow> (\<forall>i. 0 < i \<and> i < n \<and> (i - 1) div 2 = h \<and> 0 < h \<longrightarrow>
     key_of cb (q ! ((h - 1) div 2)) \<le> key_of cb (q ! i))"

definition heap_up :: "callbacks \<Rightarrow> nat \<Rightarrow> addr list \<Rightarrow> nat \<Rightarrow> bool" where
  "heap_up cb n q h \<longleftrightarrow> (\<forall>i. 0 < i \<and> i < n \<and> i \<noteq> h \<longrightarrow> above cb q i) \<and> bridged cb n q h"

definition heap_down :: "callbacks \<Rightarrow> nat \<Rightarrow> addr list \<Rightarrow> nat \<Rightarrow> bool" where
  "heap_down cb n q h \<longleftrightarrow> (\<forall>i. 0 < i \<and> i < n \<and> (i - 1) div 2 \<noteq> h \<longrightarrow> above cb q i) \<and> bridged cb n q h"

lemma mset_take_swap:
  assumes "i < n" "j < n" "n \<le> length q"
  shows "mset (take n (q[i := q ! j, j := q ! i])) = mset (take n q)"
proof -
  have e: "take n (q[i := q ! j, j := q ! i]) = (take n q)[i := take n q ! j, j := take n q ! i]"
    using assms by (simp add: take_update_swap)
  show ?thesis unfolding e using assms by (intro mset_swap) simp_all
qed

lemma bubble_up_facts:
  "heap_up cb n q i \<Longrightarrow> i < n \<Longrightarrow> n \<le> length q \<Longrightarrow> q ! i = t \<Longrightarrow>
   heap cb n (bubble_up cb q i t) \<and> mset (take n (bubble_up cb q i t)) = mset (take n q) \<and>
   length (bubble_up cb q i t) = length q"
proof (induction cb q i t rule: bubble_up.induct)
  case (1 cb q i t)
  let ?p = "(i - 1) div 2"
  show ?case
  proof (cases "i = 0 \<or> key_of cb (q ! ?p) \<le> key_of cb t")
    case True
    then have "bubble_up cb q i t = q"
      by (subst bubble_up.simps) (auto simp: Let_def mono_time_cmp_order)
    moreover have "heap cb n q"
      using True 1(2,5) unfolding heap_def heap_up_def above_def by (metis less_numeral_extra(3))
    ultimately show ?thesis by simp
  next
    case False
    let ?q = "q[?p := t, i := q ! ?p]"
    have lt: "key_of cb t < key_of cb (q ! ?p)" "0 < i" using False by auto
    have p: "?p < i" using lt(2) by (simp add: less_mult_imp_div_less) 
    have step: "bubble_up cb q i t = bubble_up cb ?q ?p t"
      using False by (subst bubble_up.simps) (simp add: Let_def mono_time_cmp_order)
    have len: "i < length q" "?p < length q" using 1(3,4) p by simp_all
    have nth: "?q ! j = (if j = i then q ! ?p else if j = ?p then t else q ! j)" for j
      using len p by (simp add: nth_list_update)
    have up: "heap_up cb n ?q ?p"
      unfolding heap_up_def
    proof (intro conjI allI impI)
      fix j assume j: "0 < j \<and> j < n \<and> j \<noteq> ?p"
      show "above cb ?q j"
      proof (cases "j = i")
        case True
        then show ?thesis using lt p unfolding above_def nth by simp
      next
        case ji: False
        then have a: "above cb q j" using 1(2) j by (simp add: heap_up_def)
        have b: "(j - 1) div 2 = i \<Longrightarrow> key_of cb (q ! ?p) \<le> key_of cb (q ! j)"
          using 1(2) j lt(2) by (simp add: heap_up_def bridged_def)
        show ?thesis using a b lt(1) j ji unfolding above_def nth by auto
      qed
    next
      have edge: "key_of cb (q ! ((?p - 1) div 2)) \<le> key_of cb (q ! ?p)" if "0 < ?p"
        using 1(2,3) that p unfolding heap_up_def above_def by simp
      show "bridged cb n ?q ?p"
        unfolding bridged_def
      proof (intro allI impI)
        fix j assume j: "0 < j \<and> j < n \<and> (j - 1) div 2 = ?p \<and> 0 < ?p"
        have "(?p - 1) div 2 < ?p" using j by linarith
        then have pp: "(?p - 1) div 2 \<noteq> ?p" "(?p - 1) div 2 \<noteq> i" using p by linarith+
        have "key_of cb (q ! ?p) \<le> key_of cb (q ! j)" if "j \<noteq> i"
          using 1(2) j that unfolding heap_up_def above_def by metis
        then show "key_of cb (?q ! ((?p - 1) div 2)) \<le> key_of cb (?q ! j)"
          using pp edge j unfolding nth by (auto intro: order.trans)
      qed
    qed
    have "mset (take n ?q) = mset (take n q)"
      using mset_take_swap [of ?p n i q] 1(3-5) p by simp
    with "1.IH" [of ?p "q ! ?p"] False up 1(3-5) p nth [of ?p] show ?thesis
      unfolding step by (simp add: mono_time_cmp_order)
  qed
qed

lemma min_child:
  assumes c: "timer_queue_min_child_index cb n q i = Some c" and j: "0 < j" "j < n" "(j - 1) div 2 = i"
  shows "key_of cb (q ! c) \<le> key_of cb (q ! j)"
proof -
  have "j = 2 * i + 1 \<or> j = 2 * i + 2" using j by linarith
  then show ?thesis
    using c j by (auto simp: timer_queue_min_child_index_def Let_def mono_time_cmp_order split: if_splits)
qed

lemma no_child: "timer_queue_min_child_index cb n q i = None \<Longrightarrow> 0 < j \<Longrightarrow> j < n \<Longrightarrow> (j - 1) div 2 \<noteq> i"
  by (auto simp: timer_queue_min_child_index_def Let_def split: if_splits)

lemma heap_down_done:
  assumes "heap_down cb n q i" "\<And>j. 0 < j \<Longrightarrow> j < n \<Longrightarrow> (j - 1) div 2 = i \<Longrightarrow> key_of cb (q ! i) \<le> key_of cb (q ! j)"
  shows "heap cb n q"
  using assms unfolding heap_def heap_down_def above_def by metis

lemma bubble_down_facts:
  "heap_down cb n q i \<Longrightarrow> i < n \<or> n = 0 \<Longrightarrow> n \<le> length q \<Longrightarrow> q ! i = t \<Longrightarrow>
   heap cb n (bubble_down cb n q i t) \<and> mset (take n (bubble_down cb n q i t)) = mset (take n q) \<and>
   length (bubble_down cb n q i t) = length q"
proof (induction cb n q i t rule: bubble_down.induct)
  case (1 cb n q i t)
  show ?case
  proof (cases "timer_queue_min_child_index cb n q i")
    case None
    then have "bubble_down cb n q i t = q" by (subst bubble_down.simps) simp
    moreover have "heap cb n q"
      by (rule heap_down_done [OF 1(2)]) (use no_child [OF None] in blast)
    ultimately show ?thesis by simp
  next
    case (Some c)
    note c = min_child_bounds [OF Some]
    show ?thesis
    proof (cases "key_of cb t \<le> key_of cb (q ! c)")
      case True
      then have "bubble_down cb n q i t = q"
        by (subst bubble_down.simps) (simp add: Some Let_def mono_time_cmp_order)
      moreover have "heap cb n q"
        by (rule heap_down_done [OF 1(2)]) (use min_child [OF Some] True 1(5) order.trans in blast)
      ultimately show ?thesis by simp
    next
      case False
      let ?q = "q[c := t, i := q ! c]"
      have lt: "key_of cb (q ! c) < key_of cb t" using False by simp
      have step: "bubble_down cb n q i t = bubble_down cb n ?q c t"
        using False by (subst bubble_down.simps) (simp add: Some Let_def mono_time_cmp_order)
      have len: "i < length q" "c < length q" using 1(4) c by simp_all
      have nth: "?q ! j = (if j = i then q ! c else if j = c then t else q ! j)" for j
        using len c by (simp add: nth_list_update)
      have down: "heap_down cb n ?q c"
        unfolding heap_down_def
      proof (intro conjI allI impI)
        fix j assume j: "0 < j \<and> j < n \<and> (j - 1) div 2 \<noteq> c"
        show "above cb ?q j"
        proof (cases "(j - 1) div 2 = i")
          case True
          have "j \<noteq> i" using True j by linarith
          then show ?thesis
            using True lt min_child [OF Some _ _ True] j unfolding above_def nth by auto
        next
          case ji: False
          then have a: "above cb q j" using 1(2) j by (simp add: heap_down_def)
          have b: "j = i \<Longrightarrow> key_of cb (q ! ((i - 1) div 2)) \<le> key_of cb (q ! c)"
            using 1(2) c j by (simp add: heap_down_def bridged_def)
          have "j \<noteq> c" using ji c by auto
          then show ?thesis using a b j ji unfolding above_def nth by auto
        qed
      next
        show "bridged cb n ?q c"
          unfolding bridged_def
        proof (intro allI impI)
          fix j assume j: "0 < j \<and> j < n \<and> (j - 1) div 2 = c \<and> 0 < c"
          have "c < j" using j by linarith
          moreover have "above cb q j" using 1(2) j c unfolding heap_down_def by simp
          ultimately show "key_of cb (?q ! ((c - 1) div 2)) \<le> key_of cb (?q ! j)"
            using j c unfolding nth above_def by auto
        qed
      qed
      have "mset (take n ?q) = mset (take n q)"
        using mset_take_swap [of c n i q] 1(4,5) c by simp
      with "1.IH" [OF Some refl] False down 1(4) c nth [of c] show ?thesis
        unfolding step by (simp add: mono_time_cmp_order)
    qed
  qed
qed

lemma heap_head: "heap cb n q \<Longrightarrow> i < n \<Longrightarrow> key_of cb (q ! 0) \<le> key_of cb (q ! i)"
proof (induction i rule: less_induct)
  case (less i)
  show ?case
  proof (cases "i = 0")
    case False
    then have "(i - 1) div 2 < i" by linarith
    with less have "key_of cb (q ! 0) \<le> key_of cb (q ! ((i - 1) div 2))" by simp
    also have "\<dots> \<le> key_of cb (q ! i)" using less.prems False unfolding heap_def above_def by simp
    finally show ?thesis .
  qed simp
qed

subsection \<open>The queue as a priority queue\<close>

definition tq_ok :: "callbacks \<Rightarrow> timer_queue \<Rightarrow> bool" where
  "tq_ok cb tq \<longleftrightarrow> num_entries tq \<le> MAX_TIMER_QUEUE_ENTRIES \<and> max_entries tq = MAX_TIMER_QUEUE_ENTRIES \<and>
     length (queue tq) = MAX_TIMER_QUEUE_ENTRIES \<and> heap cb (num_entries tq) (queue tq)"

definition pending :: "timer_queue \<Rightarrow> addr multiset" where
  "pending tq = mset (take (num_entries tq) (queue tq))"

lemma size_pending: "tq_ok cb tq \<Longrightarrow> size (pending tq) = num_entries tq"
  by (simp add: tq_ok_def pending_def)

lemma pending_mem: "tq_ok cb tq \<Longrightarrow> p \<in># pending tq \<longleftrightarrow> (\<exists>i<num_entries tq. queue tq ! i = p)"
  by (auto simp: tq_ok_def pending_def in_set_conv_nth)

lemma queue_insert_facts:
  assumes ok: "tq_ok cb tq" and ins: "timer_queue_insert cb tq p = Some tq'"
  shows "tq_ok cb tq' \<and> pending tq' = add_mset p (pending tq)"
proof -
  let ?n = "num_entries tq" and ?q = "(queue tq)[num_entries tq := p]"
  have n: "?n < length (queue tq)" "length (queue tq) = MAX_TIMER_QUEUE_ENTRIES"
    and tq': "tq' = tq\<lparr>num_entries := ?n + 1, queue := bubble_up cb ?q ?n p\<rparr>"
    using ok ins by (auto simp: timer_queue_insert_def timer_queue_full_def tq_ok_def Let_def split: if_splits)
  have nth: "?q ! i = (if i = ?n then p else queue tq ! i)" for i
    using n by (simp add: nth_list_update)
  have "heap_up cb (?n + 1) ?q ?n"
    unfolding heap_up_def
  proof (intro conjI allI impI)
    fix i assume i: "0 < i \<and> i < ?n + 1 \<and> i \<noteq> ?n"
    then have "(i - 1) div 2 < ?n" "i < ?n" by linarith+
    then show "above cb ?q i"
      using ok i unfolding above_def nth tq_ok_def heap_def by auto
  next
    show "bridged cb (?n + 1) ?q ?n" by (auto simp: bridged_def)
  qed
  from bubble_up_facts [OF this, of p] n
  have u: "heap cb (?n + 1) (queue tq')" "mset (take (?n + 1) (queue tq')) = mset (take (?n + 1) ?q)"
    "length (queue tq') = MAX_TIMER_QUEUE_ENTRIES"
    by (simp_all add: tq')
  have "take (?n + 1) ?q = take ?n (queue tq) @ [p]"
    using n by (simp add: take_Suc_conv_app_nth)
  with u(2) have "pending tq' = add_mset p (pending tq)" by (simp add: pending_def tq')
  moreover have "tq_ok cb tq'" using u(1,3) n ok by (simp add: tq_ok_def tq')
  ultimately show ?thesis by simp
qed

lemma queue_remove_facts:
  assumes ok: "tq_ok cb tq" and h: "timer_queue_head tq = Some p"
  shows "tq_ok cb (timer_queue_remove_head cb tq) \<and>
    pending (timer_queue_remove_head cb tq) = pending tq - {#p#}"
proof -
  define n where "n = num_entries tq - 1"
  let ?q = "(queue tq)[0 := queue tq ! n]"
  let ?tq = "timer_queue_remove_head cb tq"
  have n: "num_entries tq = Suc n" "p = queue tq ! 0" "Suc n \<le> length (queue tq)"
    "length (queue tq) = MAX_TIMER_QUEUE_ENTRIES"
    using h ok by (auto simp: timer_queue_head_def timer_queue_empty_def n_def tq_ok_def split: if_splits)
  have tq': "?tq = tq\<lparr>num_entries := n, queue := bubble_down cb n ?q 0 (queue tq ! n)\<rparr>"
    by (simp add: timer_queue_remove_head_def n_def Let_def)
  have "0 < length (queue tq)" using n(3) by linarith
  then have nth: "?q ! i = (if i = 0 then queue tq ! n else queue tq ! i)" for i
    by (simp add: nth_list_update)
  have "heap_down cb n ?q 0"
    unfolding heap_down_def
  proof (intro conjI allI impI)
    fix i assume i: "0 < i \<and> i < n \<and> (i - 1) div 2 \<noteq> 0"
    then show "above cb ?q i"
      using ok n(1) unfolding above_def nth tq_ok_def heap_def by auto
  qed (simp add: bridged_def)
  from bubble_down_facts [OF this, of "queue tq ! n"] nth [of 0] n(3)
  have d: "heap cb n (queue ?tq)" "mset (take n (queue ?tq)) = mset (take n ?q)"
    "length (queue ?tq) = length (queue tq)"
    by (auto simp: tq')
  have all: "take (Suc n) (queue tq) = take n (queue tq) @ [queue tq ! n]"
    using n(3) by (simp add: take_Suc_conv_app_nth)
  have "add_mset p (mset (take n ?q)) = mset (take (Suc n) (queue tq))"
  proof (cases n)
    case 0
    then show ?thesis using n(2) all by simp
  next
    case (Suc k)
    then have "take n ?q = (take n (queue tq))[0 := queue tq ! n]" by (simp add: take_update_swap)
    then have "mset (take n ?q) = add_mset (queue tq ! n) (mset (take n (queue tq)) - {#p#})"
      using Suc n(2,3) by (simp add: mset_update)
    moreover have "p \<in># mset (take n (queue tq))" using Suc n(2,3) by (auto simp: in_set_conv_nth)
    ultimately show ?thesis by (simp add: all)
  qed
  then have "pending ?tq = pending tq - {#p#}"
    using d(2) n(1) by (simp add: pending_def tq') (metis add_mset_remove_trivial)
  moreover have "tq_ok cb ?tq" using d(1,3) ok n by (simp add: tq_ok_def tq')
  ultimately show ?thesis by simp
qed

interpretation timers: priority_queue "timer_queue_insert cb" timer_queue_head "timer_queue_remove_head cb"
  "tq_ok cb" pending "key_of cb" MAX_TIMER_QUEUE_ENTRIES for cb
proof unfold_locales
  fix q x q' assume ok: "tq_ok cb q"
  show "timer_queue_head q = None \<longleftrightarrow> pending q = {#}"
    using size_pending [OF ok] by (auto simp: timer_queue_head_def timer_queue_empty_def)
  show "x \<in># pending q \<and> (\<forall>y\<in>#pending q. key_of cb x \<le> key_of cb y)" if "timer_queue_head q = Some x"
    using that ok heap_head [of cb "num_entries q" "queue q"]
    by (auto simp: timer_queue_head_def timer_queue_empty_def pending_mem [OF ok] tq_ok_def split: if_splits)
  show "tq_ok cb (timer_queue_remove_head cb q) \<and> pending (timer_queue_remove_head cb q) = pending q - {#x#}"
    if "timer_queue_head q = Some x"
    by (rule queue_remove_facts [OF ok that])
  show "timer_queue_insert cb q x = None \<longleftrightarrow> size (pending q) = MAX_TIMER_QUEUE_ENTRIES"
    using ok size_pending [OF ok] by (simp add: timer_queue_insert_def timer_queue_full_def tq_ok_def Let_def)
  show "tq_ok cb q' \<and> pending q' = add_mset x (pending q)" if "timer_queue_insert cb q x = Some q'"
    by (rule queue_insert_facts [OF ok that])
qed

lemma tq_ok_cong:
  assumes "tq_ok cb tq" "\<And>p. p \<in># pending tq \<Longrightarrow> key_of cb' p = key_of cb p"
  shows "tq_ok cb' tq"
proof -
  have "key_of cb' (queue tq ! i) = key_of cb (queue tq ! i)" if "i < num_entries tq" for i
    using assms(2) [of "queue tq ! i"] that pending_mem [OF assms(1)] by auto
  moreover have "(i - 1) div 2 < num_entries tq" if "i < num_entries tq" for i using that by linarith
  ultimately show ?thesis using assms(1) by (auto simp: tq_ok_def heap_def above_def)
qed

subsection \<open>Scheduling and running\<close>

definition timers_ok :: "'z timer_state_scheme \<Rightarrow> bool" where
  "timers_ok st \<longleftrightarrow> tq_ok (callbacks st) (global_timer_queue st)"

abbreviation pending_timers :: "'z timer_state_scheme \<Rightarrow> addr multiset" where
  "pending_timers st \<equiv> pending (global_timer_queue st)"

definition due_at :: "'z timer_state_scheme \<Rightarrow> addr \<Rightarrow> mono_time" where
  "due_at st p = expiration (callbacks st p)"

lemma expired_eq:
  "timer_queue_expired cb tq now =
    (case timer_queue_head tq of
       None \<Rightarrow> (None, tq)
     | Some p \<Rightarrow> if key_of cb p \<le> now then (Some p, timer_queue_remove_head cb tq) else (None, tq))"
  by (auto simp: timer_queue_expired_def mono_time_cmp_order split: option.splits)

lemma sless_zero_iff: "(us :: u64) <s 0 \<longleftrightarrow> \<not> unat us < 2 ^ 63"
proof -
  obtain n where n: "unat us = n" by blast
  then have lt: "n < 2 ^ 64" using unat_lt_64 [of us] by simp
  have us: "us = word_of_int (int n)" "us = word_of_int (int n - 2 ^ 64)" by (simp_all flip: n)
  show ?thesis
  proof (cases "n < 2 ^ 63")
    case True
    then have "sint us = int n" unfolding us(1) by (intro sint_of_int_u64) simp_all
    with True n show ?thesis by (simp add: word_sless_alt)
  next
    case False
    then have "sint us = int n - 2 ^ 64" unfolding us(2) using lt by (intro sint_of_int_u64) simp_all
    with False n lt show ?thesis by (simp add: word_sless_alt)
  qed
qed

lemma deadline_wraps:
  "us \<noteq> 0 \<and> \<not> mono_time_before now (mono_time_add_usecs now us) \<longleftrightarrow>
   \<not> unat (microseconds now) + unat us < 2 ^ 64"
proof -
  obtain a b where e: "unat (microseconds now) = a" "unat us = b" by blast
  have lt: "a < 2 ^ 64" "b < 2 ^ 64" using unat_lt_64 [of "microseconds now"] unat_lt_64 [of us] e by simp_all
  have z: "us = 0 \<longleftrightarrow> b = 0" using e(2) by (simp add: unat_eq_zero flip: e(2))
  have "unat (microseconds now + us) = (if a + b < 2 ^ 64 then a + b else a + b - 2 ^ 64)"
    by (simp add: unat_plus_if' e)
  then have "mono_time_before now (mono_time_add_usecs now us) \<longleftrightarrow> a < (if a + b < 2 ^ 64 then a + b else a + b - 2 ^ 64)"
    by (simp add: mono_time_cmp_order less_mono_time_def mono_time_add_usecs_def word_less_nat_alt e)
  with lt z show ?thesis unfolding e by auto
qed

lemma sched_facts:
  assumes ok: "timers_ok st" and new: "p \<notin># pending_timers st"
  shows "(if unat us < 2 ^ 63 \<and> unat (microseconds now) + unat us < 2 ^ 64 \<and>
      size (pending_timers st) < MAX_TIMER_QUEUE_ENTRIES
    then \<exists>st'. timer_sched_callback st p us now = (True, st') \<and> timers_ok st' \<and>
      pending_timers st' = add_mset p (pending_timers st) \<and>
      unat (microseconds (due_at st' p)) = unat (microseconds now) + unat us \<and>
      (\<forall>q. q \<noteq> p \<longrightarrow> callbacks st' q = callbacks st q)
    else \<exists>st'. timer_sched_callback st p us now = (False, st') \<and> timers_ok st' \<and>
      global_timer_queue st' = global_timer_queue st \<and> (\<forall>q. q \<noteq> p \<longrightarrow> callbacks st' q = callbacks st q))"
proof -
  let ?e = "mono_time_add_usecs now us"
  let ?cb = "(callbacks st)(p := (callbacks st p)\<lparr>expiration := ?e\<rparr>)"
  let ?st = "st\<lparr>callbacks := ?cb\<rparr>"
  have okp: "tq_ok ?cb (global_timer_queue st)"
    by (rule tq_ok_cong [OF ok [unfolded timers_ok_def]]) (use new in auto)
  note I = timers.ins_total [OF okp, of p] and N = timers.ins_None [OF okp, of p]
  have same: "timers_ok st" "\<not> us <s 0 \<Longrightarrow> timers_ok ?st" using ok okp by (simp_all add: timers_ok_def)
  have d: "unat (microseconds ?e) = unat (microseconds now) + unat us"
    if "unat (microseconds now) + unat us < 2 ^ 64"
    using that by (simp add: mono_time_add_usecs_def unat_add_no_wrap)
  show ?thesis
  proof (cases "unat us < 2 ^ 63 \<and> unat (microseconds now) + unat us < 2 ^ 64")
    case False
    then have "timer_sched_callback st p us now = (False, if us <s 0 then st else ?st)"
      using sless_zero_iff [of us] deadline_wraps [of us now] by (simp add: timer_sched_callback_def Let_def)
    with False same show ?thesis by auto
  next
    case True
    note step = sless_zero_iff [of us] deadline_wraps [of us now]
    show ?thesis
    proof (cases "size (pending_timers st) < MAX_TIMER_QUEUE_ENTRIES")
      case room: True
      then obtain tq' where t: "timer_queue_insert ?cb (global_timer_queue st) p = Some tq'" "tq_ok ?cb tq'"
        "pending tq' = add_mset p (pending_timers st)" using I by auto
      then have "timer_sched_callback st p us now = (True, ?st\<lparr>global_timer_queue := tq'\<rparr>)"
        using True step by (simp add: timer_sched_callback_def Let_def)
      with True room t d show ?thesis by (simp add: timers_ok_def due_at_def)
    next
      case full: False
      have "size (pending_timers st) \<le> MAX_TIMER_QUEUE_ENTRIES"
        using size_pending [OF okp] okp by (simp add: tq_ok_def)
      with full N have "timer_queue_insert ?cb (global_timer_queue st) p = None" by simp
      then have "timer_sched_callback st p us now = (False, ?st)"
        using True step by (simp add: timer_sched_callback_def Let_def)
      with full okp show ?thesis by (simp add: timers_ok_def)
    qed
  qed
qed

lemma run_facts:
  assumes ok: "timers_ok st"
  shows "timers_run run st now =
      (case timer_queue_head (global_timer_queue st) of
         None \<Rightarrow> (False, st)
       | Some p \<Rightarrow>
           if due_at st p \<le> now
           then (let st' = run (callback (callbacks st p)) p
                   (st\<lparr>global_timer_queue := timer_queue_remove_head (callbacks st) (global_timer_queue st)\<rparr>)
                 in (\<not> timer_queue_empty (global_timer_queue st'), st'))
           else (True, st))"
  by (auto simp: timers_run_def expired_eq due_at_def Let_def timer_queue_head_def split: option.splits)

text \<open>Callbacks that only note that they ran, and the loop of a caller that polls the timers at one time.\<close>

record logged_state = timer_state +
  fired :: "addr list"

definition log_run :: "addr \<Rightarrow> addr \<Rightarrow> logged_state \<Rightarrow> logged_state" where
  "log_run fn p st = st\<lparr>fired := fired st @ [p]\<rparr>"

fun poll :: "nat \<Rightarrow> logged_state \<Rightarrow> mono_time \<Rightarrow> logged_state" where
  "poll 0 st now = st"
| "poll (Suc n) st now = poll n (snd (timers_run log_run st now)) now"

lemma poll_drain:
  "timers_ok st \<Longrightarrow>
   drain timer_queue_head (timer_queue_remove_head (callbacks st)) (\<lambda>p. due_at st p \<le> now) n (global_timer_queue st) = (xs, tq) \<Longrightarrow>
   poll n st now = st\<lparr>global_timer_queue := tq, fired := fired st @ xs\<rparr>"
proof (induction n arbitrary: st xs)
  case (Suc n)
  show ?case
  proof (cases "timer_queue_head (global_timer_queue st)")
    case None
    have stuck: "poll k st now = st" for k
      by (induction k) (simp_all add: run_facts [OF Suc.prems(1)] None)
    have "xs = []" "tq = global_timer_queue st" using Suc.prems(2) None by simp_all
    then show ?thesis unfolding stuck by simp
  next
    case (Some p)
    show ?thesis
    proof (cases "due_at st p \<le> now")
      case False
      have stuck: "poll k st now = st" for k
        by (induction k) (simp_all add: run_facts [OF Suc.prems(1)] Some False)
      have "xs = []" "tq = global_timer_queue st" using Suc.prems(2) Some False by simp_all
      then show ?thesis unfolding stuck by simp
    next
      case True
      let ?tq = "timer_queue_remove_head (callbacks st) (global_timer_queue st)"
      let ?st = "st\<lparr>global_timer_queue := ?tq, fired := fired st @ [p]\<rparr>"
      have step: "snd (timers_run log_run st now) = ?st"
        by (simp add: run_facts [OF Suc.prems(1)] Some True log_run_def Let_def)
      have ok: "timers_ok ?st"
        using queue_remove_facts [OF Suc.prems(1) [unfolded timers_ok_def] Some] by (simp add: timers_ok_def)
      obtain ys where ys: "xs = p # ys"
        "drain timer_queue_head (timer_queue_remove_head (callbacks ?st)) (\<lambda>p. due_at ?st p \<le> now) n
           (global_timer_queue ?st) = (ys, tq)"
        using Suc.prems(2) Some True by (auto simp: due_at_def map_prod_def split: prod.splits)
      show ?thesis
        using Suc.IH [OF ok ys(2)] by (simp add: step ys(1))
    qed
  qed
qed simp

subsection \<open>Stopwatches\<close>

text \<open>\<open>have\<close> is the build option \<^verbatim>\<open>HAVE_MONOTONIC_TIMER\<close>; \<open>t\<close> is what the next reading of the timer delivers.\<close>

record stopwatch =
  start :: mono_time
  current :: mono_time
  expires :: mono_time

definition stopwatch_init :: "bool \<Rightarrow> mono_time \<Rightarrow> stopwatch" where
  "stopwatch_init have_timer t =
     (let s = (if have_timer then t else Mono_time 0) in \<lparr>start = s, current = s, expires = s\<rparr>)"

definition stopwatch_init_usecs_expire :: "bool \<Rightarrow> mono_time \<Rightarrow> u64 \<Rightarrow> stopwatch" where
  "stopwatch_init_usecs_expire have_timer t us =
     (let sw = stopwatch_init have_timer t in sw\<lparr>expires := mono_time_add_usecs (expires sw) us\<rparr>)"

definition stopwatch_init_msecs_expire :: "bool \<Rightarrow> mono_time \<Rightarrow> u64 \<Rightarrow> stopwatch" where
  "stopwatch_init_msecs_expire have_timer t ms = stopwatch_init_usecs_expire have_timer t (1000 * ms)"

definition stopwatch_tick :: "bool \<Rightarrow> mono_time \<Rightarrow> stopwatch \<Rightarrow> stopwatch" where
  "stopwatch_tick have_timer t sw = sw\<lparr>current := (if have_timer then t else Mono_time 0)\<rparr>"

definition stopwatch_expired :: "bool \<Rightarrow> mono_time \<Rightarrow> stopwatch \<Rightarrow> bool \<times> stopwatch" where
  "stopwatch_expired have_timer t sw =
     (let sw' = stopwatch_tick have_timer t sw in (\<not> mono_time_before (current sw') (expires sw'), sw'))"

definition stopwatch_duration_usecs :: "bool \<Rightarrow> mono_time \<Rightarrow> stopwatch \<Rightarrow> u64 \<times> stopwatch" where
  "stopwatch_duration_usecs have_timer t sw =
     (let sw' = (if mono_time_cmp (start sw) (current sw) = 0 then stopwatch_tick have_timer t sw else sw)
      in (mono_time_diff_microseconds (start sw') (current sw'), sw'))"

definition stopwatch_duration_msecs :: "bool \<Rightarrow> mono_time \<Rightarrow> stopwatch \<Rightarrow> u64 \<times> stopwatch" where
  "stopwatch_duration_msecs have_timer t sw =
     map_prod (\<lambda>d. word_of_int (sint d sdiv 1000)) id (stopwatch_duration_usecs have_timer t sw)"

text \<open>
  The loops: the timer is read as \<open>clock 0\<close>, \<open>clock 1\<close> and so on, the condition of \<^verbatim>\<open>wait_us\<close> is \<open>cond 0\<close>,
  \<open>cond 1\<close> and so on when it is evaluated. A loop that never ends is \<open>None\<close>.
\<close>

partial_function (option) stopwatch_wait_until_expired ::
    "bool \<Rightarrow> (nat \<Rightarrow> mono_time) \<Rightarrow> nat \<Rightarrow> stopwatch \<Rightarrow> (nat \<times> stopwatch) option" where
  "stopwatch_wait_until_expired have_timer clock k sw =
     (case stopwatch_expired have_timer (clock k) sw of
        (over, sw') \<Rightarrow> if over then Some (Suc k, sw')
                   else stopwatch_wait_until_expired have_timer clock (Suc k) sw')"

partial_function (option) wait_us_loop ::
    "bool \<Rightarrow> (nat \<Rightarrow> mono_time) \<Rightarrow> (nat \<Rightarrow> bool) \<Rightarrow> nat \<Rightarrow> nat \<Rightarrow> stopwatch \<Rightarrow> u64 option" where
  "wait_us_loop have_timer clock cond k c sw =
     (if cond c then
        (let sw' = stopwatch_tick have_timer (clock k) sw;
             ret = fst (stopwatch_duration_usecs have_timer (clock (Suc k)) sw')
         in Some (if ret = 0 then 1 else ret))
      else (case stopwatch_expired have_timer (clock k) sw of
              (over, sw') \<Rightarrow> if over then Some 0 else wait_us_loop have_timer clock cond (Suc k) (Suc c) sw'))"

definition wait_us :: "bool \<Rightarrow> (nat \<Rightarrow> mono_time) \<Rightarrow> (nat \<Rightarrow> bool) \<Rightarrow> u64 \<Rightarrow> u64 option" where
  "wait_us have_timer clock cond timeout_us =
     wait_us_loop have_timer clock cond 1 0 (stopwatch_init_usecs_expire have_timer (clock 0) timeout_us)"

text \<open>
  \<open>yields\<close> says whether \<^verbatim>\<open>thread_yield_microseconds\<close> took the wait over; the result is the number of
  readings the wait needed.
\<close>

definition udelay :: "bool \<Rightarrow> (u32 \<Rightarrow> bool) \<Rightarrow> (nat \<Rightarrow> mono_time) \<Rightarrow> u32 \<Rightarrow> nat option" where
  "udelay have_timer yields clock usec0 =
     (let usec = usec0 + 1
      in if yields usec then Some 0
         else map_option fst (stopwatch_wait_until_expired have_timer clock 1
                (stopwatch_init_usecs_expire have_timer (clock 0) (ucast usec))))"

lemma wait_until_facts:
  assumes "\<forall>j<n. clock (k + j) < expires sw" "expires sw \<le> clock (k + n)"
  shows "stopwatch_wait_until_expired True clock k sw = Some (Suc (k + n), sw\<lparr>current := clock (k + n)\<rparr>)"
  using assms
proof (induction n arbitrary: k sw)
  case 0
  then show ?case
    by (subst stopwatch_wait_until_expired.simps)
      (simp add: stopwatch_expired_def stopwatch_tick_def Let_def mono_time_cmp_order not_less)
next
  case (Suc n)
  have "clock (k + 0) < expires sw" using Suc.prems(1) by blast
  moreover have "\<forall>j<n. clock (Suc k + j) < expires sw" using Suc.prems(1) by auto
  ultimately show ?case
    using Suc.IH [of "Suc k" "sw\<lparr>current := clock k\<rparr>"] Suc.prems(2)
    by (subst stopwatch_wait_until_expired.simps)
      (simp add: stopwatch_expired_def stopwatch_tick_def Let_def mono_time_cmp_order)
qed

lemma wait_loop_facts:
  assumes "\<forall>j<n. \<not> cond (c + j) \<and> clock (k + j) < expires sw" "cond (c + n) \<or> expires sw \<le> clock (k + n)"
  shows "wait_us_loop True clock cond k c sw =
    Some (if cond (c + n)
      then (let ret = fst (stopwatch_duration_usecs True (clock (Suc (k + n))) (sw\<lparr>current := clock (k + n)\<rparr>))
            in if ret = 0 then 1 else ret)
      else 0)"
  using assms
proof (induction n arbitrary: k c sw)
  case 0
  then show ?case
    by (subst wait_us_loop.simps)
      (auto simp: stopwatch_expired_def stopwatch_tick_def Let_def mono_time_cmp_order not_less)
next
  case (Suc n)
  have "\<not> cond (c + 0) \<and> clock (k + 0) < expires sw" using Suc.prems(1) by blast
  moreover have "\<forall>j<n. \<not> cond (Suc c + j) \<and> clock (Suc k + j) < expires sw" using Suc.prems(1) by auto
  ultimately show ?case
    using Suc.IH [where c = "Suc c" and k = "Suc k" and sw = "sw\<lparr>current := clock k\<rparr>"] Suc.prems(2)
    by (subst wait_us_loop.simps)
      (simp add: stopwatch_expired_def stopwatch_tick_def Let_def mono_time_cmp_order)
qed

text \<open>The deadline of a wait, and the time \<^verbatim>\<open>wait_us\<close> reports when the condition is seen at look \<open>n\<close>.\<close>

definition past_deadline :: "(nat \<Rightarrow> mono_time) \<Rightarrow> u64 \<Rightarrow> nat \<Rightarrow> bool" where
  "past_deadline clock us k \<longleftrightarrow> unat (microseconds (clock 0)) + unat us \<le> unat (microseconds (clock k))"

definition waited :: "(nat \<Rightarrow> mono_time) \<Rightarrow> nat \<Rightarrow> u64" where
  "waited clock n =
     (let t = (if clock (Suc n) = clock 0 then clock (Suc (Suc n)) else clock (Suc n));
          d = microseconds t - microseconds (clock 0)
      in if d = 0 then 1 else d)"

lemma deadline_iff:
  assumes "unat (microseconds (clock 0)) + unat us < 2 ^ 64"
  shows "expires (stopwatch_init_usecs_expire True (clock 0) us) \<le> clock k \<longleftrightarrow> past_deadline clock us k"
    "clock k < expires (stopwatch_init_usecs_expire True (clock 0) us) \<longleftrightarrow> \<not> past_deadline clock us k"
  using assms
  by (auto simp: stopwatch_init_usecs_expire_def stopwatch_init_def Let_def mono_time_add_usecs_def less_eq_mono_time_def
      less_mono_time_def past_deadline_def word_le_nat_alt word_less_nat_alt unat_add_no_wrap)

lemma first_such: "\<exists>n::nat. P n \<Longrightarrow> \<exists>n. P n \<and> (\<forall>j<n. \<not> P j)"
  using exists_least_iff [of P] by blast

lemma wait_us_facts:
  assumes fit: "unat (microseconds (clock 0)) + unat us < 2 ^ 64"
    and ends: "\<exists>n. cond n \<or> past_deadline clock us (Suc n)"
  shows "\<exists>n. (\<forall>j<n. \<not> cond j \<and> \<not> past_deadline clock us (Suc j)) \<and> (cond n \<or> past_deadline clock us (Suc n)) \<and>
    wait_us True clock cond us = Some (if cond n then waited clock n else 0)"
proof -
  obtain n where n: "cond n \<or> past_deadline clock us (Suc n)" "\<forall>j<n. \<not> (cond j \<or> past_deadline clock us (Suc j))"
    using first_such [OF ends] by blast
  let ?sw = "stopwatch_init_usecs_expire True (clock 0) us"
  have st: "start ?sw = clock 0" by (simp add: stopwatch_init_usecs_expire_def stopwatch_init_def Let_def)
  have "wait_us_loop True clock cond 1 0 ?sw =
    Some (if cond (0 + n)
      then (let ret = fst (stopwatch_duration_usecs True (clock (Suc (1 + n))) (?sw\<lparr>current := clock (1 + n)\<rparr>))
            in if ret = 0 then 1 else ret)
      else 0)"
    by (rule wait_loop_facts) (use n deadline_iff [where clock = clock and us = us, OF fit] in auto)
  also have "fst (stopwatch_duration_usecs True (clock (Suc (1 + n))) (?sw\<lparr>current := clock (1 + n)\<rparr>)) =
      microseconds (if clock (Suc n) = clock 0 then clock (Suc (Suc n)) else clock (Suc n)) - microseconds (clock 0)"
    by (auto simp: stopwatch_duration_usecs_def stopwatch_tick_def Let_def mono_time_cmp_def st
        mono_time_diff_microseconds_def mono_time.expand)
  finally show ?thesis
    using n by (intro exI [of _ n]) (auto simp: wait_us_def waited_def Let_def)
qed

lemma unat_ucast_u32_u64: "unat (ucast (x :: u32) :: u64) = unat x"
  unfolding unsigned_ucast_eq using unsigned_less [of x, where 'a = nat] by (simp add: take_bit_nat_eq_self)

lemma udelay_facts:
  assumes fit: "unat (microseconds (clock 0)) + unat us + 1 < 2 ^ 64" and us: "us \<noteq> - 1"
    and ends: "\<exists>n. past_deadline clock (ucast us + 1) (Suc n)" and y: "\<not> yields (us + 1)"
  shows "\<exists>n. udelay True yields clock us = Some (Suc (Suc n)) \<and> past_deadline clock (ucast us + 1) (Suc n) \<and>
    (\<forall>j<n. \<not> past_deadline clock (ucast us + 1) (Suc j))"
proof -
  obtain n where n: "past_deadline clock (ucast us + 1) (Suc n)" "\<forall>j<n. \<not> past_deadline clock (ucast us + 1) (Suc j)"
    using first_such [OF ends] by blast
  have "unat us < 2 ^ 32" using unsigned_less [of us, where 'a = nat] by simp
  moreover have "unat us \<noteq> 2 ^ 32 - 1" using us by (simp add: word_unat_eq_iff unsigned_minus_1_eq_mask mask_eq_exp_minus_1)
  ultimately have lt: "unat us + 1 < 2 ^ 32" by simp
  have uc: "unat (ucast us :: u64) = unat us" by (rule unat_ucast_u32_u64)
  have u2: "unat (ucast us + 1 :: u64) = unat us + 1"
    using lt uc by (subst unat_add_no_wrap) simp_all
  have "unat (ucast (us + 1) :: u64) = unat (ucast us + 1 :: u64)"
    unfolding u2 unat_ucast_u32_u64 using lt by (subst unat_add_no_wrap) simp_all
  then have u: "ucast (us + 1) = (ucast us + 1 :: u64)" "unat (ucast us + 1 :: u64) = unat us + 1"
    using u2 by (simp_all add: word_unat_eq_iff)
  let ?sw = "stopwatch_init_usecs_expire True (clock 0) (ucast us + 1)"
  have f: "unat (microseconds (clock 0)) + unat (ucast us + 1 :: u64) < 2 ^ 64" using fit by (simp add: u(2))
  have "stopwatch_wait_until_expired True clock 1 ?sw = Some (Suc (1 + n), ?sw\<lparr>current := clock (1 + n)\<rparr>)"
    by (rule wait_until_facts) (use n deadline_iff [where clock = clock and us = "ucast us + 1", OF f] in auto)
  then have "udelay True yields clock us = Some (Suc (Suc n))"
    using y by (simp add: udelay_def Let_def u(1))
  with n show ?thesis by blast
qed

subsection \<open>Properties\<close>

text \<open>Scheduling a structure that is not pending succeeds exactly if the delay is below \<open>2 ^ 63\<close>, the
  deadline does not pass the end of time and a slot is free; it then is pending with its deadline the
  delay after now, the heap order kept. In every other case the queue is as it was. No other structure
  is touched.\<close>

theorem timer_sched_callback_spec:
  assumes "timers_ok st" "p \<notin># pending_timers st"
  shows "\<exists>ok st'. timer_sched_callback st p us now = (ok, st') \<and> timers_ok st' \<and>
    (ok \<longleftrightarrow> unat us < 2 ^ 63 \<and> unat (microseconds now) + unat us < 2 ^ 64 \<and>
      size (pending_timers st) < MAX_TIMER_QUEUE_ENTRIES) \<and>
    (if ok then pending_timers st' = add_mset p (pending_timers st) \<and>
        unat (microseconds (due_at st' p)) = unat (microseconds now) + unat us
     else global_timer_queue st' = global_timer_queue st) \<and>
    (\<forall>q. q \<noteq> p \<longrightarrow> callbacks st' q = callbacks st q)"
  using sched_facts [OF assms, of us now] by (auto split: if_splits)

definition sample_timers :: logged_state where
  "sample_timers = \<lparr>callbacks = (\<lambda>p. \<lparr>priv = 0, callback = 0x100, expiration = Mono_time p\<rparr>),
     global_timer_queue = \<lparr>num_entries = 3, max_entries = 64, queue = [5, 9, 7] @ replicate 61 0\<rparr>, fired = []\<rparr>"

lemma sample_timers_facts: "timers_ok sample_timers" "pending_timers sample_timers = {#5, 9, 7#}" "fired sample_timers = []"
proof -
  have "above cb q 1 \<and> above cb q 2 \<Longrightarrow> heap cb 3 q" for cb q
  proof -
    assume a: "above cb q 1 \<and> above cb q 2"
    show "heap cb 3 q"
      unfolding heap_def
    proof (intro allI impI)
      fix i :: nat assume "0 < i \<and> i < 3"
      then have "i = 1 \<or> i = 2" by linarith
      with a show "above cb q i" by auto
    qed
  qed
  then show "timers_ok sample_timers"
    by (simp add: timers_ok_def tq_ok_def sample_timers_def MAX_TIMER_QUEUE_ENTRIES_def above_def less_eq_mono_time_def)
  show "pending_timers sample_timers = {#5, 9, 7#}" "fired sample_timers = []"
    by (simp_all add: pending_def sample_timers_def)
qed

lemma sample_due: "due_at sample_timers p \<le> Mono_time t \<longleftrightarrow> p \<le> t"
    "due_at sample_timers p \<le> due_at sample_timers q \<longleftrightarrow> p \<le> q"
  by (simp_all add: due_at_def sample_timers_def less_eq_mono_time_def)

text \<open>One run of the timers calls at most one callback, of a pending structure whose deadline has
  passed and is the least of all pending ones, after taking exactly that structure off the queue; when
  no deadline has passed nothing is called. The result says whether anything is pending afterwards.\<close>

theorem timers_run_spec:
  assumes "timers_ok st"
  shows "(pending_timers st = {#} \<longrightarrow> timers_run run st now = (False, st)) \<and>
    (pending_timers st \<noteq> {#} \<and> (\<forall>p\<in>#pending_timers st. now < due_at st p) \<longrightarrow> timers_run run st now = (True, st)) \<and>
    ((\<exists>p\<in>#pending_timers st. due_at st p \<le> now) \<longrightarrow>
      (\<exists>p tq st'. p \<in># pending_timers st \<and> due_at st p \<le> now \<and> (\<forall>q\<in>#pending_timers st. due_at st p \<le> due_at st q) \<and>
        tq_ok (callbacks st) tq \<and> pending tq = pending_timers st - {#p#} \<and>
        st' = run (callback (callbacks st p)) p (st\<lparr>global_timer_queue := tq\<rparr>) \<and>
        timers_run run st now = (num_entries (global_timer_queue st') \<noteq> 0, st')))"
proof -
  have ok: "tq_ok (callbacks st) (global_timer_queue st)" using assms by (simp add: timers_ok_def)
  note R = run_facts [OF assms, of run now]
  show ?thesis
  proof (cases "timer_queue_head (global_timer_queue st)")
    case None
    with timers.front_None [OF ok] R show ?thesis by simp
  next
    case (Some p)
    note P = timers.front_Some [OF ok Some] and M = timers.rm_ok [OF ok Some]
    then have ne: "pending_timers st \<noteq> {#}" by auto
    show ?thesis
    proof (cases "due_at st p \<le> now")
      case True
      then have "timers_run run st now = (let st' = run (callback (callbacks st p)) p
          (st\<lparr>global_timer_queue := timer_queue_remove_head (callbacks st) (global_timer_queue st)\<rparr>)
        in (num_entries (global_timer_queue st') \<noteq> 0, st'))"
        by (simp add: R Some timer_queue_empty_def)
      with True P M ne show ?thesis unfolding Let_def due_at_def by (meson leD)
    next
      case False
      with P have "\<forall>q\<in>#pending_timers st. now < due_at st q" unfolding due_at_def by force
      with False R Some ne show ?thesis by (auto simp: not_less [symmetric])
    qed
  qed
qed

text \<open>C24: timers fire in the order of their deadlines. A caller that polls often enough at one time has
  called exactly the callbacks whose deadline has passed, each once, sorted by deadline; the others are
  still pending.\<close>

theorem timers_fire_in_order:
  assumes "timers_ok st" "fired st = []" "size (pending_timers st) \<le> n"
  shows "mset (fired (poll n st now)) = filter_mset (\<lambda>p. due_at st p \<le> now) (pending_timers st) \<and>
    sorted (map (due_at st) (fired (poll n st now))) \<and>
    pending_timers (poll n st now) = filter_mset (\<lambda>p. \<not> due_at st p \<le> now) (pending_timers st) \<and>
    timers_ok (poll n st now)"
proof -
  have ok: "tq_ok (callbacks st) (global_timer_queue st)" using assms(1) by (simp add: timers_ok_def)
  obtain xs tq where d: "drain timer_queue_head (timer_queue_remove_head (callbacks st)) (\<lambda>p. due_at st p \<le> now) n
      (global_timer_queue st) = (xs, tq)" by fastforce
  have k: "due_at st = key_of (callbacks st)" by (rule ext) (simp add: due_at_def)
  show ?thesis
    using timers.drain_facts [OF ok assms(3), of now xs tq] d poll_drain [OF assms(1) d] assms(2)
    by (simp add: k timers_ok_def)
qed

theorem timers_fire_in_order_witness:
  "fired (poll 3 sample_timers (Mono_time 8)) = [5, 7]"
proof -
  have le: "size (pending_timers sample_timers) \<le> 3" by (simp add: sample_timers_facts)
  let ?f = "fired (poll 3 sample_timers (Mono_time 8))"
  note T = timers_fire_in_order [OF sample_timers_facts(1,3) le, of "Mono_time 8"]
  have m: "mset ?f = {#5, 7#}"
    using T by (simp add: sample_timers_facts sample_due)
  then have "size (mset ?f) = 2" by simp
  then have "length ?f = 2" by simp
  then obtain a b where f: "?f = [a, b]" by (auto simp: numeral_eq_Suc length_Suc_conv)
  then have "a = 5 \<and> b = 7 \<or> a = 7 \<and> b = 5" using m by (auto simp: add_eq_conv_ex)
  moreover have "due_at sample_timers a \<le> due_at sample_timers b" using T f by simp
  ultimately show ?thesis using f by (auto simp: sample_due)
qed

text \<open>\<^verbatim>\<open>wait_us\<close> ends as soon as it sees the condition or a time past the deadline, if that ever
  happens: the result is positive exactly if the condition was seen, and then the time since the start,
  at least 1. It looks at the condition only before it reads the time: a 0 says that the condition was
  false at the last look, which was before the reading that is past the deadline.\<close>

theorem wait_us_spec:
  assumes "unat (microseconds (clock 0)) + unat us < 2 ^ 64"
    and "\<exists>n. cond n \<or> past_deadline clock us (Suc n)"
  shows "\<exists>n. (\<forall>j<n. \<not> cond j \<and> \<not> past_deadline clock us (Suc j)) \<and> (cond n \<or> past_deadline clock us (Suc n)) \<and>
    wait_us True clock cond us = Some (if cond n then waited clock n else 0) \<and> waited clock n \<noteq> 0"
  using wait_us_facts [where clock = clock and us = us, OF assms] by (auto simp: waited_def Let_def)

text \<open>A delay lasts. Unless the scheduler takes it over, \<^verbatim>\<open>udelay\<close> returns at the first reading that is
  more than the wanted microseconds past the first one.\<close>

theorem udelay_spec:
  assumes "unat (microseconds (clock 0)) + unat us + 1 < 2 ^ 64" "us \<noteq> - 1"
    and "\<exists>n. past_deadline clock (ucast us + 1) (Suc n)" "\<not> yields (us + 1)"
  shows "\<exists>n. udelay True yields clock us = Some (Suc (Suc n)) \<and> past_deadline clock (ucast us + 1) (Suc n) \<and>
    (\<forall>j<n. \<not> past_deadline clock (ucast us + 1) (Suc j))"
  by (rule udelay_facts [where clock = clock and us = us and yields = yields, OF assms])

end
