(* ===== verification/AddressPool.thy ===== *)
theory AddressPool
  imports Prelude
begin

text \<open>
  The contract of a pool of addresses from which aligned blocks are taken one after the other: a block
  that is taken was available, a request is refused only when no block would do, and what lies near a
  taken block (in its pages) is gone from the pool. A client that serves a sequence of requests uses the
  lemmas proved here once; the ranges of \<^verbatim>\<open>src/lib/memrange.c\<close> with \<^verbatim>\<open>memranges_steal\<close> are the provider,
  the resource allocator is the client.
\<close>

definition in_block :: "addr \<Rightarrow> addr \<Rightarrow> addr \<Rightarrow> bool" where
  "in_block b z x \<longleftrightarrow> b \<le> x \<and> unat x < unat b + unat z"

text \<open>Requests whose size and alignment cannot overflow the sums of a search in the lower half of the addresses.\<close>

definition small_request :: "addr \<Rightarrow> u8 \<Rightarrow> bool" where
  "small_request z al \<longleftrightarrow> unat al \<le> 63 \<and> 2 ^ unat al + unat z \<le> 2 ^ 63"

text \<open>No aligned block below the limit consists of addresses that satisfy \<open>free\<close>.\<close>

definition no_block :: "(addr \<Rightarrow> bool) \<Rightarrow> addr \<Rightarrow> addr \<Rightarrow> u8 \<Rightarrow> bool" where
  "no_block free limit z al \<longleftrightarrow>
     (\<forall>b. 2 ^ unat al dvd unat b \<longrightarrow> unat b + unat z \<le> unat limit + 1 \<longrightarrow> (\<exists>x. in_block b z x \<and> \<not> free x))"

lemma no_block_mono: "no_block f limit z al \<Longrightarrow> (\<And>x. g x \<Longrightarrow> f x) \<Longrightarrow> no_block g limit z al"
  unfolding no_block_def by blast

locale address_pool =
  fixes avail :: "'s \<Rightarrow> addr \<Rightarrow> bool"
    and take_block :: "'s \<Rightarrow> addr \<Rightarrow> addr \<Rightarrow> u8 \<Rightarrow> addr option \<times> 's"
    and ready :: "'s \<Rightarrow> nat \<Rightarrow> bool"
    and near :: "addr \<Rightarrow> addr \<Rightarrow> addr \<Rightarrow> bool"
  assumes take_some: "ready s (Suc n) \<Longrightarrow> z \<noteq> 0 \<Longrightarrow> small_request z al \<Longrightarrow> take_block s limit z al = (Some b, s') \<Longrightarrow>
      ready s' n \<and> 2 ^ unat al dvd unat b \<and> unat b + unat z \<le> 2 ^ 64 \<and>
      (\<forall>x. in_block b z x \<longrightarrow> avail s x \<and> x \<le> limit) \<and> (\<forall>x. avail s' x \<longleftrightarrow> avail s x \<and> \<not> near b z x)"
    and take_none: "ready s (Suc n) \<Longrightarrow> z \<noteq> 0 \<Longrightarrow> small_request z al \<Longrightarrow> take_block s limit z al = (None, s') \<Longrightarrow>
      s' = s \<and> no_block (avail s) limit z al"
    and ready_less: "ready s (Suc n) \<Longrightarrow> ready s n"
    and near_block: "near b z x \<Longrightarrow> z \<noteq> 0 \<Longrightarrow> unat b + unat z \<le> 2 ^ 64 \<Longrightarrow>
      \<exists>y. in_block b z y \<and> (\<forall>b' z'. near b' z' y \<longleftrightarrow> near b' z' x)"
begin

definition covered :: "(addr \<times> addr) list \<Rightarrow> addr \<Rightarrow> bool" where
  "covered bs x \<longleftrightarrow> (\<exists>(b, z)\<in>set bs. near b z x)"

text \<open>The pool after the blocks \<open>bs\<close> were taken out of \<open>free\<close>, with room for \<open>n\<close> more requests.\<close>

definition served :: "(addr \<Rightarrow> bool) \<Rightarrow> (addr \<times> addr) list \<Rightarrow> nat \<Rightarrow> 's \<Rightarrow> bool" where
  "served free bs n s \<longleftrightarrow> ready s n \<and> (\<forall>x. avail s x \<longleftrightarrow> free x \<and> \<not> covered bs x) \<and>
     sorted_wrt (\<lambda>(b, z) (b', z'). \<forall>x. \<not> (near b z x \<and> near b' z' x)) bs"

lemma covered_snoc: "covered (bs @ [(b, z)]) x \<longleftrightarrow> covered bs x \<or> near b z x"
  by (auto simp: covered_def)

lemma served_start: "ready s n \<Longrightarrow> served (avail s) [] n s"
  by (simp add: served_def covered_def)

lemma served_less: "served free bs (Suc n) s \<Longrightarrow> served free bs n s"
  using ready_less by (auto simp: served_def)

lemma served_none:
  assumes "served free bs (Suc n) s" "z \<noteq> 0" "small_request z al" "take_block s limit z al = (None, s')"
  shows "s' = s" and "no_block (\<lambda>x. free x \<and> \<not> covered bs x) limit z al"
proof -
  have "ready s (Suc n)" "avail s = (\<lambda>x. free x \<and> \<not> covered bs x)" using assms(1) by (auto simp: served_def)
  with take_none [OF this(1) assms(2-4)] show "s' = s" "no_block (\<lambda>x. free x \<and> \<not> covered bs x) limit z al" by simp_all
qed

lemma served_some:
  assumes s: "served free bs (Suc n) s" and r: "z \<noteq> 0" "small_request z al" and t: "take_block s limit z al = (Some b, s')"
  shows "served free (bs @ [(b, z)]) n s'" and "2 ^ unat al dvd unat b" and "unat b + unat z \<le> 2 ^ 64"
    and "in_block b z x \<Longrightarrow> free x \<and> x \<le> limit"
proof -
  have rd: "ready s (Suc n)" and av: "\<And>x. avail s x \<longleftrightarrow> free x \<and> \<not> covered bs x"
    and so: "sorted_wrt (\<lambda>(b, z) (b', z'). \<forall>x. \<not> (near b z x \<and> near b' z' x)) bs"
    using s by (simp_all add: served_def)
  note f = take_some [OF rd r t]
  show "2 ^ unat al dvd unat b" "unat b + unat z \<le> 2 ^ 64" "in_block b z x \<Longrightarrow> free x \<and> x \<le> limit"
    using f av by blast+
  have apart: "\<not> near b z x" if "covered bs x" for x
  proof
    assume "near b z x"
    from near_block [OF this r(1)] f obtain y where y: "in_block b z y" "\<forall>b' z'. near b' z' y \<longleftrightarrow> near b' z' x" by blast
    from that y(2) have "covered bs y" by (simp add: covered_def)
    with av [of y] f y(1) show False by blast
  qed
  have "sorted_wrt (\<lambda>(b, z) (b', z'). \<forall>x. \<not> (near b z x \<and> near b' z' x)) (bs @ [(b, z)])"
    unfolding sorted_wrt_append using so apart by (auto simp: covered_def)
  then show "served free (bs @ [(b, z)]) n s'"
    unfolding served_def using f av by (auto simp: covered_snoc)
qed

end
end
