(* ===== verification/ResourceAllocator.thy ===== *)
theory ResourceAllocator
  imports MemRange AddressPool "HOL-Library.Multiset" "HOL-Library.Product_Lexorder"
begin


text \<open>
  The resource allocator, \<^verbatim>\<open>src/device/resource_allocator_v4.c\<close>, with the search for the next largest
  resource of \<^verbatim>\<open>src/device/resource_allocator_common.c\<close> and the walk of \<^verbatim>\<open>src/device/device_util.c\<close>.
  The device tree is a tree whose shape does not change; the \<^verbatim>\<open>struct resource\<close>s the allocator writes to
  live in a store and are known by their identity, as the code compares pointers to them. The loops that
  ask for the next largest resource until there is none have no bound in the code: they are partial
  functions, and a run that does not end is \<open>None\<close>.
\<close>


subsection \<open>Data\<close>

definition IORESOURCE_IO :: u64 where "IORESOURCE_IO = 0x100"
definition IORESOURCE_IRQ :: u64 where "IORESOURCE_IRQ = 0x400"
definition IORESOURCE_DRQ :: u64 where "IORESOURCE_DRQ = 0x800"
definition IORESOURCE_TYPE_MASK :: u64 where
  "IORESOURCE_TYPE_MASK = IORESOURCE_IO OR IORESOURCE_MEM OR IORESOURCE_IRQ OR IORESOURCE_DRQ"
definition IORESOURCE_BRIDGE :: u64 where "IORESOURCE_BRIDGE = 0x80000"
definition IORESOURCE_ABOVE_4G :: u64 where "IORESOURCE_ABOVE_4G = 0x100000"
definition IORESOURCE_STORED :: u64 where "IORESOURCE_STORED = 0x20000000"
definition IORESOURCE_FIXED :: u64 where "IORESOURCE_FIXED = 0x80000000"
definition IORESOURCE_PCI64 :: u64 where "IORESOURCE_PCI64 = 1"

type_synonym rid = nat
type_synonym store = "rid \<Rightarrow> resource"

datatype dev = Dev (enabled: bool) (is_domain: bool) (resources: "rid list") (downstream: "dev list option")

record alloc_config =
  ALWAYS_ALLOW_ABOVE_4G_ALLOCATION :: bool
  RESOURCE_ALLOCATION_TOP_DOWN :: bool

definition children :: "dev \<Rightarrow> dev list" where
  "children d = (case downstream d of None \<Rightarrow> [] | Some cs \<Rightarrow> cs)"

definition dev_has_children :: "dev \<Rightarrow> bool" where
  "dev_has_children d \<longleftrightarrow> children d \<noteq> []"

lemma children_smaller: "c \<in> set (children d) \<Longrightarrow> size c < size d"
  by (cases d) (auto simp: children_def split: option.splits dest: size_list_estimation' [of _ _ "size c" size])

lemma children_size: "size_list size (children d) < size d"
  by (cases d) (auto simp: children_def split: option.splits)

subsection \<open>Walking a bus\<close>

text \<open>
  \<open>get\<close> reads a resource in the state the walk threads; \<open>search\<close> is the callback with its context. The
  resources of one device are the inner loop.
\<close>

function search_bus_resources ::
    "('s \<Rightarrow> store) \<Rightarrow> u64 \<Rightarrow> u64 \<Rightarrow> (dev \<Rightarrow> rid \<Rightarrow> 's \<Rightarrow> 's) \<Rightarrow> dev list \<Rightarrow> 's \<Rightarrow> 's"
  and search_dev_resources ::
    "('s \<Rightarrow> store) \<Rightarrow> u64 \<Rightarrow> u64 \<Rightarrow> (dev \<Rightarrow> rid \<Rightarrow> 's \<Rightarrow> 's) \<Rightarrow> dev \<Rightarrow> rid list \<Rightarrow> 's \<Rightarrow> 's" where
  "search_bus_resources get type_mask type search [] s = s"
| "search_bus_resources get type_mask type search (curdev # sibling) s =
     search_bus_resources get type_mask type search sibling
       (if \<not> enabled curdev then s
        else search_dev_resources get type_mask type search curdev (resources curdev) s)"
| "search_dev_resources get type_mask type search curdev [] s = s"
| "search_dev_resources get type_mask type search curdev (res # rest) s =
     search_dev_resources get type_mask type search curdev rest
       (if res_flags (get s res) AND type_mask \<noteq> type then s
        else if res_flags (get s res) AND IORESOURCE_SUBTRACTIVE \<noteq> 0
          then (case downstream curdev of
                  None \<Rightarrow> s
                | Some cs \<Rightarrow> search_bus_resources get type_mask type search cs s)
        else search curdev res s)"
  by pat_completeness auto
termination
proof (relation "measures [\<lambda>x. case x of Inl (_, _, _, _, cs, _) \<Rightarrow> size_list size cs | Inr (_, _, _, _, d, _, _) \<Rightarrow> size d,
    \<lambda>x. case x of Inl _ \<Rightarrow> 0 | Inr (_, _, _, _, _, rs, _) \<Rightarrow> length rs]"; (simp; fail)?)
  fix get :: "'s \<Rightarrow> store" and type_mask type :: u64 and search :: "dev \<Rightarrow> rid \<Rightarrow> 's \<Rightarrow> 's" and curdev :: dev
    and res :: rid and rest :: "rid list" and s :: 's and cs :: "dev list"
  assume "downstream curdev = Some cs"
  then have "size_list size cs < size curdev" using children_size [of curdev] by (simp add: children_def)
  then show "(Inl (get, type_mask, type, search, cs, s), Inr (get, type_mask, type, search, curdev, res # rest, s))
    \<in> measures [\<lambda>x. case x of Inl (_, _, _, _, cs, _) \<Rightarrow> size_list size cs | Inr (_, _, _, _, d, _, _) \<Rightarrow> size d,
      \<lambda>x. case x of Inl _ \<Rightarrow> 0 | Inr (_, _, _, _, _, rs, _) \<Rightarrow> length rs]" by simp
qed

subsection \<open>The next largest resource\<close>

record pick_largest_state =
  pl_last :: "rid option"
  pl_result :: "(dev \<times> rid) option"
  pl_seen_last :: bool

definition pick_largest_resource :: "store \<Rightarrow> dev \<Rightarrow> rid \<Rightarrow> pick_largest_state \<Rightarrow> pick_largest_state" where
  "pick_largest_resource st dev res state =
     (if pl_last state = Some res then state\<lparr>pl_seen_last := True\<rparr>
      else if res_flags (st res) AND IORESOURCE_FIXED \<noteq> 0 then state
      else if (case pl_last state of
                 None \<Rightarrow> False
               | Some last1 \<Rightarrow>
                   res_align (st last1) < res_align (st res) \<or>
                   res_align (st last1) = res_align (st res) \<and> res_size (st last1) < res_size (st res) \<or>
                   res_align (st last1) = res_align (st res) \<and> res_size (st last1) = res_size (st res) \<and>
                     \<not> pl_seen_last state)
        then state
      else if (case pl_result state of
                 None \<Rightarrow> True
               | Some (_, result) \<Rightarrow>
                   res_align (st result) < res_align (st res) \<or>
                   res_align (st result) = res_align (st res) \<and> res_size (st result) < res_size (st res))
        then state\<lparr>pl_result := Some (dev, res)\<rparr>
      else state)"

definition largest_resource :: "store \<Rightarrow> dev list \<Rightarrow> rid option \<Rightarrow> u64 \<Rightarrow> u64 \<Rightarrow> (dev \<times> rid) option" where
  "largest_resource st bus last1 type_mask type =
     pl_result (search_bus_resources (\<lambda>_. st) type_mask type (pick_largest_resource st) bus
       \<lparr>pl_last = last1, pl_result = None, pl_seen_last = False\<rparr>)"

text \<open>The loop \<^verbatim>\<open>while ((dev = largest_resource(...)))\<close> of both passes, with its body.\<close>

partial_function (option) for_largest ::
    "('s \<Rightarrow> store) \<Rightarrow> dev list \<Rightarrow> u64 \<Rightarrow> u64 \<Rightarrow> (dev \<Rightarrow> rid \<Rightarrow> 's \<Rightarrow> 's) \<Rightarrow> rid option \<Rightarrow> 's \<Rightarrow> 's option" where
  "for_largest get bus type_mask type body last1 s =
     (case largest_resource (get s) bus last1 type_mask type of
        None \<Rightarrow> Some s
      | Some (dev, res) \<Rightarrow> for_largest get bus type_mask type body (Some res) (body dev res s))"

subsection \<open>Pass 1: relative placement\<close>

definition effective_limit :: "alloc_config \<Rightarrow> resource \<Rightarrow> resource_t" where
  "effective_limit cfg res =
     (if ALWAYS_ALLOW_ABOVE_4G_ALLOCATION cfg then res_limit res
      else if res_flags res AND IORESOURCE_BRIDGE \<noteq> 0 then res_limit res
      else if res_size res > 0xFFFFFFFF \<or> res_flags res AND IORESOURCE_PCI64 \<noteq> 0 then - 1
      else let quirk_4g_limit = (if res_flags res AND IORESOURCE_ABOVE_4G \<noteq> 0 then - 1 else 0xFFFFFFFF)
           in MIN_word (res_limit res) quirk_4g_limit)"

definition place_child :: "alloc_config \<Rightarrow> rid \<Rightarrow> dev \<Rightarrow> rid \<Rightarrow> store \<times> resource_t \<Rightarrow> store \<times> resource_t" where
  "place_child cfg bridge_res child child_res s =
     (case s of (st, base) \<Rightarrow>
        if res_size (st child_res) = 0 then (st, base)
        else if res_limit (st child_res) = 0 then (st, base)
        else
          let st1 = (if res_align (st child_res) > res_align (st bridge_res)
                     then st(bridge_res := (st bridge_res)\<lparr>res_align := res_align (st child_res)\<rparr>) else st);
              st2 = (if effective_limit cfg (st1 child_res) < res_limit (st1 bridge_res)
                     then st1(bridge_res := (st1 bridge_res)\<lparr>res_limit := effective_limit cfg (st1 child_res)\<rparr>) else st1);
              base1 = ALIGN_UP base (POWER_OF_2 (res_align (st2 child_res)));
              st3 = st2(child_res := (st2 child_res)\<lparr>res_base := base1,
                      res_flags := res_flags (st2 child_res) AND NOT (IORESOURCE_ASSIGNED OR IORESOURCE_STORED)\<rparr>)
          in (st3, base1 + res_size (st3 child_res)))"

definition update_bridge_resource :: "alloc_config \<Rightarrow> dev list \<Rightarrow> rid \<Rightarrow> store \<Rightarrow> store option" where
  "update_bridge_resource cfg bus bridge_res st =
     (let type_mask = IORESOURCE_TYPE_MASK OR IORESOURCE_PREFETCH;
          type_match = res_flags (st bridge_res) AND type_mask
      in case for_largest fst bus type_mask type_match (place_child cfg bridge_res) None (st, 0) of
           None \<Rightarrow> None
         | Some (st', base) \<Rightarrow>
             Some (st'(bridge_res := (st' bridge_res)\<lparr>res_size := ALIGN_UP base (POWER_OF_2 (res_gran (st' bridge_res)))\<rparr>)))"

text \<open>The loops over the resources of a bridge and over the children of its bus.\<close>

function compute_bridge_resources :: "alloc_config \<Rightarrow> u64 \<Rightarrow> dev \<Rightarrow> store \<Rightarrow> store option"
  and compute_windows :: "alloc_config \<Rightarrow> u64 \<Rightarrow> dev list \<Rightarrow> rid list \<Rightarrow> store \<Rightarrow> store option"
  and compute_children :: "alloc_config \<Rightarrow> u64 \<Rightarrow> dev list \<Rightarrow> store \<Rightarrow> store option" where
  "compute_bridge_resources cfg type_match bridge st =
     compute_windows cfg type_match (children bridge) (resources bridge) st"
| "compute_windows cfg type_match bus [] st = Some st"
| "compute_windows cfg type_match bus (res # rest) st =
     (if res_flags (st res) AND IORESOURCE_BRIDGE = 0 then compute_windows cfg type_match bus rest st
      else if res_flags (st res) AND (IORESOURCE_TYPE_MASK OR IORESOURCE_PREFETCH) \<noteq> type_match
        then compute_windows cfg type_match bus rest st
      else (case compute_children cfg type_match bus st of
              None \<Rightarrow> None
            | Some st1 \<Rightarrow>
                (case update_bridge_resource cfg bus res st1 of
                   None \<Rightarrow> None
                 | Some st2 \<Rightarrow> compute_windows cfg type_match bus rest st2)))"
| "compute_children cfg type_match [] st = Some st"
| "compute_children cfg type_match (child # sibling) st =
     (if \<not> dev_has_children child then compute_children cfg type_match sibling st
      else (case compute_bridge_resources cfg type_match child st of
              None \<Rightarrow> None
            | Some st1 \<Rightarrow> compute_children cfg type_match sibling st1))"
  by pat_completeness auto
termination
  by (relation "measures [\<lambda>x. case x of Inl (_, _, d, _) \<Rightarrow> size d | Inr (Inl (_, _, cs, _, _)) \<Rightarrow> size_list size cs
        | Inr (Inr (_, _, cs, _)) \<Rightarrow> size_list size cs,
      \<lambda>x. case x of Inl _ \<Rightarrow> 0 | Inr (Inl (_, _, _, rs, _)) \<Rightarrow> Suc (length rs) | Inr (Inr _) \<Rightarrow> 0]")
    (simp_all add: children_size)

subsection \<open>Pass 2: allocation\<close>

function avoid_fixed_resources :: "store \<Rightarrow> u64 \<Rightarrow> dev \<Rightarrow> mst \<Rightarrow> mst"
  and avoid_fixed_list :: "store \<Rightarrow> u64 \<Rightarrow> dev list \<Rightarrow> mst \<Rightarrow> mst" where
  "avoid_fixed_resources st mask_match d ranges =
     avoid_fixed_list st mask_match (children d)
       (fold (\<lambda>res rg. if res_flags (st res) AND mask_match \<noteq> mask_match then rg
                        else if res_size (st res) = 0 then rg
                        else memranges_create_hole rg (res_base (st res)) (res_size (st res)))
         (resources d) ranges)"
| "avoid_fixed_list st mask_match [] ranges = ranges"
| "avoid_fixed_list st mask_match (child # sibling) ranges =
     avoid_fixed_list st mask_match sibling (avoid_fixed_resources st mask_match child ranges)"
  by pat_completeness auto
termination
  by (relation "measure (\<lambda>x. case x of Inl (_, _, d, _) \<Rightarrow> size d | Inr (_, _, cs, _) \<Rightarrow> size_list size cs)")
    (simp_all add: children_size)

text \<open>\<open>heap\<close> is the number of range entries \<^verbatim>\<open>malloc\<close> can deliver.\<close>

definition setup_resource_ranges :: "store \<Rightarrow> dev \<Rightarrow> u64 \<Rightarrow> nat \<Rightarrow> mst" where
  "setup_resource_ranges st domain type heap =
     (let alignment = (if type = IORESOURCE_MEM then 12 else 0);
          type_mask = IORESOURCE_TYPE_MASK OR IORESOURCE_FIXED;
          ranges0 = (memranges_init_empty_with_alignment [] alignment, heap);
          ranges1 = fold (\<lambda>res rg. if res_flags (st res) AND type_mask \<noteq> type then rg
                       else memranges_insert rg (res_base (st res)) (res_limit (st res) - res_base (st res) + 1) type)
                      (resources domain) ranges0;
          ranges2 = (if type = IORESOURCE_IO then memranges_create_hole ranges1 0x3b0 (0x3df - 0x3b0 + 1) else ranges1)
      in avoid_fixed_resources st (type OR IORESOURCE_FIXED) domain ranges2)"

definition assign_resource :: "store \<Rightarrow> rid \<Rightarrow> resource_t \<Rightarrow> store" where
  "assign_resource st res base =
     st(res := (st res)\<lparr>res_base := base, res_limit := base + res_size (st res) - 1,
          res_flags := (res_flags (st res) OR IORESOURCE_ASSIGNED) AND NOT IORESOURCE_STORED\<rparr>)"

definition allocate_one :: "alloc_config \<Rightarrow> u64 \<Rightarrow> dev \<Rightarrow> rid \<Rightarrow> store \<times> mst \<Rightarrow> store \<times> mst" where
  "allocate_one cfg type d res s =
     (case s of (st, ranges) \<Rightarrow>
        if res_size (st res) = 0 then (st, ranges)
        else (case memranges_steal ranges (effective_limit cfg (st res)) (res_size (st res)) (res_align (st res))
                     type (RESOURCE_ALLOCATION_TOP_DOWN cfg) of
                (None, ranges') \<Rightarrow> (st, ranges')
              | (Some base, ranges') \<Rightarrow> (assign_resource st res base, ranges')))"

text \<open>The ranges are a local variable: after the teardown its entries are on its own free list.\<close>

definition cleanup_domain_resource_ranges :: "mst \<Rightarrow> mst" where
  "cleanup_domain_resource_ranges ranges = (memranges_teardown (fst ranges), snd ranges)"

definition allocate_toplevel_resources :: "alloc_config \<Rightarrow> dev \<Rightarrow> u64 \<Rightarrow> store \<times> nat \<Rightarrow> (store \<times> nat) option" where
  "allocate_toplevel_resources cfg domain type s =
     (case s of (st, heap) \<Rightarrow>
        if \<not> dev_has_children domain then Some (st, heap)
        else (case for_largest fst (children domain) IORESOURCE_TYPE_MASK type (allocate_one cfg type) None
                     (st, setup_resource_ranges st domain type heap) of
                None \<Rightarrow> None
              | Some (st', ranges) \<Rightarrow>
                  (case cleanup_domain_resource_ranges ranges of (_, heap') \<Rightarrow> Some (st', heap'))))"

text \<open>The callback reads the base of the window through its parameter at every call.\<close>

definition assign_resource_cb :: "rid \<Rightarrow> dev \<Rightarrow> rid \<Rightarrow> store \<Rightarrow> store" where
  "assign_resource_cb param d res st =
     (if res_size (st res) = 0 \<or> res_limit (st res) = 0 then st
      else assign_resource st res (res_base (st param) + res_base (st res)))"

function allocate_bridge_resources :: "dev \<Rightarrow> store \<Rightarrow> store"
  and allocate_bridge_list :: "dev list \<Rightarrow> store \<Rightarrow> store" where
  "allocate_bridge_resources bridge st =
     allocate_bridge_list (children bridge)
       (fold (\<lambda>res st. let type_mask = IORESOURCE_TYPE_MASK OR IORESOURCE_PREFETCH OR IORESOURCE_FIXED
                        in if res_size (st res) = 0 then st
                           else if res_flags (st res) AND IORESOURCE_BRIDGE = 0 then st
                           else if res_flags (st res) AND IORESOURCE_ASSIGNED = 0 then st
                           else search_bus_resources (\<lambda>s. s) type_mask (res_flags (st res) AND type_mask)
                                  (assign_resource_cb res) (children bridge) st)
         (resources bridge) st)"
| "allocate_bridge_list [] st = st"
| "allocate_bridge_list (child # sibling) st =
     allocate_bridge_list sibling (if \<not> dev_has_children child then st else allocate_bridge_resources child st)"
  by pat_completeness auto
termination
  by (relation "measure (\<lambda>x. case x of Inl (d, _) \<Rightarrow> size d | Inr (cs, _) \<Rightarrow> size_list size cs)")
    (simp_all add: children_size)

definition compute_domain_resources :: "alloc_config \<Rightarrow> dev \<Rightarrow> store \<Rightarrow> store option" where
  "compute_domain_resources cfg domain st =
     (if downstream domain = None then Some st
      else fold (\<lambda>child r.
             if \<not> dev_has_children child then r
             else Option.bind (Option.bind (Option.bind r
                    (compute_bridge_resources cfg IORESOURCE_IO child))
                    (compute_bridge_resources cfg IORESOURCE_MEM child))
                    (compute_bridge_resources cfg (IORESOURCE_MEM OR IORESOURCE_PREFETCH) child))
           (children domain) (Some st))"

definition allocate_domain_resources :: "alloc_config \<Rightarrow> dev \<Rightarrow> store \<times> nat \<Rightarrow> (store \<times> nat) option" where
  "allocate_domain_resources cfg domain s =
     Option.bind (Option.bind (allocate_toplevel_resources cfg domain IORESOURCE_IO s)
       (allocate_toplevel_resources cfg domain IORESOURCE_MEM))
       (\<lambda>(st, heap). Some (allocate_bridge_list (children domain) st, heap))"

definition allocate_resources :: "alloc_config \<Rightarrow> dev option \<Rightarrow> store \<times> nat \<Rightarrow> (store \<times> nat) option" where
  "allocate_resources cfg root s =
     (case root of
        None \<Rightarrow> Some s
      | Some r \<Rightarrow>
          if downstream r = None then Some s
          else fold (\<lambda>child q.
                 if \<not> is_domain child then q
                 else Option.bind q (\<lambda>(st, heap).
                   Option.bind (compute_domain_resources cfg child st) (\<lambda>st1.
                   allocate_domain_resources cfg child (st1, heap))))
               (children r) (Some s))"


subsection \<open>The order of the allocation\<close>

text \<open>The resources a walk reaches, in order.\<close>

function visited :: "store \<Rightarrow> u64 \<Rightarrow> u64 \<Rightarrow> dev list \<Rightarrow> (dev \<times> rid) list"
  and visited_dev :: "store \<Rightarrow> u64 \<Rightarrow> u64 \<Rightarrow> dev \<Rightarrow> rid list \<Rightarrow> (dev \<times> rid) list" where
  "visited st type_mask type [] = []"
| "visited st type_mask type (d # ds) =
     (if enabled d then visited_dev st type_mask type d (resources d) else []) @ visited st type_mask type ds"
| "visited_dev st type_mask type d [] = []"
| "visited_dev st type_mask type d (r # rs) =
     (if res_flags (st r) AND type_mask \<noteq> type then []
      else if res_flags (st r) AND IORESOURCE_SUBTRACTIVE \<noteq> 0
        then (case downstream d of None \<Rightarrow> [] | Some cs \<Rightarrow> visited st type_mask type cs)
      else [(d, r)]) @ visited_dev st type_mask type d rs"
  by pat_completeness auto
termination
proof (relation "measures [\<lambda>x. case x of Inl (_, _, _, cs) \<Rightarrow> size_list size cs | Inr (_, _, _, d, _) \<Rightarrow> size d,
    \<lambda>x. case x of Inl _ \<Rightarrow> 0 | Inr (_, _, _, _, rs) \<Rightarrow> length rs]"; (simp; fail)?)
  fix st :: store and type_mask type :: u64 and d :: dev and r :: rid and rs :: "rid list" and cs :: "dev list"
  assume "downstream d = Some cs"
  then have "size_list size cs < size d" using children_size [of d] by (simp add: children_def)
  then show "(Inl (st, type_mask, type, cs), Inr (st, type_mask, type, d, r # rs))
    \<in> measures [\<lambda>x. case x of Inl (_, _, _, cs) \<Rightarrow> size_list size cs | Inr (_, _, _, d, _) \<Rightarrow> size d,
      \<lambda>x. case x of Inl _ \<Rightarrow> 0 | Inr (_, _, _, _, rs) \<Rightarrow> length rs]" by simp
qed

lemma search_visited:
  "search_bus_resources (\<lambda>_. st) type_mask type f bus s = fold (case_prod f) (visited st type_mask type bus) s"
  "search_dev_resources (\<lambda>_. st) type_mask type f d rs s = fold (case_prod f) (visited_dev st type_mask type d rs) s"
proof (induction st type_mask type bus and st type_mask type d rs arbitrary: s and s rule: visited_visited_dev.induct)
  case (4 st type_mask type d r rs)
  then show ?case by (cases "downstream d") auto
qed auto

lemma visited_cong:
  assumes "\<And>r. res_flags (st' r) AND type_mask = res_flags (st r) AND type_mask"
    and "\<And>r. res_flags (st' r) AND IORESOURCE_SUBTRACTIVE = res_flags (st r) AND IORESOURCE_SUBTRACTIVE"
  shows "visited st' type_mask type bus = visited st type_mask type bus"
    and "visited_dev st' type_mask type d rs = visited_dev st type_mask type d rs"
  using assms
proof (induction st type_mask type bus and st type_mask type d rs rule: visited_visited_dev.induct)
  case (4 st type_mask type d r rs)
  then show ?case by (cases "downstream d") auto
qed auto

text \<open>Larger alignment first, then larger size.\<close>

definition order_key :: "store \<Rightarrow> rid \<Rightarrow> nat \<times> nat" where
  "order_key st r = (255 - unat (res_align (st r)), 2 ^ 64 - 1 - unat (res_size (st r)))"

definition movable :: "store \<Rightarrow> rid \<Rightarrow> bool" where
  "movable st r \<longleftrightarrow> res_flags (st r) AND IORESOURCE_FIXED = 0"

definition allocation_order :: "store \<Rightarrow> u64 \<Rightarrow> u64 \<Rightarrow> dev list \<Rightarrow> (dev \<times> rid) list" where
  "allocation_order st type_mask type bus =
     sort_key (\<lambda>p. order_key st (snd p)) (filter (\<lambda>p. movable st (snd p)) (visited st type_mask type bus))"

lemma order_key_less:
  "order_key st a < order_key st b \<longleftrightarrow>
   res_align (st b) < res_align (st a) \<or> res_align (st a) = res_align (st b) \<and> res_size (st b) < res_size (st a)"
proof -
  have al: "unat (x :: u8) \<le> 255" for x using unsigned_less [of x, where 'a = nat] by simp
  have lt: "255 - unat (res_align (st a)) < 255 - unat (res_align (st b)) \<longleftrightarrow> res_align (st b) < res_align (st a)"
    unfolding word_less_nat_alt using al [of "res_align (st a)"] al [of "res_align (st b)"] by linarith
  have eq: "255 - unat (res_align (st a)) = 255 - unat (res_align (st b)) \<longleftrightarrow> res_align (st a) = res_align (st b)"
    unfolding word_unat_eq_iff using al [of "res_align (st a)"] al [of "res_align (st b)"] by linarith
  have le: "255 - unat (res_align (st a)) \<le> 255 - unat (res_align (st b)) \<longleftrightarrow> unat (res_align (st b)) \<le> unat (res_align (st a))"
    using al [of "res_align (st a)"] al [of "res_align (st b)"] by linarith
  obtain x y where xy: "unat (res_size (st a)) = x" "unat (res_size (st b)) = y" by blast
  have "x < 2 ^ 64" "y < 2 ^ 64"
    using unat_lt_64 [of "res_size (st a)"] unat_lt_64 [of "res_size (st b)"] xy by simp_all
  then have sz: "2 ^ 64 - 1 - x < 2 ^ 64 - 1 - y \<longleftrightarrow> y < x" by linarith
  show ?thesis
    unfolding order_key_def less_prod_simp xy sz le word_less_nat_alt word_unat_eq_iff
    using lt unfolding word_less_nat_alt by auto
qed

lemma order_key_eq:
  "order_key st a = order_key st b \<longleftrightarrow> res_align (st a) = res_align (st b) \<and> res_size (st a) = res_size (st b)"
proof -
  have "order_key st a = order_key st b \<longleftrightarrow> \<not> order_key st a < order_key st b \<and> \<not> order_key st b < order_key st a"
    by (metis neq_iff)
  then show ?thesis unfolding order_key_less word_less_nat_alt word_unat_eq_iff by linarith
qed

text \<open>The first of the least elements, found by one pass, is the head of the stable sort.\<close>

definition first_least :: "('a \<Rightarrow> 'k::linorder) \<Rightarrow> 'a list \<Rightarrow> 'a option \<Rightarrow> 'a option" where
  "first_least k xs acc =
     fold (\<lambda>x acc. case acc of None \<Rightarrow> Some x | Some y \<Rightarrow> if k x < k y then Some x else acc) xs acc"

lemma hd_insort: "hd (insort_key k x xs) = (if xs = [] then x else if k x \<le> k (hd xs) then x else hd xs)"
  by (cases xs) auto

lemma first_least_Some: "first_least k xs (Some y) = Some (hd (sort_key k (y # xs)))"
proof (induction xs arbitrary: y)
  case Nil
  then show ?case by (simp add: first_least_def)
next
  case (Cons x xs)
  have ne: "insort_key k a as \<noteq> []" for a as using set_insort_key [of k a as] by auto
  have "first_least k (x # xs) (Some y) = first_least k xs (Some (if k x < k y then x else y))"
    by (simp add: first_least_def)
  also have "\<dots> = Some (hd (sort_key k ((if k x < k y then x else y) # xs)))" by (rule Cons)
  also have "hd (sort_key k ((if k x < k y then x else y) # xs)) = hd (sort_key k (y # x # xs))"
    by (auto simp: hd_insort ne)
  finally show ?case .
qed

lemma first_least_None: "first_least k xs None = (case sort_key k xs of [] \<Rightarrow> None | x # _ \<Rightarrow> Some x)"
proof (cases xs)
  case Nil
  then show ?thesis by (simp add: first_least_def)
next
  case (Cons x ys)
  have "first_least k xs None = first_least k ys (Some x)" by (simp add: first_least_def Cons)
  also have "\<dots> = Some (hd (sort_key k xs))" unfolding Cons by (rule first_least_Some)
  finally show ?thesis using Cons by (cases "sort_key k xs") auto
qed


text \<open>What one search does: without a predecessor, and behind the resource returned last.\<close>

abbreviation pkey :: "store \<Rightarrow> dev \<times> rid \<Rightarrow> nat \<times> nat" where "pkey st p \<equiv> order_key st (snd p)"
abbreviation pmovable :: "store \<Rightarrow> dev \<times> rid \<Rightarrow> bool" where "pmovable st p \<equiv> movable st (snd p)"

lemma behind_iff:
  fixes l r :: "'k::linorder"
  shows "(P \<longleftrightarrow> r < l) \<Longrightarrow> (Q \<longleftrightarrow> l = r) \<Longrightarrow> P \<or> Q \<and> \<not> seen \<longleftrightarrow> \<not> (l < r \<or> l = r \<and> seen)"
  by (cases l r rule: linorder_cases) auto

lemma pick_step:
  "pick_largest_resource st d r state =
    (if pl_last state = Some r then state\<lparr>pl_seen_last := True\<rparr>
     else if movable st r \<and> (case pl_last state of None \<Rightarrow> True
        | Some l \<Rightarrow> order_key st l < order_key st r \<or> order_key st l = order_key st r \<and> pl_seen_last state)
       then state\<lparr>pl_result := first_least (pkey st) [(d, r)] (pl_result state)\<rparr>
     else state)"
proof -
  have behind: "res_align (st l) < res_align (st r) \<or>
      res_align (st l) = res_align (st r) \<and> res_size (st l) < res_size (st r) \<or>
      res_align (st l) = res_align (st r) \<and> res_size (st l) = res_size (st r) \<and> \<not> seen \<longleftrightarrow>
    \<not> (order_key st l < order_key st r \<or> order_key st l = order_key st r \<and> seen)" for l seen
  proof -
    have "order_key st r < order_key st l \<longleftrightarrow> res_align (st l) < res_align (st r) \<or>
        res_align (st l) = res_align (st r) \<and> res_size (st l) < res_size (st r)"
      unfolding order_key_less by (metis)
    from behind_iff [OF this [symmetric] order_key_eq [of st l r, symmetric], of seen] show ?thesis by simp
  qed
  have least: "res_align (st q) < res_align (st r) \<or>
      res_align (st q) = res_align (st r) \<and> res_size (st q) < res_size (st r) \<longleftrightarrow> order_key st r < order_key st q" for q
    unfolding order_key_less by metis
  show ?thesis
    unfolding pick_largest_resource_def behind least
    by (cases "pl_last state"; cases "pl_result state") (simp_all add: movable_def first_least_def split: prod.splits)
qed

lemma first_least_append: "first_least k (xs @ ys) acc = first_least k ys (first_least k xs acc)"
  by (simp add: first_least_def)

lemma pick_fold_first:
  "pl_last state = None \<Longrightarrow>
   fold (case_prod (pick_largest_resource st)) V state =
   state\<lparr>pl_result := first_least (pkey st) (filter (pmovable st) V) (pl_result state)\<rparr>"
proof (induction V arbitrary: state)
  case Nil
  then show ?case by (simp add: first_least_def)
next
  case (Cons p V)
  obtain d r where p: "p = (d, r)" by fastforce
  show ?case
    using Cons.IH [of "pick_largest_resource st d r state"] Cons.prems
      first_least_append [of "pkey st" "[(d, r)]" "filter (pmovable st) V"]
    by (simp add: p pick_step)
qed

lemma pick_fold_next:
  assumes "pl_last state = Some l" "l \<notin> snd ` set V"
  shows "fold (case_prod (pick_largest_resource st)) V state =
    state\<lparr>pl_result := first_least (pkey st)
      (filter (\<lambda>p. pmovable st p \<and> (order_key st l < pkey st p \<or> order_key st l = pkey st p \<and> pl_seen_last state)) V)
      (pl_result state)\<rparr>"
  using assms
proof (induction V arbitrary: state)
  case Nil
  then show ?case by (simp add: first_least_def)
next
  case (Cons p V)
  obtain d r where p: "p = (d, r)" by fastforce
  let ?P = "\<lambda>p. pmovable st p \<and> (order_key st l < pkey st p \<or> order_key st l = pkey st p \<and> pl_seen_last state)"
  have rl: "r \<noteq> l" "l \<notin> snd ` set V" using Cons.prems(2) p by auto
  have step: "pick_largest_resource st d r state =
      (if ?P (d, r) then state\<lparr>pl_result := first_least (pkey st) [(d, r)] (pl_result state)\<rparr> else state)"
    using rl(1) Cons.prems(1) unfolding pick_step by simp
  show ?case
  proof (cases "?P (d, r)")
    case True
    let ?s = "state\<lparr>pl_result := first_least (pkey st) [(d, r)] (pl_result state)\<rparr>"
    have "pl_last ?s = Some l" "pl_seen_last ?s = pl_seen_last state" using Cons.prems(1) by simp_all
    note IH = Cons.IH [OF this(1) rl(2), unfolded this(2)]
    have "filter ?P ((d, r) # V) = (d, r) # filter ?P V" unfolding filter.simps by (rule if_P) (rule True)
    then have e: "filter ?P ((d, r) # V) = [(d, r)] @ filter ?P V" by (simp only: append_Cons append_Nil)
    have s: "pick_largest_resource st d r state = ?s" unfolding step by (rule if_P) (rule True)
    show ?thesis unfolding p e first_least_append fold_Cons comp_def prod.case s IH by simp
  next
    case False
    have e: "filter ?P ((d, r) # V) = filter ?P V" unfolding filter.simps by (rule if_not_P) (rule False)
    have s: "pick_largest_resource st d r state = state" unfolding step by (rule if_not_P) (rule False)
    show ?thesis unfolding p e fold_Cons comp_def prod.case s by (rule Cons.IH [OF Cons.prems(1) rl(2)])
  qed
qed

lemma largest_first:
  "largest_resource st bus None type_mask type =
   (case allocation_order st type_mask type bus of [] \<Rightarrow> None | p # _ \<Rightarrow> Some p)"
  unfolding largest_resource_def search_visited allocation_order_def
  by (subst pick_fold_first) (simp_all add: first_least_None)

lemma largest_next:
  assumes dist: "distinct (map snd (visited st type_mask type bus))"
    and ord: "allocation_order st type_mask type bus = A @ (d, l) # B"
  shows "largest_resource st bus (Some l) type_mask type = (case B of [] \<Rightarrow> None | p # _ \<Rightarrow> Some p)"
proof -
  let ?V = "visited st type_mask type bus"
  let ?S = "allocation_order st type_mask type bus"
  have "(d, l) \<in> set ?S" using ord by simp
  then have mem: "(d, l) \<in> set ?V" and mv: "movable st l" by (auto simp: allocation_order_def)
  from mem obtain V1 V2 where V: "?V = V1 @ (d, l) # V2" by (auto simp: in_set_conv_decomp)
  have l: "l \<notin> snd ` set V1" "l \<notin> snd ` set V2" using dist unfolding V by (auto simp: rev_image_eqI)
  let ?C1 = "filter (\<lambda>p. pmovable st p \<and> order_key st l < pkey st p) V1"
  let ?C2 = "filter (\<lambda>p. pmovable st p \<and> (order_key st l < pkey st p \<or> order_key st l = pkey st p)) V2"
  let ?B1 = "filter (\<lambda>p. pmovable st p \<and> \<not> order_key st l < pkey st p) V1"
  let ?B2 = "filter (\<lambda>p. pmovable st p \<and> pkey st p < order_key st l) V2"
  let ?C = "?C1 @ ?C2" and ?Bf = "?B1 @ ?B2"
  have res: "largest_resource st bus (Some l) type_mask type = (case sort_key (pkey st) ?C of [] \<Rightarrow> None | p # _ \<Rightarrow> Some p)"
  proof -
    let ?s0 = "\<lparr>pl_last = Some l, pl_result = None, pl_seen_last = False\<rparr>"
    let ?s1 = "\<lparr>pl_last = Some l, pl_result = first_least (pkey st) ?C1 None, pl_seen_last = True\<rparr>"
    have one: "fold (case_prod (pick_largest_resource st)) V1 ?s0 =
        \<lparr>pl_last = Some l, pl_result = first_least (pkey st) ?C1 None, pl_seen_last = False\<rparr>"
      by (subst pick_fold_next [OF _ l(1)]) simp_all
    have "pl_result (fold (case_prod (pick_largest_resource st)) V2 ?s1) = first_least (pkey st) ?C2 (first_least (pkey st) ?C1 None)"
      by (subst pick_fold_next [OF _ l(2)]) simp_all
    also have "\<dots> = first_least (pkey st) ?C None" by (rule first_least_append [symmetric])
    also have "\<dots> = (case sort_key (pkey st) ?C of [] \<Rightarrow> None | p # _ \<Rightarrow> Some p)" by (rule first_least_None)
    finally show ?thesis
      unfolding largest_resource_def search_visited V fold_append fold_Cons comp_def prod.case one
      by (simp add: pick_step)
  qed
  have S: "?S = sort_key (pkey st) ?Bf @ (d, l) # sort_key (pkey st) ?C"
    unfolding allocation_order_def
  proof (rule properties_for_sort_key)
    show "mset (sort_key (pkey st) ?Bf @ (d, l) # sort_key (pkey st) ?C) = mset (filter (pmovable st) ?V)"
    proof -
      have "mset (filter (pmovable st) V1) = mset ?B1 + mset ?C1"
        by (induction V1) auto
      moreover have "mset (filter (pmovable st) V2) = mset ?B2 + mset ?C2"
        by (induction V2) (auto simp: not_less_iff_gr_or_eq)
      ultimately show ?thesis using mv by (simp add: V)
    qed
    show "filter (\<lambda>p. pkey st k = pkey st p) (sort_key (pkey st) ?Bf @ (d, l) # sort_key (pkey st) ?C) =
        filter (\<lambda>p. pkey st k = pkey st p) (filter (pmovable st) ?V)" for k
    proof -
      let ?K = "pkey st k" and ?L = "order_key st l"
      let ?f = "filter (\<lambda>p. pkey st p = ?K)" and ?m = "filter (pmovable st)"
      have c: "filter (\<lambda>p. ?K = pkey st p) xs = ?f xs" for xs :: "(dev \<times> rid) list"
        by (rule filter_cong) auto
      have parts: "?f ?B1 = (if ?L < ?K then [] else ?f (?m V1))" "?f ?B2 = (if ?K < ?L then ?f (?m V2) else [])"
        "?f ?C1 = (if ?L < ?K then ?f (?m V1) else [])" "?f ?C2 = (if ?K < ?L then [] else ?f (?m V2))"
        by (auto simp: filter_empty_conv intro!: filter_cong)
      show ?thesis
        unfolding c filter_append filter.simps sort_key_stable V parts using mv
        by (cases ?K ?L rule: linorder_cases) auto
    qed
    show "sorted (map (pkey st) (sort_key (pkey st) ?Bf @ (d, l) # sort_key (pkey st) ?C))"
      by (auto simp: sorted_append)
  qed
  have "distinct ?S"
    using dist by (simp add: allocation_order_def distinct_map)
  then have "(d, l) \<notin> set A" "(d, l) \<notin> set B" unfolding ord by auto
  then have "A = sort_key (pkey st) ?Bf \<and> B = sort_key (pkey st) ?C"
    using append_Cons_eq_iff [THEN iffD1, OF _ _ S [unfolded ord]] by blast
  with res show ?thesis by simp
qed

text \<open>
  The loop runs its body on the resources in this order, once each, and ends, when the body changes
  nothing the order depends on.
\<close>

lemma for_largest_from:
  assumes dist: "distinct (map snd (visited st type_mask type bus))"
    and same: "\<And>s. I s \<Longrightarrow> visited (get s) type_mask type bus = visited st type_mask type bus \<and>
      allocation_order (get s) type_mask type bus = allocation_order st type_mask type bus"
    and step: "\<And>d r s. I s \<Longrightarrow> (d, r) \<in> set (allocation_order st type_mask type bus) \<Longrightarrow> I (body d r s)"
  shows "I s \<Longrightarrow> allocation_order st type_mask type bus = A @ (d, l) # B \<Longrightarrow>
    for_largest get bus type_mask type body (Some l) s = Some (fold (case_prod body) B s) \<and> I (fold (case_prod body) B s)"
proof (induction B arbitrary: A d l s)
  case Nil
  have "largest_resource (get s) bus (Some l) type_mask type = None"
    using largest_next [of "get s" type_mask type bus A d l "[]"] same [OF Nil(1)] dist Nil(2) by simp
  then show ?case using Nil(1) by (subst for_largest.simps) simp
next
  case (Cons p B)
  obtain d' r where p: "p = (d', r)" by fastforce
  have next1: "largest_resource (get s) bus (Some l) type_mask type = Some (d', r)"
    using largest_next [of "get s" type_mask type bus A d l "p # B"] same [OF Cons.prems(1)] dist Cons.prems(2) by (simp add: p)
  have "(d', r) \<in> set (allocation_order st type_mask type bus)" unfolding Cons.prems(2) p by simp
  from step [OF Cons.prems(1) this] Cons.IH [of "body d' r s" "A @ [(d, l)]" d' r] Cons.prems(2)
  show ?case by (subst for_largest.simps) (simp add: next1 p)
qed

lemma for_largest_fold:
  assumes dist: "distinct (map snd (visited st type_mask type bus))"
    and same: "\<And>s. I s \<Longrightarrow> visited (get s) type_mask type bus = visited st type_mask type bus \<and>
      allocation_order (get s) type_mask type bus = allocation_order st type_mask type bus"
    and step: "\<And>d r s. I s \<Longrightarrow> (d, r) \<in> set (allocation_order st type_mask type bus) \<Longrightarrow> I (body d r s)"
    and init: "I s"
  shows "for_largest get bus type_mask type body None s =
      Some (fold (case_prod body) (allocation_order st type_mask type bus) s)"
    and "I (fold (case_prod body) (allocation_order st type_mask type bus) s)"
proof -
  have "for_largest get bus type_mask type body None s =
      Some (fold (case_prod body) (allocation_order st type_mask type bus) s) \<and>
    I (fold (case_prod body) (allocation_order st type_mask type bus) s)"
  proof (cases "allocation_order st type_mask type bus")
    case Nil
    then have "largest_resource (get s) bus None type_mask type = None"
      using largest_first [of "get s" bus type_mask type] same [OF init] by simp
    then show ?thesis using init Nil by (subst for_largest.simps) simp
  next
    case (Cons p B)
    obtain d r where p: "p = (d, r)" by fastforce
    have "largest_resource (get s) bus None type_mask type = Some (d, r)"
      using largest_first [of "get s" bus type_mask type] same [OF init] Cons by (simp add: p)
    moreover have "I (body d r s)" by (rule step [OF init]) (simp add: Cons p)
    ultimately show ?thesis
      using for_largest_from [where I = I and get = get and body = body and s = "body d r s" and A = "[]" and d = d and l = r and B = B,
          OF dist same step] Cons
      by (subst for_largest.simps) (simp add: p)
  qed
  then show "for_largest get bus type_mask type body None s =
      Some (fold (case_prod body) (allocation_order st type_mask type bus) s)"
    "I (fold (case_prod body) (allocation_order st type_mask type bus) s)" by blast+
qed

text \<open>Stores that agree on what the order depends on.\<close>

definition same_view :: "store \<Rightarrow> store \<Rightarrow> u64 \<Rightarrow> bool" where
  "same_view st st' type_mask \<longleftrightarrow>
     (\<forall>r. res_flags (st' r) AND type_mask = res_flags (st r) AND type_mask \<and>
       res_flags (st' r) AND IORESOURCE_SUBTRACTIVE = res_flags (st r) AND IORESOURCE_SUBTRACTIVE \<and>
       res_flags (st' r) AND IORESOURCE_FIXED = res_flags (st r) AND IORESOURCE_FIXED)"

lemma insort_key_agree: "\<forall>y\<in>insert x (set ys). f y = g y \<Longrightarrow> insort_key f x ys = insort_key g x ys"
  by (induction ys) auto

lemma sort_key_agree: "\<forall>y\<in>set ys. f y = g y \<Longrightarrow> sort_key f ys = sort_key g ys"
  by (induction ys) (simp_all add: insort_key_agree)

lemma same_view_order:
  assumes v: "same_view st st' type_mask"
    and k: "\<And>d r. (d, r) \<in> set (visited st type_mask type bus) \<Longrightarrow> order_key st' r = order_key st r"
  shows "visited st' type_mask type bus = visited st type_mask type bus \<and>
    allocation_order st' type_mask type bus = allocation_order st type_mask type bus"
proof -
  have V: "visited st' type_mask type bus = visited st type_mask type bus"
    by (rule visited_cong) (use v in \<open>simp_all add: same_view_def\<close>)
  have "filter (pmovable st') (visited st type_mask type bus) = filter (pmovable st) (visited st type_mask type bus)"
    using v by (simp add: same_view_def movable_def)
  moreover have "sort_key (pkey st') xs = sort_key (pkey st) xs" if "set xs \<subseteq> set (visited st type_mask type bus)" for xs
    using that k by (intro sort_key_agree) auto
  ultimately show ?thesis using V by (simp add: allocation_order_def)
qed


subsection \<open>Pass 1: the layout of a window\<close>

definition placeable :: "store \<Rightarrow> rid \<Rightarrow> bool" where
  "placeable st r \<longleftrightarrow> res_size (st r) \<noteq> 0 \<and> res_limit (st r) \<noteq> 0"

text \<open>An upper bound of the space a list of resources takes when each is rounded up to its alignment.\<close>

definition demand :: "store \<Rightarrow> rid list \<Rightarrow> nat" where
  "demand st rs = sum_list (map (\<lambda>r. unat (res_size (st r)) + (2 ^ unat (res_align (st r)) - 1)) (filter (placeable st) rs))"

abbreviation unstored :: "u64 \<Rightarrow> u64" where
  "unstored flags \<equiv> flags AND NOT (IORESOURCE_ASSIGNED OR IORESOURCE_STORED)"

text \<open>The state of the loop after the resources \<open>rs\<close>.\<close>

definition laid_out :: "alloc_config \<Rightarrow> store \<Rightarrow> rid \<Rightarrow> rid list \<Rightarrow> store \<times> resource_t \<Rightarrow> bool" where
  "laid_out cfg st0 b rs s \<longleftrightarrow>
     (case s of (st, base) \<Rightarrow>
        unat base \<le> demand st0 rs \<and>
        (\<forall>r. r \<noteq> b \<and> r \<notin> set rs \<longrightarrow> st r = st0 r) \<and>
        (\<forall>r\<in>set rs. \<not> placeable st0 r \<longrightarrow> st r = st0 r) \<and>
        (\<forall>r\<in>set rs. placeable st0 r \<longrightarrow>
          st r = (st0 r)\<lparr>res_base := res_base (st r), res_flags := unstored (res_flags (st0 r))\<rparr> \<and>
          2 ^ unat (res_align (st0 r)) dvd unat (res_base (st r)) \<and>
          unat (res_base (st r)) + unat (res_size (st0 r)) \<le> unat base \<and>
          res_align (st0 r) \<le> res_align (st b) \<and> res_limit (st b) \<le> effective_limit cfg (st0 r)) \<and>
        sorted_wrt (\<lambda>p q. unat (res_base (st p)) + unat (res_size (st0 p)) \<le> unat (res_base (st q)))
          (filter (placeable st0) rs) \<and>
        st b = (st0 b)\<lparr>res_align := res_align (st b), res_limit := res_limit (st b)\<rparr> \<and>
        res_align (st0 b) \<le> res_align (st b) \<and> res_limit (st b) \<le> res_limit (st0 b))"

lemma laid_out_Nil: "laid_out cfg st0 b [] (st0, 0)"
  by (simp add: laid_out_def demand_def)

lemma demand_snoc:
  "demand st (rs @ [r]) = demand st rs +
    (if placeable st r then unat (res_size (st r)) + (2 ^ unat (res_align (st r)) - 1) else 0)"
  by (simp add: demand_def)

lemma round_base:
  assumes "unat a \<le> 63" "unat base + (2 ^ unat a - 1) + unat size1 < 2 ^ 64"
  defines "w \<equiv> ALIGN_UP base (POWER_OF_2 a)"
  shows "2 ^ unat a dvd unat w" "unat base \<le> unat w" "unat w \<le> unat base + (2 ^ unat a - 1)"
    "unat (w + size1) = unat w + unat size1"
proof -
  have w: "unat w = (unat base + (2 ^ unat a - 1)) div 2 ^ unat a * 2 ^ unat a"
    unfolding w_def POWER_OF_2_eq using assms(1,2) by (subst unat_ALIGN_UP) simp_all
  show "2 ^ unat a dvd unat w" unfolding w by simp
  show "unat base \<le> unat w" unfolding w by (rule round_up_ge) simp
  show le: "unat w \<le> unat base + (2 ^ unat a - 1)" unfolding w by (rule div_times_less_eq_dividend)
  show "unat (w + size1) = unat w + unat size1"
    using le assms(2) by (intro unat_add_no_wrap) simp
qed

lemma laid_out_step:
  assumes L: "laid_out cfg st0 b rs s" and c: "c \<noteq> b" "c \<notin> set rs" "b \<notin> set rs"
    and al: "placeable st0 c \<Longrightarrow> unat (res_align (st0 c)) \<le> 63" and fit: "demand st0 (rs @ [c]) < 2 ^ 64"
  shows "laid_out cfg st0 b (rs @ [c]) (place_child cfg b d c s)"
proof -
  obtain st base where s: "s = (st, base)" by fastforce
  note L = L [unfolded laid_out_def s prod.case]
  have stc: "st c = st0 c" using L c by simp
  show ?thesis
  proof (cases "placeable st0 c")
    case False
    then have "place_child cfg b d c s = (st, base)"
      by (auto simp: place_child_def s stc placeable_def)
    moreover have "filter (placeable st0) (rs @ [c]) = filter (placeable st0) rs" using False by simp
    ultimately show ?thesis using L False stc by (auto simp: laid_out_def demand_snoc)
  next
    case True
    let ?w = "ALIGN_UP base (POWER_OF_2 (res_align (st0 c)))"
    let ?a = "if res_align (st b) < res_align (st0 c) then res_align (st0 c) else res_align (st b)"
    let ?l = "if effective_limit cfg (st0 c) < res_limit (st b) then effective_limit cfg (st0 c) else res_limit (st b)"
    let ?st = "st(b := (st b)\<lparr>res_align := ?a, res_limit := ?l\<rparr>,
      c := (st0 c)\<lparr>res_base := ?w, res_flags := unstored (res_flags (st0 c))\<rparr>)"
    have bound: "unat base + (2 ^ unat (res_align (st0 c)) - 1) + unat (res_size (st0 c)) < 2 ^ 64"
    proof -
      obtain N S D :: nat where o: "2 ^ unat (res_align (st0 c)) - 1 = N" "unat (res_size (st0 c)) = S"
        "demand st0 rs = D" by blast
      have "unat base \<le> D" using L o(3) by blast
      moreover have "D + (S + N) < 2 ^ 64" using fit unfolding demand_snoc o using True by (simp only: if_True)
      ultimately show ?thesis unfolding o by linarith
    qed
    note W = round_base [OF al [OF True] bound]
    have eq: "place_child cfg b d c s = (?st, ?w + res_size (st0 c))"
      using True c(1) by (simp add: place_child_def s stc placeable_def Let_def fun_upd_twist)
    define w where "w = ?w"
    define st' where "st' = ?st"
    have st'b: "st' b = (st b)\<lparr>res_align := ?a, res_limit := ?l\<rparr>"
      and st'c: "st' c = (st0 c)\<lparr>res_base := w, res_flags := unstored (res_flags (st0 c))\<rparr>"
      and st'o: "\<And>r. r \<noteq> b \<Longrightarrow> r \<noteq> c \<Longrightarrow> st' r = st r"
      using c by (simp_all add: st'_def w_def)
    note W = W [folded w_def]
    have frame: "\<forall>r. r \<noteq> b \<and> r \<notin> set (rs @ [c]) \<longrightarrow> st' r = st0 r" using L st'o by simp
    have skip: "\<forall>r\<in>set (rs @ [c]). \<not> placeable st0 r \<longrightarrow> st' r = st0 r"
    proof (intro ballI impI)
      fix r assume r: "r \<in> set (rs @ [c])" "\<not> placeable st0 r"
      then have "r \<in> set rs" "r \<noteq> c" using True by auto
      moreover from this have "r \<noteq> b" using c by auto
      ultimately show "st' r = st0 r" using L r(2) st'o by simp
    qed
    have ge: "res_align (st b) \<le> ?a" "res_align (st0 c) \<le> ?a" "?l \<le> res_limit (st b)" "?l \<le> effective_limit cfg (st0 c)"
      by (auto simp: not_less)
    have old: "st' r = (st0 r)\<lparr>res_base := res_base (st' r), res_flags := unstored (res_flags (st0 r))\<rparr> \<and>
        2 ^ unat (res_align (st0 r)) dvd unat (res_base (st' r)) \<and>
        unat (res_base (st' r)) + unat (res_size (st0 r)) \<le> unat w + unat (res_size (st0 c)) \<and>
        res_align (st0 r) \<le> res_align (st' b) \<and> res_limit (st' b) \<le> effective_limit cfg (st0 r)"
      if "r \<in> set rs" "placeable st0 r" for r
    proof -
      have rbc: "r \<noteq> b" "r \<noteq> c" using that c by auto
      note O = L [THEN conjunct2, THEN conjunct2, THEN conjunct2, THEN conjunct1, rule_format, OF that]
      from O have al: "res_align (st0 r) \<le> res_align (st b)" and li: "res_limit (st b) \<le> effective_limit cfg (st0 r)"
        and en: "unat (res_base (st r)) + unat (res_size (st0 r)) \<le> unat base" by blast+
      have "unat (res_base (st r)) + unat (res_size (st0 r)) \<le> unat w + unat (res_size (st0 c))"
        using en W(2) by linarith
      moreover have "res_align (st0 r) \<le> res_align (st' b)" using order_trans [OF al ge(1)] unfolding st'b by simp
      moreover have "res_limit (st' b) \<le> effective_limit cfg (st0 r)" using order_trans [OF ge(3) li] unfolding st'b by simp
      ultimately show ?thesis unfolding st'o [OF rbc] using O by blast
    qed
    have new: "st' c = (st0 c)\<lparr>res_base := res_base (st' c), res_flags := unstored (res_flags (st0 c))\<rparr> \<and>
        2 ^ unat (res_align (st0 c)) dvd unat (res_base (st' c)) \<and>
        unat (res_base (st' c)) + unat (res_size (st0 c)) \<le> unat w + unat (res_size (st0 c)) \<and>
        res_align (st0 c) \<le> res_align (st' b) \<and> res_limit (st' b) \<le> effective_limit cfg (st0 c)"
      unfolding st'c st'b using W(1) ge by simp
    have srt: "sorted_wrt (\<lambda>p q. unat (res_base (st' p)) + unat (res_size (st0 p)) \<le> unat (res_base (st' q)))
        (filter (placeable st0) (rs @ [c]))"
    proof -
      have "sorted_wrt (\<lambda>p q. unat (res_base (st' p)) + unat (res_size (st0 p)) \<le> unat (res_base (st' q)))
          (filter (placeable st0) rs)"
      proof (rule sorted_wrt_mono_rel [where P = "\<lambda>p q. unat (res_base (st p)) + unat (res_size (st0 p)) \<le> unat (res_base (st q))"])
        fix p q assume "p \<in> set (filter (placeable st0) rs)" "q \<in> set (filter (placeable st0) rs)"
        then have "st' p = st p" "st' q = st q" using c by (auto intro!: st'o)
        moreover assume "unat (res_base (st p)) + unat (res_size (st0 p)) \<le> unat (res_base (st q))"
        ultimately show "unat (res_base (st' p)) + unat (res_size (st0 p)) \<le> unat (res_base (st' q))" by simp
      qed (use L in blast)
      moreover have "unat (res_base (st' p)) + unat (res_size (st0 p)) \<le> unat (res_base (st' c))"
        if "p \<in> set (filter (placeable st0) rs)" for p
      proof -
        have "st' p = st p" using that c by (auto intro!: st'o)
        moreover have "unat (res_base (st p)) + unat (res_size (st0 p)) \<le> unat base" using L that by simp
        moreover have "res_base (st' c) = w" unfolding st'c by simp
        ultimately show ?thesis using W(2) by simp
      qed
      ultimately show ?thesis using True by (simp add: sorted_wrt_append)
    qed
    have dem: "unat (w + res_size (st0 c)) \<le> demand st0 (rs @ [c])"
    proof -
      obtain N S D :: nat where o: "2 ^ unat (res_align (st0 c)) - 1 = N" "unat (res_size (st0 c)) = S"
        "demand st0 rs = D" by blast
      have "unat base \<le> D" using L o(3) by blast
      then show ?thesis using W(3) True unfolding demand_snoc o W(4) by simp
    qed
    have bridge: "st' b = (st0 b)\<lparr>res_align := res_align (st' b), res_limit := res_limit (st' b)\<rparr>"
    proof -
      have "st b = (st0 b)\<lparr>res_align := res_align (st b), res_limit := res_limit (st b)\<rparr>" using L by blast
      then obtain x y where "st b = (st0 b)\<lparr>res_align := x, res_limit := y\<rparr>" by blast
      then show ?thesis unfolding st'b by simp
    qed
    have mono: "res_align (st0 b) \<le> res_align (st' b)" "res_limit (st' b) \<le> res_limit (st0 b)"
    proof -
      have "res_align (st0 b) \<le> res_align (st b)" "res_limit (st b) \<le> res_limit (st0 b)" using L by blast+
      then show "res_align (st0 b) \<le> res_align (st' b)" "res_limit (st' b) \<le> res_limit (st0 b)"
        unfolding st'b using ge order_trans by fastforce+
    qed
    have "place_child cfg b d c s = (st', w + res_size (st0 c))" unfolding eq st'_def w_def by (rule refl)
    then show ?thesis
      unfolding laid_out_def using dem frame skip srt bridge mono old new by (auto simp: W(4))
  qed
qed


lemma unstored_masks:
  "unstored f AND (IORESOURCE_TYPE_MASK OR IORESOURCE_PREFETCH) = f AND (IORESOURCE_TYPE_MASK OR IORESOURCE_PREFETCH)"
  "unstored f AND IORESOURCE_TYPE_MASK = f AND IORESOURCE_TYPE_MASK"
  "unstored f AND IORESOURCE_SUBTRACTIVE = f AND IORESOURCE_SUBTRACTIVE"
  "unstored f AND IORESOURCE_FIXED = f AND IORESOURCE_FIXED"
  "unstored f AND IORESOURCE_BRIDGE = f AND IORESOURCE_BRIDGE"
  "unstored f AND IORESOURCE_ASSIGNED = 0"
proof -
  have m: "unstored f AND m = f AND m" if "NOT (IORESOURCE_ASSIGNED OR IORESOURCE_STORED) AND m = m" for m
    unfolding and.assoc that ..
  note defs = IORESOURCE_TYPE_MASK_def IORESOURCE_PREFETCH_def IORESOURCE_IO_def IORESOURCE_MEM_def IORESOURCE_IRQ_def
    IORESOURCE_DRQ_def IORESOURCE_SUBTRACTIVE_def IORESOURCE_FIXED_def IORESOURCE_BRIDGE_def IORESOURCE_ASSIGNED_def
    IORESOURCE_STORED_def
  show "unstored f AND (IORESOURCE_TYPE_MASK OR IORESOURCE_PREFETCH) = f AND (IORESOURCE_TYPE_MASK OR IORESOURCE_PREFETCH)"
    "unstored f AND IORESOURCE_TYPE_MASK = f AND IORESOURCE_TYPE_MASK"
    "unstored f AND IORESOURCE_SUBTRACTIVE = f AND IORESOURCE_SUBTRACTIVE"
    "unstored f AND IORESOURCE_FIXED = f AND IORESOURCE_FIXED"
    "unstored f AND IORESOURCE_BRIDGE = f AND IORESOURCE_BRIDGE"
    by (rule m, simp add: defs)+
  have "NOT (IORESOURCE_ASSIGNED OR IORESOURCE_STORED) AND IORESOURCE_ASSIGNED = 0" by (simp add: defs)
  then show "unstored f AND IORESOURCE_ASSIGNED = 0" unfolding and.assoc by simp
qed

definition bridge_mask :: u64 where "bridge_mask = IORESOURCE_TYPE_MASK OR IORESOURCE_PREFETCH"

text \<open>The resources behind a window in the order of their placement, and those that get a place.\<close>

definition window_order :: "store \<Rightarrow> dev list \<Rightarrow> rid \<Rightarrow> rid list" where
  "window_order st bus b = map snd (allocation_order st bridge_mask (res_flags (st b) AND bridge_mask) bus)"

definition window_children :: "store \<Rightarrow> dev list \<Rightarrow> rid \<Rightarrow> rid list" where
  "window_children st bus b = filter (placeable st) (window_order st bus b)"

text \<open>What pass 1 writes does not move the loop.\<close>

definition same_order :: "store \<Rightarrow> rid \<Rightarrow> store \<times> resource_t \<Rightarrow> bool" where
  "same_order st0 b s \<longleftrightarrow>
     same_view st0 (fst s) bridge_mask \<and> (\<forall>r. r \<noteq> b \<longrightarrow> order_key (fst s) r = order_key st0 r)"

lemma place_child_fields:
  assumes "c \<noteq> b"
  shows "res_flags (fst (place_child cfg b d c s) r) =
      (if r = c \<and> placeable (fst s) c then unstored (res_flags (fst s c)) else res_flags (fst s r))"
    and "res_size (fst (place_child cfg b d c s) r) = res_size (fst s r)"
    and "r \<noteq> b \<Longrightarrow> res_align (fst (place_child cfg b d c s) r) = res_align (fst s r)"
  using assms by (cases s; auto simp: place_child_def placeable_def Let_def)+

lemma place_child_same_order:
  assumes "same_order st0 b s" "c \<noteq> b"
  shows "same_order st0 b (place_child cfg b d c s)"
proof -
  note f = place_child_fields [OF assms(2), where cfg = cfg and d = d and s = s]
  have "same_view st0 (fst (place_child cfg b d c s)) bridge_mask"
    using assms(1) unfolding same_order_def same_view_def bridge_mask_def f(1)
    by (auto simp del: bit.conj_disj_distrib bit.de_Morgan_disj simp: unstored_masks)
  moreover have "order_key (fst (place_child cfg b d c s)) r = order_key (fst s) r" if "r \<noteq> b" for r
    using that by (simp add: order_key_def f)
  ultimately show ?thesis using assms(1) by (simp add: same_order_def)
qed

lemma laid_out_fold:
  assumes "distinct (map snd ps)" "b \<notin> snd ` set ps"
    and "\<And>r. r \<in> snd ` set ps \<Longrightarrow> placeable st0 r \<Longrightarrow> unat (res_align (st0 r)) \<le> 63"
    and "demand st0 (map snd ps) < 2 ^ 64"
  shows "laid_out cfg st0 b (map snd ps) (fold (case_prod (place_child cfg b)) ps (st0, 0))"
  using assms
proof (induction ps rule: rev_induct)
  case Nil
  show ?case by (simp add: laid_out_Nil)
next
  case (snoc p ps)
  obtain d c where p: "p = (d, c)" by fastforce
  have fit: "demand st0 (map snd ps @ [c]) < 2 ^ 64" using snoc.prems(4) by (simp add: p)
  then have "demand st0 (map snd ps) < 2 ^ 64" by (simp add: demand_snoc)
  then have "laid_out cfg st0 b (map snd ps) (fold (case_prod (place_child cfg b)) ps (st0, 0))"
    using snoc.prems by (intro snoc.IH) auto
  then have "laid_out cfg st0 b (map snd ps @ [c]) (place_child cfg b d c (fold (case_prod (place_child cfg b)) ps (st0, 0)))"
    by (rule laid_out_step) (use snoc.prems fit in \<open>auto simp: p\<close>)
  then show ?case by (simp add: p)
qed

lemma set_window_order: "set (window_order st bus b) \<subseteq> snd ` set (visited st bridge_mask (res_flags (st b) AND bridge_mask) bus)"
  by (auto simp: window_order_def allocation_order_def)

lemma update_bridge_loop:
  assumes dist: "distinct (map snd (visited st bridge_mask (res_flags (st b) AND bridge_mask) bus))"
    and b: "b \<notin> snd ` set (visited st bridge_mask (res_flags (st b) AND bridge_mask) bus)"
  shows "for_largest fst bus bridge_mask (res_flags (st b) AND bridge_mask) (place_child cfg b) None (st, 0) =
    Some (fold (case_prod (place_child cfg b)) (allocation_order st bridge_mask (res_flags (st b) AND bridge_mask) bus) (st, 0))"
proof -
  let ?type = "res_flags (st b) AND bridge_mask"
  let ?ps = "allocation_order st bridge_mask ?type bus"
  have ps: "snd ` set ?ps \<subseteq> snd ` set (visited st bridge_mask ?type bus)" by (auto simp: allocation_order_def)
  have view: "visited (fst s) bridge_mask ?type bus = visited st bridge_mask ?type bus \<and>
      allocation_order (fst s) bridge_mask ?type bus = ?ps" if "same_order st b s" for s
    using that b unfolding same_order_def by (intro same_view_order) (auto simp: rev_image_eqI)
  have step: "same_order st b (place_child cfg b d r s)"
    if "same_order st b s" "(d, r) \<in> set ?ps" for d r s
  proof (rule place_child_same_order [OF that(1)])
    show "r \<noteq> b" using that(2) b ps by force
  qed
  show ?thesis
    by (rule for_largest_fold(1) [where I = "same_order st b" and get = fst, OF dist view step])
      (simp_all add: same_order_def same_view_def)
qed

lemma update_bridge_facts:
  assumes dist: "distinct (map snd (visited st bridge_mask (res_flags (st b) AND bridge_mask) bus))"
    and b: "b \<notin> snd ` set (visited st bridge_mask (res_flags (st b) AND bridge_mask) bus)"
    and al: "\<And>r. r \<in> set (window_children st bus b) \<Longrightarrow> unat (res_align (st r)) \<le> 63"
    and fit: "demand st (window_children st bus b) < 2 ^ 64"
  obtains st1 base where "laid_out cfg st b (window_order st bus b) (st1, base)"
    and "update_bridge_resource cfg bus b st =
      Some (st1(b := (st1 b)\<lparr>res_size := ALIGN_UP base (POWER_OF_2 (res_gran (st b)))\<rparr>))"
proof -
  let ?type = "res_flags (st b) AND bridge_mask"
  let ?ps = "allocation_order st bridge_mask ?type bus"
  let ?s = "fold (case_prod (place_child cfg b)) ?ps (st, 0)"
  have ps: "snd ` set ?ps \<subseteq> snd ` set (visited st bridge_mask ?type bus)" by (auto simp: allocation_order_def)
  have dist': "distinct (map snd ?ps)" using dist by (auto simp: allocation_order_def distinct_map inj_on_def)
  have dm: "demand st (window_order st bus b) = demand st (window_children st bus b)"
    by (simp add: demand_def window_children_def)
  have L: "laid_out cfg st b (window_order st bus b) ?s"
    unfolding window_order_def
  proof (rule laid_out_fold)
    show "b \<notin> snd ` set ?ps" using b ps by auto
    show "unat (res_align (st r)) \<le> 63" if "r \<in> snd ` set ?ps" "placeable st r" for r
      using that by (intro al) (simp add: window_children_def window_order_def)
    show "demand st (map snd ?ps) < 2 ^ 64" using fit dm by (simp add: window_order_def)
  qed (rule dist')
  have "for_largest fst bus bridge_mask ?type (place_child cfg b) None (st, 0) = Some ?s"
    by (rule update_bridge_loop [OF dist b])
  moreover obtain st1 base where s: "?s = (st1, base)" by fastforce
  moreover have "res_gran (st1 b) = res_gran (st b)"
  proof -
    have "st1 b = (st b)\<lparr>res_align := res_align (st1 b), res_limit := res_limit (st1 b)\<rparr>"
      using L by (simp add: laid_out_def s)
    then obtain x y where "st1 b = (st b)\<lparr>res_align := x, res_limit := y\<rparr>" by blast
    then show ?thesis by simp
  qed
  ultimately have "update_bridge_resource cfg bus b st =
      Some (st1(b := (st1 b)\<lparr>res_size := ALIGN_UP base (POWER_OF_2 (res_gran (st b)))\<rparr>))"
    by (simp add: update_bridge_resource_def bridge_mask_def)
  with L s that show ?thesis by metis
qed


subsection \<open>Runs of addresses in the range map\<close>

text \<open>Addresses of one tag that follow each other lie in one range, also after holes were made.\<close>

definition whole_runs :: "mst \<Rightarrow> bool" where
  "whole_runs s \<longleftrightarrow> (\<forall>a b t. a \<le> b \<longrightarrow> (\<forall>x. a \<le> x \<longrightarrow> x \<le> b \<longrightarrow> tagged s x = Some t) \<longrightarrow>
     (\<exists>r\<in>set (entries (fst s)). r_begin r \<le> a \<and> b \<le> r_end r \<and> r_tag r = t))"

lemma whole_runsI: "mst_ok s \<Longrightarrow> no_mergeable (entries (fst s)) \<Longrightarrow> whole_runs s"
  unfolding whole_runs_def mst_ok_def using same_tag_one_range by blast

lemma remove_begins:
  assumes "ranges_ok es" "span_ok es b e"
  shows "\<forall>q\<in>set (fst (remove_memranges es b e c)).
    \<exists>s\<in>set es. (r_begin q = r_begin s \<or> r_begin q = e + 1 \<and> e < r_begin q) \<and> r_begin s \<le> r_begin q \<and> r_end q \<le> r_end s"
  using assms
proof (induction rule: remove_induct)
  case (hole cur rest b c)
  note u = unat_inc_lt [OF hole(4)] unat_dec_gt [OF hole(3)]
  have "e < e + 1" "r_begin cur \<le> e + 1" "b - 1 \<le> r_end cur"
    using u hole(2-4) by (simp_all add: unat_simps)
  then show ?case
    using range_list_add_cases [of c "e + 1" "r_end cur" "r_tag cur" rest] by auto
next
  case (front cur rest b c)
  then show ?case using unat_inc_lt [OF front(4)] by (auto simp: unat_simps)
next
  case (rear cur rest b c res)
  then show ?case using unat_dec_gt [OF rear(3)] by (auto simp: unat_simps)
qed auto

lemma remove_action_begins:
  assumes "mst_ok s" "b \<le> e" "q \<in> set (entries (fst (remove_action s b e u)))"
  shows "\<exists>r\<in>set (entries (fst s)). (r_begin q = r_begin r \<or> r_begin q = e + 1 \<and> e < r_begin q) \<and> r_begin r \<le> r_begin q \<and> r_end q \<le> r_end r"
  using remove_begins [of "entries (fst s)" b e "(free_list (fst s), snd s)"] assms
  by (auto simp: remove_action_def mst_ok_def span_ok_def split: prod.splits)

lemma hole_runs:
  assumes ok: "mst_ok s" and sp: "0 < spare_cells s" and v: "valid_span s base size1" "size1 \<noteq> 0" and w: "whole_runs s"
  shows "whole_runs (memranges_create_hole s base size1)"
  unfolding whole_runs_def
proof (intro allI impI)
  fix a b t
  assume ab: "a \<le> b" and run: "\<forall>x. a \<le> x \<longrightarrow> x \<le> b \<longrightarrow> tagged (memranges_create_hole s base size1) x = Some t"
  let ?B = "action_begin (unat (align (fst s))) base" and ?E = "action_end (unat (align (fst s))) base size1"
  let ?s = "remove_action s ?B ?E (- 1)"
  from v have spn: "unat (align (fst s)) \<le> 63" "size1 \<noteq> 0" "unat base + unat size1 \<le> 2 ^ 64"
    by (simp_all add: valid_span_def)
  have be: "?B \<le> ?E" by (rule action_span(2) [OF spn])
  have eq: "memranges_create_hole s base size1 = ?s" by (simp add: memranges_create_hole_def do_action_eq spn)
  note f = remove_action_facts [OF ok be, where u = "- 1"]
  have ok': "ranges_ok (entries (fst ?s))" using f(1) by (simp add: mst_ok_def)
  have tg: "tagged ?s x = (if ?B \<le> x \<and> x \<le> ?E then None else tagged s x)" for x by (rule f(4)) (rule sp)
  from run have run': "tagged s x = Some t" "\<not> (?B \<le> x \<and> x \<le> ?E)" if "a \<le> x" "x \<le> b" for x
    using that unfolding eq tg by (auto split: if_splits)
  then obtain r where r: "r \<in> set (entries (fst s))" "r_begin r \<le> a" "b \<le> r_end r" "r_tag r = t"
    using w ab unfolding whole_runs_def by meson
  from run ab have "tagged ?s a = Some t" unfolding eq by simp
  then obtain q where q: "q \<in> set (entries (fst ?s))" "r_begin q \<le> a" "a \<le> r_end q" "r_tag q = t"
    using tag_at_Some_mem by blast
  have "b \<le> r_end q"
  proof (rule ccontr)
    assume "\<not> b \<le> r_end q"
    then have lt: "r_end q < b" by simp
    let ?x = "r_end q + 1"
    have i: "unat ?x = unat (r_end q) + 1" by (rule unat_inc_lt [OF lt])
    have x: "a \<le> ?x" "?x \<le> b" "a < ?x" using i lt q(3) by (simp_all add: unat_simps)
    with run have "tagged ?s ?x = Some t" unfolding eq by simp
    then obtain p where p: "p \<in> set (entries (fst ?s))" "r_begin p \<le> ?x" "?x \<le> r_end p"
      using tag_at_Some_mem by blast
    have "p \<noteq> q" using p(3) i by (auto simp: unat_simps)
    then have "r_end p < r_begin q \<or> r_end q < r_begin p" using ranges_ok_apart [OF ok' p(1) q(1)] by blast
    then have px: "r_begin p = ?x" using p(2,3) q(2,3) i by (auto simp: unat_simps intro!: word_eq_unatI)
    obtain s1 where s1: "s1 \<in> set (entries (fst s))"
      "r_begin p = r_begin s1 \<or> r_begin p = ?E + 1 \<and> ?E < r_begin p" "r_begin s1 \<le> r_begin p" "r_end p \<le> r_end s1"
      using remove_action_begins [OF ok be p(1)] by blast
    have "\<not> (r_begin p = ?E + 1 \<and> ?E < r_begin p)"
    proof
      assume E: "r_begin p = ?E + 1 \<and> ?E < r_begin p"
      then have "?E = r_end q" using px by simp
      then have "a \<le> ?E" "?E \<le> b" using q(3) lt by (auto simp: unat_simps)
      from run'(2) [OF this] be show False by simp
    qed
    then have b1: "r_begin s1 = ?x" using s1(2) px by metis
    have "s1 \<noteq> r" using b1 r(2) x(3) by auto
    then have "r_end s1 < r_begin r \<or> r_end r < r_begin s1"
      using ranges_ok_apart [of "entries (fst s)" s1 r] ok s1(1) r(1) by (auto simp: mst_ok_def)
    moreover have "r_begin r \<le> ?x" "?x \<le> r_end r" "?x \<le> r_end s1"
      using r(2,3) x p(3) s1(4) by auto
    ultimately show False unfolding b1 by auto
  qed
  with q eq show "\<exists>r\<in>set (entries (fst (memranges_create_hole s base size1))). r_begin r \<le> a \<and> b \<le> r_end r \<and> r_tag r = t"
    by auto
qed

text \<open>A search that fails has no room anywhere in the free addresses.\<close>

lemma steal_none:
  assumes ok: "mst_ok s" and w: "whole_runs s" and sz: "size1 \<noteq> 0"
    and bnd: "search_in_bounds size1 (unat al) (entries (fst s))"
    and none: "fst (memranges_steal s limit size1 al tag ft) = None"
    and b: "2 ^ unat al dvd unat b" "unat b + unat size1 \<le> unat limit + 1"
  shows "\<exists>x. b \<le> x \<and> unat x < unat b + unat size1 \<and> tagged s x \<noteq> Some tag"
proof (rule ccontr)
  assume "\<not> ?thesis"
  then have all: "tagged s x = Some tag" if "b \<le> x" "unat x < unat b + unat size1" for x using that by blast
  have pos: "0 < unat size1" using sz by (simp add: unat_gt_0)
  let ?e = "b + (size1 - 1)"
  have e: "unat ?e = unat b + unat size1 - 1"
  proof -
    have "unat (size1 - 1) = unat size1 - 1" using sz by (intro unat_pred) (simp add: unat_gt_0)
    moreover have "unat b + (unat size1 - 1) < 2 ^ 64" using b(2) pos unat_lt_64 [of limit] by simp
    ultimately show ?thesis using pos by (subst unat_add_no_wrap) simp_all
  qed
  have "b \<le> ?e" using e pos by (simp add: unat_simps)
  moreover have "tagged s x = Some tag" if "b \<le> x" "x \<le> ?e" for x
    using that e pos by (intro all) (simp_all add: unat_simps)
  ultimately obtain r where r: "r \<in> set (entries (fst s))" "r_begin r \<le> b" "?e \<le> r_end r" "r_tag r = tag"
    using w unfolding whole_runs_def by meson
  then have "placement r limit size1 (unat al) tag b"
    using b e pos unfolding placement_def by (simp add: unat_simps)
  with steal_optimal [OF ok sz bnd, of limit tag ft] none r(1) show False by simp
qed


subsection \<open>The ranges of a domain\<close>

type_synonym span = "resource_t \<times> resource_t"

text \<open>A usable map that has \<open>n\<close> spare cells.\<close>

definition usable :: "mst \<Rightarrow> nat \<Rightarrow> bool" where
  "usable s n \<longleftrightarrow> mst_ok s \<and> whole_runs s \<and> unat (align (fst s)) \<le> 63 \<and> n \<le> spare_cells s"

definition spans_ok :: "span list \<Rightarrow> bool" where
  "spans_ok ss \<longleftrightarrow> (\<forall>(b, n)\<in>set ss. n \<noteq> 0 \<and> unat b + unat n \<le> 2 ^ 64)"

definition hit :: "nat \<Rightarrow> span list \<Rightarrow> addr \<Rightarrow> bool" where
  "hit k ss x \<longleftrightarrow> (\<exists>(b, n)\<in>set ss. touches k b n x)"

lemma hit_Nil [simp]: "\<not> hit k [] x"
  by (simp add: hit_def)

lemma hit_Cons: "hit k ((b, n) # ss) x \<longleftrightarrow> touches k b n x \<or> hit k ss x"
  by (auto simp: hit_def)

lemma insert_usable:
  assumes "usable s (Suc (Suc N))" "n \<noteq> 0" "unat b + unat n \<le> 2 ^ 64"
  shows "usable (memranges_insert s b n t) N"
proof -
  have v: "mst_ok s" "2 \<le> spare_cells s" "valid_span s b n" using assms by (auto simp: usable_def valid_span_def)
  note f = insert_facts [OF v assms(2), where t = t]
  have "spare_cells s \<le> spare_cells (memranges_insert s b n t) + 2"
    using insert_length [OF v(1,3) assms(2), of t] f(3) by (simp add: cells_total_def spare_cells_def)
  with f assms(1) show ?thesis by (simp add: usable_def whole_runsI)
qed

lemma hole_usable:
  assumes "usable s (Suc N)" "n \<noteq> 0" "unat b + unat n \<le> 2 ^ 64"
  shows "usable (memranges_create_hole s b n) N"
proof -
  have v: "mst_ok s" "0 < spare_cells s" "valid_span s b n" using assms by (auto simp: usable_def valid_span_def)
  from v(3) assms(2) have sp: "unat (align (fst s)) \<le> 63" "n \<noteq> 0" "unat b + unat n \<le> 2 ^ 64"
    by (simp_all add: valid_span_def)
  note f = hole_facts [OF v assms(2)]
  have "spare_cells s \<le> Suc (spare_cells (memranges_create_hole s b n))"
    using remove_action_facts(5) [OF v(1) action_span(2) [OF sp], of "- 1"]
    by (simp add: memranges_create_hole_def do_action_eq sp(2))
  with f assms(1) hole_runs [OF v assms(2)] show ?thesis by (simp add: usable_def)
qed

abbreviation insert_all :: "u64 \<Rightarrow> span list \<Rightarrow> mst \<Rightarrow> mst" where
  "insert_all t \<equiv> fold (\<lambda>(b, n) s. memranges_insert s b n t)"

abbreviation hole_all :: "span list \<Rightarrow> mst \<Rightarrow> mst" where
  "hole_all \<equiv> fold (\<lambda>(b, n) s. memranges_create_hole s b n)"

lemma insert_all_facts:
  "usable s (2 * length ss + N) \<Longrightarrow> spans_ok ss \<Longrightarrow>
   usable (insert_all t ss s) N \<and> align (fst (insert_all t ss s)) = align (fst s) \<and>
   tagged (insert_all t ss s) x = (if hit (unat (align (fst s))) ss x then Some t else tagged s x)"
proof (induction ss arbitrary: s)
  case (Cons p ss)
  obtain b n where p: "p = (b, n)" by fastforce
  have ok: "n \<noteq> 0" "unat b + unat n \<le> 2 ^ 64" "spans_ok ss" using Cons.prems(2) by (auto simp: spans_ok_def p)
  have v: "mst_ok s" "2 \<le> spare_cells s" "valid_span s b n"
    using Cons.prems(1) ok by (auto simp: usable_def valid_span_def)
  have "usable (memranges_insert s b n t) (2 * length ss + N)"
    using Cons.prems(1) ok by (intro insert_usable) simp_all
  from Cons.IH [OF this ok(3)] show ?case
    by (simp add: p hit_Cons insert_facts [OF v ok(1)])
qed simp

lemma hole_all_facts:
  "usable s (length ss + N) \<Longrightarrow> spans_ok ss \<Longrightarrow>
   usable (hole_all ss s) N \<and> align (fst (hole_all ss s)) = align (fst s) \<and>
   tagged (hole_all ss s) x = (if hit (unat (align (fst s))) ss x then None else tagged s x)"
proof (induction ss arbitrary: s)
  case (Cons p ss)
  obtain b n where p: "p = (b, n)" by fastforce
  have ok: "n \<noteq> 0" "unat b + unat n \<le> 2 ^ 64" "spans_ok ss" using Cons.prems(2) by (auto simp: spans_ok_def p)
  have v: "mst_ok s" "0 < spare_cells s" "valid_span s b n"
    using Cons.prems(1) ok by (auto simp: usable_def valid_span_def)
  have "usable (memranges_create_hole s b n) (length ss + N)"
    using Cons.prems(1) ok by (intro hole_usable) simp_all
  from Cons.IH [OF this ok(3)] show ?case
    by (simp add: p hit_Cons hole_facts [OF v ok(1)])
qed simp

text \<open>The resources of a whole subtree, in the order of the walk for fixed resources.\<close>

function subtree_resources :: "dev \<Rightarrow> rid list" and subtree_list :: "dev list \<Rightarrow> rid list" where
  "subtree_resources d = resources d @ subtree_list (children d)"
| "subtree_list [] = []"
| "subtree_list (d # ds) = subtree_resources d @ subtree_list ds"
  by pat_completeness auto
termination
  by (relation "measure (\<lambda>x. case x of Inl d \<Rightarrow> size d | Inr cs \<Rightarrow> size_list size cs)") (simp_all add: children_size)

definition window_spans :: "store \<Rightarrow> dev \<Rightarrow> u64 \<Rightarrow> span list" where
  "window_spans st d type =
     map (\<lambda>r. (res_base (st r), res_limit (st r) - res_base (st r) + 1))
       (filter (\<lambda>r. res_flags (st r) AND (IORESOURCE_TYPE_MASK OR IORESOURCE_FIXED) = type) (resources d))"

definition fixed_spans :: "store \<Rightarrow> dev \<Rightarrow> u64 \<Rightarrow> span list" where
  "fixed_spans st d type =
     map (\<lambda>r. (res_base (st r), res_size (st r)))
       (filter (\<lambda>r. res_flags (st r) AND (type OR IORESOURCE_FIXED) = type OR IORESOURCE_FIXED \<and> res_size (st r) \<noteq> 0)
         (subtree_resources d))"

definition vga_spans :: "u64 \<Rightarrow> span list" where
  "vga_spans type = (if type = IORESOURCE_IO then [(0x3b0, 0x30)] else [])"

definition granularity :: "u64 \<Rightarrow> nat" where
  "granularity type = (if type = IORESOURCE_MEM then 12 else 0)"

text \<open>The addresses the domain has for resources of a type.\<close>

definition allocatable :: "store \<Rightarrow> dev \<Rightarrow> u64 \<Rightarrow> addr \<Rightarrow> bool" where
  "allocatable st d type x \<longleftrightarrow>
     hit (granularity type) (window_spans st d type) x \<and>
     \<not> hit (granularity type) (vga_spans type) x \<and> \<not> hit (granularity type) (fixed_spans st d type) x"

lemma fold_if_map:
  assumes "\<And>r s. f r s = (if U r then (case h r of (b, n) \<Rightarrow> g b n s) else s)"
  shows "fold f xs s = fold (\<lambda>(b, n). g b n) (map h (filter U xs)) s"
  by (induction xs arbitrary: s) (auto simp: assms split: prod.splits)

lemma avoid_fixed_fold:
  "avoid_fixed_resources st (type OR IORESOURCE_FIXED) d rg = hole_all (fixed_spans st d type) rg"
proof -
  let ?m = "type OR IORESOURCE_FIXED"
  let ?f = "\<lambda>res rg. if res_flags (st res) AND ?m \<noteq> ?m then rg
      else if res_size (st res) = 0 then rg else memranges_create_hole rg (res_base (st res)) (res_size (st res))"
  have "avoid_fixed_resources st m d rg = fold (\<lambda>res rg. if res_flags (st res) AND m \<noteq> m then rg
      else if res_size (st res) = 0 then rg else memranges_create_hole rg (res_base (st res)) (res_size (st res)))
      (subtree_resources d) rg"
    "avoid_fixed_list st m ds rg = fold (\<lambda>res rg. if res_flags (st res) AND m \<noteq> m then rg
      else if res_size (st res) = 0 then rg else memranges_create_hole rg (res_base (st res)) (res_size (st res)))
      (subtree_list ds) rg" for m ds
    by (induction st m d rg and st m ds rg rule: avoid_fixed_resources_avoid_fixed_list.induct) simp_all
  then have "avoid_fixed_resources st ?m d rg = fold ?f (subtree_resources d) rg" by blast
  also have "\<dots> = hole_all (fixed_spans st d type) rg"
    unfolding fixed_spans_def by (rule fold_if_map) auto
  finally show ?thesis .
qed

lemma setup_eq:
  "setup_resource_ranges st d type heap =
   hole_all (fixed_spans st d type) (hole_all (vga_spans type) (insert_all type (window_spans st d type)
     (memranges_init_empty_with_alignment [] (if type = IORESOURCE_MEM then 12 else 0), heap)))"
proof -
  have "fold (\<lambda>res rg. if res_flags (st res) AND (IORESOURCE_TYPE_MASK OR IORESOURCE_FIXED) \<noteq> type then rg
       else memranges_insert rg (res_base (st res)) (res_limit (st res) - res_base (st res) + 1) type) (resources d) rg =
    insert_all type (window_spans st d type) rg" for rg
    unfolding window_spans_def by (rule fold_if_map) auto
  then show ?thesis
    unfolding setup_resource_ranges_def Let_def avoid_fixed_fold
    by (cases "type = IORESOURCE_IO") (simp_all add: vga_spans_def)
qed

lemma setup_facts:
  assumes "spans_ok (window_spans st d type)" "spans_ok (fixed_spans st d type)"
    and heap: "2 * length (window_spans st d type) + length (fixed_spans st d type) + 1 + N \<le> heap"
  shows "usable (setup_resource_ranges st d type heap) N"
    and "unat (align (fst (setup_resource_ranges st d type heap))) = granularity type"
    and "tagged (setup_resource_ranges st d type heap) x = (if allocatable st d type x then Some type else None)"
proof -
  let ?W = "window_spans st d type" and ?F = "fixed_spans st d type" and ?V = "vga_spans type"
  let ?s0 = "(memranges_init_empty_with_alignment [] (if type = IORESOURCE_MEM then 12 else 0), heap)"
  have k0: "unat (align (fst ?s0)) = granularity type"
    by (simp add: memranges_init_empty_with_alignment_def granularity_def)
  have V: "spans_ok ?V" "length ?V \<le> 1" by (simp_all add: spans_ok_def vga_spans_def)
  have "usable ?s0 (2 * length ?W + (length ?V + (length ?F + N)))"
    using heap V(2)
    by (auto simp: usable_def mst_ok_def memranges_init_empty_with_alignment_def spare_cells_def intro!: whole_runsI)
  note i = insert_all_facts [OF this assms(1), where t = type]
  note v = hole_all_facts [OF i [THEN conjunct1] V(1)]
  note f = hole_all_facts [OF v [THEN conjunct1] assms(2)]
  have e: "tagged ?s0 x = None" by (simp add: memranges_init_empty_with_alignment_def)
  show "usable (setup_resource_ranges st d type heap) N" unfolding setup_eq using f by blast
  show "unat (align (fst (setup_resource_ranges st d type heap))) = granularity type"
    unfolding setup_eq using f v i k0 by simp
  show "tagged (setup_resource_ranges st d type heap) x = (if allocatable st d type x then Some type else None)"
    unfolding setup_eq allocatable_def using f v i k0 e by simp
qed


subsection \<open>Pass 2: the loop of the domain\<close>

definition assigned :: "store \<Rightarrow> rid \<Rightarrow> bool" where
  "assigned st r \<longleftrightarrow> res_flags (st r) AND IORESOURCE_ASSIGNED \<noteq> 0"

abbreviation assigned_flags :: "u64 \<Rightarrow> u64" where
  "assigned_flags flags \<equiv> (flags OR IORESOURCE_ASSIGNED) AND NOT IORESOURCE_STORED"

lemma assigned_masks:
  "assigned_flags f AND IORESOURCE_TYPE_MASK = f AND IORESOURCE_TYPE_MASK"
  "assigned_flags f AND IORESOURCE_SUBTRACTIVE = f AND IORESOURCE_SUBTRACTIVE"
  "assigned_flags f AND IORESOURCE_FIXED = f AND IORESOURCE_FIXED"
  "assigned_flags f AND IORESOURCE_ASSIGNED \<noteq> 0"
proof -
  have m: "assigned_flags f AND m = f AND m"
    if "NOT IORESOURCE_STORED AND m = m" "IORESOURCE_ASSIGNED AND m = 0" for m
    unfolding and.assoc that(1) unfolding bit.conj_disj_distrib2 that(2) by simp
  note defs = IORESOURCE_TYPE_MASK_def IORESOURCE_PREFETCH_def IORESOURCE_IO_def IORESOURCE_MEM_def IORESOURCE_IRQ_def
    IORESOURCE_DRQ_def IORESOURCE_SUBTRACTIVE_def IORESOURCE_FIXED_def IORESOURCE_ASSIGNED_def IORESOURCE_STORED_def
  show "assigned_flags f AND IORESOURCE_TYPE_MASK = f AND IORESOURCE_TYPE_MASK"
    "assigned_flags f AND IORESOURCE_SUBTRACTIVE = f AND IORESOURCE_SUBTRACTIVE"
    "assigned_flags f AND IORESOURCE_FIXED = f AND IORESOURCE_FIXED"
    by (rule m; simp add: defs)+
  have "assigned_flags f AND IORESOURCE_ASSIGNED = IORESOURCE_ASSIGNED"
  proof -
    have "NOT IORESOURCE_STORED AND IORESOURCE_ASSIGNED = IORESOURCE_ASSIGNED" by (simp add: defs)
    moreover have "(f OR IORESOURCE_ASSIGNED) AND IORESOURCE_ASSIGNED = IORESOURCE_ASSIGNED"
      by (rule bit_word_eqI) (auto simp: bit_simps)
    ultimately show ?thesis unfolding and.assoc by metis
  qed
  then show "assigned_flags f AND IORESOURCE_ASSIGNED \<noteq> 0" by (simp add: IORESOURCE_ASSIGNED_def)
qed

text \<open>
  A resource that got a place: aligned, inside the address space, and every address of it free for the
  type and not above the limit. A resource without a place: no block of free addresses would do.
\<close>

definition granted :: "alloc_config \<Rightarrow> (addr \<Rightarrow> bool) \<Rightarrow> resource \<Rightarrow> resource \<Rightarrow> bool" where
  "granted cfg free req res \<longleftrightarrow>
     res_size req \<noteq> 0 \<and>
     res = req\<lparr>res_base := res_base res, res_limit := res_base res + res_size req - 1,
       res_flags := assigned_flags (res_flags req)\<rparr> \<and>
     2 ^ unat (res_align req) dvd unat (res_base res) \<and> unat (res_base res) + unat (res_size req) \<le> 2 ^ 64 \<and>
     (\<forall>x. in_block (res_base res) (res_size req) x \<longrightarrow> free x \<and> x \<le> effective_limit cfg req)"

definition no_room :: "alloc_config \<Rightarrow> (addr \<Rightarrow> bool) \<Rightarrow> resource \<Rightarrow> bool" where
  "no_room cfg free req \<longleftrightarrow> no_block free (effective_limit cfg req) (res_size req) (res_align req)"

definition taken :: "nat \<Rightarrow> store \<Rightarrow> rid list \<Rightarrow> addr \<Rightarrow> bool" where
  "taken k st rs x \<longleftrightarrow> (\<exists>r\<in>set rs. assigned st r \<and> touches k (res_base (st r)) (res_size (st r)) x)"

text \<open>The ranges of a domain are a pool of addresses for the resources of one type.\<close>

definition range_pool :: "u64 \<Rightarrow> nat \<Rightarrow> mst \<Rightarrow> nat \<Rightarrow> bool" where
  "range_pool type k R n \<longleftrightarrow> usable R n \<and> unat (align (fst R)) = k \<and>
     (\<forall>x. tagged R x \<noteq> None \<longrightarrow> tagged R x = Some type \<and> unat x < 2 ^ 63)"

lemma touches_block:
  assumes "touches k b n x" "n \<noteq> 0" "unat b + unat n \<le> 2 ^ 64"
  obtains y where "in_block b n y" "unat y div 2 ^ k = unat x div 2 ^ k"
proof -
  have n: "0 < unat n" using assms(2) by (simp add: unat_gt_0)
  consider "unat x < unat b" | "unat b \<le> unat x" "unat x < unat b + unat n" | "unat b + unat n \<le> unat x" by linarith
  then show ?thesis
  proof cases
    case 1
    then have "unat x div 2 ^ k \<le> unat b div 2 ^ k" by (intro div_le_mono) simp
    then show ?thesis using assms(1) n by (intro that [of b]) (simp_all add: touches_def in_block_def)
  next
    case 2
    then show ?thesis by (intro that [of x]) (simp_all add: word_le_nat_alt in_block_def)
  next
    case 3
    let ?y = "b + (n - 1)"
    have "unat (n - 1) = unat n - 1" using n by (intro unat_pred) simp
    then have y: "unat ?y = unat b + unat n - 1" using assms(3) n by (subst unat_add_no_wrap) simp_all
    have "unat ?y div 2 ^ k \<le> unat x div 2 ^ k" using 3 y by (intro div_le_mono) simp
    then show ?thesis using assms(1) n y by (intro that [of ?y]) (simp_all add: touches_def word_le_nat_alt in_block_def)
  qed
qed

lemma pool_in_bounds:
  assumes "range_pool type k R n" "small_request z al"
  shows "search_in_bounds z (unat al) (entries (fst R))"
  unfolding search_in_bounds_def
proof (intro conjI ballI)
  show "unat al \<le> 63" using assms(2) by (simp add: small_request_def)
  fix r assume r: "r \<in> set (entries (fst R))"
  have ok: "mst_ok R" using assms(1) by (simp add: range_pool_def usable_def)
  then have "r_begin r \<le> r_end r" using r by (simp add: mst_ok_def ranges_ok_def)
  then have "tagged R (r_begin r) \<noteq> None" using r by (auto simp: tag_at_None_iff)
  then have "unat (r_begin r) < 2 ^ 63" using assms(1) unfolding range_pool_def by blast
  then have "unat (r_begin r) + (2 ^ unat al + unat z) \<le> 2 ^ 63 + 2 ^ 63"
    using assms(2) unfolding small_request_def by (intro add_mono) simp_all
  then show "unat (r_begin r) + 2 ^ unat al + unat z \<le> 2 ^ 64" by (simp add: add.assoc)
qed

lemma steal_pool:
  assumes p: "range_pool type k R (Suc n)" and z: "z \<noteq> 0" and sm: "small_request z al"
    and st: "memranges_steal R limit z al type ft = (Some b, R')"
  shows "range_pool type k R' n \<and> 2 ^ unat al dvd unat b \<and> unat b + unat z \<le> 2 ^ 64 \<and>
    (\<forall>x. in_block b z x \<longrightarrow> tagged R x = Some type \<and> x \<le> limit) \<and>
    (\<forall>x. tagged R' x = Some type \<longleftrightarrow> tagged R x = Some type \<and> \<not> touches k b z x)"
proof -
  have u: "mst_ok R" "0 < spare_cells R" "unat (align (fst R)) \<le> 63" "unat (align (fst R)) = k" "usable R (Suc n)"
    using p by (auto simp: range_pool_def usable_def)
  note f = steal_facts [OF u(1,2) z u(3) pool_in_bounds [OF p sm] st]
  have R': "R' = memranges_create_hole R b z"
    using st by (auto simp: memranges_steal_def Let_def split: option.splits)
  have v: "valid_span R b z" using f(2) u(3) by (simp add: valid_span_def)
  have tg: "tagged R' x = (if touches k b z x then None else tagged R x)" for x using f(6) unfolding u(4) .
  have "range_pool type k R' n"
    unfolding range_pool_def tg using p hole_usable [OF u(5) z f(2)] hole_facts(3) [OF u(1,2) v z]
    by (auto simp: range_pool_def R')
  moreover have "\<forall>x. in_block b z x \<longrightarrow> tagged R x = Some type \<and> x \<le> limit"
    using f(5) unfolding in_block_def by blast
  ultimately show ?thesis using f(1,2) by (simp add: tg)
qed

lemma steal_pool_none:
  assumes p: "range_pool type k R (Suc n)" and z: "z \<noteq> 0" and sm: "small_request z al"
    and st: "memranges_steal R limit z al type ft = (None, R')"
  shows "R' = R \<and> no_block (\<lambda>x. tagged R x = Some type) limit z al"
proof -
  have u: "mst_ok R" "whole_runs R" using p by (auto simp: range_pool_def usable_def)
  have "R' = R" using st by (auto simp: memranges_steal_def Let_def split: option.splits)
  moreover have "no_block (\<lambda>x. tagged R x = Some type) limit z al"
    unfolding no_block_def in_block_def
    using steal_none [OF u z pool_in_bounds [OF p sm], of limit type ft] st by simp
  ultimately show ?thesis ..
qed

interpretation pool: address_pool "\<lambda>R x. tagged R x = Some type" "\<lambda>R limit z al. memranges_steal R limit z al type ft"
    "range_pool type k" "touches k"
  for type ft k
proof
  show "range_pool type k s n" if "range_pool type k s (Suc n)" for s n
    using that by (simp add: range_pool_def usable_def)
  show "\<exists>y. in_block b z y \<and> (\<forall>b' z'. touches k b' z' y \<longleftrightarrow> touches k b' z' x)"
    if "touches k b z x" "z \<noteq> 0" "unat b + unat z \<le> 2 ^ 64" for b z x :: addr
    using touches_block [OF that] unfolding touches_def by metis
qed (rule steal_pool steal_pool_none; assumption)+

text \<open>The blocks that the resources of a list were given.\<close>

definition given_blocks :: "store \<Rightarrow> rid list \<Rightarrow> (addr \<times> addr) list" where
  "given_blocks st rs = map (\<lambda>r. (res_base (st r), res_size (st r))) (filter (assigned st) rs)"

definition pool_served :: "u64 \<Rightarrow> nat \<Rightarrow> (addr \<Rightarrow> bool) \<Rightarrow> (addr \<times> addr) list \<Rightarrow> nat \<Rightarrow> mst \<Rightarrow> bool" where
  "pool_served type k = address_pool.served (\<lambda>R x. tagged R x = Some type) (range_pool type k) (touches k)"

definition alloc_inv ::
    "alloc_config \<Rightarrow> u64 \<Rightarrow> nat \<Rightarrow> (addr \<Rightarrow> bool) \<Rightarrow> store \<Rightarrow> rid list \<Rightarrow> nat \<Rightarrow> store \<times> mst \<Rightarrow> bool" where
  "alloc_inv cfg type k free st0 rs N s \<longleftrightarrow>
     (case s of (st, R) \<Rightarrow>
        pool_served type k free (given_blocks st rs) N R \<and>
        (\<forall>r. r \<notin> set rs \<longrightarrow> st r = st0 r) \<and>
        (\<forall>r\<in>set rs. if assigned st r then granted cfg free (st0 r) (st r) else st r = st0 r) \<and>
        (\<forall>r\<in>set rs. \<not> assigned st r \<longrightarrow> res_size (st0 r) \<noteq> 0 \<longrightarrow>
           no_room cfg (\<lambda>x. free x \<and> \<not> taken k st rs x) (st0 r)))"

lemma covered_given: "address_pool.covered (touches k) (given_blocks st rs) x \<longleftrightarrow> taken k st rs x"
  unfolding pool.covered_def given_blocks_def taken_def by auto


lemma given_snoc:
  "given_blocks st (rs @ [c]) = given_blocks st rs @ (if assigned st c then [(res_base (st c), res_size (st c))] else [])"
  by (simp add: given_blocks_def)

lemma given_cong: "(\<And>r. r \<in> set rs \<Longrightarrow> st' r = st r) \<Longrightarrow> given_blocks st' rs = given_blocks st rs"
  by (induction rs) (auto simp: given_blocks_def assigned_def)

lemma taken_snoc:
  "taken k st (rs @ [c]) x \<longleftrightarrow>
   taken k st rs x \<or> assigned st c \<and> touches k (res_base (st c)) (res_size (st c)) x"
  by (auto simp: taken_def)

lemma taken_cong: "(\<And>r. r \<in> set rs \<Longrightarrow> st' r = st r) \<Longrightarrow> taken k st' rs x = taken k st rs x"
  by (simp add: taken_def assigned_def)

lemma no_room_mono: "no_room cfg f req \<Longrightarrow> (\<And>x. g x \<Longrightarrow> f x) \<Longrightarrow> no_room cfg g req"
  unfolding no_room_def by (rule no_block_mono)

lemmas pool_less = pool.served_less [folded pool_served_def]
lemmas pool_none = pool.served_none [folded pool_served_def]
lemmas pool_some = pool.served_some [folded pool_served_def]

lemma alloc_step_skip:
  assumes inv: "alloc_inv cfg type k free st0 rs (Suc N) (st, R)" and c: "c \<notin> set rs" "\<not> assigned st0 c"
    and why: "res_size (st0 c) \<noteq> 0 \<Longrightarrow> no_room cfg (\<lambda>x. free x \<and> \<not> taken k st rs x) (st0 c)"
  shows "alloc_inv cfg type k free st0 (rs @ [c]) N (st, R)"
proof -
  note I = inv [unfolded alloc_inv_def prod.case]
  have stc: "st c = st0 c" using I c(1) by blast
  have na: "\<not> assigned st c" using c(2) by (simp add: assigned_def stc)
  have tk: "taken k st (rs @ [c]) x = taken k st rs x" for x using na by (simp add: taken_snoc)
  have "pool_served type k free (given_blocks st (rs @ [c])) N R" using I na by (simp add: given_snoc pool_less)
  then show ?thesis
    unfolding alloc_inv_def prod.case tk using I na stc why by auto
qed

lemma alloc_step_given:
  assumes inv: "alloc_inv cfg type k free st0 rs (Suc N) (st, R)" and c: "c \<notin> set rs" and n: "res_size (st0 c) \<noteq> 0"
    and sm: "small_request (res_size (st0 c)) (res_align (st0 c))"
    and steal: "memranges_steal R (effective_limit cfg (st0 c)) (res_size (st0 c)) (res_align (st0 c)) type
      (RESOURCE_ALLOCATION_TOP_DOWN cfg) = (Some a, R')"
  shows "alloc_inv cfg type k free st0 (rs @ [c]) N (assign_resource st c a, R')"
proof -
  let ?st = "assign_resource st c a" and ?n = "res_size (st0 c)"
  note I = inv [unfolded alloc_inv_def prod.case]
  have "pool_served type k free (given_blocks st rs) (Suc N) R" using I by blast
  note f = pool_some [OF this n sm steal]
  have fld: "?st c = (st0 c)\<lparr>res_base := a, res_limit := a + ?n - 1, res_flags := assigned_flags (res_flags (st0 c))\<rparr>"
    using I c by (simp add: assign_resource_def)
  have old: "?st r = st r" if "r \<noteq> c" for r using that by (simp add: assign_resource_def)
  then have oldrs: "?st r = st r" if "r \<in> set rs" for r using that c by metis
  have ac: "assigned ?st c" unfolding assigned_def fld using assigned_masks(4) by simp
  have "pool_served type k free (given_blocks ?st (rs @ [c])) N R'"
    using f(1) ac given_cong [OF oldrs] by (simp add: given_snoc fld)
  moreover have g: "granted cfg free (st0 c) (?st c)" unfolding granted_def fld using n f(2-4) by simp
  moreover have "no_room cfg (\<lambda>x. free x \<and> \<not> taken k ?st (rs @ [c]) x) (st0 r)"
    if r: "r \<in> set (rs @ [c])" "\<not> assigned ?st r" "res_size (st0 r) \<noteq> 0" for r
  proof -
    have rs: "r \<in> set rs" using r(1,2) ac by auto
    then have "\<not> assigned st r" using r(2) by (simp add: assigned_def oldrs)
    then have "no_room cfg (\<lambda>x. free x \<and> \<not> taken k st rs x) (st0 r)" using I rs r(3) by blast
    then show ?thesis by (rule no_room_mono) (simp add: taken_snoc taken_cong [OF oldrs])
  qed
  moreover have "if assigned ?st r then granted cfg free (st0 r) (?st r) else ?st r = st0 r" if "r \<in> set (rs @ [c])" for r
    using that I ac g oldrs by (cases "r = c") (simp_all add: assigned_def)
  ultimately show ?thesis unfolding alloc_inv_def prod.case using I old by simp
qed

lemma alloc_step:
  assumes inv: "alloc_inv cfg type k free st0 rs (Suc N) s" and c: "c \<notin> set rs" "\<not> assigned st0 c"
    and sm: "small_request (res_size (st0 c)) (res_align (st0 c))"
  shows "alloc_inv cfg type k free st0 (rs @ [c]) N (allocate_one cfg type d c s)"
proof -
  obtain st R where s: "s = (st, R)" by (cases s)
  note inv = inv [unfolded s]
  have I: "st c = st0 c" "pool_served type k free (given_blocks st rs) (Suc N) R"
    using inv c(1) by (auto simp: alloc_inv_def)
  obtain q R' where steal: "memranges_steal R (effective_limit cfg (st0 c)) (res_size (st0 c)) (res_align (st0 c)) type
      (RESOURCE_ALLOCATION_TOP_DOWN cfg) = (q, R')" by (rule prod.exhaust)
  have one: "allocate_one cfg type d c s = (if res_size (st0 c) = 0 then (st, R)
      else case q of None \<Rightarrow> (st, R') | Some a \<Rightarrow> (assign_resource st c a, R'))"
    by (simp add: allocate_one_def s I(1) steal split: option.split)
  consider "res_size (st0 c) = 0" | "res_size (st0 c) \<noteq> 0" "q = None" | a where "res_size (st0 c) \<noteq> 0" "q = Some a"
    by (cases q) auto
  then show ?thesis
  proof cases
    case 1 then show ?thesis using alloc_step_skip [OF inv c] one by simp
  next
    case 2
    note f = pool_none [OF I(2) 2(1) sm steal [unfolded 2(2)]]
    show ?thesis using alloc_step_skip [OF inv c] f one 2 by (simp add: no_room_def covered_given)
  next
    case 3 then show ?thesis using alloc_step_given [OF inv c(1) _ sm] steal one by simp
  qed
qed

lemma alloc_fold:
  assumes "distinct (map snd ps)"
    and "\<And>r. r \<in> snd ` set ps \<Longrightarrow> \<not> assigned st0 r \<and> small_request (res_size (st0 r)) (res_align (st0 r))"
    and "alloc_inv cfg type k free st0 [] (length ps + N) s"
  shows "alloc_inv cfg type k free st0 (map snd ps) N (fold (case_prod (allocate_one cfg type)) ps s)"
  using assms
proof (induction ps arbitrary: N rule: rev_induct)
  case (snoc p ps)
  obtain d c where p: "p = (d, c)" by fastforce
  have "alloc_inv cfg type k free st0 [] (length ps + Suc N) s" using snoc.prems(3) by simp
  from snoc.IH [OF _ _ this] snoc.prems(1,2)
  have i: "alloc_inv cfg type k free st0 (map snd ps) (Suc N) (fold (case_prod (allocate_one cfg type)) ps s)" by simp
  have c: "c \<notin> set (map snd ps)" "\<not> assigned st0 c" "small_request (res_size (st0 c)) (res_align (st0 c))"
    using snoc.prems(1,2) by (auto simp: p)
  from alloc_step [OF i c, of d] show ?case by (simp add: p)
qed simp


text \<open>The whole loop of the domain.\<close>

lemma allocate_one_fields:
  "res_size (fst (allocate_one cfg type d c s) r) = res_size (fst s r) \<and>
   res_align (fst (allocate_one cfg type d c s) r) = res_align (fst s r) \<and>
   res_flags (fst (allocate_one cfg type d c s) r) \<in> {res_flags (fst s r), assigned_flags (res_flags (fst s r))}"
proof -
  obtain st R where s: "s = (st, R)" by (cases s)
  obtain q R' where q: "memranges_steal R (effective_limit cfg (st c)) (res_size (st c)) (res_align (st c)) type
      (RESOURCE_ALLOCATION_TOP_DOWN cfg) = (q, R')" by (rule prod.exhaust)
  show ?thesis
    by (cases q) (simp_all add: s q allocate_one_def assign_resource_def)
qed

definition same_type_order :: "store \<Rightarrow> store \<times> mst \<Rightarrow> bool" where
  "same_type_order st0 s \<longleftrightarrow>
     same_view st0 (fst s) IORESOURCE_TYPE_MASK \<and> (\<forall>r. order_key (fst s) r = order_key st0 r)"

lemma allocate_one_same_order:
  assumes "same_type_order st0 s"
  shows "same_type_order st0 (allocate_one cfg type d c s)"
proof -
  have f: "res_size (fst (allocate_one cfg type d c s) r) = res_size (fst s r)"
    "res_align (fst (allocate_one cfg type d c s) r) = res_align (fst s r)"
    "res_flags (fst (allocate_one cfg type d c s) r) \<in> {res_flags (fst s r), assigned_flags (res_flags (fst s r))}" for r
    using allocate_one_fields [of cfg type d c s r] by blast+
  have "res_flags (fst (allocate_one cfg type d c s) r) AND m = res_flags (fst s r) AND m"
    if "m \<in> {IORESOURCE_TYPE_MASK, IORESOURCE_SUBTRACTIVE, IORESOURCE_FIXED}" for m r
  proof -
    have "assigned_flags (res_flags (fst s r)) AND m = res_flags (fst s r) AND m"
      using that assigned_masks [of "res_flags (fst s r)"] by blast
    then show ?thesis using f(3) [of r] by (metis insertE singletonD)
  qed
  then have "same_view st0 (fst (allocate_one cfg type d c s)) IORESOURCE_TYPE_MASK"
    using assms unfolding same_type_order_def same_view_def by simp
  then show ?thesis using assms f(1,2) by (simp add: same_type_order_def order_key_def)
qed

text \<open>What the allocation of one type in a domain relies on.\<close>

definition domain_ready :: "store \<Rightarrow> dev \<Rightarrow> u64 \<Rightarrow> nat \<Rightarrow> bool" where
  "domain_ready st domain type heap \<longleftrightarrow>
     dev_has_children domain \<and> distinct (map snd (visited st IORESOURCE_TYPE_MASK type (children domain))) \<and>
     spans_ok (window_spans st domain type) \<and> spans_ok (fixed_spans st domain type) \<and>
     2 * length (window_spans st domain type) + length (fixed_spans st domain type) +
       length (allocation_order st IORESOURCE_TYPE_MASK type (children domain)) + 1 \<le> heap \<and>
     (\<forall>r\<in>set (map snd (allocation_order st IORESOURCE_TYPE_MASK type (children domain))).
        \<not> assigned st r \<and> small_request (res_size (st r)) (res_align (st r))) \<and>
     (\<forall>(b, n)\<in>set (window_spans st domain type). unat b + unat n \<le> 2 ^ 63)"

definition domain_order :: "store \<Rightarrow> dev \<Rightarrow> u64 \<Rightarrow> rid list" where
  "domain_order st domain type = map snd (allocation_order st IORESOURCE_TYPE_MASK type (children domain))"

lemma touches_bound:
  assumes "touches k b n x" "unat b + unat n \<le> 2 ^ 63" "n \<noteq> 0" "k \<le> 63"
  shows "unat x < 2 ^ 63"
proof -
  obtain P Q :: nat where o: "P = 2 ^ k" "Q = 2 ^ (63 - k)" by blast
  have PQ: "Q * P = 2 ^ 63" using assms(4) unfolding o by (simp flip: power_add)
  have P: "0 < P" unfolding o by simp
  have "0 < unat n" using assms(3) by (simp add: unat_gt_0)
  then have "unat b + unat n - 1 < Q * P" unfolding PQ using assms(2) by linarith
  then have "(unat b + unat n - 1) div P < Q" using P by (simp add: div_less_iff_less_mult)
  then have "unat x div P < Q" using assms(1) unfolding touches_def o by linarith
  then show ?thesis using P unfolding PQ [symmetric] by (simp add: div_less_iff_less_mult)
qed

lemma allocatable_bound:
  assumes "domain_ready st domain type heap" "allocatable st domain type x"
  shows "unat x < 2 ^ 63"
proof -
  obtain b n where "(b, n) \<in> set (window_spans st domain type)" "touches (granularity type) b n x"
    using assms(2) unfolding allocatable_def hit_def by blast
  moreover from this have "unat b + unat n \<le> 2 ^ 63" "n \<noteq> 0"
    using assms(1) unfolding domain_ready_def spans_ok_def by blast+
  ultimately show ?thesis by (intro touches_bound) (auto simp: granularity_def)
qed

lemma allocate_toplevel_facts:
  assumes ready: "domain_ready st domain type heap"
  obtains st' R heap' where "allocate_toplevel_resources cfg domain type (st, heap) = Some (st', heap')"
    and "alloc_inv cfg type (granularity type) (allocatable st domain type) st (domain_order st domain type) 0 (st', R)"
proof -
  let ?ps = "allocation_order st IORESOURCE_TYPE_MASK type (children domain)"
  let ?R = "setup_resource_ranges st domain type heap"
  let ?s = "fold (case_prod (allocate_one cfg type)) ?ps (st, ?R)"
  note rd = ready [unfolded domain_ready_def]
  have dist: "distinct (map snd (visited st IORESOURCE_TYPE_MASK type (children domain)))" using rd by blast
  have heap: "2 * length (window_spans st domain type) + length (fixed_spans st domain type) + 1 + length ?ps \<le> heap"
    using rd by linarith
  have sp: "spans_ok (window_spans st domain type)" "spans_ok (fixed_spans st domain type)" using rd by blast+
  note su = setup_facts [OF sp heap]
  have "range_pool type (granularity type) ?R (length ?ps + 0)"
    unfolding range_pool_def using su allocatable_bound [OF ready] by (auto split: if_splits)
  note pool.served_start [OF this, folded pool_served_def]
  moreover have "(\<lambda>x. tagged ?R x = Some type) = allocatable st domain type" using su by auto
  ultimately have i0: "alloc_inv cfg type (granularity type) (allocatable st domain type) st [] (length ?ps + 0) (st, ?R)"
    unfolding alloc_inv_def by (simp add: given_blocks_def)
  have dist': "distinct (map snd ?ps)" using dist by (auto simp: allocation_order_def distinct_map inj_on_def)
  have fin: "alloc_inv cfg type (granularity type) (allocatable st domain type) st (map snd ?ps) 0 ?s"
    by (rule alloc_fold [OF dist' _ i0]) (use rd in auto)
  have view: "visited (fst s) IORESOURCE_TYPE_MASK type (children domain) = visited st IORESOURCE_TYPE_MASK type (children domain) \<and>
      allocation_order (fst s) IORESOURCE_TYPE_MASK type (children domain) = ?ps" if "same_type_order st s" for s
    using that unfolding same_type_order_def by (intro same_view_order) auto
  have "for_largest fst (children domain) IORESOURCE_TYPE_MASK type (allocate_one cfg type) None (st, ?R) = Some ?s"
    by (rule for_largest_fold(1) [where I = "same_type_order st" and get = fst, OF dist view allocate_one_same_order])
      (simp_all add: same_type_order_def same_view_def)
  moreover obtain st' R where s: "?s = (st', R)" by (cases ?s)
  ultimately have "allocate_toplevel_resources cfg domain type (st, heap) = Some (st', snd R)"
    using rd by (simp add: allocate_toplevel_resources_def cleanup_domain_resource_ranges_def)
  then show ?thesis using fin that unfolding s domain_order_def by blast
qed

lemma distinct_domain_order: "domain_ready st domain type heap \<Longrightarrow> distinct (domain_order st domain type)"
  by (auto simp: domain_ready_def domain_order_def allocation_order_def distinct_map inj_on_def)

text \<open>No page belongs to the blocks of two resources.\<close>

lemma given_apart:
  assumes "sorted_wrt (\<lambda>(b, z) (b', z'). \<forall>x. \<not> (touches k b z x \<and> touches k b' z' x)) (given_blocks st rs)"
    and "distinct rs" "p \<in> set rs" "q \<in> set rs" "p \<noteq> q" "assigned st p" "assigned st q"
  shows "\<not> (touches k (res_base (st p)) (res_size (st p)) x \<and> touches k (res_base (st q)) (res_size (st q)) x)"
  using assms
proof (induction rs)
  case (Cons r rs)
  have new: "\<not> (touches k (res_base (st r)) (res_size (st r)) x \<and> touches k (res_base (st s)) (res_size (st s)) x)"
    if "s \<in> set rs" "assigned st r" "assigned st s" for s
    using Cons.prems(1) that by (fastforce simp: given_blocks_def)
  have "sorted_wrt (\<lambda>(b, z) (b', z'). \<forall>x. \<not> (touches k b z x \<and> touches k b' z' x)) (given_blocks st rs)"
    using Cons.prems(1) by (auto simp: given_blocks_def split: if_splits)
  then show ?case using Cons.IH Cons.prems(2-) new [of p] new [of q] by (metis distinct.simps(2) set_ConsD)
qed simp

lemma alloc_inv_apart:
  assumes "alloc_inv cfg type k free st0 rs N (st, R)" "distinct rs" "p \<in> set rs" "q \<in> set rs" "p \<noteq> q"
    "assigned st p" "assigned st q"
  shows "\<not> (touches k (res_base (st p)) (res_size (st p)) x \<and> touches k (res_base (st q)) (res_size (st q)) x)"
proof (rule given_apart [OF _ assms(2-)])
  show "sorted_wrt (\<lambda>(b, z) (b', z'). \<forall>x. \<not> (touches k b z x \<and> touches k b' z' x)) (given_blocks st rs)"
    using assms(1) unfolding alloc_inv_def pool_served_def pool.served_def by simp
qed

subsection \<open>Pass 2: behind a bridge\<close>

text \<open>A walk whose body leaves the flags the walk looks at alone visits what it would visit at its start.\<close>

lemma search_fold:
  assumes keep: "\<And>s. I s \<Longrightarrow> \<forall>r. res_flags (get s r) AND type_mask = res_flags (st r) AND type_mask \<and>
      res_flags (get s r) AND IORESOURCE_SUBTRACTIVE = res_flags (st r) AND IORESOURCE_SUBTRACTIVE"
    and step: "\<And>d r s. I s \<Longrightarrow> I (f d r s)"
  shows "I s \<Longrightarrow> search_bus_resources get type_mask type f bus s = fold (case_prod f) (visited st type_mask type bus) s \<and>
      I (fold (case_prod f) (visited st type_mask type bus) s)"
    and "I s \<Longrightarrow> search_dev_resources get type_mask type f d rs s = fold (case_prod f) (visited_dev st type_mask type d rs) s \<and>
      I (fold (case_prod f) (visited_dev st type_mask type d rs) s)"
  using assms(1)
proof (induction st type_mask type bus and st type_mask type d rs arbitrary: s and s rule: visited_visited_dev.induct)
  case (4 st type_mask type d r rs)
  have fl: "res_flags (get s r) AND type_mask = res_flags (st r) AND type_mask"
    "res_flags (get s r) AND IORESOURCE_SUBTRACTIVE = res_flags (st r) AND IORESOURCE_SUBTRACTIVE"
    using 4(4) [OF 4(3)] by blast+
  consider "res_flags (st r) AND type_mask \<noteq> type"
    | "\<not> res_flags (st r) AND type_mask \<noteq> type" "res_flags (st r) AND IORESOURCE_SUBTRACTIVE \<noteq> 0" "downstream d = None"
    | cs where "\<not> res_flags (st r) AND type_mask \<noteq> type" "res_flags (st r) AND IORESOURCE_SUBTRACTIVE \<noteq> 0" "downstream d = Some cs"
    | "\<not> res_flags (st r) AND type_mask \<noteq> type" "res_flags (st r) AND IORESOURCE_SUBTRACTIVE = 0" by fastforce
  then show ?case
  proof cases
    case 1 then show ?thesis using 4(2) [OF 4(3,4)] fl by simp
  next
    case 2 then show ?thesis using 4(2) [OF 4(3,4)] fl by simp
  next
    case 3
    from 4(1) [OF 3 4(3,4)] 4(2) [OF _ 4(4)] 3 fl show ?thesis by simp
  next
    case c4: 4
    from 4(2) [OF step [OF 4(3)] 4(4)] c4 fl show ?thesis by simp
  qed
next
  case (2 st type_mask type d ds)
  then show ?case by (cases "enabled d") simp_all
qed simp_all


text \<open>The mask of pass 2 and the walk that assigns what lies behind a window.\<close>

definition pass2_mask :: u64 where
  "pass2_mask = IORESOURCE_TYPE_MASK OR IORESOURCE_PREFETCH OR IORESOURCE_FIXED"

definition assign_behind :: "dev list \<Rightarrow> rid \<Rightarrow> store \<Rightarrow> store" where
  "assign_behind bus b st =
     search_bus_resources (\<lambda>s. s) pass2_mask (res_flags (st b) AND pass2_mask) (assign_resource_cb b) bus st"

lemma pass2_masks:
  "assigned_flags f AND pass2_mask = f AND pass2_mask"
  "unstored f AND pass2_mask = f AND pass2_mask"
  "assigned_flags (unstored f) = assigned_flags f"
proof -
  note defs = pass2_mask_def IORESOURCE_TYPE_MASK_def IORESOURCE_PREFETCH_def IORESOURCE_IO_def IORESOURCE_MEM_def
    IORESOURCE_IRQ_def IORESOURCE_DRQ_def IORESOURCE_FIXED_def IORESOURCE_ASSIGNED_def IORESOURCE_STORED_def
  have "NOT IORESOURCE_STORED AND pass2_mask = pass2_mask" "IORESOURCE_ASSIGNED AND pass2_mask = 0"
    "NOT (IORESOURCE_ASSIGNED OR IORESOURCE_STORED) AND pass2_mask = pass2_mask" by (simp_all add: defs)
  then show "assigned_flags f AND pass2_mask = f AND pass2_mask" "unstored f AND pass2_mask = f AND pass2_mask"
    unfolding and.assoc by (simp_all add: bit.conj_disj_distrib2)
  show "assigned_flags (unstored f) = assigned_flags f"
    by (rule bit_word_eqI) (auto simp: bit_simps)
qed

lemma assign_fold:
  assumes "distinct (map snd ps)" "b \<notin> snd ` set ps"
  shows "fold (case_prod (assign_resource_cb b)) ps st r =
    (if r \<in> snd ` set ps \<and> placeable st r then assign_resource st r (res_base (st b) + res_base (st r)) r else st r)"
  using assms
proof (induction ps arbitrary: st)
  case (Cons p ps)
  obtain d c where p: "p = (d, c)" by fastforce
  let ?st = "assign_resource_cb b d c st"
  have c: "c \<noteq> b" "c \<notin> snd ` set ps" using Cons.prems by (auto simp: p)
  have IH: "fold (case_prod (assign_resource_cb b)) ps ?st r =
    (if r \<in> snd ` set ps \<and> placeable ?st r then assign_resource ?st r (res_base (?st b) + res_base (?st r)) r else ?st r)"
    using Cons.prems by (intro Cons.IH) (auto simp: p)
  have b: "?st b = st b" using c(1) by (simp add: assign_resource_cb_def assign_resource_def)
  have o: "?st r = st r" if "r \<noteq> c" using that by (simp add: assign_resource_cb_def assign_resource_def)
  show ?case
  proof (cases "r = c")
    case True
    with IH c(2) have "fold (case_prod (assign_resource_cb b)) ps ?st r = ?st r" by simp
    with True show ?thesis
      by (simp add: p) (auto simp: assign_resource_cb_def assign_resource_def placeable_def)
  next
    case False
    with IH b o show ?thesis by (simp add: p placeable_def assign_resource_def)
  qed
qed simp

lemma assign_behind_eq:
  assumes type_def: "type = res_flags (st b) AND pass2_mask"
    and "distinct (map snd (visited st pass2_mask type bus))" "b \<notin> snd ` set (visited st pass2_mask type bus)"
  shows "assign_behind bus b st r =
    (if r \<in> snd ` set (visited st pass2_mask type bus) \<and> placeable st r
     then assign_resource st r (res_base (st b) + res_base (st r)) r else st r)"
proof -
  let ?I = "\<lambda>s :: store. \<forall>r. res_flags (s r) AND pass2_mask = res_flags (st r) AND pass2_mask \<and>
    res_flags (s r) AND IORESOURCE_SUBTRACTIVE = res_flags (st r) AND IORESOURCE_SUBTRACTIVE"
  have "assign_behind bus b st = fold (case_prod (assign_resource_cb b)) (visited st pass2_mask type bus) st"
    unfolding assign_behind_def type_def
  proof (rule search_fold(1) [where I = ?I, THEN conjunct1])
    show "?I (assign_resource_cb b d c s)" if "?I s" for d c s
    proof
      fix r
      have "res_flags (assign_resource_cb b d c s r) = res_flags (s r) \<or>
          res_flags (assign_resource_cb b d c s r) = assigned_flags (res_flags (s r))"
        by (simp add: assign_resource_cb_def assign_resource_def)
      then show "res_flags (assign_resource_cb b d c s r) AND pass2_mask = res_flags (st r) AND pass2_mask \<and>
          res_flags (assign_resource_cb b d c s r) AND IORESOURCE_SUBTRACTIVE = res_flags (st r) AND IORESOURCE_SUBTRACTIVE"
        using that by (metis pass2_masks(1) assigned_masks(2))
    qed
  qed simp_all
  then show ?thesis using assign_fold [OF assms(2,3)] by simp
qed


text \<open>
  What pass 1 promises of a window: its resources lie in it one behind the other, each at an aligned
  offset, its alignment is at least theirs and its limit at most theirs.
\<close>

definition window_ready :: "store \<Rightarrow> dev list \<Rightarrow> rid \<Rightarrow> bool" where
  "window_ready st bus b \<longleftrightarrow>
     distinct (map snd (visited st bridge_mask (res_flags (st b) AND bridge_mask) bus)) \<and>
     b \<notin> snd ` set (visited st bridge_mask (res_flags (st b) AND bridge_mask) bus) \<and>
     (\<forall>r\<in>set (window_children st bus b). unat (res_align (st r)) \<le> 63) \<and> unat (res_gran (st b)) \<le> 63 \<and>
     demand st (window_children st bus b) + (2 ^ unat (res_gran (st b)) - 1) < 2 ^ 64"

definition window_layout :: "alloc_config \<Rightarrow> store \<Rightarrow> rid \<Rightarrow> rid list \<Rightarrow> store \<Rightarrow> bool" where
  "window_layout cfg st b rs st1 \<longleftrightarrow>
     (\<forall>r. r \<noteq> b \<and> r \<notin> set rs \<longrightarrow> st1 r = st r) \<and>
     st1 b = (st b)\<lparr>res_size := res_size (st1 b), res_align := res_align (st1 b), res_limit := res_limit (st1 b)\<rparr> \<and>
     2 ^ unat (res_gran (st b)) dvd unat (res_size (st1 b)) \<and>
     res_align (st b) \<le> res_align (st1 b) \<and> res_limit (st1 b) \<le> res_limit (st b) \<and>
     (\<forall>r\<in>set rs.
        st1 r = (st r)\<lparr>res_base := res_base (st1 r), res_flags := unstored (res_flags (st r))\<rparr> \<and>
        2 ^ unat (res_align (st r)) dvd unat (res_base (st1 r)) \<and>
        unat (res_base (st1 r)) + unat (res_size (st r)) \<le> unat (res_size (st1 b)) \<and>
        res_align (st r) \<le> res_align (st1 b) \<and> res_limit (st1 b) \<le> effective_limit cfg (st r)) \<and>
     sorted_wrt (\<lambda>p q. unat (res_base (st1 p)) + unat (res_size (st p)) \<le> unat (res_base (st1 q))) rs"

lemma window_facts:
  assumes ready: "window_ready st bus b"
  obtains st1 where "update_bridge_resource cfg bus b st = Some st1"
    and "window_layout cfg st b (window_children st bus b) st1"
proof -
  let ?rs = "window_children st bus b" and ?ws = "window_order st bus b" and ?g = "res_gran (st b)"
  note rd = ready [unfolded window_ready_def]
  obtain G D :: nat where o: "2 ^ unat ?g - 1 = G" "demand st ?rs = D" by blast
  have DG: "D + G < 2 ^ 64" using rd unfolding o by blast
  have fit: "demand st ?rs < 2 ^ 64" unfolding o using DG by linarith
  obtain st1 base where L: "laid_out cfg st b ?ws (st1, base)"
    and up: "update_bridge_resource cfg bus b st = Some (st1(b := (st1 b)\<lparr>res_size := ALIGN_UP base (POWER_OF_2 ?g)\<rparr>))"
    by (rule update_bridge_facts [of st b bus cfg]) (use rd fit in auto)
  define st2 where "st2 = st1(b := (st1 b)\<lparr>res_size := ALIGN_UP base (POWER_OF_2 ?g)\<rparr>)"
  note L = L [unfolded laid_out_def prod.case]
  have "demand st ?ws = D" unfolding o(2) [symmetric] by (simp add: demand_def window_children_def)
  then have base: "unat base \<le> D" using L by simp
  have sz: "2 ^ unat ?g dvd unat (res_size (st2 b))" "unat base \<le> unat (res_size (st2 b))"
    using round_base(1,2) [of ?g base 0] rd base DG unfolding o by (simp_all add: st2_def)
  have bws: "b \<notin> set ?ws" using rd set_window_order [of st bus b] by blast
  have mem: "r \<in> set ?ws" "placeable st r" "r \<noteq> b" if "r \<in> set ?rs" for r
    using that bws by (auto simp: window_children_def)
  have oth: "st2 r = st1 r" if "r \<noteq> b" for r using that by (simp add: st2_def)
  have "st2 r = st r" if "r \<noteq> b" "r \<notin> set ?rs" for r
  proof (cases "r \<in> set ?ws")
    case True
    with that(2) have "\<not> placeable st r" by (simp add: window_children_def)
    with True L oth [OF that(1)] show ?thesis by simp
  next
    case False
    with that(1) L oth [OF that(1)] show ?thesis by simp
  qed
  moreover have "st2 b = (st b)\<lparr>res_size := res_size (st2 b), res_align := res_align (st2 b), res_limit := res_limit (st2 b)\<rparr>"
  proof -
    have "st1 b = (st b)\<lparr>res_align := res_align (st1 b), res_limit := res_limit (st1 b)\<rparr>" using L by blast
    then obtain x y where "st1 b = (st b)\<lparr>res_align := x, res_limit := y\<rparr>" by blast
    then show ?thesis by (simp add: st2_def)
  qed
  moreover have same: "res_align (st2 b) = res_align (st1 b)" "res_limit (st2 b) = res_limit (st1 b)"
    by (simp_all add: st2_def)
  moreover have "res_align (st b) \<le> res_align (st1 b)" "res_limit (st1 b) \<le> res_limit (st b)" using L by blast+
  moreover have "st2 r = (st r)\<lparr>res_base := res_base (st2 r), res_flags := unstored (res_flags (st r))\<rparr> \<and>
        2 ^ unat (res_align (st r)) dvd unat (res_base (st2 r)) \<and>
        unat (res_base (st2 r)) + unat (res_size (st r)) \<le> unat (res_size (st2 b)) \<and>
        res_align (st r) \<le> res_align (st2 b) \<and> res_limit (st2 b) \<le> effective_limit cfg (st r)" if r: "r \<in> set ?rs" for r
  proof -
    note O = L [THEN conjunct2, THEN conjunct2, THEN conjunct2, THEN conjunct1, rule_format, OF mem(1,2) [OF r]]
    have "unat (res_base (st1 r)) + unat (res_size (st r)) \<le> unat base" using O by blast
    then have "unat (res_base (st1 r)) + unat (res_size (st r)) \<le> unat (res_size (st2 b))" using sz(2) by linarith
    then show ?thesis using O unfolding oth [OF mem(3) [OF r]] same by blast
  qed
  moreover have "sorted_wrt (\<lambda>p q. unat (res_base (st2 p)) + unat (res_size (st p)) \<le> unat (res_base (st2 q))) ?rs"
  proof (rule sorted_wrt_mono_rel [where P = "\<lambda>p q. unat (res_base (st1 p)) + unat (res_size (st p)) \<le> unat (res_base (st1 q))"])
    show "sorted_wrt (\<lambda>p q. unat (res_base (st1 p)) + unat (res_size (st p)) \<le> unat (res_base (st1 q))) ?rs"
      unfolding window_children_def using L by blast
  qed (simp add: oth mem(3))
  ultimately have "window_layout cfg st b ?rs st2" unfolding window_layout_def using sz(1) by simp
  with up that show ?thesis unfolding st2_def by blast
qed

text \<open>A resource behind a window that got a place: its block lies in that of the window.\<close>

definition res_block :: "resource \<Rightarrow> nat set" where
  "res_block res = {unat (res_base res) ..< unat (res_base res) + unat (res_size res)}"

lemma behind_granted:
  assumes lay: "window_layout cfg st b rs st1" and r: "r \<in> set rs" "placeable st r" and bridge: "res_flags (st b) AND IORESOURCE_BRIDGE \<noteq> 0"
    and win: "granted cfg free (st1 b) (st2 b)" and same: "st2 r = st1 r"
    and st3: "st3 r = assign_resource st2 r (res_base (st2 b) + res_base (st2 r)) r"
  shows "granted cfg free (st r) (st3 r)" and "res_block (st3 r) \<subseteq> res_block (st2 b)"
    and "unat (res_base (st3 r)) = unat (res_base (st2 b)) + unat (res_base (st1 r))"
proof -
  let ?o = "res_base (st1 r)" and ?B = "res_base (st2 b)" and ?n = "res_size (st r)"
  note lay = lay [unfolded window_layout_def]
  from lay r(1) have st1r: "st1 r = (st r)\<lparr>res_base := ?o, res_flags := unstored (res_flags (st r))\<rparr>"
    and off: "2 ^ unat (res_align (st r)) dvd unat ?o" and fit: "unat ?o + unat ?n \<le> unat (res_size (st1 b))"
    and al: "res_align (st r) \<le> res_align (st1 b)" and li: "res_limit (st1 b) \<le> effective_limit cfg (st r)" by blast+
  have "res_flags (st1 b) = res_flags (st b)"
  proof -
    obtain x y z where "st1 b = (st b)\<lparr>res_size := x, res_align := y, res_limit := z\<rparr>" using lay by blast
    then show ?thesis by simp
  qed
  then have eb: "effective_limit cfg (st1 b) = res_limit (st1 b)" using bridge by (simp add: effective_limit_def)
  note win = win [unfolded granted_def]
  have n: "res_size (st1 r) = ?n" "res_align (st1 r) = res_align (st r)" "res_flags (st1 r) = unstored (res_flags (st r))"
    by (subst st1r; simp)+
  have pos: "0 < unat ?n" using r(2) by (simp add: placeable_def unat_gt_0)
  have n2: "res_size (st2 b) = res_size (st1 b)"
  proof -
    obtain x y z where "st2 b = (st1 b)\<lparr>res_base := x, res_limit := y, res_flags := z\<rparr>" using win by blast
    then show ?thesis by simp
  qed
  have top: "unat ?B + unat (res_size (st1 b)) \<le> 2 ^ 64" using win by blast
  then have sum: "unat (?B + ?o) = unat ?B + unat ?o" using fit pos by (intro unat_add_no_wrap) simp
  have st3r: "st3 r = (st r)\<lparr>res_base := ?B + ?o, res_limit := ?B + ?o + ?n - 1, res_flags := assigned_flags (res_flags (st r))\<rparr>"
    unfolding st3 assign_resource_def same fun_upd_same n pass2_masks(3) by (subst st1r) simp
  have f3: "res_base (st3 r) = ?B + ?o" "res_size (st3 r) = ?n" unfolding st3r by simp_all
  show base: "unat (res_base (st3 r)) = unat ?B + unat ?o" unfolding f3 by (rule sum)
  have le: "(2::nat) ^ unat (res_align (st r)) dvd 2 ^ unat (res_align (st1 b))"
    using al by (intro le_imp_power_dvd) (simp add: word_le_nat_alt)
  then have dv: "2 ^ unat (res_align (st r)) dvd unat (?B + ?o)"
    unfolding sum using off win by (meson dvd_add dvd_trans)
  show sub: "res_block (st3 r) \<subseteq> res_block (st2 b)" unfolding res_block_def base f3(2) n2 using fit by auto
  have inwin: "free x \<and> x \<le> effective_limit cfg (st r)" if "in_block (?B + ?o) ?n x" for x
  proof -
    have "in_block ?B (res_size (st1 b)) x"
      using that fit unfolding in_block_def sum word_le_nat_alt by linarith
    then have "free x \<and> x \<le> effective_limit cfg (st1 b)" using win by blast
    with li eb show ?thesis by auto
  qed
  show "granted cfg free (st r) (st3 r)"
    unfolding granted_def f3 using r(2) st3r dv top fit inwin unfolding sum by (simp add: placeable_def)
qed


lemma and_or_eq: "f AND (m OR n) = g AND (m OR n) \<longleftrightarrow> f AND m = g AND m \<and> f AND n = g AND (n :: u64)"
  unfolding bit_eq_iff by (auto simp: bit_simps)

text \<open>Without fixed subtractive resources the walk of pass 2 reaches what pass 1 placed.\<close>

definition no_fixed_subtractive :: "store \<Rightarrow> bool" where
  "no_fixed_subtractive st \<longleftrightarrow> (\<forall>r. res_flags (st r) AND IORESOURCE_SUBTRACTIVE \<noteq> 0 \<longrightarrow> movable st r)"

lemma walks_agree:
  assumes "no_fixed_subtractive st" "movable st b"
  shows "visited st pass2_mask (res_flags (st b) AND pass2_mask) bus =
    filter (pmovable st) (visited st bridge_mask (res_flags (st b) AND bridge_mask) bus)"
proof -
  have k: "res_flags (st r) AND pass2_mask = res_flags (st b) AND pass2_mask \<longleftrightarrow>
      res_flags (st r) AND bridge_mask = res_flags (st b) AND bridge_mask \<and> movable st r" if "movable st b" for st r
    unfolding pass2_mask_def bridge_mask_def and_or_eq movable_def using that by (simp add: movable_def)
  have "visited st m ty bus = filter (pmovable st) (visited st bridge_mask (res_flags (st b) AND bridge_mask) bus)"
    "visited_dev st m ty d rs = filter (pmovable st) (visited_dev st bridge_mask (res_flags (st b) AND bridge_mask) d rs)"
    if "m = pass2_mask" "ty = res_flags (st b) AND pass2_mask" for m ty bus d rs
    using that assms
  proof (induction st m ty bus and st m ty d rs rule: visited_visited_dev.induct)
    case (4 st m ty d r rs)
    note k = k [OF 4(6), of r]
    have sub: "movable st r" if "res_flags (st r) AND IORESOURCE_SUBTRACTIVE \<noteq> 0"
      using 4(5) that by (simp add: no_fixed_subtractive_def)
    note rest = 4(2) [OF 4(3-6)]
    show ?case
    proof (cases "res_flags (st r) AND bridge_mask = res_flags (st b) AND bridge_mask \<and> movable st r")
      case True
      then have m2: "\<not> res_flags (st r) AND m \<noteq> ty" using k 4(3,4) by simp
      show ?thesis
      proof (cases "res_flags (st r) AND IORESOURCE_SUBTRACTIVE \<noteq> 0")
        case s: True
        have "visited st m ty cs = filter (pmovable st) (visited st bridge_mask (res_flags (st b) AND bridge_mask) cs)"
          if "downstream d = Some cs" for cs
          by (rule 4(1) [OF m2 s that 4(3-6)])
        then show ?thesis using True m2 s rest by (cases "downstream d") simp_all
      next
        case False
        then show ?thesis using True m2 rest by simp
      qed
    next
      case False
      then have "res_flags (st r) AND m \<noteq> ty" using k 4(3,4) by simp
      moreover have "\<not> movable st r \<Longrightarrow> res_flags (st r) AND IORESOURCE_SUBTRACTIVE = 0" using sub by blast
      ultimately show ?thesis using False rest by auto
    qed
  qed auto
  then show ?thesis by blast
qed

text \<open>Placing a window, giving it a place, and assigning what lies behind it.\<close>

lemma behind_window_facts:
  assumes ready: "window_ready st bus b" and bridge: "res_flags (st b) AND IORESOURCE_BRIDGE \<noteq> 0"
    and sub: "no_fixed_subtractive st" "movable st b"
    and up: "update_bridge_resource cfg bus b st = Some st1"
    and win: "granted cfg free (st1 b) (st2 b)" and same: "\<And>r. r \<noteq> b \<Longrightarrow> st2 r = st1 r"
  defines "rs \<equiv> window_children st bus b" and "st3 \<equiv> assign_behind bus b st2"
  shows "r \<in> set rs \<Longrightarrow> granted cfg free (st r) (st3 r) \<and> res_block (st3 r) \<subseteq> res_block (st2 b)"
    and "p \<in> set rs \<Longrightarrow> q \<in> set rs \<Longrightarrow> p \<noteq> q \<Longrightarrow> res_block (st3 p) \<inter> res_block (st3 q) = {}"
    and "r \<notin> set rs \<Longrightarrow> r \<noteq> b \<Longrightarrow> st3 r = st r" and "st3 b = st2 b"
proof -
  let ?V = "visited st bridge_mask (res_flags (st b) AND bridge_mask) bus"
  obtain st1' where "update_bridge_resource cfg bus b st = Some st1'" "window_layout cfg st b rs st1'"
    using window_facts [OF ready, of cfg] unfolding rs_def by blast
  then have lay: "window_layout cfg st b rs st1" using up by simp
  note rd = ready [unfolded window_ready_def]
  note L = lay [unfolded window_layout_def]
  have V2: "visited st pass2_mask (res_flags (st b) AND pass2_mask) bus = filter (pmovable st) ?V"
    by (rule walks_agree [OF sub])
  have flags: "res_flags (st1 r) = res_flags (st r) \<or> res_flags (st1 r) = unstored (res_flags (st r))" for r
  proof -
    consider "r = b" | "r \<in> set rs" | "r \<noteq> b" "r \<notin> set rs" by blast
    then show ?thesis
    proof cases
      case 1
      obtain x y z where "st1 b = (st b)\<lparr>res_size := x, res_align := y, res_limit := z\<rparr>" using L by blast
      then show ?thesis unfolding 1 by simp
    next
      case 2
      then obtain x where "st1 r = (st r)\<lparr>res_base := x, res_flags := unstored (res_flags (st r))\<rparr>" using L by blast
      then show ?thesis by simp
    next
      case 3 then show ?thesis using L by simp
    qed
  qed
  have flags2: "res_flags (st2 r) = res_flags (st1 r) \<or> res_flags (st2 r) = assigned_flags (res_flags (st1 r))" for r
  proof (cases "r = b")
    case True
    obtain x y where "st2 b = (st1 b)\<lparr>res_base := x, res_limit := y, res_flags := assigned_flags (res_flags (st1 b))\<rparr>"
      using win unfolding granted_def by blast
    then show ?thesis unfolding True by simp
  qed (simp add: same)
  have p2: "res_flags (st2 r) AND pass2_mask = res_flags (st r) AND pass2_mask"
    and p2s: "res_flags (st2 r) AND IORESOURCE_SUBTRACTIVE = res_flags (st r) AND IORESOURCE_SUBTRACTIVE" for r
    using flags [of r] flags2 [of r] by (metis pass2_masks(1,2), metis assigned_masks(2) unstored_masks(3))
  have V: "visited st2 pass2_mask (res_flags (st2 b) AND pass2_mask) bus = filter (pmovable st) ?V"
    unfolding p2 visited_cong(1) [where st = st and st' = st2, OF p2 p2s] by (rule V2)
  have dist: "distinct (map snd (filter (pmovable st) ?V))" "b \<notin> snd ` set (filter (pmovable st) ?V)"
    using rd by (auto simp: distinct_map inj_on_def)
  have eq: "st3 r = (if r \<in> snd ` set (filter (pmovable st) ?V) \<and> placeable st2 r
      then assign_resource st2 r (res_base (st2 b) + res_base (st2 r)) r else st2 r)" for r
    unfolding st3_def using assign_behind_eq [OF refl, of st2 b bus r] dist unfolding V by blast
  have set_rs: "r \<in> set rs \<longleftrightarrow> r \<in> snd ` set (filter (pmovable st) ?V) \<and> placeable st r" for r
    by (auto simp: rs_def window_children_def window_order_def allocation_order_def)
  have nb: "r \<noteq> b" if "r \<in> set rs" for r using that set_rs dist(2) by blast
  have pl: "placeable st2 r = placeable st r" if "r \<noteq> b" for r
  proof (cases "r \<in> set rs")
    case True
    then obtain x where "st1 r = (st r)\<lparr>res_base := x, res_flags := unstored (res_flags (st r))\<rparr>" using L by blast
    then show ?thesis using same [OF that] by (simp add: placeable_def)
  next
    case False
    then show ?thesis using L that same [OF that] by (simp add: placeable_def)
  qed
  have g: "granted cfg free (st r) (st3 r) \<and> res_block (st3 r) \<subseteq> res_block (st2 b) \<and>
      unat (res_base (st3 r)) = unat (res_base (st2 b)) + unat (res_base (st1 r))" if r: "r \<in> set rs" for r
  proof -
    have "st3 r = assign_resource st2 r (res_base (st2 b) + res_base (st2 r)) r"
      using eq [of r] r set_rs pl [OF nb [OF r]] by simp
    moreover have "placeable st r" using r set_rs by blast
    ultimately have "granted cfg free (st r) (st3 r)" "res_block (st3 r) \<subseteq> res_block (st2 b)"
        "unat (res_base (st3 r)) = unat (res_base (st2 b)) + unat (res_base (st1 r))"
      by (rule behind_granted [OF lay r _ bridge win same [OF nb [OF r]], rotated -1])+
    then show ?thesis by blast
  qed
  then show "r \<in> set rs \<Longrightarrow> granted cfg free (st r) (st3 r) \<and> res_block (st3 r) \<subseteq> res_block (st2 b)" by blast
  show "res_block (st3 p) \<inter> res_block (st3 q) = {}" if pq: "p \<in> set rs" "q \<in> set rs" "p \<noteq> q"
  proof -
    have apart: "res_block (st3 p) \<inter> res_block (st3 q) = {}"
      if pq: "p \<in> set rs" "q \<in> set rs" "unat (res_base (st1 p)) + unat (res_size (st p)) \<le> unat (res_base (st1 q))" for p q
    proof -
      obtain x y z where "st3 p = (st p)\<lparr>res_base := x, res_limit := y, res_flags := z\<rparr>"
        using g [OF pq(1)] unfolding granted_def by blast
      then have "res_size (st3 p) = res_size (st p)" by simp
      moreover have "unat (res_base (st3 p)) = unat (res_base (st2 b)) + unat (res_base (st1 p))"
        "unat (res_base (st3 q)) = unat (res_base (st2 b)) + unat (res_base (st1 q))" using g pq by blast+
      ultimately show ?thesis using pq(3) unfolding res_block_def by (auto simp: disjoint_iff)
    qed
    have sw: "sorted_wrt (\<lambda>p q. unat (res_base (st1 p)) + unat (res_size (st p)) \<le> unat (res_base (st1 q))) rs"
      using L by blast
    from pq obtain i j where ij: "i < length rs" "j < length rs" "rs ! i = p" "rs ! j = q" by (meson in_set_conv_nth)
    then consider "i < j" | "j < i" using pq(3) by fastforce
    then show ?thesis
    proof cases
      case 1
      from sorted_wrt_nth_less [OF sw this ij(2)] ij show ?thesis using apart pq by blast
    next
      case 2
      from sorted_wrt_nth_less [OF sw this ij(1)] ij show ?thesis using apart [of q p] pq by (simp add: Int_commute)
    qed
  qed
  show "st3 r = st r" if "r \<notin> set rs" "r \<noteq> b"
  proof -
    have st2: "st2 r = st r" using L same that by simp
    have "\<not> (r \<in> snd ` set (filter (pmovable st) ?V) \<and> placeable st2 r)" using that set_rs pl by blast
    then have "st3 r = st2 r" using eq [of r] by (simp only: if_False)
    then show ?thesis using st2 by simp
  qed
  show "st3 b = st2 b" using eq [of b] dist(2) by simp
qed


subsection \<open>A resource reached twice\<close>

text \<open>
  Two subtractive resources of one kind on a device let the walk reach what lies behind it twice. Two
  equally large resources there follow each other forever.
\<close>

definition reached_twice :: "store \<Rightarrow> u64 \<Rightarrow> u64 \<Rightarrow> dev list \<Rightarrow> dev \<Rightarrow> rid \<Rightarrow> dev \<Rightarrow> rid \<Rightarrow> bool" where
  "reached_twice st m ty bus d a e c \<longleftrightarrow>
     visited st m ty bus = [(d, a), (e, c), (d, a), (e, c)] \<and> a \<noteq> c \<and> movable st a \<and> movable st c \<and>
     order_key st a = order_key st c"

lemma twice_next:
  assumes "reached_twice st m ty bus d a e c"
  shows "largest_resource st bus None m ty = Some (d, a)"
    and "largest_resource st bus (Some a) m ty = Some (e, c)"
    and "largest_resource st bus (Some c) m ty = Some (d, a)"
  using assms unfolding reached_twice_def largest_resource_def search_visited
  by (simp_all add: pick_step first_least_def)

lemma twice_forever:
  assumes tw: "\<And>s. I s \<Longrightarrow> reached_twice (get s) m ty bus d a e c" and step: "\<And>d r s. I s \<Longrightarrow> r \<in> {a, c} \<Longrightarrow> I (body d r s)"
    and init: "I s"
  shows "for_largest get bus m ty body None s = None"
proof -
  have never: "get' = get \<longrightarrow> bus' = bus \<longrightarrow> m' = m \<longrightarrow> ty' = ty \<longrightarrow> body' = body \<longrightarrow> l \<in> {Some a, Some c} \<longrightarrow> I s \<longrightarrow> False"
    if "for_largest get' bus' m' ty' body' l s = Some y" for get' bus' m' ty' body' l s y
  proof (rule for_largest.raw_induct [OF _ that], intro impI)
    fix rec get' bus' m' ty' body' l s y
    assume IH: "\<And>get' bus' m' ty' body' l s y. rec get' bus' m' ty' body' l s = Some y \<Longrightarrow>
        get' = get \<longrightarrow> bus' = bus \<longrightarrow> m' = m \<longrightarrow> ty' = ty \<longrightarrow> body' = body \<longrightarrow> l \<in> {Some a, Some c} \<longrightarrow> I s \<longrightarrow> False"
      and r: "(case largest_resource (get' s) bus' l m' ty' of None \<Rightarrow> Some s
          | Some (dev, res) \<Rightarrow> rec get' bus' m' ty' body' (Some res) (body' dev res s)) = Some y"
      and h: "get' = get" "bus' = bus" "m' = m" "ty' = ty" "body' = body" "l \<in> {Some a, Some c}" "I s"
    note r = r [unfolded h(1-5)]
    from h(6) consider "l = Some a" | "l = Some c" by blast
    then show False
    proof cases
      case 1
      with r twice_next(2) [OF tw [OF h(7)]] have "rec get bus m ty body (Some c) (body e c s) = Some y" by simp
      from IH [OF this] step [OF h(7), of c e] show False by simp
    next
      case 2
      with r twice_next(3) [OF tw [OF h(7)]] have "rec get bus m ty body (Some a) (body d a s) = Some y" by simp
      from IH [OF this] step [OF h(7), of a d] show False by simp
    qed
  qed
  have "for_largest get bus m ty body None s = for_largest get bus m ty body (Some a) (body d a s)"
    by (subst for_largest.simps) (simp add: twice_next(1) [OF tw [OF init]])
  also have "\<dots> = None"
    using never [of get bus m ty body "Some a" "body d a s"] step [OF init, of a d]
    by (cases "for_largest get bus m ty body (Some a) (body d a s)") simp_all
  finally show ?thesis .
qed

lemma toplevel_twice:
  assumes tw: "reached_twice st IORESOURCE_TYPE_MASK type (children domain) d a e c"
  shows "allocate_toplevel_resources cfg domain type (st, heap) = None"
proof -
  have "for_largest fst (children domain) IORESOURCE_TYPE_MASK type (allocate_one cfg type) None
      (st, setup_resource_ranges st domain type heap) = None"
  proof (rule twice_forever [where I = "same_type_order st" and d = d and a = a and e = e and c = c])
    show "reached_twice (fst s) IORESOURCE_TYPE_MASK type (children domain) d a e c" if "same_type_order st s" for s
    proof -
      from that have v: "same_view st (fst s) IORESOURCE_TYPE_MASK" and o: "order_key (fst s) r = order_key st r" for r
        by (simp_all add: same_type_order_def)
      have "movable (fst s) r = movable st r" for r using v by (simp add: same_view_def movable_def)
      then show ?thesis
        using tw o same_view_order [OF v o] unfolding reached_twice_def by simp
    qed
  qed (simp_all add: allocate_one_same_order, simp add: same_type_order_def same_view_def)
  moreover have "children domain \<noteq> []" using tw by (auto simp: reached_twice_def)
  ultimately show ?thesis by (simp add: allocate_toplevel_resources_def dev_has_children_def)
qed

lemma enumerate_facts:
  assumes "distinct (map snd (visited st m ty bus))"
  shows "for_largest fst bus m ty (\<lambda>d r (s, out). (s, out @ [(d, r)])) None (st, []) = Some (st, allocation_order st m ty bus)"
proof -
  let ?f = "\<lambda>d r (s :: store, out). (s, out @ [(d, r)])"
  have f: "fold (case_prod ?f) ps (st, out) = (st, out @ ps)" for ps out
    by (induction ps arbitrary: out) auto
  have "for_largest fst bus m ty ?f None (st, []) = Some (fold (case_prod ?f) (allocation_order st m ty bus) (st, []))"
    by (rule for_largest_fold(1) [where I = "\<lambda>s. fst s = st" and get = fst and st = st, OF assms]) auto
  then show ?thesis unfolding f by simp
qed


subsection \<open>Sample devices\<close>

definition sample_request :: "u64 \<Rightarrow> resource_t \<Rightarrow> u8 \<Rightarrow> resource" where
  "sample_request flags size1 al =
     \<lparr>res_base = 0, res_size = size1, res_limit = 0xFFFFFFFF, res_flags = flags, res_index = 0, res_align = al, res_gran = al\<rparr>"

text \<open>A domain window, a fixed resource, a bridge window, and three requests.\<close>

definition sample_store :: store where
  "sample_store r =
     (if r = 0 then (sample_request IORESOURCE_MEM 0 0)\<lparr>res_base := 0x80000000, res_limit := 0xFEFFFFFF\<rparr>
      else if r = 1 then (sample_request (IORESOURCE_MEM OR IORESOURCE_FIXED) 0x1000 0)\<lparr>res_base := 0x80000000\<rparr>
      else if r = 2 then sample_request (IORESOURCE_MEM OR IORESOURCE_BRIDGE) 0 20
      else if r = 3 then sample_request IORESOURCE_MEM 0x1000 12
      else if r = 4 then sample_request IORESOURCE_MEM 0x4000 14
      else sample_request IORESOURCE_MEM 0x1000 12)"

definition sample_bus :: "dev list" where
  "sample_bus = [Dev True False [3] None, Dev True False [4, 5] None]"

definition sample_domain :: dev where
  "sample_domain = Dev True True [0] (Some [Dev True False [1, 3, 4] None])"

definition sample_config :: alloc_config where
  "sample_config = \<lparr>ALWAYS_ALLOW_ABOVE_4G_ALLOCATION = False, RESOURCE_ALLOCATION_TOP_DOWN = True\<rparr>"

lemmas flag_defs = IORESOURCE_TYPE_MASK_def IORESOURCE_PREFETCH_def IORESOURCE_IO_def IORESOURCE_MEM_def IORESOURCE_IRQ_def
  IORESOURCE_DRQ_def IORESOURCE_SUBTRACTIVE_def IORESOURCE_FIXED_def IORESOURCE_ASSIGNED_def IORESOURCE_STORED_def
  IORESOURCE_BRIDGE_def IORESOURCE_PCI64_def IORESOURCE_ABOVE_4G_def

lemma sample_visited:
  "visited sample_store bridge_mask IORESOURCE_MEM sample_bus =
     [(Dev True False [3] None, 3), (Dev True False [4, 5] None, 4), (Dev True False [4, 5] None, 5)]"
  "allocation_order sample_store bridge_mask IORESOURCE_MEM sample_bus =
     [(Dev True False [4, 5] None, 4), (Dev True False [3] None, 3), (Dev True False [4, 5] None, 5)]"
proof -
  show v: "visited sample_store bridge_mask IORESOURCE_MEM sample_bus =
     [(Dev True False [3] None, 3), (Dev True False [4, 5] None, 4), (Dev True False [4, 5] None, 5)]"
    by (simp add: sample_bus_def sample_store_def sample_request_def flag_defs bridge_mask_def)
  show "allocation_order sample_store bridge_mask IORESOURCE_MEM sample_bus =
     [(Dev True False [4, 5] None, 4), (Dev True False [3] None, 3), (Dev True False [4, 5] None, 5)]"
    unfolding allocation_order_def v
    by (simp add: sample_store_def sample_request_def flag_defs movable_def order_key_def)
qed

lemma sample_window:
  "res_flags (sample_store 2) AND bridge_mask = IORESOURCE_MEM"
  "window_children sample_store sample_bus 2 = [4, 3, 5]"
proof -
  show f: "res_flags (sample_store 2) AND bridge_mask = IORESOURCE_MEM"
    by (simp add: sample_store_def sample_request_def flag_defs bridge_mask_def)
  show "window_children sample_store sample_bus 2 = [4, 3, 5]"
    unfolding window_children_def window_order_def f sample_visited
    by (simp add: placeable_def sample_store_def sample_request_def)
qed

lemma sample_window_ready: "window_ready sample_store sample_bus 2"
  unfolding window_ready_def sample_window sample_visited
  by (simp add: demand_def placeable_def sample_store_def sample_request_def)

lemma sample_domain_ready: "domain_ready sample_store sample_domain IORESOURCE_MEM 10"
proof -
  have c: "children sample_domain = [Dev True False [1, 3, 4] None]" by (simp add: children_def sample_domain_def)
  have v: "visited sample_store IORESOURCE_TYPE_MASK IORESOURCE_MEM (children sample_domain) =
      [(Dev True False [1, 3, 4] None, 1), (Dev True False [1, 3, 4] None, 3), (Dev True False [1, 3, 4] None, 4)]"
    unfolding c by (simp add: sample_store_def sample_request_def flag_defs)
  have o: "allocation_order sample_store IORESOURCE_TYPE_MASK IORESOURCE_MEM (children sample_domain) =
      [(Dev True False [1, 3, 4] None, 4), (Dev True False [1, 3, 4] None, 3)]"
    unfolding allocation_order_def v
    by (simp add: sample_store_def sample_request_def flag_defs movable_def order_key_def)
  have w: "window_spans sample_store sample_domain IORESOURCE_MEM = [(0x80000000, 0x7F000000)]"
    by (simp add: window_spans_def sample_domain_def sample_store_def sample_request_def flag_defs)
  have f: "fixed_spans sample_store sample_domain IORESOURCE_MEM = [(0x80000000, 0x1000)]"
    by (simp add: fixed_spans_def sample_domain_def children_def sample_store_def sample_request_def flag_defs)
  show ?thesis
    unfolding domain_ready_def v o w f
    by (simp add: dev_has_children_def c spans_ok_def assigned_def) (simp add: small_request_def sample_store_def sample_request_def flag_defs)
qed

text \<open>The window of the sample after pass 1.\<close>

definition sample_placed :: store where
  "sample_placed = sample_store
     (2 := (sample_store 2)\<lparr>res_size := 0x100000\<rparr>,
      3 := (sample_store 3)\<lparr>res_base := 0x4000\<rparr>,
      5 := (sample_store 5)\<lparr>res_base := 0x5000\<rparr>)"

lemma place_child_inside:
  assumes "placeable st c" "c \<noteq> b" "res_align (st c) \<le> res_align (st b)" "res_limit (st b) \<le> effective_limit cfg (st c)"
    and "ALIGN_UP base (POWER_OF_2 (res_align (st c))) = w" "unstored (res_flags (st c)) = res_flags (st c)"
  shows "place_child cfg b d c (st, base) = (st(c := (st c)\<lparr>res_base := w\<rparr>), w + res_size (st c))"
  using assms by (auto simp: place_child_def placeable_def Let_def not_less)

lemma sample_update: "update_bridge_resource sample_config sample_bus 2 sample_store = Some sample_placed"
proof -
  let ?s = "fold (case_prod (place_child sample_config 2)) (allocation_order sample_store bridge_mask IORESOURCE_MEM sample_bus) (sample_store, 0)"
  have f: "for_largest fst sample_bus bridge_mask IORESOURCE_MEM (place_child sample_config 2) None (sample_store, 0) = Some ?s"
    using update_bridge_loop [of sample_store 2 sample_bus sample_config] sample_window_ready
    unfolding window_ready_def sample_window(1) by blast
  define st1 where "st1 = sample_store(4 := (sample_store 4)\<lparr>res_base := 0\<rparr>)"
  define st2 where "st2 = st1(3 := (st1 3)\<lparr>res_base := 0x4000\<rparr>)"
  define st3 where "st3 = st2(5 := (st2 5)\<lparr>res_base := 0x5000\<rparr>)"
  note d = st1_def st2_def st3_def placeable_def sample_store_def sample_request_def effective_limit_def sample_config_def
    flag_defs ALIGN_UP_def POWER_OF_2_def MIN_word_def
  have "place_child sample_config 2 e 4 (sample_store, 0) = (st1, 0x4000)" for e
    unfolding st1_def by (subst place_child_inside [where w = 0]) (simp_all add: d)
  moreover have "place_child sample_config 2 e 3 (st1, 0x4000) = (st2, 0x5000)" for e
    unfolding st2_def by (subst place_child_inside [where w = "0x4000"]) (simp_all add: d)
  moreover have "place_child sample_config 2 e 5 (st2, 0x5000) = (st3, 0x6000)" for e
    unfolding st3_def by (subst place_child_inside [where w = "0x5000"]) (simp_all add: d)
  ultimately have "?s = (st3, 0x6000)" unfolding sample_visited by simp
  with f have "update_bridge_resource sample_config sample_bus 2 sample_store =
      Some (st3(2 := (st3 2)\<lparr>res_size := ALIGN_UP 0x6000 (POWER_OF_2 (res_gran (st3 2)))\<rparr>))"
    unfolding update_bridge_resource_def Let_def bridge_mask_def [symmetric] sample_window(1) by simp
  also have "\<dots> = Some sample_placed"
    by (rule arg_cong [where f = Some], rule ext) (auto simp: d sample_placed_def)
  finally show ?thesis .
qed


subsection \<open>Properties\<close>

text \<open>The loop over the next largest resource is a stable selection sort. On a bus whose walk reaches
  no resource twice it ends, and it visits exactly the movable resources of the wanted kind, ordered by
  alignment, then size, both descending, and resources equal in both in the order of the walk.\<close>

theorem largest_resource_enumerates:
  assumes "distinct (map snd (visited st type_mask type bus))"
  shows "for_largest fst bus type_mask type (\<lambda>d r (s, out). (s, out @ [(d, r)])) None (st, []) =
    Some (st, allocation_order st type_mask type bus)"
  by (rule enumerate_facts) (rule assms)



text \<open>C3: pass 2 for the resources right below a domain. Every resource it assigns gets an aligned block
  whose every address lies in a window of the domain, outside all fixed resources of the subtree, and
  not above the effective limit; no two blocks share a page (a byte for I/O). A resource with a size is
  left without a place only if no block of addresses still free would do. The loop ends and changes
  nothing else.\<close>

theorem allocate_toplevel_resources_spec:
  assumes "domain_ready st domain type heap"
  shows "\<exists>st' heap'. allocate_toplevel_resources cfg domain type (st, heap) = Some (st', heap') \<and>
    (\<forall>r. r \<notin> set (domain_order st domain type) \<longrightarrow> st' r = st r) \<and>
    (\<forall>r\<in>set (domain_order st domain type).
       if assigned st' r then granted cfg (allocatable st domain type) (st r) (st' r) else st' r = st r) \<and>
    (\<forall>p\<in>set (domain_order st domain type). \<forall>q\<in>set (domain_order st domain type).
       p \<noteq> q \<longrightarrow> assigned st' p \<longrightarrow> assigned st' q \<longrightarrow>
       (\<forall>x. \<not> (touches (granularity type) (res_base (st' p)) (res_size (st' p)) x \<and>
               touches (granularity type) (res_base (st' q)) (res_size (st' q)) x))) \<and>
    (\<forall>r\<in>set (domain_order st domain type). \<not> assigned st' r \<longrightarrow> res_size (st r) \<noteq> 0 \<longrightarrow>
       no_room cfg (\<lambda>x. allocatable st domain type x \<and> \<not> taken (granularity type) st' (domain_order st domain type) x) (st r))"
proof -
  obtain st' R heap' where "allocate_toplevel_resources cfg domain type (st, heap) = Some (st', heap')"
    and "alloc_inv cfg type (granularity type) (allocatable st domain type) st (domain_order st domain type) 0 (st', R)"
    by (rule allocate_toplevel_facts [OF assms])
  with alloc_inv_apart [OF this(2) distinct_domain_order [OF assms]] show ?thesis unfolding alloc_inv_def by auto
qed

theorem allocate_toplevel_resources_spec_witness:
  "\<exists>st' heap'. allocate_toplevel_resources sample_config sample_domain IORESOURCE_MEM (sample_store, 10) = Some (st', heap') \<and>
     st' 0 = sample_store 0"
proof -
  have "0 \<notin> set (domain_order sample_store sample_domain IORESOURCE_MEM)"
    by (auto simp: domain_order_def allocation_order_def children_def sample_domain_def sample_store_def sample_request_def
        flag_defs split: if_splits)
  with allocate_toplevel_resources_spec [OF sample_domain_ready, of sample_config] show ?thesis by blast
qed



text \<open>A device with two subtractive resources of one kind lets the walk reach what lies behind it
  twice. Two movable resources of equal alignment and size there follow each other forever, and the
  allocation for the domain does not end.\<close>

theorem allocate_toplevel_cycles:
  assumes "reached_twice st IORESOURCE_TYPE_MASK type (children domain) d a e c"
  shows "allocate_toplevel_resources cfg domain type (st, heap) = None"
  by (rule toplevel_twice) (rule assms)

definition sample_lpc :: dev where
  "sample_lpc = Dev True True [] (Some [Dev True False [6, 7] (Some [Dev True False [3] None, Dev True False [5] None])])"

definition sample_lpc_store :: store where
  "sample_lpc_store r = sample_request (if r = 6 \<or> r = 7
     then IORESOURCE_IO OR IORESOURCE_SUBTRACTIVE OR IORESOURCE_ASSIGNED OR IORESOURCE_FIXED else IORESOURCE_IO) 8 3"

text \<open>Pass 1 and pass 2 do not filter the same resources. What only a fixed subtractive resource makes
  reachable is placed behind the window, which reserves room for it, but not assigned: it keeps the
  offset in the window for its base.\<close>

theorem behind_bridge_unassigned:
  assumes "window_ready st bus b" "update_bridge_resource cfg bus b st = Some st1" "r \<in> set (window_children st bus b)"
    and "visited st2 pass2_mask (res_flags (st2 b) AND pass2_mask) bus = []" "\<And>r. r \<noteq> b \<Longrightarrow> st2 r = st1 r"
  shows "\<not> assigned (assign_behind bus b st2) r \<and>
    unat (res_base (assign_behind bus b st2 r)) + unat (res_size (st r)) \<le> unat (res_size (st1 b))"
proof -
  obtain st1' where "update_bridge_resource cfg bus b st = Some st1'" "window_layout cfg st b (window_children st bus b) st1'"
    using window_facts [OF assms(1), of cfg] by blast
  then have L: "window_layout cfg st b (window_children st bus b) st1" using assms(2) by simp
  have "r \<in> snd ` set (visited st bridge_mask (res_flags (st b) AND bridge_mask) bus)"
    using assms(3) set_window_order [of st bus b] by (auto simp: window_children_def)
  then have "r \<noteq> b" using assms(1) by (auto simp: window_ready_def)
  moreover have "assign_behind bus b st2 r = st2 r" using assign_behind_eq [OF refl, of st2 b bus r] assms(4) by simp
  ultimately have e: "assign_behind bus b st2 r = st1 r" using assms(5) by simp
  obtain x where "st1 r = (st r)\<lparr>res_base := x, res_flags := unstored (res_flags (st r))\<rparr>"
    using L assms(3) unfolding window_layout_def by blast
  then have f: "res_flags (st1 r) = unstored (res_flags (st r))" by simp
  have "res_flags (st1 r) AND IORESOURCE_ASSIGNED = 0" unfolding f by (rule unstored_masks)
  moreover have "unat (res_base (st1 r)) + unat (res_size (st r)) \<le> unat (res_size (st1 b))"
    using L assms(3) unfolding window_layout_def by blast
  ultimately show ?thesis unfolding assigned_def e by simp
qed

definition sample_legacy :: "dev list" where
  "sample_legacy = [Dev True False [6] (Some [Dev True False [3] None])]"

definition sample_legacy_store :: store where
  "sample_legacy_store = sample_lpc_store(2 := sample_request (IORESOURCE_IO OR IORESOURCE_BRIDGE) 0 12)"

end
