(* ===== verification/BootState.thy ===== *)
theory BootState
  imports Timer
begin

text \<open>
  The boot state machine of the ramstage, \<^verbatim>\<open>src/lib/hardwaremain.c\<close> and \<^verbatim>\<open>src/include/bootstate.h\<close>. The
  callbacks of a phase are a linked list through the callback structures, kept as a store of \<^verbatim>\<open>next\<close>
  pointers, because a structure can be scheduled twice. The machine extends the state of the timer
  library (\<open>Timer\<close>), whose queue it polls. The work of the states and the callbacks is foreign code:
  parameters in the record \<open>hooks\<close>. The loops have no bound in the code; a run that does not end is
  \<open>None\<close>. The time samples and the messages are left out, since nothing depends on them.
\<close>

subsection \<open>Data\<close>

datatype boot_state_t =
  BS_PRE_DEVICE | BS_DEV_INIT_CHIPS | BS_DEV_ENUMERATE | BS_DEV_RESOURCES | BS_DEV_ENABLE | BS_DEV_INIT
| BS_POST_DEVICE | BS_OS_RESUME_CHECK | BS_OS_RESUME | BS_WRITE_TABLES | BS_PAYLOAD_LOAD | BS_PAYLOAD_BOOT

datatype boot_state_sequence_t = BS_ON_ENTRY | BS_ON_EXIT

text \<open>The values of the enumerations, in which the code compares them.\<close>

fun state_value :: "boot_state_t \<Rightarrow> nat" where
  "state_value BS_PRE_DEVICE = 0"
| "state_value BS_DEV_INIT_CHIPS = 1"
| "state_value BS_DEV_ENUMERATE = 2"
| "state_value BS_DEV_RESOURCES = 3"
| "state_value BS_DEV_ENABLE = 4"
| "state_value BS_DEV_INIT = 5"
| "state_value BS_POST_DEVICE = 6"
| "state_value BS_OS_RESUME_CHECK = 7"
| "state_value BS_OS_RESUME = 8"
| "state_value BS_WRITE_TABLES = 9"
| "state_value BS_PAYLOAD_LOAD = 10"
| "state_value BS_PAYLOAD_BOOT = 11"

lemma state_value_inj: "state_value a = state_value b \<longleftrightarrow> a = b"
  by (cases a; cases b) simp_all

instantiation boot_state_t :: linorder
begin

definition less_eq_boot_state_t :: "boot_state_t \<Rightarrow> boot_state_t \<Rightarrow> bool" where
  "less_eq_boot_state_t a b \<longleftrightarrow> state_value a \<le> state_value b"
definition less_boot_state_t :: "boot_state_t \<Rightarrow> boot_state_t \<Rightarrow> bool" where
  "less_boot_state_t a b \<longleftrightarrow> state_value a < state_value b"

instance
  by standard (auto simp: less_eq_boot_state_t_def less_boot_state_t_def state_value_inj)

end

instantiation boot_state_sequence_t :: linorder
begin

definition less_eq_boot_state_sequence_t :: "boot_state_sequence_t \<Rightarrow> boot_state_sequence_t \<Rightarrow> bool" where
  "less_eq_boot_state_sequence_t a b \<longleftrightarrow> a = BS_ON_ENTRY \<or> b = BS_ON_EXIT"
definition less_boot_state_sequence_t :: "boot_state_sequence_t \<Rightarrow> boot_state_sequence_t \<Rightarrow> bool" where
  "less_boot_state_sequence_t a b \<longleftrightarrow> a = BS_ON_ENTRY \<and> b = BS_ON_EXIT"

instance
proof
  fix a b c :: boot_state_sequence_t
  show "a < b \<longleftrightarrow> a \<le> b \<and> \<not> b \<le> a" "a \<le> a" "a \<le> b \<Longrightarrow> b \<le> c \<Longrightarrow> a \<le> c" "a \<le> b \<Longrightarrow> b \<le> a \<Longrightarrow> a = b" "a \<le> b \<or> b \<le> a"
    by (cases a; cases b; cases c; simp add: less_eq_boot_state_sequence_t_def less_boot_state_sequence_t_def)+
qed

end

text \<open>A phase holds the first callback of its list, 0 when there is none, and the count of its blockers.\<close>

record boot_phase =
  first_callback :: addr
  blockers :: nat

record boot_state =
  phases :: "boot_state_sequence_t \<Rightarrow> boot_phase"
  state_arg :: addr
  complete :: bool

record machine = timer_state +
  next_callback :: "addr \<Rightarrow> addr"
  boot_states :: "boot_state_t \<Rightarrow> boot_state"
  state_id :: boot_state_t
  seq :: boot_state_sequence_t
  readings :: nat

definition boot_state_init :: boot_state where
  "boot_state_init = \<lparr>phases = \<lambda>_. \<lparr>first_callback = 0, blockers = 0\<rparr>, state_arg = 0, complete = False\<rparr>"

text \<open>The machine before anything is scheduled.\<close>

definition fresh :: "'z machine_scheme \<Rightarrow> bool" where
  "fresh m \<longleftrightarrow> boot_states m = (\<lambda>_. boot_state_init) \<and> state_id m = BS_PRE_DEVICE \<and> seq m = BS_ON_ENTRY"

definition phase :: "'z machine_scheme \<Rightarrow> boot_state_t \<Rightarrow> boot_state_sequence_t \<Rightarrow> boot_phase" where
  "phase m s q = phases (boot_states m s) q"

definition set_state :: "'z machine_scheme \<Rightarrow> boot_state_t \<Rightarrow> boot_state \<Rightarrow> 'z machine_scheme" where
  "set_state m s st = m\<lparr>boot_states := (boot_states m)(s := st)\<rparr>"

definition set_phase ::
    "'z machine_scheme \<Rightarrow> boot_state_t \<Rightarrow> boot_state_sequence_t \<Rightarrow> boot_phase \<Rightarrow> 'z machine_scheme" where
  "set_phase m s q ph = set_state m s ((boot_states m s)\<lparr>phases := (phases (boot_states m s))(q := ph)\<rparr>)"

subsection \<open>The interface for callbacks\<close>

text \<open>The Boolean results are true for the return value 0 and false for -1.\<close>

definition boot_state_sched_callback ::
    "'z machine_scheme \<Rightarrow> boot_state_t \<Rightarrow> addr \<Rightarrow> boot_state_sequence_t \<Rightarrow> bool \<times> 'z machine_scheme" where
  "boot_state_sched_callback m s bscb q =
     (if complete (boot_states m s) then (False, m)
      else (True, set_phase (m\<lparr>next_callback := (next_callback m)(bscb := first_callback (phase m s q))\<rparr>) s q
        ((phase m s q)\<lparr>first_callback := bscb\<rparr>)))"

definition boot_state_sched_on_entry :: "'z machine_scheme \<Rightarrow> addr \<Rightarrow> boot_state_t \<Rightarrow> bool \<times> 'z machine_scheme" where
  "boot_state_sched_on_entry m bscb s = boot_state_sched_callback m s bscb BS_ON_ENTRY"

definition boot_state_sched_on_exit :: "'z machine_scheme \<Rightarrow> addr \<Rightarrow> boot_state_t \<Rightarrow> bool \<times> 'z machine_scheme" where
  "boot_state_sched_on_exit m bscb s = boot_state_sched_callback m s bscb BS_ON_EXIT"

definition boot_state_block ::
    "'z machine_scheme \<Rightarrow> boot_state_t \<Rightarrow> boot_state_sequence_t \<Rightarrow> bool \<times> 'z machine_scheme" where
  "boot_state_block m s q =
     (if state_id m > s \<or> state_id m = s \<and> seq m > q then (False, m)
      else (True, set_phase m s q ((phase m s q)\<lparr>blockers := blockers (phase m s q) + 1\<rparr>)))"

definition boot_state_unblock ::
    "'z machine_scheme \<Rightarrow> boot_state_t \<Rightarrow> boot_state_sequence_t \<Rightarrow> bool \<times> 'z machine_scheme" where
  "boot_state_unblock m s q =
     (if state_id m > s \<or> state_id m = s \<and> seq m > q then (False, m)
      else if blockers (phase m s q) = 0 then (False, m)
      else (True, set_phase m s q ((phase m s q)\<lparr>blockers := blockers (phase m s q) - 1\<rparr>)))"

subsection \<open>The machine\<close>

text \<open>
  What the machine calls. \<open>clock n\<close> is the n-th reading of the timer; \<open>None\<close> of \<open>payload_run\<close> and
  \<open>acpi_resume\<close> says that control was handed over for good.
\<close>

record 'm hooks =
  TIMER_QUEUE :: bool
  HAVE_ACPI_RESUME :: bool
  clock :: "nat \<Rightarrow> mono_time"
  run_callback :: "addr \<Rightarrow> 'm \<Rightarrow> 'm"
  run_timer :: "addr \<Rightarrow> addr \<Rightarrow> 'm \<Rightarrow> 'm"
  dev_initialize_chips :: "'m \<Rightarrow> 'm"
  dev_enumerate :: "'m \<Rightarrow> 'm"
  dev_configure :: "'m \<Rightarrow> 'm"
  dev_enable :: "'m \<Rightarrow> 'm"
  dev_initialize :: "'m \<Rightarrow> 'm"
  dev_finalize :: "'m \<Rightarrow> 'm"
  acpi_find_wakeup_vector :: "'m \<Rightarrow> addr"
  arch_bootstate_coreboot_exit :: "'m \<Rightarrow> 'm"
  acpi_resume :: "addr \<Rightarrow> 'm \<Rightarrow> 'm option"
  write_tables :: "'m \<Rightarrow> 'm"
  dev_finalize_chips :: "'m \<Rightarrow> 'm"
  payload_load :: "'m \<Rightarrow> 'm"
  payload_run :: "'m \<Rightarrow> 'm option"

datatype 'm run_result = Next boot_state_t 'm | Handed_over | Died

partial_function (option) bs_run_timers :: "'z machine_scheme hooks \<Rightarrow> bool \<Rightarrow> 'z machine_scheme \<Rightarrow> 'z machine_scheme option" where
  "bs_run_timers h drain1 m =
     (if \<not> TIMER_QUEUE h then Some m
      else (case timers_run (run_timer h) (m\<lparr>readings := Suc (readings m)\<rparr>) (clock h (readings m)) of
              (more_pending, m1) \<Rightarrow> if \<not> more_pending then Some m1 else if drain1 then bs_run_timers h drain1 m1 else Some m1))"

text \<open>Taking the first callback off the list of a phase.\<close>

definition pop_callback :: "'z machine_scheme \<Rightarrow> boot_state_t \<Rightarrow> boot_state_sequence_t \<Rightarrow> 'z machine_scheme" where
  "pop_callback m s q =
     (let bscb = first_callback (phase m s q);
          m1 = set_phase m s q ((phase m s q)\<lparr>first_callback := next_callback m bscb\<rparr>)
      in m1\<lparr>next_callback := (next_callback m1)(bscb := 0)\<rparr>)"

partial_function (option) bs_call_callbacks ::
    "'z machine_scheme hooks \<Rightarrow> boot_state_t \<Rightarrow> boot_state_sequence_t \<Rightarrow> 'z machine_scheme \<Rightarrow> 'z machine_scheme option" where
  "bs_call_callbacks h s q m =
     (let bscb = first_callback (phase m s q)
      in if bscb \<noteq> 0
         then (case bs_run_timers h False (run_callback h bscb (pop_callback m s q)) of
                 None \<Rightarrow> None
               | Some m1 \<Rightarrow> bs_call_callbacks h s q m1)
         else if blockers (phase m s q) = 0 then Some m
         else (case bs_run_timers h False m of
                 None \<Rightarrow> None
               | Some m1 \<Rightarrow> bs_call_callbacks h s q m1))"

definition bs_os_resume_check :: "'z machine_scheme hooks \<Rightarrow> 'z machine_scheme \<Rightarrow> 'z machine_scheme run_result" where
  "bs_os_resume_check h m =
     (let wake_vector = (if HAVE_ACPI_RESUME h then acpi_find_wakeup_vector h m else 0)
      in if wake_vector \<noteq> 0
         then Next BS_OS_RESUME (set_state m BS_OS_RESUME ((boot_states m BS_OS_RESUME)\<lparr>state_arg := wake_vector\<rparr>))
         else Next BS_WRITE_TABLES m)"

definition bs_os_resume :: "'z machine_scheme hooks \<Rightarrow> addr \<Rightarrow> 'z machine_scheme \<Rightarrow> 'z machine_scheme run_result" where
  "bs_os_resume h wake_vector m =
     (if HAVE_ACPI_RESUME h \<and> acpi_resume h wake_vector (arch_bootstate_coreboot_exit h m) = None then Handed_over
      else Died)"

definition bs_payload_boot :: "'z machine_scheme hooks \<Rightarrow> 'z machine_scheme \<Rightarrow> 'z machine_scheme run_result" where
  "bs_payload_boot h m =
     (case payload_run h (arch_bootstate_coreboot_exit h m) of
        None \<Rightarrow> Handed_over
      | Some m1 \<Rightarrow> Next BS_PAYLOAD_BOOT m1)"

text \<open>The function pointer \<^verbatim>\<open>run_state\<close> of the table of states.\<close>

fun run_state :: "'z machine_scheme hooks \<Rightarrow> boot_state_t \<Rightarrow> addr \<Rightarrow> 'z machine_scheme \<Rightarrow> 'z machine_scheme run_result" where
  "run_state h BS_PRE_DEVICE arg m = Next BS_DEV_INIT_CHIPS m"
| "run_state h BS_DEV_INIT_CHIPS arg m = Next BS_DEV_ENUMERATE (dev_initialize_chips h m)"
| "run_state h BS_DEV_ENUMERATE arg m = Next BS_DEV_RESOURCES (dev_enumerate h m)"
| "run_state h BS_DEV_RESOURCES arg m = Next BS_DEV_ENABLE (dev_configure h m)"
| "run_state h BS_DEV_ENABLE arg m = Next BS_DEV_INIT (dev_enable h m)"
| "run_state h BS_DEV_INIT arg m = Next BS_POST_DEVICE (dev_initialize h m)"
| "run_state h BS_POST_DEVICE arg m = Next BS_OS_RESUME_CHECK (dev_finalize h m)"
| "run_state h BS_OS_RESUME_CHECK arg m = bs_os_resume_check h m"
| "run_state h BS_OS_RESUME arg m = bs_os_resume h arg m"
| "run_state h BS_WRITE_TABLES arg m = Next BS_PAYLOAD_LOAD (dev_finalize_chips h (write_tables h m))"
| "run_state h BS_PAYLOAD_LOAD arg m = Next BS_PAYLOAD_BOOT (payload_load h m)"
| "run_state h BS_PAYLOAD_BOOT arg m = bs_payload_boot h m"

text \<open>The end of a round: the next phase is current and the state is complete.\<close>

definition complete_state :: "'z machine_scheme \<Rightarrow> boot_state_t \<Rightarrow> boot_state_t \<Rightarrow> 'z machine_scheme" where
  "complete_state m s next_id =
     (let m1 = m\<lparr>state_id := next_id, seq := BS_ON_ENTRY\<rparr>
      in set_state m1 s ((boot_states m1 s)\<lparr>complete := True\<rparr>))"

text \<open>
  One round of the loop of \<^verbatim>\<open>bs_walk_state_machine\<close>: its break, its way out through a state that does not
  return, or the machine for the next round.
\<close>

datatype 'm round_result = Already_executed 'm | Left | Halted | Continue 'm

definition walk_round :: "'z machine_scheme hooks \<Rightarrow> 'z machine_scheme \<Rightarrow> 'z machine_scheme round_result option" where
  "walk_round h m =
     (let s = state_id m
      in if complete (boot_states m s) then Some (Already_executed m)
         else (case Option.bind (bs_run_timers h False m) (\<lambda>m1. bs_call_callbacks h s (seq m1) m1) of
                 None \<Rightarrow> None
               | Some m2 \<Rightarrow>
                   let m3 = m2\<lparr>seq := BS_ON_EXIT\<rparr>
                   in (case run_state h s (state_arg (boot_states m3 s)) m3 of
                         Handed_over \<Rightarrow> Some Left
                       | Died \<Rightarrow> Some Halted
                       | Next next_id m4 \<Rightarrow>
                           (case Option.bind (bs_run_timers h False m4) (\<lambda>m5. bs_call_callbacks h s (seq m5) m5) of
                              None \<Rightarrow> None
                            | Some m6 \<Rightarrow> Some (Continue (complete_state m6 s next_id))))))"

partial_function (option) bs_walk_state_machine ::
    "'z machine_scheme hooks \<Rightarrow> 'z machine_scheme \<Rightarrow> 'z machine_scheme round_result option" where
  "bs_walk_state_machine h m =
     (case walk_round h m of
        None \<Rightarrow> None
      | Some (Continue m1) \<Rightarrow> bs_walk_state_machine h m1
      | Some r \<Rightarrow> Some r)"

record boot_state_init_entry =
  entry_state :: boot_state_t
  entry_when :: boot_state_sequence_t
  entry_bscb :: addr

definition boot_state_schedule_static_entries ::
    "boot_state_init_entry list \<Rightarrow> 'z machine_scheme \<Rightarrow> 'z machine_scheme" where
  "boot_state_schedule_static_entries slots m =
     fold (\<lambda>cur m. if entry_when cur = BS_ON_ENTRY then snd (boot_state_sched_on_entry m (entry_bscb cur) (entry_state cur))
                    else snd (boot_state_sched_on_exit m (entry_bscb cur) (entry_state cur))) slots m"

text \<open>\<^verbatim>\<open>main\<close> from the scheduling of the static entries on; it dies when the walk returns.\<close>

definition main ::
    "'z machine_scheme hooks \<Rightarrow> boot_state_init_entry list \<Rightarrow> 'z machine_scheme \<Rightarrow> 'z machine_scheme round_result option" where
  "main h slots m =
     (case bs_walk_state_machine h (boot_state_schedule_static_entries slots m) of
        None \<Rightarrow> None
      | Some Left \<Rightarrow> Some Left
      | Some r \<Rightarrow> Some Halted)"


subsection \<open>The order of the states\<close>

text \<open>What callbacks, timers and the work of the states may do to the machine: use its interface.\<close>

inductive uses_api :: "'z machine_scheme \<Rightarrow> 'z machine_scheme \<Rightarrow> bool" for m where
  api_refl: "uses_api m m"
| api_entry: "uses_api m m1 \<Longrightarrow> uses_api m (snd (boot_state_sched_on_entry m1 c s))"
| api_exit: "uses_api m m1 \<Longrightarrow> uses_api m (snd (boot_state_sched_on_exit m1 c s))"
| api_block: "uses_api m m1 \<Longrightarrow> uses_api m (snd (boot_state_block m1 s q))"
| api_unblock: "uses_api m m1 \<Longrightarrow> uses_api m (snd (boot_state_unblock m1 s q))"
| api_timer: "uses_api m m1 \<Longrightarrow> uses_api m (snd (timer_sched_callback m1 t us now))"
| api_world: "uses_api m m1 \<Longrightarrow> uses_api m (m1\<lparr>machine.more := x\<rparr>)"

definition keeps :: "'z machine_scheme \<Rightarrow> 'z machine_scheme \<Rightarrow> bool" where
  "keeps m m1 \<longleftrightarrow> state_id m1 = state_id m \<and> seq m1 = seq m \<and>
     (\<forall>s. complete (boot_states m1 s) = complete (boot_states m s))"

lemma keeps_refl [simp]: "keeps m m"
  by (simp add: keeps_def)

lemma keeps_trans: "keeps m m1 \<Longrightarrow> keeps m1 m2 \<Longrightarrow> keeps m m2"
  by (simp add: keeps_def)

lemma keeps_timer [simp]: "keeps m (snd (timer_sched_callback m t us now))"
  by (simp add: keeps_def timer_sched_callback_def Let_def split: option.splits)

lemma uses_api_keeps: "uses_api m m1 \<Longrightarrow> keeps m m1"
proof (induction rule: uses_api.induct)
  case (api_timer m1 t us now)
  then show ?case using keeps_trans keeps_timer by blast
qed (auto simp: keeps_def boot_state_sched_on_entry_def boot_state_sched_on_exit_def boot_state_sched_callback_def
    boot_state_block_def boot_state_unblock_def set_phase_def set_state_def)

definition hooks_ok :: "'z machine_scheme hooks \<Rightarrow> bool" where
  "hooks_ok h \<longleftrightarrow>
     (\<forall>c m. uses_api m (run_callback h c m)) \<and> (\<forall>f t m. uses_api m (run_timer h f t m)) \<and>
     (\<forall>m. uses_api m (dev_initialize_chips h m)) \<and> (\<forall>m. uses_api m (dev_enumerate h m)) \<and>
     (\<forall>m. uses_api m (dev_configure h m)) \<and> (\<forall>m. uses_api m (dev_enable h m)) \<and>
     (\<forall>m. uses_api m (dev_initialize h m)) \<and> (\<forall>m. uses_api m (dev_finalize h m)) \<and>
     (\<forall>m. uses_api m (arch_bootstate_coreboot_exit h m)) \<and> (\<forall>m. uses_api m (write_tables h m)) \<and>
     (\<forall>m. uses_api m (dev_finalize_chips h m)) \<and> (\<forall>m. uses_api m (payload_load h m)) \<and>
     (\<forall>m m1. payload_run h m = Some m1 \<longrightarrow> uses_api m m1)"

text \<open>What polling the timers once does.\<close>

lemma timers_cases:
  assumes "bs_run_timers h False m = Some m1"
  obtains a tq where "m1 = m\<lparr>readings := a, global_timer_queue := tq\<rparr>"
    | f t a tq where "m1 = run_timer h f t (m\<lparr>readings := a, global_timer_queue := tq\<rparr>)"
proof (cases "TIMER_QUEUE h")
  case False
  then have "m1 = m\<lparr>readings := readings m, global_timer_queue := global_timer_queue m\<rparr>"
    using assms by (subst (asm) bs_run_timers.simps) simp
  then show ?thesis by (rule that(1))
next
  case True
  let ?m = "m\<lparr>readings := Suc (readings m)\<rparr>" and ?now = "clock h (readings m)"
  have m1: "m1 = snd (timers_run (run_timer h) ?m ?now)"
    using assms True by (subst (asm) bs_run_timers.simps) (auto split: prod.splits if_splits)
  obtain c tq where e: "timer_queue_expired (callbacks ?m) (global_timer_queue ?m) ?now = (c, tq)" by fastforce
  show ?thesis
  proof (cases c)
    case None
    then show ?thesis using that(1) unfolding m1 by (simp add: timers_run_def e [simplified] Let_def)
  next
    case (Some t)
    then show ?thesis using that(2) unfolding m1 by (simp add: timers_run_def e [simplified] Let_def)
  qed
qed

lemma timers_return: "\<exists>m1. bs_run_timers h False m = Some m1"
  by (subst bs_run_timers.simps) (simp split: prod.split)

text \<open>The runs of the loop over the callbacks of a phase that return.\<close>

inductive phase_steps ::
    "'z machine_scheme hooks \<Rightarrow> boot_state_t \<Rightarrow> boot_state_sequence_t \<Rightarrow> 'z machine_scheme \<Rightarrow> 'z machine_scheme \<Rightarrow> bool"
  for h s q where
  steps_done: "first_callback (phase m s q) = 0 \<Longrightarrow> blockers (phase m s q) = 0 \<Longrightarrow> phase_steps h s q m m"
| steps_call: "first_callback (phase m s q) \<noteq> 0 \<Longrightarrow>
    bs_run_timers h False (run_callback h (first_callback (phase m s q)) (pop_callback m s q)) = Some m1 \<Longrightarrow>
    phase_steps h s q m1 m2 \<Longrightarrow> phase_steps h s q m m2"
| steps_wait: "first_callback (phase m s q) = 0 \<Longrightarrow> blockers (phase m s q) \<noteq> 0 \<Longrightarrow>
    bs_run_timers h False m = Some m1 \<Longrightarrow> phase_steps h s q m1 m2 \<Longrightarrow> phase_steps h s q m m2"

lemma phase_steps_iff: "bs_call_callbacks h s q m = Some m1 \<longleftrightarrow> phase_steps h s q m m1"
proof
  show "phase_steps h s q m m1" if "bs_call_callbacks h s q m = Some m1" for h :: "'z machine_scheme hooks" and s q m m1
  proof (rule bs_call_callbacks.raw_induct [OF _ that])
    fix rec :: "'z machine_scheme hooks \<Rightarrow> boot_state_t \<Rightarrow> boot_state_sequence_t \<Rightarrow> 'z machine_scheme \<Rightarrow> 'z machine_scheme option"
      and h s q m m1
    assume IH: "\<And>h s q m m1. rec h s q m = Some m1 \<Longrightarrow> phase_steps h s q m m1"
      and b: "(let bscb = first_callback (phase m s q)
      in if bscb \<noteq> 0
         then (case bs_run_timers h False (run_callback h bscb (pop_callback m s q)) of
                 None \<Rightarrow> None
               | Some m1 \<Rightarrow> rec h s q m1)
         else if blockers (phase m s q) = 0 then Some m
         else (case bs_run_timers h False m of
                 None \<Rightarrow> None
               | Some m1 \<Rightarrow> rec h s q m1)) = Some m1"
    then show "phase_steps h s q m m1"
      by (auto simp: Let_def split: if_splits option.splits intro: phase_steps.intros)
  qed
  show "phase_steps h s q m m1 \<Longrightarrow> bs_call_callbacks h s q m = Some m1"
  proof (induction rule: phase_steps.induct)
    case (steps_call m m1 m2)
    then show ?case by (subst bs_call_callbacks.simps) (simp add: Let_def)
  next
    case (steps_wait m m1 m2)
    then show ?case by (subst bs_call_callbacks.simps) (simp add: Let_def)
  qed (subst bs_call_callbacks.simps, simp)
qed

lemma steps_finished: "phase_steps h s q m m1 \<Longrightarrow> first_callback (phase m1 s q) = 0 \<and> blockers (phase m1 s q) = 0"
  by (induction rule: phase_steps.induct) auto

lemma timers_keep:
  assumes h: "hooks_ok h" and r: "bs_run_timers h False m = Some m1"
  shows "keeps m m1"
  using r
proof (cases rule: timers_cases)
  case (2 f t a tq)
  have "keeps (m\<lparr>readings := a, global_timer_queue := tq\<rparr>) m1"
    unfolding 2 using h by (intro uses_api_keeps) (simp add: hooks_ok_def)
  then show ?thesis by (simp add: keeps_def)
qed (simp add: keeps_def)

lemma steps_keep: "phase_steps h s q m m1 \<Longrightarrow> hooks_ok h \<Longrightarrow> keeps m m1"
proof (induction rule: phase_steps.induct)
  case (steps_call m m1 m2)
  let ?b = "first_callback (phase m s q)" and ?p = "pop_callback m s q"
  have "keeps m ?p" by (simp add: keeps_def pop_callback_def set_phase_def set_state_def Let_def)
  moreover have "keeps ?p (run_callback h ?b ?p)" using steps_call(5) by (intro uses_api_keeps) (simp add: hooks_ok_def)
  ultimately show ?case using timers_keep [OF steps_call(5,2)] steps_call(4) [OF steps_call(5)] keeps_trans by blast
next
  case (steps_wait m m1 m2)
  then show ?case using timers_keep keeps_trans by blast
qed simp

lemma callbacks_keep: "hooks_ok h \<Longrightarrow> bs_call_callbacks h s q m = Some m1 \<Longrightarrow> keeps m m1"
  unfolding phase_steps_iff by (rule steps_keep)


text \<open>The states that can follow a state.\<close>

fun next_states :: "boot_state_t \<Rightarrow> boot_state_t set" where
  "next_states BS_PRE_DEVICE = {BS_DEV_INIT_CHIPS}"
| "next_states BS_DEV_INIT_CHIPS = {BS_DEV_ENUMERATE}"
| "next_states BS_DEV_ENUMERATE = {BS_DEV_RESOURCES}"
| "next_states BS_DEV_RESOURCES = {BS_DEV_ENABLE}"
| "next_states BS_DEV_ENABLE = {BS_DEV_INIT}"
| "next_states BS_DEV_INIT = {BS_POST_DEVICE}"
| "next_states BS_POST_DEVICE = {BS_OS_RESUME_CHECK}"
| "next_states BS_OS_RESUME_CHECK = {BS_OS_RESUME, BS_WRITE_TABLES}"
| "next_states BS_OS_RESUME = {}"
| "next_states BS_WRITE_TABLES = {BS_PAYLOAD_LOAD}"
| "next_states BS_PAYLOAD_LOAD = {BS_PAYLOAD_BOOT}"
| "next_states BS_PAYLOAD_BOOT = {BS_PAYLOAD_BOOT}"

lemma run_state_facts:
  assumes h: "hooks_ok h" and r: "run_state h s arg m = Next s1 m1"
  shows "s1 \<in> next_states s" and "keeps m m1"
proof -
  have u: "uses_api m (dev_initialize_chips h m)" "uses_api m (dev_enumerate h m)" "uses_api m (dev_configure h m)"
    "uses_api m (dev_enable h m)" "uses_api m (dev_initialize h m)" "uses_api m (dev_finalize h m)"
    "uses_api m (arch_bootstate_coreboot_exit h m)" "uses_api m (write_tables h m)"
    "uses_api m (dev_finalize_chips h m)" "uses_api m (payload_load h m)" for m
    using h by (simp_all add: hooks_ok_def)
  note k = u [THEN uses_api_keeps]
  have c: "keeps m (dev_finalize_chips h (write_tables h m))" by (rule keeps_trans [OF k(8) k(9)])
  have p: "keeps m m2" if "payload_run h (arch_bootstate_coreboot_exit h m) = Some m2" for m2
  proof -
    have "uses_api (arch_bootstate_coreboot_exit h m) m2" using h that by (simp add: hooks_ok_def)
    from keeps_trans [OF k(7) uses_api_keeps [OF this]] show ?thesis .
  qed
  have a: "keeps m (set_state m BS_OS_RESUME ((boot_states m BS_OS_RESUME)\<lparr>state_arg := w\<rparr>))" for w
    by (simp add: keeps_def set_state_def)
  have "s1 \<in> next_states s \<and> keeps m m1"
  proof (cases s)
    case BS_OS_RESUME_CHECK
    then show ?thesis using r a by (auto simp: bs_os_resume_check_def Let_def split: if_splits)
  next
    case BS_PAYLOAD_BOOT
    then show ?thesis using r p by (auto simp: bs_payload_boot_def split: option.splits)
  qed (use r k c in \<open>auto simp: bs_os_resume_def split: if_splits\<close>)
  then show "s1 \<in> next_states s" "keeps m m1" by blast+
qed

lemma walk_round_facts:
  assumes h: "hooks_ok h"
  shows "walk_round h m = Some (Already_executed m1) \<Longrightarrow> m1 = m \<and> complete (boot_states m (state_id m))"
    and "walk_round h m = Some (Continue m1) \<Longrightarrow>
      \<not> complete (boot_states m (state_id m)) \<and> state_id m1 \<in> next_states (state_id m) \<and> seq m1 = BS_ON_ENTRY \<and>
      (\<forall>s. complete (boot_states m1 s) \<longleftrightarrow> complete (boot_states m s) \<or> s = state_id m)"
proof -
  let ?s = "state_id m"
  show "m1 = m \<and> complete (boot_states m (state_id m))" if "walk_round h m = Some (Already_executed m1)"
    using that by (auto simp: walk_round_def Let_def split: if_splits option.splits run_result.splits)
  assume r: "walk_round h m = Some (Continue m1)"
  then have nc: "\<not> complete (boot_states m ?s)" by (auto simp: walk_round_def Let_def split: if_splits)
  with r obtain m2 n m4 m6 where
    e: "Option.bind (bs_run_timers h False m) (\<lambda>m1. bs_call_callbacks h ?s (seq m1) m1) = Some m2"
    and n: "run_state h ?s (state_arg (boot_states (m2\<lparr>seq := BS_ON_EXIT\<rparr>) ?s)) (m2\<lparr>seq := BS_ON_EXIT\<rparr>) = Next n m4"
    and x: "Option.bind (bs_run_timers h False m4) (\<lambda>m5. bs_call_callbacks h ?s (seq m5) m5) = Some m6"
    and m1: "m1 = complete_state m6 ?s n"
    by (auto simp: walk_round_def Let_def split: option.splits run_result.splits)
  have b: "keeps a c" if "Option.bind (bs_run_timers h False a) (\<lambda>m1. bs_call_callbacks h ?s (seq m1) m1) = Some c" for a c
    using that timers_keep [OF h] callbacks_keep [OF h] keeps_trans by (fastforce simp: bind_eq_Some_conv)
  note f = run_state_facts [OF h n]
  from b [OF e] f(2) b [OF x] have "\<forall>s. complete (boot_states m6 s) = complete (boot_states m s)"
    by (simp add: keeps_def)
  then show "\<not> complete (boot_states m ?s) \<and> state_id m1 \<in> next_states ?s \<and> seq m1 = BS_ON_ENTRY \<and>
      (\<forall>s. complete (boot_states m1 s) \<longleftrightarrow> complete (boot_states m s) \<or> s = ?s)"
    using nc f(1) unfolding m1 by (simp add: complete_state_def set_state_def)
qed

text \<open>The machines at the head of the loop.\<close>

inductive reaches :: "'z machine_scheme hooks \<Rightarrow> 'z machine_scheme \<Rightarrow> 'z machine_scheme \<Rightarrow> bool" for h m where
  reaches_start: "reaches h m m"
| reaches_round: "reaches h m m1 \<Longrightarrow> walk_round h m1 = Some (Continue m2) \<Longrightarrow> reaches h m m2"

inductive_cases reaches_cases: "reaches h m m1"

definition starts :: "'z machine_scheme \<Rightarrow> bool" where
  "starts m \<longleftrightarrow> state_id m = BS_PRE_DEVICE \<and> seq m = BS_ON_ENTRY \<and> (\<forall>s. \<not> complete (boot_states m s))"

text \<open>
  At the head of the loop the states before the current one are complete, the resume of an OS left out,
  which is never left; the current one is not, unless a payload has returned.
\<close>

definition in_order :: "'z machine_scheme \<Rightarrow> bool" where
  "in_order m \<longleftrightarrow> seq m = BS_ON_ENTRY \<and>
     (complete (boot_states m (state_id m)) \<longrightarrow> state_id m = BS_PAYLOAD_BOOT) \<and>
     (\<forall>s. s \<noteq> state_id m \<longrightarrow> (complete (boot_states m s) \<longleftrightarrow> s \<noteq> BS_OS_RESUME \<and> s < state_id m))"

lemma starts_in_order: "starts m \<Longrightarrow> in_order m"
  by (auto simp: starts_def in_order_def less_boot_state_t_def)

lemma next_states_less:
  assumes "s1 \<in> next_states s"
  shows "s1 = s \<and> s = BS_PAYLOAD_BOOT \<or> s < s1 \<and> s \<noteq> BS_OS_RESUME \<and> (\<forall>t. s < t \<longrightarrow> t < s1 \<longrightarrow> t = BS_OS_RESUME)"
proof -
  have "t = BS_OS_RESUME" if "s < t" "t < s1" for t
    using assms that by (cases s; cases t) (auto simp: less_boot_state_t_def)
  moreover have "s1 = s \<and> s = BS_PAYLOAD_BOOT \<or> s < s1 \<and> s \<noteq> BS_OS_RESUME"
    using assms by (cases s) (auto simp: less_boot_state_t_def)
  ultimately show ?thesis by blast
qed

lemma round_in_order:
  assumes h: "hooks_ok h" and ord: "in_order m" and r: "walk_round h m = Some (Continue m1)"
  shows "in_order m1"
proof -
  note f = walk_round_facts(2) [OF h r]
  let ?s = "state_id m" and ?t = "state_id m1"
  from f next_states_less have n: "?t = ?s \<and> ?s = BS_PAYLOAD_BOOT \<or>
      ?s < ?t \<and> ?s \<noteq> BS_OS_RESUME \<and> (\<forall>t. ?s < t \<longrightarrow> t < ?t \<longrightarrow> t = BS_OS_RESUME)" by blast
  have c: "complete (boot_states m1 s) \<longleftrightarrow> s \<noteq> BS_OS_RESUME \<and> s < ?s \<or> s = ?s" for s
    using f ord unfolding in_order_def by metis
  from n show ?thesis
  proof
    assume "?t = ?s \<and> ?s = BS_PAYLOAD_BOOT"
    moreover from this have "\<not> BS_PAYLOAD_BOOT < BS_OS_RESUME" "BS_PAYLOAD_BOOT \<noteq> BS_OS_RESUME" by (simp_all add: less_boot_state_t_def)
    ultimately show ?thesis using f c unfolding in_order_def by auto
  next
    assume a: "?s < ?t \<and> ?s \<noteq> BS_OS_RESUME \<and> (\<forall>t. ?s < t \<longrightarrow> t < ?t \<longrightarrow> t = BS_OS_RESUME)"
    then have "\<not> complete (boot_states m1 ?t)" unfolding c by auto
    moreover have "s \<noteq> BS_OS_RESUME \<and> s < ?s \<or> s = ?s \<longleftrightarrow> s \<noteq> BS_OS_RESUME \<and> s < ?t" for s
      using a by (meson less_trans not_less_iff_gr_or_eq)
    ultimately show ?thesis using f c unfolding in_order_def by simp
  qed
qed

lemma reaches_in_order: "reaches h m0 m \<Longrightarrow> hooks_ok h \<Longrightarrow> in_order m0 \<Longrightarrow> in_order m"
  by (induction rule: reaches.induct) (auto intro: round_in_order)

text \<open>Every round completes a state, so the walk ends when its rounds do.\<close>

definition rounds_left :: "'z machine_scheme \<Rightarrow> nat" where
  "rounds_left m = (if complete (boot_states m (state_id m)) then 0 else 12 - state_value (state_id m))"

lemma round_fewer:
  assumes h: "hooks_ok h" and r: "walk_round h m = Some (Continue m1)"
  shows "rounds_left m1 < rounds_left m"
proof -
  note f = walk_round_facts(2) [OF h r]
  have v: "state_value s < 12" for s by (cases s) simp_all
  from f next_states_less [of "state_id m1" "state_id m"] consider "state_id m1 = state_id m" | "state_id m < state_id m1" by blast
  then show ?thesis
  proof cases
    case 1
    then show ?thesis using f v [of "state_id m"] by (simp add: rounds_left_def)
  next
    case 2
    then have "state_value (state_id m) < state_value (state_id m1)" by (simp add: less_boot_state_t_def)
    then show ?thesis using f v [of "state_id m1"] by (simp add: rounds_left_def) linarith
  qed
qed

lemma walk_ends:
  assumes h: "hooks_ok h" and rounds: "\<And>m1. reaches h m m1 \<Longrightarrow> walk_round h m1 \<noteq> None" and ord: "in_order m"
  shows "\<exists>r. bs_walk_state_machine h m = Some r \<and>
    (r = Left \<or> r = Halted \<or> (\<exists>m1. r = Already_executed m1 \<and> reaches h m m1 \<and> state_id m1 = BS_PAYLOAD_BOOT))"
  using rounds ord
proof (induction "rounds_left m" arbitrary: m rule: less_induct)
  case less
  have "walk_round h m \<noteq> None" by (rule less.prems(1)) (rule reaches_start)
  then obtain r where r: "walk_round h m = Some r" by blast
  show ?case
  proof (cases r)
    case (Already_executed m1)
    with r walk_round_facts(1) [OF h, of m m1] have "m1 = m" "complete (boot_states m (state_id m))" by simp_all
    with less.prems(2) r Already_executed show ?thesis
      by (subst bs_walk_state_machine.simps) (simp add: in_order_def reaches_start)
  next
    case (Continue m1)
    have sub: "reaches h m m2" if "reaches h m1 m2" for m2
      using that by (induction rule: reaches.induct) (auto intro: reaches.intros r [unfolded Continue])
    have "\<exists>r. bs_walk_state_machine h m1 = Some r \<and>
        (r = Left \<or> r = Halted \<or> (\<exists>m2. r = Already_executed m2 \<and> reaches h m1 m2 \<and> state_id m2 = BS_PAYLOAD_BOOT))"
      by (rule less.hyps) (use r Continue h less.prems sub in \<open>auto intro: round_fewer round_in_order\<close>)
    then show ?thesis using r Continue sub by (subst bs_walk_state_machine.simps) auto
  qed (use r in \<open>subst bs_walk_state_machine.simps, simp\<close>)+
qed


subsection \<open>The callbacks of a phase\<close>

definition quiet :: "'z machine_scheme \<Rightarrow> 'z machine_scheme \<Rightarrow> bool" where
  "quiet m m1 \<longleftrightarrow> boot_states m1 = boot_states m \<and> next_callback m1 = next_callback m \<and>
     state_id m1 = state_id m \<and> seq m1 = seq m"

lemma quiet_trans: "quiet m m1 \<Longrightarrow> quiet m1 m2 \<Longrightarrow> quiet m m2"
  by (simp add: quiet_def)

text \<open>A list of callbacks as the pointers hold it.\<close>

fun chain :: "(addr \<Rightarrow> addr) \<Rightarrow> addr \<Rightarrow> addr list \<Rightarrow> bool" where
  "chain nxt p [] \<longleftrightarrow> p = 0"
| "chain nxt p (x # xs) \<longleftrightarrow> p = x \<and> x \<noteq> 0 \<and> chain nxt (nxt x) xs"

lemma chain_upd: "c \<notin> set xs \<Longrightarrow> chain (nxt(c := v)) p xs \<longleftrightarrow> chain nxt p xs"
  by (induction xs arbitrary: p) auto

lemma phase_set_phase [simp]:
  "phase (set_phase m s q ph) s1 q1 = (if s1 = s \<and> q1 = q then ph else phase m s1 q1)"
  by (simp add: phase_def set_phase_def set_state_def)

lemma phase_next [simp]: "phase (m\<lparr>next_callback := n\<rparr>) s q = phase m s q"
  by (simp add: phase_def)

lemma quiet_phase: "quiet m m1 \<Longrightarrow> phase m1 s q = phase m s q"
  by (simp add: quiet_def phase_def)

lemma set_phase_next [simp]: "next_callback (set_phase m s q ph) = next_callback m"
  by (simp add: set_phase_def set_state_def)

lemma pop_facts:
  "phase (pop_callback m s q) s1 q1 =
    (if s1 = s \<and> q1 = q then (phase m s q)\<lparr>first_callback := next_callback m (first_callback (phase m s q))\<rparr> else phase m s1 q1)"
  "next_callback (pop_callback m s q) = (next_callback m)(first_callback (phase m s q) := 0)"
  "machine.more (pop_callback m s q) = machine.more m"
  by (simp_all add: pop_callback_def Let_def) (simp add: set_phase_def set_state_def)

text \<open>Callbacks and timers that leave the machine alone, where \<open>log\<close> reads off the world which callbacks ran.\<close>

definition quiet_calls :: "'z machine_scheme hooks \<Rightarrow> bool" where
  "quiet_calls h \<longleftrightarrow> (\<forall>c m. quiet m (run_callback h c m)) \<and> (\<forall>f t m. quiet m (run_timer h f t m))"

definition logs_calls :: "'z machine_scheme hooks \<Rightarrow> ('z \<Rightarrow> addr list) \<Rightarrow> bool" where
  "logs_calls h log \<longleftrightarrow>
     (\<forall>c m. log (machine.more (run_callback h c m)) = log (machine.more m) @ [c]) \<and>
     (\<forall>f t m. log (machine.more (run_timer h f t m)) = log (machine.more m))"

lemma timers_quiet:
  assumes h: "quiet_calls h" and r: "bs_run_timers h False m = Some m1"
  shows "quiet m m1" and "logs_calls h log \<Longrightarrow> log (machine.more m1) = log (machine.more m)"
proof -
  have "quiet m m1 \<and> (logs_calls h log \<longrightarrow> log (machine.more m1) = log (machine.more m))"
    using r
  proof (cases rule: timers_cases)
    case (2 f t a tq)
    let ?m = "m\<lparr>readings := a, global_timer_queue := tq\<rparr>"
    have "quiet ?m m1" "logs_calls h log \<longrightarrow> log (machine.more m1) = log (machine.more ?m)"
      unfolding 2 using h by (simp_all add: quiet_calls_def logs_calls_def)
    then show ?thesis by (simp add: quiet_def)
  qed (simp add: quiet_def)
  then show "quiet m m1" "logs_calls h log \<Longrightarrow> log (machine.more m1) = log (machine.more m)" by blast+
qed

lemma call_callbacks_Cons:
  assumes h: "quiet_calls h" "logs_calls h log" and p: "first_callback (phase m s q) = c" "c \<noteq> 0"
  obtains m1 where "bs_call_callbacks h s q m = bs_call_callbacks h s q m1" and "quiet (pop_callback m s q) m1"
    and "log (machine.more m1) = log (machine.more m) @ [c]"
proof -
  let ?p = "pop_callback m s q"
  obtain m1 where t: "bs_run_timers h False (run_callback h c ?p) = Some m1" using timers_return by blast
  have r: "quiet ?p (run_callback h c ?p)" "log (machine.more (run_callback h c ?p)) = log (machine.more m) @ [c]"
    using h by (simp_all add: quiet_calls_def logs_calls_def pop_facts)
  have "bs_call_callbacks h s q m = bs_call_callbacks h s q m1"
    using t p by (subst bs_call_callbacks.simps) (simp add: Let_def)
  moreover have "quiet ?p m1" using timers_quiet(1) [OF h(1) t] r quiet_trans by blast
  moreover have "log (machine.more m1) = log (machine.more m) @ [c]" using timers_quiet(2) [OF h(1) t h(2)] r by simp
  ultimately show ?thesis by (rule that)
qed

lemma call_callbacks_all:
  assumes h: "quiet_calls h" "logs_calls h log"
  shows "chain (next_callback m) (first_callback (phase m s q)) xs \<Longrightarrow> distinct xs \<Longrightarrow> blockers (phase m s q) = 0 \<Longrightarrow>
    \<exists>m1. bs_call_callbacks h s q m = Some m1 \<and> log (machine.more m1) = log (machine.more m) @ xs \<and>
      first_callback (phase m1 s q) = 0 \<and> (\<forall>s1 q1. (s1, q1) \<noteq> (s, q) \<longrightarrow> phase m1 s1 q1 = phase m s1 q1)"
proof (induction xs arbitrary: m)
  case Nil
  then show ?case by (subst bs_call_callbacks.simps) simp
next
  case (Cons c xs)
  then have p: "first_callback (phase m s q) = c" "c \<noteq> 0" and ch: "chain (next_callback m) (next_callback m c) xs" by auto
  obtain m3 where e: "bs_call_callbacks h s q m = bs_call_callbacks h s q m3"
    and qt: "quiet (pop_callback m s q) m3"
    and l: "log (machine.more m3) = log (machine.more m) @ [c]"
    by (rule call_callbacks_Cons [OF h p])
  have ph: "phase m3 s1 q1 = (if s1 = s \<and> q1 = q then (phase m s q)\<lparr>first_callback := next_callback m c\<rparr> else phase m s1 q1)" for s1 q1
    using quiet_phase [OF qt] p(1) by (simp add: pop_facts)
  have nx: "next_callback m3 = (next_callback m)(c := 0)" using qt p(1) by (simp add: quiet_def pop_facts)
  have "chain (next_callback m3) (first_callback (phase m3 s q)) xs"
    unfolding nx ph using Cons.prems(2) ch by (simp add: chain_upd)
  from Cons.IH [OF this] Cons.prems(2,3) obtain m1 where "bs_call_callbacks h s q m3 = Some m1"
    "log (machine.more m1) = log (machine.more m3) @ xs" "first_callback (phase m1 s q) = 0"
    "\<forall>s1 q1. (s1, q1) \<noteq> (s, q) \<longrightarrow> phase m1 s1 q1 = phase m3 s1 q1"
    unfolding ph by auto
  then show ?case using e l ph by auto
qed

text \<open>Scheduling puts a callback in front of the list of its phase.\<close>

lemma sched_chain:
  assumes "\<not> complete (boot_states m s)" "c \<noteq> 0"
    and "chain (next_callback m) (first_callback (phase m s1 q1)) xs" "c \<notin> set xs"
  shows "chain (next_callback (snd (boot_state_sched_callback m s c q)))
    (first_callback (phase (snd (boot_state_sched_callback m s c q)) s1 q1)) (if s1 = s \<and> q1 = q then c # xs else xs)"
  using assms by (auto simp: boot_state_sched_callback_def chain_upd)

definition entries_of :: "boot_state_init_entry list \<Rightarrow> boot_state_t \<Rightarrow> boot_state_sequence_t \<Rightarrow> addr list" where
  "entries_of slots s q = map entry_bscb (filter (\<lambda>e. entry_state e = s \<and> entry_when e = q) slots)"

lemma static_entries_fold:
  "boot_state_schedule_static_entries slots m =
   fold (\<lambda>e m. snd (boot_state_sched_callback m (entry_state e) (entry_bscb e) (entry_when e))) slots m"
  unfolding boot_state_schedule_static_entries_def
proof (rule fold_cong [OF refl refl], rule ext)
  fix e and m :: "'a machine_scheme"
  show "(if entry_when e = BS_ON_ENTRY then snd (boot_state_sched_on_entry m (entry_bscb e) (entry_state e))
      else snd (boot_state_sched_on_exit m (entry_bscb e) (entry_state e))) =
    snd (boot_state_sched_callback m (entry_state e) (entry_bscb e) (entry_when e))"
    by (cases "entry_when e") (simp_all add: boot_state_sched_on_entry_def boot_state_sched_on_exit_def)
qed

lemma static_entries_chain:
  assumes "fresh m" "distinct (map entry_bscb slots)" "0 \<notin> entry_bscb ` set slots"
  shows "chain (next_callback (boot_state_schedule_static_entries slots m))
      (first_callback (phase (boot_state_schedule_static_entries slots m) s q)) (rev (entries_of slots s q)) \<and>
    blockers (phase (boot_state_schedule_static_entries slots m) s q) = 0 \<and>
    starts (boot_state_schedule_static_entries slots m)"
proof -
  have "(\<forall>s q. chain (next_callback (boot_state_schedule_static_entries slots m))
      (first_callback (phase (boot_state_schedule_static_entries slots m) s q)) (rev (entries_of slots s q)) \<and>
    blockers (phase (boot_state_schedule_static_entries slots m) s q) = 0) \<and>
    starts (boot_state_schedule_static_entries slots m)"
    using assms(2,3)
  proof (induction slots rule: rev_induct)
    case Nil
    then show ?case using assms(1)
      by (simp add: static_entries_fold entries_of_def phase_def fresh_def boot_state_init_def starts_def)
  next
    case (snoc e slots)
    let ?m = "boot_state_schedule_static_entries slots m"
    let ?m1 = "snd (boot_state_sched_callback ?m (entry_state e) (entry_bscb e) (entry_when e))"
    have m1: "boot_state_schedule_static_entries (slots @ [e]) m = ?m1" by (simp add: static_entries_fold)
    have IH: "chain (next_callback ?m) (first_callback (phase ?m s q)) (rev (entries_of slots s q))"
      "blockers (phase ?m s q) = 0" "starts ?m" for s q using snoc by auto
    have nc: "\<not> complete (boot_states ?m s)" for s using IH(3) by (simp add: starts_def)
    have "entry_bscb e \<notin> set (rev (entries_of slots s q))" for s q
      using snoc.prems(1) by (auto simp: entries_of_def)
    from sched_chain [OF nc _ IH(1) this] snoc.prems(2)
    have "chain (next_callback ?m1) (first_callback (phase ?m1 s q))
        (if s = entry_state e \<and> q = entry_when e then entry_bscb e # rev (entries_of slots s q) else rev (entries_of slots s q))" for s q
      by simp
    moreover have "rev (entries_of (slots @ [e]) s q) =
        (if s = entry_state e \<and> q = entry_when e then entry_bscb e # rev (entries_of slots s q) else rev (entries_of slots s q))" for s q
      by (auto simp: entries_of_def)
    moreover have "blockers (phase ?m1 s q) = 0" for s q using IH(2) nc by (simp add: boot_state_sched_callback_def)
    moreover have "starts ?m1" using IH(3)
      by (auto simp: starts_def boot_state_sched_callback_def set_phase_def set_state_def)
    ultimately show ?case unfolding m1 by simp
  qed
  then show ?thesis by blast
qed

text \<open>Scheduling a callback of a list once more cuts off what stood before it was reached again.\<close>

lemma double_schedule:
  assumes h: "quiet_calls h" "logs_calls h log" and c: "first_callback (phase m s q) = c" "c \<noteq> 0" "\<not> complete (boot_states m s)" "blockers (phase m s q) = 0"
  shows "fst (boot_state_sched_callback m s c q) \<and>
    (\<exists>m1. bs_call_callbacks h s q (snd (boot_state_sched_callback m s c q)) = Some m1 \<and>
      log (machine.more m1) = log (machine.more m) @ [c, c])"
proof -
  let ?m = "snd (boot_state_sched_callback m s c q)"
  have ok: "fst (boot_state_sched_callback m s c q)" using c(3) by (simp add: boot_state_sched_callback_def)
  have m: "first_callback (phase ?m s q) = c" "next_callback ?m c = c" "blockers (phase ?m s q) = 0"
    "log (machine.more ?m) = log (machine.more m)"
    using c by (simp_all add: boot_state_sched_callback_def) (simp add: set_phase_def set_state_def)
  obtain m2 where e2: "bs_call_callbacks h s q ?m = bs_call_callbacks h s q m2"
    and q2: "quiet (pop_callback ?m s q) m2"
    and l2: "log (machine.more m2) = log (machine.more ?m) @ [c]"
    by (rule call_callbacks_Cons [OF h m(1) c(2)])
  have "phase m2 s q = (phase ?m s q)\<lparr>first_callback := c\<rparr>" using quiet_phase [OF q2, of s q] m(1,2) by (simp add: pop_facts)
  then have m2: "first_callback (phase m2 s q) = c" "blockers (phase m2 s q) = 0" "next_callback m2 c = 0"
    using q2 m(1,3) by (simp_all add: quiet_def pop_facts)
  have "chain (next_callback m2) (first_callback (phase m2 s q)) [c]" using m2 c(2) by simp
  from call_callbacks_all [OF h this _ m2(2)] obtain m1 where "bs_call_callbacks h s q m2 = Some m1"
    "log (machine.more m1) = log (machine.more m2) @ [c]" by auto
  then show ?thesis using ok e2 l2 m(4) by auto
qed


subsection \<open>Callbacks that come too late\<close>

definition quiet_work :: "'z machine_scheme hooks \<Rightarrow> bool" where
  "quiet_work h \<longleftrightarrow> (\<forall>s arg m s1 m1. run_state h s arg m = Next s1 m1 \<longrightarrow>
     (\<forall>s q. phase m1 s q = phase m s q) \<and> (\<forall>s. complete (boot_states m1 s) = complete (boot_states m s)))"

lemma steps_quiet:
  assumes "phase_steps h s q m m1" "quiet_calls h"
  shows "(s1, q1) \<noteq> (s, q) \<Longrightarrow> phase m1 s1 q1 = phase m s1 q1"
    and "complete (boot_states m1 s1) = complete (boot_states m s1)" and "state_id m1 = state_id m"
proof -
  have "((s1, q1) \<noteq> (s, q) \<longrightarrow> phase m1 s1 q1 = phase m s1 q1) \<and>
      complete (boot_states m1 s1) = complete (boot_states m s1) \<and> state_id m1 = state_id m"
    using assms
  proof (induction rule: phase_steps.induct)
    case (steps_call m m1 m2)
    let ?b = "first_callback (phase m s q)" and ?p = "pop_callback m s q"
    have "quiet ?p (run_callback h ?b ?p)" using steps_call(5) by (simp add: quiet_calls_def)
    then have q: "quiet ?p m1" using timers_quiet(1) [OF steps_call(5,2)] quiet_trans by blast
    have "complete (boot_states ?p s1) = complete (boot_states m s1)" "state_id ?p = state_id m"
      by (simp_all add: pop_callback_def set_phase_def set_state_def Let_def)
    then have "complete (boot_states m1 s1) = complete (boot_states m s1)" "state_id m1 = state_id m"
      using q by (simp_all add: quiet_def)
    moreover have "(s1, q1) \<noteq> (s, q) \<longrightarrow> phase m1 s1 q1 = phase m s1 q1" using quiet_phase [OF q] by (auto simp: pop_facts)
    ultimately show ?case using steps_call(4,5) by simp
  next
    case (steps_wait m m1 m2)
    then have "quiet m m1" using timers_quiet(1) by blast
    then have "phase m1 s1 q1 = phase m s1 q1" "complete (boot_states m1 s1) = complete (boot_states m s1)" "state_id m1 = state_id m"
      using quiet_phase by (blast, simp_all add: quiet_def)
    then show ?case using steps_wait(5,6) by simp
  qed simp
  then show "(s1, q1) \<noteq> (s, q) \<Longrightarrow> phase m1 s1 q1 = phase m s1 q1"
    "complete (boot_states m1 s1) = complete (boot_states m s1)" "state_id m1 = state_id m" by blast+
qed

lemma phase_complete_state [simp]: "phase (complete_state m s n) s1 q1 = phase m s1 q1"
  by (simp add: complete_state_def phase_def set_state_def Let_def)

lemma complete_complete_state [simp]:
  "complete (boot_states (complete_state m s n) s1) \<longleftrightarrow> s1 = s \<or> complete (boot_states m s1)"
  by (simp add: complete_state_def set_state_def Let_def)

lemma round_leaves_complete:
  assumes h: "quiet_calls h" "quiet_work h" and r: "walk_round h m = Some (Continue m1)" and s: "complete (boot_states m s)"
  shows "phase m1 s q = phase m s q" and "complete (boot_states m1 s)"
proof -
  let ?s = "state_id m"
  from r have nc: "\<not> complete (boot_states m ?s)" by (auto simp: walk_round_def Let_def split: if_splits)
  with s have ne: "s \<noteq> ?s" by auto
  from r nc obtain m2 n m4 m6 where
    e: "Option.bind (bs_run_timers h False m) (\<lambda>m1. bs_call_callbacks h ?s (seq m1) m1) = Some m2"
    and n: "run_state h ?s (state_arg (boot_states (m2\<lparr>seq := BS_ON_EXIT\<rparr>) ?s)) (m2\<lparr>seq := BS_ON_EXIT\<rparr>) = Next n m4"
    and x: "Option.bind (bs_run_timers h False m4) (\<lambda>m5. bs_call_callbacks h ?s (seq m5) m5) = Some m6"
    and m1: "m1 = complete_state m6 ?s n"
    by (auto simp: walk_round_def Let_def split: option.splits run_result.splits)
  have b: "phase c s q = phase a s q \<and> complete (boot_states c s) = complete (boot_states a s)"
    if "Option.bind (bs_run_timers h False a) (\<lambda>m1. bs_call_callbacks h ?s (seq m1) m1) = Some c" for a c
  proof -
    from that obtain a1 where a1: "bs_run_timers h False a = Some a1" "phase_steps h ?s (seq a1) a1 c"
      by (auto simp: bind_eq_Some_conv phase_steps_iff)
    have q: "quiet a a1" by (rule timers_quiet(1) [OF h(1) a1(1)])
    have "phase c s q = phase a1 s q" by (rule steps_quiet(1) [OF a1(2) h(1)]) (use ne in simp)
    moreover have "complete (boot_states c s) = complete (boot_states a1 s)" by (rule steps_quiet(2) [OF a1(2) h(1)])
    ultimately show ?thesis using q quiet_phase [OF q] by (simp add: quiet_def)
  qed
  have "phase m4 s q = phase (m2\<lparr>seq := BS_ON_EXIT\<rparr>) s q" "complete (boot_states m4 s) = complete (boot_states m2 s)"
    using h(2) n unfolding quiet_work_def by (blast, force)
  moreover have "phase (m2\<lparr>seq := BS_ON_EXIT\<rparr>) s q = phase m2 s q" by (simp add: phase_def)
  ultimately show "phase m1 s q = phase m s q" "complete (boot_states m1 s)" using b [OF e] b [OF x] s unfolding m1 by simp_all
qed

lemma reaches_leaves_complete:
  "reaches h m m1 \<Longrightarrow> quiet_calls h \<Longrightarrow> quiet_work h \<Longrightarrow> complete (boot_states m s) \<Longrightarrow>
   phase m1 s q = phase m s q \<and> complete (boot_states m1 s)"
  by (induction rule: reaches.induct) (auto simp: round_leaves_complete)

lemma late_entry_callback:
  assumes h: "quiet_calls h" "quiet_work h" and m: "\<not> complete (boot_states m s)" "c \<noteq> 0"
  shows "fst (boot_state_sched_on_entry m c s)"
    and "bs_call_callbacks h s BS_ON_EXIT (snd (boot_state_sched_on_entry m c s)) = Some m2 \<Longrightarrow>
      reaches h (complete_state m2 s n) m3 \<Longrightarrow>
      first_callback (phase m3 s BS_ON_ENTRY) = c \<and> complete (boot_states m3 s)"
proof -
  let ?m = "snd (boot_state_sched_on_entry m c s)"
  show "fst (boot_state_sched_on_entry m c s)"
    using m by (simp add: boot_state_sched_on_entry_def boot_state_sched_callback_def)
  have c: "first_callback (phase ?m s BS_ON_ENTRY) = c"
    using m by (simp add: boot_state_sched_on_entry_def boot_state_sched_callback_def)
  assume "bs_call_callbacks h s BS_ON_EXIT ?m = Some m2"
  then have "phase m2 s BS_ON_ENTRY = phase ?m s BS_ON_ENTRY"
    unfolding phase_steps_iff by (rule steps_quiet(1)) (use h in simp_all)
  moreover assume "reaches h (complete_state m2 s n) m3"
  ultimately show "first_callback (phase m3 s BS_ON_ENTRY) = c \<and> complete (boot_states m3 s)"
    using reaches_leaves_complete [OF _ h, of "complete_state m2 s n" m3 s BS_ON_ENTRY] c by simp
qed

subsection \<open>A timer that unblocks a phase\<close>

lemma poll_early:
  assumes "TIMER_QUEUE h" "timers_ok m" "timer_queue_head (global_timer_queue m) = Some t" "\<not> due_at m t \<le> clock h (readings m)"
  shows "bs_run_timers h False m = Some (m\<lparr>readings := Suc (readings m)\<rparr>)"
proof -
  let ?m = "m\<lparr>readings := Suc (readings m)\<rparr>"
  have ok: "timers_ok ?m" using assms(2) by (simp add: timers_ok_def)
  have "timers_run (run_timer h) ?m (clock h (readings m)) = (True, ?m)"
    using assms(3,4) unfolding run_facts [OF ok] by (simp add: due_at_def)
  then show ?thesis using assms(1) by (subst bs_run_timers.simps) simp
qed

lemma poll_due:
  assumes "TIMER_QUEUE h" "timers_ok m" "timer_queue_head (global_timer_queue m) = Some t" "due_at m t \<le> clock h (readings m)"
  shows "bs_run_timers h False m = Some (run_timer h (callback (callbacks m t)) t
    (m\<lparr>readings := Suc (readings m), global_timer_queue := timer_queue_remove_head (callbacks m) (global_timer_queue m)\<rparr>))"
proof -
  let ?m = "m\<lparr>readings := Suc (readings m)\<rparr>"
  have ok: "timers_ok ?m" using assms(2) by (simp add: timers_ok_def)
  show ?thesis
    using assms(1,3,4) by (subst bs_run_timers.simps) (simp add: run_facts [OF ok] due_at_def Let_def)
qed

lemma blocked_until_timer:
  assumes h: "TIMER_QUEUE h" and un: "\<And>m. run_timer h fn t m = snd (boot_state_unblock m s q)"
  shows "timers_ok m \<Longrightarrow> timer_queue_head (global_timer_queue m) = Some t \<Longrightarrow> callback (callbacks m t) = fn \<Longrightarrow>
    first_callback (phase m s q) = 0 \<Longrightarrow> blockers (phase m s q) = 1 \<Longrightarrow> state_id m = s \<Longrightarrow> seq m \<le> q \<Longrightarrow>
    (\<And>i. i < n \<Longrightarrow> \<not> due_at m t \<le> clock h (readings m + i)) \<Longrightarrow> due_at m t \<le> clock h (readings m + n) \<Longrightarrow>
    \<exists>m1. bs_call_callbacks h s q m = Some m1 \<and> first_callback (phase m1 s q) = 0 \<and> blockers (phase m1 s q) = 0 \<and>
      readings m1 = readings m + Suc n \<and>
      global_timer_queue m1 = timer_queue_remove_head (callbacks m) (global_timer_queue m)"
proof (induction n arbitrary: m)
  case 0
  let ?m = "m\<lparr>readings := Suc (readings m), global_timer_queue := timer_queue_remove_head (callbacks m) (global_timer_queue m)\<rparr>"
  let ?m1 = "snd (boot_state_unblock ?m s q)"
  have p: "phase ?m s q = phase m s q" by (simp add: phase_def)
  have t: "bs_run_timers h False m = Some ?m1"
    using poll_due [OF h 0(1,2)] 0(3,9) un by simp
  have m1: "?m1 = set_phase ?m s q ((phase m s q)\<lparr>blockers := 0\<rparr>)"
    using 0(5,6,7) by (auto simp: boot_state_unblock_def p not_less)
  have "bs_call_callbacks h s q m = bs_call_callbacks h s q ?m1"
    using 0(4,5) t by (subst bs_call_callbacks.simps) (simp add: Let_def)
  also have "\<dots> = Some ?m1" unfolding m1 using 0(4) by (subst bs_call_callbacks.simps) (simp add: Let_def)
  finally show ?case unfolding m1 using 0(4) by (simp add: set_phase_def set_state_def phase_def)
next
  case (Suc n)
  let ?m = "m\<lparr>readings := Suc (readings m)\<rparr>"
  have p: "phase ?m s q = phase m s q" by (simp add: phase_def)
  have d: "due_at ?m t = due_at m t" by (simp add: due_at_def)
  have ok: "timers_ok ?m" using Suc.prems(1) by (simp add: timers_ok_def)
  have "\<not> due_at m t \<le> clock h (readings m)" using Suc.prems(8) [of 0] by simp
  from poll_early [OF h Suc.prems(1,2) this] have t: "bs_run_timers h False m = Some ?m" .
  have e: "bs_call_callbacks h s q m = bs_call_callbacks h s q ?m"
    using Suc.prems(4,5) t by (subst bs_call_callbacks.simps) (simp add: Let_def)
  have "\<not> due_at ?m t \<le> clock h (readings ?m + i)" if "i < n" for i using Suc.prems(8) [of "Suc i"] that d by simp
  from Suc.IH [OF ok _ _ _ _ _ _ this] Suc.prems d p show ?case unfolding e by simp
qed


subsection \<open>A sample machine\<close>

text \<open>Its world is the list of the callbacks that ran.\<close>

definition sample_machine :: "addr list machine_scheme" where
  "sample_machine = machine.extend
     \<lparr>callbacks = (\<lambda>p. \<lparr>priv = 0, callback = 0x100, expiration = Mono_time p\<rparr>),
      global_timer_queue = \<lparr>num_entries = 1, max_entries = MAX_TIMER_QUEUE_ENTRIES, queue = 25 # replicate 63 0\<rparr>,
      next_callback = (\<lambda>_. 0), boot_states = (\<lambda>_. boot_state_init), state_id = BS_PRE_DEVICE, seq = BS_ON_ENTRY,
      readings = 0\<rparr> []"

definition sample_hooks :: "addr list machine_scheme hooks" where
  "sample_hooks = \<lparr>TIMER_QUEUE = False, HAVE_ACPI_RESUME = False, clock = (\<lambda>n. Mono_time (of_nat (10 * n))),
     run_callback = (\<lambda>c m. m\<lparr>machine.more := machine.more m @ [c]\<rparr>), run_timer = (\<lambda>f t m. m),
     dev_initialize_chips = id, dev_enumerate = id, dev_configure = id, dev_enable = id, dev_initialize = id,
     dev_finalize = id, acpi_find_wakeup_vector = (\<lambda>m. 0), arch_bootstate_coreboot_exit = id,
     acpi_resume = (\<lambda>v m. None), write_tables = id, dev_finalize_chips = id, payload_load = id, payload_run = (\<lambda>m. None)\<rparr>"

definition sample_timer_hooks :: "addr list machine_scheme hooks" where
  "sample_timer_hooks = sample_hooks\<lparr>TIMER_QUEUE := True,
     run_timer := (\<lambda>f t m. snd (boot_state_unblock m BS_PRE_DEVICE BS_ON_ENTRY))\<rparr>"

lemma sample_hooks_facts:
  "hooks_ok sample_hooks" "quiet_calls sample_hooks" "logs_calls sample_hooks (\<lambda>l. l)" "quiet_work sample_hooks"
proof -
  show "hooks_ok sample_hooks"
    unfolding hooks_ok_def by (simp add: sample_hooks_def api_refl api_world)
  show "quiet_calls sample_hooks" "logs_calls sample_hooks (\<lambda>l. l)"
    by (simp_all add: quiet_calls_def logs_calls_def sample_hooks_def quiet_def)
  have "(\<forall>s q. phase m1 s q = phase m s q) \<and> (\<forall>s. complete (boot_states m1 s) = complete (boot_states m s))"
    if "run_state sample_hooks s arg m = Next s1 m1" for s arg m s1 m1
    using that by (cases s) (auto simp: sample_hooks_def bs_os_resume_check_def bs_os_resume_def bs_payload_boot_def)
  then show "quiet_work sample_hooks" unfolding quiet_work_def by blast
qed

lemma sample_machine_facts:
  "fresh sample_machine" "starts sample_machine" "machine.more sample_machine = []"
  "phase sample_machine s q = \<lparr>first_callback = 0, blockers = 0\<rparr>" "\<not> complete (boot_states sample_machine s)"
  by (simp_all add: fresh_def starts_def sample_machine_def machine.defs phase_def boot_state_init_def)

lemma sample_idle:
  assumes "\<forall>s q. phase m s q = \<lparr>first_callback = 0, blockers = 0\<rparr>"
  shows "Option.bind (bs_run_timers sample_hooks False m) (\<lambda>m1. bs_call_callbacks sample_hooks s (seq m1) m1) = Some m"
  using assms by (subst bs_run_timers.simps, simp add: sample_hooks_def, subst bs_call_callbacks.simps, simp)

lemma sample_round:
  assumes "\<forall>s q. phase m s q = \<lparr>first_callback = 0, blockers = 0\<rparr>" "\<not> complete (boot_states m (state_id m))"
  shows "walk_round sample_hooks m =
    (case run_state sample_hooks (state_id m) (state_arg (boot_states m (state_id m))) (m\<lparr>seq := BS_ON_EXIT\<rparr>) of
       Handed_over \<Rightarrow> Some Left | Died \<Rightarrow> Some Halted | Next n m1 \<Rightarrow> Some (Continue (complete_state m1 (state_id m) n)))"
proof -
  have "\<forall>s q. phase m1 s q = \<lparr>first_callback = 0, blockers = 0\<rparr>"
    if "run_state sample_hooks (state_id m) arg (m\<lparr>seq := BS_ON_EXIT\<rparr>) = Next n m1" for arg n m1
  proof -
    have "phase m1 s q = phase (m\<lparr>seq := BS_ON_EXIT\<rparr>) s q" for s q
      using sample_hooks_facts(4) that unfolding quiet_work_def by blast
    then show ?thesis using assms(1) by (simp add: phase_def)
  qed
  then show ?thesis
    using assms(2) sample_idle [OF assms(1)]
    by (auto simp: walk_round_def Let_def sample_idle split: run_result.splits)
qed

lemma sample_rounds:
  assumes "reaches sample_hooks sample_machine m"
  shows "(\<forall>s q. phase m s q = \<lparr>first_callback = 0, blockers = 0\<rparr>) \<and> walk_round sample_hooks m \<noteq> None"
proof -
  have p: "\<forall>s q. phase m s q = \<lparr>first_callback = 0, blockers = 0\<rparr>"
    using assms
  proof (induction rule: reaches.induct)
    case (reaches_round m1 m2)
    have "\<not> complete (boot_states m1 (state_id m1))"
      using walk_round_facts(2) [OF sample_hooks_facts(1) reaches_round(2)] by blast
    note r = sample_round [OF reaches_round(3) this]
    obtain n m3 where n: "run_state sample_hooks (state_id m1) (state_arg (boot_states m1 (state_id m1))) (m1\<lparr>seq := BS_ON_EXIT\<rparr>) = Next n m3"
      and m2: "m2 = complete_state m3 (state_id m1) n"
      using r reaches_round(2) by (auto split: run_result.splits)
    have "phase m3 s q = phase (m1\<lparr>seq := BS_ON_EXIT\<rparr>) s q" for s q
      using sample_hooks_facts(4) n unfolding quiet_work_def by blast
    then show ?case using reaches_round(3) unfolding m2 by (simp add: phase_def [of "m1\<lparr>seq := BS_ON_EXIT\<rparr>"] phase_def [of m1])
  qed (simp add: sample_machine_facts)
  moreover have "walk_round sample_hooks m \<noteq> None"
  proof (cases "complete (boot_states m (state_id m))")
    case True then show ?thesis by (simp add: walk_round_def)
  next
    case False
    then show ?thesis unfolding sample_round [OF p False] by (auto split: run_result.splits)
  qed
  ultimately show ?thesis by blast
qed

lemma sample_first_round:
  "walk_round sample_hooks sample_machine =
     Some (Continue (complete_state (sample_machine\<lparr>seq := BS_ON_EXIT\<rparr>) BS_PRE_DEVICE BS_DEV_INIT_CHIPS))"
proof -
  have "state_id sample_machine = BS_PRE_DEVICE" by (simp add: sample_machine_def machine.defs)
  then show ?thesis by (subst sample_round) (simp_all add: sample_machine_facts)
qed

subsection \<open>Properties\<close>



text \<open>When every round ends, the walk ends. Control is handed over, or the firmware has died, or the
  walk comes to a state that is complete, and then a payload has returned.\<close>

theorem boot_walk_ends:
  assumes "hooks_ok h" "starts m" "\<And>m1. reaches h m m1 \<Longrightarrow> walk_round h m1 \<noteq> None"
  shows "\<exists>r. bs_walk_state_machine h m = Some r \<and>
    (r = Left \<or> r = Halted \<or> (\<exists>m1. r = Already_executed m1 \<and> reaches h m m1 \<and> state_id m1 = BS_PAYLOAD_BOOT))"
  using walk_ends [OF assms(1) assms(3) starts_in_order [OF assms(2)]] by blast

text \<open>The static entries of a phase run exactly once each, the last of the table first, when callbacks
  and timers leave the machine alone; then the phase is finished, and no other phase has changed.\<close>

theorem boot_static_entries_run:
  assumes "quiet_calls h" "logs_calls h log" "fresh m" "distinct (map entry_bscb slots)" "0 \<notin> entry_bscb ` set slots"
  shows "\<exists>m1. bs_call_callbacks h s q (boot_state_schedule_static_entries slots m) = Some m1 \<and>
    log (machine.more m1) = log (machine.more (boot_state_schedule_static_entries slots m)) @ rev (entries_of slots s q) \<and>
    first_callback (phase m1 s q) = 0 \<and>
    (\<forall>s1 q1. (s1, q1) \<noteq> (s, q) \<longrightarrow> phase m1 s1 q1 = phase (boot_state_schedule_static_entries slots m) s1 q1)"
proof -
  note c = static_entries_chain [OF assms(3-5), of s q]
  have "distinct (rev (entries_of slots s q))"
    using assms(4) by (auto simp: entries_of_def distinct_map inj_on_def)
  with call_callbacks_all [OF assms(1,2)] c show ?thesis by blast
qed

text \<open>C35: a phase that only a timer can unblock waits for it. With one blocker and no callbacks left, the
  loop polls the timers until the reading that is not before the deadline of the first timer of the
  queue, whose callback removes the blocker; then the phase is finished and the timer is off the queue.\<close>

theorem boot_phase_waits_for_timer:
  assumes "TIMER_QUEUE h" "\<And>m. run_timer h fn t m = snd (boot_state_unblock m s q)"
    and "timers_ok m" "timer_queue_head (global_timer_queue m) = Some t" "callback (callbacks m t) = fn"
    and "first_callback (phase m s q) = 0" "blockers (phase m s q) = 1" "state_id m = s" "seq m \<le> q"
    and "\<And>i. i < n \<Longrightarrow> \<not> due_at m t \<le> clock h (readings m + i)" "due_at m t \<le> clock h (readings m + n)"
  shows "\<exists>m1. bs_call_callbacks h s q m = Some m1 \<and> first_callback (phase m1 s q) = 0 \<and> blockers (phase m1 s q) = 0 \<and>
    readings m1 = readings m + Suc n \<and>
    global_timer_queue m1 = timer_queue_remove_head (callbacks m) (global_timer_queue m)"
  by (rule blocked_until_timer [where h = h and fn = fn and t = t and n = n, OF assms])

theorem boot_phase_waits_for_timer_witness:
  "\<exists>m1. bs_call_callbacks sample_timer_hooks BS_PRE_DEVICE BS_ON_ENTRY
      (snd (boot_state_block sample_machine BS_PRE_DEVICE BS_ON_ENTRY)) = Some m1 \<and> readings m1 = 4"
proof -
  let ?m = "snd (boot_state_block sample_machine BS_PRE_DEVICE BS_ON_ENTRY)"
  note d = sample_machine_def machine.defs
  have m: "?m = set_phase sample_machine BS_PRE_DEVICE BS_ON_ENTRY \<lparr>first_callback = 0, blockers = 1\<rparr>"
    by (simp add: boot_state_block_def sample_machine_facts) (simp add: d)
  have f: "callbacks ?m = callbacks sample_machine" "global_timer_queue ?m = global_timer_queue sample_machine"
    "readings ?m = 0" "state_id ?m = BS_PRE_DEVICE" "seq ?m = BS_ON_ENTRY"
    unfolding m by (simp_all add: set_phase_def set_state_def) (simp_all add: d)
  have ok: "timers_ok ?m"
    by (simp add: timers_ok_def f tq_ok_def) (simp add: d MAX_TIMER_QUEUE_ENTRIES_def heap_def)
  have h: "timer_queue_head (global_timer_queue ?m) = Some 25" unfolding f by (simp add: d timer_queue_head_def timer_queue_empty_def)
  have due: "due_at ?m 25 \<le> clock sample_timer_hooks (readings ?m + i) \<longleftrightarrow> 25 \<le> (of_nat (10 * i) :: u64)" for i
    unfolding f due_at_def by (simp add: d sample_timer_hooks_def sample_hooks_def less_eq_mono_time_def)
  have early: "\<not> due_at ?m 25 \<le> clock sample_timer_hooks (readings ?m + i)" if "i < 3" for i
  proof -
    from that have "i = 0 \<or> i = 1 \<or> i = 2" by auto
    then show ?thesis unfolding due by auto
  qed
  have late: "due_at ?m 25 \<le> clock sample_timer_hooks (readings ?m + 3)" unfolding due by simp
  have hk: "TIMER_QUEUE sample_timer_hooks"
    "run_timer sample_timer_hooks 0x100 25 a = snd (boot_state_unblock a BS_PRE_DEVICE BS_ON_ENTRY)" for a
    by (simp_all add: sample_timer_hooks_def)
  have cb: "callback (callbacks ?m 25) = 0x100" unfolding f by (simp add: d)
  have ph: "first_callback (phase ?m BS_PRE_DEVICE BS_ON_ENTRY) = 0" "blockers (phase ?m BS_PRE_DEVICE BS_ON_ENTRY) = 1"
    unfolding m by simp_all
  have sq: "seq ?m \<le> BS_ON_ENTRY" unfolding f by simp
  have "\<exists>m1. bs_call_callbacks sample_timer_hooks BS_PRE_DEVICE BS_ON_ENTRY ?m = Some m1 \<and>
      first_callback (phase m1 BS_PRE_DEVICE BS_ON_ENTRY) = 0 \<and> blockers (phase m1 BS_PRE_DEVICE BS_ON_ENTRY) = 0 \<and>
      readings m1 = readings ?m + Suc 3 \<and> global_timer_queue m1 = timer_queue_remove_head (callbacks ?m) (global_timer_queue ?m)"
    by (rule boot_phase_waits_for_timer [where fn = "0x100" and t = 25, OF hk ok h cb ph f(4) sq early late])
  then show ?thesis unfolding f by auto
qed

text \<open>A callback scheduled too late is lost without an error. Scheduling on the entry of a state that is
  not complete succeeds also when its entry phase is over; the callback then stays on the list of the
  phase of a complete state for the rest of the walk.\<close>

theorem boot_callback_too_late:
  assumes "quiet_calls h" "quiet_work h" "\<not> complete (boot_states m s)" "c \<noteq> 0"
    and "bs_call_callbacks h s BS_ON_EXIT (snd (boot_state_sched_on_entry m c s)) = Some m2"
    and "reaches h (complete_state m2 s n) m3"
  shows "fst (boot_state_sched_on_entry m c s) \<and> first_callback (phase m3 s BS_ON_ENTRY) = c \<and> complete (boot_states m3 s)"
  using late_entry_callback [OF assms(1-4)] assms(5,6) by blast

text \<open>Scheduling the first callback of a list once more cuts the list off. The call succeeds; the
  callback then runs twice, and those behind it never run.\<close>

theorem boot_double_schedule:
  assumes "quiet_calls h" "logs_calls h log" "first_callback (phase m s q) = c" "c \<noteq> 0"
    and "\<not> complete (boot_states m s)" "blockers (phase m s q) = 0"
  shows "fst (boot_state_sched_callback m s c q) \<and>
    (\<exists>m1. bs_call_callbacks h s q (snd (boot_state_sched_callback m s c q)) = Some m1 \<and>
      log (machine.more m1) = log (machine.more m) @ [c, c])"
  by (rule double_schedule) (rule assms)+

end
