(* ===== verification/MtrrBlocks.thy ===== *)
theory MtrrBlocks
  imports MemRange AddressPool
begin

text \<open>
  The variable and fixed memory type range registers: \<^verbatim>\<open>src/cpu/x86/mtrr/mtrr.c\<close>, with the bit search
  functions of \<^verbatim>\<open>src/include/lib.h\<close>. This theory holds the part that turns one range of pages into
  registers: \<^verbatim>\<open>calc_var_mtrr_range\<close> splits the range into aligned blocks whose sizes are powers of two,
  \<^verbatim>\<open>prep_var_mtrr\<close> encodes a block as a base and a mask. Addresses are in units of 4 KiB pages where the
  code has them so (\<^verbatim>\<open>RANGE_SHIFT\<close>).
\<close>

subsection \<open>Bit search\<close>

fun bit_length :: "nat \<Rightarrow> nat" where
  "bit_length n = (if n = 0 then 0 else Suc (bit_length (n div 2)))"

declare bit_length.simps [simp del]

text \<open>The builtins count the leading zeroes of a non-zero word.\<close>

definition clz :: "u32 \<Rightarrow> int" where
  "clz x = (if x \<noteq> 0 then 32 - int (bit_length (unat x)) else 32)"

definition log2_32 :: "u32 \<Rightarrow> int" where
  "log2_32 x = 32 - clz x - 1"

definition ffs :: "u32 \<Rightarrow> int" where
  "ffs x = log2_32 (x AND - x)"

definition fls :: "u32 \<Rightarrow> int" where
  "fls x = log2_32 x"

definition clz64 :: "u64 \<Rightarrow> int" where
  "clz64 x = (if x \<noteq> 0 then 64 - int (bit_length (unat x)) else 64)"

definition log2_64 :: "u64 \<Rightarrow> int" where
  "log2_64 x = 64 - clz64 x - 1"

definition ffs64 :: "u64 \<Rightarrow> int" where
  "ffs64 x = log2_64 (x AND - x)"

definition fls64 :: "u64 \<Rightarrow> int" where
  "fls64 x = log2_64 x"

lemma bit_length_0 [simp]: "bit_length 0 = 0"
  by (simp add: bit_length.simps)

lemma bit_length_pos: "0 < n \<Longrightarrow> bit_length n = Suc (bit_length (n div 2))"
  by (subst bit_length.simps) simp

lemma bit_length_bounds: "0 < n \<Longrightarrow> 2 ^ (bit_length n - 1) \<le> n \<and> n < 2 ^ bit_length n \<and> 0 < bit_length n"
proof (induction n rule: bit_length.induct)
  case (1 n)
  show ?case
  proof (cases "n = 1")
    case True then show ?thesis by (simp add: bit_length_pos)
  next
    case False
    then have "0 < n div 2" using 1(2) by simp
    moreover obtain m where m: "bit_length (n div 2) = Suc m"
      using 1 calculation by (metis gr0_implies_Suc less_numeral_extra(3))
    ultimately have b: "2 ^ m \<le> n div 2" "n div 2 < 2 * 2 ^ m" using 1 by auto
    have "n = 2 * (n div 2) + n mod 2" "n mod 2 < 2" by simp_all
    with b have "2 * 2 ^ m \<le> n" "n < 4 * 2 ^ m" by linarith+
    then show ?thesis using 1(2) by (simp add: bit_length_pos m)
  qed
qed

lemma bit_length_le: "n < 2 ^ k \<Longrightarrow> bit_length n \<le> k"
proof (cases "n = 0")
  case False
  assume "n < 2 ^ k"
  with False bit_length_bounds [of n] have "(2::nat) ^ (bit_length n - 1) < 2 ^ k" by linarith
  then have "bit_length n - 1 < k" by simp
  then show ?thesis by simp
qed simp

lemma bit_length_eq: "2 ^ k \<le> n \<Longrightarrow> n < 2 ^ Suc k \<Longrightarrow> bit_length n = Suc k"
proof -
  assume a: "2 ^ k \<le> n" "n < 2 ^ Suc k"
  then have "0 < n" using zero_less_power [of "2 :: nat" k] by linarith
  with bit_length_bounds have b: "n < 2 ^ bit_length n" by blast
  with a have "(2::nat) ^ k < 2 ^ bit_length n" by linarith
  then have "k < bit_length n" by simp
  with bit_length_le [OF a(2)] show ?thesis by simp
qed

lemma bit_length_power [simp]: "bit_length (2 ^ k) = Suc k"
  by (rule bit_length_eq) simp_all

text \<open>The lowest set bit of a word: what \<^verbatim>\<open>x & -x\<close> keeps.\<close>

lemma int_and_minus_odd: "odd i \<Longrightarrow> i AND - i = (1 :: int)"
proof -
  assume "odd i"
  then obtain m where m: "i = 2 * m + 1" by (elim oddE)
  have "(- i) div 2 = - m - 1" unfolding m by simp
  then have d: "i div 2 = m" "(- i) div 2 = NOT m" unfolding m by (simp_all add: not_int_def)
  have "i AND - i = of_bool (odd i \<and> odd (- i)) + 2 * (i div 2 AND (- i) div 2)" by (rule and_rec)
  then show ?thesis using \<open>odd i\<close> unfolding d by simp
qed

lemma odd_part: "0 < n \<Longrightarrow> \<exists>k q. n = 2 ^ k * q \<and> odd (q :: nat)"
proof (induction n rule: less_induct)
  case (less n)
  show ?case
  proof (cases "odd n")
    case True then show ?thesis by (intro exI [of _ 0] exI [of _ n]) simp
  next
    case False
    then obtain m where m: "n = 2 * m" by blast
    then have "m < n" "0 < m" using less.prems by simp_all
    from less.IH [OF this] obtain k q where "m = 2 ^ k * q" "odd q" by blast
    with m show ?thesis by (intro exI [of _ "Suc k"] exI [of _ q]) simp
  qed
qed

lemma and_minus_power:
  fixes x :: "'a::len word"
  assumes "unat x = 2 ^ k * q" "odd q"
  shows "x AND - x = 2 ^ k"
proof -
  let ?i = "2 ^ k * int q :: int"
  have x: "x = word_of_int ?i"
  proof -
    have "x = word_of_nat (unat x)" by simp
    then show ?thesis unfolding assms(1) by simp
  qed
  have "?i AND - ?i = push_bit k (int q) AND push_bit k (- int q)" by (simp add: push_bit_eq_mult mult.commute)
  also have "\<dots> = push_bit k (int q AND - int q)" by (simp only: push_bit_and)
  also have "int q AND - int q = 1" by (rule int_and_minus_odd) (use assms(2) in simp)
  also have "push_bit k 1 = (2 :: int) ^ k" by (simp add: push_bit_eq_mult)
  finally have "?i AND - ?i = 2 ^ k" .
  moreover have wa: "(word_of_int a :: 'a word) AND word_of_int b = word_of_int (a AND b)" for a b
    by (rule bit_word_eqI) (simp add: bit_simps)
  moreover have "- x = word_of_int (- ?i)" unfolding x by simp
  ultimately have "x AND - x = word_of_int (2 ^ k)" using x by (metis wa)
  then show ?thesis by simp
qed

lemma unat_pow_64: "k < 64 \<Longrightarrow> unat (2 ^ k :: u64) = 2 ^ k"
proof -
  assume "k < 64"
  then have "(2::nat) ^ k < 2 ^ LENGTH(64)" by (intro power_strict_increasing) simp_all
  from unat_of_nat_lt [OF this] show ?thesis by simp
qed

lemma ffs64_facts:
  assumes "x \<noteq> 0"
  obtains k where "ffs64 x = int k" "k < 64" "2 ^ k dvd unat x" "\<not> 2 ^ Suc k dvd unat x"
proof -
  have "0 < unat x" using assms by (simp add: unat_gt_0)
  then obtain k q where q: "unat x = 2 ^ k * q" "odd q" using odd_part by blast
  then have "0 < q" by (cases q) auto
  then have "(2::nat) ^ k \<le> unat x" using q(1) by simp
  also have "unat x < 2 ^ 64" using unsigned_less [of x, where 'a = nat] by simp
  finally have k: "k < 64" by (rule power_less_imp_less_exp [rotated]) simp
  then have "unat (2 ^ k :: u64) = 2 ^ k" by (rule unat_pow_64)
  then have "ffs64 x = int k"
    using k unfolding ffs64_def and_minus_power [OF q] log2_64_def clz64_def by simp
  moreover have "2 ^ k dvd unat x" "\<not> 2 ^ Suc k dvd unat x" using q by auto
  ultimately show ?thesis using k that by blast
qed

lemma ffs64_0 [simp]: "ffs64 0 = - 1"
  by (simp add: ffs64_def log2_64_def clz64_def)

lemma fls64_facts:
  assumes "x \<noteq> 0"
  obtains k where "fls64 x = int k" "k < 64" "2 ^ k \<le> unat x" "unat x < 2 ^ Suc k"
proof -
  have x: "0 < unat x" using assms by (simp add: unat_gt_0)
  note b = bit_length_bounds [OF x]
  then obtain k where k: "bit_length (unat x) = Suc k" by (metis gr0_implies_Suc)
  have "bit_length (unat x) \<le> 64" using unsigned_less [of x, where 'a = nat] by (intro bit_length_le) simp
  then show ?thesis using assms b k that [of k] by (simp add: fls64_def log2_64_def clz64_def)
qed


subsection \<open>Constants and registers\<close>

definition MTRR_TYPE_UNCACHEABLE :: u32 where "MTRR_TYPE_UNCACHEABLE = 0"
definition MTRR_TYPE_WRCOMB :: u32 where "MTRR_TYPE_WRCOMB = 1"
definition MTRR_TYPE_WRTHROUGH :: u32 where "MTRR_TYPE_WRTHROUGH = 4"
definition MTRR_TYPE_WRPROT :: u32 where "MTRR_TYPE_WRPROT = 5"
definition MTRR_TYPE_WRBACK :: u32 where "MTRR_TYPE_WRBACK = 6"
definition MTRR_PHYS_MASK_VALID :: u32 where "MTRR_PHYS_MASK_VALID = 0x800"
definition RANGE_1MB :: u64 where "RANGE_1MB = 0x100"
definition RANGE_4GB :: u64 where "RANGE_4GB = 0x100000"

lemmas mtrr_types =
  MTRR_TYPE_UNCACHEABLE_def MTRR_TYPE_WRCOMB_def MTRR_TYPE_WRTHROUGH_def MTRR_TYPE_WRPROT_def
  MTRR_TYPE_WRBACK_def

definition PHYS_TO_RANGE_ADDR :: "u64 \<Rightarrow> u64" where
  "PHYS_TO_RANGE_ADDR x = drop_bit 12 x"

definition RANGE_TO_PHYS_ADDR :: "u64 \<Rightarrow> u64" where
  "RANGE_TO_PHYS_ADDR x = push_bit 12 x"

record msr =
  msr_lo :: u32
  msr_hi :: u32

record var_mtrr_regs =
  reg_base :: msr
  reg_mask :: msr

text \<open>
  \<^verbatim>\<open>struct var_mtrr_state\<close> without the pointer to the address space, which the operations get as the list
  they walk. \<open>mtrr_index\<close> counts registers; the static array \<open>regs\<close> is only written below \<^verbatim>\<open>total_mtrrs\<close>.
\<close>

record var_mtrr_state =
  above4gb :: bool
  address_bits :: nat
  prepare_msrs :: bool
  mtrr_index :: nat
  regs :: "var_mtrr_regs list"

definition prep_var_mtrr :: "nat \<Rightarrow> var_mtrr_state \<Rightarrow> u64 \<Rightarrow> u64 \<Rightarrow> u32 \<Rightarrow> var_mtrr_state" where
  "prep_var_mtrr total_mtrrs st base sz mtrr_type =
     (if total_mtrrs \<le> mtrr_index st then st
      else let rbase = RANGE_TO_PHYS_ADDR base;
               rsize = - RANGE_TO_PHYS_ADDR sz;
               mask1 = push_bit (address_bits st) 1 - 1;
               rsize1 = rsize AND mask1
           in st\<lparr>regs := (regs st)[mtrr_index st :=
                  \<lparr>reg_base = \<lparr>msr_lo = ucast rbase OR mtrr_type, msr_hi = ucast (drop_bit 32 rbase)\<rparr>,
                   reg_mask = \<lparr>msr_lo = ucast rsize1 OR MTRR_PHYS_MASK_VALID,
                                msr_hi = ucast (drop_bit 32 rsize1)\<rparr>\<rparr>]\<rparr>)"

text \<open>The size of the next block; \<^verbatim>\<open>__ffs64\<close> and \<^verbatim>\<open>__fls64\<close> are assigned to \<^verbatim>\<open>uint32_t\<close>, so a base of 0, for
  which \<^verbatim>\<open>__ffs64\<close> is -1, leaves the size alone.\<close>

definition next_mtrr_size :: "u64 \<Rightarrow> u64 \<Rightarrow> u64" where
  "next_mtrr_size base sz =
     (let addr_lsb = word_of_int (ffs64 base) :: u32;
          size_msb = word_of_int (fls64 sz) :: u32
      in if size_msb < addr_lsb then push_bit (unat size_msb) 1 else push_bit (unat addr_lsb) 1)"

lemma next_mtrr_size_facts:
  assumes "sz \<noteq> 0"
  obtains k where "next_mtrr_size base sz = 2 ^ k" "k < 64" "unat (next_mtrr_size base sz) = 2 ^ k"
    "2 ^ k \<le> unat sz" "2 ^ k dvd unat base" "unat sz < 2 ^ Suc k \<or> base \<noteq> 0 \<and> \<not> 2 ^ Suc k dvd unat base"
proof -
  obtain m where m: "fls64 sz = int m" "m < 64" "2 ^ m \<le> unat sz" "unat sz < 2 ^ Suc m" by (rule fls64_facts [OF assms])
  have um: "unat (word_of_nat j :: u32) = j" if "j < 64" for j using that by (intro unat_of_nat_lt) simp
  have pos: "unat (push_bit j 1 :: u64) = 2 ^ j \<and> (push_bit j 1 :: u64) = 2 ^ j" if "j < 64" for j
    using unat_pow_64 [OF that] by (simp add: push_bit_eq_mult)
  show ?thesis
  proof (cases "base = 0")
    case True
    have "unat (- 1 :: u32) = 4294967295" by (simp add: unsigned_minus_1_eq_mask mask_eq_exp_minus_1)
    then have "next_mtrr_size base sz = push_bit m 1"
      using um [OF m(2)] m(2) by (simp add: next_mtrr_size_def True m(1) Let_def word_less_nat_alt)
    with pos [OF m(2)] m True that [of m] show ?thesis by simp
  next
    case False
    obtain l where l: "ffs64 base = int l" "l < 64" "2 ^ l dvd unat base" "\<not> 2 ^ Suc l dvd unat base"
      by (rule ffs64_facts [OF False])
    have e: "next_mtrr_size base sz = push_bit (min l m) 1"
      using um [OF m(2)] um [OF l(2)] by (auto simp: next_mtrr_size_def l(1) m(1) Let_def word_less_nat_alt min_def)
    show ?thesis
    proof (cases "m < l")
      case True
      then have "(2::nat) ^ m dvd 2 ^ l" by (intro le_imp_power_dvd) simp
      from dvd_trans [OF this l(3)] have "2 ^ m dvd unat base" .
      with pos [OF m(2)] m True that [of m] e show ?thesis by (simp add: min_def)
    next
      case False
      then have "(2::nat) ^ l \<le> 2 ^ m" by (intro power_increasing) simp_all
      then have "2 ^ l \<le> unat sz" using m(3) by linarith
      with pos [OF l(2)] l False that [of l] e \<open>base \<noteq> 0\<close> show ?thesis by (simp add: min_def)
    qed
  qed
qed

lemma next_mtrr_size_dec: "sz \<noteq> 0 \<Longrightarrow> unat (sz - next_mtrr_size base sz) < unat sz"
proof -
  assume sz: "sz \<noteq> 0"
  obtain k where k: "unat (next_mtrr_size base sz) = 2 ^ k" "2 ^ k \<le> unat sz"
    by (rule next_mtrr_size_facts [OF sz])
  then have "unat (sz - next_mtrr_size base sz) = unat sz - 2 ^ k" by (subst unat_sub_no_wrap) simp_all
  then show ?thesis using k(2) zero_less_power [of "2 :: nat" k] by linarith
qed

function calc_var_mtrr_range :: "nat \<Rightarrow> var_mtrr_state \<Rightarrow> u64 \<Rightarrow> u64 \<Rightarrow> u32 \<Rightarrow> var_mtrr_state" where
  "calc_var_mtrr_range total_mtrrs st base sz mtrr_type =
     (if sz = 0 then st
      else let mtrr_size = next_mtrr_size base sz;
               st1 = (if prepare_msrs st then prep_var_mtrr total_mtrrs st base mtrr_size mtrr_type else st)
           in calc_var_mtrr_range total_mtrrs (st1\<lparr>mtrr_index := mtrr_index st1 + 1\<rparr>) (base + mtrr_size) (sz - mtrr_size) mtrr_type)"
  by pat_completeness auto
termination
  by (relation "measure (\<lambda>(_, _, _, sz, _). unat sz)") (simp_all add: next_mtrr_size_dec)

declare calc_var_mtrr_range.simps [simp del]

subsection \<open>The blocks of a range\<close>

function mtrr_blocks :: "u64 \<Rightarrow> u64 \<Rightarrow> (u64 \<times> u64) list" where
  "mtrr_blocks base sz =
     (if sz = 0 then []
      else (base, next_mtrr_size base sz) #
        mtrr_blocks (base + next_mtrr_size base sz) (sz - next_mtrr_size base sz))"
  by pat_completeness auto
termination
  by (relation "measure (unat \<circ> snd)") (simp_all add: next_mtrr_size_dec)

declare mtrr_blocks.simps [simp del]

text \<open>What the loop does with one block.\<close>

definition emit_mtrr :: "nat \<Rightarrow> u64 \<times> u64 \<times> u32 \<Rightarrow> var_mtrr_state \<Rightarrow> var_mtrr_state" where
  "emit_mtrr total_mtrrs = (\<lambda>(base, sz, mtrr_type) st.
     let st1 = (if prepare_msrs st then prep_var_mtrr total_mtrrs st base sz mtrr_type else st)
     in st1\<lparr>mtrr_index := mtrr_index st1 + 1\<rparr>)"

definition typed_blocks :: "u64 \<Rightarrow> u64 \<Rightarrow> u32 \<Rightarrow> (u64 \<times> u64 \<times> u32) list" where
  "typed_blocks base sz mtrr_type = map (\<lambda>(b, s). (b, s, mtrr_type)) (mtrr_blocks base sz)"

lemma calc_var_mtrr_range_fold:
  "calc_var_mtrr_range total_mtrrs st base sz mtrr_type = fold (emit_mtrr total_mtrrs) (typed_blocks base sz mtrr_type) st"
proof (induction total_mtrrs st base sz mtrr_type rule: calc_var_mtrr_range.induct)
  case (1 total_mtrrs st base sz mtrr_type)
  show ?case
  proof (cases "sz = 0")
    case True
    then show ?thesis by (simp add: typed_blocks_def calc_var_mtrr_range.simps mtrr_blocks.simps)
  next
    case False
    have "typed_blocks base sz mtrr_type = (base, next_mtrr_size base sz, mtrr_type) #
        typed_blocks (base + next_mtrr_size base sz) (sz - next_mtrr_size base sz) mtrr_type"
      unfolding typed_blocks_def using False by (subst mtrr_blocks.simps) simp
    then show ?thesis
      using 1 [OF False refl refl] False
      by (subst calc_var_mtrr_range.simps) (simp add: emit_mtrr_def Let_def)
  qed
qed


text \<open>Induction over the blocks of a range that does not wrap; one step takes the block \<open>2 ^ k\<close> off its front.\<close>

lemma mtrr_blocks_induct [consumes 1, case_names none block]:
  assumes "unat base + unat sz \<le> 2 ^ 64"
    and "\<And>base. P base 0"
    and "\<And>base sz k. sz \<noteq> 0 \<Longrightarrow> unat base + unat sz \<le> 2 ^ 64 \<Longrightarrow> k < 64 \<Longrightarrow> next_mtrr_size base sz = 2 ^ k \<Longrightarrow>
      unat (2 ^ k :: u64) = 2 ^ k \<Longrightarrow> 2 ^ k \<le> unat sz \<Longrightarrow> 2 ^ k dvd unat base \<Longrightarrow>
      unat sz < 2 ^ Suc k \<or> \<not> 2 ^ Suc k dvd unat base \<Longrightarrow>
      unat (sz - 2 ^ k) = unat sz - 2 ^ k \<Longrightarrow> (sz \<noteq> 2 ^ k \<Longrightarrow> unat (base + 2 ^ k) = unat base + 2 ^ k) \<Longrightarrow>
      mtrr_blocks base sz = (base, 2 ^ k) # mtrr_blocks (base + 2 ^ k) (sz - 2 ^ k) \<Longrightarrow>
      P (base + 2 ^ k) (sz - 2 ^ k) \<Longrightarrow> P base sz"
  shows "P base sz"
  using assms(1)
proof (induction "unat sz" arbitrary: base sz rule: less_induct)
  case less
  show ?case
  proof (cases "sz = 0")
    case True then show ?thesis using assms(2) by simp
  next
    case False
    obtain k where k: "next_mtrr_size base sz = 2 ^ k" "k < 64" "unat (next_mtrr_size base sz) = 2 ^ k"
      "2 ^ k \<le> unat sz" "2 ^ k dvd unat base" "unat sz < 2 ^ Suc k \<or> base \<noteq> 0 \<and> \<not> 2 ^ Suc k dvd unat base"
      by (rule next_mtrr_size_facts [OF False])
    have u: "unat (2 ^ k :: u64) = 2 ^ k" using k(1,3) by simp
    have s: "unat (sz - 2 ^ k) = unat sz - 2 ^ k" using k(4) by (subst unat_sub_no_wrap) (simp_all add: u)
    have b: "unat (base + 2 ^ k) = unat base + 2 ^ k" if "sz \<noteq> 2 ^ k"
    proof -
      have "unat sz \<noteq> 2 ^ k" using that u by (metis word_eq_unatI)
      then have "unat base + 2 ^ k < 2 ^ 64" using k(4) less.prems by linarith
      then show ?thesis by (subst unat_add_no_wrap) (simp_all add: u)
    qed
    have l: "unat (sz - 2 ^ k) < unat sz" using s k(4) zero_less_power [of "2 :: nat" k] by linarith
    have "unat (base + 2 ^ k) + unat (sz - 2 ^ k) \<le> 2 ^ 64"
    proof (cases "sz = 2 ^ k")
      case True
      then show ?thesis using unat_lt_64 [of "base + 2 ^ k"] by simp
    next
      case False
      then show ?thesis using b [OF False] s k(4) less.prems by linarith
    qed
    from less.hyps [OF l this] have "P (base + 2 ^ k) (sz - 2 ^ k)" .
    moreover have "mtrr_blocks base sz = (base, 2 ^ k) # mtrr_blocks (base + 2 ^ k) (sz - 2 ^ k)"
      using False by (subst mtrr_blocks.simps) (simp add: k(1))
    ultimately show ?thesis using assms(3) [OF False less.prems k(2,1) u k(4,5) _ s b] k(6) by blast
  qed
qed

lemma mtrr_blocks_0 [simp]: "mtrr_blocks base 0 = []"
  by (simp add: mtrr_blocks.simps)

text \<open>Each block is a power of two, aligned to its size, and inside the range.\<close>

lemma mtrr_blocks_mem:
  assumes "unat base + unat sz \<le> 2 ^ 64" "(b, s) \<in> set (mtrr_blocks base sz)"
  shows "\<exists>k<64. s = 2 ^ k \<and> unat s = 2 ^ k \<and> 2 ^ k dvd unat b \<and> unat base \<le> unat b \<and> unat b + 2 ^ k \<le> unat base + unat sz"
  using assms
proof (induction rule: mtrr_blocks_induct)
  case (block base sz k)
  show ?case
  proof (cases "(b, s) = (base, 2 ^ k)")
    case True then show ?thesis using block by (intro exI [of _ k]) simp
  next
    case False
    then have mem: "(b, s) \<in> set (mtrr_blocks (base + 2 ^ k) (sz - 2 ^ k))" using block.prems block.hyps(11) by auto
    then have "sz \<noteq> 2 ^ k" by auto
    note u = block.hyps(9) block.hyps(10) [OF this] block.hyps(6)
    from block.IH [OF mem] obtain j where "j < 64" "s = 2 ^ j \<and> unat s = 2 ^ j \<and> 2 ^ j dvd unat b \<and>
        unat (base + 2 ^ k) \<le> unat b \<and> unat b + 2 ^ j \<le> unat (base + 2 ^ k) + unat (sz - 2 ^ k)" by blast
    moreover have "unat base \<le> unat b" "unat b + 2 ^ j \<le> unat base + unat sz" using calculation u by linarith+
    ultimately show ?thesis by blast
  qed
qed simp

lemma in_block_split:
  assumes "unat s \<le> unat z" "unat (z - s) = unat z - unat s" "z \<noteq> s \<Longrightarrow> unat (b + s) = unat b + unat s"
  shows "in_block b z p \<longleftrightarrow> in_block b s p \<or> z \<noteq> s \<and> in_block (b + s) (z - s) p"
proof (cases "z = s")
  case False
  with assms show ?thesis unfolding in_block_def word_le_nat_alt by auto
qed simp

lemma mtrr_blocks_cover:
  assumes "unat base + unat sz \<le> 2 ^ 64"
  shows "(\<exists>(b, s)\<in>set (mtrr_blocks base sz). in_block b s p) \<longleftrightarrow> in_block base sz p"
  using assms
proof (induction rule: mtrr_blocks_induct)
  case (none base) then show ?case by (auto simp: in_block_def word_le_nat_alt)
next
  case (block base sz k)
  have "in_block base sz p \<longleftrightarrow> in_block base (2 ^ k) p \<or> sz \<noteq> 2 ^ k \<and> in_block (base + 2 ^ k) (sz - 2 ^ k) p"
    using block.hyps by (intro in_block_split) simp_all
  moreover have "\<not> in_block (base + 2 ^ k) (sz - 2 ^ k) p" if "sz = 2 ^ k"
    using that by (auto simp: in_block_def word_le_nat_alt)
  ultimately show ?case unfolding block.hyps(11) using block.IH by auto
qed

lemma mtrr_blocks_sorted:
  assumes "unat base + unat sz \<le> 2 ^ 64"
  shows "sorted_wrt (\<lambda>(b, s) (b', s'). unat b + unat s \<le> unat b') (mtrr_blocks base sz)"
  using assms
proof (induction rule: mtrr_blocks_induct)
  case (block base sz k)
  have "unat base + unat (2 ^ k :: u64) \<le> unat b"
    if mem: "(b, s) \<in> set (mtrr_blocks (base + 2 ^ k) (sz - 2 ^ k))" for b s
  proof -
    from mem have "sz \<noteq> 2 ^ k" by auto
    note u = block.hyps(10) [OF this]
    have "unat (base + 2 ^ k) + unat (sz - 2 ^ k) \<le> 2 ^ 64" using u block.hyps(2,6,9) by simp
    from mtrr_blocks_mem [OF this mem] show ?thesis using u block.hyps(5) by auto
  qed
  then show ?case unfolding block.hyps(11) using block.IH by auto
qed simp

subsection \<open>The number of blocks\<close>

lemma mtrr_blocks_tail:
  assumes "unat base + unat sz \<le> 2 ^ 64" "unat sz < 2 ^ j" "2 ^ j dvd unat base"
  shows "length (mtrr_blocks base sz) \<le> j"
  using assms
proof (induction arbitrary: j rule: mtrr_blocks_induct)
  case (block base sz k)
  have "(2::nat) ^ k < 2 ^ j" using block.hyps(6) block.prems(1) by linarith
  then have kj: "k < j" by simp
  then have "(2::nat) ^ Suc k dvd 2 ^ j" by (intro le_imp_power_dvd) simp
  from dvd_trans [OF this block.prems(2)] have "unat sz < 2 ^ Suc k" using block.hyps(8) by blast
  then have "unat (sz - 2 ^ k) < 2 ^ k" using block.hyps(6,9) by simp
  moreover have "2 ^ k dvd unat (base + 2 ^ k) \<or> sz = 2 ^ k" using block.hyps(7,10) by (metis dvd_add dvd_refl)
  ultimately have "length (mtrr_blocks (base + 2 ^ k) (sz - 2 ^ k)) \<le> k" using block.IH [of k] by auto
  with kj show ?case unfolding block.hyps(11) by simp
qed simp

lemma odd_multiple: "2 ^ k dvd n \<Longrightarrow> \<not> 2 ^ Suc k dvd n \<Longrightarrow> 2 ^ Suc k dvd n + (2 :: nat) ^ k"
proof -
  assume a: "2 ^ k dvd n" "\<not> 2 ^ Suc k dvd n"
  then obtain q where q: "n = 2 ^ k * q" by blast
  with a(2) have "odd q" by auto
  then have "even (q + 1)" by simp
  then obtain r where "q + 1 = 2 * r" by (rule evenE)
  then have "n + 2 ^ k = 2 ^ k * (2 * r)" unfolding q by (metis distrib_left mult.right_neutral)
  then show ?thesis by simp
qed

lemma mtrr_blocks_length_aux:
  assumes "unat base + unat sz \<le> 2 ^ 64" "unat base + unat sz < 2 ^ K" "2 ^ i dvd unat base" "i \<le> K"
  shows "length (mtrr_blocks base sz) \<le> (K - i) + K"
  using assms
proof (induction arbitrary: i rule: mtrr_blocks_induct)
  case (block base sz k)
  have "(2::nat) ^ k < 2 ^ K" using block.hyps(6) block.prems(1) by linarith
  then have kK: "k < K" by simp
  show ?case
  proof (cases "sz = 2 ^ k")
    case True then show ?thesis unfolding block.hyps(11) using kK by simp
  next
    case ne: False
    note u = block.hyps(9) block.hyps(10) [OF ne]
    have fit: "unat (base + 2 ^ k) + unat (sz - 2 ^ k) = unat base + unat sz" using u block.hyps(6) by simp
    show ?thesis
    proof (cases "unat sz < 2 ^ Suc k")
      case True
      then have "unat (sz - 2 ^ k) < 2 ^ k" "2 ^ k dvd unat (base + 2 ^ k)" using u block.hyps(6,7) by simp_all
      moreover have "unat (base + 2 ^ k) + unat (sz - 2 ^ k) \<le> 2 ^ 64" using fit block.hyps(2) by simp
      ultimately have "length (mtrr_blocks (base + 2 ^ k) (sz - 2 ^ k)) \<le> k" by (intro mtrr_blocks_tail)
      with kK show ?thesis unfolding block.hyps(11) by simp
    next
      case False
      then have nd: "\<not> 2 ^ Suc k dvd unat base" using block.hyps(8) by blast
      then have "2 ^ Suc k dvd unat (base + 2 ^ k)" using odd_multiple [OF block.hyps(7)] u by simp
      with block.IH [of "Suc k"] fit block.prems(1) kK
      have len: "length (mtrr_blocks (base + 2 ^ k) (sz - 2 ^ k)) \<le> (K - Suc k) + K" by simp
      have "\<not> Suc k \<le> i"
      proof
        assume "Suc k \<le> i"
        then have "(2::nat) ^ Suc k dvd 2 ^ i" by (rule le_imp_power_dvd)
        from dvd_trans [OF this block.prems(2)] nd show False by blast
      qed
      with len kK show ?thesis unfolding block.hyps(11) by simp
    qed
  qed
qed simp

lemma mtrr_blocks_length:
  assumes "unat base + unat sz < 2 ^ K" "K \<le> 64"
  shows "length (mtrr_blocks base sz) \<le> 2 * K"
proof -
  have "(2::nat) ^ K \<le> 2 ^ 64" using assms(2) by (rule power_increasing) simp
  then have "unat base + unat sz \<le> 2 ^ 64" using assms(1) by linarith
  from mtrr_blocks_length_aux [OF this assms(1), of 0] show ?thesis by simp
qed


subsection \<open>No other split needs fewer blocks\<close>

text \<open>Of two blocks whose sizes are powers of two and that are aligned to them, one contains the other when
  they overlap.\<close>

lemma dyadic_nested:
  fixes b c :: nat
  assumes "2 ^ k dvd b" "2 ^ m dvd c" "m \<le> k" "c < b + 2 ^ k" "b < c + 2 ^ m"
  shows "b \<le> c \<and> c + 2 ^ m \<le> b + 2 ^ k"
proof -
  have "(2::nat) ^ m dvd 2 ^ k" using assms(3) by (rule le_imp_power_dvd)
  moreover from this have "2 ^ m dvd b" using assms(1) by (rule dvd_trans)
  moreover define P where "P = (2::nat) ^ m"
  ultimately obtain x y z where x: "b = P * x" "c = P * y" "2 ^ k = P * z" using assms(2) unfolding P_def by (metis dvdE)
  have "0 < P" unfolding P_def by simp
  moreover have "P * y < P * (x + z)" "P * x < P * (y + 1)"
    using assms(4,5) unfolding x P_def [symmetric] by (simp_all add: distrib_left)
  ultimately have "y < x + z" "x < y + 1" using mult_less_cancel1 [of P] by blast+
  then have "x \<le> y" "y + 1 \<le> x + z" by simp_all
  then have "P * x \<le> P * y" "P * (y + 1) \<le> P * (x + z)" by (simp_all only: mult_le_mono2)
  then show ?thesis unfolding x P_def [symmetric] by (simp add: distrib_left)
qed

text \<open>No aligned block in the range \<open>lo\<close> to \<open>base + sz\<close> is larger than the block of the split it overlaps.\<close>

lemma mtrr_blocks_maximal:
  assumes "unat base + unat sz \<le> 2 ^ 64" "(b, s) \<in> set (mtrr_blocks base sz)"
    and "lo \<le> unat base" "\<And>k. 2 ^ k dvd unat base \<Longrightarrow> \<not> 2 ^ Suc k dvd unat base \<Longrightarrow> unat base < lo + 2 ^ k \<or> unat sz < 2 ^ k"
    and "2 ^ m dvd c" "lo \<le> c" "c + 2 ^ m \<le> unat base + unat sz" "c < unat b + unat s" "unat b < c + 2 ^ m"
  shows "unat b \<le> c \<and> c + 2 ^ m \<le> unat b + unat s"
  using assms(1-4,7)
proof (induction rule: mtrr_blocks_induct)
  case (block base sz k)
  have u: "unat (2 ^ k :: u64) = 2 ^ k" by (rule block.hyps(5))
  show ?case
  proof (cases "(b, s) = (base, 2 ^ k)")
    case True
    then have bs: "b = base" "s = 2 ^ k" by simp_all
    have "m \<le> k"
    proof (rule ccontr)
      assume "\<not> m \<le> k"
      then have big: "(2::nat) ^ Suc k dvd 2 ^ m" by (intro le_imp_power_dvd) simp
      then have "(2::nat) ^ Suc k \<le> 2 ^ m" by (simp add: dvd_imp_le)
      show False
      proof (cases "2 ^ Suc k dvd unat base")
        case True
        then have sz: "unat sz < 2 ^ Suc k" using block.hyps(8) by blast
        have "2 ^ Suc k dvd c" using big assms(5) by (rule dvd_trans)
        have "c \<le> unat base \<and> unat base + 2 ^ Suc k \<le> c + 2 ^ m"
          using assms(8,9) \<open>\<not> m \<le> k\<close> unfolding bs u by (intro dyadic_nested [OF assms(5) True]) simp_all
        then show False using sz block.prems(4) by linarith
      next
        case False
        then have "unat base < lo + 2 ^ k"
          using block.prems(3) [OF block.hyps(7)] block.hyps(6) by linarith
        moreover have "c \<le> unat base \<and> unat base + 2 ^ k \<le> c + 2 ^ m"
          using assms(8,9) \<open>\<not> m \<le> k\<close> unfolding bs u by (intro dyadic_nested [OF assms(5) block.hyps(7)]) simp_all
        moreover have "c + 2 ^ k \<le> unat base"
        proof -
          obtain x where x: "c = 2 ^ Suc k * x" using dvd_trans [OF big assms(5)] by blast
          obtain y where y: "unat base = 2 ^ k * y" using block.hyps(7) by blast
          have "odd y" using False unfolding y by auto
          have "2 ^ k * (2 * x) \<le> 2 ^ k * y" using calculation(2) unfolding x y by (simp add: mult.assoc)
          then have "2 * x \<le> y" by simp
          then have "2 * x + 1 \<le> y" using \<open>odd y\<close> by presburger
          then have "2 ^ k * (2 * x + 1) \<le> 2 ^ k * y" by (rule mult_le_mono2)
          then show ?thesis unfolding x y by (simp add: distrib_left mult.assoc mult.left_commute)
        qed
        ultimately show False using assms(6) by linarith
      qed
    qed
    then show ?thesis using dyadic_nested [OF block.hyps(7) assms(5)] assms(8,9) unfolding bs u by simp
  next
    case False
    then have mem: "(b, s) \<in> set (mtrr_blocks (base + 2 ^ k) (sz - 2 ^ k))" using block.prems(1) block.hyps(11) by auto
    then have "sz \<noteq> 2 ^ k" by auto
    note v = block.hyps(9) block.hyps(10) [OF this]
    have edge: "unat (base + 2 ^ k) < lo + 2 ^ j \<or> unat (sz - 2 ^ k) < 2 ^ j"
      if j: "2 ^ j dvd unat (base + 2 ^ k)" "\<not> 2 ^ Suc j dvd unat (base + 2 ^ k)" for j
    proof (cases "unat sz < 2 ^ Suc k")
      case True
      have "k \<le> j"
      proof (rule ccontr)
        assume "\<not> k \<le> j"
        then have "(2::nat) ^ Suc j dvd 2 ^ k" by (intro le_imp_power_dvd) simp
        then have "2 ^ Suc j dvd unat (base + 2 ^ k)" using block.hyps(7) v(2) by (metis dvd_add dvd_refl dvd_trans)
        with j(2) show False ..
      qed
      then have "(2::nat) ^ k \<le> 2 ^ j" by (intro power_increasing) simp_all
      moreover have "unat (sz - 2 ^ k) < 2 ^ k" using True v block.hyps(6) by simp
      ultimately show ?thesis by linarith
    next
      case False
      then have nd: "\<not> 2 ^ Suc k dvd unat base" using block.hyps(8) by blast
      then have "unat base < lo + 2 ^ k" using block.prems(3) [OF block.hyps(7)] block.hyps(6) by linarith
      moreover have "2 ^ Suc k dvd unat (base + 2 ^ k)" using odd_multiple [OF block.hyps(7) nd] v by simp
      moreover have "Suc k \<le> j"
      proof (rule ccontr)
        assume "\<not> Suc k \<le> j"
        then have "(2::nat) ^ Suc j dvd 2 ^ Suc k" by (intro le_imp_power_dvd) simp
        from dvd_trans [OF this calculation(2)] j(2) show False by blast
      qed
      then have "(2::nat) ^ Suc k \<le> 2 ^ j" by (intro power_increasing) simp_all
      ultimately show ?thesis using v by simp
    qed
    show ?thesis
      by (rule block.IH [OF mem _ edge]) (use block.prems(2,4) v block.hyps(6) in simp_all)
  qed
qed simp

lemma distinct_if_apart: "sorted_wrt (\<noteq>) xs \<Longrightarrow> distinct xs"
  by (induction xs) auto

lemma mtrr_blocks_minimal:
  assumes "unat base + unat sz \<le> 2 ^ 64"
    and "\<And>c m. (c, m) \<in> set bs \<Longrightarrow> 2 ^ m dvd c"
    and "(\<Union>(c, m)\<in>set bs. {c ..< c + 2 ^ m}) = {unat base ..< unat base + unat sz}"
  shows "length (mtrr_blocks base sz) \<le> length bs"
proof -
  let ?bl = "mtrr_blocks base sz"
  note mem = mtrr_blocks_mem [OF assms(1)]
  have pick: "\<exists>(c, m)\<in>set bs. unat b \<le> c \<and> c + 2 ^ m \<le> unat b + unat s" if "(b, s) \<in> set ?bl" for b s
  proof -
    from mem [OF that] obtain k where k: "unat s = 2 ^ k" "unat base \<le> unat b" "unat b + 2 ^ k \<le> unat base + unat sz" by blast
    have "0 < (2::nat) ^ k" by simp
    then have "unat b < unat base + unat sz" using k(3) by linarith
    then have "unat b \<in> {unat base ..< unat base + unat sz}" using k(2) by simp
    then obtain c m where cm: "(c, m) \<in> set bs" "c \<le> unat b" "unat b < c + 2 ^ m" unfolding assms(3) [symmetric] by auto
    have sub: "{c ..< c + 2 ^ m} \<subseteq> {unat base ..< unat base + unat sz}" unfolding assms(3) [symmetric] using cm(1) by blast
    have p: "0 < (2::nat) ^ m" by simp
    then have "c \<in> {c ..< c + 2 ^ m}" "c + 2 ^ m - 1 \<in> {c ..< c + 2 ^ m}"
      by (simp_all only: atLeastLessThan_iff) linarith+
    with sub have ends: "c \<in> {unat base ..< unat base + unat sz}" "c + 2 ^ m - 1 \<in> {unat base ..< unat base + unat sz}" by blast+
    have "unat b \<le> c \<and> c + 2 ^ m \<le> unat b + unat s"
    proof (rule mtrr_blocks_maximal [OF assms(1) that, of "unat base"])
      show "c < unat b + unat s" using cm(2) k(1) \<open>0 < 2 ^ k\<close> by linarith
      show "c + 2 ^ m \<le> unat base + unat sz" "unat base \<le> c" using ends by (simp_all only: atLeastLessThan_iff) linarith+
    qed (use assms(2) [OF cm(1)] cm(3) in simp_all)
    with cm(1) show ?thesis by blast
  qed
  define f where "f = (\<lambda>(b :: u64, s :: u64). SOME x. x \<in> set bs \<and> unat b \<le> fst x \<and> fst x + 2 ^ snd x \<le> unat b + unat s)"
  have f: "f (b, s) \<in> set bs \<and> unat b \<le> fst (f (b, s)) \<and> fst (f (b, s)) + 2 ^ snd (f (b, s)) \<le> unat b + unat s"
    if bs: "(b, s) \<in> set ?bl" for b s
  proof -
    have "\<exists>x. x \<in> set bs \<and> unat b \<le> fst x \<and> fst x + 2 ^ snd x \<le> unat b + unat s" using pick [OF bs] by fastforce
    from someI_ex [OF this] show ?thesis unfolding f_def by simp
  qed
  have sep: "f (b, s) \<noteq> f (b', s')"
    if "unat b + unat s \<le> unat b'" "(b, s) \<in> set ?bl" "(b', s') \<in> set ?bl" for b s b' s'
  proof
    assume e: "f (b, s) = f (b', s')"
    have "unat b' \<le> fst (f (b, s))" unfolding e using f [OF that(3)] by blast
    with f [OF that(2)] that(1) have "fst (f (b, s)) + 2 ^ snd (f (b, s)) \<le> fst (f (b, s))" by linarith
    then show False by simp
  qed
  have "distinct (map f ?bl)"
  proof -
    have "sorted_wrt (\<lambda>x y. f x \<noteq> f y) ?bl"
      by (rule sorted_wrt_mono_rel [OF _ mtrr_blocks_sorted [OF assms(1)]]) (use sep in auto)
    then have "sorted_wrt (\<noteq>) (map f ?bl)" by (simp add: sorted_wrt_map)
    then show ?thesis by (rule distinct_if_apart)
  qed
  then have "length ?bl = card (f ` set ?bl)" using distinct_card [of "map f ?bl"] by simp
  also have "\<dots> \<le> card (set bs)" using f by (intro card_mono) auto
  also have "\<dots> \<le> length bs" by (rule card_length)
  finally show ?thesis .
qed


subsection \<open>What a register means\<close>

text \<open>
  The processor compares an address with the base of a valid register under its mask, in the bits from 12 up
  to the width of physical addresses (Intel SDM, volume 3, section on range checking of MTRRs).
\<close>

definition msr_value :: "msr \<Rightarrow> u64" where
  "msr_value m = push_bit 32 (ucast (msr_hi m)) OR ucast (msr_lo m)"

definition var_mtrr_match :: "nat \<Rightarrow> var_mtrr_regs \<Rightarrow> addr \<Rightarrow> bool" where
  "var_mtrr_match width r x \<longleftrightarrow>
     msr_lo (reg_mask r) AND MTRR_PHYS_MASK_VALID \<noteq> 0 \<and>
     (let m = msr_value (reg_mask r) AND mask width AND NOT (mask 12) in x AND m = msr_value (reg_base r) AND m)"

definition var_mtrr_type :: "var_mtrr_regs \<Rightarrow> u32" where
  "var_mtrr_type r = msr_lo (reg_base r) AND 0xFF"

text \<open>The register for a block, as \<^verbatim>\<open>prep_var_mtrr\<close> writes it.\<close>

definition encode_mtrr :: "nat \<Rightarrow> u64 \<times> u64 \<times> u32 \<Rightarrow> var_mtrr_regs" where
  "encode_mtrr width = (\<lambda>(base, sz, mtrr_type).
     \<lparr>reg_base = \<lparr>msr_lo = ucast (RANGE_TO_PHYS_ADDR base) OR mtrr_type, msr_hi = ucast (drop_bit 32 (RANGE_TO_PHYS_ADDR base))\<rparr>,
      reg_mask = \<lparr>msr_lo = ucast (- RANGE_TO_PHYS_ADDR sz AND (push_bit width 1 - 1)) OR MTRR_PHYS_MASK_VALID,
                  msr_hi = ucast (drop_bit 32 (- RANGE_TO_PHYS_ADDR sz AND (push_bit width 1 - 1)))\<rparr>\<rparr>)"

lemma prep_var_mtrr_eq:
  "prep_var_mtrr total_mtrrs st base sz ty =
    (if total_mtrrs \<le> mtrr_index st then st
     else st\<lparr>regs := (regs st)[mtrr_index st := encode_mtrr (address_bits st) (base, sz, ty)]\<rparr>)"
  by (simp add: prep_var_mtrr_def encode_mtrr_def Let_def)

lemma bit_msr_value: "bit (msr_value \<lparr>msr_lo = ucast v OR t, msr_hi = ucast (drop_bit 32 v)\<rparr>) n \<longleftrightarrow>
    bit (v :: u64) n \<or> n < 32 \<and> bit t n"
  by (auto simp: msr_value_def bit_simps not_less le_add_diff_inverse dest: bit_imp_le_length)

lemma page_in_block:
  assumes "2 ^ k dvd b"
  shows "x div 2 ^ k = b div 2 ^ k \<longleftrightarrow> b \<le> x \<and> x < b + (2 :: nat) ^ k"
proof -
  obtain P where P: "P = (2::nat) ^ k" by blast
  have p: "0 < P" unfolding P by simp
  obtain q where q: "b = P * q" using assms unfolding P by blast
  have "x div P = q \<longleftrightarrow> P * q \<le> x \<and> x < P * q + P"
    using p by (metis add.commute div_nat_eqI dividend_less_times_div mult.commute mult_Suc_right div_times_less_eq_dividend)
  then show ?thesis using p unfolding P [symmetric] q by simp
qed

lemma unat_page: "unat (PHYS_TO_RANGE_ADDR x) = unat x div 2 ^ 12"
  unfolding PHYS_TO_RANGE_ADDR_def unat_drop_bit_eq by (simp only: drop_bit_eq_div)

lemma bits_agree_iff:
  fixes x y :: u64
  assumes "unat x < 2 ^ w" "unat y < 2 ^ w"
  shows "(\<forall>n. l \<le> n \<and> n < w \<longrightarrow> bit x n = bit y n) \<longleftrightarrow> unat x div 2 ^ l = unat y div 2 ^ l"
proof -
  have high: "\<not> bit z n" if "unat z < 2 ^ w" "w \<le> n" for z :: u64 and n
  proof -
    have "unat z div 2 ^ n = 0" using that less_le_trans [OF that(1) power_increasing [of w n 2]] by simp
    then have "\<not> bit (unat z) n" by (simp add: bit_iff_odd)
    then show ?thesis using bit_imp_le_length [of z n] by (auto simp: bit_unsigned_iff)
  qed
  have "(\<forall>n. l \<le> n \<and> n < w \<longrightarrow> bit x n = bit y n) \<longleftrightarrow> drop_bit l x = drop_bit l y"
  proof
    assume a: "\<forall>n. l \<le> n \<and> n < w \<longrightarrow> bit x n = bit y n"
    show "drop_bit l x = drop_bit l y"
    proof (rule bit_word_eqI)
      fix n
      show "bit (drop_bit l x) n \<longleftrightarrow> bit (drop_bit l y) n"
        using a high [OF assms(1), of "l + n"] high [OF assms(2), of "l + n"] by (cases "l + n < w") (auto simp: bit_drop_bit_eq)
    qed
  next
    assume a: "drop_bit l x = drop_bit l y"
    have "bit x n = bit y n" if "l \<le> n" for n
    proof -
      have "bit (drop_bit l x) (n - l) = bit (drop_bit l y) (n - l)" using a by simp
      then show ?thesis using that by (simp add: bit_drop_bit_eq)
    qed
    then show "\<forall>n. l \<le> n \<and> n < w \<longrightarrow> bit x n = bit y n" by blast
  qed
  also have "\<dots> \<longleftrightarrow> unat (drop_bit l x) = unat (drop_bit l y)" by (metis word_eq_unatI)
  finally show ?thesis by (simp only: unat_drop_bit_eq) (simp only: drop_bit_eq_div)
qed

lemma type_bits:
  fixes ty :: u32
  assumes "ty AND NOT 0xFF = 0" "8 \<le> n"
  shows "\<not> bit ty n"
proof
  assume "bit ty n"
  moreover from this have "n < 32" using bit_imp_le_length by fastforce
  moreover have "(0xFF :: u32) = mask 8" by (simp add: mask_eq_exp_minus_1)
  ultimately have "bit (ty AND NOT 0xFF) n" using assms(2) by (simp only: bit_simps) (simp add: bit_simps)
  with assms(1) show False by simp
qed

lemma encode_mtrr_match:
  assumes width: "12 \<le> width" "width < 64" and k: "2 ^ k dvd unat base" "unat sz = 2 ^ k"
    and fit: "unat base + 2 ^ k \<le> 2 ^ (width - 12)" and ty: "ty AND NOT 0xFF = 0" and x: "unat x < 2 ^ width"
  shows "var_mtrr_match width (encode_mtrr width (base, sz, ty)) x \<longleftrightarrow> in_block base sz (PHYS_TO_RANGE_ADDR x)"
    and "var_mtrr_type (encode_mtrr width (base, sz, ty)) = ty"
proof -
  note tb = type_bits [OF ty]
  let ?r = "encode_mtrr width (base, sz, ty)" and ?l = "k + 12"
  let ?rbase = "RANGE_TO_PHYS_ADDR base" and ?rsize = "- RANGE_TO_PHYS_ADDR sz AND (push_bit width 1 - 1)"
  have "(2::nat) ^ k \<le> 2 ^ (width - 12)" using fit by linarith
  then have kw: "k \<le> width - 12" by simp
  have "(2::nat) ^ k < 2 ^ 64" using kw width by (intro power_strict_increasing) simp_all
  then have sz: "sz = 2 ^ k" using k(2) unat_pow_64 [of k] kw width by (intro word_eq_unatI) simp
  have "(2::nat) ^ (width - 12) * 2 ^ 12 = 2 ^ width"
    using width(1) by (simp only: power_add [symmetric] le_add_diff_inverse2)
  moreover have "0 < (2::nat) ^ k" by simp
  then have lt: "unat base < 2 ^ (width - 12)" using fit by linarith
  ultimately have lt2: "unat base * 2 ^ 12 < 2 ^ width" by (metis mult_less_mono1 zero_less_numeral zero_less_power)
  have "(2::nat) ^ width < 2 ^ 64" using width by (intro power_strict_increasing) simp_all
  then have nb: "unat base * 2 ^ 12 < 2 ^ 64" using lt2 by linarith
  have ub: "unat ?rbase = unat base * 2 ^ 12"
    unfolding RANGE_TO_PHYS_ADDR_def push_bit_eq_mult using nb by (subst unat_mult_lem [THEN iffD1]) simp_all
  let ?m = "msr_value (reg_mask ?r) AND mask width AND NOT (mask 12)"
  have "RANGE_TO_PHYS_ADDR sz = 2 ^ ?l" unfolding RANGE_TO_PHYS_ADDR_def sz push_bit_eq_mult by (simp add: power_add)
  then have rs: "?rsize = NOT (mask ?l) AND mask width"
    by (simp only: minus_exp_eq_not_mask mask_eq_exp_minus_1 push_bit_of_1)
  have m: "bit ?m n \<longleftrightarrow> ?l \<le> n \<and> n < width" for n
  proof -
    have p: "MTRR_PHYS_MASK_VALID = 2 ^ 11" by (simp add: MTRR_PHYS_MASK_VALID_def)
    have v: "bit MTRR_PHYS_MASK_VALID n \<longleftrightarrow> n = 11" unfolding p bit_exp_iff by auto
    show ?thesis
      using width unfolding encode_mtrr_def prod.case var_mtrr_regs.simps bit_and_iff bit_msr_value rs v
      by (auto simp: bit_simps v)
  qed
  have b: "bit (msr_value (reg_base ?r)) n \<longleftrightarrow> bit ?rbase n" if "8 \<le> n" for n
    unfolding encode_mtrr_def prod.case var_mtrr_regs.simps bit_msr_value using tb [OF that] by simp
  have valid: "msr_lo (reg_mask ?r) AND MTRR_PHYS_MASK_VALID \<noteq> 0"
    unfolding encode_mtrr_def by (simp add: bit.conj_disj_distrib2 MTRR_PHYS_MASK_VALID_def)
  have "var_mtrr_match width ?r x \<longleftrightarrow> x AND ?m = msr_value (reg_base ?r) AND ?m"
    using valid by (simp add: var_mtrr_match_def Let_def)
  also have "\<dots> \<longleftrightarrow> (\<forall>n. bit (x AND ?m) n = bit (msr_value (reg_base ?r) AND ?m) n)"
    by (auto intro: bit_word_eqI)
  also have "\<dots> \<longleftrightarrow> (\<forall>n. ?l \<le> n \<and> n < width \<longrightarrow> bit x n = bit ?rbase n)"
  proof -
    have "bit (x AND ?m) n = bit (msr_value (reg_base ?r) AND ?m) n \<longleftrightarrow> (?l \<le> n \<and> n < width \<longrightarrow> bit x n = bit ?rbase n)" for n
      unfolding bit_and_iff [of _ ?m] m using b [of n] by auto
    then show ?thesis by simp
  qed
  also have "\<dots> \<longleftrightarrow> unat x div 2 ^ ?l = unat ?rbase div 2 ^ ?l"
    using x lt2 ub by (intro bits_agree_iff) simp_all
  also have "\<dots> \<longleftrightarrow> unat x div 2 ^ 12 div 2 ^ k = unat base div 2 ^ k"
  proof -
    have "unat base * 2 ^ 12 div 2 ^ 12 = unat base" by simp
    then show ?thesis unfolding ub add.commute [of k] power_add div_mult2_eq by (simp only:)
  qed
  also have "\<dots> \<longleftrightarrow> unat base \<le> unat x div 2 ^ 12 \<and> unat x div 2 ^ 12 < unat base + 2 ^ k"
    by (rule page_in_block [OF k(1)])
  finally show "var_mtrr_match width ?r x \<longleftrightarrow> in_block base sz (PHYS_TO_RANGE_ADDR x)"
    unfolding in_block_def word_le_nat_alt unat_page k(2) .
  show "var_mtrr_type ?r = ty"
  proof (rule bit_word_eqI)
    fix n assume "n < LENGTH(32)"
    have ff: "(0xFF :: u32) = mask 8" by (simp add: mask_eq_exp_minus_1)
    have "bit (var_mtrr_type ?r) n \<longleftrightarrow> (bit (ucast ?rbase :: u32) n \<or> bit ty n) \<and> n < 8"
      unfolding var_mtrr_type_def encode_mtrr_def prod.case var_mtrr_regs.simps msr.simps ff bit_and_iff bit_or_iff
      using \<open>n < LENGTH(32)\<close> by (simp add: bit_mask_iff)
    also have "\<dots> \<longleftrightarrow> bit ty n" using tb [of n] by (cases "n < 8") (auto simp: RANGE_TO_PHYS_ADDR_def bit_simps)
    finally show "bit (var_mtrr_type ?r) n = bit ty n" .
  qed
qed

end
