(* ===== verification/MtrrVar.thy ===== *)
theory MtrrVar
  imports MtrrBlocks
begin

text \<open>
  The variable range registers of \<^verbatim>\<open>src/cpu/x86/mtrr/mtrr.c\<close>: the registers of one range of the address
  space with the hole that may be carved out behind it, the choice of the default type, the solution for
  a whole address space and its commit to the processor, with what the processor makes of every address.
\<close>

subsection \<open>One range of the address space\<close>

definition range_entry_base_mtrr_addr :: "range_entry \<Rightarrow> u64" where
  "range_entry_base_mtrr_addr r = PHYS_TO_RANGE_ADDR (range_entry_base r)"

definition range_entry_end_mtrr_addr :: "range_entry \<Rightarrow> u64" where
  "range_entry_end_mtrr_addr r = PHYS_TO_RANGE_ADDR (range_entry_end r)"

definition range_entry_mtrr_type :: "range_entry \<Rightarrow> u32" where
  "range_entry_mtrr_type r = ucast (range_entry_tag r AND 0xFF)"

text \<open>\<^verbatim>\<open>1 << n\<close> is an \<^verbatim>\<open>int\<close>, which \<^verbatim>\<open>ALIGN_UP\<close> converts to 64 bits with its sign.\<close>

definition int_shift :: "nat \<Rightarrow> u64" where
  "int_shift n = scast (push_bit n 1 :: u32)"

definition count_state :: var_mtrr_state where
  "count_state = \<lparr>above4gb = False, address_bits = 0, prepare_msrs = False, mtrr_index = 0, regs = []\<rparr>"

text \<open>The loop over alignments of the end of the hole, with the best count and end so far.\<close>

fun try_alignments :: "nat \<Rightarrow> u64 \<Rightarrow> u64 \<Rightarrow> u64 \<Rightarrow> bool \<Rightarrow> nat list \<Rightarrow> nat \<times> u32 \<Rightarrow> nat \<times> u32" where
  "try_alignments total_mtrrs base hole limit carve_hole [] best = best"
| "try_alignments total_mtrrs base hole limit carve_hole (al # als) (best_count, best_end) =
     (let hole_end = ALIGN_UP hole (int_shift al)
      in if limit < hole_end then (best_count, best_end)
         else let st1 = calc_var_mtrr_range total_mtrrs count_state base (hole_end - base) 0;
                  st2 = (if carve_hole then calc_var_mtrr_range total_mtrrs st1 hole (hole_end - hole) 0 else st1)
              in try_alignments total_mtrrs base hole limit carve_hole als
                   (if mtrr_index st2 < best_count then (mtrr_index st2, ucast hole_end) else (best_count, best_end)))"

text \<open>
  \<^verbatim>\<open>best_end\<close> and the arguments of \<^verbatim>\<open>__ffs\<close> and \<^verbatim>\<open>__fls\<close> are 32 bits wide; the loop variable is unsigned, so
  the bounds are the results converted to \<^verbatim>\<open>unsigned int\<close>.
\<close>

definition optimize_var_mtrr_hole :: "nat \<Rightarrow> u64 \<Rightarrow> u64 \<Rightarrow> u64 \<Rightarrow> bool \<Rightarrow> u64" where
  "optimize_var_mtrr_hole total_mtrrs base hole limit carve_hole =
     (let best_count = mtrr_index (calc_var_mtrr_range total_mtrrs count_state base (hole - base) 0);
          first = unat (word_of_int (ffs (ucast hole) + 1) :: u32);
          final = unat (word_of_int (fls (ucast hole)) :: u32)
      in ucast (snd (try_alignments total_mtrrs base hole limit carve_hole [first..<Suc final] (best_count, ucast hole))))"

definition calc_var_mtrrs_with_hole :: "nat \<Rightarrow> var_mtrr_state \<Rightarrow> range_entry \<Rightarrow> range_entry option \<Rightarrow> var_mtrr_state" where
  "calc_var_mtrrs_with_hole total_mtrrs st r next1 =
     (let mtrr_type = range_entry_mtrr_type r;
          a1 = range_entry_base_mtrr_addr r;
          a2 = range_entry_end_mtrr_addr r
      in if a2 \<le> RANGE_1MB then st
         else let a1 = (if a1 \<le> RANGE_1MB then 0 else a1)
              in if \<not> above4gb st \<and> RANGE_4GB \<le> a1 then st
                 else let a2 = (if \<not> above4gb st \<and> RANGE_4GB < a2 then RANGE_4GB else a2);
                          b1 = a2;
                          (b2, carve_hole) =
                            (if mtrr_type = MTRR_TYPE_WRBACK
                             then let (b2_limit, carve_hole) =
                                    (case next1 of
                                       None \<Rightarrow> (ALIGN_UP b1 (int_shift (nat (fls (ucast b1)))), a1 < RANGE_4GB)
                                     | Some n \<Rightarrow>
                                         if range_entry_mtrr_type n = MTRR_TYPE_UNCACHEABLE
                                         then (range_entry_end_mtrr_addr n, True)
                                         else (range_entry_base_mtrr_addr n, True))
                                  in (optimize_var_mtrr_hole total_mtrrs a1 b1 b2_limit carve_hole, carve_hole)
                             else (a2, False));
                          st1 = calc_var_mtrr_range total_mtrrs st a1 (b2 - a1) mtrr_type
                      in if carve_hole \<and> b2 \<noteq> b1
                         then calc_var_mtrr_range total_mtrrs st1 b1 (b2 - b1) MTRR_TYPE_UNCACHEABLE
                         else st1)"

subsection \<open>The end of the hole\<close>

lemma emit_mtrr_index [simp]: "mtrr_index (emit_mtrr total_mtrrs x st) = Suc (mtrr_index st)"
  by (cases x) (simp add: emit_mtrr_def prep_var_mtrr_eq)

lemma fold_emit_index: "mtrr_index (fold (emit_mtrr total_mtrrs) xs st) = mtrr_index st + length xs"
  by (induction xs arbitrary: st) simp_all

lemma calc_var_mtrr_range_index:
  "mtrr_index (calc_var_mtrr_range total_mtrrs st base sz ty) = mtrr_index st + length (mtrr_blocks base sz)"
  by (simp add: calc_var_mtrr_range_fold fold_emit_index typed_blocks_def)

text \<open>The registers spent when the range ends at \<open>e\<close> and what lies behind \<open>hole\<close> is carved out.\<close>

definition hole_cost :: "u64 \<Rightarrow> u64 \<Rightarrow> bool \<Rightarrow> u64 \<Rightarrow> nat" where
  "hole_cost base hole carve_hole e =
     length (mtrr_blocks base (e - base)) + (if carve_hole then length (mtrr_blocks hole (e - hole)) else 0)"

lemma try_alignments_cost:
  "try_alignments total_mtrrs base hole limit carve_hole (al # als) (best_count, best_end) =
     (let hole_end = ALIGN_UP hole (int_shift al); cost = hole_cost base hole carve_hole hole_end
      in if limit < hole_end then (best_count, best_end)
         else try_alignments total_mtrrs base hole limit carve_hole als
           (if cost < best_count then (cost, ucast hole_end) else (best_count, best_end)))"
  by (simp add: Let_def calc_var_mtrr_range_index hole_cost_def count_state_def)

lemma int_shift_eq: "n < 31 \<Longrightarrow> int_shift n = 2 ^ n"
proof -
  assume n: "n < 31"
  have p: "(2::int) ^ n < 2 ^ 31" using n by (intro power_strict_increasing) simp_all
  have "(2 ^ n :: u32) = word_of_int (2 ^ n)" by simp
  moreover have "sint (word_of_int (2 ^ n) :: u32) = 2 ^ n"
    using p by (intro sint_of_int_u32) (simp_all add: order_trans [of _ 0])
  ultimately have "sint (2 ^ n :: u32) = 2 ^ n" by simp
  then show ?thesis by (simp add: int_shift_def scast_u32_u64)
qed

lemma u32_round_trip: "unat (x :: u64) < 2 ^ 32 \<Longrightarrow> ucast (ucast x :: u32) = x"
proof -
  assume "unat x < 2 ^ 32"
  then have "unat (ucast x :: u32) = unat x" by (simp add: unsigned_ucast_eq take_bit_nat_eq_self)
  then show ?thesis by (intro word_eq_unatI) (simp add: unsigned_ucast_eq unsigned_take_bit_eq take_bit_nat_eq_self)
qed

lemma hole_end_facts:
  assumes "unat hole < 2 ^ 31" "al < 31"
  shows "hole \<le> ALIGN_UP hole (int_shift al) \<and> unat (ALIGN_UP hole (int_shift al)) < 2 ^ 32"
proof -
  obtain P where P: "P = (2::nat) ^ al" by blast
  have "(2::nat) ^ al \<le> 2 ^ 30" using assms(2) by (intro power_increasing) simp_all
  then have p: "P \<le> 2 ^ 30" "0 < P" unfolding P by simp_all
  have n: "unat hole + (2 ^ al - 1) < 2 ^ 64" unfolding P [symmetric] using assms(1) p by simp
  have "unat (ALIGN_UP hole (2 ^ al)) = (unat hole + (P - 1)) div P * P"
    using n assms(2) unfolding P by (subst unat_ALIGN_UP) simp_all
  moreover have "(unat hole + (P - 1)) div P * P < unat hole + P" by (rule round_up_lt [OF p(2)])
  ultimately have "unat (ALIGN_UP hole (2 ^ al)) < 2 ^ 32" using p assms(1) by simp
  moreover have "hole \<le> ALIGN_UP hole (2 ^ al)" using n assms(2) by (intro ALIGN_UP_ge) simp_all
  ultimately show ?thesis by (simp add: int_shift_eq [OF assms(2)])
qed

text \<open>An end of the hole is acceptable when it respects the limit and costs no more than no hole at all.\<close>

definition hole_ok :: "u64 \<Rightarrow> u64 \<Rightarrow> u64 \<Rightarrow> bool \<Rightarrow> u64 \<Rightarrow> bool" where
  "hole_ok base hole limit carve_hole e \<longleftrightarrow>
     hole \<le> e \<and> (e = hole \<or> e \<le> limit) \<and> unat e < 2 ^ 32 \<and>
     hole_cost base hole carve_hole e \<le> hole_cost base hole carve_hole hole"

lemma hole_end_mono:
  assumes "unat hole < 2 ^ 31" "al \<le> al'" "al' < 31"
  shows "ALIGN_UP hole (int_shift al) \<le> ALIGN_UP hole (int_shift al')"
proof -
  have eq: "unat (ALIGN_UP hole (int_shift j)) = (unat hole + (2 ^ j - 1)) div 2 ^ j * 2 ^ j" if "j < 31" for j
  proof -
    have "(2::nat) ^ j \<le> 2 ^ 30" using that by (intro power_increasing) simp_all
    then have "unat hole + (2 ^ j - 1) < 2 ^ 64" using assms(1) by simp
    then show ?thesis using that by (simp add: int_shift_eq unat_ALIGN_UP)
  qed
  let ?e = "unat (ALIGN_UP hole (int_shift al'))"
  have "2 ^ al dvd ?e" unfolding eq [OF assms(3)] by (intro dvd_mult le_imp_power_dvd assms(2))
  then obtain m where m: "?e = 2 ^ al * m" by blast
  have "hole \<le> ALIGN_UP hole (int_shift al')" using hole_end_facts [OF assms(1,3)] by blast
  then have "unat hole \<le> 2 ^ al * m" unfolding m [symmetric] by (simp add: word_le_nat_alt)
  moreover have "0 < (2::nat) ^ al" by simp
  ultimately have "unat hole + (2 ^ al - 1) < 2 ^ al * m + 2 ^ al" by linarith
  then have "(unat hole + (2 ^ al - 1)) div 2 ^ al < m + 1" by (simp add: div_less_iff_less_mult distrib_right mult.commute)
  then have "(unat hole + (2 ^ al - 1)) div 2 ^ al * 2 ^ al \<le> m * 2 ^ al" by (intro mult_le_mono1) simp
  then show ?thesis using assms(2,3) by (simp add: word_le_nat_alt eq [of al] m mult.commute)
qed

lemma try_alignments_facts:
  assumes "unat hole < 2 ^ 31" "sorted als" "\<forall>al\<in>set als. al < 31"
    and "hole_ok base hole limit carve_hole (ucast be)" "bc = hole_cost base hole carve_hole (ucast be)"
  shows "let e = ucast (snd (try_alignments total_mtrrs base hole limit carve_hole als (bc, be)))
    in hole_ok base hole limit carve_hole e \<and> hole_cost base hole carve_hole e \<le> bc \<and>
      (\<forall>al\<in>set als. ALIGN_UP hole (int_shift al) \<le> limit \<longrightarrow>
        hole_cost base hole carve_hole e \<le> hole_cost base hole carve_hole (ALIGN_UP hole (int_shift al)))"
  using assms(2-)
proof (induction als arbitrary: bc be)
  case (Cons al als)
  let ?he = "ALIGN_UP hole (int_shift al)"
  let ?c = "hole_cost base hole carve_hole"
  have al: "al < 31" using Cons.prems(2) by simp
  note he = hole_end_facts [OF assms(1) al]
  show ?case
  proof (cases "limit < ?he")
    case True
    have "\<not> ALIGN_UP hole (int_shift al') \<le> limit" if "al' \<in> set (al # als)" for al'
      using hole_end_mono [OF assms(1), of al al'] that Cons.prems(1,2) True by fastforce
    then show ?thesis using True Cons.prems(3,4) by (auto simp: try_alignments_cost Let_def simp del: try_alignments.simps)
  next
    case False
    have rt: "ucast (ucast ?he :: u32) = ?he" using he by (intro u32_round_trip) blast
    show ?thesis
    proof (cases "?c ?he < bc")
      case True
      have "hole_ok base hole limit carve_hole (ucast (ucast ?he :: u32))"
        using he False True Cons.prems(3,4) unfolding rt hole_ok_def by auto
      from Cons.IH [OF _ _ this, of "?c ?he"] Cons.prems(1,2) True False
      show ?thesis by (auto simp: try_alignments_cost Let_def rt simp del: try_alignments.simps)
    next
      case less: False
      from Cons.IH [OF _ _ Cons.prems(3,4)] Cons.prems(1,2) less False
      show ?thesis by (auto simp: try_alignments_cost Let_def simp del: try_alignments.simps)
    qed
  qed
qed (simp add: Let_def)

lemma fls_facts:
  assumes "unat hole < 2 ^ 31" "hole \<noteq> 0"
  shows "unat (word_of_int (fls (ucast hole)) :: u32) < 31" and "nat (fls (ucast hole)) < 31"
proof -
  have "unat (ucast hole :: u32) = unat hole" using assms(1) by (simp add: unsigned_ucast_eq take_bit_nat_eq_self)
  moreover have "0 < unat hole" using assms(2) by (simp add: unat_gt_0)
  moreover have "bit_length (unat hole) \<le> 31" by (rule bit_length_le [OF assms(1)])
  moreover have "0 < bit_length (unat hole)" using bit_length_bounds calculation(2) by blast
  moreover have "(ucast hole :: u32) \<noteq> 0" using calculation(1,2) by (metis less_numeral_extra(3) unsigned_0)
  ultimately obtain m where "fls (ucast hole) = int m" "m < 31" by (intro that [of "bit_length (unat hole) - 1"]) (auto simp: fls_def log2_32_def clz_def)
  moreover from this(2) have "unat (word_of_nat m :: u32) = m" by (intro unat_of_nat_lt) simp
  ultimately show "unat (word_of_int (fls (ucast hole)) :: u32) < 31" "nat (fls (ucast hole)) < 31" by simp_all
qed

lemma optimize_var_mtrr_hole_facts:
  assumes "unat hole < 2 ^ 31" "hole \<noteq> 0"
  shows "hole_ok base hole limit carve_hole (optimize_var_mtrr_hole total_mtrrs base hole limit carve_hole)"
    and "\<lbrakk>unat (word_of_int (ffs (ucast hole) + 1) :: u32) \<le> al; al \<le> unat (word_of_int (fls (ucast hole)) :: u32);
      ALIGN_UP hole (int_shift al) \<le> limit\<rbrakk> \<Longrightarrow>
      hole_cost base hole carve_hole (optimize_var_mtrr_hole total_mtrrs base hole limit carve_hole) \<le>
      hole_cost base hole carve_hole (ALIGN_UP hole (int_shift al))"
proof -
  define als where "als = [unat (word_of_int (ffs (ucast hole) + 1) :: u32)..<Suc (unat (word_of_int (fls (ucast hole)) :: u32))]"
  let ?opt = "optimize_var_mtrr_hole total_mtrrs base hole limit carve_hole" and ?bc = "hole_cost base hole carve_hole (ucast (ucast hole :: u32))"
  have rt: "ucast (ucast hole :: u32) = hole" using assms(1) by (intro u32_round_trip) simp
  have ok: "hole_ok base hole limit carve_hole (ucast (ucast hole :: u32))" using assms(1) unfolding rt hole_ok_def by simp
  have so: "sorted als" "\<forall>al\<in>set als. al < 31" using fls_facts(1) [OF assms] unfolding als_def by (auto simp del: upt_Suc)
  have "mtrr_index (calc_var_mtrr_range total_mtrrs count_state base (hole - base) 0) = ?bc"
    unfolding rt by (simp add: calc_var_mtrr_range_index count_state_def hole_cost_def)
  then have "?opt = ucast (snd (try_alignments total_mtrrs base hole limit carve_hole als (?bc, ucast hole)))"
    by (simp only: optimize_var_mtrr_hole_def Let_def als_def)
  note f = try_alignments_facts [OF assms(1) so ok refl, of total_mtrrs, unfolded Let_def, folded this]
  show "hole_ok base hole limit carve_hole ?opt" using f by blast
  show "hole_cost base hole carve_hole ?opt \<le> hole_cost base hole carve_hole (ALIGN_UP hole (int_shift al))"
    if "unat (word_of_int (ffs (ucast hole) + 1) :: u32) \<le> al" "al \<le> unat (word_of_int (fls (ucast hole)) :: u32)"
      "ALIGN_UP hole (int_shift al) \<le> limit"
  proof -
    have "al \<in> set als" using that(1,2) unfolding als_def by (simp del: upt_Suc)
    with f that(3) show ?thesis by blast
  qed
qed


subsection \<open>The registers of one range\<close>

text \<open>
  The limits \<open>(a1, b1, b2, carve_hole)\<close> that \<^verbatim>\<open>calc_var_mtrrs_with_hole\<close> settles on: the range type is set
  from \<open>a1\<close> up to \<open>b2\<close>, the hole from \<open>b1\<close> to \<open>b2\<close> is uncacheable when it is carved out.
\<close>

definition hole_limit :: "u64 \<Rightarrow> u64 \<Rightarrow> range_entry option \<Rightarrow> u64 \<times> bool" where
  "hole_limit a1 b1 next1 =
     (case next1 of
        None \<Rightarrow> (ALIGN_UP b1 (int_shift (nat (fls (ucast b1)))), a1 < RANGE_4GB)
      | Some n \<Rightarrow>
          if range_entry_mtrr_type n = MTRR_TYPE_UNCACHEABLE then (range_entry_end_mtrr_addr n, True)
          else (range_entry_base_mtrr_addr n, True))"

definition range_limits :: "nat \<Rightarrow> bool \<Rightarrow> range_entry \<Rightarrow> range_entry option \<Rightarrow> (u64 \<times> u64 \<times> u64 \<times> bool) option" where
  "range_limits total_mtrrs high r next1 =
     (let a1 = (if range_entry_base_mtrr_addr r \<le> RANGE_1MB then 0 else range_entry_base_mtrr_addr r);
          b1 = (if \<not> high \<and> RANGE_4GB < range_entry_end_mtrr_addr r then RANGE_4GB else range_entry_end_mtrr_addr r)
      in if range_entry_end_mtrr_addr r \<le> RANGE_1MB \<or> \<not> high \<and> RANGE_4GB \<le> a1 then None
         else if range_entry_mtrr_type r = MTRR_TYPE_WRBACK
           then (case hole_limit a1 b1 next1 of (limit, carve) \<Rightarrow>
                   Some (a1, b1, optimize_var_mtrr_hole total_mtrrs a1 b1 limit carve, carve))
           else Some (a1, b1, b1, False))"

definition range_plan :: "nat \<Rightarrow> bool \<Rightarrow> range_entry \<Rightarrow> range_entry option \<Rightarrow> (u64 \<times> u64 \<times> u32) list" where
  "range_plan total_mtrrs high r next1 =
     (case range_limits total_mtrrs high r next1 of
        None \<Rightarrow> []
      | Some (a1, b1, b2, carve) \<Rightarrow>
          typed_blocks a1 (b2 - a1) (range_entry_mtrr_type r) @
          (if carve \<and> b2 \<noteq> b1 then typed_blocks b1 (b2 - b1) MTRR_TYPE_UNCACHEABLE else []))"

lemma typed_blocks_0 [simp]: "typed_blocks base 0 ty = []"
  by (simp add: typed_blocks_def)

lemma calc_var_mtrrs_with_hole_plan:
  "calc_var_mtrrs_with_hole total_mtrrs st r next1 = fold (emit_mtrr total_mtrrs) (range_plan total_mtrrs (above4gb st) r next1) st"
proof -
  define a1 where "a1 = (if range_entry_base_mtrr_addr r \<le> RANGE_1MB then 0 else range_entry_base_mtrr_addr r)"
  define b1 where "b1 = (if \<not> above4gb st \<and> RANGE_4GB < range_entry_end_mtrr_addr r then RANGE_4GB else range_entry_end_mtrr_addr r)"
  obtain limit carve where l: "hole_limit a1 b1 next1 = (limit, carve)" by fastforce
  show ?thesis
    unfolding calc_var_mtrrs_with_hole_def range_plan_def range_limits_def Let_def a1_def [symmetric] b1_def [symmetric]
      calc_var_mtrr_range_fold hole_limit_def [symmetric] l prod.case
    by simp
qed

subsection \<open>The pages of a range\<close>

text \<open>
  What the theorems assume of an address space: its ranges are sorted and apart, consist of whole pages and
  lie below the width of physical addresses, and no write-back range ends above 8 TiB, where the 32-bit
  arithmetic on page numbers would not do.
\<close>

definition page_begin :: "range_entry \<Rightarrow> nat" where
  "page_begin r = unat (r_begin r) div 2 ^ 12"

definition page_end :: "range_entry \<Rightarrow> nat" where
  "page_end r = (unat (r_end r) + 1) div 2 ^ 12"

definition mtrr_space_ok :: "nat \<Rightarrow> range_entry list \<Rightarrow> bool" where
  "mtrr_space_ok width es \<longleftrightarrow>
     ranges_ok es \<and> 33 \<le> width \<and> width \<le> 52 \<and>
     (\<forall>r\<in>set es. 2 ^ 12 dvd unat (r_begin r) \<and> 2 ^ 12 dvd unat (r_end r) + 1 \<and> unat (r_end r) < 2 ^ width \<and>
        (range_entry_mtrr_type r = MTRR_TYPE_WRBACK \<longrightarrow> unat (r_end r) + 1 < 2 ^ 43))"

lemma entry_pages:
  assumes "unat (r_end r) < 2 ^ 52"
  shows "unat (range_entry_base_mtrr_addr r) = page_begin r" and "unat (range_entry_end_mtrr_addr r) = page_end r"
proof -
  show "unat (range_entry_base_mtrr_addr r) = page_begin r"
    by (simp only: range_entry_base_mtrr_addr_def range_entry_base_def unat_page page_begin_def)
  have "r_end r \<noteq> - 1" using assms by (auto simp: word_neq_max_unat)
  then show "unat (range_entry_end_mtrr_addr r) = page_end r"
    unfolding range_entry_end_mtrr_addr_def range_entry_end_def unat_page page_end_def unat_plus_one [OF \<open>r_end r \<noteq> - 1\<close>] by simp
qed

lemma in_range_pages:
  assumes "2 ^ 12 dvd unat (r_begin r)" "2 ^ 12 dvd unat (r_end r) + 1"
  shows "r_begin r \<le> x \<and> x \<le> r_end r \<longleftrightarrow> page_begin r \<le> unat x div 2 ^ 12 \<and> unat x div 2 ^ 12 < page_end r"
proof -
  obtain b e where be: "unat (r_begin r) = 2 ^ 12 * b" "unat (r_end r) + 1 = 2 ^ 12 * e" using assms by (metis dvdE)
  have p: "page_begin r = b" "page_end r = e" unfolding page_begin_def page_end_def be by simp_all
  have "r_begin r \<le> x \<longleftrightarrow> b \<le> unat x div 2 ^ 12" unfolding word_le_nat_alt be(1) by (simp add: less_eq_div_iff_mult_less_eq mult.commute)
  moreover have "x \<le> r_end r \<longleftrightarrow> unat x < 2 ^ 12 * e" unfolding word_le_nat_alt be(2) [symmetric] by (simp add: less_Suc_eq_le)
  moreover have "unat x < 2 ^ 12 * e \<longleftrightarrow> unat x div 2 ^ 12 < e" by (simp add: div_less_iff_less_mult mult.commute)
  ultimately show ?thesis unfolding p by simp
qed

lemma page_bounds:
  assumes "mtrr_space_ok width es" "r \<in> set es"
  shows "page_begin r < page_end r" "page_end r \<le> 2 ^ (width - 12)" "unat (range_entry_base_mtrr_addr r) = page_begin r"
    "unat (range_entry_end_mtrr_addr r) = page_end r"
    "range_entry_mtrr_type r = MTRR_TYPE_WRBACK \<Longrightarrow> page_end r < 2 ^ 31"
proof -
  have ok: "2 ^ 12 dvd unat (r_begin r)" "2 ^ 12 dvd unat (r_end r) + 1" "unat (r_end r) < 2 ^ width" "r_begin r \<le> r_end r"
    "range_entry_mtrr_type r = MTRR_TYPE_WRBACK \<Longrightarrow> unat (r_end r) + 1 < 2 ^ 43" and w: "33 \<le> width" "width \<le> 52"
    using assms by (auto simp: mtrr_space_ok_def ranges_ok_def)
  show "page_begin r < page_end r" using in_range_pages [OF ok(1,2), of "r_begin r"] ok(4) by (auto simp: page_begin_def)
  have "unat (r_end r) + 1 \<le> 2 ^ width" using ok(3) by linarith
  also have "(2::nat) ^ width = 2 ^ (width - 12) * 2 ^ 12" using w by (simp only: power_add [symmetric] le_add_diff_inverse2)
  finally show "page_end r \<le> 2 ^ (width - 12)" unfolding page_end_def by (simp add: div_le_mono order_trans [OF div_le_mono])
  have "(2::nat) ^ width \<le> 2 ^ 52" using w by (intro power_increasing) simp_all
  then have "unat (r_end r) < 2 ^ 52" using ok(3) by linarith
  from entry_pages [OF this] show "unat (range_entry_base_mtrr_addr r) = page_begin r"
    "unat (range_entry_end_mtrr_addr r) = page_end r" .
  show "page_end r < 2 ^ 31" if "range_entry_mtrr_type r = MTRR_TYPE_WRBACK"
    using ok(5) [OF that] unfolding page_end_def by (simp add: div_less_iff_less_mult)
qed

lemma pages_sorted:
  assumes "mtrr_space_ok width (ps @ r # ns)" "q \<in> set ns"
  shows "page_end r \<le> page_begin q"
proof -
  have "unat (r_end r) + 1 \<le> unat (r_begin q)"
    using assms by (auto simp: mtrr_space_ok_def ranges_ok_def sorted_wrt_append word_less_nat_alt)
  then show ?thesis unfolding page_end_def page_begin_def by (rule div_le_mono)
qed


text \<open>The page addresses of a plan that carry a type.\<close>

definition covers :: "(u64 \<times> u64 \<times> u32) list \<Rightarrow> u64 \<Rightarrow> u32 \<Rightarrow> bool" where
  "covers plan p t \<longleftrightarrow> (\<exists>b s. (b, s, t) \<in> set plan \<and> in_block b s p)"

lemma covers_Nil [simp]: "\<not> covers [] p t"
  by (simp add: covers_def)

lemma covers_append: "covers (xs @ ys) p t \<longleftrightarrow> covers xs p t \<or> covers ys p t"
  by (auto simp: covers_def)

lemma covers_typed_blocks:
  assumes "unat a \<le> unat b" "unat b < 2 ^ 64"
  shows "covers (typed_blocks a (b - a) ty) p t \<longleftrightarrow> t = ty \<and> unat a \<le> unat p \<and> unat p < unat b"
proof -
  have d: "unat (b - a) = unat b - unat a" using assms(1) by (intro unat_sub_no_wrap) (simp add: word_le_nat_alt)
  have "covers (typed_blocks a (b - a) ty) p t \<longleftrightarrow> t = ty \<and> (\<exists>(b', s)\<in>set (mtrr_blocks a (b - a)). in_block b' s p)"
    by (force simp: covers_def typed_blocks_def)
  also have "(\<exists>(b', s)\<in>set (mtrr_blocks a (b - a)). in_block b' s p) \<longleftrightarrow> in_block a (b - a) p"
    by (rule mtrr_blocks_cover) (use assms d in simp)
  finally show ?thesis using assms(1) d by (simp add: in_block_def word_le_nat_alt)
qed

lemma align_up_fls:
  assumes "unat hole < 2 ^ 31" "hole \<noteq> 0" "unat hole \<le> 2 ^ w"
  shows "unat (ALIGN_UP hole (int_shift (nat (fls (ucast hole))))) \<le> 2 ^ w"
proof -
  have u: "unat (ucast hole :: u32) = unat hole" using assms(1) by (simp add: unsigned_ucast_eq take_bit_nat_eq_self)
  have pos: "0 < unat hole" using assms(2) by (simp add: unat_gt_0)
  then have "(ucast hole :: u32) \<noteq> 0" using u by (metis less_numeral_extra(3) unsigned_0)
  then have fl: "nat (fls (ucast hole)) = bit_length (unat hole) - 1" by (simp add: fls_def log2_32_def clz_def u)
  define m where "m = bit_length (unat hole) - 1"
  have m: "2 ^ m \<le> unat hole" "unat hole < 2 ^ Suc m" using bit_length_bounds [OF pos] unfolding m_def by auto
  have m31: "m < 31" using fls_facts(2) [OF assms(1,2)] unfolding fl m_def .
  obtain P where P: "P = (2::nat) ^ m" by blast
  have "(2::nat) ^ m \<le> 2 ^ 30" using m31 by (intro power_increasing) simp_all
  then have "unat hole + (2 ^ m - 1) < 2 ^ 64" using assms(1) by simp
  then have e: "unat (ALIGN_UP hole (int_shift m)) = (unat hole + (P - 1)) div P * P"
    using m31 unfolding P by (simp add: int_shift_eq unat_ALIGN_UP)
  have p: "0 < P" unfolding P by simp
  show ?thesis
  proof (cases "unat hole = P")
    case True
    then have "(unat hole + (P - 1)) div P = 1" using p by (simp add: div_nat_eqI)
    then show ?thesis using assms(3) True e unfolding fl m_def [symmetric] by simp
  next
    case False
    then have "(2::nat) ^ m < 2 ^ w" using m(1) assms(3) unfolding P by linarith
    then have "Suc m \<le> w" by simp
    then have pw: "(2::nat) ^ Suc m \<le> 2 ^ w" by (intro power_increasing) simp_all
    have "(unat hole + (P - 1)) div P * P < unat hole + P" by (rule round_up_lt [OF p])
    moreover have "unat hole < 2 * P" using m(2) unfolding P by simp
    ultimately have "(unat hole + (P - 1)) div P * P < 3 * P" by linarith
    then have "(unat hole + (P - 1)) div P < 3" using p by simp
    then have "(unat hole + (P - 1)) div P * P \<le> 2 * P" by (intro mult_le_mono1) simp
    moreover have "2 * P \<le> 2 ^ w" using pw unfolding P by simp
    ultimately show ?thesis using e unfolding fl m_def [symmetric] by linarith
  qed
qed

text \<open>Where the hole behind a range may reach: never into a range that is not uncacheable.\<close>

lemma range_limits_facts:
  assumes ok: "mtrr_space_ok width (ps @ r # ns)"
    and lim: "range_limits total_mtrrs high r (case ns of [] \<Rightarrow> None | n # _ \<Rightarrow> Some n) = Some (a1, b1, b2, carve)"
  shows "unat a1 = (if page_begin r \<le> 2 ^ 8 then 0 else page_begin r)"
    and "unat b1 = (if \<not> high \<and> 2 ^ 20 < page_end r then 2 ^ 20 else page_end r)"
    and "b1 \<le> b2" "unat a1 < unat b1" "unat b2 \<le> 2 ^ (width - 12)"
    and "range_entry_mtrr_type r \<noteq> MTRR_TYPE_WRBACK \<Longrightarrow> b2 = b1 \<and> \<not> carve"
    and "q \<in> set ns \<Longrightarrow> page_begin q \<le> n \<Longrightarrow> n < page_end q \<Longrightarrow> unat b1 \<le> n \<Longrightarrow> n < unat b2 \<Longrightarrow> high \<or> n < 2 ^ 20 \<Longrightarrow>
      carve \<and> range_entry_mtrr_type q = MTRR_TYPE_UNCACHEABLE"
    and "b2 \<noteq> b1 \<Longrightarrow> \<not> carve \<Longrightarrow> ns = [] \<and> 2 ^ 20 \<le> unat a1"
proof -
  have r: "r \<in> set (ps @ r # ns)" by simp
  note pg = page_bounds [OF ok r]
  define A1 where "A1 = (if range_entry_base_mtrr_addr r \<le> RANGE_1MB then 0 else range_entry_base_mtrr_addr r)"
  define B1 where "B1 = (if \<not> high \<and> RANGE_4GB < range_entry_end_mtrr_addr r then RANGE_4GB else range_entry_end_mtrr_addr r)"
  have g: "unat RANGE_4GB = 2 ^ 20" "unat RANGE_1MB = 2 ^ 8" by (simp_all add: RANGE_4GB_def RANGE_1MB_def)
  let ?next = "case ns of [] \<Rightarrow> None | n # _ \<Rightarrow> Some n"
  obtain limit cv where hl: "hole_limit A1 B1 ?next = (limit, cv)" by fastforce
  note lim' = lim [unfolded range_limits_def Let_def A1_def [symmetric] B1_def [symmetric] hl prod.case]
  have nz: "\<not> (range_entry_end_mtrr_addr r \<le> RANGE_1MB)" "\<not> (\<not> high \<and> RANGE_4GB \<le> A1)" using lim' by (auto split: if_splits)
  have ab: "a1 = A1" "b1 = B1" using lim' by (auto split: if_splits)
  have e8: "2 ^ 8 < page_end r" using nz(1) unfolding word_le_nat_alt pg(4) g by simp
  show a1: "unat a1 = (if page_begin r \<le> 2 ^ 8 then 0 else page_begin r)"
    unfolding ab A1_def word_le_nat_alt pg(3) g by (simp add: pg(3))
  show b1: "unat b1 = (if \<not> high \<and> 2 ^ 20 < page_end r then 2 ^ 20 else page_end r)"
    unfolding ab B1_def word_less_nat_alt pg(4) g by (simp add: pg(4) g)
  have "high \<or> unat a1 < 2 ^ 20" using nz(2) unfolding ab word_le_nat_alt g by linarith
  then show a1b1: "unat a1 < unat b1" using a1 b1 e8 pg(1) by (auto split: if_splits)
  have w: "33 \<le> width" "width \<le> 52" using ok by (simp_all add: mtrr_space_ok_def)
  have "(2::nat) ^ 20 \<le> 2 ^ (width - 12)" using w by (intro power_increasing) simp_all
  then have bw: "unat b1 \<le> 2 ^ (width - 12)" using b1 pg(2) by (auto split: if_splits)
  have lw: "unat limit \<le> 2 ^ (width - 12)" if "unat b1 < 2 ^ 31"
  proof (cases ns)
    case Nil
    then have "limit = ALIGN_UP b1 (int_shift (nat (fls (ucast b1))))" using hl ab by (simp add: hole_limit_def)
    moreover have "b1 \<noteq> 0" using a1b1 by auto
    ultimately show ?thesis using align_up_fls [OF that _ bw] by simp
  next
    case (Cons m ms)
    then have "mtrr_space_ok width ((ps @ [r]) @ m # ms)" using ok by simp
    note pm = page_bounds [OF this, of m]
    have "unat limit \<le> page_end m" using hl Cons pm(1,3,4) by (auto simp: hole_limit_def split: if_splits)
    then show ?thesis using pm(2) by simp
  qed
  consider (wb) "range_entry_mtrr_type r = MTRR_TYPE_WRBACK" "b2 = optimize_var_mtrr_hole total_mtrrs a1 b1 limit carve" "carve = cv"
    | (other) "range_entry_mtrr_type r \<noteq> MTRR_TYPE_WRBACK" "b2 = b1" "\<not> carve"
  proof (cases "range_entry_mtrr_type r = MTRR_TYPE_WRBACK")
    case True
    then have "b2 = optimize_var_mtrr_hole total_mtrrs a1 b1 limit carve" "carve = cv"
      using lim' nz unfolding ab by auto
    with True wb show thesis by blast
  next
    case False
    then have "b2 = b1" "\<not> carve" using lim' nz unfolding ab by simp_all
    with False other show thesis by blast
  qed
  then have "b1 \<le> b2 \<and> unat b2 \<le> 2 ^ (width - 12) \<and> (range_entry_mtrr_type r \<noteq> MTRR_TYPE_WRBACK \<longrightarrow> b2 = b1 \<and> \<not> carve) \<and>
    (b2 = b1 \<or> b2 \<le> limit \<and> carve = cv)"
  proof cases
    case wb
    have b31: "unat b1 < 2 ^ 31" using pg(5) [OF wb(1)] b1 by (auto split: if_splits)
    moreover have "b1 \<noteq> 0" using a1b1 by auto
    ultimately have "hole_ok a1 b1 limit carve b2" unfolding wb(2) by (rule optimize_var_mtrr_hole_facts(1))
    then have h: "b1 \<le> b2" "b2 = b1 \<or> b2 \<le> limit" unfolding hole_ok_def by blast+
    moreover have "unat b2 \<le> 2 ^ (width - 12)" using h(2) bw lw [OF b31] by (auto simp: word_le_nat_alt)
    ultimately show ?thesis using wb by auto
  next
    case other then show ?thesis using bw by simp
  qed
  then have b2: "b1 \<le> b2" "unat b2 \<le> 2 ^ (width - 12)" "range_entry_mtrr_type r \<noteq> MTRR_TYPE_WRBACK \<Longrightarrow> b2 = b1 \<and> \<not> carve"
    "b2 = b1 \<or> b2 \<le> limit \<and> carve = cv" by blast+
  show "b1 \<le> b2" "unat b2 \<le> 2 ^ (width - 12)" "range_entry_mtrr_type r \<noteq> MTRR_TYPE_WRBACK \<Longrightarrow> b2 = b1 \<and> \<not> carve"
    by (fact b2)+
  show "ns = [] \<and> 2 ^ 20 \<le> unat a1" if "b2 \<noteq> b1" "\<not> carve"
    using that b2(4) hl g unfolding hole_limit_def ab
    by (auto simp: word_less_nat_alt not_less split: list.splits if_splits)
  show "carve \<and> range_entry_mtrr_type q = MTRR_TYPE_UNCACHEABLE"
    if q: "q \<in> set ns" "page_begin q \<le> n" "n < page_end q" "unat b1 \<le> n" "n < unat b2" "high \<or> n < 2 ^ 20"
  proof -
    have ne: "b2 \<noteq> b1" using q(4,5) by auto
    obtain m ms where ns: "ns = m # ms" using q(1) by (cases ns) auto
    have okm: "mtrr_space_ok width ((ps @ [r]) @ m # ms)" using ok ns by simp
    note pm = page_bounds [OF okm, of m]
    have far: "page_end m \<le> page_begin q" if "q \<in> set ms" using pages_sorted [OF okm that] .
    have le: "unat b2 \<le> unat limit" using b2(4) ne by (simp add: word_le_nat_alt)
    show ?thesis
    proof (cases "range_entry_mtrr_type m = MTRR_TYPE_UNCACHEABLE")
      case True
      then have "limit = range_entry_end_mtrr_addr m" "cv" using hl ns by (auto simp: hole_limit_def)
      then have "unat b2 \<le> page_end m" using le pm(4) by simp
      then have "q \<notin> set ms" using far q(2,5) by linarith
      then show ?thesis using q(1) ns True b2(4) ne \<open>cv\<close> by auto
    next
      case False
      then have "limit = range_entry_base_mtrr_addr m" using hl ns by (auto simp: hole_limit_def)
      then have "unat b2 \<le> page_begin m" using le pm(3) by simp
      moreover have "page_begin m \<le> page_begin q" using q(1) ns far pm(1) by fastforce
      ultimately show ?thesis using q(2,5) by linarith
    qed
  qed
qed

lemma range_limits_None:
  assumes ok: "mtrr_space_ok width es" "r \<in> set es" and "range_limits total_mtrrs high r next1 = None"
  shows "page_end r \<le> 2 ^ 8 \<or> \<not> high \<and> 2 ^ 20 \<le> page_begin r"
proof -
  note pg = page_bounds [OF ok]
  have g: "unat RANGE_4GB = 2 ^ 20" "unat RANGE_1MB = 2 ^ 8" by (simp_all add: RANGE_4GB_def RANGE_1MB_def)
  define a1 where "a1 = (if range_entry_base_mtrr_addr r \<le> RANGE_1MB then 0 else range_entry_base_mtrr_addr r)"
  have "range_entry_end_mtrr_addr r \<le> RANGE_1MB \<or> \<not> high \<and> RANGE_4GB \<le> a1"
    using assms(3) unfolding range_limits_def Let_def a1_def [symmetric] by (auto split: if_splits prod.splits)
  moreover have "RANGE_4GB \<le> a1 \<Longrightarrow> 2 ^ 20 \<le> page_begin r"
    unfolding a1_def word_le_nat_alt pg(3) g by (auto simp: pg(3) split: if_splits)
  moreover have "range_entry_end_mtrr_addr r \<le> RANGE_1MB \<Longrightarrow> page_end r \<le> 2 ^ 8" unfolding word_le_nat_alt pg(4) g .
  ultimately show ?thesis by blast
qed

text \<open>What the registers of one range say about a page.\<close>

lemma range_plan_covers:
  fixes total_mtrrs :: nat
  assumes ok: "mtrr_space_ok width (ps @ r # ns)" and p: "2 ^ 8 \<le> unat p" "high \<or> unat p < 2 ^ 20"
  defines "plan \<equiv> range_plan total_mtrrs high r (case ns of [] \<Rightarrow> None | n # _ \<Rightarrow> Some n)"
  shows "page_begin r \<le> unat p \<Longrightarrow> unat p < page_end r \<Longrightarrow> covers plan p t \<longleftrightarrow> t = range_entry_mtrr_type r"
    and "\<not> (page_begin r \<le> unat p \<and> unat p < page_end r) \<Longrightarrow> covers plan p t \<Longrightarrow>
      range_entry_mtrr_type r = MTRR_TYPE_WRBACK \<and> page_end r \<le> unat p \<and> t \<in> {MTRR_TYPE_WRBACK, MTRR_TYPE_UNCACHEABLE} \<and>
      (ns \<noteq> [] \<longrightarrow> covers plan p MTRR_TYPE_UNCACHEABLE) \<and>
      (\<forall>q\<in>set ns. page_begin q \<le> unat p \<and> unat p < page_end q \<longrightarrow> range_entry_mtrr_type q = MTRR_TYPE_UNCACHEABLE)"
proof -
  let ?next = "case ns of [] \<Rightarrow> None | n # _ \<Rightarrow> Some n"
  have r: "r \<in> set (ps @ r # ns)" by simp
  have "(page_begin r \<le> unat p \<and> unat p < page_end r \<longrightarrow> (covers plan p t \<longleftrightarrow> t = range_entry_mtrr_type r)) \<and>
    (\<not> (page_begin r \<le> unat p \<and> unat p < page_end r) \<and> covers plan p t \<longrightarrow>
      range_entry_mtrr_type r = MTRR_TYPE_WRBACK \<and> page_end r \<le> unat p \<and> t \<in> {MTRR_TYPE_WRBACK, MTRR_TYPE_UNCACHEABLE} \<and>
      (ns \<noteq> [] \<longrightarrow> covers plan p MTRR_TYPE_UNCACHEABLE) \<and>
      (\<forall>q\<in>set ns. page_begin q \<le> unat p \<and> unat p < page_end q \<longrightarrow> range_entry_mtrr_type q = MTRR_TYPE_UNCACHEABLE))"
  proof (cases "range_limits total_mtrrs high r ?next")
    case None
    then have "plan = []" by (simp add: plan_def range_plan_def)
    moreover have "\<not> (page_begin r \<le> unat p \<and> unat p < page_end r)"
      using range_limits_None [OF ok r None] p by linarith
    ultimately show ?thesis by auto
  next
    case (Some l)
    obtain a1 b1 b2 carve where l: "l = (a1, b1, b2, carve)" by (cases l)
    note f = range_limits_facts [OF ok Some [unfolded l]]
    have le: "unat b1 \<le> unat b2" using f(3) by (simp add: word_le_nat_alt)
    have b64: "unat b2 < 2 ^ 64" using unat_lt_64 [of b2] by simp
    have plan: "plan = typed_blocks a1 (b2 - a1) (range_entry_mtrr_type r) @
        (if carve \<and> b2 \<noteq> b1 then typed_blocks b1 (b2 - b1) MTRR_TYPE_UNCACHEABLE else [])"
      by (simp add: plan_def range_plan_def Some l)
    have c: "covers plan p t \<longleftrightarrow> t = range_entry_mtrr_type r \<and> unat a1 \<le> unat p \<and> unat p < unat b2 \<or>
        carve \<and> t = MTRR_TYPE_UNCACHEABLE \<and> unat b1 \<le> unat p \<and> unat p < unat b2" for t
    proof -
      have "unat a1 \<le> unat b2" using f(4) le by linarith
      note c1 = covers_typed_blocks [OF this b64] and c2 = covers_typed_blocks [OF le b64]
      show ?thesis unfolding plan covers_append c1 using c2 by (cases "b2 = b1") auto
    qed
    show ?thesis
    proof (intro conjI impI)
      assume "page_begin r \<le> unat p \<and> unat p < page_end r"
      then have "unat a1 \<le> unat p" "unat p < unat b1" using f(1,2) p by (auto split: if_splits)
      then show "covers plan p t \<longleftrightarrow> t = range_entry_mtrr_type r" unfolding c using le by auto
    next
      assume "\<not> (page_begin r \<le> unat p \<and> unat p < page_end r) \<and> covers plan p t"
      then have out: "\<not> (page_begin r \<le> unat p \<and> unat p < page_end r)" and cov: "covers plan p t" by blast+
      have ap: "unat a1 \<le> unat p" and pb2: "unat p < unat b2" using cov f(4) unfolding c by auto
      have bp: "unat b1 \<le> unat p"
      proof (rule ccontr)
        assume "\<not> unat b1 \<le> unat p"
        then show False using out ap f(1,2) p(1) by (auto split: if_splits)
      qed
      then have ne: "b2 \<noteq> b1" using pb2 by auto
      have wb: "range_entry_mtrr_type r = MTRR_TYPE_WRBACK" using f(6) ne by blast
      then show "range_entry_mtrr_type r = MTRR_TYPE_WRBACK" .
      show "page_end r \<le> unat p" using bp f(2) p(2) by (auto split: if_splits)
      show "t \<in> {MTRR_TYPE_WRBACK, MTRR_TYPE_UNCACHEABLE}" using cov wb unfolding c by auto
      show "covers plan p MTRR_TYPE_UNCACHEABLE" if "ns \<noteq> []" unfolding c using f(8) ne that bp pb2 by blast
      show "\<forall>q\<in>set ns. page_begin q \<le> unat p \<and> unat p < page_end q \<longrightarrow> range_entry_mtrr_type q = MTRR_TYPE_UNCACHEABLE"
        using f(7) bp pb2 p(2) by blast
    qed
  qed
  then show "page_begin r \<le> unat p \<Longrightarrow> unat p < page_end r \<Longrightarrow> covers plan p t \<longleftrightarrow> t = range_entry_mtrr_type r"
    "\<not> (page_begin r \<le> unat p \<and> unat p < page_end r) \<Longrightarrow> covers plan p t \<Longrightarrow>
      range_entry_mtrr_type r = MTRR_TYPE_WRBACK \<and> page_end r \<le> unat p \<and> t \<in> {MTRR_TYPE_WRBACK, MTRR_TYPE_UNCACHEABLE} \<and>
      (ns \<noteq> [] \<longrightarrow> covers plan p MTRR_TYPE_UNCACHEABLE) \<and>
      (\<forall>q\<in>set ns. page_begin q \<le> unat p \<and> unat p < page_end q \<longrightarrow> range_entry_mtrr_type q = MTRR_TYPE_UNCACHEABLE)"
    by blast+
qed


subsection \<open>The solution for an address space\<close>

text \<open>\<^verbatim>\<open>memranges_each_entry\<close>: the body sees each entry with the one that follows it.\<close>

fun each_entry :: "(range_entry \<Rightarrow> range_entry option \<Rightarrow> 's \<Rightarrow> 's) \<Rightarrow> range_entry list \<Rightarrow> 's \<Rightarrow> 's" where
  "each_entry f [] s = s"
| "each_entry f (r # ns) s = each_entry f ns (f r (case ns of [] \<Rightarrow> None | n # _ \<Rightarrow> Some n) s)"

record var_mtrr_solution =
  mtrr_default_type :: u32
  num_used :: nat
  sol_regs :: "var_mtrr_regs list"

text \<open>
  The counts of registers with write-back and with uncacheable as the default type. \<open>regs\<close> is not
  touched, as \<open>prepare_msrs\<close> is off.
\<close>

definition count_var_mtrrs :: "nat \<Rightarrow> range_entry list \<Rightarrow> bool \<Rightarrow> nat \<Rightarrow> nat \<times> nat" where
  "count_var_mtrrs total_mtrrs addr_space high bits =
     each_entry (\<lambda>r next1 (wb_deftype_count, uc_deftype_count).
         let mtrr_type = range_entry_mtrr_type r;
             st = \<lparr>above4gb = high, address_bits = bits, prepare_msrs = False, mtrr_index = 0, regs = []\<rparr>;
             uc = (if mtrr_type \<noteq> MTRR_TYPE_UNCACHEABLE
                   then uc_deftype_count + mtrr_index (calc_var_mtrrs_with_hole total_mtrrs st r next1)
                   else uc_deftype_count);
             wb = (if mtrr_type \<noteq> MTRR_TYPE_WRBACK
                   then wb_deftype_count + mtrr_index (calc_var_mtrrs_with_hole total_mtrrs st r next1)
                   else wb_deftype_count)
         in (wb, uc)) addr_space (0, 0)"

definition get_os_reserved_mtrrs :: "bool \<Rightarrow> nat" where
  "get_os_reserved_mtrrs config_reserve = (if config_reserve then 2 else 0)"

definition calc_var_mtrrs :: "bool \<Rightarrow> nat \<Rightarrow> memranges \<Rightarrow> bool \<Rightarrow> nat \<Rightarrow> u32 \<times> memranges" where
  "calc_var_mtrrs config_reserve total_mtrrs addr_space high bits =
     (let (wb, uc) = count_var_mtrrs total_mtrrs (entries addr_space) high bits;
          bios_mtrrs = int total_mtrrs - int (get_os_reserved_mtrrs config_reserve);
          (wb, uc, addr_space) =
            (if bios_mtrrs < int wb \<and> bios_mtrrs < int uc
             then let addr_space = memranges_update_tag addr_space (ucast MTRR_TYPE_WRCOMB) (ucast MTRR_TYPE_UNCACHEABLE);
                      (wb, uc) = count_var_mtrrs total_mtrrs (entries addr_space) high bits
                  in (wb, uc, addr_space)
             else (wb, uc, addr_space))
      in (if wb < uc then MTRR_TYPE_WRBACK else MTRR_TYPE_UNCACHEABLE, addr_space))"

definition prepare_var_mtrrs ::
  "nat \<Rightarrow> range_entry list \<Rightarrow> u32 \<Rightarrow> bool \<Rightarrow> nat \<Rightarrow> var_mtrr_solution \<Rightarrow> var_mtrr_solution" where
  "prepare_var_mtrrs total_mtrrs addr_space def_type high bits sol =
     (let st = each_entry (\<lambda>r next1 st.
                   if range_entry_mtrr_type r = def_type then st
                   else calc_var_mtrrs_with_hole total_mtrrs st r next1)
                 addr_space
                 \<lparr>above4gb = high, address_bits = bits, prepare_msrs = True, mtrr_index = 0, regs = sol_regs sol\<rparr>
      in sol\<lparr>sol_regs := regs st, num_used := mtrr_index st\<rparr>)"

text \<open>
  The memory type of an address under a default type and a list of registers. When registers overlap,
  uncacheable wins, write-through wins over write-back, and any other combination is undefined.
\<close>

definition combine_types :: "u32 \<Rightarrow> u32 list \<Rightarrow> u32 option" where
  "combine_types def_type ts =
     (if ts = [] then Some def_type
      else if \<forall>t\<in>set ts. t = hd ts then Some (hd ts)
      else if MTRR_TYPE_UNCACHEABLE \<in> set ts then Some MTRR_TYPE_UNCACHEABLE
      else if set ts \<subseteq> {MTRR_TYPE_WRTHROUGH, MTRR_TYPE_WRBACK} then Some MTRR_TYPE_WRTHROUGH
      else None)"

definition memory_type :: "nat \<Rightarrow> u32 \<Rightarrow> var_mtrr_regs list \<Rightarrow> addr \<Rightarrow> u32 option" where
  "memory_type width def_type rs x = combine_types def_type (map var_mtrr_type (filter (\<lambda>r. var_mtrr_match width r x) rs))"

lemma combine_types_set:
  assumes "set ts = set us"
  shows "combine_types def_type ts = combine_types def_type us"
proof (cases "ts = []")
  case True
  then show ?thesis using assms by simp
next
  case False
  then have ne: "us \<noteq> []" using assms by auto
  have mem: "hd us \<in> set ts" "hd ts \<in> set us" using hd_in_set [OF ne] hd_in_set [OF False] assms by blast+
  show ?thesis
  proof (cases "\<forall>t\<in>set ts. t = hd ts")
    case True
    then have hd: "hd us = hd ts" using mem(1) by blast
    then have all: "\<forall>t\<in>set us. t = hd us" using True unfolding assms by simp
    show ?thesis
      unfolding combine_types_def if_not_P [OF ne] if_not_P [OF False] if_P [OF True] if_P [OF all] unfolding hd ..
  next
    case no: False
    have "\<not> (\<forall>t\<in>set us. t = hd us)"
    proof
      assume a: "\<forall>t\<in>set us. t = hd us"
      then have "hd ts = hd us" using mem(2) by blast
      with a no show False unfolding assms by simp
    qed
    then show ?thesis using no ne False assms by (simp only: combine_types_def if_False)
  qed
qed

lemma combine_types_one: "ts \<noteq> [] \<Longrightarrow> (\<And>s. s \<in> set ts \<Longrightarrow> s = t) \<Longrightarrow> combine_types def_type ts = Some t"
proof -
  assume ne: "ts \<noteq> []" and eq: "\<And>s. s \<in> set ts \<Longrightarrow> s = t"
  have hd: "hd ts = t" by (rule eq [OF hd_in_set [OF ne]])
  then have all: "\<forall>s\<in>set ts. s = hd ts" using eq by blast
  show ?thesis unfolding combine_types_def if_not_P [OF ne] if_P [OF all] unfolding hd ..
qed

lemma combine_types_uncacheable: "MTRR_TYPE_UNCACHEABLE \<in> set ts \<Longrightarrow> combine_types def_type ts = Some MTRR_TYPE_UNCACHEABLE"
  by (cases "\<forall>t\<in>set ts. t = hd ts") (auto simp: combine_types_def)

lemma memory_type_none: "(\<And>r. r \<in> set rs \<Longrightarrow> \<not> var_mtrr_match width r x) \<Longrightarrow> memory_type width def_type rs x = Some def_type"
  by (simp add: memory_type_def combine_types_def filter_empty_conv)

lemma memory_type_one:
  assumes "r \<in> set rs" "var_mtrr_match width r x" "\<And>s. s \<in> set rs \<Longrightarrow> var_mtrr_match width s x \<Longrightarrow> var_mtrr_type s = t"
  shows "memory_type width def_type rs x = Some t"
  unfolding memory_type_def
proof (rule combine_types_one)
  show "map var_mtrr_type (filter (\<lambda>r. var_mtrr_match width r x) rs) \<noteq> []" using assms(1,2) by (auto simp: filter_empty_conv)
  show "s = t" if "s \<in> set (map var_mtrr_type (filter (\<lambda>r. var_mtrr_match width r x) rs))" for s using that assms(3) by auto
qed

lemma memory_type_uncacheable:
  assumes "r \<in> set rs" "var_mtrr_match width r x" "var_mtrr_type r = MTRR_TYPE_UNCACHEABLE"
  shows "memory_type width def_type rs x = Some MTRR_TYPE_UNCACHEABLE"
  unfolding memory_type_def
proof (rule combine_types_uncacheable)
  have "var_mtrr_type r \<in> set (map var_mtrr_type (filter (\<lambda>r. var_mtrr_match width r x) rs))" using assms(1,2) by simp
  then show "MTRR_TYPE_UNCACHEABLE \<in> set (map var_mtrr_type (filter (\<lambda>r. var_mtrr_match width r x) rs))" unfolding assms(3) .
qed

subsection \<open>What the registers hold\<close>

fun space_plan :: "nat \<Rightarrow> bool \<Rightarrow> u32 \<Rightarrow> range_entry list \<Rightarrow> (u64 \<times> u64 \<times> u32) list" where
  "space_plan total_mtrrs high def_type [] = []"
| "space_plan total_mtrrs high def_type (r # ns) =
     (if range_entry_mtrr_type r = def_type then []
      else range_plan total_mtrrs high r (case ns of [] \<Rightarrow> None | n # _ \<Rightarrow> Some n)) @
     space_plan total_mtrrs high def_type ns"

lemma emit_mtrr_fields [simp]:
  "above4gb (emit_mtrr total_mtrrs x st) = above4gb st" "address_bits (emit_mtrr total_mtrrs x st) = address_bits st"
  "prepare_msrs (emit_mtrr total_mtrrs x st) = prepare_msrs st" "length (regs (emit_mtrr total_mtrrs x st)) = length (regs st)"
  by (cases x; simp add: emit_mtrr_def prep_var_mtrr_eq)+

lemma fold_emit_fields [simp]:
  "above4gb (fold (emit_mtrr total_mtrrs) xs st) = above4gb st" "address_bits (fold (emit_mtrr total_mtrrs) xs st) = address_bits st"
  "prepare_msrs (fold (emit_mtrr total_mtrrs) xs st) = prepare_msrs st"
  "length (regs (fold (emit_mtrr total_mtrrs) xs st)) = length (regs st)"
  by (induction xs arbitrary: st) simp_all

lemma each_entry_plan:
  "each_entry (\<lambda>r next1 st. if range_entry_mtrr_type r = def_type then st else calc_var_mtrrs_with_hole total_mtrrs st r next1) es st =
   fold (emit_mtrr total_mtrrs) (space_plan total_mtrrs (above4gb st) def_type es) st"
  by (induction es arbitrary: st) (simp_all add: calc_var_mtrrs_with_hole_plan)

lemma fold_emit_regs:
  assumes "prepare_msrs st" "mtrr_index st + length xs \<le> total_mtrrs" "total_mtrrs \<le> length (regs st)"
  shows "take (mtrr_index st + length xs) (regs (fold (emit_mtrr total_mtrrs) xs st)) =
    take (mtrr_index st) (regs st) @ map (encode_mtrr (address_bits st)) xs"
  using assms
proof (induction xs arbitrary: st)
  case (Cons x xs)
  let ?st = "emit_mtrr total_mtrrs x st"
  have "regs ?st = (regs st)[mtrr_index st := encode_mtrr (address_bits st) x]"
    using Cons.prems by (cases x) (simp add: emit_mtrr_def prep_var_mtrr_eq)
  moreover have "mtrr_index st < length (regs st)" using Cons.prems by simp
  ultimately have "take (mtrr_index ?st) (regs ?st) = take (mtrr_index st) (regs st) @ [encode_mtrr (address_bits st) x]"
    by (simp add: take_Suc_conv_app_nth)
  then show ?case using Cons.IH [of ?st] Cons.prems by simp
qed simp

lemma prepare_var_mtrrs_plan:
  assumes "num_used (prepare_var_mtrrs total_mtrrs es def_type high bits sol) \<le> total_mtrrs" "total_mtrrs \<le> length (sol_regs sol)"
  shows "take (num_used (prepare_var_mtrrs total_mtrrs es def_type high bits sol)) (sol_regs (prepare_var_mtrrs total_mtrrs es def_type high bits sol)) =
    map (encode_mtrr bits) (space_plan total_mtrrs high def_type es)"
proof -
  let ?st = "\<lparr>above4gb = high, address_bits = bits, prepare_msrs = True, mtrr_index = 0, regs = sol_regs sol\<rparr>"
  let ?plan = "space_plan total_mtrrs high def_type es"
  have n: "num_used (prepare_var_mtrrs total_mtrrs es def_type high bits sol) = length ?plan"
    by (simp add: prepare_var_mtrrs_def Let_def each_entry_plan fold_emit_index)
  have "take (mtrr_index ?st + length ?plan) (regs (fold (emit_mtrr total_mtrrs) ?plan ?st)) =
      take (mtrr_index ?st) (regs ?st) @ map (encode_mtrr (address_bits ?st)) ?plan"
    using assms n by (intro fold_emit_regs) simp_all
  then show ?thesis unfolding n by (simp add: prepare_var_mtrrs_def Let_def each_entry_plan)
qed


lemma space_plan_mem:
  "x \<in> set (space_plan total_mtrrs high def_type es) \<longleftrightarrow>
   (\<exists>ps r ns. es = ps @ r # ns \<and> range_entry_mtrr_type r \<noteq> def_type \<and>
      x \<in> set (range_plan total_mtrrs high r (case ns of [] \<Rightarrow> None | n # _ \<Rightarrow> Some n)))"
proof (induction es)
  case (Cons r ns)
  have "(\<exists>ps q ms. r # ns = ps @ q # ms \<and> P q ms) \<longleftrightarrow> P r ns \<or> (\<exists>ps q ms. ns = ps @ q # ms \<and> P q ms)" for P
    by (auto simp: Cons_eq_append_conv)
  then show ?case by (auto simp: Cons.IH)
qed simp

text \<open>Each register of a plan is a block the processor can match exactly.\<close>

lemma range_plan_blocks:
  assumes ok: "mtrr_space_ok width (ps @ r # ns)"
    and mem: "(b, s, t) \<in> set (range_plan total_mtrrs high r (case ns of [] \<Rightarrow> None | n # _ \<Rightarrow> Some n))"
  shows "(\<exists>k. unat s = 2 ^ k \<and> 2 ^ k dvd unat b \<and> unat b + 2 ^ k \<le> 2 ^ (width - 12)) \<and> t AND NOT 0xFF = 0"
proof -
  obtain l where "range_limits total_mtrrs high r (case ns of [] \<Rightarrow> None | n # _ \<Rightarrow> Some n) = Some l"
    using mem by (cases "range_limits total_mtrrs high r (case ns of [] \<Rightarrow> None | n # _ \<Rightarrow> Some n)") (auto simp: range_plan_def)
  moreover obtain a1 b1 b2 carve where "l = (a1, b1, b2, carve)" by (cases l)
  ultimately have lim: "range_limits total_mtrrs high r (case ns of [] \<Rightarrow> None | n # _ \<Rightarrow> Some n) = Some (a1, b1, b2, carve)" by simp
  note f = range_limits_facts [OF ok lim]
  have le: "unat b1 \<le> unat b2" using f(3) by (simp add: word_le_nat_alt)
  have blk: "\<exists>k. unat s = 2 ^ k \<and> 2 ^ k dvd unat b \<and> unat b + 2 ^ k \<le> 2 ^ (width - 12)"
    if "(b, s, t) \<in> set (typed_blocks a (b2 - a) ty)" "unat a \<le> unat b2" for a ty
  proof -
    have d: "unat (b2 - a) = unat b2 - unat a" using that(2) by (intro unat_sub_no_wrap) (simp add: word_le_nat_alt)
    have m: "(b, s) \<in> set (mtrr_blocks a (b2 - a))" using that(1) by (auto simp: typed_blocks_def)
    have "unat a + unat (b2 - a) \<le> 2 ^ 64" using d that(2) unat_lt_64 [of b2] by simp
    from mtrr_blocks_mem [OF this m] obtain k where "unat s = 2 ^ k" "2 ^ k dvd unat b" "unat b + 2 ^ k \<le> unat a + unat (b2 - a)" by blast
    then show ?thesis using d that(2) f(5) by (intro exI [of _ k]) linarith
  qed
  have ty: "range_entry_mtrr_type r AND NOT 0xFF = 0"
    by (rule bit_word_eqI) (auto simp: range_entry_mtrr_type_def bit_simps)
  have ab: "unat a1 \<le> unat b2" using f(4) le by linarith
  consider "(b, s, t) \<in> set (typed_blocks a1 (b2 - a1) (range_entry_mtrr_type r))"
    | "(b, s, t) \<in> set (typed_blocks b1 (b2 - b1) MTRR_TYPE_UNCACHEABLE)"
    using mem by (auto simp: range_plan_def lim split: if_splits)
  then show ?thesis
  proof cases
    case 1
    then have "t = range_entry_mtrr_type r" by (auto simp: typed_blocks_def)
    then show ?thesis using blk [OF 1 ab] ty by simp
  next
    case 2
    then have "t = MTRR_TYPE_UNCACHEABLE" by (auto simp: typed_blocks_def)
    then show ?thesis using blk [OF 2 le] by (simp add: MTRR_TYPE_UNCACHEABLE_def)
  qed
qed

text \<open>The registers that match an address are those of the blocks that cover its page.\<close>

lemma space_plan_match:
  assumes ok: "mtrr_space_ok width es" and x: "unat x < 2 ^ width" and blk: "blk \<in> set (space_plan total_mtrrs high def_type es)"
  shows "var_mtrr_match width (encode_mtrr width blk) x \<longleftrightarrow> in_block (fst blk) (fst (snd blk)) (PHYS_TO_RANGE_ADDR x)"
    and "var_mtrr_type (encode_mtrr width blk) = snd (snd blk)"
proof -
  obtain b s t where e: "blk = (b, s, t)" by (cases blk)
  from blk obtain ps r ns where "es = ps @ r # ns" "(b, s, t) \<in> set (range_plan total_mtrrs high r (case ns of [] \<Rightarrow> None | n # _ \<Rightarrow> Some n))"
    unfolding space_plan_mem e by blast
  with range_plan_blocks ok obtain k where k: "unat s = 2 ^ k" "2 ^ k dvd unat b" "unat b + 2 ^ k \<le> 2 ^ (width - 12)" "t AND NOT 0xFF = 0"
    by blast
  have "12 \<le> width" "width < 64" using ok by (simp_all add: mtrr_space_ok_def)
  note m = encode_mtrr_match [OF this k(2,1,3,4) x]
  show "var_mtrr_match width (encode_mtrr width blk) x \<longleftrightarrow> in_block (fst blk) (fst (snd blk)) (PHYS_TO_RANGE_ADDR x)"
    "var_mtrr_type (encode_mtrr width blk) = snd (snd blk)" using m unfolding e by simp_all
qed

lemma covers_space_plan:
  "covers (space_plan total_mtrrs high def_type es) p t \<longleftrightarrow>
   (\<exists>ps r ns. es = ps @ r # ns \<and> range_entry_mtrr_type r \<noteq> def_type \<and>
      covers (range_plan total_mtrrs high r (case ns of [] \<Rightarrow> None | n # _ \<Rightarrow> Some n)) p t)"
  unfolding covers_def space_plan_mem by blast

lemma plan_memory_type:
  assumes ok: "mtrr_space_ok width es" and x: "unat x < 2 ^ width"
    and cov: "covers (space_plan total_mtrrs high def_type es) (PHYS_TO_RANGE_ADDR x) t \<or>
      t = def_type \<and> (\<forall>u. \<not> covers (space_plan total_mtrrs high def_type es) (PHYS_TO_RANGE_ADDR x) u)"
    and alone: "t = MTRR_TYPE_UNCACHEABLE \<or> (\<forall>u. covers (space_plan total_mtrrs high def_type es) (PHYS_TO_RANGE_ADDR x) u \<longrightarrow> u = t)"
  shows "memory_type width def_type (map (encode_mtrr width) (space_plan total_mtrrs high def_type es)) x = Some t"
proof -
  let ?plan = "space_plan total_mtrrs high def_type es"
  let ?p = "PHYS_TO_RANGE_ADDR x" and ?rs = "map (encode_mtrr width) ?plan"
  note m = space_plan_match [OF ok x]
  have hit: "covers ?plan ?p u" if "blk \<in> set ?plan" "var_mtrr_match width (encode_mtrr width blk) x"
      "var_mtrr_type (encode_mtrr width blk) = u" for blk u
  proof -
    obtain b s t where e: "blk = (b, s, t)" by (cases blk)
    show ?thesis using that m [OF that(1)] unfolding covers_def e by auto
  qed
  from cov show ?thesis
  proof
    assume none: "t = def_type \<and> (\<forall>u. \<not> covers ?plan ?p u)"
    have "memory_type width def_type ?rs x = Some def_type" by (rule memory_type_none) (use none hit in auto)
    with none show ?thesis by simp
  next
    assume "covers ?plan ?p t"
    then obtain b s where blk: "(b, s, t) \<in> set ?plan" "in_block b s ?p" unfolding covers_def by blast
    let ?r = "encode_mtrr width (b, s, t)"
    have r: "?r \<in> set ?rs" "var_mtrr_match width ?r x" "var_mtrr_type ?r = t" using blk m [OF blk(1)] by simp_all
    from alone show ?thesis
    proof
      assume "t = MTRR_TYPE_UNCACHEABLE"
      then show ?thesis using memory_type_uncacheable [OF r(1,2)] r(3) by simp
    next
      assume "\<forall>u. covers ?plan ?p u \<longrightarrow> u = t"
      then have "var_mtrr_type s = t" if "s \<in> set ?rs" "var_mtrr_match width s x" for s using that hit by auto
      from memory_type_one [OF r(1,2) this] show ?thesis .
    qed
  qed
qed

lemma ranges_page_apart:
  assumes ok: "mtrr_space_ok width (ps @ r # ns)" and q: "q \<in> set (ps @ r # ns)" "page_begin q \<le> n" "n < page_end q"
    and nr: "\<not> (page_begin r \<le> n \<and> n < page_end r)" "page_end r \<le> n"
  shows "q \<in> set ns"
proof -
  have "q \<notin> set ps"
  proof
    assume "q \<in> set ps"
    then obtain us vs where "ps = us @ q # vs" using split_list by fast
    then have "page_end q \<le> page_begin r" using pages_sorted [of width us q "vs @ r # ns" r] ok by simp
    moreover have "page_begin r < page_end r" using page_bounds(1) [OF ok, of r] by simp
    ultimately show False using q(3) nr(2) by linarith
  qed
  moreover have "q \<noteq> r" using q nr by blast
  ultimately show ?thesis using q(1) by simp
qed

text \<open>
  The types of a solution. A page of a range gets the type of the range; a page between two ranges gets the
  default type. Below 1 MiB the fixed registers decide.
\<close>

lemma space_types:
  fixes total_mtrrs :: nat
  assumes ok: "mtrr_space_ok width es" and def: "def_type \<in> {MTRR_TYPE_WRBACK, MTRR_TYPE_UNCACHEABLE}"
    and x: "unat x < 2 ^ width" "2 ^ 20 \<le> unat x" "high \<or> unat x < 2 ^ 32"
  defines "types \<equiv> memory_type width def_type (map (encode_mtrr width) (space_plan total_mtrrs high def_type es)) x"
  shows "q \<in> set es \<Longrightarrow> r_begin q \<le> x \<Longrightarrow> x \<le> r_end q \<Longrightarrow> types = Some (range_entry_mtrr_type q)"
    and "es = ks @ [l] \<Longrightarrow> tag_at es x = None \<Longrightarrow> x < r_end l \<Longrightarrow> types = Some def_type"
proof -
  let ?p = "PHYS_TO_RANGE_ADDR x" and ?plan = "space_plan total_mtrrs high def_type es"
  let ?in = "\<lambda>r. page_begin r \<le> unat ?p \<and> unat ?p < page_end r"
  have inr: "r_begin r \<le> x \<and> x \<le> r_end r \<longleftrightarrow> ?in r" if "r \<in> set es" for r
    unfolding unat_page using ok that by (intro in_range_pages) (auto simp: mtrr_space_ok_def)
  have p: "2 ^ 8 \<le> unat ?p" "high \<or> unat ?p < 2 ^ 20"
  proof -
    have "2 ^ 20 div 2 ^ 12 \<le> unat x div 2 ^ 12" by (rule div_le_mono [OF x(2)])
    then show "2 ^ 8 \<le> unat ?p" unfolding unat_page by simp
    show "high \<or> unat ?p < 2 ^ 20" using x(3) unfolding unat_page by (auto simp: div_less_iff_less_mult)
  qed
  text \<open>What a range that does not hold the page may say about it.\<close>
  have hole: "def_type = MTRR_TYPE_UNCACHEABLE \<and> page_end r \<le> unat ?p \<and> (ns \<noteq> [] \<longrightarrow> covers ?plan ?p MTRR_TYPE_UNCACHEABLE) \<and>
      (\<forall>q\<in>set ns. ?in q \<longrightarrow> range_entry_mtrr_type q = MTRR_TYPE_UNCACHEABLE)"
    if es: "es = ps @ r # ns" and ty: "range_entry_mtrr_type r \<noteq> def_type" and out: "\<not> ?in r"
      and cov: "covers (range_plan total_mtrrs high r (case ns of [] \<Rightarrow> None | n # _ \<Rightarrow> Some n)) ?p t" for ps r ns t
  proof -
    note c = range_plan_covers(2) [OF ok [unfolded es] p out cov]
    moreover have "def_type = MTRR_TYPE_UNCACHEABLE" using c def ty by auto
    moreover have "ns \<noteq> [] \<longrightarrow> covers ?plan ?p MTRR_TYPE_UNCACHEABLE"
      unfolding covers_space_plan using c es ty by blast
    ultimately show ?thesis by blast
  qed
  show "types = Some (range_entry_mtrr_type q)" if q: "q \<in> set es" "r_begin q \<le> x" "x \<le> r_end q"
  proof -
    let ?t = "range_entry_mtrr_type q"
    have qp: "?in q" using inr [OF q(1)] q by blast
    have unc: "?t = MTRR_TYPE_UNCACHEABLE \<and> def_type = MTRR_TYPE_UNCACHEABLE \<and> covers ?plan ?p MTRR_TYPE_UNCACHEABLE"
      if "es = ps @ r # ns" "range_entry_mtrr_type r \<noteq> def_type" "\<not> ?in r"
        "covers (range_plan total_mtrrs high r (case ns of [] \<Rightarrow> None | n # _ \<Rightarrow> Some n)) ?p t" for ps r ns t
    proof -
      note h = hole [OF that]
      have "q \<in> set ns" using ranges_page_apart [OF ok [unfolded that(1)]] q(1) qp h that(1,3) by blast
      then show ?thesis using h qp by (cases ns) auto
    qed
    have same: "r = q" if rin: "r \<in> set es" "?in r" for r
    proof (rule ccontr)
      assume "r \<noteq> q"
      obtain us vs where es: "es = us @ r # vs" using split_list [OF rin(1)] by blast
      from q(1) \<open>r \<noteq> q\<close> consider "q \<in> set vs" | "q \<in> set us" unfolding es by auto
      then show False
      proof cases
        case 1 then show False using pages_sorted [OF ok [unfolded es] 1] qp that(2) by linarith
      next
        case 2
        then obtain as bs where "us = as @ q # bs" using split_list by fast
        then have "page_end q \<le> page_begin r" using pages_sorted [of width as q "bs @ r # vs" r] ok es by simp
        then show False using qp that(2) by linarith
      qed
    qed
    have own: "covers (range_plan total_mtrrs high r (case ns of [] \<Rightarrow> None | n # _ \<Rightarrow> Some n)) ?p u \<longleftrightarrow> u = range_entry_mtrr_type r"
      if "es = ps @ r # ns" "?in r" for ps r ns u
      using range_plan_covers(1) [OF ok [unfolded that(1)] p] that(2) by blast
    have alone: "?t = MTRR_TYPE_UNCACHEABLE \<or> u = ?t" if u: "covers ?plan ?p u" for u
    proof -
      from u obtain ps r ns where r: "es = ps @ r # ns" "range_entry_mtrr_type r \<noteq> def_type"
        "covers (range_plan total_mtrrs high r (case ns of [] \<Rightarrow> None | n # _ \<Rightarrow> Some n)) ?p u" unfolding covers_space_plan by blast
      then have "r \<in> set es" by simp
      then show ?thesis using unc [OF r(1,2) _ r(3)] own [OF r(1)] same r(3) by blast
    qed
    have cov: "covers ?plan ?p ?t \<or> ?t = def_type \<and> (\<forall>u. \<not> covers ?plan ?p u)"
    proof (cases "?t = def_type")
      case True
      have "covers ?plan ?p ?t" if u: "covers ?plan ?p u" for u
      proof -
        from u obtain ps r ns where r: "es = ps @ r # ns" "range_entry_mtrr_type r \<noteq> def_type"
          "covers (range_plan total_mtrrs high r (case ns of [] \<Rightarrow> None | n # _ \<Rightarrow> Some n)) ?p u" unfolding covers_space_plan by blast
        then have "\<not> ?in r" using same [of r] True by auto
        from unc [OF r(1,2) this r(3)] have "?t = MTRR_TYPE_UNCACHEABLE" "covers ?plan ?p MTRR_TYPE_UNCACHEABLE" by blast+
        then show ?thesis by (simp only:)
      qed
      with True show ?thesis by blast
    next
      case False
      obtain us vs where es: "es = us @ q # vs" using split_list [OF q(1)] by blast
      then show ?thesis unfolding covers_space_plan using own [OF es qp] False by blast
    qed
    show ?thesis unfolding types_def by (rule plan_memory_type [OF ok x(1) cov]) (use alone in blast)
  qed
  show "types = Some def_type" if gap: "es = ks @ [l]" "tag_at es x = None" "x < r_end l"
  proof -
    have out: "\<not> ?in r" if "r \<in> set es" for r using inr [OF that] gap(2) that unfolding tag_at_None_iff by blast
    have "l \<in> set es" using gap(1) by simp
    have unc: "def_type = MTRR_TYPE_UNCACHEABLE \<and> covers ?plan ?p MTRR_TYPE_UNCACHEABLE" if u: "covers ?plan ?p u" for u
    proof -
      from u obtain ps r ns where r: "es = ps @ r # ns" "range_entry_mtrr_type r \<noteq> def_type"
        "covers (range_plan total_mtrrs high r (case ns of [] \<Rightarrow> None | n # _ \<Rightarrow> Some n)) ?p u" unfolding covers_space_plan by blast
      have "\<not> ?in r" using out r(1) by simp
      note h = hole [OF r(1,2) this r(3)]
      have "ns \<noteq> []"
      proof
        assume "ns = []"
        then have "r = l" using r(1) gap(1) by simp
        then have "page_begin l \<le> unat ?p" using h page_bounds(1) [OF ok \<open>l \<in> set es\<close>] by simp
        then have "r_begin l \<le> x" unfolding unat_page page_begin_def using ok \<open>l \<in> set es\<close> unfolding word_le_nat_alt
          by (auto simp: mtrr_space_ok_def elim!: dvdE)
        then show False using inr [OF \<open>l \<in> set es\<close>] out [OF \<open>l \<in> set es\<close>] gap(3) by auto
      qed
      with h show ?thesis by blast
    qed
    have "covers ?plan ?p def_type \<or> def_type = def_type \<and> (\<forall>u. \<not> covers ?plan ?p u)" using unc by metis
    moreover have "def_type = MTRR_TYPE_UNCACHEABLE \<or> (\<forall>u. covers ?plan ?p u \<longrightarrow> u = def_type)" using unc by blast
    ultimately show ?thesis unfolding types_def by (rule plan_memory_type [OF ok x(1)])
  qed
qed


subsection \<open>The processor's registers\<close>

text \<open>
  The model specific registers by number, and \<^verbatim>\<open>cr0\<close>, whose cache bits \<^verbatim>\<open>disable_cache\<close> and
  \<^verbatim>\<open>enable_cache\<close> of \<^verbatim>\<open>src/include/cpu/x86/cache.h\<close> change (write-back of the cache has no effect here).
\<close>

record cpu =
  msrs :: "nat \<Rightarrow> msr"
  cr0 :: u64

definition rdmsr :: "cpu \<Rightarrow> nat \<Rightarrow> msr" where
  "rdmsr c n = msrs c n"

definition wrmsr :: "nat \<Rightarrow> msr \<Rightarrow> cpu \<Rightarrow> cpu" where
  "wrmsr n m c = c\<lparr>msrs := (msrs c)(n := m)\<rparr>"

definition CR0_CD :: u64 where "CR0_CD = 0x40000000"
definition CR0_NW :: u64 where "CR0_NW = 0x20000000"

definition disable_cache :: "cpu \<Rightarrow> cpu" where
  "disable_cache c = c\<lparr>cr0 := cr0 c OR CR0_CD\<rparr>"

definition enable_cache :: "cpu \<Rightarrow> cpu" where
  "enable_cache c = c\<lparr>cr0 := cr0 c AND NOT (CR0_CD OR CR0_NW)\<rparr>"

definition MTRR_PHYS_BASE :: "nat \<Rightarrow> nat" where "MTRR_PHYS_BASE reg = 0x200 + 2 * reg"
definition MTRR_PHYS_MASK :: "nat \<Rightarrow> nat" where "MTRR_PHYS_MASK reg = MTRR_PHYS_BASE reg + 1"
definition MTRR_CAP_MSR :: nat where "MTRR_CAP_MSR = 0xFE"
definition MTRR_DEF_TYPE_MSR :: nat where "MTRR_DEF_TYPE_MSR = 0x2FF"
definition MTRR_DEF_TYPE_EN :: u32 where "MTRR_DEF_TYPE_EN = 0x800"
definition MTRR_DEF_TYPE_FIX_EN :: u32 where "MTRR_DEF_TYPE_FIX_EN = 0x400"
definition NUM_MTRR_STATIC_STORAGE :: nat where "NUM_MTRR_STATIC_STORAGE = 16"
definition MIN_MTRRS :: nat where "MIN_MTRRS = 8"

lemmas mtrr_msrs = MTRR_PHYS_BASE_def MTRR_PHYS_MASK_def MTRR_CAP_MSR_def MTRR_DEF_TYPE_MSR_def

definition get_var_mtrr_count :: "cpu \<Rightarrow> nat" where
  "get_var_mtrr_count c = unat (msr_lo (rdmsr c MTRR_CAP_MSR) AND 0xFF)"

definition detect_var_mtrrs :: "cpu \<Rightarrow> nat" where
  "detect_var_mtrrs c =
     (let total_mtrrs = get_var_mtrr_count c
      in if NUM_MTRR_STATIC_STORAGE < total_mtrrs then NUM_MTRR_STATIC_STORAGE else total_mtrrs)"

definition enable_var_mtrr :: "u32 \<Rightarrow> cpu \<Rightarrow> cpu" where
  "enable_var_mtrr deftype c =
     (let m = rdmsr c MTRR_DEF_TYPE_MSR
      in wrmsr MTRR_DEF_TYPE_MSR (m\<lparr>msr_lo := (msr_lo m AND NOT 0xFF) OR (MTRR_DEF_TYPE_EN OR (deftype AND 0xFF))\<rparr>) c)"

definition clear_var_mtrr :: "nat \<Rightarrow> cpu \<Rightarrow> cpu" where
  "clear_var_mtrr index1 c =
     wrmsr (MTRR_PHYS_MASK index1) \<lparr>msr_lo = 0, msr_hi = 0\<rparr> (wrmsr (MTRR_PHYS_BASE index1) \<lparr>msr_lo = 0, msr_hi = 0\<rparr> c)"

text \<open>The result is False for the return value -1.\<close>

definition commit_var_mtrrs :: "nat \<Rightarrow> var_mtrr_solution \<Rightarrow> cpu \<Rightarrow> bool \<times> cpu" where
  "commit_var_mtrrs total_mtrrs sol c =
     (if total_mtrrs < num_used sol then (False, c)
      else let c = disable_cache c;
               c = fold (\<lambda>i c. wrmsr (MTRR_PHYS_MASK i) (reg_mask (sol_regs sol ! i))
                                 (wrmsr (MTRR_PHYS_BASE i) (reg_base (sol_regs sol ! i)) c)) [0..<num_used sol] c;
               c = fold clear_var_mtrr [num_used sol..<total_mtrrs] c;
               c = enable_var_mtrr (mtrr_default_type sol) c
           in (True, enable_cache c))"

text \<open>What the processor makes of an address: the default type is in effect once the registers are enabled.\<close>

definition cpu_reg :: "cpu \<Rightarrow> nat \<Rightarrow> var_mtrr_regs" where
  "cpu_reg c i = \<lparr>reg_base = msrs c (MTRR_PHYS_BASE i), reg_mask = msrs c (MTRR_PHYS_MASK i)\<rparr>"

definition cpu_memory_type :: "nat \<Rightarrow> nat \<Rightarrow> cpu \<Rightarrow> addr \<Rightarrow> u32 option" where
  "cpu_memory_type width total_mtrrs c x =
     (if msr_lo (msrs c MTRR_DEF_TYPE_MSR) AND MTRR_DEF_TYPE_EN = 0 then Some MTRR_TYPE_UNCACHEABLE
      else memory_type width (msr_lo (msrs c MTRR_DEF_TYPE_MSR) AND 0xFF) (map (cpu_reg c) [0..<total_mtrrs]) x)"

lemma wrmsr_msrs [simp]: "msrs (wrmsr n m c) k = (if k = n then m else msrs c k)" "cr0 (wrmsr n m c) = cr0 c"
  by (simp_all add: wrmsr_def)

lemma cache_msrs [simp]: "msrs (disable_cache c) = msrs c" "msrs (enable_cache c) = msrs c"
  by (simp_all add: disable_cache_def enable_cache_def)

lemma clear_var_mtrr_msrs [simp]:
  "msrs (clear_var_mtrr i c) k = (if k = MTRR_PHYS_BASE i \<or> k = MTRR_PHYS_MASK i then \<lparr>msr_lo = 0, msr_hi = 0\<rparr> else msrs c k)"
  by (simp add: clear_var_mtrr_def)

lemma reg_numbers [simp]:
  "MTRR_PHYS_BASE i = MTRR_PHYS_BASE j \<longleftrightarrow> i = j" "MTRR_PHYS_MASK i = MTRR_PHYS_MASK j \<longleftrightarrow> i = j"
  "MTRR_PHYS_BASE i \<noteq> MTRR_PHYS_MASK j" "MTRR_PHYS_MASK j \<noteq> MTRR_PHYS_BASE i"
  by (simp_all add: mtrr_msrs) presburger+

text \<open>A loop that writes a pair of registers for every index below \<open>n\<close>.\<close>

lemma fold_write_regs:
  "msrs (fold (\<lambda>i c. wrmsr (MTRR_PHYS_MASK i) (m i) (wrmsr (MTRR_PHYS_BASE i) (b i) c)) [0..<n] c) k =
    (if \<exists>i<n. k = MTRR_PHYS_MASK i then m ((k - 0x201) div 2)
     else if \<exists>i<n. k = MTRR_PHYS_BASE i then b ((k - 0x200) div 2) else msrs c k)"
  by (induction n) (auto simp: mtrr_msrs less_Suc_eq)

lemma fold_clear_regs:
  "msrs (fold clear_var_mtrr [l..<n] c) k =
    (if \<exists>i. l \<le> i \<and> i < n \<and> (k = MTRR_PHYS_BASE i \<or> k = MTRR_PHYS_MASK i) then \<lparr>msr_lo = 0, msr_hi = 0\<rparr> else msrs c k)"
proof (induction n)
  case (Suc n)
  then show ?case by (cases "l \<le> n") (auto simp: less_Suc_eq)
qed simp

lemma commit_regs:
  fixes c :: cpu
  assumes "num_used sol \<le> total_mtrrs" "total_mtrrs \<le> 127"
  defines "c' \<equiv> snd (commit_var_mtrrs total_mtrrs sol c)"
  shows "i < num_used sol \<Longrightarrow> cpu_reg c' i = sol_regs sol ! i"
    and "num_used sol \<le> i \<Longrightarrow> i < total_mtrrs \<Longrightarrow> cpu_reg c' i = \<lparr>reg_base = \<lparr>msr_lo = 0, msr_hi = 0\<rparr>, reg_mask = \<lparr>msr_lo = 0, msr_hi = 0\<rparr>\<rparr>"
    and "msr_lo (msrs c' MTRR_DEF_TYPE_MSR) AND 0xFF = mtrr_default_type sol AND 0xFF"
    and "msr_lo (msrs c' MTRR_DEF_TYPE_MSR) AND MTRR_DEF_TYPE_EN \<noteq> 0"
    and "cr0 c' AND CR0_CD = 0"
proof -
  let ?w = "fold (\<lambda>i c. wrmsr (MTRR_PHYS_MASK i) (reg_mask (sol_regs sol ! i)) (wrmsr (MTRR_PHYS_BASE i) (reg_base (sol_regs sol ! i)) c))
      [0..<num_used sol] (disable_cache c)"
  let ?f = "fold clear_var_mtrr [num_used sol..<total_mtrrs] ?w"
  have c': "c' = enable_cache (enable_var_mtrr (mtrr_default_type sol) ?f)"
    using assms(1) by (simp add: c'_def commit_var_mtrrs_def Let_def not_less)
  have k: "msrs c' k = msrs ?f k" if "k \<noteq> MTRR_DEF_TYPE_MSR" for k
    using that unfolding c' by (simp add: enable_var_mtrr_def Let_def)
  have index_of: "(MTRR_PHYS_MASK i - 0x201) div 2 = i" "(MTRR_PHYS_BASE i - 0x200) div 2 = i" for i
    by (simp_all add: mtrr_msrs)
  have low: "MTRR_PHYS_BASE i \<noteq> MTRR_DEF_TYPE_MSR" "MTRR_PHYS_MASK i \<noteq> MTRR_DEF_TYPE_MSR" if "i < total_mtrrs" for i
    using that assms(2) by (simp_all add: mtrr_msrs)
  show "cpu_reg c' i = sol_regs sol ! i" if "i < num_used sol"
  proof -
    have "i < total_mtrrs" using that assms(1) by simp
    note n = k [OF low(1) [OF this]] k [OF low(2) [OF this]]
    have "msrs ?f (MTRR_PHYS_BASE i) = reg_base (sol_regs sol ! i)" "msrs ?f (MTRR_PHYS_MASK i) = reg_mask (sol_regs sol ! i)"
      unfolding fold_clear_regs fold_write_regs using that index_of [of i] by auto
    then show ?thesis by (simp add: cpu_reg_def n)
  qed
  show "cpu_reg c' i = \<lparr>reg_base = \<lparr>msr_lo = 0, msr_hi = 0\<rparr>, reg_mask = \<lparr>msr_lo = 0, msr_hi = 0\<rparr>\<rparr>"
    if "num_used sol \<le> i" "i < total_mtrrs"
    using k [OF low(1) [OF that(2)]] k [OF low(2) [OF that(2)]] that unfolding cpu_reg_def fold_clear_regs by auto
  let ?lo = "msr_lo (msrs ?f MTRR_DEF_TYPE_MSR)"
  have d: "msr_lo (msrs c' MTRR_DEF_TYPE_MSR) = (?lo AND NOT 0xFF) OR (MTRR_DEF_TYPE_EN OR (mtrr_default_type sol AND 0xFF))"
    unfolding c' by (simp add: enable_var_mtrr_def Let_def rdmsr_def)
  have en: "MTRR_DEF_TYPE_EN AND 0xFF = 0" "MTRR_DEF_TYPE_EN AND MTRR_DEF_TYPE_EN = MTRR_DEF_TYPE_EN" "MTRR_DEF_TYPE_EN \<noteq> 0"
    by (simp_all add: MTRR_DEF_TYPE_EN_def)
  have "(a AND NOT 0xFF) AND 0xFF = 0" for a :: u32 by (simp add: and.assoc)
  then show "msr_lo (msrs c' MTRR_DEF_TYPE_MSR) AND 0xFF = mtrr_default_type sol AND 0xFF"
    unfolding d bit.conj_disj_distrib2 en by (simp add: and.assoc)
  have "bit (msr_lo (msrs c' MTRR_DEF_TYPE_MSR) AND MTRR_DEF_TYPE_EN) 11"
    unfolding d by (simp add: bit_simps MTRR_DEF_TYPE_EN_def)
  then show "msr_lo (msrs c' MTRR_DEF_TYPE_MSR) AND MTRR_DEF_TYPE_EN \<noteq> 0" by (intro notI) simp
  show "cr0 c' AND CR0_CD = 0"
    unfolding c' enable_cache_def by (simp add: CR0_CD_def CR0_NW_def and.assoc)
qed

text \<open>After a commit the processor sees the types of the solution.\<close>

lemma commit_memory_type:
  fixes c :: cpu
  assumes "num_used sol \<le> total_mtrrs" "total_mtrrs \<le> 127" "num_used sol \<le> length (sol_regs sol)" "mtrr_default_type sol AND NOT 0xFF = 0"
  shows "cpu_memory_type width total_mtrrs (snd (commit_var_mtrrs total_mtrrs sol c)) x =
    memory_type width (mtrr_default_type sol) (take (num_used sol) (sol_regs sol)) x"
proof -
  let ?c = "snd (commit_var_mtrrs total_mtrrs sol c)" and ?z = "\<lparr>reg_base = \<lparr>msr_lo = 0, msr_hi = 0\<rparr>, reg_mask = \<lparr>msr_lo = 0, msr_hi = 0\<rparr>\<rparr>"
  note f = commit_regs [OF assms(1,2), where c = c]
  have "map (cpu_reg ?c) [0..<total_mtrrs] = map (cpu_reg ?c) [0..<num_used sol] @ map (cpu_reg ?c) [num_used sol..<total_mtrrs]"
    using assms(1) by (metis le_add_diff_inverse map_append plus_nat.add_0 upt_add_eq_append zero_le)
  also have "map (cpu_reg ?c) [0..<num_used sol] = take (num_used sol) (sol_regs sol)"
    using f(1) assms(3) by (intro nth_equalityI) simp_all
  also have "map (cpu_reg ?c) [num_used sol..<total_mtrrs] = map (\<lambda>_. ?z) [num_used sol..<total_mtrrs]"
    using f(2) by simp
  finally have r: "map (cpu_reg ?c) [0..<total_mtrrs] = take (num_used sol) (sol_regs sol) @ map (\<lambda>_. ?z) [num_used sol..<total_mtrrs]" .
  have z: "\<not> var_mtrr_match width ?z x" by (simp add: var_mtrr_match_def)
  have "mtrr_default_type sol AND 0xFF = mtrr_default_type sol"
  proof -
    have "mtrr_default_type sol = mtrr_default_type sol AND 0xFF OR mtrr_default_type sol AND NOT 0xFF"
      by (metis bit.conj_disj_distrib bit.disj_cancel_right word_and_max)
    then show ?thesis unfolding assms(4) by simp
  qed
  then show ?thesis
    unfolding cpu_memory_type_def r using f(3,4) z by (simp add: memory_type_def filter_empty_conv)
qed

end
