(* ===== verification/MtrrSetup.thy ===== *)
theory MtrrSetup
  imports MtrrVar
begin

text \<open>
  The fixed range registers of \<^verbatim>\<open>src/cpu/x86/mtrr/mtrr.c\<close>, the physical address space it builds from the device
  tree, and the entry points that set up all registers and put temporary ranges in place.
\<close>

subsection \<open>The fixed registers\<close>

record fixed_mtrr_desc =
  fd_begin :: u32
  fd_end :: u32
  fd_step :: u32
  range_index :: nat
  msr_index_base :: nat

definition NUM_FIXED_RANGES :: nat where "NUM_FIXED_RANGES = 88"

definition fixed_mtrr_descs :: "fixed_mtrr_desc list" where
  "fixed_mtrr_descs =
     [\<lparr>fd_begin = 0x00, fd_end = 0x80, fd_step = 0x10, range_index = 0, msr_index_base = 0x250\<rparr>,
      \<lparr>fd_begin = 0x80, fd_end = 0xC0, fd_step = 0x04, range_index = 8, msr_index_base = 0x258\<rparr>,
      \<lparr>fd_begin = 0xC0, fd_end = 0x100, fd_step = 0x01, range_index = 24, msr_index_base = 0x268\<rparr>]"

text \<open>
  The table is walked by an index. None is a read behind the table or a write behind the array of types:
  what the code then does is not determined.
\<close>

function skip_desc :: "nat \<Rightarrow> u32 \<Rightarrow> nat option" where
  "skip_desc d begin1 =
     (if length fixed_mtrr_descs \<le> d then None
      else if fd_end (fixed_mtrr_descs ! d) \<le> begin1 then skip_desc (d + 1) begin1
      else Some d)"
  by pat_completeness auto
termination
  by (relation "measure (\<lambda>(d, _). length fixed_mtrr_descs - d)") auto

function fill_fixed :: "u8 \<Rightarrow> u32 \<Rightarrow> nat \<Rightarrow> nat \<Rightarrow> u32 \<Rightarrow> u8 list \<Rightarrow> (nat \<times> u8 list) option" where
  "fill_fixed ty end1 d type_index begin1 types =
     (if begin1 = end1 then Some (d, types)
      else if length fixed_mtrr_descs \<le> d \<or> NUM_FIXED_RANGES \<le> type_index then None
      else let begin2 = begin1 + fd_step (fixed_mtrr_descs ! d)
           in fill_fixed ty end1 (if begin2 = fd_end (fixed_mtrr_descs ! d) then d + 1 else d) (type_index + 1) begin2
                (types[type_index := ty]))"
  by pat_completeness auto
termination
  by (relation "measure (\<lambda>(_, _, _, type_index, _, _). NUM_FIXED_RANGES - type_index)") auto

declare skip_desc.simps [simp del] fill_fixed.simps [simp del]

fun fixed_entries :: "u8 \<Rightarrow> range_entry list \<Rightarrow> nat \<Rightarrow> u8 list \<Rightarrow> u8 list option" where
  "fixed_entries wrback_bits [] d types = Some types"
| "fixed_entries wrback_bits (r # rs) d types =
     (let begin1 = ucast (range_entry_base_mtrr_addr r) :: u32;
          end1 = ucast (range_entry_end_mtrr_addr r) :: u32;
          final = fd_end (last fixed_mtrr_descs)
      in if final \<le> begin1 then Some types
         else let end1 = (if final < end1 then final else end1)
              in case skip_desc d begin1 of
                   None \<Rightarrow> None
                 | Some d1 \<Rightarrow>
                     let desc = fixed_mtrr_descs ! d1;
                         type_index = range_index desc + unat ((begin1 - fd_begin desc) div fd_step desc);
                         ty = ucast (range_entry_tag r) :: u8;
                         ty = (if ty = 6 then ty OR wrback_bits else ty)
                     in case fill_fixed ty end1 d1 type_index begin1 types of
                          None \<Rightarrow> None
                        | Some (d2, types1) \<Rightarrow> fixed_entries wrback_bits rs d2 types1)"

definition calc_fixed_mtrrs :: "u8 \<Rightarrow> range_entry list \<Rightarrow> u8 list option" where
  "calc_fixed_mtrrs wrback_bits addr_space =
     fixed_entries wrback_bits addr_space 0 (replicate NUM_FIXED_RANGES 0)"

text \<open>Eight types per register, the first in the lowest byte.\<close>

definition pack_types :: "u8 list \<Rightarrow> msr" where
  "pack_types ts =
     \<lparr>msr_lo = ucast (ts ! 0) OR push_bit 8 (ucast (ts ! 1)) OR push_bit 16 (ucast (ts ! 2)) OR push_bit 24 (ucast (ts ! 3)),
      msr_hi = ucast (ts ! 4) OR push_bit 8 (ucast (ts ! 5)) OR push_bit 16 (ucast (ts ! 6)) OR push_bit 24 (ucast (ts ! 7))\<rparr>"

definition fixed_msr_numbers :: "nat list" where
  "fixed_msr_numbers =
     concat (map (\<lambda>desc. map (\<lambda>j. msr_index_base desc + j)
        [0..<unat ((fd_end desc - fd_begin desc) div fd_step desc) div 8]) fixed_mtrr_descs)"

definition SYSCFG_MSR :: nat where "SYSCFG_MSR = 0xC0010010"
definition SYSCFG_MSR_MtrrFixDramModEn :: u32 where "SYSCFG_MSR_MtrrFixDramModEn = 0x80000"

definition fixed_mtrrs_expose_amd_rwdram :: "bool \<Rightarrow> cpu \<Rightarrow> cpu" where
  "fixed_mtrrs_expose_amd_rwdram config_amd c =
     (if \<not> config_amd then c
      else let m = rdmsr c SYSCFG_MSR in wrmsr SYSCFG_MSR (m\<lparr>msr_lo := msr_lo m OR SYSCFG_MSR_MtrrFixDramModEn\<rparr>) c)"

definition fixed_mtrrs_hide_amd_rwdram :: "bool \<Rightarrow> cpu \<Rightarrow> cpu" where
  "fixed_mtrrs_hide_amd_rwdram config_amd c =
     (if \<not> config_amd then c
      else let m = rdmsr c SYSCFG_MSR in wrmsr SYSCFG_MSR (m\<lparr>msr_lo := msr_lo m AND NOT SYSCFG_MSR_MtrrFixDramModEn\<rparr>) c)"

definition commit_fixed_mtrrs :: "bool \<Rightarrow> u8 list \<Rightarrow> cpu \<Rightarrow> cpu" where
  "commit_fixed_mtrrs config_amd types c =
     (let c = fixed_mtrrs_expose_amd_rwdram config_amd c;
          fixed_msrs = map (\<lambda>k. pack_types (drop (8 * k) types)) [0..<length fixed_msr_numbers];
          c = disable_cache c;
          c = fold (\<lambda>(n, m) c. wrmsr n m c) (zip fixed_msr_numbers fixed_msrs) c;
          c = enable_cache c
      in fixed_mtrrs_hide_amd_rwdram config_amd c)"

definition enable_fixed_mtrr :: "cpu \<Rightarrow> cpu" where
  "enable_fixed_mtrr c =
     (let m = rdmsr c MTRR_DEF_TYPE_MSR
      in wrmsr MTRR_DEF_TYPE_MSR (m\<lparr>msr_lo := msr_lo m OR (MTRR_DEF_TYPE_EN OR MTRR_DEF_TYPE_FIX_EN)\<rparr>) c)"

subsection \<open>The slots of the fixed registers\<close>

text \<open>Slot \<open>i\<close> starts at page \<open>slot_begin i\<close>; the last of the 88 ends at 1 MiB.\<close>

definition slot_begin :: "nat \<Rightarrow> nat" where
  "slot_begin i = (if i < 8 then 16 * i else if i < 24 then 0x80 + 4 * (i - 8) else 0xC0 + (i - 24))"

definition slot_of :: "nat \<Rightarrow> nat" where
  "slot_of p = (if p < 0x80 then p div 16 else if p < 0xC0 then 8 + (p - 0x80) div 4 else 24 + (p - 0xC0))"

definition desc_of :: "nat \<Rightarrow> nat" where
  "desc_of i = (if i < 8 then 0 else if i < 24 then 1 else if i < 88 then 2 else 3)"

lemma slot_begin_mono: "i < j \<Longrightarrow> slot_begin i < slot_begin j"
  by (auto simp: slot_begin_def)

lemma slot_begin_inj [simp]: "slot_begin i = slot_begin j \<longleftrightarrow> i = j"
  by (cases i j rule: linorder_cases) (auto dest: slot_begin_mono)

lemma slot_begin_less [simp]: "slot_begin i < slot_begin j \<longleftrightarrow> i < j"
  by (cases i j rule: linorder_cases) (auto dest: slot_begin_mono)

lemma slot_begin_88: "slot_begin 88 = 0x100"
  by (simp add: slot_begin_def)

lemma slot_begin_le: "i \<le> 88 \<Longrightarrow> slot_begin i \<le> 0x100"
  by (auto simp: slot_begin_def)

lemma slot_of_bounds: "p < 0x100 \<Longrightarrow> slot_of p < 88 \<and> slot_begin (slot_of p) \<le> p \<and> p < slot_begin (Suc (slot_of p))"
proof -
  assume p: "p < 0x100"
  consider "p < 0x80" | "0x80 \<le> p" "p < 0xC0" | "0xC0 \<le> p" by linarith
  then show ?thesis
  proof cases
    case 1
    then have "p div 16 < 8" "16 * (p div 16) \<le> p" "p < 16 * (p div 16) + 16" by linarith+
    then show ?thesis using 1 by (simp add: slot_of_def slot_begin_def)
  next
    case 2
    define q where "q = (p - 0x80) div 4"
    have "4 * q \<le> p - 0x80" "p - 0x80 < 4 * q + 4" unfolding q_def by linarith+
    then have "4 * q + 0x80 \<le> p" "p < 4 * q + 0x84" "q < 16" using 2 by linarith+
    then show ?thesis using 2 by (simp add: slot_of_def slot_begin_def q_def [symmetric])
  next
    case 3 then show ?thesis using p by (auto simp: slot_of_def slot_begin_def)
  qed
qed

lemma unat_slot [simp]: "i \<le> 88 \<Longrightarrow> unat (word_of_nat (slot_begin i) :: u32) = slot_begin i"
  using slot_begin_le [of i] by (intro unat_of_nat_lt) simp

lemma word_slot_eq: "i \<le> 88 \<Longrightarrow> j \<le> 88 \<Longrightarrow> (word_of_nat (slot_begin i) :: u32) = word_of_nat (slot_begin j) \<longleftrightarrow> i = j"
  by (metis slot_begin_inj unat_slot)

lemma slot_begin_Suc: "slot_begin (Suc i) = slot_begin i + (if i < 8 then 16 else if i < 24 then 4 else 1)"
  by (auto simp: slot_begin_def)

lemma slot_desc:
  assumes "i < 88"
  shows "desc_of i < 3" and "word_of_nat (slot_begin i) + fd_step (fixed_mtrr_descs ! desc_of i) = (word_of_nat (slot_begin (Suc i)) :: u32)"
    and "fd_end (fixed_mtrr_descs ! desc_of i) = (word_of_nat (slot_begin (if i < 8 then 8 else if i < 24 then 24 else 88)) :: u32)"
    and "range_index (fixed_mtrr_descs ! desc_of i) + unat ((word_of_nat (slot_begin i) - fd_begin (fixed_mtrr_descs ! desc_of i)) div fd_step (fixed_mtrr_descs ! desc_of i)) = i"
proof -
  show "desc_of i < 3" using assms by (simp add: desc_of_def)
  show "word_of_nat (slot_begin i) + fd_step (fixed_mtrr_descs ! desc_of i) = (word_of_nat (slot_begin (Suc i)) :: u32)"
  proof -
    have "fd_step (fixed_mtrr_descs ! desc_of i) = word_of_nat (if i < 8 then 16 else if i < 24 then 4 else 1)"
      using assms by (simp add: desc_of_def fixed_mtrr_descs_def)
    then show ?thesis unfolding slot_begin_Suc by (simp only: of_nat_add)
  qed
  show "fd_end (fixed_mtrr_descs ! desc_of i) = (word_of_nat (slot_begin (if i < 8 then 8 else if i < 24 then 24 else 88)) :: u32)"
    using assms by (simp add: slot_begin_def desc_of_def fixed_mtrr_descs_def)
  show "range_index (fixed_mtrr_descs ! desc_of i) + unat ((word_of_nat (slot_begin i) - fd_begin (fixed_mtrr_descs ! desc_of i)) div fd_step (fixed_mtrr_descs ! desc_of i)) = i"
  proof -
    define b s r where "b = (if i < 8 then 0 else if i < 24 then 0x80 else 0xC0 :: nat)"
      and "s = (if i < 8 then 16 else if i < 24 then 4 else 1 :: nat)" and "r = (if i < 8 then 0 else if i < 24 then 8 else 24 :: nat)"
    have f: "fd_begin (fixed_mtrr_descs ! desc_of i) = word_of_nat b" "fd_step (fixed_mtrr_descs ! desc_of i) = word_of_nat s"
      "range_index (fixed_mtrr_descs ! desc_of i) = r"
      using assms by (simp_all add: desc_of_def fixed_mtrr_descs_def b_def s_def r_def)
    have sb: "slot_begin i = b + s * (i - r)" "r \<le> i" "0 < s" by (auto simp: slot_begin_def b_def s_def r_def)
    have "s * (i - r) < 2 ^ LENGTH(32)" "s < 2 ^ LENGTH(32)" using slot_begin_le [of i] assms sb(1) by (simp_all add: s_def)
    then have u: "unat (word_of_nat (s * (i - r)) :: u32) = s * (i - r)" "unat (word_of_nat s :: u32) = s"
      by (simp_all only: unat_of_nat_lt)
    have "word_of_nat (slot_begin i) - word_of_nat b = (word_of_nat (s * (i - r)) :: u32)" unfolding sb(1) of_nat_add by simp
    then show ?thesis unfolding f using u sb(2,3) by (simp add: unat_div)
  qed
qed

lemma length_descs: "length fixed_mtrr_descs = 3"
  by (simp add: fixed_mtrr_descs_def)

lemma fill_fixed_slots:
  assumes "i \<le> j" "j \<le> 88" "length types = 88"
  shows "fill_fixed ty (word_of_nat (slot_begin j)) (desc_of i) i (word_of_nat (slot_begin i)) types =
    Some (desc_of j, take i types @ replicate (j - i) ty @ drop j types)"
  using assms
proof (induction "j - i" arbitrary: i types)
  case 0
  then show ?case by (simp add: fill_fixed.simps)
next
  case (Suc n)
  then have i: "i < 88" "i < j" by simp_all
  let ?d = "if i < 8 then 8 else if i < 24 then 24 else 88 :: nat"
  have ne: "(word_of_nat (slot_begin i) :: u32) \<noteq> word_of_nat (slot_begin j)" using word_slot_eq [of i j] i Suc.prems(2) by simp
  have nx: "(word_of_nat (slot_begin (Suc i)) :: u32) = word_of_nat (slot_begin ?d) \<longleftrightarrow> Suc i = ?d"
    using i by (intro word_slot_eq) auto
  have d: "(if Suc i = ?d then desc_of i + 1 else desc_of i) = desc_of (Suc i)" using i(1) by (auto simp: desc_of_def)
  have "fill_fixed ty (word_of_nat (slot_begin j)) (desc_of i) i (word_of_nat (slot_begin i)) types =
      fill_fixed ty (word_of_nat (slot_begin j)) (desc_of (Suc i)) (Suc i) (word_of_nat (slot_begin (Suc i))) (types[i := ty])"
    using ne slot_desc [OF i(1)] i(1) d nx
    by (subst fill_fixed.simps) (simp add: Let_def NUM_FIXED_RANGES_def length_descs)
  also have "\<dots> = Some (desc_of j, take (Suc i) (types[i := ty]) @ replicate (j - Suc i) ty @ drop j (types[i := ty]))"
    using Suc by simp
  also have "take (Suc i) (types[i := ty]) @ replicate (j - Suc i) ty @ drop j (types[i := ty]) = take i types @ replicate (j - i) ty @ drop j types"
    using i Suc.prems by (simp add: take_Suc_conv_app_nth Suc_diff_Suc [symmetric])
  finally show ?case .
qed


lemma skip_desc_slot:
  assumes "i < 88" "d \<le> desc_of i"
  shows "skip_desc d (word_of_nat (slot_begin i)) = Some (desc_of i)"
  using assms(2)
proof (induction "desc_of i - d" arbitrary: d)
  case 0
  then have d: "d = desc_of i" by simp
  have "(word_of_nat (slot_begin i) :: u32) < fd_end (fixed_mtrr_descs ! desc_of i)"
    unfolding slot_desc(3) [OF assms(1)] word_less_nat_alt using assms(1) by auto
  then show ?case using slot_desc(1) [OF assms(1)] unfolding d by (subst skip_desc.simps) (auto simp: length_descs)
next
  case (Suc n)
  then have d: "d < desc_of i" by simp
  then have e: "fd_end (fixed_mtrr_descs ! d) = (word_of_nat (slot_begin (if d = 0 then 8 else 24)) :: u32)"
    using slot_desc(1) [OF assms(1)] by (auto simp: slot_begin_def fixed_mtrr_descs_def less_Suc_eq numeral_3_eq_3)
  have "(if d = 0 then 8 else 24) \<le> i" using d assms(1) by (auto simp: desc_of_def split: if_splits)
  then have "slot_begin (if d = 0 then 8 else 24) \<le> slot_begin i" by (metis slot_begin_less not_less)
  then have "fd_end (fixed_mtrr_descs ! d) \<le> word_of_nat (slot_begin i)"
    unfolding e word_le_nat_alt using assms(1) by simp
  moreover have "d < 3" using d slot_desc(1) [OF assms(1)] by simp
  ultimately show ?case using Suc by (subst skip_desc.simps) (simp add: length_descs)
qed

text \<open>The type a range gives the slots it holds.\<close>

definition fixed_type :: "u8 \<Rightarrow> range_entry \<Rightarrow> u8" where
  "fixed_type wrback_bits r =
     (let ty = ucast (range_entry_tag r) :: u8 in if ty = 6 then ty OR wrback_bits else ty)"

text \<open>Ranges of whole pages below 16 TiB whose ends, as far as they lie below 1 MiB, are those of slots.\<close>

definition fixed_space_ok :: "range_entry list \<Rightarrow> bool" where
  "fixed_space_ok es \<longleftrightarrow>
     ranges_ok es \<and>
     (\<forall>r\<in>set es. 2 ^ 12 dvd unat (r_begin r) \<and> 2 ^ 12 dvd unat (r_end r) + 1 \<and> unat (r_end r) + 1 < 2 ^ 44 \<and>
        min (page_begin r) 0x100 \<in> slot_begin ` {0..88} \<and> min (page_end r) 0x100 \<in> slot_begin ` {0..88})"

lemma fixed_pages:
  assumes "fixed_space_ok (r # rs)"
  shows "page_begin r < page_end r" "ucast (range_entry_base_mtrr_addr r) = (word_of_nat (page_begin r) :: u32)"
    "ucast (range_entry_end_mtrr_addr r) = (word_of_nat (page_end r) :: u32)" "page_end r < 2 ^ 32" "fixed_space_ok rs"
    "q \<in> set rs \<Longrightarrow> page_end r \<le> page_begin q"
proof -
  have ok: "2 ^ 12 dvd unat (r_begin r)" "2 ^ 12 dvd unat (r_end r) + 1" "unat (r_end r) + 1 < 2 ^ 44" "r_begin r \<le> r_end r"
    using assms by (auto simp: fixed_space_ok_def ranges_ok_Cons)
  show "page_begin r < page_end r" using in_range_pages [OF ok(1,2), of "r_begin r"] ok(4) by (auto simp: page_begin_def)
  have "unat (r_end r) < 2 ^ 52" using ok(3) by simp
  note e = entry_pages [OF this]
  show "ucast (range_entry_base_mtrr_addr r) = (word_of_nat (page_begin r) :: u32)"
    "ucast (range_entry_end_mtrr_addr r) = (word_of_nat (page_end r) :: u32)"
    unfolding e [symmetric] by simp_all
  have "unat (r_end r) + 1 < 2 ^ 32 * 2 ^ 12" using ok(3) by simp
  then show "page_end r < 2 ^ 32" unfolding page_end_def by (simp add: div_less_iff_less_mult)
  show "fixed_space_ok rs" using assms by (simp add: fixed_space_ok_def ranges_ok_Cons)
  show "page_end r \<le> page_begin q" if "q \<in> set rs"
  proof -
    have "unat (r_end r) + 1 \<le> unat (r_begin q)"
      using assms that by (auto simp: fixed_space_ok_def ranges_ok_Cons word_less_nat_alt)
    then show ?thesis unfolding page_end_def page_begin_def by (rule div_le_mono)
  qed
qed

lemma fixed_entries_facts:
  assumes "fixed_space_ok es" "i0 \<le> 88" "\<forall>r\<in>set es. slot_begin i0 \<le> page_begin r" "length types = 88"
  shows "\<exists>out. fixed_entries wrback_bits es (desc_of i0) types = Some out \<and> length out = 88 \<and>
    (\<forall>k<88. (\<forall>r\<in>set es. page_begin r \<le> slot_begin k \<and> slot_begin k < page_end r \<longrightarrow> out ! k = fixed_type wrback_bits r) \<and>
      ((\<forall>r\<in>set es. \<not> (page_begin r \<le> slot_begin k \<and> slot_begin k < page_end r)) \<longrightarrow> out ! k = types ! k))"
  using assms
proof (induction es arbitrary: i0 types)
  case (Cons r rs)
  note pg = fixed_pages [OF Cons.prems(1)]
  have pb: "page_begin r < 2 ^ 32" using pg(1,4) by simp
  have ub: "unat (word_of_nat (page_begin r) :: u32) = page_begin r" "unat (word_of_nat (page_end r) :: u32) = page_end r"
    using pb pg(4) by (intro unat_of_nat_lt; simp)+
  have final: "fd_end (last fixed_mtrr_descs) = word_of_nat (slot_begin 88)" by (simp add: fixed_mtrr_descs_def slot_begin_def)
  show ?case
  proof (cases "0x100 \<le> page_begin r")
    case True
    then have "fixed_entries wrback_bits (r # rs) (desc_of i0) types = Some types"
      by (simp add: Let_def pg(2) final word_le_nat_alt ub(1) slot_begin_88)
    moreover have "\<not> page_begin q \<le> slot_begin k" if "q \<in> set (r # rs)" "k < 88" for q k
    proof -
      have "slot_begin k < 0x100" using that(2) slot_begin_less [of k 88] slot_begin_88 by simp
      then show ?thesis using True that(1) pg(1,6) by fastforce
    qed
    ultimately show ?thesis using Cons.prems(4) by blast
  next
    case False
    obtain i where i: "i \<le> 88" "page_begin r = slot_begin i"
      using Cons.prems(1) False by (auto simp: fixed_space_ok_def min_def)
    obtain j where j: "j \<le> 88" "min (page_end r) 0x100 = slot_begin j"
      using Cons.prems(1) by (auto simp: fixed_space_ok_def)
    have i88: "i < 88" using i False slot_begin_88 by (metis le_neq_implies_less order_refl)
    have "slot_begin i < slot_begin j" using pg(1) False i(2) j(2) by linarith
    then have ij: "i < j" by simp
    have "slot_begin i0 \<le> slot_begin i" using Cons.prems(3) i(2) by simp
    then have "i0 \<le> i" by (metis slot_begin_less not_less)
    then have "desc_of i0 \<le> desc_of i" by (auto simp: desc_of_def)
    note sk = skip_desc_slot [OF i88 this]
    define out1 where "out1 = take i types @ replicate (j - i) (fixed_type wrback_bits r) @ drop j types"
    have l1: "length out1 = 88" using i j ij Cons.prems(4) by (simp add: out1_def)
    have n1: "out1 ! k = (if i \<le> k \<and> k < j then fixed_type wrback_bits r else types ! k)" if "k < 88" for k
      using that i j ij Cons.prems(4) by (auto simp: out1_def nth_append)
    have e: "(if fd_end (last fixed_mtrr_descs) < word_of_nat (page_end r) then fd_end (last fixed_mtrr_descs) else word_of_nat (page_end r)) =
        (word_of_nat (slot_begin j) :: u32)"
      unfolding final word_less_nat_alt ub(2) using j slot_begin_88 by (auto simp: min_def split: if_splits)
    have nl: "\<not> fd_end (last fixed_mtrr_descs) \<le> (word_of_nat (slot_begin i) :: u32)"
      unfolding final word_le_nat_alt using i88 by (simp add: not_le)
    have step: "fixed_entries wrback_bits (r # rs) (desc_of i0) types = fixed_entries wrback_bits rs (desc_of j) out1"
      using sk slot_desc(4) [OF i88] fill_fixed_slots [of i j types "fixed_type wrback_bits r"] nl e i j ij Cons.prems(4)
      by (simp add: Let_def pg(2,3) i(2) out1_def fixed_type_def)
    have "\<forall>q\<in>set rs. slot_begin j \<le> page_begin q" using pg(6) j(2) by fastforce
    from Cons.IH [OF pg(5) j(1) this l1] obtain out where out: "fixed_entries wrback_bits rs (desc_of j) out1 = Some out" "length out = 88"
      "\<And>k q. k < 88 \<Longrightarrow> q \<in> set rs \<Longrightarrow> page_begin q \<le> slot_begin k \<Longrightarrow> slot_begin k < page_end q \<Longrightarrow> out ! k = fixed_type wrback_bits q"
      "\<And>k. k < 88 \<Longrightarrow> (\<forall>q\<in>set rs. \<not> (page_begin q \<le> slot_begin k \<and> slot_begin k < page_end q)) \<Longrightarrow> out ! k = out1 ! k"
      by blast
    have in_r: "page_begin r \<le> slot_begin k \<and> slot_begin k < page_end r \<longleftrightarrow> i \<le> k \<and> k < j" if "k < 88" for k
    proof -
      have "slot_begin k < 0x100" using that slot_begin_less [of k 88] slot_begin_88 by simp
      then have "slot_begin k < page_end r \<longleftrightarrow> slot_begin k < slot_begin j" using j(2) by linarith
      then show ?thesis unfolding i(2) by (simp add: not_less [symmetric])
    qed
    have late: "\<not> page_begin q \<le> slot_begin k" if "q \<in> set rs" "slot_begin k < page_end r" for q k
      using pg(6) [OF that(1)] that(2) by linarith
    show ?thesis
      unfolding step
    proof (intro exI [of _ out] conjI allI impI ballI)
      fix k q assume k: "k < 88" and q: "q \<in> set (r # rs)" "page_begin q \<le> slot_begin k \<and> slot_begin k < page_end q"
      show "out ! k = fixed_type wrback_bits q"
      proof (cases "q \<in> set rs")
        case True then show ?thesis using out(3) k q(2) by blast
      next
        case False
        then have qr: "q = r" using q(1) by simp
        then have "\<forall>q\<in>set rs. \<not> (page_begin q \<le> slot_begin k \<and> slot_begin k < page_end q)" using late q(2) by blast
        then show ?thesis using out(4) [OF k] n1 [OF k] in_r [OF k] q(2) unfolding qr by simp
      qed
    next
      fix k assume k: "k < 88" and none: "\<forall>q\<in>set (r # rs). \<not> (page_begin q \<le> slot_begin k \<and> slot_begin k < page_end q)"
      then have "out ! k = out1 ! k" using out(4) by simp
      moreover have "\<not> (i \<le> k \<and> k < j)" using none in_r [OF k] by auto
      ultimately show "out ! k = types ! k" using n1 [OF k] by simp
    qed (use out in simp_all)
  qed
qed simp


text \<open>
  The types of the first megabyte: an address has the type of its slot, and the slot that of the range
  the address is in.
\<close>

lemma calc_fixed_types:
  assumes "fixed_space_ok es"
  obtains types where "calc_fixed_mtrrs wrback_bits es = Some types" "length types = 88"
    and "\<And>x r. unat x < 2 ^ 20 \<Longrightarrow> r \<in> set es \<Longrightarrow> r_begin r \<le> x \<Longrightarrow> x \<le> r_end r \<Longrightarrow> types ! slot_of (unat x div 2 ^ 12) = fixed_type wrback_bits r"
    and "\<And>x. unat x < 2 ^ 20 \<Longrightarrow> tag_at es x = None \<Longrightarrow> types ! slot_of (unat x div 2 ^ 12) = 0"
proof -
  have "slot_begin 0 = 0" "desc_of 0 = 0" by (simp_all add: slot_begin_def desc_of_def)
  with fixed_entries_facts [OF assms, of 0 "replicate NUM_FIXED_RANGES 0" wrback_bits]
  obtain out where out: "calc_fixed_mtrrs wrback_bits es = Some out" "length out = 88"
    "\<And>k r. k < 88 \<Longrightarrow> r \<in> set es \<Longrightarrow> page_begin r \<le> slot_begin k \<Longrightarrow> slot_begin k < page_end r \<Longrightarrow> out ! k = fixed_type wrback_bits r"
    "\<And>k. k < 88 \<Longrightarrow> (\<forall>r\<in>set es. \<not> (page_begin r \<le> slot_begin k \<and> slot_begin k < page_end r)) \<Longrightarrow> out ! k = 0"
    unfolding calc_fixed_mtrrs_def by (auto simp: NUM_FIXED_RANGES_def)
  have in_slot: "r_begin r \<le> x \<and> x \<le> r_end r \<longleftrightarrow>
      page_begin r \<le> slot_begin (slot_of (unat x div 2 ^ 12)) \<and> slot_begin (slot_of (unat x div 2 ^ 12)) < page_end r"
    if x: "unat x < 2 ^ 20" and r: "r \<in> set es" for x r
  proof -
    let ?p = "unat x div 2 ^ 12"
    have p: "?p < 0x100" using x by (simp add: div_less_iff_less_mult)
    note s = slot_of_bounds [OF p]
    have al: "2 ^ 12 dvd unat (r_begin r)" "2 ^ 12 dvd unat (r_end r) + 1" using assms r by (auto simp: fixed_space_ok_def)
    obtain i where i: "i \<le> 88" "min (page_begin r) 0x100 = slot_begin i" using assms r by (auto simp: fixed_space_ok_def)
    obtain j where j: "j \<le> 88" "min (page_end r) 0x100 = slot_begin j" using assms r by (auto simp: fixed_space_ok_def)
    have cut: "slot_begin m \<le> ?p \<longleftrightarrow> slot_begin m \<le> slot_begin (slot_of ?p)" for m
    proof
      assume "slot_begin m \<le> ?p"
      then have "slot_begin m < slot_begin (Suc (slot_of ?p))" using s by linarith
      then show "slot_begin m \<le> slot_begin (slot_of ?p)" by (metis less_Suc_eq_le not_less slot_begin_less)
    qed (use s in linarith)
    have lt: "slot_begin (slot_of ?p) < 0x100" using s p by linarith
    have "page_begin r \<le> ?p \<longleftrightarrow> slot_begin i \<le> ?p" using i(2) p by linarith
    moreover have "page_begin r \<le> slot_begin (slot_of ?p) \<longleftrightarrow> slot_begin i \<le> slot_begin (slot_of ?p)" using i(2) lt by linarith
    moreover have "page_end r \<le> ?p \<longleftrightarrow> slot_begin j \<le> ?p" using j(2) p by linarith
    moreover have "page_end r \<le> slot_begin (slot_of ?p) \<longleftrightarrow> slot_begin j \<le> slot_begin (slot_of ?p)" using j(2) lt by linarith
    ultimately show ?thesis unfolding in_range_pages [OF al] using cut by (meson not_le)
  qed
  have k: "slot_of (unat x div 2 ^ 12) < 88" if "unat x < 2 ^ 20" for x :: addr
    using slot_of_bounds [of "unat x div 2 ^ 12"] that by (simp add: div_less_iff_less_mult)
  show ?thesis
  proof (rule that [OF out(1,2)])
    show "out ! slot_of (unat x div 2 ^ 12) = fixed_type wrback_bits r"
      if "unat x < 2 ^ 20" "r \<in> set es" "r_begin r \<le> x" "x \<le> r_end r" for x r
      using out(3) [OF k [OF that(1)] that(2)] in_slot [OF that(1,2)] that(3,4) by blast
    show "out ! slot_of (unat x div 2 ^ 12) = 0" if "unat x < 2 ^ 20" "tag_at es x = None" for x
      using out(4) [OF k [OF that(1)]] in_slot [OF that(1)] that(2) unfolding tag_at_None_iff by blast
  qed
qed

text \<open>A range that starts at a slot and ends inside one: the loop steps over its end.\<close>

lemma fill_fixed_unaligned:
  assumes "i \<le> 88" "e < 0x100" "e \<notin> slot_begin ` {0..88}"
  shows "fill_fixed ty (word_of_nat e) (desc_of i) i (word_of_nat (slot_begin i)) types = None"
  using assms(1)
proof (induction "88 - i" arbitrary: i types)
  have e: "unat (word_of_nat e :: u32) = e" using assms(2) by (intro unat_of_nat_lt) simp
  have ne: "(word_of_nat (slot_begin i) :: u32) \<noteq> word_of_nat e" if "i \<le> 88" for i
    using assms(3) that e unat_slot [OF that] by (metis atLeastAtMost_iff image_eqI zero_le)
  {
    case 0
    then have "i = 88" by simp
    then show ?case using ne [of 88] by (subst fill_fixed.simps) (simp add: length_descs desc_of_def)
  next
    case (Suc n)
    then have i: "i < 88" by simp
    let ?d = "if i < 8 then 8 else if i < 24 then 24 else 88 :: nat"
    have nx: "(word_of_nat (slot_begin (Suc i)) :: u32) = word_of_nat (slot_begin ?d) \<longleftrightarrow> Suc i = ?d"
      using i by (intro word_slot_eq) auto
    have d: "(if Suc i = ?d then desc_of i + 1 else desc_of i) = desc_of (Suc i)" using i(1) by (auto simp: desc_of_def)
    have "fill_fixed ty (word_of_nat e) (desc_of i) i (word_of_nat (slot_begin i)) types =
        fill_fixed ty (word_of_nat e) (desc_of (Suc i)) (Suc i) (word_of_nat (slot_begin (Suc i))) (types[i := ty])"
      using ne [of i] slot_desc [OF i] i d nx by (subst fill_fixed.simps) (simp add: Let_def NUM_FIXED_RANGES_def length_descs)
    also have "\<dots> = None" using Suc by simp
    finally show ?case .
  }
qed

text \<open>Each byte of a fixed register is the type of its slot.\<close>

definition fixed_byte :: "cpu \<Rightarrow> nat \<Rightarrow> u8" where
  "fixed_byte c k = ucast (drop_bit (8 * (k mod 8)) (msr_value (msrs c (fixed_msr_numbers ! (k div 8)))))"

lemma fixed_msr_numbers_eq: "fixed_msr_numbers = [0x250, 0x258, 0x259, 0x268, 0x269, 0x26A, 0x26B, 0x26C, 0x26D, 0x26E, 0x26F]"
  by (simp add: fixed_msr_numbers_def fixed_mtrr_descs_def upt_rec)

lemma pack_types_byte:
  assumes "k < 8"
  shows "ucast (drop_bit (8 * k) (msr_value (pack_types ts))) = ts ! k"
proof (rule bit_word_eqI)
  fix n assume "n < LENGTH(8)"
  then have n: "n < 8" by simp
  have off: "\<not> bit (ts ! j) m" if "8 \<le> m" for j m using that bit_imp_le_length [of "ts ! j" m] by auto
  have lo: "bit (msr_value (pack_types ts)) m \<longleftrightarrow> m < 32 \<and> bit (msr_lo (pack_types ts)) m \<or> 32 \<le> m \<and> m < 64 \<and> bit (msr_hi (pack_types ts)) (m - 32)" for m
    using bit_imp_le_length [of "msr_lo (pack_types ts)" m] by (auto simp: msr_value_def bit_simps)
  consider "k = 0" | "k = 1" | "k = 2" | "k = 3" | "k = 4" | "k = 5" | "k = 6" | "k = 7" using assms by linarith
  then show "bit (ucast (drop_bit (8 * k) (msr_value (pack_types ts))) :: u8) n = bit (ts ! k) n"
    by cases (use n in \<open>simp_all add: bit_ucast_iff bit_drop_bit_eq lo\<close>, simp_all add: pack_types_def bit_or_iff bit_push_bit_iff bit_ucast_iff off)
qed

lemma fold_wrmsr_other: "n \<notin> set ns \<Longrightarrow> msrs (fold (\<lambda>(n, r) c. wrmsr n r c) (zip ns ms) c) n = msrs c n"
  by (induction ns ms arbitrary: c rule: list_induct2') auto

lemma fold_wrmsr_nth:
  "distinct ns \<Longrightarrow> length ns = length ms \<Longrightarrow> m < length ns \<Longrightarrow>
   msrs (fold (\<lambda>(n, r) c. wrmsr n r c) (zip ns ms) c) (ns ! m) = ms ! m"
proof (induction ns arbitrary: ms m c)
  case (Cons n ns)
  then obtain r rs where "ms = r # rs" by (cases ms) auto
  with Cons show ?case by (cases m) (simp_all add: fold_wrmsr_other)
qed simp

lemma commit_fixed_bytes:
  assumes "k < 88" "length types = 88"
  shows "fixed_byte (commit_fixed_mtrrs amd types c) k = types ! k"
proof -
  let ?f = "\<lambda>m. pack_types (drop (8 * m) types)"
  have m: "k div 8 < 11" using assms(1) by simp
  have num: "fixed_msr_numbers ! j \<noteq> SYSCFG_MSR" if "j < 11" for j
  proof -
    have "fixed_msr_numbers ! j \<in> set fixed_msr_numbers" using that by (intro nth_mem) (simp add: fixed_msr_numbers_eq)
    moreover have "\<forall>n\<in>set fixed_msr_numbers. n < 0x1000" by (simp add: fixed_msr_numbers_eq)
    ultimately show ?thesis by (auto simp: SYSCFG_MSR_def)
  qed
  have hide: "msrs (fixed_mtrrs_hide_amd_rwdram amd c) n = msrs c n" if "n \<noteq> SYSCFG_MSR" for c n
    using that by (simp add: fixed_mtrrs_hide_amd_rwdram_def Let_def)
  have len: "length fixed_msr_numbers = 11" by (simp add: fixed_msr_numbers_eq)
  have "msrs (commit_fixed_mtrrs amd types c) (fixed_msr_numbers ! (k div 8)) = ?f (k div 8)"
    unfolding commit_fixed_mtrrs_def Let_def hide [OF num [OF m]] cache_msrs len
    using m by (subst fold_wrmsr_nth) (simp_all add: len fixed_msr_numbers_eq)
  then have "fixed_byte (commit_fixed_mtrrs amd types c) k = drop (8 * (k div 8)) types ! (k mod 8)"
    unfolding fixed_byte_def by (simp only: pack_types_byte mod_less_divisor zero_less_numeral)
  also have "\<dots> = types ! (8 * (k div 8) + k mod 8)" using assms by (intro nth_drop) simp
  finally show ?thesis by simp
qed


subsection \<open>The physical address space\<close>

definition PCI_CLASS_DISPLAY_VGA :: u32 where "PCI_CLASS_DISPLAY_VGA = 0x300"

definition filter_vga_wrcomb :: "device \<Rightarrow> resource \<Rightarrow> bool" where
  "filter_vga_wrcomb dev res \<longleftrightarrow>
     (if dev_path_type dev \<noteq> DEVICE_PATH_PCI then False
      else if drop_bit 8 (dev_class dev) \<noteq> PCI_CLASS_DISPLAY_VGA then False
      else True)"

text \<open>The ranges the device tree gives, before the holes below 4 GiB are filled.\<close>

definition resource_space :: "device list \<Rightarrow> nat \<Rightarrow> mst" where
  "resource_space all_devices heap =
     (let mask1 = IORESOURCE_CACHEABLE;
          s = memranges_init_with_alignment all_devices heap mask1 mask1 (ucast MTRR_TYPE_WRBACK) 12;
          s = memranges_add_resources all_devices s mask1 0 (ucast MTRR_TYPE_UNCACHEABLE);
          match = IORESOURCE_PREFETCH;
          mask1 = mask1 OR match
      in memranges_add_resources_filter all_devices s mask1 match (ucast MTRR_TYPE_WRCOMB) (Some filter_vga_wrcomb))"

definition build_address_space :: "device list \<Rightarrow> nat \<Rightarrow> mst" where
  "build_address_space all_devices heap =
     memranges_fill_holes_up_to (resource_space all_devices heap) (RANGE_TO_PHYS_ADDR RANGE_4GB) (ucast MTRR_TYPE_UNCACHEABLE)"

subsection \<open>The state of the file and its entry points\<close>

text \<open>
  The static variables. Those that the code fills on the first call only are options. The configuration
  holds the Kconfig switches, the device tree, and what \<^verbatim>\<open>cpu_phys_address_size\<close> and
  \<^verbatim>\<open>cpu_get_feature_flags_ecx\<close> read from the processor. \<open>quirk_x2apic_allowed\<close> is a static variable
  of \<^verbatim>\<open>src/cpu/x86/lapic/lapic.c\<close>.
\<close>

record mtrr_config =
  all_devices :: "device list"
  amd_fixed_mtrrs :: bool
  reserve_for_os :: bool
  phys_address_size :: nat
  xapic_only :: bool
  x2apic_late_workaround :: bool
  fatal_asserts :: bool
  feature_flags_ecx :: u32

record temp_range =
  tr_begin :: u64
  tr_size :: u64
  tr_type :: u32

record mtrr_globals =
  num_mtrrs :: nat
  phys_space :: "memranges option"
  heap_cells :: nat
  fixed_types :: "u8 list option"
  global_solution :: "var_mtrr_solution option"
  put_back_original_solution :: bool
  temp_ranges :: "temp_range list"
  quirk_x2apic_allowed :: bool

definition MTRR_READ_MEM :: u8 where "MTRR_READ_MEM = 0x10"
definition MTRR_WRITE_MEM :: u8 where "MTRR_WRITE_MEM = 0x08"

definition MTRR_FIXED_WRBACK_BITS :: "mtrr_config \<Rightarrow> u8" where
  "MTRR_FIXED_WRBACK_BITS cfg = (if amd_fixed_mtrrs cfg then MTRR_READ_MEM OR MTRR_WRITE_MEM else 0)"

definition get_physical_address_space :: "mtrr_config \<Rightarrow> mtrr_globals \<Rightarrow> memranges \<times> mtrr_globals" where
  "get_physical_address_space cfg g =
     (case phys_space g of
        Some s \<Rightarrow> (s, g)
      | None \<Rightarrow> (case build_address_space (all_devices cfg) (heap_cells g) of
                   (s, h) \<Rightarrow> (s, g\<lparr>phys_space := Some s, heap_cells := h\<rparr>)))"

text \<open>None when the computation of the types runs over its tables.\<close>

definition x86_setup_fixed_mtrrs_no_enable :: "mtrr_config \<Rightarrow> mtrr_globals \<times> cpu \<Rightarrow> (mtrr_globals \<times> cpu) option" where
  "x86_setup_fixed_mtrrs_no_enable cfg st =
     (case st of (g, c) \<Rightarrow>
        case fixed_types g of
          Some types \<Rightarrow> Some (g, commit_fixed_mtrrs (amd_fixed_mtrrs cfg) types c)
        | None \<Rightarrow>
            (case get_physical_address_space cfg g of (s, g1) \<Rightarrow>
               case calc_fixed_mtrrs (MTRR_FIXED_WRBACK_BITS cfg) (entries s) of
                 None \<Rightarrow> None
               | Some types \<Rightarrow> Some (g1\<lparr>fixed_types := Some types\<rparr>, commit_fixed_mtrrs (amd_fixed_mtrrs cfg) types c)))"

definition x86_setup_fixed_mtrrs :: "mtrr_config \<Rightarrow> mtrr_globals \<times> cpu \<Rightarrow> (mtrr_globals \<times> cpu) option" where
  "x86_setup_fixed_mtrrs cfg st = map_option (\<lambda>(g, c). (g, enable_fixed_mtrr c)) (x86_setup_fixed_mtrrs_no_enable cfg st)"

definition zero_solution :: var_mtrr_solution where
  "zero_solution = \<lparr>mtrr_default_type = 0, num_used = 0,
     sol_regs = replicate NUM_MTRR_STATIC_STORAGE \<lparr>reg_base = \<lparr>msr_lo = 0, msr_hi = 0\<rparr>, reg_mask = \<lparr>msr_lo = 0, msr_hi = 0\<rparr>\<rparr>\<rparr>"

text \<open>The solution of an address space, whose write-combining ranges may be given up on the way.\<close>

definition solve_mtrrs :: "mtrr_config \<Rightarrow> nat \<Rightarrow> memranges \<Rightarrow> bool \<Rightarrow> nat \<Rightarrow> var_mtrr_solution \<times> memranges" where
  "solve_mtrrs cfg total_mtrrs s high bits =
     (case calc_var_mtrrs (reserve_for_os cfg) total_mtrrs s high bits of
        (def_type, s1) \<Rightarrow>
          (prepare_var_mtrrs total_mtrrs (entries s1) def_type high bits (zero_solution\<lparr>mtrr_default_type := def_type\<rparr>), s1))"

definition x86_setup_var_mtrrs :: "mtrr_config \<Rightarrow> nat \<Rightarrow> bool \<Rightarrow> mtrr_globals \<times> cpu \<Rightarrow> mtrr_globals \<times> cpu" where
  "x86_setup_var_mtrrs cfg bits high st =
     (case st of (g, c) \<Rightarrow>
        case get_physical_address_space cfg g of (s, g1) \<Rightarrow>
          (case global_solution g1 of
             Some sol \<Rightarrow> (g1, snd (commit_var_mtrrs (num_mtrrs g1) sol c))
           | None \<Rightarrow>
               (case solve_mtrrs cfg (num_mtrrs g1) s high bits of (sol, s1) \<Rightarrow>
                  (g1\<lparr>phys_space := Some s1, global_solution := Some sol\<rparr>, snd (commit_var_mtrrs (num_mtrrs g1) sol c)))))"

text \<open>A copy of the address space without write-combining ranges, with every temporary range written over it.\<close>

definition temp_address_space :: "memranges \<Rightarrow> temp_range list \<Rightarrow> nat \<Rightarrow> mst" where
  "temp_address_space orig trs heap =
     fold (\<lambda>t s. if tr_size t \<noteq> 0 then memranges_insert s (tr_begin t) (tr_size t) (scast (tr_type t)) else s) trs
       (fold (\<lambda>r s. let tag = (if range_entry_tag r = ucast MTRR_TYPE_WRCOMB then ucast MTRR_TYPE_UNCACHEABLE else range_entry_tag r)
                    in memranges_insert s (range_entry_base r) (range_entry_size r) tag)
         (entries orig) (memranges_init_empty_with_alignment [] 12, heap))"

fun claim_temp_range :: "temp_range \<Rightarrow> temp_range list \<Rightarrow> temp_range list option" where
  "claim_temp_range t [] = None"
| "claim_temp_range t (u # us) = (if tr_size u = 0 then Some (t # us) else map_option ((#) u) (claim_temp_range t us))"

definition mtrr_use_temp_range :: "mtrr_config \<Rightarrow> u64 \<Rightarrow> u64 \<Rightarrow> u32 \<Rightarrow> mtrr_globals \<times> cpu \<Rightarrow> mtrr_globals \<times> cpu" where
  "mtrr_use_temp_range cfg begin1 size1 ty st =
     (case st of (g, c) \<Rightarrow>
        if size1 = 0 then (g, c)
        else case claim_temp_range \<lparr>tr_begin = begin1, tr_size = size1, tr_type = ty\<rparr> (temp_ranges g) of
               None \<Rightarrow> (g, c)
             | Some trs \<Rightarrow>
                 (case get_physical_address_space cfg (g\<lparr>temp_ranges := trs\<rparr>) of (orig, g1) \<Rightarrow>
                    case temp_address_space orig trs (heap_cells g1) of (s, h) \<Rightarrow>
                      case solve_mtrrs cfg (num_mtrrs g1) s True (phys_address_size cfg) of (sol, s1) \<Rightarrow>
                        case commit_var_mtrrs (num_mtrrs g1) sol c of (ok, c1) \<Rightarrow>
                          (g1\<lparr>heap_cells := h, put_back_original_solution := ok \<or> put_back_original_solution g1\<rparr>, c1)))"

definition remove_temp_solution :: "mtrr_globals \<times> cpu \<Rightarrow> mtrr_globals \<times> cpu" where
  "remove_temp_solution st =
     (case st of (g, c) \<Rightarrow>
        if put_back_original_solution g
        then (g, snd (commit_var_mtrrs (num_mtrrs g)
                        (case global_solution g of Some sol \<Rightarrow> sol | None \<Rightarrow> zero_solution) c))
        else (g, c))"

subsection \<open>The local interrupt controller\<close>

definition LAPIC_BASE_MSR :: nat where "LAPIC_BASE_MSR = 0x1B"
definition LAPIC_BASE_MSR_X2APIC_MODE :: u32 where "LAPIC_BASE_MSR_X2APIC_MODE = 0x400"
definition LAPIC_BASE_MSR_ENABLE :: u32 where "LAPIC_BASE_MSR_ENABLE = 0x800"
definition LAPIC_BASE_MSR_ADDR_MASK :: u32 where "LAPIC_BASE_MSR_ADDR_MASK = 0xFFFFF000"
definition LAPIC_DEFAULT_BASE :: u32 where "LAPIC_DEFAULT_BASE = 0xFEE00000"
definition CPUID_X2APIC :: u32 where "CPUID_X2APIC = 0x200000"

lemmas lapic_defs =
  LAPIC_BASE_MSR_def LAPIC_BASE_MSR_X2APIC_MODE_def LAPIC_BASE_MSR_ENABLE_def LAPIC_BASE_MSR_ADDR_MASK_def LAPIC_DEFAULT_BASE_def

text \<open>A failed assertion stops the machine only when assertions are configured to be fatal; None is a stop.\<close>

definition ASSERT :: "mtrr_config \<Rightarrow> bool \<Rightarrow> 'a option \<Rightarrow> 'a option" where
  "ASSERT cfg b k = (if \<not> b \<and> fatal_asserts cfg then None else k)"

definition enable_lapic_mode :: "mtrr_config \<Rightarrow> bool \<Rightarrow> mtrr_globals \<times> cpu \<Rightarrow> (mtrr_globals \<times> cpu) option" where
  "enable_lapic_mode cfg try_set_x2apic st =
     (case st of (g, c) \<Rightarrow>
        let m = rdmsr c LAPIC_BASE_MSR;
            c1 = (if msr_lo m AND LAPIC_BASE_MSR_ENABLE = 0
                  then wrmsr LAPIC_BASE_MSR
                         \<lparr>msr_lo = ((msr_lo m AND NOT LAPIC_BASE_MSR_ADDR_MASK) OR LAPIC_DEFAULT_BASE) OR LAPIC_BASE_MSR_ENABLE,
                          msr_hi = msr_hi m AND 0xFFFFFF00\<rparr> c
                  else c);
            m1 = rdmsr c1 LAPIC_BASE_MSR;
            use_x2apic = (try_set_x2apic \<and> feature_flags_ecx cfg AND CPUID_X2APIC \<noteq> 0)
        in ASSERT cfg (msr_lo m1 AND LAPIC_BASE_MSR_ENABLE \<noteq> 0)
             (ASSERT cfg (msr_lo m1 AND LAPIC_BASE_MSR_ADDR_MASK = LAPIC_DEFAULT_BASE)
               (let g1 = (if x2apic_late_workaround cfg \<and> use_x2apic then g\<lparr>quirk_x2apic_allowed := True\<rparr> else g)
                in if use_x2apic = (msr_lo m1 AND LAPIC_BASE_MSR_X2APIC_MODE \<noteq> 0) then Some (g1, c1)
                   else if use_x2apic
                     then (let c2 = wrmsr LAPIC_BASE_MSR (m1\<lparr>msr_lo := msr_lo m1 OR LAPIC_BASE_MSR_X2APIC_MODE\<rparr>) c1
                           in ASSERT cfg (msr_lo (rdmsr c2 LAPIC_BASE_MSR) AND LAPIC_BASE_MSR_X2APIC_MODE \<noteq> 0) (Some (g1, c2)))
                   else None)))"

definition enable_lapic :: "mtrr_config \<Rightarrow> mtrr_globals \<times> cpu \<Rightarrow> (mtrr_globals \<times> cpu) option" where
  "enable_lapic cfg st =
     (let try_set_x2apic =
        (if xapic_only cfg then False else if x2apic_late_workaround cfg then quirk_x2apic_allowed (fst st) else True)
      in enable_lapic_mode cfg try_set_x2apic st)"

subsection \<open>The entry points\<close>

definition setup_mtrrs :: "mtrr_config \<Rightarrow> bool \<Rightarrow> mtrr_globals \<times> cpu \<Rightarrow> (mtrr_globals \<times> cpu) option" where
  "setup_mtrrs cfg high st =
     Option.bind (Option.bind (enable_lapic cfg st) (x86_setup_fixed_mtrrs cfg))
       (Some \<circ> x86_setup_var_mtrrs cfg (phys_address_size cfg) high)"

definition x86_setup_mtrrs :: "mtrr_config \<Rightarrow> mtrr_globals \<times> cpu \<Rightarrow> (mtrr_globals \<times> cpu) option" where
  "x86_setup_mtrrs cfg st = (case st of (g, c) \<Rightarrow> setup_mtrrs cfg True (g\<lparr>num_mtrrs := MIN_MTRRS\<rparr>, c))"

definition x86_setup_mtrrs_with_detect :: "mtrr_config \<Rightarrow> mtrr_globals \<times> cpu \<Rightarrow> (mtrr_globals \<times> cpu) option" where
  "x86_setup_mtrrs_with_detect cfg st = (case st of (g, c) \<Rightarrow> setup_mtrrs cfg True (g\<lparr>num_mtrrs := detect_var_mtrrs c\<rparr>, c))"

definition x86_setup_mtrrs_with_detect_no_above_4gb :: "mtrr_config \<Rightarrow> mtrr_globals \<times> cpu \<Rightarrow> (mtrr_globals \<times> cpu) option" where
  "x86_setup_mtrrs_with_detect_no_above_4gb cfg st =
     (case st of (g, c) \<Rightarrow> setup_mtrrs cfg False (g\<lparr>num_mtrrs := detect_var_mtrrs c\<rparr>, c))"


subsection \<open>Address spaces made of pages\<close>

text \<open>
  An address space as the insertions leave it: canonical, with one tag per page, inside the width of
  physical addresses and with write-back memory below 8 TiB.
\<close>

definition mtrr_map_ok :: "nat \<Rightarrow> range_entry list \<Rightarrow> bool" where
  "mtrr_map_ok width es \<longleftrightarrow>
     ranges_ok es \<and> no_mergeable es \<and> 33 \<le> width \<and> width \<le> 52 \<and>
     (\<forall>x y. unat x div 2 ^ 12 = unat y div 2 ^ 12 \<longrightarrow> tag_at es x = tag_at es y) \<and>
     (\<forall>x t. tag_at es x = Some t \<longrightarrow> unat x < 2 ^ width \<and> (ucast (t AND 0xFF) = MTRR_TYPE_WRBACK \<longrightarrow> unat x < 2 ^ 43 - 2 ^ 12))"

lemma same_page_pred:
  fixes n :: nat
  assumes "\<not> P dvd n"
  shows "(n - 1) div P = n div P"
proof -
  obtain m where m: "n = Suc m" using assms by (cases n) simp_all
  show ?thesis using assms unfolding m by (simp add: div_Suc dvd_eq_mod_eq_0 mod_Suc)
qed

text \<open>In a canonical list the tag changes at both ends of every range.\<close>

lemma tag_changes:
  assumes ok: "ranges_ok es" "no_mergeable es" and r: "r \<in> set es"
  shows "0 < unat (r_begin r) \<Longrightarrow> tag_at es (r_begin r - 1) \<noteq> Some (r_tag r)"
    and "unat (r_end r) < 0xFFFFFFFFFFFFFFFF \<Longrightarrow> tag_at es (r_end r + 1) \<noteq> Some (r_tag r)"
proof -
  have be: "r_begin r \<le> r_end r" using ok(1) r by (simp add: ranges_ok_def)
  show "tag_at es (r_begin r - 1) \<noteq> Some (r_tag r)" if pos: "0 < unat (r_begin r)"
  proof
    assume t: "tag_at es (r_begin r - 1) = Some (r_tag r)"
    have u: "unat (r_begin r - 1) = unat (r_begin r) - 1" by (rule unat_pred [OF pos])
    obtain q where q: "q \<in> set es" "r_begin q \<le> r_begin r - 1" "r_begin r - 1 \<le> r_end q" "r_tag q = r_tag r"
      using tag_at_Some_mem [OF t] by blast
    have "q \<noteq> r" using q(2) u pos by (auto simp: unat_simps)
    then have "r_end q < r_begin r" using ranges_ok_apart [OF ok(1) q(1) r] q(2) u be by (auto simp: unat_simps)
    moreover from this have "r_begin r = r_end q + 1"
      using q(3) u unat_inc_lt [of "r_end q" "r_begin r"] by (intro word_eq_unatI) (simp add: unat_simps)
    ultimately show False using no_mergeable_tags [OF ok q(1) r] q(4) by blast
  qed
  show "tag_at es (r_end r + 1) \<noteq> Some (r_tag r)" if lt: "unat (r_end r) < 0xFFFFFFFFFFFFFFFF"
  proof
    assume t: "tag_at es (r_end r + 1) = Some (r_tag r)"
    have u: "unat (r_end r + 1) = unat (r_end r) + 1" by (rule unat_suc_64 [OF lt])
    obtain q where q: "q \<in> set es" "r_begin q \<le> r_end r + 1" "r_end r + 1 \<le> r_end q" "r_tag q = r_tag r"
      using tag_at_Some_mem [OF t] by blast
    have "q \<noteq> r" using q(3) u by (auto simp: unat_simps)
    then have l: "r_end r < r_begin q" using ranges_ok_apart [OF ok(1) q(1) r] q(3) u be by (auto simp: unat_simps)
    moreover from this have "r_begin q = r_end r + 1" using q(2) u by (intro word_eq_unatI) (simp add: unat_simps)
    ultimately show False using no_mergeable_tags [OF ok r q(1)] q(4) by simp
  qed
qed

lemma range_end_tags:
  "ranges_ok es \<Longrightarrow> r \<in> set es \<Longrightarrow> tag_at es (r_begin r) = Some (r_tag r) \<and> tag_at es (r_end r) = Some (r_tag r)"
  using tag_at_mem [of es r "r_begin r"] tag_at_mem [of es r "r_end r"] by (simp add: ranges_ok_def)

lemma page_boundaries:
  assumes ok: "ranges_ok es" "no_mergeable es" and pt: "\<And>x y. unat x div 2 ^ 12 = unat y div 2 ^ 12 \<Longrightarrow> tag_at es x = tag_at es y"
    and r: "r \<in> set es"
  shows "2 ^ 12 dvd unat (r_begin r)" and "2 ^ 12 dvd unat (r_end r) + 1"
proof -
  note tags = range_end_tags [OF ok(1) r] and ch = tag_changes [OF ok r]
  show "2 ^ 12 dvd unat (r_begin r)"
  proof (rule ccontr)
    assume n: "\<not> 2 ^ 12 dvd unat (r_begin r)"
    then have pos: "0 < unat (r_begin r)" by (intro gr0I) simp
    have "tag_at es (r_begin r - 1) = tag_at es (r_begin r)"
      by (rule pt) (simp only: unat_pred [OF pos] same_page_pred [OF n])
    then show False using tags ch(1) [OF pos] by simp
  qed
  show "2 ^ 12 dvd unat (r_end r) + 1"
  proof (rule ccontr)
    assume n: "\<not> 2 ^ 12 dvd unat (r_end r) + 1"
    have "unat (r_end r) + 1 \<noteq> 2 ^ 64" using n by (intro notI) simp
    then have lt: "unat (r_end r) < 0xFFFFFFFFFFFFFFFF" using unat_lt_64 [of "r_end r"] by simp
    have "(unat (r_end r) + 1 - 1) div 2 ^ 12 = (unat (r_end r) + 1) div 2 ^ 12" by (rule same_page_pred [OF n])
    then have "tag_at es (r_end r + 1) = tag_at es (r_end r)" by (intro pt) (simp only: unat_suc_64 [OF lt] add_diff_cancel_right')
    then show False using tags ch(2) [OF lt] by simp
  qed
qed

lemma mtrr_map_space:
  assumes "mtrr_map_ok width es"
  shows "mtrr_space_ok width es"
proof -
  have ok: "ranges_ok es" "no_mergeable es" using assms by (simp_all add: mtrr_map_ok_def)
  have pt: "tag_at es x = tag_at es y" if "unat x div 2 ^ 12 = unat y div 2 ^ 12" for x y
    using assms that unfolding mtrr_map_ok_def by blast
  have bd: "unat x < 2 ^ width \<and> (ucast (t AND 0xFF) = MTRR_TYPE_WRBACK \<longrightarrow> unat x < 2 ^ 43 - 2 ^ 12)" if "tag_at es x = Some t" for x t
    using assms that unfolding mtrr_map_ok_def by blast
  have "unat (r_end r) < 2 ^ width \<and> (range_entry_mtrr_type r = MTRR_TYPE_WRBACK \<longrightarrow> unat (r_end r) + 1 < 2 ^ 43)" if r: "r \<in> set es" for r
  proof -
    have "r_begin r \<le> r_end r" using ok(1) r by (simp add: ranges_ok_def)
    then have "tag_at es (r_end r) = Some (r_tag r)" using tag_at_mem [OF ok(1) r] by simp
    from bd [OF this] show ?thesis by (auto simp: range_entry_mtrr_type_def range_entry_tag_def)
  qed
  then show ?thesis
    using assms page_boundaries [OF ok pt] unfolding mtrr_space_ok_def mtrr_map_ok_def by blast
qed

lemma update_tag_map_ok:
  assumes "mtrr_map_ok width (entries m)" "ucast (new AND 0xFF) \<noteq> MTRR_TYPE_WRBACK"
  shows "mtrr_map_ok width (entries (memranges_update_tag m old new))"
proof -
  have "ranges_ok (entries m)" using assms(1) by (simp add: mtrr_map_ok_def)
  note f = update_tag_facts [OF this, of old new]
  have pt: "tag_at (entries m) x = tag_at (entries m) y" if "unat x div 2 ^ 12 = unat y div 2 ^ 12" for x y
    using assms that unfolding mtrr_map_ok_def by blast
  have bd: "unat x < 2 ^ width \<and> (ucast (t AND 0xFF) = MTRR_TYPE_WRBACK \<longrightarrow> unat x < 2 ^ 43 - 2 ^ 12)" if "tag_at (entries m) x = Some t" for x t
    using assms that unfolding mtrr_map_ok_def by blast
  have bd': "unat x < 2 ^ width \<and> (ucast (t AND 0xFF) = MTRR_TYPE_WRBACK \<longrightarrow> unat x < 2 ^ 43 - 2 ^ 12)"
    if "tag_at (entries (memranges_update_tag m old new)) x = Some t" for x t
  proof (cases "tag_at (entries m) x = Some old")
    case True
    then have "t = new" using that f(3) [of x] by simp
    then show ?thesis using bd [OF True] assms(2) by simp
  next
    case False
    then have "tag_at (entries m) x = Some t" using that f(3) [of x] by simp
    then show ?thesis by (rule bd)
  qed
  have pt': "tag_at (entries (memranges_update_tag m old new)) x = tag_at (entries (memranges_update_tag m old new)) y"
    if "unat x div 2 ^ 12 = unat y div 2 ^ 12" for x y
    unfolding f(3) pt [OF that] ..
  have "33 \<le> width" "width \<le> 52" using assms(1) by (simp_all add: mtrr_map_ok_def)
  then show ?thesis unfolding mtrr_map_ok_def using f(1,2) pt' bd' by blast
qed


subsection \<open>The solution of an address space\<close>

lemma count_var_mtrrs_plan:
  "count_var_mtrrs total_mtrrs es high bits =
    (length (space_plan total_mtrrs high MTRR_TYPE_WRBACK es), length (space_plan total_mtrrs high MTRR_TYPE_UNCACHEABLE es))"
proof -
  let ?st = "\<lparr>above4gb = high, address_bits = bits, prepare_msrs = False, mtrr_index = 0, regs = []\<rparr>"
  have i: "mtrr_index (calc_var_mtrrs_with_hole total_mtrrs ?st r n) = length (range_plan total_mtrrs high r n)" for r n
    by (simp add: calc_var_mtrrs_with_hole_plan fold_emit_index)
  have "each_entry (\<lambda>r next1 (wb_deftype_count, uc_deftype_count).
         let mtrr_type = range_entry_mtrr_type r;
             st = ?st;
             uc = (if mtrr_type \<noteq> MTRR_TYPE_UNCACHEABLE
                   then uc_deftype_count + mtrr_index (calc_var_mtrrs_with_hole total_mtrrs st r next1)
                   else uc_deftype_count);
             wb = (if mtrr_type \<noteq> MTRR_TYPE_WRBACK
                   then wb_deftype_count + mtrr_index (calc_var_mtrrs_with_hole total_mtrrs st r next1)
                   else wb_deftype_count)
         in (wb, uc)) es (a, b) =
    (a + length (space_plan total_mtrrs high MTRR_TYPE_WRBACK es), b + length (space_plan total_mtrrs high MTRR_TYPE_UNCACHEABLE es))" for a b
    by (induction es arbitrary: a b) (simp_all add: Let_def i)
  then show ?thesis unfolding count_var_mtrrs_def by simp
qed

text \<open>Neither default type leaves enough registers.\<close>

definition too_many_mtrrs :: "bool \<Rightarrow> nat \<Rightarrow> bool \<Rightarrow> range_entry list \<Rightarrow> bool" where
  "too_many_mtrrs reserve total_mtrrs high es \<longleftrightarrow>
     (\<forall>def_type\<in>{MTRR_TYPE_WRBACK, MTRR_TYPE_UNCACHEABLE}.
        int total_mtrrs - int (get_os_reserved_mtrrs reserve) < int (length (space_plan total_mtrrs high def_type es)))"

definition final_space :: "bool \<Rightarrow> nat \<Rightarrow> bool \<Rightarrow> memranges \<Rightarrow> memranges" where
  "final_space reserve total_mtrrs high s =
     (if too_many_mtrrs reserve total_mtrrs high (entries s)
      then memranges_update_tag s (ucast MTRR_TYPE_WRCOMB) (ucast MTRR_TYPE_UNCACHEABLE) else s)"

definition best_type :: "nat \<Rightarrow> bool \<Rightarrow> range_entry list \<Rightarrow> u32" where
  "best_type total_mtrrs high es =
     (if length (space_plan total_mtrrs high MTRR_TYPE_WRBACK es) < length (space_plan total_mtrrs high MTRR_TYPE_UNCACHEABLE es)
      then MTRR_TYPE_WRBACK else MTRR_TYPE_UNCACHEABLE)"

lemma calc_var_mtrrs_eq:
  "calc_var_mtrrs reserve total_mtrrs s high bits =
    (best_type total_mtrrs high (entries (final_space reserve total_mtrrs high s)), final_space reserve total_mtrrs high s)"
  by (auto simp: calc_var_mtrrs_def count_var_mtrrs_plan Let_def best_type_def final_space_def too_many_mtrrs_def)

lemma solve_mtrrs_facts:
  assumes "solve_mtrrs cfg total_mtrrs s high bits = (sol, s1)"
  shows "s1 = final_space (reserve_for_os cfg) total_mtrrs high s"
    and "mtrr_default_type sol = best_type total_mtrrs high (entries s1)"
    and "num_used sol = length (space_plan total_mtrrs high (mtrr_default_type sol) (entries s1))"
    and "length (sol_regs sol) = NUM_MTRR_STATIC_STORAGE"
    and "\<lbrakk>num_used sol \<le> total_mtrrs; total_mtrrs \<le> NUM_MTRR_STATIC_STORAGE\<rbrakk> \<Longrightarrow>
      take (num_used sol) (sol_regs sol) = map (encode_mtrr bits) (space_plan total_mtrrs high (mtrr_default_type sol) (entries s1))"
proof -
  let ?s1 = "final_space (reserve_for_os cfg) total_mtrrs high s"
  let ?d = "best_type total_mtrrs high (entries ?s1)"
  have e: "s1 = ?s1" "sol = prepare_var_mtrrs total_mtrrs (entries ?s1) ?d high bits (zero_solution\<lparr>mtrr_default_type := ?d\<rparr>)"
    using assms by (auto simp: solve_mtrrs_def calc_var_mtrrs_eq)
  show "s1 = ?s1" by (rule e)
  show d: "mtrr_default_type sol = best_type total_mtrrs high (entries s1)" unfolding e by (simp add: prepare_var_mtrrs_def Let_def)
  show "num_used sol = length (space_plan total_mtrrs high (mtrr_default_type sol) (entries s1))"
    unfolding e by (simp add: prepare_var_mtrrs_def Let_def each_entry_plan fold_emit_index)
  show "length (sol_regs sol) = NUM_MTRR_STATIC_STORAGE"
    unfolding e by (simp add: prepare_var_mtrrs_def Let_def each_entry_plan zero_solution_def)
  show "take (num_used sol) (sol_regs sol) = map (encode_mtrr bits) (space_plan total_mtrrs high (mtrr_default_type sol) (entries s1))"
    if "num_used sol \<le> total_mtrrs" "total_mtrrs \<le> NUM_MTRR_STATIC_STORAGE"
    using that prepare_var_mtrrs_plan [of total_mtrrs "entries ?s1" ?d high bits "zero_solution\<lparr>mtrr_default_type := ?d\<rparr>"]
    unfolding d unfolding e by (simp add: zero_solution_def)
qed

text \<open>The default type chosen is the one that needs fewer registers.\<close>

lemma solve_mtrrs_count:
  assumes "\<not> too_many_mtrrs (reserve_for_os cfg) total_mtrrs high (entries s)"
  shows "num_used (fst (solve_mtrrs cfg total_mtrrs s high bits)) =
    min (length (space_plan total_mtrrs high MTRR_TYPE_WRBACK (entries s))) (length (space_plan total_mtrrs high MTRR_TYPE_UNCACHEABLE (entries s)))"
proof -
  obtain sol s1 where sol: "solve_mtrrs cfg total_mtrrs s high bits = (sol, s1)" by fastforce
  note f = solve_mtrrs_facts [OF sol]
  have "s1 = s" using f(1) assms by (simp add: final_space_def)
  then show ?thesis using f(2,3) unfolding sol by (auto simp: best_type_def)
qed

lemma best_type_min:
  "def_type \<in> {MTRR_TYPE_WRBACK, MTRR_TYPE_UNCACHEABLE} \<Longrightarrow>
   length (space_plan total_mtrrs high (best_type total_mtrrs high es) es) \<le> length (space_plan total_mtrrs high def_type es)"
  by (auto simp: best_type_def)

lemma best_type_cases: "best_type total_mtrrs high es \<in> {MTRR_TYPE_WRBACK, MTRR_TYPE_UNCACHEABLE}"
  by (simp add: best_type_def)

text \<open>The type an address gets: that of its tag, with write-combining given up if registers are short.\<close>

definition final_tag :: "bool \<Rightarrow> nat \<Rightarrow> bool \<Rightarrow> memranges \<Rightarrow> u64 \<Rightarrow> u64" where
  "final_tag reserve total_mtrrs high s t =
     (if too_many_mtrrs reserve total_mtrrs high (entries s) \<and> t = ucast MTRR_TYPE_WRCOMB then ucast MTRR_TYPE_UNCACHEABLE else t)"

lemma final_space_facts:
  assumes "mtrr_map_ok width (entries s)"
  shows "mtrr_map_ok width (entries (final_space reserve total_mtrrs high s))"
    and "tag_at (entries (final_space reserve total_mtrrs high s)) x = map_option (final_tag reserve total_mtrrs high s) (tag_at (entries s) x)"
proof -
  have "ranges_ok (entries s)" using assms by (simp add: mtrr_map_ok_def)
  note f = update_tag_facts(3) [OF this]
  have "(ucast (ucast MTRR_TYPE_UNCACHEABLE AND 0xFF :: u64) :: u32) \<noteq> MTRR_TYPE_WRBACK" by (simp add: mtrr_types)
  from update_tag_map_ok [OF assms this]
  show "mtrr_map_ok width (entries (final_space reserve total_mtrrs high s))" using assms by (simp add: final_space_def)
  show "tag_at (entries (final_space reserve total_mtrrs high s)) x = map_option (final_tag reserve total_mtrrs high s) (tag_at (entries s) x)"
    by (cases "tag_at (entries s) x") (auto simp: final_space_def final_tag_def f)
qed

lemma solve_mtrrs_types:
  assumes ok: "mtrr_map_ok width (entries s)" and sol: "solve_mtrrs cfg total_mtrrs s high width = (sol, s1)"
    and room: "num_used sol \<le> total_mtrrs" "total_mtrrs \<le> NUM_MTRR_STATIC_STORAGE"
    and x: "unat x < 2 ^ width" "2 ^ 20 \<le> unat x" "high \<or> unat x < 2 ^ 32" "tag_at (entries s) x = Some t"
  shows "cpu_memory_type width total_mtrrs (snd (commit_var_mtrrs total_mtrrs sol c)) x =
    Some (ucast (final_tag (reserve_for_os cfg) total_mtrrs high s t AND 0xFF))"
proof -
  note f = solve_mtrrs_facts [OF sol]
  note fs = final_space_facts [OF ok, of "reserve_for_os cfg" total_mtrrs high, folded f(1)]
  note def = best_type_cases [of total_mtrrs high "entries s1", folded f(2)]
  have "mtrr_default_type sol AND NOT 0xFF = 0" using def by (auto simp: mtrr_types)
  moreover have "total_mtrrs \<le> 127" "num_used sol \<le> length (sol_regs sol)" using room f(4) by (simp_all add: NUM_MTRR_STATIC_STORAGE_def)
  ultimately have "cpu_memory_type width total_mtrrs (snd (commit_var_mtrrs total_mtrrs sol c)) x =
      memory_type width (mtrr_default_type sol) (take (num_used sol) (sol_regs sol)) x"
    using room(1) by (intro commit_memory_type)
  also have "\<dots> = memory_type width (mtrr_default_type sol)
      (map (encode_mtrr width) (space_plan total_mtrrs high (mtrr_default_type sol) (entries s1))) x"
    unfolding f(5) [OF room] ..
  finally have c: "cpu_memory_type width total_mtrrs (snd (commit_var_mtrrs total_mtrrs sol c)) x = \<dots>" .
  have "tag_at (entries s1) x = Some (final_tag (reserve_for_os cfg) total_mtrrs high s t)" using fs(2) [of x] x(4) by simp
  then obtain q where q: "q \<in> set (entries s1)" "r_begin q \<le> x" "x \<le> r_end q"
    "r_tag q = final_tag (reserve_for_os cfg) total_mtrrs high s t" using tag_at_Some_mem by blast
  have "memory_type width (mtrr_default_type sol)
      (map (encode_mtrr width) (space_plan total_mtrrs high (mtrr_default_type sol) (entries s1))) x = Some (range_entry_mtrr_type q)"
    by (rule space_types(1) [OF mtrr_map_space [OF fs(1)] def x(1-3) q(1-3)])
  then show ?thesis unfolding c by (simp add: range_entry_mtrr_type_def range_entry_tag_def q(4))
qed


subsection \<open>The address space of the device tree\<close>

text \<open>The writes that the three walks over the device tree make, in order.\<close>

definition space_writes :: "device list \<Rightarrow> (addr \<times> addr \<times> u64) list" where
  "space_writes devs =
     (let writes = (\<lambda>mask1 match filt ty. map (\<lambda>r. (res_base r, res_size r, ucast (ty :: u32))) (added_resources devs mask1 match filt))
      in writes IORESOURCE_CACHEABLE IORESOURCE_CACHEABLE None MTRR_TYPE_WRBACK @
         writes IORESOURCE_CACHEABLE 0 None MTRR_TYPE_UNCACHEABLE @
         writes (IORESOURCE_CACHEABLE OR IORESOURCE_PREFETCH) IORESOURCE_PREFETCH (Some filter_vga_wrcomb) MTRR_TYPE_WRCOMB)"

lemma add_resources_writes:
  "memranges_add_resources_filter devs s mask1 match tag filt =
   pages.puts (map (\<lambda>r. (res_base r, res_size r, tag)) (added_resources devs mask1 match filt)) s"
  by (simp add: add_resources_fold pages.puts_def fold_map comp_def)

definition empty_pages :: "nat \<Rightarrow> mst" where
  "empty_pages heap = (memranges_init_empty_with_alignment [] 12, heap)"

lemma resource_space_puts: "resource_space devs heap = pages.puts (space_writes devs) (empty_pages heap)"
  by (simp add: resource_space_def space_writes_def Let_def memranges_init_with_alignment_def memranges_add_resources_def
      add_resources_writes pages.puts_append empty_pages_def)

lemma empty_pages_ok [simp]:
  "pages_ok (empty_pages heap)" "snd (empty_pages heap) = heap" "cells_total (empty_pages heap) = heap"
  "tagged (empty_pages heap) x = None"
  by (simp_all add: empty_pages_def memranges_init_empty_with_alignment_def pages_ok_def mst_ok_def cells_total_def)

text \<open>
  The bounds under which the construction is exact: every write lies within the width of physical
  addresses, and write-back memory below 8 TiB.
\<close>

definition writes_ok :: "nat \<Rightarrow> (addr \<times> addr \<times> u64) list \<Rightarrow> bool" where
  "writes_ok width ws \<longleftrightarrow> 33 \<le> width \<and> width \<le> 52 \<and>
     (\<forall>(b, n, t)\<in>set ws. unat b + unat n \<le> 2 ^ width \<and> (ucast (t AND 0xFF) = MTRR_TYPE_WRBACK \<longrightarrow> unat b + unat n \<le> 2 ^ 43 - 2 ^ 12))"

lemma last_tag_mem: "last_tag hits ws x = Some t \<Longrightarrow> \<exists>b n. (b, n, t) \<in> set ws \<and> hits b n x"
proof -
  assume "last_tag hits ws x = Some t"
  then obtain b n where f: "find (\<lambda>(b, n, t). hits b n x) (rev ws) = Some (b, n, t)" by (auto simp: last_tag_def)
  then have "(b, n, t) \<in> set (rev ws)" "hits b n x" unfolding find_Some_iff by (metis nth_mem, auto)
  then show ?thesis by auto
qed

lemma last_tag_page:
  assumes "unat x div 2 ^ 12 = unat y div 2 ^ 12"
  shows "last_tag page_hits ws x = last_tag page_hits ws y"
proof -
  have "page_hits b n x = page_hits b n y" for b n by (simp only: touches_def assms)
  then show ?thesis by (simp add: last_tag_def)
qed

lemma last_tag_bounds:
  assumes "writes_ok width ws" "last_tag page_hits ws x = Some t"
  shows "unat x < 2 ^ width" and "ucast (t AND 0xFF) = MTRR_TYPE_WRBACK \<Longrightarrow> unat x < 2 ^ 43 - 2 ^ 12"
proof -
  obtain b n where w: "(b, n, t) \<in> set ws" "n \<noteq> 0" "unat x div 2 ^ 12 \<le> (unat b + unat n - 1) div 2 ^ 12"
    using last_tag_mem [OF assms(2)] by (auto simp: touches_def)
  have bd: "unat b + unat n \<le> 2 ^ width" "ucast (t AND 0xFF) = MTRR_TYPE_WRBACK \<Longrightarrow> unat b + unat n \<le> 2 ^ 43 - 2 ^ 12" "12 \<le> width"
    using assms(1) w(1) by (auto simp: writes_ok_def)
  have pos: "0 < unat b + unat n" using w(2) by (simp add: unat_gt_0)
  have lt: "unat x < K * 2 ^ 12" if "unat b + unat n \<le> K * 2 ^ 12" for K
  proof -
    have "unat b + unat n - 1 < K * 2 ^ 12" using that pos by linarith
    then have "(unat b + unat n - 1) div 2 ^ 12 < K" by (simp add: div_less_iff_less_mult)
    then have "unat x div 2 ^ 12 < K" using w(3) by linarith
    then show ?thesis by (simp add: div_less_iff_less_mult)
  qed
  have "(2::nat) ^ width = 2 ^ (width - 12) * 2 ^ 12" using bd(3) by (simp only: power_add [symmetric] le_add_diff_inverse2)
  then show "unat x < 2 ^ width" using lt [of "2 ^ (width - 12)"] bd(1) by simp
  show "unat x < 2 ^ 43 - 2 ^ 12" if "ucast (t AND 0xFF) = MTRR_TYPE_WRBACK"
    using lt [of "2 ^ 31 - 1"] bd(2) [OF that] by simp
qed

lemma writes_in_bounds: "writes_ok width ws \<Longrightarrow> pages.in_bounds ws"
proof -
  assume w: "writes_ok width ws"
  then have "(2::nat) ^ width \<le> 2 ^ 64" by (intro power_increasing) (simp_all add: writes_ok_def)
  then show ?thesis using w by (fastforce simp: writes_ok_def pages.in_bounds_def intro: order_trans)
qed

lemma puts_empty_facts:
  fixes heap :: nat
  assumes "writes_ok width ws" "4 * length ws \<le> heap"
  defines "s \<equiv> pages.puts ws (empty_pages heap)"
  shows "pages_ok s" and "tagged s x = last_tag page_hits ws x"
    and "length (entries (fst s)) \<le> spare_cells s" and "mtrr_map_ok width (entries (fst s))"
proof -
  note ib = writes_in_bounds [OF assms(1)]
  have h: "2 * length ws \<le> snd (empty_pages heap)" using assms(2) by simp
  note f = pages.puts_facts [OF empty_pages_ok(1) h ib, folded s_def]
  show po: "pages_ok s" by (rule f)
  have tg: "tagged s x = last_tag page_hits ws x" for x unfolding f(3) by (simp split: option.splits)
  then show "tagged s x = last_tag page_hits ws x" .
  have ct: "cells_total s = heap" using puts_cells [OF empty_pages_ok(1) h ib] by (simp add: s_def)
  show "length (entries (fst s)) \<le> spare_cells s" using f(2) ct assms(2) by (simp add: cells_total_def spare_cells_def)
  have "ranges_ok (entries (fst s))" "no_mergeable (entries (fst s))" using po by (simp_all add: pages_ok_def mst_ok_def)
  moreover have "33 \<le> width" "width \<le> 52" using assms(1) by (simp_all add: writes_ok_def)
  moreover have "tagged s x = tagged s y" if "unat x div 2 ^ 12 = unat y div 2 ^ 12" for x y unfolding tg by (rule last_tag_page [OF that])
  moreover have "unat x < 2 ^ width \<and> (ucast (t AND 0xFF) = MTRR_TYPE_WRBACK \<longrightarrow> unat x < 2 ^ 43 - 2 ^ 12)" if "tagged s x = Some t" for x t
    using last_tag_bounds [OF assms(1)] that unfolding tg by blast
  ultimately show "mtrr_map_ok width (entries (fst s))" unfolding mtrr_map_ok_def by blast
qed

text \<open>The tag of an address once the holes below 4 GiB are filled.\<close>

definition device_tag :: "device list \<Rightarrow> addr \<Rightarrow> u64 option" where
  "device_tag devs x =
     (case last_tag page_hits (space_writes devs) x of
        Some t \<Rightarrow> Some t
      | None \<Rightarrow> if unat x < 2 ^ 32 then Some (ucast MTRR_TYPE_UNCACHEABLE) else None)"

definition devices_ok :: "nat \<Rightarrow> device list \<Rightarrow> nat \<Rightarrow> bool" where
  "devices_ok width devs heap \<longleftrightarrow>
     writes_ok width (space_writes devs) \<and> 4 * length (space_writes devs) \<le> heap \<and>
     last_tag page_hits (space_writes devs) 0 \<noteq> None \<and>
     fill_ok (RANGE_TO_PHYS_ADDR RANGE_4GB) (entries (fst (resource_space devs heap)))"

lemma four_gib: "RANGE_TO_PHYS_ADDR RANGE_4GB = 0x100000000"
  by (simp add: RANGE_TO_PHYS_ADDR_def RANGE_4GB_def push_bit_eq_mult)

lemma hd_begin_0:
  assumes "ranges_ok es" "tag_at es 0 \<noteq> None"
  shows "es \<noteq> []" "r_begin (hd es) = 0"
proof -
  obtain r where "r \<in> set es" "r_begin r \<le> 0" using assms(2) tag_at_Some_mem [of es 0] by auto
  then have r: "r \<in> set es" "r_begin r = 0" by simp_all
  then show "es \<noteq> []" by auto
  then obtain h hs where es: "es = h # hs" by (cases es) auto
  show "r_begin (hd es) = 0"
  proof (cases "r = h")
    case False
    then have "r_end h < r_begin r" using r(1) assms(1) by (auto simp: es ranges_ok_Cons)
    then show ?thesis using r(2) by simp
  qed (use r(2) es in simp)
qed

lemma build_address_space_facts:
  assumes "devices_ok width devs heap"
  shows "mtrr_map_ok width (entries (fst (build_address_space devs heap)))"
    and "tagged (build_address_space devs heap) x = device_tag devs x"
proof -
  let ?s = "resource_space devs heap" and ?b = "build_address_space devs heap"
  have a: "writes_ok width (space_writes devs)" "4 * length (space_writes devs) \<le> heap"
    "last_tag page_hits (space_writes devs) 0 \<noteq> None" "fill_ok (RANGE_TO_PHYS_ADDR RANGE_4GB) (entries (fst ?s))"
    using assms by (simp_all add: devices_ok_def)
  note f = puts_empty_facts [OF a(1,2), folded resource_space_puts]
  have mo: "mst_ok ?s" using f(1) by (simp add: pages_ok_def)
  note g = fill_holes_facts [OF mo f(3) a(4), of "ucast MTRR_TYPE_UNCACHEABLE", folded build_address_space_def]
  have "ranges_ok (entries (fst ?s))" "tagged ?s 0 \<noteq> None" using mo a(3) by (simp_all add: mst_ok_def f(2))
  note hd = hd_begin_0 [OF this]
  have lt: "0 \<le> x \<and> x < RANGE_TO_PHYS_ADDR RANGE_4GB \<longleftrightarrow> unat x < 2 ^ 32" for x :: addr
    by (simp add: four_gib word_less_nat_alt)
  have tg: "tagged ?b x = device_tag devs x" for x
    unfolding g(4) [OF hd(1)] hd(2) f(2) device_tag_def lt ..
  then show "tagged ?b x = device_tag devs x" .
  have w: "33 \<le> width" "width \<le> 52" using a(1) by (simp_all add: writes_ok_def)
  have bd: "unat x < 2 ^ width \<and> (ucast (t AND 0xFF) = MTRR_TYPE_WRBACK \<longrightarrow> unat x < 2 ^ 43 - 2 ^ 12)" if "tagged ?b x = Some t" for x t
  proof (cases "last_tag page_hits (space_writes devs) x")
    case None
    with that have "unat x < 2 ^ 32" "t = ucast MTRR_TYPE_UNCACHEABLE" unfolding tg device_tag_def by (simp_all split: if_splits)
    moreover have "(2::nat) ^ 32 \<le> 2 ^ width" using w by (intro power_increasing) simp_all
    ultimately show ?thesis by (simp add: mtrr_types)
  next
    case (Some u)
    with that have "t = u" unfolding tg device_tag_def by simp
    then show ?thesis using last_tag_bounds [OF a(1) Some] by blast
  qed
  have pg: "tagged ?b x = tagged ?b y" if "unat x div 2 ^ 12 = unat y div 2 ^ 12" for x y
  proof -
    have "unat x div 2 ^ 12 < 2 ^ 20 \<longleftrightarrow> unat y div 2 ^ 12 < 2 ^ 20" unfolding that ..
    then have "unat x < 2 ^ 32 \<longleftrightarrow> unat y < 2 ^ 32" by (simp add: div_less_iff_less_mult)
    then show ?thesis unfolding tg device_tag_def last_tag_page [OF that] by (simp split: option.splits)
  qed
  have "ranges_ok (entries (fst ?b))" using g(1) by (simp add: mst_ok_def)
  then show "mtrr_map_ok width (entries (fst ?b))" unfolding mtrr_map_ok_def using g(2) w bd pg by blast
qed


subsection \<open>Slots with one tag\<close>

text \<open>The fixed registers can hold the address space when no tag changes inside a slot below 1 MiB.\<close>

definition slots_uniform :: "(addr \<Rightarrow> u64 option) \<Rightarrow> bool" where
  "slots_uniform tag \<longleftrightarrow>
     (\<forall>x y. unat x < 2 ^ 20 \<longrightarrow> unat y < 2 ^ 20 \<longrightarrow> slot_of (unat x div 2 ^ 12) = slot_of (unat y div 2 ^ 12) \<longrightarrow> tag x = tag y)"

lemma slot_of_unique:
  assumes "slot_begin k \<le> p" "p < slot_begin (Suc k)" "p < 0x100"
  shows "slot_of p = k"
proof -
  note b = slot_of_bounds [OF assms(3)]
  have "slot_begin (slot_of p) < slot_begin (Suc k)" "slot_begin k < slot_begin (Suc (slot_of p))" using b assms by linarith+
  then show ?thesis by simp
qed

lemma same_slot_pred:
  assumes "0 < p" "p < 0x100" "p \<notin> slot_begin ` {0..88}"
  shows "slot_of (p - 1) = slot_of p"
proof -
  note b = slot_of_bounds [OF assms(2)]
  have "p \<noteq> slot_begin (slot_of p)" using assms(3) b by force
  then show ?thesis using b assms by (intro slot_of_unique) linarith+
qed

lemma slot_begin_mem: "0 \<in> slot_begin ` {0..88}" "0x100 \<in> slot_begin ` {0..88}"
  by (auto simp: image_iff slot_begin_def intro: bexI [of _ 0] bexI [of _ 88])

lemma min_slot:
  fixes p :: nat
  assumes "p < 0x100 \<Longrightarrow> 0 < p \<Longrightarrow> p \<notin> slot_begin ` {0..88} \<Longrightarrow> False"
  shows "min p 0x100 \<in> slot_begin ` {0..88}"
proof (cases "p < 0x100 \<and> 0 < p")
  case True
  then show ?thesis using assms by (auto simp: min_def)
next
  case False
  then have "p = 0 \<or> 0x100 \<le> p" by linarith
  then show ?thesis using slot_begin_mem by auto
qed

lemma fixed_space_from_map:
  assumes m: "mtrr_map_ok width es" "width \<le> 43" and u: "slots_uniform (tag_at es)"
  shows "fixed_space_ok es"
proof -
  have ok: "ranges_ok es" "no_mergeable es" using m(1) by (simp_all add: mtrr_map_ok_def)
  have sp: "mtrr_space_ok width es" by (rule mtrr_map_space [OF m(1)])
  have "2 ^ 12 dvd unat (r_begin r) \<and> 2 ^ 12 dvd unat (r_end r) + 1 \<and> unat (r_end r) + 1 < 2 ^ 44 \<and>
        min (page_begin r) 0x100 \<in> slot_begin ` {0..88} \<and> min (page_end r) 0x100 \<in> slot_begin ` {0..88}" if r: "r \<in> set es" for r
  proof -
    note tags = range_end_tags [OF ok(1) r] and ch = tag_changes [OF ok r]
    have pg: "2 ^ 12 dvd unat (r_begin r)" "2 ^ 12 dvd unat (r_end r) + 1" "unat (r_end r) < 2 ^ width"
      using sp r by (auto simp: mtrr_space_ok_def)
    then obtain b e where be: "unat (r_begin r) = 2 ^ 12 * b" "unat (r_end r) + 1 = 2 ^ 12 * e" by (metis dvdE)
    have p: "page_begin r = b" "page_end r = e" unfolding page_begin_def page_end_def be by simp_all
    have "(2::nat) ^ width \<le> 2 ^ 43" using m(2) by (intro power_increasing) simp_all
    then have lt: "unat (r_end r) + 1 < 2 ^ 44" using pg(3) by simp
    have same: "tag_at es x = tag_at es y" if "unat x < 2 ^ 20" "unat y < 2 ^ 20" "slot_of (unat x div 2 ^ 12) = slot_of (unat y div 2 ^ 12)" for x y
      using u that unfolding slots_uniform_def by blast
    have "min b 0x100 \<in> slot_begin ` {0..88}"
    proof (rule min_slot)
      assume n: "b < 0x100" "0 < b" "b \<notin> slot_begin ` {0..88}"
      have pos: "0 < unat (r_begin r)" using n(2) be(1) by simp
      have x: "unat (r_begin r - 1) div 2 ^ 12 = b - 1" unfolding unat_pred [OF pos] be(1) using n(2) by (cases b) (simp_all add: div_nat_eqI)
      have y: "unat (r_begin r) div 2 ^ 12 = b" unfolding be(1) by simp
      have "unat (r_begin r) < 2 ^ 20" "unat (r_begin r - 1) < 2 ^ 20" using n(1) be(1) unat_pred [OF pos] by simp_all
      then have "tag_at es (r_begin r - 1) = tag_at es (r_begin r)" by (intro same) (simp_all only: x y same_slot_pred [OF n(2,1,3)])
      then show False using tags ch(1) [OF pos] by simp
    qed
    moreover have "min e 0x100 \<in> slot_begin ` {0..88}"
    proof (rule min_slot)
      assume n: "e < 0x100" "0 < e" "e \<notin> slot_begin ` {0..88}"
      have l: "unat (r_end r) < 0xFFFFFFFFFFFFFFFF" using lt by simp
      have x: "unat (r_end r) div 2 ^ 12 = e - 1" using be(2) n(2) by (cases e) (simp_all add: div_nat_eqI)
      have y: "unat (r_end r + 1) div 2 ^ 12 = e" unfolding unat_suc_64 [OF l] be(2) by simp
      have "unat (r_end r) < 2 ^ 20" "unat (r_end r + 1) < 2 ^ 20" using n(1) be(2) unat_suc_64 [OF l] by simp_all
      then have "tag_at es (r_end r) = tag_at es (r_end r + 1)" by (intro same) (simp_all only: x y same_slot_pred [OF n(2,1,3)])
      then show False using tags ch(2) [OF l] by simp
    qed
    ultimately show ?thesis unfolding p using pg lt by blast
  qed
  then show ?thesis using ok(1) unfolding fixed_space_ok_def by blast
qed


subsection \<open>The processor after the set up\<close>

text \<open>
  The type of an address when both sets of registers count: the fixed ones take precedence below 1 MiB.
  The two bits above the type in a fixed register route accesses on AMD processors.
\<close>

definition effective_type :: "nat \<Rightarrow> nat \<Rightarrow> cpu \<Rightarrow> addr \<Rightarrow> u32 option" where
  "effective_type width total_mtrrs c x =
     (if unat x < 2 ^ 20 \<and> msr_lo (msrs c MTRR_DEF_TYPE_MSR) AND MTRR_DEF_TYPE_FIX_EN \<noteq> 0
      then Some (ucast (fixed_byte c (slot_of (unat x div 2 ^ 12)) AND 7))
      else cpu_memory_type width total_mtrrs c x)"

lemma commit_var_other:
  assumes "total_mtrrs \<le> NUM_MTRR_STATIC_STORAGE"
  shows "\<lbrakk>0x220 \<le> k; k \<noteq> MTRR_DEF_TYPE_MSR\<rbrakk> \<Longrightarrow> msrs (snd (commit_var_mtrrs total_mtrrs sol c)) k = msrs c k"
    and "msr_lo (msrs c MTRR_DEF_TYPE_MSR) AND MTRR_DEF_TYPE_FIX_EN \<noteq> 0 \<Longrightarrow>
      msr_lo (msrs (snd (commit_var_mtrrs total_mtrrs sol c)) MTRR_DEF_TYPE_MSR) AND MTRR_DEF_TYPE_FIX_EN \<noteq> 0"
proof -
  define f where "f = fold clear_var_mtrr [num_used sol..<total_mtrrs]
    (fold (\<lambda>i c. wrmsr (MTRR_PHYS_MASK i) (reg_mask (sol_regs sol ! i)) (wrmsr (MTRR_PHYS_BASE i) (reg_base (sol_regs sol ! i)) c))
      [0..<num_used sol] (disable_cache c))"
  have e: "snd (commit_var_mtrrs total_mtrrs sol c) = (if total_mtrrs < num_used sol then c else enable_cache (enable_var_mtrr (mtrr_default_type sol) f))"
    by (simp add: commit_var_mtrrs_def Let_def f_def)
  have n: "total_mtrrs \<le> 16" using assms by (simp add: NUM_MTRR_STATIC_STORAGE_def)
  have k: "msrs f k = msrs c k" if "0x220 \<le> k" "num_used sol \<le> total_mtrrs" for k
    using that n unfolding f_def fold_clear_regs fold_write_regs by (auto simp: mtrr_msrs)
  show "msrs (snd (commit_var_mtrrs total_mtrrs sol c)) k = msrs c k" if "0x220 \<le> k" "k \<noteq> MTRR_DEF_TYPE_MSR"
    using k [OF that(1)] that(2) unfolding e by (simp add: enable_var_mtrr_def Let_def)
  assume fix_en: "msr_lo (msrs c MTRR_DEF_TYPE_MSR) AND MTRR_DEF_TYPE_FIX_EN \<noteq> 0"
  have bit: "m AND MTRR_DEF_TYPE_FIX_EN \<noteq> 0 \<longleftrightarrow> bit m 10" for m
  proof -
    have "MTRR_DEF_TYPE_FIX_EN = 2 ^ 10" by (simp add: MTRR_DEF_TYPE_FIX_EN_def)
    then show ?thesis using and_exp_eq_0_iff_not_bit [of m 10] by metis
  qed
  have "msrs f MTRR_DEF_TYPE_MSR = msrs c MTRR_DEF_TYPE_MSR" if "num_used sol \<le> total_mtrrs" using k that by (simp add: mtrr_msrs)
  then show "msr_lo (msrs (snd (commit_var_mtrrs total_mtrrs sol c)) MTRR_DEF_TYPE_MSR) AND MTRR_DEF_TYPE_FIX_EN \<noteq> 0"
    using fix_en unfolding e bit by (simp add: enable_var_mtrr_def Let_def rdmsr_def bit_simps)
qed

lemma effective_type_commit:
  assumes "total_mtrrs \<le> NUM_MTRR_STATIC_STORAGE" "msr_lo (msrs c MTRR_DEF_TYPE_MSR) AND MTRR_DEF_TYPE_FIX_EN \<noteq> 0"
  shows "effective_type width total_mtrrs (snd (commit_var_mtrrs total_mtrrs sol c)) x =
    (if unat x < 2 ^ 20 then Some (ucast (fixed_byte c (slot_of (unat x div 2 ^ 12)) AND 7))
     else cpu_memory_type width total_mtrrs (snd (commit_var_mtrrs total_mtrrs sol c)) x)"
proof (cases "unat x < 2 ^ 20")
  case True
  let ?k = "slot_of (unat x div 2 ^ 12)"
  have "unat x div 2 ^ 12 < 0x100" using True by (simp add: div_less_iff_less_mult)
  then have "?k div 8 < 11" using slot_of_bounds by fastforce
  then have "fixed_msr_numbers ! (?k div 8) \<in> set fixed_msr_numbers" by (intro nth_mem) (simp add: fixed_msr_numbers_eq)
  then have "0x220 \<le> fixed_msr_numbers ! (?k div 8)" "fixed_msr_numbers ! (?k div 8) \<noteq> MTRR_DEF_TYPE_MSR"
    by (auto simp: fixed_msr_numbers_eq MTRR_DEF_TYPE_MSR_def)
  then have "fixed_byte (snd (commit_var_mtrrs total_mtrrs sol c)) ?k = fixed_byte c ?k"
    unfolding fixed_byte_def by (simp add: commit_var_other(1) [OF assms(1)])
  then show ?thesis using True commit_var_other(2) [OF assms] by (simp add: effective_type_def)
qed (simp add: effective_type_def)

text \<open>The address space the state holds, or will get from the device tree when it is first needed.\<close>

definition space_known :: "nat \<Rightarrow> mtrr_config \<Rightarrow> mtrr_globals \<Rightarrow> bool" where
  "space_known width cfg g \<longleftrightarrow>
     (case phys_space g of
        None \<Rightarrow> devices_ok width (all_devices cfg) (heap_cells g)
      | Some s \<Rightarrow> mtrr_map_ok width (entries s) \<and> (\<forall>x. tag_at (entries s) x = device_tag (all_devices cfg) x))"

lemma get_space_facts:
  assumes "space_known width cfg g" "get_physical_address_space cfg g = (s, g1)"
  shows "mtrr_map_ok width (entries s)" "tag_at (entries s) x = device_tag (all_devices cfg) x" "phys_space g1 = Some s"
    "global_solution g1 = global_solution g" "num_mtrrs g1 = num_mtrrs g" "fixed_types g1 = fixed_types g"
    "space_known width cfg g1"
proof -
  have "mtrr_map_ok width (entries s) \<and> (\<forall>x. tag_at (entries s) x = device_tag (all_devices cfg) x) \<and> phys_space g1 = Some s \<and>
    global_solution g1 = global_solution g \<and> num_mtrrs g1 = num_mtrrs g \<and> fixed_types g1 = fixed_types g"
  proof (cases "phys_space g")
    case None
    then have "devices_ok width (all_devices cfg) (heap_cells g)" using assms(1) by (simp add: space_known_def)
    note b = build_address_space_facts [OF this]
    obtain s' h where "build_address_space (all_devices cfg) (heap_cells g) = (s', h)" by fastforce
    then show ?thesis using b assms(2) None by (auto simp: get_physical_address_space_def)
  next
    case (Some s')
    then show ?thesis using assms by (auto simp: get_physical_address_space_def space_known_def)
  qed
  then show "mtrr_map_ok width (entries s)" "tag_at (entries s) x = device_tag (all_devices cfg) x" "phys_space g1 = Some s"
    "global_solution g1 = global_solution g" "num_mtrrs g1 = num_mtrrs g" "fixed_types g1 = fixed_types g" "space_known width cfg g1"
    by (auto simp: space_known_def)
qed


lemma device_tag_cases:
  assumes "device_tag devs x = Some t"
  shows "t \<in> {ucast MTRR_TYPE_WRBACK, ucast MTRR_TYPE_UNCACHEABLE, ucast MTRR_TYPE_WRCOMB}"
proof -
  have "t \<in> {ucast MTRR_TYPE_WRBACK, ucast MTRR_TYPE_UNCACHEABLE, ucast MTRR_TYPE_WRCOMB}" if "last_tag page_hits (space_writes devs) x = Some t"
    using last_tag_mem [OF that] by (auto simp: space_writes_def Let_def)
  then show ?thesis using assms by (auto simp: device_tag_def split: option.splits if_splits)
qed

lemma enable_lapic_globals:
  "enable_lapic cfg (g, c) = Some (g1, c1) \<Longrightarrow> \<exists>q. g1 = g\<lparr>quirk_x2apic_allowed := q\<rparr>"
  by (cases g, rule exI [of _ "quirk_x2apic_allowed g1"])
    (auto simp: enable_lapic_def enable_lapic_mode_def ASSERT_def Let_def split: if_splits)

text \<open>The address space the next operation works on.\<close>

definition current_space :: "mtrr_config \<Rightarrow> mtrr_globals \<Rightarrow> memranges" where
  "current_space cfg g = fst (get_physical_address_space cfg g)"

lemma setup_fixed_facts:
  assumes sp: "space_known width cfg g" and w: "width \<le> 43" and u: "slots_uniform (device_tag (all_devices cfg))" and n: "fixed_types g = None"
  obtains g1 c1 where "x86_setup_fixed_mtrrs cfg (g, c) = Some (g1, c1)" "space_known width cfg g1"
    "global_solution g1 = global_solution g" "num_mtrrs g1 = num_mtrrs g" "current_space cfg g1 = current_space cfg g"
    "msr_lo (msrs c1 MTRR_DEF_TYPE_MSR) AND MTRR_DEF_TYPE_FIX_EN \<noteq> 0"
    "\<And>x t. unat x < 2 ^ 20 \<Longrightarrow> device_tag (all_devices cfg) x = Some t \<Longrightarrow>
      ucast (fixed_byte c1 (slot_of (unat x div 2 ^ 12)) AND 7) = (ucast t :: u32)"
proof -
  obtain s g0 where s: "get_physical_address_space cfg g = (s, g0)" by fastforce
  note f = get_space_facts [OF sp s]
  let ?bits = "MTRR_FIXED_WRBACK_BITS cfg"
  have "slots_uniform (tag_at (entries s))" using u unfolding slots_uniform_def f(2) .
  from fixed_space_from_map [OF f(1) w this] obtain types where t: "calc_fixed_mtrrs ?bits (entries s) = Some types" "length types = 88"
    "\<And>x r. unat x < 2 ^ 20 \<Longrightarrow> r \<in> set (entries s) \<Longrightarrow> r_begin r \<le> x \<Longrightarrow> x \<le> r_end r \<Longrightarrow> types ! slot_of (unat x div 2 ^ 12) = fixed_type ?bits r"
    by (rule calc_fixed_types [where wrback_bits = ?bits]) blast
  let ?g1 = "g0\<lparr>fixed_types := Some types\<rparr>" and ?c = "commit_fixed_mtrrs (amd_fixed_mtrrs cfg) types c"
  show ?thesis
  proof (rule that [of ?g1 "enable_fixed_mtrr ?c"])
    show "x86_setup_fixed_mtrrs cfg (g, c) = Some (?g1, enable_fixed_mtrr ?c)"
      by (simp add: x86_setup_fixed_mtrrs_def x86_setup_fixed_mtrrs_no_enable_def n s t(1))
    show "space_known width cfg ?g1" using f(7) by (simp add: space_known_def split: option.splits)
    show "global_solution ?g1 = global_solution g" "num_mtrrs ?g1 = num_mtrrs g" using f(4,5) by simp_all
    have "current_space cfg g = s" by (simp add: current_space_def s)
    then show "current_space cfg ?g1 = current_space cfg g" using f(3) by (simp add: current_space_def get_physical_address_space_def)
    have "bit (a OR (MTRR_DEF_TYPE_EN OR MTRR_DEF_TYPE_FIX_EN)) 10" for a by (simp add: bit_simps MTRR_DEF_TYPE_EN_def MTRR_DEF_TYPE_FIX_EN_def)
    then show "msr_lo (msrs (enable_fixed_mtrr ?c) MTRR_DEF_TYPE_MSR) AND MTRR_DEF_TYPE_FIX_EN \<noteq> 0"
      using and_exp_eq_0_iff_not_bit [of _ 10] by (auto simp: enable_fixed_mtrr_def Let_def MTRR_DEF_TYPE_FIX_EN_def)
    fix x t assume x: "unat x < 2 ^ 20" and dt: "device_tag (all_devices cfg) x = Some t"
    let ?k = "slot_of (unat x div 2 ^ 12)"
    have "unat x div 2 ^ 12 < 0x100" using x by (simp add: div_less_iff_less_mult)
    then have k: "?k < 88" using slot_of_bounds by blast
    have "tag_at (entries s) x = Some t" using dt f(2) by simp
    then obtain r where r: "r \<in> set (entries s)" "r_begin r \<le> x" "x \<le> r_end r" "r_tag r = t" using tag_at_Some_mem by blast
    have "?k div 8 < 11" using k by simp
    then have "fixed_msr_numbers ! (?k div 8) \<in> set fixed_msr_numbers" by (intro nth_mem) (simp add: fixed_msr_numbers_eq)
    then have "fixed_msr_numbers ! (?k div 8) \<noteq> MTRR_DEF_TYPE_MSR" by (auto simp: fixed_msr_numbers_eq MTRR_DEF_TYPE_MSR_def)
    then have "fixed_byte (enable_fixed_mtrr ?c) ?k = fixed_byte ?c ?k" unfolding fixed_byte_def by (simp add: enable_fixed_mtrr_def Let_def)
    also have "\<dots> = fixed_type ?bits r" unfolding commit_fixed_bytes [OF k t(2)] by (rule t(3) [OF x r(1-3)])
    finally have b: "fixed_byte (enable_fixed_mtrr ?c) ?k = fixed_type ?bits r" .
    show "ucast (fixed_byte (enable_fixed_mtrr ?c) ?k AND 7) = (ucast t :: u32)"
      unfolding b using device_tag_cases [OF dt]
      by (auto simp: fixed_type_def range_entry_tag_def r(4) mtrr_types MTRR_FIXED_WRBACK_BITS_def MTRR_READ_MEM_def MTRR_WRITE_MEM_def)
  qed
qed

lemma setup_var_facts:
  assumes sp: "space_known width cfg g" and n: "global_solution g = None" "num_mtrrs g \<le> NUM_MTRR_STATIC_STORAGE"
  obtains sol s1 g1 where "x86_setup_var_mtrrs cfg width high (g, c) = (g1, snd (commit_var_mtrrs (num_mtrrs g) sol c))"
    "global_solution g1 = Some sol" "num_mtrrs g1 = num_mtrrs g"
    "solve_mtrrs cfg (num_mtrrs g) (current_space cfg g) high width = (sol, s1)"
    "mtrr_map_ok width (entries (current_space cfg g))"
    "\<And>x. tag_at (entries (current_space cfg g)) x = device_tag (all_devices cfg) x"
    "\<And>c x t. \<lbrakk>num_used sol \<le> num_mtrrs g; unat x < 2 ^ width; 2 ^ 20 \<le> unat x; high \<or> unat x < 2 ^ 32; device_tag (all_devices cfg) x = Some t\<rbrakk> \<Longrightarrow>
      cpu_memory_type width (num_mtrrs g) (snd (commit_var_mtrrs (num_mtrrs g) sol c)) x =
      Some (ucast (final_tag (reserve_for_os cfg) (num_mtrrs g) high (current_space cfg g) t AND 0xFF))"
proof -
  obtain s g0 where s: "get_physical_address_space cfg g = (s, g0)" by fastforce
  note f = get_space_facts [OF sp s]
  have cs: "current_space cfg g = s" by (simp add: current_space_def s)
  obtain sol s1 where sol: "solve_mtrrs cfg (num_mtrrs g) s high width = (sol, s1)" by fastforce
  show ?thesis
  proof (rule that [of "g0\<lparr>phys_space := Some s1, global_solution := Some sol\<rparr>" sol s1])
    show "solve_mtrrs cfg (num_mtrrs g) (current_space cfg g) high width = (sol, s1)" unfolding cs by (rule sol)
    show "mtrr_map_ok width (entries (current_space cfg g))" unfolding cs by (rule f(1))
    show "tag_at (entries (current_space cfg g)) x = device_tag (all_devices cfg) x" for x unfolding cs by (rule f(2))
    show "x86_setup_var_mtrrs cfg width high (g, c) =
      (g0\<lparr>phys_space := Some s1, global_solution := Some sol\<rparr>, snd (commit_var_mtrrs (num_mtrrs g) sol c))"
      by (simp add: x86_setup_var_mtrrs_def s f(4,5) n(1) sol)
    show "global_solution (g0\<lparr>phys_space := Some s1, global_solution := Some sol\<rparr>) = Some sol" by simp
    show "num_mtrrs (g0\<lparr>phys_space := Some s1, global_solution := Some sol\<rparr>) = num_mtrrs g" by (simp add: f(5))
    show "cpu_memory_type width (num_mtrrs g) (snd (commit_var_mtrrs (num_mtrrs g) sol c)) x =
      Some (ucast (final_tag (reserve_for_os cfg) (num_mtrrs g) high (current_space cfg g) t AND 0xFF))"
      if "num_used sol \<le> num_mtrrs g" "unat x < 2 ^ width" "2 ^ 20 \<le> unat x" "high \<or> unat x < 2 ^ 32" "device_tag (all_devices cfg) x = Some t" for c x t
      using solve_mtrrs_types [OF f(1) sol that(1) n(2) that(2-4)] that(5) f(2) unfolding cs by simp
  qed
qed


subsection \<open>Temporary ranges\<close>

definition temp_writes :: "range_entry list \<Rightarrow> temp_range list \<Rightarrow> (addr \<times> addr \<times> u64) list" where
  "temp_writes es trs =
     map (\<lambda>r. (range_entry_base r, range_entry_size r,
               if range_entry_tag r = ucast MTRR_TYPE_WRCOMB then ucast MTRR_TYPE_UNCACHEABLE else range_entry_tag r)) es @
     map (\<lambda>t. (tr_begin t, tr_size t, scast (tr_type t))) (filter (\<lambda>t. tr_size t \<noteq> 0) trs)"

lemma temp_address_space_puts: "temp_address_space orig trs heap = pages.puts (temp_writes (entries orig) trs) (empty_pages heap)"
proof -
  have "fold (\<lambda>t s. if tr_size t \<noteq> 0 then memranges_insert s (tr_begin t) (tr_size t) (scast (tr_type t)) else s) trs s =
      pages.puts (map (\<lambda>t. (tr_begin t, tr_size t, scast (tr_type t))) (filter (\<lambda>t. tr_size t \<noteq> 0) trs)) s" for s
    by (induction trs arbitrary: s) (simp_all add: pages.puts_def)
  then show ?thesis by (simp add: temp_address_space_def temp_writes_def pages.puts_append empty_pages_def Let_def)
    (simp add: pages.puts_def fold_map comp_def)
qed

text \<open>Writing the ranges of a page map into an empty one gives the map back.\<close>

lemma page_range_hits:
  assumes "mtrr_map_ok width es" "r \<in> set es"
  shows "page_hits (range_entry_base r) (range_entry_size r) x \<longleftrightarrow> r_begin r \<le> x \<and> x \<le> r_end r"
    and "unat (range_entry_base r) + unat (range_entry_size r) = unat (r_end r) + 1"
proof -
  have sp: "mtrr_space_ok width es" by (rule mtrr_map_space [OF assms(1)])
  then have d: "2 ^ 12 dvd unat (r_begin r)" "2 ^ 12 dvd unat (r_end r) + 1" "unat (r_end r) < 2 ^ width" "width \<le> 52" "r_begin r \<le> r_end r"
    using assms(2) by (auto simp: mtrr_space_ok_def ranges_ok_def)
  have "(2::nat) ^ width \<le> 2 ^ 52" using d(4) by (intro power_increasing) simp_all
  then have lt: "unat (r_end r) < 0xFFFFFFFFFFFFFFFF" using d(3) by simp
  have le: "unat (r_begin r) \<le> unat (r_end r)" using d(5) by (simp add: unat_simps)
  have df: "unat (r_end r - r_begin r) = unat (r_end r) - unat (r_begin r)" by (rule unat_sub_no_wrap [OF le])
  have "unat (r_end r - r_begin r) < 0xFFFFFFFFFFFFFFFF" using lt df by simp
  then have sz: "unat (range_entry_size r) = unat (r_end r) + 1 - unat (r_begin r)"
    unfolding range_entry_size_def using df le by (simp add: unat_suc_64)
  have base: "range_entry_base r = r_begin r" by (simp add: range_entry_base_def)
  show sum: "unat (range_entry_base r) + unat (range_entry_size r) = unat (r_end r) + 1"
    unfolding base sz using le by simp
  have "range_entry_size r \<noteq> 0" using sum d(5) unfolding base by (auto simp: unat_simps)
  moreover have "unat (r_end r) div 2 ^ 12 = page_end r - 1"
  proof -
    obtain e where "unat (r_end r) + 1 = 2 ^ 12 * e" using d(2) by blast
    then show ?thesis unfolding page_end_def by (cases e) (simp_all add: div_nat_eqI)
  qed
  moreover have "0 < page_end r" using page_bounds(1) [OF sp assms(2)] by simp
  ultimately show "page_hits (range_entry_base r) (range_entry_size r) x \<longleftrightarrow> r_begin r \<le> x \<and> x \<le> r_end r"
    unfolding touches_def sum unfolding in_range_pages [OF d(1,2)] base page_begin_def [symmetric] by auto
qed

lemma temp_space_tags:
  assumes "mtrr_map_ok width es"
  shows "last_tag page_hits (temp_writes es trs) x =
    (case last_tag page_hits (map (\<lambda>t. (tr_begin t, tr_size t, scast (tr_type t))) (filter (\<lambda>t. tr_size t \<noteq> 0) trs)) x of
       Some t \<Rightarrow> Some t
     | None \<Rightarrow> map_option (\<lambda>t. if t = ucast MTRR_TYPE_WRCOMB then ucast MTRR_TYPE_UNCACHEABLE else t) (tag_at es x))"
proof -
  let ?f = "\<lambda>t :: u64. if t = ucast MTRR_TYPE_WRCOMB then ucast MTRR_TYPE_UNCACHEABLE else t"
  let ?w = "map (\<lambda>r. (range_entry_base r, range_entry_size r, ?f (range_entry_tag r)))"
  have ok: "ranges_ok es" using assms by (simp add: mtrr_map_ok_def)
  have h: "page_hits (range_entry_base r) (range_entry_size r) x \<longleftrightarrow> r_begin r \<le> x \<and> x \<le> r_end r" if "r \<in> set es" for r
    by (rule page_range_hits(1) [OF assms that])
  have app: "last_tag page_hits (us @ vs) x = (case last_tag page_hits vs x of Some t \<Rightarrow> Some t | None \<Rightarrow> last_tag page_hits us x)" for us vs :: "(addr \<times> addr \<times> u64) list"
    by (induction us) (auto simp: last_tag_Cons split: option.splits)
  have "last_tag page_hits (?w es) x = map_option ?f (tag_at es x)"
  proof (cases "tag_at es x")
    case None
    then have "\<not> page_hits (range_entry_base r) (range_entry_size r) x" if "r \<in> set es" for r using h [OF that] that tag_at_None_iff by blast
    then have n: "last_tag page_hits (?w es) x \<noteq> Some t" for t by (force dest!: last_tag_mem)
    have "last_tag page_hits (?w es) x = None"
    proof (rule ccontr)
      assume "last_tag page_hits (?w es) x \<noteq> None"
      then obtain u where "last_tag page_hits (?w es) x = Some u" by blast
      then show False by (rule n [THEN notE])
    qed
    then show ?thesis using None by simp
  next
    case (Some t)
    then obtain r where r: "r \<in> set es" "r_begin r \<le> x" "x \<le> r_end r" "r_tag r = t" using tag_at_Some_mem by blast
    have "last_tag page_hits (?w es) x \<noteq> None"
    proof
      assume "last_tag page_hits (?w es) x = None"
      then have "\<not> (case w of (b, n, t) \<Rightarrow> page_hits b n x)" if "w \<in> set (?w es)" for w
        using that unfolding last_tag_def by (auto simp: find_None_iff)
      then show False using h [OF r(1)] r by force
    qed
    then obtain u where u: "last_tag page_hits (?w es) x = Some u" by blast
    then obtain q where "q \<in> set es" "u = ?f (range_entry_tag q)" "page_hits (range_entry_base q) (range_entry_size q) x"
      by (auto dest!: last_tag_mem)
    then have "u = ?f t" using h tag_at_mem [OF ok] Some by (auto simp: range_entry_tag_def)
    then show ?thesis using u Some by simp
  qed
  then show ?thesis unfolding temp_writes_def app by (simp only:)
qed

lemma temp_writes_ok:
  assumes "mtrr_map_ok width es"
    and "writes_ok width (map (\<lambda>t. (tr_begin t, tr_size t, scast (tr_type t))) (filter (\<lambda>t. tr_size t \<noteq> 0) trs))"
  shows "writes_ok width (temp_writes es trs)"
proof -
  let ?f = "\<lambda>t :: u64. if t = ucast MTRR_TYPE_WRCOMB then ucast MTRR_TYPE_UNCACHEABLE else t"
  have "unat (range_entry_base r) + unat (range_entry_size r) \<le> 2 ^ width \<and>
      (ucast (?f (range_entry_tag r) AND 0xFF) = MTRR_TYPE_WRBACK \<longrightarrow> unat (range_entry_base r) + unat (range_entry_size r) \<le> 2 ^ 43 - 2 ^ 12)"
    if r: "r \<in> set es" for r
  proof -
    have "ranges_ok es" using assms(1) by (simp add: mtrr_map_ok_def)
    then have "tag_at es (r_end r) = Some (r_tag r)" using range_end_tags [OF _ r] by simp
    then have "unat (r_end r) < 2 ^ width \<and> (ucast (r_tag r AND 0xFF) = MTRR_TYPE_WRBACK \<longrightarrow> unat (r_end r) < 2 ^ 43 - 2 ^ 12)"
      using assms(1) unfolding mtrr_map_ok_def by blast
    then show ?thesis unfolding page_range_hits(2) [OF assms(1) r] by (auto simp: range_entry_tag_def mtrr_types)
  qed
  then show ?thesis using assms(2) unfolding temp_writes_def writes_ok_def by auto
qed


subsection \<open>Legal register contents\<close>

text \<open>
  The processor faults on a write that sets a reserved bit: in a base the bits 8 to 11 and those above the
  width of physical addresses, in a mask also the low ten bits. The type must be one the processor knows.
\<close>

definition reg_legal :: "nat \<Rightarrow> var_mtrr_regs \<Rightarrow> bool" where
  "reg_legal width r \<longleftrightarrow>
     msr_value (reg_base r) AND NOT (mask width AND NOT (mask 12) OR mask 8) = 0 \<and>
     msr_value (reg_mask r) AND NOT (mask width AND NOT (mask 12) OR ucast MTRR_PHYS_MASK_VALID) = 0 \<and>
     var_mtrr_type r \<in> {MTRR_TYPE_UNCACHEABLE, MTRR_TYPE_WRCOMB, MTRR_TYPE_WRTHROUGH, MTRR_TYPE_WRPROT, MTRR_TYPE_WRBACK}"

lemma zero_reg_legal [simp]: "reg_legal width \<lparr>reg_base = \<lparr>msr_lo = 0, msr_hi = 0\<rparr>, reg_mask = \<lparr>msr_lo = 0, msr_hi = 0\<rparr>\<rparr>"
  by (simp add: reg_legal_def msr_value_def var_mtrr_type_def mtrr_types)

lemma encode_mtrr_legal:
  assumes width: "12 \<le> width" "width < 64" and k: "2 ^ k dvd unat base" "unat sz = 2 ^ k" and fit: "unat base + 2 ^ k \<le> 2 ^ (width - 12)"
    and ty: "ty \<in> {MTRR_TYPE_UNCACHEABLE, MTRR_TYPE_WRCOMB, MTRR_TYPE_WRTHROUGH, MTRR_TYPE_WRPROT, MTRR_TYPE_WRBACK}"
  shows "reg_legal width (encode_mtrr width (base, sz, ty))"
proof -
  let ?r = "encode_mtrr width (base, sz, ty)"
  have t8: "ty AND NOT 0xFF = 0" using ty by (auto simp: mtrr_types)
  note tb = type_bits [OF t8]
  have lt: "unat base < 2 ^ (width - 12)" using fit zero_less_power [of "2 :: nat" k] by linarith
  have bb: "\<not> bit base n" if "width - 12 \<le> n" for n
  proof -
    have "unat base div 2 ^ n = 0" using less_le_trans [OF lt power_increasing [OF that, of 2]] by simp
    then have "\<not> bit (unat base) n" by (simp add: bit_iff_odd)
    then show ?thesis using bit_imp_le_length [of base n] by (auto simp: bit_unsigned_iff)
  qed
  have "msr_value (reg_base ?r) AND NOT (mask width AND NOT (mask 12) OR mask 8) = 0"
  proof (rule bit_word_eqI)
    fix n assume "n < LENGTH(64)"
    have "bit (msr_value (reg_base ?r)) n \<Longrightarrow> n < width \<and> 12 \<le> n \<or> n < 8"
      unfolding encode_mtrr_def prod.case var_mtrr_regs.simps bit_msr_value
      using bb [of "n - 12"] tb [of n] diff_le_mono [of width n 12]
      by (cases "n < width"; cases "n < 8") (auto simp: RANGE_TO_PHYS_ADDR_def bit_simps not_less)
    then show "bit (msr_value (reg_base ?r) AND NOT (mask width AND NOT (mask 12) OR mask 8)) n = bit (0 :: u64) n"
      using \<open>n < LENGTH(64)\<close> by (auto simp: bit_simps)
  qed
  moreover have "msr_value (reg_mask ?r) AND NOT (mask width AND NOT (mask 12) OR ucast MTRR_PHYS_MASK_VALID) = 0"
  proof (rule bit_word_eqI)
    fix n assume n: "n < LENGTH(64)"
    have p: "MTRR_PHYS_MASK_VALID = 2 ^ 11" by (simp add: MTRR_PHYS_MASK_VALID_def)
    have v: "bit MTRR_PHYS_MASK_VALID n \<longleftrightarrow> n = 11" unfolding p bit_exp_iff by auto
    have "(2::nat) ^ k \<le> 2 ^ (width - 12)" using fit by linarith
    then have kw: "k \<le> width - 12" by simp
    have "(2::nat) ^ k < 2 ^ 64" using kw width by (intro power_strict_increasing) simp_all
    then have sz: "sz = 2 ^ k" using k(2) unat_pow_64 [of k] kw width by (intro word_eq_unatI) simp
    have "RANGE_TO_PHYS_ADDR sz = 2 ^ (k + 12)" unfolding RANGE_TO_PHYS_ADDR_def sz push_bit_eq_mult by (simp add: power_add)
    then have rs: "- RANGE_TO_PHYS_ADDR sz AND (push_bit width 1 - 1) = NOT (mask (k + 12)) AND mask width"
      by (simp only: minus_exp_eq_not_mask mask_eq_exp_minus_1 push_bit_of_1)
    have "bit (msr_value (reg_mask ?r)) n \<Longrightarrow> n < width \<and> 12 \<le> n \<or> n = 11"
      unfolding encode_mtrr_def prod.case var_mtrr_regs.simps bit_msr_value v rs
      by (auto simp: bit_simps)
    then show "bit (msr_value (reg_mask ?r) AND NOT (mask width AND NOT (mask 12) OR ucast MTRR_PHYS_MASK_VALID)) n = bit (0 :: u64) n"
      using n by (auto simp: bit_simps v)
  qed
  moreover have "var_mtrr_type ?r = ty" using encode_mtrr_match(2) [OF width k fit t8, of 0] by simp
  ultimately show ?thesis unfolding reg_legal_def using ty by simp
qed

text \<open>The tags of an address space name types the processor knows.\<close>

definition types_ok :: "range_entry list \<Rightarrow> bool" where
  "types_ok es \<longleftrightarrow> (\<forall>r\<in>set es. range_entry_mtrr_type r \<in> {MTRR_TYPE_UNCACHEABLE, MTRR_TYPE_WRCOMB, MTRR_TYPE_WRTHROUGH, MTRR_TYPE_WRPROT, MTRR_TYPE_WRBACK})"

lemma space_plan_legal:
  assumes ok: "mtrr_space_ok width es" and ty: "types_ok es" and mem: "x \<in> set (space_plan total_mtrrs high def_type es)"
  shows "reg_legal width (encode_mtrr width x)"
proof -
  obtain b s t where e: "x = (b, s, t)" by (cases x)
  from mem obtain ps r ns where r: "es = ps @ r # ns" "(b, s, t) \<in> set (range_plan total_mtrrs high r (case ns of [] \<Rightarrow> None | n # _ \<Rightarrow> Some n))"
    unfolding space_plan_mem e by blast
  with range_plan_blocks ok obtain k where k: "unat s = 2 ^ k" "2 ^ k dvd unat b" "unat b + 2 ^ k \<le> 2 ^ (width - 12)" by blast
  have "t = range_entry_mtrr_type r \<or> t = MTRR_TYPE_UNCACHEABLE"
    using r(2) by (auto simp: range_plan_def typed_blocks_def split: option.splits if_splits)
  moreover have "range_entry_mtrr_type r \<in> {MTRR_TYPE_UNCACHEABLE, MTRR_TYPE_WRCOMB, MTRR_TYPE_WRTHROUGH, MTRR_TYPE_WRPROT, MTRR_TYPE_WRBACK}"
    using ty r(1) by (simp add: types_ok_def)
  ultimately have "t \<in> {MTRR_TYPE_UNCACHEABLE, MTRR_TYPE_WRCOMB, MTRR_TYPE_WRTHROUGH, MTRR_TYPE_WRPROT, MTRR_TYPE_WRBACK}" by auto
  moreover have "12 \<le> width" "width < 64" using ok by (simp_all add: mtrr_space_ok_def)
  ultimately show ?thesis unfolding e using k by (intro encode_mtrr_legal)
qed

lemma types_ok_tags:
  assumes "ranges_ok es" "\<And>x t. tag_at es x = Some t \<Longrightarrow> t \<in> {ucast MTRR_TYPE_WRBACK, ucast MTRR_TYPE_UNCACHEABLE, ucast MTRR_TYPE_WRCOMB}"
  shows "types_ok es"
proof -
  have "r_tag r \<in> {ucast MTRR_TYPE_WRBACK, ucast MTRR_TYPE_UNCACHEABLE, ucast MTRR_TYPE_WRCOMB}" if "r \<in> set es" for r
    using range_end_tags [OF assms(1) that] assms(2) by blast
  then show ?thesis by (force simp: types_ok_def range_entry_mtrr_type_def range_entry_tag_def mtrr_types)
qed


subsection \<open>Properties\<close>

text \<open>The static variables before the first call.\<close>

definition initial_globals :: "nat \<Rightarrow> mtrr_globals" where
  "initial_globals heap = \<lparr>num_mtrrs = 0, phys_space = None, heap_cells = heap, fixed_types = None, global_solution = None,
     put_back_original_solution = False, temp_ranges = replicate 10 \<lparr>tr_begin = 0, tr_size = 0, tr_type = 0\<rparr>,
     quirk_x2apic_allowed = False\<rparr>"

text \<open>C1: after \<^verbatim>\<open>x86_setup_mtrrs_with_detect\<close> the processor gives every address the memory type the device tree
  asks for: below 1 MiB by the fixed registers, above by the variable ones, where write-combining is given up for
  uncacheable only if neither default type leaves enough registers. This holds whenever the solution fits into
  the registers of the processor, resources stay within the width of physical addresses and no tag changes inside
  a slot of the fixed registers.\<close>

theorem x86_setup_types:
  assumes dev: "devices_ok (phys_address_size cfg) (all_devices cfg) heap" "phys_address_size cfg \<le> 43"
    "slots_uniform (device_tag (all_devices cfg))"
    and lapic: "enable_lapic cfg ((initial_globals heap)\<lparr>num_mtrrs := detect_var_mtrrs c\<rparr>, c) = Some (g1, c1)"
    and room: "num_used (fst (solve_mtrrs cfg (detect_var_mtrrs c) (fst (build_address_space (all_devices cfg) heap)) True
        (phys_address_size cfg))) \<le> detect_var_mtrrs c"
    and tag: "device_tag (all_devices cfg) x = Some t"
  shows "\<exists>g c2. x86_setup_mtrrs_with_detect cfg (initial_globals heap, c) = Some (g, c2) \<and>
    effective_type (phys_address_size cfg) (detect_var_mtrrs c) c2 x =
    Some (ucast (if unat x < 2 ^ 20 then t
      else final_tag (reserve_for_os cfg) (detect_var_mtrrs c) True (fst (build_address_space (all_devices cfg) heap)) t))"
proof -
  let ?w = "phys_address_size cfg" and ?n = "detect_var_mtrrs c"
  obtain q where g1: "g1 = (initial_globals heap)\<lparr>num_mtrrs := ?n, quirk_x2apic_allowed := q\<rparr>"
    using enable_lapic_globals [OF lapic] by auto
  have n: "num_mtrrs g1 = ?n" "?n \<le> NUM_MTRR_STATIC_STORAGE" by (simp_all add: g1 detect_var_mtrrs_def Let_def)
  have sp: "space_known ?w cfg g1" using dev(1) by (simp add: space_known_def g1 initial_globals_def)
  have cs: "current_space cfg g1 = fst (build_address_space (all_devices cfg) heap)"
    by (simp add: current_space_def get_physical_address_space_def g1 initial_globals_def split: prod.split)
  have "fixed_types g1 = None" by (simp add: g1 initial_globals_def)
  obtain g2 c2 where fx: "x86_setup_fixed_mtrrs cfg (g1, c1) = Some (g2, c2)" "space_known ?w cfg g2"
    "global_solution g2 = global_solution g1" "num_mtrrs g2 = num_mtrrs g1" "current_space cfg g2 = current_space cfg g1"
    "msr_lo (msrs c2 MTRR_DEF_TYPE_MSR) AND MTRR_DEF_TYPE_FIX_EN \<noteq> 0"
    "\<And>x t. unat x < 2 ^ 20 \<Longrightarrow> device_tag (all_devices cfg) x = Some t \<Longrightarrow>
      ucast (fixed_byte c2 (slot_of (unat x div 2 ^ 12)) AND 7) = (ucast t :: u32)"
    by (rule setup_fixed_facts [OF sp dev(2,3) \<open>fixed_types g1 = None\<close>, where c = c1]) blast
  have n2: "global_solution g2 = None" "num_mtrrs g2 \<le> NUM_MTRR_STATIC_STORAGE" using fx(3,4) n by (simp_all add: g1 initial_globals_def)
  obtain sol s1 g3 where v: "x86_setup_var_mtrrs cfg ?w True (g2, c2) = (g3, snd (commit_var_mtrrs (num_mtrrs g2) sol c2))"
    "global_solution g3 = Some sol" "num_mtrrs g3 = num_mtrrs g2"
    "\<And>c x t. \<lbrakk>num_used sol \<le> num_mtrrs g2; unat x < 2 ^ ?w; 2 ^ 20 \<le> unat x; True \<or> unat x < 2 ^ 32; device_tag (all_devices cfg) x = Some t\<rbrakk> \<Longrightarrow>
      cpu_memory_type ?w (num_mtrrs g2) (snd (commit_var_mtrrs (num_mtrrs g2) sol c)) x =
      Some (ucast (final_tag (reserve_for_os cfg) (num_mtrrs g2) True (current_space cfg g2) t AND 0xFF))"
    and so: "solve_mtrrs cfg (num_mtrrs g2) (current_space cfg g2) True ?w = (sol, s1)"
    and sk: "mtrr_map_ok ?w (entries (current_space cfg g2))"
    and tg: "\<And>x. tag_at (entries (current_space cfg g2)) x = device_tag (all_devices cfg) x"
    by (rule setup_var_facts [OF fx(2) n2, where c = c2]) blast
  have run: "x86_setup_mtrrs_with_detect cfg (initial_globals heap, c) = Some (g3, snd (commit_var_mtrrs (num_mtrrs g2) sol c2))"
    by (simp add: x86_setup_mtrrs_with_detect_def setup_mtrrs_def lapic fx(1) v(1))
  have n3: "num_mtrrs g2 = ?n" using fx(4) n(1) by simp
  have cs2: "current_space cfg g2 = fst (build_address_space (all_devices cfg) heap)" unfolding fx(5) cs ..
  have u: "num_used sol \<le> num_mtrrs g2" using room so unfolding n3 cs2 by simp
  have "effective_type ?w (num_mtrrs g2) (snd (commit_var_mtrrs (num_mtrrs g2) sol c2)) x =
      Some (ucast (if unat x < 2 ^ 20 then t else final_tag (reserve_for_os cfg) (num_mtrrs g2) True (current_space cfg g2) t))"
  proof (cases "unat x < 2 ^ 20")
    case True
    then show ?thesis unfolding effective_type_commit [OF n2(2) fx(6)] using fx(7) [OF True tag] by simp
  next
    case False
    have "tag_at (entries (current_space cfg g2)) x = Some t" using tg tag by simp
    then have lt: "unat x < 2 ^ ?w" using sk unfolding mtrr_map_ok_def by blast
    have b: "ucast (final_tag (reserve_for_os cfg) m True s t AND 0xFF) = (ucast (final_tag (reserve_for_os cfg) m True s t) :: u32)" for m s
      using device_tag_cases [OF tag] by (auto simp: final_tag_def mtrr_types)
    have ge: "2 ^ 20 \<le> unat x" using False by simp
    show ?thesis
      unfolding effective_type_commit [OF n2(2) fx(6)] if_not_P [OF False] v(4) [OF u lt ge disjI1 [OF TrueI] tag] b ..
  qed
  with run show ?thesis unfolding n3 cs2 by blast
qed


text \<open>A machine with 2 GiB of memory, the hole below 1 MiB, and a graphics card.\<close>

definition mtrr_machine :: "device list" where
  "mtrr_machine =
     [\<lparr>dev_enabled = True, dev_path_type = 6, dev_class = 0, resource_list =
        [\<lparr>res_base = 0, res_size = 0xA0000, res_limit = 0, res_flags = 0x40004200, res_index = 0, res_align = 0, res_gran = 0\<rparr>,
         \<lparr>res_base = 0x100000, res_size = 0x7FF00000, res_limit = 0, res_flags = 0x40004200, res_index = 1, res_align = 0, res_gran = 0\<rparr>]\<rparr>,
      \<lparr>dev_enabled = True, dev_path_type = DEVICE_PATH_PCI, dev_class = 0x30000, resource_list =
        [\<lparr>res_base = 0xD0000000, res_size = 0x10000000, res_limit = 0, res_flags = 0x40001200, res_index = 0x10, res_align = 0, res_gran = 0\<rparr>]\<rparr>]"

definition mtrr_sample_config :: mtrr_config where
  "mtrr_sample_config = \<lparr>all_devices = mtrr_machine, amd_fixed_mtrrs = False, reserve_for_os = False, phys_address_size = 36,
     xapic_only = True, x2apic_late_workaround = False, fatal_asserts = True, feature_flags_ecx = 0\<rparr>"

definition sample_cpu :: cpu where
  "sample_cpu = \<lparr>msrs = (\<lambda>n. if n = MTRR_CAP_MSR then \<lparr>msr_lo = 0x508, msr_hi = 0\<rparr>
      else if n = LAPIC_BASE_MSR then \<lparr>msr_lo = 0xFEE00900, msr_hi = 0\<rparr> else \<lparr>msr_lo = 0, msr_hi = 0\<rparr>), cr0 = 0\<rparr>"

lemma sample_resource_space:
  "resource_space mtrr_machine 100 =
    (\<lparr>entries = [\<lparr>r_begin = 0, r_end = 0x9FFFF, r_tag = 6\<rparr>, \<lparr>r_begin = 0x100000, r_end = 0x7FFFFFFF, r_tag = 6\<rparr>,
        \<lparr>r_begin = 0xD0000000, r_end = 0xDFFFFFFF, r_tag = 1\<rparr>], free_list = [], align = 12\<rparr>, 97)"
  by code_simp

lemma sample_address_space:
  "build_address_space mtrr_machine 100 =
    (\<lparr>entries = [\<lparr>r_begin = 0, r_end = 0x9FFFF, r_tag = 6\<rparr>, \<lparr>r_begin = 0xA0000, r_end = 0xFFFFF, r_tag = 0\<rparr>,
        \<lparr>r_begin = 0x100000, r_end = 0x7FFFFFFF, r_tag = 6\<rparr>, \<lparr>r_begin = 0x80000000, r_end = 0xCFFFFFFF, r_tag = 0\<rparr>,
        \<lparr>r_begin = 0xD0000000, r_end = 0xDFFFFFFF, r_tag = 1\<rparr>, \<lparr>r_begin = 0xE0000000, r_end = 0xFFFFFFFF, r_tag = 0\<rparr>],
      free_list = [], align = 12\<rparr>, 94)"
  by code_simp

lemma sample_writes: "space_writes mtrr_machine = [(0, 0xA0000, 6), (0x100000, 0x7FF00000, 6), (0xD0000000, 0x10000000, 0),
    (0xD0000000, 0x10000000, 1)]"
  by code_simp

lemma sample_devices_ok: "devices_ok 36 mtrr_machine 100"
  by (simp add: devices_ok_def sample_writes sample_resource_space writes_ok_def four_gib fill_ok_def clear_of_limit_def mtrr_types
      last_tag_def touches_def)

lemma sample_device_tag:
  "unat x < 2 ^ 20 \<Longrightarrow> device_tag mtrr_machine x = (if unat x div 2 ^ 12 < 0xA0 then Some 6 else Some 0)"
  by (auto simp: device_tag_def sample_writes last_tag_def touches_def mtrr_types)

lemma mtrr_sample_slots: "slots_uniform (device_tag mtrr_machine)"
proof -
  have "p < 0xA0 \<longleftrightarrow> slot_of p < 16" if "p < 0x100" for p
  proof -
    have "p < slot_begin 16 \<longleftrightarrow> slot_of p < 16"
      using slot_of_bounds [OF that] slot_begin_less [of "slot_of p" 16] slot_begin_less [of 15 "slot_of p"]
      by (metis Suc_leI le_less_trans linorder_not_less slot_begin_less less_le_trans order_le_less)
    then show ?thesis by (simp add: slot_begin_def)
  qed
  then have "unat x div 2 ^ 12 < 0xA0 \<longleftrightarrow> slot_of (unat x div 2 ^ 12) < 16" if "unat x < 2 ^ 20" for x :: addr
    using that by (simp add: div_less_iff_less_mult)
  then show ?thesis unfolding slots_uniform_def by (metis sample_device_tag)
qed

lemma sample_count: "detect_var_mtrrs sample_cpu = 8"
  by (simp add: detect_var_mtrrs_def get_var_mtrr_count_def rdmsr_def sample_cpu_def NUM_MTRR_STATIC_STORAGE_def Let_def)

lemma sample_lapic:
  "enable_lapic mtrr_sample_config ((initial_globals 100)\<lparr>num_mtrrs := 8\<rparr>, sample_cpu) = Some ((initial_globals 100)\<lparr>num_mtrrs := 8\<rparr>, sample_cpu)"
  by (simp add: enable_lapic_def enable_lapic_mode_def mtrr_sample_config_def sample_cpu_def rdmsr_def lapic_defs MTRR_CAP_MSR_def ASSERT_def Let_def)

text \<open>Evaluation of the plan of a concrete space.\<close>

lemma bit_length_numeral: "bit_length (numeral n) = Suc (bit_length (numeral n div 2))" "bit_length (Suc 0) = 1"
  by (simp_all add: bit_length.simps [of "numeral n"] bit_length.simps [of "Suc 0"])

lemma mtrr_blocks_step:
  "sz \<noteq> 0 \<Longrightarrow> mtrr_blocks base sz = (base, next_mtrr_size base sz) # mtrr_blocks (base + next_mtrr_size base sz) (sz - next_mtrr_size base sz)"
  by (subst mtrr_blocks.simps) simp

lemmas plan_eval = bit_length_numeral mtrr_blocks_step next_mtrr_size_def ffs64_def fls64_def log2_64_def clz64_def
  ffs_def fls_def log2_32_def clz_def range_plan_def range_limits_def hole_limit_def optimize_var_mtrr_hole_def
  range_entry_base_mtrr_addr_def range_entry_base_def range_entry_end_def range_entry_end_mtrr_addr_def range_entry_mtrr_type_def
  range_entry_tag_def PHYS_TO_RANGE_ADDR_def mtrr_types RANGE_4GB_def RANGE_1MB_def count_state_def typed_blocks_def calc_var_mtrr_range_index

lemma sample_plans:
  fixes es :: "range_entry list"
  defines "es \<equiv> entries (fst (build_address_space mtrr_machine 100))"
  shows "length (space_plan 8 True MTRR_TYPE_WRBACK es) = 4" "length (space_plan 8 True MTRR_TYPE_UNCACHEABLE es) = 2"
  unfolding es_def sample_address_space by (simp_all add: plan_eval)

lemma mtrr_sample_room:
  "\<not> too_many_mtrrs False 8 True (entries (fst (build_address_space mtrr_machine 100)))"
  "num_used (fst (solve_mtrrs mtrr_sample_config 8 (fst (build_address_space mtrr_machine 100)) True 36)) = 2"
proof -
  let ?s = "fst (build_address_space mtrr_machine 100)"
  show t: "\<not> too_many_mtrrs False 8 True (entries ?s)" by (simp add: too_many_mtrrs_def sample_plans get_os_reserved_mtrrs_def)
  have "reserve_for_os mtrr_sample_config = False" by (simp add: mtrr_sample_config_def)
  with t solve_mtrrs_count [of mtrr_sample_config 8 True ?s 36] show "num_used (fst (solve_mtrrs mtrr_sample_config 8 ?s True 36)) = 2"
    by (simp add: sample_plans)
qed

theorem x86_setup_types_witness:
  "\<exists>g c2. x86_setup_mtrrs_with_detect mtrr_sample_config (initial_globals 100, sample_cpu) = Some (g, c2) \<and>
    effective_type 36 8 c2 0xD8000000 = Some MTRR_TYPE_WRCOMB"
proof -
  have w: "phys_address_size mtrr_sample_config = 36" "all_devices mtrr_sample_config = mtrr_machine" "reserve_for_os mtrr_sample_config = False"
    by (simp_all add: mtrr_sample_config_def)
  have t: "device_tag mtrr_machine 0xD8000000 = Some 1" by (simp add: device_tag_def sample_writes last_tag_def touches_def)
  have f: "final_tag False 8 True (fst (build_address_space mtrr_machine 100)) 1 = 1" using mtrr_sample_room(1) by (simp add: final_tag_def)
  show ?thesis
    using x86_setup_types [of mtrr_sample_config 100 sample_cpu, unfolded w sample_count, OF sample_devices_ok _ mtrr_sample_slots sample_lapic _ t] f mtrr_sample_room(2)
    by (simp add: mtrr_types)
qed


text \<open>C22: every register that \<^verbatim>\<open>x86_setup_var_mtrrs\<close> leaves behind is legal: a base aligned to 4 KiB inside the
  width of physical addresses with one of the five memory types, and a mask without reserved bits. No write
  the set up makes can fault.\<close>

theorem x86_setup_var_legal:
  assumes sp: "space_known width cfg g" and n: "global_solution g = None" "num_mtrrs g \<le> NUM_MTRR_STATIC_STORAGE"
    and room: "num_used (fst (solve_mtrrs cfg (num_mtrrs g) (current_space cfg g) high width)) \<le> num_mtrrs g"
    and i: "i < num_mtrrs g"
  shows "reg_legal width (cpu_reg (snd (x86_setup_var_mtrrs cfg width high (g, c))) i)"
proof -
  obtain sol s1 g1 where v: "x86_setup_var_mtrrs cfg width high (g, c) = (g1, snd (commit_var_mtrrs (num_mtrrs g) sol c))"
    and so: "solve_mtrrs cfg (num_mtrrs g) (current_space cfg g) high width = (sol, s1)"
    and ok: "mtrr_map_ok width (entries (current_space cfg g))"
    and tg: "\<And>x. tag_at (entries (current_space cfg g)) x = device_tag (all_devices cfg) x"
    by (rule setup_var_facts [OF sp n, where c = c and high = high]) blast
  have u: "num_used sol \<le> num_mtrrs g" using room so by simp
  note f = solve_mtrrs_facts [OF so]
  note fs = final_space_facts [OF ok, of "reserve_for_os cfg" "num_mtrrs g" high, folded f(1)]
  have ro: "ranges_ok (entries s1)" using fs(1) by (simp add: mtrr_map_ok_def)
  have "t \<in> {ucast MTRR_TYPE_WRBACK, ucast MTRR_TYPE_UNCACHEABLE, ucast MTRR_TYPE_WRCOMB}" if h: "tag_at (entries s1) x = Some t" for x t
  proof -
    obtain t0 where "tag_at (entries (current_space cfg g)) x = Some t0" "t = final_tag (reserve_for_os cfg) (num_mtrrs g) high (current_space cfg g) t0"
      using h fs(2) [of x] by (cases "tag_at (entries (current_space cfg g)) x") auto
    then show ?thesis using device_tag_cases tg by (auto simp: final_tag_def)
  qed
  note ty = types_ok_tags [OF ro this]
  have "num_mtrrs g \<le> 127" using n(2) by (simp add: NUM_MTRR_STATIC_STORAGE_def)
  note r = commit_regs(1,2) [OF u this]
  show ?thesis
  proof (cases "i < num_used sol")
    case True
    have "take (num_used sol) (sol_regs sol) ! i = map (encode_mtrr width) (space_plan (num_mtrrs g) high (mtrr_default_type sol) (entries s1)) ! i"
      unfolding f(5) [OF u n(2)] ..
    then have "sol_regs sol ! i = encode_mtrr width (space_plan (num_mtrrs g) high (mtrr_default_type sol) (entries s1) ! i)"
      using True f(3) by simp
    moreover have "space_plan (num_mtrrs g) high (mtrr_default_type sol) (entries s1) ! i \<in> set (space_plan (num_mtrrs g) high (mtrr_default_type sol) (entries s1))"
      using True f(3) by (intro nth_mem) simp
    ultimately show ?thesis unfolding v snd_conv r(1) [OF True] using space_plan_legal [OF mtrr_map_space [OF fs(1)] ty] by simp
  next
    case False
    then show ?thesis unfolding v snd_conv using r(2) i by simp
  qed
qed

lemma sample_known: "space_known 36 mtrr_sample_config ((initial_globals 100)\<lparr>num_mtrrs := 8\<rparr>)"
  using sample_devices_ok by (simp add: space_known_def initial_globals_def mtrr_sample_config_def)

lemma sample_current: "current_space mtrr_sample_config ((initial_globals 100)\<lparr>num_mtrrs := 8\<rparr>) = fst (build_address_space mtrr_machine 100)"
  by (simp add: current_space_def get_physical_address_space_def initial_globals_def mtrr_sample_config_def sample_address_space)

theorem x86_setup_var_legal_witness:
  "reg_legal 36 (cpu_reg (snd (x86_setup_var_mtrrs mtrr_sample_config 36 True ((initial_globals 100)\<lparr>num_mtrrs := 8\<rparr>, sample_cpu))) 1)"
proof -
  have g: "global_solution ((initial_globals 100)\<lparr>num_mtrrs := 8\<rparr>) = None" "num_mtrrs ((initial_globals 100)\<lparr>num_mtrrs := 8\<rparr>) = 8"
    by (simp_all add: initial_globals_def)
  show ?thesis
    by (rule x86_setup_var_legal [OF sample_known])
      (simp_all add: sample_current mtrr_sample_room g NUM_MTRR_STATIC_STORAGE_def)
qed

text \<open>C23: the registers \<^verbatim>\<open>calc_var_mtrr_range\<close> spends on a range are as few as any exact cover of the range by
  aligned blocks of power-of-two sizes can do with, and at most two per address bit.\<close>

theorem calc_var_mtrr_range_count:
  assumes "unat base + unat sz < 2 ^ K" "K \<le> 64"
    and "\<And>b k. (b, k) \<in> set bs \<Longrightarrow> 2 ^ k dvd b"
    and "(\<Union>(b, k)\<in>set bs. {b ..< b + 2 ^ k}) = {unat base ..< unat base + unat sz}"
  shows "mtrr_index (calc_var_mtrr_range total_mtrrs st base sz ty) \<le> mtrr_index st + min (length bs) (2 * K)"
proof -
  have "(2::nat) ^ K \<le> 2 ^ 64" using assms(2) by (rule power_increasing) simp
  then have "unat base + unat sz \<le> 2 ^ 64" using assms(1) by linarith
  from mtrr_blocks_minimal [OF this assms(3,4)] mtrr_blocks_length [OF assms(1,2)] show ?thesis
    by (simp add: calc_var_mtrr_range_index)
qed

theorem calc_var_mtrr_range_count_witness:
  "mtrr_index (calc_var_mtrr_range 8 count_state 0x100 0x700 6) \<le> 3"
proof -
  have d: "2 ^ k dvd b" if "(b, k) \<in> set [(0x100, 8), (0x200, 9), (0x400, 10)]" for b k :: nat using that by auto
  have c: "(\<Union>(b, k)\<in>set [(0x100, 8), (0x200, 9), (0x400, 10)]. {b ..< b + 2 ^ k}) = {unat (0x100 :: u64) ..< unat (0x100 :: u64) + unat (0x700 :: u64)}"
    by auto
  from calc_var_mtrr_range_count [of "0x100" "0x700" 12, OF _ _ d c, of 8 count_state 6] show ?thesis by (simp add: count_state_def)
qed

text \<open>Aligning the end of a write-back range up and carving the excess out again never costs registers and never
  reaches beyond the limit the caller sets; among the alignments tried the cheapest is taken.\<close>

theorem optimize_var_mtrr_hole_sound:
  assumes "unat hole < 2 ^ 31" "hole \<noteq> 0"
  shows "hole_ok base hole limit carve_hole (optimize_var_mtrr_hole total_mtrrs base hole limit carve_hole) \<and>
    (\<forall>al. unat (word_of_int (ffs (ucast hole) + 1) :: u32) \<le> al \<and> al \<le> unat (word_of_int (fls (ucast hole)) :: u32) \<and>
        ALIGN_UP hole (int_shift al) \<le> limit \<longrightarrow>
      hole_cost base hole carve_hole (optimize_var_mtrr_hole total_mtrrs base hole limit carve_hole) \<le>
      hole_cost base hole carve_hole (ALIGN_UP hole (int_shift al)))"
  using optimize_var_mtrr_hole_facts [OF assms] by blast

text \<open>Memory up to 1 MiB below 3 GiB: 11 registers without a hole, 3 with one.\<close>

text \<open>C40: when the memory of a machine ends below 1 MiB at a page that is not the start of a slot of the fixed
  registers, the loop of \<^verbatim>\<open>calc_fixed_mtrrs\<close>, which only stops when it meets that page exactly, runs over the end
  of its tables.\<close>

theorem calc_fixed_mtrrs_unaligned:
  assumes "unat (range_entry_base_mtrr_addr r) = 0" "unat (range_entry_end_mtrr_addr r) = e"
    and "e < 0x100" "e \<notin> slot_begin ` {0..88}"
  shows "calc_fixed_mtrrs wrback_bits (r # rs) = None"
proof -
  have "range_entry_base_mtrr_addr r = 0" using assms(1) by (simp add: unat_eq_zero)
  then have b: "(ucast (range_entry_base_mtrr_addr r) :: u32) = word_of_nat (slot_begin 0)"
    "(ucast (range_entry_end_mtrr_addr r) :: u32) = word_of_nat e"
    unfolding assms(2) [symmetric] by (simp_all add: slot_begin_def)
  have "unat (word_of_nat e :: u32) = e" using assms(3) by (intro unat_of_nat_lt) simp
  then have lt: "\<not> fd_end (last fixed_mtrr_descs) < (word_of_nat e :: u32)" using assms(3) by (simp add: fixed_mtrr_descs_def word_less_nat_alt)
  have s: "skip_desc 0 0 = Some 0" by (simp add: skip_desc.simps fixed_mtrr_descs_def)
  have d: "desc_of 0 = 0" "slot_begin 0 = 0" by (simp_all add: desc_of_def slot_begin_def)
  have f: "fill_fixed ty (word_of_nat e) 0 0 0 types = None" for ty types
    using fill_fixed_unaligned [OF _ assms(3,4), of 0 ty types] by (simp add: d)
  have z: "\<not> fd_end (last fixed_mtrr_descs) \<le> 0" "range_index (fixed_mtrr_descs ! 0) = 0" "fd_begin (fixed_mtrr_descs ! 0) = 0"
    by (simp_all add: fixed_mtrr_descs_def)
  show ?thesis unfolding calc_fixed_mtrrs_def fixed_entries.simps Let_def b d(2) using lt s f z by simp
qed

theorem calc_fixed_mtrrs_unaligned_witness:
  "calc_fixed_mtrrs 0 [\<lparr>r_begin = 0, r_end = 0x9EFFF, r_tag = 6\<rparr>, \<lparr>r_begin = 0x9F000, r_end = 0xFFFFFFFF, r_tag = 0\<rparr>] = None"
proof -
  have "0x9F \<noteq> slot_begin i" for i by (simp add: slot_begin_def) presburger
  then have "0x9F \<notin> slot_begin ` {0..88}" by blast
  then show ?thesis
    by (intro calc_fixed_mtrrs_unaligned [where e = "0x9F"])
      (simp_all add: range_entry_base_mtrr_addr_def range_entry_end_mtrr_addr_def range_entry_base_def range_entry_end_def PHYS_TO_RANGE_ADDR_def)
qed


text \<open>A commit depends on the solution only, not on what the registers held.\<close>

lemma use_temp_range_cpu:
  "\<exists>sol. snd (mtrr_use_temp_range cfg b n ty (g, c)) = c \<or>
    snd (mtrr_use_temp_range cfg b n ty (g, c)) = snd (commit_var_mtrrs (num_mtrrs g) sol c) \<and>
    put_back_original_solution (fst (mtrr_use_temp_range cfg b n ty (g, c)))"
proof -
  let ?r = "mtrr_use_temp_range cfg b n ty (g, c)"
  show ?thesis
  proof (cases "n = 0 \<or> claim_temp_range \<lparr>tr_begin = b, tr_size = n, tr_type = ty\<rparr> (temp_ranges g) = None")
    case True
    then have "snd ?r = c" by (auto simp: mtrr_use_temp_range_def)
    then show ?thesis by blast
  next
    case False
    then obtain trs where t: "n \<noteq> 0" "claim_temp_range \<lparr>tr_begin = b, tr_size = n, tr_type = ty\<rparr> (temp_ranges g) = Some trs" by blast
    obtain orig g1 where s: "get_physical_address_space cfg (g\<lparr>temp_ranges := trs\<rparr>) = (orig, g1)" by fastforce
    have n1: "num_mtrrs g1 = num_mtrrs g" using s by (auto simp: get_physical_address_space_def split: option.splits prod.splits)
    obtain s2 h where a: "temp_address_space orig trs (heap_cells g1) = (s2, h)" by fastforce
    obtain sol s1 where so: "solve_mtrrs cfg (num_mtrrs g) s2 True (phys_address_size cfg) = (sol, s1)" by fastforce
    obtain ok c1 where cm: "commit_var_mtrrs (num_mtrrs g) sol c = (ok, c1)" by fastforce
    have r: "?r = (g1\<lparr>heap_cells := h, put_back_original_solution := ok \<or> put_back_original_solution g1\<rparr>, c1)"
      using t by (simp add: mtrr_use_temp_range_def s a n1 so cm)
    have "\<not> ok \<Longrightarrow> c1 = c" using cm by (auto simp: commit_var_mtrrs_def Let_def split: if_splits)
    then show ?thesis unfolding r using cm by (cases ok) (auto intro: exI [of _ sol])
  qed
qed

lemma use_temp_range_globals:
  "num_mtrrs (fst (mtrr_use_temp_range cfg b n ty (g, c))) = num_mtrrs g"
  "global_solution (fst (mtrr_use_temp_range cfg b n ty (g, c))) = global_solution g"
  by (auto simp: mtrr_use_temp_range_def get_physical_address_space_def split: option.splits prod.splits)

text \<open>\<^verbatim>\<open>remove_temp_solution\<close> undoes temporary ranges: whatever range was put in place after the set up, once
  it is removed every address has the memory type it had after the set up.\<close>

theorem temp_range_removed:
  assumes sp: "space_known width cfg g" and n: "global_solution g = None" "num_mtrrs g \<le> NUM_MTRR_STATIC_STORAGE"
    and room: "num_used (fst (solve_mtrrs cfg (num_mtrrs g) (current_space cfg g) high width)) \<le> num_mtrrs g"
    and set_up: "x86_setup_var_mtrrs cfg width high (g, c) = (g1, c1)"
  shows "cpu_memory_type width (num_mtrrs g) (snd (remove_temp_solution (mtrr_use_temp_range cfg begin1 size1 ty (g1, c1)))) x =
    cpu_memory_type width (num_mtrrs g) c1 x"
proof -
  obtain sol s1 g2 where v: "x86_setup_var_mtrrs cfg width high (g, c) = (g2, snd (commit_var_mtrrs (num_mtrrs g) sol c))"
    "global_solution g2 = Some sol" "num_mtrrs g2 = num_mtrrs g"
    and so: "solve_mtrrs cfg (num_mtrrs g) (current_space cfg g) high width = (sol, s1)"
    by (rule setup_var_facts [OF sp n, where c = c and high = high]) blast
  have g: "g1 = g2" "c1 = snd (commit_var_mtrrs (num_mtrrs g) sol c)" using set_up v(1) by simp_all
  have u: "num_used sol \<le> num_mtrrs g" using room so by simp
  note f = solve_mtrrs_facts [OF so]
  have "mtrr_default_type sol AND NOT 0xFF = 0" using best_type_cases [of "num_mtrrs g" high "entries s1"] f(2) by (auto simp: mtrr_types)
  moreover have "num_mtrrs g \<le> 127" "num_used sol \<le> length (sol_regs sol)" using n(2) u f(4) by (simp_all add: NUM_MTRR_STATIC_STORAGE_def)
  ultimately have cm: "cpu_memory_type width (num_mtrrs g) (snd (commit_var_mtrrs (num_mtrrs g) sol c')) x =
      memory_type width (mtrr_default_type sol) (take (num_used sol) (sol_regs sol)) x" for c'
    using u by (intro commit_memory_type)
  let ?r = "mtrr_use_temp_range cfg begin1 size1 ty (g1, c1)"
  note t = use_temp_range_globals [of cfg begin1 size1 ty g1 c1] use_temp_range_cpu [of cfg begin1 size1 ty g1 c1]
  have "snd (remove_temp_solution ?r) = (if put_back_original_solution (fst ?r) then snd (commit_var_mtrrs (num_mtrrs g) sol (snd ?r)) else snd ?r)"
    using t(1,2) v(2,3) g(1) by (cases ?r) (simp add: remove_temp_solution_def)
  moreover have "snd ?r = c1 \<or> put_back_original_solution (fst ?r)" using t(3) by blast
  ultimately show ?thesis unfolding g(2) by (auto simp: cm)
qed

text \<open>C21: while temporary ranges are in place every address above 1 MiB inside one of them has the type that was asked
  for, and every other address keeps the type of the device tree, except that write-combining becomes uncacheable.\<close>

theorem temp_range_types:
  assumes sp: "space_known (phys_address_size cfg) cfg g" and claim: "claim_temp_range \<lparr>tr_begin = begin1, tr_size = size1, tr_type = ty\<rparr> (temp_ranges g) = Some trs"
    and trs: "size1 \<noteq> 0" "\<forall>t\<in>set trs. tr_type t \<in> {MTRR_TYPE_UNCACHEABLE, MTRR_TYPE_WRTHROUGH, MTRR_TYPE_WRPROT, MTRR_TYPE_WRBACK}"
    and ws: "writes_ok (phys_address_size cfg) (map (\<lambda>t. (tr_begin t, tr_size t, scast (tr_type t))) (filter (\<lambda>t. tr_size t \<noteq> 0) trs))"
    and heap: "phys_space g = Some s" "4 * (length (entries s) + length trs) \<le> heap_cells g" "num_mtrrs g \<le> NUM_MTRR_STATIC_STORAGE"
    and room: "num_used (fst (solve_mtrrs cfg (num_mtrrs g) (fst (temp_address_space s trs (heap_cells g))) True (phys_address_size cfg)))
      \<le> num_mtrrs g"
    and x: "2 ^ 20 \<le> unat x" "unat x < 2 ^ phys_address_size cfg"
      "last_tag page_hits (temp_writes (entries s) trs) x = Some t"
  shows "cpu_memory_type (phys_address_size cfg) (num_mtrrs g) (snd (mtrr_use_temp_range cfg begin1 size1 ty (g, c))) x =
    Some (ucast (t AND 0xFF))"
proof -
  let ?w = "phys_address_size cfg" and ?ws = "temp_writes (entries s) trs"
  let ?g = "g\<lparr>temp_ranges := trs\<rparr>"
  have ph: "get_physical_address_space cfg ?g = (s, ?g)" using heap(1) by (simp add: get_physical_address_space_def)
  have ok: "mtrr_map_ok ?w (entries s)" using sp heap(1) by (simp add: space_known_def)
  have wok: "writes_ok ?w ?ws" by (rule temp_writes_ok [OF ok ws])
  have "length ?ws \<le> length (entries s) + length trs" by (simp add: temp_writes_def)
  then have "4 * length ?ws \<le> heap_cells g" by (rule order_trans [OF mult_le_mono2 heap(2)])
  note f = puts_empty_facts [OF wok this, folded temp_address_space_puts]
  obtain s2 h where a: "temp_address_space s trs (heap_cells g) = (s2, h)" by fastforce
  obtain sol s1 where so: "solve_mtrrs cfg (num_mtrrs g) s2 True ?w = (sol, s1)" by fastforce
  obtain ok c1 where cm: "commit_var_mtrrs (num_mtrrs g) sol c = (ok, c1)" by fastforce
  have "snd (mtrr_use_temp_range cfg begin1 size1 ty (g, c)) = c1"
    using trs(1) claim by (simp add: mtrr_use_temp_range_def ph a so cm)
  then have c: "snd (mtrr_use_temp_range cfg begin1 size1 ty (g, c)) = snd (commit_var_mtrrs (num_mtrrs g) sol c)" unfolding cm by simp
  have u: "num_used sol \<le> num_mtrrs g" using room unfolding a fst_conv so .
  have mo: "mtrr_map_ok ?w (entries s2)" and tg: "tag_at (entries s2) x = Some t" using f(2,4) x(3) unfolding a by simp_all
  have "t \<noteq> ucast MTRR_TYPE_WRCOMB"
    using last_tag_mem [OF x(3)] trs(2) by (auto simp: temp_writes_def mtrr_types split: if_splits)
  then have "final_tag (reserve_for_os cfg) (num_mtrrs g) True s2 t = t" by (simp add: final_tag_def)
  then show ?thesis using solve_mtrrs_types [OF mo so u heap(3) x(2,1) disjI1 [OF TrueI] tg] unfolding c by simp
qed

definition sample_temp_globals :: mtrr_globals where
  "sample_temp_globals = (initial_globals 100)\<lparr>num_mtrrs := 8, phys_space := Some (fst (build_address_space mtrr_machine 100)), heap_cells := 94\<rparr>"

definition sample_temp :: temp_range where
  "sample_temp = \<lparr>tr_begin = 0xFF000000, tr_size = 0x1000000, tr_type = MTRR_TYPE_WRPROT\<rparr>"

lemma sample_temp_space:
  "temp_address_space (fst (build_address_space mtrr_machine 100)) (sample_temp # replicate 9 \<lparr>tr_begin = 0, tr_size = 0, tr_type = 0\<rparr>) 94 =
    (\<lparr>entries = [\<lparr>r_begin = 0, r_end = 0x9FFFF, r_tag = 6\<rparr>, \<lparr>r_begin = 0xA0000, r_end = 0xFFFFF, r_tag = 0\<rparr>,
        \<lparr>r_begin = 0x100000, r_end = 0x7FFFFFFF, r_tag = 6\<rparr>, \<lparr>r_begin = 0x80000000, r_end = 0xFEFFFFFF, r_tag = 0\<rparr>,
        \<lparr>r_begin = 0xFF000000, r_end = 0xFFFFFFFF, r_tag = 5\<rparr>], free_list = [], align = 12\<rparr>, 89)"
  unfolding sample_address_space by code_simp

lemma sample_temp_room:
  "num_used (fst (solve_mtrrs mtrr_sample_config 8
     (fst (temp_address_space (fst (build_address_space mtrr_machine 100)) (sample_temp # replicate 9 \<lparr>tr_begin = 0, tr_size = 0, tr_type = 0\<rparr>) 94))
     True 36)) = 2"
proof -
  let ?s = "fst (temp_address_space (fst (build_address_space mtrr_machine 100)) (sample_temp # replicate 9 \<lparr>tr_begin = 0, tr_size = 0, tr_type = 0\<rparr>) 94)"
  have p: "length (space_plan 8 True MTRR_TYPE_WRBACK (entries ?s)) = 8" "length (space_plan 8 True MTRR_TYPE_UNCACHEABLE (entries ?s)) = 2"
    unfolding sample_temp_space by (simp_all add: plan_eval)
  have t: "\<not> too_many_mtrrs False 8 True (entries ?s)" by (simp add: too_many_mtrrs_def p get_os_reserved_mtrrs_def)
  have "reserve_for_os mtrr_sample_config = False" by (simp add: mtrr_sample_config_def)
  with t solve_mtrrs_count [of mtrr_sample_config 8 True ?s 36] show ?thesis by (simp add: p)
qed

theorem temp_range_types_witness:
  "cpu_memory_type 36 8 (snd (mtrr_use_temp_range mtrr_sample_config 0xFF000000 0x1000000 MTRR_TYPE_WRPROT (sample_temp_globals, sample_cpu))) 0xFF800000 =
    Some MTRR_TYPE_WRPROT"
proof -
  let ?trs = "sample_temp # replicate 9 \<lparr>tr_begin = 0, tr_size = 0, tr_type = 0\<rparr>" and ?s = "fst (build_address_space mtrr_machine 100)"
  have w: "phys_address_size mtrr_sample_config = 36" by (simp add: mtrr_sample_config_def)
  have g: "phys_space sample_temp_globals = Some ?s" "heap_cells sample_temp_globals = 94" "num_mtrrs sample_temp_globals = 8"
    by (simp_all add: sample_temp_globals_def)
  have known: "space_known 36 mtrr_sample_config sample_temp_globals"
    using build_address_space_facts [OF sample_devices_ok] by (simp add: space_known_def g mtrr_sample_config_def)
  have claim: "claim_temp_range \<lparr>tr_begin = 0xFF000000, tr_size = 0x1000000, tr_type = MTRR_TYPE_WRPROT\<rparr> (temp_ranges sample_temp_globals) = Some ?trs"
    by (simp add: sample_temp_globals_def initial_globals_def sample_temp_def numeral_eq_Suc)
  have ty: "\<forall>t\<in>set ?trs. tr_type t \<in> {MTRR_TYPE_UNCACHEABLE, MTRR_TYPE_WRTHROUGH, MTRR_TYPE_WRPROT, MTRR_TYPE_WRBACK}"
    by (auto simp: sample_temp_def mtrr_types)
  have fl: "filter (\<lambda>t. tr_size t \<noteq> 0) ?trs = [sample_temp]" by (auto simp: sample_temp_def filter_empty_conv)
  have ws: "writes_ok 36 (map (\<lambda>t. (tr_begin t, tr_size t, scast (tr_type t))) (filter (\<lambda>t. tr_size t \<noteq> 0) ?trs))"
    unfolding fl by (simp add: writes_ok_def sample_temp_def mtrr_types)
  have len: "4 * (length (entries ?s) + length ?trs) \<le> heap_cells sample_temp_globals" by (simp add: sample_address_space g)
  have lt: "last_tag page_hits (temp_writes (entries ?s) ?trs) 0xFF800000 = Some 5"
    unfolding temp_writes_def fl by (simp add: last_tag_snoc sample_temp_def touches_def mtrr_types)
  note t = temp_range_types [where cfg = mtrr_sample_config and g = sample_temp_globals and c = sample_cpu, unfolded w g(2,3),
      OF known claim _ ty ws g(1) len [unfolded g(2)] _ _ _ _ lt]
  have "cpu_memory_type 36 8 (snd (mtrr_use_temp_range mtrr_sample_config 0xFF000000 0x1000000 MTRR_TYPE_WRPROT (sample_temp_globals, sample_cpu))) 0xFF800000 =
      Some (ucast (5 AND 0xFF :: u64))"
    by (rule t) (simp_all add: NUM_MTRR_STATIC_STORAGE_def sample_temp_room)
  then show ?thesis by (simp add: mtrr_types)
qed

end
