(* ===== verification/MtrrEarly.thy ===== *)
theory MtrrEarly
  imports MtrrSetup
begin

text \<open>
  \<^verbatim>\<open>src/cpu/x86/mtrr/earlymtrr.c\<close>: range registers set up in the first stages, before memory is known, and the
  context a romstage hands to the postcar stage. It is a client of the block search of \<open>MtrrBlocks\<close>.
\<close>

subsection \<open>Registers set up before memory is known\<close>

text \<open>
  \<^verbatim>\<open>src/cpu/x86/mtrr/earlymtrr.c\<close>: registers written one by one in the first stages, and the context that the
  romstage fills for the postcar stage. \<open>width\<close> is what \<^verbatim>\<open>cpu_phys_address_size\<close> returns.
\<close>

definition get_free_var_mtrr :: "cpu \<Rightarrow> nat option" where
  "get_free_var_mtrr c = find (\<lambda>i. msr_lo (rdmsr c (MTRR_PHYS_MASK i)) AND MTRR_PHYS_MASK_VALID = 0) [0..<get_var_mtrr_count c]"

definition early_regs :: "nat \<Rightarrow> u64 \<Rightarrow> u32 \<Rightarrow> u32 \<Rightarrow> var_mtrr_regs" where
  "early_regs width base size1 ty =
     \<lparr>reg_base = \<lparr>msr_lo = ucast base OR ty, msr_hi = ucast (drop_bit 32 base)\<rparr>,
      reg_mask = \<lparr>msr_lo = NOT (size1 - 1) OR MTRR_PHYS_MASK_VALID, msr_hi = push_bit (width - 32) 1 - 1\<rparr>\<rparr>"

definition set_var_mtrr :: "nat \<Rightarrow> nat \<Rightarrow> u32 \<Rightarrow> u32 \<Rightarrow> u32 \<Rightarrow> cpu \<Rightarrow> cpu" where
  "set_var_mtrr width reg base size1 ty c =
     (let r = early_regs width (ucast base) size1 ty
      in wrmsr (MTRR_PHYS_MASK reg) (reg_mask r) (wrmsr (MTRR_PHYS_BASE reg) (reg_base r) c))"

definition clear_all_var_mtrr :: "cpu \<Rightarrow> cpu" where
  "clear_all_var_mtrr c =
     fold (\<lambda>i c. wrmsr (MTRR_PHYS_BASE i) \<lparr>msr_lo = 0, msr_hi = 0\<rparr> (wrmsr (MTRR_PHYS_MASK i) \<lparr>msr_lo = 0, msr_hi = 0\<rparr> c))
       [0..<get_var_mtrr_count c] c"

record var_mtrr_context =
  max_var_mtrrs :: nat
  used_var_mtrrs :: nat
  ctx_mtrr :: "var_mtrr_regs list"

definition var_mtrr_context_init :: "cpu \<Rightarrow> var_mtrr_context" where
  "var_mtrr_context_init c = \<lparr>max_var_mtrrs = get_var_mtrr_count c, used_var_mtrrs = 0, ctx_mtrr = []\<rparr>"

text \<open>
  The bit searches get the low 32 bits of address and size. None: the size is a non-zero multiple of 4 GiB, and
  the code shifts by -1. Otherwise the result says whether the registers were enough.
\<close>

definition early_size :: "u64 \<Rightarrow> u64 \<Rightarrow> u32" where
  "early_size addr size1 =
     (let addr_lsb = word_of_int (ffs (ucast addr)) :: u32;
          size_msb = word_of_int (fls (ucast size1)) :: u32
      in if size_msb < addr_lsb then push_bit (unat size_msb) 1 else push_bit (unat addr_lsb) 1)"

lemma ucast_uminus: "ucast (- a) = - (ucast (a :: u64) :: u32)"
proof (cases "a = 0")
  case False
  have d: "(word_of_nat (2 ^ 64 - unat a) :: 'a::len word) = word_of_nat (2 ^ 64) - word_of_nat (unat a)"
    using unat_lt_64 [of a] by (intro of_nat_diff) simp
  have "- a = word_of_nat (2 ^ 64 - unat a)" unfolding d by simp
  moreover have "2 ^ 64 - unat a < 2 ^ LENGTH(64)" using False by (simp add: unat_gt_0)
  ultimately have n: "unat (- a) = 2 ^ 64 - unat a" by (simp only: unat_of_nat_lt)
  have w: "(ucast b :: u32) = word_of_nat (unat b)" for b :: u64 by simp
  show ?thesis unfolding w n d by simp
qed simp

lemma log2_bit_length: "log2_32 x = int (bit_length (unat x)) - 1" "log2_64 y = int (bit_length (unat y)) - 1"
  by (simp_all add: log2_32_def clz_def log2_64_def clz64_def)

lemma early_size_pow:
  assumes "(ucast size1 :: u32) \<noteq> 0"
  obtains k where "early_size addr size1 = 2 ^ k" "k < 32" "2 ^ k \<le> unat (ucast size1 :: u32)"
    "k = (let addr_lsb = word_of_int (ffs (ucast addr)) :: u32; size_msb = word_of_int (fls (ucast size1)) :: u32
          in unat (min size_msb addr_lsb))"
proof -
  let ?s = "ucast size1 :: u32" and ?l = "word_of_int (ffs (ucast addr)) :: u32" and ?m = "word_of_int (fls (ucast size1)) :: u32"
  have pos: "0 < unat ?s" using assms by (simp add: unat_gt_0)
  note b = bit_length_bounds [OF pos]
  then obtain m where m: "bit_length (unat ?s) = Suc m" by (metis gr0_implies_Suc)
  have "unat ?s < 2 ^ LENGTH(32)" by (rule unsigned_less)
  then have m32: "m < 32" using m bit_length_le [of "unat ?s" 32] by simp
  have fm: "unat ?m = m" unfolding fls_def log2_bit_length m using m32 by (simp add: unat_of_nat_lt)
  let ?k = "unat (min ?m ?l)"
  have km: "?k \<le> m" unfolding fm [symmetric] by (simp add: min_def word_le_nat_alt)
  have "early_size addr size1 = push_bit ?k 1" by (auto simp: early_size_def Let_def min_def not_less)
  then have e: "early_size addr size1 = 2 ^ ?k" by (simp add: push_bit_eq_mult)
  have "(2::nat) ^ ?k \<le> 2 ^ m" using km by (intro power_increasing) simp_all
  moreover have "2 ^ m \<le> unat ?s" using b m by simp
  ultimately have "2 ^ ?k \<le> unat ?s" by (rule order_trans)
  moreover have "?k < 32" using km m32 by (rule le_less_trans)
  ultimately show ?thesis using e unfolding Let_def by (intro that [of ?k]) simp_all
qed

lemma unat_early_size:
  assumes "(ucast size1 :: u32) \<noteq> 0"
  shows "0 < unat (early_size addr size1)" "unat (early_size addr size1) \<le> unat size1"
proof -
  obtain k where k: "early_size addr size1 = 2 ^ k" "k < 32" "2 ^ k \<le> unat (ucast size1 :: u32)" by (rule early_size_pow [OF assms])
  have "(2::nat) ^ k < 2 ^ LENGTH(32)" using k(2) by (intro power_strict_increasing) simp_all
  then have u: "unat (early_size addr size1) = 2 ^ k" unfolding k(1) by (metis of_nat_numeral of_nat_power unat_of_nat_lt)
  show "0 < unat (early_size addr size1)" unfolding u by simp
  have "unat (ucast size1 :: u32) \<le> unat size1" by (simp add: unsigned_ucast_eq take_bit_nat_less_eq_self)
  then show "unat (early_size addr size1) \<le> unat size1" using k(3) unfolding u by linarith
qed

lemma early_size_dec:
  assumes "(ucast size1 :: u32) \<noteq> 0"
  shows "unat (size1 - ucast (early_size addr size1)) < unat size1"
proof -
  note u = unat_early_size [OF assms, of addr]
  have e: "unat (ucast (early_size addr size1) :: u64) = unat (early_size addr size1)" 
    using unsigned_less [of "early_size addr size1", where 'a = nat] by (simp add: unsigned_ucast_eq take_bit_nat_eq_self)
  have "unat (size1 - ucast (early_size addr size1)) = unat size1 - unat (early_size addr size1)"
    using u unfolding e [symmetric] by (intro unat_sub_no_wrap) simp
  then show ?thesis using u by linarith
qed

function var_mtrr_set :: "nat \<Rightarrow> var_mtrr_context \<Rightarrow> u64 \<Rightarrow> u64 \<Rightarrow> u32 \<Rightarrow> (bool \<times> var_mtrr_context) option" where
  "var_mtrr_set width ctx addr size1 ty =
     (if size1 = 0 then Some (True, ctx)
      else if max_var_mtrrs ctx \<le> used_var_mtrrs ctx then Some (False, ctx)
      else if (ucast size1 :: u32) = 0 then None
      else let mtrr_size = early_size addr size1;
               ctx1 = ctx\<lparr>ctx_mtrr := take (used_var_mtrrs ctx) (ctx_mtrr ctx) @ [early_regs width addr mtrr_size ty],
                          used_var_mtrrs := used_var_mtrrs ctx + 1\<rparr>
           in var_mtrr_set width ctx1 (addr + ucast mtrr_size) (size1 - ucast mtrr_size) ty)"
  by pat_completeness auto
termination
  by (relation "measure (\<lambda>(_, _, _, size1, _). unat size1)") (simp_all add: early_size_dec)

declare var_mtrr_set.simps [simp del]

definition commit_mtrr_setup :: "var_mtrr_context \<Rightarrow> cpu \<Rightarrow> cpu" where
  "commit_mtrr_setup ctx c =
     (let c = clear_all_var_mtrr c;
          c = fold (\<lambda>i c. wrmsr (MTRR_PHYS_MASK i) (reg_mask (ctx_mtrr ctx ! i))
                            (wrmsr (MTRR_PHYS_BASE i) (reg_base (ctx_mtrr ctx ! i)) c)) [0..<used_var_mtrrs ctx] c;
          m = rdmsr c MTRR_DEF_TYPE_MSR
      in wrmsr MTRR_DEF_TYPE_MSR (m\<lparr>msr_lo := (msr_lo m AND 0xFF) OR MTRR_DEF_TYPE_EN\<rparr>) c)"

text \<open>Below 4 GiB the size of the next block is that of \<^verbatim>\<open>calc_var_mtrr_range\<close>.\<close>

lemma early_size_next:
  assumes "unat addr < 2 ^ 32" "unat size1 < 2 ^ 32" "size1 \<noteq> 0"
  shows "ucast (early_size addr size1) = next_mtrr_size addr size1" "(ucast size1 :: u32) \<noteq> 0"
proof -
  have u: "unat (ucast x :: u32) = unat x" if "unat x < 2 ^ 32" for x :: u64 using that by (simp add: unsigned_ucast_eq take_bit_nat_eq_self)
  show nz: "(ucast size1 :: u32) \<noteq> 0" using u [OF assms(2)] assms(3) by (metis unat_eq_zero)
  have fl: "fls (ucast size1) = fls64 size1" unfolding fls_def fls64_def log2_bit_length u [OF assms(2)] ..
  have an: "ucast addr AND - ucast addr = (ucast (addr AND - addr) :: u32)"
  proof -
    show ?thesis unfolding ucast_uminus [symmetric] by (simp only: unsigned_and_eq)
  qed
  have "unat (addr AND - addr) \<le> unat addr" by (simp add: word_and_le2 flip: word_le_nat_alt)
  then have ff: "ffs (ucast addr) = ffs64 addr" unfolding ffs_def ffs64_def an log2_bit_length using u assms(1) by simp
  obtain k where k: "early_size addr size1 = 2 ^ k" "k < 32"
    "k = (let addr_lsb = word_of_int (ffs (ucast addr)) :: u32; size_msb = word_of_int (fls (ucast size1)) :: u32 in unat (min size_msb addr_lsb))"
    by (rule early_size_pow [OF nz])
  have "next_mtrr_size addr size1 = push_bit k 1" unfolding k(3) ff fl by (auto simp: next_mtrr_size_def Let_def min_def not_less)
  moreover have "(ucast (2 ^ k :: u32) :: u64) = 2 ^ k" using k(2) by (intro bit_word_eqI) (auto simp: bit_simps)
  ultimately show "ucast (early_size addr size1) = next_mtrr_size addr size1" unfolding k(1) by (simp add: push_bit_eq_mult)
qed


subsection \<open>The registers of the early stages\<close>

lemma mask_word_32: "(NOT (2 ^ k - 1) :: u32) = NOT (mask k)"
  by (simp add: mask_eq_exp_minus_1)

text \<open>A register written for bytes is the register \<^verbatim>\<open>prep_var_mtrr\<close> writes for the pages.\<close>

lemma early_regs_encode:
  assumes "32 \<le> width" "width < 64" "12 \<le> k" "k < 32" "2 ^ k dvd unat b"
  shows "early_regs width b (2 ^ k) ty = encode_mtrr width (drop_bit 12 b, 2 ^ (k - 12), ty)"
proof -
  have "2 ^ 12 dvd unat b" by (rule dvd_trans [OF le_imp_power_dvd [OF assms(3)] assms(5)])
  then have "take_bit 12 (unat b) = 0" by (simp add: take_bit_eq_mod)
  then have "\<not> bit b n" if "n < 12" for n
  proof -
    have "\<not> bit (take_bit 12 (unat b)) n" using \<open>take_bit 12 (unat b) = 0\<close> by simp
    then have "\<not> bit (unat b) n" using that by (simp add: bit_take_bit_iff)
    then show ?thesis using bit_imp_le_length [of b n] by (auto simp: bit_unsigned_iff)
  qed
  then have "bit (push_bit 12 (drop_bit 12 b)) n = bit b n" for n
    using bit_imp_le_length [of b n] by (cases "n < 12") (auto simp: bit_simps)
  then have base: "RANGE_TO_PHYS_ADDR (drop_bit 12 b) = b"
    unfolding RANGE_TO_PHYS_ADDR_def by (intro bit_word_eqI) blast
  have p: "2 ^ (k - 12) * 2 ^ 12 = (2 ^ k :: u64)" using assms(3) by (simp only: power_add [symmetric] le_add_diff_inverse2)
  have "RANGE_TO_PHYS_ADDR (2 ^ (k - 12)) = 2 ^ k" unfolding RANGE_TO_PHYS_ADDR_def push_bit_eq_mult p ..
  then have rs: "- RANGE_TO_PHYS_ADDR (2 ^ (k - 12)) AND (push_bit width 1 - 1) = NOT (mask k) AND mask width"
    by (simp only: minus_exp_eq_not_mask mask_eq_exp_minus_1 push_bit_of_1)
  have lo: "ucast (NOT (mask k) AND mask width :: u64) = (NOT (mask k) :: u32)"
    using assms(1) by (intro bit_word_eqI) (auto simp: bit_simps)
  have hi: "ucast (drop_bit 32 (NOT (mask k) AND mask width :: u64)) = (push_bit (width - 32) 1 - 1 :: u32)"
    unfolding push_bit_of_1 mask_eq_exp_minus_1 [symmetric] using assms(1,2,4) by (intro bit_word_eqI) (auto simp: bit_simps)
  show ?thesis unfolding early_regs_def encode_mtrr_def prod.case base rs lo hi mask_word_32 ..
qed

lemma early_regs_match:
  assumes width: "32 \<le> width" "width \<le> 52" and k: "12 \<le> k" "k < 32" "2 ^ k dvd unat b" "unat b + 2 ^ k \<le> 2 ^ 32"
    and ty: "ty AND NOT 0xFF = 0" and x: "unat x < 2 ^ width"
  shows "var_mtrr_match width (early_regs width b (2 ^ k) ty) x \<longleftrightarrow> unat b \<le> unat x \<and> unat x < unat b + 2 ^ k"
    and "var_mtrr_type (early_regs width b (2 ^ k) ty) = ty"
proof -
  let ?b = "drop_bit 12 b" and ?s = "2 ^ (k - 12) :: u64"
  have w: "12 \<le> width" "width < 64" using width by simp_all
  note e = early_regs_encode [OF width(1) w(2) k(1-3), of ty]
  obtain q where q: "unat b = 2 ^ k * q" using k(3) by blast
  have p: "(2::nat) ^ k = 2 ^ (k - 12) * 2 ^ 12" using k(1) by (simp only: power_add [symmetric] le_add_diff_inverse2)
  have ub: "unat ?b = 2 ^ (k - 12) * q" using unat_page [of b] unfolding PHYS_TO_RANGE_ADDR_def q p by simp
  have us: "unat ?s = 2 ^ (k - 12)" using k(2) by (intro unat_pow_64) simp
  have d: "2 ^ (k - 12) dvd unat ?b" unfolding ub by simp
  have "(2 ^ (k - 12) * q + 2 ^ (k - 12)) * 2 ^ 12 \<le> 2 ^ 20 * (2 ^ 12 :: nat)"
    using k(4) unfolding q p by (simp add: algebra_simps)
  then have "unat ?b + 2 ^ (k - 12) \<le> 2 ^ 20" unfolding ub by simp
  moreover have "(2::nat) ^ 20 \<le> 2 ^ (width - 12)" using width by (intro power_increasing) simp_all
  ultimately have fit: "unat ?b + 2 ^ (k - 12) \<le> 2 ^ (width - 12)" by linarith
  note m = encode_mtrr_match [OF w d us fit ty x, folded e]
  have "2 ^ (k - 12) * q \<le> unat x div 2 ^ 12 \<longleftrightarrow> unat b \<le> unat x"
    unfolding q p by (simp add: less_eq_div_iff_mult_less_eq algebra_simps)
  moreover have "unat x div 2 ^ 12 < 2 ^ (k - 12) * q + 2 ^ (k - 12) \<longleftrightarrow> unat x < unat b + 2 ^ k"
    unfolding q p by (simp add: div_less_iff_less_mult algebra_simps)
  ultimately show "var_mtrr_match width (early_regs width b (2 ^ k) ty) x \<longleftrightarrow> unat b \<le> unat x \<and> unat x < unat b + 2 ^ k"
    unfolding m(1) in_block_def word_le_nat_alt unat_page ub us by simp
  show "var_mtrr_type (early_regs width b (2 ^ k) ty) = ty" by (rule m(2))
qed

definition early_blocks :: "nat \<Rightarrow> u64 \<times> u64 \<times> u32 \<Rightarrow> var_mtrr_regs list" where
  "early_blocks width = (\<lambda>(addr, size1, ty). map (\<lambda>(b, s). early_regs width b (ucast s) ty) (mtrr_blocks addr size1))"

lemma var_mtrr_set_blocks:
  assumes "unat addr + unat size1 \<le> 2 ^ 32" "unat size1 < 2 ^ 32" "used_var_mtrrs ctx + length (mtrr_blocks addr size1) \<le> max_var_mtrrs ctx"
    and "used_var_mtrrs ctx = length (ctx_mtrr ctx)"
  shows "var_mtrr_set width ctx addr size1 ty =
    Some (True, ctx\<lparr>ctx_mtrr := ctx_mtrr ctx @ early_blocks width (addr, size1, ty),
                    used_var_mtrrs := used_var_mtrrs ctx + length (mtrr_blocks addr size1)\<rparr>)"
proof -
  have "unat addr + unat size1 \<le> 2 ^ 64" using assms(1) by simp
  from this assms show ?thesis
  proof (induction addr size1 arbitrary: ctx rule: mtrr_blocks_induct)
    case (none addr)
    then show ?case by (subst var_mtrr_set.simps) (simp add: early_blocks_def)
  next
    case (block addr size1 k)
    have pos: "0 < unat size1" using block.hyps(1) by (simp add: unat_gt_0)
    then have "unat addr < 2 ^ 32" using block.prems(1) by linarith
    note es = early_size_next [OF this block.prems(2) block.hyps(1)]
    let ?ctx = "ctx\<lparr>ctx_mtrr := take (used_var_mtrrs ctx) (ctx_mtrr ctx) @ [early_regs width addr (early_size addr size1) ty],
                    used_var_mtrrs := used_var_mtrrs ctx + 1\<rparr>"
    have len: "length (mtrr_blocks addr size1) = Suc (length (mtrr_blocks (addr + 2 ^ k) (size1 - 2 ^ k)))" by (simp add: block.hyps(11))
    have "var_mtrr_set width ctx addr size1 ty = var_mtrr_set width ?ctx (addr + 2 ^ k) (size1 - 2 ^ k) ty"
      using block.hyps(1,4) block.prems(3) len es by (subst var_mtrr_set.simps) (simp add: Let_def)
    also have "\<dots> = Some (True, ?ctx\<lparr>ctx_mtrr := ctx_mtrr ?ctx @ early_blocks width (addr + 2 ^ k, size1 - 2 ^ k, ty),
                    used_var_mtrrs := used_var_mtrrs ?ctx + length (mtrr_blocks (addr + 2 ^ k) (size1 - 2 ^ k))\<rparr>)"
    proof (cases "size1 = 2 ^ k")
      case True
      then show ?thesis by (subst var_mtrr_set.simps) (simp add: early_blocks_def)
    next
      case False
      then show ?thesis
        using block.hyps(6,9) block.hyps(10) [OF False] block.prems len by (intro block.IH) simp_all
    qed
    also have "early_size addr size1 = ucast (ucast (early_size addr size1) :: u64)" by (intro bit_word_eqI) (auto simp: bit_simps)
    also have "\<dots> = ucast (2 ^ k :: u64)" unfolding es(1) block.hyps(4) ..
    finally show ?case using block.prems(4) by (simp add: early_blocks_def block.hyps(11) len)
  qed
qed


lemma mtrr_blocks_large:
  assumes "unat base + unat sz \<le> 2 ^ 64" "2 ^ j dvd unat base" "2 ^ j dvd unat sz" "(b, s) \<in> set (mtrr_blocks base sz)"
  shows "2 ^ j \<le> unat s"
  using assms
proof (induction rule: mtrr_blocks_induct)
  case (block base sz k)
  have jk: "j \<le> k"
  proof (rule ccontr)
    assume "\<not> j \<le> k"
    then have "Suc k \<le> j" by simp
    then have "2 ^ Suc k dvd unat base" "2 ^ Suc k dvd unat sz" using block.prems(1,2) by (blast intro: dvd_trans le_imp_power_dvd)+
    moreover have "0 < unat sz" using block.hyps(1) by (simp add: unat_gt_0)
    ultimately show False using block.hyps(8) by (auto dest: dvd_imp_le)
  qed
  then have p: "2 ^ j dvd (2::nat) ^ k" "(2::nat) ^ j \<le> 2 ^ k" by (simp_all add: le_imp_power_dvd)
  show ?case
  proof (cases "(b, s) = (base, 2 ^ k)")
    case True then show ?thesis using p(2) block.hyps(5) by simp
  next
    case False
    then have mem: "(b, s) \<in> set (mtrr_blocks (base + 2 ^ k) (sz - 2 ^ k))" using block.prems(3) block.hyps(11) by auto
    then have "sz \<noteq> 2 ^ k" by auto
    then show ?thesis using block.IH [OF _ _ mem] block.hyps(9,10) block.prems(1,2) p(1) by (simp add: dvd_diff_nat)
  qed
qed simp

definition early_range_ok :: "u64 \<times> u64 \<times> u32 \<Rightarrow> bool" where
  "early_range_ok = (\<lambda>(addr, size1, ty).
     unat addr + unat size1 \<le> 2 ^ 32 \<and> unat size1 < 2 ^ 32 \<and> 2 ^ 12 dvd unat addr \<and> 2 ^ 12 dvd unat size1 \<and> ty AND NOT 0xFF = 0)"

text \<open>The registers of a range match exactly its addresses, and carry its type.\<close>

lemma early_blocks_match:
  assumes ok: "early_range_ok (addr, size1, ty)" and width: "32 \<le> width" "width \<le> 52" and x: "unat x < 2 ^ width"
  shows "(\<exists>r\<in>set (early_blocks width (addr, size1, ty)). var_mtrr_match width r x) \<longleftrightarrow> unat addr \<le> unat x \<and> unat x < unat addr + unat size1"
    and "r \<in> set (early_blocks width (addr, size1, ty)) \<Longrightarrow> var_mtrr_type r = ty"
proof -
  have o: "unat addr + unat size1 \<le> 2 ^ 32" "unat size1 < 2 ^ 32" "2 ^ 12 dvd unat addr" "2 ^ 12 dvd unat size1" "ty AND NOT 0xFF = 0"
    using ok by (simp_all add: early_range_ok_def)
  have le: "unat addr + unat size1 \<le> 2 ^ 64" using o(1) by simp
  have blk: "(var_mtrr_match width (early_regs width b (ucast s) ty) x \<longleftrightarrow> in_block b s x) \<and> var_mtrr_type (early_regs width b (ucast s) ty) = ty"
    if mem: "(b, s) \<in> set (mtrr_blocks addr size1)" for b s
  proof -
    obtain k where k: "s = 2 ^ k" "unat s = 2 ^ k" "2 ^ k dvd unat b" "unat b + 2 ^ k \<le> unat addr + unat size1"
      using mtrr_blocks_mem [OF le mem] by blast
    have "(2::nat) ^ 12 \<le> 2 ^ k" using mtrr_blocks_large [OF le o(3,4) mem] unfolding k(2) .
    then have k12: "12 \<le> k" by (rule power_le_imp_le_exp [rotated]) simp
    have "unat addr \<le> unat b" using mtrr_blocks_mem [OF le mem] by blast
    then have "2 ^ k \<le> unat size1" using k(4) by linarith
    then have "(2::nat) ^ k < 2 ^ 32" using o(2) by linarith
    then have k32: "k < 32" by (rule power_less_imp_less_exp [rotated]) simp
    have fit: "unat b + 2 ^ k \<le> 2 ^ 32" using k(4) o(1) by linarith
    have s: "ucast s = (2 ^ k :: u32)" unfolding k(1) using k32 by (intro bit_word_eqI) (auto simp: bit_simps)
    show ?thesis using early_regs_match [OF width k12 k32 k(3) fit o(5) x] unfolding s in_block_def word_le_nat_alt k(2) by simp
  qed
  have "(\<exists>r\<in>set (early_blocks width (addr, size1, ty)). var_mtrr_match width r x) \<longleftrightarrow> (\<exists>(b, s)\<in>set (mtrr_blocks addr size1). in_block b s x)"
    using blk by (fastforce simp: early_blocks_def)
  then show "(\<exists>r\<in>set (early_blocks width (addr, size1, ty)). var_mtrr_match width r x) \<longleftrightarrow> unat addr \<le> unat x \<and> unat x < unat addr + unat size1"
    unfolding mtrr_blocks_cover [OF le] unfolding in_block_def word_le_nat_alt .
  show "var_mtrr_type r = ty" if "r \<in> set (early_blocks width (addr, size1, ty))"
    using that blk by (auto simp: early_blocks_def)
qed

text \<open>A stage adds its ranges one after the other and stops at the first that does not fit.\<close>

fun early_ranges :: "nat \<Rightarrow> var_mtrr_context \<Rightarrow> (u64 \<times> u64 \<times> u32) list \<Rightarrow> var_mtrr_context option" where
  "early_ranges width ctx [] = Some ctx"
| "early_ranges width ctx ((addr, size1, ty) # rs) =
     (case var_mtrr_set width ctx addr size1 ty of Some (True, ctx1) \<Rightarrow> early_ranges width ctx1 rs | _ \<Rightarrow> None)"

lemma early_ranges_regs:
  assumes "\<forall>r\<in>set rs. early_range_ok r" "used_var_mtrrs ctx = length (ctx_mtrr ctx)"
    and "used_var_mtrrs ctx + length (concat (map (early_blocks width) rs)) \<le> max_var_mtrrs ctx"
  shows "early_ranges width ctx rs =
    Some (ctx\<lparr>ctx_mtrr := ctx_mtrr ctx @ concat (map (early_blocks width) rs),
              used_var_mtrrs := used_var_mtrrs ctx + length (concat (map (early_blocks width) rs))\<rparr>)"
  using assms
proof (induction rs arbitrary: ctx)
  case (Cons r rs)
  obtain addr size1 ty where r: "r = (addr, size1, ty)" by (cases r)
  have o: "unat addr + unat size1 \<le> 2 ^ 32" "unat size1 < 2 ^ 32" using Cons.prems(1) by (simp_all add: r early_range_ok_def)
  have len: "length (early_blocks width (addr, size1, ty)) = length (mtrr_blocks addr size1)" by (simp add: early_blocks_def)
  have "used_var_mtrrs ctx + length (mtrr_blocks addr size1) \<le> max_var_mtrrs ctx" using Cons.prems(3) len by (simp add: r)
  note v = var_mtrr_set_blocks [OF o this Cons.prems(2), of width ty]
  let ?ctx = "ctx\<lparr>ctx_mtrr := ctx_mtrr ctx @ early_blocks width (addr, size1, ty),
                    used_var_mtrrs := used_var_mtrrs ctx + length (mtrr_blocks addr size1)\<rparr>"
  have "early_ranges width ?ctx rs =
    Some (?ctx\<lparr>ctx_mtrr := ctx_mtrr ?ctx @ concat (map (early_blocks width) rs),
              used_var_mtrrs := used_var_mtrrs ?ctx + length (concat (map (early_blocks width) rs))\<rparr>)"
    using Cons.prems len by (intro Cons.IH) (simp_all add: r)
  then show ?case using v len by (simp add: r)
qed simp

lemma clear_all_regs:
  assumes "get_var_mtrr_count c \<le> 127"
  shows "msrs (clear_all_var_mtrr c) k =
    (if \<exists>i<get_var_mtrr_count c. k = MTRR_PHYS_BASE i \<or> k = MTRR_PHYS_MASK i then \<lparr>msr_lo = 0, msr_hi = 0\<rparr> else msrs c k)"
proof -
  have "msrs (fold (\<lambda>i c. wrmsr (MTRR_PHYS_BASE i) \<lparr>msr_lo = 0, msr_hi = 0\<rparr> (wrmsr (MTRR_PHYS_MASK i) \<lparr>msr_lo = 0, msr_hi = 0\<rparr> c)) [0..<n] c) k =
    (if \<exists>i<n. k = MTRR_PHYS_BASE i \<or> k = MTRR_PHYS_MASK i then \<lparr>msr_lo = 0, msr_hi = 0\<rparr> else msrs c k)" for n
    by (induction n) (auto simp: less_Suc_eq)
  then show ?thesis by (simp add: clear_all_var_mtrr_def)
qed

text \<open>After a commit the processor sees the registers of the context and the default type it had.\<close>

lemma commit_early_types:
  fixes c :: cpu
  assumes "get_var_mtrr_count c \<le> 127" "used_var_mtrrs ctx = length (ctx_mtrr ctx)" "used_var_mtrrs ctx \<le> get_var_mtrr_count c"
  shows "cpu_memory_type width (get_var_mtrr_count c) (commit_mtrr_setup ctx c) x =
    memory_type width (msr_lo (msrs c MTRR_DEF_TYPE_MSR) AND 0xFF) (ctx_mtrr ctx) x"
proof -
  let ?n = "get_var_mtrr_count c" and ?u = "used_var_mtrrs ctx" and ?z = "\<lparr>reg_base = \<lparr>msr_lo = 0, msr_hi = 0\<rparr>, reg_mask = \<lparr>msr_lo = 0, msr_hi = 0\<rparr>\<rparr>"
  let ?w = "fold (\<lambda>i c. wrmsr (MTRR_PHYS_MASK i) (reg_mask (ctx_mtrr ctx ! i)) (wrmsr (MTRR_PHYS_BASE i) (reg_base (ctx_mtrr ctx ! i)) c))
      [0..<?u] (clear_all_var_mtrr c)"
  let ?c = "commit_mtrr_setup ctx c"
  have index_of: "(MTRR_PHYS_MASK i - 0x201) div 2 = i" "(MTRR_PHYS_BASE i - 0x200) div 2 = i" for i by (simp_all add: mtrr_msrs)
  have low: "MTRR_PHYS_BASE i \<noteq> MTRR_DEF_TYPE_MSR" "MTRR_PHYS_MASK i \<noteq> MTRR_DEF_TYPE_MSR" if "i < ?n" for i
    using that assms(1) by (simp_all add: mtrr_msrs)
  have k: "msrs ?c k = msrs ?w k" if "k \<noteq> MTRR_DEF_TYPE_MSR" for k using that by (simp add: commit_mtrr_setup_def Let_def)
  have reg: "cpu_reg ?c i = (if i < ?u then ctx_mtrr ctx ! i else ?z)" if "i < ?n" for i
    unfolding cpu_reg_def k [OF low(1) [OF that]] k [OF low(2) [OF that]] fold_write_regs clear_all_regs [OF assms(1)]
    using that index_of [of i] by auto
  have "map (cpu_reg ?c) [0..<?n] = map (cpu_reg ?c) [0..<?u] @ map (cpu_reg ?c) [?u..<?n]"
    using assms(3) by (metis le_add_diff_inverse map_append plus_nat.add_0 upt_add_eq_append zero_le)
  also have "map (cpu_reg ?c) [0..<?u] = ctx_mtrr ctx"
    using reg assms(2,3) by (intro nth_equalityI) simp_all
  also have "map (cpu_reg ?c) [?u..<?n] = map (\<lambda>_. ?z) [?u..<?n]" using reg by simp
  finally have r: "map (cpu_reg ?c) [0..<?n] = ctx_mtrr ctx @ map (\<lambda>_. ?z) [?u..<?n]" .
  have z: "\<not> var_mtrr_match width ?z x" by (simp add: var_mtrr_match_def)
  have "\<not> (\<exists>i<?u. MTRR_DEF_TYPE_MSR = MTRR_PHYS_MASK i \<or> MTRR_DEF_TYPE_MSR = MTRR_PHYS_BASE i)"
    "\<not> (\<exists>i<?n. MTRR_DEF_TYPE_MSR = MTRR_PHYS_BASE i \<or> MTRR_DEF_TYPE_MSR = MTRR_PHYS_MASK i)"
    using low assms(3) by (metis order_less_le_trans)+
  then have "msrs ?w MTRR_DEF_TYPE_MSR = msrs c MTRR_DEF_TYPE_MSR" unfolding fold_write_regs clear_all_regs [OF assms(1)] by auto
  then have "msr_lo (msrs ?c MTRR_DEF_TYPE_MSR) = (msr_lo (msrs c MTRR_DEF_TYPE_MSR) AND 0xFF) OR MTRR_DEF_TYPE_EN"
    by (simp add: commit_mtrr_setup_def Let_def rdmsr_def)
  moreover have "(a AND 0xFF OR MTRR_DEF_TYPE_EN) AND 0xFF = a AND 0xFF" "(a AND 0xFF OR MTRR_DEF_TYPE_EN) AND MTRR_DEF_TYPE_EN \<noteq> 0" for a
    by (simp_all add: bit.conj_disj_distrib2 and.assoc MTRR_DEF_TYPE_EN_def)
  ultimately show ?thesis
    unfolding cpu_memory_type_def r using z by (simp add: memory_type_def filter_empty_conv)
qed


text \<open>C34: the ranges a romstage puts into its context give every address its memory type once the postcar stage
  commits them: the type of the ranges that hold the address if they agree, uncacheable if one of them is, and
  the default type the processor had outside all ranges. The registers suffice if the blocks do not outnumber them.\<close>

theorem postcar_mtrr_types:
  assumes ok: "\<forall>r\<in>set rs. early_range_ok r" and width: "32 \<le> width" "width \<le> 52" and count: "get_var_mtrr_count c \<le> 127"
    and room: "length (concat (map (early_blocks width) rs)) \<le> get_var_mtrr_count c" and x: "unat x < 2 ^ width"
  defines "types \<equiv> map (\<lambda>(addr, size1, ty). ty) (filter (\<lambda>(addr, size1, ty). unat addr \<le> unat x \<and> unat x < unat addr + unat size1) rs)"
  shows "\<exists>ctx. early_ranges width (var_mtrr_context_init c) rs = Some ctx \<and>
    cpu_memory_type width (get_var_mtrr_count c) (commit_mtrr_setup ctx c) x =
    combine_types (msr_lo (msrs c MTRR_DEF_TYPE_MSR) AND 0xFF) types"
proof -
  let ?regs = "concat (map (early_blocks width) rs)" and ?ctx0 = "var_mtrr_context_init c"
  define ctx where "ctx = ?ctx0\<lparr>ctx_mtrr := ?regs, used_var_mtrrs := length ?regs\<rparr>"
  have run: "early_ranges width ?ctx0 rs = Some ctx"
    using early_ranges_regs [OF ok, of ?ctx0 width] room by (simp add: ctx_def var_mtrr_context_init_def)
  have t: "cpu_memory_type width (get_var_mtrr_count c) (commit_mtrr_setup ctx c) x =
      memory_type width (msr_lo (msrs c MTRR_DEF_TYPE_MSR) AND 0xFF) ?regs x"
    using commit_early_types [OF count, of ctx] room by (simp add: ctx_def)
  let ?ts = "map var_mtrr_type (filter (\<lambda>r. var_mtrr_match width r x) ?regs)"
  have m: "(\<exists>r\<in>set (early_blocks width (addr, size1, ty)). var_mtrr_match width r x \<and> var_mtrr_type r = t) \<longleftrightarrow>
      t = ty \<and> unat addr \<le> unat x \<and> unat x < unat addr + unat size1" if "(addr, size1, ty) \<in> set rs" for addr size1 ty t
    using early_blocks_match [OF bspec [OF ok that] width x] by blast
  have "set ?ts = set types"
  proof (intro set_eqI)
    fix t
    have "t \<in> set ?ts \<longleftrightarrow> (\<exists>(addr, size1, ty)\<in>set rs. \<exists>r\<in>set (early_blocks width (addr, size1, ty)). var_mtrr_match width r x \<and> var_mtrr_type r = t)"
      by fastforce
    also have "\<dots> \<longleftrightarrow> (\<exists>(addr, size1, ty)\<in>set rs. t = ty \<and> unat addr \<le> unat x \<and> unat x < unat addr + unat size1)"
      using m by fastforce
    also have "\<dots> \<longleftrightarrow> t \<in> set types" by (force simp: types_def)
    finally show "t \<in> set ?ts \<longleftrightarrow> t \<in> set types" .
  qed
  from combine_types_set [OF this] show ?thesis using run t unfolding memory_type_def by metis
qed

theorem postcar_mtrr_types_witness:
  "\<exists>ctx. early_ranges 36 (var_mtrr_context_init sample_cpu) [(0xFF000000, 0x1000000, MTRR_TYPE_WRPROT), (0, 0x8000000, MTRR_TYPE_WRBACK)] = Some ctx \<and>
    cpu_memory_type 36 8 (commit_mtrr_setup ctx sample_cpu) 0xFF800000 = Some MTRR_TYPE_WRPROT"
proof -
  let ?rs = "[(0xFF000000, 0x1000000, MTRR_TYPE_WRPROT), (0, 0x8000000, MTRR_TYPE_WRBACK)] :: (u64 \<times> u64 \<times> u32) list"
  have n: "get_var_mtrr_count sample_cpu = 8" by (simp add: get_var_mtrr_count_def rdmsr_def sample_cpu_def)
  have "\<forall>r\<in>set ?rs. early_range_ok r" by (simp add: early_range_ok_def mtrr_types)
  moreover have "length (concat (map (early_blocks 36) ?rs)) \<le> 8" by (simp add: early_blocks_def plan_eval)
  ultimately show ?thesis
    using postcar_mtrr_types [of ?rs 36 sample_cpu "0xFF800000"] by (simp add: n combine_types_def)
qed

end
