(* ===== verification/Cbfs.thy ===== *)
theory Cbfs
  imports Region
begin

text \<open>
  \<^verbatim>\<open>src/commonlib/bsd/cbfs_private.c\<close>: walking a CBFS, looking a file up, and finding an attribute in
  the metadata of a file. What \<^verbatim>\<open>cbfs_glue.h\<close> provides is an argument: the storage is a \<open>cbfs_dev\<close>, and
  the configuration with the digest functions of vboot, whose code is a git submodule, is a
  \<open>cbfs_env\<close>, with the layout of \<^verbatim>\<open>struct vb2_hash\<close>. A \<^verbatim>\<open>union cbfs_mdata\<close> and a metadata cache are byte lists, a pointer into one is
  its offset; \<open>get_at\<close> and \<open>put_at\<close> are \<open>None\<close> outside the buffer. \<open>None\<close> as the
  result of an operation thus means that it does not return normally: the loop does not end, a fatal
  assertion fails, or it leaves a buffer.
\<close>

subsection \<open>Buffers\<close>

definition get_at :: "u8 list \<Rightarrow> nat \<Rightarrow> nat \<Rightarrow> u8 list option" where
  "get_at buf i n = (if i + n \<le> length buf then Some (take n (drop i buf)) else None)"

definition put_at :: "u8 list \<Rightarrow> nat \<Rightarrow> u8 list \<Rightarrow> u8 list option" where
  "put_at buf i bs =
     (if i + length bs \<le> length buf then Some (take i buf @ bs @ drop (i + length bs) buf) else None)"

definition be32toh :: "u8 list \<Rightarrow> u32" where
  "be32toh bs = le_value (rev bs)"

definition be32_at :: "u8 list \<Rightarrow> nat \<Rightarrow> u32" where
  "be32_at buf i = be32toh (take 4 (drop i buf))"

lemma unat_less_32: "unat (x :: u32) < 4294967296"
  using unsigned_less [of x, where ?'a = nat] by simp

lemma unat_ucast_up: "unat (ucast (x :: u32) :: u64) = unat x"
  using unat_less_32 [of x] by (simp add: unsigned_ucast_eq take_bit_nat_eq_self)

lemma sint_less_24:
  fixes x :: u32
  shows "sint (ucast x - 24 :: u64) = int (unat x) - 24"
proof -
  have x: "unat x < 2 ^ 32" using unsigned_less [of x, where ?'a = nat] by simp
  have "(ucast x :: u64) = word_of_int (int (unat x))" by (rule word_eq_unatI) (use x in \<open>simp add: unat_ucast_up unat_of_nat_lt\<close>)
  then have "ucast x - 24 = (word_of_int (int (unat x) - 24) :: u64)" by simp
  moreover have "- (2 ^ 63) \<le> int k - 24 \<and> int k - 24 < 2 ^ 63" if "k < 2 ^ 32" for k using that by auto
  note this [OF x]
  ultimately show ?thesis by (simp only: sint_of_int_u64)
qed

lemma length_put_at: "put_at buf i bs = Some buf' \<Longrightarrow> length buf' = length buf"
  by (auto simp: put_at_def split: if_splits)

subsection \<open>Constants and the header\<close>

datatype cb_err =
    CB_SUCCESS | CB_ERR | CB_ERR_ARG
  | CB_CBFS_IO | CB_CBFS_NOT_FOUND | CB_CBFS_HASH_MISMATCH | CB_CBFS_CACHE_FULL

definition CBFS_ALIGNMENT :: size_t where
  "CBFS_ALIGNMENT = 64"

definition CBFS_METADATA_MAX_SIZE :: nat where
  "CBFS_METADATA_MAX_SIZE = 256"

definition CBFS_TYPE_DELETED :: u32 where
  "CBFS_TYPE_DELETED = 0x00000000"

definition CBFS_TYPE_NULL :: u32 where
  "CBFS_TYPE_NULL = 0xffffffff"

text \<open>\<^verbatim>\<open>"LARCHIVE"\<close>.\<close>

definition CBFS_FILE_MAGIC :: "u8 list" where
  "CBFS_FILE_MAGIC = [0x4c, 0x41, 0x52, 0x43, 0x48, 0x49, 0x56, 0x45]"

text \<open>The fields of \<^verbatim>\<open>struct cbfs_file\<close>, converted to host order, and where its name starts.\<close>

definition cbfs_file_size :: nat where
  "cbfs_file_size = 24"

definition h_magic :: "u8 list \<Rightarrow> u8 list" where
  "h_magic m = take 8 m"

definition h_len :: "u8 list \<Rightarrow> u32" where
  "h_len m = be32_at m 8"

definition h_type :: "u8 list \<Rightarrow> u32" where
  "h_type m = be32_at m 12"

definition h_attributes_offset :: "u8 list \<Rightarrow> u32" where
  "h_attributes_offset m = be32_at m 16"

definition h_offset :: "u8 list \<Rightarrow> u32" where
  "h_offset m = be32_at m 20"

subsection \<open>The environment\<close>

record cbfs_dev =
  cbfs_dev_read :: "size_t \<Rightarrow> size_t \<Rightarrow> u8 list option"
  cbfs_dev_size :: size_t

record vb2_hash =
  hash_algo :: nat
  hash_raw :: "u8 list"

record 'c cbfs_env =
  CBFS_ENABLE_HASHING :: bool
  cbfs_fatal_asserts :: bool
  vb2_digest_init :: "nat \<Rightarrow> 'c option"
  vb2_digest_extend :: "'c \<Rightarrow> u8 list \<Rightarrow> 'c option"
  vb2_digest_finalize :: "'c \<Rightarrow> nat \<Rightarrow> u8 list option"
  vb2_digest_size :: "nat \<Rightarrow> nat"
  vb2_hash_raw_offset :: nat
  vb2_hash_algo :: "u8 list \<Rightarrow> nat"

text \<open>The storage that coreboot's own \<^verbatim>\<open>cbfs_glue.h\<close> gives: a region device.\<close>

definition cbfs_rdev :: "'d driver \<Rightarrow> 'd world \<Rightarrow> region_device \<Rightarrow> cbfs_dev" where
  "cbfs_rdev drv w rd =
     \<lparr>cbfs_dev_read = rdev_readat drv w rd, cbfs_dev_size = region_device_sz rd\<rparr>"

subsection \<open>Walking\<close>

text \<open>The loop of \<^verbatim>\<open>read_next_header\<close> and the function; the buffer is the start of the metadata union.\<close>

partial_function (option) read_next_loop ::
  "cbfs_dev \<Rightarrow> size_t \<Rightarrow> u8 list \<Rightarrow> (cb_err \<times> size_t \<times> u8 list) option" where
  "read_next_loop dev offset buffer =
     (if \<not> offset + of_nat cbfs_file_size < cbfs_dev_size dev then Some (CB_CBFS_NOT_FOUND, offset, buffer)
      else case cbfs_dev_read dev offset (of_nat cbfs_file_size) of
             None \<Rightarrow> Some (CB_CBFS_IO, offset, buffer)
           | Some bs \<Rightarrow>
               if length bs \<noteq> cbfs_file_size then Some (CB_CBFS_IO, offset, buffer)
               else Option.bind (put_at buffer 0 bs) (\<lambda>buffer.
                 if h_magic buffer = CBFS_FILE_MAGIC then Some (CB_SUCCESS, offset, buffer)
                 else read_next_loop dev (offset + CBFS_ALIGNMENT) buffer))"

definition read_next_header ::
  "cbfs_dev \<Rightarrow> size_t \<Rightarrow> u8 list \<Rightarrow> (cb_err \<times> size_t \<times> u8 list) option" where
  "read_next_header dev offset buffer = read_next_loop dev (ALIGN_UP offset CBFS_ALIGNMENT) buffer"

text \<open>
  A walker gets the offset of the file, the metadata read so far, how much of it was read, and its
  argument as state. The device is fixed.
\<close>

type_synonym 's walker = "size_t \<Rightarrow> u8 list \<Rightarrow> size_t \<Rightarrow> 's \<Rightarrow> (cb_err \<times> 's) option"

text \<open>
  One iteration of the loop of \<^verbatim>\<open>cbfs_walk\<close>, after a header has been found: it leaves the function, or
  goes on at a new offset. The digest context is \<open>None\<close> when nothing is hashed.
\<close>

datatype ('c, 's) walk_step =
    Leave cb_err 's
  | Again size_t "u8 list" "'c option" cb_err 's

definition is_empty_type :: "u32 \<Rightarrow> bool" where
  "is_empty_type t \<longleftrightarrow> t = CBFS_TYPE_DELETED \<or> t = CBFS_TYPE_NULL"

definition walk_file ::
  "'c cbfs_env \<Rightarrow> cbfs_dev \<Rightarrow> 's walker option \<Rightarrow> bool \<Rightarrow> size_t \<Rightarrow> u8 list \<Rightarrow> 'c option \<Rightarrow>
   cb_err \<Rightarrow> 's \<Rightarrow> ('c, 's) walk_step option" where
  "walk_file env dev walker include_empty offset mdata dc ret_walker s =
     (let attr_offset = h_attributes_offset mdata;
          data_offset = h_offset mdata;
          data_length = h_len mdata;
          empty = is_empty_type (h_type mdata);
          next_file = offset + ucast (data_offset + data_length);
          devsize = cbfs_dev_size dev
      in if of_nat CBFS_METADATA_MAX_SIZE < (ucast data_offset :: size_t) \<or> devsize < ucast data_length \<or>
            devsize < offset + ucast data_offset + ucast data_length
         then Some (Again (offset + CBFS_ALIGNMENT) mdata dc ret_walker s)
         else if empty \<and> \<not> include_empty
         then Some (Again next_file mdata dc ret_walker s)
         else let todo = (if dc \<noteq> None \<or> attr_offset = 0 then ucast data_offset else ucast attr_offset)
                           - of_nat cbfs_file_size :: size_t
              in if sint todo \<le> 0 \<or> data_offset < attr_offset
                 then Some (Again next_file mdata dc ret_walker s)
                 else c_assert (cbfs_fatal_asserts env)
                        (0 < sint todo \<and> todo \<le> of_nat (CBFS_METADATA_MAX_SIZE - cbfs_file_size))
                   (case cbfs_dev_read dev (offset + of_nat cbfs_file_size) todo of
                      None \<Rightarrow> Some (Leave CB_CBFS_IO s)
                    | Some bs \<Rightarrow>
                        if length bs \<noteq> unat todo then Some (Leave CB_CBFS_IO s)
                        else Option.bind (put_at mdata cbfs_file_size bs) (\<lambda>mdata1.
                          Option.bind (put_at mdata1
                            (unat (if attr_offset \<noteq> 0 then attr_offset - 1 else data_offset - 1)) [0]) (\<lambda>mdata.
                          case (case dc of
                                  Some c \<Rightarrow> if empty then Some (Some c)
                                    else map_option Some (vb2_digest_extend env c (take (unat data_offset) mdata))
                                | None \<Rightarrow> Some None) of
                            None \<Rightarrow> Some (Leave CB_ERR s)
                          | Some dc \<Rightarrow>
                              Option.bind
                                (case walker of
                                   Some f \<Rightarrow> if ret_walker = CB_CBFS_NOT_FOUND
                                     then f offset mdata (of_nat cbfs_file_size + todo) s
                                     else Some (ret_walker, s)
                                 | None \<Rightarrow> Some (ret_walker, s))
                                (\<lambda>(ret_walker, s).
                                   if ret_walker = CB_CBFS_IO \<or> ret_walker \<noteq> CB_CBFS_NOT_FOUND \<and> dc = None
                                   then Some (Leave ret_walker s)
                                   else Some (Again next_file mdata dc ret_walker s))))))"

text \<open>How the loop ends: with a return from its body, or with \<^verbatim>\<open>ret_header\<close>, \<^verbatim>\<open>ret_walker\<close> and the digest.\<close>

datatype ('c, 's) walk_end =
    Returned cb_err 's
  | Finished cb_err cb_err "'c option" 's

partial_function (option) walk_loop ::
  "'c cbfs_env \<Rightarrow> cbfs_dev \<Rightarrow> 's walker option \<Rightarrow> bool \<Rightarrow> size_t \<Rightarrow> u8 list \<Rightarrow> 'c option \<Rightarrow>
   cb_err \<Rightarrow> 's \<Rightarrow> ('c, 's) walk_end option" where
  "walk_loop env dev walker include_empty offset mdata dc ret_walker s =
     Option.bind (read_next_header dev offset mdata) (\<lambda>(ret_header, offset, mdata).
       if ret_header \<noteq> CB_SUCCESS then Some (Finished ret_header ret_walker dc s)
       else Option.bind (walk_file env dev walker include_empty offset mdata dc ret_walker s) (\<lambda>r.
         case r of
           Leave e s \<Rightarrow> Some (Returned e s)
         | Again offset mdata dc ret_walker s \<Rightarrow>
             walk_loop env dev walker include_empty offset mdata dc ret_walker s))"

text \<open>
  \<^verbatim>\<open>cbfs_walk\<close>. The metadata union starts with whatever the stack held; the result has the
  hash structure, which the writeback flag overwrites.
\<close>

definition cbfs_walk ::
  "'c cbfs_env \<Rightarrow> cbfs_dev \<Rightarrow> u8 list \<Rightarrow> 's walker option \<Rightarrow> 's \<Rightarrow> vb2_hash option \<Rightarrow> bool \<Rightarrow> bool \<Rightarrow>
   (cb_err \<times> 's \<times> vb2_hash option) option" where
  "cbfs_walk env dev stack walker s metadata_hash writeback include_empty =
     c_assert (cbfs_fatal_asserts env)
       (CBFS_ENABLE_HASHING env \<or> metadata_hash = None \<and> \<not> writeback)
       (case (case metadata_hash of
                Some mh \<Rightarrow> if CBFS_ENABLE_HASHING env
                  then map_option Some (vb2_digest_init env (hash_algo mh)) else Some None
              | None \<Rightarrow> Some None) of
          None \<Rightarrow> Some (CB_ERR_ARG, s, metadata_hash)
        | Some dc \<Rightarrow>
            Option.bind (walk_loop env dev walker include_empty 0 stack dc CB_CBFS_NOT_FOUND s) (\<lambda>r.
              case r of
                Returned e s \<Rightarrow> Some (e, s, metadata_hash)
              | Finished ret_header ret_walker dc s \<Rightarrow>
                  if ret_header \<noteq> CB_CBFS_NOT_FOUND then Some (ret_header, s, metadata_hash)
                  else (case (dc, metadata_hash) of
                    (Some c, Some mh) \<Rightarrow>
                      (let hash_size = vb2_digest_size env (hash_algo mh)
                       in case vb2_digest_finalize env c hash_size of
                            None \<Rightarrow> Some (CB_ERR, s, metadata_hash)
                          | Some real_hash \<Rightarrow>
                              if writeback
                              then Some (ret_walker, s, Some (mh\<lparr>hash_raw := real_hash @ drop hash_size (hash_raw mh)\<rparr>))
                              else if take hash_size (hash_raw mh) \<noteq> real_hash
                              then Some (CB_CBFS_HASH_MISMATCH, s, metadata_hash)
                              else Some (ret_walker, s, metadata_hash))
                  | _ \<Rightarrow> Some (ret_walker, s, metadata_hash))))"

subsection \<open>Copying metadata, looking a file up\<close>

text \<open>
  \<^verbatim>\<open>cbfs_copy_fill_metadata\<close> writes at the offset \<open>at\<close> of the buffer \<open>dst\<close>. When the
  read fails the content of the destination is left as the first copy made it.
\<close>

definition cbfs_copy_fill_metadata ::
  "bool \<Rightarrow> u8 list \<Rightarrow> nat \<Rightarrow> u8 list \<Rightarrow> size_t \<Rightarrow> cbfs_dev \<Rightarrow> size_t \<Rightarrow> (cb_err \<times> u8 list) option" where
  "cbfs_copy_fill_metadata fatal dst at src already_read dev offset =
     Option.bind (get_at src 0 (unat already_read)) (\<lambda>bs.
     Option.bind (put_at dst at bs) (\<lambda>dst.
       let todo = ucast (h_offset src) - already_read
       in c_assert fatal (todo \<le> of_nat CBFS_METADATA_MAX_SIZE - already_read)
         (if todo = 0 then Some (CB_SUCCESS, dst)
          else case cbfs_dev_read dev (offset + already_read) todo of
                 None \<Rightarrow> Some (CB_CBFS_IO, dst)
               | Some bs \<Rightarrow>
                   if length bs \<noteq> unat todo then Some (CB_CBFS_IO, dst)
                   else map_option (Pair CB_SUCCESS) (put_at dst (at + unat already_read) bs))))"

text \<open>
  The lookup walker; its argument structure is the name, which does not change, and the two
  outputs. \<open>name\<close> is the string without its final NUL.
\<close>

record lookup_out =
  mdata_out :: "u8 list"
  data_offset_out :: size_t

definition lookup_walker :: "bool \<Rightarrow> cbfs_dev \<Rightarrow> u8 list \<Rightarrow> lookup_out walker" where
  "lookup_walker fatal dev name offset mdata already_read out =
     (let namesize = of_nat (length name + 1) :: size_t
      in if already_read - of_nat cbfs_file_size < namesize then Some (CB_CBFS_NOT_FOUND, out)
         else Option.bind (get_at mdata cbfs_file_size (unat namesize)) (\<lambda>filename.
           if filename \<noteq> name @ [0] then Some (CB_CBFS_NOT_FOUND, out)
           else Option.bind
             (cbfs_copy_fill_metadata fatal (mdata_out out) 0 mdata already_read dev offset) (\<lambda>(e, dst).
             if e \<noteq> CB_SUCCESS then Some (CB_CBFS_IO, out\<lparr>mdata_out := dst\<rparr>)
             else Some (CB_SUCCESS,
               out\<lparr>mdata_out := dst, data_offset_out := offset + ucast (h_offset mdata)\<rparr>))))"

definition cbfs_lookup ::
  "'c cbfs_env \<Rightarrow> cbfs_dev \<Rightarrow> u8 list \<Rightarrow> u8 list \<Rightarrow> lookup_out \<Rightarrow> vb2_hash option \<Rightarrow>
   (cb_err \<times> lookup_out) option" where
  "cbfs_lookup env dev stack name out metadata_hash =
     map_option (\<lambda>(e, out, _). (e, out))
       (cbfs_walk env dev stack (Some (lookup_walker (cbfs_fatal_asserts env) dev name)) out
          metadata_hash False False)"

subsection \<open>Attributes\<close>

definition CBFS_FILE_ATTR_TAG_HASH :: u32 where
  "CBFS_FILE_ATTR_TAG_HASH = 0x68736148"

definition CBFS_FILE_ATTR_TAG_COMPRESSION :: u32 where
  "CBFS_FILE_ATTR_TAG_COMPRESSION = 0x42435a4c"

text \<open>
  An attribute is \<^verbatim>\<open>tag\<close>, \<^verbatim>\<open>len\<close> and its data; the result is its offset in the metadata. The outer
  \<open>None\<close> is a read outside the metadata, the inner one \<^verbatim>\<open>NULL\<close>.
\<close>

definition cbfs_file_attribute_size :: nat where
  "cbfs_file_attribute_size = 8"

function find_attr_loop ::
  "u8 list \<Rightarrow> u32 \<Rightarrow> size_t \<Rightarrow> u32 \<Rightarrow> u32 \<Rightarrow> nat option option" where
  "find_attr_loop mdata attr_tag size_check offset end_off =
     (if \<not> ucast offset + of_nat cbfs_file_attribute_size \<le> (ucast end_off :: size_t) then Some None
      else if length mdata < unat offset + cbfs_file_attribute_size then None
      else let tag = be32_at mdata (unat offset); len = be32_at mdata (unat offset + 4)
           in if (ucast len :: size_t) < of_nat cbfs_file_attribute_size \<or> end_off - offset < len
              then Some None
              else if tag = attr_tag
              then if size_check \<noteq> 0 \<and> ucast len \<noteq> size_check then Some None
                   else Some (Some (unat offset))
              else find_attr_loop mdata attr_tag size_check (offset + len) end_off)"
  by auto

termination find_attr_loop
proof (relation "measure (\<lambda>(_, _, _, offset, end_off). unat (end_off - offset))", goal_cases)
  case (2 mdata attr_tag size_check offset end_off tag len)
  then have "8 \<le> unat len" and l: "unat len \<le> unat (end_off - offset)"
    by (simp_all add: cbfs_file_attribute_size_def word_less_nat_alt word_le_nat_alt unat_ucast_up)
  then show ?case by (simp add: diff_diff_add [symmetric] unat_sub_no_wrap)
qed simp

declare find_attr_loop.simps [simp del]

definition cbfs_find_attr :: "u8 list \<Rightarrow> u32 \<Rightarrow> size_t \<Rightarrow> nat option option" where
  "cbfs_find_attr mdata attr_tag size_check =
     (let offset = h_attributes_offset mdata
      in if offset = 0 then Some None
         else find_attr_loop mdata attr_tag size_check offset (h_offset mdata))"

text \<open>
  \<^verbatim>\<open>cbfs_file_hash\<close>: the \<^verbatim>\<open>struct vb2_hash\<close> in the hash attribute, as its algorithm and digest.
\<close>

definition cbfs_file_hash :: "'c cbfs_env \<Rightarrow> u8 list \<Rightarrow> vb2_hash option option" where
  "cbfs_file_hash env mdata =
     Option.bind (cbfs_find_attr mdata CBFS_FILE_ATTR_TAG_HASH 0) (\<lambda>r.
       case r of
         None \<Rightarrow> Some None
       | Some attr \<Rightarrow>
           let asize = ucast (be32_at mdata (attr + 4)) :: size_t;
               hash = attr + cbfs_file_attribute_size; raw = vb2_hash_raw_offset env
           in Option.bind (get_at mdata hash raw) (\<lambda>h.
             let hsize = vb2_digest_size env (vb2_hash_algo env h)
             in if hsize = 0 then Some None
                else if of_nat hsize \<noteq> asize - of_nat (cbfs_file_attribute_size + raw) then Some None
                else map_option (\<lambda>r. Some \<lparr>hash_algo = vb2_hash_algo env h, hash_raw = r\<rparr>)
                  (get_at mdata (hash + raw) hsize)))"

subsection \<open>The files of a medium\<close>

text \<open>
  The reference that the walk is compared with: the content of the medium is a function from offsets
  to bytes, and its files are a list of offsets. A header is looked for at every multiple of 64; behind
  one whose data is inside the medium the search goes on after the data.
\<close>

definition bytes_at :: "(nat \<Rightarrow> u8) \<Rightarrow> nat \<Rightarrow> nat \<Rightarrow> u8 list" where
  "bytes_at c i n = map (\<lambda>j. c (i + j)) [0..<n]"

definition file_header :: "(nat \<Rightarrow> u8) \<Rightarrow> nat \<Rightarrow> u8 list" where
  "file_header c i = bytes_at c i cbfs_file_size"

definition file_attr :: "(nat \<Rightarrow> u8) \<Rightarrow> nat \<Rightarrow> nat" where
  "file_attr c i = unat (h_attributes_offset (file_header c i))"

definition file_data :: "(nat \<Rightarrow> u8) \<Rightarrow> nat \<Rightarrow> nat" where
  "file_data c i = unat (h_offset (file_header c i))"

definition file_length :: "(nat \<Rightarrow> u8) \<Rightarrow> nat \<Rightarrow> nat" where
  "file_length c i = unat (h_len (file_header c i))"

definition file_empty :: "(nat \<Rightarrow> u8) \<Rightarrow> nat \<Rightarrow> bool" where
  "file_empty c i \<longleftrightarrow> is_empty_type (h_type (file_header c i))"

definition align64 :: "nat \<Rightarrow> nat" where
  "align64 i = (i + 63) div 64 * 64"

definition file_at :: "(nat \<Rightarrow> u8) \<Rightarrow> nat \<Rightarrow> nat \<Rightarrow> bool" where
  "file_at c n i \<longleftrightarrow> h_magic (file_header c i) = CBFS_FILE_MAGIC \<and>
     file_data c i \<le> CBFS_METADATA_MAX_SIZE \<and> i + file_data c i + file_length c i \<le> n"

lemma align64_ge: "i \<le> align64 i"
  unfolding align64_def by linarith

function cbfs_headers :: "(nat \<Rightarrow> u8) \<Rightarrow> nat \<Rightarrow> nat \<Rightarrow> nat list" where
  "cbfs_headers c n i =
     (if n \<le> i + cbfs_file_size then []
      else if file_at c n i
      then i # cbfs_headers c n (align64 (i + max 1 (file_data c i + file_length c i)))
      else cbfs_headers c n (i + 64))"
  by auto
termination
proof (relation "measure (\<lambda>(c, n, i). n - i)", goal_cases)
  case (2 c n i)
  have "i + max 1 (file_data c i + file_length c i) \<le> align64 (i + max 1 (file_data c i + file_length c i))"
    by (rule align64_ge)
  with 2 show ?case by simp
qed auto

declare cbfs_headers.simps [simp del]

text \<open>
  How much of a file's metadata a walk reads, what it then has in its buffer, and whether it looks at
  the file at all. \<open>hashed\<close> says that the walk computes a digest.
\<close>

definition read_len :: "bool \<Rightarrow> (nat \<Rightarrow> u8) \<Rightarrow> nat \<Rightarrow> nat" where
  "read_len hashed c i = (if hashed \<or> file_attr c i = 0 then file_data c i else file_attr c i)"

definition nul_index :: "(nat \<Rightarrow> u8) \<Rightarrow> nat \<Rightarrow> nat" where
  "nul_index c i = (if file_attr c i \<noteq> 0 then file_attr c i else file_data c i) - 1"

definition seen :: "bool \<Rightarrow> (nat \<Rightarrow> u8) \<Rightarrow> nat \<Rightarrow> u8 list" where
  "seen hashed c i = (bytes_at c i (read_len hashed c i))[nul_index c i := 0]"

definition file_visible :: "bool \<Rightarrow> bool \<Rightarrow> (nat \<Rightarrow> u8) \<Rightarrow> nat \<Rightarrow> bool" where
  "file_visible hashed include_empty c i \<longleftrightarrow> (include_empty \<or> \<not> file_empty c i) \<and>
     cbfs_file_size < read_len hashed c i \<and> file_attr c i \<le> file_data c i"

text \<open>The walk over the list of files.\<close>

fun walk_list ::
  "'c cbfs_env \<Rightarrow> 's walker option \<Rightarrow> bool \<Rightarrow> (nat \<Rightarrow> u8) \<Rightarrow> nat list \<Rightarrow> 'c option \<Rightarrow> cb_err \<Rightarrow> 's \<Rightarrow>
   ('c, 's) walk_end option" where
  "walk_list env walker inc c [] dc rw s = Some (Finished CB_CBFS_NOT_FOUND rw dc s)"
| "walk_list env walker inc c (i # is) dc rw s =
     (if \<not> file_visible (dc \<noteq> None) inc c i then walk_list env walker inc c is dc rw s
      else case (case dc of
                   Some d \<Rightarrow> if file_empty c i then Some (Some d)
                     else map_option Some (vb2_digest_extend env d (seen True c i))
                 | None \<Rightarrow> Some None) of
             None \<Rightarrow> Some (Returned CB_ERR s)
           | Some dc \<Rightarrow>
               Option.bind
                 (case walker of
                    Some f \<Rightarrow> if rw = CB_CBFS_NOT_FOUND
                      then f (of_nat i) (seen (dc \<noteq> None) c i) (of_nat (read_len (dc \<noteq> None) c i)) s
                      else Some (rw, s)
                  | None \<Rightarrow> Some (rw, s))
                 (\<lambda>(rw, s). if rw = CB_CBFS_IO \<or> rw \<noteq> CB_CBFS_NOT_FOUND \<and> dc = None
                    then Some (Returned rw s)
                    else walk_list env walker inc c is dc rw s))"

subsection \<open>Storage as a contract\<close>

text \<open>
  What \<^verbatim>\<open>cbfs_private.h\<close> asks of the storage: a read inside the size returns the bytes of the
  medium. The size is below 4 GiB, since sums of the 32-bit header fields are formed in 32 bits.
\<close>

locale cbfs_media =
  fixes dev :: "'m \<Rightarrow> cbfs_dev"
    and cell :: "'m \<Rightarrow> nat \<Rightarrow> u8"
    and ok :: "'m \<Rightarrow> bool"
  assumes media_read: "ok m \<Longrightarrow> k \<noteq> 0 \<Longrightarrow> unat off + unat k \<le> unat (cbfs_dev_size (dev m)) \<Longrightarrow>
      cbfs_dev_read (dev m) off k = Some (bytes_at (cell m) (unat off) (unat k))"
    and media_size: "ok m \<Longrightarrow> unat (cbfs_dev_size (dev m)) < 2 ^ 32"

text \<open>What a walker owes the walk: it depends only on the metadata that was read.\<close>

locale cbfs_walker =
  fixes walker :: "'s walker"
  assumes reads_prefix: "unat k \<le> length m \<Longrightarrow> unat k \<le> length m' \<Longrightarrow>
      take (unat k) m = take (unat k) m' \<Longrightarrow> cbfs_file_size < unat k \<Longrightarrow> walker off m k s = walker off m' k s"

subsection \<open>The walk visits the files of the medium\<close>

lemma length_bytes_at [simp]: "length (bytes_at c i n) = n"
  by (simp add: bytes_at_def)

lemma bytes_at_0 [simp]: "bytes_at c i 0 = []"
  by (simp add: bytes_at_def)

lemma nth_bytes_at [simp]: "j < n \<Longrightarrow> bytes_at c i n ! j = c (i + j)"
  by (simp add: bytes_at_def)

lemma take_bytes_at: "take k (bytes_at c i n) = bytes_at c i (min k n)"
  by (rule nth_equalityI) auto

lemma drop_bytes_at: "drop k (bytes_at c i n) = bytes_at c (i + k) (n - k)"
  by (rule nth_equalityI) (auto simp: add.assoc)

lemma bytes_at_append: "bytes_at c i a @ bytes_at c (i + a) b = bytes_at c i (a + b)"
  by (rule nth_equalityI) (auto simp: nth_append)

lemma put_at_single: "j < length xs \<Longrightarrow> put_at xs j [v] = Some (xs[j := v])"
  by (simp add: put_at_def upd_conv_take_nth_drop)

lemma be32_at_cong:
  assumes "take k m = take k m'" "j + 4 \<le> k"
  shows "be32_at m j = be32_at m' j"
proof -
  have "take 4 (drop j x) = take 4 (drop j (take k x))" for x :: "u8 list"
    using assms(2) by (simp add: drop_take min_def)
  then show ?thesis using assms(1) by (metis be32_at_def)
qed

lemma header_cong:
  assumes "take cbfs_file_size m = take cbfs_file_size m'"
  shows "h_magic m = h_magic m'" "h_len m = h_len m'" "h_type m = h_type m'"
    "h_attributes_offset m = h_attributes_offset m'" "h_offset m = h_offset m'"
proof -
  have "take 8 x = take 8 (take cbfs_file_size x)" for x :: "u8 list" by (simp add: cbfs_file_size_def)
  then show "h_magic m = h_magic m'" using assms by (metis h_magic_def)
qed (use assms in \<open>auto simp: h_len_def h_type_def h_attributes_offset_def h_offset_def cbfs_file_size_def
    intro: be32_at_cong\<close>)

lemmas file_fields = file_attr_def file_data_def file_length_def file_empty_def

lemma length_file_header [simp]: "length (file_header c i) = cbfs_file_size"
  by (simp add: file_header_def)

lemma nul_index_less: "file_visible hashed inc c i \<Longrightarrow> nul_index c i < read_len hashed c i"
  by (auto simp: file_visible_def nul_index_def read_len_def cbfs_file_size_def)

lemma read_len_le: "file_visible hashed inc c i \<Longrightarrow> read_len hashed c i \<le> file_data c i"
  by (auto simp: file_visible_def read_len_def)

lemma length_seen [simp]: "length (seen hashed c i) = read_len hashed c i"
  by (simp add: seen_def)

text \<open>The buffer of the walk behind the header of a file, and behind its metadata.\<close>

definition header_buf :: "(nat \<Rightarrow> u8) \<Rightarrow> nat \<Rightarrow> u8 list \<Rightarrow> bool" where
  "header_buf c i buf \<longleftrightarrow> length buf = CBFS_METADATA_MAX_SIZE \<and> take cbfs_file_size buf = file_header c i"

lemma header_buf_fields:
  assumes "header_buf c i buf"
  shows "h_magic buf = h_magic (file_header c i)" "h_len buf = h_len (file_header c i)"
    "h_type buf = h_type (file_header c i)" "h_offset buf = h_offset (file_header c i)"
    "h_attributes_offset buf = h_attributes_offset (file_header c i)"
  using assms by (auto simp: header_buf_def intro!: header_cong)

lemma put_header:
  assumes "length buf = CBFS_METADATA_MAX_SIZE"
  obtains buf' where "put_at buf 0 (file_header c i) = Some buf'" "header_buf c i buf'"
  using assms by (auto simp: put_at_def header_buf_def CBFS_METADATA_MAX_SIZE_def cbfs_file_size_def file_header_def)

lemma put_metadata:
  assumes "header_buf c i buf" "file_visible hashed inc c i" "file_data c i \<le> CBFS_METADATA_MAX_SIZE"
  shows "Option.bind (put_at buf cbfs_file_size
      (bytes_at c (i + cbfs_file_size) (read_len hashed c i - cbfs_file_size)))
      (\<lambda>b. put_at b (nul_index c i) [0]) = Some (seen hashed c i @ drop (read_len hashed c i) buf)"
proof -
  let ?r = "read_len hashed c i"
  have r: "cbfs_file_size < ?r" "?r \<le> CBFS_METADATA_MAX_SIZE" "nul_index c i < ?r"
    using assms read_len_le [OF assms(2)] nul_index_less [OF assms(2)] by (auto simp: file_visible_def)
  have "put_at buf cbfs_file_size (bytes_at c (i + cbfs_file_size) (?r - cbfs_file_size)) =
      Some (bytes_at c i ?r @ drop ?r buf)"
    using r(1,2) assms(1) bytes_at_append [of c i cbfs_file_size "?r - cbfs_file_size"]
    by (simp add: put_at_def header_buf_def file_header_def)
  then show ?thesis using r(3) by (simp add: put_at_single seen_def list_update_append1)
qed

lemma unat_todo:
  "cbfs_file_size < unat (x :: u32) \<Longrightarrow> unat (ucast x - of_nat cbfs_file_size :: u64) = unat x - cbfs_file_size"
  by (subst unat_sub_no_wrap) (simp_all add: unat_ucast_up cbfs_file_size_def)

lemma sint_todo: "sint (ucast x - of_nat cbfs_file_size :: u64) = int (unat (x :: u32)) - int cbfs_file_size"
  using sint_less_24 [of x] by (simp add: cbfs_file_size_def)
lemma todo_le_0: "sint (ucast x - of_nat cbfs_file_size :: u64) \<le> 0 \<longleftrightarrow> unat (x :: u32) \<le> cbfs_file_size"
  unfolding sint_todo by linarith
lemma bind_bind_Some: "Option.bind a f = Some x \<Longrightarrow> Option.bind a (\<lambda>b. Option.bind (f b) K) = K x"
  by (cases a) auto

context cbfs_media
begin

abbreviation media_len :: "'m \<Rightarrow> nat" where
  "media_len m \<equiv> unat (cbfs_dev_size (dev m))"

lemma unat_add_small:
  assumes "unat off < 2 ^ 33" "k \<le> 2 ^ 33"
  shows "unat (off + of_nat k :: size_t) = unat off + k"
  using assms by (subst unat_add_no_wrap) (simp_all add: unat_of_nat_lt)

lemma header_fits:
  assumes "unat off < 2 ^ 33"
  shows "\<not> off + of_nat cbfs_file_size < cbfs_dev_size (dev m) \<longleftrightarrow> media_len m \<le> unat off + cbfs_file_size"
  using unat_add_small [OF assms, of cbfs_file_size]
  by (auto simp: word_less_nat_alt cbfs_file_size_def)

lemma read_header:
  assumes "ok m" "unat off + cbfs_file_size < media_len m"
  shows "cbfs_dev_read (dev m) off (of_nat cbfs_file_size) = Some (file_header (cell m) (unat off))"
  using media_read [OF assms(1), of "of_nat cbfs_file_size" off] assms(2)
  by (simp add: cbfs_file_size_def file_header_def)

lemma next_loop_step:
  assumes "ok m" "unat off < 2 ^ 33" "length buf = CBFS_METADATA_MAX_SIZE"
  obtains buf' where "header_buf (cell m) (unat off) buf'"
    "read_next_loop (dev m) off buf =
       (if media_len m \<le> unat off + cbfs_file_size then Some (CB_CBFS_NOT_FOUND, off, buf)
        else if h_magic (file_header (cell m) (unat off)) = CBFS_FILE_MAGIC then Some (CB_SUCCESS, off, buf')
        else read_next_loop (dev m) (off + CBFS_ALIGNMENT) buf')"
proof -
  from put_header [OF assms(3)] obtain buf' where
    b: "put_at buf 0 (file_header (cell m) (unat off)) = Some buf'" "header_buf (cell m) (unat off) buf'" .
  show thesis
  proof (rule that [OF b(2)])
    show "read_next_loop (dev m) off buf =
       (if media_len m \<le> unat off + cbfs_file_size then Some (CB_CBFS_NOT_FOUND, off, buf)
        else if h_magic (file_header (cell m) (unat off)) = CBFS_FILE_MAGIC then Some (CB_SUCCESS, off, buf')
        else read_next_loop (dev m) (off + CBFS_ALIGNMENT) buf')"
      using read_header [OF assms(1), of off] header_buf_fields(1) [OF b(2)]
      by (subst read_next_loop.simps) (simp add: header_fits [OF assms(2)] not_le b(1))
  qed
qed

lemma walk_file_large:
  assumes "ok m" "unat off + cbfs_file_size < media_len m" "header_buf (cell m) (unat off) buf"
    "\<not> (file_data (cell m) (unat off) \<le> CBFS_METADATA_MAX_SIZE \<and>
       unat off + file_data (cell m) (unat off) + file_length (cell m) (unat off) \<le> media_len m)"
  shows "walk_file env (dev m) walker inc off buf dc rw s = Some (Again (off + CBFS_ALIGNMENT) buf dc rw s)"
proof -
  note f = header_buf_fields [OF assms(3)]
  have o: "unat off < 2 ^ 32" using assms(2) media_size [OF assms(1)] by simp
  have "of_nat CBFS_METADATA_MAX_SIZE < (ucast (h_offset buf) :: size_t) \<or>
      cbfs_dev_size (dev m) < ucast (h_len buf) \<or>
      cbfs_dev_size (dev m) < off + ucast (h_offset buf) + ucast (h_len buf)"
    (is "_ \<or> _ \<or> _ < ?e")
  proof -
    have "unat ?e = unat off + unat (h_offset buf) + unat (h_len buf)"
      using o unat_less_32 [of "h_offset buf"] unat_less_32 [of "h_len buf"]
      by (simp add: unat_word_ariths unat_ucast_up)
    then show ?thesis using assms(4) unfolding f
      by (auto simp: word_less_nat_alt unat_ucast_up CBFS_METADATA_MAX_SIZE_def file_data_def file_length_def)
  qed
  then show ?thesis by (auto simp: walk_file_def Let_def)
qed

end

text \<open>The part of \<open>walk_file\<close> that follows the read of the metadata.\<close>

definition visit_step ::
  "'c cbfs_env \<Rightarrow> 's walker option \<Rightarrow> (nat \<Rightarrow> u8) \<Rightarrow> nat \<Rightarrow> 'c option \<Rightarrow> cb_err \<Rightarrow> 's \<Rightarrow>
   ('c option \<Rightarrow> cb_err \<Rightarrow> 's \<Rightarrow> 'r option) \<Rightarrow> (cb_err \<Rightarrow> 's \<Rightarrow> 'r) \<Rightarrow> 'r option" where
  "visit_step env walker c i dc rw s again leave =
     (case (case dc of
              Some d \<Rightarrow> if file_empty c i then Some (Some d)
                else map_option Some (vb2_digest_extend env d (seen True c i))
            | None \<Rightarrow> Some None) of
        None \<Rightarrow> Some (leave CB_ERR s)
      | Some dc \<Rightarrow>
          Option.bind
            (case walker of
               Some f \<Rightarrow> if rw = CB_CBFS_NOT_FOUND
                 then f (of_nat i) (seen (dc \<noteq> None) c i) (of_nat (read_len (dc \<noteq> None) c i)) s
                 else Some (rw, s)
             | None \<Rightarrow> Some (rw, s))
            (\<lambda>(rw, s). if rw = CB_CBFS_IO \<or> rw \<noteq> CB_CBFS_NOT_FOUND \<and> dc = None
               then Some (leave rw s) else again dc rw s))"

lemma walk_list_Cons:
  "walk_list env walker inc c (i # is) dc rw s =
     (if \<not> file_visible (dc \<noteq> None) inc c i then walk_list env walker inc c is dc rw s
      else visit_step env walker c i dc rw s (walk_list env walker inc c is) Returned)"
  by (simp add: visit_step_def)

lemma visit_step_bind:
  assumes "\<And>dc' rw s. (dc' = None) = (dc = None) \<Longrightarrow> Option.bind (again dc' rw s) K = again' dc' rw s"
    "\<And>e s. K (leave e s) = Some (leave' e s)"
  shows "Option.bind (visit_step env walker c i dc rw s again leave) K =
    visit_step env walker c i dc rw s again' leave'"
  using assms by (cases dc; cases walker)
    (auto simp: visit_step_def split: option.split bind_splits prod.split)

context cbfs_media
begin

lemma file_at_extent:
  assumes "ok m" "unat off + cbfs_file_size < media_len m" "header_buf (cell m) (unat off) buf"
    "file_at (cell m) (media_len m) (unat off)"
  shows "\<not> (of_nat CBFS_METADATA_MAX_SIZE < (ucast (h_offset buf) :: size_t) \<or>
      cbfs_dev_size (dev m) < ucast (h_len buf) \<or>
      cbfs_dev_size (dev m) < off + ucast (h_offset buf) + ucast (h_len buf))"
    and "off + ucast (h_offset buf + h_len buf) =
      off + of_nat (file_data (cell m) (unat off) + file_length (cell m) (unat off))"
proof -
  note f = header_buf_fields [OF assms(3)] file_data_def file_length_def
  have n: "media_len m < 2 ^ 32" by (rule media_size [OF assms(1)])
  have x: "file_data (cell m) (unat off) \<le> 256"
    "unat off + file_data (cell m) (unat off) + file_length (cell m) (unat off) \<le> media_len m"
    using assms(4) by (auto simp: file_at_def CBFS_METADATA_MAX_SIZE_def)
  have "unat (off + ucast (h_offset buf) + ucast (h_len buf)) = unat off + unat (h_offset buf) + unat (h_len buf)"
    using x n unfolding f by (simp add: unat_word_ariths unat_ucast_up)
  then show "\<not> (of_nat CBFS_METADATA_MAX_SIZE < (ucast (h_offset buf) :: size_t) \<or>
      cbfs_dev_size (dev m) < ucast (h_len buf) \<or>
      cbfs_dev_size (dev m) < off + ucast (h_offset buf) + ucast (h_len buf))"
    using x unfolding f by (simp add: word_less_nat_alt unat_ucast_up CBFS_METADATA_MAX_SIZE_def)
  have "unat (h_offset buf + h_len buf) = file_data (cell m) (unat off) + file_length (cell m) (unat off)"
    using x n unfolding f by (subst unat_add_no_wrap) simp_all
  then have "(ucast (h_offset buf + h_len buf) :: size_t) = of_nat (file_data (cell m) (unat off) + file_length (cell m) (unat off))"
    using x n by (intro word_eq_unatI) (simp add: unat_ucast_up unat_of_nat_lt del: of_nat_add)
  then show "off + ucast (h_offset buf + h_len buf) =
      off + of_nat (file_data (cell m) (unat off) + file_length (cell m) (unat off))" by simp
qed

lemma walk_file_skip:
  assumes "ok m" "unat off + cbfs_file_size < media_len m" "header_buf (cell m) (unat off) buf"
    "file_at (cell m) (media_len m) (unat off)" "\<not> file_visible (dc \<noteq> None) inc (cell m) (unat off)"
  shows "walk_file env (dev m) walker inc off buf dc rw s =
    Some (Again (off + of_nat (file_data (cell m) (unat off) + file_length (cell m) (unat off))) buf dc rw s)"
proof -
  note f = header_buf_fields [OF assms(3)]
  note e = file_at_extent [OF assms(1-4)]
  have "is_empty_type (h_type buf) \<and> \<not> inc \<or>
    sint ((if dc \<noteq> None \<or> h_attributes_offset buf = 0 then ucast (h_offset buf) else ucast (h_attributes_offset buf)) -
      of_nat cbfs_file_size :: size_t) \<le> 0 \<or> h_offset buf < h_attributes_offset buf"
    using assms(5) unfolding f
    by (auto simp: file_visible_def read_len_def file_fields todo_le_0 word_less_nat_alt unat_eq_0 split: if_splits)
  then show ?thesis using e(1) unfolding walk_file_def Let_def e(2) by (auto simp: e(2))
qed

end

text \<open>The optional walker of \<^verbatim>\<open>cbfs_walk\<close>.\<close>

definition walker_ok :: "'s walker option \<Rightarrow> bool" where
  "walker_ok walker \<longleftrightarrow> (\<forall>f. walker = Some f \<longrightarrow> cbfs_walker f)"

lemma walker_okD: "walker_ok walker \<Longrightarrow> walker = Some f \<Longrightarrow> cbfs_walker f"
  by (simp add: walker_ok_def)

lemma walker_ok_None [simp]: "walker_ok None"
  by (simp add: walker_ok_def)

lemma walker_ok_Some [simp]: "walker_ok (Some f) \<longleftrightarrow> cbfs_walker f"
  by (simp add: walker_ok_def)

context cbfs_media
begin

text \<open>The read of the metadata of a visible file, and where the final NUL goes.\<close>

lemma read_metadata:
  assumes "ok m" "header_buf (cell m) (unat off) buf" "unat off < 2 ^ 32"
    "file_at (cell m) (media_len m) (unat off)" "file_visible hashed inc (cell m) (unat off)"
  defines "todo \<equiv> (if hashed \<or> h_attributes_offset buf = 0 then ucast (h_offset buf)
      else ucast (h_attributes_offset buf)) - of_nat cbfs_file_size :: size_t"
    and "r \<equiv> read_len hashed (cell m) (unat off)"
  shows "0 < sint todo" "todo \<le> of_nat (CBFS_METADATA_MAX_SIZE - cbfs_file_size)"
    "unat todo = r - cbfs_file_size" "of_nat cbfs_file_size + todo = of_nat r"
    "cbfs_dev_read (dev m) (off + of_nat cbfs_file_size) todo =
       Some (bytes_at (cell m) (unat off + cbfs_file_size) (r - cbfs_file_size))"
    "\<not> h_offset buf < h_attributes_offset buf"
    "unat (if h_attributes_offset buf \<noteq> 0 then h_attributes_offset buf - 1 else h_offset buf - 1) =
       nul_index (cell m) (unat off)"
proof -
  note f = header_buf_fields [OF assms(2)]
  let ?R = "if hashed \<or> h_attributes_offset buf = 0 then h_offset buf else h_attributes_offset buf"
  have t: "todo = ucast ?R - of_nat cbfs_file_size" by (simp add: todo_def)
  have R: "unat ?R = r" unfolding r_def f by (auto simp: read_len_def file_fields unat_eq_0)
  have d: "file_data (cell m) (unat off) \<le> 256"
    "unat off + file_data (cell m) (unat off) \<le> media_len m"
    using assms(4) by (auto simp: file_at_def CBFS_METADATA_MAX_SIZE_def)
  have r: "cbfs_file_size < r" "r \<le> file_data (cell m) (unat off)"
    using assms(5) read_len_le [OF assms(5)] by (auto simp: file_visible_def r_def)
  show "0 < sint todo" using r(1) unfolding t sint_todo R by linarith
  show u: "unat todo = r - cbfs_file_size" unfolding t using r(1) R by (simp add: unat_todo)
  have "unat (of_nat (CBFS_METADATA_MAX_SIZE - cbfs_file_size) :: size_t) = 232"
    by (simp add: CBFS_METADATA_MAX_SIZE_def cbfs_file_size_def)
  then show "todo \<le> of_nat (CBFS_METADATA_MAX_SIZE - cbfs_file_size)"
    using u r(2) d(1) by (simp add: word_le_nat_alt cbfs_file_size_def)
  show "of_nat cbfs_file_size + todo = of_nat r"
    unfolding t R [symmetric] by (rule word_eq_unatI) (simp add: unat_ucast_up)
  have "unat (off + of_nat cbfs_file_size) = unat off + cbfs_file_size"
    using assms(3) by (intro unat_add_small) (simp_all add: cbfs_file_size_def)
  then show "cbfs_dev_read (dev m) (off + of_nat cbfs_file_size) todo =
       Some (bytes_at (cell m) (unat off + cbfs_file_size) (r - cbfs_file_size))"
    using media_read [OF assms(1), of todo "off + of_nat cbfs_file_size"] u r d(2)
    by (auto simp: unat_eq_0 [symmetric])
  show "\<not> h_offset buf < h_attributes_offset buf"
    using assms(5) unfolding f by (simp add: file_visible_def file_fields word_less_nat_alt)
  have "h_offset (file_header (cell m) (unat off)) \<noteq> 0" using r by (auto simp: file_data_def)
  then show "unat (if h_attributes_offset buf \<noteq> 0 then h_attributes_offset buf - 1 else h_offset buf - 1) =
       nul_index (cell m) (unat off)"
    using r unat_pred [of "h_offset (file_header (cell m) (unat off))"]
    unfolding f nul_index_def file_fields by (auto simp: unat_eq_0 unat_pred unat_gt_0)
qed

lemma walk_file_visit:
  assumes "ok m" "unat off + cbfs_file_size < media_len m" "header_buf (cell m) (unat off) buf"
    "file_at (cell m) (media_len m) (unat off)" "file_visible (dc \<noteq> None) inc (cell m) (unat off)"
    "walker_ok walker"
  shows "walk_file env (dev m) walker inc off buf dc rw s =
    visit_step env walker (cell m) (unat off) dc rw s
      (\<lambda>dc' rw s. Some (Again (off + of_nat (file_data (cell m) (unat off) + file_length (cell m) (unat off)))
         (seen (dc \<noteq> None) (cell m) (unat off) @ drop (read_len (dc \<noteq> None) (cell m) (unat off)) buf) dc' rw s))
      Leave"
proof -
  have o: "unat off < 2 ^ 32" using assms(2) media_size [OF assms(1)] by simp
  note f = header_buf_fields [OF assms(3)]
  note e = file_at_extent [OF assms(1-4)]
  note r = read_metadata [OF assms(1,3) o assms(4,5)]
  have "file_data (cell m) (unat off) \<le> CBFS_METADATA_MAX_SIZE" using assms(4) by (simp add: file_at_def)
  note p = put_metadata [OF assms(3,5) this]
  let ?r = "read_len (dc \<noteq> None) (cell m) (unat off)"
  let ?s = "seen (dc \<noteq> None) (cell m) (unat off)"
  have r64: "?r \<le> 256" "cbfs_file_size < ?r"
    using assms(5) read_len_le [OF assms(5)] assms(4)
    by (auto simp: file_visible_def file_at_def CBFS_METADATA_MAX_SIZE_def)
  have w: "g off (?s @ drop ?r buf) (of_nat ?r) s = g (of_nat (unat off)) ?s (of_nat ?r) s"
    if "walker = Some g" for g s
    using cbfs_walker.reads_prefix [OF walker_okD [OF assms(6) that], of "of_nat ?r" "?s @ drop ?r buf" ?s] r64
    by (simp add: unat_of_nat_lt)
  have d: "take (unat (h_offset buf)) (?s @ drop ?r buf) = seen True (cell m) (unat off)" if "dc = Some d" for d
    using that unfolding f by (simp add: read_len_def file_data_def)
  have ne: "\<not> (is_empty_type (h_type buf) \<and> \<not> inc)"
    using assms(5) unfolding f by (auto simp: file_visible_def file_empty_def)
  have ft: "is_empty_type (h_type buf) = file_empty (cell m) (unat off)" unfolding f file_empty_def ..
  have s0: "\<not> (sint ((if dc \<noteq> None \<or> h_attributes_offset buf = 0 then ucast (h_offset buf)
      else ucast (h_attributes_offset buf)) - of_nat cbfs_file_size :: size_t) \<le> 0 \<or> h_offset buf < h_attributes_offset buf)"
    using r(1,6) by linarith
  note k = conjI [OF r(1,2)]
  have l: "\<not> length (bytes_at (cell m) (unat off + cbfs_file_size) (?r - cbfs_file_size)) \<noteq> ?r - cbfs_file_size" by simp
  note body = walk_file_def Let_def e(2) if_not_P [OF e(1)] if_not_P [OF ne] if_not_P [OF s0]
    c_assert_def r(3,4,5,7) option.case if_not_P [OF l] if_P [OF disjI1 [OF k]] bind_bind_Some [OF p]
  show ?thesis
  proof (cases walker)
    case None
    then show ?thesis unfolding body using d
      by (cases dc) (auto simp: visit_step_def ft intro!: Option.bind_cong split: option.split)
  next
    case (Some g)
    then show ?thesis unfolding body using d w [OF Some]
      by (cases dc) (auto simp: visit_step_def ft intro!: Option.bind_cong split: option.split)
  qed
qed

end

lemma align64_aligned: "64 dvd i \<Longrightarrow> align64 i = i"
  by (auto simp: align64_def)

lemma dvd_align64: "64 dvd align64 i"
  by (simp add: align64_def)

lemma align64_less: "align64 i < i + 64"
  unfolding align64_def by linarith

lemma unat_align64:
  assumes "unat off < 2 ^ 34"
  shows "unat (ALIGN_UP off CBFS_ALIGNMENT) = align64 (unat off)"
  using unat_ALIGN_UP [of 6 off] assms by (simp add: CBFS_ALIGNMENT_def align64_def)

lemma ALIGN_UP_aligned: "unat off < 2 ^ 34 \<Longrightarrow> 64 dvd unat off \<Longrightarrow> ALIGN_UP off CBFS_ALIGNMENT = off"
  by (rule word_eq_unatI) (simp add: unat_align64 align64_aligned)

text \<open>The next header is the same from an offset and from the multiple of 64 at or behind it.\<close>

lemma walk_loop_aligned:
  assumes "unat off < 2 ^ 33"
  shows "walk_loop env dev walker inc off buf dc rw s =
    walk_loop env dev walker inc (ALIGN_UP off CBFS_ALIGNMENT) buf dc rw s"
proof -
  have "unat (ALIGN_UP off CBFS_ALIGNMENT) = align64 (unat off)" using assms by (intro unat_align64) simp
  moreover from this have "unat (ALIGN_UP off CBFS_ALIGNMENT) < 2 ^ 34"
    using align64_less [of "unat off"] assms by simp
  ultimately have "ALIGN_UP (ALIGN_UP off CBFS_ALIGNMENT) CBFS_ALIGNMENT = ALIGN_UP off CBFS_ALIGNMENT"
    by (intro ALIGN_UP_aligned) (simp_all add: dvd_align64)
  then show ?thesis
    by (subst (1 2) walk_loop.simps) (simp add: read_next_header_def)
qed

text \<open>Every file leads to a later offset: its data offset and its length are not both 0.\<close>

definition files_advance :: "(nat \<Rightarrow> u8) \<Rightarrow> nat \<Rightarrow> nat \<Rightarrow> bool" where
  "files_advance c n i \<longleftrightarrow> (\<forall>j \<in> set (cbfs_headers c n i). 0 < file_data c j + file_length c j)"

context cbfs_media
begin

lemma walk_loop_end:
  assumes "ok m" "unat off < 2 ^ 33" "64 dvd unat off" "length buf = CBFS_METADATA_MAX_SIZE"
    "media_len m \<le> unat off + cbfs_file_size"
  shows "walk_loop env (dev m) walker inc off buf dc rw s = Some (Finished CB_CBFS_NOT_FOUND rw dc s)"
proof -
  from next_loop_step [OF assms(1,2,4)] assms(5)
  have "read_next_loop (dev m) off buf = Some (CB_CBFS_NOT_FOUND, off, buf)" by metis
  moreover have "ALIGN_UP off CBFS_ALIGNMENT = off" using assms(2,3) by (intro ALIGN_UP_aligned) simp_all
  ultimately show ?thesis by (subst walk_loop.simps) (simp add: read_next_header_def)
qed

lemma unat_next64:
  assumes "unat off < 2 ^ 33"
  shows "unat (off + CBFS_ALIGNMENT) = unat off + 64"
  using unat_add_small [OF assms, of 64] by (simp add: CBFS_ALIGNMENT_def)

lemma walk_loop_no_header:
  assumes "ok m" "64 dvd unat off" "length buf = CBFS_METADATA_MAX_SIZE"
    "unat off + cbfs_file_size < media_len m"
    "h_magic (file_header (cell m) (unat off)) \<noteq> CBFS_FILE_MAGIC"
  obtains buf' where "length buf' = CBFS_METADATA_MAX_SIZE"
    "walk_loop env (dev m) walker inc off buf dc rw s =
     walk_loop env (dev m) walker inc (off + CBFS_ALIGNMENT) buf' dc rw s"
proof -
  have o: "unat off < 2 ^ 32" using assms(4) media_size [OF assms(1)] by simp
  then have o33: "unat off < 2 ^ 33" by simp
  from next_loop_step [OF assms(1) o33 assms(3)] obtain buf' where
    b: "header_buf (cell m) (unat off) buf'"
      "read_next_loop (dev m) off buf = read_next_loop (dev m) (off + CBFS_ALIGNMENT) buf'"
    using assms(4,5) by (metis not_less)
  have a: "ALIGN_UP off CBFS_ALIGNMENT = off" "ALIGN_UP (off + CBFS_ALIGNMENT) CBFS_ALIGNMENT = off + CBFS_ALIGNMENT"
    using o assms(2) unat_next64 [OF o33] by (auto intro!: ALIGN_UP_aligned)
  show thesis
  proof (rule that)
    show "length buf' = CBFS_METADATA_MAX_SIZE" using b(1) by (simp add: header_buf_def)
    show "walk_loop env (dev m) walker inc off buf dc rw s =
      walk_loop env (dev m) walker inc (off + CBFS_ALIGNMENT) buf' dc rw s"
      by (subst (1 2) walk_loop.simps) (simp add: read_next_header_def a b(2))
  qed
qed

lemma walk_loop_header:
  assumes "ok m" "64 dvd unat off" "length buf = CBFS_METADATA_MAX_SIZE"
    "unat off + cbfs_file_size < media_len m"
    "h_magic (file_header (cell m) (unat off)) = CBFS_FILE_MAGIC"
  obtains buf' where "header_buf (cell m) (unat off) buf'"
    "walk_loop env (dev m) walker inc off buf dc rw s =
     Option.bind (walk_file env (dev m) walker inc off buf' dc rw s) (\<lambda>r. case r of
         Leave e s \<Rightarrow> Some (Returned e s)
       | Again off buf dc rw s \<Rightarrow> walk_loop env (dev m) walker inc off buf dc rw s)"
proof -
  have o: "unat off < 2 ^ 32" using assms(4) media_size [OF assms(1)] by simp
  then have o33: "unat off < 2 ^ 33" by simp
  from next_loop_step [OF assms(1) o33 assms(3)] obtain buf' where
    b: "header_buf (cell m) (unat off) buf'"
      "read_next_loop (dev m) off buf = Some (CB_SUCCESS, off, buf')"
    using assms(4,5) by (metis not_less)
  have a: "ALIGN_UP off CBFS_ALIGNMENT = off" using o assms(2) by (intro ALIGN_UP_aligned) simp_all
  show thesis
    by (rule that [OF b(1)]) (subst walk_loop.simps, simp add: read_next_header_def a b(2))
qed

end

context cbfs_media
begin

text \<open>One iteration at an aligned offset, with the kind of header found there.\<close>

lemma walk_loop_step:
  assumes "ok m" "walker_ok walker" "64 dvd unat off" "length buf = CBFS_METADATA_MAX_SIZE"
    "unat off + cbfs_file_size < media_len m"
  defines "i \<equiv> unat off"
  defines "next_off \<equiv> off + of_nat (file_data (cell m) i + file_length (cell m) i)"
  obtains b where "length b = CBFS_METADATA_MAX_SIZE"
    "walk_loop env (dev m) walker inc off buf dc rw s =
      (if \<not> file_at (cell m) (media_len m) i then walk_loop env (dev m) walker inc (off + CBFS_ALIGNMENT) b dc rw s
       else if \<not> file_visible (dc \<noteq> None) inc (cell m) i then walk_loop env (dev m) walker inc next_off b dc rw s
       else visit_step env walker (cell m) i dc rw s (walk_loop env (dev m) walker inc next_off b) Returned)"
proof (cases "h_magic (file_header (cell m) i) = CBFS_FILE_MAGIC")
  case False
  obtain b where b: "length b = CBFS_METADATA_MAX_SIZE"
    "walk_loop env (dev m) walker inc off buf dc rw s =
     walk_loop env (dev m) walker inc (off + CBFS_ALIGNMENT) b dc rw s"
    by (rule walk_loop_no_header [OF assms(1,3,4,5) False [unfolded i_def]])
  have "\<not> file_at (cell m) (media_len m) i" using False by (simp add: file_at_def)
  then show thesis by (intro that [OF b(1)]) (simp add: b(2))
next
  case magic: True
  obtain b where b: "header_buf (cell m) i b"
    "walk_loop env (dev m) walker inc off buf dc rw s =
       Option.bind (walk_file env (dev m) walker inc off b dc rw s) (\<lambda>r. case r of
           Leave e s \<Rightarrow> Some (Returned e s)
         | Again off buf dc rw s \<Rightarrow> walk_loop env (dev m) walker inc off buf dc rw s)"
    unfolding i_def by (rule walk_loop_header [OF assms(1,3,4,5) magic [unfolded i_def]])
  have lb: "length b = CBFS_METADATA_MAX_SIZE" using b(1) by (simp add: header_buf_def)
  show thesis
  proof (cases "file_at (cell m) (media_len m) i")
    case False
    then have "walk_file env (dev m) walker inc off b dc rw s = Some (Again (off + CBFS_ALIGNMENT) b dc rw s)"
      using magic assms(5) b(1) unfolding i_def by (intro walk_file_large [OF assms(1)]) (auto simp: file_at_def)
    then show ?thesis using b(2) False by (intro that [OF lb]) simp
  next
    case fits: True
    show ?thesis
    proof (cases "file_visible (dc \<noteq> None) inc (cell m) i")
      case False
      note v = walk_file_skip [OF assms(1,5) b(1) [unfolded i_def] fits [unfolded i_def] False [unfolded i_def],
        folded i_def, folded next_off_def]
      have "walk_loop env (dev m) walker inc off buf dc rw s = walk_loop env (dev m) walker inc next_off b dc rw s"
        unfolding b(2) v by simp
      then show ?thesis using fits False by (intro that [OF lb]) simp
    next
      case True
      let ?b = "seen (dc \<noteq> None) (cell m) i @ drop (read_len (dc \<noteq> None) (cell m) i) b"
      note v = walk_file_visit [OF assms(1,5) b(1) [unfolded i_def] fits [unfolded i_def] True [unfolded i_def] assms(2),
        folded i_def, folded next_off_def]
      have lb': "length ?b = CBFS_METADATA_MAX_SIZE"
        using lb read_len_le [OF True] fits by (simp add: file_at_def)
      have "walk_loop env (dev m) walker inc off buf dc rw s =
          visit_step env walker (cell m) i dc rw s (walk_loop env (dev m) walker inc next_off ?b) Returned"
        unfolding b(2) v by (rule visit_step_bind) simp_all
      then show ?thesis using fits True by (intro that [OF lb']) simp
    qed
  qed
qed

text \<open>Where the loop goes on after a file that advances.\<close>

lemma walk_loop_next:
  assumes "ok m" "unat off + cbfs_file_size < media_len m" "file_at (cell m) (media_len m) (unat off)"
  defines "d \<equiv> file_data (cell m) (unat off) + file_length (cell m) (unat off)"
  assumes "0 < d"
  obtains o' where "unat o' = align64 (unat off + d)" "unat o' < 2 ^ 33" "64 dvd unat o'" "unat off < unat o'"
    "cbfs_headers (cell m) (media_len m) (unat off) = unat off # cbfs_headers (cell m) (media_len m) (unat o')"
    "\<And>env walker inc b dc rw s. walk_loop env (dev m) walker inc (off + of_nat d) b dc rw s =
      walk_loop env (dev m) walker inc o' b dc rw s"
proof -
  let ?o = "ALIGN_UP (off + of_nat d) CBFS_ALIGNMENT"
  have "unat off + d \<le> media_len m" using assms(3) by (simp add: file_at_def d_def)
  then have small: "unat off + d < 2 ^ 32" using media_size [OF assms(1)] by linarith
  then have u: "unat (off + of_nat d) = unat off + d" by (intro unat_add_small) simp_all
  have uo: "unat ?o = align64 (unat off + d)" using small u by (subst unat_align64) simp_all
  have h: "cbfs_headers (cell m) (media_len m) (unat off) =
      unat off # cbfs_headers (cell m) (media_len m) (align64 (unat off + max 1 d))"
    using assms(2,3) by (subst cbfs_headers.simps) (simp add: d_def)
  have m: "max 1 d = d" using \<open>0 < d\<close> by simp
  show thesis
  proof (rule that [OF uo])
    show "unat ?o < 2 ^ 33" using align64_less [of "unat off + d"] small unfolding uo by simp
    show "unat off < unat ?o" using align64_ge [of "unat off + d"] \<open>0 < d\<close> unfolding uo by linarith
    show "cbfs_headers (cell m) (media_len m) (unat off) = unat off # cbfs_headers (cell m) (media_len m) (unat ?o)"
      using h unfolding m uo .
    show "walk_loop env (dev m) walker inc (off + of_nat d) b dc rw s = walk_loop env (dev m) walker inc ?o b dc rw s"
      for env :: "'e cbfs_env" and walker inc b dc rw and s :: 's
      using small u by (intro walk_loop_aligned) simp
  qed (simp only: uo dvd_align64)
qed

lemma walk_loop_refines:
  assumes "ok m" "walker_ok walker"
  shows "files_advance (cell m) (media_len m) (unat off) \<Longrightarrow> unat off < 2 ^ 33 \<Longrightarrow> 64 dvd unat off \<Longrightarrow>
    length buf = CBFS_METADATA_MAX_SIZE \<Longrightarrow>
    walk_loop env (dev m) walker inc off buf dc rw s =
    walk_list env walker inc (cell m) (cbfs_headers (cell m) (media_len m) (unat off)) dc rw s"
proof (induction "media_len m - unat off" arbitrary: off buf dc rw s rule: less_induct)
  case less
  let ?c = "cell m" and ?n = "media_len m" and ?i = "unat off"
  show ?case
  proof (cases "?n \<le> ?i + cbfs_file_size")
    case True
    with less.prems show ?thesis
      by (subst cbfs_headers.simps) (simp add: walk_loop_end [OF assms(1)])
  next
    case False
    then have i: "?i + cbfs_file_size < ?n" by simp
    have o: "?i < 2 ^ 32" using i media_size [OF assms(1)] by simp
    obtain b where b: "length b = CBFS_METADATA_MAX_SIZE"
      "walk_loop env (dev m) walker inc off buf dc rw s =
      (if \<not> file_at ?c ?n ?i then walk_loop env (dev m) walker inc (off + CBFS_ALIGNMENT) b dc rw s
       else if \<not> file_visible (dc \<noteq> None) inc ?c ?i
       then walk_loop env (dev m) walker inc (off + of_nat (file_data ?c ?i + file_length ?c ?i)) b dc rw s
       else visit_step env walker ?c ?i dc rw s
         (walk_loop env (dev m) walker inc (off + of_nat (file_data ?c ?i + file_length ?c ?i)) b) Returned)"
      by (rule walk_loop_step [OF assms less.prems(3,4) i])
    show ?thesis
    proof (cases "file_at ?c ?n ?i")
      case False
      have u: "unat (off + CBFS_ALIGNMENT) = ?i + 64" using o by (intro unat_next64) simp
      have h: "cbfs_headers ?c ?n ?i = cbfs_headers ?c ?n (?i + 64)"
        using i False by (subst cbfs_headers.simps) simp
      show ?thesis
        using less.hyps [of "off + CBFS_ALIGNMENT" b dc rw s] less.prems(1,3) i o b False
        unfolding u h files_advance_def by (auto simp: dvd_add)
    next
      case True
      have "?i \<in> set (cbfs_headers ?c ?n ?i)" using i True by (subst cbfs_headers.simps) simp
      note d = less.prems(1) [unfolded files_advance_def, rule_format, OF this]
      obtain o' where o': "unat o' < 2 ^ 33" "64 dvd unat o'" "?i < unat o'"
        "cbfs_headers ?c ?n ?i = ?i # cbfs_headers ?c ?n (unat o')"
        "\<And>b dc rw s. walk_loop env (dev m) walker inc (off + of_nat (file_data ?c ?i + file_length ?c ?i)) b dc rw s =
          walk_loop env (dev m) walker inc o' b dc rw s"
        using walk_loop_next [OF assms(1) i True d] by metis
      have "files_advance ?c ?n (unat o')" using less.prems(1) by (simp add: files_advance_def o'(4))
      note less.hyps [OF _ this o'(1,2) b(1)]
      then have "walk_loop env (dev m) walker inc (off + of_nat (file_data ?c ?i + file_length ?c ?i)) b =
          walk_list env walker inc ?c (cbfs_headers ?c ?n (unat o'))"
        using o'(3) i by (intro ext) (simp add: o'(5) diff_less_mono2 del: of_nat_add)
      then show ?thesis unfolding b(2) o'(4) walk_list_Cons using True by simp
    qed
  qed
qed

end

subsection \<open>When the walk ends\<close>

context cbfs_media
begin

text \<open>A header with data offset 0 and length 0 is skipped onto itself.\<close>

lemma walk_loop_stuck:
  fixes env :: "'c cbfs_env" and s :: 's
  assumes "ok m" "64 dvd unat off" "unat off + cbfs_file_size < media_len m"
    "file_at (cell m) (media_len m) (unat off)"
    "file_data (cell m) (unat off) + file_length (cell m) (unat off) = 0"
    "length buf = CBFS_METADATA_MAX_SIZE"
  shows "walk_loop env (dev m) walker inc off buf dc rw s = None"
proof -
  have o: "unat off < 2 ^ 33" using assms(3) media_size [OF assms(1)] by simp
  have a: "ALIGN_UP off CBFS_ALIGNMENT = off" using o assms(2) by (intro ALIGN_UP_aligned) simp_all
  have magic: "h_magic (file_header (cell m) (unat off)) = CBFS_FILE_MAGIC" using assms(4) by (simp add: file_at_def)
  have step: "\<exists>b. read_next_header (dev m) off x = Some (CB_SUCCESS, off, b) \<and>
      length b = CBFS_METADATA_MAX_SIZE \<and>
      walk_file env (dev m) walker inc off b dc rw s = Some (Again off b dc rw s)"
    if "length x = CBFS_METADATA_MAX_SIZE" for x
  proof -
    from next_loop_step [OF assms(1) o that] obtain b where
      b: "header_buf (cell m) (unat off) b" "read_next_loop (dev m) off x = Some (CB_SUCCESS, off, b)"
      using assms(3) magic by (metis not_less)
    have v: "\<not> file_visible (dc \<noteq> None) inc (cell m) (unat off)"
      using assms(5) by (auto simp: file_visible_def read_len_def)
    have "walk_file env (dev m) walker inc off b dc rw s = Some (Again off b dc rw s)"
      using walk_file_skip [OF assms(1,3) b(1) assms(4) v, of env walker rw s] unfolding assms(5) by simp
    moreover have "length b = CBFS_METADATA_MAX_SIZE" using b(1) by (simp add: header_buf_def)
    ultimately show ?thesis using b(2) by (simp add: read_next_header_def a)
  qed
  let ?P = "\<lambda>e d w i o' x c r t (y :: ('c, 's) walk_end).
      (e, d, w, i, o', c, r, t) = (env, dev m, walker, inc, off, dc, rw, s) \<longrightarrow> length x \<noteq> CBFS_METADATA_MAX_SIZE"
  have never: "?P env (dev m) walker inc off x dc rw s y" if "walk_loop env (dev m) walker inc off x dc rw s = Some y" for x y
  proof (rule walk_loop.raw_induct [where P = ?P, OF _ that])
    fix f :: "'c cbfs_env \<Rightarrow> cbfs_dev \<Rightarrow> 's walker option \<Rightarrow> bool \<Rightarrow> size_t \<Rightarrow> u8 list \<Rightarrow> 'c option \<Rightarrow>
        cb_err \<Rightarrow> 's \<Rightarrow> ('c, 's) walk_end option" and e d w i o' x c r t y
    assume ih: "\<And>e d w i o' x c r t y. f e d w i o' x c r t = Some y \<Longrightarrow> ?P e d w i o' x c r t y"
      and eq: "Option.bind (read_next_header d o' x) (\<lambda>(ret_header, offset, mdata).
        if ret_header \<noteq> CB_SUCCESS then Some (Finished ret_header r c t)
        else Option.bind (walk_file e d w i offset mdata c r t) (case_walk_step (\<lambda>e s. Some (Returned e s)) (f e d w i))) = Some y"
    show "?P e d w i o' x c r t y"
    proof (intro impI notI)
      assume a: "(e, d, w, i, o', c, r, t) = (env, dev m, walker, inc, off, dc, rw, s)"
        "length x = CBFS_METADATA_MAX_SIZE"
      from step [OF a(2)] obtain b where b: "read_next_header (dev m) off x = Some (CB_SUCCESS, off, b)"
        "length b = CBFS_METADATA_MAX_SIZE" "walk_file env (dev m) walker inc off b dc rw s = Some (Again off b dc rw s)"
        by blast
      from eq a b have "f env (dev m) walker inc off b dc rw s = Some y" by simp
      from ih [OF this] b(2) show False by simp
    qed
  qed
  show ?thesis
  proof (cases "walk_loop env (dev m) walker inc off buf dc rw s")
    case (Some y)
    from never [OF this] assms(6) show ?thesis by simp
  qed
qed

end

text \<open>The files a walk looks at, the calls of the walker on them, and the digest over their metadata.\<close>

definition walk_files :: "bool \<Rightarrow> bool \<Rightarrow> (nat \<Rightarrow> u8) \<Rightarrow> nat \<Rightarrow> nat list" where
  "walk_files hashed inc c n = filter (file_visible hashed inc c) (cbfs_headers c n 0)"

fun visit_files :: "bool \<Rightarrow> 's walker \<Rightarrow> (nat \<Rightarrow> u8) \<Rightarrow> nat list \<Rightarrow> 's \<Rightarrow> (cb_err \<times> 's) option" where
  "visit_files hashed f c [] s = Some (CB_CBFS_NOT_FOUND, s)"
| "visit_files hashed f c (i # is) s =
     Option.bind (f (of_nat i) (seen hashed c i) (of_nat (read_len hashed c i)) s)
       (\<lambda>(e, s). if e \<noteq> CB_CBFS_NOT_FOUND then Some (e, s) else visit_files hashed f c is s)"

fun extend_files :: "'c cbfs_env \<Rightarrow> (nat \<Rightarrow> u8) \<Rightarrow> nat list \<Rightarrow> 'c \<Rightarrow> 'c option" where
  "extend_files env c [] d = Some d"
| "extend_files env c (i # is) d =
     (if file_empty c i then extend_files env c is d
      else Option.bind (vb2_digest_extend env d (seen True c i)) (extend_files env c is))"

definition metadata_digest :: "'c cbfs_env \<Rightarrow> nat \<Rightarrow> (nat \<Rightarrow> u8) \<Rightarrow> nat list \<Rightarrow> u8 list option" where
  "metadata_digest env algo c is =
     Option.bind (vb2_digest_init env algo) (\<lambda>d.
     Option.bind (extend_files env c is d) (\<lambda>d. vb2_digest_finalize env d (vb2_digest_size env algo)))"

lemma walk_list_plain:
  "walk_list env (Some f) inc c is None CB_CBFS_NOT_FOUND s =
   map_option (\<lambda>(e, s). if e = CB_CBFS_NOT_FOUND then Finished CB_CBFS_NOT_FOUND e None s else Returned e s)
     (visit_files False f c (filter (file_visible False inc c) is) s)"
  by (induction "is" arbitrary: s) (auto split: bind_splits prod.split)

lemma walk_list_no_walker: "walk_list env None inc c is None CB_CBFS_NOT_FOUND s =
    Some (Finished CB_CBFS_NOT_FOUND CB_CBFS_NOT_FOUND None s)"
  by (induction "is" arbitrary: s) auto

text \<open>Once the walker has answered, the rest of a hashed walk only extends the digest.\<close>

lemma walk_list_answered:
  "rw \<noteq> CB_CBFS_NOT_FOUND \<and> rw \<noteq> CB_CBFS_IO \<or> rw = CB_CBFS_NOT_FOUND \<and> walker = None \<Longrightarrow>
   walk_list env walker inc c is (Some d) rw s =
     Some (case extend_files env c (filter (file_visible True inc c) is) d of
             None \<Rightarrow> Returned CB_ERR s
           | Some d \<Rightarrow> Finished CB_CBFS_NOT_FOUND rw (Some d) s)"
  by (induction "is" arbitrary: d) (auto split: option.split)

lemma walk_list_hashed:
  "extend_files env c (filter (file_visible True inc c) is) d = Some d' \<Longrightarrow>
   walk_list env (Some f) inc c is (Some d) CB_CBFS_NOT_FOUND s =
   map_option (\<lambda>(e, s). if e = CB_CBFS_IO then Returned e s else Finished CB_CBFS_NOT_FOUND e (Some d') s)
     (visit_files True f c (filter (file_visible True inc c) is) s)"
proof (induction "is" arbitrary: d s)
  case (Cons i "is")
  show ?case
  proof (cases "file_visible True inc c i")
    case True
    then obtain e where e: "extend_files env c (filter (file_visible True inc c) is) e = Some d'"
      "(if file_empty c i then Some (Some d)
        else map_option Some (vb2_digest_extend env d (seen True c i))) = Some (Some e)"
      using Cons.prems by (auto split: if_splits bind_splits)
    note ih = Cons.IH [OF e(1)]
    show ?thesis
      using True e(1) by (auto simp: e(2) ih walk_list_answered split: bind_splits prod.split)
  qed (use Cons in auto)
qed simp

text \<open>A hashed walk that reaches its end has digested every file; before that it returns an error.\<close>

lemma walk_list_hashed_ends:
  assumes "walk_list env walker inc c is (Some d) rw s = Some r"
  shows "(\<exists>rw' d' s'. r = Finished CB_CBFS_NOT_FOUND rw' (Some d') s' \<and>
      extend_files env c (filter (file_visible True inc c) is) d = Some d') \<or>
    (\<exists>e s'. r = Returned e s' \<and> (e = CB_CBFS_IO \<or> e = CB_ERR))"
  using assms
proof (induction "is" arbitrary: d rw s)
  case (Cons i "is")
  then show ?case
    by (auto split: if_splits bind_splits option.splits)
qed auto

context cbfs_media
begin

lemma walk_loop_unhashed_stuck:
  fixes env :: "'c cbfs_env"
  assumes "ok m"
  shows "\<not> files_advance (cell m) (media_len m) (unat off) \<Longrightarrow> unat off < 2 ^ 33 \<Longrightarrow> 64 dvd unat off \<Longrightarrow>
    length buf = CBFS_METADATA_MAX_SIZE \<Longrightarrow>
    walk_loop env (dev m) None inc off buf None CB_CBFS_NOT_FOUND s = None"
proof (induction "media_len m - unat off" arbitrary: off buf rule: less_induct)
  case less
  let ?c = "cell m" and ?n = "media_len m" and ?i = "unat off"
  have i: "?i + cbfs_file_size < ?n"
  proof (rule ccontr)
    assume "\<not> ?thesis"
    then have "cbfs_headers ?c ?n ?i = []" by (subst cbfs_headers.simps) simp
    with less.prems(1) show False by (simp add: files_advance_def)
  qed
  then have o: "?i < 2 ^ 32" using media_size [OF assms(1)] by simp
  let ?d = "file_data ?c ?i + file_length ?c ?i"
  obtain b where b: "length b = CBFS_METADATA_MAX_SIZE"
      "walk_loop env (dev m) None inc off buf None CB_CBFS_NOT_FOUND s =
      (if \<not> file_at ?c ?n ?i then walk_loop env (dev m) None inc (off + CBFS_ALIGNMENT) b None CB_CBFS_NOT_FOUND s
       else if \<not> file_visible ((None :: 'c option) \<noteq> None) inc ?c ?i
       then walk_loop env (dev m) None inc (off + of_nat ?d) b None CB_CBFS_NOT_FOUND s
       else visit_step env None ?c ?i None CB_CBFS_NOT_FOUND s
         (walk_loop env (dev m) None inc (off + of_nat ?d) b) Returned)"
    by (rule walk_loop_step [OF assms walker_ok_None less.prems(3,4) i])
  show ?case
  proof (cases "file_at ?c ?n ?i")
    case False
    have u: "unat (off + CBFS_ALIGNMENT) = ?i + 64" using o by (intro unat_next64) simp
    have h: "cbfs_headers ?c ?n ?i = cbfs_headers ?c ?n (?i + 64)"
      using i False by (subst cbfs_headers.simps) simp
    have "walk_loop env (dev m) None inc (off + CBFS_ALIGNMENT) b None CB_CBFS_NOT_FOUND s = None"
      using less.hyps [of "off + CBFS_ALIGNMENT" b] less.prems(1,3) i o b(1)
      unfolding u h files_advance_def by (auto simp: dvd_add)
    then show ?thesis using False b(2) by simp
  next
    case True
    show ?thesis
    proof (cases "?d = 0")
      case d: True
      show ?thesis by (rule walk_loop_stuck [OF assms less.prems(3) i True d less.prems(4)])
    next
      case False
      then have d: "0 < ?d" by simp
      obtain o' where o': "unat o' < 2 ^ 33" "64 dvd unat o'" "?i < unat o'"
        "cbfs_headers ?c ?n ?i = ?i # cbfs_headers ?c ?n (unat o')"
        "walk_loop env (dev m) None inc (off + of_nat ?d) b None CB_CBFS_NOT_FOUND s =
          walk_loop env (dev m) None inc o' b None CB_CBFS_NOT_FOUND s"
        using walk_loop_next [OF assms(1) i True d] by metis
      have "\<not> files_advance ?c ?n (unat o')" using less.prems(1) d by (auto simp: files_advance_def o'(4))
      note less.hyps [OF _ this o'(1,2) b(1)]
      then have "walk_loop env (dev m) None inc (off + of_nat ?d) b None CB_CBFS_NOT_FOUND s = None"
        using o'(3) i by (simp add: o'(5) diff_less_mono2 del: of_nat_add)
      then show ?thesis unfolding b(2) using True by (simp add: visit_step_def)
    qed
  qed
qed

end

subsection \<open>The whole walk\<close>

context cbfs_media
begin

lemma walk_from_start:
  assumes "ok m" "walker_ok walker" "files_advance (cell m) (media_len m) 0"
    "length stack = CBFS_METADATA_MAX_SIZE"
  shows "walk_loop env (dev m) walker inc 0 stack dc rw s =
    walk_list env walker inc (cell m) (cbfs_headers (cell m) (media_len m) 0) dc rw s"
  using walk_loop_refines [OF assms(1,2), of 0 stack] assms(3,4) by simp

lemma walk_without_hash:
  assumes "ok m" "cbfs_walker f" "files_advance (cell m) (media_len m) 0"
    "length stack = CBFS_METADATA_MAX_SIZE"
  shows "cbfs_walk env (dev m) stack (Some f) s None False inc =
    map_option (\<lambda>(e, s). (e, s, None))
      (visit_files False f (cell m) (walk_files False inc (cell m) (media_len m)) s)"
  using assms
  by (cases "visit_files False f (cell m) (walk_files False inc (cell m) (media_len m)) s")
    (auto simp: cbfs_walk_def walk_from_start walk_list_plain walk_files_def)

lemma walk_without_walker:
  assumes "ok m" "length stack = CBFS_METADATA_MAX_SIZE"
  shows "cbfs_walk env (dev m) stack None s None False inc =
    (if files_advance (cell m) (media_len m) 0 then Some (CB_CBFS_NOT_FOUND, s, None) else None)"
  using assms walk_loop_unhashed_stuck [OF assms(1), of 0 stack env inc s]
  by (simp add: cbfs_walk_def walk_from_start walk_list_no_walker)

lemma walk_with_hash:
  assumes "ok m" "cbfs_walker f" "files_advance (cell m) (media_len m) 0"
    "length stack = CBFS_METADATA_MAX_SIZE" "CBFS_ENABLE_HASHING env"
    "metadata_digest env (hash_algo mh) (cell m) (walk_files True inc (cell m) (media_len m)) = Some real"
  shows "cbfs_walk env (dev m) stack (Some f) s (Some mh) False inc =
    map_option (\<lambda>(e, s).
        (if e = CB_CBFS_IO then CB_CBFS_IO
         else if take (vb2_digest_size env (hash_algo mh)) (hash_raw mh) \<noteq> real then CB_CBFS_HASH_MISMATCH
         else e, s, Some mh))
      (visit_files True f (cell m) (walk_files True inc (cell m) (media_len m)) s)"
proof -
  from assms(6) obtain d d' where d: "vb2_digest_init env (hash_algo mh) = Some d"
    "extend_files env (cell m) (walk_files True inc (cell m) (media_len m)) d = Some d'"
    "vb2_digest_finalize env d' (vb2_digest_size env (hash_algo mh)) = Some real"
    by (auto simp: metadata_digest_def split: bind_splits)
  note w = walk_from_start [OF assms(1) _ assms(3,4), of "Some f" env inc "Some d" CB_CBFS_NOT_FOUND s]
  show ?thesis
    using assms(2,5) d walk_list_hashed [of env "cell m" inc "cbfs_headers (cell m) (media_len m) 0" d d' f s]
    by (cases "visit_files True f (cell m) (walk_files True inc (cell m) (media_len m)) s")
      (auto simp: cbfs_walk_def w walk_files_def)
qed

text \<open>A success of a hashed walk vouches for the metadata of every file, whatever the walker did.\<close>

lemma walk_success_verified:
  assumes "ok m" "walker_ok walker" "files_advance (cell m) (media_len m) 0"
    "length stack = CBFS_METADATA_MAX_SIZE" "CBFS_ENABLE_HASHING env"
    "cbfs_walk env (dev m) stack walker s (Some mh) False inc = Some (e, s', mh')"
    "e \<noteq> CB_CBFS_IO" "e \<noteq> CB_ERR" "e \<noteq> CB_ERR_ARG" "e \<noteq> CB_CBFS_HASH_MISMATCH"
  shows "metadata_digest env (hash_algo mh) (cell m) (walk_files True inc (cell m) (media_len m)) =
    Some (take (vb2_digest_size env (hash_algo mh)) (hash_raw mh))"
proof -
  from assms(5-10) obtain d where d: "vb2_digest_init env (hash_algo mh) = Some d"
    by (auto simp: cbfs_walk_def split: option.splits)
  have w: "walk_loop env (dev m) walker inc 0 stack (Some d) CB_CBFS_NOT_FOUND s =
    walk_list env walker inc (cell m) (cbfs_headers (cell m) (media_len m) 0) (Some d) CB_CBFS_NOT_FOUND s"
    by (rule walk_from_start [OF assms(1-4)])
  from assms(5-10) d obtain r where
    r: "walk_list env walker inc (cell m) (cbfs_headers (cell m) (media_len m) 0) (Some d) CB_CBFS_NOT_FOUND s = Some r"
    by (auto simp: cbfs_walk_def w split: bind_splits)
  from walk_list_hashed_ends [OF r] show ?thesis
    using assms(5-10) d
    by (auto simp: cbfs_walk_def w r metadata_digest_def walk_files_def Let_def split: option.splits if_splits)
qed

end

text \<open>Every device on a \<open>storage\<close> root is such a medium, when it is smaller than 4 GiB.\<close>

sublocale storage \<subseteq> cbfs: cbfs_media "\<lambda>(w, rd). cbfs_rdev drv w rd" "\<lambda>(w, rd). dev_byte w rd"
  "\<lambda>(w, rd). ok w \<and> on_store rd \<and> unat (reg_size (rdev_region rd)) < 2 ^ 32"
proof (unfold_locales, goal_cases)
  case (1 m k off)
  obtain w rd where [simp]: "m = (w, rd)" by (cases m)
  show ?case
    using 1 read_bytes [of w rd off k]
    by (simp add: cbfs_rdev_def region_device_sz_def in_region_def dev_bytes_def bytes_at_def)
next
  case (2 m)
  then show ?case by (cases m) (simp add: cbfs_rdev_def region_device_sz_def)
qed

subsection \<open>Lookup by name\<close>

text \<open>
  The name of a file is its NUL-terminated string behind the header; its metadata is what the medium
  has up to the data, with the byte at \<open>nul_index\<close> cleared as the walk does.
\<close>

definition file_name :: "bool \<Rightarrow> (nat \<Rightarrow> u8) \<Rightarrow> nat \<Rightarrow> u8 list" where
  "file_name hashed c i = takeWhile (\<lambda>b. b \<noteq> 0) (drop cbfs_file_size (seen hashed c i))"

definition full_mdata :: "(nat \<Rightarrow> u8) \<Rightarrow> nat \<Rightarrow> u8 list" where
  "full_mdata c i = (bytes_at c i (file_data c i))[nul_index c i := 0]"

definition lookup_result :: "(nat \<Rightarrow> u8) \<Rightarrow> nat \<Rightarrow> lookup_out \<Rightarrow> lookup_out" where
  "lookup_result c i out =
     out\<lparr>mdata_out := full_mdata c i @ drop (file_data c i) (mdata_out out),
         data_offset_out := of_nat (i + file_data c i)\<rparr>"

text \<open>The attributes of a file do not start inside its header.\<close>

definition attrs_behind_header :: "(nat \<Rightarrow> u8) \<Rightarrow> nat \<Rightarrow> bool" where
  "attrs_behind_header c i \<longleftrightarrow> file_attr c i = 0 \<or> cbfs_file_size < file_attr c i"

lemma takeWhile_prefix_iff:
  assumes "0 \<notin> set name"
  shows "take (length name + 1) xs = name @ [0 :: u8] \<longleftrightarrow>
    takeWhile (\<lambda>b. b \<noteq> 0) xs = name \<and> length name < length xs"
  using assms
proof (induction name arbitrary: xs)
  case Nil
  show ?case by (cases xs) auto
next
  case (Cons a name)
  then show ?case by (cases xs) auto
qed

lemma nul_index_behind:
  "file_visible hashed inc c i \<Longrightarrow> attrs_behind_header c i \<or> \<not> hashed \<Longrightarrow> cbfs_file_size \<le> nul_index c i"
  by (auto simp: file_visible_def read_len_def nul_index_def attrs_behind_header_def split: if_splits)

lemma seen_header:
  assumes "file_visible hashed inc c i" "attrs_behind_header c i \<or> \<not> hashed"
  shows "take cbfs_file_size (seen hashed c i) = file_header c i"
  using assms nul_index_behind [OF assms]
  by (simp add: seen_def take_update_cancel take_bytes_at file_header_def file_visible_def)

lemma seen_offset:
  assumes "file_visible hashed inc c i" "attrs_behind_header c i \<or> \<not> hashed"
  shows "h_offset (seen hashed c i) = h_offset (file_header c i)"
  by (rule header_cong) (simp add: seen_header [OF assms])

lemma seen_has_nul:
  assumes "file_visible hashed inc c i" "attrs_behind_header c i \<or> \<not> hashed"
  shows "0 \<in> set (drop cbfs_file_size (seen hashed c i))"
proof -
  have "seen hashed c i ! nul_index c i = 0"
    using nul_index_less [OF assms(1)] by (simp add: seen_def)
  then have "drop cbfs_file_size (seen hashed c i) ! (nul_index c i - cbfs_file_size) = 0"
    using nul_index_behind [OF assms] nul_index_less [OF assms(1)] by simp
  then show ?thesis
    using nul_index_behind [OF assms] nul_index_less [OF assms(1)] by (metis in_set_conv_nth diff_less_mono length_drop length_seen)
qed

lemma takeWhile_shorter: "x \<in> set xs \<Longrightarrow> \<not> P x \<Longrightarrow> length (takeWhile P xs) < length xs"
  by (induction xs) auto

lemma name_matches:
  assumes "0 \<notin> set name" "file_visible hashed inc c i" "attrs_behind_header c i \<or> \<not> hashed"
  shows "length name + 1 \<le> read_len hashed c i - cbfs_file_size \<and>
      take (length name + 1) (drop cbfs_file_size (seen hashed c i)) = name @ [0] \<longleftrightarrow>
    file_name hashed c i = name"
proof -
  have "file_name hashed c i = name \<Longrightarrow> length name < read_len hashed c i - cbfs_file_size"
    using takeWhile_shorter [OF seen_has_nul [OF assms(2,3)], of "\<lambda>b. b \<noteq> 0"] by (auto simp: file_name_def)
  then show ?thesis using takeWhile_prefix_iff [OF assms(1), of "drop cbfs_file_size (seen hashed c i)"]
    by (auto simp: file_name_def)
qed

lemma full_mdata_split:
  assumes "file_visible hashed inc c i"
  shows "full_mdata c i = seen hashed c i @
    bytes_at c (i + read_len hashed c i) (file_data c i - read_len hashed c i)"
  using read_len_le [OF assms] nul_index_less [OF assms]
    bytes_at_append [of c i "read_len hashed c i" "file_data c i - read_len hashed c i"]
  by (simp add: full_mdata_def seen_def list_update_append1 [symmetric])

lemma length_full_mdata [simp]: "length (full_mdata c i) = file_data c i"
  by (simp add: full_mdata_def)

lemma put_at_Some: "j + length bs \<le> length buf \<Longrightarrow> put_at buf j bs = Some (take j buf @ bs @ drop (j + length bs) buf)"
  by (simp add: put_at_def)

lemma put_put:
  assumes "j + length a + length b \<le> length buf"
  shows "Option.bind (put_at buf j a) (\<lambda>x. put_at x (j + length a) b) = put_at buf j (a @ b)"
  using assms by (simp add: put_at_def algebra_simps)

context cbfs_media
begin

lemma copy_fill:
  assumes "ok m" "file_at (cell m) (media_len m) i" "file_visible hashed inc (cell m) i"
    "attrs_behind_header (cell m) i \<or> \<not> hashed" "at + file_data (cell m) i \<le> length dst"
  shows "cbfs_copy_fill_metadata fatal dst at (seen hashed (cell m) i) (of_nat (read_len hashed (cell m) i))
      (dev m) (of_nat i) = map_option (Pair CB_SUCCESS) (put_at dst at (full_mdata (cell m) i))"
proof -
  let ?c = "cell m" let ?r = "read_len hashed (cell m) i" and ?d = "file_data (cell m) i"
  have r: "?r \<le> ?d" "?d \<le> 256" "i + ?d \<le> media_len m" "media_len m < 2 ^ 32"
    using read_len_le [OF assms(3)] assms(2) media_size [OF assms(1)]
    by (auto simp: file_at_def CBFS_METADATA_MAX_SIZE_def)
  have ur: "unat (of_nat ?r :: size_t) = ?r" "unat (of_nat i :: size_t) = i"
    using r by (auto intro!: unat_of_nat_lt)
  have ho: "ucast (h_offset (seen hashed ?c i)) = (of_nat ?d :: size_t)"
    unfolding seen_offset [OF assms(3,4)]
    by (rule word_eq_unatI) (use r in \<open>simp add: unat_ucast_up file_data_def\<close>)
  have todo: "(of_nat ?d - of_nat ?r :: size_t) = of_nat (?d - ?r)" using r(1) by (simp add: of_nat_diff)
  have ut: "unat (of_nat (?d - ?r) :: size_t) = ?d - ?r" using r by (intro unat_of_nat_lt) simp
  have uo: "unat (of_nat i + of_nat ?r :: size_t) = i + ?r"
    using r by (simp add: unat_of_nat_lt flip: of_nat_add)
  have a: "(of_nat (?d - ?r) :: size_t) \<le> of_nat CBFS_METADATA_MAX_SIZE - of_nat ?r"
  proof -
    have "(of_nat CBFS_METADATA_MAX_SIZE - of_nat ?r :: size_t) = of_nat (256 - ?r)"
      using r by (simp add: of_nat_diff CBFS_METADATA_MAX_SIZE_def)
    moreover have "unat (of_nat (256 - ?r) :: size_t) = 256 - ?r" by (intro unat_of_nat_lt) simp
    ultimately show ?thesis using ut r by (simp add: word_le_nat_alt)
  qed
  have p: "put_at dst at (seen hashed ?c i) = Some (take at dst @ seen hashed ?c i @ drop (at + ?r) dst)"
    using assms(5) r(1) by (simp add: put_at_Some)
  have z: "(of_nat (?d - ?r) :: size_t) = 0 \<longleftrightarrow> ?d = ?r" 
    unfolding unat_eq_0 [symmetric] ut using r(1) by linarith
  show ?thesis
  proof (cases "?d = ?r")
    case True
    then show ?thesis using full_mdata_split [OF assms(3)]
      by (simp add: cbfs_copy_fill_metadata_def Let_def ho todo get_at_def ur p)
  next
    case False
    have rd: "cbfs_dev_read (dev m) (of_nat i + of_nat ?r) (of_nat (?d - ?r)) = Some (bytes_at ?c (i + ?r) (?d - ?r))"
    proof -
      have nz: "(of_nat (?d - ?r) :: size_t) \<noteq> 0" unfolding z by (rule False)
      have "unat (of_nat i + of_nat ?r :: size_t) + unat (of_nat (?d - ?r) :: size_t) \<le> media_len m"
        unfolding uo ut using r by linarith
      from media_read [OF assms(1) nz this] show ?thesis unfolding uo ut .
    qed
    have "put_at dst at (full_mdata ?c i) =
        put_at (take at dst @ seen hashed ?c i @ drop (at + ?r) dst) (at + ?r) (bytes_at ?c (i + ?r) (?d - ?r))"
      using put_put [of at "seen hashed ?c i" "bytes_at ?c (i + ?r) (?d - ?r)" dst] assms(5) r(1)
      unfolding full_mdata_split [OF assms(3)] by (simp add: p)
    moreover have "get_at (seen hashed ?c i) 0 ?r = Some (seen hashed ?c i)" by (simp add: get_at_def)
    ultimately show ?thesis using False a
      unfolding cbfs_copy_fill_metadata_def Let_def ho todo ur by (simp only: Option.bind.simps p z rd ut c_assert_True) simp
  qed
qed

end

text \<open>The lookup walker satisfies the contract: all its reads are inside the metadata that was read.\<close>

lemma unat_less_sub:
  "cbfs_file_size < unat k \<Longrightarrow> unat (k - of_nat cbfs_file_size :: size_t) = unat k - cbfs_file_size"
  by (subst unat_sub_no_wrap) (simp_all add: cbfs_file_size_def)

lemma get_at_prefix:
  assumes "take k m = take k m'" "k \<le> length m" "k \<le> length m'" "j + n \<le> k"
  shows "get_at m j n = get_at m' j n"
proof -
  have "take n (drop j x) = take n (drop j (take k x))" for x :: "u8 list"
    using assms(4) by (simp add: drop_take min_def)
  then have "take n (drop j m) = take n (drop j m')" using assms(1) by metis
  then show ?thesis using assms(2-4) by (simp add: get_at_def)
qed

lemma header_prefix:
  assumes "take k m = take k m'" "cbfs_file_size \<le> k"
  shows "h_offset m = h_offset m'"
proof (rule header_cong)
  have "take cbfs_file_size x = take cbfs_file_size (take k x)" for x :: "u8 list" using assms(2) by (simp add: min_def)
  then show "take cbfs_file_size m = take cbfs_file_size m'" using assms(1) by metis
qed

lemma copy_fill_prefix:
  assumes "take (unat k) m = take (unat k) m'" "unat k \<le> length m" "unat k \<le> length m'" "cbfs_file_size \<le> unat k"
  shows "cbfs_copy_fill_metadata fatal dst at m k dev off = cbfs_copy_fill_metadata fatal dst at m' k dev off"
  unfolding cbfs_copy_fill_metadata_def
  using get_at_prefix [OF assms(1-3), of 0 "unat k"] header_prefix [OF assms(1,4)] by simp

interpretation lookup: cbfs_walker "lookup_walker fatal dev name"
  for fatal :: bool and dev :: cbfs_dev and name :: "u8 list"
proof
  fix k :: size_t and m m' :: "u8 list" and off s
  assume a: "unat k \<le> length m" "unat k \<le> length m'" "take (unat k) m = take (unat k) m'" "cbfs_file_size < unat k"
  show "lookup_walker fatal dev name off m k s = lookup_walker fatal dev name off m' k s"
  proof (cases "k - of_nat cbfs_file_size < (of_nat (length name + 1) :: size_t)")
    case False
    then have "unat (of_nat (length name + 1) :: size_t) \<le> unat k - cbfs_file_size"
      using unat_less_sub [OF a(4)] by (simp add: word_less_nat_alt not_less)
    then have "cbfs_file_size + unat (of_nat (length name + 1) :: size_t) \<le> unat k" using a(4) by linarith
    note eqs = get_at_prefix [OF a(3,1,2) this] copy_fill_prefix [OF a(3,1,2) less_imp_le [OF a(4)]]
      header_prefix [OF a(3) less_imp_le [OF a(4)]]
    show ?thesis unfolding lookup_walker_def Let_def eqs ..
  qed (simp add: lookup_walker_def Let_def)
qed

definition find_file :: "bool \<Rightarrow> (nat \<Rightarrow> u8) \<Rightarrow> nat \<Rightarrow> u8 list \<Rightarrow> nat option" where
  "find_file hashed c n name = find (\<lambda>i. file_name hashed c i = name) (walk_files hashed False c n)"

lemma in_headers:
  "j \<in> set (cbfs_headers c n i) \<Longrightarrow> file_at c n j \<and> j + cbfs_file_size < n"
  by (induction c n i rule: cbfs_headers.induct)
    (subst (asm) (3) cbfs_headers.simps, auto split: if_splits)

lemma walk_files_facts:
  "j \<in> set (walk_files hashed inc c n) \<Longrightarrow> file_at c n j \<and> file_visible hashed inc c j"
  using in_headers [of j c n 0] by (auto simp: walk_files_def)

context cbfs_media
begin

lemma lookup_walker_result:
  assumes "ok m" "file_at (cell m) (media_len m) i" "file_visible hashed inc (cell m) i"
    "attrs_behind_header (cell m) i \<or> \<not> hashed" "0 \<notin> set name" "length name < 2 ^ 63"
    "length (mdata_out out) = CBFS_METADATA_MAX_SIZE"
  shows "lookup_walker fatal (dev m) name (of_nat i) (seen hashed (cell m) i)
      (of_nat (read_len hashed (cell m) i)) out =
    Some (if file_name hashed (cell m) i = name then (CB_SUCCESS, lookup_result (cell m) i out)
      else (CB_CBFS_NOT_FOUND, out))"
proof -
  let ?c = "cell m" let ?r = "read_len hashed (cell m) i" and ?d = "file_data (cell m) i"
  have r: "cbfs_file_size < ?r" "?r \<le> ?d" "?d \<le> 256" "i + ?d \<le> media_len m" "media_len m < 2 ^ 32"
    using read_len_le [OF assms(3)] assms(2,3) media_size [OF assms(1)]
    by (auto simp: file_at_def file_visible_def CBFS_METADATA_MAX_SIZE_def)
  have ur: "unat (of_nat ?r :: size_t) = ?r" using r by (intro unat_of_nat_lt) simp
  have un: "unat (of_nat (length name + 1) :: size_t) = length name + 1" using assms(6) by (intro unat_of_nat_lt) simp
  have ho: "ucast (h_offset (seen hashed ?c i)) = (of_nat ?d :: size_t)"
    unfolding seen_offset [OF assms(3,4)]
    by (rule word_eq_unatI) (use r in \<open>simp add: unat_ucast_up file_data_def unat_of_nat_lt\<close>)
  have lt: "(of_nat ?r - of_nat cbfs_file_size :: size_t) < of_nat (length name + 1) \<longleftrightarrow>
      ?r - cbfs_file_size < length name + 1"
    using unat_less_sub [of "of_nat ?r"] r(1) unfolding word_less_nat_alt un ur by simp
  have g: "get_at (seen hashed ?c i) cbfs_file_size (length name + 1) =
      Some (take (length name + 1) (drop cbfs_file_size (seen hashed ?c i)))" if "length name + 1 \<le> ?r - cbfs_file_size"
    using that r(1) by (simp add: get_at_def)
  have fits: "0 + ?d \<le> length (mdata_out out)" using r(3) assms(7) by (simp add: CBFS_METADATA_MAX_SIZE_def)
  have cp: "cbfs_copy_fill_metadata fatal (mdata_out out) 0 (seen hashed ?c i) (of_nat ?r) (dev m) (of_nat i) =
      Some (CB_SUCCESS, full_mdata ?c i @ drop ?d (mdata_out out))"
    using copy_fill [OF assms(1-4) fits] fits by (simp add: put_at_Some)
  note nm = name_matches [OF assms(5,3,4)]
  show ?thesis
  proof (cases "length name + 1 \<le> ?r - cbfs_file_size")
    case False
    then show ?thesis using lt nm by (auto simp: lookup_walker_def Let_def)
  next
    case True
    then show ?thesis using lt nm
      unfolding lookup_walker_def Let_def un g [OF True] cp
      by (auto simp: ho lookup_result_def)
  qed
qed

lemma visit_lookup:
  assumes "ok m" "0 \<notin> set name" "length name < 2 ^ 63"
    "length (mdata_out out) = CBFS_METADATA_MAX_SIZE"
    "\<And>i. i \<in> set is \<Longrightarrow> file_at (cell m) (media_len m) i \<and> file_visible hashed inc (cell m) i \<and>
      (attrs_behind_header (cell m) i \<or> \<not> hashed)"
  shows "visit_files hashed (lookup_walker fatal (dev m) name) (cell m) is out =
    Some (case find (\<lambda>i. file_name hashed (cell m) i = name) is of
            None \<Rightarrow> (CB_CBFS_NOT_FOUND, out)
          | Some i \<Rightarrow> (CB_SUCCESS, lookup_result (cell m) i out))"
  using assms(5)
proof (induction "is")
  case (Cons i "is")
  then show ?case
    using lookup_walker_result [OF assms(1) _ _ _ assms(2-4), of i hashed inc fatal] by simp
qed simp

lemma lookup_finds:
  assumes "ok m" "files_advance (cell m) (media_len m) 0" "length stack = CBFS_METADATA_MAX_SIZE"
    "0 \<notin> set name" "length name < 2 ^ 63" "length (mdata_out out) = CBFS_METADATA_MAX_SIZE"
  shows "cbfs_lookup env (dev m) stack name out None =
    Some (case find_file False (cell m) (media_len m) name of
            None \<Rightarrow> (CB_CBFS_NOT_FOUND, out)
          | Some i \<Rightarrow> (CB_SUCCESS, lookup_result (cell m) i out))"
proof -
  have "visit_files False (lookup_walker (cbfs_fatal_asserts env) (dev m) name) (cell m)
      (walk_files False False (cell m) (media_len m)) out =
    Some (case find_file False (cell m) (media_len m) name of
            None \<Rightarrow> (CB_CBFS_NOT_FOUND, out)
          | Some i \<Rightarrow> (CB_SUCCESS, lookup_result (cell m) i out))"
    unfolding find_file_def using walk_files_facts
    by (intro visit_lookup [OF assms(1,4-6)]) blast
  then show ?thesis
    unfolding cbfs_lookup_def walk_without_hash [OF assms(1) lookup.cbfs_walker_axioms assms(2,3)]
    by (auto split: option.split)
qed

end

text \<open>
  With a digest the walk reads all the metadata at once. As long as no attributes start inside a header
  it sees the same files under the same names.
\<close>

definition clean_headers :: "(nat \<Rightarrow> u8) \<Rightarrow> nat \<Rightarrow> bool" where
  "clean_headers c n \<longleftrightarrow> (\<forall>i \<in> set (cbfs_headers c n 0). attrs_behind_header c i)"

lemma seen_True: "seen True c i = full_mdata c i"
  by (simp add: seen_def full_mdata_def read_len_def)

lemma visible_hashed:
  "attrs_behind_header c i \<Longrightarrow> file_visible True inc c i \<longleftrightarrow> file_visible False inc c i"
  by (auto simp: file_visible_def read_len_def attrs_behind_header_def)

lemma name_hashed:
  assumes "attrs_behind_header c i" "file_visible False inc c i"
  shows "file_name True c i = file_name False c i"
proof -
  have "cbfs_file_size \<le> read_len False c i" using assms(2) by (simp add: file_visible_def)
  then have "drop cbfs_file_size (seen True c i) = drop cbfs_file_size (seen False c i) @
      bytes_at c (i + read_len False c i) (file_data c i - read_len False c i)"
    unfolding seen_True full_mdata_split [OF assms(2)] by simp
  moreover have "0 \<in> set (drop cbfs_file_size (seen False c i))" by (rule seen_has_nul [OF assms(2)]) simp
  ultimately show ?thesis by (simp add: file_name_def)
qed

lemma clean_files:
  assumes "clean_headers c n"
  shows "walk_files True inc c n = walk_files False inc c n"
    and "i \<in> set (walk_files True inc c n) \<Longrightarrow> attrs_behind_header c i"
    and "find_file True c n name = find_file False c n name"
proof -
  show w: "walk_files True inc c n = walk_files False inc c n" for inc
    using assms by (auto simp: walk_files_def clean_headers_def visible_hashed intro: filter_cong)
  show "i \<in> set (walk_files True inc c n) \<Longrightarrow> attrs_behind_header c i"
    using assms by (auto simp: walk_files_def clean_headers_def)
  have "file_name True c i = file_name False c i" if "i \<in> set (walk_files False False c n)" for i
    using that assms name_hashed by (auto simp: walk_files_def clean_headers_def)
  then show "find_file True c n name = find_file False c n name"
    unfolding find_file_def w by (simp cong: find_cong)
qed

context cbfs_media
begin

lemma lookup_finds_hashed:
  assumes "ok m" "files_advance (cell m) (media_len m) 0" "clean_headers (cell m) (media_len m)"
    "length stack = CBFS_METADATA_MAX_SIZE" "0 \<notin> set name" "length name < 2 ^ 63"
    "length (mdata_out out) = CBFS_METADATA_MAX_SIZE" "CBFS_ENABLE_HASHING env"
    "metadata_digest env (hash_algo mh) (cell m) (walk_files True False (cell m) (media_len m)) = Some real"
  defines "good \<equiv> take (vb2_digest_size env (hash_algo mh)) (hash_raw mh) = real"
  shows "cbfs_lookup env (dev m) stack name out (Some mh) =
    Some (case find_file False (cell m) (media_len m) name of
            None \<Rightarrow> (if good then CB_CBFS_NOT_FOUND else CB_CBFS_HASH_MISMATCH, out)
          | Some i \<Rightarrow> (if good then CB_SUCCESS else CB_CBFS_HASH_MISMATCH, lookup_result (cell m) i out))"
proof -
  have "visit_files True (lookup_walker (cbfs_fatal_asserts env) (dev m) name) (cell m)
      (walk_files True False (cell m) (media_len m)) out =
    Some (case find_file True (cell m) (media_len m) name of
            None \<Rightarrow> (CB_CBFS_NOT_FOUND, out)
          | Some i \<Rightarrow> (CB_SUCCESS, lookup_result (cell m) i out))"
    unfolding find_file_def using walk_files_facts clean_files(2) [OF assms(3)]
    by (intro visit_lookup [OF assms(1,5-7)]) blast
  then show ?thesis
    unfolding cbfs_lookup_def walk_with_hash [OF assms(1) lookup.cbfs_walker_axioms assms(2,4,8,9)]
      clean_files(3) [OF assms(3)] good_def
    by (auto split: option.split)
qed

lemma lookup_success_verified:
  assumes "ok m" "files_advance (cell m) (media_len m) 0" "length stack = CBFS_METADATA_MAX_SIZE"
    "CBFS_ENABLE_HASHING env" "cbfs_lookup env (dev m) stack name out (Some mh) = Some (e, out')"
    "e = CB_SUCCESS \<or> e = CB_CBFS_NOT_FOUND"
  shows "metadata_digest env (hash_algo mh) (cell m) (walk_files True False (cell m) (media_len m)) =
    Some (take (vb2_digest_size env (hash_algo mh)) (hash_raw mh))"
proof -
  from assms(5) obtain mh' where
    "cbfs_walk env (dev m) stack (Some (lookup_walker (cbfs_fatal_asserts env) (dev m) name)) out
       (Some mh) False False = Some (e, out', mh')"
    by (auto simp: cbfs_lookup_def)
  from walk_success_verified [OF assms(1) _ assms(2,3,4) this] show ?thesis
    using assms(6) lookup.cbfs_walker_axioms by auto
qed

end

subsection \<open>Memory-mapped media\<close>

text \<open>
  A flash that is mapped into memory, read-only or not: the boot device of most targets. \<open>rom_byte\<close> is
  its content.
\<close>

definition mapped_rom :: "region_device \<Rightarrow> bool" where
  "mapped_rom rd \<longleftrightarrow> (case root_kind (rdev_root rd) of MemDev base rw \<Rightarrow> True | _ \<Rightarrow> False) \<and>
     region_valid (rdev_region rd) \<and> unat (reg_size (rdev_region rd)) < 2 ^ 32"

definition rom_byte :: "'d world \<Rightarrow> region_device \<Rightarrow> nat \<Rightarrow> u8" where
  "rom_byte w rd i =
     (case root_kind (rdev_root rd) of
        MemDev base rw \<Rightarrow> wmem w (base + of_nat (unat (reg_offset (rdev_region rd)) + i)) | _ \<Rightarrow> 0)"

definition rom_size :: "region_device \<Rightarrow> nat" where
  "rom_size rd = unat (reg_size (rdev_region rd))"

interpretation rom: cbfs_media "\<lambda>(w, rd). cbfs_rdev drv w rd" "\<lambda>(w, rd). rom_byte w rd" "\<lambda>(w, rd). mapped_rom rd"
  for drv :: "'d driver"
proof
  fix m :: "'d world \<times> region_device" and k off :: size_t
  obtain w rd where m [simp]: "m = (w, rd)" by (cases m)
  assume ok: "case m of (w, rd) \<Rightarrow> mapped_rom rd"
  then obtain base rw where b: "root_kind (rdev_root rd) = MemDev base rw"
    by (auto simp: mapped_rom_def split: device_kind.splits)
  have v: "region_valid (rdev_region rd)" using ok by (simp add: mapped_rom_def)
  show "unat (cbfs_dev_size (case m of (w, rd) \<Rightarrow> cbfs_rdev drv w rd)) < 2 ^ 32"
    using ok by (simp add: cbfs_rdev_def region_device_sz_def mapped_rom_def)
  assume k: "k \<noteq> 0" "unat off + unat k \<le> unat (cbfs_dev_size (case m of (w, rd) \<Rightarrow> cbfs_rdev drv w rd))"
  then have r: "in_region (rdev_region rd) off k"
    by (simp add: in_region_def cbfs_rdev_def region_device_sz_def)
  show "cbfs_dev_read (case m of (w, rd) \<Rightarrow> cbfs_rdev drv w rd) off k =
      Some (bytes_at (case m of (w, rd) \<Rightarrow> rom_byte w rd) (unat off) (unat k))"
    by (simp add: cbfs_rdev_def readat_via_root normalize_in_region(1) [OF v r] b load_bytes_def
        bytes_at_def rom_byte_def algebra_simps)
qed

subsection \<open>Attributes\<close>

lemma find_attr_loop_sound:
  "unat end_off \<le> length mdata \<Longrightarrow>
   \<exists>r. find_attr_loop mdata tag size_check offset end_off = Some r \<and>
     (\<forall>a. r = Some a \<longrightarrow> unat offset \<le> a \<and> be32_at mdata a = tag \<and>
       cbfs_file_attribute_size \<le> unat (be32_at mdata (a + 4)) \<and>
       a + unat (be32_at mdata (a + 4)) \<le> unat end_off \<and>
       (size_check \<noteq> 0 \<longrightarrow> ucast (be32_at mdata (a + 4)) = size_check))"
proof (induction mdata tag size_check offset end_off rule: find_attr_loop.induct)
  case (1 mdata tag size_check offset end_off)
  let ?len = "be32_at mdata (unat offset + 4)"
  have in_range: "ucast offset + of_nat cbfs_file_attribute_size \<le> (ucast end_off :: size_t) \<longleftrightarrow>
      unat offset + cbfs_file_attribute_size \<le> unat end_off"
    using unat_less_32 [of offset]
    by (simp add: word_le_nat_alt unat_word_ariths unat_ucast_up cbfs_file_attribute_size_def)
  show ?case
  proof (cases "unat offset + cbfs_file_attribute_size \<le> unat end_off")
    case False
    then show ?thesis using in_range by (subst find_attr_loop.simps) simp
  next
    case True
    have diff: "unat (end_off - offset) = unat end_off - unat offset"
      using True by (simp add: unat_sub_no_wrap)
    have small: "ucast ?len < (of_nat cbfs_file_attribute_size :: size_t) \<longleftrightarrow> unat ?len < cbfs_file_attribute_size"
      by (simp add: word_less_nat_alt unat_ucast_up cbfs_file_attribute_size_def)
    have unfold: "find_attr_loop mdata tag size_check offset end_off =
        (if unat ?len < cbfs_file_attribute_size \<or> unat end_off < unat offset + unat ?len then Some None
         else if be32_at mdata (unat offset) = tag
         then if size_check \<noteq> 0 \<and> ucast ?len \<noteq> size_check then Some None else Some (Some (unat offset))
         else find_attr_loop mdata tag size_check (offset + ?len) end_off)"
      using True in_range 1(2) small diff
      by (subst find_attr_loop.simps) (auto simp: Let_def word_less_nat_alt)
    show ?thesis
    proof (cases "unat ?len < cbfs_file_attribute_size \<or> unat end_off < unat offset + unat ?len \<or>
        be32_at mdata (unat offset) = tag")
      case True
      then show ?thesis unfolding unfold by auto
    next
      case False
      then have step: "unat (offset + ?len) = unat offset + unat ?len"
        using unat_less_32 [of end_off] by (intro unat_add_no_wrap) simp
      have "\<exists>r. find_attr_loop mdata tag size_check (offset + ?len) end_off = Some r \<and>
          (\<forall>a. r = Some a \<longrightarrow> unat (offset + ?len) \<le> a \<and> be32_at mdata a = tag \<and>
            cbfs_file_attribute_size \<le> unat (be32_at mdata (a + 4)) \<and>
            a + unat (be32_at mdata (a + 4)) \<le> unat end_off \<and>
            (size_check \<noteq> 0 \<longrightarrow> ucast (be32_at mdata (a + 4)) = size_check))"
        by (rule 1(1) [OF _ _ refl refl _ _ 1(2)])
          (use True False in_range small diff 1(2) in \<open>auto simp: word_less_nat_alt\<close>)
      then show ?thesis unfolding unfold step using False by auto
    qed
  qed
qed

subsection \<open>Sample media\<close>

definition rom_image :: "u8 list \<Rightarrow> unit world" where
  "rom_image bs = \<lparr>wmem = (\<lambda>a. if unat a < length bs then bs ! unat a else 0xff), wdrv = ()\<rparr>"

definition no_driver :: "unit driver" where
  "no_driver = \<lparr>drv_mmap = None, drv_munmap = None, drv_readat = (\<lambda>i d off sz. None),
     drv_writeat = None, drv_eraseat = None\<rparr>"

definition rom_dev :: "u8 list \<Rightarrow> region_device" where
  "rom_dev bs = mem_region_device_ro_init 7 0 (of_nat (length bs))"

definition sample_header :: "nat \<Rightarrow> nat \<Rightarrow> nat \<Rightarrow> nat \<Rightarrow> u8 list" where
  "sample_header len typ attr off = CBFS_FILE_MAGIC @
     [0, 0, 0, of_nat len] @ [0, 0, 0, of_nat typ] @ [0, 0, 0, of_nat attr] @ [0, 0, 0, of_nat off]"

text \<open>A file \<^verbatim>\<open>ab\<close>, a file \<^verbatim>\<open>c\<close> with a compression attribute, and free space.\<close>

definition sample_rom :: "u8 list" where
  "sample_rom =
     sample_header 4 0x50 0 28 @ [0x61, 0x62, 0, 0] @ [1, 2, 3, 4] @ replicate 32 0xff @
     sample_header 2 0x50 28 44 @ [0x63, 0, 0, 0] @
       [0x42, 0x43, 0x5a, 0x4c, 0, 0, 0, 16, 0, 0, 0, 2, 0, 0, 0, 9] @ [9, 8] @ replicate 18 0xff @
     sample_header 36 0 0 28 @ replicate 40 0xff"

text \<open>A digest that is the exclusive or of all bytes, repeated.\<close>

definition sample_env :: "u8 cbfs_env" where
  "sample_env = \<lparr>CBFS_ENABLE_HASHING = True, cbfs_fatal_asserts = True,
     vb2_digest_init = (\<lambda>a. Some 0), vb2_digest_extend = (\<lambda>c bs. Some (fold (XOR) bs c)),
     vb2_digest_finalize = (\<lambda>c n. Some (replicate n c)), vb2_digest_size = (\<lambda>a. 4),
     vb2_hash_raw_offset = 4, vb2_hash_algo = (\<lambda>bs. unat (hd bs))\<rparr>"

definition sample_out :: lookup_out where
  "sample_out = \<lparr>mdata_out = replicate 256 0, data_offset_out = 0\<rparr>"

definition stack_mdata :: "u8 list" where
  "stack_mdata = replicate 256 0x5a"

declare walk_loop.simps [code] read_next_loop.simps [code]

lemma length_sample_rom: "length sample_rom = 192"
  by (simp add: sample_rom_def sample_header_def CBFS_FILE_MAGIC_def)

lemma sample_rom_ok: "mapped_rom (rom_dev sample_rom)"
  by (simp add: mapped_rom_def rom_dev_def mem_region_device_ro_init_def region_device_init_def
      region_valid_def length_sample_rom)

lemma sample_rom_advances:
  "files_advance (rom_byte (rom_image sample_rom) (rom_dev sample_rom)) (rom_size (rom_dev sample_rom)) 0"
  by code_simp

lemma sample_rom_clean:
  "clean_headers (rom_byte (rom_image sample_rom) (rom_dev sample_rom)) (rom_size (rom_dev sample_rom))"
  by code_simp

lemma sample_rom_find:
  "find_file False (rom_byte (rom_image sample_rom) (rom_dev sample_rom)) (rom_size (rom_dev sample_rom)) [0x63] = Some 64"
  by code_simp

lemma sample_rom_digest:
  "metadata_digest sample_env 2 (rom_byte (rom_image sample_rom) (rom_dev sample_rom))
     (walk_files True False (rom_byte (rom_image sample_rom) (rom_dev sample_rom)) (rom_size (rom_dev sample_rom))) =
   Some (replicate 4 70)"
  by code_simp

subsection \<open>Properties\<close>

lemma rom_media_len [simp]: "unat (cbfs_dev_size (cbfs_rdev drv w rd)) = rom_size rd"
  by (simp add: cbfs_rdev_def region_device_sz_def rom_size_def)

text \<open>C8: on a mapped flash, looking a file up without a digest returns the first file, in the order of
  the medium, that has the name, with its complete metadata and the offset of its data, or reports
  that there is none; empty entries and corrupt headers are passed over.\<close>

theorem cbfs_lookup_first_match:
  assumes "mapped_rom rd" "files_advance (rom_byte w rd) (rom_size rd) 0"
    "length stack = CBFS_METADATA_MAX_SIZE" "0 \<notin> set name" "length name < 2 ^ 63"
    "length (mdata_out out) = CBFS_METADATA_MAX_SIZE"
  shows "cbfs_lookup env (cbfs_rdev drv w rd) stack name out None =
    Some (case find_file False (rom_byte w rd) (rom_size rd) name of
            None \<Rightarrow> (CB_CBFS_NOT_FOUND, out)
          | Some i \<Rightarrow> (CB_SUCCESS, lookup_result (rom_byte w rd) i out))"
  using rom.lookup_finds [of "(w, rd)" drv stack name out env, unfolded prod.case] assms by simp

theorem cbfs_lookup_first_match_witness:
  "map_option fst (cbfs_lookup sample_env (cbfs_rdev no_driver (rom_image sample_rom) (rom_dev sample_rom))
     stack_mdata [0x63] sample_out None) = Some CB_SUCCESS"
  using cbfs_lookup_first_match [OF sample_rom_ok sample_rom_advances, of stack_mdata "[0x63]" sample_out sample_env no_driver]
  by (simp add: sample_rom_find stack_mdata_def sample_out_def CBFS_METADATA_MAX_SIZE_def)

text \<open>C17: the walk over a mapped flash returns exactly when every file header it passes leads
  onwards; a header whose data offset and length are both 0 passes the size check and is skipped onto
  itself, so that the loop never ends.\<close>

theorem cbfs_walk_terminates_iff:
  assumes "mapped_rom rd" "length stack = CBFS_METADATA_MAX_SIZE"
  shows "cbfs_walk env (cbfs_rdev drv w rd) stack None s None False inc =
    (if files_advance (rom_byte w rd) (rom_size rd) 0 then Some (CB_CBFS_NOT_FOUND, s, None) else None)"
  using rom.walk_without_walker [of "(w, rd)" stack env drv s inc] assms by simp

definition stuck_rom :: "u8 list" where
  "stuck_rom = sample_header 0 0 0 0 @ replicate 40 0xff"

theorem cbfs_walk_terminates_iff_witness:
  "cbfs_walk sample_env (cbfs_rdev no_driver (rom_image stuck_rom) (rom_dev stuck_rom)) stack_mdata
     None () None False False = None"
proof -
  have ok: "mapped_rom (rom_dev stuck_rom)"
    by (simp add: mapped_rom_def rom_dev_def mem_region_device_ro_init_def region_device_init_def
        region_valid_def stuck_rom_def sample_header_def CBFS_FILE_MAGIC_def)
  have "\<not> files_advance (rom_byte (rom_image stuck_rom) (rom_dev stuck_rom)) (rom_size (rom_dev stuck_rom)) 0"
    by code_simp
  then show ?thesis using cbfs_walk_terminates_iff [OF ok, of stack_mdata sample_env no_driver "rom_image stuck_rom" "()" False]
    by (simp add: stack_mdata_def CBFS_METADATA_MAX_SIZE_def)
qed

text \<open>C18: when a metadata hash is given and the lookup reports a file or the absence of one,
  the digest over the metadata of every file of the medium is the expected one.\<close>

theorem cbfs_lookup_verified:
  assumes "mapped_rom rd" "files_advance (rom_byte w rd) (rom_size rd) 0"
    "length stack = CBFS_METADATA_MAX_SIZE" "CBFS_ENABLE_HASHING env"
    "cbfs_lookup env (cbfs_rdev drv w rd) stack name out (Some mh) = Some (e, out')"
    "e = CB_SUCCESS \<or> e = CB_CBFS_NOT_FOUND"
  shows "metadata_digest env (hash_algo mh) (rom_byte w rd) (walk_files True False (rom_byte w rd) (rom_size rd)) =
    Some (take (vb2_digest_size env (hash_algo mh)) (hash_raw mh))"
  using rom.lookup_success_verified [of "(w, rd)" drv stack env name out mh e out'] assms by simp

theorem cbfs_lookup_verified_witness:
  "metadata_digest sample_env 2 (rom_byte (rom_image sample_rom) (rom_dev sample_rom))
     (walk_files True False (rom_byte (rom_image sample_rom) (rom_dev sample_rom)) (rom_size (rom_dev sample_rom))) =
   Some (take 4 (replicate 4 70))"
proof -
  let ?mh = "\<lparr>hash_algo = 2, hash_raw = replicate 4 70\<rparr>"
  have d: "metadata_digest sample_env (hash_algo ?mh) (rom_byte (rom_image sample_rom) (rom_dev sample_rom))
     (walk_files True False (rom_byte (rom_image sample_rom) (rom_dev sample_rom)) (rom_size (rom_dev sample_rom))) =
   Some (replicate 4 70)"
    using sample_rom_digest by simp
  have e: "CBFS_ENABLE_HASHING sample_env" "vb2_digest_size sample_env 2 = 4" by (simp_all add: sample_env_def)
  have f: "cbfs_lookup sample_env (cbfs_rdev no_driver (rom_image sample_rom) (rom_dev sample_rom))
      stack_mdata [0x63] sample_out (Some ?mh) =
    Some (CB_SUCCESS, lookup_result (rom_byte (rom_image sample_rom) (rom_dev sample_rom)) 64 sample_out)"
    using rom.lookup_finds_hashed [of "(rom_image sample_rom, rom_dev sample_rom)" no_driver stack_mdata "[0x63]"
        sample_out sample_env ?mh "replicate 4 70", unfolded prod.case]
      sample_rom_ok sample_rom_advances sample_rom_clean d e
    by (simp add: sample_rom_find stack_mdata_def sample_out_def CBFS_METADATA_MAX_SIZE_def)
  have l: "length stack_mdata = CBFS_METADATA_MAX_SIZE" by (simp add: stack_mdata_def CBFS_METADATA_MAX_SIZE_def)
  show ?thesis
    using cbfs_lookup_verified [OF sample_rom_ok sample_rom_advances l e(1) f] by (simp add: e(2))
qed

text \<open>C29: with a metadata hash whose digest can be computed, the lookup gives the file the lookup without
  a hash gives, and a mismatch replaces every answer, provided no attributes start inside a header.\<close>

theorem cbfs_lookup_hashed_equiv:
  assumes "mapped_rom rd" "files_advance (rom_byte w rd) (rom_size rd) 0"
    "clean_headers (rom_byte w rd) (rom_size rd)"
    "length stack = CBFS_METADATA_MAX_SIZE" "0 \<notin> set name" "length name < 2 ^ 63"
    "length (mdata_out out) = CBFS_METADATA_MAX_SIZE" "CBFS_ENABLE_HASHING env"
    "metadata_digest env (hash_algo mh) (rom_byte w rd) (walk_files True False (rom_byte w rd) (rom_size rd)) = Some real"
  shows "cbfs_lookup env (cbfs_rdev drv w rd) stack name out (Some mh) =
    map_option (\<lambda>(e, out'). (if take (vb2_digest_size env (hash_algo mh)) (hash_raw mh) = real then e
        else CB_CBFS_HASH_MISMATCH, out'))
      (cbfs_lookup env (cbfs_rdev drv w rd) stack name out None)"
  using rom.lookup_finds_hashed [of "(w, rd)" drv stack name out env mh real, unfolded prod.case]
    rom.lookup_finds [of "(w, rd)" drv stack name out env, unfolded prod.case] assms
  by (simp split: option.split)

theorem cbfs_lookup_hashed_equiv_witness:
  "map_option fst (cbfs_lookup sample_env (cbfs_rdev no_driver (rom_image sample_rom) (rom_dev sample_rom))
     stack_mdata [0x63] sample_out (Some \<lparr>hash_algo = 2, hash_raw = [0, 0, 0, 0]\<rparr>)) = Some CB_CBFS_HASH_MISMATCH"
proof -
  let ?mh = "\<lparr>hash_algo = 2, hash_raw = [0, 0, 0, 0]\<rparr>"
  have d: "metadata_digest sample_env (hash_algo ?mh) (rom_byte (rom_image sample_rom) (rom_dev sample_rom))
     (walk_files True False (rom_byte (rom_image sample_rom) (rom_dev sample_rom)) (rom_size (rom_dev sample_rom))) =
   Some (replicate 4 70)"
    using sample_rom_digest by simp
  have f: "cbfs_lookup sample_env (cbfs_rdev no_driver (rom_image sample_rom) (rom_dev sample_rom))
      stack_mdata [0x63] sample_out None =
    Some (CB_SUCCESS, lookup_result (rom_byte (rom_image sample_rom) (rom_dev sample_rom)) 64 sample_out)"
    using rom.lookup_finds [of "(rom_image sample_rom, rom_dev sample_rom)" no_driver stack_mdata "[0x63]"
        sample_out sample_env, unfolded prod.case]
      sample_rom_ok sample_rom_advances
    by (simp add: sample_rom_find stack_mdata_def sample_out_def CBFS_METADATA_MAX_SIZE_def)
  have n: "take (vb2_digest_size sample_env (hash_algo ?mh)) (hash_raw ?mh) \<noteq> replicate 4 70"
    by code_simp
  have e: "CBFS_ENABLE_HASHING sample_env" by (simp add: sample_env_def)
  show ?thesis
    using cbfs_lookup_hashed_equiv [OF sample_rom_ok sample_rom_advances sample_rom_clean _ _ _ _ e d,
        of stack_mdata "[0x63]" sample_out no_driver] n
    by (simp only: f) (simp add: stack_mdata_def sample_out_def CBFS_METADATA_MAX_SIZE_def)
qed

text \<open>C30: an attribute that is found lies between the attributes offset and the data offset, is at least
  a tag and a length long, ends inside the metadata, and has the tag and the size asked for;
  and the search never reads outside metadata whose data offset is inside it.\<close>

theorem cbfs_find_attr_bounds:
  assumes "unat (h_offset mdata) \<le> length mdata"
  shows "\<exists>r. cbfs_find_attr mdata tag size_check = Some r \<and>
     (\<forall>a. r = Some a \<longrightarrow> unat (h_attributes_offset mdata) \<le> a \<and> be32_at mdata a = tag \<and>
       cbfs_file_attribute_size \<le> unat (be32_at mdata (a + 4)) \<and>
       a + unat (be32_at mdata (a + 4)) \<le> unat (h_offset mdata) \<and>
       (size_check \<noteq> 0 \<longrightarrow> ucast (be32_at mdata (a + 4)) = size_check))"
proof (cases "h_attributes_offset mdata = 0")
  case False
  then show ?thesis using find_attr_loop_sound [OF assms] by (simp add: cbfs_find_attr_def)
qed (simp add: cbfs_find_attr_def)
theorem cbfs_find_attr_bounds_witness:
  "cbfs_find_attr (take 46 (drop 64 sample_rom)) CBFS_FILE_ATTR_TAG_COMPRESSION 16 = Some (Some 28)"
proof -
  have "unat (h_offset (take 46 (drop 64 sample_rom))) \<le> length (take 46 (drop 64 sample_rom))" by code_simp
  from cbfs_find_attr_bounds [OF this, of CBFS_FILE_ATTR_TAG_COMPRESSION 16] obtain r where
    r: "cbfs_find_attr (take 46 (drop 64 sample_rom)) CBFS_FILE_ATTR_TAG_COMPRESSION 16 = Some r" by blast
  moreover have "cbfs_find_attr (take 46 (drop 64 sample_rom)) CBFS_FILE_ATTR_TAG_COMPRESSION 16 = Some (Some 28)"
    by code_simp
  ultimately show ?thesis by simp
qed

lemma be32_low_byte:
  assumes "unat (be32toh [a, b, c, d]) < 256"
  shows "be32toh [a, b, c, 0] = 0"
proof -
  let ?h = "push_bit 8 (le_value [c, b, a]) :: u32"
  have "\<not> bit ?h n" for n
  proof
    assume n: "bit ?h n"
    then have "8 \<le> n" by (simp only: bit_push_bit_iff)
    have "bit (be32toh [a, b, c, d]) n" using n by (simp add: be32toh_def bit_simps)
    moreover have "take_bit 8 (be32toh [a, b, c, d]) = be32toh [a, b, c, d]"
      using assms by (intro word_eq_unatI) (simp add: unsigned_take_bit_eq take_bit_nat_eq_self)
    ultimately show False using \<open>8 \<le> n\<close> by (metis bit_take_bit_iff not_le)
  qed
  then have "?h = 0" by (intro bit_word_eqI) simp
  then show ?thesis by (simp add: be32toh_def)
qed

lemma cleared_offset:
  assumes "file_visible True inc c i" "file_attr c i = cbfs_file_size" "file_data c i < CBFS_METADATA_MAX_SIZE"
  shows "h_offset (seen True c i) = 0"
proof -
  have r: "cbfs_file_size < file_data c i" "read_len True c i = file_data c i"
    using assms(1) by (auto simp: file_visible_def read_len_def)
  have four: "bytes_at c (i + 20) 4 = [c (i + 20), c (i + 21), c (i + 22), c (i + 23)]"
    by (simp add: bytes_at_def upt_rec numeral_eq_Suc)
  have n: "nul_index c i = 23" using assms(2) by (simp add: nul_index_def cbfs_file_size_def)
  have "take 4 (drop 20 (seen True c i)) = (bytes_at c (i + 20) 4)[3 := 0]"
    using r by (auto simp: seen_def n drop_update_swap take_update_swap drop_bytes_at take_bytes_at cbfs_file_size_def min_def)
  moreover have "take 4 (drop 20 (file_header c i)) = bytes_at c (i + 20) 4"
    by (simp add: file_header_def drop_bytes_at take_bytes_at cbfs_file_size_def min_def)
  ultimately show ?thesis
    using assms(3) be32_low_byte [of "c (i + 20)" "c (i + 21)" "c (i + 22)" "c (i + 23)"]
    by (simp add: h_offset_def be32_at_def file_data_def four CBFS_METADATA_MAX_SIZE_def)
qed


text \<open>Such a file, with the name \<^verbatim>\<open>ab\<close>.\<close>

definition overlap_rom :: "u8 list" where
  "overlap_rom = sample_header 4 0x50 24 28 @ [0x61, 0x62, 0, 0] @ [1, 2, 3, 4] @ replicate 32 0xff"


end
