(* ===== verification/CbfsMcache.thy ===== *)
theory CbfsMcache
  imports Cbfs
begin

text \<open>
  \<^verbatim>\<open>src/commonlib/bsd/cbfs_mcache.c\<close>: the metadata cache. The cache is a byte list, a pointer into
  it is its offset; each entry is the metadata of a file whose magic is replaced by a tag and the offset
  of the file on the medium, and a final tag says whether all files fitted.
\<close>

definition MCACHE_MAGIC_FILE :: u32 where
  "MCACHE_MAGIC_FILE = 0x454c4946"

definition MCACHE_MAGIC_FULL :: u32 where
  "MCACHE_MAGIC_FULL = 0x4c4c5546"

definition MCACHE_MAGIC_END :: u32 where
  "MCACHE_MAGIC_END = 0x444e4524"

definition CBFS_MCACHE_ALIGNMENT :: size_t where
  "CBFS_MCACHE_ALIGNMENT = 4"

lemma c_assert_mono [partial_function_mono]:
  "mono_option k \<Longrightarrow> mono_option (\<lambda>f. c_assert fatal c (k f))"
  by (auto simp: c_assert_def monotone_def flat_ord_def fun_ord_def)

subsection \<open>Building\<close>

text \<open>The end pointer leaves room for the final tag; it is below the start for a size under 4.\<close>

record mcache_build_args =
  mcache_buf :: "u8 list"
  mcache_ptr :: nat
  mcache_end :: int
  mcache_count :: nat

definition build_walker :: "bool \<Rightarrow> cbfs_dev \<Rightarrow> mcache_build_args walker" where
  "build_walker fatal dev offset mdata already_read args =
     (let data_offset = h_offset mdata
      in if mcache_end args - int (mcache_ptr args) < int (unat data_offset)
         then Some (CB_CBFS_CACHE_FULL, args)
         else Option.bind
           (cbfs_copy_fill_metadata fatal (mcache_buf args) (mcache_ptr args) mdata already_read dev offset) (\<lambda>(e, buf).
             if e \<noteq> CB_SUCCESS then Some (CB_CBFS_IO, args\<lparr>mcache_buf := buf\<rparr>)
             else Option.bind (put_at buf (mcache_ptr args) (le_bytes 4 MCACHE_MAGIC_FILE)) (\<lambda>buf.
               Option.bind (put_at buf (mcache_ptr args + 4) (le_bytes 4 (ucast offset :: u32))) (\<lambda>buf.
                 Some (CB_CBFS_NOT_FOUND,
                   args\<lparr>mcache_buf := buf,
                        mcache_ptr := mcache_ptr args + unat (ALIGN_UP (ucast data_offset) CBFS_MCACHE_ALIGNMENT),
                        mcache_count := mcache_count args + 1\<rparr>)))))"

definition cbfs_mcache_build ::
  "'c cbfs_env \<Rightarrow> cbfs_dev \<Rightarrow> u8 list \<Rightarrow> addr \<Rightarrow> u8 list \<Rightarrow> size_t \<Rightarrow> vb2_hash option \<Rightarrow>
   (cb_err \<times> u8 list) option" where
  "cbfs_mcache_build env dev stack base mcache mcache_size metadata_hash =
     c_assert (cbfs_fatal_asserts env) (4 < mcache_size \<and> IS_ALIGNED base CBFS_MCACHE_ALIGNMENT)
       (Option.bind
         (cbfs_walk env dev stack (Some (build_walker (cbfs_fatal_asserts env) dev))
           \<lparr>mcache_buf = mcache, mcache_ptr = 0,
            mcache_end = int (unat (ALIGN_DOWN mcache_size CBFS_MCACHE_ALIGNMENT)) - 4, mcache_count = 0\<rparr>
           metadata_hash False False) (\<lambda>(ret, args, _).
         if ret = CB_CBFS_NOT_FOUND
         then map_option (Pair CB_SUCCESS) (put_at (mcache_buf args) (mcache_ptr args) (le_bytes 4 MCACHE_MAGIC_END))
         else if ret = CB_CBFS_CACHE_FULL
         then map_option (Pair ret) (put_at (mcache_buf args) (mcache_ptr args) (le_bytes 4 MCACHE_MAGIC_FULL))
         else Some (ret, mcache_buf args)))"

subsection \<open>Lookup and size\<close>

partial_function (option) mcache_lookup_loop ::
  "bool \<Rightarrow> u8 list \<Rightarrow> size_t \<Rightarrow> u8 list \<Rightarrow> nat \<Rightarrow> lookup_out \<Rightarrow> (cb_err \<times> lookup_out) option" where
  "mcache_lookup_loop fatal mcache mcache_size name current out =
     (if \<not> current + 4 \<le> unat mcache_size then Some (CB_ERR, out)
      else Option.bind (get_at mcache current 4) (\<lambda>tag.
        let magic = le_value tag :: u32
        in if magic = MCACHE_MAGIC_END then Some (CB_CBFS_NOT_FOUND, out)
           else if magic = MCACHE_MAGIC_FULL then Some (CB_CBFS_CACHE_FULL, out)
           else c_assert fatal (magic = MCACHE_MAGIC_FILE)
             (Option.bind (get_at mcache current cbfs_file_size) (\<lambda>header.
               let data_offset = h_offset header;
                   entry_offset = le_value (take 4 (drop 4 header)) :: u32;
                   namesize = of_nat (length name + 1) :: size_t
               in Option.bind
                 (if namesize \<le> ucast data_offset - of_nat cbfs_file_size
                  then map_option (\<lambda>filename. filename = name @ [0])
                    (get_at mcache (current + cbfs_file_size) (unat namesize))
                  else Some False) (\<lambda>found.
                 if found
                 then Option.bind (get_at mcache current (unat data_offset)) (\<lambda>bs.
                   map_option (\<lambda>md. (CB_SUCCESS,
                       out\<lparr>mdata_out := md, data_offset_out := ucast (entry_offset + data_offset)\<rparr>))
                     (put_at (mdata_out out) 0 bs))
                 else mcache_lookup_loop fatal mcache mcache_size name
                   (current + unat (ALIGN_UP (ucast data_offset) CBFS_MCACHE_ALIGNMENT)) out)))))"

definition cbfs_mcache_lookup ::
  "bool \<Rightarrow> u8 list \<Rightarrow> size_t \<Rightarrow> u8 list \<Rightarrow> lookup_out \<Rightarrow> (cb_err \<times> lookup_out) option" where
  "cbfs_mcache_lookup fatal mcache mcache_size name out =
     mcache_lookup_loop fatal mcache mcache_size name 0 out"

partial_function (option) real_size_loop :: "bool \<Rightarrow> u8 list \<Rightarrow> size_t \<Rightarrow> nat \<Rightarrow> nat option" where
  "real_size_loop fatal mcache mcache_size current =
     (if \<not> current + 4 \<le> unat mcache_size then Some current
      else Option.bind (get_at mcache current 4) (\<lambda>tag.
        let magic = le_value tag :: u32
        in if magic = MCACHE_MAGIC_FULL \<or> magic = MCACHE_MAGIC_END then Some (current + 4)
           else c_assert fatal (magic = MCACHE_MAGIC_FILE)
             (Option.bind (get_at mcache current cbfs_file_size) (\<lambda>header.
               real_size_loop fatal mcache mcache_size
                 (current + unat (ALIGN_UP (ucast (h_offset header)) CBFS_MCACHE_ALIGNMENT))))))"

definition cbfs_mcache_real_size :: "bool \<Rightarrow> u8 list \<Rightarrow> size_t \<Rightarrow> size_t option" where
  "cbfs_mcache_real_size fatal mcache mcache_size =
     map_option of_nat (real_size_loop fatal mcache mcache_size 0)"

subsection \<open>The content of a cache\<close>

definition align4 :: "nat \<Rightarrow> nat" where
  "align4 n = (n + 3) div 4 * 4"

definition entry_bytes :: "(nat \<Rightarrow> u8) \<Rightarrow> nat \<Rightarrow> u8 list" where
  "entry_bytes c i = le_bytes 4 MCACHE_MAGIC_FILE @ le_bytes 4 (of_nat i :: u32) @ drop 8 (full_mdata c i)"

fun entries_at :: "u8 list \<Rightarrow> nat \<Rightarrow> (nat \<Rightarrow> u8) \<Rightarrow> nat list \<Rightarrow> nat \<Rightarrow> bool" where
  "entries_at buf pos c [] e \<longleftrightarrow> pos = e"
| "entries_at buf pos c (i # is) e \<longleftrightarrow>
     pos + file_data c i \<le> length buf \<and> take (file_data c i) (drop pos buf) = entry_bytes c i \<and>
     entries_at buf (pos + align4 (file_data c i)) c is e"

lemma align4_ge: "n \<le> align4 n"
  unfolding align4_def by linarith

lemma align4_least: "n \<le> k \<Longrightarrow> 4 dvd k \<Longrightarrow> align4 n \<le> k"
  unfolding align4_def by (auto elim!: dvdE)

lemma dvd_align4 [simp]: "4 dvd align4 n"
  by (simp add: align4_def)

lemma unat_align4: "unat (ALIGN_UP (ucast (x :: u32)) CBFS_MCACHE_ALIGNMENT) = align4 (unat x)"
  using unat_ALIGN_UP [of 2 "ucast x"] unat_less_32 [of x]
  by (simp add: CBFS_MCACHE_ALIGNMENT_def align4_def unat_ucast_up)

lemma entries_at_le: "entries_at buf pos c is e \<Longrightarrow> pos \<le> e"
proof (induction "is" arbitrary: pos)
  case (Cons i "is")
  then have "pos + align4 (file_data c i) \<le> e" by simp
  then show ?case by simp
qed simp

lemma entries_at_append:
  "entries_at buf pos c (is @ js) e \<longleftrightarrow> (\<exists>m. entries_at buf pos c is m \<and> entries_at buf m c js e)"
  by (induction "is" arbitrary: pos) auto

text \<open>The entries depend on the cache only up to their end.\<close>

lemma entries_at_frame:
  assumes "take k buf = take k buf'" "e \<le> k" "k \<le> length buf" "k \<le> length buf'"
  shows "entries_at buf pos c is e \<Longrightarrow> entries_at buf' pos c is e"
proof (induction "is" arbitrary: pos)
  case (Cons i "is")
  let ?d = "file_data c i"
  have "pos + align4 ?d \<le> e" using Cons.prems by (auto dest: entries_at_le)
  then have le: "pos + ?d \<le> k" using align4_ge [of ?d] assms(2) by linarith
  have "take ?d (drop pos x) = take ?d (drop pos (take k x))" for x :: "u8 list"
    using le by (simp add: drop_take min_def)
  then have "take ?d (drop pos buf) = take ?d (drop pos buf')" using assms(1) by metis
  then show ?case using Cons le assms(4) by auto
qed simp

subsection \<open>What building makes\<close>

text \<open>The build walker satisfies the contract of walkers too.\<close>

interpretation build: cbfs_walker "build_walker fatal dev" for fatal :: bool and dev :: cbfs_dev
proof
  fix k :: size_t and m m' :: "u8 list" and off s
  assume a: "unat k \<le> length m" "unat k \<le> length m'" "take (unat k) m = take (unat k) m'" "cbfs_file_size < unat k"
  note eqs = copy_fill_prefix [OF a(3,1,2) less_imp_le [OF a(4)]] header_prefix [OF a(3) less_imp_le [OF a(4)]]
  show "build_walker fatal dev off m k s = build_walker fatal dev off m' k s"
    unfolding build_walker_def Let_def eqs ..
qed

lemma put_prefix:
  assumes "length a = length a'" "at + length a + length b \<le> length buf"
  shows "put_at (take at buf @ (a @ b) @ drop (at + length a + length b) buf) at a' =
    Some (take at buf @ (a' @ b) @ drop (at + length a + length b) buf)"
  using assms by (simp add: put_at_def)

lemma put_middle:
  assumes "length b = length b'" "at + length a + length b + length r \<le> length buf"
  shows "put_at (take at buf @ (a @ b @ r) @ drop (at + length a + length b + length r) buf) (at + length a) b' =
    Some (take at buf @ (a @ b' @ r) @ drop (at + length a + length b + length r) buf)"
  using assms by (simp add: put_at_def)

text \<open>Tagging an entry overwrites the magic of the metadata.\<close>

lemma put_tags:
  fixes md t1 t2 :: "u8 list"
  assumes "at + length md \<le> length buf" "8 \<le> length md" "length t1 = 4" "length t2 = 4"
  shows "Option.bind (put_at buf at md) (\<lambda>b. Option.bind (put_at b at t1) (\<lambda>b. put_at b (at + 4) t2)) =
    Some (take at buf @ (t1 @ t2 @ drop 8 md) @ drop (at + length md) buf)"
proof -
  define a b r where "a = take 4 md" and "b = take 4 (drop 4 md)" and "r = drop 8 md"
  have md: "md = a @ b @ r" by (simp add: a_def b_def r_def) (metis append_take_drop_id drop_drop numeral_Bit0)
  have l: "length a = 4" "length b = 4" using assms(2) by (simp_all add: a_def b_def)
  show ?thesis
    using put_prefix [of a t1 at "b @ r" buf] put_middle [of b t2 at t1 r buf] assms(1,3,4) l
    unfolding md by (simp add: put_at_Some add.assoc)
qed

lemma dvd_room: "4 dvd p \<Longrightarrow> 4 dvd e \<Longrightarrow> int p \<le> e \<Longrightarrow> 4 dvd nat (e - int p)"
proof -
  assume a: "4 dvd p" "4 dvd e" "int p \<le> e"
  then have "int 4 dvd int p" by (simp only: int_dvd_int_iff)
  then have "int 4 dvd e - int p" using a(2) by (intro dvd_diff) simp_all
  then have "int 4 dvd int (nat (e - int p))" using a(3) by simp
  then show ?thesis by (simp only: int_dvd_int_iff)
qed

definition mcache_ok :: "mcache_build_args \<Rightarrow> bool" where
  "mcache_ok st \<longleftrightarrow> int (mcache_ptr st) \<le> mcache_end st \<and>
     mcache_end st + 4 \<le> int (length (mcache_buf st)) \<and> 4 dvd mcache_ptr st \<and> 4 dvd mcache_end st"

lemma length_entry_bytes: "8 \<le> file_data c i \<Longrightarrow> length (entry_bytes c i) = file_data c i"
  by (simp add: entry_bytes_def)

context cbfs_media
begin

lemma build_step:
  assumes "ok m" "file_at (cell m) (media_len m) i" "file_visible hashed inc (cell m) i"
    "attrs_behind_header (cell m) i \<or> \<not> hashed" "mcache_ok st"
  shows "build_walker fatal (dev m) (of_nat i) (seen hashed (cell m) i) (of_nat (read_len hashed (cell m) i)) st =
    Some (if mcache_end st < int (mcache_ptr st + file_data (cell m) i) then (CB_CBFS_CACHE_FULL, st)
      else (CB_CBFS_NOT_FOUND,
        st\<lparr>mcache_buf := take (mcache_ptr st) (mcache_buf st) @ entry_bytes (cell m) i @
             drop (mcache_ptr st + file_data (cell m) i) (mcache_buf st),
           mcache_ptr := mcache_ptr st + align4 (file_data (cell m) i),
           mcache_count := mcache_count st + 1\<rparr>))"
proof -
  let ?c = "cell m" let ?d = "file_data (cell m) i" and ?p = "mcache_ptr st" and ?b = "mcache_buf st"
  have d: "8 \<le> ?d"
    using read_len_le [OF assms(3)] assms(3) by (auto simp: file_visible_def cbfs_file_size_def)
  have i: "i < 2 ^ 32" using assms(2) media_size [OF assms(1)] by (auto simp: file_at_def)
  have ho: "h_offset (seen hashed ?c i) = h_offset (file_header ?c i)" by (rule seen_offset [OF assms(3,4)])
  have u: "(ucast (of_nat i :: size_t) :: u32) = of_nat i" by (rule ucast_down_of_nat)
  have full: "mcache_end st - int ?p < int ?d \<longleftrightarrow> mcache_end st < int (?p + ?d)" by auto
  show ?thesis
  proof (cases "mcache_end st < int (?p + ?d)")
    case True
    then show ?thesis using full by (simp add: build_walker_def Let_def ho file_data_def)
  next
    case False
    then have fits: "?p + ?d \<le> length ?b" using assms(5) by (simp add: mcache_ok_def)
    have cp: "cbfs_copy_fill_metadata fatal ?b ?p (seen hashed ?c i) (of_nat (read_len hashed ?c i)) (dev m) (of_nat i) =
        map_option (Pair CB_SUCCESS) (put_at ?b ?p (full_mdata ?c i))"
      by (rule copy_fill [OF assms(1-4) fits])
    obtain b where b: "put_at ?b ?p (full_mdata ?c i) = Some b" using fits by (simp add: put_at_def)
    have t: "Option.bind (put_at b ?p (le_bytes 4 MCACHE_MAGIC_FILE)) (\<lambda>b. put_at b (?p + 4) (le_bytes 4 (of_nat i :: u32))) =
        Some (take ?p ?b @ entry_bytes ?c i @ drop (?p + ?d) ?b)"
      using put_tags [of ?p "full_mdata ?c i" ?b "le_bytes 4 MCACHE_MAGIC_FILE" "le_bytes 4 (of_nat i :: u32)"] fits d b
      by (simp add: entry_bytes_def)
    show ?thesis
      using False full unfolding build_walker_def Let_def cp b ho unat_align4 u
      by (simp add: bind_bind_Some [OF t] file_data_def)
  qed
qed

lemma visit_build:
  assumes "ok m"
    "\<forall>i \<in> set is. file_at (cell m) (media_len m) i \<and> file_visible hashed inc (cell m) i \<and>
      (attrs_behind_header (cell m) i \<or> \<not> hashed)"
    "mcache_ok st"
  shows "\<exists>e st' fs rest. visit_files hashed (build_walker fatal (dev m)) (cell m) is st = Some (e, st') \<and>
    is = fs @ rest \<and> e = (if rest = [] then CB_CBFS_NOT_FOUND else CB_CBFS_CACHE_FULL) \<and>
    entries_at (mcache_buf st') (mcache_ptr st) (cell m) fs (mcache_ptr st') \<and>
    take (mcache_ptr st) (mcache_buf st') = take (mcache_ptr st) (mcache_buf st) \<and>
    length (mcache_buf st') = length (mcache_buf st) \<and> mcache_end st' = mcache_end st \<and> mcache_ok st'"
  using assms(2,3)
proof (induction "is" arbitrary: st)
  case Nil
  then show ?case by auto
next
  case (Cons i "is")
  let ?d = "file_data (cell m) i" and ?p = "mcache_ptr st" and ?b = "mcache_buf st"
  have f: "file_at (cell m) (media_len m) i" "file_visible hashed inc (cell m) i"
    "attrs_behind_header (cell m) i \<or> \<not> hashed" using Cons.prems(1) by auto
  note step = build_step [OF assms(1) f Cons.prems(2), of fatal]
  show ?case
  proof (cases "mcache_end st < int (?p + ?d)")
    case True
    have "visit_files hashed (build_walker fatal (dev m)) (cell m) (i # is) st = Some (CB_CBFS_CACHE_FULL, st)"
      using True by (simp add: step)
    then show ?thesis using Cons.prems(2)
      by (intro exI [of _ CB_CBFS_CACHE_FULL] exI [of _ st] exI [of _ "[]"] exI [of _ "i # is"]) simp
  next
    case False
    define st1 where "st1 = st\<lparr>mcache_buf := take ?p ?b @ entry_bytes (cell m) i @ drop (?p + ?d) ?b,
           mcache_ptr := ?p + align4 ?d, mcache_count := mcache_count st + 1\<rparr>"
    have d: "8 \<le> ?d" using read_len_le [OF f(2)] f(2) by (auto simp: file_visible_def cbfs_file_size_def)
    note le = length_entry_bytes [OF d]
    have fits: "?p + ?d \<le> length ?b" using False Cons.prems(2) by (simp add: mcache_ok_def)
    have "?p + align4 ?d \<le> nat (mcache_end st)"
    proof -
      have "align4 ?d \<le> nat (mcache_end st - int ?p)"
        using False Cons.prems(2) by (intro align4_least dvd_room) (auto simp: mcache_ok_def)
      then show ?thesis using False by linarith
    qed
    then have ok1: "mcache_ok st1" using Cons.prems(2) fits le
      by (auto simp: mcache_ok_def st1_def)
    have "\<forall>j \<in> set is. file_at (cell m) (media_len m) j \<and> file_visible hashed inc (cell m) j \<and>
      (attrs_behind_header (cell m) j \<or> \<not> hashed)" using Cons.prems(1) by simp
    from Cons.IH [OF this ok1] obtain e st' fs rest where ih:
      "visit_files hashed (build_walker fatal (dev m)) (cell m) is st1 = Some (e, st')"
      "is = fs @ rest" "e = (if rest = [] then CB_CBFS_NOT_FOUND else CB_CBFS_CACHE_FULL)"
      "entries_at (mcache_buf st') (mcache_ptr st1) (cell m) fs (mcache_ptr st')"
      "take (mcache_ptr st1) (mcache_buf st') = take (mcache_ptr st1) (mcache_buf st1)"
      "length (mcache_buf st') = length (mcache_buf st1)" "mcache_end st' = mcache_end st1" "mcache_ok st'"
      by blast
    have p1: "mcache_ptr st1 = ?p + align4 ?d" "length (mcache_buf st1) = length ?b" "mcache_end st1 = mcache_end st"
      using fits le by (auto simp: st1_def)
    have front: "take k (mcache_buf st') = take k (mcache_buf st1)" if "k \<le> ?p + align4 ?d" for k
      using arg_cong [OF ih(5), of "take k"] that by (simp add: p1 min_absorb1)
    have "take ?d (drop ?p (mcache_buf st')) = take ?d (drop ?p (mcache_buf st1))"
      using arg_cong [OF front [of "?p + ?d"], of "drop ?p"] align4_ge [of ?d] by (simp add: drop_take)
    also have "\<dots> = entry_bytes (cell m) i" using fits le by (simp add: st1_def)
    finally have e: "entries_at (mcache_buf st') ?p (cell m) (i # fs) (mcache_ptr st')"
      using ih(4,6) fits by (simp add: p1)
    have t: "take ?p (mcache_buf st') = take ?p ?b"
      using front [of ?p] fits by (simp add: st1_def)
    have "visit_files hashed (build_walker fatal (dev m)) (cell m) (i # is) st = Some (e, st')"
      using False ih(1) by (simp add: step st1_def)
    then show ?thesis using ih e t p1
      by (intro exI [of _ e] exI [of _ st'] exI [of _ "i # fs"] exI [of _ rest]) simp
  qed
qed

end

subsection \<open>What a lookup finds\<close>

text \<open>A cache: entries from the start, and a tag behind them that fits into it.\<close>

definition mcache_holds :: "u8 list \<Rightarrow> nat \<Rightarrow> (nat \<Rightarrow> u8) \<Rightarrow> nat list \<Rightarrow> nat \<Rightarrow> u32 \<Rightarrow> bool" where
  "mcache_holds buf pos c is e tag \<longleftrightarrow> entries_at buf pos c is e \<and> e + 4 \<le> length buf \<and>
     take 4 (drop e buf) = le_bytes 4 tag"

definition cached_result :: "(nat \<Rightarrow> u8) \<Rightarrow> nat \<Rightarrow> lookup_out \<Rightarrow> lookup_out" where
  "cached_result c i out =
     out\<lparr>mdata_out := entry_bytes c i @ drop (file_data c i) (mdata_out out),
         data_offset_out := of_nat (i + file_data c i)\<rparr>"

lemma magics_differ [simp]:
  "MCACHE_MAGIC_FILE \<noteq> MCACHE_MAGIC_END" "MCACHE_MAGIC_FILE \<noteq> MCACHE_MAGIC_FULL"
  "MCACHE_MAGIC_FULL \<noteq> MCACHE_MAGIC_END"
  by (simp_all add: MCACHE_MAGIC_FILE_def MCACHE_MAGIC_END_def MCACHE_MAGIC_FULL_def)

lemma le_value_32 [simp]: "le_value (le_bytes 4 (v :: u32)) = v"
  by (simp add: le_value_full)

text \<open>What the lookup reads of an entry.\<close>

lemma entry_reads:
  assumes "pos + file_data c i \<le> length buf" "take (file_data c i) (drop pos buf) = entry_bytes c i"
    "file_visible False inc c i"
  shows "get_at buf pos 4 = Some (le_bytes 4 MCACHE_MAGIC_FILE)"
    and "\<exists>h. get_at buf pos cbfs_file_size = Some h \<and> h_offset h = h_offset (file_header c i) \<and>
      take 4 (drop 4 h) = le_bytes 4 (of_nat i :: u32)"
    and "n \<le> file_data c i - cbfs_file_size \<Longrightarrow>
      get_at buf (pos + cbfs_file_size) n = Some (take n (drop cbfs_file_size (full_mdata c i)))"
    and "get_at buf pos (file_data c i) = Some (entry_bytes c i)"
proof -
  let ?d = "file_data c i"
  have d: "cbfs_file_size < ?d" using read_len_le [OF assms(3)] assms(3) by (auto simp: file_visible_def)
  then have d24: "24 < ?d" by (simp add: cbfs_file_size_def)
  have a: "attrs_behind_header c i" using assms(3)
    by (auto simp: file_visible_def read_len_def attrs_behind_header_def split: if_splits)
  have g: "get_at buf (pos + j) n = Some (take n (drop j (entry_bytes c i)))" if "j + n \<le> ?d" for j n
  proof -
    have "take n (drop (pos + j) buf) = take n (drop j (take ?d (drop pos buf)))"
      using that by (simp add: drop_take min_def add.commute)
    then show ?thesis using that assms(1,2) by (simp add: get_at_def)
  qed
  show "get_at buf pos 4 = Some (le_bytes 4 MCACHE_MAGIC_FILE)"
    using g [of 0 4] d24 by (simp add: entry_bytes_def)
  show "get_at buf pos ?d = Some (entry_bytes c i)"
    using g [of 0 ?d] d24 by (simp add: length_entry_bytes)
  have e24: "drop cbfs_file_size (entry_bytes c i) = drop cbfs_file_size (full_mdata c i)"
    using d24 by (simp add: entry_bytes_def cbfs_file_size_def)
  show "n \<le> ?d - cbfs_file_size \<Longrightarrow>
      get_at buf (pos + cbfs_file_size) n = Some (take n (drop cbfs_file_size (full_mdata c i)))"
    using g [of cbfs_file_size n] d by (simp add: e24)
  have v: "file_visible True inc c i" using assms(3) a by (simp add: visible_hashed)
  have ho: "h_offset (full_mdata c i) = h_offset (file_header c i)"
    using seen_offset [OF v] a by (simp add: seen_True)
  have "take 4 (drop 20 (take 24 (entry_bytes c i))) = take 4 (drop 20 (full_mdata c i))"
    using d24 by (simp add: entry_bytes_def drop_take take_drop [symmetric] numeral_eq_Suc [symmetric] min_def)
  then have "h_offset (take cbfs_file_size (entry_bytes c i)) = h_offset (full_mdata c i)"
    by (simp add: h_offset_def be32_at_def cbfs_file_size_def)
  moreover have "take 4 (drop 4 (take cbfs_file_size (entry_bytes c i))) = le_bytes 4 (of_nat i :: u32)"
    by (simp add: entry_bytes_def cbfs_file_size_def drop_take)
  moreover have "get_at buf pos cbfs_file_size = Some (take cbfs_file_size (entry_bytes c i))"
    using g [of 0 cbfs_file_size] d by simp
  ultimately show "\<exists>h. get_at buf pos cbfs_file_size = Some h \<and> h_offset h = h_offset (file_header c i) \<and>
      take 4 (drop 4 h) = le_bytes 4 (of_nat i :: u32)" using ho by simp
qed

lemma lookup_entry:
  assumes "pos + file_data c i \<le> length buf" "take (file_data c i) (drop pos buf) = entry_bytes c i"
    "file_visible False inc c i" "file_data c i \<le> CBFS_METADATA_MAX_SIZE" "i + file_data c i < 2 ^ 32"
    "pos + 4 \<le> unat mcache_size" "0 \<notin> set name" "length name < 2 ^ 63"
    "length (mdata_out out) = CBFS_METADATA_MAX_SIZE"
  shows "mcache_lookup_loop fatal buf mcache_size name pos out =
    (if file_name False c i = name then Some (CB_SUCCESS, cached_result c i out)
     else mcache_lookup_loop fatal buf mcache_size name (pos + align4 (file_data c i)) out)"
proof -
  let ?d = "file_data c i"
  have d: "cbfs_file_size < ?d" using read_len_le [OF assms(3)] assms(3) by (auto simp: file_visible_def)
  have a: "attrs_behind_header c i" using assms(3)
    by (auto simp: file_visible_def read_len_def attrs_behind_header_def split: if_splits)
  have v: "file_visible True inc c i" using assms(3) a by (simp add: visible_hashed)
  note r = entry_reads [OF assms(1-3)]
  obtain h where h: "get_at buf pos cbfs_file_size = Some h" "h_offset h = h_offset (file_header c i)"
    "take 4 (drop 4 h) = le_bytes 4 (of_nat i :: u32)" using r(2) by blast
  have un: "unat (of_nat (length name + 1) :: size_t) = length name + 1" using assms(8) by (intro unat_of_nat_lt) simp
  have us: "unat (ucast (h_offset (file_header c i)) :: size_t) = ?d" by (simp add: unat_ucast_up file_data_def)
  have le: "of_nat (length name + 1) \<le> (ucast (h_offset (file_header c i)) - of_nat cbfs_file_size :: size_t) \<longleftrightarrow>
      length name + 1 \<le> ?d - cbfs_file_size"
    using unat_less_sub [of "ucast (h_offset (file_header c i))"] d unfolding word_le_nat_alt un us by simp
  have found: "(if of_nat (length name + 1) \<le> (ucast (h_offset (file_header c i)) - of_nat cbfs_file_size :: size_t)
      then map_option (\<lambda>filename. filename = name @ [0])
        (get_at buf (pos + cbfs_file_size) (unat (of_nat (length name + 1) :: size_t)))
      else Some False) = Some (file_name False c i = name)"
    using r(3) [of "length name + 1"] name_matches [OF assms(7) v disjI1 [OF a]]
    unfolding le un by (auto simp: name_hashed [OF a assms(3), symmetric] seen_True read_len_def)
  have eo: "ucast (of_nat i + h_offset (file_header c i) :: u32) = (of_nat (i + ?d) :: size_t)"
  proof (rule word_eq_unatI)
    have "unat (of_nat i + h_offset (file_header c i) :: u32) = i + ?d"
      using assms(5) by (subst unat_add_no_wrap) (simp_all add: unat_of_nat_lt file_data_def)
    then show "unat (ucast (of_nat i + h_offset (file_header c i) :: u32) :: size_t) = unat (of_nat (i + ?d) :: size_t)"
      using assms(5) by (simp add: unat_ucast_up unat_of_nat_lt del: of_nat_add)
  qed
  have p: "put_at (mdata_out out) 0 (entry_bytes c i) = Some (entry_bytes c i @ drop ?d (mdata_out out))"
    using assms(4,9) d by (simp add: put_at_Some length_entry_bytes cbfs_file_size_def)
  have ud: "unat (h_offset (file_header c i)) = ?d" by (simp add: file_data_def)
  show ?thesis
    by (subst mcache_lookup_loop.simps)
      (simp only: assms(6) r(1,4) h Let_def found eo ud p unat_align4 cached_result_def not_True_eq_False
        if_False if_True Option.bind.simps le_value_32 magics_differ c_assert_True option.map simp_thms)
qed

lemma lookup_entries:
  assumes "tag = MCACHE_MAGIC_END \<or> tag = MCACHE_MAGIC_FULL" "length buf \<le> unat mcache_size"
    "0 \<notin> set name" "length name < 2 ^ 63" "length (mdata_out out) = CBFS_METADATA_MAX_SIZE"
    "\<And>i. i \<in> set is \<Longrightarrow> file_visible False inc c i \<and> file_data c i \<le> CBFS_METADATA_MAX_SIZE \<and>
      i + file_data c i < 2 ^ 32"
  shows "mcache_holds buf pos c is e tag \<Longrightarrow> mcache_lookup_loop fatal buf mcache_size name pos out =
    Some (case find (\<lambda>i. file_name False c i = name) is of
            Some i \<Rightarrow> (CB_SUCCESS, cached_result c i out)
          | None \<Rightarrow> (if tag = MCACHE_MAGIC_END then CB_CBFS_NOT_FOUND else CB_CBFS_CACHE_FULL, out))"
  using assms(6)
proof (induction "is" arbitrary: pos)
  case Nil
  then have h: "pos + 4 \<le> length buf" "get_at buf pos 4 = Some (le_bytes 4 tag)"
    by (auto simp: mcache_holds_def get_at_def)
  then have "pos + 4 \<le> unat mcache_size" using assms(2) by linarith
  then show ?case using h(2) assms(1)
    by (subst mcache_lookup_loop.simps) auto
next
  case (Cons i "is")
  have e: "pos + file_data c i \<le> length buf" "take (file_data c i) (drop pos buf) = entry_bytes c i"
    "mcache_holds buf (pos + align4 (file_data c i)) c is e tag"
    using Cons.prems(1) by (auto simp: mcache_holds_def)
  have f: "file_visible False inc c i" "file_data c i \<le> CBFS_METADATA_MAX_SIZE" "i + file_data c i < 2 ^ 32"
    using Cons.prems(2) [of i] by auto
  have "pos + align4 (file_data c i) \<le> e" "e + 4 \<le> length buf"
    using Cons.prems(1) by (auto simp: mcache_holds_def dest: entries_at_le)
  then have "pos + 4 \<le> unat mcache_size" using assms(2) by linarith
  note lookup_entry [OF e(1,2) f this assms(3-5), of fatal]
  then show ?case using Cons.IH [OF e(3)] Cons.prems(2) by simp
qed

text \<open>The part of the cache behind its final tag is not needed.\<close>

lemma holds_prefix:
  assumes "mcache_holds buf pos c is e tag" "e + 4 \<le> k" "k \<le> length buf"
  shows "mcache_holds (take k buf) pos c is e tag"
proof -
  have "take k buf = take k (take k buf)" by simp
  from entries_at_frame [OF this, of e pos c "is"] assms show ?thesis
    by (simp add: mcache_holds_def drop_take min_absorb1)
qed

lemma real_size_entries:
  assumes "tag = MCACHE_MAGIC_END \<or> tag = MCACHE_MAGIC_FULL" "length buf \<le> unat mcache_size"
    "\<And>i. i \<in> set is \<Longrightarrow> file_visible False inc c i"
  shows "mcache_holds buf pos c is e tag \<Longrightarrow> real_size_loop fatal buf mcache_size pos = Some (e + 4)"
  using assms(3)
proof (induction "is" arbitrary: pos)
  case Nil
  then have h: "pos + 4 \<le> length buf" "get_at buf pos 4 = Some (le_bytes 4 tag)" "pos = e"
    by (auto simp: mcache_holds_def get_at_def)
  then have "pos + 4 \<le> unat mcache_size" using assms(2) by linarith
  then show ?case using h(2,3) assms(1)
    by (subst real_size_loop.simps) auto
next
  case (Cons i "is")
  have e: "pos + file_data c i \<le> length buf" "take (file_data c i) (drop pos buf) = entry_bytes c i"
    "mcache_holds buf (pos + align4 (file_data c i)) c is e tag"
    using Cons.prems(1) by (auto simp: mcache_holds_def)
  have f: "file_visible False inc c i" using Cons.prems(2) [of i] by auto
  have "pos + align4 (file_data c i) \<le> e" "e + 4 \<le> length buf"
    using Cons.prems(1) by (auto simp: mcache_holds_def dest: entries_at_le)
  then have p: "pos + 4 \<le> unat mcache_size" using assms(2) by linarith
  note r = entry_reads [OF e(1,2) f]
  from r(2) obtain h where "get_at buf pos cbfs_file_size = Some h" "h_offset h = h_offset (file_header c i)" by blast
  then have "real_size_loop fatal buf mcache_size pos =
      real_size_loop fatal buf mcache_size (pos + align4 (file_data c i))"
    using p r(1) by (subst real_size_loop.simps) (simp add: unat_align4 file_data_def)
  then show ?case using Cons.IH [OF e(3)] Cons.prems(2) by simp
qed

lemma visible_behind: "file_visible False inc c i \<Longrightarrow> attrs_behind_header c i"
  by (auto simp: file_visible_def read_len_def attrs_behind_header_def split: if_splits)

lemma put_tag_holds:
  assumes "entries_at buf 0 c is e" "e + 4 \<le> length buf"
  obtains buf' where "put_at buf e (le_bytes 4 tag) = Some buf'" "mcache_holds buf' 0 c is e tag"
    "length buf' = length buf"
proof
  let ?b = "take e buf @ le_bytes 4 tag @ drop (e + 4) buf"
  show "put_at buf e (le_bytes 4 tag) = Some ?b" using assms(2) by (simp add: put_at_Some)
  show "length ?b = length buf" using assms(2) by simp
  have "entries_at ?b 0 c is e"
    by (rule entries_at_frame [OF _ order_refl _ _ assms(1)]) (use assms(2) in auto)
  then show "mcache_holds ?b 0 c is e tag" using assms(2) by (simp add: mcache_holds_def)
qed

lemma build_start:
  assumes "4 < mcache_size" "length buf = unat mcache_size"
  shows "mcache_ok \<lparr>mcache_buf = buf, mcache_ptr = 0,
    mcache_end = int (unat (ALIGN_DOWN mcache_size CBFS_MCACHE_ALIGNMENT)) - 4, mcache_count = 0\<rparr>"
proof -
  have a: "unat (ALIGN_DOWN mcache_size CBFS_MCACHE_ALIGNMENT) = unat mcache_size div 4 * 4"
    using unat_ALIGN_DOWN [of mcache_size 2] by (simp add: CBFS_MCACHE_ALIGNMENT_def)
  have "4 < unat mcache_size" using assms(1) by (simp add: word_less_nat_alt)
  then have "4 \<le> unat mcache_size div 4 * 4" "unat mcache_size div 4 * 4 \<le> length buf" using assms(2) by simp_all
  moreover have "4 dvd int (unat mcache_size div 4 * 4) - 4" by (intro dvd_diff) simp_all
  ultimately show ?thesis unfolding mcache_ok_def a mcache_build_args.simps
    by (intro conjI) (linarith | simp)+
qed

context cbfs_media
begin

lemma build_holds:
  assumes "ok m" "files_advance (cell m) (media_len m) 0" "length stack = CBFS_METADATA_MAX_SIZE"
    "4 < mcache_size" "IS_ALIGNED base CBFS_MCACHE_ALIGNMENT" "length buf = unat mcache_size"
  obtains e buf' fs rest p where
    "cbfs_mcache_build env (dev m) stack base buf mcache_size None = Some (e, buf')"
    "walk_files False False (cell m) (media_len m) = fs @ rest"
    "e = (if rest = [] then CB_SUCCESS else CB_CBFS_CACHE_FULL)"
    "mcache_holds buf' 0 (cell m) fs p (if rest = [] then MCACHE_MAGIC_END else MCACHE_MAGIC_FULL)"
    "length buf' = length buf"
proof -
  let ?st = "\<lparr>mcache_buf = buf, mcache_ptr = 0,
    mcache_end = int (unat (ALIGN_DOWN mcache_size CBFS_MCACHE_ALIGNMENT)) - 4, mcache_count = 0\<rparr>"
  have fs: "\<forall>i \<in> set (walk_files False False (cell m) (media_len m)).
      file_at (cell m) (media_len m) i \<and> file_visible False False (cell m) i \<and>
      (attrs_behind_header (cell m) i \<or> \<not> False)" using walk_files_facts by blast
  from visit_build [OF assms(1) fs build_start [OF assms(4,6)], where fatal = "cbfs_fatal_asserts env"] obtain e st' fs rest where
    v: "visit_files False (build_walker (cbfs_fatal_asserts env) (dev m)) (cell m)
        (walk_files False False (cell m) (media_len m)) ?st = Some (e, st')"
      "walk_files False False (cell m) (media_len m) = fs @ rest"
      "e = (if rest = [] then CB_CBFS_NOT_FOUND else CB_CBFS_CACHE_FULL)"
      "entries_at (mcache_buf st') 0 (cell m) fs (mcache_ptr st')"
      "length (mcache_buf st') = length buf" "mcache_ok st'" by auto
  let ?tag = "if rest = [] then MCACHE_MAGIC_END else MCACHE_MAGIC_FULL"
  have "mcache_ptr st' + 4 \<le> length (mcache_buf st')" using v(6) by (simp add: mcache_ok_def)
  from put_tag_holds [OF v(4) this, of ?tag] obtain buf' where
    b: "put_at (mcache_buf st') (mcache_ptr st') (le_bytes 4 ?tag) = Some buf'"
      "mcache_holds buf' 0 (cell m) fs (mcache_ptr st') ?tag" "length buf' = length (mcache_buf st')" .
  have "cbfs_mcache_build env (dev m) stack base buf mcache_size None =
      Some (if rest = [] then CB_SUCCESS else CB_CBFS_CACHE_FULL, buf')"
    using assms(4,5) v(1,3) b(1)
    by (cases "rest = []") (simp_all add: cbfs_mcache_build_def walk_without_hash [OF assms(1) build.cbfs_walker_axioms assms(2,3)])
  from that [OF this v(2) refl b(2)] b(3) v(5) show thesis by simp
qed

lemma mcache_lookup_equiv:
  assumes "ok m" "files_advance (cell m) (media_len m) 0" "length stack = CBFS_METADATA_MAX_SIZE"
    "walk_files False False (cell m) (media_len m) = fs @ rest"
    "mcache_holds buf 0 (cell m) fs p (if rest = [] then MCACHE_MAGIC_END else MCACHE_MAGIC_FULL)"
    "length buf \<le> unat mcache_size"
    "0 \<notin> set name" "length name < 2 ^ 63" "length (mdata_out out) = CBFS_METADATA_MAX_SIZE"
  shows "\<exists>e out1 out2. cbfs_mcache_lookup (cbfs_fatal_asserts env) buf mcache_size name out = Some (e, out1) \<and>
    (e = CB_CBFS_CACHE_FULL \<and> rest \<noteq> [] \<and> out1 = out \<or>
     cbfs_lookup env (dev m) stack name out None = Some (e, out2) \<and>
     data_offset_out out1 = data_offset_out out2 \<and> drop 8 (mdata_out out1) = drop 8 (mdata_out out2))"
proof -
  let ?c = "cell m" and ?tag = "if rest = [] then MCACHE_MAGIC_END else MCACHE_MAGIC_FULL"
  let ?f = "\<lambda>i. file_name False ?c i = name"
  have fs: "file_visible False False ?c i \<and> file_data ?c i \<le> CBFS_METADATA_MAX_SIZE \<and> i + file_data ?c i < 2 ^ 32"
    if "i \<in> set fs" for i
    using walk_files_facts [of i False False ?c "media_len m"] that assms(4) media_size [OF assms(1)]
    by (auto simp: file_at_def)
  have tag: "?tag = MCACHE_MAGIC_END \<or> ?tag = MCACHE_MAGIC_FULL" by simp
  have c: "mcache_lookup_loop (cbfs_fatal_asserts env) buf mcache_size name 0 out =
    Some (case find ?f fs of
            Some i \<Rightarrow> (CB_SUCCESS, cached_result ?c i out)
          | None \<Rightarrow> (if ?tag = MCACHE_MAGIC_END then CB_CBFS_NOT_FOUND else CB_CBFS_CACHE_FULL, out))"
    by (rule lookup_entries [OF tag assms(6,7,8,9) _ assms(5)]) (rule fs)
  have ff: "find ?f (fs @ rest) = (case find ?f fs of None \<Rightarrow> find ?f rest | Some i \<Rightarrow> Some i)" by (induction fs) auto
  note l = lookup_finds [OF assms(1-3,7-9), of env, unfolded find_file_def assms(4) ff]
  have d: "8 \<le> file_data ?c i" if "find ?f fs = Some i" for i
  proof -
    have "i \<in> set fs" using that by (auto simp: find_Some_iff)
    from fs [OF this] show ?thesis using read_len_le [of False False ?c i] by (auto simp: file_visible_def cbfs_file_size_def)
  qed
  show ?thesis
  proof (cases "find ?f fs")
    case None
    then show ?thesis unfolding cbfs_mcache_lookup_def c l
      by (cases rest) (auto intro: magics_differ(3) [THEN notE])
  next
    case (Some i)
    have "drop 8 (entry_bytes ?c i @ xs) = drop 8 (full_mdata ?c i @ xs)" for xs
      using d [OF Some] by (simp add: entry_bytes_def)
    note e8 = this [of "drop (file_data ?c i) (mdata_out out)"]
    show ?thesis unfolding cbfs_mcache_lookup_def c l
      by (simp add: Some cached_result_def lookup_result_def e8 del: drop_append)
  qed
qed

end

subsection \<open>Properties\<close>

lemma rom_build_holds:
  assumes "mapped_rom rd" "files_advance (rom_byte w rd) (rom_size rd) 0"
    "length stack = CBFS_METADATA_MAX_SIZE" "4 < mcache_size"
    "IS_ALIGNED base CBFS_MCACHE_ALIGNMENT" "length buf = unat mcache_size"
  obtains r buf' fs rest p where
    "cbfs_mcache_build env (cbfs_rdev drv w rd) stack base buf mcache_size None = Some (r, buf')"
    "walk_files False False (rom_byte w rd) (rom_size rd) = fs @ rest"
    "r = (if rest = [] then CB_SUCCESS else CB_CBFS_CACHE_FULL)"
    "mcache_holds buf' 0 (rom_byte w rd) fs p (if rest = [] then MCACHE_MAGIC_END else MCACHE_MAGIC_FULL)"
    "length buf' = length buf"
  by (rule rom.build_holds [of "(w, rd)" drv stack mcache_size base buf env, unfolded prod.case rom_media_len, OF assms])

text \<open>C9: building a cache for a mapped flash always returns, with success when all files fit and with the
  code for a full cache when not. Every later lookup in the cache gives what the walk over the medium gives: the same
  answer, the same data offset, and the same metadata behind the first 8 bytes; only in a full cache it may
  instead answer that the medium has to be searched.\<close>

theorem mcache_agrees_with_medium:
  assumes "mapped_rom rd" "files_advance (rom_byte w rd) (rom_size rd) 0"
    "length stack = CBFS_METADATA_MAX_SIZE" "4 < mcache_size"
    "IS_ALIGNED base CBFS_MCACHE_ALIGNMENT" "length buf = unat mcache_size"
    "0 \<notin> set name" "length name < 2 ^ 63" "length (mdata_out out) = CBFS_METADATA_MAX_SIZE"
  shows "\<exists>r buf' e out1 out2.
    cbfs_mcache_build env (cbfs_rdev drv w rd) stack base buf mcache_size None = Some (r, buf') \<and>
    (r = CB_SUCCESS \<or> r = CB_CBFS_CACHE_FULL) \<and>
    cbfs_mcache_lookup (cbfs_fatal_asserts env) buf' mcache_size name out = Some (e, out1) \<and>
    (e = CB_CBFS_CACHE_FULL \<and> r = CB_CBFS_CACHE_FULL \<and> out1 = out \<or>
     cbfs_lookup env (cbfs_rdev drv w rd) stack name out None = Some (e, out2) \<and>
     data_offset_out out1 = data_offset_out out2 \<and> drop 8 (mdata_out out1) = drop 8 (mdata_out out2))"
proof -
  let ?m = "(w, rd)"
  obtain r buf' fs rest p where b:
    "cbfs_mcache_build env (cbfs_rdev drv w rd) stack base buf mcache_size None = Some (r, buf')"
    "walk_files False False (rom_byte w rd) (rom_size rd) = fs @ rest"
    "r = (if rest = [] then CB_SUCCESS else CB_CBFS_CACHE_FULL)"
    "mcache_holds buf' 0 (rom_byte w rd) fs p (if rest = [] then MCACHE_MAGIC_END else MCACHE_MAGIC_FULL)"
    "length buf' = length buf"
    by (rule rom_build_holds [OF assms(1-6)])
  have l: "length buf' \<le> unat mcache_size" using b(5) assms(6) by simp
  obtain e out1 out2 where
    "cbfs_mcache_lookup (cbfs_fatal_asserts env) buf' mcache_size name out = Some (e, out1)"
    "e = CB_CBFS_CACHE_FULL \<and> rest \<noteq> [] \<and> out1 = out \<or>
     cbfs_lookup env (cbfs_rdev drv w rd) stack name out None = Some (e, out2) \<and>
     data_offset_out out1 = data_offset_out out2 \<and> drop 8 (mdata_out out1) = drop 8 (mdata_out out2)"
    using rom.mcache_lookup_equiv [of ?m drv stack fs rest buf' p mcache_size name out env] assms(1-3,7-9) b(2,4) l
    by auto
  then show ?thesis using b(1,3) by auto
qed

theorem mcache_agrees_with_medium_witness:
  "\<exists>r buf' e out1. cbfs_mcache_build sample_env (cbfs_rdev no_driver (rom_image sample_rom) (rom_dev sample_rom))
      stack_mdata 0 (replicate 100 0) 100 None = Some (r, buf') \<and>
    cbfs_mcache_lookup True buf' 100 [0x63] sample_out = Some (e, out1)"
proof -
  have a: "length stack_mdata = CBFS_METADATA_MAX_SIZE" "4 < (100 :: size_t)" "IS_ALIGNED 0 CBFS_MCACHE_ALIGNMENT"
    "length (replicate 100 (0 :: u8)) = unat (100 :: size_t)" "0 \<notin> set [0x63 :: u8]"
    "length [0x63 :: u8] < 2 ^ 63" "length (mdata_out sample_out) = CBFS_METADATA_MAX_SIZE"
    by (simp_all add: stack_mdata_def sample_out_def CBFS_METADATA_MAX_SIZE_def IS_ALIGNED_def)
  from mcache_agrees_with_medium [OF sample_rom_ok sample_rom_advances a, of sample_env no_driver] show ?thesis
    by (auto simp: sample_env_def)
qed

text \<open>The size that \<^verbatim>\<open>cbfs_mcache_real_size\<close> reports is enough: a copy of that many bytes of a
  cache built from a mapped flash answers every lookup like the cache itself.\<close>

theorem mcache_real_size_suffices:
  assumes "mapped_rom rd" "files_advance (rom_byte w rd) (rom_size rd) 0"
    "length stack = CBFS_METADATA_MAX_SIZE" "4 < mcache_size"
    "IS_ALIGNED base CBFS_MCACHE_ALIGNMENT" "length buf = unat mcache_size"
    "cbfs_mcache_build env (cbfs_rdev drv w rd) stack base buf mcache_size None = Some (r, buf')"
    "0 \<notin> set name" "length name < 2 ^ 63" "length (mdata_out out) = CBFS_METADATA_MAX_SIZE"
  shows "\<exists>n \<le> mcache_size. cbfs_mcache_real_size fatal buf' mcache_size = Some n \<and>
    cbfs_mcache_lookup fatal (take (unat n) buf') n name out = cbfs_mcache_lookup fatal buf' mcache_size name out"
proof -
  let ?c = "rom_byte w rd"
  obtain fs rest p where b:
    "walk_files False False ?c (rom_size rd) = fs @ rest"
    "mcache_holds buf' 0 ?c fs p (if rest = [] then MCACHE_MAGIC_END else MCACHE_MAGIC_FULL)"
    "length buf' = length buf"
    using rom_build_holds [OF assms(1-6), of env drv] assms(7) by (metis option.inject prod.inject)
  let ?tag = "if rest = [] then MCACHE_MAGIC_END else MCACHE_MAGIC_FULL"
  have tag: "?tag = MCACHE_MAGIC_END \<or> ?tag = MCACHE_MAGIC_FULL" by simp
  have l: "length buf' \<le> unat mcache_size" using b(3) assms(6) by simp
  have p: "p + 4 \<le> length buf'" using b(2) by (simp add: mcache_holds_def)
  then have up: "unat (of_nat (p + 4) :: size_t) = p + 4"
    using l unat_lt_64 [of mcache_size] by (intro unat_of_nat_lt) simp
  have vis: "file_visible False False ?c i" "file_data ?c i \<le> CBFS_METADATA_MAX_SIZE" "i + file_data ?c i < 2 ^ 32"
    if "i \<in> set fs" for i
    using walk_files_facts [of i False False ?c "rom_size rd"] that b(1) assms(1)
    by (auto simp: file_at_def mapped_rom_def rom_size_def)
  have size: "cbfs_mcache_real_size fatal buf' mcache_size = Some (of_nat (p + 4))"
    using real_size_entries [OF tag l _ b(2), of False fatal] vis(1) by (simp add: cbfs_mcache_real_size_def)
  have small: "mcache_holds (take (p + 4) buf') 0 ?c fs p ?tag" by (rule holds_prefix [OF b(2) order_refl p])
  have ls: "length (take (p + 4) buf') \<le> unat (of_nat (p + 4) :: size_t)" unfolding up by simp
  have "cbfs_mcache_lookup fatal (take (p + 4) buf') (of_nat (p + 4)) name out =
      cbfs_mcache_lookup fatal buf' mcache_size name out"
    using lookup_entries [OF tag l assms(8-10) _ b(2), of False fatal]
      lookup_entries [OF tag ls assms(8-10) _ small, of False fatal] vis
    by (simp add: cbfs_mcache_lookup_def)
  then show ?thesis using size p l
    by (intro exI [of _ "of_nat (p + 4)"]) (simp add: up word_le_nat_alt del: of_nat_add)
qed
end
