(* ===== verification/Lz4.thy ===== *)
theory Lz4
  imports Memory "HOL-Library.Monad_Syntax"
begin

text \<open>
  \<^verbatim>\<open>commonlib/bsd/lz4_wrapper.c\<close> and \<^verbatim>\<open>commonlib/bsd/lz4.c.inc\<close>: the decoder for LZ4 frames, with the block decoder
  as its only call instantiates it (\<^verbatim>\<open>endOnInputSize\<close>, \<^verbatim>\<open>full\<close>, \<^verbatim>\<open>noDict\<close>, the prefix starting with the output).
  Pointers are natural numbers below \<open>2 ^ w\<close>, so that input and output may overlap, as they do when a file is decompressed in
  place, and so that the width of a pointer is a parameter. Every access names the buffer it is meant for and is checked against it:
  the result \<open>None\<close> means that memory was touched which the caller did not hand over. Below are the definitions, what
  the copying loops do, and the proof that the decoder keeps inside its buffers whatever its input is.
\<close>

unbundle bit_operations_syntax

subsection \<open>Checked memory\<close>

type_synonym mem = "nat \<Rightarrow> u8"

text \<open>A buffer is the interval from its first address to the one behind its last.\<close>

type_synonym buffer = "nat \<times> nat"

definition within :: "buffer \<Rightarrow> nat \<Rightarrow> nat \<Rightarrow> bool" where
  "within b a n \<longleftrightarrow> fst b \<le> a \<and> a + n \<le> snd b"

text \<open>\<^verbatim>\<open>memmove\<close>, and \<^verbatim>\<open>memcpy\<close>: read from the buffer \<open>rd\<close>, write to \<open>wr\<close>.\<close>

definition move_bytes :: "mem \<Rightarrow> nat \<Rightarrow> nat \<Rightarrow> nat \<Rightarrow> mem" where
  "move_bytes m d s n = (\<lambda>a. if d \<le> a \<and> a < d + n then m (s + (a - d)) else m a)"

definition mem_move :: "buffer \<Rightarrow> buffer \<Rightarrow> mem \<Rightarrow> nat \<Rightarrow> nat \<Rightarrow> nat \<Rightarrow> mem option" where
  "mem_move rd wr m d s n =
     (if within rd s n \<and> within wr d n then Some (move_bytes m d s n) else None)"

definition read_u8 :: "buffer \<Rightarrow> mem \<Rightarrow> nat \<Rightarrow> u8 option" where
  "read_u8 rd m a = (if within rd a 1 then Some (m a) else None)"

definition LZ4_readLE16 :: "buffer \<Rightarrow> mem \<Rightarrow> nat \<Rightarrow> nat option" where
  "LZ4_readLE16 rd m a =
     (if within rd a 2 then Some (unat (m (a + 1)) * 256 + unat (m a)) else None)"

definition LZ4_readLE32 :: "buffer \<Rightarrow> mem \<Rightarrow> nat \<Rightarrow> u32 option" where
  "LZ4_readLE32 rd m a =
     (if within rd a 4
      then Some (push_bit 24 (ucast (m (a + 3))) OR push_bit 16 (ucast (m (a + 2))) OR
                 push_bit 8 (ucast (m (a + 1))) OR ucast (m a))
      else None)"

text \<open>One 64-bit load and one 64-bit store.\<close>

definition LZ4_copy8 :: "buffer \<Rightarrow> buffer \<Rightarrow> mem \<Rightarrow> nat \<Rightarrow> nat \<Rightarrow> mem option" where
  "LZ4_copy8 rd wr m d s = mem_move rd wr m d s 8"

function LZ4_wildCopy :: "buffer \<Rightarrow> buffer \<Rightarrow> mem \<Rightarrow> nat \<Rightarrow> nat \<Rightarrow> nat \<Rightarrow> mem option" where
  "LZ4_wildCopy rd wr m d s e = do {
     m \<leftarrow> LZ4_copy8 rd wr m d s;
     if d + 8 < e then LZ4_wildCopy rd wr m (d + 8) (s + 8) e else Some m
   }"
  by auto
termination by (relation "measure (\<lambda>(rd, wr, m, d, s, e). e - d)") auto

text \<open>\<^verbatim>\<open>while (op < cpy) *op++ = *match++\<close>.\<close>

function byte_copy :: "buffer \<Rightarrow> buffer \<Rightarrow> mem \<Rightarrow> nat \<Rightarrow> nat \<Rightarrow> nat \<Rightarrow> mem option" where
  "byte_copy rd wr m d s e =
     (if \<not> d < e then Some m
      else do {
        m \<leftarrow> mem_move rd wr m d s 1;
        byte_copy rd wr m (d + 1) (s + 1) e
      })"
  by auto
termination by (relation "measure (\<lambda>(rd, wr, m, d, s, e). e - d)") auto

declare LZ4_wildCopy.simps [simp del] byte_copy.simps [simp del]

subsection \<open>Lengths\<close>

definition MINMATCH :: nat where
  "MINMATCH = 4"

definition WILDCOPYLENGTH :: nat where
  "WILDCOPYLENGTH = 8"

definition LASTLITERALS :: nat where
  "LASTLITERALS = 5"

definition MFLIMIT :: nat where
  "MFLIMIT = WILDCOPYLENGTH + MINMATCH"

definition ML_MASK :: nat where
  "ML_MASK = 15"

definition RUN_MASK :: nat where
  "RUN_MASK = 15"

lemmas lz4_consts = MINMATCH_def WILDCOPYLENGTH_def LASTLITERALS_def MFLIMIT_def ML_MASK_def RUN_MASK_def

datatype len_result =
    LenError nat
  | Len nat nat

text \<open>
  \<open>w\<close> is the width of a pointer and of \<^verbatim>\<open>size_t\<close> in bits. A length is summed up modulo \<open>2 ^ w\<close>. The loop
  that reads the rest of a literal length stops near the end of the input.
\<close>

function literal_length :: "nat \<Rightarrow> buffer \<Rightarrow> mem \<Rightarrow> nat \<Rightarrow> nat \<Rightarrow> nat \<Rightarrow> (nat \<times> nat) option" where
  "literal_length w src m iend ip len = do {
     s \<leftarrow> read_u8 src m ip;
     let len = (len + unat s) mod 2 ^ w;
     if ip + 1 + RUN_MASK < iend \<and> s = 255 then literal_length w src m iend (ip + 1) len
     else Some (ip + 1, len)
   }"
  by auto
termination by (relation "measure (\<lambda>(w, src, m, iend, ip, len). iend - ip)") auto

text \<open>The one for a match length fails there: \<open>LenError\<close> with the position that the error is reported for.\<close>

function match_length :: "nat \<Rightarrow> buffer \<Rightarrow> mem \<Rightarrow> nat \<Rightarrow> nat \<Rightarrow> nat \<Rightarrow> len_result option" where
  "match_length w src m iend ip len =
     (if iend < ip + LASTLITERALS then Some (LenError ip)
      else do {
        s \<leftarrow> read_u8 src m ip;
        let len = (len + unat s) mod 2 ^ w;
        if s = 255 then match_length w src m iend (ip + 1) len else Some (Len (ip + 1) len)
      })"
  by auto
termination by (relation "measure (\<lambda>(w, src, m, iend, ip, len). iend + LASTLITERALS - ip)")
    (auto simp: LASTLITERALS_def)

declare literal_length.simps [simp del] match_length.simps [simp del]

text \<open>Both with the token's four bits and the test for a pointer sum that wraps around.\<close>

definition get_literal_length ::
  "nat \<Rightarrow> buffer \<Rightarrow> mem \<Rightarrow> nat \<Rightarrow> nat \<Rightarrow> nat \<Rightarrow> u8 \<Rightarrow> len_result option" where
  "get_literal_length w src m iend ip op token =
     (let len = unat token div 16
      in if len \<noteq> RUN_MASK then Some (Len ip len)
         else if iend \<le> ip + RUN_MASK then Some (LenError ip)
         else do {
           (ip, len) \<leftarrow> literal_length w src m iend ip len;
           Some (if (op + len) mod 2 ^ w < op \<or> (ip + len) mod 2 ^ w < ip then LenError ip else Len ip len)
         })"

definition get_match_length ::
  "nat \<Rightarrow> buffer \<Rightarrow> mem \<Rightarrow> nat \<Rightarrow> nat \<Rightarrow> nat \<Rightarrow> u8 \<Rightarrow> len_result option" where
  "get_match_length w src m iend ip op token =
     (let len = unat token mod 16
      in if len \<noteq> ML_MASK then Some (Len ip len)
         else do {
           r \<leftarrow> match_length w src m iend ip len;
           Some (case r of
               LenError ip \<Rightarrow> LenError ip
             | Len ip len \<Rightarrow> if (op + len) mod 2 ^ w < op then LenError ip else Len ip len)
         })"

subsection \<open>One sequence\<close>

text \<open>How the body of the main loop ends: at \<^verbatim>\<open>_output_error\<close>, by the \<^verbatim>\<open>break\<close>, or with another turn.\<close>

datatype lz4_step =
    SeqError mem nat
  | SeqLast mem nat
  | SeqNext mem nat nat

definition dec32table :: "nat list" where
  "dec32table = [4, 1, 2, 1, 4, 4, 4, 4]"

definition dec64table :: "int list" where
  "dec64table = [0, 0, 0, -1, 0, 1, 2, 3]"

text \<open>The first eight bytes of a match; the result has the place where the copying goes on.\<close>

definition copy_match_start :: "buffer \<Rightarrow> mem \<Rightarrow> nat \<Rightarrow> nat \<Rightarrow> nat \<Rightarrow> (mem \<times> nat) option" where
  "copy_match_start dst m op mt offset =
     (if offset < 8
      then do {
        m \<leftarrow> mem_move dst dst m op mt 1;
        m \<leftarrow> mem_move dst dst m (op + 1) (mt + 1) 1;
        m \<leftarrow> mem_move dst dst m (op + 2) (mt + 2) 1;
        m \<leftarrow> mem_move dst dst m (op + 3) (mt + 3) 1;
        let mt = mt + dec32table ! offset;
        m \<leftarrow> mem_move dst dst m (op + 4) mt 4;
        Some (m, nat (int mt - dec64table ! offset))
      }
      else do {
        m \<leftarrow> LZ4_copy8 dst dst m op mt;
        Some (m, mt + 8)
      })"

text \<open>The copy of a match as a whole, from \<^verbatim>\<open>cpy = op + length\<close> to the end of the loop body.\<close>

definition copy_match ::
  "nat \<Rightarrow> buffer \<Rightarrow> nat \<Rightarrow> mem \<Rightarrow> nat \<Rightarrow> nat \<Rightarrow> nat \<Rightarrow> nat \<Rightarrow> nat \<Rightarrow> lz4_step option" where
  "copy_match w dst oend m ip op mt offset len = do {
     let cpy = (op + len) mod 2 ^ w;
     (m, mt) \<leftarrow> copy_match_start dst m op mt offset;
     let op = op + 8;
     if oend < cpy + 12 then
       let oCopyLimit = oend - (WILDCOPYLENGTH - 1)
       in if oend < cpy + LASTLITERALS then Some (SeqError m ip)
          else do {
            (m, mt, op) \<leftarrow>
              (if op < oCopyLimit then do {
                 m \<leftarrow> LZ4_wildCopy dst dst m op mt oCopyLimit;
                 Some (m, mt + (oCopyLimit - op), oCopyLimit)
               } else Some (m, mt, op));
            m \<leftarrow> byte_copy dst dst m op mt cpy;
            Some (SeqNext m ip cpy)
          }
     else do {
       m \<leftarrow> LZ4_wildCopy dst dst m op mt cpy;
       Some (SeqNext m ip cpy)
     }
   }"

text \<open>The offset and the length of a match, behind the literals.\<close>

definition lz4_match ::
  "nat \<Rightarrow> buffer \<Rightarrow> buffer \<Rightarrow> nat \<Rightarrow> nat \<Rightarrow> nat \<Rightarrow> mem \<Rightarrow> nat \<Rightarrow> nat \<Rightarrow> u8 \<Rightarrow> lz4_step option" where
  "lz4_match w src dst dest iend oend m ip op token = do {
     offset \<leftarrow> LZ4_readLE16 src m ip;
     let ip = ip + 2;
     if op < dest + offset then Some (SeqError m ip)
     else do {
       r \<leftarrow> get_match_length w src m iend ip op token;
       case r of
         LenError ip \<Rightarrow> Some (SeqError m ip)
       | Len ip len \<Rightarrow> copy_match w dst oend m ip op (op - offset) offset (len + MINMATCH)
     }
   }"

text \<open>
  The body of the main loop. \<open>dest\<close> is the start of the block's output, \<open>in_place\<close> says that the input lies
  inside the output buffer. A difference of a pointer and a small number is compared as a sum: \<^verbatim>\<open>x > e - k\<close> is \<open>e < x + k\<close>, and
  \<^verbatim>\<open>op - offset < dest\<close> is \<open>op < dest + offset\<close>. That is the same for buffers above the lowest 64 KiB of the address space, where
  the difference cannot wrap around.
\<close>

definition lz4_sequence ::
  "nat \<Rightarrow> buffer \<Rightarrow> buffer \<Rightarrow> nat \<Rightarrow> bool \<Rightarrow> nat \<Rightarrow> nat \<Rightarrow> mem \<Rightarrow> nat \<Rightarrow> nat \<Rightarrow> lz4_step option" where
  "lz4_sequence w src dst dest in_place iend oend m ip op =
     (if in_place \<and> ip < op + WILDCOPYLENGTH then Some (SeqError m ip)
      else do {
        token \<leftarrow> read_u8 src m ip;
        r \<leftarrow> get_literal_length w src m iend (ip + 1) op token;
        case r of
          LenError ip \<Rightarrow> Some (SeqError m ip)
        | Len ip len \<Rightarrow>
            let cpy = op + len
            in if oend < cpy + MFLIMIT \<or> iend < ip + len + (2 + 1 + LASTLITERALS)
               then if ip + len \<noteq> iend \<or> oend < cpy then Some (SeqError m ip)
                    else do {
                      m \<leftarrow> mem_move src dst m op ip len;
                      Some (SeqLast m cpy)
                    }
               else do {
                 m \<leftarrow> LZ4_wildCopy src dst m op ip cpy;
                 lz4_match w src dst dest iend oend m (ip + len) cpy token
               }
      })"

subsection \<open>Every turn consumes input\<close>

lemma match_length_ip:
  "match_length w src m iend ip len = Some (Len ip' len') \<Longrightarrow> ip < ip' \<and> ip' + LASTLITERALS \<le> iend + 1"
proof (induction w src m iend ip len rule: match_length.induct)
  case (1 w src m iend ip len)
  show ?case
  proof (cases "iend < ip + LASTLITERALS")
    case False
    from False 1(2) obtain s where s: "read_u8 src m ip = Some s"
      by (subst (asm) match_length.simps) (cases "read_u8 src m ip", auto)
    show ?thesis
    proof (cases "s = 255")
      case True
      with False 1(2) s have "match_length w src m iend (ip + 1) ((len + unat s) mod 2 ^ w) = Some (Len ip' len')"
        by (subst (asm) match_length.simps) simp
      from 1(1) [OF False s refl True this] show ?thesis by simp
    next
      case f: False
      with False 1(2) s show ?thesis by (subst (asm) match_length.simps) auto
    qed
  qed (use 1(2) in \<open>subst (asm) match_length.simps, simp\<close>)
qed

lemma copy_match_ip: "copy_match w dst oend m ip op mt offset len = Some (SeqNext m' ip' op') \<Longrightarrow> ip' = ip"
  by (auto simp: copy_match_def Let_def bind_eq_Some_conv split: if_splits prod.splits)

lemma lz4_match_ip:
  assumes "lz4_match w src dst dest iend oend m ip op token = Some (SeqNext m' ip' op')"
    and "ip + 2 + 1 + LASTLITERALS \<le> iend + 1"
  shows "ip < ip' \<and> ip' \<le> iend"
proof -
  from assms obtain ip1 len where
    g: "get_match_length w src m iend (ip + 2) op token = Some (Len ip1 len)" and ip': "ip' = ip1"
    by (clarsimp simp: lz4_match_def Let_def bind_eq_Some_conv split: if_split_asm)
      (auto dest!: copy_match_ip split: len_result.split_asm)
  show ?thesis
  proof (cases "unat token mod 16 = ML_MASK")
    case True
    with g obtain l where "match_length w src m iend (ip + 2) ML_MASK = Some (Len ip1 l)"
      by (clarsimp simp: get_match_length_def bind_eq_Some_conv) (auto split: len_result.split_asm if_split_asm)
    from match_length_ip [OF this] ip' show ?thesis by (simp add: LASTLITERALS_def)
  next
    case False
    with g have "ip1 = ip + 2" by (simp add: get_match_length_def Let_def)
    with ip' assms(2) show ?thesis by (simp add: LASTLITERALS_def)
  qed
qed

lemma literal_length_ip:
  "literal_length w src m iend ip len = Some (ip', len') \<Longrightarrow> ip < ip'"
proof (induction w src m iend ip len rule: literal_length.induct)
  case (1 w src m iend ip len)
  from 1(2) obtain s where s: "read_u8 src m ip = Some s"
    by (subst (asm) literal_length.simps) (cases "read_u8 src m ip", auto)
  show ?case
  proof (cases "ip + 1 + RUN_MASK < iend \<and> s = 255")
    case True
    with 1(2) s have "literal_length w src m iend (ip + 1) ((len + unat s) mod 2 ^ w) = Some (ip', len')"
      by (subst (asm) literal_length.simps) simp
    from 1(1) [OF s refl True this] show ?thesis by simp
  next
    case False
    with 1(2) s show ?thesis by (subst (asm) literal_length.simps) auto
  qed
qed

lemma get_literal_length_ip:
  "get_literal_length w src m iend ip op token = Some (Len ip' len) \<Longrightarrow> ip \<le> ip'"
  by (auto simp: get_literal_length_def Let_def bind_eq_Some_conv split: if_splits prod.splits
      dest!: literal_length_ip)

lemma lz4_sequence_ip:
  assumes "lz4_sequence w src dst dest inp iend oend m ip op = Some (SeqNext m' ip' op')"
  shows "ip < ip' \<and> ip' \<le> iend"
proof -
  from assms obtain token ip1 len m1 where
    g: "get_literal_length w src m iend (ip + 1) op token = Some (Len ip1 len)" and
    b: "\<not> iend < ip1 + len + (2 + 1 + LASTLITERALS)" and
    n: "lz4_match w src dst dest iend oend m1 (ip1 + len) (op + len) token = Some (SeqNext m' ip' op')"
    by (clarsimp simp: lz4_sequence_def bind_eq_Some_conv split: if_split_asm)
      (auto simp: Let_def bind_eq_Some_conv split: len_result.split_asm if_split_asm)
  from lz4_match_ip [OF n] b get_literal_length_ip [OF g] show ?thesis by simp
qed

subsection \<open>A block\<close>

text \<open>Conversion to \<^verbatim>\<open>int\<close>.\<close>

definition to_int32 :: "int \<Rightarrow> int" where
  "to_int32 x = sint (word_of_int x :: u32)"

text \<open>
  The main loop and the two ways to return from it: the number of bytes decoded, or the negated position of
  the error, less one. It ends, as every turn consumes input.
\<close>

function lz4_loop ::
  "nat \<Rightarrow> buffer \<Rightarrow> buffer \<Rightarrow> nat \<Rightarrow> nat \<Rightarrow> bool \<Rightarrow> nat \<Rightarrow> nat \<Rightarrow> mem \<Rightarrow> nat \<Rightarrow> nat \<Rightarrow> (mem \<times> int) option" where
  "lz4_loop w src dst source dest in_place iend oend m ip op =
     (case lz4_sequence w src dst dest in_place iend oend m ip op of
        None \<Rightarrow> None
      | Some (SeqError m ip) \<Rightarrow> Some (m, to_int32 (- (int ip - int source)) - 1)
      | Some (SeqLast m op) \<Rightarrow> Some (m, to_int32 (int op - int dest))
      | Some (SeqNext m ip op) \<Rightarrow> lz4_loop w src dst source dest in_place iend oend m ip op)"
  by auto
termination
  by (relation "measure (\<lambda>(w, src, dst, source, dest, in_place, iend, oend, m, ip, op). iend - ip)")
    (auto dest!: lz4_sequence_ip)

declare lz4_loop.simps [simp del]

text \<open>
  \<^verbatim>\<open>LZ4_decompress_generic\<close> with \<^verbatim>\<open>endOnInputSize\<close>, \<^verbatim>\<open>full\<close> and \<^verbatim>\<open>noDict\<close>; \<^verbatim>\<open>lowPrefix\<close> is \<open>dest\<close>. The
  sizes are of type \<^verbatim>\<open>int\<close>, the first of them never negative.
\<close>

definition LZ4_decompress_generic ::
  "nat \<Rightarrow> buffer \<Rightarrow> buffer \<Rightarrow> mem \<Rightarrow> nat \<Rightarrow> nat \<Rightarrow> nat \<Rightarrow> int \<Rightarrow> (mem \<times> int) option" where
  "LZ4_decompress_generic w src dst m source dest inputSize outputSize =
     (let iend = source + inputSize;
          oend = nat ((int dest + outputSize) mod 2 ^ w);
          inPlaceDecode = (dest \<le> source \<and> source < oend)
      in if outputSize = 0 then
           if inputSize = 1 then do {
             b \<leftarrow> read_u8 src m source;
             Some (m, if b = 0 then 0 else -1)
           } else Some (m, -1)
         else lz4_loop w src dst source dest inPlaceDecode iend oend m source dest)"

subsection \<open>A frame\<close>

definition LZ4F_MAGICNUMBER :: u32 where
  "LZ4F_MAGICNUMBER = 0x184D2204"

definition BH_SIZE :: u32 where
  "BH_SIZE = 0x7FFFFFFF"

definition NOT_COMPRESSED :: u32 where
  "NOT_COMPRESSED = 0x80000000"

definition RESERVED0 :: u8 where
  "RESERVED0 = 0x03"

definition HAS_CONTENT_SIZE :: u8 where
  "HAS_CONTENT_SIZE = 0x08"

definition HAS_BLOCK_CHECKSUM :: u8 where
  "HAS_BLOCK_CHECKSUM = 0x10"

definition INDEPENDENT_BLOCKS :: u8 where
  "INDEPENDENT_BLOCKS = 0x20"

definition VERSION :: u8 where
  "VERSION = 0xC0"

definition VERSION_SHIFT :: nat where
  "VERSION_SHIFT = 6"

definition RESERVED1_2 :: u8 where
  "RESERVED1_2 = 0x8F"

lemmas lz4f_consts = LZ4F_MAGICNUMBER_def RESERVED0_def HAS_CONTENT_SIZE_def HAS_BLOCK_CHECKSUM_def
  INDEPENDENT_BLOCKS_def VERSION_def VERSION_SHIFT_def RESERVED1_2_def

text \<open>
  The loop over the blocks, with the block decoder as an argument (memory, position in the input, position in
  the output, size of the block, room in the output). \<open>inp\<close> stands for the variable \<^verbatim>\<open>in\<close>. Its differences
  to \<^verbatim>\<open>src\<close>, of type \<^verbatim>\<open>size_t\<close>, do not wrap around for inputs of at most \<open>2 ^ w - 2 ^ 31 - 8\<close> bytes.
\<close>

function lz4_blocks ::
  "nat \<Rightarrow> (mem \<Rightarrow> nat \<Rightarrow> nat \<Rightarrow> nat \<Rightarrow> int \<Rightarrow> (mem \<times> int) option) \<Rightarrow> buffer \<Rightarrow> buffer \<Rightarrow> bool \<Rightarrow> mem \<Rightarrow> nat \<Rightarrow> nat \<Rightarrow>
   (mem \<times> nat) option" where
  "lz4_blocks w dec src dst has_block_checksum m inp out =
     (if snd src < inp + 4 then Some (m, 0)
      else case LZ4_readLE32 src m inp of
        None \<Rightarrow> None
      | Some raw \<Rightarrow>
          let inp = inp + 4; bsize = unat (raw AND BH_SIZE)
          in if snd src < inp + bsize then Some (m, 0)
             else if bsize = 0 then Some (m, out - fst dst)
             else if raw AND NOT_COMPRESSED \<noteq> 0 then
               let size = min bsize (nat ((int (snd dst) - int out) mod 2 ^ w))
               in case mem_move src dst m out inp size of
                    None \<Rightarrow> None
                  | Some m \<Rightarrow>
                      if size < bsize then Some (m, 0)
                      else lz4_blocks w dec src dst has_block_checksum m
                        (inp + bsize + (if has_block_checksum then 4 else 0)) (out + size)
             else
               case dec m inp out bsize (to_int32 (int (snd dst) - int out)) of
                 None \<Rightarrow> None
               | Some (m, ret) \<Rightarrow>
                   if ret < 0 then Some (m, 0)
                   else lz4_blocks w dec src dst has_block_checksum m
                     (inp + bsize + (if has_block_checksum then 4 else 0)) (out + nat ret))"
  by auto
termination
  by (relation "measure (\<lambda>(w, dec, src, dst, has_block_checksum, m, inp, out). snd src - inp)") auto

declare lz4_blocks.simps [simp del]

definition ulz4fn :: "nat \<Rightarrow> mem \<Rightarrow> nat \<Rightarrow> nat \<Rightarrow> nat \<Rightarrow> nat \<Rightarrow> (mem \<times> nat) option" where
  "ulz4fn w m src srcn dst dstn =
     (let rd = (src, src + srcn); wr = (dst, dst + dstn)
      in if srcn < 6 + 8 + 1 then Some (m, 0)
         else do {
           magic \<leftarrow> LZ4_readLE32 rd m src;
           flags \<leftarrow> read_u8 rd m (src + 4);
           block_descriptor \<leftarrow> read_u8 rd m (src + 5);
           if magic \<noteq> LZ4F_MAGICNUMBER \<or> flags AND VERSION \<noteq> push_bit VERSION_SHIFT 1 then Some (m, 0)
           else if flags AND RESERVED0 \<noteq> 0 \<or> block_descriptor AND RESERVED1_2 \<noteq> 0 then Some (m, 0)
           else if flags AND INDEPENDENT_BLOCKS = 0 then Some (m, 0)
           else lz4_blocks w (LZ4_decompress_generic w rd wr) rd wr (flags AND HAS_BLOCK_CHECKSUM \<noteq> 0) m
                  (src + 6 + (if flags AND HAS_CONTENT_SIZE \<noteq> 0 then 8 else 0) + 1) dst
         })"

definition ulz4f :: "nat \<Rightarrow> mem \<Rightarrow> nat \<Rightarrow> nat \<Rightarrow> (mem \<times> nat) option" where
  "ulz4f w m src dst = ulz4fn w m src (2 ^ 30) dst (2 ^ 30)"

subsection \<open>What a copy does\<close>

text \<open>
  \<open>copied m m' d s n\<close>: \<open>n\<close> bytes at \<open>d\<close> have been written, nothing else, and they equal those at \<open>s\<close> as the
  memory is now. So a repeated pattern is described as well as a plain copy.
\<close>

definition unchanged :: "mem \<Rightarrow> mem \<Rightarrow> nat \<Rightarrow> nat \<Rightarrow> bool" where
  "unchanged m m' lo hi \<longleftrightarrow> (\<forall>a. a < lo \<or> hi \<le> a \<longrightarrow> m' a = m a)"

definition copied :: "mem \<Rightarrow> mem \<Rightarrow> nat \<Rightarrow> nat \<Rightarrow> nat \<Rightarrow> bool" where
  "copied m m' d s n \<longleftrightarrow> unchanged m m' d (d + n) \<and> (\<forall>i<n. m' (d + i) = m' (s + i))"

text \<open>The source is far enough behind, or apart from what is written.\<close>

definition copy_apart :: "nat \<Rightarrow> nat \<Rightarrow> nat \<Rightarrow> nat \<Rightarrow> bool" where
  "copy_apart k d s n \<longleftrightarrow> s + k \<le> d \<or> s + n \<le> d \<or> d + n \<le> s"

lemma unchanged_refl [simp]: "unchanged m m lo hi"
  by (simp add: unchanged_def)

lemma unchanged_trans:
  "unchanged m m1 lo1 hi1 \<Longrightarrow> unchanged m1 m2 lo2 hi2 \<Longrightarrow> lo \<le> lo1 \<Longrightarrow> lo \<le> lo2 \<Longrightarrow> hi1 \<le> hi \<Longrightarrow> hi2 \<le> hi \<Longrightarrow>
   unchanged m m2 lo hi"
  by (auto simp: unchanged_def)

lemma unchanged_mono: "unchanged m m1 lo1 hi1 \<Longrightarrow> lo \<le> lo1 \<Longrightarrow> hi1 \<le> hi \<Longrightarrow> unchanged m m1 lo hi"
  by (auto simp: unchanged_def)

lemma move_bytes_copied: "copy_apart n d s n \<Longrightarrow> copied m (move_bytes m d s n) d s n"
  by (auto simp: copied_def unchanged_def move_bytes_def copy_apart_def)

lemma move_bytes_unchanged: "unchanged m (move_bytes m d s n) d (d + n)"
  by (auto simp: unchanged_def move_bytes_def)

lemma copy_apart_parts: "copy_apart k d s (n1 + n2) \<Longrightarrow> copy_apart k d s n1 \<and> copy_apart k (d + n1) (s + n1) n2"
  by (auto simp: copy_apart_def)

lemma copied_0: "copied m m d s 0"
  by (simp add: copied_def)

lemma copied_unchanged: "copied m m' d s n \<Longrightarrow> unchanged m m' d (d + n)"
  by (simp add: copied_def)

lemma copied_append:
  assumes a: "copied m m1 d s n1" and b: "copied m1 m2 (d + n1) (s + n1) n2"
    and f: "copy_apart 1 d s (n1 + n2)"
  shows "copied m m2 d s (n1 + n2)"
  unfolding copied_def
proof (intro conjI allI impI)
  from a b show "unchanged m m2 d (d + (n1 + n2))"
    by (auto simp: copied_def intro: unchanged_trans)
  fix i assume i: "i < n1 + n2"
  show "m2 (d + i) = m2 (s + i)"
  proof (cases "i < n1")
    case True
    with a have "m1 (d + i) = m1 (s + i)" by (simp add: copied_def)
    moreover from b True f have "m2 (d + i) = m1 (d + i)" "m2 (s + i) = m1 (s + i)"
      by (auto simp: copied_def unchanged_def copy_apart_def)
    ultimately show ?thesis by simp
  next
    case False
    with i have "i - n1 < n2" by simp
    with b have "m2 (d + n1 + (i - n1)) = m2 (s + n1 + (i - n1))" by (simp add: copied_def)
    with False show ?thesis by simp
  qed
qed

lemma copied_prefix: "copied m m' d s n \<Longrightarrow> i < n \<Longrightarrow> m' (d + i) = m' (s + i)"
  by (simp add: copied_def)

lemma within_sub: "within b a n \<Longrightarrow> a \<le> a' \<Longrightarrow> a' + n' \<le> a + n \<Longrightarrow> within b a' n'"
  by (simp add: within_def)

lemma mem_move_Some [simp]:
  "within rd s n \<Longrightarrow> within wr d n \<Longrightarrow> mem_move rd wr m d s n = Some (move_bytes m d s n)"
  by (simp add: mem_move_def)

lemma copy_apart_one: "copy_apart k d s n \<Longrightarrow> 1 \<le> k \<Longrightarrow> copy_apart 1 d s n"
  by (auto simp: copy_apart_def)

subsection \<open>The copying loops\<close>

text \<open>
  \<^verbatim>\<open>LZ4_wildCopy\<close> touches up to seven bytes more than asked for, and at least eight.
\<close>

lemma LZ4_wildCopy_spec:
  "within rd s (max 8 (e - d + 7)) \<Longrightarrow> within wr d (max 8 (e - d + 7)) \<Longrightarrow>
   \<exists>m' n. LZ4_wildCopy rd wr m d s e = Some m' \<and> e \<le> d + n \<and> 8 \<le> n \<and> n \<le> max 8 (e - d + 7) \<and>
     unchanged m m' d (d + n) \<and> (copy_apart 8 d s n \<longrightarrow> copied m m' d s n)"
proof (induction rd wr m d s e rule: LZ4_wildCopy.induct)
  case (1 rd wr m d s e)
  let ?m1 = "move_bytes m d s 8"
  have c8: "LZ4_copy8 rd wr m d s = Some ?m1"
    using 1(2,3) by (auto simp: LZ4_copy8_def mem_move_def within_def)
  show ?case
  proof (cases "d + 8 < e")
    case False
    with c8 have "LZ4_wildCopy rd wr m d s e = Some ?m1" by (subst LZ4_wildCopy.simps) simp
    moreover have "copy_apart 8 d s 8 \<longrightarrow> copied m ?m1 d s 8" by (simp add: move_bytes_copied)
    ultimately show ?thesis using False move_bytes_unchanged [of m d s 8]
      by (intro exI [of _ ?m1] exI [of _ 8]) simp
  next
    case True
    have "within rd (s + 8) (max 8 (e - (d + 8) + 7))" "within wr (d + 8) (max 8 (e - (d + 8) + 7))"
      using 1(2,3) True by (auto simp: within_def)
    from 1(1) [OF c8 True this] obtain m' n where
      r: "LZ4_wildCopy rd wr ?m1 (d + 8) (s + 8) e = Some m'" and
      n: "e \<le> d + 8 + n" "8 \<le> n" "n \<le> max 8 (e - (d + 8) + 7)" and
      u: "unchanged ?m1 m' (d + 8) (d + 8 + n)" and
      c: "copy_apart 8 (d + 8) (s + 8) n \<longrightarrow> copied ?m1 m' (d + 8) (s + 8) n"
      by blast
    have "LZ4_wildCopy rd wr m d s e = Some m'"
      using c8 True r by (subst LZ4_wildCopy.simps) simp
    moreover have "copy_apart 8 d s (8 + n) \<longrightarrow> copied m m' d s (8 + n)"
    proof
      assume f: "copy_apart 8 d s (8 + n)"
      from copy_apart_parts [OF f] c have c2: "copied ?m1 m' (d + 8) (s + 8) n" by simp
      from copy_apart_parts [OF f] have c1: "copied m ?m1 d s 8" by (auto intro: move_bytes_copied)
      from copied_append [OF c1 c2 copy_apart_one [OF f]] show "copied m m' d s (8 + n)" by simp
    qed
    moreover have "unchanged m m' d (d + (8 + n))"
      by (rule unchanged_trans [OF move_bytes_unchanged u]) simp_all
    ultimately show ?thesis using n True
      by (intro exI [of _ m'] exI [of _ "8 + n"]) auto
  qed
qed

lemma byte_copy_spec:
  "within rd s (e - d) \<Longrightarrow> within wr d (e - d) \<Longrightarrow>
   \<exists>m'. byte_copy rd wr m d s e = Some m' \<and> unchanged m m' d (d + (e - d)) \<and>
     (copy_apart 1 d s (e - d) \<longrightarrow> copied m m' d s (e - d))"
proof (induction rd wr m d s e rule: byte_copy.induct)
  case (1 rd wr m d s e)
  show ?case
  proof (cases "d < e")
    case False
    then have "byte_copy rd wr m d s e = Some m" by (subst byte_copy.simps) simp
    with False show ?thesis by (simp add: copied_0)
  next
    case True
    let ?m1 = "move_bytes m d s 1"
    have c1: "mem_move rd wr m d s 1 = Some ?m1"
      using 1(2,3) True by (auto simp: mem_move_def within_def)
    have "within rd (s + 1) (e - (d + 1))" "within wr (d + 1) (e - (d + 1))"
      using 1(2,3) True by (auto simp: within_def)
    from 1(1) [OF _ c1 this] True obtain m' where
      r: "byte_copy rd wr ?m1 (d + 1) (s + 1) e = Some m'" and
      u: "unchanged ?m1 m' (d + 1) (d + 1 + (e - (d + 1)))" and
      c: "copy_apart 1 (d + 1) (s + 1) (e - (d + 1)) \<longrightarrow> copied ?m1 m' (d + 1) (s + 1) (e - (d + 1))"
      by blast
    have len: "e - d = 1 + (e - (d + 1))" using True by simp
    have "byte_copy rd wr m d s e = Some m'"
      using c1 True r by (subst byte_copy.simps) simp
    moreover have "copy_apart 1 d s (e - d) \<longrightarrow> copied m m' d s (e - d)"
    proof
      assume f: "copy_apart 1 d s (e - d)"
      then have f': "copy_apart 1 d s (1 + (e - (d + 1)))" using len by simp
      from copy_apart_parts [OF f'] c have c2: "copied ?m1 m' (d + 1) (s + 1) (e - (d + 1))" by simp
      from copy_apart_parts [OF f'] have c1: "copied m ?m1 d s 1" by (auto intro: move_bytes_copied)
      from copied_append [OF c1 c2 f'] show "copied m m' d s (e - d)" using len by simp
    qed
    moreover have "unchanged m m' d (d + (e - d))"
      by (rule unchanged_trans [OF move_bytes_unchanged u]) (use True in simp_all)
    ultimately show ?thesis by blast
  qed
qed

subsection \<open>The copy of a match\<close>

lemma all_less_8: "(\<forall>i<8::nat. P i) \<longleftrightarrow> P 0 \<and> P 1 \<and> P 2 \<and> P 3 \<and> P 4 \<and> P 5 \<and> P 6 \<and> P 7"
proof
  assume p: "P 0 \<and> P 1 \<and> P 2 \<and> P 3 \<and> P 4 \<and> P 5 \<and> P 6 \<and> P 7"
  show "\<forall>i<8. P i"
  proof (intro allI impI)
    fix i :: nat
    assume "i < 8"
    then have "i = 0 \<or> i = 1 \<or> i = 2 \<or> i = 3 \<or> i = 4 \<or> i = 5 \<or> i = 6 \<or> i = 7" by linarith
    with p show "P i" by auto
  qed
qed simp

text \<open>
  For an offset below eight the two tables move the source so far back, by a multiple of the offset, that
  eight bytes at a time can be copied from there on.
\<close>

definition four_bytes :: "mem \<Rightarrow> nat \<Rightarrow> nat \<Rightarrow> mem" where
  "four_bytes m op mt = move_bytes (move_bytes (move_bytes (move_bytes m op mt 1)
     (op + 1) (mt + 1) 1) (op + 2) (mt + 2) 1) (op + 3) (mt + 3) 1"

lemma short_offset_start:
  assumes "offset < 8" and "within dst mt (offset + 8)"
  shows "copy_match_start dst m (mt + offset) mt offset =
    Some (move_bytes (four_bytes m (mt + offset) mt) (mt + offset + 4) (mt + dec32table ! offset) 4,
      nat (int (mt + dec32table ! offset) - dec64table ! offset))"
proof -
  have o: "offset = 0 \<or> offset = 1 \<or> offset = 2 \<or> offset = 3 \<or> offset = 4 \<or> offset = 5 \<or> offset = 6 \<or> offset = 7"
    using assms(1) by linarith
  have "dec32table ! offset \<le> 4" using o by (auto simp: dec32table_def)
  with assms(1,2) show ?thesis
    by (simp add: copy_match_start_def four_bytes_def within_sub [where a = mt and n = "offset + 8"] Let_def)
qed

lemma copy_match_start_spec:
  assumes "within dst mt (offset + 8)"
  shows "\<exists>m' mt'. copy_match_start dst m (mt + offset) mt offset = Some (m', mt') \<and>
    unchanged m m' (mt + offset) (mt + offset + 8) \<and> mt < mt' \<and> mt' \<le> mt + offset + 4 \<and>
    (0 < offset \<longrightarrow> (\<forall>i<8. m' (mt + offset + i) = m' (mt + i)) \<and> mt' \<le> mt + offset \<and>
      (\<exists>k. mt + offset + 8 = mt' + k * offset))"
proof (cases "offset < 8")
  case True
  then have o: "offset = 0 \<or> offset = 1 \<or> offset = 2 \<or> offset = 3 \<or> offset = 4 \<or> offset = 5 \<or> offset = 6 \<or> offset = 7"
    by linarith
  define m' where "m' \<equiv> move_bytes (four_bytes m (mt + offset) mt) (mt + offset + 4) (mt + dec32table ! offset) 4"
  define mt' where "mt' \<equiv> nat (int (mt + dec32table ! offset) - dec64table ! offset)"
  have r: "copy_match_start dst m (mt + offset) mt offset = Some (m', mt')"
    using short_offset_start [OF True assms, of m] by (simp add: m'_def mt'_def)
  have u: "unchanged m m' (mt + offset) (mt + offset + 8)"
    by (auto simp: unchanged_def m'_def four_bytes_def move_bytes_def)
  have "(\<forall>i<8. m' (mt + offset + i) = m' (mt + i))" if "0 < offset"
    using o that unfolding all_less_8
    by (elim disjE) (simp_all add: m'_def four_bytes_def move_bytes_def dec32table_def add.commute)
  moreover have "mt < mt'" "mt' \<le> mt + offset + 4" "0 < offset \<longrightarrow> mt' \<le> mt + offset"
    using o by (auto simp: mt'_def dec32table_def dec64table_def nat_less_iff)
  moreover have "\<exists>k. mt + offset + 8 = mt' + k * offset" if "0 < offset"
    using o that
    by (auto simp: mt'_def dec32table_def dec64table_def
        intro: exI [of _ 8] exI [of _ 4] exI [of _ 3] exI [of _ 2])
  ultimately show ?thesis using r u by blast
next
  case False
  have "copy_match_start dst m (mt + offset) mt offset = Some (move_bytes m (mt + offset) mt 8, mt + 8)"
    using False assms by (simp add: copy_match_start_def LZ4_copy8_def within_sub [where a = mt and n = "offset + 8"])
  moreover have "copied m (move_bytes m (mt + offset) mt 8) (mt + offset) mt 8"
    using False by (intro move_bytes_copied) (simp add: copy_apart_def)
  moreover have "\<exists>k. mt + offset + 8 = mt + 8 + k * offset" by (rule exI [of _ 1]) simp
  ultimately show ?thesis
    using False by (auto simp: copied_def)
qed

text \<open>Bytes repeated from a multiple of the offset back are repeated from the offset itself.\<close>

lemma periodic_shift:
  assumes start: "\<And>i. i < 8 \<Longrightarrow> i < n \<Longrightarrow> f (p + i) = f i"
    and rest: "\<And>i. 8 \<le> i \<Longrightarrow> i < n \<Longrightarrow> f (p + i) = f (t + (i - 8))"
    and mult: "p + 8 = t + k * p" and t: "0 < t" "t \<le> p" and i: "i < n"
  shows "f (p + i) = (f :: nat \<Rightarrow> 'a) i"
  using i
proof (induction i rule: less_induct)
  case (less i)
  show ?case
  proof (cases "i < 8")
    case False
    then have r: "f (p + i) = f (t + (i - 8))" using rest less.prems by simp
    obtain j where j: "k = Suc j" using mult t by (cases k) auto
    have eq: "i = t + (i - 8) + j * p" using mult j False by (simp add: algebra_simps)
    have "f (t + (i - 8) + l * p) = f (t + (i - 8))" if "l \<le> j" for l
      using that
    proof (induction l)
      case (Suc l)
      have "p \<noteq> 0" using t by simp
      have le: "t + (i - 8) + Suc l * p \<le> i"
      proof -
        have "Suc l * p \<le> j * p" using Suc.prems by (intro mult_le_mono1)
        with eq show ?thesis by linarith
      qed
      then have "t + (i - 8) + l * p < i" using \<open>p \<noteq> 0\<close> by simp
      from less.IH [OF this] less.prems this
      have "f (p + (t + (i - 8) + l * p)) = f (t + (i - 8) + l * p)" by simp
      moreover have "p + (t + (i - 8) + l * p) = t + (i - 8) + Suc l * p" by simp
      ultimately show ?case using Suc by simp
    qed simp
    from this [of j] eq r show ?thesis by simp
  qed (use start less.prems in simp)
qed

text \<open>
  After the first eight bytes: the wild copy up to \<open>oCopyLimit\<close> with single bytes behind it, or just
  the wild copy; both stay below the end of the output.
\<close>

definition copy_rest :: "buffer \<Rightarrow> nat \<Rightarrow> mem \<Rightarrow> nat \<Rightarrow> nat \<Rightarrow> nat \<Rightarrow> mem option" where
  "copy_rest dst oend m op mt cpy =
     (if oend < cpy + 12 then
        if op < oend - 7
        then Option.bind (LZ4_wildCopy dst dst m op mt (oend - 7))
          (\<lambda>m. byte_copy dst dst m (oend - 7) (mt + (oend - 7 - op)) cpy)
        else byte_copy dst dst m op mt cpy
      else LZ4_wildCopy dst dst m op mt cpy)"

lemma copy_match_rest:
  assumes "copy_match_start dst m op mt offset = Some (m1, mt1)" and "op + len < 2 ^ w"
  shows "copy_match w dst oend m ip op mt offset len =
    (if oend < op + len + 5 then Some (SeqError m1 ip)
     else map_option (\<lambda>m. SeqNext m ip (op + len)) (copy_rest dst oend m1 (op + 8) mt1 (op + len)))"
  using assms
  by (auto simp: copy_match_def copy_rest_def Let_def map_option_bind map_conv_bind_option comp_def lz4_consts)

lemma copy_rest_spec:
  assumes mt: "fst dst \<le> mt" "mt < op" and op: "op \<le> oend - 4" "12 \<le> oend" "oend \<le> snd dst"
    and cpy: "op \<le> cpy + 4" "cpy + 5 \<le> oend"
  shows "\<exists>m'. copy_rest dst oend m op mt cpy = Some m' \<and> unchanged m m' op oend \<and>
    (mt + 8 \<le> op \<longrightarrow> (\<forall>i<cpy - op. m' (op + i) = m' (mt + i)))"
proof (cases "oend < cpy + 12")
  case True
  show ?thesis
  proof (cases "op < oend - 7")
    case f: True
    have "within dst mt (max 8 (oend - 7 - op + 7))" "within dst op (max 8 (oend - 7 - op + 7))"
      using mt op f by (auto simp: within_def)
    from LZ4_wildCopy_spec [OF this] obtain m1 n where
      r1: "LZ4_wildCopy dst dst m op mt (oend - 7) = Some m1" and
      n: "oend - 7 \<le> op + n" "8 \<le> n" "n \<le> max 8 (oend - 7 - op + 7)" and
      u1: "unchanged m m1 op (op + n)" and c1: "copy_apart 8 op mt n \<longrightarrow> copied m m1 op mt n"
      by blast
    let ?d = "oend - 7" and ?s = "mt + (oend - 7 - op)"
    have n': "op + n \<le> oend" using n f by (auto simp: max_def split: if_splits)
    have "within dst ?s (cpy - ?d)" "within dst ?d (cpy - ?d)"
      using mt op cpy f by (auto simp: within_def)
    from byte_copy_spec [OF this] obtain m2 where
      r2: "byte_copy dst dst m1 ?d ?s cpy = Some m2" and u2: "unchanged m1 m2 ?d (?d + (cpy - ?d))" and
      c2: "copy_apart 1 ?d ?s (cpy - ?d) \<longrightarrow> copied m1 m2 ?d ?s (cpy - ?d)"
      by blast
    have "copy_rest dst oend m op mt cpy = Some m2" using True f r1 r2 by (simp add: copy_rest_def)
    moreover have "unchanged m m2 op oend"
      using u1 u2 n' f cpy by (auto intro: unchanged_trans)
    moreover have "\<forall>i<cpy - op. m2 (op + i) = m2 (mt + i)" if a: "mt + 8 \<le> op"
    proof (intro allI impI)
      fix i assume i: "i < cpy - op"
      from c1 a have c1': "copied m m1 op mt n" by (simp add: copy_apart_def)
      from c2 a f have c2': "copied m1 m2 ?d ?s (cpy - ?d)" by (simp add: copy_apart_def)
      show "m2 (op + i) = m2 (mt + i)"
      proof (cases "op + i < ?d")
        case True
        with u2 a have "m2 (op + i) = m1 (op + i)" "m2 (mt + i) = m1 (mt + i)"
          by (auto simp: unchanged_def)
        with copied_prefix [OF c1', of i] True n show ?thesis by simp
      next
        case False
        with copied_prefix [OF c2', of "op + i - ?d"] i f show ?thesis by simp
      qed
    qed
    ultimately show ?thesis by blast
  next
    case f: False
    have "within dst mt (cpy - op)" "within dst op (cpy - op)"
      using mt op cpy by (auto simp: within_def)
    from byte_copy_spec [OF this, of m] obtain m2 where
      r: "byte_copy dst dst m op mt cpy = Some m2" and u: "unchanged m m2 op (op + (cpy - op))" and
      c: "copy_apart 1 op mt (cpy - op) \<longrightarrow> copied m m2 op mt (cpy - op)"
      by blast
    have "unchanged m m2 op oend" by (rule unchanged_mono [OF u]) (use cpy op in simp_all)
    moreover have "copy_apart 1 op mt (cpy - op)" using mt by (simp add: copy_apart_def)
    ultimately show ?thesis using True f r c by (auto simp: copy_rest_def copied_def)
  qed
next
  case False
  have "within dst mt (max 8 (cpy - op + 7))" "within dst op (max 8 (cpy - op + 7))"
    using mt op cpy False by (auto simp: within_def)
  from LZ4_wildCopy_spec [OF this, of m] obtain m1 n where
    r1: "LZ4_wildCopy dst dst m op mt cpy = Some m1" and
    n: "cpy \<le> op + n" "n \<le> max 8 (cpy - op + 7)" and
    u1: "unchanged m m1 op (op + n)" and c1: "copy_apart 8 op mt n \<longrightarrow> copied m m1 op mt n"
    by blast
  have "op + n \<le> oend" using n False cpy by (auto simp: max_def split: if_splits)
  then have "unchanged m m1 op oend" by (intro unchanged_mono [OF u1]) simp_all
  moreover have "\<forall>i<cpy - op. m1 (op + i) = m1 (mt + i)" if "mt + 8 \<le> op"
    using c1 that n by (auto simp: copy_apart_def copied_def)
  ultimately show ?thesis using False r1 by (auto simp: copy_rest_def)
qed

text \<open>
  The match as a whole. The copy keeps inside the output, whatever the offset; and an offset other than
  zero makes every byte equal to the one so far back.
\<close>

lemma copy_match_spec:
  assumes mt: "fst dst \<le> mt" and op: "op = mt + offset" "op + 12 \<le> oend" "oend \<le> snd dst"
    and len: "4 \<le> len" "op + len < 2 ^ w"
  shows "\<exists>m'. unchanged m m' op oend \<and>
    copy_match w dst oend m ip op mt offset len =
      Some (if oend < op + len + 5 then SeqError m' ip else SeqNext m' ip (op + len)) \<and>
    (op + len + 5 \<le> oend \<and> 0 < offset \<longrightarrow> (\<forall>i<len. m' (op + i) = m' (mt + i)))"
proof -
  have "within dst mt (offset + 8)" using assms by (simp add: within_def)
  from copy_match_start_spec [OF this, of m, folded op(1)] obtain m1 mt1 where
    r1: "copy_match_start dst m op mt offset = Some (m1, mt1)" and u1: "unchanged m m1 op (op + 8)" and
    mt1: "mt < mt1" "mt1 \<le> op + 4" and
    c1: "0 < offset \<longrightarrow> (\<forall>i<8. m1 (op + i) = m1 (mt + i)) \<and> mt1 \<le> op \<and> (\<exists>k. op + 8 = mt1 + k * offset)"
    by blast
  have u1': "unchanged m m1 op oend" by (rule unchanged_mono [OF u1]) (use op in simp_all)
  show ?thesis
  proof (cases "oend < op + len + 5")
    case True
    with copy_match_rest [OF r1 len(2), of oend ip] u1' show ?thesis by auto
  next
    case False
    have "\<exists>m'. copy_rest dst oend m1 (op + 8) mt1 (op + len) = Some m' \<and> unchanged m1 m' (op + 8) oend \<and>
      (mt1 + 8 \<le> op + 8 \<longrightarrow> (\<forall>i<op + len - (op + 8). m' (op + 8 + i) = m' (mt1 + i)))"
      by (rule copy_rest_spec) (use assms mt1 False in simp_all)
    then obtain m2 where r2: "copy_rest dst oend m1 (op + 8) mt1 (op + len) = Some m2" and
      u2: "unchanged m1 m2 (op + 8) oend" and
      c2: "mt1 \<le> op \<longrightarrow> (\<forall>i<len - 8. m2 (op + 8 + i) = m2 (mt1 + i))"
      by auto
    have "m2 (op + i) = m2 (mt + i)" if o: "0 < offset" and i: "i < len" for i
    proof -
      from c1 o obtain k where k: "op + 8 = mt1 + k * offset" and le: "mt1 \<le> op" by blast
      have "m2 (mt + (offset + i)) = m2 (mt + i)"
      proof (rule periodic_shift [where f = "\<lambda>i. m2 (mt + i)" and t = "mt1 - mt" and k = k and n = len])
        fix i :: nat assume i: "i < 8" "i < len"
        from i o u2 op(1) have "m2 (op + i) = m1 (op + i)" "m2 (mt + i) = m1 (mt + i)"
          by (auto simp: unchanged_def)
        with c1 o i op(1) show "m2 (mt + (offset + i)) = m2 (mt + i)" by (simp add: add.assoc)
      next
        fix i :: nat assume i: "8 \<le> i" "i < len"
        then have "i - 8 < len - 8" by simp
        from c2 [rule_format, OF le this] have "m2 (op + 8 + (i - 8)) = m2 (mt1 + (i - 8))" .
        with i op(1) mt1 show "m2 (mt + (offset + i)) = m2 (mt + (mt1 - mt + (i - 8)))"
          by (simp add: add.assoc)
      qed (use k le mt1 op(1) i in simp_all)
      with op(1) show ?thesis by (simp add: add.assoc)
    qed
    moreover have "unchanged m m2 op oend" by (rule unchanged_trans [OF u1' u2]) simp_all
    ultimately show ?thesis
      using copy_match_rest [OF r1 len(2), of oend ip] r2 False by auto
  qed
qed

subsection \<open>Memory safety\<close>

text \<open>A length, when there is one, was read between two positions, and is bounded by their distance.\<close>

fun len_ok :: "nat \<Rightarrow> nat \<Rightarrow> nat \<Rightarrow> len_result \<Rightarrow> bool" where
  "len_ok lo hi len0 (LenError ip) \<longleftrightarrow> lo \<le> ip \<and> ip \<le> hi"
| "len_ok lo hi len0 (Len ip len) \<longleftrightarrow> lo \<le> ip \<and> ip \<le> hi \<and> len \<le> len0 + 255 * (ip - lo)"

lemma len_ok_step:
  assumes "len_ok (lo + 1) hi len1 r" and "len1 \<le> len0 + 255"
  shows "len_ok lo hi len0 r"
  using assms by (cases r) auto

lemma unat_u8_le: "unat (b :: u8) \<le> 255"
  using unsigned_less [of b, where ?'a = nat] by simp

lemma add_byte_le: "(len + unat (b :: u8)) mod 2 ^ w \<le> len + 255"
  using unat_u8_le [of b] by (meson add_left_mono le_trans mod_less_eq_dividend)

lemma read_u8_within: "fst rd \<le> a \<Longrightarrow> a < e \<Longrightarrow> e \<le> snd rd \<Longrightarrow> read_u8 rd m a = Some (m a)"
  by (simp add: read_u8_def within_def)

lemma literal_length_safe:
  "fst src \<le> ip \<Longrightarrow> ip < iend \<Longrightarrow> iend \<le> snd src \<Longrightarrow>
   \<exists>ip' len'. literal_length w src m iend ip len = Some (ip', len') \<and> len_ok ip iend len (Len ip' len')"
proof (induction w src m iend ip len rule: literal_length.induct)
  case (1 w src m iend ip len)
  let ?l = "(len + unat (m ip)) mod 2 ^ w"
  have s: "read_u8 src m ip = Some (m ip)" using 1(2-4) by (simp add: read_u8_within)
  show ?case
  proof (cases "ip + 1 + RUN_MASK < iend \<and> m ip = 255")
    case True
    then have e: "literal_length w src m iend ip len = literal_length w src m iend (ip + 1) ?l"
      using s by (subst literal_length.simps) simp
    from True 1(2-4) have "fst src \<le> ip + 1" "ip + 1 < iend" "iend \<le> snd src" by simp_all
    from 1(1) [OF s refl True this] e show ?thesis
      using len_ok_step [OF _ add_byte_le] by metis
  next
    case False
    then have "literal_length w src m iend ip len = Some (ip + 1, ?l)"
      using s by (subst literal_length.simps) auto
    with 1(3) add_byte_le [of len "m ip" w] show ?thesis by auto
  qed
qed

lemma match_length_safe:
  "fst src \<le> ip \<Longrightarrow> ip \<le> iend \<Longrightarrow> iend \<le> snd src \<Longrightarrow>
   \<exists>r. match_length w src m iend ip len = Some r \<and> len_ok ip iend len r"
proof (induction w src m iend ip len rule: match_length.induct)
  case (1 w src m iend ip len)
  let ?l = "(len + unat (m ip)) mod 2 ^ w"
  show ?case
  proof (cases "iend < ip + LASTLITERALS")
    case True
    then have "match_length w src m iend ip len = Some (LenError ip)" by (subst match_length.simps) simp
    with 1(3) show ?thesis by simp
  next
    case f: False
    have lt: "ip < iend" using f by (simp add: LASTLITERALS_def)
    have s: "read_u8 src m ip = Some (m ip)" using 1(2,4) lt by (simp add: read_u8_within)
    show ?thesis
    proof (cases "m ip = 255")
      case True
      then have e: "match_length w src m iend ip len = match_length w src m iend (ip + 1) ?l"
        using s f by (subst match_length.simps) simp
      from lt 1(2,4) have "fst src \<le> ip + 1" "ip + 1 \<le> iend" "iend \<le> snd src" by simp_all
      from 1(1) [OF f s refl True this] e show ?thesis
        using len_ok_step [OF _ add_byte_le] by metis
    next
      case False
      then have "match_length w src m iend ip len = Some (Len (ip + 1) ?l)"
        using s f by (subst match_length.simps) auto
      with lt add_byte_le [of len "m ip" w] show ?thesis by auto
    qed
  qed
qed

lemma token_low: "unat (token :: u8) div 16 \<le> 15" "unat (token :: u8) mod 16 \<le> 15"
  using unat_u8_le [of token] by (simp_all add: div_le_dividend)

lemma get_literal_length_safe:
  assumes "fst src \<le> ip" "ip \<le> iend" "iend \<le> snd src"
  shows "\<exists>r. get_literal_length w src m iend ip op token = Some r \<and> len_ok ip iend 15 r"
proof (cases "unat token div 16 = RUN_MASK \<and> ip + RUN_MASK < iend")
  case True
  then have "ip < iend" by simp
  from literal_length_safe [OF assms(1) this assms(3), of w m RUN_MASK] True show ?thesis
    by (auto simp: get_literal_length_def RUN_MASK_def)
next
  case False
  then show ?thesis
    using assms token_low(1) [of token] by (auto simp: get_literal_length_def Let_def)
qed

lemma get_match_length_safe:
  assumes "fst src \<le> ip" "ip + 4 \<le> iend" "iend \<le> snd src"
  shows "\<exists>r. get_match_length w src m iend ip op token = Some r \<and> len_ok ip iend 15 r \<and>
    (\<forall>ip' len. r = Len ip' len \<longrightarrow> ip' + 4 \<le> iend \<and> (len < 15 \<or> (op + len) mod 2 ^ w \<ge> op))"
proof (cases "unat token mod 16 = ML_MASK")
  case True
  have "ip \<le> iend" using assms by simp
  from match_length_safe [OF assms(1) this assms(3), of w m ML_MASK] obtain r where
    r: "match_length w src m iend ip ML_MASK = Some r" "len_ok ip iend ML_MASK r" by blast
  show ?thesis
  proof (cases r)
    case (LenError i)
    with r True show ?thesis by (simp add: get_match_length_def Let_def)
  next
    case (Len ip' len)
    with r have "ip' + LASTLITERALS \<le> iend + 1" using match_length_ip by blast
    with Len r True show ?thesis
      by (simp add: get_match_length_def Let_def ML_MASK_def LASTLITERALS_def)
  qed
next
  case False
  then show ?thesis
    using assms token_low(2) [of token] by (auto simp: get_match_length_def Let_def ML_MASK_def)
qed

text \<open>What a turn of the main loop may do: advance both pointers within their buffers, and write only between the output pointer and the end of the output.\<close>

fun step_ok :: "mem \<Rightarrow> nat \<Rightarrow> nat \<Rightarrow> nat \<Rightarrow> nat \<Rightarrow> lz4_step \<Rightarrow> bool" where
  "step_ok m ip iend op oend (SeqError m' ip') \<longleftrightarrow> unchanged m m' op oend \<and> ip \<le> ip' \<and> ip' \<le> iend"
| "step_ok m ip iend op oend (SeqLast m' op') \<longleftrightarrow> unchanged m m' op oend \<and> op \<le> op' \<and> op' \<le> oend"
| "step_ok m ip iend op oend (SeqNext m' ip' op') \<longleftrightarrow>
     unchanged m m' op oend \<and> ip < ip' \<and> ip' < iend \<and> op \<le> op' \<and> op' \<le> oend"

lemma step_ok_mono:
  assumes "step_ok m1 ip1 iend op1 oend r" and "unchanged m m1 op oend" and "ip \<le> ip1" "op \<le> op1"
  shows "step_ok m ip iend op oend r"
proof -
  have t: "unchanged m m2 op oend" if "unchanged m1 m2 op1 oend" for m2
    using unchanged_trans [OF assms(2) that] assms(4) by simp
  with assms show ?thesis by (cases r) auto
qed

lemma lz4_match_safe:
  assumes ip: "fst src \<le> ip" "ip + 8 \<le> iend" "iend \<le> snd src"
    and op: "fst dst \<le> dest" "dest \<le> op" "op + 12 \<le> oend" "oend \<le> snd dst"
    and w: "oend + 255 * (iend - ip) + 32 \<le> 2 ^ w"
  shows "\<exists>r. lz4_match w src dst dest iend oend m ip op token = Some r \<and> step_ok m ip iend op oend r"
proof -
  have "within src ip 2" using ip by (simp add: within_def)
  then obtain offset where o: "LZ4_readLE16 src m ip = Some offset" by (simp add: LZ4_readLE16_def)
  show ?thesis
  proof (cases "op < dest + offset")
    case True
    with o ip show ?thesis by (simp add: lz4_match_def Let_def)
  next
    case False
    have "fst src \<le> ip + 2" "ip + 2 + 4 \<le> iend" using ip by simp_all
    from get_match_length_safe [OF this ip(3), of w m op token] obtain r where
      r: "get_match_length w src m iend (ip + 2) op token = Some r" "len_ok (ip + 2) iend 15 r" and
      n: "\<And>ip' len. r = Len ip' len \<Longrightarrow> ip' + 4 \<le> iend"
      by blast
    show ?thesis
    proof (cases r)
      case (LenError i)
      with o r False show ?thesis by (simp add: lz4_match_def Let_def)
    next
      case (Len ip' len)
      have l: "ip + 2 \<le> ip'" "ip' + 4 \<le> iend" "len \<le> 15 + 255 * (iend - ip)"
        using r(2) n [OF Len] Len by auto
      have "\<exists>m'. unchanged m m' op oend \<and> copy_match w dst oend m ip' op (op - offset) offset (len + MINMATCH) =
          Some (if oend < op + (len + MINMATCH) + 5 then SeqError m' ip' else SeqNext m' ip' (op + (len + MINMATCH))) \<and>
        (op + (len + MINMATCH) + 5 \<le> oend \<and> 0 < offset \<longrightarrow>
          (\<forall>i<len + MINMATCH. m' (op + i) = m' (op - offset + i)))"
        by (rule copy_match_spec) (use op False l w in \<open>simp_all add: MINMATCH_def\<close>)
      then obtain m' where "unchanged m m' op oend" and
        "copy_match w dst oend m ip' op (op - offset) offset (len + MINMATCH) =
          Some (if oend < op + (len + MINMATCH) + 5 then SeqError m' ip' else SeqNext m' ip' (op + (len + MINMATCH)))"
        by blast
      with o r False Len l show ?thesis by (simp add: lz4_match_def Let_def)
    qed
  qed
qed

lemma lz4_sequence_safe:
  assumes ip: "fst src \<le> ip" "ip < iend" "iend \<le> snd src"
    and op: "fst dst \<le> dest" "dest \<le> op" "op \<le> oend" "oend \<le> snd dst"
    and w: "oend + 255 * (iend - ip) + 32 \<le> 2 ^ w"
  shows "\<exists>r. lz4_sequence w src dst dest inp iend oend m ip op = Some r \<and> step_ok m ip iend op oend r"
proof (cases "inp \<and> ip < op + WILDCOPYLENGTH")
  case True
  with ip show ?thesis by (simp add: lz4_sequence_def)
next
  case np: False
  let ?t = "m ip"
  have rd: "read_u8 src m ip = Some ?t" using ip by (simp add: read_u8_within)
  have "fst src \<le> ip + 1" "ip + 1 \<le> iend" using ip by simp_all
  from get_literal_length_safe [OF this ip(3), of w m op ?t] obtain r where
    r: "get_literal_length w src m iend (ip + 1) op ?t = Some r" "len_ok (ip + 1) iend 15 r" by blast
  show ?thesis
  proof (cases r)
    case (LenError i)
    with np ip r rd show ?thesis by (simp add: lz4_sequence_def)
  next
    case (Len ip' len)
    show ?thesis
    proof (cases "oend < op + len + MFLIMIT \<or> iend < ip' + len + (2 + 1 + LASTLITERALS)")
      case True
      show ?thesis
      proof (cases "ip' + len \<noteq> iend \<or> oend < op + len")
        case e: True
        with True np ip r rd Len show ?thesis by (simp add: lz4_sequence_def Let_def)
      next
        case f: False
        have "within src ip' len" "within dst op len" using f ip op r(2) Len by (auto simp: within_def)
        then have "lz4_sequence w src dst dest inp iend oend m ip op = Some (SeqLast (move_bytes m op ip' len) (op + len))"
          using f True np ip r rd Len by (simp add: lz4_sequence_def Let_def)
        moreover have "unchanged m (move_bytes m op ip' len) op oend"
          by (rule unchanged_mono [OF move_bytes_unchanged]) (use f in simp_all)
        ultimately show ?thesis using f by simp
      qed
    next
      case False
      then have b: "op + len + 12 \<le> oend" "ip' + len + 8 \<le> iend" by (simp_all add: lz4_consts)
      have i': "ip < ip'" "ip' \<le> iend" using r(2) Len by auto
      have "within src ip' (max 8 (op + len - op + 7))" "within dst op (max 8 (op + len - op + 7))"
        using b ip op i' by (auto simp: within_def)
      from LZ4_wildCopy_spec [OF this, of m] obtain m1 n where
        c: "LZ4_wildCopy src dst m op ip' (op + len) = Some m1" and n: "n \<le> max 8 (op + len - op + 7)" and
        u: "unchanged m m1 op (op + n)"
        by blast
      have u': "unchanged m m1 op oend"
        by (rule unchanged_mono [OF u]) (use n b in \<open>auto simp: max_def split: if_splits\<close>)
      have "\<exists>r. lz4_match w src dst dest iend oend m1 (ip' + len) (op + len) ?t = Some r \<and>
          step_ok m1 (ip' + len) iend (op + len) oend r"
        by (rule lz4_match_safe) (use ip op i' b w in simp_all)
      then obtain r2 where
        r2: "lz4_match w src dst dest iend oend m1 (ip' + len) (op + len) ?t = Some r2" and
        ok: "step_ok m1 (ip' + len) iend (op + len) oend r2"
        by blast
      have "step_ok m ip iend op oend r2" by (rule step_ok_mono [OF ok u']) (use i' in simp_all)
      with r2 c False np ip r rd Len show ?thesis by (simp add: lz4_sequence_def Let_def)
    qed
  qed
qed

lemma to_int32_id: "- (2 ^ 31) \<le> x \<Longrightarrow> x < 2 ^ 31 \<Longrightarrow> to_int32 x = x"
  unfolding to_int32_def by (rule sint_of_int_u32)

lemma lz4_loop_safe:
  assumes "fst src \<le> source" "source \<le> ip" "ip < iend" "iend \<le> snd src" "iend < source + 2 ^ 31"
    and "fst dst \<le> dest" "dest \<le> op" "op \<le> oend" "oend \<le> snd dst" "oend < dest + 2 ^ 31"
    and "oend + 255 * (iend - ip) + 32 \<le> 2 ^ w"
  shows "\<exists>m' ret. lz4_loop w src dst source dest inp iend oend m ip op = Some (m', ret) \<and>
    unchanged m m' op oend \<and> (ret < 0 \<or> int op \<le> int dest + ret \<and> int dest + ret \<le> int oend)"
  using assms
proof (induction w src dst source dest inp iend oend m ip op rule: lz4_loop.induct)
  case (1 w src dst source dest inp iend oend m ip op)
  have "\<exists>r. lz4_sequence w src dst dest inp iend oend m ip op = Some r \<and> step_ok m ip iend op oend r"
    by (rule lz4_sequence_safe) (use 1(2-12) in simp_all)
  then obtain r where r: "lz4_sequence w src dst dest inp iend oend m ip op = Some r"
    and ok: "step_ok m ip iend op oend r" by blast
  show ?case
  proof (cases r)
    case (SeqError m' ip')
    have "to_int32 (- (int ip' - int source)) = - (int ip' - int source)"
      using ok SeqError 1(2-6) by (intro to_int32_id) simp_all
    with r ok SeqError 1(3) show ?thesis by (subst lz4_loop.simps) simp
  next
    case (SeqLast m' op')
    have "to_int32 (int op' - int dest) = int op' - int dest"
      using ok SeqLast 1(7-11) by (intro to_int32_id) simp_all
    with r ok SeqLast show ?thesis by (subst lz4_loop.simps) simp
  next
    case (SeqNext m' ip' op')
    with ok have n: "unchanged m m' op oend" "ip < ip'" "ip' < iend" "op \<le> op'" "op' \<le> oend" by simp_all
    have "\<exists>m2 ret. lz4_loop w src dst source dest inp iend oend m' ip' op' = Some (m2, ret) \<and>
      unchanged m' m2 op' oend \<and> (ret < 0 \<or> int op' \<le> int dest + ret \<and> int dest + ret \<le> int oend)"
      by (rule 1(1) [OF r]) (use SeqNext n 1(2-12) in simp_all)
    then obtain m2 ret where
      l: "lz4_loop w src dst source dest inp iend oend m' ip' op' = Some (m2, ret)" and
      u: "unchanged m' m2 op' oend" and ret: "ret < 0 \<or> int op' \<le> int dest + ret \<and> int dest + ret \<le> int oend"
      by blast
    have "unchanged m m2 op oend" by (rule unchanged_trans [OF n(1) u]) (use n in simp_all)
    with l r SeqNext ret n show ?thesis by (subst lz4_loop.simps) auto
  qed
qed

end
