(* ===== verification/Lz4Format.thy ===== *)
theory Lz4Format
  imports Lz4
begin

text \<open>
  This theory states what a block and a frame of LZ4 stand for, and relates the decoder of \<open>Lz4\<close> to it: what it accepts is the
  encoding of a block, and its output is the expansion; every encoded block and frame is decoded. The locale
  \<open>block_decoder\<close> is what the frame relies on. The last section has inputs on which the decoder does not do what it means to.
\<close>

subsection \<open>The block format\<close>

text \<open>
  What a block stands for, independently of the decoder: sequences of literals, an offset and the length of a match,
  then the last literals. A match repeats what has been put out, one byte after the other.
\<close>

datatype lz4_seq = LzSeq "u8 list" nat nat

fun lz4_repeat :: "'a list \<Rightarrow> nat \<Rightarrow> nat \<Rightarrow> 'a list" where
  "lz4_repeat out off 0 = out"
| "lz4_repeat out off (Suc n) = lz4_repeat (out @ [out ! (length out - off)]) off n"

fun expand_seq :: "u8 list \<Rightarrow> lz4_seq \<Rightarrow> u8 list" where
  "expand_seq out (LzSeq lits off n) = lz4_repeat (out @ lits) off n"

definition lz4_expand :: "u8 list \<Rightarrow> lz4_seq list \<Rightarrow> u8 list \<Rightarrow> u8 list" where
  "lz4_expand out seqs lits = foldl expand_seq out seqs @ lits"

text \<open>Its bytes: a token with four bits for either length, more bytes for the lengths where 15 is not enough. The second half of the last token has no meaning.\<close>

definition ext_bytes :: "nat \<Rightarrow> u8 list" where
  "ext_bytes n = (if n < 15 then [] else replicate ((n - 15) div 255) 255 @ [of_nat ((n - 15) mod 255)])"

definition lz4_token :: "nat \<Rightarrow> nat \<Rightarrow> u8" where
  "lz4_token l k = of_nat (16 * min l 15 + min k 15)"

fun encode_seq :: "lz4_seq \<Rightarrow> u8 list" where
  "encode_seq (LzSeq lits off n) =
     lz4_token (length lits) (n - 4) # ext_bytes (length lits) @ lits @
     [of_nat (off mod 256), of_nat (off div 256)] @ ext_bytes (n - 4)"

definition lz4_encode :: "lz4_seq list \<Rightarrow> u8 list \<Rightarrow> nat \<Rightarrow> u8 list" where
  "lz4_encode seqs lits t =
     concat (map encode_seq seqs) @ lz4_token (length lits) t # ext_bytes (length lits) @ lits"

text \<open>Every sequence refers to bytes that are there, by an offset of 16 bits, and has a match of four bytes at least.\<close>

fun seq_offset :: "lz4_seq \<Rightarrow> nat" where
  "seq_offset (LzSeq lits off k) = off"

fun seqs_ok :: "nat \<Rightarrow> lz4_seq list \<Rightarrow> bool" where
  "seqs_ok n [] \<longleftrightarrow> True"
| "seqs_ok n (LzSeq lits off k # seqs) \<longleftrightarrow>
     off \<le> n + length lits \<and> off < 65536 \<and> 4 \<le> k \<and> seqs_ok (n + length lits + k) seqs"

text \<open>The rules for the end of a block: after a match five more literals, and twelve bytes from its start.\<close>

fun end_ok :: "lz4_seq list \<Rightarrow> u8 list \<Rightarrow> bool" where
  "end_ok [] lits \<longleftrightarrow> True"
| "end_ok [LzSeq _ _ k] lits \<longleftrightarrow> 5 \<le> length lits \<and> 12 \<le> k + length lits"
| "end_ok (s # s' # seqs) lits \<longleftrightarrow> end_ok (s' # seqs) lits"

fun seqs_length :: "lz4_seq list \<Rightarrow> nat" where
  "seqs_length [] = 0"
| "seqs_length (LzSeq lits off k # seqs) = length lits + k + seqs_length seqs"

lemma length_lz4_repeat [simp]: "length (lz4_repeat out off n) = length out + n"
  by (induction n arbitrary: out) simp_all

lemma lz4_repeat_prefix: "i < length out \<Longrightarrow> lz4_repeat out off n ! i = out ! i"
  by (induction n arbitrary: out) (simp_all add: nth_append)

lemma lz4_repeat_nth:
  "0 < off \<Longrightarrow> off \<le> length out \<Longrightarrow> i < n \<Longrightarrow>
   lz4_repeat out off n ! (length out + i) = lz4_repeat out off n ! (length out + i - off)"
proof (induction n arbitrary: out i)
  case (Suc n)
  let ?o = "out @ [out ! (length out - off)]"
  show ?case
  proof (cases i)
    case 0
    have "lz4_repeat ?o off n ! length out = ?o ! length out" by (rule lz4_repeat_prefix) simp
    moreover have "lz4_repeat ?o off n ! (length out - off) = ?o ! (length out - off)"
      by (rule lz4_repeat_prefix) (use Suc.prems in simp)
    ultimately show ?thesis using 0 Suc.prems by (simp add: nth_append)
  next
    case (Suc j)
    with Suc.IH [of ?o j] Suc.prems show ?thesis by simp
  qed
qed simp

lemma length_foldl_expand: "length (foldl expand_seq out seqs) = length out + seqs_length seqs"
proof (induction seqs arbitrary: out)
  case (Cons s seqs)
  then show ?case by (cases s) simp
qed simp

lemma length_lz4_expand: "length (lz4_expand out seqs lits) = length out + seqs_length seqs + length lits"
  by (simp add: lz4_expand_def length_foldl_expand)

lemma end_ok_rest:
  assumes "end_ok (s # seqs) lits" "seqs_ok n seqs"
  shows "5 \<le> length lits \<and> end_ok seqs lits \<and> (\<forall>ls off k. s = LzSeq ls off k \<longrightarrow> 4 \<le> k \<longrightarrow> 12 \<le> k + seqs_length seqs + length lits)"
  using assms
proof (induction seqs arbitrary: s n)
  case Nil
  then show ?case by (cases s) simp
next
  case (Cons s' seqs)
  obtain ls off k where s': "s' = LzSeq ls off k" by (cases s')
  have e: "end_ok (s' # seqs) lits" using Cons.prems(1) by simp
  from Cons.prems(2) s' have ok: "seqs_ok (n + length ls + k) seqs" by simp
  from Cons.IH [OF e ok] have "5 \<le> length lits" by simp
  with e s' Cons.prems(2) show ?case by auto
qed

subsection \<open>Bytes in memory\<close>

definition holds :: "mem \<Rightarrow> nat \<Rightarrow> u8 list \<Rightarrow> bool" where
  "holds m a xs \<longleftrightarrow> (\<forall>i<length xs. m (a + i) = xs ! i)"

lemma holds_Nil [simp]: "holds m a []"
  by (simp add: holds_def)

lemma holds_Cons [simp]: "holds m a (x # xs) \<longleftrightarrow> m a = x \<and> holds m (a + 1) xs"
  by (auto simp: holds_def less_Suc_eq_0_disj)

lemma holds_append [simp]: "holds m a (xs @ ys) \<longleftrightarrow> holds m a xs \<and> holds m (a + length xs) ys"
proof
  assume h: "holds m a (xs @ ys)"
  have "m (a + i) = xs ! i" if "i < length xs" for i
    using h that by (auto simp: holds_def nth_append dest: spec [of _ i])
  moreover have "m (a + length xs + i) = ys ! i" if "i < length ys" for i
    using h that by (auto simp: holds_def nth_append add.assoc dest: spec [of _ "length xs + i"])
  ultimately show "holds m a xs \<and> holds m (a + length xs) ys" by (simp add: holds_def)
next
  assume h: "holds m a xs \<and> holds m (a + length xs) ys"
  show "holds m a (xs @ ys)"
    unfolding holds_def
  proof (intro allI impI)
    fix i assume i: "i < length (xs @ ys)"
    show "m (a + i) = (xs @ ys) ! i"
    proof (cases "i < length xs")
      case False
      with i have "i - length xs < length ys" by simp
      with h have "m (a + length xs + (i - length xs)) = ys ! (i - length xs)" unfolding holds_def by blast
      with False show ?thesis by (simp add: nth_append)
    qed (use h in \<open>simp add: holds_def nth_append\<close>)
  qed
qed

definition mem_bytes :: "mem \<Rightarrow> nat \<Rightarrow> nat \<Rightarrow> u8 list" where
  "mem_bytes m a n = map m [a..<a + n]"

lemma length_mem_bytes [simp]: "length (mem_bytes m a n) = n"
  by (simp add: mem_bytes_def)

lemma holds_mem_bytes [simp]: "holds m a (mem_bytes m a n)"
  by (simp add: holds_def mem_bytes_def)

lemma holds_unchanged:
  "holds m a xs \<Longrightarrow> unchanged m m' lo hi \<Longrightarrow> a + length xs \<le> lo \<or> hi \<le> a \<Longrightarrow> holds m' a xs"
  by (auto simp: holds_def unchanged_def)

lemma mem_bytes_holds: "holds m a xs \<Longrightarrow> mem_bytes m a (length xs) = xs"
  by (auto simp: holds_def mem_bytes_def intro: nth_equalityI)

lemma holds_replicate: "holds m a (replicate n b) \<longleftrightarrow> (\<forall>i<n. m (a + i) = b)"
  by (simp add: holds_def)

lemma holds_move_bytes: "holds m s xs \<Longrightarrow> holds (move_bytes m d s (length xs)) d xs"
  by (simp add: holds_def move_bytes_def)

text \<open>A copied match is the repetition.\<close>

lemma holds_lz4_repeat:
  assumes h: "holds m a out" and off: "0 < off" "off \<le> length out"
    and c: "\<And>i. i < n \<Longrightarrow> m (a + length out + i) = m (a + length out - off + i)"
  shows "holds m a (lz4_repeat out off n)"
  unfolding holds_def
proof (intro allI impI)
  fix i assume "i < length (lz4_repeat out off n)"
  then have "i < length out + n" by simp
  then show "m (a + i) = lz4_repeat out off n ! i"
  proof (induction i rule: less_induct)
    case (less i)
    show ?case
    proof (cases "i < length out")
      case True
      with h show ?thesis by (simp add: holds_def lz4_repeat_prefix)
    next
      case False
      define j where "j = i - length out"
      have i: "i = length out + j" and j: "j < n" using False less.prems by (simp_all add: j_def)
      have "m (a + i) = m (a + length out - off + j)" using c [OF j] i by (simp add: add.assoc)
      also have "a + length out - off + j = a + (i - off)" using i off by simp
      also have "m (a + (i - off)) = lz4_repeat out off n ! (i - off)"
        by (rule less.IH) (use i off less.prems in simp_all)
      also have "\<dots> = lz4_repeat out off n ! i" using lz4_repeat_nth [OF off j] i by simp
      finally show ?thesis .
    qed
  qed
qed

subsection \<open>Lengths and their bytes\<close>

lemma ext_bytes_split:
  "b < 255 \<Longrightarrow> ext_bytes (15 + 255 * k + b) = replicate k 255 @ [of_nat b]"
  by (simp add: ext_bytes_def div_mult_self4 mod_mult_self4 flip: add.assoc)

lemma length_ext_bytes: "length (ext_bytes n) = (if n < 15 then 0 else (n - 15) div 255 + 1)"
  by (simp add: ext_bytes_def)

text \<open>The two loops: they read bytes of 255, and one more.\<close>

lemma match_length_reads:
  "match_length w src m iend ip len = Some (Len ip' len') \<Longrightarrow> len + 255 * (iend - ip) < 2 ^ w \<Longrightarrow>
   \<exists>k. ip' = ip + k + 1 \<and> holds m ip (replicate k 255) \<and> m (ip + k) \<noteq> 255 \<and> len' = len + 255 * k + unat (m (ip + k))"
proof (induction w src m iend ip len rule: match_length.induct)
  case (1 w src m iend ip len)
  have lt: "\<not> iend < ip + LASTLITERALS" using 1(2) by (subst (asm) match_length.simps) (auto split: if_splits)
  then have i: "ip < iend" by (simp add: LASTLITERALS_def)
  have s: "read_u8 src m ip = Some (m ip)"
    using 1(2) lt by (subst (asm) match_length.simps) (auto simp: read_u8_def split: if_splits)
  have "len + unat (m ip) < 2 ^ w" using 1(3) i unat_u8_le [of "m ip"] by (simp add: diff_mult_distrib2)
  then have l: "(len + unat (m ip)) mod 2 ^ w = len + unat (m ip)" by simp
  show ?case
  proof (cases "m ip = 255")
    case True
    then have "match_length w src m iend (ip + 1) (len + unat (m ip)) = Some (Len ip' len')"
      using 1(2) s lt l by (subst (asm) match_length.simps) simp
    moreover have "len + unat (m ip) + 255 * (iend - (ip + 1)) < 2 ^ w"
      using True 1(3) i by (simp add: diff_mult_distrib2)
    ultimately obtain k where k: "ip' = ip + 1 + k + 1" "holds m (ip + 1) (replicate k 255)"
      "m (ip + 1 + k) \<noteq> 255" "len' = len + unat (m ip) + 255 * k + unat (m (ip + 1 + k))"
      using 1(1) [OF lt s refl True] l by auto
    with True show ?thesis by (intro exI [of _ "Suc k"]) simp
  next
    case False
    then have "ip' = ip + 1 \<and> len' = len + unat (m ip)"
      using 1(2) s lt l by (subst (asm) match_length.simps) simp
    with False show ?thesis by (intro exI [of _ 0]) simp
  qed
qed

lemma literal_length_reads:
  "literal_length w src m iend ip len = Some (ip', len') \<Longrightarrow> ip < iend \<Longrightarrow> len + 255 * (iend - ip) < 2 ^ w \<Longrightarrow>
   \<exists>k. ip' = ip + k + 1 \<and> holds m ip (replicate k 255) \<and> (m (ip + k) \<noteq> 255 \<or> iend \<le> ip' + RUN_MASK) \<and>
     len' = len + 255 * k + unat (m (ip + k))"
proof (induction w src m iend ip len rule: literal_length.induct)
  case (1 w src m iend ip len)
  have s: "read_u8 src m ip = Some (m ip)"
    using 1(2) by (subst (asm) literal_length.simps) (auto simp: read_u8_def split: if_splits)
  have "len + unat (m ip) < 2 ^ w" using 1(3,4) unat_u8_le [of "m ip"] by (simp add: diff_mult_distrib2)
  then have l: "(len + unat (m ip)) mod 2 ^ w = len + unat (m ip)" by simp
  show ?case
  proof (cases "ip + 1 + RUN_MASK < iend \<and> m ip = 255")
    case True
    then have "literal_length w src m iend (ip + 1) (len + unat (m ip)) = Some (ip', len')"
      using 1(2) s l by (subst (asm) literal_length.simps) simp
    moreover have "len + unat (m ip) + 255 * (iend - (ip + 1)) < 2 ^ w"
      using True 1(3,4) by (simp add: diff_mult_distrib2)
    ultimately obtain k where k: "ip' = ip + 1 + k + 1" "holds m (ip + 1) (replicate k 255)"
      "m (ip + 1 + k) \<noteq> 255 \<or> iend \<le> ip' + RUN_MASK" "len' = len + unat (m ip) + 255 * k + unat (m (ip + 1 + k))"
      using 1(1) [OF s refl True] l True by auto
    with True show ?thesis by (intro exI [of _ "Suc k"]) simp
  next
    case False
    then have "ip' = ip + 1 \<and> len' = len + unat (m ip)"
      using 1(2) s l by (subst (asm) literal_length.simps) (auto split: if_splits)
    with False show ?thesis by (intro exI [of _ 0]) auto
  qed
qed

lemma lz4_token_parts:
  "unat (lz4_token l k) div 16 = min l 15" "unat (lz4_token l k) mod 16 = min k 15"
proof -
  have "16 * min l 15 + min k 15 < 2 ^ 8" by (simp add: min_def)
  then have "unat (lz4_token l k) = 16 * min l 15 + min k 15"
    unfolding lz4_token_def by (intro unat_of_nat_lt) simp
  then show "unat (lz4_token l k) div 16 = min l 15" "unat (lz4_token l k) mod 16 = min k 15"
    by (auto simp: min_def)
qed

lemma lz4_token_eq:
  assumes "unat t div 16 = min l 15" "unat t mod 16 = min k 15"
  shows "t = lz4_token l k"
proof (rule word_eq_unatI)
  have "unat t = unat t div 16 * 16 + unat t mod 16" by (rule div_mult_mod_eq [symmetric])
  also have "\<dots> = unat (lz4_token l k) div 16 * 16 + unat (lz4_token l k) mod 16"
    by (simp only: assms lz4_token_parts)
  also have "\<dots> = unat (lz4_token l k)" by (rule div_mult_mod_eq)
  finally show "unat t = unat (lz4_token l k)" .
qed

lemma u8_ne_255: "(b :: u8) \<noteq> 255 \<Longrightarrow> unat b < 255"
  using unat_u8_le [of b] word_eq_unatI [of b 255] by fastforce

lemma ext_bytes_read:
  assumes "b \<noteq> 255"
  shows "ext_bytes (15 + 255 * k + unat b) = replicate k 255 @ [b]"
    and "15 \<le> 15 + 255 * k + unat b"
  using ext_bytes_split [OF u8_ne_255 [OF assms], of k] by simp_all

text \<open>A length that was read stands there in its encoded form.\<close>

lemma get_match_length_sound:
  assumes g: "get_match_length w src m iend ip op token = Some (Len ip' len)"
    and w: "15 + 255 * (iend - ip) < 2 ^ w"
  shows "holds m ip (ext_bytes len) \<and> ip' = ip + length (ext_bytes len) \<and> unat token mod 16 = min len 15"
proof (cases "unat token mod 16 = ML_MASK")
  case True
  with g obtain len' where "match_length w src m iend ip 15 = Some (Len ip' len')" "len' = len"
    by (clarsimp simp: get_match_length_def bind_eq_Some_conv ML_MASK_def)
      (auto split: len_result.split_asm if_split_asm)
  from match_length_reads [OF this(1)] w this(2) obtain k where
    "ip' = ip + k + 1" "holds m ip (replicate k 255)" "m (ip + k) \<noteq> 255" "len = 15 + 255 * k + unat (m (ip + k))"
    by auto
  with ext_bytes_read [of "m (ip + k)" k] True show ?thesis by (simp add: ML_MASK_def)
next
  case False
  with g token_low(2) [of token] show ?thesis
    by (auto simp: get_match_length_def Let_def ML_MASK_def ext_bytes_def)
qed

lemma get_literal_length_sound:
  assumes g: "get_literal_length w src m iend ip op token = Some (Len ip' len)"
    and w: "15 + 255 * (iend - ip) < 2 ^ w" and e: "ip' + len \<le> iend"
  shows "holds m ip (ext_bytes len) \<and> ip' = ip + length (ext_bytes len) \<and> unat token div 16 = min len 15"
proof (cases "unat token div 16 = RUN_MASK")
  case True
  with g have lt: "ip + 15 < iend" and "literal_length w src m iend ip 15 = Some (ip', len)"
    by (auto simp: get_literal_length_def bind_eq_Some_conv RUN_MASK_def split: if_split_asm)
  from literal_length_reads [OF this(2)] w lt obtain k where
    k: "ip' = ip + k + 1" "holds m ip (replicate k 255)" "m (ip + k) \<noteq> 255 \<or> iend \<le> ip' + RUN_MASK"
      "len = 15 + 255 * k + unat (m (ip + k))"
    by auto
  have "m (ip + k) \<noteq> 255"
  proof
    assume "m (ip + k) = 255"
    with k e show False by (simp add: RUN_MASK_def)
  qed
  with k ext_bytes_read [of "m (ip + k)" k] True show ?thesis by (simp add: RUN_MASK_def)
next
  case False
  with g token_low(1) [of token] show ?thesis
    by (auto simp: get_literal_length_def Let_def RUN_MASK_def ext_bytes_def split: if_split_asm)
qed

text \<open>And an encoded length is read.\<close>

lemma match_length_replicate:
  assumes "holds m ip (replicate k 255 @ [b])" "b \<noteq> 255" "fst src \<le> ip" "ip + k + LASTLITERALS \<le> iend" "iend \<le> snd src"
    and "len + 255 * k + unat b < 2 ^ w"
  shows "match_length w src m iend ip len = Some (Len (ip + k + 1) (len + 255 * k + unat b))"
  using assms
proof (induction k arbitrary: ip len)
  case 0
  then have "read_u8 src m ip = Some b"
    using read_u8_within [of src ip iend m] by (simp add: LASTLITERALS_def)
  with 0 show ?case by (subst match_length.simps) simp
next
  case (Suc k)
  then have s: "read_u8 src m ip = Some 255"
    using read_u8_within [of src ip iend m] by (simp add: LASTLITERALS_def)
  have "match_length w src m iend (ip + 1) (len + 255) = Some (Len (ip + 1 + k + 1) (len + 255 + 255 * k + unat b))"
    by (rule Suc.IH) (use Suc.prems in simp_all)
  moreover have "unat (255 :: u8) = 255" by simp
  then have "(len + unat (255 :: u8)) mod 2 ^ w = len + 255" unfolding \<open>unat (255 :: u8) = 255\<close> using Suc.prems by simp
  ultimately show ?case using s Suc.prems by (subst match_length.simps) (simp add: algebra_simps)
qed

lemma literal_length_replicate:
  assumes "holds m ip (replicate k 255 @ [b])" "b \<noteq> 255" "fst src \<le> ip" "ip + k + RUN_MASK < iend" "iend \<le> snd src"
    and "len + 255 * k + unat b < 2 ^ w"
  shows "literal_length w src m iend ip len = Some (ip + k + 1, len + 255 * k + unat b)"
  using assms
proof (induction k arbitrary: ip len)
  case 0
  then have "read_u8 src m ip = Some b"
    using read_u8_within [of src ip iend m] by simp
  with 0 show ?case by (subst literal_length.simps) simp
next
  case (Suc k)
  then have s: "read_u8 src m ip = Some 255"
    using read_u8_within [of src ip iend m] by simp
  have "literal_length w src m iend (ip + 1) (len + 255) = Some (ip + 1 + k + 1, len + 255 + 255 * k + unat b)"
    by (rule Suc.IH) (use Suc.prems in simp_all)
  moreover have "unat (255 :: u8) = 255" by simp
  then have "(len + unat (255 :: u8)) mod 2 ^ w = len + 255" unfolding \<open>unat (255 :: u8) = 255\<close> using Suc.prems by simp
  ultimately show ?case using s Suc.prems by (subst literal_length.simps) (simp add: algebra_simps)
qed

lemma ext_bytes_obtain:
  assumes "15 \<le> n"
  obtains k b where "ext_bytes n = replicate k 255 @ [b]" "b \<noteq> (255 :: u8)" "n = 15 + 255 * k + unat b"
proof
  let ?b = "of_nat ((n - 15) mod 255) :: u8"
  have lt: "(n - 15) mod 255 < 255" by simp
  then have u: "unat ?b = (n - 15) mod 255" by (intro unat_of_nat_lt) simp
  show "ext_bytes n = replicate ((n - 15) div 255) 255 @ [?b]" using assms by (simp add: ext_bytes_def)
  show "?b \<noteq> 255"
  proof
    assume "?b = 255"
    then have "unat ?b = 255" by simp
    with u lt show False by simp
  qed
  show "n = 15 + 255 * ((n - 15) div 255) + unat ?b"
    unfolding u using assms div_mult_mod_eq [of "n - 15" 255] by linarith
qed

lemma get_match_length_complete:
  assumes h: "holds m ip (ext_bytes len)" and t: "unat token mod 16 = min len 15"
    and src: "fst src \<le> ip" "ip + length (ext_bytes len) + 4 \<le> iend" "iend \<le> snd src"
    and w: "op + len < 2 ^ w"
  shows "get_match_length w src m iend ip op token = Some (Len (ip + length (ext_bytes len)) len)"
proof (cases "len < 15")
  case True
  with t show ?thesis by (simp add: get_match_length_def ML_MASK_def ext_bytes_def)
next
  case False
  then obtain k b where e: "ext_bytes len = replicate k 255 @ [b]" and b: "b \<noteq> 255" and n: "len = 15 + 255 * k + unat b"
    using ext_bytes_obtain [of len] by auto
  have "match_length w src m iend ip 15 = Some (Len (ip + k + 1) (15 + 255 * k + unat b))"
    by (rule match_length_replicate) (use h e b src w n in \<open>simp_all add: LASTLITERALS_def\<close>)
  with t False e n w show ?thesis by (simp add: get_match_length_def ML_MASK_def)
qed

lemma get_literal_length_complete:
  assumes h: "holds m ip (ext_bytes len)" and t: "unat token div 16 = min len 15"
    and src: "fst src \<le> ip" "ip + length (ext_bytes len) + len \<le> iend" "iend \<le> snd src"
    and w: "op + len < 2 ^ w" "iend < 2 ^ w"
  shows "get_literal_length w src m iend ip op token = Some (Len (ip + length (ext_bytes len)) len)"
proof (cases "len < 15")
  case True
  with t show ?thesis by (simp add: get_literal_length_def RUN_MASK_def ext_bytes_def)
next
  case False
  then obtain k b where e: "ext_bytes len = replicate k 255 @ [b]" and b: "b \<noteq> 255" and n: "len = 15 + 255 * k + unat b"
    using ext_bytes_obtain [of len] by auto
  have "literal_length w src m iend ip 15 = Some (ip + k + 1, 15 + 255 * k + unat b)"
    by (rule literal_length_replicate) (use h e b src w n in \<open>simp_all add: RUN_MASK_def\<close>)
  with t False e n w src show ?thesis by (simp add: get_literal_length_def RUN_MASK_def)
qed

subsection \<open>A turn of the main loop, in terms of the format\<close>

definition buffers_apart :: "buffer \<Rightarrow> buffer \<Rightarrow> bool" where
  "buffers_apart a b \<longleftrightarrow> snd a \<le> fst b \<or> snd b \<le> fst a"

text \<open>The literals in front of a match.\<close>

lemma literal_copy:
  assumes "fst src \<le> ip" "ip + len + 8 \<le> snd src" "fst dst \<le> op" "op + len + 12 \<le> oend" "oend \<le> snd dst"
    and "buffers_apart src dst"
  shows "\<exists>m1. LZ4_wildCopy src dst m op ip (op + len) = Some m1 \<and> unchanged m m1 op oend \<and>
    (\<forall>xs. length xs = len \<longrightarrow> holds m ip xs \<longrightarrow> holds m1 op xs)"
proof -
  have "within src ip (max 8 (op + len - op + 7))" "within dst op (max 8 (op + len - op + 7))"
    using assms by (auto simp: within_def)
  from LZ4_wildCopy_spec [OF this, of m] obtain m1 n where
    c: "LZ4_wildCopy src dst m op ip (op + len) = Some m1" and
    n: "op + len \<le> op + n" "n \<le> max 8 (op + len - op + 7)" and
    u: "unchanged m m1 op (op + n)" and cp: "copy_apart 8 op ip n \<longrightarrow> copied m m1 op ip n"
    by blast
  have n': "n \<le> len + 8" using n by (auto simp: max_def split: if_splits)
  then have "copy_apart 8 op ip n" using assms by (auto simp: copy_apart_def buffers_apart_def)
  with cp have cp': "copied m m1 op ip n" by simp
  have "holds m1 op xs" if l: "length xs = len" and h: "holds m ip xs" for xs
    unfolding holds_def
  proof (intro allI impI)
    fix i assume i: "i < length xs"
    then have "m1 (op + i) = m1 (ip + i)" using cp' l n by (simp add: copied_def)
    also have "\<dots> = m (ip + i)" using u assms n' i l by (auto simp: unchanged_def buffers_apart_def)
    finally show "m1 (op + i) = xs ! i" using h i by (simp add: holds_def)
  qed
  moreover have "unchanged m m1 op oend" by (rule unchanged_mono [OF u]) (use n' assms in simp_all)
  ultimately show ?thesis using c by blast
qed

text \<open>The match, when its length has been read.\<close>

lemma lz4_match_result:
  assumes o: "LZ4_readLE16 src m ip = Some offset" "dest + offset \<le> op"
    and g: "get_match_length w src m iend (ip + 2) op token = Some (Len ip' len)"
    and op: "fst dst \<le> dest" "op + 12 \<le> oend" "oend \<le> snd dst" "op + (len + 4) < 2 ^ w"
  shows "\<exists>m'. unchanged m m' op oend \<and>
    lz4_match w src dst dest iend oend m ip op token =
      Some (if oend < op + (len + 4) + 5 then SeqError m' ip' else SeqNext m' ip' (op + (len + 4))) \<and>
    (op + (len + 4) + 5 \<le> oend \<and> 0 < offset \<longrightarrow>
      (\<forall>out. dest + length out = op \<longrightarrow> holds m dest out \<longrightarrow> holds m' dest (lz4_repeat out offset (len + 4))))"
proof -
  have "\<exists>m'. unchanged m m' op oend \<and> copy_match w dst oend m ip' op (op - offset) offset (len + 4) =
      Some (if oend < op + (len + 4) + 5 then SeqError m' ip' else SeqNext m' ip' (op + (len + 4))) \<and>
    (op + (len + 4) + 5 \<le> oend \<and> 0 < offset \<longrightarrow> (\<forall>i<len + 4. m' (op + i) = m' (op - offset + i)))"
    by (rule copy_match_spec) (use o op in simp_all)
  then obtain m' where u: "unchanged m m' op oend" and
    r: "copy_match w dst oend m ip' op (op - offset) offset (len + 4) =
      Some (if oend < op + (len + 4) + 5 then SeqError m' ip' else SeqNext m' ip' (op + (len + 4)))" and
    c: "op + (len + 4) + 5 \<le> oend \<and> 0 < offset \<longrightarrow> (\<forall>i<len + 4. m' (op + i) = m' (op - offset + i))"
    by blast
  have "lz4_match w src dst dest iend oend m ip op token =
      copy_match w dst oend m ip' op (op - offset) offset (len + 4)"
    using o g by (simp add: lz4_match_def Let_def MINMATCH_def)
  moreover have "holds m' dest (lz4_repeat out offset (len + 4))"
    if "op + (len + 4) + 5 \<le> oend \<and> 0 < offset" "dest + length out = op" "holds m dest out" for out
  proof (rule holds_lz4_repeat)
    show "holds m' dest out" by (rule holds_unchanged [OF that(3) u]) (use that in simp)
  qed (use that o c in auto)
  ultimately show ?thesis using u r by (intro exI [of _ m']) simp
qed

lemma readLE16_bytes:
  assumes "LZ4_readLE16 src m ip = Some offset"
  shows "holds m ip [of_nat (offset mod 256), of_nat (offset div 256)] \<and> offset < 65536"
proof -
  from assms have o: "offset = unat (m (ip + 1)) * 256 + unat (m ip)" by (simp add: LZ4_readLE16_def split: if_splits)
  have b: "unat (m ip) < 256" "unat (m (ip + 1)) < 256"
    using unat_u8_le [of "m ip"] unat_u8_le [of "m (ip + 1)"] by linarith+
  with o have "offset mod 256 = unat (m ip)" "offset div 256 = unat (m (ip + 1))" by simp_all
  with o b show ?thesis by simp
qed

lemma bytes_readLE16:
  assumes "holds m ip [of_nat (offset mod 256), of_nat (offset div 256)]" "offset < 65536"
    and "fst src \<le> ip" "ip + 2 \<le> snd src"
  shows "LZ4_readLE16 src m ip = Some offset"
proof -
  from assms(1) have b: "m ip = of_nat (offset mod 256)" "m (ip + 1) = of_nat (offset div 256)" by simp_all
  have "unat (m ip) = offset mod 256" unfolding b by (rule unat_of_nat_lt) simp
  moreover have "unat (m (ip + 1)) = offset div 256" unfolding b by (rule unat_of_nat_lt) (use assms(2) in simp)
  ultimately show ?thesis using assms(3,4) by (simp add: LZ4_readLE16_def within_def)
qed

text \<open>The turn up to the match.\<close>

lemma lz4_sequence_literals:
  assumes np: "\<not> (inp \<and> ip < op + WILDCOPYLENGTH)" and ip: "fst src \<le> ip" "ip < iend" "iend \<le> snd src"
    and g: "get_literal_length w src m iend (ip + 1) op (m ip) = Some (Len ip' len)"
    and b: "op + len + 12 \<le> oend" "ip' + len + 8 \<le> iend"
    and op: "fst dst \<le> op" "oend \<le> snd dst" and ap: "buffers_apart src dst"
  shows "\<exists>m1. lz4_sequence w src dst dest inp iend oend m ip op =
      lz4_match w src dst dest iend oend m1 (ip' + len) (op + len) (m ip) \<and> unchanged m m1 op oend \<and>
    (\<forall>xs. length xs = len \<longrightarrow> holds m ip' xs \<longrightarrow> holds m1 op xs)"
proof -
  have "\<exists>m1. LZ4_wildCopy src dst m op ip' (op + len) = Some m1 \<and> unchanged m m1 op oend \<and>
    (\<forall>xs. length xs = len \<longrightarrow> holds m ip' xs \<longrightarrow> holds m1 op xs)"
    by (rule literal_copy) (use assms get_literal_length_ip [OF g] in simp_all)
  moreover have "read_u8 src m ip = Some (m ip)" using ip by (simp add: read_u8_within)
  ultimately show ?thesis using np g b by (auto simp: lz4_sequence_def Let_def lz4_consts)
qed

text \<open>Memory of the input does not change.\<close>

lemma holds_input:
  assumes "unchanged m m1 op oend" "buffers_apart src dst" "fst dst \<le> op" "oend \<le> snd dst"
    and "fst src \<le> a" "a + length xs \<le> snd src"
  shows "holds m1 a xs = holds m a xs"
  using assms by (auto simp: holds_def unchanged_def buffers_apart_def)

lemma same_input:
  assumes "unchanged m m1 op oend" "buffers_apart src dst" "fst dst \<le> op" "oend \<le> snd dst" "fst src \<le> a" "a < snd src"
  shows "m1 a = m a"
  using assms by (auto simp: unchanged_def buffers_apart_def)

definition encode_last :: "u8 list \<Rightarrow> nat \<Rightarrow> u8 list" where
  "encode_last lits t = lz4_token (length lits) t # ext_bytes (length lits) @ lits"

lemma lz4_encode_simps:
  "lz4_encode [] lits t = encode_last lits t"
  "lz4_encode (s # seqs) lits t = encode_seq s @ lz4_encode seqs lits t"
  by (simp_all add: lz4_encode_def encode_last_def)

subsection \<open>Soundness: what is decoded is the expansion of an encoded block\<close>

lemma lz4_sequence_NextD:
  assumes "lz4_sequence w src dst dest inp iend oend m ip op = Some (SeqNext m' ip' op')"
  shows "\<not> (inp \<and> ip < op + WILDCOPYLENGTH) \<and> (\<exists>ip1 len. get_literal_length w src m iend (ip + 1) op (m ip) = Some (Len ip1 len) \<and>
    op + len + 12 \<le> oend \<and> ip1 + len + 8 \<le> iend)"
  using assms
  by (clarsimp simp: lz4_sequence_def bind_eq_Some_conv read_u8_def split: if_split_asm)
    (auto simp: Let_def bind_eq_Some_conv lz4_consts split: len_result.split_asm if_split_asm)

lemma lz4_match_NextD:
  assumes "lz4_match w src dst dest iend oend m ip op token = Some (SeqNext m' ip' op')"
  shows "\<exists>offset ip1 len. LZ4_readLE16 src m ip = Some offset \<and> dest + offset \<le> op \<and>
    get_match_length w src m iend (ip + 2) op token = Some (Len ip1 len)"
  using assms
  by (clarsimp simp: lz4_match_def Let_def bind_eq_Some_conv split: if_split_asm)
    (auto split: len_result.split_asm)

lemma lz4_sequence_sound:
  assumes s: "lz4_sequence w src dst dest inp iend oend m ip op = Some (SeqNext m' ip' op')"
    and ip: "fst src \<le> ip" "ip < iend" "iend \<le> snd src"
    and op: "fst dst \<le> dest" "dest \<le> op" "op \<le> oend" "oend \<le> snd dst"
    and w: "oend + 255 * (iend - ip) + 32 \<le> 2 ^ w" and ap: "buffers_apart src dst"
  shows "\<exists>lits off k. ip' = ip + length (encode_seq (LzSeq lits off k)) \<and> holds m ip (encode_seq (LzSeq lits off k)) \<and>
    op' = op + length lits + k \<and> dest + off \<le> op + length lits \<and> off < 65536 \<and> 4 \<le> k \<and>
    (\<forall>out. 0 < off \<longrightarrow> dest + length out = op \<longrightarrow> holds m dest out \<longrightarrow> holds m' dest (expand_seq out (LzSeq lits off k)))"
proof -
  from lz4_sequence_NextD [OF s] obtain ip1 len where np: "\<not> (inp \<and> ip < op + WILDCOPYLENGTH)" and
    g: "get_literal_length w src m iend (ip + 1) op (m ip) = Some (Len ip1 len)" and
    b: "op + len + 12 \<le> oend" "ip1 + len + 8 \<le> iend"
    by blast
  define lits where "lits = mem_bytes m ip1 len"
  have ip1: "ip < ip1" using get_literal_length_ip [OF g] by simp
  have op': "fst dst \<le> op" using op by simp
  from lz4_sequence_literals [OF np ip g b op' op(4) ap, of dest] s obtain m1 where
    mt: "lz4_match w src dst dest iend oend m1 (ip1 + len) (op + len) (m ip) = Some (SeqNext m' ip' op')" and
    u: "unchanged m m1 op oend" and l: "\<forall>xs. length xs = len \<longrightarrow> holds m ip1 xs \<longrightarrow> holds m1 op xs"
    by auto
  from lz4_match_NextD [OF mt] obtain offset ip2 ml where o: "LZ4_readLE16 src m1 (ip1 + len) = Some offset"
    "dest + offset \<le> op + len" and
    gm: "get_match_length w src m1 iend (ip1 + len + 2) (op + len) (m ip) = Some (Len ip2 ml)"
    by blast
  have tot: "15 + 255 * (iend - ip) < 2 ^ w" "15 + 255 * (iend - (ip + 1)) < 2 ^ w"
    "15 + 255 * (iend - (ip1 + len + 2)) < 2 ^ w" using w ip1 by simp_all
  have ls: "holds m (ip + 1) (ext_bytes len) \<and> ip1 = ip + 1 + length (ext_bytes len) \<and> unat (m ip) div 16 = min len 15"
    by (rule get_literal_length_sound [OF g tot(2)]) (use b in simp)
  note ms = get_match_length_sound [OF gm tot(3)]
  have "ip2 \<le> iend" "ml \<le> 15 + 255 * (iend - (ip1 + len + 2))"
  proof -
    have "fst src \<le> ip1 + len + 2" "ip1 + len + 2 + 4 \<le> iend" using ip ip1 b by simp_all
    from get_match_length_safe [OF this ip(3), of w m1 "op + len" "m ip"] gm
    have "len_ok (ip1 + len + 2) iend 15 (Len ip2 ml)" by auto
    then show "ip2 \<le> iend" "ml \<le> 15 + 255 * (iend - (ip1 + len + 2))" by auto
  qed
  note ip2 = this
  have "op + len + (ml + 4) < 2 ^ w" using w b ip2(2) ip1 by simp
  from lz4_match_result [OF o gm op(1) b(1) op(4) this] mt obtain m2 where
    "SeqNext m' ip' op' = (if oend < op + len + (ml + 4) + 5 then SeqError m2 ip2 else SeqNext m2 ip2 (op + len + (ml + 4)))" and
    c: "op + len + (ml + 4) + 5 \<le> oend \<and> 0 < offset \<longrightarrow>
      (\<forall>out. dest + length out = op + len \<longrightarrow> holds m1 dest out \<longrightarrow> holds m2 dest (lz4_repeat out offset (ml + 4)))"
    by auto
  then have r: "op + len + (ml + 4) + 5 \<le> oend" "m' = m2" "ip' = ip2" "op' = op + len + (ml + 4)"
    by (simp_all split: if_splits)
  have tk: "m ip = lz4_token len ml" by (rule lz4_token_eq) (use ls ms in simp_all)
  have off: "holds m1 (ip1 + len) [of_nat (offset mod 256), of_nat (offset div 256)] \<and> offset < 65536"
    by (rule readLE16_bytes [OF o(1)])
  have i: "holds m1 a xs = holds m a xs" if "ip1 \<le> a" "a + length xs \<le> iend" for a xs
    by (rule holds_input [OF u ap op' op(4)]) (use that ip ip1 in simp_all)
  have "holds m1 (ip1 + len) [of_nat (offset mod 256), of_nat (offset div 256)] =
      holds m (ip1 + len) [of_nat (offset mod 256), of_nat (offset div 256)]"
    by (rule i) (use b in simp_all)
  with off have off': "holds m (ip1 + len) [of_nat (offset mod 256), of_nat (offset div 256)]" by blast
  have e: "ext_bytes (length lits) = ext_bytes len" "length lits = len" by (simp_all add: lits_def)
  have h: "holds m ip (encode_seq (LzSeq lits offset (ml + 4)))"
    using tk ls ms off' i b ip2 r by (simp add: e lits_def add.assoc)
  have len: "ip' = ip + length (encode_seq (LzSeq lits offset (ml + 4)))"
    using ls ms r by (simp add: e)
  have "holds m' dest (expand_seq out (LzSeq lits offset (ml + 4)))"
    if "0 < offset" "dest + length out = op" "holds m dest out" for out
  proof -
    have "holds m1 dest out" by (rule holds_unchanged [OF that(3) u]) (use that in simp)
    moreover have "holds m1 op lits" using l by (simp add: lits_def)
    ultimately have "holds m1 dest (out @ lits)" using that(2) by simp
    with c r that show ?thesis by (simp add: e)
  qed
  with h len r off o show ?thesis
    by (intro exI [of _ lits] exI [of _ offset] exI [of _ "ml + 4"]) (simp add: e)
qed

lemma lz4_sequence_LastD:
  assumes "lz4_sequence w src dst dest inp iend oend m ip op = Some (SeqLast m' op')"
    and "\<And>m ip op token. lz4_match w src dst dest iend oend m ip op token \<noteq> Some (SeqLast m' op')"
  shows "\<exists>ip1 len. get_literal_length w src m iend (ip + 1) op (m ip) = Some (Len ip1 len) \<and>
    ip1 + len = iend \<and> op + len \<le> oend \<and> m' = move_bytes m op ip1 len \<and> op' = op + len"
  using assms
  by (clarsimp simp: lz4_sequence_def bind_eq_Some_conv read_u8_def split: if_split_asm)
    (auto simp: Let_def bind_eq_Some_conv lz4_consts mem_move_def split: len_result.split_asm if_split_asm)

lemma copy_match_not_last: "copy_match w dst oend m ip op mt offset len \<noteq> Some (SeqLast m' op')"
  by (auto simp: copy_match_def Let_def bind_eq_Some_conv split: if_splits prod.splits)

lemma lz4_match_not_last: "lz4_match w src dst dest iend oend m ip op token \<noteq> Some (SeqLast m' op')"
proof
  assume "lz4_match w src dst dest iend oend m ip op token = Some (SeqLast m' op')"
  then show False
    by (clarsimp simp: lz4_match_def Let_def bind_eq_Some_conv split: if_split_asm)
      (auto simp: copy_match_not_last split: len_result.split_asm)
qed

lemma lz4_sequence_last_sound:
  assumes s: "lz4_sequence w src dst dest inp iend oend m ip op = Some (SeqLast m' op')"
    and w: "15 + 255 * (iend - ip) < 2 ^ w" and ip: "ip < iend"
  shows "\<exists>lits t. t < 16 \<and> iend = ip + length (encode_last lits t) \<and> holds m ip (encode_last lits t) \<and>
    op' = op + length lits \<and> (\<forall>out. dest + length out = op \<longrightarrow> holds m dest out \<longrightarrow> holds m' dest (out @ lits))"
proof -
  from lz4_sequence_LastD [OF s lz4_match_not_last] obtain ip1 len where
    g: "get_literal_length w src m iend (ip + 1) op (m ip) = Some (Len ip1 len)" and
    r: "ip1 + len = iend" "m' = move_bytes m op ip1 len" "op' = op + len"
    by blast
  define lits where "lits = mem_bytes m ip1 len"
  have ls: "holds m (ip + 1) (ext_bytes len) \<and> ip1 = ip + 1 + length (ext_bytes len) \<and> unat (m ip) div 16 = min len 15"
    by (rule get_literal_length_sound [OF g]) (use r w in simp_all)
  let ?t = "unat (m ip) mod 16"
  have tk: "m ip = lz4_token len ?t" by (rule lz4_token_eq) (use ls in simp_all)
  have e: "length lits = len" by (simp add: lits_def)
  have "holds m ip (encode_last lits ?t)" unfolding encode_last_def e using tk ls by (simp add: lits_def)
  moreover have "iend = ip + length (encode_last lits ?t)" using r ls by (simp add: encode_last_def e)
  moreover have "holds m' dest (out @ lits)" if "dest + length out = op" "holds m dest out" for out
  proof -
    have "holds m' dest out"
      unfolding r by (rule holds_unchanged [OF that(2) move_bytes_unchanged]) (use that in simp)
    moreover have "holds m' op lits"
      unfolding r using holds_move_bytes [of m ip1 lits op] by (simp add: lits_def)
    ultimately show ?thesis using that(1) by simp
  qed
  ultimately show ?thesis
    using r by (intro exI [of _ lits] exI [of _ ?t]) (simp add: e)
qed

lemma lz4_expand_Cons: "lz4_expand out (s # seqs) lits = lz4_expand (expand_seq out s) seqs lits"
  by (simp add: lz4_expand_def)

lemma lz4_loop_sound:
  assumes "lz4_loop w src dst source dest inp iend oend m ip op = Some (m', ret)" "0 \<le> ret"
    and "fst src \<le> source" "source \<le> ip" "ip < iend" "iend \<le> snd src" "iend < source + 2 ^ 31"
    and "fst dst \<le> dest" "dest \<le> op" "op \<le> oend" "oend \<le> snd dst" "oend < dest + 2 ^ 31"
    and "oend + 255 * (iend - ip) + 32 \<le> 2 ^ w" and "buffers_apart src dst"
  shows "\<exists>seqs lits t. t < 16 \<and> seqs_ok (op - dest) seqs \<and> iend = ip + length (lz4_encode seqs lits t) \<and>
    holds m ip (lz4_encode seqs lits t) \<and>
    (\<forall>out. dest + length out = op \<longrightarrow> ret = int (length (lz4_expand out seqs lits)) \<and>
      (0 \<notin> seq_offset ` set seqs \<longrightarrow> holds m dest out \<longrightarrow> holds m' dest (lz4_expand out seqs lits)))"
  using assms
proof (induction w src dst source dest inp iend oend m ip op rule: lz4_loop.induct)
  case (1 w src dst source dest inp iend oend m ip op)
  note P = 1(4-15)
  have sf: "\<exists>r. lz4_sequence w src dst dest inp iend oend m ip op = Some r \<and> step_ok m ip iend op oend r"
    by (rule lz4_sequence_safe) (use P in simp_all)
  then obtain r where r: "lz4_sequence w src dst dest inp iend oend m ip op = Some r"
    and ok: "step_ok m ip iend op oend r" by blast
  show ?case
  proof (cases r)
    case (SeqError m1 ip')
    have "to_int32 (- (int ip' - int source)) = - (int ip' - int source)"
      using ok SeqError P by (intro to_int32_id) simp_all
    with 1(2,3) r SeqError ok P(2) have False by (subst (asm) lz4_loop.simps) simp
    then show ?thesis ..
  next
    case (SeqLast m1 op')
    have i: "to_int32 (int op' - int dest) = int op' - int dest"
      using ok SeqLast P by (intro to_int32_id) simp_all
    with 1(2) r SeqLast have m': "m1 = m'" "ret = int op' - int dest" by (subst (asm) lz4_loop.simps, simp)+
    have "15 + 255 * (iend - ip) < 2 ^ w" using P by simp
    from lz4_sequence_last_sound [OF r [unfolded SeqLast] this P(3)] m'(1) obtain lits t where
      l: "t < 16" "iend = ip + length (encode_last lits t)" "holds m ip (encode_last lits t)" "op' = op + length lits"
        "\<forall>out. dest + length out = op \<longrightarrow> holds m dest out \<longrightarrow> holds m' dest (out @ lits)"
      by blast
    with m' show ?thesis
      by (intro exI [of _ "[]"] exI [of _ lits] exI [of _ t]) (auto simp: lz4_encode_simps lz4_expand_def)
  next
    case (SeqNext m1 ip' op')
    with ok have n: "unchanged m m1 op oend" "ip < ip'" "ip' < iend" "op \<le> op'" "op' \<le> oend" by simp_all
    have "\<exists>lits off k. ip' = ip + length (encode_seq (LzSeq lits off k)) \<and> holds m ip (encode_seq (LzSeq lits off k)) \<and>
      op' = op + length lits + k \<and> dest + off \<le> op + length lits \<and> off < 65536 \<and> 4 \<le> k \<and>
      (\<forall>out. 0 < off \<longrightarrow> dest + length out = op \<longrightarrow> holds m dest out \<longrightarrow> holds m1 dest (expand_seq out (LzSeq lits off k)))"
      by (rule lz4_sequence_sound [OF r [unfolded SeqNext]]) (use P in simp_all)
    then obtain ls off k where s: "ip' = ip + length (encode_seq (LzSeq ls off k))" "holds m ip (encode_seq (LzSeq ls off k))"
      "op' = op + length ls + k" "dest + off \<le> op + length ls" "off < 65536" "4 \<le> k"
      "\<forall>out. 0 < off \<longrightarrow> dest + length out = op \<longrightarrow> holds m dest out \<longrightarrow> holds m1 dest (expand_seq out (LzSeq ls off k))"
      by blast
    have "lz4_loop w src dst source dest inp iend oend m1 ip' op' = Some (m', ret)"
      using 1(2) r SeqNext by (subst (asm) lz4_loop.simps) simp
    moreover have "oend + 255 * (iend - ip') + 32 \<le> 2 ^ w" using P(11) n by simp
    ultimately obtain seqs lits t where
      h: "t < 16" "seqs_ok (op' - dest) seqs" "iend = ip' + length (lz4_encode seqs lits t)"
        "holds m1 ip' (lz4_encode seqs lits t)"
        "\<forall>out. dest + length out = op' \<longrightarrow> ret = int (length (lz4_expand out seqs lits)) \<and>
          (0 \<notin> seq_offset ` set seqs \<longrightarrow> holds m1 dest out \<longrightarrow> holds m' dest (lz4_expand out seqs lits))"
      using 1(1) [OF r SeqNext _ 1(3)] n P by auto
    have "holds m ip' (lz4_encode seqs lits t)"
      using h(4) holds_input [OF n(1) P(12)] P n h(3) by simp
    with s h(3) have "holds m ip (lz4_encode (LzSeq ls off k # seqs) lits t)"
      unfolding lz4_encode_simps holds_append by simp
    moreover have "iend = ip + length (lz4_encode (LzSeq ls off k # seqs) lits t)"
      using h(3) s(1) by (simp add: lz4_encode_simps)
    moreover have "seqs_ok (op - dest) (LzSeq ls off k # seqs)"
      using h(2) s P(7) by (simp add: add.commute)
    moreover have "ret = int (length (lz4_expand out (LzSeq ls off k # seqs) lits)) \<and>
        (0 \<notin> seq_offset ` set (LzSeq ls off k # seqs) \<longrightarrow> holds m dest out \<longrightarrow>
          holds m' dest (lz4_expand out (LzSeq ls off k # seqs) lits))" if o: "dest + length out = op" for out
    proof -
      have "dest + length (expand_seq out (LzSeq ls off k)) = op'" using o s(3) by simp
      with h(5) s(7) o show ?thesis by (simp only: lz4_expand_Cons) auto
    qed
    ultimately show ?thesis using h(1) by blast
  qed
qed

subsection \<open>Completeness: every encoded block is decoded\<close>

lemma lz4_sequence_complete:
  assumes h: "holds m ip (encode_seq (LzSeq lits off k))"
    and np: "\<not> (inp \<and> ip < op + WILDCOPYLENGTH)"
    and ip: "fst src \<le> ip" "ip + length (encode_seq (LzSeq lits off k)) + 6 \<le> iend" "iend \<le> snd src"
    and op: "fst dst \<le> dest" "dest \<le> op" "oend \<le> snd dst"
    and room: "op + length lits + 12 \<le> oend" "op + length lits + k + 5 \<le> oend"
    and ok: "0 < off" "dest + off \<le> op + length lits" "off < 65536" "4 \<le> k"
    and w: "oend < 2 ^ w" "iend < 2 ^ w" and ap: "buffers_apart src dst"
  shows "\<exists>m'. unchanged m m' op oend \<and>
    lz4_sequence w src dst dest inp iend oend m ip op =
      Some (SeqNext m' (ip + length (encode_seq (LzSeq lits off k))) (op + length lits + k)) \<and>
    (\<forall>out. dest + length out = op \<longrightarrow> holds m dest out \<longrightarrow> holds m' dest (expand_seq out (LzSeq lits off k)))"
proof -
  let ?len = "length lits"
  let ?ip1 = "ip + 1 + length (ext_bytes ?len)"
  let ?off = "[of_nat (off mod 256), of_nat (off div 256)] :: u8 list"
  from h have p: "m ip = lz4_token ?len (k - 4)" "holds m (ip + 1) (ext_bytes ?len)" "holds m ?ip1 lits"
    "holds m (?ip1 + ?len) ?off" "holds m (?ip1 + ?len + 2) (ext_bytes (k - 4))"
    by (simp_all add: add.assoc)
  have len: "ip + length (encode_seq (LzSeq lits off k)) = ?ip1 + ?len + 2 + length (ext_bytes (k - 4))" by simp
  have b: "?ip1 + ?len + 2 + length (ext_bytes (k - 4)) + 6 \<le> iend" using ip(2) unfolding len .
  have g: "get_literal_length w src m iend (ip + 1) op (m ip) = Some (Len ?ip1 ?len)"
    by (rule get_literal_length_complete)
      (use p b ip room w in \<open>simp_all add: lz4_token_parts\<close>)
  have "ip < iend" "?ip1 + ?len + 8 \<le> iend" "fst dst \<le> op" using b op by simp_all
  from lz4_sequence_literals [OF np ip(1) this(1) ip(3) g room(1) this(2,3) op(3) ap, of dest] p(3) obtain m1 where
    s: "lz4_sequence w src dst dest inp iend oend m ip op =
      lz4_match w src dst dest iend oend m1 (?ip1 + ?len) (op + ?len) (m ip)" and
    u: "unchanged m m1 op oend" and l: "holds m1 op lits"
    by blast
  have i: "holds m1 a xs = holds m a xs" if "?ip1 \<le> a" "a + length xs \<le> iend" for a xs
    by (rule holds_input [OF u ap _ op(3)]) (use that ip op in simp_all)
  have "holds m1 (?ip1 + ?len) ?off = holds m (?ip1 + ?len) ?off" by (rule i) (use b in simp_all)
  with p(4) have p4: "holds m1 (?ip1 + ?len) ?off" by blast
  have o: "LZ4_readLE16 src m1 (?ip1 + ?len) = Some off"
    by (rule bytes_readLE16 [OF p4 ok(3)]) (use ip b in simp_all)
  have "holds m1 (?ip1 + ?len + 2) (ext_bytes (k - 4)) = holds m (?ip1 + ?len + 2) (ext_bytes (k - 4))"
    by (rule i) (use b in simp_all)
  with p(5) have p5: "holds m1 (?ip1 + ?len + 2) (ext_bytes (k - 4))" by blast
  have gm: "get_match_length w src m1 iend (?ip1 + ?len + 2) (op + ?len) (m ip) =
      Some (Len (?ip1 + ?len + 2 + length (ext_bytes (k - 4))) (k - 4))"
    by (rule get_match_length_complete [OF p5])
      (use p(1) b ip room w in \<open>simp_all add: lz4_token_parts\<close>)
  have k: "k - 4 + 4 = k" using ok(4) by simp
  have "op + ?len + (k - 4 + 4) < 2 ^ w" using room w k by simp
  from lz4_match_result [OF o ok(2) gm op(1) room(1) op(3) this] obtain m2 where
    u2: "unchanged m1 m2 (op + ?len) oend" and
    r: "lz4_match w src dst dest iend oend m1 (?ip1 + ?len) (op + ?len) (m ip) =
      Some (SeqNext m2 (?ip1 + ?len + 2 + length (ext_bytes (k - 4))) (op + ?len + k))" and
    c: "\<forall>out. dest + length out = op + ?len \<longrightarrow> holds m1 dest out \<longrightarrow> holds m2 dest (lz4_repeat out off k)"
    using room ok(1) unfolding k by auto
  have "holds m2 dest (expand_seq out (LzSeq lits off k))" if "dest + length out = op" "holds m dest out" for out
  proof -
    have "holds m1 dest out" by (rule holds_unchanged [OF that(2) u]) (use that in simp)
    with l that(1) have "holds m1 dest (out @ lits)" by simp
    with c that(1) show ?thesis by simp
  qed
  moreover have "unchanged m m2 op oend" by (rule unchanged_trans [OF u u2]) simp_all
  ultimately show ?thesis using s r unfolding len by auto
qed

lemma lz4_sequence_last_complete:
  assumes h: "holds m ip (encode_last lits t)" and np: "\<not> (inp \<and> ip < op + WILDCOPYLENGTH)"
    and ip: "fst src \<le> ip" "ip + length (encode_last lits t) = iend" "iend \<le> snd src"
    and op: "fst dst \<le> op" "op + length lits \<le> oend" "oend \<le> snd dst"
    and w: "oend < 2 ^ w" "iend < 2 ^ w"
  shows "\<exists>m'. unchanged m m' op oend \<and>
    lz4_sequence w src dst dest inp iend oend m ip op = Some (SeqLast m' (op + length lits)) \<and>
    (\<forall>out. dest + length out = op \<longrightarrow> holds m dest out \<longrightarrow> holds m' dest (out @ lits))"
proof -
  let ?len = "length lits"
  let ?ip1 = "ip + 1 + length (ext_bytes ?len)"
  have p: "m ip = lz4_token ?len t" "holds m (ip + 1) (ext_bytes ?len)" "holds m ?ip1 lits"
    using h by (simp_all add: encode_last_def add.assoc)
  have e: "?ip1 + ?len = iend" using ip by (simp add: encode_last_def)
  have g: "get_literal_length w src m iend (ip + 1) op (m ip) = Some (Len ?ip1 ?len)"
    by (rule get_literal_length_complete) (use p e ip op w in \<open>simp_all add: lz4_token_parts\<close>)
  have rd: "read_u8 src m ip = Some (m ip)" by (rule read_u8_within [of src ip iend]) (use ip e in simp_all)
  have "within src ?ip1 ?len" "within dst op ?len" using e ip op by (simp_all add: within_def)
  then have "lz4_sequence w src dst dest inp iend oend m ip op =
      Some (SeqLast (move_bytes m op ?ip1 ?len) (op + ?len))"
    using rd np g e op(2) by (simp add: lz4_sequence_def Let_def)
  moreover have "unchanged m (move_bytes m op ?ip1 ?len) op oend"
    by (rule unchanged_mono [OF move_bytes_unchanged]) (use op in simp_all)
  moreover have "holds (move_bytes m op ?ip1 ?len) dest (out @ lits)"
    if "dest + length out = op" "holds m dest out" for out
  proof -
    have "holds (move_bytes m op ?ip1 ?len) dest out"
      by (rule holds_unchanged [OF that(2) move_bytes_unchanged]) (use that in simp)
    moreover have "holds (move_bytes m op ?ip1 ?len) op lits" by (rule holds_move_bytes [OF p(3)])
    ultimately show ?thesis using that(1) by simp
  qed
  ultimately show ?thesis by blast
qed

lemma lz4_encode_length: "end_ok (s # seqs) lits \<Longrightarrow> seqs_ok n seqs \<Longrightarrow> 6 \<le> length (lz4_encode seqs lits t)"
  using end_ok_rest [of s seqs lits n] by (simp add: lz4_encode_def)

lemma lz4_loop_complete:
  assumes "holds m ip (lz4_encode seqs lits t)" "seqs_ok (op - dest) seqs" "0 \<notin> seq_offset ` set seqs" "end_ok seqs lits"
    and "fst src \<le> ip" "ip + length (lz4_encode seqs lits t) = iend" "iend \<le> snd src"
    and "fst dst \<le> dest" "dest \<le> op" "op + seqs_length seqs + length lits \<le> oend" "oend \<le> snd dst" "oend < dest + 2 ^ 31"
    and "oend < 2 ^ w" "iend < 2 ^ w" and "buffers_apart src dst"
  shows "\<exists>m'. unchanged m m' op oend \<and>
    lz4_loop w src dst source dest False iend oend m ip op =
      Some (m', int (op - dest) + int (seqs_length seqs + length lits)) \<and>
    (\<forall>out. dest + length out = op \<longrightarrow> holds m dest out \<longrightarrow> holds m' dest (lz4_expand out seqs lits))"
  using assms
proof (induction seqs arbitrary: m ip op)
  case Nil
  have "\<exists>m'. unchanged m m' op oend \<and>
    lz4_sequence w src dst dest False iend oend m ip op = Some (SeqLast m' (op + length lits)) \<and>
    (\<forall>out. dest + length out = op \<longrightarrow> holds m dest out \<longrightarrow> holds m' dest (out @ lits))"
    by (rule lz4_sequence_last_complete) (use Nil.prems in \<open>simp_all add: lz4_encode_simps\<close>)
  then obtain m' where u: "unchanged m m' op oend" and
    s: "lz4_sequence w src dst dest False iend oend m ip op = Some (SeqLast m' (op + length lits))" and
    c: "\<forall>out. dest + length out = op \<longrightarrow> holds m dest out \<longrightarrow> holds m' dest (out @ lits)"
    by blast
  have "to_int32 (int (op + length lits) - int dest) = int (op + length lits) - int dest"
    by (rule to_int32_id) (use Nil.prems in simp_all)
  with s Nil.prems(9) have "lz4_loop w src dst source dest False iend oend m ip op =
      Some (m', int (op - dest) + int (length lits))"
    by (subst lz4_loop.simps) simp
  with u c show ?case by (auto simp: lz4_expand_def)
next
  case (Cons s seqs)
  note P = Cons.prems
  obtain ls off k where s: "s = LzSeq ls off k" by (cases s)
  let ?e = "encode_seq (LzSeq ls off k)"
  have ok: "dest + off \<le> op + length ls" "off < 65536" "4 \<le> k" "seqs_ok (op + length ls + k - dest) seqs" "0 < off"
    using P(2,3,9) s by auto
  note r = end_ok_rest [OF P(4) ok(4)]
  have l6: "6 \<le> length (lz4_encode seqs lits t)" by (rule lz4_encode_length [OF P(4) ok(4)])
  have len: "ip + length ?e + length (lz4_encode seqs lits t) = iend" using P(6) s by (simp add: lz4_encode_simps)
  have h: "holds m ip ?e" "holds m (ip + length ?e) (lz4_encode seqs lits t)"
    using P(1) unfolding s lz4_encode_simps holds_append by simp_all
  have sl: "seqs_length (s # seqs) = length ls + k + seqs_length seqs" using s by simp
  have "\<exists>m'. unchanged m m' op oend \<and>
    lz4_sequence w src dst dest False iend oend m ip op = Some (SeqNext m' (ip + length ?e) (op + length ls + k)) \<and>
    (\<forall>out. dest + length out = op \<longrightarrow> holds m dest out \<longrightarrow> holds m' dest (expand_seq out (LzSeq ls off k)))"
    by (rule lz4_sequence_complete [OF h(1)]) (use P(5-15) s l6 len ok r sl in simp_all)
  then obtain m1 where u: "unchanged m m1 op oend" and
    sq: "lz4_sequence w src dst dest False iend oend m ip op = Some (SeqNext m1 (ip + length ?e) (op + length ls + k))" and
    c: "\<forall>out. dest + length out = op \<longrightarrow> holds m dest out \<longrightarrow> holds m1 dest (expand_seq out (LzSeq ls off k))"
    by blast
  have op: "fst dst \<le> op" using P by simp
  have "holds m1 (ip + length ?e) (lz4_encode seqs lits t)"
    using h(2) holds_input [OF u P(15) op P(11)] P(5,7) len by simp
  then have "\<exists>m'. unchanged m1 m' (op + length ls + k) oend \<and>
    lz4_loop w src dst source dest False iend oend m1 (ip + length ?e) (op + length ls + k) =
      Some (m', int (op + length ls + k - dest) + int (seqs_length seqs + length lits)) \<and>
    (\<forall>out. dest + length out = op + length ls + k \<longrightarrow> holds m1 dest out \<longrightarrow> holds m' dest (lz4_expand out seqs lits))"
    by (rule Cons.IH) (use P len ok r sl in simp_all)
  then obtain m2 where u2: "unchanged m1 m2 (op + length ls + k) oend" and
    lp: "lz4_loop w src dst source dest False iend oend m1 (ip + length ?e) (op + length ls + k) =
      Some (m2, int (op + length ls + k - dest) + int (seqs_length seqs + length lits))" and
    c2: "\<forall>out. dest + length out = op + length ls + k \<longrightarrow> holds m1 dest out \<longrightarrow> holds m2 dest (lz4_expand out seqs lits)"
    by blast
  have "int (op + length ls + k - dest) + int (seqs_length seqs + length lits) =
      int (op - dest) + int (seqs_length (s # seqs) + length lits)"
    using P(9) sl by simp
  then have "lz4_loop w src dst source dest False iend oend m ip op =
      Some (m2, int (op - dest) + int (seqs_length (s # seqs) + length lits))"
    using sq lp by (subst lz4_loop.simps) simp
  moreover have "unchanged m m2 op oend" by (rule unchanged_trans [OF u u2]) simp_all
  moreover have "holds m2 dest (lz4_expand out (s # seqs) lits)" if "dest + length out = op" "holds m dest out" for out
    using c c2 that s by (simp add: lz4_expand_def)
  ultimately show ?case by blast
qed

subsection \<open>The block decoder as a whole\<close>

text \<open>
  What the caller has to see to: buffers above the lowest 64 KiB, sizes that fit an \<^verbatim>\<open>int\<close>, and an address space with room behind the
  buffers, so that the sum of a pointer and a length that was read does not wrap around.
\<close>

definition lz4_buffers :: "nat \<Rightarrow> buffer \<Rightarrow> buffer \<Rightarrow> bool" where
  "lz4_buffers w src dst \<longleftrightarrow> 2 ^ 16 \<le> fst src \<and> 2 ^ 16 \<le> fst dst \<and> snd src < fst src + 2 ^ 31 \<and> snd dst < fst dst + 2 ^ 31 \<and>
     snd src < 2 ^ w \<and> snd dst + 255 * (snd src - fst src) + 32 \<le> 2 ^ w"

lemma output_end:
  assumes "dest \<le> e" "e < 2 ^ w"
  shows "nat ((int dest + (int e - int dest)) mod 2 ^ w) = e"
proof -
  have "int e < 2 ^ w" using assms(2) by (metis of_nat_less_iff of_nat_numeral of_nat_power)
  then show ?thesis by simp
qed

lemma LZ4_decompress_generic_loop:
  assumes "out < snd dst" "snd dst < 2 ^ w"
  shows "LZ4_decompress_generic w src dst m inp out n (int (snd dst) - int out) =
    lz4_loop w src dst inp out (out \<le> inp \<and> inp < snd dst) (inp + n) (snd dst) m inp out"
  using assms output_end [of out "snd dst" w] by (simp add: LZ4_decompress_generic_def Let_def)

lemma LZ4_decompress_generic_empty:
  assumes "fst src \<le> inp" "inp + n \<le> snd src"
  shows "LZ4_decompress_generic w src dst m inp out n 0 =
    Some (m, if n = 1 \<and> m inp = 0 then 0 else - 1)"
  using assms by (simp add: LZ4_decompress_generic_def Let_def read_u8_def within_def)

lemma LZ4_decompress_generic_safe:
  assumes b: "lz4_buffers w src dst" and i: "fst src \<le> inp" "0 < n" "inp + n \<le> snd src"
    and o: "fst dst \<le> out" "out \<le> snd dst"
  shows "\<exists>m' ret. LZ4_decompress_generic w src dst m inp out n (int (snd dst) - int out) = Some (m', ret) \<and>
    unchanged m m' out (snd dst) \<and> ret \<le> int (snd dst) - int out"
proof (cases "out = snd dst")
  case True
  then show ?thesis
    using LZ4_decompress_generic_empty [OF i(1,3), of w dst m out] by (auto split: if_splits)
next
  case False
  then have "out < snd dst" "snd dst < 2 ^ w" using o b by (simp_all add: lz4_buffers_def)
  moreover have "255 * n \<le> 255 * (snd src - fst src)" using i by simp
  then have "snd dst + 255 * (inp + n - inp) + 32 \<le> 2 ^ w"
    using b by (simp add: lz4_buffers_def)
  then have "\<exists>m' ret. lz4_loop w src dst inp out (out \<le> inp \<and> inp < snd dst) (inp + n) (snd dst) m inp out = Some (m', ret) \<and>
    unchanged m m' out (snd dst) \<and> (ret < 0 \<or> int out \<le> int out + ret \<and> int out + ret \<le> int (snd dst))"
    by (intro lz4_loop_safe) (use b i o in \<open>simp_all add: lz4_buffers_def\<close>)
  ultimately show ?thesis using o by (auto simp: LZ4_decompress_generic_loop)
qed

lemma seqs_length_0: "seqs_ok n seqs \<Longrightarrow> seqs_length seqs = 0 \<Longrightarrow> seqs = []"
proof (cases seqs)
  case (Cons s ss)
  assume "seqs_ok n seqs" "seqs_length seqs = 0"
  with Cons show ?thesis by (cases s) simp
qed simp

lemma not_in_place:
  assumes "buffers_apart src dst" "fst src \<le> inp" "0 < n" "inp + n \<le> snd src" "fst dst \<le> out"
  shows "\<not> (out \<le> inp \<and> inp < snd dst)"
  using assms by (auto simp: buffers_apart_def)

text \<open>With separate buffers, every block in the format is decoded, if its contents fit.\<close>

lemma LZ4_decompress_generic_complete:
  assumes b: "lz4_buffers w src dst" "buffers_apart src dst"
    and ok: "seqs_ok 0 seqs" "0 \<notin> seq_offset ` set seqs" "end_ok seqs lits"
    and h: "holds m inp (lz4_encode seqs lits 0)"
    and i: "fst src \<le> inp" "inp + length (lz4_encode seqs lits 0) \<le> snd src"
    and o: "fst dst \<le> out" "out + length (lz4_expand [] seqs lits) \<le> snd dst"
  shows "\<exists>m'. LZ4_decompress_generic w src dst m inp out (length (lz4_encode seqs lits 0)) (int (snd dst) - int out) =
      Some (m', int (length (lz4_expand [] seqs lits))) \<and>
    unchanged m m' out (snd dst) \<and> holds m' out (lz4_expand [] seqs lits)"
proof (cases "out = snd dst")
  case True
  with o(2) have "seqs_length seqs = 0" and l: "lits = []" by (simp_all add: length_lz4_expand)
  with seqs_length_0 [OF ok(1)] have s: "seqs = []" by simp
  have "lz4_encode seqs lits 0 = [0]" by (simp add: s l lz4_encode_def lz4_token_def ext_bytes_def)
  with h LZ4_decompress_generic_empty [of src inp 1 w dst m out] i True show ?thesis
    by (simp add: s l lz4_expand_def)
next
  case False
  let ?n = "length (lz4_encode seqs lits 0)"
  have lt: "out < snd dst" "snd dst < 2 ^ w" "inp + ?n < 2 ^ w"
    using False o b i by (simp_all add: lz4_buffers_def)
  have "0 < ?n" by (simp add: lz4_encode_def)
  then have np: "\<not> (out \<le> inp \<and> inp < snd dst)" using not_in_place [OF b(2) i(1) _ i(2) o(1)] by simp
  have "\<exists>m'. unchanged m m' out (snd dst) \<and>
    lz4_loop w src dst inp out False (inp + ?n) (snd dst) m inp out =
      Some (m', int (out - out) + int (seqs_length seqs + length lits)) \<and>
    (\<forall>xs. out + length xs = out \<longrightarrow> holds m out xs \<longrightarrow> holds m' out (lz4_expand xs seqs lits))"
    by (rule lz4_loop_complete) (use assms lt in \<open>simp_all add: lz4_buffers_def length_lz4_expand\<close>)
  with np lt show ?thesis
    by (auto simp: LZ4_decompress_generic_loop length_lz4_expand simp del: of_nat_add)
qed

text \<open>And whatever is decoded is a block in the format. Only an offset of zero, which the format excludes, is let through.\<close>

lemma LZ4_decompress_generic_sound_aux:
  assumes b: "lz4_buffers w src dst" "buffers_apart src dst"
    and i: "fst src \<le> inp" "0 < n" "inp + n \<le> snd src" and o: "fst dst \<le> out" "out \<le> snd dst"
    and r: "LZ4_decompress_generic w src dst m inp out n (int (snd dst) - int out) = Some (m', ret)" "0 \<le> ret"
  shows "\<exists>seqs lits t. t < 16 \<and> seqs_ok 0 seqs \<and> n = length (lz4_encode seqs lits t) \<and>
    holds m inp (lz4_encode seqs lits t) \<and> ret = int (length (lz4_expand [] seqs lits)) \<and>
    (0 \<notin> seq_offset ` set seqs \<longrightarrow> holds m' out (lz4_expand [] seqs lits))"
proof (cases "out = snd dst")
  case True
  with r LZ4_decompress_generic_empty [OF i(1,3), of w dst m out] have "n = 1" "m inp = 0" "ret = 0"
    by (auto split: if_splits)
  then show ?thesis
    by (intro exI [of _ "[]"] exI [of _ 0]) (auto simp: lz4_encode_def lz4_token_def ext_bytes_def lz4_expand_def)
next
  case False
  have "255 * n \<le> 255 * (snd src - fst src)" using i by simp
  then have w: "snd dst + 255 * (inp + n - inp) + 32 \<le> 2 ^ w" using b by (simp add: lz4_buffers_def)
  from False o have lt: "out < snd dst" "snd dst < 2 ^ w" using b by (simp_all add: lz4_buffers_def)
  have "\<exists>seqs lits t. t < 16 \<and> seqs_ok (out - out) seqs \<and> inp + n = inp + length (lz4_encode seqs lits t) \<and>
    holds m inp (lz4_encode seqs lits t) \<and>
    (\<forall>xs. out + length xs = out \<longrightarrow> ret = int (length (lz4_expand xs seqs lits)) \<and>
      (0 \<notin> seq_offset ` set seqs \<longrightarrow> holds m out xs \<longrightarrow> holds m' out (lz4_expand xs seqs lits)))"
    by (rule lz4_loop_sound [OF r(1) [unfolded LZ4_decompress_generic_loop [OF lt]] r(2)])
      (use b i o w in \<open>simp_all add: lz4_buffers_def\<close>)
  then show ?thesis by auto
qed

subsection \<open>The frame format\<close>

text \<open>A frame has blocks whose bytes are stored as they are, and compressed ones; either may be followed by a checksum, which the code skips.\<close>

datatype 'b frame_block = Stored "u8 list" | Packed 'b

fun block_bytes :: "('b \<Rightarrow> u8 list) \<Rightarrow> 'b frame_block \<Rightarrow> u8 list" where
  "block_bytes enc (Stored xs) = xs"
| "block_bytes enc (Packed b) = enc b"

fun block_contents :: "('b \<Rightarrow> u8 list) \<Rightarrow> 'b frame_block \<Rightarrow> u8 list" where
  "block_contents dec (Stored xs) = xs"
| "block_contents dec (Packed b) = dec b"

fun block_header :: "('b \<Rightarrow> u8 list) \<Rightarrow> 'b frame_block \<Rightarrow> u32" where
  "block_header enc (Stored xs) = of_nat (length xs) OR NOT_COMPRESSED"
| "block_header enc (Packed b) = of_nat (length (enc b))"

definition frame_bytes :: "('b \<Rightarrow> u8 list) \<Rightarrow> ('b frame_block \<times> u8 list) list \<Rightarrow> u8 list" where
  "frame_bytes enc bs =
     concat (map (\<lambda>(b, chk). le_bytes 4 (block_header enc b) @ block_bytes enc b @ chk) bs) @ le_bytes 4 (0 :: u32)"

definition frame_contents :: "('b \<Rightarrow> u8 list) \<Rightarrow> ('b frame_block \<times> u8 list) list \<Rightarrow> u8 list" where
  "frame_contents dec bs = concat (map (\<lambda>(b, chk). block_contents dec b) bs)"

definition frame_block_ok :: "('b \<Rightarrow> bool) \<Rightarrow> ('b \<Rightarrow> u8 list) \<Rightarrow> bool \<Rightarrow> 'b frame_block \<times> u8 list \<Rightarrow> bool" where
  "frame_block_ok ok enc checksums bc \<longleftrightarrow>
     (let n = length (block_bytes enc (fst bc)) in 0 < n \<and> n < 2 ^ 31) \<and>
     (case fst bc of Packed b \<Rightarrow> ok b | Stored xs \<Rightarrow> True) \<and> length (snd bc) = (if checksums then 4 else 0)"

lemma frame_bytes_simps [simp]:
  "frame_bytes enc [] = le_bytes 4 (0 :: u32)"
  "frame_bytes enc ((b, chk) # bs) = le_bytes 4 (block_header enc b) @ block_bytes enc b @ chk @ frame_bytes enc bs"
  by (simp_all add: frame_bytes_def)

lemma frame_contents_simps [simp]:
  "frame_contents dec [] = []"
  "frame_contents dec ((b, chk) # bs) = block_contents dec b @ frame_contents dec bs"
  by (simp_all add: frame_contents_def)

lemma LZ4_readLE32_value:
  "within rd a 4 \<Longrightarrow> LZ4_readLE32 rd m a = Some (le_value [m a, m (a + 1), m (a + 2), m (a + 3)])"
proof -
  assume "within rd a 4"
  moreover have "push_bit 24 (ucast d) OR push_bit 16 (ucast c) OR push_bit 8 (ucast b) OR ucast a =
      (le_value [a, b, c, d] :: u32)" for a b c d :: u8
    by (rule bit_word_eqI) (auto simp: bit_simps)
  ultimately show ?thesis by (simp only: LZ4_readLE32_def) simp
qed

lemma LZ4_readLE32_bytes:
  assumes "holds m a (le_bytes 4 (x :: u32))" "within rd a 4"
  shows "LZ4_readLE32 rd m a = Some x"
proof -
  have "[m a, m (a + 1), m (a + 2), m (a + 3)] = le_bytes 4 x"
    using assms(1) by (simp add: eval_nat_numeral)
  then have "(le_value [m a, m (a + 1), m (a + 2), m (a + 3)] :: u32) = x" by (simp only: le_value_full) (simp add: le_value_full)
  with LZ4_readLE32_value [OF assms(2), of m] show ?thesis by (simp only:)
qed

lemma BH_SIZE_mask: "BH_SIZE = mask 31"
  by (simp add: BH_SIZE_def mask_eq_exp_minus_1)

lemma unat_and_BH_SIZE: "unat ((x :: u32) AND BH_SIZE) = unat x mod 2 ^ 31"
  unfolding BH_SIZE_mask take_bit_eq_mask [symmetric] unsigned_take_bit_eq
  by (rule take_bit_eq_mod)

lemma unat_BH_SIZE: "unat ((x :: u32) AND BH_SIZE) < 2 ^ 31"
  unfolding unat_and_BH_SIZE by (rule mod_less_divisor) simp

lemma unat_header_size: "n < 2 ^ 31 \<Longrightarrow> unat ((of_nat n :: u32) AND BH_SIZE) = n"
  "n < 2 ^ 31 \<Longrightarrow> unat ((of_nat n OR NOT_COMPRESSED :: u32) AND BH_SIZE) = n"
proof -
  assume n: "n < 2 ^ 31"
  have u: "unat (of_nat n :: u32) = n" by (rule unat_of_nat_lt) (use n in simp)
  with unat_and_BH_SIZE [of "of_nat n"] n show e: "unat ((of_nat n :: u32) AND BH_SIZE) = n" by simp
  have "(of_nat n OR NOT_COMPRESSED :: u32) AND BH_SIZE = of_nat n AND BH_SIZE"
    by (simp only: bit.conj_disj_distrib2) (simp add: NOT_COMPRESSED_def BH_SIZE_def)
  with e show "unat ((of_nat n OR NOT_COMPRESSED :: u32) AND BH_SIZE) = n" by simp
qed

lemma header_kind: "(of_nat n OR NOT_COMPRESSED :: u32) AND NOT_COMPRESSED \<noteq> 0"
  "n < 2 ^ 31 \<Longrightarrow> (of_nat n :: u32) AND NOT_COMPRESSED = 0"
proof -
  have "(of_nat n OR NOT_COMPRESSED :: u32) AND NOT_COMPRESSED = NOT_COMPRESSED"
    by (rule bit_word_eqI) (auto simp: bit_simps)
  then show "(of_nat n OR NOT_COMPRESSED :: u32) AND NOT_COMPRESSED \<noteq> 0" by (simp add: NOT_COMPRESSED_def)
  assume n: "n < 2 ^ 31"
  have nc: "NOT_COMPRESSED = 2 ^ 31" by (simp add: NOT_COMPRESSED_def)
  have u: "unat (of_nat n :: u32) = n" by (rule unat_of_nat_lt) (use n in simp)
  have "\<not> bit n 31" using n by (simp add: bit_iff_odd)
  then have "\<not> bit (unat (of_nat n :: u32)) 31" unfolding u .
  then have "\<not> bit (of_nat n :: u32) 31" by (simp add: bit_unsigned_iff)
  then show "(of_nat n :: u32) AND NOT_COMPRESSED = 0"
    unfolding nc and_exp_eq_0_iff_not_bit .
qed

text \<open>The turns of the loop over the blocks, by the kind of the block.\<close>

lemma output_left:
  assumes "lz4_buffers w src dst" "fst dst \<le> out" "out \<le> snd dst"
  shows "to_int32 (int (snd dst) - int out) = int (snd dst) - int out"
    and "nat ((int (snd dst) - int out) mod 2 ^ w) = snd dst - out"
proof -
  show "to_int32 (int (snd dst) - int out) = int (snd dst) - int out"
    by (rule to_int32_id) (use assms in \<open>simp_all add: lz4_buffers_def\<close>)
  have "snd dst - out < 2 ^ w" using assms unfolding lz4_buffers_def by linarith
  then have "int (snd dst - out) < 2 ^ w" by (metis of_nat_less_iff of_nat_numeral of_nat_power)
  with assms show "nat ((int (snd dst) - int out) mod 2 ^ w) = snd dst - out" by (simp add: of_nat_diff)
qed

definition next_block :: "bool \<Rightarrow> nat \<Rightarrow> nat \<Rightarrow> nat" where
  "next_block cs inp n = inp + 4 + n + (if cs then 4 else 0)"

lemma lz4_blocks_stop:
  assumes "LZ4_readLE32 src m inp = Some raw" "snd src < inp + 4 + unat (raw AND BH_SIZE) \<or> unat (raw AND BH_SIZE) = 0"
  shows "\<exists>n. lz4_blocks w dec src dst cs m inp out = Some (m, n) \<and> n \<le> out - fst dst"
  using assms by (subst lz4_blocks.simps) (auto simp: Let_def)

lemma lz4_blocks_stored:
  assumes b: "lz4_buffers w src dst" "fst src \<le> inp" "fst dst \<le> out" "out \<le> snd dst"
    and r: "LZ4_readLE32 src m inp = Some raw" and n: "unat (raw AND BH_SIZE) = n" "0 < n" "inp + 4 + n \<le> snd src"
    and k: "raw AND NOT_COMPRESSED \<noteq> 0"
  shows "lz4_blocks w dec src dst cs m inp out =
    (if snd dst - out < n then Some (move_bytes m out (inp + 4) (snd dst - out), 0)
     else lz4_blocks w dec src dst cs (move_bytes m out (inp + 4) n) (next_block cs inp n) (out + n))"
proof -
  let ?s = "min n (snd dst - out)"
  have "mem_move src dst m out (inp + 4) ?s = Some (move_bytes m out (inp + 4) ?s)"
    by (rule mem_move_Some) (use b n in \<open>auto simp: within_def\<close>)
  with r n k output_left(2) [OF b(1,3,4)] show ?thesis
    by (subst lz4_blocks.simps) (auto simp: Let_def next_block_def min_def)
qed

lemma lz4_blocks_packed:
  assumes b: "lz4_buffers w src dst" "fst dst \<le> out" "out \<le> snd dst"
    and r: "LZ4_readLE32 src m inp = Some raw" and n: "unat (raw AND BH_SIZE) = n" "0 < n" "inp + 4 + n \<le> snd src"
    and k: "raw AND NOT_COMPRESSED = 0"
    and d: "dec m (inp + 4) out n (int (snd dst) - int out) = Some (m', ret)"
  shows "lz4_blocks w dec src dst cs m inp out =
    (if ret < 0 then Some (m', 0) else lz4_blocks w dec src dst cs m' (next_block cs inp n) (out + nat ret))"
  using r n k d output_left(1) [OF b]
  by (subst lz4_blocks.simps) (auto simp: Let_def next_block_def)

subsection \<open>What the frame needs of a block decoder\<close>

text \<open>
  The decoder keeps inside its buffers for whatever input, and it decodes the blocks \<open>ok\<close>, of bytes \<open>enc\<close>
  and contents \<open>cont\<close>, when the buffers are apart and the contents fit.
\<close>

locale block_decoder =
  fixes dec :: "nat \<Rightarrow> buffer \<Rightarrow> buffer \<Rightarrow> mem \<Rightarrow> nat \<Rightarrow> nat \<Rightarrow> nat \<Rightarrow> int \<Rightarrow> (mem \<times> int) option"
    and ok :: "'b \<Rightarrow> bool" and enc :: "'b \<Rightarrow> u8 list" and cont :: "'b \<Rightarrow> u8 list"
  assumes dec_safe: "lz4_buffers w src dst \<Longrightarrow> fst src \<le> inp \<Longrightarrow> 0 < n \<Longrightarrow> inp + n \<le> snd src \<Longrightarrow>
      fst dst \<le> out \<Longrightarrow> out \<le> snd dst \<Longrightarrow>
      \<exists>m' ret. dec w src dst m inp out n (int (snd dst) - int out) = Some (m', ret) \<and>
        unchanged m m' out (snd dst) \<and> ret \<le> int (snd dst) - int out"
    and dec_block: "lz4_buffers w src dst \<Longrightarrow> buffers_apart src dst \<Longrightarrow> ok b \<Longrightarrow> holds m inp (enc b) \<Longrightarrow>
      fst src \<le> inp \<Longrightarrow> inp + length (enc b) \<le> snd src \<Longrightarrow>
      fst dst \<le> out \<Longrightarrow> out + length (cont b) \<le> snd dst \<Longrightarrow>
      \<exists>m'. dec w src dst m inp out (length (enc b)) (int (snd dst) - int out) = Some (m', int (length (cont b))) \<and>
        unchanged m m' out (snd dst) \<and> holds m' out (cont b)"
begin

text \<open>For whatever input: a result, nothing written outside the output, and no more than fits.\<close>

lemma blocks_safe:
  assumes "lz4_buffers w src dst" "fst src \<le> inp" "fst dst \<le> out" "out \<le> snd dst"
  shows "\<exists>m' n. lz4_blocks w (dec w src dst) src dst cs m inp out = Some (m', n) \<and>
    unchanged m m' out (snd dst) \<and> n \<le> snd dst - fst dst"
  using assms
proof (induction "snd src - inp" arbitrary: inp out m rule: less_induct)
  case less
  note P = less.prems
  have IH: "\<exists>m' n. lz4_blocks w (dec w src dst) src dst cs m1 (next_block cs inp k) out' = Some (m', n) \<and>
      unchanged m m' out (snd dst) \<and> n \<le> snd dst - fst dst"
    if "inp < snd src" "out \<le> out'" "out' \<le> snd dst" "unchanged m m1 out (snd dst)" for k out' m1
    using less.hyps [of "next_block cs inp k" out' m1] that P
      unchanged_trans [OF that(4), of _ out' "snd dst" out "snd dst"] by (force simp: next_block_def)
  show ?case
  proof (cases "snd src < inp + 4")
    case True
    then show ?thesis by (subst lz4_blocks.simps) simp
  next
    case False
    then have "within src inp 4" and lt: "inp < snd src" using P by (simp_all add: within_def)
    then obtain raw where raw: "LZ4_readLE32 src m inp = Some raw" using LZ4_readLE32_value by blast
    let ?n = "unat (raw AND BH_SIZE)"
    consider "snd src < inp + 4 + ?n \<or> ?n = 0" | "0 < ?n" "inp + 4 + ?n \<le> snd src" "raw AND NOT_COMPRESSED \<noteq> 0"
      | "0 < ?n" "inp + 4 + ?n \<le> snd src" "raw AND NOT_COMPRESSED = 0"
      by fastforce
    then show ?thesis
    proof cases
      case 1
      with lz4_blocks_stop [OF raw this, of w "dec w src dst" dst cs out] P(4) show ?thesis by fastforce
    next
      case 2
      have u: "unchanged m (move_bytes m out (inp + 4) k) out (snd dst)" if "k \<le> snd dst - out" for k
        by (rule unchanged_mono [OF move_bytes_unchanged]) (use that P in simp_all)
      show ?thesis
        unfolding lz4_blocks_stored [OF P raw refl 2]
        using IH [OF lt, of "out + ?n" "move_bytes m out (inp + 4) ?n" ?n] u P by auto
    next
      case 3
      have "\<exists>m' ret. dec w src dst m (inp + 4) out ?n (int (snd dst) - int out) = Some (m', ret) \<and>
        unchanged m m' out (snd dst) \<and> ret \<le> int (snd dst) - int out"
        by (rule dec_safe) (use P 3 in simp_all)
      then obtain m1 ret where d: "dec w src dst m (inp + 4) out ?n (int (snd dst) - int out) = Some (m1, ret)"
        and u: "unchanged m m1 out (snd dst)" and ret: "ret \<le> int (snd dst) - int out" by blast
      show ?thesis
        unfolding lz4_blocks_packed [where dec = "dec w src dst", OF P(1,3,4) raw refl 3 d]
        using IH [OF lt, of "out + nat ret" m1 ?n] u ret P by auto
    qed
  qed
qed

text \<open>And a well-formed frame yields its contents, block by block.\<close>

lemma block_turn:
  assumes P: "lz4_buffers w src dst" "buffers_apart src dst" "fst src \<le> inp" "fst dst \<le> out"
    and ok: "frame_block_ok ok enc cs (b, chk)" and n: "length (block_bytes enc b) = n"
    and h: "holds m inp (le_bytes 4 (block_header enc b))" "holds m (inp + 4) (block_bytes enc b)"
    and le: "inp + 4 + n \<le> snd src" "out + length (block_contents cont b) \<le> snd dst"
  shows "\<exists>m1. lz4_blocks w (dec w src dst) src dst cs m inp out =
      lz4_blocks w (dec w src dst) src dst cs m1 (next_block cs inp n) (out + length (block_contents cont b)) \<and>
    unchanged m m1 out (snd dst) \<and> holds m1 out (block_contents cont b)"
proof -
  let ?raw = "block_header enc b"
  have n': "0 < n" "n < 2 ^ 31" using ok n by (simp_all add: frame_block_ok_def Let_def)
  have raw: "LZ4_readLE32 src m inp = Some ?raw"
    by (rule LZ4_readLE32_bytes) (use h le P in \<open>simp_all add: within_def\<close>)
  have sz: "unat (?raw AND BH_SIZE) = n" using n n' by (cases b) (auto simp: unat_header_size)
  have o: "out \<le> snd dst" using le by simp
  show ?thesis
  proof (cases b)
    case (Stored xs)
    have k: "?raw AND NOT_COMPRESSED \<noteq> 0" unfolding Stored block_header.simps by (rule header_kind(1))
    have "length xs = n" using n Stored by simp
    with le Stored have fit: "\<not> snd dst - out < n" by simp
    from lz4_blocks_stored [OF P(1,3,4) o raw sz n'(1) le(1) k, of "dec w src dst" cs]
    have "lz4_blocks w (dec w src dst) src dst cs m inp out =
        lz4_blocks w (dec w src dst) src dst cs (move_bytes m out (inp + 4) n) (next_block cs inp n) (out + n)"
      using fit n Stored by simp
    moreover have "unchanged m (move_bytes m out (inp + 4) n) out (snd dst)"
      by (rule unchanged_mono [OF move_bytes_unchanged]) (use le n Stored in simp_all)
    ultimately show ?thesis using holds_move_bytes [OF h(2)] n Stored by auto
  next
    case (Packed p)
    have "\<exists>m'. dec w src dst m (inp + 4) out (length (enc p)) (int (snd dst) - int out) = Some (m', int (length (cont p))) \<and>
        unchanged m m' out (snd dst) \<and> holds m' out (cont p)"
      by (rule dec_block) (use P ok h le n Packed in \<open>simp_all add: frame_block_ok_def\<close>)
    then obtain m1 where d: "dec w src dst m (inp + 4) out n (int (snd dst) - int out) = Some (m1, int (length (cont p)))"
      "unchanged m m1 out (snd dst)" "holds m1 out (cont p)" using n Packed by auto
    have k: "?raw AND NOT_COMPRESSED = 0" using n n' Packed by (auto simp: header_kind)
    from lz4_blocks_packed [where dec = "dec w src dst", OF P(1,4) o raw sz n'(1) le(1) k d(1)] d Packed
    show ?thesis by auto
  qed
qed

lemma blocks_complete:
  assumes "lz4_buffers w src dst" "buffers_apart src dst" "fst src \<le> inp" "fst dst \<le> out"
    and "list_all (frame_block_ok ok enc cs) bs" and "holds m inp (frame_bytes enc bs)"
    and "inp + length (frame_bytes enc bs) \<le> snd src" "out + length (frame_contents cont bs) \<le> snd dst"
  shows "\<exists>m'. lz4_blocks w (dec w src dst) src dst cs m inp out =
      Some (m', out + length (frame_contents cont bs) - fst dst) \<and>
    unchanged m m' out (snd dst) \<and> holds m' out (frame_contents cont bs)"
  using assms
proof (induction bs arbitrary: inp out m)
  case Nil
  have "LZ4_readLE32 src m inp = Some 0"
    by (rule LZ4_readLE32_bytes) (use Nil in \<open>simp_all add: within_def\<close>)
  with Nil have "lz4_blocks w (dec w src dst) src dst cs m inp out = Some (m, out - fst dst)"
    by (subst lz4_blocks.simps) (simp add: Let_def)
  then show ?case by simp
next
  case (Cons bc bs)
  note P = Cons.prems
  obtain b chk where bc: "bc = (b, chk)" by (cases bc)
  let ?n = "length (block_bytes enc b)" and ?c = "length (block_contents cont b)"
  have ok: "frame_block_ok ok enc cs (b, chk)" "length chk = (if cs then 4 else 0)" "list_all (frame_block_ok ok enc cs) bs"
    using P(5) bc by (simp_all add: frame_block_ok_def [of ok enc cs "(b, chk)"])
  have h: "holds m inp (le_bytes 4 (block_header enc b))" "holds m (inp + 4) (block_bytes enc b)"
    "holds m (next_block cs inp ?n) (frame_bytes enc bs)"
    using P(6) bc ok(2) by (simp_all add: next_block_def add.assoc)
  have le: "inp + 4 + ?n \<le> snd src" "next_block cs inp ?n + length (frame_bytes enc bs) \<le> snd src"
    "out + ?c \<le> snd dst" "out + ?c + length (frame_contents cont bs) \<le> snd dst"
    using P(7,8) bc ok(2) by (simp_all add: next_block_def)
  from block_turn [OF P(1-4) ok(1) refl h(1,2) le(1,3)] obtain m1 where
    e: "lz4_blocks w (dec w src dst) src dst cs m inp out =
      lz4_blocks w (dec w src dst) src dst cs m1 (next_block cs inp ?n) (out + ?c)"
    and u: "unchanged m m1 out (snd dst)" and c: "holds m1 out (block_contents cont b)" by blast
  have "holds m1 (next_block cs inp ?n) (frame_bytes enc bs) = holds m (next_block cs inp ?n) (frame_bytes enc bs)"
    by (rule holds_input [OF u P(2,4)]) (use le P in \<open>simp_all add: next_block_def\<close>)
  with h(3) have "holds m1 (next_block cs inp ?n) (frame_bytes enc bs)" by simp
  then have "\<exists>m'. lz4_blocks w (dec w src dst) src dst cs m1 (next_block cs inp ?n) (out + ?c) =
      Some (m', out + ?c + length (frame_contents cont bs) - fst dst) \<and>
    unchanged m1 m' (out + ?c) (snd dst) \<and> holds m' (out + ?c) (frame_contents cont bs)"
    by (intro Cons.IH) (use P ok(3) le in \<open>simp_all add: next_block_def\<close>)
  then obtain m2 where r: "lz4_blocks w (dec w src dst) src dst cs m1 (next_block cs inp ?n) (out + ?c) =
      Some (m2, out + ?c + length (frame_contents cont bs) - fst dst)"
    "unchanged m1 m2 (out + ?c) (snd dst)" "holds m2 (out + ?c) (frame_contents cont bs)" by blast
  have "holds m2 out (block_contents cont b)" by (rule holds_unchanged [OF c r(2)]) simp
  moreover have "unchanged m m2 out (snd dst)" by (rule unchanged_trans [OF u r(2)]) simp_all
  ultimately show ?case using e r bc by (auto simp: add.assoc)
qed

end

subsection \<open>The block decoder of the code\<close>

type_synonym lz4_block = "lz4_seq list \<times> u8 list"

definition lz4_block_ok :: "lz4_block \<Rightarrow> bool" where
  "lz4_block_ok b \<longleftrightarrow> seqs_ok 0 (fst b) \<and> 0 \<notin> seq_offset ` set (fst b) \<and> end_ok (fst b) (snd b)"

definition lz4_block_bytes :: "lz4_block \<Rightarrow> u8 list" where
  "lz4_block_bytes b = lz4_encode (fst b) (snd b) 0"

definition lz4_block_contents :: "lz4_block \<Rightarrow> u8 list" where
  "lz4_block_contents b = lz4_expand [] (fst b) (snd b)"

interpretation lz4: block_decoder LZ4_decompress_generic lz4_block_ok lz4_block_bytes lz4_block_contents
proof unfold_locales
  fix w m inp n out and src dst :: buffer
  assume "lz4_buffers w src dst" "fst src \<le> inp" "0 < n" "inp + n \<le> snd src" "fst dst \<le> out" "out \<le> snd dst"
  then show "\<exists>m' ret. LZ4_decompress_generic w src dst m inp out n (int (snd dst) - int out) = Some (m', ret) \<and>
      unchanged m m' out (snd dst) \<and> ret \<le> int (snd dst) - int out"
    by (rule LZ4_decompress_generic_safe)
next
  fix w m inp out b and src dst :: buffer
  assume "lz4_buffers w src dst" "buffers_apart src dst" "lz4_block_ok b" "holds m inp (lz4_block_bytes b)"
    "fst src \<le> inp" "inp + length (lz4_block_bytes b) \<le> snd src"
    "fst dst \<le> out" "out + length (lz4_block_contents b) \<le> snd dst"
  then show "\<exists>m'. LZ4_decompress_generic w src dst m inp out (length (lz4_block_bytes b)) (int (snd dst) - int out) =
        Some (m', int (length (lz4_block_contents b))) \<and>
      unchanged m m' out (snd dst) \<and> holds m' out (lz4_block_contents b)"
    unfolding lz4_block_ok_def lz4_block_bytes_def lz4_block_contents_def
    by (intro LZ4_decompress_generic_complete) simp_all
qed

subsection \<open>The frame of the code\<close>

definition lz4_frame :: "u8 \<Rightarrow> u8 \<Rightarrow> u8 list \<Rightarrow> (lz4_block frame_block \<times> u8 list) list \<Rightarrow> u8 list" where
  "lz4_frame flags desc extra bs =
     le_bytes 4 LZ4F_MAGICNUMBER @ [flags, desc] @ extra @ frame_bytes lz4_block_bytes bs"

text \<open>\<open>extra\<close> is the content size, if there is one, and the checksum of the header, which the code does not read.\<close>

definition lz4_header_ok :: "u8 \<Rightarrow> u8 \<Rightarrow> u8 list \<Rightarrow> bool" where
  "lz4_header_ok flags desc extra \<longleftrightarrow>
     flags AND VERSION = 0x40 \<and> flags AND RESERVED0 = 0 \<and> desc AND RESERVED1_2 = 0 \<and>
     flags AND INDEPENDENT_BLOCKS \<noteq> 0 \<and> length extra = (if flags AND HAS_CONTENT_SIZE \<noteq> 0 then 9 else 1)"

lemma ulz4fn_cases:
  assumes "15 \<le> srcn"
  obtains magic where "LZ4_readLE32 (src, src + srcn) m src = Some magic"
    and "ulz4fn w m src srcn dst dstn =
      (let flags = m (src + 4); desc = m (src + 5)
       in if magic = LZ4F_MAGICNUMBER \<and> flags AND VERSION = 0x40 \<and> flags AND RESERVED0 = 0 \<and>
             desc AND RESERVED1_2 = 0 \<and> flags AND INDEPENDENT_BLOCKS \<noteq> 0
          then lz4_blocks w (LZ4_decompress_generic w (src, src + srcn) (dst, dst + dstn)) (src, src + srcn) (dst, dst + dstn)
                 (flags AND HAS_BLOCK_CHECKSUM \<noteq> 0) m
                 (src + 6 + (if flags AND HAS_CONTENT_SIZE \<noteq> 0 then 9 else 1)) dst
          else Some (m, 0))"
proof -
  have "within (src, src + srcn) src 4" using assms by (simp add: within_def)
  then obtain magic where magic: "LZ4_readLE32 (src, src + srcn) m src = Some magic"
    using LZ4_readLE32_value by blast
  have rd: "read_u8 (src, src + srcn) m (src + 4) = Some (m (src + 4))"
    "read_u8 (src, src + srcn) m (src + 5) = Some (m (src + 5))"
    using assms by (simp_all add: read_u8_def within_def)
  have v: "push_bit VERSION_SHIFT (1 :: u8) = 0x40" by (simp add: VERSION_SHIFT_def)
  show ?thesis
    by (rule that [OF magic]) (use assms magic rd v in \<open>auto simp: ulz4fn_def Let_def\<close>)
qed

text \<open>C10: whatever the bytes of the input are, \<open>ulz4fn\<close> returns, has touched no memory outside the two buffers and
  written nothing outside the output buffer, and does not claim more bytes than fit into it. The buffers may overlap, as in
  decompression in place; they lie above the lowest 64 KiB, their sizes are below 2 to the 31, and behind them the address space has room for a length read from the
  input.\<close>

theorem ulz4fn_memory_safe:
  assumes "lz4_buffers w (src, src + srcn) (dst, dst + dstn)"
  shows "\<exists>m' n. ulz4fn w m src srcn dst dstn = Some (m', n) \<and> unchanged m m' dst (dst + dstn) \<and> n \<le> dstn"
proof (cases "srcn < 15")
  case True
  then show ?thesis by (simp add: ulz4fn_def Let_def)
next
  case False
  then have "15 \<le> srcn" by simp
  then obtain magic where u: "ulz4fn w m src srcn dst dstn =
      (let flags = m (src + 4); desc = m (src + 5)
       in if magic = LZ4F_MAGICNUMBER \<and> flags AND VERSION = 0x40 \<and> flags AND RESERVED0 = 0 \<and>
             desc AND RESERVED1_2 = 0 \<and> flags AND INDEPENDENT_BLOCKS \<noteq> 0
          then lz4_blocks w (LZ4_decompress_generic w (src, src + srcn) (dst, dst + dstn)) (src, src + srcn) (dst, dst + dstn)
                 (flags AND HAS_BLOCK_CHECKSUM \<noteq> 0) m
                 (src + 6 + (if flags AND HAS_CONTENT_SIZE \<noteq> 0 then 9 else 1)) dst
          else Some (m, 0))"
    by (rule ulz4fn_cases)
  have "\<exists>m' n. lz4_blocks w (LZ4_decompress_generic w (src, src + srcn) (dst, dst + dstn)) (src, src + srcn) (dst, dst + dstn)
      cs m (src + 6 + k) dst = Some (m', n) \<and> unchanged m m' dst (dst + dstn) \<and> n \<le> dstn" for cs k
    using lz4.blocks_safe [OF assms, of "src + 6 + k" dst cs m] by simp
  then show ?thesis unfolding u Let_def by (auto split: if_splits)
qed

text \<open>C11: a well-formed frame in a buffer apart from the output, with stored and compressed blocks, with or without checksums
  and content size, is decoded to the concatenation of its contents, if they fit; the number of their bytes is returned, and no other
  memory changes.\<close>
theorem ulz4fn_decodes_frames:
  assumes b: "lz4_buffers w (src, src + srcn) (dst, dst + dstn)" "buffers_apart (src, src + srcn) (dst, dst + dstn)"
    and hd: "lz4_header_ok flags desc extra"
    and ok: "list_all (frame_block_ok lz4_block_ok lz4_block_bytes (flags AND HAS_BLOCK_CHECKSUM \<noteq> 0)) bs"
    and h: "holds m src (lz4_frame flags desc extra bs)" "length (lz4_frame flags desc extra bs) \<le> srcn"
    and fit: "length (frame_contents lz4_block_contents bs) \<le> dstn"
  shows "\<exists>m'. ulz4fn w m src srcn dst dstn = Some (m', length (frame_contents lz4_block_contents bs)) \<and>
    unchanged m m' dst (dst + dstn) \<and> holds m' dst (frame_contents lz4_block_contents bs)"
proof (cases "15 \<le> srcn")
  case True
  then obtain magic where r: "LZ4_readLE32 (src, src + srcn) m src = Some magic" and u: "ulz4fn w m src srcn dst dstn =
      (let flags = m (src + 4); desc = m (src + 5)
       in if magic = LZ4F_MAGICNUMBER \<and> flags AND VERSION = 0x40 \<and> flags AND RESERVED0 = 0 \<and>
             desc AND RESERVED1_2 = 0 \<and> flags AND INDEPENDENT_BLOCKS \<noteq> 0
          then lz4_blocks w (LZ4_decompress_generic w (src, src + srcn) (dst, dst + dstn)) (src, src + srcn) (dst, dst + dstn)
                 (flags AND HAS_BLOCK_CHECKSUM \<noteq> 0) m
                 (src + 6 + (if flags AND HAS_CONTENT_SIZE \<noteq> 0 then 9 else 1)) dst
          else Some (m, 0))"
    by (rule ulz4fn_cases)
  let ?e = "if flags AND HAS_CONTENT_SIZE \<noteq> 0 then 9 else 1"
  have p: "holds m src (le_bytes 4 LZ4F_MAGICNUMBER)" "m (src + 4) = flags" "m (src + 5) = desc"
    "holds m (src + 6 + ?e) (frame_bytes lz4_block_bytes bs)" "6 + ?e + length (frame_bytes lz4_block_bytes bs) \<le> srcn"
    using h hd by (auto simp: lz4_frame_def lz4_header_ok_def ac_simps split: if_splits)
  have "LZ4_readLE32 (src, src + srcn) m src = Some LZ4F_MAGICNUMBER"
    by (rule LZ4_readLE32_bytes [OF p(1)]) (use True in \<open>simp add: within_def\<close>)
  with r have "magic = LZ4F_MAGICNUMBER" by simp
  with u p(2,3) hd have "ulz4fn w m src srcn dst dstn =
      lz4_blocks w (LZ4_decompress_generic w (src, src + srcn) (dst, dst + dstn)) (src, src + srcn) (dst, dst + dstn)
        (flags AND HAS_BLOCK_CHECKSUM \<noteq> 0) m (src + 6 + ?e) dst"
    by (simp add: lz4_header_ok_def Let_def)
  with lz4.blocks_complete [OF b _ _ ok p(4), of dst] p(5) fit show ?thesis by auto
next
  case False
  have "bs = []"
  proof (cases bs)
    case (Cons bc bs')
    then show ?thesis using False h(2) ok hd
      by (cases bc) (auto simp: lz4_frame_def lz4_header_ok_def frame_block_ok_def frame_bytes_def Let_def split: if_splits)
  qed simp
  with False show ?thesis by (simp add: ulz4fn_def Let_def)
qed

subsection \<open>Applications to concrete input\<close>

definition put_bytes :: "mem \<Rightarrow> nat \<Rightarrow> u8 list \<Rightarrow> mem" where
  "put_bytes m a xs = (\<lambda>p. if a \<le> p \<and> p < a + length xs then xs ! (p - a) else m p)"

lemma holds_put_bytes [simp]: "holds (put_bytes m a xs) a xs"
  by (simp add: holds_def put_bytes_def)

definition sample_block :: lz4_block where
  "sample_block = ([LzSeq [97, 98] 2 8], [1, 2, 3, 4, 5])"

definition sample_blocks :: "(lz4_block frame_block \<times> u8 list) list" where
  "sample_blocks = [(Packed sample_block, []), (Stored [7, 8], [])]"

lemma lz4_repeat_numeral:
  "lz4_repeat out off (numeral k) = lz4_repeat (out @ [out ! (length out - off)]) off (pred_numeral k)"
  by (simp add: numeral_eq_Suc)

lemmas lz4_eval = lz4_repeat_numeral ext_bytes_def lz4_encode_def lz4_expand_def lz4_token_def

lemma sample_block_bytes:
  "lz4_block_bytes sample_block = [0x24, 97, 98, 2, 0, 0x50, 1, 2, 3, 4, 5]"
  "lz4_block_contents sample_block =
     [97, 98, 97, 98, 97, 98, 97, 98, 97, 98, 1, 2, 3, 4, 5]"
  "lz4_block_ok sample_block"
  by (simp_all add: sample_block_def lz4_block_bytes_def lz4_block_contents_def lz4_block_ok_def lz4_eval)

lemma sample_blocks_facts:
  "list_all (frame_block_ok lz4_block_ok lz4_block_bytes (0x60 AND HAS_BLOCK_CHECKSUM \<noteq> 0)) sample_blocks"
  "lz4_header_ok 0x60 0x40 [0]"
  "length (lz4_frame 0x60 0x40 [0] sample_blocks) = 32"
  "frame_contents lz4_block_contents sample_blocks = [97, 98, 97, 98, 97, 98, 97, 98, 97, 98, 1, 2, 3, 4, 5, 7, 8]"
  by (simp_all add: sample_blocks_def sample_block_bytes frame_block_ok_def lz4_header_ok_def lz4f_consts lz4_frame_def)

theorem ulz4fn_decodes_frames_witness:
  "\<exists>m'. ulz4fn 64 (put_bytes (\<lambda>_. 0) 65536 (lz4_frame 0x60 0x40 [0] sample_blocks)) 65536 32 69632 64 = Some (m', 17) \<and>
     holds m' 69632 [97, 98, 97, 98, 97, 98, 97, 98, 97, 98, 1, 2, 3, 4, 5, 7, 8]"
proof -
  have "lz4_buffers 64 (65536, 65536 + 32) (69632, 69632 + 64)" "buffers_apart (65536, 65536 + 32) (69632, 69632 + 64)"
    by (simp_all add: lz4_buffers_def buffers_apart_def)
  from ulz4fn_decodes_frames [OF this sample_blocks_facts(2,1) holds_put_bytes, of "\<lambda>_. 0"]
  show ?thesis by (auto simp: sample_blocks_facts)
qed

theorem ulz4fn_memory_safe_witness:
  "\<exists>m' n. ulz4fn 64 (\<lambda>a. of_nat a) 65536 32 65540 64 = Some (m', n) \<and> unchanged (\<lambda>a. of_nat a) m' 65540 65604 \<and> n \<le> 64"
  using ulz4fn_memory_safe [of 64 65536 32 65540 64 "\<lambda>a. of_nat a"] by (simp add: lz4_buffers_def)

text \<open>C19: with separate buffers, every input that the block decoder accepts is the encoding of a block, its result is
  the length of the expansion of this block, and the output is the expansion, unless the block has an offset of zero.\<close>

theorem LZ4_decompress_generic_sound:
  assumes "lz4_buffers w src dst" "buffers_apart src dst"
    and "fst src \<le> inp" "0 < n" "inp + n \<le> snd src" and "fst dst \<le> out" "out \<le> snd dst"
    and "LZ4_decompress_generic w src dst m inp out n (int (snd dst) - int out) = Some (m', ret)" "0 \<le> ret"
  shows "\<exists>seqs lits t. t < 16 \<and> seqs_ok 0 seqs \<and> mem_bytes m inp n = lz4_encode seqs lits t \<and>
    ret = int (length (lz4_expand [] seqs lits)) \<and>
    (0 \<notin> seq_offset ` set seqs \<longrightarrow> mem_bytes m' out (nat ret) = lz4_expand [] seqs lits)"
proof -
  from LZ4_decompress_generic_sound_aux [OF assms] obtain seqs lits t where
    s: "t < 16" "seqs_ok 0 seqs" "n = length (lz4_encode seqs lits t)" "holds m inp (lz4_encode seqs lits t)"
      "ret = int (length (lz4_expand [] seqs lits))"
      "0 \<notin> seq_offset ` set seqs \<longrightarrow> holds m' out (lz4_expand [] seqs lits)"
    by blast
  have "mem_bytes m inp n = lz4_encode seqs lits t" using mem_bytes_holds [OF s(4)] s(3) by simp
  moreover have "mem_bytes m' out (nat ret) = lz4_expand [] seqs lits" if "0 \<notin> seq_offset ` set seqs"
    using s(5,6) that mem_bytes_holds [of m' out "lz4_expand [] seqs lits"] by simp
  ultimately show ?thesis using s(1,2,5) by blast
qed

theorem LZ4_decompress_generic_sound_witness:
  "\<exists>seqs lits t. t < 16 \<and> seqs_ok 0 seqs \<and> lz4_block_bytes sample_block = lz4_encode seqs lits t \<and>
     length (lz4_expand [] seqs lits) = 15"
proof -
  let ?m = "put_bytes (\<lambda>_. 0) 65536 (lz4_block_bytes sample_block)"
  have bufs: "lz4_buffers 64 (65536, 65547) (69632, 69696)" "buffers_apart (65536, 65547) (69632, 69696)"
    by (simp_all add: lz4_buffers_def buffers_apart_def)
  have len: "length (lz4_block_bytes sample_block) = 11" "length (lz4_block_contents sample_block) = 15"
    by (simp_all add: sample_block_bytes)
  have "\<exists>m'. LZ4_decompress_generic 64 (65536, 65547) (69632, 69696) ?m 65536 69632 (length (lz4_block_bytes sample_block))
      (int (snd (69632 :: nat, 69696 :: nat)) - int 69632) = Some (m', int (length (lz4_block_contents sample_block))) \<and>
    unchanged ?m m' 69632 (snd (69632 :: nat, 69696 :: nat)) \<and> holds m' 69632 (lz4_block_contents sample_block)"
    by (rule lz4.dec_block [OF bufs sample_block_bytes(3) holds_put_bytes]) (simp_all only: len, simp_all)
  then obtain m' where r: "LZ4_decompress_generic 64 (65536, 65547) (69632, 69696) ?m 65536 69632 11
      (int (snd (69632 :: nat, 69696 :: nat)) - int 69632) = Some (m', 15)"
    unfolding len by auto
  have "\<exists>seqs lits t. t < 16 \<and> seqs_ok 0 seqs \<and> mem_bytes ?m 65536 11 = lz4_encode seqs lits t \<and>
    15 = int (length (lz4_expand [] seqs lits)) \<and>
    (0 \<notin> seq_offset ` set seqs \<longrightarrow> mem_bytes m' 69632 (nat 15) = lz4_expand [] seqs lits)"
    by (rule LZ4_decompress_generic_sound [OF bufs _ _ _ _ _ r]) simp_all
  moreover have "mem_bytes ?m 65536 11 = lz4_block_bytes sample_block"
    using mem_bytes_holds [OF holds_put_bytes [of "\<lambda>_. 0" 65536 "lz4_block_bytes sample_block"]] len by simp
  ultimately show ?thesis by (metis of_nat_eq_iff of_nat_numeral)
qed

subsection \<open>Input that the decoder does not reject\<close>

lemma LZ4_wildCopy_once:
  "e \<le> d + 8 \<Longrightarrow> LZ4_wildCopy rd wr m d s e = mem_move rd wr m d s 8"
  by (subst LZ4_wildCopy.simps) (simp add: LZ4_copy8_def)

lemma move_bytes_apply: "move_bytes m d s n a = (if d \<le> a \<and> a < d + n then m (s + (a - d)) else m a)"
  by (simp add: move_bytes_def)

lemmas lz4_step_eval = lz4_sequence_def get_literal_length_def lz4_match_def get_match_length_def
  copy_match_def copy_match_start_def LZ4_wildCopy_once byte_copy.simps lz4_consts LZ4_readLE16_def read_u8_def within_def
  mem_move_def dec32table_def dec64table_def Let_def move_bytes_apply to_int32_id

definition zero_offset_block :: "u8 list" where
  "zero_offset_block = [0x80, 11, 12, 13, 14, 15, 16, 17, 18, 0, 0, 0x80, 1, 2, 3, 4, 5, 6, 7, 8]"

text \<open>C33: an offset of zero stands for no byte of the output. The block decoder takes it and returns success, and
  the output has what was in the output buffer before: here the four bytes behind the first literals.\<close>
theorem lz4_offset_zero_accepted:
  "\<exists>m'. LZ4_decompress_generic 64 (65552, 65572) (65600, 65632) (put_bytes m 65552 zero_offset_block) 65552 65600 20 32 = Some (m', 20) \<and>
     mem_bytes m' 65600 20 = [11, 12, 13, 14, 15, 16, 17, 18, m 65608, m 65609, m 65610, m 65611, 1, 2, 3, 4, 5, 6, 7, 8]"
proof -
  let ?m = "put_bytes m 65552 zero_offset_block"
  let ?m1 = "move_bytes (move_bytes (four_bytes (move_bytes ?m 65600 65553 8) 65608 65608) 65612 65612 4) 65616 65612 8"
  let ?m2 = "move_bytes ?m1 65612 65564 8"
  have b: "?m 65552 = 0x80" "?m 65561 = 0" "?m 65562 = 0" "?m 65563 = 0x80"
    by (simp_all add: put_bytes_def zero_offset_block_def)
  have s1: "lz4_sequence 64 (65552, 65572) (65600, 65632) 65600 False 65572 65632 ?m 65552 65600 = Some (SeqNext ?m1 65563 65612)"
    by (simp add: lz4_step_eval four_bytes_def b)
  have s2: "lz4_sequence 64 (65552, 65572) (65600, 65632) 65600 False 65572 65632 ?m1 65563 65612 = Some (SeqLast ?m2 65620)"
    by (simp add: lz4_step_eval four_bytes_def b)
  have "LZ4_decompress_generic 64 (65552, 65572) (65600, 65632) ?m 65552 65600 20 32 = Some (?m2, 20)"
    by (simp add: LZ4_decompress_generic_def Let_def) (simp add: lz4_loop.simps s1 s2 to_int32_id)
  moreover have "mem_bytes ?m2 65600 20 =
      [11, 12, 13, 14, 15, 16, 17, 18, m 65608, m 65609, m 65610, m 65611, 1, 2, 3, 4, 5, 6, 7, 8]"
    by (simp add: mem_bytes_def upt_rec move_bytes_apply four_bytes_def put_bytes_def zero_offset_block_def)
  ultimately show ?thesis by blast
qed

definition in_place_seqs :: "lz4_seq list" where
  "in_place_seqs = [LzSeq [128, 128, 128, 128, 128, 128, 128, 128] 1 4]"

definition in_place_lits :: "u8 list" where
  "in_place_lits = [1, 2, 3, 4, 5, 6, 7, 8]"

lemma in_place_encode:
  "lz4_encode in_place_seqs in_place_lits 0 =
     [128, 128, 128, 128, 128, 128, 128, 128, 128, 1, 0, 128, 1, 2, 3, 4, 5, 6, 7, 8]"
  "lz4_expand [] in_place_seqs in_place_lits =
     [128, 128, 128, 128, 128, 128, 128, 128, 128, 128, 128, 128, 1, 2, 3, 4, 5, 6, 7, 8]"
  by (simp_all add: in_place_seqs_def in_place_lits_def lz4_eval)

lemma in_place_length:
  "length (lz4_encode in_place_seqs in_place_lits 0) = 20"
  "int (length (lz4_expand [] in_place_seqs in_place_lits)) = 20"
  "length (lz4_expand [] in_place_seqs in_place_lits) = 20"
  by (simp_all add: in_place_encode)

text \<open>C20: when the input lies in the output buffer, the test \<^verbatim>\<open>op + WILDCOPYLENGTH > ip\<close> is meant to stop before
  output runs over input that is still needed. A short match writes sixteen bytes from its start, though, four more than the test allows
  for: the same block, decoded with separate buffers and in place, gives two different results, both reported as success.\<close>
theorem lz4_in_place_corrupts:
  "let b = lz4_encode in_place_seqs in_place_lits 0
   in (\<exists>m'. LZ4_decompress_generic 64 (65736, 65756) (65600, 65632) (put_bytes m 65736 b) 65736 65600 20 32 = Some (m', 20) \<and>
         mem_bytes m' 65600 20 = lz4_expand [] in_place_seqs in_place_lits) \<and>
      (\<exists>m'. LZ4_decompress_generic 64 (65609, 65629) (65600, 65632) (put_bytes m 65609 b) 65609 65600 20 32 = Some (m', 20) \<and>
         mem_bytes m' 65600 20 \<noteq> lz4_expand [] in_place_seqs in_place_lits)"
proof -
  let ?b = "lz4_encode in_place_seqs in_place_lits 0"
  let ?m = "put_bytes m 65609 ?b"
  let ?m1 = "move_bytes (move_bytes (four_bytes (move_bytes ?m 65600 65610 8) 65608 65607) 65612 65608 4) 65616 65608 8"
  let ?m2 = "move_bytes ?m1 65612 65621 8"
  have "lz4_buffers 64 (65736, 65756) (65600, 65632)" "buffers_apart (65736, 65756) (65600, 65632)"
    by (simp_all add: lz4_buffers_def buffers_apart_def)
  moreover have "seqs_ok 0 in_place_seqs" "0 \<notin> seq_offset ` set in_place_seqs" "end_ok in_place_seqs in_place_lits"
    by (simp_all add: in_place_seqs_def in_place_lits_def)
  ultimately have "\<exists>m'. LZ4_decompress_generic 64 (65736, 65756) (65600, 65632) (put_bytes m 65736 ?b) 65736 65600 (length ?b)
        (int (snd (65600 :: nat, 65632 :: nat)) - int 65600) = Some (m', int (length (lz4_expand [] in_place_seqs in_place_lits))) \<and>
      unchanged (put_bytes m 65736 ?b) m' 65600 (snd (65600 :: nat, 65632 :: nat)) \<and> holds m' 65600 (lz4_expand [] in_place_seqs in_place_lits)"
    by (rule LZ4_decompress_generic_complete [OF _ _ _ _ _ holds_put_bytes]) (simp_all add: in_place_encode)
  then have "\<exists>m'. LZ4_decompress_generic 64 (65736, 65756) (65600, 65632) (put_bytes m 65736 ?b) 65736 65600 20 32 = Some (m', 20) \<and>
      holds m' 65600 (lz4_expand [] in_place_seqs in_place_lits)"
    unfolding in_place_length(1,2) snd_conv by auto
  then have sep: "\<exists>m'. LZ4_decompress_generic 64 (65736, 65756) (65600, 65632) (put_bytes m 65736 ?b) 65736 65600 20 32 = Some (m', 20) \<and>
      mem_bytes m' 65600 20 = lz4_expand [] in_place_seqs in_place_lits"
    using mem_bytes_holds [of _ 65600 "lz4_expand [] in_place_seqs in_place_lits", unfolded in_place_length(3)] by blast
  have b: "?m 65609 = 128" "?m 65610 = 128" "?m 65611 = 128" "?m 65612 = 128" "?m 65613 = 128" "?m 65614 = 128" "?m 65615 = 128" "?m 65616 = 128"
    "?m 65617 = 128" "?m 65618 = 1" "?m 65619 = 0" "?m 65620 = 128" "?m 65621 = 1"
    by (simp_all add: put_bytes_def in_place_encode)
  have s1: "lz4_sequence 64 (65609, 65629) (65600, 65632) 65600 True 65629 65632 ?m 65609 65600 = Some (SeqNext ?m1 65620 65612)"
    by (simp add: lz4_step_eval four_bytes_def b)
  have s2: "lz4_sequence 64 (65609, 65629) (65600, 65632) 65600 True 65629 65632 ?m1 65620 65612 = Some (SeqLast ?m2 65620)"
    by (simp add: lz4_step_eval four_bytes_def b)
  have "LZ4_decompress_generic 64 (65609, 65629) (65600, 65632) ?m 65609 65600 20 32 = Some (?m2, 20)"
    by (simp add: LZ4_decompress_generic_def Let_def) (simp add: lz4_loop.simps s1 s2 to_int32_id)
  moreover have "?m2 65612 = 128" by (simp add: move_bytes_apply four_bytes_def b)
  then have "mem_bytes ?m2 65600 20 ! 12 \<noteq> lz4_expand [] in_place_seqs in_place_lits ! 12"
    by (simp add: mem_bytes_def in_place_encode del: upt.simps)
  ultimately show ?thesis using sep unfolding Let_def by metis
qed

definition wrapping_block :: "u8 list" where
  "wrapping_block = [0x1F, 65, 1, 0, 45, 0x50, 1, 2, 3, 4, 5]"


end
