(* ===== verification/Heap.thy ===== *)
theory Heap
  imports Memory "HOL-Library.Sublist"
begin

text \<open>
  The two allocators of the firmware: \<^verbatim>\<open>commonlib/mem_pool.c\<close> with \<^verbatim>\<open>commonlib/mem_pool.h\<close>, a pool over a buffer whose two
  latest allocations can be freed in reverse order (it backs the CBFS cache), and the heap of \<^verbatim>\<open>lib/malloc.c\<close>, where
  one can. A null pointer is the address 0. The locale \<open>lifo_allocator\<close> is what both promise: blocks taken and
  not given back are separate, in whatever order a client allocates and frees.
\<close>

unbundle bit_operations_syntax

subsection \<open>The contract\<close>

text \<open>Blocks, newest first: every one lies above all that are older.\<close>

type_synonym mem_block = "addr \<times> size_t"

fun stacked :: "nat \<Rightarrow> nat \<Rightarrow> mem_block list \<Rightarrow> bool" where
  "stacked lo hi [] \<longleftrightarrow> lo \<le> hi"
| "stacked lo hi ((p, z) # st) \<longleftrightarrow> unat p + unat z \<le> hi \<and> stacked lo (unat p) st"

definition separate :: "mem_block list \<Rightarrow> bool" where
  "separate st \<longleftrightarrow> sorted_wrt (\<lambda>(p, z) (q, y). unat q + unat y \<le> unat p) st"

text \<open>A client gives a block back: the newest of the address.\<close>

fun give_back :: "addr \<Rightarrow> mem_block list \<Rightarrow> mem_block list" where
  "give_back a [] = []"
| "give_back a ((p, z) # st) = (if p = a then st else (p, z) # give_back a st)"

datatype alloc_op = Alloc size_t | Release addr

lemma stacked_bot: "stacked lo hi st \<Longrightarrow> lo \<le> hi"
  by (induction lo hi st rule: stacked.induct) auto

lemma stacked_top: "stacked lo hi st \<Longrightarrow> hi \<le> hi2 \<Longrightarrow> stacked lo hi2 st"
  by (cases st) auto

lemma stacked_blocks: "stacked lo hi st \<Longrightarrow> (p, z) \<in> set st \<Longrightarrow> lo \<le> unat p \<and> unat p + unat z \<le> hi"
proof (induction lo hi st rule: stacked.induct)
  case (2 lo hi q y st)
  then have "lo \<le> unat q" by (auto dest: stacked_bot)
  with 2 show ?case by auto
qed simp

lemma stacked_separate: "stacked lo hi st \<Longrightarrow> separate st"
  by (induction lo hi st rule: stacked.induct) (auto simp: separate_def dest: stacked_blocks)

lemma sorted_wrt_subseq: "subseq xs ys \<Longrightarrow> sorted_wrt P ys \<Longrightarrow> sorted_wrt P xs"
  by (induction rule: list_emb.induct) (auto elim: list_emb_set)

lemma separate_subseq: "separate st \<Longrightarrow> subseq live st \<Longrightarrow> separate live"
  unfolding separate_def using sorted_wrt_subseq by blast

lemma give_back_subseq: "subseq (give_back a st) st"
  by (induction st) auto

lemma give_back_pop: "subseq live ((p, z) # st) \<Longrightarrow> subseq (give_back p live) st"
proof (cases live)
  case (Cons b live')
  assume s: "subseq live ((p, z) # st)"
  show ?thesis
  proof (cases "b = (p, z)")
    case True
    with s Cons show ?thesis by simp
  next
    case False
    with s Cons have "subseq live st" by simp
    with give_back_subseq show ?thesis by (rule subseq_order.trans)
  qed
qed simp

text \<open>
  A client's calls in any order, with the blocks it holds; it may release an address twice, or one it never got. \<open>None\<close> when a
  request does not fit: \<open>fits\<close> bounds a request so that no sum wraps around.
\<close>

fun serve_calls ::
  "('s \<Rightarrow> size_t \<Rightarrow> addr \<times> 's) \<Rightarrow> ('s \<Rightarrow> addr \<Rightarrow> 's) \<Rightarrow> ('s \<Rightarrow> size_t \<Rightarrow> bool) \<Rightarrow> alloc_op list \<Rightarrow>
   's \<times> mem_block list \<Rightarrow> ('s \<times> mem_block list) option" where
  "serve_calls alloc release fits [] (s, live) = Some (s, live)"
| "serve_calls alloc release fits (Alloc z # ops) (s, live) =
     (if fits s z
      then case alloc s z of (p, s') \<Rightarrow> serve_calls alloc release fits ops (s', if p = 0 then live else (p, z) # live)
      else None)"
| "serve_calls alloc release fits (Release a # ops) (s, live) =
     serve_calls alloc release fits ops (release s a, give_back a live)"

text \<open>
  \<open>rep s st k\<close>: the allocator in state \<open>s\<close> keeps room for the blocks \<open>st\<close>, and the newest \<open>k\<close> of them can be given back.
\<close>

locale lifo_allocator =
  fixes alloc :: "'s \<Rightarrow> size_t \<Rightarrow> addr \<times> 's" and release :: "'s \<Rightarrow> addr \<Rightarrow> 's"
    and fits :: "'s \<Rightarrow> size_t \<Rightarrow> bool" and rep :: "'s \<Rightarrow> mem_block list \<Rightarrow> nat \<Rightarrow> bool" and depth :: nat
  assumes alloc_block: "rep s st k \<Longrightarrow> fits s z \<Longrightarrow> alloc s z = (p, s') \<Longrightarrow> p \<noteq> 0 \<Longrightarrow> rep s' ((p, z) # st) (min depth (Suc k))"
    and alloc_null: "rep s st k \<Longrightarrow> fits s z \<Longrightarrow> alloc s z = (0, s') \<Longrightarrow> \<exists>k'\<le>k. rep s' st k'"
    and release_top: "rep s ((p, z) # st) (Suc k) \<Longrightarrow> rep (release s p) st k"
    and release_other: "rep s st k \<Longrightarrow> k = 0 \<or> st = [] \<or> fst (hd st) \<noteq> p \<Longrightarrow> rep (release s p) st k"
    and rep_separate: "rep s st k \<Longrightarrow> separate st"
begin

definition holds_blocks :: "'s \<Rightarrow> mem_block list \<Rightarrow> bool" where
  "holds_blocks s live \<longleftrightarrow> (\<exists>st k. rep s st k \<and> subseq live st)"

lemma alloc_holds:
  assumes "holds_blocks s live" "fits s z" "alloc s z = (p, s')"
  shows "holds_blocks s' (if p = 0 then live else (p, z) # live)"
proof -
  from assms(1) obtain st k where r: "rep s st k" "subseq live st" by (auto simp: holds_blocks_def)
  show ?thesis
  proof (cases "p = 0")
    case True
    with alloc_null [OF r(1) assms(2)] assms(3) r(2) show ?thesis by (auto simp: holds_blocks_def)
  next
    case False
    from alloc_block [OF r(1) assms(2,3) False] r(2) False show ?thesis
      by (auto simp: holds_blocks_def intro!: exI)
  qed
qed

lemma release_holds:
  assumes "holds_blocks s live"
  shows "holds_blocks (release s a) (give_back a live)"
proof -
  from assms obtain st k where r: "rep s st k" "subseq live st" by (auto simp: holds_blocks_def)
  show ?thesis
  proof (cases "k = 0 \<or> st = [] \<or> fst (hd st) \<noteq> a")
    case True
    from release_other [OF r(1) True] subseq_order.trans [OF give_back_subseq r(2)] show ?thesis
      by (auto simp: holds_blocks_def)
  next
    case False
    then obtain z st' k' where "st = (a, z) # st'" "k = Suc k'"
      by (cases st; cases k) auto
    with release_top [of s a z st' k'] give_back_pop [of live a z st'] r show ?thesis
      by (auto simp: holds_blocks_def)
  qed
qed

lemma serve_holds:
  "holds_blocks s live \<Longrightarrow> serve_calls alloc release fits ops (s, live) = Some (s', live') \<Longrightarrow> holds_blocks s' live'"
proof (induction ops arbitrary: s live)
  case (Cons c ops)
  show ?case
  proof (cases c)
    case (Alloc z)
    with Cons.prems obtain p s1 where f: "fits s z" "alloc s z = (p, s1)"
      and r: "serve_calls alloc release fits ops (s1, if p = 0 then live else (p, z) # live) = Some (s', live')"
      by (auto split: if_split_asm prod.splits)
    show ?thesis by (rule Cons.IH [OF alloc_holds [OF Cons.prems(1) f] r])
  next
    case (Release a)
    with Cons.prems have r: "serve_calls alloc release fits ops (release s a, give_back a live) = Some (s', live')" by simp
    show ?thesis by (rule Cons.IH [OF release_holds [OF Cons.prems(1)] r])
  qed
qed simp

lemma serve_separate:
  assumes "rep s [] k" "serve_calls alloc release fits ops (s, []) = Some (s', live)"
  shows "separate live \<and> (\<exists>st k. rep s' st k \<and> subseq live st)"
proof -
  have "holds_blocks s []" using assms(1) by (auto simp: holds_blocks_def)
  from serve_holds [OF this assms(2)] obtain st k where "rep s' st k" "subseq live st"
    by (auto simp: holds_blocks_def)
  then show ?thesis using rep_separate separate_subseq by blast
qed

end

subsection \<open>The memory pool\<close>

record mem_pool =
  mp_buf :: addr
  mp_size :: size_t
  mp_alignment :: size_t
  mp_last_alloc :: addr
  mp_second_to_last_alloc :: addr
  mp_free_offset :: size_t

definition MEM_POOL_INIT :: "addr \<Rightarrow> size_t \<Rightarrow> size_t \<Rightarrow> mem_pool" where
  "MEM_POOL_INIT buf sz alignment =
     \<lparr>mp_buf = buf, mp_size = sz, mp_alignment = alignment, mp_last_alloc = 0, mp_second_to_last_alloc = 0, mp_free_offset = 0\<rparr>"

definition mem_pool_reset :: "mem_pool \<Rightarrow> mem_pool" where
  "mem_pool_reset mp = mp\<lparr>mp_last_alloc := 0, mp_second_to_last_alloc := 0, mp_free_offset := 0\<rparr>"

definition mem_pool_init :: "bool \<Rightarrow> mem_pool \<Rightarrow> addr \<Rightarrow> size_t \<Rightarrow> size_t \<Rightarrow> mem_pool option" where
  "mem_pool_init fatal mp buf sz alignment =
     c_assert fatal (alignment \<noteq> 0)
       (c_assert fatal (buf mod alignment = 0)
         (Some (mem_pool_reset (mp\<lparr>mp_buf := buf, mp_size := sz, mp_alignment := alignment\<rparr>))))"

definition mem_pool_alloc :: "mem_pool \<Rightarrow> size_t \<Rightarrow> addr \<times> mem_pool" where
  "mem_pool_alloc mp sz =
     (if mp_alignment mp = 0 then (0, mp)
      else
        let sz = ALIGN_UP sz (mp_alignment mp)
        in if mp_size mp - mp_free_offset mp < sz then (0, mp)
           else
             let p = mp_buf mp + mp_free_offset mp
             in (p, mp\<lparr>mp_free_offset := mp_free_offset mp + sz,
                       mp_second_to_last_alloc := mp_last_alloc mp,
                       mp_last_alloc := p\<rparr>))"

definition mem_pool_free :: "mem_pool \<Rightarrow> addr \<Rightarrow> mem_pool" where
  "mem_pool_free mp p =
     (if p = 0 \<or> mp_last_alloc mp \<noteq> p then mp
      else mp\<lparr>mp_free_offset := mp_last_alloc mp - mp_buf mp,
              mp_last_alloc := mp_second_to_last_alloc mp,
              mp_second_to_last_alloc := 0\<rparr>)"

text \<open>A pool over an aligned buffer that ends below the end of the address space.\<close>

definition pool_buffer :: "addr \<Rightarrow> size_t \<Rightarrow> nat \<Rightarrow> bool" where
  "pool_buffer buf sz n \<longleftrightarrow> n < 64 \<and> buf \<noteq> 0 \<and> 2 ^ n dvd unat buf \<and> unat buf + unat sz < 2 ^ 64"

definition pool_rep :: "addr \<Rightarrow> size_t \<Rightarrow> nat \<Rightarrow> mem_pool \<Rightarrow> mem_block list \<Rightarrow> nat \<Rightarrow> bool" where
  "pool_rep buf sz n mp st k \<longleftrightarrow>
     mp_buf mp = buf \<and> mp_size mp = sz \<and> mp_alignment mp = 2 ^ n \<and> pool_buffer buf sz n \<and>
     mp_free_offset mp \<le> sz \<and> 2 ^ n dvd unat (mp_free_offset mp) \<and>
     stacked (unat buf) (unat buf + unat (mp_free_offset mp)) st \<and> (\<forall>(p, z)\<in>set st. 2 ^ n dvd unat p) \<and>
     k \<le> 2 \<and> k \<le> length st \<and> mp_last_alloc mp = (if k = 0 then 0 else fst (st ! 0)) \<and>
     mp_second_to_last_alloc mp = (if k < 2 then 0 else fst (st ! 1))"

definition pool_fits :: "mem_pool \<Rightarrow> size_t \<Rightarrow> bool" where
  "pool_fits mp z \<longleftrightarrow> unat z + unat (mp_alignment mp) \<le> 2 ^ 64"

lemma pool_buffer_facts:
  assumes "pool_buffer buf sz n" and "off \<le> sz"
  shows "unat (buf + off) = unat buf + unat off" and "buf + off \<noteq> 0"
proof -
  from assms have "unat buf + unat off < 2 ^ 64" by (simp add: pool_buffer_def word_le_nat_alt)
  then show u: "unat (buf + off) = unat buf + unat off" by (intro unat_add_no_wrap) simp
  from assms(1) have "unat buf \<noteq> 0" by (simp add: pool_buffer_def unat_eq_zero)
  with u show "buf + off \<noteq> 0" by (metis add_is_0 unat_0)
qed

lemma unat_two_power: "n < 64 \<Longrightarrow> unat (2 ^ n :: u64) = 2 ^ n"
  using unat_of_nat_lt [of "2 ^ n", where ?'a = 64] power_strict_increasing [of n 64 "2 :: nat"] by simp

lemma ALIGN_UP_block:
  assumes "n < 64" "unat z + 2 ^ n \<le> 2 ^ 64"
  shows "unat z \<le> unat (ALIGN_UP z (2 ^ n))" and "2 ^ n dvd unat (ALIGN_UP z (2 ^ n))"
proof -
  have lt: "unat z + (2 ^ n - 1) < 2 ^ 64" using assms(2) by (metis (no_types) One_nat_def add_gr_0 diff_less lessI
        less_numeral_extra(1) nat_add_left_cancel_less order_less_le_trans zero_less_numeral zero_less_power)
  from ALIGN_UP_ge [of n z] lt assms(1) show "unat z \<le> unat (ALIGN_UP z (2 ^ n))" by (simp add: word_le_nat_alt)
  from unat_ALIGN_UP [of n z] lt assms(1) show "2 ^ n dvd unat (ALIGN_UP z (2 ^ n))" by simp
qed

lemma pool_alloc_rep:
  assumes r: "pool_rep buf sz n mp st k" and f: "pool_fits mp z" and a: "mem_pool_alloc mp z = (p, mp')"
  shows "if p = 0 then mp' = mp else pool_rep buf sz n mp' ((p, z) # st) (min 2 (Suc k))"
proof -
  let ?z = "ALIGN_UP z (2 ^ n)" and ?o = "mp_free_offset mp"
  from r have b: "pool_buffer buf sz n" and n: "n < 64" and o: "?o \<le> sz" "2 ^ n dvd unat ?o" and al: "mp_alignment mp = 2 ^ n"
    by (simp_all add: pool_rep_def pool_buffer_def)
  have two: "unat (2 ^ n :: u64) = 2 ^ n" using n by (rule unat_two_power)
  then have al0: "mp_alignment mp \<noteq> 0" using al by (metis power_not_zero unat_0 zero_neq_numeral)
  have fz: "unat z + 2 ^ n \<le> 2 ^ 64" using f al two by (simp add: pool_fits_def)
  note z = ALIGN_UP_block [OF n fz]
  show ?thesis
  proof (cases "mp_size mp - ?o < ?z")
    case True
    with a al al0 have "p = 0" "mp' = mp" by (simp_all add: mem_pool_alloc_def Let_def)
    then show ?thesis by simp
  next
    case False
    then have m: "mp' = mp\<lparr>mp_free_offset := ?o + ?z, mp_second_to_last_alloc := mp_last_alloc mp, mp_last_alloc := p\<rparr>" "p = buf + ?o"
      using a al al0 r by (auto simp: mem_pool_alloc_def Let_def pool_rep_def)
    have "?z \<le> sz - ?o" using False r by (simp add: pool_rep_def)
    then have le: "unat ?o + unat ?z \<le> unat sz"
      using o(1) by (simp add: word_le_nat_alt unat_sub_no_wrap)
    then have u: "unat (?o + ?z) = unat ?o + unat ?z"
      using unat_lt_64 [of sz] by (intro unat_add_no_wrap) simp
    have p: "p \<noteq> 0" "unat p = unat buf + unat ?o" using pool_buffer_facts [OF b o(1)] m by simp_all
    have "2 ^ n dvd unat p" using b o(2) p(2) by (simp add: pool_buffer_def)
    moreover have "2 ^ n dvd unat (?o + ?z)" using u o(2) z(2) by simp
    moreover have "?o + ?z \<le> sz" using le u by (simp add: word_le_nat_alt)
    moreover have "stacked (unat buf) (unat buf + unat (?o + ?z)) ((p, z) # st)"
      using r p(2) u z(1) by (simp add: pool_rep_def)
    ultimately show ?thesis
      using r p(1) m by (auto simp: pool_rep_def min_def less_Suc_eq)
  qed
qed

lemma pool_release_rep:
  assumes r: "pool_rep buf sz n mp ((p, z) # st) (Suc k)"
  shows "pool_rep buf sz n (mem_pool_free mp p) st k"
proof -
  from r have last: "mp_last_alloc mp = p" and s: "stacked (unat buf) (unat p) st" and b: "pool_buffer buf sz n"
    and pz: "unat p + unat z \<le> unat buf + unat (mp_free_offset mp)" "2 ^ n dvd unat p" "mp_free_offset mp \<le> sz" "mp_buf mp = buf"
    by (simp_all add: pool_rep_def)
  have ge: "unat buf \<le> unat p" using stacked_bot [OF s] .
  have "p \<noteq> 0" using ge b by (auto simp: pool_buffer_def unat_eq_zero)
  then have m: "mem_pool_free mp p = mp\<lparr>mp_free_offset := p - buf, mp_last_alloc := mp_second_to_last_alloc mp, mp_second_to_last_alloc := 0\<rparr>"
    using last pz(4) by (simp add: mem_pool_free_def)
  have u: "unat (p - buf) = unat p - unat buf" using ge by (rule unat_sub_no_wrap)
  have "p - buf \<le> sz" using u pz ge by (simp add: word_le_nat_alt)
  moreover have "2 ^ n dvd unat (p - buf)" using u b pz(2) by (simp add: pool_buffer_def dvd_diff_nat)
  moreover have "stacked (unat buf) (unat buf + unat (p - buf)) st" using s u ge by simp
  ultimately show ?thesis using r unfolding m by (cases k) (auto simp: pool_rep_def)
qed

lemma pool_release_other:
  assumes r: "pool_rep buf sz n mp st k" and o: "k = 0 \<or> st = [] \<or> fst (hd st) \<noteq> p"
  shows "mem_pool_free mp p = mp"
proof -
  have "p = 0 \<or> mp_last_alloc mp \<noteq> p"
    using r o by (cases st) (auto simp: pool_rep_def)
  then show ?thesis by (simp add: mem_pool_free_def)
qed

interpretation pool_alloc: lifo_allocator mem_pool_alloc mem_pool_free pool_fits "pool_rep buf sz n" 2
proof unfold_locales
  fix mp st k z p mp'
  assume "pool_rep buf sz n mp st k" "pool_fits mp z" "mem_pool_alloc mp z = (p, mp')" "p \<noteq> 0"
  then show "pool_rep buf sz n mp' ((p, z) # st) (min 2 (Suc k))" using pool_alloc_rep by fastforce
next
  fix mp st k z mp'
  assume "pool_rep buf sz n mp st k" "pool_fits mp z" "mem_pool_alloc mp z = (0, mp')"
  then show "\<exists>k'\<le>k. pool_rep buf sz n mp' st k'" using pool_alloc_rep by fastforce
next
  fix mp st k p
  assume r: "pool_rep buf sz n mp st k" and "k = 0 \<or> st = [] \<or> fst (hd st) \<noteq> p"
  then show "pool_rep buf sz n (mem_pool_free mp p) st k" by (simp add: pool_release_other)
next
  fix mp st k
  assume "pool_rep buf sz n mp st k"
  then show "separate st" using stacked_separate by (auto simp: pool_rep_def)
qed (rule pool_release_rep)

lemma pool_rep_start: "pool_buffer buf sz n \<Longrightarrow> pool_rep buf sz n (MEM_POOL_INIT buf sz (2 ^ n)) [] 0"
  by (simp add: pool_rep_def MEM_POOL_INIT_def)

subsection \<open>The heap\<close>

text \<open>The two static pointers, and the bounds \<^verbatim>\<open>_heap\<close> and \<^verbatim>\<open>_eheap\<close> from the linker.\<close>

record malloc_heap =
  heap_start :: addr
  heap_end :: addr
  free_mem_ptr :: addr
  free_last_alloc_ptr :: addr

definition heap_init :: "addr \<Rightarrow> addr \<Rightarrow> malloc_heap" where
  "heap_init s e = \<lparr>heap_start = s, heap_end = e, free_mem_ptr = s, free_last_alloc_ptr = s\<rparr>"

definition memalign :: "malloc_heap \<Rightarrow> size_t \<Rightarrow> size_t \<Rightarrow> addr \<times> malloc_heap" where
  "memalign h boundary sz =
     (let p = ALIGN_UP (free_mem_ptr h) boundary;
          h = h\<lparr>free_mem_ptr := p + sz, free_last_alloc_ptr := p\<rparr>
      in if heap_end h \<le> free_mem_ptr h then (0, h) else (p, h))"

definition c_malloc :: "malloc_heap \<Rightarrow> size_t \<Rightarrow> addr \<times> malloc_heap" where
  "c_malloc h sz = memalign h 8 sz"

definition c_calloc :: "memory \<Rightarrow> malloc_heap \<Rightarrow> size_t \<Rightarrow> size_t \<Rightarrow> memory \<times> addr \<times> malloc_heap" where
  "c_calloc m h nitems sz =
     (case c_malloc h (nitems * sz) of (p, h) \<Rightarrow>
        (if p \<noteq> 0 then memset_bytes m p 0 (unat (nitems * sz)) else m, p, h))"

definition c_free :: "malloc_heap \<Rightarrow> addr \<Rightarrow> malloc_heap" where
  "c_free h ptr =
     (if ptr = 0 then h
      else if ptr < heap_start h \<or> heap_end h \<le> ptr then h
      else if ptr = free_last_alloc_ptr h
      then h\<lparr>free_mem_ptr := free_last_alloc_ptr h, free_last_alloc_ptr := 0\<rparr>
      else h)"

text \<open>
  A request that fails leaves the pointer behind the end, so that the top of the blocks need not be below it. The address that
  \<^verbatim>\<open>free()\<close> would rewind to lies above all blocks, or is the newest.
\<close>

definition heap_rep :: "addr \<Rightarrow> addr \<Rightarrow> malloc_heap \<Rightarrow> mem_block list \<Rightarrow> nat \<Rightarrow> bool" where
  "heap_rep s e h st k \<longleftrightarrow>
     heap_start h = s \<and> heap_end h = e \<and> s \<noteq> 0 \<and> stacked (unat s) (unat (free_mem_ptr h)) st \<and>
     (\<forall>(p, z)\<in>set st. unat p + unat z < unat e \<and> 8 dvd unat p) \<and>
     (if k = 0 then free_last_alloc_ptr h = 0 \<or> stacked (unat s) (unat (free_last_alloc_ptr h)) st
      else k = 1 \<and> st \<noteq> [] \<and> free_last_alloc_ptr h = fst (hd st))"

definition heap_fits :: "malloc_heap \<Rightarrow> size_t \<Rightarrow> bool" where
  "heap_fits h z \<longleftrightarrow> unat (free_mem_ptr h) + 7 + unat z < 2 ^ 64"

lemma malloc_rep:
  assumes r: "heap_rep s e h st k" and f: "heap_fits h z" and a: "c_malloc h z = (p, h')"
  shows "heap_rep s e h' (if p = 0 then st else (p, z) # st) (if p = 0 then 0 else 1)"
proof -
  let ?p = "ALIGN_UP (free_mem_ptr h) (2 ^ 3)"
  have lt: "unat (free_mem_ptr h) + (2 ^ 3 - 1) < 2 ^ 64" using f by (simp add: heap_fits_def)
  have ge: "unat (free_mem_ptr h) \<le> unat ?p"
    using ALIGN_UP_ge [of 3 "free_mem_ptr h"] lt by (simp add: word_le_nat_alt)
  have al: "8 dvd unat ?p" and up: "unat ?p < unat (free_mem_ptr h) + 8"
    using unat_ALIGN_UP [of 3 "free_mem_ptr h"] lt round_up_lt [of 8 "unat (free_mem_ptr h)"] by simp_all
  have u: "unat (?p + z) = unat ?p + unat z"
    by (rule unat_add_no_wrap) (use f up in \<open>simp add: heap_fits_def\<close>)
  have st: "stacked (unat s) (unat (free_mem_ptr h)) st" using r by (simp add: heap_rep_def)
  have sp: "stacked (unat s) (unat ?p) st" by (rule stacked_top [OF st ge])
  have h': "h' = h\<lparr>free_mem_ptr := ?p + z, free_last_alloc_ptr := ?p\<rparr>" "p = (if e \<le> ?p + z then 0 else ?p)"
    using a r by (auto simp: c_malloc_def memalign_def Let_def heap_rep_def split: if_splits)
  have "?p \<noteq> 0"
  proof
    assume "?p = 0"
    with ge stacked_bot [OF st] have "unat s = 0" by simp
    with r show False by (simp add: heap_rep_def unat_eq_zero)
  qed
  show ?thesis
  proof (cases "e \<le> ?p + z")
    case True
    have "stacked (unat s) (unat (?p + z)) st" by (rule stacked_top [OF sp]) (use u in simp)
    with True h' sp r show ?thesis by (simp add: heap_rep_def)
  next
    case False
    then have "unat ?p + unat z < unat e" using u by (simp add: word_le_nat_alt)
    with False h' sp r al u \<open>?p \<noteq> 0\<close> show ?thesis by (simp add: heap_rep_def)
  qed
qed

lemma free_rep_top:
  assumes r: "heap_rep s e h ((p, z) # st) (Suc k)"
  shows "heap_rep s e (c_free h p) st k"
proof -
  from r have k: "k = 0" "free_last_alloc_ptr h = p" and st: "stacked (unat s) (unat p) st"
    and e: "unat p + unat z < unat e" and s: "s \<noteq> 0" "heap_start h = s" "heap_end h = e"
    by (simp_all add: heap_rep_def split: if_splits)
  have "s \<le> p" using stacked_bot [OF st] by (simp add: word_le_nat_alt)
  moreover have "p < e" using e by (simp add: word_less_nat_alt)
  moreover from calculation s(1) have "p \<noteq> 0" by auto
  ultimately have "c_free h p = h\<lparr>free_mem_ptr := p, free_last_alloc_ptr := 0\<rparr>" using k s by (simp add: c_free_def)
  with r st k show ?thesis by (simp add: heap_rep_def)
qed

lemma free_rep_other:
  assumes r: "heap_rep s e h st k" and o: "k = 0 \<or> st = [] \<or> fst (hd st) \<noteq> p"
  shows "heap_rep s e (c_free h p) st k"
proof (cases "p = free_last_alloc_ptr h \<and> p \<noteq> 0 \<and> \<not> (p < s \<or> e \<le> p)")
  case True
  with r o have "k = 0" by (auto simp: heap_rep_def split: if_splits)
  with True r show ?thesis by (auto simp: heap_rep_def c_free_def)
next
  case False
  with r have "c_free h p = h" by (auto simp: heap_rep_def c_free_def)
  with r show ?thesis by simp
qed

interpretation heap_alloc: lifo_allocator c_malloc c_free heap_fits "heap_rep s e" 1
proof unfold_locales
  fix h st k z p h'
  assume "heap_rep s e h st k" "heap_fits h z" "c_malloc h z = (p, h')" "p \<noteq> 0"
  then show "heap_rep s e h' ((p, z) # st) (min 1 (Suc k))" using malloc_rep by fastforce
next
  fix h st k z h'
  assume "heap_rep s e h st k" "heap_fits h z" "c_malloc h z = (0, h')"
  then show "\<exists>k'\<le>k. heap_rep s e h' st k'" using malloc_rep by fastforce
next
  fix h st k
  assume "heap_rep s e h st k"
  then show "separate st" using stacked_separate by (auto simp: heap_rep_def)
qed (rule free_rep_top, assumption, rule free_rep_other, assumption+)

lemma heap_rep_start: "s \<noteq> 0 \<Longrightarrow> heap_rep s e (heap_init s e) [] 0"
  by (simp add: heap_rep_def heap_init_def)

subsection \<open>Properties\<close>




text \<open>
  A request that fails leaves the heap exhausted for good: the pointer stays behind the end, and giving the newest block back does
  not rewind it, as \<^verbatim>\<open>free_last_alloc_ptr\<close> has been overwritten by the failing call.
\<close>

theorem malloc_failure_is_final:
  assumes "heap_rep s e h st k" "heap_fits h z" "c_malloc h z = (0, h')"
  shows "(\<forall>z'. heap_fits h' z' \<longrightarrow> fst (c_malloc h' z') = 0) \<and> (\<forall>(p, y)\<in>set st. y \<noteq> 0 \<longrightarrow> c_free h' p = h')"
proof -
  let ?p = "ALIGN_UP (free_mem_ptr h) (2 ^ 3)"
  have "unat (free_mem_ptr h) + (2 ^ 3 - 1) < 2 ^ 64" using assms(2) by (simp add: heap_fits_def)
  from ALIGN_UP_ge [OF _ this] have ge: "unat (free_mem_ptr h) \<le> unat ?p" by (simp add: word_le_nat_alt)
  from assms(1) have st: "stacked (unat s) (unat (free_mem_ptr h)) st" "s \<noteq> 0" by (simp_all add: heap_rep_def)
  have p0: "?p \<noteq> 0"
  proof
    assume "?p = 0"
    with ge stacked_bot [OF st(1)] have "unat s = 0" by simp
    with st(2) show False by (simp add: unat_eq_zero)
  qed
  then have h': "h' = h\<lparr>free_mem_ptr := ?p + z, free_last_alloc_ptr := ?p\<rparr>" "e \<le> ?p + z" "heap_end h = e"
    using assms(1,3) by (auto simp: c_malloc_def memalign_def Let_def heap_rep_def split: if_splits)
  have "fst (c_malloc h' z') = 0" if f: "heap_fits h' z'" for z'
  proof -
    let ?q = "ALIGN_UP (free_mem_ptr h') (2 ^ 3)"
    have lt: "unat (free_mem_ptr h') + (2 ^ 3 - 1) < 2 ^ 64" using f by (simp add: heap_fits_def)
    from ALIGN_UP_ge [OF _ lt] have q: "unat (free_mem_ptr h') \<le> unat ?q" by (simp add: word_le_nat_alt)
    have "unat ?q < unat (free_mem_ptr h') + 8"
      using unat_ALIGN_UP [of 3 "free_mem_ptr h'"] lt round_up_lt [of 8 "unat (free_mem_ptr h')"] by simp
    then have "unat (?q + z') = unat ?q + unat z'"
      by (intro unat_add_no_wrap) (use f in \<open>simp add: heap_fits_def\<close>)
    with q h' have "e \<le> ?q + z'" by (simp add: word_le_nat_alt)
    with h'(1,3) show ?thesis by (simp add: c_malloc_def memalign_def Let_def)
  qed
  moreover have "c_free h' p = h'" if "(p, y) \<in> set st" "y \<noteq> 0" for p y
  proof -
    have "unat p + unat y \<le> unat (free_mem_ptr h)" using stacked_blocks [OF st(1) that(1)] by simp
    moreover have "0 < unat y" using that(2) by (simp add: unat_gt_0)
    ultimately have "p \<noteq> ?p" using ge by auto
    with h'(1) show ?thesis by (simp add: c_free_def)
  qed
  ultimately show ?thesis by blast
qed

end
