(* ===== verification/Spec2Isabelle.thy ===== *)
theory Spec2Isabelle
  imports BootMem RegionFile Cbmem IoBuf Timer ResourceAllocator BootState MtrrEarly CbfsMcache Lz4Format Heap
begin

text \<open>
  \<^bold>\<open>A verified model of the memory and storage core of coreboot\<close>

  The repository is coreboot, boot firmware in C. A boot runs as a chain of stages (bootblock, romstage,
  postcar, ramstage, then a payload). This development models the library code the stages share to
  manage memory, address space, non-volatile storage, time and wire formats: code that is compiled for
  every board and on whose invariants the rest of the firmware rests. All paths are below
  \<^verbatim>\<open>src/src/\<close> of the repository.

  \<^bold>\<open>Parts and how they interact\<close>

  \<^item> \<open>MemRange\<close>: \<^verbatim>\<open>lib/memrange.c\<close>, an address space as a sorted list of tagged ranges. \<open>BootMem\<close> and
    \<open>ResourceAllocator\<close> are its clients.
  \<^item> \<open>BootMem\<close>: \<^verbatim>\<open>lib/bootmem.c\<close>, the memory map handed to payload and operating system. It is filled
    from the resources of the device tree (\<open>Device\<close>) and from what CBMEM reports.
  \<^item> \<open>ResourceAllocator\<close>: \<^verbatim>\<open>device/resource_allocator_v4.c\<close> with
    \<^verbatim>\<open>device/resource_allocator_common.c\<close>, which gives the PCI devices their address windows. Pass 1
    lays requests out relative to the bridge windows, pass 2 steals space for them from the ranges of a
    domain.
  \<^item> \<open>Imd\<close> and \<open>Cbmem\<close>: \<^verbatim>\<open>lib/imd.c\<close> and \<^verbatim>\<open>lib/imd_cbmem.c\<close>, an allocator that lives in memory,
    survives from one stage to the next and is found again from its end address alone. CBMEM is the one
    directory that all stages after memory training share; it reports its entries to \<open>BootMem\<close> and to the
    coreboot table.
  \<^item> \<open>Region\<close> and \<open>RegionFile\<close>: \<^verbatim>\<open>commonlib/region.c\<close>, windows on storage devices, and
    \<^verbatim>\<open>lib/region_file.c\<close>, a log of updates kept on such a window (flash).
  \<^item> \<open>Cbfs\<close> and \<open>CbfsMcache\<close>: \<^verbatim>\<open>commonlib/bsd/cbfs_private.c\<close> and \<^verbatim>\<open>commonlib/bsd/cbfs_mcache.c\<close>,
    the file system on the boot medium, a client of \<open>Region\<close>, and the cache of its metadata.
  \<^item> \<open>Lz4\<close> and \<open>Lz4Format\<close>: \<^verbatim>\<open>commonlib/bsd/lz4_wrapper.c\<close> and \<^verbatim>\<open>commonlib/bsd/lz4.c.inc\<close>, the decoder for
    compressed files, which may run in place, its input in the output buffer.
  \<^item> \<open>Heap\<close>: \<^verbatim>\<open>commonlib/mem_pool.c\<close>, the pool behind the cache of CBFS mappings, and \<^verbatim>\<open>lib/malloc.c\<close>, from
    which \<open>MemRange\<close> takes its list cells.
  \<^item> \<open>IoBuf\<close>: \<^verbatim>\<open>commonlib/iobuf.c\<close> and \<^verbatim>\<open>commonlib/endian.h\<close>, bounded input and output buffers.
  \<^item> \<open>Timer\<close>: \<^verbatim>\<open>lib/timer_queue.c\<close>, \<^verbatim>\<open>include/timer.h\<close> and \<^verbatim>\<open>lib/timer.c\<close>, the heap of pending
    callbacks, stopwatches and delays.
  \<^item> \<open>BootState\<close>: \<^verbatim>\<open>lib/hardwaremain.c\<close>, the state machine that runs the ramstage with its callbacks; it
    polls the timers of \<open>Timer\<close> and can be blocked until one of them fires.

  \<^item> \<open>MtrrBlocks\<close>, \<open>MtrrVar\<close>, \<open>MtrrSetup\<close> and \<open>MtrrEarly\<close>: \<^verbatim>\<open>cpu/x86/mtrr/mtrr.c\<close> and
    \<^verbatim>\<open>cpu/x86/mtrr/earlymtrr.c\<close>, the registers that give every physical address its cache type. The address
    space is built with \<open>MemRange\<close> from the resources that \<open>ResourceAllocator\<close> has placed.

  \<^bold>\<open>Theories\<close>

  \<^item> \<open>Prelude\<close>: names of the C integer types, the alignment macros of \<^verbatim>\<open>commonlib/bsd/helpers.h\<close> with
    their arithmetic meaning, the lemma collection \<open>unat_simps\<close> that moves from words to naturals.
  \<^item> \<open>Device\<close>: \<^verbatim>\<open>struct resource\<close>, its flags, and \<^verbatim>\<open>search_global_resources\<close> of
    \<^verbatim>\<open>device/device_util.c\<close> as a fold over the selected resources.
  \<^item> \<open>AddressPool\<close>: the locale \<open>address_pool\<close>, the contract of a pool from which aligned blocks are taken one
    after the other, with the lemmas for a client that serves a list of requests. \<open>ResourceAllocator\<close>
    interprets it as \<open>pool\<close> on the ranges of a domain with \<open>memranges_steal\<close>, and its pass 2 rests on it.
  \<^item> \<open>AddressMap\<close>: the locale \<open>address_map\<close>, the contract of a map built by writing ranges over each
    other, with the last-writer-wins lemmas. \<open>MemRange\<close> interprets it as \<open>pages\<close>; the boot memory map
    and CBMEM's report rest on it.
  \<^item> \<open>MemRange\<close>: the records \<open>range_entry\<close> and \<open>memranges\<close> and one definition per function of the C file.
    A state is the pair of a range list with its free list, and the number of cells \<^verbatim>\<open>malloc\<close> can still
    deliver. Invariant \<open>ranges_ok\<close> (non-empty, disjoint, sorted); meaning \<open>tag_at\<close>. The lemmas
    \<open>insert_facts\<close>, \<open>hole_facts\<close>, \<open>steal_facts\<close>, \<open>fill_holes_facts\<close> give each operation its effect
    address by address.
  \<^item> \<open>BootMem\<close>: the record of the two maps and the flags of \<^verbatim>\<open>bootmem.c\<close>. The published table is refined
    to the sequence of typed ranges it was built from.
  \<^item> \<open>ResourceAllocator\<close>: the device tree as the datatype \<open>dev\<close>, the resources in a store from identities
    to \<^verbatim>\<open>struct resource\<close>, as the code compares pointers to them. \<open>allocation_order\<close> is the order of the
    loops that ask for the next largest resource, \<open>window_layout\<close> what pass 1 promises, \<open>granted\<close> and
    \<open>no_room\<close> what pass 2 promises, \<open>allocatable\<close> the addresses a domain has for a type.
  \<^item> \<open>Memory\<close>: byte-addressed memory with little-endian loads and stores, shared by the theories below.
  \<^item> \<open>Region\<close>: regions, and memory, translated, paired and driver-backed devices as the datatype
    \<open>device_kind\<close>, each with the operations of its table of function pointers. The locale \<open>storage\<close> is
    what a client of a device relies on (reads return what was written); it is interpreted on mapped
    memory as \<open>mem_store\<close>.
  \<^item> \<open>RegionFile\<close>: the states of \<^verbatim>\<open>struct region_file\<close> and every step of an update, over any device of
    the contract \<open>storage\<close>. A well-formed log is stated on the bytes of the device.
  \<^item> \<open>Cbfs\<close>: metadata is a byte list and every access to it is checked. The reference is the list of headers
    of the medium (\<open>cbfs_headers\<close>), which \<open>walk_loop_refines\<close> shows the loop to visit. The locale
    \<open>cbfs_media\<close> is what \<^verbatim>\<open>cbfs_private.h\<close> asks of the storage; every \<open>storage\<close> is one (sublocale \<open>cbfs\<close>),
    and so is mapped flash (\<open>rom\<close>). The locale \<open>cbfs_walker\<close> is what a callback owes the walk; it is
    interpreted for the lookup (\<open>lookup\<close>) and, in \<open>CbfsMcache\<close>, for the building of the cache (\<open>build\<close>).
  \<^item> \<open>CbfsMcache\<close>: the cache as a byte list that holds entries for a prefix of the files and a final tag
    (\<open>mcache_holds\<close>).
  \<^item> \<open>Lz4\<close>: the decoder over a memory with natural numbers for pointers, their width a parameter, and buffers against
    which every access is checked. \<open>copied\<close> is what a copying loop leaves behind, \<open>step_ok\<close> what a turn of the main loop may
    do. \<open>Lz4Format\<close>: a block as a list of sequences with its bytes (\<open>lz4_encode\<close>) and its meaning (\<open>lz4_expand\<close>),
    a frame as a list of blocks. The locale \<open>block_decoder\<close> is what the loop over the blocks needs of the
    block decoder, interpreted as \<open>lz4\<close>.
  \<^item> \<open>Imd\<close>: handles are pairs of addresses; root, entries and allocations are bytes of the memory. \<open>imd_ok\<close>
    is the invariant; \<open>blocks\<close> is the list of allocations (identifier, address, size) it means.
  \<^item> \<open>Cbmem\<close>: the stages, the two sources of the top address, the hooks run on initialisation, the quick
    memory test of \<^verbatim>\<open>lib/ramtest.c\<close>.
  \<^item> \<open>Heap\<close>: the records \<open>mem_pool\<close> and \<open>malloc_heap\<close>. The locale \<open>lifo_allocator\<close> is what an allocator promises that takes
    back its newest blocks only; it is interpreted for both (\<open>pool_alloc\<close>, \<open>heap_alloc\<close>).
  \<^item> \<open>IoBuf\<close>: buffers over the memory. The locale \<open>wire_format\<close> states that a value of n bytes written is
    the value read; it is interpreted for both byte orders and all four widths.
  \<^item> \<open>Timer\<close>: \<open>mono_time\<close> is an instance of \<open>linorder\<close>; the locale \<open>priority_queue\<close> is the contract the
    heap gives its client \<open>timers_run\<close>, interpreted as \<open>timers\<close>.
  \<^item> \<open>BootState\<close>: the record \<open>machine\<close> extends the state of the timers; the callbacks of a phase are a
    linked list in a store of next pointers. What callbacks, timers and states do is a parameter
    (\<open>hooks\<close>); \<open>uses_api\<close> are the ways in which they may change the machine. \<open>phase_steps\<close> is the loop of a
    phase as a relation, \<open>reaches\<close> the machines at the head of the main loop, \<open>in_order\<close> its invariant.

  \<^item> \<open>MtrrBlocks\<close>: the bit searches of \<^verbatim>\<open>include/lib.h\<close>, the split of a range of pages into aligned blocks
    (\<open>mtrr_blocks\<close>) with an induction rule for it, the encoding of a block and what the processor makes of it
    (\<open>var_mtrr_match\<close>, from the processor manual). \<open>MtrrVar\<close>: the plan of a range and of an address space
    as a list of typed blocks, which the loops are shown to write, and the type every address gets from it.
    \<open>MtrrSetup\<close>: the fixed registers as 88 slots, the address space of the device tree as a sequence of
    writes, the static variables (\<open>mtrr_globals\<close>) and the entry points. \<open>MtrrEarly\<close>: the context a romstage
    hands to the postcar stage, reduced to the same block search.

  \<^bold>\<open>How the code is represented\<close>

  Integers have the width of the C type on a 64-bit target and wrap as there (\<open>Lz4\<close> has the width as a parameter): \<^verbatim>\<open>size_t\<close>,
  \<^verbatim>\<open>uintptr_t\<close> and \<^verbatim>\<open>unsigned long\<close> are 64 bits. Pointers into raw memory are addresses; pointers to
  structures are list positions (range entries), identities (resources, timer callbacks) or absent when
  nothing else refers to the structure. A C function that writes through a pointer argument returns the
  new value; its error codes are an option or a Boolean. A failed assertion or \<^verbatim>\<open>die()\<close> is \<open>None\<close> of an
  option that the operation otherwise returns, as is an access outside an array; a loop that need not end is a \<open>partial_function\<close> and a
  run that does not end is \<open>None\<close> as well. No definition uses fuel. The loops of this form are the update
  loop of the region file, the loops of CBFS, the waiting loops of \<open>Timer\<close>, \<open>for_largest\<close> of \<open>ResourceAllocator\<close> and the loops
  of \<open>BootState\<close>; for each there is a theorem that says when it ends, and for the region file and the
  allocator one that says when it does not.

  Parameters of the model: the driver behind a region device, the readings of the platform timer, the
  scheduler's answer to a delay, the top of memory that the chipset reports, the ranges other parts
  report to bootmem, the board's Kconfig choices. The number of list cells is bounded as in the code; a
  theorem says how many suffice.

  \<^bold>\<open>What the theorems show\<close>

  \<^item> Range maps: exact effect of every operation on every address; a steal is sound and optimal.
  \<^item> Boot memory map: the table is the last-writer-wins map of the ranges; it is frozen once
    written; buffer allocation and range queries are exact.
  \<^item> Resource allocation: the selection loop is a stable sort by alignment and size; what is assigned is
    aligned, free, below its limit and disjoint, behind bridges too, and what is left out does not fit.
  \<^item> IMD and CBMEM: creation, allocation, removal and recovery keep the directory and every
    allocation; a later stage finds what an earlier one left; the boot memory map protects it.
  \<^item> Region devices: a child cannot reach beyond its parent; what is written is read back through any
    nesting.
  \<^item> Region file: opening finds the last update by binary search; an update that can fit
    ends, is found again and reads back.
  \<^item> CBFS: a walk visits the files in order and ends exactly when headers lead onwards; lookup finds
    the first file of a name; with a hash it answers only if all metadata has the expected digest; the
    cache answers as the medium does. Media are below 4 GiB, names shorter than 2 to the 63.
  \<^item> LZ4: the decoder keeps inside its buffers whatever its input; a well-formed frame gives its contents, and
    what is accepted as a block is one. Buffers are below 2 GiB and above the lowest 64 KiB.
  \<^item> Pools and heap: the blocks a client holds are separate, in whatever order it allocates and releases.
  \<^item> Buffers: messages round-trip; a window confines its writers.
  \<^item> Timers: the heap is a priority queue; callbacks fire in the order of their deadlines; waiting loops
    end.
  \<^item> Memory types: after the set up every address has the type its resources ask for; the registers are
    legal and as few as possible; temporary ranges take effect and can be undone. The theorems assume
    physical addresses of 33 to 52 bits and, for write-back memory, page numbers below 2 to the 31, beyond which
    the 32-bit arithmetic of the code would not do.
  \<^item> Boot states: the states run in order and at most once; the entries of a phase run once each; a blocked
    phase waits for its timer; the walk ends when its rounds do.

  Some theorems state where the code fails: regions that wrap, sizes beyond the width of a stored
  offset, an update that can never fit, resources reached twice, callbacks scheduled too late or twice, memory that ends
  inside a slot of the fixed registers, a file header that leads back to itself, attributes inside a file header, compressed
  data that is overwritten in place, requests for memory whose end wraps around, a match length that makes a pointer wrap around, a match with offset zero.
  Each names inputs on which the code misbehaves.

  \<^bold>\<open>Not modelled\<close>

  Console output, and hardware registers other than the memory type registers. Of the modelled files: the copy
  of a mapping into a memory pool in \<^verbatim>\<open>region.c\<close>, the functions of \<^verbatim>\<open>device_util.c\<close> that name, print or
  edit devices, the macros of \<^verbatim>\<open>helpers.h\<close> no modelled code uses. The loading of CBFS files, LZMA, the
  dictionaries and partial decoding that the LZ4 block decoder could be instantiated with, the relocation and loading of stages and payloads, cooperative
  threads, the coreboot table writers, the console in CBMEM, ACPI and SMBIOS generation,
  TPM, graphics and the board, chipset and vendor code are outside this development.
\<close>

end
